(* ===== verification/PyPrelude.thy ===== *)
theory PyPrelude
  imports Main "HOL-Library.Word"
begin

unbundle bit_operations_syntax

text \<open>
  What every component shares: the C integer types of the code, the exceptions an operation of
  the interpreter can raise, the result type of an operation that can fail, and the facts about
  words, lists and results that the component proofs use.
  \<^item> An operation that can raise returns \<open>pyerr + 'a\<close>: \<open>Inl\<close> is the exception (the source
    returns \<open>NULL\<close> or \<open>-1\<close> with the exception set), \<open>Inr\<close> the value.
  \<^item> \<open>AssertionFailed\<close> is the value of a run that violates an \<open>assert\<close> of the source or leaves
    the bounds of a C array; the component theorems show that it is never reached.
  \<^item> Unsigned C integers are words of their width (\<open>digit\<close> is \<open>uint32_t\<close>, \<open>twodigits\<close> is
    \<open>uint64_t\<close>), so that wrap-around is the word type's own. Signed C integers are \<open>int\<close>, since
    their overflow is undefined behaviour in C; lemmas bound them where it matters.
\<close>

section \<open>Types\<close>

type_synonym digit = "32 word"
type_synonym twodigits = "64 word"
type_synonym size_t = "64 word"
type_synonym py_byte = "8 word"

datatype pyerr =
    OverflowError
  | ValueError
  | ZeroDivisionError
  | IndexError
  | KeyError
  | TypeError
  | RuntimeError
  | MemoryError
  | UserError nat
  | AssertionFailed

type_synonym 'a pyres = "pyerr + 'a"

definition PY_SSIZE_T_MAX :: int where
  "PY_SSIZE_T_MAX = 9223372036854775807"

named_theorems word_unat \<open>reading words as natural numbers\<close>
named_theorems c_bounds \<open>ranges of machine values\<close>

section \<open>Results\<close>

definition rbind :: "'e + 'a \<Rightarrow> ('a \<Rightarrow> 'e + 'b) \<Rightarrow> 'e + 'b" where
  "rbind m f = (case m of Inl e \<Rightarrow> Inl e | Inr x \<Rightarrow> f x)"

lemma rbind_simps [simp]:
  "rbind (Inl e) f = Inl e"
  "rbind (Inr x) f = f x"
  by (simp_all add: rbind_def)

lemma rbind_eq_Inr [simp]:
  "rbind m f = Inr y \<longleftrightarrow> (\<exists>x. m = Inr x \<and> f x = Inr y)"
  by (cases m) auto

lemma rbind_eq_Inl:
  "rbind m f = Inl e \<longleftrightarrow> m = Inl e \<or> (\<exists>x. m = Inr x \<and> f x = Inl e)"
  by (cases m) auto

lemma rbind_cong [fundef_cong]:
  "m = m' \<Longrightarrow> (\<And>x. m' = Inr x \<Longrightarrow> f x = f' x) \<Longrightarrow> rbind m f = rbind m' f'"
  by (cases m') auto

lemma rbind_assoc:
  "rbind (rbind m f) g = rbind m (\<lambda>x. rbind (f x) g)"
  by (cases m) auto

text \<open>\<open>c_assert b\<close> is \<open>assert(b)\<close>: it returns nothing when \<open>b\<close> holds.\<close>

definition c_assert :: "bool \<Rightarrow> unit pyres" where
  "c_assert b = (if b then Inr () else Inl AssertionFailed)"

lemma c_assert_simps [simp]:
  "c_assert True = Inr ()"
  "c_assert b = Inr u \<longleftrightarrow> b"
  "c_assert b = Inl e \<longleftrightarrow> \<not> b \<and> e = AssertionFailed"
  by (auto simp: c_assert_def)

section \<open>Words\<close>

lemma unat_add_small [word_unat]:
  fixes a b :: "'a::len word"
  assumes "unat a + unat b < 2 ^ LENGTH('a)"
  shows "unat (a + b) = unat a + unat b"
  using assms by (simp add: unat_add_lem [symmetric])

lemma unat_mult_small [word_unat]:
  fixes a b :: "'a::len word"
  assumes "unat a * unat b < 2 ^ LENGTH('a)"
  shows "unat (a * b) = unat a * unat b"
  using assms by (simp add: unat_mult_lem [symmetric])

lemma unat_drop_bit_div [word_unat]:
  "unat (drop_bit n (w :: 'a::len word)) = unat w div 2 ^ n"
  by (simp add: unat_drop_bit_eq drop_bit_eq_div [of n "unat w"])

lemma unat_take_bit_mod:
  "unat (take_bit n (w :: 'a::len word)) = unat w mod 2 ^ n"
  by (simp add: unsigned_take_bit_eq take_bit_eq_mod [of n "unat w"])

lemma unat_and_mask [word_unat]:
  "unat (w AND mask n :: 'a::len word) = unat w mod 2 ^ n"
  by (simp add: unat_take_bit_mod flip: take_bit_eq_mask)

lemma unat_push_bit_small [word_unat]:
  fixes w :: "'a::len word"
  assumes "unat w * 2 ^ n < 2 ^ LENGTH('a)"
  shows "unat (push_bit n w) = unat w * 2 ^ n"
proof -
  have "unat (push_bit n w) = take_bit LENGTH('a) (unat w * 2 ^ n)"
    by (simp add: unsigned_push_bit_eq push_bit_eq_mult [of n "unat w"])
  also have "\<dots> = unat w * 2 ^ n"
    using assms by (simp add: take_bit_nat_eq_self)
  finally show ?thesis .
qed

lemma unat_ucast_small [word_unat]:
  fixes w :: "'a::len word"
  assumes "unat w < 2 ^ LENGTH('b)"
  shows "unat (ucast w :: 'b::len word) = unat w"
  using assms by (simp add: unsigned_ucast_eq take_bit_nat_eq_self)

lemma unat_ucast_up [word_unat]:
  fixes w :: "'a::len word"
  assumes "LENGTH('a) \<le> LENGTH('b)"
  shows "unat (ucast w :: 'b::len word) = unat w"
proof (rule unat_ucast_small)
  have "unat w < 2 ^ LENGTH('a)" by simp
  also have "\<dots> \<le> 2 ^ LENGTH('b)" using assms by simp
  finally show "unat w < 2 ^ LENGTH('b)" .
qed

text \<open>A disjunction of words without common bits is their sum.\<close>

lemma nat_or_disjoint:
  fixes a b :: nat
  assumes "b < 2 ^ n"
  shows "(a * 2 ^ n) OR b = a * 2 ^ n + b"
proof -
  have "(a * 2 ^ n) AND b = 0"
  proof (rule bit_eqI)
    fix k
    show "bit ((a * 2 ^ n) AND b) k = bit (0::nat) k"
      using assms bit_take_bit_iff [of n b k]
      by (auto simp: bit_and_iff bit_push_bit_iff take_bit_nat_eq_self simp flip: push_bit_eq_mult)
  qed
  then show ?thesis by (simp add: disjunctive_add_eq_or)
qed

lemma unat_or_disjoint:
  fixes a b :: "'a::len word"
  assumes "unat a = x * 2 ^ n" and "unat b < 2 ^ n"
  shows "unat (a OR b) = unat a + unat b"
  using assms nat_or_disjoint [of "unat b" n x] by (simp add: unsigned_or_eq)

text \<open>Splitting a column at 30 bits.\<close>

lemma split_nat_30: "(n :: nat) mod 2 ^ 30 + 2 ^ 30 * (x + n div 2 ^ 30) = n + 2 ^ 30 * x"
  using mod_mult_div_eq [of n "2 ^ 30"] by (simp only: distrib_left)

section \<open>Division of C integers\<close>

text \<open>\<open>/\<close> and \<open>%\<close> on signed C integers truncate towards zero.\<close>

definition c_div :: "int \<Rightarrow> int \<Rightarrow> int" where
  "c_div a b = sgn a * sgn b * (\<bar>a\<bar> div \<bar>b\<bar>)"

definition c_mod :: "int \<Rightarrow> int \<Rightarrow> int" where
  "c_mod a b = sgn a * (\<bar>a\<bar> mod \<bar>b\<bar>)"

lemma c_div_nonneg: "0 \<le> a \<Longrightarrow> 0 < b \<Longrightarrow> c_div a b = a div b"
  by (cases "a = 0") (simp_all add: c_div_def)

lemma c_mod_nonneg: "0 \<le> a \<Longrightarrow> 0 < b \<Longrightarrow> c_mod a b = a mod b"
  by (cases "a = 0") (simp_all add: c_mod_def)

lemma c_div_mod: "c_div a b * b + c_mod a b = a"
proof -
  have "c_div a b * b = sgn a * (\<bar>a\<bar> div \<bar>b\<bar> * \<bar>b\<bar>)"
    by (simp add: c_div_def sgn_mult_abs abs_sgn algebra_simps)
  moreover have "sgn a * (\<bar>a\<bar> div \<bar>b\<bar> * \<bar>b\<bar>) + sgn a * (\<bar>a\<bar> mod \<bar>b\<bar>) = sgn a * \<bar>a\<bar>"
    by (simp only: distrib_left [symmetric] div_mult_mod_eq)
  ultimately show ?thesis by (simp add: c_mod_def sgn_mult_abs)
qed

text \<open>A value known modulo \<open>M\<close> and known to be in range is known.\<close>

lemma mod_range_unique:
  fixes x y k M :: int
  assumes "x = y - k * M" and "0 \<le> x" "x < M" "0 \<le> y" "y < M"
  shows "x = y"
proof -
  have "x mod M = y mod M" unfolding assms(1) by (simp add: mod_diff_eq flip: mod_diff_right_eq)
  then show ?thesis using assms(2-5) by (simp add: mod_pos_pos_trivial)
qed

section \<open>C arrays as lists\<close>

text \<open>\<open>memcpy(arr + off, xs, length xs)\<close> inside one array.\<close>

definition array_write :: "'a list \<Rightarrow> nat \<Rightarrow> 'a list \<Rightarrow> 'a list" where
  "array_write arr off xs = take off arr @ xs @ drop (off + length xs) arr"

lemma length_array_write [simp]:
  "off + length xs \<le> length arr \<Longrightarrow> length (array_write arr off xs) = length arr"
  by (simp add: array_write_def)

lemma array_write_at_0:
  "array_write arr 0 xs = xs @ drop (length xs) arr"
  by (simp add: array_write_def)

end
