(* ===== verification/PyLongRep.thy ===== *)
theory PyLongRep
  imports PyPrelude
begin

text \<open>
  Representation of the interpreter's arbitrary-precision integers (\<open>Include/longintrepr.h\<close> and
  the conversions of \<open>Objects/longobject.c\<close>). An integer object is a signed size and an array of
  30-bit digits, least significant first; the sign of the size is the sign of the number.
  The theory holds the object, its well-formedness \<open>wf_long\<close>, the value \<open>long_val\<close> it denotes,
  allocation and normalisation, the conversions from and to C integers, the bit length and the
  hash. The digits that allocation leaves uninitialised hold the trash pattern of the debug
  build, which is no digit, so \<open>wf_long\<close> of a result says that all of them were overwritten.
\<close>

section \<open>The object\<close>

definition PyLong_SHIFT :: nat where "PyLong_SHIFT = 30"
definition PyLong_BASE :: digit where "PyLong_BASE = push_bit 30 1"
definition PyLong_MASK :: digit where "PyLong_MASK = PyLong_BASE - 1"

record pylong =
  ob_refcnt :: nat
  ob_size :: int
  ob_digit :: "digit list"

text \<open>\<open>Py_ABS(Py_SIZE(v))\<close> and the digits it delimits.\<close>

definition nd :: "pylong \<Rightarrow> nat" where
  "nd v = nat \<bar>ob_size v\<bar>"

definition digits :: "pylong \<Rightarrow> digit list" where
  "digits v = take (nd v) (ob_digit v)"

primrec dval :: "digit list \<Rightarrow> nat" where
  "dval [] = 0"
| "dval (d # ds) = unat d + 2 ^ 30 * dval ds"

definition long_val :: "pylong \<Rightarrow> int" where
  "long_val v = (if ob_size v < 0 then - int (dval (digits v)) else int (dval (digits v)))"

definition digit_ok :: "digit \<Rightarrow> bool" where
  "digit_ok d \<longleftrightarrow> unat d < 2 ^ 30"

definition MAX_LONG_DIGITS :: int where
  "MAX_LONG_DIGITS = (PY_SSIZE_T_MAX - 24) div 4"

definition wf_long :: "pylong \<Rightarrow> bool" where
  "wf_long v \<longleftrightarrow>
     nd v \<le> length (ob_digit v) \<and> list_all digit_ok (digits v) \<and>
     (0 < nd v \<longrightarrow> ob_digit v ! (nd v - 1) \<noteq> 0) \<and>
     int (nd v) \<le> MAX_LONG_DIGITS \<and> 0 < ob_refcnt v"

section \<open>Allocation, normalisation, small integers\<close>

definition uninit_digit :: digit where
  "uninit_digit = 0xDFDFDFDF"

definition PyLong_New :: "int \<Rightarrow> pylong pyres" where
  "PyLong_New sz =
     (if sz > MAX_LONG_DIGITS then Inl OverflowError
      else Inr \<lparr>ob_refcnt = 1, ob_size = sz, ob_digit = replicate (nat sz) uninit_digit\<rparr>)"

fun norm_loop :: "digit list \<Rightarrow> nat \<Rightarrow> nat" where
  "norm_loop ds 0 = 0"
| "norm_loop ds (Suc i) = (if ds ! i = 0 then norm_loop ds i else Suc i)"

definition long_normalize :: "pylong \<Rightarrow> pylong" where
  "long_normalize v =
     (let j = nd v; i = norm_loop (ob_digit v) j
      in if i \<noteq> j then v\<lparr>ob_size := (if ob_size v < 0 then - int i else int i)\<rparr> else v)"

text \<open>
  The assertion of \<open>MEDIUM_VALUE\<close>, that there is at most one digit, is the test of the branch it is
  used in, except in \<open>_PyLong_Negate\<close>, which has it written out.
\<close>

definition MEDIUM_VALUE :: "pylong \<Rightarrow> int" where
  "MEDIUM_VALUE x =
     (if ob_size x < 0 then - sint (ob_digit x ! 0)
      else if ob_size x = 0 then 0
      else sint (ob_digit x ! 0))"

definition NSMALLNEGINTS :: int where "NSMALLNEGINTS = 5"
definition NSMALLPOSINTS :: int where "NSMALLPOSINTS = 257"

definition IS_SMALL_INT :: "int \<Rightarrow> bool" where
  "IS_SMALL_INT ival \<longleftrightarrow> - NSMALLNEGINTS \<le> ival \<and> ival < NSMALLPOSINTS"

text \<open>
  The interpreter's table of small integers holds a reference to each of them, so the object
  that \<open>get_small_int\<close> returns has at least two.
\<close>

definition small_int_entry :: "int \<Rightarrow> pylong" where
  "small_int_entry ival =
     \<lparr>ob_refcnt = 1,
      ob_size = (if ival < 0 then -1 else if ival = 0 then 0 else 1),
      ob_digit = [word_of_int \<bar>ival\<bar>]\<rparr>"

definition get_small_int :: "int \<Rightarrow> pylong" where
  "get_small_int ival = (let v = small_int_entry ival in v\<lparr>ob_refcnt := ob_refcnt v + 1\<rparr>)"

definition maybe_small_long :: "pylong \<Rightarrow> pylong" where
  "maybe_small_long v =
     (if nd v \<le> 1 \<and> IS_SMALL_INT (MEDIUM_VALUE v) then get_small_int (MEDIUM_VALUE v) else v)"

section \<open>From C integers\<close>

function ulong_digits :: "64 word \<Rightarrow> digit list" where
  "ulong_digits t =
     (if t = 0 then [] else ucast (t AND ucast PyLong_MASK) # ulong_digits (drop_bit 30 t))"
  by pat_completeness auto
termination
proof (relation "measure unat")
  fix t :: "64 word"
  assume "t \<noteq> 0"
  then have "0 < unat t" by (simp add: unat_gt_0)
  then show "(drop_bit 30 t, t) \<in> measure unat"
    by (simp add: unat_drop_bit_div)
qed simp

declare ulong_digits.simps [simp del]

definition PyLong_FromLong :: "int \<Rightarrow> pylong pyres" where
  "PyLong_FromLong ival =
     (if IS_SMALL_INT ival then Inr (get_small_int ival)
      else
        let abs_ival = (if ival < 0 then 0 - word_of_int ival else word_of_int ival :: 64 word);
            sign = (if ival < 0 then -1 else if ival = 0 then 0 else 1 :: int)
        in if drop_bit 30 abs_ival = 0 then
             rbind (PyLong_New 1) (\<lambda>v. Inr (v\<lparr>ob_size := sign, ob_digit := [ucast abs_ival]\<rparr>))
           else
             let ds = ulong_digits abs_ival
             in rbind (PyLong_New (int (length ds)))
                  (\<lambda>v. Inr (v\<lparr>ob_size := int (length ds) * sign, ob_digit := ds\<rparr>)))"

definition PyLong_FromLongLong :: "int \<Rightarrow> pylong pyres" where
  "PyLong_FromLongLong ival =
     (if IS_SMALL_INT ival then Inr (get_small_int ival)
      else
        let negative = ival < 0;
            abs_ival = (if negative then word_of_int (-1 - ival) + 1 else word_of_int ival :: 64 word);
            ds = ulong_digits abs_ival;
            ndigits = int (length ds)
        in rbind (PyLong_New ndigits)
             (\<lambda>v. Inr (v\<lparr>ob_size := (if negative then - ndigits else ndigits), ob_digit := ds\<rparr>)))"

text \<open>On a 64-bit platform \<open>Py_ssize_t\<close> is \<open>long long\<close>, and the source repeats the code.\<close>

definition PyLong_FromSsize_t :: "int \<Rightarrow> pylong pyres" where
  "PyLong_FromSsize_t ival = PyLong_FromLongLong ival"

definition PyLong_FromUnsignedLong :: "64 word \<Rightarrow> pylong pyres" where
  "PyLong_FromUnsignedLong ival =
     (if ival < word_of_int NSMALLPOSINTS then Inr (get_small_int (uint ival))
      else
        let ds = ulong_digits ival
        in rbind (PyLong_New (int (length ds))) (\<lambda>v. Inr (v\<lparr>ob_digit := ds\<rparr>)))"

definition PyLong_Negate :: "pylong \<Rightarrow> pylong pyres" where
  "PyLong_Negate x =
     (if ob_refcnt x = 1 then Inr (x\<lparr>ob_size := - ob_size x\<rparr>)
      else rbind (c_assert (nd x \<le> 1)) (\<lambda>_. PyLong_FromLong (- MEDIUM_VALUE x)))"

definition PyLong_Copy :: "pylong \<Rightarrow> pylong pyres" where
  "PyLong_Copy src =
     (if nd src < 2 \<and> IS_SMALL_INT (MEDIUM_VALUE src) then Inr (get_small_int (MEDIUM_VALUE src))
      else rbind (PyLong_New (int (nd src)))
             (\<lambda>r. Inr (r\<lparr>ob_size := ob_size src, ob_digit := digits src\<rparr>)))"

definition long_long :: "pylong \<Rightarrow> pylong" where
  "long_long v = v\<lparr>ob_refcnt := ob_refcnt v + 1\<rparr>"

section \<open>Digit vectors and their value\<close>

lemma PyLong_MASK_eq: "PyLong_MASK = mask 30"
  by (simp add: PyLong_MASK_def PyLong_BASE_def mask_eq_exp_minus_1 push_bit_eq_mult)

lemma ucast_PyLong_MASK: "(ucast PyLong_MASK :: 64 word) = mask 30"
  by (simp add: PyLong_MASK_eq mask_eq_exp_minus_1)

lemma unat_PyLong_BASE: "unat PyLong_BASE = 2 ^ 30"
  by (simp add: PyLong_BASE_def)

lemma unat_and_MASK [simp, word_unat]: "unat (w AND PyLong_MASK) = unat w mod 2 ^ 30"
  by (simp only: PyLong_MASK_eq unat_and_mask)

lemma unat_and_MASK64 [simp, word_unat]:
  "unat ((w :: 64 word) AND ucast PyLong_MASK) = unat w mod 2 ^ 30"
  by (simp only: ucast_PyLong_MASK unat_and_mask)

lemma digit_ok_and_MASK [simp]: "digit_ok (w AND PyLong_MASK)"
  by (simp add: digit_ok_def)

lemma unat_ucast_and_MASK64 [simp]:
  "unat (ucast ((w :: 64 word) AND ucast PyLong_MASK) :: digit) = unat w mod 2 ^ 30"
proof -
  have "unat w mod 2 ^ 30 < 2 ^ 32"
    using mod_less_divisor [of "2 ^ 30" "unat w"] by (simp del: mod_less_divisor)
  then show ?thesis
    by (subst unat_ucast_small) simp_all
qed

lemma digit_ok_ucast_and_MASK64 [simp]:
  "digit_ok (ucast ((w :: 64 word) AND ucast PyLong_MASK))"
  by (simp add: digit_ok_def)

lemma digit_ok_bit:
  assumes "digit_ok d" and "bit d n"
  shows "n < 30"
proof (rule ccontr)
  assume "\<not> n < 30"
  then have "unat d div 2 ^ n = 0"
    using assms(1) unfolding digit_ok_def
    by (metis div_less leI less_le_trans one_le_numeral power_increasing)
  then have "drop_bit n d = 0" by (metis unat_drop_bit_div unat_eq_zero)
  then have "\<not> bit (drop_bit n d) 0" by simp
  then show False using assms(2) by (simp add: bit_drop_bit_eq)
qed

lemma dval_append: "dval (xs @ ys) = dval xs + 2 ^ (30 * length xs) * dval ys"
  by (induction xs) (simp_all add: algebra_simps power_add)

lemma dval_replicate_0 [simp]: "dval (replicate n 0) = 0"
  by (induction n) simp_all

lemma dval_bound: "list_all digit_ok ds \<Longrightarrow> dval ds < 2 ^ (30 * length ds)"
proof (induction ds)
  case (Cons d ds)
  then have "unat d + 2 ^ 30 * dval ds < 2 ^ 30 + 2 ^ 30 * dval ds"
    by (simp add: digit_ok_def)
  also have "\<dots> = 2 ^ 30 * Suc (dval ds)" by simp
  also have "\<dots> \<le> 2 ^ 30 * 2 ^ (30 * length ds)"
    using Cons by (intro mult_le_mono2) (simp add: Suc_le_eq)
  finally show ?case by (simp add: power_add)
qed simp

lemma dval_take_drop: "dval ds = dval (take n ds) + 2 ^ (30 * min (length ds) n) * dval (drop n ds)"
  using dval_append [of "take n ds" "drop n ds"] by simp

lemma list_all_digit_ok_take [intro]: "list_all digit_ok ds \<Longrightarrow> list_all digit_ok (take n ds)"
  by (simp add: list_all_iff) (meson in_set_takeD)

lemma list_all_digit_ok_drop [intro]: "list_all digit_ok ds \<Longrightarrow> list_all digit_ok (drop n ds)"
  by (simp add: list_all_iff) (meson in_set_dropD)

lemma digit_ok_nth: "list_all digit_ok ds \<Longrightarrow> i < length ds \<Longrightarrow> unat (ds ! i) < 2 ^ 30"
  by (simp add: list_all_length digit_ok_def)

text \<open>The most significant digit decides the magnitude.\<close>

lemma dval_top_lower:
  assumes "0 < length ds"
  shows "2 ^ (30 * (length ds - 1)) * unat (last ds) \<le> dval ds"
proof -
  from assms have "ds = butlast ds @ [last ds]" by simp
  then have "dval ds = dval (butlast ds) + 2 ^ (30 * (length ds - 1)) * unat (last ds)"
    using dval_append [of "butlast ds" "[last ds]"] by simp
  then show ?thesis by simp
qed

lemma dval_lower_normalized:
  assumes "0 < length ds" and "last ds \<noteq> 0"
  shows "2 ^ (30 * (length ds - 1)) \<le> dval ds"
proof -
  have "1 \<le> unat (last ds)"
    using assms(2) by (simp add: Suc_le_eq unat_gt_0)
  then have "2 ^ (30 * (length ds - 1)) * 1 \<le> 2 ^ (30 * (length ds - 1)) * unat (last ds)"
    by (rule mult_le_mono2)
  also note dval_top_lower [OF assms(1)]
  finally show ?thesis by (simp only: mult_1_right)
qed

lemma dval_inj:
  "list_all digit_ok xs \<Longrightarrow> list_all digit_ok ys \<Longrightarrow> length xs = length ys \<Longrightarrow>
   dval xs = dval ys \<Longrightarrow> xs = ys"
proof (induction xs ys rule: list_induct2')
  case (4 x xs y ys)
  then have eq: "unat x + 2 ^ 30 * dval xs = unat y + 2 ^ 30 * dval ys" by simp
  from 4 have lt: "unat x < 2 ^ 30" "unat y < 2 ^ 30" by (simp_all add: digit_ok_def)
  from eq have "(unat x + 2 ^ 30 * dval xs) mod 2 ^ 30 = (unat y + 2 ^ 30 * dval ys) mod 2 ^ 30"
    by (rule arg_cong)
  with lt have "unat x = unat y" by simp
  with eq 4 show ?case by (simp add: unsigned_word_eqI)
qed simp_all

section \<open>Normalisation\<close>

lemma norm_loop_le: "norm_loop ds i \<le> i"
  by (induction i) auto

lemma norm_loop_top: "0 < norm_loop ds i \<Longrightarrow> ds ! (norm_loop ds i - 1) \<noteq> 0"
  by (induction i) (auto split: if_splits)

lemma norm_loop_fix: "0 < i \<Longrightarrow> ds ! (i - 1) \<noteq> 0 \<Longrightarrow> norm_loop ds i = i"
  by (cases i) auto

lemma dval_take_norm_loop:
  "i \<le> length ds \<Longrightarrow> dval (take (norm_loop ds i) ds) = dval (take i ds)"
  by (induction i) (simp_all add: take_Suc_conv_app_nth dval_append)

lemma nd_long_normalize: "nd (long_normalize v) = norm_loop (ob_digit v) (nd v)"
  by (auto simp: long_normalize_def Let_def nd_def)

lemma nd_long_normalize_le: "nd (long_normalize v) \<le> nd v"
  by (simp add: nd_long_normalize norm_loop_le)

lemma long_normalize_fields [simp]:
  "ob_digit (long_normalize v) = ob_digit v"
  "ob_refcnt (long_normalize v) = ob_refcnt v"
  by (simp_all add: long_normalize_def Let_def)

lemma dval_long_normalize:
  "nd v \<le> length (ob_digit v) \<Longrightarrow> dval (digits (long_normalize v)) = dval (digits v)"
  by (simp add: digits_def nd_long_normalize dval_take_norm_loop)

lemma long_val_normalize:
  assumes "nd v \<le> length (ob_digit v)"
  shows "long_val (long_normalize v) = long_val v"
proof -
  let ?i = "norm_loop (ob_digit v) (nd v)"
  have sz: "ob_size (long_normalize v) < 0 \<longleftrightarrow> ob_size v < 0 \<and> 0 < ?i"
    by (auto simp: long_normalize_def Let_def nd_def)
  have "?i = 0 \<Longrightarrow> dval (digits v) = 0"
    using dval_take_norm_loop [OF assms] by (simp add: digits_def)
  then show ?thesis
    using dval_long_normalize [OF assms] sz by (auto simp: long_val_def)
qed

text \<open>
  The routines build a fresh object from a digit vector and normalise it. One lemma says what
  comes out: a well-formed object with the value of the vector.
\<close>

lemma wf_long_normalize:
  assumes "nd v \<le> length (ob_digit v)" and "list_all digit_ok (take (nd v) (ob_digit v))"
    and "int (nd v) \<le> MAX_LONG_DIGITS" and "0 < ob_refcnt v"
  shows "wf_long (long_normalize v)"
proof -
  have le: "norm_loop (ob_digit v) (nd v) \<le> nd v" by (rule norm_loop_le)
  then have "take (norm_loop (ob_digit v) (nd v)) (ob_digit v)
      = take (norm_loop (ob_digit v) (nd v)) (take (nd v) (ob_digit v))"
    by (simp add: min_absorb1)
  moreover have "0 < norm_loop (ob_digit v) (nd v) \<Longrightarrow>
      ob_digit v ! (norm_loop (ob_digit v) (nd v) - 1) \<noteq> 0"
    by (rule norm_loop_top)
  ultimately show ?thesis
    using assms le
    by (simp add: wf_long_def digits_def nd_long_normalize list_all_digit_ok_take
        del: take_take)
qed

lemma wf_long_digits:
  assumes "wf_long v"
  shows "list_all digit_ok (digits v)" and "length (digits v) = nd v"
    and "0 < nd v \<Longrightarrow> last (digits v) \<noteq> 0"
proof -
  show "list_all digit_ok (digits v)" and len: "length (digits v) = nd v"
    using assms by (simp_all add: wf_long_def digits_def)
  assume pos: "0 < nd v"
  then have "last (digits v) = digits v ! (nd v - 1)"
    using len by (metis last_conv_nth length_greater_0_conv)
  then show "last (digits v) \<noteq> 0"
    using assms pos by (simp add: wf_long_def digits_def)
qed

lemma wf_long_refcnt: "wf_long v \<Longrightarrow> 0 < ob_refcnt v"
  and wf_long_nd_max: "wf_long v \<Longrightarrow> int (nd v) \<le> MAX_LONG_DIGITS"
  and wf_long_alloc: "wf_long v \<Longrightarrow> nd v \<le> length (ob_digit v)"
  by (simp_all add: wf_long_def)

lemma PyLong_New_Inr [simp]:
  "PyLong_New sz = Inr v \<longleftrightarrow> sz \<le> MAX_LONG_DIGITS \<and>
     v = \<lparr>ob_refcnt = 1, ob_size = sz, ob_digit = replicate (nat sz) uninit_digit\<rparr>"
  by (auto simp: PyLong_New_def)

lemma PyLong_New_Inl [simp]:
  "PyLong_New sz = Inl e \<longleftrightarrow> MAX_LONG_DIGITS < sz \<and> e = OverflowError"
  by (auto simp: PyLong_New_def)

lemma nd_simps [simp]:
  "nd (v\<lparr>ob_digit := ds\<rparr>) = nd v"
  "nd (v\<lparr>ob_refcnt := r\<rparr>) = nd v"
  "nd (v\<lparr>ob_size := s\<rparr>) = nat \<bar>s\<bar>"
  "nd \<lparr>ob_refcnt = r, ob_size = s, ob_digit = ds\<rparr> = nat \<bar>s\<bar>"
  by (simp_all add: nd_def)

text \<open>The result of filling a fresh object with \<open>ds\<close> and normalising it.\<close>

lemma fill_normalize:
  assumes "list_all digit_ok ds" and "\<bar>s\<bar> = int (length ds)" and "\<bar>s\<bar> \<le> MAX_LONG_DIGITS" and "0 < r"
    and v: "v = \<lparr>ob_refcnt = r, ob_size = s, ob_digit = ds\<rparr>"
  shows "wf_long (long_normalize v)"
    and "long_val (long_normalize v) = (if s < 0 then - int (dval ds) else int (dval ds))"
    and "nd (long_normalize v) \<le> length ds"
proof -
  from assms have nd: "nd v = length ds" "nd v \<le> length (ob_digit v)" by simp_all
  then show "wf_long (long_normalize v)"
    using assms by (intro wf_long_normalize) simp_all
  show "long_val (long_normalize v) = (if s < 0 then - int (dval ds) else int (dval ds))"
  proof -
    have "long_val v = (if s < 0 then - int (dval ds) else int (dval ds))"
      using assms nd by (simp add: long_val_def digits_def)
    then show ?thesis using long_val_normalize [OF nd(2)] by simp
  qed
  show "nd (long_normalize v) \<le> length ds"
    using nd nd_long_normalize_le [of v] by simp
qed

section \<open>Small values\<close>

lemma long_val_nd_0: "nd v = 0 \<Longrightarrow> long_val v = 0"
  by (simp add: long_val_def digits_def)

lemma long_val_0_iff:
  assumes "wf_long v"
  shows "long_val v = 0 \<longleftrightarrow> ob_size v = 0"
proof
  assume "long_val v = 0"
  then have "dval (digits v) = 0" by (simp add: long_val_def split: if_splits)
  then have "\<not> 0 < nd v"
    using dval_lower_normalized [of "digits v"] wf_long_digits [OF assms] by auto
  then show "ob_size v = 0" by (simp add: nd_def)
qed (simp add: long_val_def digits_def nd_def)

lemma long_val_sign:
  assumes "wf_long v"
  shows "long_val v < 0 \<longleftrightarrow> ob_size v < 0" and "0 < long_val v \<longleftrightarrow> 0 < ob_size v"
  using long_val_0_iff [OF assms] by (auto simp: long_val_def split: if_splits)

lemma digits_nd_1: "nd v = 1 \<Longrightarrow> wf_long v \<Longrightarrow> digits v = [ob_digit v ! 0]"
  by (cases "ob_digit v") (simp_all add: wf_long_def digits_def)

lemma sint_digit:
  fixes d :: digit
  assumes "digit_ok d"
  shows "sint d = int (unat d)"
proof -
  have "int (unat d) < int (2 ^ 30)"
    using assms unfolding digit_ok_def by (simp only: of_nat_less_iff)
  then have lt: "uint d < 1073741824" by simp
  have "- (2 ^ 31) \<le> (0 :: int)" by simp
  also have "0 \<le> uint d" by simp
  finally have "- (2 ^ 31) \<le> uint d" .
  moreover have "uint d < 2 ^ 31" using lt by simp
  ultimately have "signed_take_bit 31 (uint d) = uint d"
    by (rule signed_take_bit_int_eq_self)
  then show ?thesis by (simp add: sint_uint)
qed

lemma MEDIUM_VALUE_val:
  assumes "wf_long v" and "nd v \<le> 1"
  shows "MEDIUM_VALUE v = long_val v"
proof (cases "nd v = 0")
  case True
  then show ?thesis by (simp add: MEDIUM_VALUE_def nd_def long_val_nd_0)
next
  case False
  with assms have nd: "nd v = 1" by simp
  with assms(1) have ds: "digits v = [ob_digit v ! 0]" by (rule digits_nd_1 [rotated])
  with wf_long_digits(1) [OF assms(1)] have "digit_ok (ob_digit v ! 0)" by simp
  with ds False show ?thesis
    by (simp add: MEDIUM_VALUE_def long_val_def sint_digit nd_def)
qed

lemma medium_abs_bound:
  assumes "wf_long v" and "nd v \<le> 1"
  shows "\<bar>long_val v\<bar> < 2 ^ 30"
proof -
  have "dval (digits v) < 2 ^ (30 * nd v)"
    using dval_bound [of "digits v"] wf_long_digits [OF assms(1)] by simp
  also have "\<dots> \<le> 2 ^ 30"
    using assms(2) by (cases "nd v") auto
  finally show ?thesis by (simp add: long_val_def)
qed

lemma small_bounds:
  "IS_SMALL_INT i \<Longrightarrow> \<bar>i\<bar> < 257 \<and> -5 \<le> i"
  by (auto simp: IS_SMALL_INT_def NSMALLNEGINTS_def NSMALLPOSINTS_def)

lemma MAX_LONG_DIGITS_val: "MAX_LONG_DIGITS = 2305843009213693945"
  by (simp add: MAX_LONG_DIGITS_def PY_SSIZE_T_MAX_def)

lemma unat_of_int_nat:
  "0 \<le> i \<Longrightarrow> i < 2 ^ LENGTH('a) \<Longrightarrow> unat (word_of_int i :: 'a::len word) = nat i"
  by (simp add: unsigned_of_int take_bit_int_eq_self nat_take_bit_eq)

lemma get_small_int_correct:
  assumes "IS_SMALL_INT i"
  shows "wf_long (get_small_int i)" and "long_val (get_small_int i) = i"
    and "nd (get_small_int i) \<le> 1" and "ob_refcnt (get_small_int i) = 2"
proof -
  from small_bounds [OF assms] have b: "\<bar>i\<bar> < 257" by simp
  then have u: "unat (word_of_int \<bar>i\<bar> :: digit) = nat \<bar>i\<bar>"
    by (intro unat_of_int_nat) simp_all
  then have nz: "i \<noteq> 0 \<Longrightarrow> (word_of_int \<bar>i\<bar> :: digit) \<noteq> 0"
    by (metis abs_eq_0 abs_ge_zero nat_0_iff order_antisym unat_0)
  have ui: "uint (word_of_int \<bar>i\<bar> :: digit) = \<bar>i\<bar>"
    using b by (simp add: unsigned_of_int take_bit_int_eq_self)
  from b u nz ui show "wf_long (get_small_int i)" and "long_val (get_small_int i) = i"
    and "nd (get_small_int i) \<le> 1" and "ob_refcnt (get_small_int i) = 2"
    by (auto simp: get_small_int_def small_int_entry_def wf_long_def digits_def nd_def digit_ok_def
        long_val_def MAX_LONG_DIGITS_val Let_def)
qed

lemma maybe_small_long_correct:
  assumes "wf_long v"
  shows "wf_long (maybe_small_long v)" and "long_val (maybe_small_long v) = long_val v"
  using assms get_small_int_correct MEDIUM_VALUE_val
  by (auto simp: maybe_small_long_def)

text \<open>\<open>ulong_digits\<close> lists the base-\<open>2\<^sup>3\<^sup>0\<close> digits of a word, without leading zeros.\<close>

lemma ulong_digits_0 [simp]: "ulong_digits 0 = []"
  by (simp add: ulong_digits.simps)

lemma ulong_digits_correct:
  "list_all digit_ok (ulong_digits t) \<and> dval (ulong_digits t) = unat t \<and>
   (t \<noteq> 0 \<longrightarrow> ulong_digits t \<noteq> [] \<and> last (ulong_digits t) \<noteq> 0)"
proof (induction t rule: ulong_digits.induct)
  case (1 t)
  show ?case
  proof (cases "t = 0")
    case False
    let ?r = "drop_bit 30 t"
    from 1 [OF False] have IH: "list_all digit_ok (ulong_digits ?r)"
      "dval (ulong_digits ?r) = unat t div 2 ^ 30"
      "?r \<noteq> 0 \<Longrightarrow> ulong_digits ?r \<noteq> [] \<and> last (ulong_digits ?r) \<noteq> 0"
      by (simp_all add: unat_drop_bit_div)
    have "dval (ulong_digits t) = unat t"
      using False IH(2) by (subst ulong_digits.simps) simp
    moreover have "last (ulong_digits t) \<noteq> 0"
    proof (cases "?r = 0")
      case True
      then have "unat t div 2 ^ 30 = 0" using unat_drop_bit_div [of 30 t] by simp
      then have "unat t mod 2 ^ 30 = unat t" by (simp add: div_eq_0_iff)
      then have "unat (ucast (t AND ucast PyLong_MASK) :: digit) \<noteq> 0"
        using False by (simp only: unat_ucast_and_MASK64 unat_eq_zero simp_thms)
      then have "(ucast (t AND ucast PyLong_MASK) :: digit) \<noteq> 0" by (metis unat_0)
      then show ?thesis using False True by (subst ulong_digits.simps) simp
    next
      case nz: False
      then show ?thesis using False IH(3) by (subst ulong_digits.simps) simp
    qed
    ultimately show ?thesis
      using False IH(1) by (subst (1 3) ulong_digits.simps) simp
  qed simp
qed

lemma ulong_digits_length: "length (ulong_digits t) \<le> 3"
proof -
  let ?ds = "ulong_digits t"
  have "length ?ds - 1 < 3" if ne: "?ds \<noteq> []"
  proof (rule ccontr)
    assume "\<not> length ?ds - 1 < 3"
    then have "(2::nat) ^ (30 * 3) \<le> 2 ^ (30 * (length ?ds - 1))"
      by (intro power_increasing) simp_all
    also have "\<dots> \<le> dval ?ds"
      using ne ulong_digits_correct [of t] by (intro dval_lower_normalized) auto
    also have "\<dots> < 2 ^ 64"
      using ulong_digits_correct [of t] unsigned_less [of t] by simp
    finally show False by simp
  qed
  then show ?thesis by (cases "?ds = []") auto
qed

lemma maybe_small_long_nd:
  assumes "wf_long v"
  shows "nd (maybe_small_long v) \<le> max 1 (nd v)"
  using get_small_int_correct(3) by (auto simp: maybe_small_long_def max_def intro: le_trans)

lemma unat_abs_ulong:
  assumes "- (2 ^ 63) \<le> i" and "i < 2 ^ 63"
  shows "unat (if i < 0 then 0 - word_of_int i else word_of_int i :: 64 word) = nat \<bar>i\<bar>"
proof -
  have "(if i < 0 then 0 - word_of_int i else word_of_int i :: 64 word) = word_of_int \<bar>i\<bar>"
    by simp
  also have "unat (word_of_int \<bar>i\<bar> :: 64 word) = nat \<bar>i\<bar>"
    using assms by (intro unat_of_int_nat) simp_all
  finally show ?thesis .
qed

text \<open>
  A value built from digits of its own, least significant first and without a leading zero,
  is well formed as it stands.
\<close>

lemma fill_exact:
  assumes "list_all digit_ok ds" and "ds \<noteq> [] \<Longrightarrow> last ds \<noteq> 0" and "\<bar>s\<bar> = int (length ds)"
    and "int (length ds) \<le> MAX_LONG_DIGITS" and "0 < r"
    and v: "v = \<lparr>ob_refcnt = r, ob_size = s, ob_digit = ds\<rparr>"
  shows "wf_long v" and "long_val v = (if s < 0 then - int (dval ds) else int (dval ds))"
  using assms by (auto simp: wf_long_def digits_def long_val_def nd_def last_conv_nth)

lemma PyLong_FromLong_correct:
  assumes "- (2 ^ 63) \<le> i" and "i < 2 ^ 63"
  shows "\<exists>v. PyLong_FromLong i = Inr v \<and> wf_long v \<and> long_val v = i \<and> nd v \<le> 3"
proof (cases "IS_SMALL_INT i")
  case True
  then show ?thesis
    using get_small_int_correct [OF True] by (auto simp: PyLong_FromLong_def)
next
  case big: False
  then have nz: "i \<noteq> 0" by (auto simp: IS_SMALL_INT_def NSMALLNEGINTS_def NSMALLPOSINTS_def)
  define a where "a = (if i < 0 then 0 - word_of_int i else word_of_int i :: 64 word)"
  define sg where "sg = (if i < 0 then -1 else if i = 0 then 0 else 1 :: int)"
  have ua: "unat a = nat \<bar>i\<bar>" unfolding a_def using assms by (rule unat_abs_ulong)
  have a0: "a \<noteq> 0" using ua nz by auto
  have F: "PyLong_FromLong i =
      (if drop_bit 30 a = 0 then
         rbind (PyLong_New 1) (\<lambda>v. Inr (v\<lparr>ob_size := sg, ob_digit := [ucast a]\<rparr>))
       else rbind (PyLong_New (int (length (ulong_digits a))))
         (\<lambda>v. Inr (v\<lparr>ob_size := int (length (ulong_digits a)) * sg, ob_digit := ulong_digits a\<rparr>)))"
    using big by (simp add: PyLong_FromLong_def a_def sg_def Let_def)
  let ?ds = "if drop_bit 30 a = 0 then [ucast a] else ulong_digits a"
  let ?v = "\<lparr>ob_refcnt = 1, ob_size = int (length ?ds) * sg, ob_digit = ?ds\<rparr>"
  have ds: "list_all digit_ok ?ds \<and> ?ds \<noteq> [] \<and> last ?ds \<noteq> 0 \<and> dval ?ds = nat \<bar>i\<bar> \<and> length ?ds \<le> 3"
  proof (cases "drop_bit 30 a = 0")
    case True
    then have "unat a div 2 ^ 30 = 0" using unat_drop_bit_div [of 30 a] by simp
    then have lt: "unat a < 2 ^ 30" by (simp add: div_eq_0_iff)
    then have u: "unat (ucast a :: digit) = unat a" by (intro unat_ucast_small) simp
    then have "(ucast a :: digit) \<noteq> 0" using a0 by (metis unat_eq_zero)
    with True lt u ua show ?thesis by (simp add: digit_ok_def)
  next
    case False
    then show ?thesis
      using a0 ua ulong_digits_correct [of a] ulong_digits_length [of a] by simp
  qed
  have "wf_long ?v" and "long_val ?v = (if int (length ?ds) * sg < 0 then - int (dval ?ds) else int (dval ?ds))"
    using ds nz by (intro fill_exact [where ds = ?ds and r = 1 and s = "int (length ?ds) * sg"];
        simp add: sg_def abs_mult MAX_LONG_DIGITS_val)+
  moreover have "int (length ?ds) * sg < 0 \<longleftrightarrow> i < 0"
    using ds by (auto simp: sg_def mult_less_0_iff)
  ultimately have "wf_long ?v \<and> long_val ?v = i \<and> nd ?v \<le> 3"
    using ds by (simp add: nd_def sg_def abs_mult)
  moreover have "PyLong_FromLong i = Inr ?v"
    using F ds by (auto simp: MAX_LONG_DIGITS_val)
  ultimately show ?thesis by blast
qed

lemma PyLong_FromLongE:
  assumes "- (2 ^ 63) \<le> i" and "i < 2 ^ 63"
  obtains v where "PyLong_FromLong i = Inr v" "wf_long v" "long_val v = i" "nd v \<le> 3"
  using PyLong_FromLong_correct [OF assms] by blast

text \<open>The two conversions differ only in a fast path for one digit.\<close>

lemma ulong_digits_single:
  assumes "a \<noteq> 0" and "drop_bit 30 a = 0"
  shows "ulong_digits a = [ucast a]"
proof -
  have "unat a div 2 ^ 30 = 0" using assms(2) unat_drop_bit_div [of 30 a] by simp
  then have lt: "unat a < 2 ^ 30" by (simp add: div_eq_0_iff)
  have "unat (ucast (a AND ucast PyLong_MASK) :: digit) = unat (ucast a :: digit)"
    using lt by (subst (2) unat_ucast_small) simp_all
  then have "(ucast (a AND ucast PyLong_MASK) :: digit) = ucast a"
    by (simp only: word_unat_eq_iff)
  then show ?thesis using assms by (subst ulong_digits.simps) simp
qed

lemma PyLong_FromLongLong_eq:
  assumes "- (2 ^ 63) \<le> i" and "i < 2 ^ 63"
  shows "PyLong_FromLongLong i = PyLong_FromLong i"
proof (cases "IS_SMALL_INT i")
  case True
  then show ?thesis by (simp add: PyLong_FromLong_def PyLong_FromLongLong_def)
next
  case False
  then have nz: "i \<noteq> 0" by (auto simp: IS_SMALL_INT_def NSMALLNEGINTS_def NSMALLPOSINTS_def)
  define a where "a = (if i < 0 then 0 - word_of_int i else word_of_int i :: 64 word)"
  have a': "(if i < 0 then word_of_int (-1 - i) + 1 else word_of_int i :: 64 word) = a"
    by (simp add: a_def)
  have "unat a = nat \<bar>i\<bar>" unfolding a_def using assms by (rule unat_abs_ulong)
  then have "a \<noteq> 0" using nz by auto
  then have "drop_bit 30 a = 0 \<Longrightarrow> ulong_digits a = [ucast a]" by (rule ulong_digits_single)
  then show ?thesis
    unfolding PyLong_FromLong_def PyLong_FromLongLong_def Let_def a' a_def [symmetric]
    using False nz by (simp add: PyLong_New_def MAX_LONG_DIGITS_val)
qed

lemma PyLong_FromUnsignedLong_correct:
  "\<exists>v. PyLong_FromUnsignedLong w = Inr v \<and> wf_long v \<and> long_val v = uint w"
proof (cases "w < word_of_int NSMALLPOSINTS")
  case True
  then have "uint w < 257" by (simp add: word_less_def NSMALLPOSINTS_def)
  then have "IS_SMALL_INT (uint w)"
    by (simp add: IS_SMALL_INT_def NSMALLNEGINTS_def NSMALLPOSINTS_def order_trans [of _ 0])
  with True show ?thesis
    using get_small_int_correct by (simp add: PyLong_FromUnsignedLong_def)
next
  case False
  then have wnz: "w \<noteq> 0" by (auto simp: NSMALLPOSINTS_def)
  have "wf_long \<lparr>ob_refcnt = 1, ob_size = int (length (ulong_digits w)), ob_digit = ulong_digits w\<rparr>"
    and "long_val \<lparr>ob_refcnt = 1, ob_size = int (length (ulong_digits w)), ob_digit = ulong_digits w\<rparr>
      = int (dval (ulong_digits w))"
    using ulong_digits_correct [of w] ulong_digits_length [of w] wnz
      fill_exact [of "ulong_digits w" "int (length (ulong_digits w))" 1, OF _ _ _ _ _ refl]
    by (simp_all add: MAX_LONG_DIGITS_val)
  moreover have "dval (ulong_digits w) = unat w" using ulong_digits_correct by blast
  ultimately show ?thesis
    using False ulong_digits_length [of w]
    by (auto simp: PyLong_FromUnsignedLong_def Let_def MAX_LONG_DIGITS_val)
qed

section \<open>Two objects to evaluate on\<close>

definition two_digits :: pylong where
  "two_digits = \<lparr>ob_refcnt = 1, ob_size = -2, ob_digit = [7, 3]\<rparr>"

definition one_digit :: pylong where
  "one_digit = \<lparr>ob_refcnt = 1, ob_size = 1, ob_digit = [5]\<rparr>"

lemma samples_wf: "wf_long two_digits" "wf_long one_digit"
  by (simp_all add: wf_long_def digits_def nd_def digit_ok_def MAX_LONG_DIGITS_val take_Cons'
      two_digits_def one_digit_def)

lemma samples_val: "long_val two_digits = - 3221225479" "long_val one_digit = 5"
  by (simp_all add: long_val_def digits_def nd_def take_Cons' two_digits_def one_digit_def)

lemma samples_nd: "nd two_digits = 2" "nd one_digit = 1"
  by (simp_all add: nd_def two_digits_def one_digit_def)

end
