(* ===== verification/PyLongArith.thy ===== *)
theory PyLongArith
  imports PyLongRep
begin

text \<open>
  Addition, subtraction, negation and comparison of integer objects
  (\<open>x_add\<close>, \<open>x_sub\<close>, \<open>long_add\<close>, \<open>long_sub\<close>, \<open>long_neg\<close>, \<open>long_abs\<close>, \<open>long_invert\<close>,
  \<open>long_compare\<close> of \<open>Objects/longobject.c\<close>). The digit loops run over the two vectors with the
  carry or borrow in a 32-bit word; their lemmas say what the vector they write denotes. The
  interface \<open>int_binop\<close> states what a binary operation on integer objects promises: on
  well-formed operands it returns a well-formed object with the exact value, and the only way
  to fail is the \<open>OverflowError\<close> of an allocation beyond \<open>MAX_LONG_DIGITS\<close> digits.
\<close>

section \<open>Adding and subtracting magnitudes\<close>

fun x_add_digits :: "digit \<Rightarrow> digit list \<Rightarrow> digit list \<Rightarrow> digit list" where
  "x_add_digits carry (a # as) (b # bs) =
     (let carry = carry + (a + b)
      in (carry AND PyLong_MASK) # x_add_digits (drop_bit PyLong_SHIFT carry) as bs)"
| "x_add_digits carry (a # as) [] =
     (let carry = carry + a
      in (carry AND PyLong_MASK) # x_add_digits (drop_bit PyLong_SHIFT carry) as [])"
| "x_add_digits carry [] bs = [carry]"

definition x_add :: "pylong \<Rightarrow> pylong \<Rightarrow> pylong pyres" where
  "x_add a b =
     (let (a, b) = (if nd a < nd b then (b, a) else (a, b))
      in rbind (PyLong_New (int (nd a) + 1))
           (\<lambda>z. Inr (long_normalize (z\<lparr>ob_digit := x_add_digits 0 (digits a) (digits b)\<rparr>))))"

text \<open>The borrow is kept to one bit after every digit; the second component is the last one.\<close>

fun x_sub_digits :: "digit \<Rightarrow> digit list \<Rightarrow> digit list \<Rightarrow> digit list \<times> digit" where
  "x_sub_digits borrow (a # as) (b # bs) =
     (let borrow = a - b - borrow;
          (ds, last) = x_sub_digits (drop_bit PyLong_SHIFT borrow AND 1) as bs
      in ((borrow AND PyLong_MASK) # ds, last))"
| "x_sub_digits borrow (a # as) [] =
     (let borrow = a - borrow;
          (ds, last) = x_sub_digits (drop_bit PyLong_SHIFT borrow AND 1) as []
      in ((borrow AND PyLong_MASK) # ds, last))"
| "x_sub_digits borrow [] bs = ([], borrow)"

text \<open>\<open>while (--i >= 0 && a->ob_digit[i] == b->ob_digit[i])\<close>: the highest index where they differ.\<close>

fun top_diff :: "digit list \<Rightarrow> digit list \<Rightarrow> nat \<Rightarrow> nat option" where
  "top_diff as bs 0 = None"
| "top_diff as bs (Suc i) = (if as ! i = bs ! i then top_diff as bs i else Some i)"

definition x_sub_sized :: "int \<Rightarrow> pylong \<Rightarrow> pylong \<Rightarrow> nat \<Rightarrow> nat \<Rightarrow> pylong pyres" where
  "x_sub_sized sign a b size_a size_b =
     rbind (PyLong_New (int size_a)) (\<lambda>z.
       let (ds, borrow) = x_sub_digits 0 (take size_a (ob_digit a)) (take size_b (ob_digit b))
       in rbind (c_assert (borrow = 0)) (\<lambda>_.
         let z = z\<lparr>ob_digit := ds\<rparr>;
             z = (if sign < 0 then z\<lparr>ob_size := - ob_size z\<rparr> else z)
         in Inr (maybe_small_long (long_normalize z))))"

definition x_sub :: "pylong \<Rightarrow> pylong \<Rightarrow> pylong pyres" where
  "x_sub a b =
     (let size_a = nd a; size_b = nd b
      in if size_a < size_b then x_sub_sized (-1) b a size_b size_a
         else if size_a = size_b then
           (case top_diff (ob_digit a) (ob_digit b) size_a of
              None \<Rightarrow> PyLong_FromLong 0
            | Some i \<Rightarrow>
                if ob_digit a ! i < ob_digit b ! i then x_sub_sized (-1) b a (i + 1) (i + 1)
                else x_sub_sized 1 a b (i + 1) (i + 1))
         else x_sub_sized 1 a b size_a size_b)"

section \<open>Signed operations\<close>

definition negate_size :: "pylong \<Rightarrow> pylong" where
  "negate_size z = z\<lparr>ob_size := - ob_size z\<rparr>"

definition long_add :: "pylong \<Rightarrow> pylong \<Rightarrow> pylong pyres" where
  "long_add a b =
     (if nd a \<le> 1 \<and> nd b \<le> 1 then PyLong_FromLong (MEDIUM_VALUE a + MEDIUM_VALUE b)
      else if ob_size a < 0 then
        (if ob_size b < 0 then
           rbind (x_add a b) (\<lambda>z.
             rbind (c_assert (ob_refcnt z = 1)) (\<lambda>_. Inr (negate_size z)))
         else x_sub b a)
      else
        (if ob_size b < 0 then x_sub a b else x_add a b))"

definition long_sub :: "pylong \<Rightarrow> pylong \<Rightarrow> pylong pyres" where
  "long_sub a b =
     (if nd a \<le> 1 \<and> nd b \<le> 1 then PyLong_FromLong (MEDIUM_VALUE a - MEDIUM_VALUE b)
      else if ob_size a < 0 then
        (if ob_size b < 0 then x_sub b a
         else rbind (x_add a b) (\<lambda>z.
                rbind (c_assert (ob_size z = 0 \<or> ob_refcnt z = 1)) (\<lambda>_. Inr (negate_size z))))
      else
        (if ob_size b < 0 then x_add a b else x_sub a b))"

definition long_neg :: "pylong \<Rightarrow> pylong pyres" where
  "long_neg v =
     (if nd v \<le> 1 then PyLong_FromLong (- MEDIUM_VALUE v)
      else rbind (PyLong_Copy v) (\<lambda>z. Inr (z\<lparr>ob_size := - ob_size v\<rparr>)))"

definition long_abs :: "pylong \<Rightarrow> pylong pyres" where
  "long_abs v = (if ob_size v < 0 then long_neg v else Inr (long_long v))"

definition PyLong_One :: pylong where "PyLong_One = get_small_int 1"
definition PyLong_Zero :: pylong where "PyLong_Zero = get_small_int 0"

definition long_invert :: "pylong \<Rightarrow> pylong pyres" where
  "long_invert v =
     (if nd v \<le> 1 then PyLong_FromLong (- (MEDIUM_VALUE v + 1))
      else rbind (long_add v PyLong_One) PyLong_Negate)"

definition long_bool :: "pylong \<Rightarrow> bool" where
  "long_bool v = (ob_size v \<noteq> 0)"

section \<open>Comparison\<close>

fun cmp_digits :: "digit list \<Rightarrow> digit list \<Rightarrow> nat \<Rightarrow> int" where
  "cmp_digits as bs 0 = 0"
| "cmp_digits as bs (Suc i) =
     (let diff = sint (as ! i) - sint (bs ! i)
      in if diff \<noteq> 0 then diff else cmp_digits as bs i)"

definition long_compare :: "pylong \<Rightarrow> pylong \<Rightarrow> int" where
  "long_compare a b =
     (let sign = ob_size a - ob_size b
      in if sign = 0 then
           (let diff = cmp_digits (ob_digit a) (ob_digit b) (nd a)
            in if ob_size a < 0 then - diff else diff)
         else sign)"

datatype cmpop = Py_LT | Py_LE | Py_EQ | Py_NE | Py_GT | Py_GE

fun py_richcompare_int :: "int \<Rightarrow> int \<Rightarrow> cmpop \<Rightarrow> bool" where
  "py_richcompare_int v1 v2 Py_EQ = (v1 = v2)"
| "py_richcompare_int v1 v2 Py_NE = (v1 \<noteq> v2)"
| "py_richcompare_int v1 v2 Py_LT = (v1 < v2)"
| "py_richcompare_int v1 v2 Py_GT = (v1 > v2)"
| "py_richcompare_int v1 v2 Py_LE = (v1 \<le> v2)"
| "py_richcompare_int v1 v2 Py_GE = (v1 \<ge> v2)"

text \<open>The first argument says whether the operands are one object.\<close>

definition long_richcompare :: "bool \<Rightarrow> pylong \<Rightarrow> pylong \<Rightarrow> cmpop \<Rightarrow> bool" where
  "long_richcompare same self other oper =
     py_richcompare_int (if same then 0 else long_compare self other) 0 oper"

section \<open>The digit loops\<close>

lemma PyLong_SHIFT_30 [simp]: "PyLong_SHIFT = 30"
  by (simp add: PyLong_SHIFT_def)

text \<open>One column of an addition: digit and carry out together hold the sum.\<close>

lemma carry_step:
  assumes "unat s < 2 ^ 31"
  shows "unat (s AND PyLong_MASK) + 2 ^ 30 * unat (drop_bit 30 s) = unat (s :: digit)"
    and "unat (drop_bit 30 s) \<le> 1"
proof -
  show "unat (s AND PyLong_MASK) + 2 ^ 30 * unat (drop_bit 30 s) = unat s"
    unfolding unat_and_MASK unat_drop_bit_div by (rule mod_mult_div_eq)
  have "unat s div 2 ^ 30 < 2"
    using assms by (intro less_mult_imp_div_less) simp
  then show "unat (drop_bit 30 s) \<le> 1"
    unfolding unat_drop_bit_div by simp
qed

lemma unat_column2:
  assumes "digit_ok a" and "digit_ok b" and "unat c \<le> 1"
  shows "unat (c + (a + b)) = unat c + unat a + unat b" and "unat (c + (a + b)) < 2 ^ 31"
proof -
  from assms have lt: "unat a < 1073741824" "unat b < 1073741824" by (simp_all add: digit_ok_def)
  then have ab: "unat (a + b) = unat a + unat b" by (intro unat_add_small) simp
  with lt assms(3) show eq: "unat (c + (a + b)) = unat c + unat a + unat b"
    by (subst unat_add_small) simp_all
  with lt assms(3) show "unat (c + (a + b)) < 2 ^ 31" by simp
qed

lemma unat_column1:
  assumes "digit_ok a" and "unat c \<le> 1"
  shows "unat (c + a) = unat c + unat a" and "unat (c + a) < 2 ^ 31"
  using unat_column2 [OF assms(1) _ assms(2), of 0] by (simp_all add: digit_ok_def)

lemma x_add_digits_length:
  "length bs \<le> length as \<Longrightarrow> length (x_add_digits c as bs) = Suc (length as)"
  by (induction c as bs rule: x_add_digits.induct) (simp_all add: Let_def)

lemma x_add_digits_correct:
  assumes "list_all digit_ok as" and "list_all digit_ok bs" and "length bs \<le> length as"
    and "unat c \<le> 1"
  shows "dval (x_add_digits c as bs) = unat c + dval as + dval bs \<and>
    list_all digit_ok (x_add_digits c as bs)"
  using assms
proof (induction c as bs rule: x_add_digits.induct)
  case (1 c a as b bs)
  then have ok: "digit_ok a" "digit_ok b" by simp_all
  let ?s = "c + (a + b)"
  note s = unat_column2 [OF ok 1(5)]
  note st = carry_step [OF s(2)]
  with 1 have "dval (x_add_digits (drop_bit 30 ?s) as bs) =
      unat (drop_bit 30 ?s) + dval as + dval bs \<and> list_all digit_ok (x_add_digits (drop_bit 30 ?s) as bs)"
    by (simp add: Let_def)
  with s st(1) show ?case by (simp add: Let_def del: unat_and_MASK)
next
  case (2 c a as)
  then have ok: "digit_ok a" by simp
  let ?s = "c + a"
  note s = unat_column1 [OF ok 2(5)]
  note st = carry_step [OF s(2)]
  with 2 have "dval (x_add_digits (drop_bit 30 ?s) as []) =
      unat (drop_bit 30 ?s) + dval as \<and> list_all digit_ok (x_add_digits (drop_bit 30 ?s) as [])"
    by (simp add: Let_def)
  with s st(1) show ?case by (simp add: Let_def del: unat_and_MASK)
next
  case (3 c bs)
  then show ?case by (simp add: digit_ok_def)
qed

text \<open>One column of a subtraction.\<close>

lemma unat_and_1: "unat ((w :: 'a::len word) AND 1) = unat w mod 2"
  using unat_and_mask [of w 1] by (simp add: mask_eq_exp_minus_1)

lemma borrow_step:
  fixes a b c :: digit
  assumes "digit_ok a" and "digit_ok b" and "unat c \<le> 1"
  shows "unat ((a - b - c) AND PyLong_MASK) + unat b + unat c =
      unat a + 2 ^ 30 * unat (drop_bit 30 (a - b - c) AND 1)"
    and "unat (drop_bit 30 (a - b - c) AND 1) \<le> 1"
proof -
  from assms have lt: "unat a < 1073741824" "unat b < 1073741824" by (simp_all add: digit_ok_def)
  have bc: "unat (b + c) = unat b + unat c"
    using lt assms(3) by (intro unat_add_small) simp
  let ?t = "a - b - c"
  have t: "?t = a - (b + c)" by (simp add: algebra_simps)
  have "unat (?t AND PyLong_MASK) + unat b + unat c =
      unat a + 2 ^ 30 * unat (drop_bit 30 ?t AND 1) \<and> unat (drop_bit 30 ?t AND 1) \<le> 1"
  proof (cases "unat b + unat c \<le> unat a")
    case True
    then have "unat ?t = unat a - (unat b + unat c)"
      using bc unfolding t by (simp add: unat_sub_if')
    with True lt show ?thesis by (simp add: unat_and_1 unat_drop_bit_div)
  next
    case False
    then have ut: "unat ?t = 4294967296 + unat a - (unat b + unat c)"
      using bc unfolding t by (simp add: unat_sub_if')
    define m where "m = 1073741824 + unat a - (unat b + unat c)"
    have m: "m < 1073741824" "unat ?t = m + 1073741824 * 3"
      using False lt assms(3) ut by (simp_all add: m_def)
    then have "unat ?t mod 1073741824 = m" "unat ?t div 1073741824 = 3"
      unfolding m(2) mod_mult_self2 by simp_all
    then show ?thesis
      using False lt assms(3) by (simp add: unat_and_1 unat_drop_bit_div m_def)
  qed
  then show "unat (?t AND PyLong_MASK) + unat b + unat c =
      unat a + 2 ^ 30 * unat (drop_bit 30 ?t AND 1)" and "unat (drop_bit 30 ?t AND 1) \<le> 1"
    by simp_all
qed

lemma x_sub_digits_correct:
  assumes "list_all digit_ok as" and "list_all digit_ok bs" and "length bs \<le> length as"
    and "unat c \<le> 1" and "x_sub_digits c as bs = (ds, lastb)"
  shows "dval ds + dval bs + unat c = dval as + 2 ^ (30 * length as) * unat lastb \<and>
    list_all digit_ok ds \<and> length ds = length as \<and> unat lastb \<le> 1"
  using assms
proof (induction c as bs arbitrary: ds rule: x_sub_digits.induct)
  case (1 c a as b bs)
  let ?t = "a - b - c"
  obtain ds' where rec: "x_sub_digits (drop_bit 30 ?t AND 1) as bs = (ds', lastb)"
    and ds: "ds = (?t AND PyLong_MASK) # ds'"
    using 1(6) by (auto simp: Let_def split: prod.splits)
  from 1(2-4) have ok: "digit_ok a" "digit_ok b"
    and oks: "list_all digit_ok as" "list_all digit_ok bs" "length bs \<le> length as" by simp_all
  note st = borrow_step [OF ok 1(5)]
  have "dval ds' + dval bs + unat (drop_bit 30 ?t AND 1) = dval as + 2 ^ (30 * length as) * unat lastb \<and>
    list_all digit_ok ds' \<and> length ds' = length as \<and> unat lastb \<le> 1"
    using 1(1) [OF refl, unfolded PyLong_SHIFT_30, OF oks st(2) rec] .
  with st(1) show ?case
    by (simp add: ds power_add del: unat_and_MASK)
next
  case (2 c a as)
  let ?t = "a - c"
  obtain ds' where rec: "x_sub_digits (drop_bit 30 ?t AND 1) as [] = (ds', lastb)"
    and ds: "ds = (?t AND PyLong_MASK) # ds'"
    using 2(6) by (auto simp: Let_def split: prod.splits)
  have "digit_ok 0" by (simp add: digit_ok_def)
  with 2(2) have ok: "digit_ok a" "digit_ok 0"
    and oks: "list_all digit_ok as" "list_all digit_ok []" "length [] \<le> length as"
    by simp_all
  note st = borrow_step [OF ok 2(5), unfolded diff_zero unsigned_0 add_0_right]
  have "dval ds' + dval [] + unat (drop_bit 30 ?t AND 1) = dval as + 2 ^ (30 * length as) * unat lastb \<and>
    list_all digit_ok ds' \<and> length ds' = length as \<and> unat lastb \<le> 1"
    using 2(1) [OF refl, unfolded PyLong_SHIFT_30, OF oks st(2) rec] .
  with st(1) show ?case
    by (simp add: ds power_add del: unat_and_MASK)
qed simp

section \<open>Magnitudes\<close>

lemma abs_long_val: "\<bar>long_val v\<bar> = int (dval (digits v))"
  by (simp add: long_val_def)

lemma x_add_cases:
  assumes "wf_long a" and "wf_long b"
  shows "x_add a b = Inl e \<Longrightarrow> e = OverflowError \<and> MAX_LONG_DIGITS < int (max (nd a) (nd b)) + 1"
    and "x_add a b = Inr z \<Longrightarrow> wf_long z \<and> long_val z = \<bar>long_val a\<bar> + \<bar>long_val b\<bar> \<and>
      ob_refcnt z = 1 \<and> nd z \<le> max (nd a) (nd b) + 1"
proof -
  have main: "(x_add a b = Inl e \<longrightarrow> e = OverflowError \<and> MAX_LONG_DIGITS < int (nd a) + 1) \<and>
    (x_add a b = Inr z \<longrightarrow> wf_long z \<and> long_val z = \<bar>long_val a\<bar> + \<bar>long_val b\<bar> \<and>
      ob_refcnt z = 1 \<and> nd z \<le> nd a + 1)"
    if wf: "wf_long a" "wf_long b" and le: "nd b \<le> nd a" for a b :: pylong
  proof -
    let ?ds = "x_add_digits 0 (digits a) (digits b)"
    note da = wf_long_digits [OF wf(1)] and db = wf_long_digits [OF wf(2)]
    have len: "length ?ds = nd a + 1"
      using le da(2) db(2) by (simp add: x_add_digits_length)
    have val: "dval ?ds = dval (digits a) + dval (digits b)" "list_all digit_ok ?ds"
      using x_add_digits_correct [OF da(1) db(1)] le da(2) db(2) by simp_all
    have F: "x_add a b = rbind (PyLong_New (int (nd a) + 1))
        (\<lambda>z. Inr (long_normalize (z\<lparr>ob_digit := ?ds\<rparr>)))"
      using le by (simp add: x_add_def)
    show ?thesis
    proof (cases "MAX_LONG_DIGITS < int (nd a) + 1")
      case True
      then have "x_add a b = Inl OverflowError" by (simp add: F PyLong_New_def)
      with True show ?thesis by simp
    next
      case False
      let ?v = "\<lparr>ob_refcnt = 1, ob_size = int (nd a) + 1, ob_digit = ?ds\<rparr>"
      have "x_add a b = Inr (long_normalize ?v)"
        using False by (simp add: F PyLong_New_def)
      moreover note fill_normalize [OF val(2) _ _ _ refl, of "int (nd a) + 1" 1]
      ultimately show ?thesis
        using False len val(1) by (auto simp: abs_long_val)
    qed
  qed
  have swap: "x_add a b = x_add b a" if "nd a < nd b"
    using that by (simp add: x_add_def)
  show "x_add a b = Inl e \<Longrightarrow> e = OverflowError \<and> MAX_LONG_DIGITS < int (max (nd a) (nd b)) + 1"
    and "x_add a b = Inr z \<Longrightarrow> wf_long z \<and> long_val z = \<bar>long_val a\<bar> + \<bar>long_val b\<bar> \<and>
      ob_refcnt z = 1 \<and> nd z \<le> max (nd a) (nd b) + 1"
    using main [OF assms] main [OF assms(2,1)] swap
    by (cases "nd a < nd b"; simp add: max_def)+
qed

lemma top_diff_None: "top_diff as bs n = None \<longleftrightarrow> (\<forall>i<n. as ! i = bs ! i)"
  by (induction n) (auto simp: less_Suc_eq)

lemma top_diff_Some:
  "top_diff as bs n = Some i \<Longrightarrow> i < n \<and> as ! i \<noteq> bs ! i \<and> (\<forall>j. i < j \<and> j < n \<longrightarrow> as ! j = bs ! j)"
  by (induction n) (auto split: if_splits simp: less_Suc_eq)

lemma dval_less_top:
  assumes "list_all digit_ok as" and "list_all digit_ok bs"
    and "i < length as" and "i < length bs" and "as ! i < bs ! i"
  shows "dval (take (Suc i) as) < dval (take (Suc i) bs)"
proof -
  have "dval (take i as) < 2 ^ (30 * i)"
    using assms dval_bound [of "take i as"] by (simp add: list_all_digit_ok_take min_absorb2)
  moreover have "unat (as ! i) + 1 \<le> unat (bs ! i)"
    using assms(5) by (simp add: word_less_nat_alt)
  then have "2 ^ (30 * i) * (unat (as ! i) + 1) \<le> 2 ^ (30 * i) * unat (bs ! i)"
    by (rule mult_le_mono2)
  ultimately show ?thesis
    using assms by (simp add: take_Suc_conv_app_nth dval_append)
qed

lemma dval_take_same_top:
  assumes "i \<le> n" and "n \<le> length as" and "n \<le> length bs"
    and "\<And>j. i \<le> j \<Longrightarrow> j < n \<Longrightarrow> as ! j = bs ! j"
  shows "int (dval (take n as)) - int (dval (take n bs)) =
      int (dval (take i as)) - int (dval (take i bs))"
proof -
  have split: "take n xs = take i xs @ drop i (take n xs)" for xs :: "digit list"
    using assms(1) by (metis append_take_drop_id min.absorb1 take_take)
  have "drop i (take n as) = drop i (take n bs)"
    using assms by (intro nth_equalityI) simp_all
  then show ?thesis
    using assms by (subst (1 2) split) (simp add: dval_append min_def)
qed

lemma x_sub_sized_correct:
  assumes ok: "list_all digit_ok (take sa (ob_digit a))" "list_all digit_ok (take sb (ob_digit b))"
    and len: "sa \<le> length (ob_digit a)" "sb \<le> length (ob_digit b)" "sb \<le> sa" "int sa \<le> MAX_LONG_DIGITS"
    and ge: "dval (take sb (ob_digit b)) \<le> dval (take sa (ob_digit a))" and sg: "sign = 1 \<or> sign = -1"
  shows "\<exists>z. x_sub_sized sign a b sa sb = Inr z \<and> wf_long z \<and>
    long_val z = sign * (int (dval (take sa (ob_digit a))) - int (dval (take sb (ob_digit b)))) \<and>
    nd z \<le> max 1 sa"
proof -
  obtain ds bo where sub: "x_sub_digits 0 (take sa (ob_digit a)) (take sb (ob_digit b)) = (ds, bo)"
    by (cases "x_sub_digits 0 (take sa (ob_digit a)) (take sb (ob_digit b))")
  have eq: "dval ds + dval (take sb (ob_digit b)) =
      dval (take sa (ob_digit a)) + 2 ^ (30 * sa) * unat bo"
    and ds: "list_all digit_ok ds" "length ds = sa"
    using x_sub_digits_correct [OF ok _ _ sub] len by simp_all
  have "dval ds < 2 ^ (30 * sa)" using dval_bound [OF ds(1)] ds(2) by simp
  then have "2 ^ (30 * sa) * unat bo < 2 ^ (30 * sa)"
    using eq ge by linarith
  then have "unat bo = 0" by simp
  then have bo: "bo = 0" by (metis unat_eq_zero)
  let ?s = "if sign < 0 then - int sa else int sa"
  let ?v = "\<lparr>ob_refcnt = 1, ob_size = ?s, ob_digit = ds\<rparr>"
  have F: "x_sub_sized sign a b sa sb = Inr (maybe_small_long (long_normalize ?v))"
    using len(4) sub bo by (simp add: x_sub_sized_def PyLong_New_def)
  have "\<bar>?s\<bar> = int (length ds)" "\<bar>?s\<bar> \<le> MAX_LONG_DIGITS" using ds len by simp_all
  note n = fill_normalize [OF ds(1) this zero_less_one refl]
  have "long_val (long_normalize ?v) =
      sign * (int (dval (take sa (ob_digit a))) - int (dval (take sb (ob_digit b))))"
    using n(2) eq bo sg by auto
  moreover have "nd (maybe_small_long (long_normalize ?v)) \<le> max 1 sa"
    using maybe_small_long_nd [OF n(1)] n(3) ds(2) by simp
  ultimately show ?thesis
    using F maybe_small_long_correct [OF n(1)] by simp
qed

lemma dval_less_length:
  assumes "wf_long a" and "wf_long b" and "nd a < nd b"
  shows "dval (digits a) < dval (digits b)"
proof -
  note da = wf_long_digits [OF assms(1)] and db = wf_long_digits [OF assms(2)]
  have "dval (digits a) < 2 ^ (30 * nd a)" using dval_bound [OF da(1)] da(2) by simp
  also have "\<dots> \<le> 2 ^ (30 * (nd b - 1))" using assms(3) by (intro power_increasing) simp_all
  also have "\<dots> \<le> dval (digits b)"
    using dval_lower_normalized [of "digits b"] db assms(3) by auto
  finally show ?thesis .
qed

lemma x_sub_correct:
  assumes wf: "wf_long a" "wf_long b"
  shows "\<exists>z. x_sub a b = Inr z \<and> wf_long z \<and> long_val z = \<bar>long_val a\<bar> - \<bar>long_val b\<bar> \<and>
    nd z \<le> max 3 (max (nd a) (nd b))"
proof -
  note wfa = wf(1) [unfolded wf_long_def] and wfb = wf(2) [unfolded wf_long_def]
  have va: "\<bar>long_val a\<bar> = int (dval (take (nd a) (ob_digit a)))"
    and vb: "\<bar>long_val b\<bar> = int (dval (take (nd b) (ob_digit b)))"
    by (simp_all add: abs_long_val digits_def)
  consider (lt) "nd a < nd b" | (gt) "nd b < nd a" | (same) "nd a = nd b" "top_diff (ob_digit a) (ob_digit b) (nd a) = None"
    | (diff) i where "nd a = nd b" "top_diff (ob_digit a) (ob_digit b) (nd a) = Some i"
    by (metis linorder_neqE_nat not_None_eq)
  then show ?thesis
  proof cases
    case lt
    then show ?thesis
      using x_sub_sized_correct [of "nd b" b "nd a" a "-1"] wfa wfb dval_less_length [OF wf lt] va vb
      by (auto simp: x_sub_def digits_def max_def)
  next
    case gt
    then show ?thesis
      using x_sub_sized_correct [of "nd a" a "nd b" b 1] wfa wfb dval_less_length [OF wf(2,1) gt] va vb
      by (auto simp: x_sub_def digits_def max_def)
  next
    case same
    then have "take (nd a) (ob_digit a) = take (nd b) (ob_digit b)"
      using wfa wfb by (intro nth_equalityI) (auto simp: top_diff_None)
    then have "\<bar>long_val a\<bar> - \<bar>long_val b\<bar> = 0"
      using va vb by simp
    moreover obtain z where "PyLong_FromLong 0 = Inr z" "wf_long z" "long_val z = 0" "nd z \<le> 3"
      by (rule PyLong_FromLongE [of 0]) simp_all
    ultimately show ?thesis
      using same by (simp add: x_sub_def)
  next
    case diff
    note td = top_diff_Some [OF diff(2)]
    have low: "int (dval (take (nd a) (ob_digit a))) - int (dval (take (nd b) (ob_digit b))) =
        int (dval (take (i + 1) (ob_digit a))) - int (dval (take (i + 1) (ob_digit b)))"
      using dval_take_same_top [of "i + 1" "nd a" "ob_digit a" "ob_digit b"] td wfa wfb diff(1) by auto
    have oka: "list_all digit_ok (take (i + 1) (ob_digit a))" "i + 1 \<le> length (ob_digit a)"
      and okb: "list_all digit_ok (take (i + 1) (ob_digit b))" "i + 1 \<le> length (ob_digit b)"
      using wfa wfb td diff(1) by (auto simp: digits_def list_all_length)
    have sz: "int (i + 1) \<le> MAX_LONG_DIGITS" "max 1 (i + 1) \<le> max 3 (max (nd a) (nd b))"
      using wfa td by auto
    have less: "dval (take (i + 1) xs) < dval (take (i + 1) ys)"
      if "xs ! i < ys ! i" "list_all digit_ok (take (i + 1) xs)" "list_all digit_ok (take (i + 1) ys)"
        "i + 1 \<le> length xs" "i + 1 \<le> length ys" for xs ys :: "digit list"
      using dval_less_top [of "take (i + 1) xs" "take (i + 1) ys" i] that by simp
    show ?thesis
    proof (cases "ob_digit a ! i < ob_digit b ! i")
      case True
      then show ?thesis
        using x_sub_sized_correct [OF okb(1) oka(1) okb(2) oka(2) order_refl sz(1), of "-1"]
          less [OF True oka(1) okb(1) oka(2) okb(2)] low va vb diff sz(2)
        by (auto simp: x_sub_def)
    next
      case False
      then have gt: "ob_digit b ! i < ob_digit a ! i" using td by auto
      then show ?thesis
        using x_sub_sized_correct [OF oka(1) okb(1) oka(2) okb(2) order_refl sz(1), of 1]
          less [OF gt okb(1) oka(1) okb(2) oka(2)] low va vb diff sz(2) False
        by (auto simp: x_sub_def)
    qed
  qed
qed

section \<open>What an operation on integer objects promises\<close>

text \<open>
  A result that somebody else may hold is a small integer: only fresh objects are negated in
  place.
\<close>

definition fresh_or_small :: "pylong \<Rightarrow> bool" where
  "fresh_or_small z \<longleftrightarrow> ob_refcnt z = 1 \<or> nd z \<le> 1"

text \<open>
  \<open>room\<close> bounds the digits of the result; an operation fails only when it exceeds the largest
  integer object. The clients (floor division, inversion, shifting, the gcd) rest on these laws
  and not on the digit loops.
\<close>

locale int_unop =
  fixes pyop :: "pylong \<Rightarrow> pylong pyres"
    and iop :: "int \<Rightarrow> int"
    and room :: "pylong \<Rightarrow> nat"
  assumes op_value: "wf_long a \<Longrightarrow> pyop a = Inr z \<Longrightarrow> wf_long z \<and> long_val z = iop (long_val a)"
    and op_error: "wf_long a \<Longrightarrow> pyop a = Inl e \<Longrightarrow>
      e = OverflowError \<and> MAX_LONG_DIGITS < int (room a)"
begin

lemma returns:
  assumes "wf_long a" and "int (room a) \<le> MAX_LONG_DIGITS"
  shows "\<exists>z. pyop a = Inr z \<and> wf_long z \<and> long_val z = iop (long_val a)"
proof (cases "pyop a")
  case (Inl e)
  then show ?thesis using op_error [OF assms(1) Inl] assms(2) by simp
next
  case (Inr z)
  then show ?thesis using op_value [OF assms(1) Inr] by simp
qed

lemma never_asserts: "wf_long a \<Longrightarrow> pyop a \<noteq> Inl AssertionFailed"
  using op_error by blast

end

locale int_binop =
  fixes pyop :: "pylong \<Rightarrow> pylong \<Rightarrow> pylong pyres"
    and iop :: "int \<Rightarrow> int \<Rightarrow> int"
    and room :: "pylong \<Rightarrow> pylong \<Rightarrow> nat"
  assumes op_value: "wf_long a \<Longrightarrow> wf_long b \<Longrightarrow> pyop a b = Inr z \<Longrightarrow>
      wf_long z \<and> long_val z = iop (long_val a) (long_val b)"
    and op_fresh: "wf_long a \<Longrightarrow> wf_long b \<Longrightarrow> pyop a b = Inr z \<Longrightarrow> fresh_or_small z"
    and op_error: "wf_long a \<Longrightarrow> wf_long b \<Longrightarrow> pyop a b = Inl e \<Longrightarrow>
      e = OverflowError \<and> MAX_LONG_DIGITS < int (room a b)"
begin

lemma returns:
  assumes "wf_long a" and "wf_long b" and "int (room a b) \<le> MAX_LONG_DIGITS"
  shows "\<exists>z. pyop a b = Inr z \<and> wf_long z \<and> long_val z = iop (long_val a) (long_val b)"
proof (cases "pyop a b")
  case (Inl e)
  then show ?thesis using op_error [OF assms(1,2) Inl] assms(3) by simp
next
  case (Inr z)
  then show ?thesis using op_value [OF assms(1,2) Inr] by simp
qed

lemma never_asserts: "wf_long a \<Longrightarrow> wf_long b \<Longrightarrow> pyop a b \<noteq> Inl AssertionFailed"
  using op_error by blast

end

text \<open>Fixing the right operand, as \<open>x + 1\<close> and \<open>x - 1\<close> in the source do, gives a unary operation.\<close>

locale int_binop_right = int_binop +
  fixes k :: pylong
  assumes right_operand: "wf_long k"
begin

sublocale right: int_unop "\<lambda>a. pyop a k" "\<lambda>i. iop i (long_val k)" "\<lambda>a. room a k"
proof (unfold_locales, goal_cases)
  case (1 a z)
  then show ?case by (rule op_value [OF _ right_operand])
next
  case (2 a e)
  then show ?case by (rule op_error [OF _ right_operand])
qed

end

section \<open>The signed operations meet it\<close>

lemma negate_size_correct:
  assumes "wf_long z"
  shows "wf_long (negate_size z)" and "long_val (negate_size z) = - long_val z"
proof -
  have fields: "nd (negate_size z) = nd z" "ob_digit (negate_size z) = ob_digit z"
    "ob_refcnt (negate_size z) = ob_refcnt z" "ob_size (negate_size z) = - ob_size z"
    by (simp_all add: negate_size_def nd_def)
  then show "wf_long (negate_size z)"
    using assms by (simp add: wf_long_def digits_def)
  show "long_val (negate_size z) = - long_val z"
    using fields long_val_0_iff [OF assms] by (auto simp: long_val_def digits_def)
qed

lemma medium_sum_range:
  assumes "wf_long a" and "wf_long b" and "nd a \<le> 1" and "nd b \<le> 1"
  shows "- (2 ^ 63) \<le> MEDIUM_VALUE a + MEDIUM_VALUE b" and "MEDIUM_VALUE a + MEDIUM_VALUE b < 2 ^ 63"
    and "- (2 ^ 63) \<le> MEDIUM_VALUE a - MEDIUM_VALUE b" and "MEDIUM_VALUE a - MEDIUM_VALUE b < 2 ^ 63"
  using medium_abs_bound [of a] medium_abs_bound [of b] MEDIUM_VALUE_val [of a] MEDIUM_VALUE_val [of b] assms
  by simp_all

lemma long_add_small:
  assumes "wf_long a" and "wf_long b" and "nd a \<le> 1" and "nd b \<le> 1"
  shows "\<exists>z. long_add a b = Inr z \<and> wf_long z \<and> long_val z = long_val a + long_val b"
proof -
  obtain z where "PyLong_FromLong (MEDIUM_VALUE a + MEDIUM_VALUE b) = Inr z" "wf_long z"
    "long_val z = MEDIUM_VALUE a + MEDIUM_VALUE b"
    using PyLong_FromLongE medium_sum_range(1,2) [OF assms] by blast
  with assms show ?thesis by (simp add: long_add_def MEDIUM_VALUE_val)
qed

lemma long_sub_small:
  assumes "wf_long a" and "wf_long b" and "nd a \<le> 1" and "nd b \<le> 1"
  shows "\<exists>z. long_sub a b = Inr z \<and> wf_long z \<and> long_val z = long_val a - long_val b"
proof -
  obtain z where "PyLong_FromLong (MEDIUM_VALUE a - MEDIUM_VALUE b) = Inr z" "wf_long z"
    "long_val z = MEDIUM_VALUE a - MEDIUM_VALUE b"
    using PyLong_FromLongE medium_sum_range(3,4) [OF assms] by blast
  with assms show ?thesis by (simp add: long_sub_def MEDIUM_VALUE_val)
qed

text \<open>How a value and its magnitude relate, by the sign of the size.\<close>

lemma abs_by_size:
  assumes "wf_long v"
  shows "ob_size v < 0 \<Longrightarrow> \<bar>long_val v\<bar> = - long_val v" and "\<not> ob_size v < 0 \<Longrightarrow> \<bar>long_val v\<bar> = long_val v"
  using long_val_sign [OF assms] by auto

text \<open>
  Above one digit each operation is one of the four combinations of \<open>x_add\<close> and \<open>x_sub\<close>; what
  \<open>x_add\<close> can do is collected once.
\<close>

lemma x_add_result:
  assumes "wf_long a" and "wf_long b"
  obtains (overflow) "x_add a b = Inl OverflowError" "MAX_LONG_DIGITS < int (max (nd a) (nd b) + 1)"
    | (sum) z where "x_add a b = Inr z" "wf_long z" "long_val z = \<bar>long_val a\<bar> + \<bar>long_val b\<bar>"
      "ob_refcnt z = 1" "wf_long (negate_size z)" "long_val (negate_size z) = - \<bar>long_val a\<bar> - \<bar>long_val b\<bar>"
proof (cases "x_add a b")
  case (Inl e)
  then show ?thesis using x_add_cases(1) [OF assms Inl] overflow by auto
next
  case (Inr z)
  note x = x_add_cases(2) [OF assms Inr]
  then have "wf_long z" by simp
  from negate_size_correct [OF this] x Inr show ?thesis by (intro sum) simp_all
qed

lemma x_sub_result:
  assumes "wf_long a" and "wf_long b"
  obtains z where "x_sub a b = Inr z" "wf_long z" "long_val z = \<bar>long_val a\<bar> - \<bar>long_val b\<bar>"
  using x_sub_correct [OF assms] by blast

lemma long_add_cases:
  assumes wf: "wf_long a" "wf_long b"
  shows "(\<exists>z. long_add a b = Inr z \<and> wf_long z \<and> long_val z = long_val a + long_val b) \<or>
    long_add a b = Inl OverflowError \<and> MAX_LONG_DIGITS < int (max (nd a) (nd b) + 1)"
proof (cases "nd a \<le> 1 \<and> nd b \<le> 1")
  case True
  then show ?thesis using long_add_small [OF wf] by simp
next
  case big: False
  note ab = abs_by_size [OF wf(1)] abs_by_size [OF wf(2)]
  obtain s where s: "x_sub a b = Inr s" "wf_long s" "long_val s = \<bar>long_val a\<bar> - \<bar>long_val b\<bar>"
    by (rule x_sub_result [OF wf])
  obtain t where t: "x_sub b a = Inr t" "wf_long t" "long_val t = \<bar>long_val b\<bar> - \<bar>long_val a\<bar>"
    by (rule x_sub_result [OF wf(2,1)])
  from big have D: "long_add a b =
      (if ob_size a < 0 then
        (if ob_size b < 0 then
           rbind (x_add a b) (\<lambda>z. rbind (c_assert (ob_refcnt z = 1)) (\<lambda>_. Inr (negate_size z)))
         else x_sub b a)
      else (if ob_size b < 0 then x_sub a b else x_add a b))"
    by (simp only: long_add_def if_False)
  show ?thesis
    by (rule x_add_result [OF wf]; cases "ob_size a < 0"; cases "ob_size b < 0")
      (simp_all add: D s t ab c_assert_def)
qed

lemma long_sub_cases:
  assumes wf: "wf_long a" "wf_long b"
  shows "(\<exists>z. long_sub a b = Inr z \<and> wf_long z \<and> long_val z = long_val a - long_val b) \<or>
    long_sub a b = Inl OverflowError \<and> MAX_LONG_DIGITS < int (max (nd a) (nd b) + 1)"
proof (cases "nd a \<le> 1 \<and> nd b \<le> 1")
  case True
  then show ?thesis using long_sub_small [OF wf] by simp
next
  case big: False
  note ab = abs_by_size [OF wf(1)] abs_by_size [OF wf(2)]
  obtain s where s: "x_sub a b = Inr s" "wf_long s" "long_val s = \<bar>long_val a\<bar> - \<bar>long_val b\<bar>"
    by (rule x_sub_result [OF wf])
  obtain t where t: "x_sub b a = Inr t" "wf_long t" "long_val t = \<bar>long_val b\<bar> - \<bar>long_val a\<bar>"
    by (rule x_sub_result [OF wf(2,1)])
  from big have D: "long_sub a b =
      (if ob_size a < 0 then
        (if ob_size b < 0 then x_sub b a
         else rbind (x_add a b) (\<lambda>z.
                rbind (c_assert (ob_size z = 0 \<or> ob_refcnt z = 1)) (\<lambda>_. Inr (negate_size z))))
      else (if ob_size b < 0 then x_add a b else x_sub a b))"
    by (simp only: long_sub_def if_False)
  show ?thesis
    by (rule x_add_result [OF wf]; cases "ob_size a < 0"; cases "ob_size b < 0")
      (simp_all add: D s t ab c_assert_def)
qed

lemma fresh_get_small_int [simp]: "fresh_or_small (get_small_int i)"
  by (simp add: fresh_or_small_def get_small_int_def small_int_entry_def Let_def)

lemma fresh_refcnt_1: "ob_refcnt z = 1 \<Longrightarrow> fresh_or_small z"
  by (simp add: fresh_or_small_def)

lemma fresh_FromLong: "PyLong_FromLong i = Inr v \<Longrightarrow> fresh_or_small v"
  by (auto simp: PyLong_FromLong_def Let_def fresh_refcnt_1 split: if_splits)

lemma fresh_maybe_small: "ob_refcnt v = 1 \<Longrightarrow> fresh_or_small (maybe_small_long v)"
  by (simp add: maybe_small_long_def fresh_refcnt_1)

lemma fresh_x_sub: "x_sub a b = Inr z \<Longrightarrow> fresh_or_small z"
  by (auto simp: x_sub_def x_sub_sized_def Let_def fresh_maybe_small
      split: if_splits option.splits prod.splits dest: fresh_FromLong)

lemma fresh_x_add: "x_add a b = Inr z \<Longrightarrow> fresh_or_small z"
  by (auto simp: x_add_def Let_def fresh_refcnt_1 split: if_splits)

lemma fresh_negate_size: "ob_refcnt z = 1 \<Longrightarrow> fresh_or_small (negate_size z)"
  by (simp add: negate_size_def fresh_refcnt_1)

lemma fresh_negate_x_add: "x_add a b = Inr z \<Longrightarrow> fresh_or_small (negate_size z)"
  by (auto simp: x_add_def Let_def negate_size_def fresh_refcnt_1 split: if_splits)

lemmas fresh_rules = fresh_FromLong fresh_x_sub fresh_x_add fresh_negate_x_add

interpretation long_add: int_binop long_add "(+)" "\<lambda>a b. max (nd a) (nd b) + 1"
proof (unfold_locales, goal_cases)
  case (1 a b z)
  then show ?case using long_add_cases [of a b] by simp
next
  case (2 a b z)
  then show ?case by (auto simp: long_add_def split: if_splits dest: fresh_rules)
next
  case (3 a b e)
  then show ?case using long_add_cases [of a b] by simp
qed

interpretation long_sub: int_binop long_sub "(-)" "\<lambda>a b. max (nd a) (nd b) + 1"
proof (unfold_locales, goal_cases)
  case (1 a b z)
  then show ?case using long_sub_cases [of a b] by simp
next
  case (2 a b z)
  then show ?case by (auto simp: long_sub_def split: if_splits dest: fresh_rules)
next
  case (3 a b e)
  then show ?case using long_sub_cases [of a b] by simp
qed

section \<open>Negation, inversion, absolute value\<close>

lemma FromLong_within:
  assumes "\<bar>i\<bar> \<le> 2 ^ 62"
  obtains z where "PyLong_FromLong i = Inr z" "wf_long z" "long_val z = i"
proof -
  have "- (2 ^ 63) \<le> i" and "i < 2 ^ 63" using assms by (simp_all add: abs_le_iff)
  then show ?thesis using that PyLong_FromLong_correct by blast
qed

lemma FromLongLong_within: "\<bar>i\<bar> \<le> 2 ^ 62 \<Longrightarrow> PyLong_FromLongLong i = PyLong_FromLong i"
  by (rule PyLong_FromLongLong_eq) (simp_all add: abs_le_iff)

text \<open>On a one-digit number the source computes in C and converts back.\<close>

lemma medium_unop:
  assumes "wf_long v" and "nd v \<le> 1"
  shows "\<exists>z. PyLong_FromLong (- MEDIUM_VALUE v) = Inr z \<and> wf_long z \<and> long_val z = - long_val v"
    and "\<exists>z. PyLong_FromLong (- (MEDIUM_VALUE v + 1)) = Inr z \<and> wf_long z \<and> long_val z = - long_val v - 1"
proof -
  have mv: "MEDIUM_VALUE v = long_val v" and lt: "\<bar>long_val v\<bar> < 2 ^ 30"
    using assms MEDIUM_VALUE_val medium_abs_bound by auto
  have b: "\<bar>- MEDIUM_VALUE v\<bar> \<le> 2 ^ 62" "\<bar>- (MEDIUM_VALUE v + 1)\<bar> \<le> 2 ^ 62"
    using lt unfolding mv by simp_all
  show "\<exists>z. PyLong_FromLong (- MEDIUM_VALUE v) = Inr z \<and> wf_long z \<and> long_val z = - long_val v"
    and "\<exists>z. PyLong_FromLong (- (MEDIUM_VALUE v + 1)) = Inr z \<and> wf_long z \<and> long_val z = - long_val v - 1"
    by (rule FromLong_within [OF b(1)], simp add: mv)
      (rule FromLong_within [OF b(2)], simp add: mv)
qed

lemma PyLong_Negate_correct:
  assumes "wf_long x" and "fresh_or_small x"
  shows "\<exists>z. PyLong_Negate x = Inr z \<and> wf_long z \<and> long_val z = - long_val x"
proof (cases "ob_refcnt x = 1")
  case True
  then show ?thesis
    using negate_size_correct [OF assms(1)] by (simp add: PyLong_Negate_def flip: negate_size_def)
next
  case False
  with assms have "nd x \<le> 1" by (simp add: fresh_or_small_def)
  with assms(1) False show ?thesis using medium_unop(1) by (simp add: PyLong_Negate_def)
qed

lemma PyLong_Copy_big:
  assumes "wf_long v" and "\<not> nd v \<le> 1"
  shows "PyLong_Copy v = Inr \<lparr>ob_refcnt = 1, ob_size = ob_size v, ob_digit = digits v\<rparr>"
  using assms by (simp add: PyLong_Copy_def PyLong_New_def wf_long_def)

lemma long_neg_correct:
  assumes wf: "wf_long v"
  shows "\<exists>z. long_neg v = Inr z \<and> wf_long z \<and> long_val z = - long_val v"
proof (cases "nd v \<le> 1")
  case True
  with wf show ?thesis using medium_unop(1) by (simp add: long_neg_def)
next
  case False
  let ?c = "\<lparr>ob_refcnt = 1, ob_size = ob_size v, ob_digit = digits v\<rparr>"
  have c: "wf_long ?c" "long_val ?c = long_val v"
    using wf by (auto simp: wf_long_def digits_def long_val_def nd_def)
  have "long_neg v = Inr (negate_size ?c)"
    using False by (simp add: long_neg_def PyLong_Copy_big [OF wf False] negate_size_def)
  then show ?thesis using negate_size_correct [OF c(1)] c(2) by simp
qed

interpretation long_neg: int_unop long_neg uminus "\<lambda>a. 0"
proof (unfold_locales, goal_cases)
  case (1 a z)
  then show ?case using long_neg_correct [of a] by auto
next
  case (2 a e)
  then show ?case using long_neg_correct [of a] by auto
qed

lemma long_long_correct:
  "wf_long v \<Longrightarrow> wf_long (long_long v) \<and> long_val (long_long v) = long_val v"
  by (simp add: long_long_def wf_long_def long_val_def digits_def)

interpretation long_abs: int_unop long_abs abs "\<lambda>a. 0"
proof (unfold_locales, goal_cases)
  case (1 a z)
  then show ?case
    using long_neg_correct [of a] long_long_correct [of a] abs_by_size [of a]
    by (auto simp: long_abs_def split: if_splits)
next
  case (2 a e)
  then show ?case using long_neg_correct [of a] by (auto simp: long_abs_def split: if_splits)
qed

lemma PyLong_One_correct: "wf_long PyLong_One" "long_val PyLong_One = 1" "nd PyLong_One \<le> 1"
  and PyLong_Zero_correct: "wf_long PyLong_Zero" "long_val PyLong_Zero = 0" "nd PyLong_Zero = 0"
  using get_small_int_correct [of 1] get_small_int_correct [of 0]
  by (simp_all add: PyLong_One_def PyLong_Zero_def IS_SMALL_INT_def NSMALLNEGINTS_def NSMALLPOSINTS_def
      get_small_int_def small_int_entry_def Let_def)

interpretation add_one: int_binop_right long_add "(+)" "\<lambda>a b. max (nd a) (nd b) + 1" PyLong_One
  by unfold_locales (rule PyLong_One_correct)

interpretation sub_one: int_binop_right long_sub "(-)" "\<lambda>a b. max (nd a) (nd b) + 1" PyLong_One
  by unfold_locales (rule PyLong_One_correct)

interpretation long_invert: int_unop long_invert "\<lambda>i. - i - 1" "\<lambda>a. max (nd a) 1 + 1"
proof (unfold_locales, goal_cases)
  case (1 a z)
  show ?case
  proof (cases "nd a \<le> 1")
    case True
    with 1 show ?thesis using medium_unop(2) [of a] by (auto simp: long_invert_def)
  next
    case False
    with 1(2) obtain x where x: "long_add a PyLong_One = Inr x" "PyLong_Negate x = Inr z"
      by (auto simp: long_invert_def)
    with add_one.right.op_value [OF 1(1) x(1)] long_add.op_fresh [OF 1(1) PyLong_One_correct(1) x(1)]
    show ?thesis using PyLong_Negate_correct [of x] PyLong_One_correct by auto
  qed
next
  case (2 a e)
  show ?case
  proof (cases "nd a \<le> 1")
    case True
    with 2 show ?thesis using medium_unop(2) [of a] by (auto simp: long_invert_def)
  next
    case False
    then have D: "long_invert a = rbind (long_add a PyLong_One) PyLong_Negate"
      by (simp add: long_invert_def)
    show ?thesis
    proof (cases "long_add a PyLong_One")
      case (Inl e')
      with D 2(2) have "e' = e" by simp
      then show ?thesis
        using add_one.right.op_error [OF 2(1) Inl] PyLong_One_correct(3) by (auto simp: max_def split: if_splits)
    next
      case (Inr x)
      with add_one.right.op_value [OF 2(1) Inr] long_add.op_fresh [OF 2(1) PyLong_One_correct(1) Inr]
      show ?thesis using PyLong_Negate_correct [of x] D 2(2) by auto
    qed
  qed
qed

section \<open>Comparison\<close>

lemma cmp_digits_sign:
  assumes "list_all digit_ok as" and "list_all digit_ok bs" and "n \<le> length as" and "n \<le> length bs"
  shows "sgn (cmp_digits as bs n) = sgn (int (dval (take n as)) - int (dval (take n bs)))"
  using assms
proof (induction n)
  case (Suc n)
  then have "digit_ok (as ! n)" "digit_ok (bs ! n)" by (simp_all add: list_all_length)
  then have si: "sint (as ! n) = int (unat (as ! n))" "sint (bs ! n) = int (unat (bs ! n))"
    by (simp_all only: sint_digit)
  consider (eq) "as ! n = bs ! n" | (lt) "as ! n < bs ! n" | (gt) "bs ! n < as ! n"
    by (metis linorder_neqE)
  then show ?case
  proof cases
    case eq
    have "int (dval (take (Suc n) as)) - int (dval (take (Suc n) bs)) =
        int (dval (take n as)) - int (dval (take n bs))"
      using Suc.prems eq by (intro dval_take_same_top) (auto simp: less_Suc_eq)
    with eq Suc show ?thesis by simp
  next
    case lt
    then have "unat (as ! n) < unat (bs ! n)" by (simp add: word_less_nat_alt)
    then have "sint (as ! n) - sint (bs ! n) < 0" unfolding si by linarith
    then have "sgn (cmp_digits as bs (Suc n)) = -1" by (simp add: Let_def)
    with dval_less_top [OF Suc.prems(1,2) _ _ lt] Suc.prems show ?thesis by simp
  next
    case gt
    then have "unat (bs ! n) < unat (as ! n)" by (simp add: word_less_nat_alt)
    then have "0 < sint (as ! n) - sint (bs ! n)" unfolding si by linarith
    then have "sgn (cmp_digits as bs (Suc n)) = 1" by (simp add: Let_def)
    with dval_less_top [OF Suc.prems(2,1) _ _ gt] Suc.prems show ?thesis by simp
  qed
qed simp

lemma cmp_digits_take: "m \<le> n \<Longrightarrow> cmp_digits (take n as) (take n bs) m = cmp_digits as bs m"
  by (induction m) (simp_all add: Let_def)

lemma sgn_by_size:
  assumes "wf_long a" and "wf_long b" and "ob_size a < ob_size b"
  shows "long_val a < long_val b"
proof -
  consider "ob_size a < 0" "0 \<le> ob_size b" | "0 \<le> ob_size a" "nd a < nd b" "0 < ob_size b"
    | "ob_size b < 0" "ob_size a < 0" "nd b < nd a"
    using assms(3) by (auto simp: nd_def) linarith
  then show ?thesis
  proof cases
    case 1
    then show ?thesis
      using long_val_sign [OF assms(1)] long_val_sign [OF assms(2)] by (auto simp: not_less)
  next
    case 2
    then show ?thesis using dval_less_length [OF assms(1,2)] by (simp add: long_val_def)
  next
    case 3
    then show ?thesis using dval_less_length [OF assms(2,1)] by (simp add: long_val_def)
  qed
qed

lemma long_compare_sign:
  assumes wf: "wf_long a" "wf_long b"
  shows "sgn (long_compare a b) = sgn (long_val a - long_val b)"
proof -
  consider (lt) "ob_size a < ob_size b" | (gt) "ob_size b < ob_size a" | (eq) "ob_size a = ob_size b"
    by linarith
  then show ?thesis
  proof cases
    case lt
    then show ?thesis using sgn_by_size [OF wf lt] by (simp add: long_compare_def Let_def)
  next
    case gt
    then show ?thesis using sgn_by_size [OF wf(2,1) gt] by (simp add: long_compare_def Let_def)
  next
    case eq
    then have nd: "nd a = nd b" by (simp add: nd_def)
    note da = wf_long_digits [OF wf(1)] and db = wf_long_digits [OF wf(2)]
    have "cmp_digits (ob_digit a) (ob_digit b) (nd a) = cmp_digits (digits a) (digits b) (nd a)"
      using nd by (simp add: digits_def cmp_digits_take)
    then have "sgn (cmp_digits (ob_digit a) (ob_digit b) (nd a)) =
        sgn (int (dval (digits a)) - int (dval (digits b)))"
      using cmp_digits_sign [OF da(1) db(1), of "nd a"] da(2) db(2) nd by simp
    then show ?thesis
      using eq by (auto simp: long_compare_def Let_def long_val_def sgn_if split: if_splits)
  qed
qed

lemma long_compare_order:
  assumes "wf_long a" and "wf_long b"
  shows "long_compare a b < 0 \<longleftrightarrow> long_val a < long_val b"
    and "long_compare a b = 0 \<longleftrightarrow> long_val a = long_val b"
    and "0 < long_compare a b \<longleftrightarrow> long_val b < long_val a"
  using long_compare_sign [OF assms] by (auto simp: sgn_if split: if_splits)

text \<open>The relation a comparison operator stands for.\<close>

fun cmp_rel :: "cmpop \<Rightarrow> int \<Rightarrow> int \<Rightarrow> bool" where
  "cmp_rel Py_LT x y = (x < y)"
| "cmp_rel Py_LE x y = (x \<le> y)"
| "cmp_rel Py_EQ x y = (x = y)"
| "cmp_rel Py_NE x y = (x \<noteq> y)"
| "cmp_rel Py_GT x y = (y < x)"
| "cmp_rel Py_GE x y = (y \<le> x)"

lemma long_richcompare_rel:
  assumes "wf_long a" and "wf_long b" and "same \<Longrightarrow> a = b"
  shows "long_richcompare same a b oper \<longleftrightarrow> cmp_rel oper (long_val a) (long_val b)"
  using assms(3) long_compare_order [OF assms(1,2)]
  by (cases oper) (auto simp: long_richcompare_def)

section \<open>Properties\<close>

text \<open>
  C3: Addition of integer objects is exact: \<open>long_add\<close> returns a well-formed object with the
  sum as its value on every sign combination, in the one-digit fast path and through \<open>x_add\<close>
  and \<open>x_sub\<close>; it fails only with \<open>OverflowError\<close>, when the sum has no room.
\<close>

theorem long_add_exact:
  assumes "wf_long a" and "wf_long b"
  shows "case long_add a b of
      Inr z \<Rightarrow> wf_long z \<and> long_val z = long_val a + long_val b
    | Inl e \<Rightarrow> e = OverflowError \<and> MAX_LONG_DIGITS < int (max (nd a) (nd b) + 1)"
  using long_add.op_value [OF assms] long_add.op_error [OF assms] by (simp split: sum.splits)

lemma long_add_exact_witness:
  "\<exists>z. long_add two_digits one_digit = Inr z \<and> long_val z = - 3221225474"
  using long_add_exact [OF samples_wf]
  by (auto simp: samples_val samples_nd MAX_LONG_DIGITS_val split: sum.splits)

text \<open>Subtraction of integer objects is exact, with the same error condition.\<close>

theorem long_sub_exact:
  assumes "wf_long a" and "wf_long b"
  shows "case long_sub a b of
      Inr z \<Rightarrow> wf_long z \<and> long_val z = long_val a - long_val b
    | Inl e \<Rightarrow> e = OverflowError \<and> MAX_LONG_DIGITS < int (max (nd a) (nd b) + 1)"
  using long_sub.op_value [OF assms] long_sub.op_error [OF assms] by (simp split: sum.splits)

lemma long_sub_exact_witness:
  "\<exists>z. long_sub two_digits one_digit = Inr z \<and> long_val z = - 3221225484"
  using long_sub_exact [OF samples_wf]
  by (auto simp: samples_val samples_nd MAX_LONG_DIGITS_val split: sum.splits)

text \<open>
  C4: The three-way comparison of integer objects orders them by value, although it looks at
  sizes first and at digits from the top: its sign is the sign of the difference, so the six
  rich comparisons are those of the integers.
\<close>

theorem long_richcompare_is_integer_order:
  assumes "wf_long a" and "wf_long b" and "same \<Longrightarrow> a = b"
  shows "sgn (long_compare a b) = sgn (long_val a - long_val b) \<and>
    (\<forall>oper. long_richcompare same a b oper = cmp_rel oper (long_val a) (long_val b))"
  using long_compare_sign [OF assms(1,2)] long_richcompare_rel [OF assms(1,2), of same] assms(3) by simp

lemma long_richcompare_is_integer_order_witness:
  "long_compare two_digits one_digit < 0 \<and> long_richcompare False two_digits one_digit Py_LE"
  using long_richcompare_is_integer_order [OF samples_wf, of False]
  by (auto simp: samples_val sgn_if split: if_splits)

end
