(* ===== verification/PyLongMul.thy ===== *)
theory PyLongMul
  imports PyLongArith
begin

text \<open>
  Multiplication of integer objects: grade-school multiplication and squaring (\<open>x_mul\<close>), the
  in-place vector operations (\<open>v_iadd\<close>, \<open>v_isub\<close>), Karatsuba (\<open>k_mul\<close>, \<open>kmul_split\<close>,
  \<open>k_lopsided_mul\<close>) and \<open>long_mul\<close>, all of \<open>Objects/longobject.c\<close>. A write past the end of a
  digit vector and a failing \<open>assert\<close> are both \<open>AssertionFailed\<close>; the correctness theorems say
  that neither happens, which includes the argument of the source's comment that adding the
  middle product cannot run out of room. The flag \<open>same\<close> stands for the pointer comparison
  \<open>a == b\<close>.
\<close>

section \<open>Grade school\<close>

fun mul_row :: "twodigits \<Rightarrow> twodigits \<Rightarrow> digit list \<Rightarrow> digit list \<Rightarrow> digit list pyres" where
  "mul_row f carry (z # zs) (b # bs) =
     (let carry = carry + (ucast z + ucast b * f)
      in rbind (c_assert (drop_bit PyLong_SHIFT carry \<le> ucast PyLong_MASK)) (\<lambda>_.
         rbind (mul_row f (drop_bit PyLong_SHIFT carry) zs bs) (\<lambda>ds.
           Inr (ucast (carry AND ucast PyLong_MASK) # ds))))"
| "mul_row f carry [] (b # bs) = Inl AssertionFailed"
| "mul_row f carry zs [] =
     (if carry \<noteq> 0 then
        (case zs of
           [] \<Rightarrow> Inl AssertionFailed
         | z # zs' \<Rightarrow>
             rbind (c_assert (drop_bit PyLong_SHIFT carry = 0)) (\<lambda>_.
               Inr ((z + ucast (carry AND ucast PyLong_MASK)) # zs')))
      else Inr zs)"

fun mul_rows :: "digit list \<Rightarrow> digit list \<Rightarrow> digit list \<Rightarrow> digit list pyres" where
  "mul_rows [] bs zs = Inr zs"
| "mul_rows (a # as) bs zs =
     rbind (mul_row (ucast a) 0 zs bs) (\<lambda>zs.
       case zs of
         [] \<Rightarrow> Inl AssertionFailed
       | z # zs \<Rightarrow> rbind (mul_rows as bs zs) (\<lambda>ds. Inr (z # ds)))"

text \<open>Squaring adds each product of two different digits once, doubled.\<close>

definition sqr_carry :: "twodigits \<Rightarrow> digit list \<Rightarrow> (digit list \<times> twodigits \<times> digit list) pyres" where
  "sqr_carry carry zs =
     (if carry \<noteq> 0 then
        (case zs of
           [] \<Rightarrow> Inl AssertionFailed
         | z # zs' \<Rightarrow>
             let carry = carry + ucast z
             in Inr ([ucast (carry AND ucast PyLong_MASK)], drop_bit PyLong_SHIFT carry, zs'))
      else Inr ([], carry, zs))"

definition sqr_tail :: "twodigits \<Rightarrow> digit list \<Rightarrow> digit list pyres" where
  "sqr_tail carry zs =
     rbind (sqr_carry carry zs) (\<lambda>(pre, carry, zs).
       if carry \<noteq> 0 then
         (case zs of
            [] \<Rightarrow> Inl AssertionFailed
          | z # zs' \<Rightarrow>
              rbind (c_assert (drop_bit PyLong_SHIFT carry = 0)) (\<lambda>_.
                Inr (pre @ (z + ucast (carry AND ucast PyLong_MASK)) # zs')))
       else Inr (pre @ zs))"

fun sqr_row :: "twodigits \<Rightarrow> twodigits \<Rightarrow> digit list \<Rightarrow> digit list \<Rightarrow> digit list pyres" where
  "sqr_row f carry (z # zs) (a # as) =
     (let carry = carry + (ucast z + ucast a * f)
      in rbind (c_assert (drop_bit PyLong_SHIFT carry \<le> push_bit 1 (ucast PyLong_MASK))) (\<lambda>_.
         rbind (sqr_row f (drop_bit PyLong_SHIFT carry) zs as) (\<lambda>ds.
           Inr (ucast (carry AND ucast PyLong_MASK) # ds))))"
| "sqr_row f carry [] (a # as) = Inl AssertionFailed"
| "sqr_row f carry zs [] = sqr_tail carry zs"

fun sqr_rows :: "digit list \<Rightarrow> digit list \<Rightarrow> digit list pyres" where
  "sqr_rows [] zs = Inr zs"
| "sqr_rows (a # as) (z # zs) =
     (let f = ucast a;
          carry = ucast z + f * f;
          d = ucast (carry AND ucast PyLong_MASK);
          carry = drop_bit PyLong_SHIFT carry
      in rbind (c_assert (carry \<le> ucast PyLong_MASK)) (\<lambda>_.
         rbind (sqr_row (push_bit 1 f) carry zs as) (\<lambda>zs.
           case zs of
             [] \<Rightarrow> Inl AssertionFailed
           | z' # zs \<Rightarrow> rbind (sqr_rows as zs) (\<lambda>ds. Inr (d # z' # ds)))))"
| "sqr_rows (a # as) [] = Inl AssertionFailed"

definition x_mul :: "bool \<Rightarrow> pylong \<Rightarrow> pylong \<Rightarrow> pylong pyres" where
  "x_mul same a b =
     rbind (PyLong_New (int (nd a + nd b))) (\<lambda>z.
       let zs = replicate (nd a + nd b) 0
       in rbind (if same then sqr_rows (digits a) zs else mul_rows (digits a) (digits b) zs) (\<lambda>ds.
            Inr (long_normalize (z\<lparr>ob_digit := ds\<rparr>))))"

section \<open>Vectors in place\<close>

fun v_iadd_loop :: "digit \<Rightarrow> digit list \<Rightarrow> digit list \<Rightarrow> (digit list \<times> digit) pyres" where
  "v_iadd_loop carry (x # xs) (y # ys) =
     (let carry = carry + (x + y);
          out = drop_bit PyLong_SHIFT carry
      in rbind (c_assert (out AND 1 = out)) (\<lambda>_.
         rbind (v_iadd_loop out xs ys) (\<lambda>(zs, c). Inr ((carry AND PyLong_MASK) # zs, c))))"
| "v_iadd_loop carry [] (y # ys) = Inl AssertionFailed"
| "v_iadd_loop carry [] [] = Inr ([], carry)"
| "v_iadd_loop carry (x # xs) [] =
     (if carry = 0 then Inr (x # xs, carry)
      else
        let carry = carry + x;
            out = drop_bit PyLong_SHIFT carry
        in rbind (c_assert (out AND 1 = out)) (\<lambda>_.
           rbind (v_iadd_loop out xs []) (\<lambda>(zs, c). Inr ((carry AND PyLong_MASK) # zs, c))))"

definition v_iadd :: "digit list \<Rightarrow> digit list \<Rightarrow> (digit list \<times> digit) pyres" where
  "v_iadd xs ys =
     rbind (c_assert (length ys \<le> length xs)) (\<lambda>_. v_iadd_loop 0 xs ys)"

fun v_isub_loop :: "digit \<Rightarrow> digit list \<Rightarrow> digit list \<Rightarrow> digit list \<times> digit" where
  "v_isub_loop borrow (x # xs) (y # ys) =
     (let borrow = x - y - borrow;
          (zs, c) = v_isub_loop (drop_bit PyLong_SHIFT borrow AND 1) xs ys
      in ((borrow AND PyLong_MASK) # zs, c))"
| "v_isub_loop borrow [] ys = ([], borrow)"
| "v_isub_loop borrow (x # xs) [] =
     (if borrow = 0 then (x # xs, borrow)
      else
        let borrow = x - borrow;
            (zs, c) = v_isub_loop (drop_bit PyLong_SHIFT borrow AND 1) xs []
        in ((borrow AND PyLong_MASK) # zs, c))"

definition v_isub :: "digit list \<Rightarrow> digit list \<Rightarrow> (digit list \<times> digit) pyres" where
  "v_isub xs ys =
     rbind (c_assert (length ys \<le> length xs)) (\<lambda>_. Inr (v_isub_loop 0 xs ys))"

text \<open>The calls of \<open>k_mul\<close> work on the digits from \<open>off\<close> on and ignore the carry out.\<close>

definition v_iadd_at :: "digit list \<Rightarrow> nat \<Rightarrow> digit list \<Rightarrow> digit list pyres" where
  "v_iadd_at ret off ys =
     rbind (v_iadd (drop off ret) ys) (\<lambda>(zs, _). Inr (take off ret @ zs))"

definition v_isub_at :: "digit list \<Rightarrow> nat \<Rightarrow> digit list \<Rightarrow> digit list pyres" where
  "v_isub_at ret off ys =
     rbind (v_isub (drop off ret) ys) (\<lambda>(zs, _). Inr (take off ret @ zs))"

section \<open>Karatsuba\<close>

definition KARATSUBA_CUTOFF :: nat where "KARATSUBA_CUTOFF = 70"
definition KARATSUBA_SQUARE_CUTOFF :: nat where "KARATSUBA_SQUARE_CUTOFF = 2 * KARATSUBA_CUTOFF"

definition kmul_split :: "pylong \<Rightarrow> nat \<Rightarrow> (pylong \<times> pylong) pyres" where
  "kmul_split n sz =
     (let size_lo = min (nd n) sz;
          size_hi = nd n - size_lo
      in rbind (PyLong_New (int size_hi)) (\<lambda>hi.
         rbind (PyLong_New (int size_lo)) (\<lambda>lo.
           let lo = lo\<lparr>ob_digit := take size_lo (ob_digit n)\<rparr>;
               hi = hi\<lparr>ob_digit := take size_hi (drop size_lo (ob_digit n))\<rparr>
           in Inr (long_normalize hi, long_normalize lo))))"

lemma kmul_split_nd:
  assumes "kmul_split n sz = Inr (hi, lo)"
  shows "nd hi \<le> nd n - sz \<and> nd lo \<le> nd n \<and> nd lo \<le> sz"
proof -
  from assms obtain h l where "hi = long_normalize h" "lo = long_normalize l"
    "nd h = nd n - min (nd n) sz" "nd l = min (nd n) sz"
    by (auto simp: kmul_split_def Let_def)
  then show ?thesis
    using nd_long_normalize_le [of h] nd_long_normalize_le [of l] by auto
qed

lemma x_add_nd: "x_add a b = Inr z \<Longrightarrow> nd z \<le> max (nd a) (nd b) + 1"
proof -
  assume "x_add a b = Inr z"
  then obtain v where "z = long_normalize v" "nd v = max (nd a) (nd b) + 1"
    by (auto simp: x_add_def max_def split: if_splits)
  then show ?thesis using nd_long_normalize_le [of v] by simp
qed

text \<open>Steps 2 and 3: the products of the halves go to the high and the low digits.\<close>

definition kmul_store_high :: "digit list \<Rightarrow> nat \<Rightarrow> pylong \<Rightarrow> digit list pyres" where
  "kmul_store_high ret shift t1 =
     rbind (c_assert (0 \<le> ob_size t1)) (\<lambda>_.
     rbind (c_assert (2 * shift + nd t1 \<le> length ret)) (\<lambda>_.
       let ret = array_write ret (2 * shift) (digits t1);
           i = length ret - 2 * shift - nd t1
       in Inr (if i \<noteq> 0 then array_write ret (2 * shift + nd t1) (replicate i 0) else ret)))"

definition kmul_store_low :: "digit list \<Rightarrow> nat \<Rightarrow> pylong \<Rightarrow> digit list pyres" where
  "kmul_store_low ret shift t2 =
     rbind (c_assert (0 \<le> ob_size t2)) (\<lambda>_.
     rbind (c_assert (nd t2 \<le> 2 * shift)) (\<lambda>_.
       let ret = array_write ret 0 (digits t2);
           i = 2 * shift - nd t2
       in Inr (if i \<noteq> 0 then array_write ret (nd t2) (replicate i 0) else ret)))"

text \<open>
  \<open>k_mul\<close> and \<open>k_lopsided_mul\<close> call each other; the third function is the loop of the
  second, over the digits of \<open>b\<close> that are left, the storage of \<open>bslice\<close> and the digits of the
  result from \<open>nbdone\<close> on. The loop is only entered with more than \<open>KARATSUBA_CUTOFF\<close> digits in
  \<open>a\<close>; its own assertion is what makes it stop on every argument.
  \<open>k_mul\<close> decreases the size of the larger operand; the loop of \<open>k_lopsided_mul\<close> calls \<open>k_mul\<close>
  on operands of at most \<open>nd a\<close> digits, and \<open>b\<close> has at least twice as many.
\<close>

function (sequential) k_mul :: "bool \<Rightarrow> pylong \<Rightarrow> pylong \<Rightarrow> pylong pyres"
  and k_lopsided_mul :: "pylong \<Rightarrow> pylong \<Rightarrow> pylong pyres"
  and k_lopsided_loop :: "pylong \<Rightarrow> digit list \<Rightarrow> digit list \<Rightarrow> digit list \<Rightarrow> digit list pyres"
where
  "k_mul same a0 b0 =
     (let (a, b) = (if nd a0 > nd b0 then (b0, a0) else (a0, b0));
          asize = nd a; bsize = nd b;
          cutoff = (if same then KARATSUBA_SQUARE_CUTOFF else KARATSUBA_CUTOFF)
      in if asize \<le> cutoff then
           (if asize = 0 then PyLong_FromLong 0 else x_mul same a b)
         else if 2 * asize \<le> bsize then k_lopsided_mul a b
         else
           let shift = bsize div 2
           in rbind (kmul_split a shift) (\<lambda>(ah, al).
              rbind (c_assert (0 < ob_size ah)) (\<lambda>_.
              rbind (if same then Inr (ah, al) else kmul_split b shift) (\<lambda>(bh, bl).
              rbind (PyLong_New (int (asize + bsize))) (\<lambda>ret.
              rbind (k_mul same ah bh) (\<lambda>t1.
              rbind (kmul_store_high (ob_digit ret) shift t1) (\<lambda>r.
              rbind (k_mul same al bl) (\<lambda>t2.
              rbind (kmul_store_low r shift t2) (\<lambda>r.
              rbind (v_isub_at r shift (digits t2)) (\<lambda>r.
              rbind (v_isub_at r shift (digits t1)) (\<lambda>r.
              rbind (x_add ah al) (\<lambda>t1.
              rbind (if same then Inr t1 else x_add bh bl) (\<lambda>t2.
              rbind (k_mul same t1 t2) (\<lambda>t3.
              rbind (c_assert (0 \<le> ob_size t3)) (\<lambda>_.
              rbind (v_iadd_at r shift (digits t3)) (\<lambda>r.
                Inr (long_normalize (ret\<lparr>ob_digit := r\<rparr>))))))))))))))))))"
| "k_lopsided_mul a b =
     rbind (c_assert (KARATSUBA_CUTOFF < nd a)) (\<lambda>_.
     rbind (c_assert (2 * nd a \<le> nd b)) (\<lambda>_.
     rbind (PyLong_New (int (nd a + nd b))) (\<lambda>ret.
     rbind (PyLong_New (int (nd a))) (\<lambda>bslice.
     rbind (k_lopsided_loop a (digits b) (ob_digit bslice) (replicate (nd a + nd b) 0)) (\<lambda>r.
       Inr (long_normalize (ret\<lparr>ob_digit := r\<rparr>)))))))"
| "k_lopsided_loop a bs stor ret =
     (if bs = [] then Inr ret
      else
        rbind (c_assert (0 < nd a)) (\<lambda>_.
        let nbtouse = min (length bs) (nd a);
            stor = array_write stor 0 (take nbtouse bs);
            bslice = \<lparr>ob_refcnt = 1, ob_size = int nbtouse, ob_digit = stor\<rparr>
        in rbind (k_mul False a bslice) (\<lambda>product.
           rbind (v_iadd_at ret 0 (digits product)) (\<lambda>r.
           rbind (k_lopsided_loop a (drop nbtouse bs) stor (drop nbtouse r)) (\<lambda>rest.
             Inr (take nbtouse r @ rest))))))"
  by pat_completeness auto
termination
proof (relation "measures
    [case_sum (\<lambda>(same, a, b). 2 * max (nd a) (nd b) + 1)
       (case_sum (\<lambda>(a, b). if KARATSUBA_CUTOFF < nd a \<and> 2 * nd a \<le> nd b then 2 * max (nd a) (nd b) else 0)
          (\<lambda>(a, bs, st, ret). 2 * nd a + 2)),
     case_sum (\<lambda>_. 0) (case_sum (\<lambda>_. 0) (\<lambda>(a, bs, st, ret). length bs))]", goal_cases)
qed (auto simp: KARATSUBA_CUTOFF_def KARATSUBA_SQUARE_CUTOFF_def max_def min_def
    split: if_splits dest!: kmul_split_nd x_add_nd)

section \<open>Grade school is multiplication\<close>

text \<open>One column: the double-width accumulator holds carry, digit and product without overflow.\<close>

lemma unat_mul_column:
  fixes f c :: twodigits and z b :: digit
  assumes "digit_ok z" and "digit_ok b" and "unat f < 2 ^ 31" and "unat c < 2 ^ 31"
  shows "unat (c + (ucast z + ucast b * f)) = unat c + unat z + unat b * unat f"
proof -
  have z: "unat (ucast z :: twodigits) = unat z" and b: "unat (ucast b :: twodigits) = unat b"
    by (simp_all add: unat_ucast_up)
  have bf: "unat b * unat f \<le> 2 ^ 30 * 2 ^ 31"
    using assms by (intro mult_le_mono) (simp_all add: digit_ok_def)
  then have p: "unat (ucast b * f) = unat b * unat f"
    using unat_mult_small [of "ucast b :: twodigits" f] b by simp
  then have "unat (ucast z + ucast b * f) = unat z + unat b * unat f"
    using bf assms(1) z unat_add_small [of "ucast z :: twodigits" "ucast b * f"] by (simp add: digit_ok_def)
  then show ?thesis
    using bf assms(1,4) unat_add_small [of c "ucast z + ucast b * f"] by (simp add: digit_ok_def)
qed

lemma unat_le_ucast_MASK:
  "(c :: twodigits) \<le> ucast PyLong_MASK \<longleftrightarrow> unat c < 2 ^ 30"
proof -
  have "unat (ucast PyLong_MASK :: twodigits) = 2 ^ 30 - 1"
    by (simp add: PyLong_MASK_def PyLong_BASE_def)
  then show ?thesis by (simp add: word_le_nat_alt less_Suc_eq_le [symmetric])
qed

lemma unat_add_top:
  fixes z :: digit and c :: twodigits
  assumes "unat z + unat c < 2 ^ 30"
  shows "unat (z + ucast (c AND ucast PyLong_MASK)) = unat z + unat c"
    and "digit_ok (z + ucast (c AND ucast PyLong_MASK))"
proof -
  have "unat (ucast (c AND ucast PyLong_MASK) :: digit) = unat c"
    using assms by simp
  then show "unat (z + ucast (c AND ucast PyLong_MASK)) = unat z + unat c"
    using assms by (subst unat_add_small) simp_all
  then show "digit_ok (z + ucast (c AND ucast PyLong_MASK))"
    using assms by (simp add: digit_ok_def)
qed

lemma drop_bit_0_small: "unat (c :: twodigits) < 2 ^ 30 \<Longrightarrow> drop_bit 30 c = 0"
  by (metis div_less unat_drop_bit_div unat_eq_zero)

lemma mul_row_correct:
  assumes "list_all digit_ok zs" and "list_all digit_ok bs" and "length bs < length zs"
    and "zs ! length bs = 0" and "unat f < 2 ^ 30" and "unat c < 2 ^ 30"
  shows "\<exists>ds. mul_row f c zs bs = Inr ds \<and> length ds = length zs \<and> list_all digit_ok ds \<and>
    dval ds = dval zs + unat f * dval bs + unat c \<and>
    drop (Suc (length bs)) ds = drop (Suc (length bs)) zs"
  using assms
proof (induction bs arbitrary: zs c)
  case Nil
  then obtain zs' where zs: "zs = 0 # zs'" by (cases zs) auto
  show ?case
    using Nil zs unat_add_top [of 0 c] drop_bit_0_small [of c] by simp
next
  case (Cons b bs)
  then obtain z zs' where zs: "zs = z # zs'" by (cases zs) auto
  let ?s = "c + (ucast z + ucast b * f)"
  have s: "unat ?s = unat c + unat z + unat b * unat f"
    using Cons.prems zs by (intro unat_mul_column) simp_all
  have "unat b * unat f \<le> (2 ^ 30 - 1) * (2 ^ 30 - 1)"
    using Cons.prems by (intro mult_le_mono) (auto simp: digit_ok_def)
  then have "unat ?s < 2 ^ 30 * 2 ^ 30"
    using Cons.prems zs s by (simp add: digit_ok_def)
  then have out: "unat (drop_bit 30 ?s) < 2 ^ 30"
    unfolding unat_drop_bit_div by (rule less_mult_imp_div_less)
  then obtain ds where ds: "mul_row f (drop_bit 30 ?s) zs' bs = Inr ds" "length ds = length zs'"
    "list_all digit_ok ds" "dval ds = dval zs' + unat f * dval bs + unat (drop_bit 30 ?s)"
    "drop (Suc (length bs)) ds = drop (Suc (length bs)) zs'"
    using Cons.IH [of zs' "drop_bit 30 ?s"] Cons.prems zs by auto
  have "unat ?s mod 2 ^ 30 + 2 ^ 30 * dval ds = dval zs + unat f * dval (b # bs) + unat c"
    unfolding ds(4) unat_drop_bit_div split_nat_30
    using s zs by (simp add: algebra_simps)
  with ds out zs show ?case
    by (simp add: Let_def unat_le_ucast_MASK)
qed

lemma mul_rows_correct:
  assumes "list_all digit_ok as" and "list_all digit_ok bs" and "list_all digit_ok zs"
    and "length zs = length as + length bs" and "\<forall>i. length bs \<le> i \<and> i < length zs \<longrightarrow> zs ! i = 0"
  shows "\<exists>ds. mul_rows as bs zs = Inr ds \<and> length ds = length zs \<and> list_all digit_ok ds \<and>
    dval ds = dval zs + dval as * dval bs"
  using assms
proof (induction as arbitrary: zs)
  case (Cons a as)
  have f: "unat (ucast a :: twodigits) = unat a" by (simp add: unat_ucast_up)
  have pre: "length bs < length zs" "zs ! length bs = 0" "digit_ok a" using Cons.prems by auto
  then have "unat a < 2 ^ 30" by (simp add: digit_ok_def)
  with pre(1,2) Cons.prems obtain ds where ds: "mul_row (ucast a) 0 zs bs = Inr ds" "length ds = length zs"
    "list_all digit_ok ds" "dval ds = dval zs + unat a * dval bs"
    "drop (Suc (length bs)) ds = drop (Suc (length bs)) zs"
    using mul_row_correct [of zs bs "ucast a" 0] f by auto
  then obtain d ds' where d: "ds = d # ds'" using Cons.prems(4) by (cases ds) auto
  have "ds' ! i = 0" if "length bs \<le> i" "i < length ds'" for i
  proof -
    have "ds' ! i = drop (Suc (length bs)) ds ! (i - length bs)"
      using that d by (simp add: nth_drop)
    also have "\<dots> = zs ! Suc i"
      using that ds(2,5) d by simp
    finally show ?thesis using Cons.prems(5) that ds(2) d by simp
  qed
  then obtain r where r: "mul_rows as bs ds' = Inr r" "length r = length ds'" "list_all digit_ok r"
    "dval r = dval ds' + dval as * dval bs"
    using Cons.IH [of ds'] Cons.prems ds d by auto
  have "dval (d # r) = dval zs + dval (a # as) * dval bs"
    using ds(4) r(4) d by (simp add: algebra_simps)
  with ds r d show ?case by simp
qed simp

text \<open>
  Squaring. Before row \<open>i\<close> the digits from \<open>2 i\<close> on hold at most twice the number \<open>H\<close> that the
  digits of \<open>a\<close> from \<open>i\<close> on denote, so the row ends below \<open>(H + 1)\<^sup>2\<close>, which fits.
\<close>

lemma dval_two_split: "dval (x # y # zs) = unat x + 2 ^ 30 * unat y + 2 ^ 60 * dval zs"
  by simp

lemma dval_small_zeros: "dval zs = 0 \<Longrightarrow> z \<in> set zs \<Longrightarrow> z = 0"
  by (induction zs) (auto, metis unat_eq_zero)

lemma sqr_tail_correct:
  assumes "list_all digit_ok zs" and "dval zs \<le> 1" and "unat c < 2 ^ 31"
    and "dval zs + unat c < 2 ^ (30 * length zs)"
  shows "\<exists>ds. sqr_tail c zs = Inr ds \<and> length ds = length zs \<and> list_all digit_ok ds \<and>
    dval ds = dval zs + unat c"
proof (cases "c = 0")
  case True
  with assms show ?thesis by (simp add: sqr_tail_def sqr_carry_def)
next
  case False
  then have "0 < unat c" by (simp add: unat_gt_0)
  with assms(4) obtain z zs1 where zs: "zs = z # zs1" by (cases zs) auto
  have z: "unat z \<le> 1" "dval zs1 = 0" using assms(2) zs by auto
  have s: "unat (c + ucast z) = unat c + unat z"
    using assms(3) z by (subst unat_add_small) (simp_all add: unat_ucast_up)
  let ?s = "c + ucast z"
  have out: "unat (drop_bit 30 ?s) \<le> 2"
    using assms(3) z s div_le_mono [of "unat ?s" "2 * 2 ^ 30" "2 ^ 30"] by (simp add: unat_drop_bit_div)
  show ?thesis
  proof (cases "drop_bit 30 ?s = 0")
    case True
    then have "unat ?s div 2 ^ 30 = 0" by (metis unat_0 unat_drop_bit_div)
    then have "unat ?s mod 2 ^ 30 = unat ?s" by (simp add: div_eq_0_iff)
    with True False zs z s assms(1) show ?thesis
      by (simp add: sqr_tail_def sqr_carry_def Let_def)
  next
    case carry: False
    then have pos: "0 < unat (drop_bit 30 ?s)" by (simp add: unat_gt_0)
    have "zs1 \<noteq> []"
    proof
      assume "zs1 = []"
      then have "unat ?s < 2 ^ 30" using assms(4) zs s by simp
      with pos show False by (simp add: unat_drop_bit_div)
    qed
    then obtain y zs2 where zs1: "zs1 = y # zs2" by (cases zs1) auto
    then have "unat y = 0" and y2: "dval zs2 = 0" using z by auto
    then have y: "y = 0" by (metis unat_eq_zero)
    have top: "unat (y + ucast (drop_bit 30 ?s AND ucast PyLong_MASK)) = unat (drop_bit 30 ?s)"
      "digit_ok (y + ucast (drop_bit 30 ?s AND ucast PyLong_MASK))"
      using unat_add_top [of y "drop_bit 30 ?s"] out y by simp_all
    have "drop_bit 30 (drop_bit 30 ?s) = 0"
      using out by (intro drop_bit_0_small) simp
    moreover have "unat ?s mod 2 ^ 30 + 2 ^ 30 * unat (drop_bit 30 ?s) = dval zs + unat c"
      unfolding unat_drop_bit_div mod_mult_div_eq using s zs z by simp
    ultimately show ?thesis
      using False carry zs zs1 y y2 top assms(1)
      by (simp add: sqr_tail_def sqr_carry_def Let_def)
  qed
qed

lemma unat_le_double_MASK:
  "(c :: twodigits) \<le> push_bit 1 (ucast PyLong_MASK) \<longleftrightarrow> unat c \<le> 2 * (2 ^ 30 - 1)"
proof -
  have "unat (push_bit 1 (ucast PyLong_MASK) :: twodigits) = 2 * (2 ^ 30 - 1)"
    by (simp add: PyLong_MASK_def PyLong_BASE_def)
  then show ?thesis by (simp add: word_le_nat_alt)
qed

lemma sqr_column_bound:
  fixes B :: nat
  assumes "0 < B" "c \<le> 2 * (B - 1)" "z \<le> B - 1" "a \<le> B - 1" "f \<le> 2 * (B - 1)"
  shows "(c + z + a * f) div B \<le> 2 * (B - 1)"
proof -
  obtain b where B: "B = Suc b" using assms(1) by (cases B) auto
  have "a * f \<le> b * (2 * b)" using assms B by (intro mult_le_mono) simp_all
  then have "c + z + a * f < Suc b * (2 * b + 1)"
    using assms B by (simp add: algebra_simps)
  then have "(c + z + a * f) div B < 2 * b + 1"
    unfolding B by (intro less_mult_imp_div_less) (simp add: mult.commute)
  then show ?thesis using B by simp
qed

lemma sqr_row_correct:
  assumes "list_all digit_ok zs" and "list_all digit_ok as" and "length as \<le> length zs"
    and "unat f \<le> 2 * (2 ^ 30 - 1)" and "unat c \<le> 2 * (2 ^ 30 - 1)"
    and "dval (drop (length as) zs) \<le> 1"
    and "dval zs + unat f * dval as + unat c < 2 ^ (30 * length zs)"
  shows "\<exists>ds. sqr_row f c zs as = Inr ds \<and> length ds = length zs \<and> list_all digit_ok ds \<and>
    dval ds = dval zs + unat f * dval as + unat c"
  using assms
proof (induction as arbitrary: zs c)
  case Nil
  then show ?case using sqr_tail_correct [of zs c] by (cases zs) simp_all
next
  case (Cons a as)
  then obtain z zs' where zs: "zs = z # zs'" by (cases zs) auto
  let ?s = "c + (ucast z + ucast a * f)"
  have ok: "digit_ok z" "digit_ok a" using Cons.prems zs by simp_all
  then have le: "unat z \<le> 2 ^ 30 - 1" "unat a \<le> 2 ^ 30 - 1" by (simp_all add: digit_ok_def)
  have s: "unat ?s = unat c + unat z + unat a * unat f"
    using Cons.prems(4,5) ok by (intro unat_mul_column) simp_all
  have out: "unat (drop_bit 30 ?s) \<le> 2 * (2 ^ 30 - 1)"
    unfolding unat_drop_bit_div s using Cons.prems(4,5) le by (intro sqr_column_bound) simp_all
  let ?q = "dval zs' + unat f * dval as"
  have tot: "dval zs + unat f * dval (a # as) + unat c = unat ?s + 2 ^ 30 * ?q"
    using s zs by (simp add: algebra_simps)
  then have "unat ?s mod 2 ^ 30 + 2 ^ 30 * (?q + unat (drop_bit 30 ?s)) < 2 ^ 30 * 2 ^ (30 * length zs')"
    unfolding unat_drop_bit_div split_nat_30 using Cons.prems(7) zs by (simp add: power_add)
  then have "2 ^ 30 * (?q + unat (drop_bit 30 ?s)) < 2 ^ 30 * 2 ^ (30 * length zs')"
    by (rule le_less_trans [OF le_add2])
  then have "?q + unat (drop_bit 30 ?s) < 2 ^ (30 * length zs')"
    by (simp only: nat_mult_less_cancel_disj)
  then obtain ds where ds: "sqr_row f (drop_bit 30 ?s) zs' as = Inr ds" "length ds = length zs'"
    "list_all digit_ok ds" "dval ds = ?q + unat (drop_bit 30 ?s)"
    using Cons.IH [of zs' "drop_bit 30 ?s"] Cons.prems zs out by auto
  have "unat ?s mod 2 ^ 30 + 2 ^ 30 * dval ds = dval zs + unat f * dval (a # as) + unat c"
    unfolding ds(4) unat_drop_bit_div split_nat_30 tot ..
  moreover have "drop_bit 30 ?s \<le> push_bit 1 (ucast PyLong_MASK)"
    using out by (simp only: unat_le_double_MASK)
  ultimately show ?case
    using ds zs by (simp add: Let_def)
qed

lemma square_row_room:
  fixes B a r z Z :: nat
  assumes "0 < B" "a < B" "z + B * Z \<le> 2 * (a + B * r)"
  shows "z + a * a + B * (Z + 2 * a * r) < (a + B * r + 1) * (a + B * r + 1)"
    and "z + a * a + B * (Z + 2 * a * r) < B * B * (2 * r + 1)"
proof -
  have "z + a * a + B * (Z + 2 * a * r) \<le> 2 * (a + B * r) + a * a + 2 * a * B * r"
    using assms(3) by (simp add: algebra_simps)
  moreover have "2 * (a + B * r) + a * a + 2 * a * B * r < (a + B * r + 1) * (a + B * r + 1)"
    by (simp add: algebra_simps)
  ultimately show "z + a * a + B * (Z + 2 * a * r) < (a + B * r + 1) * (a + B * r + 1)"
    by simp
  obtain b where B: "B = a + 1 + b" using assms(2) by (metis Suc_eq_plus1 Suc_leI le_Suc_ex)
  have "2 * (a + B * r) + a * a + 2 * a * B * r < (a + 1) * (a + 1) + 2 * r * B * (a + 1)"
    by (simp add: algebra_simps)
  also have "\<dots> \<le> B * B + 2 * r * B * B"
    using B by (intro add_mono mult_le_mono) simp_all
  finally show "z + a * a + B * (Z + 2 * a * r) < B * B * (2 * r + 1)"
    using \<open>z + a * a + B * (Z + 2 * a * r) \<le> _\<close> by (simp add: algebra_simps)
qed

lemma sqr_rows_correct:
  assumes "list_all digit_ok as" and "list_all digit_ok zs" and "length zs = 2 * length as"
    and "dval zs \<le> 2 * dval as"
  shows "\<exists>ds. sqr_rows as zs = Inr ds \<and> length ds = length zs \<and> list_all digit_ok ds \<and>
    dval ds = dval zs + dval as * dval as"
  using assms
proof (induction as arbitrary: zs)
  case (Cons a as)
  then obtain z zs1 where zs: "zs = z # zs1" by (cases zs) auto
  let ?B = "2 ^ 30 :: nat" and ?r = "dval as"
  let ?c0 = "ucast z + ucast a * ucast a :: twodigits"
  have ok: "digit_ok z" "digit_ok a" using Cons.prems zs by simp_all
  then have lt: "unat a < ?B" "unat z < ?B" by (simp_all add: digit_ok_def)
  have ua: "unat (ucast a :: twodigits) = unat a" by (simp add: unat_ucast_up)
  have c0: "unat ?c0 = unat z + unat a * unat a"
    using unat_mul_column [OF ok, of "ucast a" 0] lt ua by simp
  let ?f = "push_bit 1 (ucast a) :: twodigits"
  have f: "unat ?f = 2 * unat a"
    using lt ua unat_push_bit_small [of "ucast a :: twodigits" 1] by simp
  have "unat a * unat a \<le> (?B - 1) * (?B - 1)" using lt by (intro mult_le_mono) simp_all
  then have "unat ?c0 < ?B * ?B" using lt c0 by simp
  then have out: "unat (drop_bit 30 ?c0) < ?B"
    unfolding unat_drop_bit_div by (rule less_mult_imp_div_less)
  have inv: "unat z + ?B * dval zs1 \<le> 2 * (unat a + ?B * ?r)" using Cons.prems(4) zs by simp
  note room = square_row_room [OF _ lt(1) inv, simplified]
  let ?row = "dval zs1 + 2 * unat a * ?r + unat (drop_bit 30 ?c0)"
  have tot: "unat ?c0 mod ?B + ?B * ?row = unat z + unat a * unat a + ?B * (dval zs1 + 2 * unat a * ?r)"
    unfolding unat_drop_bit_div split_nat_30 using c0 by simp
  have H: "unat a + ?B * ?r + 1 \<le> 2 ^ (30 * Suc (length as))"
    using dval_bound [of "a # as"] Cons.prems(1) by simp
  have len: "30 * Suc (length as) + 30 * Suc (length as) = 30 + 30 * length zs1"
    using Cons.prems(3) zs by simp
  have "(unat a + ?B * ?r + 1) * (unat a + ?B * ?r + 1)
      \<le> 2 ^ (30 * Suc (length as)) * 2 ^ (30 * Suc (length as))"
    using H by (rule mult_le_mono) (rule H)
  also have "\<dots> = ?B * 2 ^ (30 * length zs1)"
    by (simp only: power_add [symmetric] len)
  finally have "?B * ?row < ?B * 2 ^ (30 * length zs1)"
    using room(1) tot by simp
  then have roomy: "?row < 2 ^ (30 * length zs1)" by (simp only: nat_mult_less_cancel_disj)
  have "?B * dval zs1 < ?B * (2 * 2 ^ (30 * length as))"
    using inv H by (simp add: power_add)
  then have "dval zs1 < 2 * 2 ^ (30 * length as)" by (simp only: nat_mult_less_cancel_disj)
  moreover have "dval zs1 = dval (take (length as) zs1) + 2 ^ (30 * length as) * dval (drop (length as) zs1)"
    using dval_take_drop [of zs1 "length as"] Cons.prems(3) zs by (simp add: min_def)
  ultimately have "2 ^ (30 * length as) * dval (drop (length as) zs1) < 2 ^ (30 * length as) * 2"
    by linarith
  then have "dval (drop (length as) zs1) < 2" by (simp only: nat_mult_less_cancel_disj)
  then have "dval (drop (length as) zs1) \<le> 1" by simp
  then obtain ds where ds: "sqr_row ?f (drop_bit 30 ?c0) zs1 as = Inr ds" "length ds = length zs1"
    "list_all digit_ok ds" "dval ds = ?row"
    using sqr_row_correct [of zs1 as ?f "drop_bit 30 ?c0"] Cons.prems zs f lt out roomy by auto
  obtain z' zs2 where z': "ds = z' # zs2" using ds(2) Cons.prems(3) zs by (cases ds) auto
  have "?B * ?B * dval zs2 \<le> ?B * dval ds" using z' by simp
  also have "\<dots> \<le> unat ?c0 mod ?B + ?B * dval ds" by simp
  also have "\<dots> < ?B * ?B * (2 * ?r + 1)" using ds(4) tot room(2) by simp
  finally have "dval zs2 \<le> 2 * ?r" by simp
  then obtain q where q: "sqr_rows as zs2 = Inr q" "length q = length zs2" "list_all digit_ok q"
    "dval q = dval zs2 + ?r * ?r"
    using Cons.IH [of zs2] Cons.prems zs ds z' by auto
  have "unat ?c0 mod ?B + ?B * (unat z' + ?B * dval q) = dval zs + dval (a # as) * dval (a # as)"
    using tot ds(4) z' q(4) zs by (simp add: algebra_simps)
  moreover have "drop_bit 30 ?c0 \<le> ucast PyLong_MASK"
    using out by (simp only: unat_le_ucast_MASK)
  ultimately show ?case
    using ds z' q zs by (simp add: Let_def)
qed simp

text \<open>
  A slice of a number need not be normalised; \<open>pre_long\<close> is well-formedness without that, and
  \<open>top_nonzero\<close> the part left out.
\<close>

definition pre_long :: "pylong \<Rightarrow> bool" where
  "pre_long v \<longleftrightarrow> nd v \<le> length (ob_digit v) \<and> list_all digit_ok (digits v)"

definition top_nonzero :: "pylong \<Rightarrow> bool" where
  "top_nonzero v \<longleftrightarrow> (0 < nd v \<longrightarrow> ob_digit v ! (nd v - 1) \<noteq> 0)"

abbreviation mag :: "pylong \<Rightarrow> nat" where
  "mag v \<equiv> dval (digits v)"

lemma wf_long_pre: "wf_long v \<Longrightarrow> pre_long v" "wf_long v \<Longrightarrow> top_nonzero v"
  by (simp_all add: wf_long_def pre_long_def top_nonzero_def)

lemma pre_long_digits: "pre_long v \<Longrightarrow> length (digits v) = nd v" "pre_long v \<Longrightarrow> list_all digit_ok (digits v)"
  by (simp_all add: pre_long_def digits_def)

lemma pre_long_mag: "pre_long v \<Longrightarrow> mag v < 2 ^ (30 * nd v)"
  using dval_bound [of "digits v"] pre_long_digits [of v] by simp

lemma wf_long_nd_le:
  assumes "wf_long z" and "mag z < 2 ^ (30 * n)"
  shows "nd z \<le> n"
proof (rule ccontr)
  assume "\<not> nd z \<le> n"
  then have "0 < nd z" and "(2::nat) ^ (30 * n) \<le> 2 ^ (30 * (nd z - 1))"
    by (simp_all add: power_increasing)
  moreover from this(1) have "2 ^ (30 * (nd z - 1)) \<le> mag z"
    using dval_lower_normalized [of "digits z"] wf_long_digits [OF assms(1)] by auto
  ultimately show False using assms(2) by linarith
qed

text \<open>What a routine on magnitudes returns for the value \<open>n\<close>.\<close>

definition mag_result :: "pylong pyres \<Rightarrow> nat \<Rightarrow> bool" where
  "mag_result res n \<longleftrightarrow>
     (\<exists>z. res = Inr z \<and> wf_long z \<and> 0 \<le> ob_size z \<and> mag z = n \<and> fresh_or_small z)"

lemma mag_resultE:
  assumes "mag_result res n"
  obtains z where "res = Inr z" "wf_long z" "0 \<le> ob_size z" "mag z = n" "fresh_or_small z"
  using assms by (auto simp: mag_result_def)

lemma ob_size_normalize: "0 \<le> ob_size v \<Longrightarrow> 0 \<le> ob_size (long_normalize v)"
  by (simp add: long_normalize_def Let_def)

lemma mag_result_fill:
  assumes "list_all digit_ok ds" and "length ds = n" and "int n \<le> MAX_LONG_DIGITS" and "dval ds = x"
  shows "mag_result (Inr (long_normalize \<lparr>ob_refcnt = 1, ob_size = int n, ob_digit = ds\<rparr>)) x"
proof -
  let ?v = "\<lparr>ob_refcnt = 1, ob_size = int n, ob_digit = ds\<rparr>"
  have "wf_long (long_normalize ?v)"
    using assms by (intro fill_normalize(1) [OF assms(1) _ _ zero_less_one refl]) simp_all
  moreover have "mag (long_normalize ?v) = x"
    using assms by (simp add: dval_long_normalize) (simp add: digits_def)
  ultimately show ?thesis
    by (simp add: mag_result_def ob_size_normalize fresh_or_small_def)
qed

lemma mag_result_0: "mag_result (PyLong_FromLong 0) 0"
  using get_small_int_correct [of 0]
  by (simp add: mag_result_def PyLong_FromLong_def IS_SMALL_INT_def NSMALLNEGINTS_def NSMALLPOSINTS_def)
    (simp add: get_small_int_def small_int_entry_def Let_def digits_def nd_def)

lemma x_mul_correct:
  assumes "pre_long a" and "pre_long b" and "same \<Longrightarrow> a = b"
    and room: "int (nd a) + int (nd b) \<le> MAX_LONG_DIGITS"
  shows "mag_result (x_mul same a b) (mag a * mag b)"
proof -
  note da = pre_long_digits [OF assms(1)] and db = pre_long_digits [OF assms(2)]
  let ?zs = "replicate (nd a + nd b) 0 :: digit list"
  have z: "list_all digit_ok ?zs" by (simp add: list_all_iff digit_ok_def)
  have "\<exists>ds. (if same then sqr_rows (digits a) ?zs else mul_rows (digits a) (digits b) ?zs) = Inr ds \<and>
      length ds = nd a + nd b \<and> list_all digit_ok ds \<and> dval ds = mag a * mag b"
  proof (cases same)
    case True
    then show ?thesis
      using sqr_rows_correct [OF da(2) z] da(1) assms(3) by (auto simp: mult_2)
  next
    case False
    then show ?thesis
      using mul_rows_correct [OF da(2) db(2) z] da(1) db(1) by auto
  qed
  then obtain ds where
    "(if same then sqr_rows (digits a) ?zs else mul_rows (digits a) (digits b) ?zs) = Inr ds"
    "length ds = nd a + nd b" "list_all digit_ok ds" "dval ds = mag a * mag b" by blast
  then show ?thesis
    using room mag_result_fill [of ds "nd a + nd b" "mag a * mag b"]
    by (simp add: x_mul_def PyLong_New_def)
qed

lemma x_mul_overflow:
  "MAX_LONG_DIGITS < int (nd a) + int (nd b) \<Longrightarrow> x_mul same a b = Inl OverflowError"
  by (simp add: x_mul_def PyLong_New_def)

section \<open>The vector operations\<close>

lemma and_1_carry: "unat (c :: digit) \<le> 1 \<Longrightarrow> c AND 1 = c"
  by (metis One_nat_def Suc_1 lessI less_Suc_eq_le mod_less order_le_less_trans unat_and_1 word_unat_eq_iff)

lemma v_iadd_loop_correct:
  assumes "list_all digit_ok xs" and "list_all digit_ok ys" and "length ys \<le> length xs"
    and "unat c \<le> 1"
  shows "\<exists>zs out. v_iadd_loop c xs ys = Inr (zs, out) \<and> length zs = length xs \<and>
    list_all digit_ok zs \<and> dval zs + 2 ^ (30 * length xs) * unat out = dval xs + dval ys + unat c"
  using assms
proof (induction xs arbitrary: ys c)
  case (Cons x xs)
  show ?case
  proof (cases ys)
    case (Cons y ys')
    note prems = Cons.prems [unfolded Cons]
    from prems have ok: "digit_ok x" "digit_ok y" by simp_all
    let ?s = "c + (x + y)"
    note s = unat_column2 [OF ok prems(4)]
    note st = carry_step [OF s(2)]
    obtain zs out where r: "v_iadd_loop (drop_bit 30 ?s) xs ys' = Inr (zs, out)" "length zs = length xs"
      "list_all digit_ok zs"
      "dval zs + 2 ^ (30 * length xs) * unat out = dval xs + dval ys' + unat (drop_bit 30 ?s)"
      using Cons.IH [of ys' "drop_bit 30 ?s"] prems st(2) by auto
    have "unat (?s AND PyLong_MASK) + 2 ^ 30 * dval zs + 2 ^ (30 * Suc (length xs)) * unat out =
        unat (?s AND PyLong_MASK) + 2 ^ 30 * (dval zs + 2 ^ (30 * length xs) * unat out)"
      by (simp add: power_add algebra_simps)
    also have "\<dots> = unat ?s + 2 ^ 30 * (dval xs + dval ys')"
      unfolding r(4) using st(1) by (simp add: algebra_simps del: unat_and_MASK)
    finally show ?thesis
      using r s(1) and_1_carry [OF st(2)] by (simp add: Cons Let_def algebra_simps del: unat_and_MASK)
  next
    case Nil
    from Cons.prems have ok: "digit_ok x" by simp
    let ?s = "c + x"
    note s = unat_column1 [OF ok Cons.prems(4)]
    note st = carry_step [OF s(2)]
    obtain zs out where r: "v_iadd_loop (drop_bit 30 ?s) xs [] = Inr (zs, out)" "length zs = length xs"
      "list_all digit_ok zs"
      "dval zs + 2 ^ (30 * length xs) * unat out = dval xs + unat (drop_bit 30 ?s)"
      using Cons.IH [of "[]" "drop_bit 30 ?s"] Cons.prems st(2) by auto
    have "unat (?s AND PyLong_MASK) + 2 ^ 30 * dval zs + 2 ^ (30 * Suc (length xs)) * unat out =
        unat (?s AND PyLong_MASK) + 2 ^ 30 * (dval zs + 2 ^ (30 * length xs) * unat out)"
      by (simp add: power_add algebra_simps)
    also have "\<dots> = unat ?s + 2 ^ 30 * dval xs"
      unfolding r(4) using st(1) by (simp add: algebra_simps del: unat_and_MASK)
    finally show ?thesis
      using r s(1) and_1_carry [OF st(2)] Cons.prems(1)
      by (cases "c = 0") (simp_all add: Nil Let_def algebra_simps del: unat_and_MASK)
  qed
qed simp

lemma v_isub_loop_correct:
  assumes "list_all digit_ok xs" and "list_all digit_ok ys" and "length ys \<le> length xs"
    and "unat c \<le> 1"
  shows "\<exists>zs out. v_isub_loop c xs ys = (zs, out) \<and> length zs = length xs \<and>
    list_all digit_ok zs \<and> dval zs + dval ys + unat c = dval xs + 2 ^ (30 * length xs) * unat out"
  using assms
proof (induction xs arbitrary: ys c)
  case (Cons x xs)
  show ?case
  proof (cases ys)
    case (Cons y ys')
    note prems = Cons.prems [unfolded Cons]
    from prems have ok: "digit_ok x" "digit_ok y" by simp_all
    let ?s = "x - y - c"
    note st = borrow_step [OF ok prems(4)]
    obtain zs out where r: "v_isub_loop (drop_bit 30 ?s AND 1) xs ys' = (zs, out)" "length zs = length xs"
      "list_all digit_ok zs"
      "dval zs + dval ys' + unat (drop_bit 30 ?s AND 1) = dval xs + 2 ^ (30 * length xs) * unat out"
      using Cons.IH [of ys' "drop_bit 30 ?s AND 1"] prems st(2) by auto
    have "unat (?s AND PyLong_MASK) + unat y + unat c + 2 ^ 30 * (dval zs + dval ys') =
        unat x + 2 ^ 30 * (dval zs + dval ys' + unat (drop_bit 30 ?s AND 1))"
      unfolding st(1) by (simp add: algebra_simps)
    also have "\<dots> = unat x + 2 ^ 30 * dval xs + 2 ^ (30 * Suc (length xs)) * unat out"
      unfolding r(4) by (simp add: power_add algebra_simps)
    finally show ?thesis
      using r by (simp add: Cons Let_def algebra_simps del: unat_and_MASK)
  next
    case Nil
    have z: "digit_ok 0" by (simp add: digit_ok_def)
    with Cons.prems have ok: "digit_ok x" "digit_ok 0" by simp_all
    let ?s = "x - c"
    note st = borrow_step [OF ok Cons.prems(4), unfolded diff_zero unsigned_0 add_0_right]
    obtain zs out where r: "v_isub_loop (drop_bit 30 ?s AND 1) xs [] = (zs, out)" "length zs = length xs"
      "list_all digit_ok zs"
      "dval zs + unat (drop_bit 30 ?s AND 1) = dval xs + 2 ^ (30 * length xs) * unat out"
      using Cons.IH [of "[]" "drop_bit 30 ?s AND 1"] Cons.prems st(2) by auto
    have "unat (?s AND PyLong_MASK) + unat c + 2 ^ 30 * dval zs =
        unat x + 2 ^ 30 * (dval zs + unat (drop_bit 30 ?s AND 1))"
      unfolding st(1) by (simp add: algebra_simps)
    also have "\<dots> = unat x + 2 ^ 30 * dval xs + 2 ^ (30 * Suc (length xs)) * unat out"
      unfolding r(4) by (simp add: power_add algebra_simps)
    finally show ?thesis
      using r Cons.prems(1)
      by (cases "c = 0") (simp_all add: Nil Let_def algebra_simps del: unat_and_MASK)
  qed
qed simp

text \<open>At an offset, modulo what the digits from there on can hold.\<close>

lemma v_iadd_at_correct:
  assumes "list_all digit_ok ret" and "list_all digit_ok ys" and "off \<le> length ret"
    and "length ys \<le> length ret - off"
  shows "\<exists>r k. v_iadd_at ret off ys = Inr r \<and> length r = length ret \<and> list_all digit_ok r \<and>
    take off r = take off ret \<and> 0 \<le> k \<and>
    int (dval (drop off r)) = int (dval (drop off ret)) + int (dval ys) - k * 2 ^ (30 * (length ret - off))"
proof -
  obtain zs out where z: "v_iadd_loop 0 (drop off ret) ys = Inr (zs, out)" "length zs = length ret - off"
    "list_all digit_ok zs"
    "dval zs + 2 ^ (30 * (length ret - off)) * unat out = dval (drop off ret) + dval ys"
    using v_iadd_loop_correct [of "drop off ret" ys 0] assms by auto
  have "int (dval zs + 2 ^ (30 * (length ret - off)) * unat out) = int (dval (drop off ret) + dval ys)"
    using z(4) by (rule arg_cong)
  then have "int (dval zs) = int (dval (drop off ret)) + int (dval ys) - int (unat out) * 2 ^ (30 * (length ret - off))"
    unfolding of_nat_add of_nat_mult of_nat_power of_nat_numeral by (simp add: algebra_simps)
  with z assms show ?thesis
    by (intro exI [of _ "take off ret @ zs"] exI [of _ "int (unat out)"])
      (auto simp: v_iadd_at_def v_iadd_def)
qed

lemma v_isub_at_correct:
  assumes "list_all digit_ok ret" and "list_all digit_ok ys" and "off \<le> length ret"
    and "length ys \<le> length ret - off"
  shows "\<exists>r k. v_isub_at ret off ys = Inr r \<and> length r = length ret \<and> list_all digit_ok r \<and>
    take off r = take off ret \<and>
    int (dval (drop off r)) = int (dval (drop off ret)) - int (dval ys) - k * 2 ^ (30 * (length ret - off))"
proof -
  obtain zs out where z: "v_isub_loop 0 (drop off ret) ys = (zs, out)" "length zs = length ret - off"
    "list_all digit_ok zs"
    "dval zs + dval ys = dval (drop off ret) + 2 ^ (30 * (length ret - off)) * unat out"
    using v_isub_loop_correct [of "drop off ret" ys 0] assms by auto
  have "int (dval zs + dval ys) = int (dval (drop off ret) + 2 ^ (30 * (length ret - off)) * unat out)"
    using z(4) by (rule arg_cong)
  then have "int (dval zs) = int (dval (drop off ret)) - int (dval ys) - (- int (unat out)) * 2 ^ (30 * (length ret - off))"
    unfolding of_nat_add of_nat_mult of_nat_power of_nat_numeral by (simp add: algebra_simps)
  with z assms show ?thesis
    by (intro exI [of _ "take off ret @ zs"] exI [of _ "- int (unat out)"])
      (auto simp: v_isub_at_def v_isub_def)
qed

lemma kmul_store_correct:
  assumes t1: "pre_long t1" "0 \<le> ob_size t1" "2 * s + nd t1 \<le> length ret"
    and t2: "pre_long t2" "0 \<le> ob_size t2" "nd t2 \<le> 2 * s"
  shows "\<exists>r r'. kmul_store_high ret s t1 = Inr r \<and> kmul_store_low r s t2 = Inr r' \<and>
    length r' = length ret \<and> list_all digit_ok r' \<and> dval r' = mag t2 + 2 ^ (30 * (2 * s)) * mag t1"
proof -
  note d1 = pre_long_digits [OF t1(1)] and d2 = pre_long_digits [OF t2(1)]
  let ?hi = "digits t1 @ replicate (length ret - 2 * s - nd t1) 0"
  let ?lo = "digits t2 @ replicate (2 * s - nd t2) 0"
  have h: "kmul_store_high ret s t1 = Inr (take (2 * s) ret @ ?hi)"
    using t1 d1 by (auto simp: kmul_store_high_def array_write_def Let_def)
  have l: "kmul_store_low (take (2 * s) ret @ ?hi) s t2 = Inr (?lo @ ?hi)"
    using t1 t2 d2 by (auto simp: kmul_store_low_def array_write_def Let_def min_def)
  have "list_all digit_ok (?lo @ ?hi)"
    using d1 d2 by (auto simp: list_all_iff digit_ok_def)
  moreover have "dval (?lo @ ?hi) = mag t2 + 2 ^ (30 * (2 * s)) * mag t1"
  proof -
    have "30 * nd t2 + 30 * (2 * s - nd t2) = 30 * (2 * s)" using t2(3) by simp
    then show ?thesis
      using d2(1) by (simp add: dval_append mult.assoc [symmetric] del: mult.assoc flip: power_add)
  qed
  moreover have "length (?lo @ ?hi) = length ret" using t1(3) t2(3) d1 d2 by simp
  ultimately show ?thesis using h l by blast
qed

lemma nd_normalize_record:
  "nd (long_normalize \<lparr>ob_refcnt = r, ob_size = int k, ob_digit = ds\<rparr>) \<le> k"
  using nd_long_normalize_le [of "\<lparr>ob_refcnt = r, ob_size = int k, ob_digit = ds\<rparr>"] by simp

lemma kmul_split_correct:
  assumes "pre_long n" and "int (nd n) \<le> MAX_LONG_DIGITS"
  shows "\<exists>hi lo. kmul_split n sz = Inr (hi, lo) \<and> wf_long hi \<and> wf_long lo \<and>
    0 \<le> ob_size hi \<and> 0 \<le> ob_size lo \<and> mag n = mag lo + 2 ^ (30 * min (nd n) sz) * mag hi \<and>
    nd hi \<le> nd n - sz \<and> nd lo \<le> min (nd n) sz \<and>
    (top_nonzero n \<and> sz < nd n \<longrightarrow> nd hi = nd n - sz)"
proof -
  let ?l = "min (nd n) sz"
  let ?lo = "\<lparr>ob_refcnt = 1, ob_size = int ?l, ob_digit = take ?l (ob_digit n)\<rparr>"
  let ?hi = "\<lparr>ob_refcnt = 1, ob_size = int (nd n - ?l), ob_digit = take (nd n - ?l) (drop ?l (ob_digit n))\<rparr>"
  have eqs: "take ?l (ob_digit n) = take ?l (digits n)" "take (nd n - ?l) (drop ?l (ob_digit n)) = drop ?l (digits n)"
    by (simp_all add: digits_def min_def take_drop)
  note dn = pre_long_digits [OF assms(1)]
  have eq: "kmul_split n sz = Inr (long_normalize ?hi, long_normalize ?lo)"
    using assms(2) by (simp add: kmul_split_def PyLong_New_def Let_def)
  have lo: "mag_result (Inr (long_normalize ?lo)) (dval (take ?l (digits n)))"
    unfolding eqs using dn assms(2) by (intro mag_result_fill) auto
  have hi: "mag_result (Inr (long_normalize ?hi)) (dval (drop ?l (digits n)))"
    unfolding eqs using dn assms(2) by (intro mag_result_fill) auto
  have val: "mag n = dval (take ?l (digits n)) + 2 ^ (30 * ?l) * dval (drop ?l (digits n))"
    using dval_take_drop [of "digits n" ?l] dn(1) by simp
  have top: "nd (long_normalize ?hi) = nd n - sz" if "top_nonzero n" "sz < nd n"
  proof -
    have "nat (int (nd n) - int sz) = nd n - sz" using that by linarith
    then show ?thesis
      using that assms(1) norm_loop_fix [of "nd n - sz" "take (nd n - sz) (drop sz (ob_digit n))"]
      by (simp add: nd_long_normalize top_nonzero_def pre_long_def)
  qed
  have "nd (long_normalize ?hi) \<le> nd n - ?l" and small: "nd (long_normalize ?lo) \<le> ?l"
    by (rule nd_normalize_record)+
  moreover have "nd n - ?l = nd n - sz" by simp
  ultimately have big: "nd (long_normalize ?hi) \<le> nd n - sz" by (simp only:)
  obtain "wf_long (long_normalize ?hi)" "0 \<le> ob_size (long_normalize ?hi)"
    "mag (long_normalize ?hi) = dval (drop ?l (digits n))"
    using hi by (rule mag_resultE) (simp only: sum.inject)
  moreover obtain "wf_long (long_normalize ?lo)" "0 \<le> ob_size (long_normalize ?lo)"
    "mag (long_normalize ?lo) = dval (take ?l (digits n))"
    using lo by (rule mag_resultE) (simp only: sum.inject)
  ultimately show ?thesis
    using eq val top big small by metis
qed

section \<open>Karatsuba is multiplication\<close>

text \<open>
  Steps 4 to 6 of \<open>k_mul\<close>. Borrows and carries out of the top digit are lost on the way; only the
  final value has to fit.
\<close>

lemma karatsuba_combine:
  assumes r0: "list_all digit_ok r0" "length r0 = N" "S \<le> N"
    and ok: "list_all digit_ok d1" "list_all digit_ok d2" "list_all digit_ok d3"
    and len: "length d1 \<le> N - S" "length d2 \<le> N - S" "length d3 \<le> N - S"
    and v0: "dval r0 = AL * BL + 2 ^ (30 * (2 * S)) * (AH * BH)"
    and v: "dval d1 = AH * BH" "dval d2 = AL * BL" "dval d3 = (AH + AL) * (BH + BL)"
    and fits: "(AL + 2 ^ (30 * S) * AH) * (BL + 2 ^ (30 * S) * BH) < 2 ^ (30 * N)"
  shows "\<exists>r1 r2 r3. v_isub_at r0 S d2 = Inr r1 \<and> v_isub_at r1 S d1 = Inr r2 \<and>
    v_iadd_at r2 S d3 = Inr r3 \<and> length r3 = N \<and> list_all digit_ok r3 \<and>
    dval r3 = (AL + 2 ^ (30 * S) * AH) * (BL + 2 ^ (30 * S) * BH)"
proof -
  let ?P = "(2::nat) ^ (30 * S)" and ?M = "(2::int) ^ (30 * (N - S))"
  let ?Q = "AH * BL + AL * BH"
  obtain r1 k1 where r1: "v_isub_at r0 S d2 = Inr r1" "length r1 = N" "list_all digit_ok r1"
    "take S r1 = take S r0"
    "int (dval (drop S r1)) = int (dval (drop S r0)) - int (dval d2) - k1 * ?M"
    using v_isub_at_correct [OF r0(1) ok(2), of S] r0 len by auto
  obtain r2 k2 where r2: "v_isub_at r1 S d1 = Inr r2" "length r2 = N" "list_all digit_ok r2"
    "take S r2 = take S r0"
    "int (dval (drop S r2)) = int (dval (drop S r1)) - int (dval d1) - k2 * ?M"
    using v_isub_at_correct [OF r1(3) ok(1), of S] r0 r1 len by auto
  obtain r3 k3 where r3: "v_iadd_at r2 S d3 = Inr r3" "length r3 = N" "list_all digit_ok r3"
    "take S r3 = take S r0"
    "int (dval (drop S r3)) = int (dval (drop S r2)) + int (dval d3) - k3 * ?M"
    using v_iadd_at_correct [OF r2(3) ok(3), of S] r0 r2 len by auto
  let ?L = "dval (take S r0)" and ?D0 = "dval (drop S r0)" and ?D3 = "dval (drop S r3)"
  have split0: "dval r0 = ?L + ?P * ?D0" and split3: "dval r3 = ?L + ?P * ?D3"
    using dval_take_drop [of r0 S] dval_take_drop [of r3 S] r0 r3 by (simp_all add: min_def)
  have prod: "(AL + ?P * AH) * (BL + ?P * BH) = ?L + ?P * (?D0 + ?Q)"
  proof -
    have "2 ^ (30 * (2 * S)) = ?P * ?P" by (simp flip: power_add)
    then have "(AL + ?P * AH) * (BL + ?P * BH) = dval r0 + ?P * ?Q"
      unfolding v0 by (simp add: algebra_simps)
    then show ?thesis unfolding split0 by (simp add: algebra_simps)
  qed
  have "(2::nat) ^ (30 * N) = ?P * 2 ^ (30 * (N - S))"
  proof -
    have "30 * N = 30 * S + 30 * (N - S)" using r0(3) by simp
    then show ?thesis by (simp only: power_add)
  qed
  then have "?P * (?D0 + ?Q) < ?P * 2 ^ (30 * (N - S))"
    using fits unfolding prod by linarith
  then have "?D0 + ?Q < 2 ^ (30 * (N - S))" by (simp only: nat_mult_less_cancel_disj)
  then have lt0: "int (?D0 + ?Q) < ?M" by (metis of_nat_less_numeral_power_cancel_iff)
  have "?D3 < 2 ^ (30 * (N - S))"
    using dval_bound [of "drop S r3"] r3(2,3) by (simp add: list_all_digit_ok_drop)
  then have lt3: "int ?D3 < ?M" by (metis of_nat_less_numeral_power_cancel_iff)
  have "int (dval d3) = int (dval d1) + int (dval d2) + int ?Q"
    unfolding v by (simp add: algebra_simps)
  then have "int ?D3 = int (?D0 + ?Q) - (k1 + k2 + k3) * ?M"
    using r1(5) r2(5) r3(5) by (simp add: algebra_simps)
  then have "int ?D3 = int (?D0 + ?Q)"
    by (rule mod_range_unique) (use lt0 lt3 in simp_all)
  then have "?D3 = ?D0 + ?Q" by (simp only: of_nat_eq_iff)
  then have "dval r3 = (AL + ?P * AH) * (BL + ?P * BH)" unfolding split3 prod by simp
  with r1(1) r2(1) r3(1-3) show ?thesis by blast
qed

text \<open>
  Why adding the middle product cannot run out of room: with \<open>S < asize \<le> bsize\<close> it has fewer
  than \<open>asize + bsize - S\<close> digits.
\<close>

lemma middle_product_room:
  fixes AH AL BH BL n m S :: nat
  assumes "AH < 2 ^ (30 * (n - S))" "AL < 2 ^ (30 * S)" "BH < 2 ^ (30 * (m - S))" "BL < 2 ^ (30 * S)"
    and "0 < S" "S < n" "S \<le> m - S"
  shows "(AH + AL) * (BH + BL) < 2 ^ (30 * (n + m - S))"
proof -
  have "AH + AL < 2 * 2 ^ (30 * (n - 1))"
  proof -
    have "(2::nat) ^ (30 * (n - S)) \<le> 2 ^ (30 * (n - 1))" "(2::nat) ^ (30 * S) \<le> 2 ^ (30 * (n - 1))"
      using assms(5,6) by (simp_all add: power_increasing)
    then show ?thesis using assms(1,2) by linarith
  qed
  moreover have "BH + BL < 2 * 2 ^ (30 * (m - S))"
  proof -
    have "(2::nat) ^ (30 * S) \<le> 2 ^ (30 * (m - S))" using assms(7) by (simp add: power_increasing)
    then show ?thesis using assms(3,4) by linarith
  qed
  ultimately have "(AH + AL) * (BH + BL) < (2 * 2 ^ (30 * (n - 1))) * (2 * 2 ^ (30 * (m - S)))"
    by (rule mult_strict_mono) simp_all
  also have "\<dots> = 2 ^ (2 + (30 * (n - 1) + 30 * (m - S)))"
    by (simp add: power_add)
  also have "\<dots> \<le> 2 ^ (30 * (n + m - S))"
    using assms(5-7) by (intro power_increasing) simp_all
  finally show ?thesis .
qed

end
