(* ===== verification/PyLongKaratsuba.thy ===== *)
theory PyLongKaratsuba
  imports PyLongMul
begin

text \<open>
  Correctness of \<open>k_mul\<close>, \<open>k_lopsided_mul\<close> and \<open>long_mul\<close> of \<open>Objects/longobject.c\<close>: on the
  arguments the code passes they return the product, so that no assertion fails and no write
  leaves its digit vector, and the only error is the \<open>OverflowError\<close> of a product with more
  than \<open>MAX_LONG_DIGITS\<close> digits.
\<close>

section \<open>What the recursive calls are given\<close>

definition k_mul_pre :: "bool \<Rightarrow> pylong \<Rightarrow> pylong \<Rightarrow> bool" where
  "k_mul_pre same a b \<longleftrightarrow>
     pre_long a \<and> pre_long b \<and> (same \<longrightarrow> a = b) \<and> top_nonzero a \<and> (nd a = nd b \<or> top_nonzero b) \<and>
     int (nd a) + int (nd b) \<le> MAX_LONG_DIGITS"

lemma k_mul_preI:
  assumes "wf_long a" and "wf_long b" and "same \<Longrightarrow> a = b"
    and "int (nd a) + int (nd b) \<le> MAX_LONG_DIGITS"
  shows "k_mul_pre same a b"
  using assms by (simp add: k_mul_pre_def wf_long_pre)

text \<open>The sum of the halves: fewer digits than the larger operand, and the values add.\<close>

lemma halves_sum:
  assumes wf: "wf_long h" "wf_long l" and nd: "nd h \<le> k" "nd l \<le> k" and room: "int k + 1 \<le> MAX_LONG_DIGITS"
  obtains z where "x_add h l = Inr z" "wf_long z" "mag z = mag h + mag l" "nd z \<le> k + 1"
proof -
  have "x_add h l \<noteq> Inl e" for e
  proof
    assume "x_add h l = Inl e"
    then have "MAX_LONG_DIGITS < int (max (nd h) (nd l)) + 1" using x_add_cases(1) [OF wf] by simp
    then show False using nd room by (simp add: max_def split: if_splits)
  qed
  then obtain z where z: "x_add h l = Inr z" by (cases "x_add h l") auto
  note c = x_add_cases(2) [OF wf z]
  have "int (mag z) = int (mag h) + int (mag l)"
    using c by (metis abs_long_val abs_of_nonneg abs_ge_zero add_nonneg_nonneg)
  then have "mag z = mag h + mag l" by linarith
  moreover have "nd z \<le> k + 1" using c nd by (simp add: max_def split: if_splits)
  ultimately show ?thesis using that z c by blast
qed

lemma product_nd:
  assumes "wf_long z" and "mag z = mag a * mag b" and "pre_long a" and "pre_long b"
  shows "nd z \<le> nd a + nd b"
proof (rule wf_long_nd_le [OF assms(1)])
  have "mag a * mag b < 2 ^ (30 * nd a) * 2 ^ (30 * nd b)"
    using pre_long_mag [OF assms(3)] pre_long_mag [OF assms(4)] by (intro mult_strict_mono) simp_all
  then show "mag z < 2 ^ (30 * (nd a + nd b))"
    by (simp add: assms(2) distrib_left power_add)
qed

section \<open>One level of the recursion\<close>

text \<open>The part of \<open>k_mul\<close> after the swap and the two early returns.\<close>

definition k_mul_split_case :: "bool \<Rightarrow> pylong \<Rightarrow> pylong \<Rightarrow> pylong pyres" where
  "k_mul_split_case same a b =
     (let shift = nd b div 2
      in rbind (kmul_split a shift) (\<lambda>(ah, al).
         rbind (c_assert (0 < ob_size ah)) (\<lambda>_.
         rbind (if same then Inr (ah, al) else kmul_split b shift) (\<lambda>(bh, bl).
         rbind (PyLong_New (int (nd a + nd b))) (\<lambda>ret.
         rbind (k_mul same ah bh) (\<lambda>t1.
         rbind (kmul_store_high (ob_digit ret) shift t1) (\<lambda>r.
         rbind (k_mul same al bl) (\<lambda>t2.
         rbind (kmul_store_low r shift t2) (\<lambda>r.
         rbind (v_isub_at r shift (digits t2)) (\<lambda>r.
         rbind (v_isub_at r shift (digits t1)) (\<lambda>r.
         rbind (x_add ah al) (\<lambda>t1.
         rbind (if same then Inr t1 else x_add bh bl) (\<lambda>t2.
         rbind (k_mul same t1 t2) (\<lambda>t3.
         rbind (c_assert (0 \<le> ob_size t3)) (\<lambda>_.
         rbind (v_iadd_at r shift (digits t3)) (\<lambda>r.
           Inr (long_normalize (ret\<lparr>ob_digit := r\<rparr>))))))))))))))))))"

definition k_mul_cutoff :: "bool \<Rightarrow> nat" where
  "k_mul_cutoff same = (if same then KARATSUBA_SQUARE_CUTOFF else KARATSUBA_CUTOFF)"

lemma k_mul_unfold:
  assumes "nd a \<le> nd b"
  shows "k_mul same a b =
    (if nd a \<le> k_mul_cutoff same then (if nd a = 0 then PyLong_FromLong 0 else x_mul same a b)
     else if 2 * nd a \<le> nd b then k_lopsided_mul a b
     else k_mul_split_case same a b)"
proof -
  have sw: "(if nd a > nd b then (b, a) else (a, b)) = (a, b)" using assms by simp
  show ?thesis
    unfolding k_mul.simps [of same a b] sw k_mul_split_case_def k_mul_cutoff_def Let_def prod.case ..
qed

lemma k_mul_swap:
  assumes "nd b < nd a"
  shows "k_mul same a b = k_mul same b a"
proof -
  have sw: "(if nd a > nd b then (b, a) else (a, b)) = (b, a)"
    "(if nd b > nd a then (a, b) else (b, a)) = (b, a)" using assms by simp_all
  show ?thesis
    unfolding k_mul.simps [of same a b] k_mul.simps [of same b a] sw ..
qed

declare k_mul.simps [simp del] k_lopsided_mul.simps [simp del] k_lopsided_loop.simps [simp del]

text \<open>The two halves of a number, as \<open>kmul_split\<close> returns them.\<close>

definition halves :: "pylong \<Rightarrow> nat \<Rightarrow> pylong \<Rightarrow> pylong \<Rightarrow> bool" where
  "halves n s h l \<longleftrightarrow>
     wf_long h \<and> wf_long l \<and> mag n = mag l + 2 ^ (30 * s) * mag h \<and> nd h \<le> nd n - s \<and> nd l \<le> s \<and>
     0 \<le> ob_size h"

lemma kmul_split_halves:
  assumes "pre_long n" and "int (nd n) \<le> MAX_LONG_DIGITS" and "s < nd n"
  obtains h l where "kmul_split n s = Inr (h, l)" "halves n s h l"
    "top_nonzero n \<Longrightarrow> nd h = nd n - s"
proof -
  obtain h l where hl: "kmul_split n s = Inr (h, l)" "wf_long h" "wf_long l" "0 \<le> ob_size h"
    "mag n = mag l + 2 ^ (30 * min (nd n) s) * mag h" "nd h \<le> nd n - s" "nd l \<le> min (nd n) s"
    "top_nonzero n \<and> s < nd n \<longrightarrow> nd h = nd n - s"
    using kmul_split_correct [OF assms(1,2), of s] by blast
  moreover have "min (nd n) s = s" using assms(3) by simp
  ultimately show ?thesis using that assms(3) unfolding halves_def by metis
qed

lemma halvesD:
  assumes "halves n s h l"
  shows "wf_long h" "wf_long l" "mag n = mag l + 2 ^ (30 * s) * mag h" "nd h \<le> nd n - s" "nd l \<le> s"
    and "mag h < 2 ^ (30 * (nd n - s))" and "mag l < 2 ^ (30 * s)"
proof -
  from assms show wf: "wf_long h" "wf_long l" and "mag n = mag l + 2 ^ (30 * s) * mag h"
    and nd: "nd h \<le> nd n - s" "nd l \<le> s" by (simp_all add: halves_def)
  have "mag h < 2 ^ (30 * nd h)" "mag l < 2 ^ (30 * nd l)"
    using wf by (simp_all add: pre_long_mag wf_long_pre)
  moreover have "(2::nat) ^ (30 * nd h) \<le> 2 ^ (30 * (nd n - s))" "(2::nat) ^ (30 * nd l) \<le> 2 ^ (30 * s)"
    using nd by (simp_all add: power_increasing)
  ultimately show "mag h < 2 ^ (30 * (nd n - s))" "mag l < 2 ^ (30 * s)" by linarith+
qed

text \<open>
  With the three products right, the digits end up right. \<open>t1\<close>, \<open>t2\<close> and \<open>t3\<close> are the products
  of the high halves, the low halves and the sums.
\<close>

lemma k_mul_assemble:
  assumes pre: "pre_long a" "pre_long b" and room: "int (nd a) + int (nd b) \<le> MAX_LONG_DIGITS"
    and s: "s = nd b div 2" "0 < s" "s < nd a" "nd a \<le> nd b"
    and ha: "halves a s ah al" and hb: "halves b s bh bl"
    and t1: "wf_long t1" "0 \<le> ob_size t1" "mag t1 = mag ah * mag bh"
    and t2: "wf_long t2" "0 \<le> ob_size t2" "mag t2 = mag al * mag bl"
    and t3: "wf_long t3" "mag t3 = (mag ah + mag al) * (mag bh + mag bl)"
  shows "\<exists>r1 r2 r3 r4 r5. kmul_store_high (replicate (nd a + nd b) uninit_digit) s t1 = Inr r1 \<and>
    kmul_store_low r1 s t2 = Inr r2 \<and> v_isub_at r2 s (digits t2) = Inr r3 \<and>
    v_isub_at r3 s (digits t1) = Inr r4 \<and> v_iadd_at r4 s (digits t3) = Inr r5 \<and>
    length r5 = nd a + nd b \<and> list_all digit_ok r5 \<and> dval r5 = mag a * mag b"
proof -
  note a = halvesD [OF ha] and b = halvesD [OF hb]
  let ?N = "nd a + nd b" and ?ret = "replicate (nd a + nd b) uninit_digit"
  have s': "2 * s \<le> nd b" "s \<le> nd b - s" using s by simp_all
  have n1: "2 * s + nd t1 \<le> ?N" "nd t1 \<le> ?N - s"
    using product_nd [OF t1(1,3) wf_long_pre(1) [OF a(1)] wf_long_pre(1) [OF b(1)]] a(4) b(4) s(2-4) s' by linarith+
  have n2: "nd t2 \<le> 2 * s" "nd t2 \<le> ?N - s"
    using product_nd [OF t2(1,3) wf_long_pre(1) [OF a(2)] wf_long_pre(1) [OF b(2)]] a(5) b(5) s(2-4) s' by linarith+
  have "mag t3 < 2 ^ (30 * (?N - s))"
    unfolding t3(2) using middle_product_room [OF a(6,7) b(6,7) s(2,3) s'(2)] .
  then have n3: "nd t3 \<le> ?N - s" by (rule wf_long_nd_le [OF t3(1)])
  obtain r1 r2 where r: "kmul_store_high ?ret s t1 = Inr r1" "kmul_store_low r1 s t2 = Inr r2"
    "length r2 = ?N" "list_all digit_ok r2" "dval r2 = mag t2 + 2 ^ (30 * (2 * s)) * mag t1"
    using kmul_store_correct [OF wf_long_pre(1) [OF t1(1)] t1(2) _ wf_long_pre(1) [OF t2(1)] t2(2) n2(1), of ?ret] n1(1)
    by auto
  have fits: "(mag al + 2 ^ (30 * s) * mag ah) * (mag bl + 2 ^ (30 * s) * mag bh) < 2 ^ (30 * ?N)"
  proof -
    have "mag a * mag b < 2 ^ (30 * nd a) * 2 ^ (30 * nd b)"
      using pre_long_mag [OF pre(1)] pre_long_mag [OF pre(2)] by (intro mult_strict_mono) simp_all
    then show ?thesis unfolding a(3) b(3) distrib_left power_add .
  qed
  note d1 = wf_long_digits [OF t1(1)] and d2 = wf_long_digits [OF t2(1)] and d3 = wf_long_digits [OF t3(1)]
  have len: "length (digits t1) \<le> ?N - s" "length (digits t2) \<le> ?N - s" "length (digits t3) \<le> ?N - s"
    using d1(2) d2(2) d3(2) n1 n2 n3 by simp_all
  have sN: "s \<le> ?N" using s by simp
  have v0: "dval r2 = mag al * mag bl + 2 ^ (30 * (2 * s)) * (mag ah * mag bh)"
    using r(5) t1(3) t2(3) by simp
  show ?thesis
    using karatsuba_combine [OF r(4,3) sN d1(1) d2(1) d3(1) len v0 t1(3) t2(3) t3(2) fits] r(1,2)
    unfolding a(3) b(3) by blast
qed

lemma k_mul_split_case_correct:
  assumes pre: "k_mul_pre same a b" and le: "nd a \<le> nd b" and big: "KARATSUBA_CUTOFF < nd a"
    and near: "\<not> 2 * nd a \<le> nd b"
    and IH: "\<And>x y. k_mul_pre same x y \<Longrightarrow> max (nd x) (nd y) < nd b \<Longrightarrow> mag_result (k_mul same x y) (mag x * mag y)"
  shows "mag_result (k_mul_split_case same a b) (mag a * mag b)"
proof -
  define s where "s = nd b div 2"
  have room: "int (nd a) + int (nd b) \<le> MAX_LONG_DIGITS" and p: "pre_long a" "pre_long b"
    and tn: "top_nonzero a" and same: "same \<Longrightarrow> a = b"
    using pre by (simp_all add: k_mul_pre_def)
  have s: "0 < s" "s < nd a" "s < nd b" "2 * s \<le> nd b" "nd b \<le> 2 * s + 1" "35 \<le> s"
    using big near le by (simp_all add: s_def KARATSUBA_CUTOFF_def)
  have room_a: "int (nd a) \<le> MAX_LONG_DIGITS" and room_b: "int (nd b) \<le> MAX_LONG_DIGITS"
    using room by linarith+
  obtain ah al where A: "kmul_split a s = Inr (ah, al)" "halves a s ah al" "nd ah = nd a - s"
    using kmul_split_halves [OF p(1) room_a s(2)] tn by metis
  obtain bh bl where B: "kmul_split b s = Inr (bh, bl)" "halves b s bh bl"
    using kmul_split_halves [OF p(2) room_b s(3)] by metis
  have B': "(if same then Inr (ah, al) else kmul_split b s) = Inr (if same then (ah, al) else (bh, bl))"
    using B by simp
  define bh' bl' where b': "bh' = (if same then ah else bh)" "bl' = (if same then al else bl)"
  have B: "(if same then Inr (ah, al) else kmul_split b s) = Inr (bh', bl')" "halves b s bh' bl'"
    using A B same by (auto simp: b')
  have same': "same \<Longrightarrow> ah = bh'" "same \<Longrightarrow> al = bl'" by (simp_all add: b')
  note a = halvesD [OF A(2)] and b = halvesD [OF B(2)]
  have "mag_result (k_mul same ah bh') (mag ah * mag bh')"
    using a b s room le same' by (intro IH k_mul_preI) auto
  then obtain t1 where t1: "k_mul same ah bh' = Inr t1" "wf_long t1" "0 \<le> ob_size t1" "mag t1 = mag ah * mag bh'"
    by (rule mag_resultE)
  have "mag_result (k_mul same al bl') (mag al * mag bl')"
    using a b s room le same' by (intro IH k_mul_preI) auto
  then obtain t2 where t2: "k_mul same al bl' = Inr t2" "wf_long t2" "0 \<le> ob_size t2" "mag t2 = mag al * mag bl'"
    by (rule mag_resultE)
  have k: "nd a - s \<le> s + 1" "nd b - s \<le> s + 1" using s le by simp_all
  obtain z1 where z1: "x_add ah al = Inr z1" "wf_long z1" "mag z1 = mag ah + mag al" "nd z1 \<le> s + 2"
    using halves_sum [OF a(1,2), of "s + 1"] a(4,5) k room s by auto
  obtain z2' where z2': "x_add bh' bl' = Inr z2'" "wf_long z2'" "mag z2' = mag bh' + mag bl'" "nd z2' \<le> s + 2"
    using halves_sum [OF b(1,2), of "s + 1"] b(4,5) k room s by auto
  have z2: "(if same then Inr z1 else x_add bh' bl') = Inr z2'"
    using z1(1) z2'(1) same' by auto
  have "mag_result (k_mul same z1 z2') (mag z1 * mag z2')"
    using z1 z2' s room le z2 by (intro IH k_mul_preI) auto
  then obtain t3 where t3: "k_mul same z1 z2' = Inr t3" "wf_long t3" "0 \<le> ob_size t3"
    "mag t3 = (mag ah + mag al) * (mag bh' + mag bl')"
    unfolding z1(3) z2'(3) by (rule mag_resultE)
  obtain r1 r2 r3 r4 r5 where r:
    "kmul_store_high (replicate (nd a + nd b) uninit_digit) s t1 = Inr r1"
    "kmul_store_low r1 s t2 = Inr r2" "v_isub_at r2 s (digits t2) = Inr r3"
    "v_isub_at r3 s (digits t1) = Inr r4" "v_iadd_at r4 s (digits t3) = Inr r5"
    "length r5 = nd a + nd b" "list_all digit_ok r5" "dval r5 = mag a * mag b"
    using k_mul_assemble [OF p room s_def s(1,2) le A(2) B(2) t1(2,3,4) t2(2,3,4) t3(2,4)] by auto
  have "0 < nd ah" using A(3) s(2) by simp
  then have pos: "0 < ob_size ah" using A(2) by (simp add: halves_def nd_def)
  have ret: "PyLong_New (int (nd a + nd b)) =
      Inr \<lparr>ob_refcnt = 1, ob_size = int (nd a + nd b), ob_digit = replicate (nd a + nd b) uninit_digit\<rparr>"
    using room by (simp add: PyLong_New_def)
  have "k_mul_split_case same a b =
      Inr (long_normalize \<lparr>ob_refcnt = 1, ob_size = int (nd a + nd b), ob_digit = r5\<rparr>)"
    unfolding k_mul_split_case_def s_def [symmetric] Let_def A(1) B(1) ret rbind_simps prod.case
      t1(1) t2(1) z1(1) z2 t3(1) r(1-5) pylong.select_convs pylong.update_convs
    using pos t3(3) r(1-5) by (simp add: c_assert_def)
  then show ?thesis
    using mag_result_fill [OF r(7,6)] room r(8) by simp
qed

section \<open>The lopsided case\<close>

text \<open>Adding a product to the digits that are left, when the sum fits.\<close>

lemma v_iadd_at_0_fits:
  assumes "list_all digit_ok ret" and "list_all digit_ok ys" and "length ys \<le> length ret"
    and "dval ret + dval ys < 2 ^ (30 * length ret)"
  shows "\<exists>r. v_iadd_at ret 0 ys = Inr r \<and> length r = length ret \<and> list_all digit_ok r \<and>
    dval r = dval ret + dval ys"
proof -
  obtain r k where r: "v_iadd_at ret 0 ys = Inr r" "length r = length ret" "list_all digit_ok r"
    "int (dval r) = int (dval ret + dval ys) - k * 2 ^ (30 * length ret)"
    using v_iadd_at_correct [OF assms(1,2), of 0] assms(3) by auto
  have "dval r < 2 ^ (30 * length ret)" using dval_bound [OF r(3)] r(2) by simp
  then have "int (dval r) < 2 ^ (30 * length ret)" by (metis of_nat_less_numeral_power_cancel_iff)
  moreover have "int (dval ret + dval ys) < 2 ^ (30 * length ret)"
    using assms(4) by (metis of_nat_less_numeral_power_cancel_iff)
  ultimately have "int (dval r) = int (dval ret + dval ys)"
    by (intro mod_range_unique [OF r(4)]) simp_all
  then have "dval r = dval ret + dval ys" by (simp only: of_nat_eq_iff)
  with r show ?thesis by blast
qed

text \<open>The slice of \<open>b\<close> that the loop multiplies by \<open>a\<close>.\<close>

lemma bslice_pre:
  assumes a: "pre_long a" "top_nonzero a" "2 * int (nd a) \<le> MAX_LONG_DIGITS" "0 < nd a"
    and bs: "list_all digit_ok bs" "bs \<noteq> [] \<Longrightarrow> last bs \<noteq> 0" "bs \<noteq> []"
    and n: "n = min (length bs) (nd a)" and st: "length stor = nd a"
    and sl: "sl = \<lparr>ob_refcnt = 1, ob_size = int n, ob_digit = array_write stor 0 (take n bs)\<rparr>"
  shows "k_mul_pre False a sl" and "nd sl = n" and "mag sl = dval (take n bs)"
proof -
  have n0: "0 < n" and len: "length (take n bs) = n" and nle: "n \<le> nd a" using a(4) bs(3) n by auto
  show ndsl: "nd sl = n" by (simp add: sl)
  have dg: "digits sl = take n bs"
    using len by (simp add: digits_def ndsl) (simp add: sl array_write_at_0)
  then show "mag sl = dval (take n bs)" by simp
  have "nd sl \<le> length (ob_digit sl)" using len st nle by (simp add: sl)
  then have "pre_long sl" using dg bs(1) by (simp add: pre_long_def list_all_digit_ok_take)
  moreover have "top_nonzero sl" if "nd a \<noteq> nd sl"
  proof -
    have "n = length bs" using that n ndsl by (simp add: min_def split: if_splits)
    then have "ob_digit sl ! (nd sl - 1) = last bs"
      using n0 bs(3) by (simp add: sl array_write_at_0 last_conv_nth nth_append)
    then show ?thesis using bs(2,3) by (simp add: top_nonzero_def)
  qed
  ultimately show "k_mul_pre False a sl"
    using a ndsl nle by (auto simp: k_mul_pre_def)
qed

lemma k_lopsided_loop_correct:
  assumes a: "pre_long a" "top_nonzero a" "2 * int (nd a) \<le> MAX_LONG_DIGITS" "0 < nd a"
    and IH: "\<And>y. k_mul_pre False a y \<Longrightarrow> nd y \<le> nd a \<Longrightarrow> mag_result (k_mul False a y) (mag a * mag y)"
    and "list_all digit_ok bs" "bs \<noteq> [] \<Longrightarrow> last bs \<noteq> 0" "length stor = nd a"
    and "list_all digit_ok ret" "length ret = nd a + length bs"
    and "dval ret + mag a * dval bs < 2 ^ (30 * length ret)"
  shows "\<exists>r. k_lopsided_loop a bs stor ret = Inr r \<and> length r = length ret \<and> list_all digit_ok r \<and>
    dval r = dval ret + mag a * dval bs"
  using assms(6-)
proof (induction "length bs" arbitrary: bs stor ret rule: less_induct)
  case less
  show ?case
  proof (cases "bs = []")
    case True
    with less.prems show ?thesis by (simp add: k_lopsided_loop.simps)
  next
    case False
    define n where "n = min (length bs) (nd a)"
    define stor' where "stor' = array_write stor 0 (take n bs)"
    define sl where "sl = \<lparr>ob_refcnt = 1, ob_size = int n, ob_digit = stor'\<rparr>"
    have n: "0 < n" "n \<le> length bs" "n \<le> nd a" using False a(4) by (auto simp: n_def)
    have stor': "length stor' = nd a"
      using n less.prems(3) by (simp add: stor'_def)
    note sl = bslice_pre [OF a less.prems(1,2) False n_def less.prems(3) sl_def [unfolded stor'_def]]
    have "mag_result (k_mul False a sl) (mag a * mag sl)"
      using IH [OF sl(1)] sl(2) n(3) by simp
    then obtain p where p: "k_mul False a sl = Inr p" "wf_long p" "0 \<le> ob_size p" "mag p = mag a * mag sl"
      by (rule mag_resultE)
    have "nd p \<le> nd a + n"
      using product_nd [OF p(2,4)] sl(1,2) by (simp add: k_mul_pre_def)
    then have np: "length (digits p) \<le> length ret"
      using wf_long_digits(2) [OF p(2)] n less.prems(5) by simp
    have bsv: "dval bs = dval (take n bs) + 2 ^ (30 * n) * dval (drop n bs)"
      using dval_take_drop [of bs n] n(2) by (simp add: min_def)
    have tot: "dval ret + mag p + 2 ^ (30 * n) * (mag a * dval (drop n bs)) = dval ret + mag a * dval bs"
      using p(4) sl(3) bsv by (simp add: algebra_simps)
    then have "dval ret + dval (digits p) < 2 ^ (30 * length ret)"
      using less.prems(6) by linarith
    then obtain r where r: "v_iadd_at ret 0 (digits p) = Inr r" "length r = length ret" "list_all digit_ok r"
      "dval r = dval ret + mag p"
      using v_iadd_at_0_fits [OF less.prems(4) wf_long_digits(1) [OF p(2)] np] by blast
    have nr: "n \<le> length r" using n r(2) less.prems(5) by simp
    have rv: "dval r = dval (take n r) + 2 ^ (30 * n) * dval (drop n r)"
      using dval_take_drop [of r n] nr by (simp add: min_def)
    have "30 * length ret = 30 * n + 30 * length (drop n r)" using nr r(2) by simp
    then have "2 ^ (30 * n) * (dval (drop n r) + mag a * dval (drop n bs)) < 2 ^ (30 * n) * 2 ^ (30 * length (drop n r))"
      using less.prems(6) rv r(4) tot unfolding distrib_left by (simp only: flip: power_add)
    then have "dval (drop n r) + mag a * dval (drop n bs) < 2 ^ (30 * length (drop n r))"
      by (simp only: nat_mult_less_cancel_disj)
    moreover have "last (drop n bs) \<noteq> 0" if "drop n bs \<noteq> []"
      using that less.prems(2) [OF False] by simp
    moreover have "list_all digit_ok (drop n bs)" "list_all digit_ok (drop n r)"
      using less.prems(1) r(3) by (simp_all add: list_all_digit_ok_drop)
    moreover have "length (drop n bs) < length bs" using n by simp
    ultimately obtain q where q: "k_lopsided_loop a (drop n bs) stor' (drop n r) = Inr q"
      "length q = length (drop n r)" "list_all digit_ok q"
      "dval q = dval (drop n r) + mag a * dval (drop n bs)"
      using less.hyps [of "drop n bs" stor' "drop n r"] stor' n r(2) less.prems(5) by auto
    have "c_assert (0 < nd a) = Inr ()" using a(4) by simp
    then have "k_lopsided_loop a bs stor ret = Inr (take n r @ q)"
      by (simp only: k_lopsided_loop.simps [of a bs stor ret] Let_def n_def [symmetric] False if_False
          stor'_def [symmetric] sl_def [symmetric] p(1) r(1) q(1) rbind_simps)
    moreover have "dval (take n r @ q) = dval ret + mag a * dval bs"
    proof -
      have "dval (take n r @ q) = dval (take n r) + 2 ^ (30 * n) * (dval (drop n r) + mag a * dval (drop n bs))"
        using nr by (simp add: dval_append min_def q(4))
      then show ?thesis using rv r(4) tot unfolding distrib_left by linarith
    qed
    moreover have "list_all digit_ok (take n r @ q)" "length (take n r @ q) = length ret"
      using r(2,3) q(2,3) nr by (simp_all add: list_all_digit_ok_take)
    ultimately show ?thesis by blast
  qed
qed

lemma k_lopsided_mul_correct:
  assumes pre: "pre_long a" "pre_long b" "top_nonzero a" "top_nonzero b"
    and room: "int (nd a) + int (nd b) \<le> MAX_LONG_DIGITS"
    and big: "KARATSUBA_CUTOFF < nd a" and far: "2 * nd a \<le> nd b"
    and IH: "\<And>y. k_mul_pre False a y \<Longrightarrow> nd y \<le> nd a \<Longrightarrow> mag_result (k_mul False a y) (mag a * mag y)"
  shows "mag_result (k_lopsided_mul a b) (mag a * mag b)"
proof -
  have b: "list_all digit_ok (digits b)" "length (digits b) = nd b"
    using pre_long_digits [OF pre(2)] by simp_all
  have a0: "0 < nd a" and room2: "2 * int (nd a) \<le> MAX_LONG_DIGITS" using big far room by simp_all
  have bl: "digits b \<noteq> [] \<Longrightarrow> last (digits b) \<noteq> 0"
    using pre(4) b(2) by (auto simp: top_nonzero_def last_conv_nth digits_def)
  let ?ret = "replicate (nd a + nd b) 0 :: digit list"
  have z: "list_all digit_ok ?ret" by (simp add: list_all_iff digit_ok_def)
  have "mag a * mag b < 2 ^ (30 * nd a) * 2 ^ (30 * nd b)"
    using pre_long_mag [OF pre(1)] pre_long_mag [OF pre(2)] by (intro mult_strict_mono) simp_all
  then have fits: "dval ?ret + mag a * mag b < 2 ^ (30 * length ?ret)"
    by (simp add: distrib_left power_add)
  obtain r where r: "k_lopsided_loop a (digits b) (replicate (nd a) uninit_digit) ?ret = Inr r"
    "length r = nd a + nd b" "list_all digit_ok r" "dval r = mag a * mag b"
    using k_lopsided_loop_correct [OF pre(1,3) room2 a0 IH b(1) bl _ z _ fits, of "replicate (nd a) uninit_digit"] b(2)
    by auto
  have "k_lopsided_mul a b = Inr (long_normalize \<lparr>ob_refcnt = 1, ob_size = int (nd a + nd b), ob_digit = r\<rparr>)"
    using big far room room2 r(1) by (simp add: k_lopsided_mul.simps c_assert_def PyLong_New_def)
  then show ?thesis
    using mag_result_fill [OF r(3,2)] room r(4) by simp
qed

section \<open>Karatsuba is multiplication\<close>

lemma k_mul_pre_swap: "k_mul_pre same a b \<Longrightarrow> nd b \<noteq> nd a \<Longrightarrow> k_mul_pre same b a"
  by (auto simp: k_mul_pre_def)

lemma k_mul_correct:
  "k_mul_pre same a b \<Longrightarrow> mag_result (k_mul same a b) (mag a * mag b)"
proof (induction "max (nd a) (nd b)" arbitrary: same a b rule: less_induct)
  case less
  have main: "mag_result (k_mul same x y) (mag x * mag y)"
    if pre: "k_mul_pre same x y" and le: "nd x \<le> nd y" and m: "nd y = max (nd a) (nd b)" for x y
  proof -
    have IH: "k_mul_pre same' u v \<Longrightarrow> max (nd u) (nd v) < nd y \<Longrightarrow> mag_result (k_mul same' u v) (mag u * mag v)"
      for same' u v
      using less.hyps m by simp
    have p: "pre_long x" "pre_long y" "top_nonzero x" "same \<Longrightarrow> x = y"
      and room: "int (nd x) + int (nd y) \<le> MAX_LONG_DIGITS"
      using pre by (simp_all add: k_mul_pre_def)
    consider (zero) "nd x = 0" | (school) "nd x \<noteq> 0" "nd x \<le> k_mul_cutoff same"
      | (far) "k_mul_cutoff same < nd x" "2 * nd x \<le> nd y"
      | (near) "k_mul_cutoff same < nd x" "\<not> 2 * nd x \<le> nd y" by linarith
    then show ?thesis
    proof cases
      case zero
      then show ?thesis using mag_result_0 by (simp add: k_mul_unfold [OF le] digits_def)
    next
      case school
      then show ?thesis using x_mul_correct [OF p(1,2,4) room] by (simp add: k_mul_unfold [OF le])
    next
      case far
      have cut: "KARATSUBA_CUTOFF < nd x"
        using far(1) by (simp add: k_mul_cutoff_def KARATSUBA_SQUARE_CUTOFF_def split: if_splits)
      then have lt: "nd x < nd y" using far(2) by (simp add: KARATSUBA_CUTOFF_def)
      then have "top_nonzero y" using pre by (simp add: k_mul_pre_def)
      then have "mag_result (k_lopsided_mul x y) (mag x * mag y)"
        using p cut far(2) room lt by (intro k_lopsided_mul_correct IH) simp_all
      then show ?thesis using far by (simp add: k_mul_unfold [OF le])
    next
      case near
      have cut: "KARATSUBA_CUTOFF < nd x"
        using near(1) by (simp add: k_mul_cutoff_def KARATSUBA_SQUARE_CUTOFF_def split: if_splits)
      have "mag_result (k_mul_split_case same x y) (mag x * mag y)"
        using pre le cut near(2) IH by (rule k_mul_split_case_correct)
      then show ?thesis using near by (simp add: k_mul_unfold [OF le])
    qed
  qed
  show ?case
  proof (cases "nd a \<le> nd b")
    case True
    with main [OF less.prems] show ?thesis by simp
  next
    case False
    then have lt: "nd b < nd a" by simp
    with main [OF k_mul_pre_swap [OF less.prems]] show ?thesis
      unfolding k_mul_swap [OF lt] by (simp add: mult.commute)
  qed
qed

text \<open>The only failure of a multiplication of two integer objects.\<close>

lemma k_mul_overflow:
  assumes "wf_long a" and "wf_long b" and "MAX_LONG_DIGITS < int (nd a) + int (nd b)"
    and same: "same \<Longrightarrow> a = b"
  shows "k_mul same a b = Inl OverflowError"
proof -
  have main: "k_mul same x y = Inl OverflowError"
    if wf: "wf_long x" "wf_long y" and le: "nd x \<le> nd y" and big: "MAX_LONG_DIGITS < int (nd x) + int (nd y)"
      and eq: "same \<Longrightarrow> x = y" for x y
  proof -
    have "nd x \<noteq> 0" using big wf_long_nd_max [OF wf(2)] by linarith
    consider (school) "nd x \<le> k_mul_cutoff same" | (far) "k_mul_cutoff same < nd x" "2 * nd x \<le> nd y"
      | (near) "k_mul_cutoff same < nd x" "\<not> 2 * nd x \<le> nd y" by linarith
    then show ?thesis
    proof cases
      case school
      then show ?thesis
        using \<open>nd x \<noteq> 0\<close> x_mul_overflow [of x y same] big by (simp add: k_mul_unfold [OF le])
    next
      case far
      have cut: "KARATSUBA_CUTOFF < nd x"
        using far(1) by (simp add: k_mul_cutoff_def KARATSUBA_SQUARE_CUTOFF_def split: if_splits)
      with far big show ?thesis
        by (simp add: k_mul_unfold [OF le] k_lopsided_mul.simps c_assert_def PyLong_New_def)
    next
      case near
      have cut: "KARATSUBA_CUTOFF < nd x"
        using near(1) by (simp add: k_mul_cutoff_def KARATSUBA_SQUARE_CUTOFF_def split: if_splits)
      have s: "nd y div 2 < nd x" "nd y div 2 < nd y" using near(2) cut le by linarith+
      obtain xh xl where X: "kmul_split x (nd y div 2) = Inr (xh, xl)" "halves x (nd y div 2) xh xl"
        "nd xh = nd x - nd y div 2"
        using kmul_split_halves [OF wf_long_pre(1) [OF wf(1)] wf_long_nd_max [OF wf(1)] s(1)]
          wf_long_pre(2) [OF wf(1)] by metis
      obtain yh yl where Y: "kmul_split y (nd y div 2) = Inr (yh, yl)"
        using kmul_split_halves [OF wf_long_pre(1) [OF wf(2)] wf_long_nd_max [OF wf(2)] s(2)] by metis
      have "0 < nd xh" using X(3) s(1) by simp
      then have pos: "0 < ob_size xh" using X(2) by (simp add: halves_def nd_def)
      have nw: "PyLong_New (int (nd x) + int (nd y)) = Inl OverflowError" using big by (simp add: PyLong_New_def)
      have "k_mul_split_case same x y = Inl OverflowError"
        using pos by (cases same) (simp_all add: k_mul_split_case_def X(1) Y Let_def nw c_assert_def del: PyLong_New_Inl)
      then show ?thesis using near by (simp add: k_mul_unfold [OF le])
    qed
  qed
  show ?thesis
  proof (cases "nd a \<le> nd b")
    case True
    then show ?thesis using main [OF assms(1,2)] assms(3) same by blast
  next
    case False
    then have "k_mul same b a = Inl OverflowError"
      using main [OF assms(2,1)] assms(3) same by (simp add: add.commute)
    moreover have "nd b < nd a" using False by simp
    ultimately show ?thesis by (simp only: k_mul_swap [of b a same])
  qed
qed

section \<open>Multiplication of integer objects\<close>

text \<open>\<open>(Py_SIZE(a) ^ Py_SIZE(b)) < 0\<close> on two's complement sizes: the signs differ.\<close>

definition long_mul :: "bool \<Rightarrow> pylong \<Rightarrow> pylong \<Rightarrow> pylong pyres" where
  "long_mul same a b =
     (if nd a \<le> 1 \<and> nd b \<le> 1 then PyLong_FromLongLong (MEDIUM_VALUE a * MEDIUM_VALUE b)
      else
        rbind (k_mul same a b) (\<lambda>z.
          if (ob_size a XOR ob_size b) < 0 then PyLong_Negate z else Inr z))"

lemma medium_product_bound:
  assumes "wf_long a" "wf_long b" "nd a \<le> 1" "nd b \<le> 1"
  shows "\<bar>MEDIUM_VALUE a * MEDIUM_VALUE b\<bar> \<le> 2 ^ 62"
proof -
  have "\<bar>MEDIUM_VALUE a\<bar> \<le> 2 ^ 30" "\<bar>MEDIUM_VALUE b\<bar> \<le> 2 ^ 30"
    using medium_abs_bound [of a] medium_abs_bound [of b] assms by (simp_all add: MEDIUM_VALUE_val)
  then have "\<bar>MEDIUM_VALUE a\<bar> * \<bar>MEDIUM_VALUE b\<bar> \<le> 2 ^ 30 * 2 ^ 30"
    by (intro mult_mono) simp_all
  then show ?thesis by (simp add: abs_mult)
qed

lemma long_val_mag: "long_val v = (if ob_size v < 0 then - int (mag v) else int (mag v))"
  by (simp add: long_val_def)

lemma long_mul_cases:
  assumes wf: "wf_long a" "wf_long b" and same: "same \<Longrightarrow> a = b"
  shows "(\<exists>z. long_mul same a b = Inr z \<and> wf_long z \<and> long_val z = long_val a * long_val b) \<or>
    long_mul same a b = Inl OverflowError \<and> MAX_LONG_DIGITS < int (nd a + nd b)"
proof (cases "nd a \<le> 1 \<and> nd b \<le> 1")
  case True
  then have le: "\<bar>MEDIUM_VALUE a * MEDIUM_VALUE b\<bar> \<le> 2 ^ 62" using medium_product_bound wf by simp
  then obtain z where "PyLong_FromLong (MEDIUM_VALUE a * MEDIUM_VALUE b) = Inr z" "wf_long z"
    "long_val z = MEDIUM_VALUE a * MEDIUM_VALUE b" by (rule FromLong_within)
  then show ?thesis using True wf FromLongLong_within [OF le] by (simp add: long_mul_def MEDIUM_VALUE_val)
next
  case False
  then have D: "long_mul same a b = rbind (k_mul same a b) (\<lambda>z.
      if (ob_size a XOR ob_size b) < 0 then PyLong_Negate z else Inr z)"
    by (auto simp: long_mul_def)
  show ?thesis
  proof (cases "MAX_LONG_DIGITS < int (nd a + nd b)")
    case True
    then show ?thesis using k_mul_overflow [OF wf] same D by simp
  next
    case room: False
    then have "mag_result (k_mul same a b) (mag a * mag b)"
      using wf same by (intro k_mul_correct k_mul_preI) auto
    then obtain z where z: "k_mul same a b = Inr z" "wf_long z" "0 \<le> ob_size z" "mag z = mag a * mag b"
      "fresh_or_small z" by (rule mag_resultE)
    have vz: "long_val z = int (mag a) * int (mag b)" using z(3,4) by (simp add: long_val_mag)
    show ?thesis
      using D z(1,2) vz PyLong_Negate_correct [OF z(2,5)]
      by (auto simp: long_val_mag [of a] long_val_mag [of b])
  qed
qed

lemma long_mul_fresh:
  assumes wf: "wf_long a" "wf_long b" and same: "same \<Longrightarrow> a = b" and eq: "long_mul same a b = Inr z"
  shows "fresh_or_small z"
proof (cases "nd a \<le> 1 \<and> nd b \<le> 1")
  case True
  then have "\<bar>MEDIUM_VALUE a * MEDIUM_VALUE b\<bar> \<le> 2 ^ 62" using medium_product_bound wf by simp
  with True eq show ?thesis by (auto simp: long_mul_def FromLongLong_within dest: fresh_FromLong)
next
  case False
  then obtain y where y: "k_mul same a b = Inr y"
    "(if (ob_size a XOR ob_size b) < 0 then PyLong_Negate y else Inr y) = Inr z"
    using eq by (auto simp: long_mul_def split: if_splits)
  have "int (nd a) + int (nd b) \<le> MAX_LONG_DIGITS"
    using k_mul_overflow [OF wf _ same] y(1) by (metis not_le sum.distinct(1))
  then have "mag_result (k_mul same a b) (mag a * mag b)"
    using wf same by (intro k_mul_correct k_mul_preI) auto
  then have "fresh_or_small y" using y(1) by (auto simp: mag_result_def)
  then show ?thesis
    using y(2) by (auto simp: PyLong_Negate_def fresh_or_small_def split: if_splits dest: fresh_FromLong)
qed

text \<open>As a binary operation on two objects, which are the same one or not.\<close>

interpretation long_mul: int_binop "long_mul False" "(*)" "\<lambda>a b. nd a + nd b"
proof (unfold_locales, goal_cases)
  case (1 a b z)
  then show ?case using long_mul_cases [of a b False] by auto
next
  case (2 a b z)
  then show ?case using long_mul_fresh [of a b False z] by simp
next
  case (3 a b e)
  then show ?case using long_mul_cases [of a b False] by auto
qed

interpretation long_square: int_unop "\<lambda>a. long_mul True a a" "\<lambda>i. i * i" "\<lambda>a. nd a + nd a"
proof (unfold_locales, goal_cases)
  case (1 a z)
  then show ?case using long_mul_cases [of a a True] by auto
next
  case (2 a e)
  then show ?case using long_mul_cases [of a a True] by auto
qed

section \<open>Properties\<close>

text \<open>
  C1: Multiplication of integer objects is exact. On well-formed operands, distinct or the same
  object, \<open>long_mul\<close> returns a well-formed object with the product as its value, whichever of
  the one-digit, grade-school, squaring, Karatsuba and lopsided algorithms runs; the only
  failure is \<open>OverflowError\<close> when the operands have more digits together than an object can
  hold. In particular no assertion of the code fails and no write leaves its array.
\<close>

theorem long_mul_exact:
  assumes "wf_long a" and "wf_long b" and "same \<Longrightarrow> a = b"
  shows "case long_mul same a b of
      Inr z \<Rightarrow> wf_long z \<and> long_val z = long_val a * long_val b
    | Inl e \<Rightarrow> e = OverflowError \<and> MAX_LONG_DIGITS < int (nd a + nd b)"
  using long_mul_cases [OF assms(1,2), of same] assms(3) by auto

lemma long_mul_exact_witness:
  "\<exists>z. long_mul False two_digits one_digit = Inr z \<and> long_val z = - 16106127395"
  using long_mul_exact [OF samples_wf, of False]
  by (auto simp: samples_val samples_nd MAX_LONG_DIGITS_val split: sum.splits)

text \<open>
  C2: Karatsuba multiplication is equivalent to grade-school multiplication: on well-formed
  operands that fit, \<open>k_mul\<close> (which splits, recurses, and adds and subtracts in place) and
  \<open>x_mul\<close> return objects with the same value.
\<close>

theorem k_mul_equiv_x_mul:
  assumes "wf_long a" and "wf_long b" and "same \<Longrightarrow> a = b" and "int (nd a) + int (nd b) \<le> MAX_LONG_DIGITS"
  shows "\<exists>z z'. k_mul same a b = Inr z \<and> x_mul same a b = Inr z' \<and> wf_long z \<and> wf_long z' \<and>
    long_val z = long_val z' \<and> 0 \<le> long_val z"
proof -
  have "mag_result (k_mul same a b) (mag a * mag b)"
    using assms by (intro k_mul_correct k_mul_preI)
  moreover have "mag_result (x_mul same a b) (mag a * mag b)"
    using assms by (intro x_mul_correct wf_long_pre)
  ultimately obtain z z' where "k_mul same a b = Inr z" "wf_long z" "0 \<le> ob_size z" "mag z = mag a * mag b"
    "x_mul same a b = Inr z'" "wf_long z'" "0 \<le> ob_size z'" "mag z' = mag a * mag b"
    by (metis mag_resultE)
  then show ?thesis by (simp add: long_val_mag)
qed

lemma k_mul_equiv_x_mul_witness:
  "\<exists>z z'. k_mul False two_digits one_digit = Inr z \<and> x_mul False two_digits one_digit = Inr z' \<and>
    long_val z = long_val z'"
  using k_mul_equiv_x_mul [OF samples_wf, of False] by (auto simp: MAX_LONG_DIGITS_val samples_nd)

end
