(* ===== verification/PyLongConv.thy ===== *)
theory PyLongConv
  imports PyLongArith
begin

text \<open>
  From integer objects to C integers (\<open>PyLong_AsLongAndOverflow\<close> and its relatives), the bit
  length and the hash, of \<open>Objects/longobject.c\<close>. A conversion accumulates the digits from the
  top in a 64-bit word and detects the loss of a bit by shifting back; the lemmas say that it
  detects exactly the values that do not fit. C \<open>long\<close> and \<open>Py_ssize_t\<close> are 64 bits wide.
\<close>

section \<open>Definitions\<close>

definition LONG_MAX :: int where "LONG_MAX = 2 ^ 63 - 1"
definition LONG_MIN :: int where "LONG_MIN = - (2 ^ 63)"
definition INT_MAX :: int where "INT_MAX = 2 ^ 31 - 1"
definition INT_MIN :: int where "INT_MIN = - (2 ^ 31)"
definition PY_ABS_LONG_MIN :: "64 word" where "PY_ABS_LONG_MIN = 0 - word_of_int LONG_MIN"

text \<open>The loop \<open>while (--i >= 0)\<close> over the digits from the top; \<open>None\<close> when a bit is lost.\<close>

fun ulong_accum :: "64 word \<Rightarrow> digit list \<Rightarrow> 64 word option" where
  "ulong_accum x [] = Some x"
| "ulong_accum x (d # ds) =
     (let prev = x;
          x = push_bit PyLong_SHIFT x OR ucast d
      in if drop_bit PyLong_SHIFT x \<noteq> prev then None else ulong_accum x ds)"

definition PyLong_AsLongAndOverflow :: "pylong \<Rightarrow> int \<times> int" where
  "PyLong_AsLongAndOverflow v =
     (let i = ob_size v
      in if i = -1 then (- sint (ob_digit v ! 0), 0)
         else if i = 0 then (0, 0)
         else if i = 1 then (uint (ob_digit v ! 0), 0)
         else
           let sign = (if i < 0 then -1 else 1)
           in (case ulong_accum 0 (rev (digits v)) of
                 None \<Rightarrow> (-1, sign)
               | Some x \<Rightarrow>
                   if x \<le> word_of_int LONG_MAX then (uint x * sign, 0)
                   else if sign < 0 \<and> x = PY_ABS_LONG_MIN then (LONG_MIN, 0)
                   else (-1, sign)))"

definition PyLong_AsLong :: "pylong \<Rightarrow> int pyres" where
  "PyLong_AsLong v =
     (let (result, overflow) = PyLong_AsLongAndOverflow v
      in if overflow \<noteq> 0 then Inl OverflowError else Inr result)"

definition PyLong_AsInt :: "pylong \<Rightarrow> int pyres" where
  "PyLong_AsInt v =
     (let (result, overflow) = PyLong_AsLongAndOverflow v
      in if overflow \<noteq> 0 \<or> result > INT_MAX \<or> result < INT_MIN then Inl OverflowError
         else Inr result)"

definition PyLong_AsSsize_t :: "pylong \<Rightarrow> int pyres" where
  "PyLong_AsSsize_t v =
     (let i = ob_size v
      in if i = -1 then Inr (- sint (ob_digit v ! 0))
         else if i = 0 then Inr 0
         else if i = 1 then Inr (uint (ob_digit v ! 0))
         else
           let sign = (if i < 0 then -1 else 1)
           in (case ulong_accum 0 (rev (digits v)) of
                 None \<Rightarrow> Inl OverflowError
               | Some x \<Rightarrow>
                   if x \<le> word_of_int PY_SSIZE_T_MAX then Inr (uint x * sign)
                   else if sign < 0 \<and> x = PY_ABS_LONG_MIN then Inr (- PY_SSIZE_T_MAX - 1)
                   else Inl OverflowError))"

definition PyLong_AsUnsignedLong :: "pylong \<Rightarrow> 64 word pyres" where
  "PyLong_AsUnsignedLong v =
     (let i = ob_size v
      in if i < 0 then Inl OverflowError
         else if i = 0 then Inr 0
         else if i = 1 then Inr (ucast (ob_digit v ! 0))
         else
           (case ulong_accum 0 (rev (digits v)) of
              None \<Rightarrow> Inl OverflowError
            | Some x \<Rightarrow> Inr x))"

text \<open>\<open>size_t\<close> is \<open>unsigned long\<close>; the source has the same code twice.\<close>

definition PyLong_AsSize_t :: "pylong \<Rightarrow> 64 word pyres" where
  "PyLong_AsSize_t v = PyLong_AsUnsignedLong v"

definition PyLong_AsUnsignedLongMask :: "pylong \<Rightarrow> 64 word" where
  "PyLong_AsUnsignedLongMask v =
     (let i = ob_size v
      in if i = 0 then 0
         else if i = 1 then ucast (ob_digit v ! 0)
         else
           let sign = (if i < 0 then -1 else 1);
               x = fold (\<lambda>d x. push_bit PyLong_SHIFT x OR ucast d) (rev (digits v)) 0
           in x * sign)"

definition PyLong_Sign :: "pylong \<Rightarrow> int" where
  "PyLong_Sign v = (if ob_size v = 0 then 0 else if ob_size v < 0 then -1 else 1)"

text \<open>The portable branch of \<open>_Py_bit_length\<close>.\<close>

definition BIT_LENGTH_TABLE :: "nat list" where
  "BIT_LENGTH_TABLE =
     [0, 1, 2, 2, 3, 3, 3, 3, 4, 4, 4, 4, 4, 4, 4, 4,
      5, 5, 5, 5, 5, 5, 5, 5, 5, 5, 5, 5, 5, 5, 5, 5]"

function bit_length_loop :: "nat \<Rightarrow> 64 word \<Rightarrow> nat" where
  "bit_length_loop msb x =
     (if 32 \<le> x then bit_length_loop (msb + 6) (drop_bit 6 x)
      else msb + BIT_LENGTH_TABLE ! unat x)"
  by pat_completeness auto
termination
proof (relation "measure (\<lambda>(_, x). unat x)")
  fix msb :: nat and x :: "64 word"
  assume "32 \<le> x"
  then have "32 \<le> unat x" by (simp add: word_le_nat_alt)
  then show "((msb + 6, drop_bit 6 x), (msb, x)) \<in> measure (\<lambda>(_, x). unat x)"
    by (simp add: unat_drop_bit_div)
qed simp

declare bit_length_loop.simps [simp del]

definition Py_bit_length :: "64 word \<Rightarrow> nat" where
  "Py_bit_length x = bit_length_loop 0 x"

definition bit_length_digit :: "digit \<Rightarrow> nat" where
  "bit_length_digit x = Py_bit_length (ucast x)"

definition PyLong_NumBits :: "pylong \<Rightarrow> size_t pyres" where
  "PyLong_NumBits v =
     (let ndigits = nd v
      in rbind (c_assert (ndigits = 0 \<or> ob_digit v ! (ndigits - 1) \<noteq> 0)) (\<lambda>_.
         if ndigits > 0 then
           let msd = ob_digit v ! (ndigits - 1)
           in if of_nat (ndigits - 1) > (-1 :: size_t) div of_nat PyLong_SHIFT then Inl OverflowError
              else
                let result = of_nat (ndigits - 1) * of_nat PyLong_SHIFT;
                    msd_bits = of_nat (bit_length_digit msd)
                in if -1 - msd_bits < result then Inl OverflowError else Inr (result + msd_bits)
         else Inr 0))"

text \<open>\<open>long_hash\<close>: the value modulo \<open>2\<^sup>6\<^sup>1 - 1\<close> by rotations, in a 64-bit word.\<close>

definition PyHASH_BITS :: nat where "PyHASH_BITS = 61"
definition PyHASH_MODULUS :: "64 word" where "PyHASH_MODULUS = push_bit 61 1 - 1"

definition hash_step :: "64 word \<Rightarrow> digit \<Rightarrow> 64 word" where
  "hash_step x d =
     (let x = (push_bit PyLong_SHIFT x AND PyHASH_MODULUS) OR drop_bit (PyHASH_BITS - PyLong_SHIFT) x;
          x = x + ucast d
      in if x \<ge> PyHASH_MODULUS then x - PyHASH_MODULUS else x)"

definition long_hash :: "pylong \<Rightarrow> int" where
  "long_hash v =
     (let i = ob_size v
      in if i = -1 then (if ob_digit v ! 0 = 1 then -2 else - sint (ob_digit v ! 0))
         else if i = 0 then 0
         else if i = 1 then uint (ob_digit v ! 0)
         else
           let sign = (if i < 0 then -1 else 1);
               x = fold (\<lambda>d x. hash_step x d) (rev (digits v)) 0;
               x = x * sign;
               x = (if x = -1 then -2 else x)
           in sint x)"

section \<open>Accumulating from the top\<close>

lemma unat_shift_in:
  fixes x :: "64 word" and d :: digit
  assumes "digit_ok d" and "unat x * 2 ^ 30 < 2 ^ 64"
  shows "unat (push_bit 30 x OR ucast d) = unat x * 2 ^ 30 + unat d"
proof -
  have p: "unat (push_bit 30 x) = unat x * 2 ^ 30" using assms(2) by (intro unat_push_bit_small) simp
  have d: "unat (ucast d :: 64 word) = unat d" by (simp add: unat_ucast_up)
  show ?thesis
    using unat_or_disjoint [OF p, of "ucast d"] assms(1) d p by (simp add: digit_ok_def)
qed

text \<open>Modulo \<open>2\<^sup>6\<^sup>4\<close> the shift and the disjunction are multiplication and addition in any case.\<close>

lemma shift_in_word:
  fixes x :: "64 word" and d :: digit
  assumes "digit_ok d"
  shows "push_bit 30 x OR ucast d = x * 2 ^ 30 + ucast d"
proof -
  have "push_bit 30 x AND (ucast d :: 64 word) = 0"
  proof (rule bit_eqI)
    fix n
    have "n < 30" if "bit d n" using digit_ok_bit [OF assms that] .
    then show "bit (push_bit 30 x AND (ucast d :: 64 word)) n = bit (0 :: 64 word) n"
      by (auto simp: bit_and_iff bit_push_bit_iff bit_ucast_iff)
  qed
  then show ?thesis
    by (metis disjunctive_add_eq_or push_bit_eq_mult)
qed

lemma accum_value:
  "dval (rev (d # ds)) + 2 ^ (30 * length (d # ds)) * x =
    dval (rev ds) + 2 ^ (30 * length ds) * (x * 2 ^ 30 + unat d)"
  by (simp add: dval_append power_add algebra_simps)

text \<open>The loop returns the number the digits denote, and \<open>None\<close> exactly when it does not fit.\<close>

lemma ulong_accum_correct:
  assumes "list_all digit_ok ds"
  shows "ulong_accum x ds =
    (let val = dval (rev ds) + 2 ^ (30 * length ds) * unat x
     in if val < 2 ^ 64 then Some (of_nat val) else None)"
  using assms
proof (induction ds arbitrary: x)
  case Nil
  then show ?case using unsigned_less [of x] by (simp add: Let_def)
next
  case (Cons d ds)
  let ?x = "push_bit 30 x OR ucast d :: 64 word"
  from Cons.prems have ok: "digit_ok d" "list_all digit_ok ds" by simp_all
  show ?case
  proof (cases "unat x * 2 ^ 30 < 2 ^ 64")
    case True
    note ux = unat_shift_in [OF ok(1) True]
    have "unat (drop_bit 30 ?x) = unat x"
      unfolding unat_drop_bit_div ux using ok(1) by (simp add: digit_ok_def)
    then have "drop_bit 30 ?x = x" by (simp only: word_unat_eq_iff)
    then have "ulong_accum x (d # ds) = ulong_accum ?x ds" by (simp add: Let_def)
    then show ?thesis using Cons.IH [OF ok(2), of ?x] unfolding ux accum_value by simp
  next
    case False
    have "unat (drop_bit 30 ?x) < 2 ^ 34"
      unfolding unat_drop_bit_div using unsigned_less [of ?x] by (intro less_mult_imp_div_less) simp
    moreover have "2 ^ 34 \<le> unat x" using False by simp
    ultimately have "drop_bit 30 ?x \<noteq> x" by auto
    then have "ulong_accum x (d # ds) = None" by (simp add: Let_def)
    moreover have "2 ^ 64 \<le> dval (rev ds) + 2 ^ (30 * length ds) * (unat x * 2 ^ 30 + unat d)"
    proof -
      have "2 ^ 64 \<le> unat x * 2 ^ 30 + unat d" using False by simp
      also have "\<dots> \<le> 2 ^ (30 * length ds) * (unat x * 2 ^ 30 + unat d)" by simp
      also have "\<dots> \<le> dval (rev ds) + \<dots>" by simp
      finally show ?thesis .
    qed
    ultimately show ?thesis unfolding accum_value by simp
  qed
qed

lemma ulong_accum_digits:
  assumes "wf_long v"
  shows "ulong_accum 0 (rev (digits v)) =
    (if \<bar>long_val v\<bar> < 2 ^ 64 then Some (word_of_int \<bar>long_val v\<bar>) else None)"
proof -
  have "ulong_accum 0 (rev (digits v)) = (if dval (digits v) < 2 ^ 64 then Some (of_nat (dval (digits v))) else None)"
    using ulong_accum_correct [of "rev (digits v)" 0] wf_long_digits(1) [OF assms] by simp
  moreover have "dval (digits v) < 2 ^ 64 \<longleftrightarrow> \<bar>long_val v\<bar> < 2 ^ 64"
    unfolding abs_long_val by (metis of_nat_less_numeral_power_cancel_iff)
  ultimately show ?thesis by (simp add: abs_long_val)
qed

text \<open>Objects of one digit take the shortcut.\<close>

lemma one_digit_cases:
  assumes "wf_long v" and "ob_size v = 1 \<or> ob_size v = -1"
  shows "sint (ob_digit v ! 0) = \<bar>long_val v\<bar>" and "uint (ob_digit v ! 0) = \<bar>long_val v\<bar>"
    and "\<bar>long_val v\<bar> < 2 ^ 30" and "long_val v = ob_size v * \<bar>long_val v\<bar>"
proof -
  have nd: "nd v = 1" using assms(2) by (auto simp: nd_def)
  note ds = digits_nd_1 [OF nd assms(1)]
  have ok: "digit_ok (ob_digit v ! 0)" using wf_long_digits(1) [OF assms(1)] ds by simp
  have a: "\<bar>long_val v\<bar> = int (unat (ob_digit v ! 0))" unfolding abs_long_val ds by simp
  show "sint (ob_digit v ! 0) = \<bar>long_val v\<bar>" "uint (ob_digit v ! 0) = \<bar>long_val v\<bar>"
    using sint_digit [OF ok] a by simp_all
  show "\<bar>long_val v\<bar> < 2 ^ 30" using medium_abs_bound [OF assms(1)] nd by simp
  show "long_val v = ob_size v * \<bar>long_val v\<bar>"
    using assms(2) by (auto simp: long_val_def)
qed

section \<open>Conversions\<close>

lemma word_le_LONG_MAX:
  assumes "0 \<le> i" and "i < 2 ^ 64"
  shows "(word_of_int i :: 64 word) \<le> word_of_int LONG_MAX \<longleftrightarrow> i \<le> LONG_MAX"
    and "(word_of_int i :: 64 word) = PY_ABS_LONG_MIN \<longleftrightarrow> i = 2 ^ 63"
    and "uint (word_of_int i :: 64 word) = i"
proof -
  show u: "uint (word_of_int i :: 64 word) = i"
    using assms by (simp add: unsigned_of_int take_bit_int_eq_self)
  show "(word_of_int i :: 64 word) \<le> word_of_int LONG_MAX \<longleftrightarrow> i \<le> LONG_MAX"
    using u by (simp add: word_le_def LONG_MAX_def)
  have "(word_of_int i :: 64 word) = PY_ABS_LONG_MIN \<longleftrightarrow> uint (word_of_int i :: 64 word) = 2 ^ 63"
    by (simp add: PY_ABS_LONG_MIN_def LONG_MIN_def word_uint_eq_iff)
  then show "(word_of_int i :: 64 word) = PY_ABS_LONG_MIN \<longleftrightarrow> i = 2 ^ 63" using u by simp
qed

lemma PyLong_AsLongAndOverflow_correct:
  assumes "wf_long v"
  shows "PyLong_AsLongAndOverflow v =
    (if LONG_MIN \<le> long_val v \<and> long_val v \<le> LONG_MAX then (long_val v, 0)
     else (-1, sgn (long_val v)))"
proof -
  consider (small) "ob_size v = 1 \<or> ob_size v = -1" | (zero) "ob_size v = 0"
    | (big) "ob_size v \<noteq> 1" "ob_size v \<noteq> -1" "ob_size v \<noteq> 0" by blast
  then show ?thesis
  proof cases
    case small
    note o = one_digit_cases [OF assms small]
    then have "LONG_MIN \<le> long_val v \<and> long_val v \<le> LONG_MAX"
      by (simp add: LONG_MIN_def LONG_MAX_def abs_less_iff)
    then show ?thesis using o small by (auto simp: PyLong_AsLongAndOverflow_def)
  next
    case zero
    then show ?thesis
      using long_val_0_iff [OF assms] by (simp add: PyLong_AsLongAndOverflow_def LONG_MIN_def LONG_MAX_def)
  next
    case big
    let ?a = "\<bar>long_val v\<bar>"
    have sg: "(if ob_size v < 0 then -1 else 1) = sgn (long_val v)"
      using big long_val_sign [OF assms] by (auto simp: sgn_if)
    have D: "PyLong_AsLongAndOverflow v =
       (if ?a < 2 ^ 64 then
          (if (word_of_int ?a :: 64 word) \<le> word_of_int LONG_MAX then (uint (word_of_int ?a :: 64 word) * sgn (long_val v), 0)
           else if sgn (long_val v) < 0 \<and> word_of_int ?a = PY_ABS_LONG_MIN then (LONG_MIN, 0)
           else (-1, sgn (long_val v)))
        else (-1, sgn (long_val v)))"
      using big by (simp add: PyLong_AsLongAndOverflow_def ulong_accum_digits [OF assms] sg Let_def)
    show ?thesis
    proof (cases "?a < 2 ^ 64")
      case True
      note w = word_le_LONG_MAX [OF abs_ge_zero True]
      show ?thesis unfolding D w using True
        by (auto simp: LONG_MAX_def LONG_MIN_def sgn_if abs_if split: if_splits)
    next
      case False
      then show ?thesis unfolding D by (auto simp: LONG_MAX_def LONG_MIN_def)
    qed
  qed
qed

lemma PyLong_AsLong_correct:
  assumes "wf_long v"
  shows "PyLong_AsLong v =
    (if LONG_MIN \<le> long_val v \<and> long_val v \<le> LONG_MAX then Inr (long_val v) else Inl OverflowError)"
  unfolding PyLong_AsLong_def PyLong_AsLongAndOverflow_correct [OF assms]
  by (auto simp: sgn_if LONG_MIN_def LONG_MAX_def)

lemma PyLong_AsInt_correct:
  assumes "wf_long v"
  shows "PyLong_AsInt v =
    (if INT_MIN \<le> long_val v \<and> long_val v \<le> INT_MAX then Inr (long_val v) else Inl OverflowError)"
  unfolding PyLong_AsInt_def PyLong_AsLongAndOverflow_correct [OF assms]
  by (auto simp: sgn_if LONG_MIN_def LONG_MAX_def INT_MIN_def INT_MAX_def)

text \<open>\<open>PyLong_AsSsize_t\<close> repeats the code of \<open>PyLong_AsLongAndOverflow\<close>.\<close>

lemma PyLong_AsSsize_t_eq: "PyLong_AsSsize_t v = PyLong_AsLong v"
  by (simp add: PyLong_AsSsize_t_def PyLong_AsLong_def PyLong_AsLongAndOverflow_def Let_def
      PY_SSIZE_T_MAX_def LONG_MAX_def LONG_MIN_def split: option.splits)

lemma PyLong_AsUnsignedLong_correct:
  assumes "wf_long v"
  shows "PyLong_AsUnsignedLong v =
    (if 0 \<le> long_val v \<and> long_val v < 2 ^ 64 then Inr (word_of_int (long_val v)) else Inl OverflowError)"
proof -
  consider (neg) "ob_size v < 0" | (small) "ob_size v = 1" | (zero) "ob_size v = 0"
    | (big) "1 < ob_size v" by linarith
  then show ?thesis
  proof cases
    case neg
    then show ?thesis using long_val_sign [OF assms] by (simp add: PyLong_AsUnsignedLong_def)
  next
    case small
    then have pos: "0 < long_val v" using long_val_sign [OF assms] by simp
    note o = one_digit_cases [OF assms disjI1 [OF small]]
    have "(ucast (ob_digit v ! 0) :: 64 word) = word_of_int (long_val v)"
      using o(2) pos by (simp add: ucast_eq)
    then show ?thesis using small o(3) pos by (simp add: PyLong_AsUnsignedLong_def)
  next
    case zero
    then show ?thesis using long_val_0_iff [OF assms] by (simp add: PyLong_AsUnsignedLong_def)
  next
    case big
    then have pos: "0 < long_val v" using long_val_sign [OF assms] by simp
    then show ?thesis
      using big by (simp add: PyLong_AsUnsignedLong_def ulong_accum_digits [OF assms])
  qed
qed

lemma fold_shift_in:
  assumes "list_all digit_ok ds"
  shows "fold (\<lambda>d x. push_bit 30 x OR ucast d) ds x = (of_nat (dval (rev ds) + 2 ^ (30 * length ds) * unat x) :: 64 word)"
  using assms
proof (induction ds arbitrary: x)
  case (Cons d ds)
  then have ok: "digit_ok d" "list_all digit_ok ds" by simp_all
  have u: "(ucast d :: 64 word) = of_nat (unat d)" by (metis of_int_of_nat_eq of_nat_unat ucast_eq)
  have e: "(of_nat (unat (x * 2 ^ 30 + ucast d)) :: 64 word) = of_nat (unat x * 2 ^ 30 + unat d)"
    using u by simp
  have "fold (\<lambda>d x. push_bit 30 x OR ucast d) (d # ds) x =
      (of_nat (dval (rev ds) + 2 ^ (30 * length ds) * unat (x * 2 ^ 30 + ucast d)) :: 64 word)"
    using Cons.IH [OF ok(2)] by (simp only: fold_Cons o_apply shift_in_word [OF ok(1)])
  also have "\<dots> = of_nat (dval (rev ds) + 2 ^ (30 * length ds) * (unat x * 2 ^ 30 + unat d))"
    unfolding of_nat_add [of "dval (rev ds)"] of_nat_mult [of "2 ^ (30 * length ds)"] e ..
  finally show ?case unfolding accum_value .
qed simp

lemma PyLong_AsUnsignedLongMask_correct:
  assumes "wf_long v"
  shows "PyLong_AsUnsignedLongMask v = word_of_int (long_val v)"
proof -
  have F: "fold (\<lambda>d x. push_bit 30 x OR ucast d) (rev (digits v)) 0 = (of_nat (dval (digits v)) :: 64 word)"
    using fold_shift_in [of "rev (digits v)" 0] wf_long_digits(1) [OF assms] by simp
  consider (small) "ob_size v = 1" | (zero) "ob_size v = 0" | (other) "ob_size v \<noteq> 0" "ob_size v \<noteq> 1"
    by blast
  then show ?thesis
  proof cases
    case small
    have "(ucast (ob_digit v ! 0) :: 64 word) = word_of_int \<bar>long_val v\<bar>"
      using one_digit_cases(2) [OF assms disjI1 [OF small]] by (simp add: ucast_eq)
    then show ?thesis
      using small long_val_sign(2) [OF assms] by (simp add: PyLong_AsUnsignedLongMask_def)
  next
    case zero
    then show ?thesis using long_val_0_iff [OF assms] by (simp add: PyLong_AsUnsignedLongMask_def)
  next
    case other
    then show ?thesis by (simp add: PyLong_AsUnsignedLongMask_def F Let_def long_val_def)
  qed
qed

lemma PyLong_Sign_correct: "wf_long v \<Longrightarrow> PyLong_Sign v = sgn (long_val v)"
  using long_val_sign [of v] long_val_0_iff [of v] by (auto simp: PyLong_Sign_def sgn_if)

section \<open>Bit length\<close>

lemma BIT_LENGTH_TABLE_correct:
  assumes "n < 32"
  shows "n < 2 ^ (BIT_LENGTH_TABLE ! n)" and "0 < n \<Longrightarrow> 2 ^ (BIT_LENGTH_TABLE ! n) \<le> 2 * n"
    and "n = 0 \<Longrightarrow> BIT_LENGTH_TABLE ! n = 0"
proof -
  have "\<forall>n\<in>set [0..<32]. n < 2 ^ (BIT_LENGTH_TABLE ! n) \<and> (0 < n \<longrightarrow> 2 ^ (BIT_LENGTH_TABLE ! n) \<le> 2 * n)"
    by (simp add: BIT_LENGTH_TABLE_def upt_rec)
  then show "n < 2 ^ (BIT_LENGTH_TABLE ! n)" and "0 < n \<Longrightarrow> 2 ^ (BIT_LENGTH_TABLE ! n) \<le> 2 * n"
    using assms by auto
qed (simp add: BIT_LENGTH_TABLE_def)

lemma bit_length_loop_correct:
  "\<exists>k. bit_length_loop msb x = msb + k \<and> unat x < 2 ^ k \<and> (x \<noteq> 0 \<longrightarrow> 2 ^ k \<le> 2 * unat x) \<and> (x = 0 \<longrightarrow> k = 0)"
proof (induction msb x rule: bit_length_loop.induct)
  case (1 msb x)
  show ?case
  proof (cases "32 \<le> x")
    case True
    let ?y = "drop_bit 6 x"
    obtain k where k: "bit_length_loop (msb + 6) ?y = msb + 6 + k" "unat ?y < 2 ^ k"
      "?y \<noteq> 0 \<longrightarrow> 2 ^ k \<le> 2 * unat ?y" "?y = 0 \<longrightarrow> k = 0"
      using 1 [OF True] by blast
    have y: "unat ?y = unat x div 64" by (simp add: unat_drop_bit_div)
    have ge: "32 \<le> unat x" using True by (simp add: word_le_nat_alt)
    have "unat x < 2 ^ (6 + k)"
    proof -
      have "unat x div 64 < 2 ^ k" using k(2) y by simp
      then have "unat x < 64 * 2 ^ k" by (metis div_less_iff_less_mult mult.commute zero_less_numeral)
      then show ?thesis by (simp add: power_add)
    qed
    moreover have "2 ^ (6 + k) \<le> 2 * unat x"
    proof (cases "?y = 0")
      case True
      then show ?thesis using k(4) ge by simp
    next
      case False
      then have "64 * 2 ^ k \<le> 64 * (2 * (unat x div 64))" using k(3) y by simp
      also have "\<dots> \<le> 2 * unat x" using div_times_less_eq_dividend [of "unat x" 64] by simp
      finally show ?thesis by (simp add: power_add)
    qed
    moreover have "x \<noteq> 0" using ge by auto
    ultimately show ?thesis
      using True k(1) by (intro exI [of _ "6 + k"]) (simp add: bit_length_loop.simps [of msb x])
  next
    case False
    then have lt: "unat x < 32" by (simp add: word_le_nat_alt)
    note t = BIT_LENGTH_TABLE_correct [OF lt]
    have "bit_length_loop msb x = msb + BIT_LENGTH_TABLE ! unat x"
      using False by (simp add: bit_length_loop.simps [of msb x])
    moreover have "x \<noteq> 0 \<Longrightarrow> 0 < unat x" by (simp add: unat_gt_0)
    ultimately show ?thesis using t by (intro exI [of _ "BIT_LENGTH_TABLE ! unat x"]) auto
  qed
qed

lemma bit_length_digit_correct:
  assumes "digit_ok d" and "d \<noteq> 0"
  shows "unat d < 2 ^ bit_length_digit d" and "2 ^ bit_length_digit d \<le> 2 * unat d"
    and "bit_length_digit d \<le> 30" and "0 < bit_length_digit d"
proof -
  have u: "unat (ucast d :: 64 word) = unat d" by (simp add: unat_ucast_up)
  then have nz: "(ucast d :: 64 word) \<noteq> 0" using assms(2) by (metis unat_0 unat_eq_zero)
  show lt: "unat d < 2 ^ bit_length_digit d" and le: "2 ^ bit_length_digit d \<le> 2 * unat d"
    using bit_length_loop_correct [of 0 "ucast d"] nz u
    by (auto simp: bit_length_digit_def Py_bit_length_def)
  have "2 ^ bit_length_digit d < (2::nat) ^ 31" using le assms(1) by (simp add: digit_ok_def)
  then have "bit_length_digit d < 31" by (rule power_less_imp_less_exp [rotated]) simp
  then show "bit_length_digit d \<le> 30" by simp
  have "unat d \<noteq> 0" using assms(2) by (metis unat_eq_zero)
  then show "0 < bit_length_digit d" using lt by (cases "bit_length_digit d") auto
qed

lemma room_for_bits:
  fixes a b :: nat
  assumes "b \<le> 30"
  shows "18446744073709551615 - b < a \<longleftrightarrow> \<not> a + b < 2 ^ 64"
proof -
  have "(2 :: nat) ^ 64 = 18446744073709551616" by simp
  then show ?thesis using assms by linarith
qed

text \<open>
  The number of bits of an integer object; an object of the largest size has about \<open>2\<^sup>6\<^sup>6\<close>
  bits, so the overflow tests of the source are live.
\<close>

lemma PyLong_NumBits_cases:
  assumes wf: "wf_long v" and nz: "long_val v \<noteq> 0"
  defines "k \<equiv> 30 * (nd v - 1) + bit_length_digit (ob_digit v ! (nd v - 1))"
  shows "PyLong_NumBits v = (if k < 2 ^ 64 then Inr (of_nat k) else Inl OverflowError)"
    and "\<bar>long_val v\<bar> < 2 ^ k" and "2 ^ k \<le> 2 * \<bar>long_val v\<bar>"
proof -
  let ?m = "ob_digit v ! (nd v - 1)" and ?n = "nd v - 1"
  have pos: "0 < nd v" using nz long_val_0_iff [OF wf] by (simp add: nd_def)
  note ds = wf_long_digits [OF wf]
  have top: "digits v = take ?n (digits v) @ [?m]"
  proof -
    have "digits v = butlast (digits v) @ [last (digits v)]"
      using pos ds(2) by (metis append_butlast_last_id length_greater_0_conv)
    moreover have "last (digits v) = ?m"
      using pos ds(2) by (simp add: last_conv_nth digits_def flip: length_greater_0_conv)
    ultimately show ?thesis using ds(2) by (metis butlast_conv_take)
  qed
  have "list_all digit_ok (take ?n (digits v) @ [?m])" using ds(1) by (subst (asm) top)
  then have m: "digit_ok ?m" "?m \<noteq> 0" using wf pos by (simp_all add: wf_long_def)
  note b = bit_length_digit_correct [OF m]
  let ?lo = "dval (take ?n (digits v))"
  have len: "length (take ?n (digits v)) = ?n" using ds(2) by simp
  have lo: "?lo < 2 ^ (30 * ?n)"
    using dval_bound [of "take ?n (digits v)"] ds(1) len by (simp add: list_all_digit_ok_take)
  have val: "dval (digits v) = ?lo + 2 ^ (30 * ?n) * unat ?m"
    by (subst top) (simp only: dval_append len, simp)
  have "dval (digits v) < 2 ^ (30 * ?n) * Suc (unat ?m)" using lo val by simp
  also have "\<dots> \<le> 2 ^ (30 * ?n) * 2 ^ bit_length_digit ?m"
    using b(1) by (intro mult_le_mono2) simp
  also have "\<dots> = 2 ^ k" by (simp add: k_def power_add)
  finally show "\<bar>long_val v\<bar> < 2 ^ k" unfolding abs_long_val by (metis of_nat_less_numeral_power_cancel_iff)
  have "(2 :: nat) ^ k = 2 ^ (30 * ?n) * 2 ^ bit_length_digit ?m" by (simp add: k_def power_add)
  also have "\<dots> \<le> 2 ^ (30 * ?n) * (2 * unat ?m)" using b(2) by (rule mult_le_mono2)
  also have "\<dots> \<le> 2 * dval (digits v)" using val by simp
  finally have "int (2 ^ k) \<le> int (2 * dval (digits v))" by (simp only: of_nat_le_iff)
  then show "2 ^ k \<le> 2 * \<bar>long_val v\<bar>" unfolding abs_long_val by simp
  have n: "?n < 2305843009213693945" using wf_long_nd_max [OF wf] pos by (simp add: MAX_LONG_DIGITS_val)
  let ?q = "(-1 :: size_t) div of_nat PyLong_SHIFT" and ?w = "of_nat ?n :: size_t"
  have q: "unat ?q = 18446744073709551615 div 30" by (simp add: unat_div)
  have un: "unat ?w = ?n" using n by (simp add: unat_of_nat take_bit_nat_eq_self)
  show "PyLong_NumBits v = (if k < 2 ^ 64 then Inr (of_nat k) else Inl OverflowError)"
  proof (cases "?w > ?q")
    case True
    then have "18446744073709551615 div 30 < ?n" using q un by (simp add: word_less_nat_alt)
    then have "2 ^ 64 \<le> k" using b(4) unfolding k_def by simp
    then show ?thesis using True pos m by (simp add: PyLong_NumBits_def c_assert_def Let_def)
  next
    case False
    then have le: "?n \<le> 18446744073709551615 div 30" using q un by (simp add: word_less_nat_alt not_less)
    let ?r = "of_nat ?n * of_nat PyLong_SHIFT :: size_t" and ?b = "of_nat (bit_length_digit ?m) :: size_t"
    have ur: "unat ?r = 30 * ?n" using le un by (subst unat_mult_small) simp_all
    have ub: "unat ?b = bit_length_digit ?m" using b(3) by (simp add: unat_of_nat take_bit_nat_eq_self)
    have us: "unat (-1 - ?b :: size_t) = 18446744073709551615 - bit_length_digit ?m"
      by (simp only: unat_sub [OF word_n1_ge] ub) (simp add: unsigned_minus_1_eq_mask mask_eq_exp_minus_1)
    have "(-1 - ?b < ?r) \<longleftrightarrow> \<not> k < 2 ^ 64"
      unfolding word_less_nat_alt us ur k_def using b(3) by (rule room_for_bits)
    moreover have "?r + ?b = of_nat k" by (simp add: k_def)
    ultimately show ?thesis using False pos m by (simp add: PyLong_NumBits_def c_assert_def Let_def)
  qed
qed

section \<open>Hashing\<close>

lemma hash_rotate:
  assumes "unat x < 2 ^ 61"
  shows "unat ((push_bit 30 x AND PyHASH_MODULUS) OR drop_bit 31 x) =
    (unat x mod 2 ^ 31) * 2 ^ 30 + unat x div 2 ^ 31"
proof -
  have M: "PyHASH_MODULUS = mask 61" by (simp add: PyHASH_MODULUS_def mask_eq_exp_minus_1 push_bit_eq_mult)
  have "unat (push_bit 30 x AND PyHASH_MODULUS) = unat (push_bit 30 x) mod 2 ^ 61"
    unfolding M by (rule unat_and_mask)
  also have "unat (push_bit 30 x) = (unat x * 2 ^ 30) mod 2 ^ 64"
    by (simp add: push_bit_eq_mult unat_word_ariths(2))
  also have "(unat x * 2 ^ 30) mod 2 ^ 64 mod 2 ^ 61 = (unat x * 2 ^ 30) mod 2 ^ 61"
    by (rule mod_mod_cancel) (simp add: le_imp_power_dvd)
  also have "\<dots> = (unat x * 2 ^ 30) mod (2 ^ 31 * 2 ^ 30)" by simp
  also have "\<dots> = (unat x mod 2 ^ 31) * 2 ^ 30" by (rule mult_mod_left [symmetric])
  finally have p: "unat (push_bit 30 x AND PyHASH_MODULUS) = (unat x mod 2 ^ 31) * 2 ^ 30" .
  have d: "unat (drop_bit 31 x) = unat x div 2 ^ 31" by (rule unat_drop_bit_div)
  have "unat x div 2 ^ 31 < 2 ^ 30" using assms by (intro less_mult_imp_div_less) simp
  then show ?thesis using unat_or_disjoint [OF p, of "drop_bit 31 x"] p d by simp
qed

lemma top_rotation:
  fixes lo hi :: nat
  assumes "lo < 2 ^ 31" and "hi < 2 ^ 30" and "\<not> lo * 2 ^ 30 + hi < 2 ^ 61 - 1"
  shows "lo = 2 ^ 31 - 1 \<and> hi = 2 ^ 30 - 1"
  using assms by simp

lemma rotation_value:
  fixes x hi lo d :: nat
  assumes "x = hi * 2 ^ 31 + lo"
  shows "x * 2 ^ 30 + d = lo * 2 ^ 30 + hi + d + (2 ^ 61 - 1) * hi"
  by (simp add: assms algebra_simps)

lemma hash_step_correct:
  assumes x: "unat x < 2 ^ 61 - 1" and d: "digit_ok d"
  shows "unat (hash_step x d) = (unat x * 2 ^ 30 + unat d) mod (2 ^ 61 - 1)"
    and "unat (hash_step x d) < 2 ^ 61 - 1"
proof -
  let ?r = "(push_bit 30 x AND PyHASH_MODULUS) OR drop_bit 31 x"
  let ?hi = "unat x div 2 ^ 31" and ?lo = "unat x mod 2 ^ 31"
  have r: "unat ?r = ?lo * 2 ^ 30 + ?hi" using hash_rotate [of x] x by simp
  have hi: "?hi < 2 ^ 30" using x by (intro less_mult_imp_div_less) simp
  have lo: "?lo < 2 ^ 31" by simp
  have xs: "unat x = ?hi * 2 ^ 31 + ?lo" by simp
  have rlt: "?lo * 2 ^ 30 + ?hi < 2 ^ 61 - 1"
  proof (rule ccontr)
    assume "\<not> ?lo * 2 ^ 30 + ?hi < 2 ^ 61 - 1"
    then have "?lo = 2 ^ 31 - 1 \<and> ?hi = 2 ^ 30 - 1" by (rule top_rotation [OF lo hi])
    then have "unat x = (2 ^ 30 - 1) * 2 ^ 31 + (2 ^ 31 - 1)" using xs by argo
    then show False using x by simp
  qed
  let ?s = "?r + ucast d"
  have ud: "unat (ucast d :: 64 word) = unat d" by (simp add: unat_ucast_up)
  have s: "unat ?s = ?lo * 2 ^ 30 + ?hi + unat d"
    using r rlt ud d by (subst unat_add_small) (simp_all add: digit_ok_def)
  have uM: "unat PyHASH_MODULUS = 2 ^ 61 - 1" by (simp add: PyHASH_MODULUS_def)
  have step: "hash_step x d = (if ?s \<ge> PyHASH_MODULUS then ?s - PyHASH_MODULUS else ?s)"
    by (simp add: hash_step_def PyHASH_BITS_def Let_def)
  have "unat (hash_step x d) = (?lo * 2 ^ 30 + ?hi + unat d) mod (2 ^ 61 - 1)"
  proof (cases "?s \<ge> PyHASH_MODULUS")
    case True
    then have "unat (hash_step x d) = ?lo * 2 ^ 30 + ?hi + unat d - (2 ^ 61 - 1)"
      by (simp only: step if_True unat_sub [OF True] s uM)
    moreover have "?lo * 2 ^ 30 + ?hi + unat d - (2 ^ 61 - 1) < 2 ^ 61 - 1"
      using rlt d by (simp add: digit_ok_def)
    moreover have "2 ^ 61 - 1 \<le> ?lo * 2 ^ 30 + ?hi + unat d"
      using True s uM by (simp only: word_le_nat_alt)
    ultimately show ?thesis by (metis le_mod_geq mod_less)
  next
    case False
    then have "?lo * 2 ^ 30 + ?hi + unat d < 2 ^ 61 - 1" using s uM by (simp only: word_le_nat_alt not_le)
    then show ?thesis using False s step by (simp only: if_False mod_less)
  qed
  also have "\<dots> = (unat x * 2 ^ 30 + unat d) mod (2 ^ 61 - 1)"
  proof -
    have "unat x * 2 ^ 30 + unat d = ?lo * 2 ^ 30 + ?hi + unat d + (2 ^ 61 - 1) * ?hi"
      by (rule rotation_value [OF xs])
    then show ?thesis by (simp only: mod_mult_self2)
  qed
  finally show e: "unat (hash_step x d) = (unat x * 2 ^ 30 + unat d) mod (2 ^ 61 - 1)" .
  show "unat (hash_step x d) < 2 ^ 61 - 1" unfolding e by simp
qed

lemma hash_fold_correct:
  assumes "list_all digit_ok ds" and "unat x < 2 ^ 61 - 1"
  shows "unat (fold (\<lambda>d x. hash_step x d) ds x) = (dval (rev ds) + 2 ^ (30 * length ds) * unat x) mod (2 ^ 61 - 1)"
  using assms
proof (induction ds arbitrary: x)
  case (Cons d ds)
  then have ok: "digit_ok d" "list_all digit_ok ds" by simp_all
  note h = hash_step_correct [OF Cons.prems(2) ok(1)]
  have "unat (fold (\<lambda>d x. hash_step x d) (d # ds) x) =
      (dval (rev ds) + 2 ^ (30 * length ds) * ((unat x * 2 ^ 30 + unat d) mod (2 ^ 61 - 1))) mod (2 ^ 61 - 1)"
    using Cons.IH [OF ok(2) h(2)] h(1) by simp
  also have "\<dots> = (dval (rev ds) + 2 ^ (30 * length ds) * (unat x * 2 ^ 30 + unat d)) mod (2 ^ 61 - 1)"
    by (metis mod_add_right_eq mod_mult_right_eq)
  finally show ?case unfolding accum_value .
qed simp

lemma sint_word_of_int_64:
  fixes i :: int
  assumes "- (2 ^ 63) \<le> i" and "i < 2 ^ 63"
  shows "sint (word_of_int i :: 64 word) = i"
proof -
  have "sint (word_of_int i :: 64 word) = signed_take_bit 63 i" by (simp add: signed_of_int)
  also have "\<dots> = i" using assms by (rule signed_take_bit_int_eq_self)
  finally show ?thesis .
qed

lemma long_hash_correct:
  assumes wf: "wf_long v"
  defines "h \<equiv> sgn (long_val v) * (\<bar>long_val v\<bar> mod (2 ^ 61 - 1))"
  shows "long_hash v = (if h = -1 then -2 else h)"
proof -
  let ?a = "\<bar>long_val v\<bar>" and ?M = "2 ^ 61 - 1 :: int"
  consider (small) "ob_size v = 1 \<or> ob_size v = -1" | (zero) "ob_size v = 0"
    | (big) "ob_size v \<noteq> 1" "ob_size v \<noteq> -1" "ob_size v \<noteq> 0" by blast
  then show ?thesis
  proof cases
    case small
    note o = one_digit_cases [OF wf small]
    have am: "?a mod ?M = ?a" using o(3) by (intro mod_pos_pos_trivial) simp_all
    have "ob_digit v ! 0 = 1 \<longleftrightarrow> ?a = 1" using o(2) by (metis uint_1 word_uint_eq_iff)
    moreover have "sgn (long_val v) = ob_size v"
      using small long_val_sign [OF wf] by (auto simp: sgn_if)
    ultimately show ?thesis using small o(1,2) am by (auto simp: long_hash_def h_def)
  next
    case zero
    then show ?thesis using long_val_0_iff [OF wf] by (simp add: long_hash_def h_def)
  next
    case big
    let ?x = "fold (\<lambda>d x. hash_step x d) (rev (digits v)) 0"
    have sg: "(if ob_size v < 0 then -1 else 1) = sgn (long_val v)"
      "(if ob_size v < 0 then -1 else 1 :: 64 word) = word_of_int (sgn (long_val v))"
      using big long_val_sign [OF wf] by (auto simp: sgn_if)
    have "unat ?x = dval (digits v) mod (2 ^ 61 - 1)"
      using hash_fold_correct [of "rev (digits v)" 0] wf_long_digits(1) [OF wf] by simp
    then have "int (unat ?x) = ?a mod ?M"
      unfolding abs_long_val by (simp add: zmod_int del: of_nat_unat)
    then have x: "?x = word_of_int (?a mod ?M)" by (metis of_nat_unat word_of_int_uint)
    have hb: "- (2 ^ 63) \<le> h" "h < 2 ^ 63"
      unfolding h_def using pos_mod_bound [of ?M ?a] pos_mod_sign [of ?M ?a] by (auto simp: sgn_if)
    have xs: "?x * word_of_int (sgn (long_val v)) = word_of_int h"
      unfolding x h_def by (simp add: mult.commute)
    have "(word_of_int h :: 64 word) = -1 \<longleftrightarrow> h = -1"
      using sint_word_of_int_64 [OF hb] by (metis of_int_1 of_int_minus sint_n1)
    then show ?thesis
      using big sint_word_of_int_64 [OF hb] by (simp add: long_hash_def sg(2) xs Let_def)
  qed
qed

section \<open>Properties\<close>

text \<open>
  C10: The conversion to a C \<open>long\<close> is exact and its overflow flag is exact: it returns the
  value and 0 when the value is in range, and \<open>-1\<close> with the sign of the value as the flag
  otherwise, although it only looks for bits lost by shifting and for the one negative value
  whose magnitude does not fit.
\<close>

theorem AsLongAndOverflow_exact:
  assumes "wf_long v"
  shows "PyLong_AsLongAndOverflow v =
    (if - (2 ^ 63) \<le> long_val v \<and> long_val v < 2 ^ 63 then (long_val v, 0)
     else (-1, sgn (long_val v)))"
  using PyLong_AsLongAndOverflow_correct [OF assms] by (auto simp: LONG_MIN_def LONG_MAX_def)

lemma AsLongAndOverflow_exact_witness:
  "PyLong_AsLongAndOverflow two_digits = (- 3221225479, 0)"
  using AsLongAndOverflow_exact [OF samples_wf(1)] by (simp add: samples_val)

text \<open>
  C11: Conversion round trip: the integer object made from a C \<open>long\<close> is well-formed and converts
  back to it, and its masked conversion is the value modulo \<open>2\<^sup>6\<^sup>4\<close>.
\<close>

theorem C_long_roundtrip:
  assumes "- (2 ^ 63) \<le> i" and "i < 2 ^ 63"
  shows "\<exists>v. PyLong_FromLong i = Inr v \<and> wf_long v \<and> PyLong_AsLong v = Inr i \<and>
    PyLong_AsUnsignedLongMask v = word_of_int i"
proof -
  obtain v where v: "PyLong_FromLong i = Inr v" "wf_long v" "long_val v = i"
    using PyLong_FromLongE [OF assms] by blast
  then show ?thesis
    using assms PyLong_AsLong_correct [OF v(2)] PyLong_AsUnsignedLongMask_correct [OF v(2)]
    by (simp add: LONG_MIN_def LONG_MAX_def)
qed

lemma C_long_roundtrip_witness:
  "\<exists>v. PyLong_FromLong (- 9223372036854775808) = Inr v \<and> PyLong_AsLong v = Inr (- 9223372036854775808)"
  using C_long_roundtrip [of "- 9223372036854775808"] by auto

text \<open>
  C15: The hash of an integer is its value modulo \<open>2\<^sup>6\<^sup>1 - 1\<close> with the sign of the value, except
  that \<open>-1\<close> becomes \<open>-2\<close>: the rotations of the loop compute that residue. Hence integers
  with equal values have equal hashes.
\<close>

theorem long_hash_is_residue:
  assumes "wf_long v"
  shows "long_hash v =
    (let h = sgn (long_val v) * (\<bar>long_val v\<bar> mod (2 ^ 61 - 1)) in if h = -1 then -2 else h)"
  using long_hash_correct [OF assms] by (simp add: Let_def)

lemma long_hash_is_residue_witness: "long_hash two_digits = - 3221225479"
  using long_hash_is_residue [OF samples_wf(1)] by (simp add: samples_val)

text \<open>
  The number of bits of a non-zero integer is the \<open>k\<close> with \<open>2\<^sup>k\<^sup>-\<^sup>1 \<le> |v| < 2\<^sup>k\<close>; when \<open>k\<close>
  does not fit into a \<open>size_t\<close> the result is \<open>OverflowError\<close> instead of a wrapped number.
\<close>

theorem NumBits_exact:
  assumes "wf_long v" and "long_val v \<noteq> 0"
  shows "\<exists>k. \<bar>long_val v\<bar> < 2 ^ k \<and> 2 ^ k \<le> 2 * \<bar>long_val v\<bar> \<and>
    PyLong_NumBits v = (if k < 2 ^ 64 then Inr (of_nat k) else Inl OverflowError)"
  using PyLong_NumBits_cases [OF assms] by blast

lemma NumBits_exact_witness: "\<exists>k. PyLong_NumBits two_digits = Inr (of_nat k) \<and> 2 ^ k \<le> (6442450958 :: int)"
proof -
  obtain k where k: "2 ^ k \<le> (6442450958 :: int)"
    "PyLong_NumBits two_digits = (if k < 2 ^ 64 then Inr (of_nat k) else Inl OverflowError)"
    using NumBits_exact [OF samples_wf(1)] by (auto simp: samples_val)
  then have "(2 :: int) ^ k < 2 ^ 33" by simp
  then have "k < 33" by (rule power_less_imp_less_exp [rotated]) simp
  with k show ?thesis by auto
qed

end
