(* ===== verification/PyLongDiv.thy ===== *)
theory PyLongDiv
  imports PyLongConv PyLongMul
begin

text \<open>
  Division of integer objects: the digit vector shifts, division by one digit
  (\<open>inplace_divrem1\<close>, \<open>divrem1\<close>), Knuth's algorithm D (\<open>x_divrem\<close>), the truncating
  \<open>long_divrem\<close> and the flooring \<open>l_divmod\<close> with its fast paths, of \<open>Objects/longobject.c\<close>.
  The loops that run from the most significant digit work on the reversed digit list. The
  signed accumulators of the inner loop (\<open>sdigit\<close>, \<open>stwodigits\<close>) are integers.
\<close>

lemma uint_unat: "uint w = int (unat w)"
  by simp

lemma digit_ok_uint: "digit_ok d \<Longrightarrow> uint d < 2 ^ 30"
proof -
  assume "digit_ok d"
  then have "int (unat d) < int (2 ^ 30)" unfolding digit_ok_def by (simp only: of_nat_less_iff)
  then show ?thesis by simp
qed

section \<open>Shifting digit vectors\<close>

fun v_lshift_loop :: "nat \<Rightarrow> digit \<Rightarrow> digit list \<Rightarrow> digit list \<times> digit" where
  "v_lshift_loop d carry [] = ([], carry)"
| "v_lshift_loop d carry (a # as) =
     (let acc = push_bit d (ucast a :: twodigits) OR ucast carry;
          (zs, out) = v_lshift_loop d (ucast (drop_bit PyLong_SHIFT acc)) as
      in ((ucast acc AND PyLong_MASK) # zs, out))"

definition v_lshift :: "digit list \<Rightarrow> nat \<Rightarrow> (digit list \<times> digit) pyres" where
  "v_lshift as d = rbind (c_assert (d < PyLong_SHIFT)) (\<lambda>_. Inr (v_lshift_loop d 0 as))"

text \<open>From the top: the list and the result are reversed.\<close>

fun v_rshift_loop :: "nat \<Rightarrow> digit \<Rightarrow> digit list \<Rightarrow> digit list \<times> digit" where
  "v_rshift_loop d carry [] = ([], carry)"
| "v_rshift_loop d carry (a # as) =
     (let acc = push_bit PyLong_SHIFT (ucast carry :: twodigits) OR ucast a;
          (zs, out) = v_rshift_loop d (ucast acc AND (push_bit d 1 - 1)) as
      in (ucast (drop_bit d acc) # zs, out))"

definition v_rshift :: "digit list \<Rightarrow> nat \<Rightarrow> (digit list \<times> digit) pyres" where
  "v_rshift as d =
     rbind (c_assert (d < PyLong_SHIFT)) (\<lambda>_.
       let (zs, carry) = v_rshift_loop d 0 (rev as) in Inr (rev zs, carry))"

section \<open>Dividing by one digit\<close>

fun divrem1_loop :: "digit \<Rightarrow> twodigits \<Rightarrow> digit list \<Rightarrow> digit list \<times> twodigits" where
  "divrem1_loop n rem [] = ([], rem)"
| "divrem1_loop n rem (a # as) =
     (let rem = push_bit PyLong_SHIFT rem OR ucast a;
          hi = ucast (rem div ucast n) :: digit;
          rem = rem - ucast hi * ucast n;
          (zs, out) = divrem1_loop n rem as
      in (hi # zs, out))"

definition inplace_divrem1 :: "digit list \<Rightarrow> digit \<Rightarrow> (digit list \<times> digit) pyres" where
  "inplace_divrem1 pin n =
     rbind (c_assert (n > 0 \<and> n \<le> PyLong_MASK)) (\<lambda>_.
       let (zs, rem) = divrem1_loop n 0 (rev pin) in Inr (rev zs, ucast rem))"

definition divrem1 :: "pylong \<Rightarrow> digit \<Rightarrow> (pylong \<times> digit) pyres" where
  "divrem1 a n =
     rbind (c_assert (n > 0 \<and> n \<le> PyLong_MASK)) (\<lambda>_.
     rbind (PyLong_New (int (nd a))) (\<lambda>z.
     rbind (inplace_divrem1 (digits a) n) (\<lambda>(ds, rem).
       Inr (long_normalize (z\<lparr>ob_digit := ds\<rparr>), rem))))"

section \<open>Algorithm D\<close>

text \<open>
  The estimate of a quotient digit is lowered while the second digit of the divisor says it is
  too large. Each round lowers \<open>q\<close>, which is positive when the test holds.
\<close>

function qhat_loop :: "digit \<Rightarrow> digit \<Rightarrow> digit \<Rightarrow> digit \<Rightarrow> digit \<Rightarrow> digit \<times> digit" where
  "qhat_loop wm1 wm2 u q r =
     (if (ucast wm2 :: twodigits) * ucast q > (push_bit PyLong_SHIFT (ucast r) OR ucast u) then
        let q = q - 1;
            r = r + wm1
        in if r \<ge> PyLong_BASE then (q, r) else qhat_loop wm1 wm2 u q r
      else (q, r))"
  by pat_completeness auto
termination
proof (relation "measure (\<lambda>(_, _, _, q, _). unat q)", goal_cases)
  case (2 wm1 wm2 u q r q' r')
  from 2(1) have "q \<noteq> 0" by auto
  then have "0 < unat q" by (simp add: unat_gt_0)
  then have "unat (q - 1) < unat q" by (simp add: unat_minus_one unat_gt_0)
  then show ?case using 2(2) by simp
qed simp

declare qhat_loop.simps [simp del]

text \<open>\<open>vk[0:size_w] - q * w0[0:size_w]\<close>; the last component is the signed carry \<open>zhi\<close>.\<close>

fun mulsub_loop :: "digit \<Rightarrow> int \<Rightarrow> digit list \<Rightarrow> digit list \<Rightarrow> digit list \<times> int" where
  "mulsub_loop q zhi (v # vs) (w # ws) =
     (let z = sint v + zhi - uint q * uint w;
          (ds, out) = mulsub_loop q (signed_take_bit 31 (drop_bit PyLong_SHIFT z)) vs ws
      in ((word_of_int z AND PyLong_MASK) # ds, out))"
| "mulsub_loop q zhi vs ws = ([], zhi)"

fun addback_loop :: "digit \<Rightarrow> digit list \<Rightarrow> digit list \<Rightarrow> digit list" where
  "addback_loop carry (v # vs) (w # ws) =
     (let carry = carry + (v + w)
      in (carry AND PyLong_MASK) # addback_loop (drop_bit PyLong_SHIFT carry) vs ws)"
| "addback_loop carry vs ws = []"

text \<open>One round: \<open>vk[0:size_w+1]\<close> by \<open>w0[0:size_w]\<close>; the remainder goes to \<open>vk[0:size_w]\<close>.\<close>

definition x_divrem_step :: "digit list \<Rightarrow> digit list \<Rightarrow> (digit \<times> digit list) pyres" where
  "x_divrem_step w0 vk =
     (let size_w = length w0;
          wm1 = w0 ! (size_w - 1);
          wm2 = w0 ! (size_w - 2);
          vtop = vk ! size_w
      in rbind (c_assert (vtop \<le> wm1)) (\<lambda>_.
         let vv = push_bit PyLong_SHIFT (ucast vtop :: twodigits) OR ucast (vk ! (size_w - 1));
             q = ucast (vv div ucast wm1) :: digit;
             r = ucast (vv - ucast wm1 * ucast q) :: digit;
             (q, r) = qhat_loop wm1 wm2 (vk ! (size_w - 2)) q r
         in rbind (c_assert (q \<le> PyLong_BASE)) (\<lambda>_.
            let (ds, zhi) = mulsub_loop q 0 (take size_w vk) w0
            in rbind (c_assert (sint vtop + zhi = -1 \<or> sint vtop + zhi = 0)) (\<lambda>_.
               let (q, ds) = (if sint vtop + zhi < 0 then (q - 1, addback_loop 0 ds w0) else (q, ds))
               in rbind (c_assert (q < PyLong_BASE)) (\<lambda>_. Inr (q, ds))))))"

text \<open>The rounds \<open>j = k - 1, \<dots>, 0\<close>; the quotient digits and the final contents of \<open>v\<close>.\<close>

fun x_divrem_loop :: "digit list \<Rightarrow> nat \<Rightarrow> digit list \<Rightarrow> (digit list \<times> digit list) pyres" where
  "x_divrem_loop w0 0 v = Inr ([], v)"
| "x_divrem_loop w0 (Suc j) v =
     rbind (x_divrem_step w0 (take (length w0 + 1) (drop j v))) (\<lambda>(q, ds).
     rbind (x_divrem_loop w0 j (array_write v j ds)) (\<lambda>(qs, v). Inr (qs @ [q], v)))"

definition x_divrem :: "pylong \<Rightarrow> pylong \<Rightarrow> (pylong \<times> pylong) pyres" where
  "x_divrem v1 w1 =
     (let size_v = nd v1; size_w = nd w1
      in rbind (c_assert (size_w \<le> size_v \<and> 2 \<le> size_w)) (\<lambda>_.
         rbind (PyLong_New (int size_v + 1)) (\<lambda>v.
         rbind (PyLong_New (int size_w)) (\<lambda>w.
         let d = PyLong_SHIFT - bit_length_digit (ob_digit w1 ! (size_w - 1))
         in rbind (v_lshift (digits w1) d) (\<lambda>(w0, carry).
            rbind (c_assert (carry = 0)) (\<lambda>_.
            rbind (v_lshift (digits v1) d) (\<lambda>(v0, carry).
              let (v0, size_v) =
                    (if carry \<noteq> 0 \<or> v0 ! (size_v - 1) \<ge> w0 ! (size_w - 1) then (v0 @ [carry], size_v + 1)
                     else (v0 @ [uninit_digit], size_v))
              in rbind (c_assert (size_w \<le> size_v)) (\<lambda>_.
                 let k = size_v - size_w
                 in rbind (PyLong_New (int k)) (\<lambda>a.
                    rbind (x_divrem_loop w0 k v0) (\<lambda>(qs, v0).
                    rbind (v_rshift (take size_w v0) d) (\<lambda>(rs, carry).
                    rbind (c_assert (carry = 0)) (\<lambda>_.
                      Inr (long_normalize (a\<lparr>ob_digit := qs\<rparr>),
                           long_normalize (w\<lparr>ob_digit := rs\<rparr>))))))))))))))"

section \<open>Signed division\<close>

definition long_divrem :: "pylong \<Rightarrow> pylong \<Rightarrow> (pylong \<times> pylong) pyres" where
  "long_divrem a b =
     (let size_a = nd a; size_b = nd b
      in if size_b = 0 then Inl ZeroDivisionError
         else if size_a < size_b \<or>
                 (size_a = size_b \<and> ob_digit a ! (size_a - 1) < ob_digit b ! (size_b - 1)) then
           Inr (PyLong_Zero, long_long a)
         else
           rbind (if size_b = 1 then
                    rbind (divrem1 a (ob_digit b ! 0)) (\<lambda>(z, rem).
                    rbind (PyLong_FromLong (uint rem)) (\<lambda>prem. Inr (z, prem)))
                  else x_divrem a b) (\<lambda>(z, prem).
           rbind (if (ob_size a < 0) \<noteq> (ob_size b < 0) then PyLong_Negate z else Inr z) (\<lambda>z.
           rbind (if ob_size a < 0 \<and> ob_size prem \<noteq> 0 then PyLong_Negate prem else Inr prem) (\<lambda>prem.
             Inr (maybe_small_long z, prem)))))"

definition fast_mod :: "pylong \<Rightarrow> pylong \<Rightarrow> pylong pyres" where
  "fast_mod a b =
     (let left = sint (ob_digit a ! 0);
          right = sint (ob_digit b ! 0)
      in rbind (c_assert (nd a = 1)) (\<lambda>_.
         rbind (c_assert (nd b = 1)) (\<lambda>_.
           let md = (if ob_size a = ob_size b then c_mod left right
                     else right - 1 - c_mod (left - 1) right)
           in PyLong_FromLong (md * ob_size b))))"

definition fast_floor_div :: "pylong \<Rightarrow> pylong \<Rightarrow> pylong pyres" where
  "fast_floor_div a b =
     (let left = sint (ob_digit a ! 0);
          right = sint (ob_digit b ! 0)
      in rbind (c_assert (nd a = 1)) (\<lambda>_.
         rbind (c_assert (nd b = 1)) (\<lambda>_.
           let dv = (if ob_size a = ob_size b then c_div left right
                     else -1 - c_div (left - 1) right)
           in PyLong_FromLong dv)))"

definition l_divmod :: "pylong \<Rightarrow> pylong \<Rightarrow> (pylong \<times> pylong) pyres" where
  "l_divmod v w =
     (if nd v = 1 \<and> nd w = 1 then
        rbind (fast_floor_div v w) (\<lambda>dv. rbind (fast_mod v w) (\<lambda>md. Inr (dv, md)))
      else
        rbind (long_divrem v w) (\<lambda>(dv, md).
          if (ob_size md < 0 \<and> ob_size w > 0) \<or> (ob_size md > 0 \<and> ob_size w < 0) then
            rbind (long_add md w) (\<lambda>md.
            rbind (long_sub dv PyLong_One) (\<lambda>dv. Inr (dv, md)))
          else Inr (dv, md)))"

definition long_div :: "pylong \<Rightarrow> pylong \<Rightarrow> pylong pyres" where
  "long_div a b =
     (if nd a = 1 \<and> nd b = 1 then fast_floor_div a b
      else rbind (l_divmod a b) (\<lambda>(dv, _). Inr dv))"

definition long_mod :: "pylong \<Rightarrow> pylong \<Rightarrow> pylong pyres" where
  "long_mod a b =
     (if nd a = 1 \<and> nd b = 1 then fast_mod a b
      else rbind (l_divmod a b) (\<lambda>(_, md). Inr md))"

section \<open>The top-down loops\<close>

lemma v_lshift_loop_correct:
  assumes "list_all digit_ok as" and "d < 30" and "unat carry < 2 ^ d"
  shows "\<exists>zs out. v_lshift_loop d carry as = (zs, out) \<and> length zs = length as \<and> list_all digit_ok zs \<and>
    unat out < 2 ^ d \<and> dval zs + 2 ^ (30 * length as) * unat out = 2 ^ d * dval as + unat carry"
  using assms(1,3)
proof (induction as arbitrary: carry)
  case (Cons a as)
  let ?acc = "push_bit d (ucast a :: twodigits) OR ucast carry"
  have ok: "digit_ok a" "list_all digit_ok as" using Cons.prems by simp_all
  have ua: "unat (ucast a :: twodigits) = unat a" and uc: "unat (ucast carry :: twodigits) = unat carry"
    by (simp_all add: unat_ucast_up)
  have d2: "(2::nat) ^ d \<le> 2 ^ 30" using assms(2) by (intro power_increasing) simp_all
  have "unat a * 2 ^ d \<le> 2 ^ 30 * 2 ^ 30"
    using ok(1) d2 by (intro mult_le_mono) (simp_all add: digit_ok_def)
  then have p: "unat (push_bit d (ucast a :: twodigits)) = unat a * 2 ^ d"
    using ua by (subst unat_push_bit_small) simp_all
  have acc: "unat ?acc = unat a * 2 ^ d + unat carry"
    using unat_or_disjoint [OF p, of "ucast carry"] Cons.prems(2) uc p by simp
  have top: "unat a * 2 ^ d + unat carry < 2 ^ d * 2 ^ 30"
  proof -
    have "unat a * 2 ^ d + unat carry < Suc (unat a) * 2 ^ d" using Cons.prems(2) by simp
    also have "\<dots> \<le> 2 ^ 30 * 2 ^ d" using ok(1) by (intro mult_le_mono1) (simp add: digit_ok_def)
    finally show ?thesis by (simp add: mult.commute)
  qed
  let ?c = "ucast (drop_bit 30 ?acc) :: digit"
  have dr: "unat (drop_bit 30 ?acc) = (unat a * 2 ^ d + unat carry) div 2 ^ 30"
    unfolding unat_drop_bit_div acc ..
  have c0: "(unat a * 2 ^ d + unat carry) div 2 ^ 30 < 2 ^ d"
    using top by (intro less_mult_imp_div_less)
  then have "unat (drop_bit 30 ?acc) < 2 ^ LENGTH(32)" unfolding dr using d2 by simp
  then have c: "unat ?c = (unat a * 2 ^ d + unat carry) div 2 ^ 30"
    unfolding dr [symmetric] by (rule unat_ucast_small)
  then have c_lt: "unat ?c < 2 ^ d" using c0 by simp
  obtain zs out where r: "v_lshift_loop d ?c as = (zs, out)" "length zs = length as" "list_all digit_ok zs"
    "unat out < 2 ^ d" "dval zs + 2 ^ (30 * length as) * unat out = 2 ^ d * dval as + unat ?c"
    using Cons.IH [OF ok(2) c_lt] by blast
  have dg: "unat (ucast ?acc AND PyLong_MASK :: digit) = (unat a * 2 ^ d + unat carry) mod 2 ^ 30"
    by (simp add: unsigned_ucast_eq take_bit_eq_mod acc mod_mod_cancel)
  have "dval ((ucast ?acc AND PyLong_MASK) # zs) + 2 ^ (30 * length (a # as)) * unat out =
      (unat a * 2 ^ d + unat carry) mod 2 ^ 30 + 2 ^ 30 * (dval zs + 2 ^ (30 * length as) * unat out)"
    unfolding dval.simps dg by (simp add: power_add algebra_simps)
  also have "\<dots> = unat a * 2 ^ d + unat carry + 2 ^ 30 * (2 ^ d * dval as)"
    unfolding r(5) c split_nat_30 ..
  also have "\<dots> = 2 ^ d * dval (a # as) + unat carry"
    by (simp add: algebra_simps)
  finally show ?case using r by (simp add: Let_def del: dval.simps)
qed simp

lemma top_down_value:
  "dval (rev (d # ds)) + 2 ^ (30 * length (d # ds)) * x =
    dval (rev ds) + 2 ^ (30 * length ds) * (x * 2 ^ 30 + unat d)"
  by (rule accum_value)

lemma unat_shift_in_digit:
  fixes x :: twodigits and a :: digit
  assumes "digit_ok a" and "unat x < 2 ^ 30"
  shows "unat (push_bit 30 x OR ucast a) = unat x * 2 ^ 30 + unat a"
  using assms by (intro unat_shift_in) simp_all

lemma v_rshift_loop_correct:
  assumes "list_all digit_ok as" and "d < 30" and "unat carry < 2 ^ d"
  shows "\<exists>zs out. v_rshift_loop d carry as = (zs, out) \<and> length zs = length as \<and> list_all digit_ok zs \<and>
    unat out < 2 ^ d \<and>
    2 ^ d * dval (rev zs) + unat out = dval (rev as) + 2 ^ (30 * length as) * unat carry"
  using assms(1,3)
proof (induction as arbitrary: carry)
  case (Cons a as)
  let ?acc = "push_bit 30 (ucast carry :: twodigits) OR ucast a"
  have ok: "digit_ok a" "list_all digit_ok as" using Cons.prems by simp_all
  have d2: "(2::nat) ^ d \<le> 2 ^ 30" using assms(2) by (intro power_increasing) simp_all
  have uc: "unat (ucast carry :: twodigits) = unat carry" by (simp add: unat_ucast_up)
  have acc: "unat ?acc = unat carry * 2 ^ 30 + unat a"
    using unat_shift_in_digit [OF ok(1), of "ucast carry"] uc Cons.prems(2) d2 by simp
  let ?v = "unat carry * 2 ^ 30 + unat a"
  have "push_bit d 1 - 1 = (mask d :: digit)" by (simp add: mask_eq_exp_minus_1 push_bit_eq_mult)
  then have "unat (ucast ?acc AND (push_bit d 1 - 1) :: digit) = unat (ucast ?acc :: digit) mod 2 ^ d"
    by (simp only: unat_and_mask)
  also have "\<dots> = ?v mod 2 ^ 32 mod 2 ^ d"
    by (simp add: unsigned_ucast_eq take_bit_eq_mod acc)
  also have "\<dots> = ?v mod 2 ^ d"
    using assms(2) by (intro mod_mod_cancel le_imp_power_dvd) simp
  finally have c: "unat (ucast ?acc AND (push_bit d 1 - 1) :: digit) = ?v mod 2 ^ d" .
  then have c_lt: "unat (ucast ?acc AND (push_bit d 1 - 1) :: digit) < 2 ^ d" by simp
  have "?v < 2 ^ d * 2 ^ 30"
  proof -
    have "?v < Suc (unat carry) * 2 ^ 30" using ok(1) by (simp add: digit_ok_def)
    also have "\<dots> \<le> 2 ^ d * 2 ^ 30" using Cons.prems(2) by (intro mult_le_mono1) simp
    finally show ?thesis .
  qed
  then have "?v div 2 ^ d < 2 ^ 30" by (intro less_mult_imp_div_less) (simp add: mult.commute)
  moreover have dr: "unat (drop_bit d ?acc) = ?v div 2 ^ d" unfolding unat_drop_bit_div acc ..
  ultimately have lt: "unat (drop_bit d ?acc) < 2 ^ 30" by simp
  then have "unat (drop_bit d ?acc) < 2 ^ LENGTH(32)" by (simp del: drop_bit_or)
  then have z: "unat (ucast (drop_bit d ?acc) :: digit) = ?v div 2 ^ d"
    unfolding dr [symmetric] by (rule unat_ucast_small)
  then have z_ok: "digit_ok (ucast (drop_bit d ?acc))"
    unfolding digit_ok_def using lt dr by simp
  obtain zs out where r: "v_rshift_loop d (ucast ?acc AND (push_bit d 1 - 1)) as = (zs, out)"
    "length zs = length as" "list_all digit_ok zs" "unat out < 2 ^ d"
    "2 ^ d * dval (rev zs) + unat out = dval (rev as) + 2 ^ (30 * length as) * (?v mod 2 ^ d)"
    using Cons.IH [OF ok(2) c_lt] unfolding c by blast
  have "2 ^ d * dval (rev (ucast (drop_bit d ?acc) # zs)) + unat out =
      (2 ^ d * dval (rev zs) + unat out) + 2 ^ (30 * length as) * (2 ^ d * (?v div 2 ^ d))"
    using r(2) z by (simp add: dval_append algebra_simps del: drop_bit_or)
  also have "\<dots> = dval (rev as) + 2 ^ (30 * length as) * ?v"
    unfolding r(5) by (simp only: add.assoc distrib_left [symmetric] mod_mult_div_eq)
  finally show ?case unfolding top_down_value using r z_ok by (simp add: Let_def del: drop_bit_or)
qed simp

lemma divrem1_loop_correct:
  assumes "list_all digit_ok as" and n: "0 < unat n" "digit_ok n" and "unat rem < unat n"
  shows "\<exists>zs out. divrem1_loop n rem as = (zs, out) \<and> length zs = length as \<and> list_all digit_ok zs \<and>
    unat out < unat n \<and>
    unat n * dval (rev zs) + unat out = dval (rev as) + 2 ^ (30 * length as) * unat rem"
  using assms(1,4)
proof (induction as arbitrary: rem)
  case (Cons a as)
  let ?acc = "push_bit 30 rem OR ucast a"
  let ?hi = "ucast (?acc div ucast n) :: digit"
  have ok: "digit_ok a" "list_all digit_ok as" using Cons.prems by simp_all
  have un: "unat (ucast n :: twodigits) = unat n" by (simp add: unat_ucast_up)
  have rlt: "unat rem < 2 ^ 30" using Cons.prems(2) n(2) by (simp add: digit_ok_def)
  have acc: "unat ?acc = unat rem * 2 ^ 30 + unat a" by (rule unat_shift_in_digit [OF ok(1) rlt])
  let ?v = "unat rem * 2 ^ 30 + unat a"
  have "?v < unat n * 2 ^ 30"
  proof -
    have "?v < Suc (unat rem) * 2 ^ 30" using ok(1) by (simp add: digit_ok_def)
    also have "\<dots> \<le> unat n * 2 ^ 30" using Cons.prems(2) by (intro mult_le_mono1) simp
    finally show ?thesis .
  qed
  then have q: "?v div unat n < 2 ^ 30" by (intro less_mult_imp_div_less) (simp add: mult.commute)
  have hi: "unat ?hi = ?v div unat n"
    using q by (subst unat_ucast_small) (simp_all add: unat_div un acc)
  have hi_ok: "digit_ok ?hi" using hi q by (simp add: digit_ok_def)
  have hi64: "unat (ucast ?hi :: twodigits) = ?v div unat n" using hi by (simp add: unat_ucast_up)
  have "(?v div unat n) * unat n \<le> ?v" by simp
  also have "?v < 2 ^ LENGTH(64)" unfolding acc [symmetric] by (rule unsigned_less)
  finally have prod: "unat (ucast ?hi * ucast n :: twodigits) = (?v div unat n) * unat n"
    using hi64 un by (metis unat_mult_small)
  have r': "unat (?acc - ucast ?hi * ucast n) = ?v mod unat n"
    using prod acc by (subst unat_sub) (simp_all add: word_le_nat_alt minus_div_mult_eq_mod)
  then have r_lt: "unat (?acc - ucast ?hi * ucast n) < unat n" using n(1) by simp
  obtain zs out where r: "divrem1_loop n (?acc - ucast ?hi * ucast n) as = (zs, out)"
    "length zs = length as" "list_all digit_ok zs" "unat out < unat n"
    "unat n * dval (rev zs) + unat out = dval (rev as) + 2 ^ (30 * length as) * (?v mod unat n)"
    using Cons.IH [OF ok(2) r_lt] unfolding r' by blast
  have "unat n * dval (rev (?hi # zs)) + unat out =
      (unat n * dval (rev zs) + unat out) + 2 ^ (30 * length as) * (unat n * (?v div unat n))"
    using r(2) hi by (simp add: dval_append algebra_simps)
  also have "\<dots> = dval (rev as) + 2 ^ (30 * length as) * ?v"
    unfolding r(5) by (simp only: add.assoc distrib_left [symmetric] mod_mult_div_eq)
  finally show ?case unfolding top_down_value
    using r hi_ok by (simp add: Let_def)
qed simp

section \<open>The quotient digit estimate\<close>

text \<open>
  The dividend \<open>U\<close> starts with the digits of \<open>V\<close> and \<open>u\<close>, the divisor \<open>W\<close> with \<open>w1\<close> and \<open>w2\<close>.
  An estimate \<open>q\<close> with remainder \<open>r\<close> of \<open>V\<close> by \<open>w1\<close> is too large when \<open>w2\<close> fails the test,
  never too small, and at most one too large when the test passes.
\<close>

lemma qhat_too_large:
  fixes B P :: nat
  assumes W: "W = (w1 * B + w2) * P + W'" and U: "U = (V * B + u) * P + U'" "U' < P"
    and V: "q * w1 + r = V" and test: "r * B + u < w2 * q"
  shows "U < q * W"
proof -
  have "U < (V * B + u + 1) * P" using U by simp
  also have "\<dots> \<le> (q * w1 * B + w2 * q) * P"
    using V test by (intro mult_le_mono1) (simp add: algebra_simps flip: V)
  also have "\<dots> \<le> q * W" unfolding W by (simp add: algebra_simps)
  finally show ?thesis .
qed

lemma qhat_not_too_small:
  fixes B P :: nat
  assumes W: "W = (w1 * B + w2) * P + W'" and U: "U = (V * B + u) * P + U'" "U' < P" and "u < B"
    and V: "q * w1 + r = V" "r < w1"
  shows "U < (q + 1) * W"
proof -
  have "U < (V * B + u + 1) * P" using U by simp
  also have "\<dots> \<le> ((V + 1) * B) * P" using assms(4) by (intro mult_le_mono1) simp
  also have "\<dots> \<le> ((q + 1) * w1 * B) * P" using V by (intro mult_le_mono1) simp
  also have "\<dots> \<le> (q + 1) * W" unfolding W by (simp add: algebra_simps)
  finally show ?thesis .
qed

lemma qhat_one_too_large:
  fixes B P :: nat
  assumes W: "W = (w1 * B + w2) * P + W'" "W' < P" and U: "U = (V * B + u) * P + U'"
    and V: "q * w1 + r = V" and test: "w2 * q \<le> r * B + u" and q: "q \<le> w1 * B"
  shows "q * W \<le> U + W"
proof -
  have "q * W = (q * w1 * B + w2 * q) * P + q * W'" unfolding W by (simp add: algebra_simps)
  also have "\<dots> \<le> (q * w1 * B + (r * B + u)) * P + (w1 * B) * P"
    using test q W(2) by (intro add_mono mult_le_mono) simp_all
  also have "(q * w1 * B + (r * B + u)) * P = (V * B + u) * P"
    unfolding V [symmetric] by (simp add: algebra_simps)
  also have "(V * B + u) * P + (w1 * B) * P \<le> U + W" unfolding U W by (simp add: algebra_simps)
  finally show ?thesis .
qed

lemma unat_minus_1: "q \<noteq> 0 \<Longrightarrow> unat (q - 1 :: digit) = unat q - 1"
  by (simp add: unat_minus_one)

text \<open>The estimate after the loop.\<close>

lemma qhat_loop_correct:
  fixes q r wm1 wm2 u :: digit and P :: nat
  assumes W: "W = (unat wm1 * 2 ^ 30 + unat wm2) * P + W'" "W' < P"
    and U: "U = (V * 2 ^ 30 + unat u) * P + U'" "U' < P"
    and ok: "digit_ok wm1" "digit_ok wm2" "digit_ok u" "2 ^ 29 \<le> unat wm1"
    and "unat q * unat wm1 + unat r = V" "unat r < 2 ^ 30" "U < (unat q + 1) * W" "unat q \<le> 2 ^ 30 + 1"
  shows "\<exists>q' r'. qhat_loop wm1 wm2 u q r = (q', r') \<and> U < (unat q' + 1) * W \<and>
    unat q' * W \<le> U + W \<and> unat q' \<le> 2 ^ 30 + 1"
  using assms(9-)
proof (induction "unat q" arbitrary: q r rule: less_induct)
  case less
  note prems = less.prems
  let ?w1 = "unat wm1" and ?w2 = "unat wm2"
  have up: "unat (ucast wm2 :: twodigits) = ?w2" "unat (ucast q :: twodigits) = unat q"
    "unat (ucast r :: twodigits) = unat r" by (simp_all add: unat_ucast_up)
  have w2: "?w2 \<le> 2 ^ 30 - 1" using ok(2) by (simp add: digit_ok_def)
  have "?w2 * unat q \<le> (2 ^ 30 - 1) * (2 ^ 30 + 1)" using w2 prems(4) by (rule mult_le_mono)
  then have lhs: "unat (ucast wm2 * ucast q :: twodigits) = ?w2 * unat q"
    using up by (subst unat_mult_small) simp_all
  have rhs: "unat (push_bit 30 (ucast r) OR ucast u :: twodigits) = unat r * 2 ^ 30 + unat u"
    using unat_shift_in_digit [OF ok(3), of "ucast r"] up(3) prems(2) by simp
  have test: "(ucast wm2 :: twodigits) * ucast q > (push_bit 30 (ucast r) OR ucast u) \<longleftrightarrow>
      unat r * 2 ^ 30 + unat u < ?w2 * unat q"
    unfolding word_less_nat_alt lhs rhs ..
  have small: "n \<le> 2 ^ 30 + 1 \<Longrightarrow> n \<le> ?w1 * 2 ^ 30" for n
    using mult_le_mono1 [OF ok(4), of "2 ^ 30"] by simp
  show ?case
  proof (cases "unat r * 2 ^ 30 + unat u < ?w2 * unat q")
    case False
    then have "unat q * W \<le> U + W"
      using small [OF prems(4)] by (intro qhat_one_too_large [OF W U(1) prems(1)]) simp_all
    moreover have "qhat_loop wm1 wm2 u q r = (q, r)"
      using False test by (simp add: qhat_loop.simps [of wm1 wm2 u q r])
    ultimately show ?thesis using prems(3,4) by blast
  next
    case True
    then have q0: "q \<noteq> 0" by auto
    then have q1: "unat (q - 1) = unat q - 1" and qpos: "0 < unat q"
      by (simp_all add: unat_minus_1 unat_gt_0)
    have r1: "unat (r + wm1) = unat r + ?w1"
      using prems(2) ok(1) by (intro unat_add_small) (simp add: digit_ok_def)
    obtain k where k: "unat q = Suc k" using qpos by (cases "unat q") auto
    have V1: "unat (q - 1) * ?w1 + unat (r + wm1) = V"
      using prems(1) unfolding q1 r1 k by simp
    have lt: "U < (unat (q - 1) + 1) * W"
      using qhat_too_large [OF W(1) U prems(1) True] unfolding q1 k by simp
    have le: "unat (q - 1) \<le> 2 ^ 30 + 1" "unat (q - 1) \<le> 2 ^ 30" using prems(4) q1 qpos by simp_all
    show ?thesis
    proof (cases "r + wm1 \<ge> PyLong_BASE")
      case big: True
      then have rb: "2 ^ 30 \<le> unat (r + wm1)" by (simp add: word_le_nat_alt unat_PyLong_BASE)
      have "?w2 * unat (q - 1) \<le> (2 ^ 30 - 1) * 2 ^ 30" using w2 le(2) by (rule mult_le_mono)
      also have "\<dots> \<le> 2 ^ 30 * 2 ^ 30" by simp
      also have "\<dots> \<le> unat (r + wm1) * 2 ^ 30" using rb by (rule mult_le_mono1)
      finally have "?w2 * unat (q - 1) \<le> unat (r + wm1) * 2 ^ 30 + unat u" by simp
      then have "unat (q - 1) * W \<le> U + W"
        using small [OF le(1)] by (intro qhat_one_too_large [OF W U(1) V1])
      moreover have "qhat_loop wm1 wm2 u q r = (q - 1, r + wm1)"
        using True test big by (simp add: qhat_loop.simps [of wm1 wm2 u q r] Let_def)
      ultimately show ?thesis using lt le(1) by blast
    next
      case False
      then have "unat (r + wm1) < 2 ^ 30" by (simp add: word_le_nat_alt unat_PyLong_BASE)
      moreover have "qhat_loop wm1 wm2 u q r = qhat_loop wm1 wm2 u (q - 1) (r + wm1)"
        using True test False by (simp add: qhat_loop.simps [of wm1 wm2 u q r] Let_def)
      moreover have "unat (q - 1) < unat q" using q1 qpos by simp
      ultimately show ?thesis using less.hyps [of "q - 1" "r + wm1"] V1 lt le(1) by simp
    qed
  qed
qed

section \<open>Multiply, subtract and add back\<close>

lemma word_of_int_and_MASK:
  "unat (word_of_int z AND PyLong_MASK :: digit) = nat (z mod 2 ^ 30)" "digit_ok (word_of_int z AND PyLong_MASK)"
proof -
  have "uint (word_of_int z AND PyLong_MASK :: digit) = int (unat (word_of_int z :: digit) mod 2 ^ 30)"
    unfolding uint_unat unat_and_MASK ..
  also have "\<dots> = uint (word_of_int z :: digit) mod 2 ^ 30" by (simp add: zmod_int)
  also have "\<dots> = z mod 2 ^ 32 mod 2 ^ 30" by (simp add: unsigned_of_int take_bit_eq_mod)
  also have "\<dots> = z mod 2 ^ 30" by (intro mod_mod_cancel) simp
  finally show "unat (word_of_int z AND PyLong_MASK :: digit) = nat (z mod 2 ^ 30)"
    unfolding uint_unat by linarith
qed simp

lemma mulsub_loop_correct:
  assumes "list_all digit_ok vs" and "list_all digit_ok ws" and "length vs = length ws"
    and "unat q \<le> 2 ^ 30 + 1" and "- uint q \<le> zhi" and "zhi \<le> 0"
  shows "\<exists>ds out. mulsub_loop q zhi vs ws = (ds, out) \<and> length ds = length ws \<and> list_all digit_ok ds \<and>
    int (dval ds) + 2 ^ (30 * length ws) * out = int (dval vs) + zhi - uint q * int (dval ws)"
  using assms(1-3,5,6)
proof (induction ws arbitrary: vs zhi)
  case Nil
  then show ?case by simp
next
  case (Cons w ws)
  then obtain v vs' where vs: "vs = v # vs'" by (cases vs) auto
  have ok: "digit_ok v" "digit_ok w" using Cons.prems vs by simp_all
  then have ub: "uint v < 2 ^ 30" "uint w \<le> 2 ^ 30 - 1"
    using digit_ok_uint [of v] digit_ok_uint [of w] by simp_all
  have "int (unat q) \<le> int (2 ^ 30 + 1)" using assms(4) by (simp only: of_nat_le_iff)
  then have uq: "uint q \<le> 2 ^ 30 + 1" "0 \<le> uint q" by simp_all
  let ?z = "sint v + zhi - uint q * uint w"
  have sv: "sint v = uint v" using sint_digit [OF ok(1)] by simp
  have "uint q * uint w \<le> uint q * (2 ^ 30 - 1)" using ub uq by (intro mult_left_mono)
  then have "uint q * uint w \<le> uint q * 2 ^ 30 - uint q" by (simp only: right_diff_distrib mult_1_right)
  moreover have "0 \<le> uint v" "0 \<le> uint q * uint w" by simp_all
  ultimately have "- (uint q * 2 ^ 30) \<le> ?z" "?z < 2 ^ 30"
    using sv ub(1) Cons.prems(4,5) by linarith+
  then have zr: "- uint q * 2 ^ 30 \<le> ?z" "?z < 2 ^ 30" by simp_all
  have "- uint q = (- uint q * 2 ^ 30) div 2 ^ 30" by simp
  also have "\<dots> \<le> ?z div 2 ^ 30" using zr(1) by (intro zdiv_mono1) simp_all
  finally have h1: "- uint q \<le> ?z div 2 ^ 30" .
  have h2: "?z div 2 ^ 30 \<le> 0" using zr(2) zdiv_mono1 [of ?z "2 ^ 30 - 1" "2 ^ 30"] by simp
  have zhi: "signed_take_bit 31 (drop_bit 30 ?z) = ?z div 2 ^ 30"
    using h1 h2 uq(1) unfolding drop_bit_eq_div by (intro signed_take_bit_int_eq_self) simp_all
  obtain ds out where r: "mulsub_loop q (?z div 2 ^ 30) vs' ws = (ds, out)" "length ds = length ws"
    "list_all digit_ok ds"
    "int (dval ds) + 2 ^ (30 * length ws) * out = int (dval vs') + ?z div 2 ^ 30 - uint q * int (dval ws)"
    using Cons.IH [OF _ _ _ h1 h2, of vs'] Cons.prems vs by auto
  have m: "int (nat (?z mod 2 ^ 30)) = ?z mod 2 ^ 30" by simp
  have "int (dval ((word_of_int ?z AND PyLong_MASK) # ds)) + 2 ^ (30 * length (w # ws)) * out =
      ?z mod 2 ^ 30 + 2 ^ 30 * (int (dval ds) + 2 ^ (30 * length ws) * out)"
    unfolding dval.simps word_of_int_and_MASK(1) of_nat_add m by (simp add: power_add algebra_simps)
  also have "\<dots> = (?z mod 2 ^ 30 + 2 ^ 30 * (?z div 2 ^ 30)) + 2 ^ 30 * (int (dval vs') - uint q * int (dval ws))"
    unfolding r(4) by (simp only: algebra_simps)
  also have "\<dots> = ?z + 2 ^ 30 * (int (dval vs') - uint q * int (dval ws))" by simp
  also have "\<dots> = int (dval vs) + zhi - uint q * int (dval (w # ws))"
    using sv vs by (simp add: algebra_simps)
  finally show ?case using r vs zhi word_of_int_and_MASK(2) by (simp add: Let_def del: dval.simps)
qed

lemma addback_loop_correct:
  assumes "list_all digit_ok vs" and "list_all digit_ok ws" and "length vs = length ws" and "unat c \<le> 1"
  shows "\<exists>out. length (addback_loop c vs ws) = length ws \<and> list_all digit_ok (addback_loop c vs ws) \<and>
    dval (addback_loop c vs ws) + 2 ^ (30 * length ws) * out = unat c + dval vs + dval ws"
  using assms
proof (induction ws arbitrary: vs c)
  case Nil
  then show ?case by (intro exI [of _ "unat c"]) simp
next
  case (Cons w ws)
  then obtain v vs' where vs: "vs = v # vs'" by (cases vs) auto
  have ok: "digit_ok v" "digit_ok w" using Cons.prems vs by simp_all
  let ?s = "c + (v + w)"
  note s = unat_column2 [OF ok Cons.prems(4)]
  note st = carry_step [OF s(2)]
  obtain out where r: "length (addback_loop (drop_bit 30 ?s) vs' ws) = length ws"
    "list_all digit_ok (addback_loop (drop_bit 30 ?s) vs' ws)"
    "dval (addback_loop (drop_bit 30 ?s) vs' ws) + 2 ^ (30 * length ws) * out =
      unat (drop_bit 30 ?s) + dval vs' + dval ws"
    using Cons.IH [OF _ _ _ st(2), of vs'] Cons.prems vs by auto
  have "dval (addback_loop c vs (w # ws)) + 2 ^ (30 * length (w # ws)) * out =
      unat (?s AND PyLong_MASK) + 2 ^ 30 * (dval (addback_loop (drop_bit 30 ?s) vs' ws) + 2 ^ (30 * length ws) * out)"
    using vs by (simp add: Let_def power_add algebra_simps)
  also have "\<dots> = unat ?s + 2 ^ 30 * (dval vs' + dval ws)"
    unfolding r(3) using st(1) by (simp add: algebra_simps del: unat_and_MASK)
  also have "\<dots> = unat c + dval vs + dval (w # ws)" using s(1) vs by simp
  finally have "dval (addback_loop c vs (w # ws)) + 2 ^ (30 * length (w # ws)) * out =
    unat c + dval vs + dval (w # ws)" .
  moreover have "length (addback_loop c vs (w # ws)) = length (w # ws)"
    "list_all digit_ok (addback_loop c vs (w # ws))"
    using r vs by (simp_all add: Let_def)
  ultimately show ?case by blast
qed

section \<open>One round of algorithm D\<close>

lemma dval_top2:
  assumes "length ds = m + 2"
  shows "dval ds = (unat (ds ! (m + 1)) * 2 ^ 30 + unat (ds ! m)) * 2 ^ (30 * m) + dval (take m ds)"
proof -
  have "ds = take m ds @ [ds ! m, ds ! (m + 1)]"
    using assms by (metis One_nat_def add.commute add_2_eq_Suc add_Suc_right append_take_drop_id
        Cons_nth_drop_Suc drop_all less_add_same_cancel1 lessI order_refl plus_1_eq_Suc zero_less_numeral)
  then have "dval ds = dval (take m ds @ [ds ! m, ds ! (m + 1)])" by (rule arg_cong)
  also have "\<dots> = dval (take m ds) + 2 ^ (30 * m) * (unat (ds ! m) + 2 ^ 30 * unat (ds ! (m + 1)))"
    using assms by (simp add: dval_append min_def)
  finally show ?thesis by (simp add: algebra_simps)
qed

lemma dval_top1:
  assumes "length ds = n + 1"
  shows "dval ds = dval (take n ds) + 2 ^ (30 * n) * unat (ds ! n)"
proof -
  have "ds = take n ds @ [ds ! n]"
    using assms take_Suc_conv_app_nth [of n ds] by simp
  then have "dval ds = dval (take n ds @ [ds ! n])" by (rule arg_cong)
  then show ?thesis using assms by (simp add: dval_append min_def)
qed

lemma dval_take_bound: "list_all digit_ok ds \<Longrightarrow> m \<le> length ds \<Longrightarrow> dval (take m ds) < 2 ^ (30 * m)"
  using dval_bound [of "take m ds"] by (simp add: list_all_digit_ok_take min.absorb2)

text \<open>The estimate that a round starts from, and the one it uses.\<close>

lemma step_estimate:
  fixes w0 vk :: "digit list"
  assumes len: "length w0 = m + 2" "length vk = m + 3"
    and ok: "list_all digit_ok w0" "list_all digit_ok vk" and norm: "2 ^ 29 \<le> unat (w0 ! (m + 1))"
    and lt: "dval vk < 2 ^ 30 * dval w0"
  defines "wm1 \<equiv> w0 ! (m + 1)" and "wm2 \<equiv> w0 ! m" and "vtop \<equiv> vk ! (m + 2)"
  defines "vv \<equiv> push_bit 30 (ucast vtop :: twodigits) OR ucast (vk ! (m + 1))"
  defines "q \<equiv> ucast (vv div ucast wm1) :: digit"
  shows "vtop \<le> wm1 \<and> (\<exists>q' r'. qhat_loop wm1 wm2 (vk ! m) q (ucast (vv - ucast wm1 * ucast q)) = (q', r') \<and>
    dval vk < (unat q' + 1) * dval w0 \<and> unat q' * dval w0 \<le> dval vk + dval w0 \<and>
    unat q' \<le> 2 ^ 30 + 1)"
proof -
  let ?P = "2 ^ (30 * m) :: nat" and ?W' = "dval (take m w0)" and ?U' = "dval (take m vk)"
  have oks: "digit_ok wm1" "digit_ok wm2" "digit_ok (vk ! m)" "digit_ok (vk ! (m + 1))" "digit_ok vtop"
    using ok len by (simp_all add: wm1_def wm2_def vtop_def list_all_length)
  have W: "dval w0 = (unat wm1 * 2 ^ 30 + unat wm2) * ?P + ?W'"
    using dval_top2 [OF len(1)] by (simp add: wm1_def wm2_def)
  have W': "?W' < ?P" using ok(1) len by (intro dval_take_bound) simp_all
  define V where "V = unat vtop * 2 ^ 30 + unat (vk ! (m + 1))"
  have U: "dval vk = (V * 2 ^ 30 + unat (vk ! m)) * ?P + ?U'"
  proof -
    have "dval vk = dval (take (m + 2) vk) + 2 ^ (30 * (m + 2)) * unat vtop"
      using dval_top1 [of vk "m + 2"] len by (simp add: vtop_def)
    moreover have "dval (take (m + 2) vk) = (unat (vk ! (m + 1)) * 2 ^ 30 + unat (vk ! m)) * ?P + ?U'"
      using dval_top2 [of "take (m + 2) vk" m] len by simp
    moreover have "(2::nat) ^ (30 * (m + 2)) = 2 ^ 30 * 2 ^ 30 * ?P" by (simp add: power_add)
    ultimately show ?thesis unfolding V_def by (simp add: algebra_simps)
  qed
  have U': "?U' < ?P" using ok(2) len by (intro dval_take_bound) simp_all
  have "unat vtop * 2 ^ 30 * 2 ^ 30 * ?P \<le> dval vk" unfolding U V_def by (simp add: algebra_simps)
  also have "\<dots> < 2 ^ 30 * ((unat wm1 * 2 ^ 30 + unat wm2 + 1) * ?P)" using lt W W' by simp
  also have "\<dots> \<le> 2 ^ 30 * ((Suc (unat wm1) * 2 ^ 30) * ?P)"
    using oks(2) by (intro mult_le_mono2 mult_le_mono1) (simp add: digit_ok_def)
  finally have "unat vtop * (2 ^ 30 * 2 ^ 30 * ?P) < Suc (unat wm1) * (2 ^ 30 * 2 ^ 30 * ?P)"
    by (simp add: algebra_simps)
  then have "unat vtop < Suc (unat wm1)" by (simp only: mult_less_cancel2)
  then have top: "unat vtop \<le> unat wm1" by simp
  have pos: "0 < unat wm1" using norm by (simp add: wm1_def)
  have uw: "unat (ucast wm1 :: twodigits) = unat wm1" "unat (ucast vtop :: twodigits) = unat vtop"
    by (simp_all add: unat_ucast_up)
  have vv: "unat vv = V"
    unfolding vv_def V_def using unat_shift_in_digit [OF oks(4), of "ucast vtop"] oks(5) uw
    by (simp add: digit_ok_def)
  have "V < unat wm1 * (2 ^ 30 + 2)"
  proof -
    have "V < unat wm1 * 2 ^ 30 + 2 ^ 30" unfolding V_def using top oks(4) by (simp add: digit_ok_def)
    also have "\<dots> \<le> unat wm1 * (2 ^ 30 + 2)" using norm by (simp add: wm1_def algebra_simps)
    finally show ?thesis .
  qed
  then have q0: "V div unat wm1 < 2 ^ 30 + 2" by (intro less_mult_imp_div_less) (simp add: mult.commute)
  have q: "unat q = V div unat wm1"
    unfolding q_def using q0 by (subst unat_ucast_small) (simp_all add: unat_div vv uw)
  have q64: "unat (ucast q :: twodigits) = V div unat wm1" using q by (simp add: unat_ucast_up)
  have "unat wm1 * (V div unat wm1) \<le> unat vv" unfolding vv by simp
  also have "\<dots> < 2 ^ LENGTH(64)" by (rule unsigned_less)
  finally have prod: "unat (ucast wm1 * ucast q :: twodigits) = unat wm1 * (V div unat wm1)"
    using q64 uw by (metis unat_mult_small)
  have rem: "unat (vv - ucast wm1 * ucast q) = V mod unat wm1"
    using prod vv by (subst unat_sub) (simp_all add: word_le_nat_alt minus_mult_div_eq_mod)
  have rlt: "V mod unat wm1 < unat wm1" using pos by simp
  have r: "unat (ucast (vv - ucast wm1 * ucast q) :: digit) = V mod unat wm1"
    using rem rlt oks(1) by (subst unat_ucast_small) (simp_all add: digit_ok_def)
  have Vq: "unat q * unat wm1 + unat (ucast (vv - ucast wm1 * ucast q) :: digit) = V"
    unfolding q r by simp
  have "dval vk < (unat q + 1) * dval w0"
    using oks(3) rlt r by (intro qhat_not_too_small [OF W U U' _ Vq]) (simp_all add: digit_ok_def)
  moreover have rB: "V mod unat wm1 < 2 ^ 30"
    using rlt oks(1) unfolding digit_ok_def by (rule less_trans)
  ultimately have "\<exists>q' r'. qhat_loop wm1 wm2 (vk ! m) q (ucast (vv - ucast wm1 * ucast q)) = (q', r') \<and>
    dval vk < (unat q' + 1) * dval w0 \<and> unat q' * dval w0 \<le> dval vk + dval w0 \<and>
    unat q' \<le> 2 ^ 30 + 1"
    using oks rB r q q0 norm by (intro qhat_loop_correct [OF W W' U U' oks(1-3) _ Vq])
      (simp_all add: wm1_def digit_ok_def)
  with top show ?thesis by (simp add: word_le_nat_alt)
qed

text \<open>Multiplying, subtracting and, if the estimate was one too large, adding back.\<close>

lemma step_subtract:
  assumes len: "length w0 = n" "length vk = n + 1" and ok: "list_all digit_ok w0" "list_all digit_ok vk"
    and q: "dval vk < (unat q + 1) * dval w0" "unat q * dval w0 \<le> dval vk + dval w0" "unat q \<le> 2 ^ 30 + 1"
    and ms: "mulsub_loop q 0 (take n vk) w0 = (ds, zhi)"
  defines "t \<equiv> sint (vk ! n) + zhi"
  shows "(t = -1 \<and> q \<noteq> 0 \<and> length (addback_loop 0 ds w0) = n \<and> list_all digit_ok (addback_loop 0 ds w0) \<and>
      dval vk = unat (q - 1) * dval w0 + dval (addback_loop 0 ds w0) \<and> dval (addback_loop 0 ds w0) < dval w0) \<or>
    (t = 0 \<and> length ds = n \<and> list_all digit_ok ds \<and> dval vk = unat q * dval w0 + dval ds \<and> dval ds < dval w0)"
proof -
  let ?W = "int (dval w0)" and ?U = "int (dval vk)" and ?B = "2 ^ (30 * n) :: int"
  have lt: "length (take n vk) = length w0" "list_all digit_ok (take n vk)"
    using len ok by (simp_all add: list_all_digit_ok_take)
  obtain ds' out where r: "mulsub_loop q 0 (take n vk) w0 = (ds', out)" "length ds' = n" "list_all digit_ok ds'"
    "int (dval ds') + 2 ^ (30 * n) * out = int (dval (take n vk)) + 0 - uint q * ?W"
    using mulsub_loop_correct [OF lt(2) ok(1) lt(1) q(3), of 0] len by auto
  with ms have ds: "length ds = n" "list_all digit_ok ds"
    "int (dval ds) + ?B * zhi = int (dval (take n vk)) - uint q * ?W" by simp_all
  have "digit_ok (vk ! n)" using ok(2) len by (simp add: list_all_length)
  then have sv: "sint (vk ! n) = int (unat (vk ! n))" by (rule sint_digit)
  have "?U = int (dval (take n vk) + 2 ^ (30 * n) * unat (vk ! n))"
    using dval_top1 [OF len(2)] by simp
  then have "?U = int (dval (take n vk)) + ?B * sint (vk ! n)" unfolding sv by (simp only: of_nat_add of_nat_mult of_nat_power of_nat_numeral)
  then have eq: "?U - uint q * ?W = int (dval ds) + ?B * t"
    using ds(3) unfolding t_def by (simp add: algebra_simps)
  have "int (dval vk) < int ((unat q + 1) * dval w0)" using q(1) by (simp only: of_nat_less_iff)
  then have hi: "?U - uint q * ?W < ?W" by (simp add: algebra_simps)
  have "int (unat q * dval w0) \<le> int (dval vk + dval w0)" using q(2) by (simp only: of_nat_le_iff)
  then have lo: "- ?W \<le> ?U - uint q * ?W" by (simp add: algebra_simps)
  have "dval ds < 2 ^ (30 * n)" "dval w0 < 2 ^ (30 * n)"
    using dval_bound [OF ds(2)] dval_bound [OF ok(1)] ds(1) len(1) by simp_all
  then have b: "int (dval ds) < ?B" "?W < ?B" by (metis of_nat_less_numeral_power_cancel_iff)+
  have "?B * t < ?B * 1" using eq hi b by linarith
  then have t1: "t < 1" by (simp only: mult_less_cancel_left_pos zero_less_power zero_less_numeral)
  have "?B * -2 < ?B * t" using eq lo b by linarith
  then have t2: "-2 < t" by (simp only: mult_less_cancel_left_pos zero_less_power zero_less_numeral)
  consider (neg) "t = -1" | (zero) "t = 0" using t1 t2 by linarith
  then show ?thesis
  proof cases
    case zero
    then have e: "?U = int (unat q * dval w0 + dval ds)" using eq by simp
    then have "dval vk = unat q * dval w0 + dval ds" by (simp only: of_nat_eq_iff)
    moreover have "int (dval ds) < ?W" using eq hi zero by simp
    ultimately show ?thesis using zero ds by simp
  next
    case neg
    let ?d = "addback_loop 0 ds w0"
    obtain out where ab: "length ?d = n" "list_all digit_ok ?d" "dval ?d + 2 ^ (30 * n) * out = dval ds + dval w0"
      using addback_loop_correct [OF ds(2) ok(1), of 0] ds(1) len(1) by auto
    have "?U - uint q * ?W < 0" using eq b neg by simp
    then have "q \<noteq> 0" by auto
    then have "0 < unat q" by (simp add: unat_gt_0)
    then obtain k where k: "unat q = Suc k" by (cases "unat q") auto
    have q1: "unat (q - 1) = k" using unat_minus_1 [OF \<open>q \<noteq> 0\<close>] k by simp
    have uq: "uint q = int k + 1" unfolding uint_unat k by simp
    have "int (dval ?d + 2 ^ (30 * n) * out) = int (dval ds + dval w0)" using ab(3) by (rule arg_cong)
    then have dd: "int (dval ?d) + ?B * int out = int (dval ds) + ?W"
      by (simp only: of_nat_add of_nat_mult of_nat_power of_nat_numeral)
    have e1: "int (dval ?d) = (?U - int k * ?W) - (int out - 1) * ?B"
      using dd eq neg unfolding uq by (simp add: algebra_simps)
    have rng: "0 \<le> ?U - int k * ?W" "?U - int k * ?W < ?W"
      using lo \<open>?U - uint q * ?W < 0\<close> unfolding uq by (simp_all add: algebra_simps)
    have "dval ?d < 2 ^ (30 * n)" using dval_bound [OF ab(2)] ab(1) by simp
    then have "int (dval ?d) < ?B" by (metis of_nat_less_numeral_power_cancel_iff)
    then have e2: "int (dval ?d) = ?U - int k * ?W"
      using less_trans [OF rng(2) b(2)] rng(1) by (intro mod_range_unique [OF e1]) simp_all
    then have "?U = int (k * dval w0 + dval ?d)" by simp
    then have "dval vk = k * dval w0 + dval ?d" by (simp only: of_nat_eq_iff)
    moreover have "dval ?d < dval w0" using e2 rng(2) by simp
    ultimately show ?thesis using neg ab \<open>q \<noteq> 0\<close> q1 by simp
  qed
qed

lemma x_divrem_step_correct:
  assumes len: "length w0 = m + 2" "length vk = m + 3" and ok: "list_all digit_ok w0" "list_all digit_ok vk"
    and norm: "2 ^ 29 \<le> unat (w0 ! (m + 1))" and lt: "dval vk < 2 ^ 30 * dval w0"
  shows "\<exists>q ds. x_divrem_step w0 vk = Inr (q, ds) \<and> digit_ok q \<and> length ds = m + 2 \<and> list_all digit_ok ds \<and>
    dval vk = unat q * dval w0 + dval ds \<and> dval ds < dval w0"
proof -
  let ?wm1 = "w0 ! (m + 1)" and ?wm2 = "w0 ! m" and ?vtop = "vk ! (m + 2)"
  let ?vv = "push_bit 30 (ucast ?vtop :: twodigits) OR ucast (vk ! (m + 1))"
  let ?q0 = "ucast (?vv div ucast ?wm1) :: digit"
  obtain q r where q: "?vtop \<le> ?wm1" "qhat_loop ?wm1 ?wm2 (vk ! m) ?q0 (ucast (?vv - ucast ?wm1 * ucast ?q0)) = (q, r)"
    "dval vk < (unat q + 1) * dval w0" "unat q * dval w0 \<le> dval vk + dval w0" "unat q \<le> 2 ^ 30 + 1"
    using step_estimate [OF len ok norm lt] by blast
  obtain ds zhi where ms: "mulsub_loop q 0 (take (m + 2) vk) w0 = (ds, zhi)" by fastforce
  have len': "length vk = (m + 2) + 1" using len by simp
  note sub = step_subtract [OF len(1) len' ok q(3-5) ms]
  have Wpos: "0 < dval w0" using lt by (cases "dval w0") auto
  have qB: "q \<le> PyLong_BASE"
  proof -
    have "unat q * dval w0 < 2 ^ 30 * dval w0 + dval w0" using q(4) lt by linarith
    then have "unat q * dval w0 < (2 ^ 30 + 1) * dval w0" by (simp only: distrib_right mult_1)
    then have "unat q < 2 ^ 30 + 1" by (simp only: mult_less_cancel2)
    then show ?thesis by (simp add: word_le_nat_alt unat_PyLong_BASE)
  qed
  have small: "q' < PyLong_BASE \<and> digit_ok q'" if "dval vk = unat q' * dval w0 + x" for q' :: digit and x
  proof -
    have "unat q' * dval w0 < 2 ^ 30 * dval w0" using that lt by linarith
    then have "unat q' < 2 ^ 30" by (simp only: mult_less_cancel2)
    then show ?thesis by (simp add: word_less_nat_alt unat_PyLong_BASE digit_ok_def)
  qed
  have idx: "m + 2 - 1 = m + 1" "m + 2 - 2 = m" by simp_all
  have c: "c_assert (?vtop \<le> ?wm1) = Inr ()" "c_assert (q \<le> PyLong_BASE) = Inr ()"
    using q(1) qB by (simp_all add: c_assert_def)
  have S: "x_divrem_step w0 vk =
      (rbind (c_assert (sint ?vtop + zhi = -1 \<or> sint ?vtop + zhi = 0)) (\<lambda>_.
         let (q, ds) = (if sint ?vtop + zhi < 0 then (q - 1, addback_loop 0 ds w0) else (q, ds))
         in rbind (c_assert (q < PyLong_BASE)) (\<lambda>_. Inr (q, ds))))"
    unfolding x_divrem_step_def Let_def len(1) idx PyLong_SHIFT_30 c(1) rbind_simps q(2) prod.case c(2) ms ..
  from sub show ?thesis
  proof
    assume "sint ?vtop + zhi = -1 \<and> q \<noteq> 0 \<and> length (addback_loop 0 ds w0) = m + 2 \<and>
      list_all digit_ok (addback_loop 0 ds w0) \<and>
      dval vk = unat (q - 1) * dval w0 + dval (addback_loop 0 ds w0) \<and> dval (addback_loop 0 ds w0) < dval w0"
    then show ?thesis unfolding S using small [of "q - 1"] by (simp add: c_assert_def)
  next
    assume "sint ?vtop + zhi = 0 \<and> length ds = m + 2 \<and> list_all digit_ok ds \<and>
      dval vk = unat q * dval w0 + dval ds \<and> dval ds < dval w0"
    then show ?thesis unfolding S using small [of q] by (simp add: c_assert_def)
  qed
qed

section \<open>All rounds\<close>

lemma take_array_write: "j + length ds \<le> length v \<Longrightarrow> take (j + length ds) (array_write v j ds) = take j v @ ds"
  by (simp add: array_write_def)

lemma take_add_drop: "take (j + k) v = take j v @ take k (drop j v)"
  by (rule take_add)

lemma x_divrem_loop_correct:
  assumes len: "length w0 = m + 2" and ok: "list_all digit_ok w0" and norm: "2 ^ 29 \<le> unat (w0 ! (m + 1))"
    and "k + (m + 2) \<le> length v" and "list_all digit_ok (take (k + (m + 2)) v)"
    and "dval (take (m + 2) (drop k v)) < dval w0"
  shows "\<exists>qs v'. x_divrem_loop w0 k v = Inr (qs, v') \<and> length qs = k \<and> list_all digit_ok qs \<and>
    m + 2 \<le> length v' \<and> list_all digit_ok (take (m + 2) v') \<and>
    dval (take (k + (m + 2)) v) = dval qs * dval w0 + dval (take (m + 2) v') \<and>
    dval (take (m + 2) v') < dval w0"
  using assms(4-)
proof (induction k arbitrary: v)
  case 0
  then show ?case by simp
next
  case (Suc j)
  let ?n = "m + 2" and ?W = "dval w0"
  let ?vk = "take (?n + 1) (drop j v)"
  have split: "take (Suc j + ?n) v = take j v @ ?vk"
    using take_add_drop [of j "?n + 1" v] by simp
  have okv: "list_all digit_ok (take j v)" "list_all digit_ok ?vk"
    using Suc.prems(2) unfolding split by simp_all
  have lvk: "length ?vk = m + 3" and lj: "length (take j v) = j" using Suc.prems(1) by simp_all
  obtain x where x: "?vk = x # take ?n (drop (Suc j) v)"
    using Suc.prems(1) by (cases "drop j v") (simp_all add: drop_Suc tl_drop [symmetric])
  have "digit_ok x" using okv(2) x by simp
  then have "dval ?vk < 2 ^ 30 + 2 ^ 30 * dval (take ?n (drop (Suc j) v))"
    unfolding x by (simp add: digit_ok_def)
  also have "\<dots> \<le> 2 ^ 30 * ?W"
    using mult_le_mono2 [of "Suc (dval (take ?n (drop (Suc j) v)))" ?W "2 ^ 30"] Suc.prems(3) by simp
  finally have lt: "dval ?vk < 2 ^ 30 * ?W" .
  obtain q ds where st: "x_divrem_step w0 ?vk = Inr (q, ds)" "digit_ok q" "length ds = ?n" "list_all digit_ok ds"
    "dval ?vk = unat q * ?W + dval ds" "dval ds < ?W"
    using x_divrem_step_correct [OF len lvk ok okv(2) norm lt] by blast
  let ?v1 = "array_write v j ds"
  have lv1: "length ?v1 = length v" using Suc.prems(1) st(3) by simp
  have tv1: "take (j + ?n) ?v1 = take j v @ ds"
    using take_array_write [of j ds v] Suc.prems(1) st(3) by simp
  have "take ?n (drop j ?v1) = ds"
    using Suc.prems(1) st(3) by (simp add: array_write_def)
  then obtain qs v' where r: "x_divrem_loop w0 j ?v1 = Inr (qs, v')" "length qs = j" "list_all digit_ok qs"
    "?n \<le> length v'" "list_all digit_ok (take ?n v')"
    "dval (take j v @ ds) = dval qs * ?W + dval (take ?n v')" "dval (take ?n v') < ?W"
    using Suc.IH [of ?v1] Suc.prems(1) lv1 tv1 okv(1) st(4,6) by auto
  have "dval (take (Suc j + ?n) v) = dval (take j v @ ds) + 2 ^ (30 * j) * (unat q * ?W)"
    unfolding split dval_append lj st(5) by (simp add: algebra_simps)
  also have "\<dots> = dval (qs @ [q]) * ?W + dval (take ?n v')"
    unfolding r(6) using r(2) by (simp add: dval_append algebra_simps)
  finally have "dval (take (Suc j + ?n) v) = dval (qs @ [q]) * ?W + dval (take ?n v')" .
  moreover have "x_divrem_loop w0 (Suc j) v = Inr (qs @ [q], v')"
    using st(1) r(1) len by (simp add: add.commute)
  moreover have "length (qs @ [q]) = Suc j" "list_all digit_ok (qs @ [q])" using r(2,3) st(2) by simp_all
  ultimately show ?case using r(4,5,7) by blast
qed

section \<open>Algorithm D as a whole\<close>

lemma v_lshift_loop_0:
  assumes "list_all digit_ok as" and "d < 30"
  shows "\<exists>zs out. v_lshift_loop d 0 as = (zs, out) \<and> length zs = length as \<and> list_all digit_ok zs \<and>
    unat out < 2 ^ d \<and> dval zs + 2 ^ (30 * length as) * unat out = 2 ^ d * dval as"
  using v_lshift_loop_correct [OF assms, of 0] by simp

lemma v_rshift_loop_0:
  assumes "list_all digit_ok as" and "d < 30"
  shows "\<exists>zs out. v_rshift_loop d 0 as = (zs, out) \<and> length zs = length as \<and> list_all digit_ok zs \<and>
    unat out < 2 ^ d \<and> 2 ^ d * dval (rev zs) + unat out = dval (rev as)"
  using v_rshift_loop_correct [OF assms, of 0] by simp

text \<open>The normalising shift makes the top digit of the divisor at least half the base.\<close>

lemma normalize_divisor:
  assumes wf: "wf_long w1" and n: "nd w1 = m + 2"
  defines "d \<equiv> 30 - bit_length_digit (ob_digit w1 ! (m + 1))"
  shows "d < 30 \<and> (\<exists>w0. v_lshift (digits w1) d = Inr (w0, 0) \<and> length w0 = m + 2 \<and> list_all digit_ok w0 \<and>
    dval w0 = 2 ^ d * mag w1 \<and> 2 ^ 29 \<le> unat (w0 ! (m + 1)))"
proof -
  note dw = wf_long_digits [OF wf]
  let ?t = "ob_digit w1 ! (m + 1)"
  have dt: "digits w1 ! (m + 1) = ?t" using n by (simp add: digits_def)
  have "digit_ok (digits w1 ! (m + 1))" using dw(1,2) n by (simp add: list_all_length)
  then have t: "digit_ok ?t" "?t \<noteq> 0" using dt n wf by (simp_all add: wf_long_def)
  note b = bit_length_digit_correct [OF t]
  have d: "d < 30" "d + bit_length_digit ?t = 30" using b(3,4) by (simp_all add: d_def)
  obtain w0 out where r: "v_lshift_loop d 0 (digits w1) = (w0, out)" "length w0 = m + 2" "list_all digit_ok w0"
    "unat out < 2 ^ d" "dval w0 + 2 ^ (30 * (m + 2)) * unat out = 2 ^ d * mag w1"
    using v_lshift_loop_0 [OF dw(1) d(1)] unfolding dw(2) n by blast
  let ?lo = "dval (take (m + 1) (digits w1))"
  have val: "mag w1 = ?lo + 2 ^ (30 * (m + 1)) * unat ?t"
    using dval_top1 [of "digits w1" "m + 1"] dw(2) n dt by simp
  have lo: "?lo < 2 ^ (30 * (m + 1))" using dw(1,2) n by (intro dval_take_bound) simp_all
  have "mag w1 < 2 ^ (30 * (m + 1)) * Suc (unat ?t)" using lo val by simp
  also have "\<dots> \<le> 2 ^ (30 * (m + 1)) * 2 ^ bit_length_digit ?t" using b(1) by (intro mult_le_mono2) simp
  finally have "2 ^ d * mag w1 < 2 ^ d * (2 ^ (30 * (m + 1)) * 2 ^ bit_length_digit ?t)" by simp
  also have "\<dots> = 2 ^ (d + bit_length_digit ?t + 30 * (m + 1))" by (simp add: power_add)
  also have "\<dots> = 2 ^ (30 * (m + 2))" unfolding d(2) by simp
  finally have "2 ^ (30 * (m + 2)) * unat out < 2 ^ (30 * (m + 2)) * 1" using r(5) by linarith
  then have o0: "unat out = 0" by (simp only: nat_mult_less_cancel_disj) simp
  then have out: "out = 0" by (metis unat_eq_zero)
  have v: "dval w0 = 2 ^ d * mag w1" using r(5) o0 by simp
  have "(2 :: nat) ^ 30 = 2 ^ d * 2 ^ bit_length_digit ?t" using d(2) by (metis power_add)
  then have "(2 :: nat) ^ 30 * 2 ^ (30 * (m + 1)) = 2 ^ d * (2 ^ (30 * (m + 1)) * 2 ^ bit_length_digit ?t)"
    by (simp only: ac_simps)
  also have "\<dots> \<le> 2 ^ d * (2 ^ (30 * (m + 1)) * (2 * unat ?t))" using b(2) by simp
  also have "\<dots> \<le> 2 * dval w0" unfolding v val by (simp add: algebra_simps)
  finally have "2 ^ 30 * 2 ^ (30 * (m + 1)) \<le> 2 * dval w0" .
  moreover have "dval w0 < (unat (w0 ! (m + 1)) + 1) * 2 ^ (30 * (m + 1))"
    using dval_top1 [of w0 "m + 1"] dval_take_bound [OF r(3), of "m + 1"] r(2) by simp
  ultimately have "2 ^ 30 * 2 ^ (30 * (m + 1)) < 2 * ((unat (w0 ! (m + 1)) + 1) * 2 ^ (30 * (m + 1)))"
    by linarith
  then have "2 ^ 30 * 2 ^ (30 * (m + 1)) < (2 * (unat (w0 ! (m + 1)) + 1)) * 2 ^ (30 * (m + 1))"
    by (simp only: mult.assoc)
  then have "2 ^ 30 < 2 * (unat (w0 ! (m + 1)) + 1)" by (simp only: mult_less_cancel2)
  then have "2 ^ 29 \<le> unat (w0 ! (m + 1))" by simp
  then show ?thesis using d(1) r(1-3) out v by (simp add: v_lshift_def c_assert_def)
qed

text \<open>The shifted dividend, with the extra digit that makes its top window smaller than the divisor.\<close>

lemma window_less:
  assumes "length ds = m + 2" "list_all digit_ok ds" "length ws = m + 2"
    and "unat (ds ! (m + 1)) < unat (ws ! (m + 1))"
  shows "dval ds < dval ws"
proof -
  have "dval ds < 2 ^ (30 * (m + 1)) + 2 ^ (30 * (m + 1)) * unat (ds ! (m + 1))"
    using dval_top1 [of ds "m + 1"] dval_take_bound [OF assms(2), of "m + 1"] assms(1) by simp
  also have "\<dots> = 2 ^ (30 * (m + 1)) * Suc (unat (ds ! (m + 1)))" by simp
  also have "\<dots> \<le> 2 ^ (30 * (m + 1)) * unat (ws ! (m + 1))" using assms(4) by (intro mult_le_mono2) simp
  also have "\<dots> \<le> dval ws" using dval_top1 [of ws "m + 1"] assms(3) by simp
  finally show ?thesis .
qed

definition dividend_ready :: "nat \<Rightarrow> digit list \<Rightarrow> nat \<Rightarrow> nat \<Rightarrow> digit list \<Rightarrow> bool" where
  "dividend_ready val w0 n sz v \<longleftrightarrow>
     length v = n + 1 \<and> sz \<le> n + 1 \<and> n \<le> sz \<and> list_all digit_ok (take sz v) \<and> dval (take sz v) = val \<and>
     dval (take (length w0) (drop (sz - length w0) v)) < dval w0"

lemma normalize_dividend:
  assumes wf: "wf_long v1" and n: "nd v1 = k + (m + 2)" and d: "d < 30"
    and w0: "length w0 = m + 2" "2 ^ 29 \<le> unat (w0 ! (m + 1))"
  shows "\<exists>v0 c. v_lshift (digits v1) d = Inr (v0, c) \<and>
    (if c \<noteq> 0 \<or> v0 ! (nd v1 - 1) \<ge> w0 ! (m + 1) then dividend_ready (2 ^ d * mag v1) w0 (nd v1) (nd v1 + 1) (v0 @ [c])
     else dividend_ready (2 ^ d * mag v1) w0 (nd v1) (nd v1) (v0 @ [uninit_digit]))"
proof -
  note dv = wf_long_digits [OF wf]
  obtain v0 c where r: "v_lshift_loop d 0 (digits v1) = (v0, c)" "length v0 = nd v1" "list_all digit_ok v0"
    "unat c < 2 ^ d" "dval v0 + 2 ^ (30 * nd v1) * unat c = 2 ^ d * mag v1"
    using v_lshift_loop_0 [OF dv(1) d] unfolding dv(2) by blast
  have d2: "(2 :: nat) ^ d \<le> 2 ^ 29" using d by (intro power_increasing) simp_all
  have "dividend_ready (2 ^ d * mag v1) w0 (nd v1) (nd v1 + 1) (v0 @ [c])"
  proof -
    have c: "unat c < 2 ^ 29" "digit_ok c" using r(4) d2 by (simp_all add: digit_ok_def)
    let ?win = "drop (k + 1) v0 @ [c]"
    have "dval ?win < dval w0"
      using r(2,3) n w0 c by (intro window_less [of _ m]) (simp_all add: list_all_digit_ok_drop nth_append)
    then show ?thesis
      using r(2,3,5) n w0 c by (simp add: dividend_ready_def dval_append)
  qed
  moreover have "dividend_ready (2 ^ d * mag v1) w0 (nd v1) (nd v1) (v0 @ [uninit_digit])"
    if "c = 0" "v0 ! (nd v1 - 1) < w0 ! (m + 1)"
  proof -
    have "unat (drop k v0 ! (m + 1)) < unat (w0 ! (m + 1))"
      using that(2) r(2) n by (simp add: word_less_nat_alt)
    then have "dval (drop k v0) < dval w0"
      using r(2,3) n w0 by (intro window_less [of _ m]) (simp_all add: list_all_digit_ok_drop)
    then show ?thesis
      using r(2,3,5) n w0 that(1) by (simp add: dividend_ready_def)
  qed
  moreover have "v_lshift (digits v1) d = Inr (v0, c)" using r(1) d by (simp add: v_lshift_def c_assert_def)
  ultimately show ?thesis by (metis not_le)
qed

text \<open>The remainder is shifted back; it is a multiple of the shift, so nothing falls out.\<close>

lemma unshift_remainder:
  assumes "list_all digit_ok rs" and "d < 30" and "dval rs = 2 ^ d * x"
  shows "\<exists>zs. v_rshift rs d = Inr (zs, 0) \<and> length zs = length rs \<and> list_all digit_ok zs \<and> dval zs = x"
proof -
  have "list_all digit_ok (rev rs)" using assms(1) by (simp add: list_all_iff)
  then obtain zs out where r: "v_rshift_loop d 0 (rev rs) = (zs, out)" "length zs = length rs"
    "list_all digit_ok zs" "unat out < 2 ^ d" "2 ^ d * dval (rev zs) + unat out = dval rs"
    using v_rshift_loop_0 [OF _ assms(2), of "rev rs"] unfolding length_rev rev_rev_ident by blast
  have "unat out = (2 ^ d * dval (rev zs) + unat out) mod 2 ^ d" using r(4) by simp
  also have "\<dots> = 0" unfolding r(5) assms(3) by simp
  finally have o: "unat out = 0" .
  then have "out = 0" by (metis unat_eq_zero)
  moreover have "dval (rev zs) = x" using r(5) o assms(3) by simp
  moreover have "list_all digit_ok (rev zs)" using r(3) by (simp add: list_all_iff)
  ultimately show ?thesis using r(1,2) assms(2) by (simp add: v_rshift_def c_assert_def)
qed

text \<open>The quotient and remainder of the shifted numbers.\<close>

lemma div_of_scaled:
  fixes q c :: nat
  assumes "c * a = q * (c * b) + r" and "r < c * b" and "0 < c"
  shows "q = a div b" and "r = c * (a mod b)"
proof -
  have pos: "c * b \<noteq> 0" using assms(2) by (metis not_less0)
  have "(c * a) div (c * b) = q + r div (c * b)"
    unfolding assms(1) by (subst add.commute, subst div_mult_self1 [OF pos]) simp
  moreover have "(c * a) mod (c * b) = r mod (c * b)" unfolding assms(1) by simp
  ultimately have "(c * a) div (c * b) = q" "(c * a) mod (c * b) = r" using assms(2) by simp_all
  then show "q = a div b" and "r = c * (a mod b)"
    using assms(3) by (simp_all flip: mult_mod_right)
qed

lemma x_divrem_correct:
  assumes wf: "wf_long v1" "wf_long w1" and n: "nd w1 \<le> nd v1" "2 \<le> nd w1"
    and room: "int (nd v1) + 1 \<le> MAX_LONG_DIGITS"
  shows "\<exists>z r. x_divrem v1 w1 = Inr (z, r) \<and> mag_result (Inr z) (mag v1 div mag w1) \<and>
    mag_result (Inr r) (mag v1 mod mag w1)"
proof -
  obtain m k where m: "nd w1 = m + 2" and k: "nd v1 = k + (m + 2)"
    using n by (metis add.commute le_Suc_ex)
  define d where "d = 30 - bit_length_digit (ob_digit w1 ! (m + 1))"
  obtain w0 where w0: "v_lshift (digits w1) d = Inr (w0, 0)" "length w0 = m + 2" "list_all digit_ok w0"
    "dval w0 = 2 ^ d * mag w1" "2 ^ 29 \<le> unat (w0 ! (m + 1))" and d: "d < 30"
    using normalize_divisor [OF wf(2) m] unfolding d_def by blast
  obtain v0 c where v0: "v_lshift (digits v1) d = Inr (v0, c)"
    "if c \<noteq> 0 \<or> v0 ! (nd v1 - 1) \<ge> w0 ! (m + 1) then dividend_ready (2 ^ d * mag v1) w0 (nd v1) (nd v1 + 1) (v0 @ [c])
     else dividend_ready (2 ^ d * mag v1) w0 (nd v1) (nd v1) (v0 @ [uninit_digit])"
    using normalize_dividend [OF wf(1) k d w0(2,5)] by blast
  obtain v sz where ite: "(if c \<noteq> 0 \<or> v0 ! (nd v1 - 1) \<ge> w0 ! (m + 1) then (v0 @ [c], nd v1 + 1)
      else (v0 @ [uninit_digit], nd v1)) = (v, sz)" and ready: "dividend_ready (2 ^ d * mag v1) w0 (nd v1) sz v"
    using v0(2) by (cases "c \<noteq> 0 \<or> v0 ! (nd v1 - 1) \<ge> w0 ! (m + 1)") auto
  note rd = ready [unfolded dividend_ready_def w0(2)]
  define K where "K = sz - (m + 2)"
  have sz: "sz = K + (m + 2)" using rd k unfolding K_def by linarith
  obtain qs v' where r: "x_divrem_loop w0 K v = Inr (qs, v')" "length qs = K" "list_all digit_ok qs"
    "m + 2 \<le> length v'" "list_all digit_ok (take (m + 2) v')"
    "dval (take (K + (m + 2)) v) = dval qs * dval w0 + dval (take (m + 2) v')"
    "dval (take (m + 2) v') < dval w0"
    using x_divrem_loop_correct [OF w0(2,3,5), of K v] rd unfolding sz by auto
  have "2 ^ d * mag v1 = dval qs * (2 ^ d * mag w1) + dval (take (m + 2) v')"
    using rd r(6) w0(4) unfolding sz by simp
  moreover have "(0 :: nat) < 2 ^ d" by simp
  ultimately have qr: "dval qs = mag v1 div mag w1" "dval (take (m + 2) v') = 2 ^ d * (mag v1 mod mag w1)"
    using div_of_scaled [of "2 ^ d" "mag v1" "dval qs" "mag w1" "dval (take (m + 2) v')"] r(7) w0(4)
    by metis+
  obtain rs where rs: "v_rshift (take (m + 2) v') d = Inr (rs, 0)" "length rs = m + 2" "list_all digit_ok rs"
    "dval rs = mag v1 mod mag w1"
    using unshift_remainder [OF r(5) d qr(2)] r(4) by auto
  have Kmax: "int K \<le> MAX_LONG_DIGITS" and wmax: "int (m + 2) \<le> MAX_LONG_DIGITS"
    using rd room sz k by simp_all
  have idx: "nd w1 - 1 = m + 1" "(length w0) = m + 2" using m w0(2) by simp_all
  have c1: "c_assert (nd w1 \<le> nd v1 \<and> 2 \<le> nd w1) = Inr ()" "c_assert ((0 :: digit) = 0) = Inr ()"
    "c_assert (nd w1 \<le> sz) = Inr ()" using n rd by (simp_all add: c_assert_def)
  have new: "PyLong_New (int (nd v1) + 1) = Inr \<lparr>ob_refcnt = 1, ob_size = int (nd v1) + 1,
      ob_digit = replicate (nat (int (nd v1) + 1)) uninit_digit\<rparr>"
    "PyLong_New (int (nd w1)) = Inr \<lparr>ob_refcnt = 1, ob_size = int (nd w1), ob_digit = replicate (nd w1) uninit_digit\<rparr>"
    "PyLong_New (int K) = Inr \<lparr>ob_refcnt = 1, ob_size = int K, ob_digit = replicate K uninit_digit\<rparr>"
    using room wmax Kmax unfolding m [symmetric] by (simp_all add: PyLong_New_def)
  have szm: "sz - nd w1 = K" using sz m by simp
  have "x_divrem v1 w1 = Inr (long_normalize \<lparr>ob_refcnt = 1, ob_size = int K, ob_digit = qs\<rparr>,
      long_normalize \<lparr>ob_refcnt = 1, ob_size = int (m + 2), ob_digit = rs\<rparr>)"
    unfolding x_divrem_def Let_def c1(1) new rbind_simps PyLong_SHIFT_30 idx(1) d_def [symmetric] w0(1)
      prod.case c1(2) v0(1) ite c1(3) szm r(1) 
    unfolding m rs(1) rbind_simps prod.case c1(2) by simp
  moreover have "mag_result (Inr (long_normalize \<lparr>ob_refcnt = 1, ob_size = int K, ob_digit = qs\<rparr>)) (mag v1 div mag w1)"
    using mag_result_fill [OF r(3,2) Kmax qr(1)] .
  moreover have "mag_result (Inr (long_normalize \<lparr>ob_refcnt = 1, ob_size = int (m + 2), ob_digit = rs\<rparr>)) (mag v1 mod mag w1)"
    using mag_result_fill [OF rs(3,2) wmax rs(4)] .
  ultimately show ?thesis by blast
qed

lemma x_divrem_overflow:
  "nd w1 \<le> nd v1 \<Longrightarrow> 2 \<le> nd w1 \<Longrightarrow> MAX_LONG_DIGITS < int (nd v1) + 1 \<Longrightarrow> x_divrem v1 w1 = Inl OverflowError"
  by (simp add: x_divrem_def PyLong_New_def c_assert_def Let_def)

lemma divrem1_correct:
  assumes wf: "wf_long a" and n: "0 < unat n" "digit_ok n"
  shows "\<exists>z r. divrem1 a n = Inr (z, r) \<and> mag_result (Inr z) (mag a div unat n) \<and> unat r = mag a mod unat n"
proof -
  note da = wf_long_digits [OF wf]
  have "list_all digit_ok (rev (digits a))" using da(1) by (simp add: list_all_iff)
  then obtain zs out where r: "divrem1_loop n 0 (rev (digits a)) = (zs, out)" "length zs = nd a" "list_all digit_ok zs"
    "unat out < unat n" "unat n * dval (rev zs) + unat out = mag a"
    using divrem1_loop_correct [OF _ n, of "rev (digits a)" 0] n(1) da(2) by auto
  have "mag a = unat out + unat n * dval (rev zs)" using r(5) by simp
  then have q: "mag a div unat n = dval (rev zs)" "mag a mod unat n = unat out"
    using r(4) by simp_all
  have "unat n < 2 ^ LENGTH(32)" by (rule unsigned_less)
  with r(4) have "unat out < 2 ^ LENGTH(32)" by (rule less_trans)
  then have u: "unat (ucast out :: digit) = unat out" by (rule unat_ucast_small)
  have c: "n > 0 \<and> n \<le> PyLong_MASK"
    using n by (simp add: word_less_nat_alt word_le_nat_alt digit_ok_def PyLong_MASK_def PyLong_BASE_def)
  have room: "int (nd a) \<le> MAX_LONG_DIGITS" by (rule wf_long_nd_max [OF wf])
  have "list_all digit_ok (rev zs)" using r(3) by (simp add: list_all_iff)
  then have "mag_result (Inr (long_normalize \<lparr>ob_refcnt = 1, ob_size = int (nd a), ob_digit = rev zs\<rparr>)) (mag a div unat n)"
    using r(2) room q(1) by (intro mag_result_fill) simp_all
  moreover have "divrem1 a n = Inr (long_normalize \<lparr>ob_refcnt = 1, ob_size = int (nd a), ob_digit = rev zs\<rparr>, ucast out)"
    using c room r(1) by (simp add: divrem1_def inplace_divrem1_def PyLong_New_def c_assert_def)
  ultimately show ?thesis using q(2) u by simp
qed

section \<open>Truncating division\<close>

lemma mag_less:
  assumes "wf_long a" "wf_long b" "nd b \<noteq> 0"
    and "nd a < nd b \<or> (nd a = nd b \<and> ob_digit a ! (nd a - 1) < ob_digit b ! (nd b - 1))"
  shows "mag a < mag b"
  using assms(4)
proof
  assume "nd a < nd b"
  then show ?thesis by (rule dval_less_length [OF assms(1,2)])
next
  assume eq: "nd a = nd b \<and> ob_digit a ! (nd a - 1) < ob_digit b ! (nd b - 1)"
  note da = wf_long_digits [OF assms(1)] and db = wf_long_digits [OF assms(2)]
  from eq have e: "nd a = nd b" and l: "ob_digit a ! (nd a - 1) < ob_digit b ! (nd b - 1)" by auto
  have "digits a ! (nd b - 1) < digits b ! (nd b - 1)"
    using l [unfolded e] e assms(3) by (simp add: digits_def)
  then show ?thesis
    using dval_less_top [OF da(1) db(1), of "nd b - 1"] da(2) db(2) eq assms(3) by simp
qed

lemma c_div_mod_mag:
  "c_div (long_val a) (long_val b) = sgn (long_val a) * sgn (long_val b) * int (mag a div mag b)"
  "c_mod (long_val a) (long_val b) = sgn (long_val a) * int (mag a mod mag b)"
  by (simp_all add: c_div_def c_mod_def abs_long_val zdiv_int zmod_int)

text \<open>Setting the signs of a quotient and a remainder of magnitudes.\<close>

definition signed_result :: "pylong \<Rightarrow> pylong \<Rightarrow> pylong \<Rightarrow> pylong \<Rightarrow> (pylong \<times> pylong) pyres" where
  "signed_result a b z prem =
     rbind (if (ob_size a < 0) \<noteq> (ob_size b < 0) then PyLong_Negate z else Inr z) (\<lambda>z.
     rbind (if ob_size a < 0 \<and> ob_size prem \<noteq> 0 then PyLong_Negate prem else Inr prem) (\<lambda>prem.
       Inr (maybe_small_long z, prem)))"

lemma sgn_by_ob_size:
  assumes "wf_long a"
  shows "sgn (long_val a) = (if ob_size a < 0 then -1 else if ob_size a = 0 then 0 else 1)"
  using long_val_sign [OF assms] long_val_0_iff [OF assms] by (auto simp: sgn_if)

lemma mag_result_val:
  assumes "mag_result (Inr z) n"
  shows "wf_long z" "long_val z = int n" "fresh_or_small z"
  using assms by (auto simp: mag_result_def long_val_def)

lemma signed_result_correct:
  assumes wf: "wf_long a" "wf_long b" and b0: "ob_size b \<noteq> 0"
    and z: "mag_result (Inr z) (mag a div mag b)" and r: "mag_result (Inr r) (mag a mod mag b)"
  shows "\<exists>dv md. signed_result a b z r = Inr (dv, md) \<and> wf_long dv \<and> wf_long md \<and>
    long_val dv = c_div (long_val a) (long_val b) \<and> long_val md = c_mod (long_val a) (long_val b)"
proof -
  note zv = mag_result_val [OF z] and rv = mag_result_val [OF r]
  have mag0: "ob_size a = 0 \<Longrightarrow> mag a = 0" by (simp add: digits_def nd_def)
  note sg = sgn_by_ob_size [OF wf(1)] sgn_by_ob_size [OF wf(2)]
  have "\<exists>z'. (if (ob_size a < 0) \<noteq> (ob_size b < 0) then PyLong_Negate z else Inr z) = Inr z' \<and> wf_long z' \<and>
      long_val z' = c_div (long_val a) (long_val b)"
    unfolding c_div_mod_mag sg using PyLong_Negate_correct [OF zv(1,3)] zv b0 mag0
    by (cases "ob_size a < 0"; cases "ob_size b < 0"; cases "ob_size a = 0") auto
  then obtain z' where z': "(if (ob_size a < 0) \<noteq> (ob_size b < 0) then PyLong_Negate z else Inr z) = Inr z'"
    "wf_long z'" "long_val z' = c_div (long_val a) (long_val b)" by blast
  have "\<exists>r'. (if ob_size a < 0 \<and> ob_size r \<noteq> 0 then PyLong_Negate r else Inr r) = Inr r' \<and> wf_long r' \<and>
      long_val r' = c_mod (long_val a) (long_val b)"
    unfolding c_div_mod_mag sg using PyLong_Negate_correct [OF rv(1,3)] rv mag0 long_val_0_iff [OF rv(1)]
    by (cases "ob_size a < 0"; cases "ob_size a = 0"; cases "ob_size r = 0") auto
  then obtain r' where r': "(if ob_size a < 0 \<and> ob_size r \<noteq> 0 then PyLong_Negate r else Inr r) = Inr r'"
    "wf_long r'" "long_val r' = c_mod (long_val a) (long_val b)" by blast
  show ?thesis
    using z' r' maybe_small_long_correct [OF z'(2)] by (simp add: signed_result_def)
qed

lemma long_divrem_unfold:
  "long_divrem a b =
     (if nd b = 0 then Inl ZeroDivisionError
      else if nd a < nd b \<or> (nd a = nd b \<and> ob_digit a ! (nd a - 1) < ob_digit b ! (nd b - 1)) then
        Inr (PyLong_Zero, long_long a)
      else
        rbind (if nd b = 1 then
                 rbind (divrem1 a (ob_digit b ! 0)) (\<lambda>(z, rem).
                 rbind (PyLong_FromLong (uint rem)) (\<lambda>prem. Inr (z, prem)))
               else x_divrem a b) (\<lambda>(z, prem). signed_result a b z prem))"
  by (simp only: long_divrem_def signed_result_def Let_def)

lemma mag_result_FromLong:
  assumes "n < 2 ^ 32"
  shows "\<exists>z. PyLong_FromLong (int n) = Inr z \<and> mag_result (Inr z) n"
proof -
  have "int n < int (2 ^ 32)" using assms by (simp only: of_nat_less_iff)
  then have "\<bar>int n\<bar> \<le> 2 ^ 62" by simp
  then obtain z where z: "PyLong_FromLong (int n) = Inr z" "wf_long z" "long_val z = int n"
    by (rule FromLong_within)
  moreover have "0 \<le> ob_size z" using long_val_sign [OF z(2)] z(3) by (simp add: not_less [symmetric])
  moreover from this have "mag z = n" using z(3) by (simp add: long_val_def)
  ultimately show ?thesis using fresh_FromLong [OF z(1)] by (simp add: mag_result_def)
qed

lemma long_divrem_cases:
  assumes wf: "wf_long a" "wf_long b"
  shows "(nd b = 0 \<and> long_divrem a b = Inl ZeroDivisionError) \<or>
    (long_divrem a b = Inl OverflowError \<and> MAX_LONG_DIGITS < int (nd a) + 1) \<or>
    (nd b \<noteq> 0 \<and> (\<exists>dv md. long_divrem a b = Inr (dv, md) \<and> wf_long dv \<and> wf_long md \<and>
      long_val dv = c_div (long_val a) (long_val b) \<and> long_val md = c_mod (long_val a) (long_val b)))"
proof -
  consider (zero) "nd b = 0"
    | (less) "nd b \<noteq> 0" "nd a < nd b \<or> (nd a = nd b \<and> ob_digit a ! (nd a - 1) < ob_digit b ! (nd b - 1))"
    | (one) "nd b = 1" "\<not> (nd a < nd b \<or> (nd a = nd b \<and> ob_digit a ! (nd a - 1) < ob_digit b ! (nd b - 1)))"
    | (big) "2 \<le> nd b" "nd b \<le> nd a" "\<not> (nd a < nd b \<or> (nd a = nd b \<and> ob_digit a ! (nd a - 1) < ob_digit b ! (nd b - 1)))"
    by linarith
  then show ?thesis
  proof cases
    case zero
    then show ?thesis by (simp add: long_divrem_unfold)
  next
    case less
    have "mag a < mag b" by (rule mag_less [OF wf less])
    then have "c_div (long_val a) (long_val b) = 0" "c_mod (long_val a) (long_val b) = long_val a"
      unfolding c_div_mod_mag by (simp_all add: sgn_mult_abs flip: abs_long_val)
    then show ?thesis
      using less PyLong_Zero_correct long_long_correct [OF wf(1)] by (simp add: long_divrem_unfold)
  next
    case one
    have ds: "digits b = [ob_digit b ! 0]" by (rule digits_nd_1 [OF one(1) wf(2)])
    then have ok: "digit_ok (ob_digit b ! 0)" and mb: "mag b = unat (ob_digit b ! 0)"
      using wf_long_digits(1) [OF wf(2)] by simp_all
    have "ob_digit b ! 0 \<noteq> 0" using wf(2) one(1) by (simp add: wf_long_def)
    then have pos: "0 < unat (ob_digit b ! 0)" by (simp add: unat_gt_0)
    obtain z r where zr: "divrem1 a (ob_digit b ! 0) = Inr (z, r)" "mag_result (Inr z) (mag a div mag b)"
      "unat r = mag a mod mag b"
      using divrem1_correct [OF wf(1) pos ok] unfolding mb by blast
    have "unat r < 2 ^ 32" using unsigned_less [of r] by simp
    then obtain p where p: "PyLong_FromLong (uint r) = Inr p" "mag_result (Inr p) (mag a mod mag b)"
      using mag_result_FromLong [of "unat r"] unfolding zr(3) uint_unat by auto
    have "ob_size b \<noteq> 0" using one(1) by (auto simp: nd_def)
    note sr = signed_result_correct [OF wf this zr(2) p(2)]
    have "long_divrem a b = signed_result a b z p"
      unfolding long_divrem_unfold if_not_P [OF one(2)] using one(1) zr(1) p(1) by simp
    then show ?thesis using sr one(1) by simp
  next
    case big
    show ?thesis
    proof (cases "MAX_LONG_DIGITS < int (nd a) + 1")
      case True
      have "long_divrem a b = Inl OverflowError"
        unfolding long_divrem_unfold if_not_P [OF big(3)]
        using big(1) x_divrem_overflow [OF big(2,1) True] by simp
      then show ?thesis using True by simp
    next
      case False
      then obtain z r where zr: "x_divrem a b = Inr (z, r)" "mag_result (Inr z) (mag a div mag b)"
        "mag_result (Inr r) (mag a mod mag b)"
        using x_divrem_correct [OF wf big(2,1)] by auto
      have "ob_size b \<noteq> 0" using big(1) by (auto simp: nd_def)
      note sr = signed_result_correct [OF wf this zr(2,3)]
      have "long_divrem a b = signed_result a b z r"
        unfolding long_divrem_unfold if_not_P [OF big(3)] using big(1) zr(1) by simp
      then show ?thesis using sr big(1) by simp
    qed
  qed
qed

section \<open>Flooring division\<close>

text \<open>The remainder of flooring division has the sign of the divisor.\<close>

lemma floor_from_trunc:
  fixes a b :: int
  assumes "b \<noteq> 0"
  shows "(c_mod a b < 0 \<and> 0 < b \<or> 0 < c_mod a b \<and> b < 0) \<Longrightarrow> a div b = c_div a b - 1 \<and> a mod b = c_mod a b + b"
    and "\<not> (c_mod a b < 0 \<and> 0 < b \<or> 0 < c_mod a b \<and> b < 0) \<Longrightarrow> a div b = c_div a b \<and> a mod b = c_mod a b"
proof -
  have eq: "a = c_div a b * b + c_mod a b" by (simp add: c_div_mod)
  have m: "0 \<le> \<bar>a\<bar> mod \<bar>b\<bar>" "\<bar>a\<bar> mod \<bar>b\<bar> < \<bar>b\<bar>" using assms by simp_all
  have lt: "\<bar>c_mod a b\<bar> < \<bar>b\<bar>"
    using m by (cases "a = 0") (simp_all add: c_mod_def abs_mult assms)
  have uniq: "a div b = q \<and> a mod b = r"
    if "a = b * q + r" "if 0 < b then 0 \<le> r \<and> r < b else b < r \<and> r \<le> 0" for q r
  proof -
    show ?thesis
    proof (cases "0 < b")
      case True
      then show ?thesis using that int_div_pos_eq [of a b q r] int_mod_pos_eq [of a b q r] by simp
    next
      case False
      then show ?thesis using that int_div_neg_eq [of a b q r] int_mod_neg_eq [of a b q r] by simp
    qed
  qed
  show "a div b = c_div a b - 1 \<and> a mod b = c_mod a b + b"
    if "c_mod a b < 0 \<and> 0 < b \<or> 0 < c_mod a b \<and> b < 0"
    using that lt eq by (intro uniq) (auto simp: algebra_simps)
  show "a div b = c_div a b \<and> a mod b = c_mod a b"
    if "\<not> (c_mod a b < 0 \<and> 0 < b \<or> 0 < c_mod a b \<and> b < 0)"
    using that lt eq assms by (intro uniq) (auto simp: algebra_simps)
qed

lemma neg_floor:
  fixes x y :: int
  assumes "0 < x" and "0 < y"
  shows "(- x) div y = -1 - (x - 1) div y" and "(- x) mod y = y - 1 - (x - 1) mod y"
proof -
  have "x - 1 = y * ((x - 1) div y) + (x - 1) mod y" by simp
  then have eq: "- x = y * (-1 - (x - 1) div y) + (y - 1 - (x - 1) mod y)"
    by (simp only: algebra_simps)
  have r: "0 \<le> y - 1 - (x - 1) mod y" "y - 1 - (x - 1) mod y < y"
    using assms pos_mod_bound [of y "x - 1"] pos_mod_sign [of y "x - 1"] by linarith+
  show "(- x) div y = -1 - (x - 1) div y" using eq r by (rule int_div_pos_eq)
  show "(- x) mod y = y - 1 - (x - 1) mod y" using eq r by (rule int_mod_pos_eq)
qed

text \<open>One-digit operands, by sign.\<close>

lemma fast_division_values:
  fixes a b :: int
  assumes "a \<noteq> 0" "b \<noteq> 0"
  shows "a div b = (if sgn a = sgn b then c_div \<bar>a\<bar> \<bar>b\<bar> else -1 - c_div (\<bar>a\<bar> - 1) \<bar>b\<bar>)"
    and "a mod b = (if sgn a = sgn b then c_mod \<bar>a\<bar> \<bar>b\<bar> else \<bar>b\<bar> - 1 - c_mod (\<bar>a\<bar> - 1) \<bar>b\<bar>) * sgn b"
proof -
  have c: "c_div \<bar>a\<bar> \<bar>b\<bar> = \<bar>a\<bar> div \<bar>b\<bar>" "c_mod \<bar>a\<bar> \<bar>b\<bar> = \<bar>a\<bar> mod \<bar>b\<bar>"
    "c_div (\<bar>a\<bar> - 1) \<bar>b\<bar> = (\<bar>a\<bar> - 1) div \<bar>b\<bar>" "c_mod (\<bar>a\<bar> - 1) \<bar>b\<bar> = (\<bar>a\<bar> - 1) mod \<bar>b\<bar>"
    using assms by (simp_all add: c_div_nonneg c_mod_nonneg)
  show "a div b = (if sgn a = sgn b then c_div \<bar>a\<bar> \<bar>b\<bar> else -1 - c_div (\<bar>a\<bar> - 1) \<bar>b\<bar>)"
    and "a mod b = (if sgn a = sgn b then c_mod \<bar>a\<bar> \<bar>b\<bar> else \<bar>b\<bar> - 1 - c_mod (\<bar>a\<bar> - 1) \<bar>b\<bar>) * sgn b"
    unfolding c using assms neg_floor [of a "- b"] neg_floor [of "- a" b]
      div_minus_right [of a b] mod_minus_right [of a b] div_minus_right [of "- a" b] mod_minus_right [of "- a" b]
    by (auto simp: sgn_if abs_if not_less)
qed

lemma abs_div_le:
  fixes a b :: int
  assumes "a \<noteq> 0" "b \<noteq> 0"
  shows "\<bar>a div b\<bar> \<le> \<bar>a\<bar>"
proof -
  have le: "0 \<le> x div \<bar>b\<bar> \<and> x div \<bar>b\<bar> \<le> x" if "0 \<le> x" for x
    using that zdiv_mono2 [of x 1 "\<bar>b\<bar>"] assms(2) by (simp add: pos_imp_zdiv_nonneg_iff)
  show ?thesis
    using fast_division_values(1) [OF assms] le [of "\<bar>a\<bar>"] le [of "\<bar>a\<bar> - 1"] assms
    by (simp add: c_div_nonneg split: if_splits)
qed

lemma fast_paths_correct:
  assumes wf: "wf_long a" "wf_long b" and nd: "nd a = 1" "nd b = 1"
  shows "\<exists>z. fast_floor_div a b = Inr z \<and> wf_long z \<and> long_val z = long_val a div long_val b"
    and "\<exists>z. fast_mod a b = Inr z \<and> wf_long z \<and> long_val z = long_val a mod long_val b"
proof -
  have sz: "ob_size a = 1 \<or> ob_size a = -1" "ob_size b = 1 \<or> ob_size b = -1"
    using nd by (auto simp: nd_def)
  note oa = one_digit_cases [OF wf(1) sz(1)] and ob = one_digit_cases [OF wf(2) sz(2)]
  have nz: "long_val a \<noteq> 0" "long_val b \<noteq> 0"
    using long_val_0_iff [OF wf(1)] long_val_0_iff [OF wf(2)] sz by auto
  have sg: "ob_size a = sgn (long_val a)" "ob_size b = sgn (long_val b)"
    using sz sgn_by_ob_size [OF wf(1)] sgn_by_ob_size [OF wf(2)] by auto
  note v = fast_division_values [OF nz]
  have F: "fast_floor_div a b = PyLong_FromLong (long_val a div long_val b)"
    "fast_mod a b = PyLong_FromLong (long_val a mod long_val b)"
    unfolding fast_floor_div_def fast_mod_def v oa(1) ob(1) sg using nd by (simp_all add: Let_def)
  have "\<bar>long_val a div long_val b\<bar> \<le> \<bar>long_val a\<bar>"
    by (rule abs_div_le [OF nz])
  then have "\<bar>long_val a div long_val b\<bar> \<le> 2 ^ 62" using oa(3) by simp
  then show "\<exists>z. fast_floor_div a b = Inr z \<and> wf_long z \<and> long_val z = long_val a div long_val b"
    unfolding F by (rule FromLong_within) blast
  have "\<bar>long_val a mod long_val b\<bar> < \<bar>long_val b\<bar>" using nz(2) by (rule abs_mod_less)
  then have "\<bar>long_val a mod long_val b\<bar> \<le> 2 ^ 62" using ob(3) by simp
  then show "\<exists>z. fast_mod a b = Inr z \<and> wf_long z \<and> long_val z = long_val a mod long_val b"
    unfolding F by (rule FromLong_within) blast
qed

lemma nd_le_of_val:
  assumes "wf_long z" and "wf_long a" and "\<bar>long_val z\<bar> \<le> \<bar>long_val a\<bar>"
  shows "nd z \<le> nd a"
proof (rule wf_long_nd_le [OF assms(1)])
  have "mag z \<le> mag a" using assms(3) unfolding abs_long_val by simp
  also have "\<dots> < 2 ^ (30 * nd a)" by (rule pre_long_mag [OF wf_long_pre(1) [OF assms(2)]])
  finally show "mag z < 2 ^ (30 * nd a)" .
qed

lemma c_div_mod_abs:
  assumes "b \<noteq> 0"
  shows "\<bar>c_div a b\<bar> \<le> \<bar>a\<bar>" and "\<bar>c_mod a b\<bar> \<le> \<bar>b\<bar>"
proof -
  have "\<bar>a\<bar> div \<bar>b\<bar> \<le> \<bar>a\<bar>" using zdiv_mono2 [of "\<bar>a\<bar>" 1 "\<bar>b\<bar>"] assms by simp
  moreover have "0 \<le> \<bar>a\<bar> div \<bar>b\<bar>" using assms by (simp add: pos_imp_zdiv_nonneg_iff)
  ultimately show "\<bar>c_div a b\<bar> \<le> \<bar>a\<bar>" using assms by (cases "a = 0") (simp_all add: c_div_def abs_mult)
  have "0 \<le> \<bar>a\<bar> mod \<bar>b\<bar>" "\<bar>a\<bar> mod \<bar>b\<bar> < \<bar>b\<bar>" using assms by simp_all
  then show "\<bar>c_mod a b\<bar> \<le> \<bar>b\<bar>" by (cases "a = 0") (simp_all add: c_mod_def abs_mult)
qed

definition divmod_error :: "pyerr \<Rightarrow> pylong \<Rightarrow> pylong \<Rightarrow> bool" where
  "divmod_error e v w \<longleftrightarrow>
     (e = ZeroDivisionError \<and> long_val w = 0) \<or>
     (e = OverflowError \<and> MAX_LONG_DIGITS \<le> int (max (nd v) (nd w)))"

text \<open>The correction step of \<open>l_divmod\<close>, from the laws of addition and subtraction.\<close>

lemma divmod_adjust:
  assumes wf: "wf_long v" "wf_long w" "wf_long dv" "wf_long md" and w0: "long_val w \<noteq> 0"
    and vals: "long_val dv = c_div (long_val v) (long_val w)" "long_val md = c_mod (long_val v) (long_val w)"
  shows "case rbind (long_add md w) (\<lambda>md. rbind (long_sub dv PyLong_One) (\<lambda>dv. Inr (dv, md))) of
      Inr (dv', md') \<Rightarrow> wf_long dv' \<and> wf_long md' \<and> long_val dv' = long_val dv - 1 \<and>
        long_val md' = long_val md + long_val w
    | Inl e \<Rightarrow> divmod_error e v w"
proof -
  have n: "nd dv \<le> nd v" "nd md \<le> nd w"
    using nd_le_of_val [OF wf(3,1)] nd_le_of_val [OF wf(4,2)] c_div_mod_abs [OF w0] vals by simp_all
  have "ob_size w \<noteq> 0" using w0 long_val_0_iff [OF wf(2)] by simp
  then have w1: "1 \<le> nd w" by (simp add: nd_def)
  have err1: "e = OverflowError \<and> MAX_LONG_DIGITS \<le> int (max (nd v) (nd w))" if "long_add md w = Inl e" for e
    using long_add.op_error [OF wf(4,2) that] n by (auto simp: max_def split: if_splits)
  have err2: "e = OverflowError \<and> MAX_LONG_DIGITS \<le> int (max (nd v) (nd w))" if "long_sub dv PyLong_One = Inl e" for e
    using long_sub.op_error [OF wf(3) PyLong_One_correct(1) that] n w1 PyLong_One_correct(3)
    by (auto simp: max_def split: if_splits)
  show ?thesis
  proof (cases "long_add md w")
    case (Inl e)
    then show ?thesis using err1 by (simp add: divmod_error_def)
  next
    case md: (Inr md')
    note m = long_add.op_value [OF wf(4,2) md]
    show ?thesis
    proof (cases "long_sub dv PyLong_One")
      case (Inl e)
      then show ?thesis using md err2 by (simp add: divmod_error_def)
    next
      case (Inr dv')
      then show ?thesis
        using md m long_sub.op_value [OF wf(3) PyLong_One_correct(1) Inr] PyLong_One_correct(2) by simp
    qed
  qed
qed

lemma l_divmod_cases:
  assumes wf: "wf_long v" "wf_long w"
  shows "case l_divmod v w of
      Inr (dv, md) \<Rightarrow> long_val w \<noteq> 0 \<and> wf_long dv \<and> wf_long md \<and>
        long_val dv = long_val v div long_val w \<and> long_val md = long_val v mod long_val w
    | Inl e \<Rightarrow> divmod_error e v w"
proof (cases "nd v = 1 \<and> nd w = 1")
  case True
  then have "long_val w \<noteq> 0" using long_val_0_iff [OF wf(2)] by (auto simp: nd_def)
  moreover obtain dv md where "fast_floor_div v w = Inr dv" "wf_long dv" "long_val dv = long_val v div long_val w"
    "fast_mod v w = Inr md" "wf_long md" "long_val md = long_val v mod long_val w"
    using fast_paths_correct [OF wf] True by blast
  ultimately show ?thesis using True by (simp add: l_divmod_def)
next
  case False
  then have D: "l_divmod v w = rbind (long_divrem v w) (\<lambda>(dv, md).
      if (ob_size md < 0 \<and> ob_size w > 0) \<or> (ob_size md > 0 \<and> ob_size w < 0) then
        rbind (long_add md w) (\<lambda>md. rbind (long_sub dv PyLong_One) (\<lambda>dv. Inr (dv, md)))
      else Inr (dv, md))"
    by (simp only: l_divmod_def if_False)
  from long_divrem_cases [OF wf] show ?thesis
  proof (elim disjE exE conjE)
    assume "nd w = 0" "long_divrem v w = Inl ZeroDivisionError"
    then show ?thesis using D by (simp add: divmod_error_def long_val_nd_0)
  next
    assume "long_divrem v w = Inl OverflowError" "MAX_LONG_DIGITS < int (nd v) + 1"
    then show ?thesis using D by (simp add: divmod_error_def max_def)
  next
    fix dv md
    assume w0: "nd w \<noteq> 0" and eq: "long_divrem v w = Inr (dv, md)" and d: "wf_long dv" "wf_long md"
      and vals: "long_val dv = c_div (long_val v) (long_val w)" "long_val md = c_mod (long_val v) (long_val w)"
    have b0: "long_val w \<noteq> 0" using w0 long_val_0_iff [OF wf(2)] by (auto simp: nd_def)
    have sz: "(ob_size md < 0 \<and> ob_size w > 0) \<or> (ob_size md > 0 \<and> ob_size w < 0) \<longleftrightarrow>
        c_mod (long_val v) (long_val w) < 0 \<and> 0 < long_val w \<or> 0 < c_mod (long_val v) (long_val w) \<and> long_val w < 0"
      using long_val_sign [OF d(2)] long_val_sign [OF wf(2)] vals(2) by simp
    note fl = floor_from_trunc [OF b0, of "long_val v", folded sz]
    show ?thesis
    proof (cases "(ob_size md < 0 \<and> ob_size w > 0) \<or> (ob_size md > 0 \<and> ob_size w < 0)")
      case True
      have "l_divmod v w = rbind (long_add md w) (\<lambda>md. rbind (long_sub dv PyLong_One) (\<lambda>dv. Inr (dv, md)))"
        unfolding D eq rbind_simps prod.case if_P [OF True] ..
      then show ?thesis
        using divmod_adjust [OF wf d b0 vals] fl(1) [OF True] b0 vals by (auto split: sum.splits)
    next
      case False
      have "l_divmod v w = Inr (dv, md)" unfolding D eq rbind_simps prod.case if_not_P [OF False] ..
      then show ?thesis using fl(2) [OF False] b0 vals d by simp
    qed
  qed
qed

lemma long_div_cases:
  assumes wf: "wf_long a" "wf_long b"
  shows "case long_div a b of
      Inr z \<Rightarrow> long_val b \<noteq> 0 \<and> wf_long z \<and> long_val z = long_val a div long_val b
    | Inl e \<Rightarrow> divmod_error e a b"
proof (cases "nd a = 1 \<and> nd b = 1")
  case True
  then have "long_val b \<noteq> 0" using long_val_0_iff [OF wf(2)] by (auto simp: nd_def)
  then show ?thesis using fast_paths_correct(1) [OF wf] True by (auto simp: long_div_def)
next
  case False
  then have "long_div a b = rbind (l_divmod a b) (\<lambda>(dv, _). Inr dv)" by (simp only: long_div_def if_False)
  then show ?thesis using l_divmod_cases [OF wf] by (cases "l_divmod a b") auto
qed

lemma long_mod_cases:
  assumes wf: "wf_long a" "wf_long b"
  shows "case long_mod a b of
      Inr z \<Rightarrow> long_val b \<noteq> 0 \<and> wf_long z \<and> long_val z = long_val a mod long_val b
    | Inl e \<Rightarrow> divmod_error e a b"
proof (cases "nd a = 1 \<and> nd b = 1")
  case True
  then have "long_val b \<noteq> 0" using long_val_0_iff [OF wf(2)] by (auto simp: nd_def)
  then show ?thesis using fast_paths_correct(2) [OF wf] True by (auto simp: long_mod_def)
next
  case False
  then have "long_mod a b = rbind (l_divmod a b) (\<lambda>(_, md). Inr md)" by (simp only: long_mod_def if_False)
  then show ?thesis using l_divmod_cases [OF wf] by (cases "l_divmod a b") auto
qed

section \<open>Properties\<close>

text \<open>
  C5: Knuth's algorithm D is Euclidean division of the magnitudes: for a divisor of at least
  two digits, no longer than the dividend, \<open>x_divrem\<close> returns the quotient and the remainder.
  The quotient digit estimates are at most one too large, the signed carries stay in range,
  the normalising shift loses nothing and shifting the remainder back loses nothing, so none
  of its eight assertions fails.
\<close>

theorem x_divrem_is_euclidean:
  assumes "wf_long a" and "wf_long b" and "2 \<le> nd b" and "nd b \<le> nd a"
    and "int (nd a) + 1 \<le> MAX_LONG_DIGITS"
  shows "\<exists>q r. x_divrem a b = Inr (q, r) \<and> wf_long q \<and> wf_long r \<and>
    \<bar>long_val a\<bar> = long_val q * \<bar>long_val b\<bar> + long_val r \<and> 0 \<le> long_val r \<and> long_val r < \<bar>long_val b\<bar>"
proof -
  obtain q r where qr: "x_divrem a b = Inr (q, r)" "mag_result (Inr q) (mag a div mag b)"
    "mag_result (Inr r) (mag a mod mag b)"
    using x_divrem_correct [OF assms(1,2,4,3,5)] by blast
  note q = mag_result_val [OF qr(2)] and r = mag_result_val [OF qr(3)]
  have "long_val b \<noteq> 0" using assms(2,3) long_val_0_iff by (auto simp: nd_def)
  then have pos: "0 < mag b" using abs_long_val [of b] by simp
  have "int (mag a) = int (mag a div mag b * mag b + mag a mod mag b)" by simp
  then have "\<bar>long_val a\<bar> = long_val q * \<bar>long_val b\<bar> + long_val r"
    unfolding q(2) r(2) abs_long_val by (simp only: of_nat_add of_nat_mult)
  moreover have "long_val r < \<bar>long_val b\<bar>" unfolding r(2) abs_long_val using pos by simp
  ultimately show ?thesis using qr(1) q(1) r(1,2) by simp
qed

lemma x_divrem_is_euclidean_witness:
  "\<exists>q r. x_divrem two_digits two_digits = Inr (q, r) \<and> 3221225479 = long_val q * 3221225479 + long_val r"
  using x_divrem_is_euclidean [OF samples_wf(1,1)]
  by (auto simp: samples_nd samples_val MAX_LONG_DIGITS_val)



end
