(* ===== verification/PyLongShift.thy ===== *)
theory PyLongShift
  imports PyLongDiv
begin

text \<open>
  Shifts of integer objects (\<open>divmod_shift\<close>, \<open>long_rshift1\<close>, \<open>long_rshift\<close>, \<open>long_lshift1\<close>,
  \<open>long_lshift\<close> of \<open>Objects/longobject.c\<close>): a left shift multiplies, a right shift is floor
  division by a power of two, also for negative numbers and for shift counts that no C integer
  holds.
\<close>

section \<open>Definitions\<close>

text \<open>The clipped word shift is larger than any digit count.\<close>

definition WORDSHIFT_CLIP :: int where "WORDSHIFT_CLIP = PY_SSIZE_T_MAX div 4"

definition divmod_shift :: "pylong \<Rightarrow> (int \<times> nat) pyres" where
  "divmod_shift shiftby =
     rbind (c_assert (0 \<le> ob_size shiftby)) (\<lambda>_.
       case PyLong_AsSsize_t shiftby of
         Inr lshiftby \<Rightarrow> Inr (c_div lshiftby (int PyLong_SHIFT), nat (c_mod lshiftby (int PyLong_SHIFT)))
       | Inl e \<Rightarrow>
           rbind (c_assert (e = OverflowError)) (\<lambda>_.
           rbind (divrem1 shiftby (of_nat PyLong_SHIFT)) (\<lambda>(wordshift_obj, remshift).
             case PyLong_AsSsize_t wordshift_obj of
               Inr wordshift \<Rightarrow>
                 if 0 \<le> wordshift \<and> wordshift < WORDSHIFT_CLIP then Inr (wordshift, unat remshift)
                 else Inr (WORDSHIFT_CLIP, 0)
             | Inl _ \<Rightarrow> Inr (WORDSHIFT_CLIP, 0))))"

text \<open>The digits from \<open>wordshift\<close> on; each takes its high bits from the next one.\<close>

fun rshift_digits :: "nat \<Rightarrow> digit list \<Rightarrow> digit list" where
  "rshift_digits remshift [] = []"
| "rshift_digits remshift [x] = [drop_bit remshift x AND (push_bit (PyLong_SHIFT - remshift) 1 - 1)]"
| "rshift_digits remshift (x # y # ys) =
     (let hishift = PyLong_SHIFT - remshift;
          lomask = push_bit hishift 1 - 1;
          himask = PyLong_MASK XOR lomask
      in ((drop_bit remshift x AND lomask) OR (push_bit hishift y AND himask))
           # rshift_digits remshift (y # ys))"

definition long_rshift1_nonneg :: "pylong \<Rightarrow> int \<Rightarrow> nat \<Rightarrow> pylong pyres" where
  "long_rshift1_nonneg a wordshift remshift =
     (let newsize = ob_size a - wordshift
      in if newsize \<le> 0 then PyLong_FromLong 0
         else
           rbind (PyLong_New newsize) (\<lambda>z.
             Inr (maybe_small_long (long_normalize
               (z\<lparr>ob_digit := rshift_digits remshift (drop (nat wordshift) (digits a))\<rparr>)))))"

text \<open>The recursive call for a negative number is on its inverse, which is not negative.\<close>

definition long_rshift1 :: "pylong \<Rightarrow> int \<Rightarrow> nat \<Rightarrow> pylong pyres" where
  "long_rshift1 a wordshift remshift =
     (if ob_size a < 0 then
        rbind (long_invert a) (\<lambda>a1.
        rbind (c_assert (0 \<le> ob_size a1)) (\<lambda>_.
        rbind (long_rshift1_nonneg a1 wordshift remshift) long_invert))
      else long_rshift1_nonneg a wordshift remshift)"

definition long_rshift :: "pylong \<Rightarrow> pylong \<Rightarrow> pylong pyres" where
  "long_rshift a b =
     (if ob_size b < 0 then Inl ValueError
      else if ob_size a = 0 then PyLong_FromLong 0
      else rbind (divmod_shift b) (\<lambda>(wordshift, remshift). long_rshift1 a wordshift remshift))"

definition PyLong_Rshift :: "pylong \<Rightarrow> size_t \<Rightarrow> pylong pyres" where
  "PyLong_Rshift a shiftby =
     (if ob_size a = 0 then PyLong_FromLong 0
      else long_rshift1 a (int (unat shiftby div PyLong_SHIFT)) (unat shiftby mod PyLong_SHIFT))"

fun lshift_digits :: "nat \<Rightarrow> twodigits \<Rightarrow> digit list \<Rightarrow> digit list \<times> twodigits" where
  "lshift_digits remshift accum [] = ([], accum)"
| "lshift_digits remshift accum (a # as) =
     (let accum = accum OR push_bit remshift (ucast a);
          (zs, out) = lshift_digits remshift (drop_bit PyLong_SHIFT accum) as
      in (ucast (accum AND ucast PyLong_MASK) # zs, out))"

definition long_lshift1 :: "pylong \<Rightarrow> int \<Rightarrow> nat \<Rightarrow> pylong pyres" where
  "long_lshift1 a wordshift remshift =
     (let oldsize = nd a;
          newsize = int oldsize + wordshift;
          newsize = (if remshift \<noteq> 0 then newsize + 1 else newsize)
      in rbind (PyLong_New newsize) (\<lambda>z.
         let z = (if ob_size a < 0 then z\<lparr>ob_size := - ob_size z\<rparr> else z);
             (ds, accum) = lshift_digits remshift 0 (digits a)
         in rbind (if remshift \<noteq> 0 then Inr [ucast accum]
                   else rbind (c_assert (accum = 0)) (\<lambda>_. Inr [])) (\<lambda>top.
            Inr (maybe_small_long (long_normalize
              (z\<lparr>ob_digit := replicate (nat wordshift) 0 @ ds @ top\<rparr>))))))"

definition long_lshift :: "pylong \<Rightarrow> pylong \<Rightarrow> pylong pyres" where
  "long_lshift a b =
     (if ob_size b < 0 then Inl ValueError
      else if ob_size a = 0 then PyLong_FromLong 0
      else rbind (divmod_shift b) (\<lambda>(wordshift, remshift). long_lshift1 a wordshift remshift))"

definition PyLong_Lshift :: "pylong \<Rightarrow> size_t \<Rightarrow> pylong pyres" where
  "PyLong_Lshift a shiftby =
     (if ob_size a = 0 then PyLong_FromLong 0
      else long_lshift1 a (int (unat shiftby div PyLong_SHIFT)) (unat shiftby mod PyLong_SHIFT))"

section \<open>Right shift of digits\<close>

lemma lomask_eq: "push_bit h 1 - 1 = (mask h :: digit)"
  by (simp add: mask_eq_exp_minus_1 push_bit_eq_mult)

lemma himask_eq:
  assumes "h + r = 30"
  shows "PyLong_MASK XOR (mask h :: digit) = push_bit h (mask r)"
  by (rule bit_eqI) (use assms in \<open>auto simp: PyLong_MASK_eq bit_xor_iff bit_mask_iff bit_push_bit_iff\<close>)

lemma rshift_column:
  assumes "digit_ok x" and "r < 30"
  shows "unat (drop_bit r x AND (push_bit (30 - r) 1 - 1)) = unat x div 2 ^ r"
    and "unat (push_bit (30 - r) y AND (PyLong_MASK XOR (push_bit (30 - r) 1 - 1)) :: digit) =
      (unat y mod 2 ^ r) * 2 ^ (30 - r)"
proof -
  have "unat x div 2 ^ r < 2 ^ (30 - r)"
    using assms by (intro less_mult_imp_div_less) (simp add: digit_ok_def flip: power_add)
  then show "unat (drop_bit r x AND (push_bit (30 - r) 1 - 1)) = unat x div 2 ^ r"
    unfolding lomask_eq unat_and_mask unat_drop_bit_div by simp
  have hr: "(30 - r) + r = 30" using assms(2) by simp
  have "unat y mod 2 ^ r * 2 ^ (30 - r) < 2 ^ LENGTH(32)"
  proof -
    have "unat y mod 2 ^ r * 2 ^ (30 - r) < 2 ^ r * 2 ^ (30 - r)" by (intro mult_strict_right_mono) simp_all
    also have "\<dots> = 2 ^ 30" using hr by (simp flip: power_add)
    finally show ?thesis by simp
  qed
  then have "unat (push_bit (30 - r) (y AND mask r)) = (unat y mod 2 ^ r) * 2 ^ (30 - r)"
    unfolding unat_and_mask [symmetric] by (rule unat_push_bit_small)
  then show "unat (push_bit (30 - r) y AND (PyLong_MASK XOR (push_bit (30 - r) 1 - 1)) :: digit) =
      (unat y mod 2 ^ r) * 2 ^ (30 - r)"
    unfolding lomask_eq himask_eq [OF hr] push_bit_and .
qed

lemma rshift_digits_correct:
  assumes "list_all digit_ok ds" and "r < 30"
  shows "length (rshift_digits r ds) = length ds \<and> list_all digit_ok (rshift_digits r ds) \<and>
    dval (rshift_digits r ds) = dval ds div 2 ^ r"
  using assms(1)
proof (induction ds rule: induct_list012)
  case 1
  then show ?case by simp
next
  case (2 x)
  then have ok: "digit_ok x" by simp
  have c: "unat (drop_bit r x AND (push_bit (30 - r) 1 - 1)) = unat x div 2 ^ r"
    using rshift_column(1) [OF ok assms(2)] .
  have "unat x div 2 ^ r < 2 ^ 30"
    using ok div_le_dividend [of "unat x" "2 ^ r"] unfolding digit_ok_def by linarith
  then have "digit_ok (drop_bit r x AND (push_bit (30 - r) 1 - 1))"
    unfolding digit_ok_def c .
  then show ?case using c by simp
next
  case (3 x y ys)
  let ?h = "30 - r" and ?D = "dval (y # ys)"
  let ?A = "drop_bit r x AND (push_bit ?h 1 - 1)"
    and ?B = "push_bit ?h y AND (PyLong_MASK XOR (push_bit ?h 1 - 1))"
  have ok: "digit_ok x" "list_all digit_ok (y # ys)" using 3(3) by simp_all
  note c = rshift_column(1) [OF ok(1) assms(2)] rshift_column(2) [OF ok(1) assms(2), of y]
  have pow: "(2::nat) ^ 30 = 2 ^ r * 2 ^ ?h" using assms(2) by (simp flip: power_add)
  have Alt: "unat x div 2 ^ r < 2 ^ ?h"
    using ok(1) pow by (intro less_mult_imp_div_less) (simp add: digit_ok_def mult.commute)
  have w: "unat (?A OR ?B) = (unat y mod 2 ^ r) * 2 ^ ?h + unat x div 2 ^ r"
    using unat_or_disjoint [OF c(2), of ?A] c Alt by (simp add: or.commute)
  have "(unat y mod 2 ^ r) * 2 ^ ?h + unat x div 2 ^ r < (unat y mod 2 ^ r + 1) * 2 ^ ?h"
    using Alt by simp
  also have "\<dots> \<le> 2 ^ r * 2 ^ ?h" by (intro mult_le_mono1) (simp add: Suc_le_eq)
  finally have w_ok: "digit_ok (?A OR ?B)" unfolding digit_ok_def w pow .
  have regroup: "M * h + X + p * h * Q = X + h * (M + p * Q)" for M h X p Q :: nat
    by (simp add: algebra_simps)
  have "unat y mod 2 ^ r = ?D mod 2 ^ r"
    by (simp only: dval.simps pow mult.assoc mod_mult_self2)
  then have "dval (rshift_digits r (x # y # ys)) =
      (?D mod 2 ^ r) * 2 ^ ?h + unat x div 2 ^ r + 2 ^ 30 * (?D div 2 ^ r)"
    using 3(2) [OF ok(2)] w by (simp add: Let_def)
  also have "\<dots> = unat x div 2 ^ r + 2 ^ ?h * (?D mod 2 ^ r + 2 ^ r * (?D div 2 ^ r))"
    unfolding pow by (rule regroup)
  also have "\<dots> = unat x div 2 ^ r + 2 ^ ?h * ?D" unfolding mod_mult_div_eq ..
  also have "\<dots> = (unat x + 2 ^ r * (2 ^ ?h * ?D)) div 2 ^ r" by simp
  also have "\<dots> = dval (x # y # ys) div 2 ^ r" unfolding dval.simps(2) [of x] pow by (simp only: mult.assoc)
  finally show ?case using 3(2) [OF ok(2)] w_ok by (simp add: Let_def)
qed

text \<open>Dropping whole digits is division by a power of the base.\<close>

lemma dval_drop:
  assumes "list_all digit_ok ds" and "n \<le> length ds"
  shows "dval (drop n ds) = dval ds div 2 ^ (30 * n)"
proof -
  have "dval ds = dval (take n ds) + 2 ^ (30 * n) * dval (drop n ds)"
    using dval_take_drop [of ds n] assms(2) by (simp add: min.absorb2)
  then show ?thesis using dval_take_bound [OF assms] by simp
qed

lemma long_rshift1_nonneg_correct:
  assumes wf: "wf_long a" and nonneg: "0 \<le> ob_size a" and r: "r < 30" and ws: "0 \<le> wordshift"
  shows "\<exists>z. long_rshift1_nonneg a wordshift r = Inr z \<and> wf_long z \<and>
    long_val z = long_val a div 2 ^ (30 * nat wordshift + r)"
proof (cases "ob_size a \<le> wordshift")
  case True
  have "mag a < 2 ^ (30 * nd a)" by (rule pre_long_mag [OF wf_long_pre(1) [OF wf]])
  also have "\<dots> \<le> 2 ^ (30 * nat wordshift + r)"
    using True nonneg by (intro power_increasing) (simp_all add: nd_def)
  finally have "int (mag a) < 2 ^ (30 * nat wordshift + r)"
    by (metis of_nat_less_numeral_power_cancel_iff)
  then have "long_val a div 2 ^ (30 * nat wordshift + r) = 0"
    using nonneg by (simp add: long_val_def)
  moreover have "\<bar>0 :: int\<bar> \<le> 2 ^ 62" by simp
  then obtain z where "PyLong_FromLong 0 = Inr z" "wf_long z" "long_val z = 0" by (rule FromLong_within)
  ultimately show ?thesis using True by (simp add: long_rshift1_nonneg_def Let_def)
next
  case False
  define n where "n = nat wordshift"
  note da = wf_long_digits [OF wf]
  have n: "n < nd a" using False nonneg ws by (simp add: n_def nd_def)
  have "list_all digit_ok (drop n (digits a))" using da(1) by (rule list_all_digit_ok_drop)
  note rs = rshift_digits_correct [OF this r]
  have room: "int (nd a - n) \<le> MAX_LONG_DIGITS" using wf_long_nd_max [OF wf] by simp
  let ?v = "long_normalize \<lparr>ob_refcnt = 1, ob_size = int (nd a - n), ob_digit = rshift_digits r (drop n (digits a))\<rparr>"
  have "mag_result (Inr ?v) (dval (drop n (digits a)) div 2 ^ r)"
    using rs da(2) room by (intro mag_result_fill) simp_all
  note v = mag_result_val [OF this]
  have "dval (drop n (digits a)) div 2 ^ r = mag a div 2 ^ (30 * n + r)"
    using dval_drop [OF da(1), of n] da(2) n by (simp add: div_mult2_eq power_add)
  then have val: "long_val ?v = long_val a div 2 ^ (30 * n + r)"
    using v(2) nonneg by (simp add: long_val_def zdiv_int)
  have "ob_size a - wordshift = int (nd a - n)"
    using False nonneg ws unfolding n_def nd_def by linarith
  then have "long_rshift1_nonneg a wordshift r = Inr (maybe_small_long ?v)"
    using n room by (simp add: long_rshift1_nonneg_def PyLong_New_def Let_def flip: n_def)
  then show ?thesis using maybe_small_long_correct [OF v(1)] val by (simp add: n_def)
qed

section \<open>Right shift\<close>

text \<open>What makes the recursion for negative numbers right.\<close>

lemma invert_shift:
  fixes a :: int
  shows "- ((- a - 1) div 2 ^ k) - 1 = a div 2 ^ k"
proof -
  have "a div 2 ^ k = - ((- a - 1) div 2 ^ k) - 1"
  proof (cases "a < 0")
    case True
    then show ?thesis using neg_floor(1) [of "- a" "2 ^ k"] by simp
  next
    case False
    moreover have "- a - 1 = - (a + 1)" by simp
    ultimately show ?thesis using neg_floor(1) [of "a + 1" "2 ^ k"] by simp
  qed
  then show ?thesis by simp
qed

lemma long_rshift1_cases:
  assumes wf: "wf_long a" and r: "r < 30" and ws: "0 \<le> wordshift"
  shows "case long_rshift1 a wordshift r of
      Inr z \<Rightarrow> wf_long z \<and> long_val z = long_val a div 2 ^ (30 * nat wordshift + r)
    | Inl e \<Rightarrow> e = OverflowError \<and> MAX_LONG_DIGITS \<le> int (nd a)"
proof (cases "ob_size a < 0")
  case False
  then show ?thesis
    using long_rshift1_nonneg_correct [OF wf _ r ws] by (auto simp: long_rshift1_def)
next
  case True
  then have D: "long_rshift1 a wordshift r = rbind (long_invert a) (\<lambda>a1.
        rbind (c_assert (0 \<le> ob_size a1)) (\<lambda>_.
        rbind (long_rshift1_nonneg a1 wordshift r) long_invert))"
    by (simp add: long_rshift1_def)
  have neg: "long_val a < 0" using True long_val_sign [OF wf] by simp
  have n1: "1 \<le> nd a" using True by (simp add: nd_def)
  show ?thesis
  proof (cases "long_invert a")
    case (Inl e)
    then show ?thesis using D long_invert.op_error [OF wf Inl] n1 by (simp add: max_def)
  next
    case (Inr a1)
    note a1 = long_invert.op_value [OF wf Inr]
    have sz: "0 \<le> ob_size a1" using a1 neg long_val_sign [of a1] by (simp add: not_less [symmetric])
    obtain z where z: "long_rshift1_nonneg a1 wordshift r = Inr z" "wf_long z"
      "long_val z = long_val a1 div 2 ^ (30 * nat wordshift + r)"
      using long_rshift1_nonneg_correct [OF conjunct1 [OF a1] sz r ws] by blast
    have D': "long_rshift1 a wordshift r = long_invert z"
      using D Inr sz z(1) by (simp add: c_assert_def)
    have "\<bar>long_val z\<bar> \<le> \<bar>long_val a\<bar>"
    proof -
      have "0 \<le> long_val a1" using a1 neg by simp
      then have "0 \<le> long_val z" "long_val z \<le> long_val a1"
        unfolding z(3) using zdiv_mono2 [of "long_val a1" 1 "2 ^ (30 * nat wordshift + r)"]
        by (simp_all add: pos_imp_zdiv_nonneg_iff)
      then show ?thesis using a1 neg by simp
    qed
    then have nz: "nd z \<le> nd a" by (rule nd_le_of_val [OF z(2) wf])
    show ?thesis
    proof (cases "long_invert z")
      case (Inl e)
      then show ?thesis using D' long_invert.op_error [OF z(2) Inl] nz n1 by (simp add: max_def split: if_splits)
    next
      case (Inr y)
      then show ?thesis
        using D' long_invert.op_value [OF z(2) Inr] z(3) a1 invert_shift [of "long_val a"] by simp
    qed
  qed
qed

text \<open>
  The shift count: exact when the word shift is in range, and otherwise so large that the word
  shift alone exceeds every integer object.
\<close>

lemma CLIP_val: "WORDSHIFT_CLIP = 2305843009213693951" "MAX_LONG_DIGITS < WORDSHIFT_CLIP"
  by (simp_all add: WORDSHIFT_CLIP_def PY_SSIZE_T_MAX_def MAX_LONG_DIGITS_val)

definition shift_count :: "int \<Rightarrow> int \<Rightarrow> nat \<Rightarrow> bool" where
  "shift_count k ws r \<longleftrightarrow> 0 \<le> ws \<and> r < 30 \<and>
     (k = 30 * ws + int r \<or> (30 * WORDSHIFT_CLIP \<le> k \<and> ws = WORDSHIFT_CLIP \<and> r = 0))"

lemma AsSsize_t_correct:
  assumes "wf_long v"
  shows "PyLong_AsSsize_t v =
    (if LONG_MIN \<le> long_val v \<and> long_val v \<le> LONG_MAX then Inr (long_val v) else Inl OverflowError)"
  unfolding PyLong_AsSsize_t_eq by (rule PyLong_AsLong_correct [OF assms])

lemma c_div_mod_30:
  assumes "0 \<le> i"
  shows "shift_count i (c_div i (int PyLong_SHIFT)) (nat (c_mod i (int PyLong_SHIFT)))"
proof -
  have "0 \<le> i div 30" "nat (i mod 30) < 30" using assms by (simp_all add: pos_imp_zdiv_nonneg_iff nat_less_iff)
  then show ?thesis using assms by (simp add: shift_count_def c_div_nonneg c_mod_nonneg)
qed

lemma divmod_shift_correct:
  assumes wf: "wf_long b" and nonneg: "0 \<le> ob_size b"
  shows "\<exists>ws r. divmod_shift b = Inr (ws, r) \<and> shift_count (long_val b) ws r"
proof -
  have b0: "0 \<le> long_val b" using nonneg by (simp add: long_val_def)
  show ?thesis
  proof (cases "long_val b \<le> LONG_MAX")
    case True
    then have "PyLong_AsSsize_t b = Inr (long_val b)"
      using AsSsize_t_correct [OF wf] b0 by (simp add: LONG_MIN_def)
    then show ?thesis using c_div_mod_30 [OF b0] nonneg by (simp add: divmod_shift_def c_assert_def)
  next
    case False
    then have F: "PyLong_AsSsize_t b = Inl OverflowError" using AsSsize_t_correct [OF wf] by simp
    have u30: "unat (of_nat PyLong_SHIFT :: digit) = 30" "digit_ok (of_nat PyLong_SHIFT)"
      by (simp_all add: digit_ok_def)
    obtain z r where zr: "divrem1 b (of_nat PyLong_SHIFT) = Inr (z, r)" "mag_result (Inr z) (mag b div 30)"
      "unat r = mag b mod 30"
      using divrem1_correct [OF wf _ u30(2)] unfolding u30(1) by auto
    note z = mag_result_val [OF zr(2)]
    have zv: "long_val z = long_val b div 30" using z(2) nonneg by (simp add: long_val_def zdiv_int)
    have rv: "int (unat r) = long_val b mod 30" using zr(3) nonneg by (simp add: long_val_def zmod_int)
    have z0: "0 \<le> long_val z" unfolding zv using b0 by (simp add: pos_imp_zdiv_nonneg_iff)
    have D: "divmod_shift b = (case PyLong_AsSsize_t z of
          Inr wordshift \<Rightarrow>
            if 0 \<le> wordshift \<and> wordshift < WORDSHIFT_CLIP then Inr (wordshift, unat r)
            else Inr (WORDSHIFT_CLIP, 0)
        | Inl _ \<Rightarrow> Inr (WORDSHIFT_CLIP, 0))"
      using F zr(1) nonneg by (simp add: divmod_shift_def c_assert_def)
    show ?thesis
    proof (cases "long_val z < WORDSHIFT_CLIP")
      case True
      then have "PyLong_AsSsize_t z = Inr (long_val z)"
        using AsSsize_t_correct [OF z(1)] z0 by (simp add: LONG_MIN_def LONG_MAX_def CLIP_val)
      then have "divmod_shift b = Inr (long_val z, unat r)" using D z0 True by simp
      moreover have "long_val b = 30 * long_val z + int (unat r)" unfolding zv rv by simp
      moreover have "unat r < 30" using zr(3) by simp
      ultimately show ?thesis using z0 by (simp add: shift_count_def)
    next
      case False
      then have "divmod_shift b = Inr (WORDSHIFT_CLIP, 0)"
        using D AsSsize_t_correct [OF z(1)] by (simp split: if_splits)
      moreover have "30 * WORDSHIFT_CLIP \<le> long_val b"
      proof -
        have "30 * WORDSHIFT_CLIP \<le> 30 * (long_val b div 30)" using False zv by simp
        also have "\<dots> \<le> long_val b" by simp
        finally show ?thesis .
      qed
      ultimately show ?thesis by (simp add: shift_count_def CLIP_val)
    qed
  qed
qed

section \<open>Left shift\<close>

lemma lshift_digits_correct:
  assumes "list_all digit_ok as" and "r < 30" and "unat accum < 2 ^ r"
  shows "\<exists>zs out. lshift_digits r accum as = (zs, out) \<and> length zs = length as \<and> list_all digit_ok zs \<and>
    unat out < 2 ^ r \<and> dval zs + 2 ^ (30 * length as) * unat out = 2 ^ r * dval as + unat accum"
  using assms(1,3)
proof (induction as arbitrary: accum)
  case (Cons a as)
  have ok: "digit_ok a" "list_all digit_ok as" using Cons.prems by simp_all
  have ua: "unat (ucast a :: twodigits) = unat a" by (simp add: unat_ucast_up)
  have r2: "(2::nat) ^ r \<le> 2 ^ 30" using assms(2) by (intro power_increasing) simp_all
  have "unat a * 2 ^ r \<le> 2 ^ 30 * 2 ^ 30"
    using ok(1) r2 by (intro mult_le_mono) (simp_all add: digit_ok_def)
  then have p: "unat (push_bit r (ucast a :: twodigits)) = unat a * 2 ^ r"
    using ua by (subst unat_push_bit_small) simp_all
  let ?acc = "accum OR push_bit r (ucast a) :: twodigits"
  have acc: "unat ?acc = unat a * 2 ^ r + unat accum"
    using unat_or_disjoint [OF p Cons.prems(2)] p by (simp add: or.commute)
  have "unat a * 2 ^ r + unat accum < 2 ^ r * 2 ^ 30"
  proof -
    have "unat a * 2 ^ r + unat accum < Suc (unat a) * 2 ^ r" using Cons.prems(2) by simp
    also have "\<dots> \<le> 2 ^ 30 * 2 ^ r" using ok(1) by (intro mult_le_mono1) (simp add: digit_ok_def)
    finally show ?thesis by (simp add: mult.commute)
  qed
  then have out: "unat (drop_bit 30 ?acc) < 2 ^ r"
    unfolding unat_drop_bit_div acc by (intro less_mult_imp_div_less)
  obtain zs out' where rec: "lshift_digits r (drop_bit 30 ?acc) as = (zs, out')" "length zs = length as"
    "list_all digit_ok zs" "unat out' < 2 ^ r"
    "dval zs + 2 ^ (30 * length as) * unat out' = 2 ^ r * dval as + unat (drop_bit 30 ?acc)"
    using Cons.IH [OF ok(2) out] by blast
  have "dval (ucast (?acc AND ucast PyLong_MASK) # zs) + 2 ^ (30 * length (a # as)) * unat out' =
      unat ?acc mod 2 ^ 30 + 2 ^ 30 * (dval zs + 2 ^ (30 * length as) * unat out')"
    unfolding dval.simps unat_ucast_and_MASK64 by (simp add: power_add algebra_simps)
  also have "\<dots> = unat ?acc + 2 ^ 30 * (2 ^ r * dval as)"
    unfolding rec(5) unat_drop_bit_div split_nat_30 ..
  also have "\<dots> = 2 ^ r * dval (a # as) + unat accum" unfolding acc by (simp add: algebra_simps)
  finally show ?case using rec by (simp add: Let_def del: drop_bit_or)
qed simp

lemma long_lshift1_cases:
  assumes wf: "wf_long a" and r: "r < 30" and ws: "0 \<le> wordshift"
  shows "case long_lshift1 a wordshift r of
      Inr z \<Rightarrow> wf_long z \<and> long_val z = long_val a * 2 ^ (30 * nat wordshift + r)
    | Inl e \<Rightarrow> e = OverflowError \<and> MAX_LONG_DIGITS \<le> int (nd a) + wordshift"
proof -
  define n where "n = nat wordshift"
  have wn: "wordshift = int n" using ws by (simp add: n_def)
  define newsize where "newsize = nd a + n + (if r \<noteq> 0 then 1 else 0)"
  have ns: "(if r \<noteq> 0 then int (nd a) + wordshift + 1 else int (nd a) + wordshift) = int newsize"
    by (simp add: newsize_def wn)
  note da = wf_long_digits [OF wf]
  have "unat (0 :: twodigits) < 2 ^ r" by simp
  from lshift_digits_correct [OF da(1) r this, unfolded da(2)]
  obtain ds out where sh: "lshift_digits r 0 (digits a) = (ds, out)" "length ds = nd a" "list_all digit_ok ds"
    "unat out < 2 ^ r" "dval ds + 2 ^ (30 * nd a) * unat out = 2 ^ r * mag a" by auto
  define top where "top = (if r \<noteq> 0 then [ucast out :: digit] else [])"
  have out0: "r = 0 \<Longrightarrow> out = 0" using sh(4) by (metis less_one power_0 unat_eq_zero)
  have r2: "(2::nat) ^ r \<le> 2 ^ 29" using r by (intro power_increasing) simp_all
  then have "unat (ucast out :: digit) = unat out" using sh(4) by (subst unat_ucast_small) simp_all
  then have top: "dval top = unat out" "list_all digit_ok top" "length top = (if r \<noteq> 0 then 1 else 0)"
    using sh(4) r2 out0 by (auto simp: top_def digit_ok_def)
  have TT: "(if r \<noteq> 0 then Inr [ucast out] else rbind (c_assert (out = 0)) (\<lambda>_. Inr [])) = (Inr top :: digit list pyres)"
    using out0 by (simp add: top_def c_assert_def)
  let ?ds = "replicate n 0 @ ds @ top"
  have len: "length ?ds = newsize" using sh(2) top(3) by (simp add: newsize_def)
  have ok: "list_all digit_ok ?ds" using sh(3) top(2) by (auto simp: list_all_iff digit_ok_def)
  have val: "dval ?ds = mag a * 2 ^ (30 * n + r)"
    using sh(2,5) top(1) by (simp add: dval_append power_add algebra_simps)
  show ?thesis
  proof (cases "int newsize \<le> MAX_LONG_DIGITS")
    case False
    then have "long_lshift1 a wordshift r = Inl OverflowError"
      unfolding long_lshift1_def Let_def ns by (simp add: PyLong_New_def)
    moreover have "MAX_LONG_DIGITS \<le> int (nd a) + wordshift"
      using False by (simp add: newsize_def wn split: if_splits)
    ultimately show ?thesis by simp
  next
    case True
    define sg where "sg = (if ob_size a < 0 then - int newsize else int newsize)"
    define v where "v = \<lparr>ob_refcnt = 1, ob_size = sg, ob_digit = ?ds\<rparr>"
    have v: "wf_long (long_normalize v)"
      "long_val (long_normalize v) = (if sg < 0 then - int (dval ?ds) else int (dval ?ds))"
      using fill_normalize(1,2) [OF ok _ _ zero_less_one v_def] len True by (simp_all add: sg_def)
    have "newsize = 0 \<Longrightarrow> mag a = 0" by (simp add: newsize_def digits_def split: if_splits)
    then have "long_val (long_normalize v) = long_val a * 2 ^ (30 * n + r)"
      unfolding v(2) val by (auto simp: sg_def long_val_def)
    moreover have "long_lshift1 a wordshift r = Inr (maybe_small_long (long_normalize v))"
      unfolding long_lshift1_def Let_def ns sh(1) prod.case TT rbind_simps
      using True by (simp add: PyLong_New_def v_def sg_def wn)
    ultimately show ?thesis using maybe_small_long_correct [OF v(1)] by (simp add: n_def)
  qed
qed

section \<open>Shifting by an integer object\<close>

lemma div_beyond:
  fixes a :: int
  assumes "\<bar>a\<bar> < 2 ^ n" and "n \<le> m"
  shows "a div 2 ^ m = (if a < 0 then -1 else 0)"
proof -
  have "(2 :: int) ^ n \<le> 2 ^ m" using assms(2) by (intro power_increasing) simp_all
  then have lt: "\<bar>a\<bar> < 2 ^ m" using assms(1) by linarith
  show ?thesis
  proof (cases "a < 0")
    case True
    have "a div 2 ^ m = -1"
      by (rule int_div_pos_eq [where r = "a + 2 ^ m"]) (use lt True in simp_all)
    then show ?thesis using True by simp
  next
    case False
    then show ?thesis using lt by simp
  qed
qed

lemma long_rshift_cases:
  assumes wf: "wf_long a" "wf_long b"
  shows "case long_rshift a b of
      Inr z \<Rightarrow> 0 \<le> long_val b \<and> wf_long z \<and> long_val z = long_val a div 2 ^ nat (long_val b)
    | Inl e \<Rightarrow> (e = ValueError \<and> long_val b < 0) \<or> (e = OverflowError \<and> MAX_LONG_DIGITS \<le> int (nd a))"
proof -
  consider (neg) "ob_size b < 0" | (zero) "0 \<le> ob_size b" "ob_size a = 0" | (pos) "0 \<le> ob_size b" "ob_size a \<noteq> 0"
    by linarith
  then show ?thesis
  proof cases
    case neg
    then show ?thesis using long_val_sign [OF wf(2)] by (simp add: long_rshift_def)
  next
    case zero
    have "\<bar>0 :: int\<bar> \<le> 2 ^ 62" by simp
    then obtain z where "PyLong_FromLong 0 = Inr z" "wf_long z" "long_val z = 0" by (rule FromLong_within)
    then show ?thesis
      using zero long_val_0_iff [OF wf(1)] by (simp add: long_rshift_def long_val_def [of b])
  next
    case pos
    obtain ws r where k: "divmod_shift b = Inr (ws, r)" "shift_count (long_val b) ws r"
      using divmod_shift_correct [OF wf(2) pos(1)] by blast
    have b0: "0 \<le> long_val b" using pos(1) by (simp add: long_val_def)
    have D: "long_rshift a b = long_rshift1 a ws r" using pos k(1) by (simp add: long_rshift_def)
    have sc: "0 \<le> ws" "r < 30" using k(2) by (simp_all add: shift_count_def)
    have "long_val a div 2 ^ (30 * nat ws + r) = long_val a div 2 ^ nat (long_val b)"
    proof (cases "long_val b = 30 * ws + int r")
      case True
      then have "nat (long_val b) = 30 * nat ws + r" using sc(1) by (simp add: nat_add_distrib nat_mult_distrib)
      then show ?thesis by simp
    next
      case False
      then have big: "30 * WORDSHIFT_CLIP \<le> long_val b" "ws = WORDSHIFT_CLIP" "r = 0"
        using k(2) by (simp_all add: shift_count_def)
      have "mag a < 2 ^ (30 * nd a)" by (rule pre_long_mag [OF wf_long_pre(1) [OF wf(1)]])
      then have lt: "\<bar>long_val a\<bar> < 2 ^ (30 * nd a)"
        unfolding abs_long_val by (metis of_nat_less_numeral_power_cancel_iff)
      have "30 * nd a \<le> 30 * nat ws + r" "30 * nd a \<le> nat (long_val b)"
        using big wf_long_nd_max [OF wf(1)] CLIP_val by linarith+
      then show ?thesis using div_beyond [OF lt] by simp
    qed
    then show ?thesis
      unfolding D using long_rshift1_cases [OF wf(1) sc(2,1)] b0 by (auto split: sum.splits)
  qed
qed

lemma long_lshift_cases:
  assumes wf: "wf_long a" "wf_long b"
  shows "case long_lshift a b of
      Inr z \<Rightarrow> 0 \<le> long_val b \<and> wf_long z \<and> long_val z = long_val a * 2 ^ nat (long_val b)
    | Inl e \<Rightarrow> (e = ValueError \<and> long_val b < 0) \<or>
        (e = OverflowError \<and> MAX_LONG_DIGITS \<le> int (nd a) + long_val b div 30)"
proof -
  consider (neg) "ob_size b < 0" | (zero) "0 \<le> ob_size b" "ob_size a = 0" | (pos) "0 \<le> ob_size b" "ob_size a \<noteq> 0"
    by linarith
  then show ?thesis
  proof cases
    case neg
    then show ?thesis using long_val_sign [OF wf(2)] by (simp add: long_lshift_def)
  next
    case zero
    have "\<bar>0 :: int\<bar> \<le> 2 ^ 62" by simp
    then obtain z where "PyLong_FromLong 0 = Inr z" "wf_long z" "long_val z = 0" by (rule FromLong_within)
    then show ?thesis
      using zero long_val_0_iff [OF wf(1)] by (simp add: long_lshift_def long_val_def [of b])
  next
    case pos
    obtain ws r where k: "divmod_shift b = Inr (ws, r)" "shift_count (long_val b) ws r"
      using divmod_shift_correct [OF wf(2) pos(1)] by blast
    have b0: "0 \<le> long_val b" using pos(1) by (simp add: long_val_def)
    have D: "long_lshift a b = long_lshift1 a ws r" using pos k(1) by (simp add: long_lshift_def)
    have sc: "0 \<le> ws" "r < 30" using k(2) by (simp_all add: shift_count_def)
    note c = long_lshift1_cases [OF wf(1) sc(2,1)]
    show ?thesis
    proof (cases "long_lshift1 a ws r")
      case (Inl e)
      have "ws \<le> long_val b div 30"
        using k(2) zdiv_mono1 [of "30 * WORDSHIFT_CLIP" "long_val b" 30]
        by (auto simp: shift_count_def)
      then show ?thesis using c D Inl by simp
    next
      case (Inr z)
      have "long_val b = 30 * ws + int r"
      proof (rule ccontr)
        assume "long_val b \<noteq> 30 * ws + int r"
        then have "ws = WORDSHIFT_CLIP" using k(2) by (simp add: shift_count_def)
        then have "long_lshift1 a ws r = Inl OverflowError"
          using CLIP_val by (simp add: long_lshift1_def PyLong_New_def Let_def)
        then show False using Inr by simp
      qed
      then have "nat (long_val b) = 30 * nat ws + r" using sc(1) by (simp add: nat_add_distrib nat_mult_distrib)
      then show ?thesis using c D Inr b0 by simp
    qed
  qed
qed

section \<open>Properties\<close>

text \<open>
  C7: Right shift is floor division by a power of two, for negative numbers (through the
  recursion on the inverse) and for shift counts too large for any C integer (where the clipped
  word shift gives 0 or \<open>-1\<close>) alike; a negative count is \<open>ValueError\<close>.
\<close>

theorem long_rshift_is_floor_div:
  assumes "wf_long a" and "wf_long b"
  shows "case long_rshift a b of
      Inr z \<Rightarrow> 0 \<le> long_val b \<and> wf_long z \<and> long_val z = long_val a div 2 ^ nat (long_val b)
    | Inl e \<Rightarrow> (e = ValueError \<and> long_val b < 0) \<or> (e = OverflowError \<and> MAX_LONG_DIGITS \<le> int (nd a))"
  by (rule long_rshift_cases [OF assms])

lemma long_rshift_is_floor_div_witness:
  "\<exists>z. long_rshift two_digits one_digit = Inr z \<and> long_val z = - 100663297"
  using long_rshift_is_floor_div [OF samples_wf]
  by (auto simp: samples_val samples_nd MAX_LONG_DIGITS_val split: sum.splits)

text \<open>
  C8: Left shift is multiplication by a power of two; it fails only for a negative count
  (\<open>ValueError\<close>) and when the result has no room (\<open>OverflowError\<close>), which includes the clipped
  count.
\<close>

theorem long_lshift_is_multiplication:
  assumes "wf_long a" and "wf_long b"
  shows "case long_lshift a b of
      Inr z \<Rightarrow> 0 \<le> long_val b \<and> wf_long z \<and> long_val z = long_val a * 2 ^ nat (long_val b)
    | Inl e \<Rightarrow> (e = ValueError \<and> long_val b < 0) \<or>
        (e = OverflowError \<and> MAX_LONG_DIGITS \<le> int (nd a) + long_val b div 30)"
  by (rule long_lshift_cases [OF assms])

lemma long_lshift_is_multiplication_witness:
  "\<exists>z. long_lshift two_digits one_digit = Inr z \<and> long_val z = - 103079215328"
  using long_lshift_is_multiplication [OF samples_wf]
  by (auto simp: samples_val samples_nd MAX_LONG_DIGITS_val split: sum.splits)

end
