(* ===== verification/PyLongBits.thy ===== *)
theory PyLongBits
  imports PyLongArith
begin

text \<open>
  Bitwise conjunction, disjunction and exclusive disjunction of integer objects
  (\<open>v_complement\<close>, \<open>long_bitwise\<close> of \<open>Objects/longobject.c\<close>). Negative operands are turned
  into two's complement, the digits are combined, and a negative result is turned back. The
  correctness lemma is stated against the bitwise operations of the integers, which are those
  of the infinite two's complement representation.
\<close>

section \<open>Definitions\<close>

fun v_complement_loop :: "digit \<Rightarrow> digit list \<Rightarrow> digit list \<times> digit" where
  "v_complement_loop carry [] = ([], carry)"
| "v_complement_loop carry (a # as) =
     (let carry = carry + (a XOR PyLong_MASK);
          (zs, out) = v_complement_loop (drop_bit PyLong_SHIFT carry) as
      in ((carry AND PyLong_MASK) # zs, out))"

definition v_complement :: "digit list \<Rightarrow> digit list pyres" where
  "v_complement as =
     (let (zs, carry) = v_complement_loop 1 as
      in rbind (c_assert (carry = 0)) (\<lambda>_. Inr zs))"

datatype bitop = BitAnd | BitOr | BitXor

fun digit_op :: "bitop \<Rightarrow> digit \<Rightarrow> digit \<Rightarrow> digit" where
  "digit_op BitAnd a b = a AND b"
| "digit_op BitOr a b = a OR b"
| "digit_op BitXor a b = a XOR b"

text \<open>An operand with its sign, in two's complement when it is negative.\<close>

definition bitwise_operand :: "pylong \<Rightarrow> (digit list \<times> bool) pyres" where
  "bitwise_operand a =
     (if ob_size a < 0 then
        rbind (PyLong_New (int (nd a))) (\<lambda>z.
        rbind (v_complement (digits a)) (\<lambda>ds. Inr (ds, True)))
      else Inr (digits a, False))"

text \<open>
  The digits of the overlap, then \<open>rest\<close> digits of the longer operand \<open>a\<close>, inverted for an
  exclusive disjunction with a negative shorter one.
\<close>

fun bitwise_digits :: "bitop \<Rightarrow> bool \<Rightarrow> nat \<Rightarrow> digit list \<Rightarrow> digit list \<Rightarrow> digit list" where
  "bitwise_digits oper negb rest (a # as) (b # bs) = digit_op oper a b # bitwise_digits oper negb rest as bs"
| "bitwise_digits oper negb rest as bs =
     (if oper = BitXor \<and> negb then map (\<lambda>d. d XOR PyLong_MASK) (take rest as) else take rest as)"

definition long_bitwise :: "pylong \<Rightarrow> bitop \<Rightarrow> pylong \<Rightarrow> pylong pyres" where
  "long_bitwise a oper b =
     rbind (bitwise_operand a) (\<lambda>(as, nega).
     rbind (bitwise_operand b) (\<lambda>(bs, negb).
       let (as, nega, bs, negb) =
             (if length as < length bs then (bs, negb, as, nega) else (as, nega, bs, negb));
           size_a = length as;
           size_b = length bs;
           (negz, size_z) =
             (case oper of
                BitXor \<Rightarrow> (nega \<noteq> negb, size_a)
              | BitAnd \<Rightarrow> (nega \<and> negb, if negb then size_a else size_b)
              | BitOr \<Rightarrow> (nega \<or> negb, if negb then size_b else size_a))
       in rbind (PyLong_New (int (size_z + (if negz then 1 else 0)))) (\<lambda>z.
          let ds = bitwise_digits oper negb (size_z - size_b) as bs
          in if negz then
               rbind (v_complement (ds @ [PyLong_MASK])) (\<lambda>ds.
                 Inr (maybe_small_long (long_normalize (z\<lparr>ob_size := - ob_size z, ob_digit := ds\<rparr>))))
             else Inr (maybe_small_long (long_normalize (z\<lparr>ob_digit := ds\<rparr>))))))"

definition long_and :: "pylong \<Rightarrow> pylong \<Rightarrow> pylong pyres" where
  "long_and a b = long_bitwise a BitAnd b"

definition long_or :: "pylong \<Rightarrow> pylong \<Rightarrow> pylong pyres" where
  "long_or a b = long_bitwise a BitOr b"

definition long_xor :: "pylong \<Rightarrow> pylong \<Rightarrow> pylong pyres" where
  "long_xor a b = long_bitwise a BitXor b"

section \<open>Two's complement\<close>

lemma unat_xor_MASK:
  assumes "digit_ok a"
  shows "unat (a XOR PyLong_MASK) = 2 ^ 30 - 1 - unat a" and "digit_ok (a XOR PyLong_MASK)"
proof -
  have "(a XOR PyLong_MASK) AND a = 0"
    by (rule bit_eqI) (use digit_ok_bit [OF assms] in
      \<open>auto simp: PyLong_MASK_eq bit_xor_iff bit_and_iff bit_mask_iff\<close>)
  then have "(a XOR PyLong_MASK) + a = (a XOR PyLong_MASK) OR a" by (rule disjunctive_add_eq_or)
  also have "\<dots> = mask 30"
    by (rule bit_eqI) (use digit_ok_bit [OF assms] in
      \<open>auto simp: PyLong_MASK_eq bit_xor_iff bit_or_iff bit_mask_iff\<close>)
  finally have "a XOR PyLong_MASK = mask 30 - a" by (simp only: eq_diff_eq)
  moreover have m: "unat (mask 30 :: digit) = 2 ^ 30 - 1" by (simp add: mask_eq_exp_minus_1)
  moreover have "a \<le> mask 30" using assms m by (simp add: word_le_nat_alt digit_ok_def)
  ultimately show e: "unat (a XOR PyLong_MASK) = 2 ^ 30 - 1 - unat a" by (simp only: unat_sub)
  then show "digit_ok (a XOR PyLong_MASK)" by (simp add: digit_ok_def)
qed

lemma v_complement_loop_correct:
  assumes "list_all digit_ok as" and "unat c \<le> 1"
  shows "\<exists>zs out. v_complement_loop c as = (zs, out) \<and> length zs = length as \<and> list_all digit_ok zs \<and>
    dval zs + 2 ^ (30 * length as) * unat out + dval as + 1 = 2 ^ (30 * length as) + unat c"
  using assms
proof (induction as arbitrary: c)
  case (Cons a as)
  have ok: "digit_ok a" "list_all digit_ok as" using Cons.prems by simp_all
  note x = unat_xor_MASK [OF ok(1)]
  let ?s = "c + (a XOR PyLong_MASK)"
  have s: "unat ?s = unat c + unat (a XOR PyLong_MASK)" "unat ?s < 2 ^ 31"
    using unat_column1 [OF x(2) Cons.prems(2)] by simp_all
  note st = carry_step [OF s(2)]
  obtain zs out where r: "v_complement_loop (drop_bit 30 ?s) as = (zs, out)" "length zs = length as"
    "list_all digit_ok zs"
    "dval zs + 2 ^ (30 * length as) * unat out + dval as + 1 = 2 ^ (30 * length as) + unat (drop_bit 30 ?s)"
    using Cons.IH [OF ok(2) st(2)] by blast
  have lt: "unat a < 2 ^ 30" using ok(1) by (simp add: digit_ok_def)
  have pw: "(2 :: nat) ^ (30 * length (a # as)) = 2 ^ 30 * 2 ^ (30 * length as)" by (simp add: power_add)
  have "dval ((?s AND PyLong_MASK) # zs) + 2 ^ (30 * length (a # as)) * unat out + dval (a # as) + 1 =
      unat (?s AND PyLong_MASK) + 2 ^ 30 * (dval zs + 2 ^ (30 * length as) * unat out + dval as) + unat a + 1"
    unfolding dval.simps pw by (simp only: distrib_left mult.assoc ac_simps)
  moreover have "2 ^ 30 * (dval zs + 2 ^ (30 * length as) * unat out + dval as) + 2 ^ 30 =
      2 ^ 30 * 2 ^ (30 * length as) + 2 ^ 30 * unat (drop_bit 30 ?s)"
    using arg_cong [OF r(4), of "(*) (2 ^ 30)"] by (simp only: distrib_left mult_1_right)
  moreover have "unat (?s AND PyLong_MASK) + 2 ^ 30 * unat (drop_bit 30 ?s) + unat a + 1 = unat c + 2 ^ 30"
    using st(1) s(1) x(1) lt by simp
  ultimately have "dval ((?s AND PyLong_MASK) # zs) + 2 ^ (30 * length (a # as)) * unat out + dval (a # as) + 1
      = 2 ^ (30 * length (a # as)) + unat c" unfolding pw by linarith
  moreover have "v_complement_loop c (a # as) = ((?s AND PyLong_MASK) # zs, out)"
    using r(1) by (simp add: Let_def)
  moreover have "length ((?s AND PyLong_MASK) # zs) = length (a # as)"
    "list_all digit_ok ((?s AND PyLong_MASK) # zs)" using r(2,3) by simp_all
  ultimately show ?case by blast
qed simp

lemma v_complement_correct:
  assumes "list_all digit_ok as" and "0 < dval as"
  shows "\<exists>zs. v_complement as = Inr zs \<and> length zs = length as \<and> list_all digit_ok zs \<and>
    dval zs + dval as = 2 ^ (30 * length as)"
proof -
  obtain zs out where r: "v_complement_loop 1 as = (zs, out)" "length zs = length as" "list_all digit_ok zs"
    "dval zs + 2 ^ (30 * length as) * unat out + dval as = 2 ^ (30 * length as)"
    using v_complement_loop_correct [OF assms(1), of 1] by auto
  have "2 ^ (30 * length as) * unat out < 2 ^ (30 * length as) * 1" using r(4) assms(2) by linarith
  then have "unat out = 0" by (simp only: nat_mult_less_cancel_disj) simp
  then have "out = 0" by (metis unat_eq_zero)
  then show ?thesis using r by (simp add: v_complement_def c_assert_def)
qed

text \<open>The integer that digits and a sign denote in two's complement.\<close>

definition tc :: "bool \<Rightarrow> digit list \<Rightarrow> int" where
  "tc neg ds = int (dval ds) - (if neg then 2 ^ (30 * length ds) else 0)"

lemma tc_simps [simp]:
  "tc neg [] = (if neg then -1 else 0)"
  "tc neg (d # ds) = int (unat d) + 2 ^ 30 * tc neg ds"
  by (simp_all add: tc_def power_add algebra_simps)

lemma bitwise_operand_correct:
  assumes wf: "wf_long a"
  shows "\<exists>as neg. bitwise_operand a = Inr (as, neg) \<and> length as = nd a \<and> list_all digit_ok as \<and>
    tc neg as = long_val a"
proof (cases "ob_size a < 0")
  case True
  note da = wf_long_digits [OF wf]
  have "long_val a \<noteq> 0" using True long_val_0_iff [OF wf] by simp
  then have "0 < dval (digits a)" using abs_long_val [of a] by simp
  then obtain zs where z: "v_complement (digits a) = Inr zs" "length zs = nd a" "list_all digit_ok zs"
    "dval zs + dval (digits a) = 2 ^ (30 * nd a)"
    using v_complement_correct [OF da(1)] da(2) by auto
  have "int (dval zs + dval (digits a)) = int (2 ^ (30 * nd a))" using z(4) by (rule arg_cong)
  then have "tc True zs = long_val a" using z(2) True by (simp add: tc_def long_val_def)
  then show ?thesis
    using z True wf_long_nd_max [OF wf]
    by (intro exI [of _ zs] exI [of _ True]) (simp add: bitwise_operand_def PyLong_New_def)
next
  case False
  then show ?thesis
    using wf_long_digits [OF wf]
    by (intro exI [of _ "digits a"] exI [of _ False]) (simp add: bitwise_operand_def tc_def long_val_def)
qed

section \<open>Combining digits\<close>

fun int_op :: "bitop \<Rightarrow> int \<Rightarrow> int \<Rightarrow> int" where
  "int_op BitAnd x y = x AND y"
| "int_op BitOr x y = x OR y"
| "int_op BitXor x y = x XOR y"

text \<open>Bitwise operations work on the low 30 bits and on the rest separately.\<close>

lemma concat_digit:
  assumes "0 \<le> u" and "u < 2 ^ 30"
  shows "u + 2 ^ 30 * x = concat_bit 30 u (x :: int)"
  using assms by (simp add: concat_bit_eq take_bit_int_eq_self push_bit_eq_mult mult.commute)

lemma int_op_concat:
  "int_op oper (concat_bit 30 u x) (concat_bit 30 v y) = concat_bit 30 (int_op oper u v) (int_op oper x y)"
  by (cases oper) (auto intro!: bit_eqI simp: bit_concat_bit_iff bit_and_iff bit_or_iff bit_xor_iff)

lemma digit_op_unat:
  "int (unat (digit_op oper a b)) = int_op oper (int (unat a)) (int (unat b))"
  by (cases oper) (simp_all add: unsigned_and_eq unsigned_or_eq unsigned_xor_eq of_nat_and_eq of_nat_or_eq of_nat_xor_eq)

lemma digit_op_ok:
  assumes "digit_ok a" and "digit_ok b"
  shows "digit_ok (digit_op oper a b)"
proof -
  have "take_bit 30 (digit_op oper a b) = digit_op oper a b"
    by (rule bit_eqI, cases oper)
      (use digit_ok_bit [OF assms(1)] digit_ok_bit [OF assms(2)] in
        \<open>auto simp: bit_take_bit_iff bit_and_iff bit_or_iff bit_xor_iff\<close>)
  then have "unat (digit_op oper a b) = unat (digit_op oper a b) mod 2 ^ 30"
    by (metis unat_take_bit_mod)
  then show ?thesis
    unfolding digit_ok_def by (metis mod_less_divisor zero_less_numeral zero_less_power)
qed

lemma tc_digit_op:
  assumes "digit_ok a" and "digit_ok b"
  shows "int (unat (digit_op oper a b)) + 2 ^ 30 * int_op oper x y =
    int_op oper (int (unat a) + 2 ^ 30 * x) (int (unat b) + 2 ^ 30 * y)"
proof -
  have lt: "int (unat d) < 2 ^ 30" if "digit_ok d" for d
    using that unfolding digit_ok_def by (metis of_nat_less_numeral_power_cancel_iff)
  note c = concat_digit [OF of_nat_0_le_iff lt [OF assms(1)]] concat_digit [OF of_nat_0_le_iff lt [OF assms(2)]]
    concat_digit [OF of_nat_0_le_iff lt [OF digit_op_ok [OF assms]]]
  show ?thesis unfolding c(1,2) int_op_concat c(3) by (simp only: digit_op_unat)
qed

lemma tc_not:
  assumes "list_all digit_ok ds"
  shows "tc (\<not> neg) (map (\<lambda>d. d XOR PyLong_MASK) ds) = NOT (tc neg ds) \<and>
    list_all digit_ok (map (\<lambda>d. d XOR PyLong_MASK) ds)"
  using assms
proof (induction ds)
  case (Cons d ds)
  then have ok: "digit_ok d" by simp
  note x = unat_xor_MASK [OF ok]
  have "int (unat (d XOR PyLong_MASK)) = 2 ^ 30 - 1 - int (unat d)"
    using x(1) ok by (simp add: digit_ok_def of_nat_diff)
  then show ?case using Cons x(2) by (simp add: not_int_def algebra_simps)
qed (simp add: not_int_def)

text \<open>The sign and the size of the result, as the \<open>switch\<close> of the source computes them.\<close>

definition bitwise_shape :: "bitop \<Rightarrow> bool \<Rightarrow> bool \<Rightarrow> nat \<Rightarrow> nat \<Rightarrow> bool \<times> nat" where
  "bitwise_shape oper nega negb size_a size_b =
     (case oper of
        BitXor \<Rightarrow> (nega \<noteq> negb, size_a)
      | BitAnd \<Rightarrow> (nega \<and> negb, if negb then size_a else size_b)
      | BitOr \<Rightarrow> (nega \<or> negb, if negb then size_b else size_a))"

lemma bitwise_rest:
  assumes "list_all digit_ok as" and "bitwise_shape oper nega negb (length as) 0 = (negz, rest)"
  shows "length (bitwise_digits oper negb rest as []) = rest \<and>
    list_all digit_ok (bitwise_digits oper negb rest as []) \<and>
    tc negz (bitwise_digits oper negb rest as []) = int_op oper (tc nega as) (tc negb [])"
  using assms tc_not [OF assms(1), of nega]
  by (cases oper; cases negb) (auto simp: bitwise_shape_def simp del: tc_simps(2))

lemma bitwise_shape_Suc:
  "bitwise_shape oper nega negb (Suc m) (Suc n) =
    (let (negz, sz) = bitwise_shape oper nega negb m n in (negz, Suc sz))"
  by (cases oper) (simp_all add: bitwise_shape_def)

lemma bitwise_digits_correct:
  assumes "list_all digit_ok as" and "list_all digit_ok bs" and "length bs \<le> length as"
    and "bitwise_shape oper nega negb (length as) (length bs) = (negz, size_z)"
  shows "length (bitwise_digits oper negb (size_z - length bs) as bs) = size_z \<and>
    list_all digit_ok (bitwise_digits oper negb (size_z - length bs) as bs) \<and>
    tc negz (bitwise_digits oper negb (size_z - length bs) as bs) = int_op oper (tc nega as) (tc negb bs)"
  using assms
proof (induction bs arbitrary: as size_z)
  case Nil
  then show ?case using bitwise_rest [of as oper nega negb negz size_z] by simp
next
  case (Cons b bs)
  then obtain a as' where as: "as = a # as'" by (cases as) auto
  obtain sz where sz: "bitwise_shape oper nega negb (length as') (length bs) = (negz, sz)" "size_z = Suc sz"
    using Cons.prems(4) by (auto simp: as bitwise_shape_Suc Let_def split: prod.splits)
  have ok: "digit_ok a" "digit_ok b" using Cons.prems as by simp_all
  have IH: "length (bitwise_digits oper negb (sz - length bs) as' bs) = sz"
    "list_all digit_ok (bitwise_digits oper negb (sz - length bs) as' bs)"
    "tc negz (bitwise_digits oper negb (sz - length bs) as' bs) = int_op oper (tc nega as') (tc negb bs)"
    using Cons.IH [of as' sz] Cons.prems sz as by simp_all
  then show ?case using sz as digit_op_ok [OF ok] tc_digit_op [OF ok] by simp
qed

section \<open>The result object\<close>

lemma unat_PyLong_MASK: "unat PyLong_MASK = 2 ^ 30 - 1" "digit_ok PyLong_MASK"
  by (simp_all add: PyLong_MASK_eq mask_eq_exp_minus_1 digit_ok_def)

lemma bitwise_result:
  assumes ok: "list_all digit_ok ds"
    and r: "r = rbind (PyLong_New (int (length ds + (if negz then 1 else 0)))) (\<lambda>z.
      if negz then
        rbind (v_complement (ds @ [PyLong_MASK])) (\<lambda>ds.
          Inr (maybe_small_long (long_normalize (z\<lparr>ob_size := - ob_size z, ob_digit := ds\<rparr>))))
      else Inr (maybe_small_long (long_normalize (z\<lparr>ob_digit := ds\<rparr>))))"
  shows "case r of Inl e \<Rightarrow> e = OverflowError \<and> MAX_LONG_DIGITS < int (length ds + 1)
    | Inr z \<Rightarrow> wf_long z \<and> long_val z = tc negz ds \<and> fresh_or_small z"
proof (cases "int (length ds + (if negz then 1 else 0)) > MAX_LONG_DIGITS")
  case True
  then show ?thesis using r by (auto simp: PyLong_New_def split: if_splits)
next
  case room: False
  show ?thesis
  proof (cases negz)
    case False
    have f: "wf_long (long_normalize \<lparr>ob_refcnt = 1, ob_size = int (length ds), ob_digit = ds\<rparr>)"
      "long_val (long_normalize \<lparr>ob_refcnt = 1, ob_size = int (length ds), ob_digit = ds\<rparr>) = int (dval ds)"
      using fill_normalize(1,2) [OF ok, of "int (length ds)" 1] room False by simp_all
    have "r = Inr (maybe_small_long (long_normalize \<lparr>ob_refcnt = 1, ob_size = int (length ds), ob_digit = ds\<rparr>))"
      using r room False by (simp add: PyLong_New_def)
    then show ?thesis
      using maybe_small_long_correct [OF f(1)] f(2) False by (simp add: tc_def fresh_maybe_small)
  next
    case True
    let ?n = "length ds"
    have okM: "list_all digit_ok (ds @ [PyLong_MASK])" using ok unat_PyLong_MASK(2) by simp
    have dM: "dval (ds @ [PyLong_MASK]) = dval ds + 2 ^ (30 * ?n) * (2 ^ 30 - 1)"
      by (simp add: dval_append unat_PyLong_MASK(1))
    obtain zs where zs: "v_complement (ds @ [PyLong_MASK]) = Inr zs" "length zs = ?n + 1" "list_all digit_ok zs"
      "dval zs + dval (ds @ [PyLong_MASK]) = 2 ^ (30 * (?n + 1))"
      using v_complement_correct [OF okM] dM by auto
    have "(2 :: nat) ^ (30 * (?n + 1)) = 2 ^ (30 * ?n) * (2 ^ 30 - 1) + 2 ^ (30 * ?n)"
      by (simp add: power_add)
    then have "dval zs + dval ds = 2 ^ (30 * ?n)" using zs(4) dM by simp
    then have "int (dval zs + dval ds) = int (2 ^ (30 * ?n))" by (rule arg_cong)
    then have v: "- int (dval zs) = tc negz ds" using True by (simp add: tc_def)
    let ?z = "\<lparr>ob_refcnt = 1, ob_size = - int (?n + 1), ob_digit = zs\<rparr>"
    have f: "wf_long (long_normalize ?z)" "long_val (long_normalize ?z) = - int (dval zs)"
      using fill_normalize(1,2) [OF zs(3), of "- int (?n + 1)" 1] room zs(2) True by simp_all
    have "r = Inr (maybe_small_long (long_normalize ?z))"
      using r room True zs(1) by (simp add: PyLong_New_def)
    then show ?thesis
      using maybe_small_long_correct [OF f(1)] f(2) v by (simp add: fresh_maybe_small)
  qed
qed

lemma int_op_commute: "int_op oper x y = int_op oper y x"
  by (cases oper) (simp_all add: and.commute or.commute xor.commute)

lemma long_bitwise_cases:
  assumes a: "wf_long a" and b: "wf_long b"
  shows "case long_bitwise a oper b of
      Inl e \<Rightarrow> e = OverflowError \<and> MAX_LONG_DIGITS < int (max (nd a) (nd b) + 1)
    | Inr z \<Rightarrow> wf_long z \<and> long_val z = int_op oper (long_val a) (long_val b) \<and> fresh_or_small z"
proof -
  obtain as nega where as: "bitwise_operand a = Inr (as, nega)" "length as = nd a" "list_all digit_ok as"
    "tc nega as = long_val a" using bitwise_operand_correct [OF a] by blast
  obtain bs negb where bs: "bitwise_operand b = Inr (bs, negb)" "length bs = nd b" "list_all digit_ok bs"
    "tc negb bs = long_val b" using bitwise_operand_correct [OF b] by blast
  obtain xs negx ys negy where xy:
    "(if length as < length bs then (bs, negb, as, nega) else (as, nega, bs, negb)) = (xs, negx, ys, negy)"
    by (metis prod_cases4)
  have xys: "list_all digit_ok xs" "list_all digit_ok ys" "length ys \<le> length xs"
    "length xs = max (nd a) (nd b)"
    "int_op oper (tc negx xs) (tc negy ys) = int_op oper (long_val a) (long_val b)"
    using xy as bs by (auto simp: int_op_commute [of oper "long_val b"] split: if_splits)
  obtain negz size_z where sh: "bitwise_shape oper negx negy (length xs) (length ys) = (negz, size_z)"
    by fastforce
  note d = bitwise_digits_correct [OF xys(1,2,3) sh]
  let ?ds = "bitwise_digits oper negy (size_z - length ys) xs ys"
  have "long_bitwise a oper b = rbind (PyLong_New (int (length ?ds + (if negz then 1 else 0)))) (\<lambda>z.
      if negz then
        rbind (v_complement (?ds @ [PyLong_MASK])) (\<lambda>ds.
          Inr (maybe_small_long (long_normalize (z\<lparr>ob_size := - ob_size z, ob_digit := ds\<rparr>))))
      else Inr (maybe_small_long (long_normalize (z\<lparr>ob_digit := ?ds\<rparr>))))"
    using d unfolding long_bitwise_def as(1) bs(1) rbind_simps prod.case xy Let_def
      bitwise_shape_def [symmetric] sh by simp
  note r = bitwise_result [OF conjunct1 [OF conjunct2 [OF d]] this]
  have "size_z \<le> length xs"
    using sh xys(3) by (cases oper) (auto simp: bitwise_shape_def split: if_splits)
  then show ?thesis using r d xys by (auto split: sum.splits)
qed

interpretation long_and: int_binop long_and "(AND)" "\<lambda>a b. max (nd a) (nd b) + 1"
proof (unfold_locales, goal_cases)
  case (1 a b z)
  then show ?case using long_bitwise_cases [of a b BitAnd] by (simp add: long_and_def)
next
  case (2 a b z)
  then show ?case using long_bitwise_cases [of a b BitAnd] by (simp add: long_and_def)
next
  case (3 a b e)
  then show ?case using long_bitwise_cases [of a b BitAnd] by (simp add: long_and_def)
qed

interpretation long_or: int_binop long_or "(OR)" "\<lambda>a b. max (nd a) (nd b) + 1"
proof (unfold_locales, goal_cases)
  case (1 a b z)
  then show ?case using long_bitwise_cases [of a b BitOr] by (simp add: long_or_def)
next
  case (2 a b z)
  then show ?case using long_bitwise_cases [of a b BitOr] by (simp add: long_or_def)
next
  case (3 a b e)
  then show ?case using long_bitwise_cases [of a b BitOr] by (simp add: long_or_def)
qed

interpretation long_xor: int_binop long_xor "(XOR)" "\<lambda>a b. max (nd a) (nd b) + 1"
proof (unfold_locales, goal_cases)
  case (1 a b z)
  then show ?case using long_bitwise_cases [of a b BitXor] by (simp add: long_xor_def)
next
  case (2 a b z)
  then show ?case using long_bitwise_cases [of a b BitXor] by (simp add: long_xor_def)
next
  case (3 a b e)
  then show ?case using long_bitwise_cases [of a b BitXor] by (simp add: long_xor_def)
qed

section \<open>Property\<close>

text \<open>
  C9: The operators \<open>&\<close>, \<open>|\<close> and \<open>^\<close> of integer objects are the bitwise operations of the
  integers in infinite two's complement. Whenever the result has room they return a well-formed
  object with that value, whatever the signs and the lengths of the operands; no assertion about
  the carry out of a complement fails.
\<close>

theorem long_bitwise_exact:
  assumes "wf_long a" and "wf_long b" and "int (max (nd a) (nd b) + 1) \<le> MAX_LONG_DIGITS"
  shows "(\<exists>z. long_and a b = Inr z \<and> wf_long z \<and> long_val z = long_val a AND long_val b) \<and>
    (\<exists>z. long_or a b = Inr z \<and> wf_long z \<and> long_val z = long_val a OR long_val b) \<and>
    (\<exists>z. long_xor a b = Inr z \<and> wf_long z \<and> long_val z = long_val a XOR long_val b)"
  using long_and.returns [OF assms] long_or.returns [OF assms] long_xor.returns [OF assms] by blast

lemma long_bitwise_exact_witness:
  "\<exists>z. long_xor two_digits one_digit = Inr z \<and> wf_long z \<and> long_val z = -3221225479 XOR 5"
proof -
  have "int (max (nd two_digits) (nd one_digit) + 1) \<le> MAX_LONG_DIGITS"
    by (simp add: samples_nd MAX_LONG_DIGITS_def PY_SSIZE_T_MAX_def)
  from long_bitwise_exact [OF samples_wf this] show ?thesis by (simp add: samples_val)
qed

end
