(* ===== verification/PyLongBytes.thy ===== *)
theory PyLongBytes
  imports PyLongBits
begin

text \<open>
  Integers from byte arrays: \<open>_PyLong_FromByteArray\<close> of \<open>Objects/longobject.c\<close>. It repacks 8-bit
  units into 30-bit digits through a sliding register and undoes the two's complement on the fly.
  \<^item> The array is a list of bytes and a pointer into it an index of type \<open>int\<close>; \<open>byte_at\<close> and
    \<open>byte_put\<close> are the accesses through the pointer, and one outside of the array is
    \<open>AssertionFailed\<close>.
  \<^item> \<open>accum\<close> and \<open>carry\<close> have the widths of the source. The counters of bits and bytes are
    natural numbers: \<open>accumbits\<close> is at most 37 and \<open>i\<close>, \<open>idigit\<close> are at most the lengths of the
    arrays.
  \<^item> \<open>bytes_int\<close> says which integer an array denotes; \<open>PyLong_FromByteArray_correct\<close> shows that
    the routine computes it, in both byte orders.
\<close>

section \<open>Access through a pointer\<close>

definition byte_at :: "py_byte list \<Rightarrow> int \<Rightarrow> py_byte pyres" where
  "byte_at bytes p =
     (if 0 \<le> p \<and> p < int (length bytes) then Inr (bytes ! nat p) else Inl AssertionFailed)"

definition byte_put :: "py_byte list \<Rightarrow> int \<Rightarrow> py_byte \<Rightarrow> py_byte list pyres" where
  "byte_put bytes p b =
     (if 0 \<le> p \<and> p < int (length bytes) then Inr (bytes[nat p := b]) else Inl AssertionFailed)"

section \<open>From bytes\<close>

text \<open>The search for the most significant byte.\<close>

function sig_loop :: "py_byte list \<Rightarrow> py_byte \<Rightarrow> int \<Rightarrow> nat \<Rightarrow> nat \<Rightarrow> int \<Rightarrow> nat pyres" where
  "sig_loop bytes insignificant pincr n i p =
     (if i < n then
        rbind (byte_at bytes p) (\<lambda>b.
          if b \<noteq> insignificant then Inr i
          else sig_loop bytes insignificant pincr n (i + 1) (p + pincr))
      else Inr i)"
  by pat_completeness auto
termination by (relation "measure (\<lambda>(bytes, ins, pincr, n, i, p). n - i)") simp_all

declare sig_loop.simps [simp del]

record fb_state =
  fb_carry :: twodigits
  fb_accum :: twodigits
  fb_accumbits :: nat
  fb_idigit :: nat
  fb_digit :: "digit list"

definition from_bytes_step :: "bool \<Rightarrow> py_byte \<Rightarrow> fb_state \<Rightarrow> fb_state pyres" where
  "from_bytes_step is_signed b s =
     (let thisbyte = (if is_signed then (0xff XOR ucast b) + fb_carry s else ucast b);
          carry = (if is_signed then drop_bit 8 thisbyte else fb_carry s);
          thisbyte = (if is_signed then thisbyte AND 0xff else thisbyte);
          accum = fb_accum s OR push_bit (fb_accumbits s) thisbyte;
          accumbits = fb_accumbits s + 8
      in if accumbits \<ge> PyLong_SHIFT then
           rbind (c_assert (fb_idigit s < length (fb_digit s))) (\<lambda>_.
           rbind (c_assert (accumbits - PyLong_SHIFT < PyLong_SHIFT)) (\<lambda>_.
             Inr \<lparr>fb_carry = carry,
                  fb_accum = drop_bit PyLong_SHIFT accum,
                  fb_accumbits = accumbits - PyLong_SHIFT,
                  fb_idigit = fb_idigit s + 1,
                  fb_digit = (fb_digit s)[fb_idigit s := ucast (accum AND ucast PyLong_MASK)]\<rparr>))
         else Inr (s\<lparr>fb_carry := carry, fb_accum := accum, fb_accumbits := accumbits\<rparr>))"

function from_bytes_loop ::
  "py_byte list \<Rightarrow> bool \<Rightarrow> int \<Rightarrow> nat \<Rightarrow> nat \<Rightarrow> int \<Rightarrow> fb_state \<Rightarrow> fb_state pyres" where
  "from_bytes_loop bytes is_signed incr m i p s =
     (if i < m then
        rbind (byte_at bytes p) (\<lambda>b.
        rbind (from_bytes_step is_signed b s) (\<lambda>s.
          from_bytes_loop bytes is_signed incr m (i + 1) (p + incr) s))
      else Inr s)"
  by pat_completeness auto
termination by (relation "measure (\<lambda>(bytes, g, incr, m, i, p, s). m - i)") simp_all

declare from_bytes_loop.simps [simp del]

text \<open>The digit that is left in the register.\<close>

definition fb_finish :: "nat \<Rightarrow> fb_state \<Rightarrow> (digit list \<times> nat) pyres" where
  "fb_finish ndigits s =
     (if fb_accumbits s \<noteq> 0 then
        rbind (c_assert (fb_idigit s < ndigits)) (\<lambda>_.
          Inr ((fb_digit s)[fb_idigit s := ucast (fb_accum s)], fb_idigit s + 1))
      else Inr (fb_digit s, fb_idigit s))"

definition PyLong_FromByteArray :: "py_byte list \<Rightarrow> bool \<Rightarrow> bool \<Rightarrow> pylong pyres" where
  "PyLong_FromByteArray bytes little_endian is_signed =
     (let n = length bytes
      in if n = 0 then PyLong_FromLong 0
         else
           let pstartbyte = (if little_endian then 0 else int n - 1);
               pendbyte = (if little_endian then int n - 1 else 0);
               incr = (if little_endian then 1 else -1)
           in rbind (byte_at bytes pendbyte) (\<lambda>b.
              let is_signed = (is_signed \<and> b \<ge> 0x80);
                  insignificant = (if is_signed then 0xff else 0)
              in rbind (sig_loop bytes insignificant (- incr) n 0 pendbyte) (\<lambda>i.
                 let numsignificantbytes = n - i;
                     numsignificantbytes =
                       (if is_signed \<and> numsignificantbytes < n then numsignificantbytes + 1
                        else numsignificantbytes)
                 in if int numsignificantbytes > (PY_SSIZE_T_MAX - int PyLong_SHIFT) div 8
                    then Inl OverflowError
                    else
                      let ndigits = (numsignificantbytes * 8 + PyLong_SHIFT - 1) div PyLong_SHIFT
                      in rbind (PyLong_New (int ndigits)) (\<lambda>v.
                         rbind (from_bytes_loop bytes is_signed incr numsignificantbytes 0 pstartbyte
                                  \<lparr>fb_carry = 1, fb_accum = 0, fb_accumbits = 0, fb_idigit = 0,
                                   fb_digit = ob_digit v\<rparr>) (\<lambda>s.
                         rbind (c_assert (fb_accumbits s < PyLong_SHIFT)) (\<lambda>_.
                         rbind (fb_finish ndigits s) (\<lambda>(ds, idigit).
                           Inr (long_normalize
                             (v\<lparr>ob_size := (if is_signed then - int idigit else int idigit),
                                ob_digit := ds\<rparr>)))))))))"

section \<open>The value of an array\<close>

primrec bval :: "py_byte list \<Rightarrow> nat" where
  "bval [] = 0"
| "bval (b # bs) = unat b + 2 ^ 8 * bval bs"

text \<open>The integer an array denotes: the sign is the highest bit of the most significant byte.\<close>

definition bytes_int :: "bool \<Rightarrow> bool \<Rightarrow> py_byte list \<Rightarrow> int" where
  "bytes_int little_endian is_signed bytes =
     (let bs = (if little_endian then bytes else rev bytes)
      in if is_signed \<and> bs \<noteq> [] \<and> 128 \<le> unat (last bs)
         then int (bval bs) - 2 ^ (8 * length bs) else int (bval bs))"

lemma bval_append: "bval (xs @ ys) = bval xs + 2 ^ (8 * length xs) * bval ys"
  by (induction xs) (simp_all add: algebra_simps power_add)

lemma unat_byte_less: "unat (b :: py_byte) < 256"
  using unsigned_less [of b] by simp

lemma bval_bound: "bval bs < 2 ^ (8 * length bs)"
proof (induction bs)
  case (Cons b bs)
  have "unat b + 2 ^ 8 * bval bs < 2 ^ 8 + 2 ^ 8 * bval bs" using unat_byte_less [of b] by simp
  also have "\<dots> = 2 ^ 8 * Suc (bval bs)" by simp
  also have "\<dots> \<le> 2 ^ 8 * 2 ^ (8 * length bs)" using Cons by (intro mult_le_mono2) (simp add: Suc_le_eq)
  finally show ?case by (simp add: power_add)
qed simp

lemma bval_take_Suc: "i < length bs \<Longrightarrow> bval (take (Suc i) bs) = bval (take i bs) + 2 ^ (8 * i) * unat (bs ! i)"
  by (simp add: take_Suc_conv_app_nth bval_append)

lemma bval_zeros: "\<forall>b\<in>set bs. b = 0 \<Longrightarrow> bval bs = 0"
  by (induction bs) simp_all

lemma bval_ones: "\<forall>b\<in>set bs. b = 0xff \<Longrightarrow> bval bs + 1 = 2 ^ (8 * length bs)"
  by (induction bs) (simp_all add: power_add)

lemma bval_nonzero: "b \<in> set bs \<Longrightarrow> b \<noteq> 0 \<Longrightarrow> bval bs \<noteq> 0"
  by (induction bs) (auto simp: unat_eq_zero)

section \<open>Walking an array in the order of significance\<close>

definition bytes_lsb :: "bool \<Rightarrow> py_byte list \<Rightarrow> py_byte list" where
  "bytes_lsb little_endian bytes = (if little_endian then bytes else rev bytes)"

definition cursor :: "bool \<Rightarrow> nat \<Rightarrow> int \<Rightarrow> int" where
  "cursor little_endian n c = (if little_endian then c else int n - 1 - c)"

lemma length_bytes_lsb [simp]: "length (bytes_lsb little bytes) = length bytes"
  by (simp add: bytes_lsb_def)

lemma bytes_lsb_inverse [simp]: "bytes_lsb little (bytes_lsb little bytes) = bytes"
  by (simp add: bytes_lsb_def)

lemma cursor_step:
  "cursor little n c + (if little then 1 else -1) = cursor little n (c + 1)"
  "cursor little n c + - (if little then 1 else -1) = cursor little n (c - 1)"
  by (simp_all add: cursor_def)

lemma byte_at_cursor:
  assumes "i < length bytes"
  shows "byte_at bytes (cursor little (length bytes) (int i)) = Inr (bytes_lsb little bytes ! i)"
proof -
  have "nat (int (length bytes) - 1 - int i) = length bytes - Suc i" by simp
  then show ?thesis using assms by (auto simp: byte_at_def cursor_def bytes_lsb_def rev_nth)
qed

section \<open>The significant bytes\<close>

lemma sig_loop_correct:
  assumes "i \<le> length bytes"
  shows "\<exists>k. sig_loop bytes ins (- (if little then 1 else -1)) (length bytes) i
              (cursor little (length bytes) (int (length bytes) - 1 - int i)) = Inr k \<and>
            i \<le> k \<and> k \<le> length bytes \<and>
            (\<forall>j. length bytes - k \<le> j \<longrightarrow> j < length bytes - i \<longrightarrow> bytes_lsb little bytes ! j = ins) \<and>
            (k < length bytes \<longrightarrow> bytes_lsb little bytes ! (length bytes - 1 - k) \<noteq> ins)"
  using assms
proof (induction "length bytes - i" arbitrary: i)
  case 0
  then show ?case by (intro exI [of _ i]) (auto simp: sig_loop.simps)
next
  case (Suc m)
  let ?n = "length bytes" and ?bs = "bytes_lsb little bytes"
  have lt: "i < ?n" using Suc.hyps(2) by simp
  have c: "int ?n - 1 - int i = int (?n - 1 - i)" using lt by simp
  have at: "byte_at bytes (cursor little ?n (int ?n - 1 - int i)) = Inr (?bs ! (?n - 1 - i))"
    unfolding c by (rule byte_at_cursor) (use lt in simp)
  show ?case
  proof (cases "?bs ! (?n - 1 - i) = ins")
    case False
    then show ?thesis using lt at
      by (intro exI [of _ i]) (auto simp: sig_loop.simps [of _ _ _ _ i])
  next
    case True
    have p: "cursor little ?n (int ?n - 1 - int i) + - (if little then 1 else -1)
        = cursor little ?n (int ?n - 1 - int (i + 1))"
      by (simp only: cursor_step) simp
    have m1: "m = ?n - (i + 1)" "i + 1 \<le> ?n" using Suc.hyps(2) lt by simp_all
    obtain k where k: "sig_loop bytes ins (- (if little then 1 else -1)) ?n (i + 1)
              (cursor little ?n (int ?n - 1 - int (i + 1))) = Inr k"
            "i + 1 \<le> k" "k \<le> ?n" "\<And>j. ?n - k \<le> j \<Longrightarrow> j < ?n - (i + 1) \<Longrightarrow> ?bs ! j = ins"
            "k < ?n \<Longrightarrow> ?bs ! (?n - 1 - k) \<noteq> ins"
      using Suc.hyps(1) [OF m1] by blast
    have "sig_loop bytes ins (- (if little then 1 else -1)) ?n i
              (cursor little ?n (int ?n - 1 - int i)) = Inr k"
      using lt at True k(1) by (subst sig_loop.simps) (simp only: p rbind_simps if_True if_False simp_thms)
    moreover have "?bs ! j = ins" if "?n - k \<le> j" "j < ?n - i" for j
      using k(4) [of j] True that by (cases "j = ?n - 1 - i") auto
    ultimately show ?thesis using k(2,3,5) by (intro exI [of _ k]) auto
  qed
qed


section \<open>Repacking bytes into digits\<close>

text \<open>
  The register: the digits written so far and what is left in \<open>accum\<close> hold the bytes read, or
  their two's complement together with the carry.
\<close>

definition fb_val :: "fb_state \<Rightarrow> nat" where
  "fb_val s = dval (take (fb_idigit s) (fb_digit s)) + 2 ^ (30 * fb_idigit s) * unat (fb_accum s)"

definition fb_inv :: "bool \<Rightarrow> nat \<Rightarrow> py_byte list \<Rightarrow> fb_state \<Rightarrow> bool" where
  "fb_inv is_signed ndigits bs s \<longleftrightarrow>
     unat (fb_carry s) \<le> 1 \<and> unat (fb_accum s) < 2 ^ fb_accumbits s \<and> fb_accumbits s < 30 \<and>
     30 * fb_idigit s + fb_accumbits s = 8 * length bs \<and> length (fb_digit s) = ndigits \<and>
     list_all digit_ok (take (fb_idigit s) (fb_digit s)) \<and>
     (if is_signed then fb_val s + 2 ^ (8 * length bs) * unat (fb_carry s) + bval bs = 2 ^ (8 * length bs)
      else fb_val s = bval bs)"

lemma unat_xor_mask:
  fixes x :: "'a::len word"
  assumes "unat x < 2 ^ n"
  shows "unat (mask n XOR x) + unat x = unat (mask n :: 'a word)"
proof -
  have xm: "x = take_bit n x"
    using assms by (simp add: word_unat_eq_iff unat_take_bit_mod)
  have b: "k < n" if "bit x k" for k
    using that by (subst (asm) xm) (simp add: bit_take_bit_iff)
  have "(mask n XOR x) AND x = 0"
    by (rule bit_eqI) (use b in \<open>auto simp: bit_xor_iff bit_and_iff bit_mask_iff\<close>)
  then have "(mask n XOR x) + x = (mask n XOR x) OR x" by (rule disjunctive_add_eq_or)
  also have "\<dots> = mask n"
    by (rule bit_eqI) (use b bit_imp_le_length in \<open>fastforce simp: bit_xor_iff bit_or_iff bit_mask_iff\<close>)
  finally have e: "(mask n XOR x) + x = mask n" .
  moreover have "x \<le> mask n" 
    using xm by (metis take_bit_eq_mask word_and_le1)
  ultimately show ?thesis by (metis add_diff_cancel_right' le_add_diff_inverse2 unat_sub word_le_nat_alt)
qed

lemma twos_byte:
  fixes b :: py_byte and c :: twodigits
  assumes "unat c \<le> 1"
  defines "t \<equiv> (0xff XOR ucast b) + c"
  shows "unat (t AND 0xff) + 256 * unat (drop_bit 8 t) + unat b = 255 + unat c"
    and "unat (t AND 0xff) < 256" and "unat (drop_bit 8 t) \<le> 1"
proof -
  have m: "(0xff :: twodigits) = mask 8" by (simp add: mask_eq_exp_minus_1)
  have u: "unat (ucast b :: twodigits) = unat b" by (simp add: unat_ucast_up)
  have x: "unat ((0xff :: twodigits) XOR ucast b) + unat b = 255"
    using unat_xor_mask [of "ucast b :: twodigits" 8] unat_byte_less [of b] u m by simp
  have t: "unat t + unat b = 255 + unat c"
    unfolding t_def using x assms(1) by (subst unat_add_small) simp_all
  have a: "unat (t AND 0xff) = unat t mod 256" unfolding m by (simp add: unat_and_mask)
  have d: "unat (drop_bit 8 t) = unat t div 256" by (simp add: unat_drop_bit_div)
  show "unat (t AND 0xff) + 256 * unat (drop_bit 8 t) + unat b = 255 + unat c"
    unfolding a d using t mod_mult_div_eq [of "unat t" 256] by linarith
  show "unat (t AND 0xff) < 256" "unat (drop_bit 8 t) \<le> 1"
    unfolding a d using t assms(1) by simp_all
qed


lemma from_bytes_step_inv:
  assumes inv: "fb_inv is_signed ndigits bs s" and room: "8 * (length bs + 1) \<le> 30 * ndigits + 29"
  shows "\<exists>s'. from_bytes_step is_signed b s = Inr s' \<and> fb_inv is_signed ndigits (bs @ [b]) s'"
proof -
  define t where "t = (0xff XOR ucast b) + fb_carry s"
  define tb where "tb = (if is_signed then t AND 0xff else ucast b)"
  define c where "c = (if is_signed then drop_bit 8 t else fb_carry s)"
  define k where "k = fb_accumbits s"
  define A where "A = fb_accum s OR push_bit k tb"
  let ?id = "fb_idigit s" and ?ds = "fb_digit s"
  have inv': "unat (fb_carry s) \<le> 1" "unat (fb_accum s) < 2 ^ k" "k < 30"
    "30 * ?id + k = 8 * length bs" "length ?ds = ndigits" "list_all digit_ok (take ?id ?ds)"
    using inv by (simp_all add: fb_inv_def k_def)
  note tw = twos_byte [OF inv'(1), of b, folded t_def]
  have tb: "unat tb < 256" using tw(2) unat_byte_less [of b] by (simp add: tb_def unat_ucast_up)
  have c1: "unat c \<le> 1" using tw(3) inv'(1) by (simp add: c_def)
  have "unat tb * 2 ^ k < 2 ^ 8 * 2 ^ k" using tb by simp
  also have "\<dots> = 2 ^ (8 + k)" by (simp only: power_add)
  also have "\<dots> \<le> 2 ^ 38" using inv'(3) by (intro power_increasing) simp_all
  finally have small: "unat tb * 2 ^ k < 2 ^ 38" .
  have pb: "unat (push_bit k tb) = unat tb * 2 ^ k" using small by (intro unat_push_bit_small) simp
  have A: "unat A = unat (fb_accum s) + unat tb * 2 ^ k"
    unfolding A_def using unat_or_disjoint [OF pb inv'(2)] by (simp add: or.commute pb)
  have Ab: "unat A < 2 ^ (k + 8)"
  proof -
    have "unat A < 2 ^ k + unat tb * 2 ^ k" using A inv'(2) by simp
    also have "\<dots> = 2 ^ k * Suc (unat tb)" by simp
    also have "\<dots> \<le> 2 ^ k * 2 ^ 8" using tb by (intro mult_le_mono2) simp
    finally show ?thesis by (simp only: power_add)
  qed
  have pw: "(2 :: nat) ^ (30 * ?id) * 2 ^ k = 2 ^ (8 * length bs)"
    by (simp only: power_add [symmetric] inv'(4))
  define V where "V = dval (take ?id ?ds) + 2 ^ (30 * ?id) * unat A"
  have V: "V = fb_val s + 2 ^ (8 * length bs) * unat tb"
    unfolding V_def fb_val_def A using pw by (simp add: algebra_simps)
  have val: "if is_signed then V + 2 ^ (8 * length (bs @ [b])) * unat c + bval (bs @ [b])
      = 2 ^ (8 * length (bs @ [b])) else V = bval (bs @ [b])"
  proof (cases is_signed)
    case True
    have p8: "(2 :: nat) ^ (8 * length (bs @ [b])) = 2 ^ (8 * length bs) * 256" by (simp add: power_add)
    have e: "fb_val s + 2 ^ (8 * length bs) * unat (fb_carry s) + bval bs = 2 ^ (8 * length bs)"
      using inv True by (simp add: fb_inv_def)
    have "2 ^ (8 * length bs) * (unat tb + 256 * unat c + unat b)
        = 2 ^ (8 * length bs) * (255 + unat (fb_carry s))"
      using tw(1) True by (simp add: tb_def c_def)
    then have "V + 2 ^ (8 * length (bs @ [b])) * unat c + bval (bs @ [b])
        = fb_val s + bval bs + 2 ^ (8 * length bs) * (255 + unat (fb_carry s))"
      unfolding V bval_append p8 by (simp add: algebra_simps)
    also have "\<dots> = 2 ^ (8 * length (bs @ [b]))" unfolding p8 using e by (simp add: algebra_simps)
    finally show ?thesis using True by simp
  next
    case False
    then show ?thesis using inv V by (simp add: fb_inv_def bval_append tb_def unat_ucast_up)
  qed
  show ?thesis
  proof (cases "k + 8 \<ge> 30")
    case True
    let ?s' = "\<lparr>fb_carry = c, fb_accum = drop_bit 30 A, fb_accumbits = k + 8 - 30, fb_idigit = ?id + 1,
                fb_digit = ?ds[?id := ucast (A AND ucast PyLong_MASK)]\<rparr>"
    have id: "?id < ndigits" using True room inv'(4) by simp
    have st: "from_bytes_step is_signed b s = Inr ?s'"
      using True id inv'(3,5) by (simp add: from_bytes_step_def Let_def t_def tb_def c_def A_def k_def
          PyLong_SHIFT_def c_assert_def)
    have tk: "take (?id + 1) (?ds[?id := ucast (A AND ucast PyLong_MASK)])
        = take ?id ?ds @ [ucast (A AND ucast PyLong_MASK)]"
      using id inv'(5) by (simp add: take_Suc_conv_app_nth)
    have l: "length (take ?id ?ds) = ?id" using id inv'(5) by simp
    have "fb_val ?s' = dval (take ?id ?ds @ [ucast (A AND ucast PyLong_MASK)])
        + 2 ^ (30 * (?id + 1)) * unat (drop_bit 30 A)"
      by (simp only: fb_val_def fb_state.select_convs tk)
    also have "\<dots> = dval (take ?id ?ds) + 2 ^ (30 * ?id) * (unat A mod 2 ^ 30 + 2 ^ 30 * (0 + unat A div 2 ^ 30))"
      unfolding dval_append l dval.simps unat_ucast_and_MASK64 unat_drop_bit_div
      by (simp only: distrib_left mult_1_right power_add mult_0_right add_0_right add_0_left mult.assoc add.assoc)
    also have "\<dots> = V" by (simp only: split_nat_30 mult_0_right add_0_right V_def)
    finally have "fb_val ?s' = V" .
    moreover have "unat (drop_bit 30 A) < 2 ^ (k + 8 - 30)"
    proof -
      have "(2 :: nat) ^ (k + 8) = 2 ^ (k + 8 - 30) * 2 ^ 30" using True by (simp only: power_add [symmetric]) simp
      then show ?thesis using Ab unfolding unat_drop_bit_div by (simp only: less_mult_imp_div_less)
    qed
    ultimately have "fb_inv is_signed ndigits (bs @ [b]) ?s'"
      using val c1 True inv' id tk by (cases is_signed) (simp_all add: fb_inv_def list_all_append)
    then show ?thesis using st by blast
  next
    case False
    let ?s' = "s\<lparr>fb_carry := c, fb_accum := A, fb_accumbits := k + 8\<rparr>"
    have st: "from_bytes_step is_signed b s = Inr ?s'"
      using False by (simp add: from_bytes_step_def Let_def t_def tb_def c_def A_def k_def PyLong_SHIFT_def)
    have "fb_val ?s' = V" by (simp add: fb_val_def V_def)
    then have "fb_inv is_signed ndigits (bs @ [b]) ?s'"
      using val c1 False inv' Ab by (cases is_signed) (simp_all add: fb_inv_def)
    then show ?thesis using st by blast
  qed
qed

lemma from_bytes_loop_inv:
  assumes "m \<le> length bytes" and "8 * m \<le> 30 * ndigits + 29" and "i \<le> m"
    and "fb_inv is_signed ndigits (take i (bytes_lsb little bytes)) s"
  shows "\<exists>s'. from_bytes_loop bytes is_signed (if little then 1 else -1) m i
                (cursor little (length bytes) (int i)) s = Inr s' \<and>
              fb_inv is_signed ndigits (take m (bytes_lsb little bytes)) s'"
  using assms(3,4)
proof (induction "m - i" arbitrary: i s)
  case 0
  then show ?case by (simp add: from_bytes_loop.simps)
next
  case (Suc k)
  let ?bs = "bytes_lsb little bytes"
  have lt: "i < m" using Suc.hyps(2) by simp
  have at: "byte_at bytes (cursor little (length bytes) (int i)) = Inr (?bs ! i)"
    by (rule byte_at_cursor) (use lt assms(1) in simp)
  have len: "length (take i ?bs) = i" using lt assms(1) by simp
  have room: "8 * (length (take i ?bs) + 1) \<le> 30 * ndigits + 29" using lt assms(2) len by simp
  obtain s1 where s1: "from_bytes_step is_signed (?bs ! i) s = Inr s1"
      "fb_inv is_signed ndigits (take i ?bs @ [?bs ! i]) s1"
    using from_bytes_step_inv [OF Suc.prems(2) room] by blast
  have "take i ?bs @ [?bs ! i] = take (i + 1) ?bs" using lt assms(1) by (simp add: take_Suc_conv_app_nth)
  then obtain s2 where s2: "from_bytes_loop bytes is_signed (if little then 1 else -1) m (i + 1)
      (cursor little (length bytes) (int (i + 1))) s1 = Inr s2" "fb_inv is_signed ndigits (take m ?bs) s2"
    using Suc.hyps(1) [of "i + 1" s1] Suc.hyps(2) lt s1(2) by fastforce
  have p: "cursor little (length bytes) (int i) + (if little then 1 else -1)
      = cursor little (length bytes) (int (i + 1))"
    by (simp only: cursor_step of_nat_add of_nat_1)
  have "from_bytes_loop bytes is_signed (if little then 1 else -1) m i
      (cursor little (length bytes) (int i)) s = Inr s2"
    using lt at s1(1) s2(1) by (subst from_bytes_loop.simps) (simp only: p rbind_simps if_True)
  then show ?case using s2(2) by blast
qed


lemma fb_finish_correct:
  assumes inv: "fb_inv is_signed ndigits bs s" and nd: "8 * length bs \<le> 30 * ndigits"
  shows "\<exists>ds id. fb_finish ndigits s = Inr (ds, id) \<and> id \<le> ndigits \<and> length ds = ndigits \<and>
           list_all digit_ok (take id ds) \<and> dval (take id ds) = fb_val s"
proof (cases "fb_accumbits s = 0")
  case True
  then show ?thesis using inv nd
    by (simp add: fb_finish_def fb_inv_def fb_val_def unat_eq_zero)
next
  case False
  let ?id = "fb_idigit s" and ?ds = "fb_digit s"
  have i: "30 * ?id + fb_accumbits s = 8 * length bs" "length ?ds = ndigits"
    "unat (fb_accum s) < 2 ^ fb_accumbits s" "fb_accumbits s < 30" "list_all digit_ok (take ?id ?ds)"
    using inv by (simp_all add: fb_inv_def)
  have lt: "?id < ndigits" using False i(1) nd by linarith
  have "(2 :: nat) ^ fb_accumbits s \<le> 2 ^ 30" using i(4) by (intro power_increasing) simp_all
  then have a: "unat (fb_accum s) < 2 ^ 30" using i(3) by linarith
  then have u: "unat (ucast (fb_accum s) :: digit) = unat (fb_accum s)" by (intro unat_ucast_small) simp
  have tk: "take (?id + 1) (?ds[?id := ucast (fb_accum s)]) = take ?id ?ds @ [ucast (fb_accum s)]"
    using lt i(2) by (simp add: take_Suc_conv_app_nth)
  have "dval (take (?id + 1) (?ds[?id := ucast (fb_accum s)])) = fb_val s"
    unfolding tk fb_val_def dval_append using lt i(2) u by simp
  moreover have "list_all digit_ok (take (?id + 1) (?ds[?id := ucast (fb_accum s)]))"
    unfolding tk using i(5) u a by (simp add: digit_ok_def)
  ultimately show ?thesis using False lt i(2)
    by (intro exI [of _ "?ds[?id := ucast (fb_accum s)]"] exI [of _ "?id + 1"])
      (simp add: fb_finish_def)
qed

text \<open>The bytes that are not read hold the sign.\<close>

lemma bval_sign_tail:
  assumes "m \<le> length bs" and "\<And>j. m \<le> j \<Longrightarrow> j < length bs \<Longrightarrow> bs ! j = (if neg then 0xff else 0)"
  shows "int (bval bs) - (if neg then 2 ^ (8 * length bs) else 0)
    = int (bval (take m bs)) - (if neg then 2 ^ (8 * m) else 0)"
proof -
  have sp: "bval bs = bval (take m bs) + 2 ^ (8 * m) * bval (drop m bs)"
    using bval_append [of "take m bs" "drop m bs"] assms(1) by (simp add: min_absorb2)
  have el: "b = (if neg then 0xff else 0)" if "b \<in> set (drop m bs)" for b
  proof -
    obtain k where "k < length (drop m bs)" "drop m bs ! k = b"
      using \<open>b \<in> set (drop m bs)\<close> by (auto simp: in_set_conv_nth)
    then show ?thesis using assms(2) [of "m + k"] assms(1) by simp
  qed
  show ?thesis
  proof (cases neg)
    case True
    have "bval (drop m bs) + 1 = 2 ^ (8 * (length bs - m))"
      using bval_ones [of "drop m bs"] el True by simp
    then have "2 ^ (8 * m) * (bval (drop m bs) + 1) = 2 ^ (8 * m) * 2 ^ (8 * (length bs - m))" by simp
    also have "\<dots> = (2 :: nat) ^ (8 * length bs)"
      using assms(1) by (simp only: power_add [symmetric]) (simp add: algebra_simps)
    finally have "bval bs + 2 ^ (8 * m) = bval (take m bs) + 2 ^ (8 * length bs)"
      unfolding sp by simp
    then have "int (bval bs + 2 ^ (8 * m)) = int (bval (take m bs) + 2 ^ (8 * length bs))" by simp
    then show ?thesis using True by simp
  next
    case False
    then show ?thesis using sp bval_zeros [of "drop m bs"] el by simp
  qed
qed

lemma PyLong_FromByteArray_correct:
  assumes len: "int (length bytes) \<le> (PY_SSIZE_T_MAX - 30) div 8"
  shows "\<exists>v. PyLong_FromByteArray bytes little is_signed = Inr v \<and> wf_long v \<and>
             long_val v = bytes_int little is_signed bytes"
proof (cases "bytes = []")
  case True
  have "PyLong_FromLong 0 = Inr (get_small_int 0)" by (simp add: PyLong_FromLong_def IS_SMALL_INT_def
    NSMALLNEGINTS_def NSMALLPOSINTS_def)
  then show ?thesis using True get_small_int_correct [of 0]
    by (simp add: PyLong_FromByteArray_def bytes_int_def IS_SMALL_INT_def NSMALLNEGINTS_def NSMALLPOSINTS_def)
next
  case False
  define n where "n = length bytes"
  define bs where "bs = bytes_lsb little bytes"
  define neg where "neg = (is_signed \<and> last bs \<ge> 0x80)"
  define ins :: py_byte where "ins = (if neg then 0xff else 0)"
  have n: "0 < n" "length bs = n" using False by (simp_all add: n_def bs_def)
  have last: "bs ! (n - 1) = last bs" using n by (simp add: last_conv_nth flip: length_greater_0_conv)
  have pend: "(if little then int n - 1 else 0) = cursor little n (int (n - 1))"
    using n by (simp add: cursor_def)
  have at: "byte_at bytes (if little then int n - 1 else 0) = Inr (last bs)"
    unfolding pend last [symmetric] unfolding n_def bs_def
    by (rule byte_at_cursor) (use False in simp)
  obtain k where k: "sig_loop bytes ins (- (if little then 1 else -1)) n 0
        (if little then int n - 1 else 0) = Inr k" "k \<le> n"
      "\<And>j. n - k \<le> j \<Longrightarrow> j < n \<Longrightarrow> bs ! j = ins" "k < n \<Longrightarrow> bs ! (n - 1 - k) \<noteq> ins"
  proof -
    have "(if little then int n - 1 else 0) = cursor little n (int n - 1 - int 0)"
      by (simp add: cursor_def)
    with sig_loop_correct [of 0 bytes ins little, folded n_def bs_def] that show thesis by auto
  qed
  define m where "m = (if neg \<and> n - k < n then n - k + 1 else n - k)"
  have m: "m \<le> n" by (auto simp: m_def)
  define nd' where "nd' = (m * 8 + 30 - 1) div 30"
  have nd: "8 * m \<le> 30 * nd'" unfolding nd'_def by linarith
  have small: "int m > (PY_SSIZE_T_MAX - int 30) div 8 \<longleftrightarrow> False" using m len by (simp add: n_def)
  have ndmax: "int nd' \<le> MAX_LONG_DIGITS"
    using small by (simp add: nd'_def MAX_LONG_DIGITS_def PY_SSIZE_T_MAX_def)
  obtain v0 where v0: "PyLong_New (int nd') = Inr v0" "ob_refcnt v0 = 1" "ob_digit v0 = replicate nd' uninit_digit"
    using ndmax by (auto simp: PyLong_New_def)
  let ?s0 = "\<lparr>fb_carry = 1, fb_accum = 0, fb_accumbits = 0, fb_idigit = 0, fb_digit = ob_digit v0\<rparr>"
  have "fb_inv neg nd' (take 0 bs) ?s0" by (simp add: fb_inv_def fb_val_def v0)
  then obtain s where s: "from_bytes_loop bytes neg (if little then 1 else -1) m 0
      (cursor little n (int 0)) ?s0 = Inr s" "fb_inv neg nd' (take m bs) s"
    using from_bytes_loop_inv [of m bytes nd' 0 neg little ?s0] m nd by (auto simp: n_def bs_def)
  have start: "cursor little n (int 0) = (if little then 0 else int n - 1)" by (simp add: cursor_def)
  obtain ds id where f: "fb_finish nd' s = Inr (ds, id)" "id \<le> nd'" "length ds = nd'"
      "list_all digit_ok (take id ds)" "dval (take id ds) = fb_val s"
    using fb_finish_correct [OF s(2)] nd m n by auto
  define r where "r = v0\<lparr>ob_size := (if neg then - int id else int id), ob_digit := ds\<rparr>"
  have n0: "n = 0 \<longleftrightarrow> False" and acc: "fb_accumbits s < 30 \<longleftrightarrow> True"
    using n s(2) by (simp_all add: fb_inv_def)
  have run: "PyLong_FromByteArray bytes little is_signed = Inr (long_normalize r)"
    unfolding PyLong_FromByteArray_def Let_def n_def [symmetric] PyLong_SHIFT_def
    by (simp only: n0 if_False at rbind_simps neg_def [symmetric] ins_def [symmetric] k(1)
        m_def [symmetric] small nd'_def [symmetric] v0(1) start [symmetric] s(1) acc f(1) prod.case r_def
        c_assert_simps(1))
  have rn: "nd r = id" "nd r \<le> length (ob_digit r)" "digits r = take id ds"
    using f by (simp_all add: r_def nd_def digits_def)
  have wf: "wf_long (long_normalize r)"
    by (rule wf_long_normalize) (use rn f v0 ndmax in \<open>simp_all add: r_def\<close>)
  have "long_val r = (if neg then - int (fb_val s) else int (fb_val s))"
  proof -
    have sz: "ob_size r = (if neg then - int id else int id)" by (simp add: r_def)
    have z: "fb_val s = 0" if "id = 0" using that f(5) by simp
    show ?thesis unfolding long_val_def rn(3) f(5) sz using z by (cases "id = 0") auto
  qed
  also have "\<dots> = int (bval (take m bs)) - (if neg then 2 ^ (8 * m) else 0)"
  proof (cases neg)
    case True
    have e: "fb_val s + 2 ^ (8 * m) * unat (fb_carry s) + bval (take m bs) = 2 ^ (8 * m)"
      "unat (fb_carry s) \<le> 1"
      using s(2) True m n by (simp_all add: fb_inv_def min_absorb2)
    have "bval (take m bs) \<noteq> 0"
    proof -
      have "0 < m" using True n by (cases "k = 0") (simp_all add: m_def)
      then have "bs ! (m - 1) \<in> set (take m bs)" using m n
        by (auto simp: in_set_conv_nth intro!: exI [of _ "m - 1"])
      moreover have "bs ! (m - 1) \<noteq> 0"
      proof (cases "k = 0")
        case True
        then have "bs ! (m - 1) = last bs" using last by (simp add: m_def)
        then show ?thesis using \<open>neg\<close> by (auto simp: neg_def)
      next
        case False
        then have "bs ! (m - 1) = ins" using k(2) \<open>neg\<close> n by (intro k(3)) (auto simp: m_def)
        then show ?thesis using \<open>neg\<close> by (simp add: ins_def)
      qed
      ultimately show ?thesis using bval_nonzero by blast
    qed
    then have "unat (fb_carry s) = 0" using e by (cases "unat (fb_carry s)") auto
    with e(1) have "fb_val s + bval (take m bs) = 2 ^ (8 * m)" by simp
    then have "int (fb_val s) + int (bval (take m bs)) = 2 ^ (8 * m)"
      by (metis of_nat_add of_nat_numeral of_nat_power)
    then show ?thesis using True by simp
  next
    case False
    then show ?thesis using s(2) by (simp add: fb_inv_def)
  qed
  also have "\<dots> = int (bval bs) - (if neg then 2 ^ (8 * length bs) else 0)"
    by (rule bval_sign_tail [symmetric]) (use m n k(3) in \<open>auto simp: m_def ins_def split: if_splits\<close>)
  also have "\<dots> = bytes_int little is_signed bytes"
    using False by (simp add: bytes_int_def neg_def bs_def bytes_lsb_def word_le_nat_alt)
  finally have "long_val (long_normalize r) = bytes_int little is_signed bytes"
    using long_val_normalize [OF rn(2)] by simp
  then show ?thesis using run wf by blast
qed

end
