(* ===== verification/PyLongToBytes.thy ===== *)
theory PyLongToBytes
  imports PyLongBytes PyLongConv
begin

text \<open>
  Integers to byte arrays: \<open>_PyLong_AsByteArray\<close> of \<open>Objects/longobject.c\<close>, its users
  \<open>PyLong_AsLongLong\<close> and \<open>PyLong_AsUnsignedLongLong\<close>, and the methods \<open>int.to_bytes\<close> and
  \<open>int.from_bytes\<close>. The conventions on arrays and pointers are those of \<open>PyLongBytes\<close>;
  \<open>accumbits\<close> is at most 37.
  \<^item> \<open>int_byte x i\<close> is the byte at position \<open>i\<close> of the infinite two's complement of \<open>x\<close>, and
    \<open>fits_bytes\<close> says when the routine accepts \<open>x\<close>.
  \<^item> \<open>PyLong_AsByteArray_correct\<close> shows that it writes exactly these bytes, in both byte orders,
    or raises \<open>OverflowError\<close>, without leaving the array and without a failing assertion;
    \<open>AsByteArray_exact\<close> says it of the integers that are representable in the array.
  \<^item> The last sections relate the two directions and the two conversions to C's \<open>long long\<close>.
\<close>

section \<open>To bytes\<close>

text \<open>The count of the bits of the most significant digit.\<close>

function count_bits :: "digit \<Rightarrow> nat \<Rightarrow> nat" where
  "count_bits s accumbits = (if s \<noteq> 0 then count_bits (drop_bit 1 s) (accumbits + 1) else accumbits)"
  by pat_completeness auto
termination
proof (relation "measure (\<lambda>(s, _). unat s)")
  fix s :: digit and k :: nat
  assume "s \<noteq> 0"
  then show "((drop_bit 1 s, k + 1), s, k) \<in> measure (\<lambda>(s, _). unat s)"
    by (simp add: unat_drop_bit_div unat_gt_0)
qed simp

declare count_bits.simps [simp del]

record ab_state =
  ab_bytes :: "py_byte list"
  ab_p :: int
  ab_j :: nat
  ab_accum :: twodigits
  ab_accumbits :: nat
  ab_carry :: digit

definition store_byte :: "int \<Rightarrow> ab_state \<Rightarrow> ab_state pyres" where
  "store_byte pincr s =
     rbind (byte_put (ab_bytes s) (ab_p s) (ucast (ab_accum s AND 0xff))) (\<lambda>bytes.
       Inr (s\<lparr>ab_bytes := bytes, ab_j := ab_j s + 1, ab_p := ab_p s + pincr\<rparr>))"

function store_bytes :: "nat \<Rightarrow> int \<Rightarrow> ab_state \<Rightarrow> ab_state pyres" where
  "store_bytes n pincr s =
     (if ab_accumbits s \<ge> 8 then
        if ab_j s \<ge> n then Inl OverflowError
        else
          rbind (byte_put (ab_bytes s) (ab_p s) (ucast (ab_accum s AND 0xff))) (\<lambda>bytes.
            store_bytes n pincr
              (s\<lparr>ab_bytes := bytes, ab_j := ab_j s + 1, ab_p := ab_p s + pincr,
                 ab_accumbits := ab_accumbits s - 8, ab_accum := drop_bit 8 (ab_accum s)\<rparr>))
      else Inr s)"
  by pat_completeness auto
termination by (relation "measure (\<lambda>(n, pincr, s). ab_accumbits s)") simp_all

declare store_bytes.simps [simp del]

definition as_bytes_step ::
  "nat \<Rightarrow> int \<Rightarrow> bool \<Rightarrow> nat \<Rightarrow> nat \<Rightarrow> digit \<Rightarrow> ab_state \<Rightarrow> ab_state pyres" where
  "as_bytes_step n pincr do_twos_comp ndigits i d s =
     (let thisdigit = (if do_twos_comp then (d XOR PyLong_MASK) + ab_carry s else d);
          carry = (if do_twos_comp then drop_bit PyLong_SHIFT thisdigit else ab_carry s);
          thisdigit = (if do_twos_comp then thisdigit AND PyLong_MASK else thisdigit);
          accum = ab_accum s OR push_bit (ab_accumbits s) (ucast thisdigit);
          accumbits =
            (if i + 1 = ndigits then
               count_bits (if do_twos_comp then thisdigit XOR PyLong_MASK else thisdigit)
                 (ab_accumbits s)
             else ab_accumbits s + PyLong_SHIFT)
      in store_bytes n pincr
           (s\<lparr>ab_carry := carry, ab_accum := accum, ab_accumbits := accumbits\<rparr>))"

fun as_bytes_loop ::
  "nat \<Rightarrow> int \<Rightarrow> bool \<Rightarrow> nat \<Rightarrow> nat \<Rightarrow> digit list \<Rightarrow> ab_state \<Rightarrow> ab_state pyres" where
  "as_bytes_loop n pincr do_twos_comp ndigits i [] s = Inr s"
| "as_bytes_loop n pincr do_twos_comp ndigits i (d # ds) s =
     rbind (as_bytes_step n pincr do_twos_comp ndigits i d s) (\<lambda>s.
       as_bytes_loop n pincr do_twos_comp ndigits (i + 1) ds s)"

text \<open>The fill of the remaining bytes with the sign.\<close>

function fill_bytes :: "nat \<Rightarrow> int \<Rightarrow> py_byte \<Rightarrow> ab_state \<Rightarrow> py_byte list pyres" where
  "fill_bytes n pincr signbyte s =
     (if ab_j s < n then
        rbind (byte_put (ab_bytes s) (ab_p s) signbyte) (\<lambda>bytes.
          fill_bytes n pincr signbyte
            (s\<lparr>ab_bytes := bytes, ab_j := ab_j s + 1, ab_p := ab_p s + pincr\<rparr>))
      else Inr (ab_bytes s))"
  by pat_completeness auto
termination by (relation "measure (\<lambda>(n, pincr, b, s). n - ab_j s)") simp_all

declare fill_bytes.simps [simp del]

text \<open>After the digits: the straggler, the check for room for the sign bit, the fill.\<close>

definition as_bytes_finish :: "nat \<Rightarrow> int \<Rightarrow> bool \<Rightarrow> bool \<Rightarrow> ab_state \<Rightarrow> py_byte list pyres" where
  "as_bytes_finish n pincr do_twos_comp is_signed s =
     (let signbyte = (if do_twos_comp then 0xff else 0)
      in if ab_accumbits s > 0 then
           if ab_j s \<ge> n then Inl OverflowError
           else
             rbind (store_byte pincr
                      (if do_twos_comp
                       then s\<lparr>ab_accum := ab_accum s OR push_bit (ab_accumbits s) (NOT 0)\<rparr>
                       else s))
               (fill_bytes n pincr signbyte)
         else if ab_j s = n \<and> n > 0 \<and> is_signed then
           rbind (byte_at (ab_bytes s) (ab_p s - pincr)) (\<lambda>msb.
             let sign_bit_set = (msb \<ge> 0x80)
             in if sign_bit_set = do_twos_comp then Inr (ab_bytes s) else Inl OverflowError)
         else fill_bytes n pincr signbyte s)"

text \<open>
  The result is the array after a successful run. When the source jumps to \<open>Overflow\<close> the array
  is partly written; what it holds then is not part of the model. A caller that passes an array its
  own user can see, as \<open>struct.pack_into\<close> does, leaves these bytes there.
\<close>

definition PyLong_AsByteArray :: "pylong \<Rightarrow> py_byte list \<Rightarrow> bool \<Rightarrow> bool \<Rightarrow> py_byte list pyres" where
  "PyLong_AsByteArray v bytes little_endian is_signed =
     (let n = length bytes
      in if ob_size v < 0 \<and> \<not> is_signed then Inl OverflowError
         else
           let do_twos_comp = (ob_size v < 0);
               ndigits = nd v;
               p = (if little_endian then 0 else int n - 1);
               pincr = (if little_endian then 1 else -1)
           in rbind (c_assert (ndigits = 0 \<or> ob_digit v ! (ndigits - 1) \<noteq> 0)) (\<lambda>_.
              rbind (as_bytes_loop n pincr do_twos_comp ndigits 0 (digits v)
                       \<lparr>ab_bytes = bytes, ab_p = p, ab_j = 0, ab_accum = 0, ab_accumbits = 0,
                        ab_carry = (if do_twos_comp then 1 else 0)\<rparr>) (\<lambda>s.
              rbind (c_assert (ab_accumbits s < 8)) (\<lambda>_.
              rbind (c_assert (ab_carry s = 0)) (\<lambda>_.
                as_bytes_finish n pincr do_twos_comp is_signed s)))))"

section \<open>The bytes of an integer\<close>

definition int_byte :: "int \<Rightarrow> nat \<Rightarrow> py_byte" where
  "int_byte v i = word_of_int (v div 2 ^ (8 * i))"

lemma int_byte_drop_bit: "int_byte v i = word_of_int (drop_bit (8 * i) v)"
  by (simp add: int_byte_def drop_bit_eq_div)

lemma bit_uint_eq: "bit a k \<longleftrightarrow> bit (uint a) k"
  using bit_imp_le_length [of a k] by (auto simp: bit_uint_iff)

lemma uint_drop_bit: "uint (drop_bit n (a :: 'a::len word)) = drop_bit n (uint a)"
  by (rule bit_eqI) (auto simp: bit_uint_iff bit_drop_bit_eq dest: bit_imp_le_length)

lemma low_byte:
  fixes a :: twodigits
  assumes "uint a = drop_bit (8 * j) (take_bit W v)" and "8 * j + 8 \<le> W"
  shows "ucast (a AND 0xff) = int_byte v j"
proof (rule bit_word_eqI)
  fix k
  assume "k < LENGTH(8)"
  then have k: "k < 8" by simp
  have m: "(0xff :: twodigits) = mask 8" by (simp add: mask_eq_exp_minus_1)
  have "bit a k \<longleftrightarrow> bit v (8 * j + k)"
    unfolding bit_uint_eq [of a] assms(1) using k assms(2) by (simp add: bit_drop_bit_eq bit_take_bit_iff)
  then show "bit (ucast (a AND 0xff) :: py_byte) k \<longleftrightarrow> bit (int_byte v j) k"
    unfolding int_byte_drop_bit m using k
    by (simp add: bit_ucast_iff bit_and_iff bit_mask_iff bit_word_of_int_iff bit_drop_bit_eq)
qed

text \<open>The array after the first \<open>j\<close> bytes, in the order of significance, have been written.\<close>

definition written :: "bool \<Rightarrow> py_byte list \<Rightarrow> int \<Rightarrow> nat \<Rightarrow> py_byte list" where
  "written little b0 v j =
     bytes_lsb little (map (int_byte v) [0..<j] @ drop j (bytes_lsb little b0))"

lemma length_written [simp]: "j \<le> length b0 \<Longrightarrow> length (written little b0 v j) = length b0"
  by (simp add: written_def)

lemma byte_put_cursor:
  assumes "j < length b"
  shows "byte_put b (cursor little (length b) (int j)) x = Inr (bytes_lsb little ((bytes_lsb little b)[j := x]))"
proof -
  have "nat (int (length b) - 1 - int j) = length b - j - 1" by simp
  then show ?thesis using assms
    by (auto simp: byte_put_def cursor_def bytes_lsb_def rev_update)
qed

lemma byte_put_written:
  assumes "j < length b0"
  shows "byte_put (written little b0 v j) (cursor little (length b0) (int j)) (int_byte v j)
    = Inr (written little b0 v (j + 1))"
proof -
  let ?bs = "bytes_lsb little b0"
  have "(map (int_byte v) [0..<j] @ drop j ?bs)[j := int_byte v j]
      = map (int_byte v) [0..<j + 1] @ drop (j + 1) ?bs"
    using assms by (intro nth_equalityI) (auto simp: nth_append nth_list_update not_less less_Suc_eq)
  then show ?thesis
    using byte_put_cursor [of j "written little b0 v j" little "int_byte v j"] assms
    by (simp add: written_def)
qed

section \<open>Writing out of the register\<close>

definition ab_inv :: "bool \<Rightarrow> py_byte list \<Rightarrow> int \<Rightarrow> nat \<Rightarrow> nat \<Rightarrow> ab_state \<Rightarrow> bool" where
  "ab_inv little b0 v W K s \<longleftrightarrow>
     ab_j s \<le> length b0 \<and> 8 * ab_j s + ab_accumbits s = K \<and>
     ab_p s = cursor little (length b0) (int (ab_j s)) \<and>
     ab_bytes s = written little b0 v (ab_j s) \<and>
     uint (ab_accum s) = drop_bit (8 * ab_j s) (take_bit W v)"

lemma store_bytes_inv:
  assumes "ab_inv little b0 v W K s" and "K \<le> W"
  shows "if K div 8 \<le> length b0
         then \<exists>s'. store_bytes (length b0) (if little then 1 else -1) s = Inr s' \<and>
                   ab_inv little b0 v W K s' \<and> ab_j s' = K div 8 \<and> ab_carry s' = ab_carry s
         else store_bytes (length b0) (if little then 1 else -1) s = Inl OverflowError"
  using assms(1)
proof (induction "ab_accumbits s" arbitrary: s rule: less_induct)
  case less
  let ?n = "length b0" and ?incr = "if little then 1 else -1 :: int"
  have i: "ab_j s \<le> ?n" "8 * ab_j s + ab_accumbits s = K"
     "ab_p s = cursor little ?n (int (ab_j s))" "ab_bytes s = written little b0 v (ab_j s)"
     "uint (ab_accum s) = drop_bit (8 * ab_j s) (take_bit W v)"
    using less.prems by (simp_all add: ab_inv_def)
  show ?case
  proof (cases "8 \<le> ab_accumbits s")
    case False
    then have "K div 8 = ab_j s" using i(2) by linarith
    then show ?thesis using False less.prems i(1) by (simp add: store_bytes.simps [of _ _ s])
  next
    case big: True
    show ?thesis
    proof (cases "ab_j s < ?n")
      case False
      then have "?n < K div 8" using i(1,2) big by linarith
      moreover have "store_bytes ?n ?incr s = Inl OverflowError"
        using False big by (simp add: store_bytes.simps [of _ _ s])
      ultimately show ?thesis by simp
    next
      case True
      let ?s' = "s\<lparr>ab_bytes := written little b0 v (ab_j s + 1), ab_j := ab_j s + 1,
                   ab_p := ab_p s + ?incr, ab_accumbits := ab_accumbits s - 8,
                   ab_accum := drop_bit 8 (ab_accum s)\<rparr>"
      have lb: "ucast (ab_accum s AND 0xff) = int_byte v (ab_j s)"
        by (rule low_byte [OF i(5)]) (use big i(2) assms(2) in linarith)
      have put: "byte_put (ab_bytes s) (ab_p s) (ucast (ab_accum s AND 0xff))
          = Inr (written little b0 v (ab_j s + 1))"
        unfolding lb i(3,4) using byte_put_written [OF True] .
      have st: "store_bytes ?n ?incr s = store_bytes ?n ?incr ?s'"
        using True big put by (subst store_bytes.simps) simp
      have inv: "ab_inv little b0 v W K ?s'"
      proof -
        have "uint (drop_bit 8 (ab_accum s)) = drop_bit (8 * (ab_j s + 1)) (take_bit W v)"
          unfolding uint_drop_bit i(5) drop_bit_drop_bit by (simp add: algebra_simps)
        moreover have "ab_p s + ?incr = cursor little ?n (int (ab_j s + 1))"
          unfolding i(3) cursor_step by (simp only: of_nat_add of_nat_1)
        ultimately show ?thesis using i(2) True big unfolding ab_inv_def by simp
      qed
      have cr: "ab_carry ?s' = ab_carry s" and lt: "ab_accumbits ?s' < ab_accumbits s" using big by simp_all
      show ?thesis using less.hyps [OF lt inv] unfolding st cr .
    qed
  qed
qed


section \<open>The digits in two's complement\<close>

lemma digit_of_value:
  assumes "i < length ds" and "list_all digit_ok ds"
  shows "uint (ds ! i) = take_bit 30 (drop_bit (30 * i) (int (dval ds)))"
proof -
  let ?P = "2 ^ (30 * i) :: nat"
  have "dval ds = dval (take i ds) + ?P * (unat (ds ! i) + 2 ^ 30 * dval (drop (Suc i) ds))"
    using dval_take_drop [of ds i] assms(1) by (simp add: Cons_nth_drop_Suc [symmetric])
  moreover have "dval (take i ds) < ?P"
    using dval_bound [of "take i ds"] list_all_digit_ok_take [OF assms(2)] assms(1) by simp
  ultimately have q: "dval ds div ?P = unat (ds ! i) + 2 ^ 30 * dval (drop (Suc i) ds)" by simp
  have "unat (ds ! i) < 2 ^ 30" using digit_ok_nth [OF assms(2,1)] .
  then have "dval ds div ?P mod 2 ^ 30 = unat (ds ! i)" unfolding q by simp
  then have "int (dval ds div ?P mod 2 ^ 30) = int (unat (ds ! i))" by simp
  then show ?thesis
    by (simp add: take_bit_eq_mod drop_bit_eq_div zdiv_int zmod_int)
qed

definition low_zero :: "digit list \<Rightarrow> nat \<Rightarrow> nat" where
  "low_zero ds i = (if dval (take i ds) = 0 then 1 else 0)"

lemma twos_digit:
  fixes c :: digit
  assumes "i < length ds" and "list_all digit_ok ds" and "unat c = low_zero ds i"
  defines "s \<equiv> (ds ! i XOR PyLong_MASK) + c"
  shows "uint (s AND PyLong_MASK) = take_bit 30 (drop_bit (30 * i) (- int (dval ds)))"
    and "unat (drop_bit 30 s) = low_zero ds (i + 1)"
proof -
  let ?P = "2 ^ (30 * i) :: int"
  define d where "d = unat (ds ! i)"
  define lo where "lo = dval (take i ds)"
  define q where "q = int (d + 2 ^ 30 * dval (drop (Suc i) ds))"
  have d: "d < 2 ^ 30" unfolding d_def using digit_ok_nth [OF assms(2,1)] .
  have c: "unat c = (if lo = 0 then 1 else 0)" using assms(3) by (simp add: low_zero_def lo_def)
  have ok: "digit_ok (ds ! i)" using d by (simp add: digit_ok_def d_def)
  have s: "unat s = 2 ^ 30 - 1 - d + unat c"
    unfolding s_def using unat_xor_MASK(1) [OF ok] c d by (subst unat_add_small) (auto simp: d_def)
  have lo: "lo < 2 ^ (30 * i)"
    using dval_bound [of "take i ds"] list_all_digit_ok_take [OF assms(2)] assms(1) by (simp add: lo_def)
  have m: "int (dval ds) = int lo + ?P * q"
    using arg_cong [OF dval_take_drop [of ds i], of int] assms(1)
    by (simp add: Cons_nth_drop_Suc [symmetric] lo_def q_def d_def)
  have "(- int lo) div ?P = (if lo = 0 then 0 else -1)"
  proof (cases "lo = 0")
    case False
    have "int lo < ?P" using lo by (metis of_nat_less_iff of_nat_numeral of_nat_power)
    then show ?thesis using False by (simp add: div_pos_pos_trivial zdiv_zminus1_eq_if)
  qed simp
  moreover have "(- int lo + ?P * (- q)) div ?P = - q + (- int lo) div ?P"
    by (rule div_mult_self2) simp
  moreover have "- int (dval ds) = - int lo + ?P * (- q)" using m by simp
  ultimately have dv: "(- int (dval ds)) div ?P = (if lo = 0 then 0 else -1) - q"
    by (simp only:)
  have "int (2 ^ 30 - 1 - d + unat c) = (if lo = 0 then 0 else -1) - q + 2 ^ 30 * (1 + int (dval (drop (Suc i) ds)))"
    using d c by (simp add: q_def of_nat_diff)
  then have mm: "int (unat s mod 2 ^ 30) = ((if lo = 0 then 0 else -1) - q) mod 2 ^ 30"
    unfolding s zmod_int by (simp only: of_nat_numeral of_nat_power mod_mult_self2)
  have e: "int (unat (s AND PyLong_MASK)) = uint (s AND PyLong_MASK)" by (rule of_nat_unat)
  show "uint (s AND PyLong_MASK) = take_bit 30 (drop_bit (30 * i) (- int (dval ds)))"
    unfolding e [symmetric] unat_and_MASK take_bit_eq_mod drop_bit_eq_div dv by (rule mm)
  have "dval (take (i + 1) ds) = lo + 2 ^ (30 * i) * d"
    using assms(1) by (simp add: take_Suc_conv_app_nth dval_append lo_def d_def)
  then show "unat (drop_bit 30 s) = low_zero ds (i + 1)"
    unfolding unat_drop_bit_div s using c d by (auto simp: low_zero_def)
qed

section \<open>The bits of the last digit\<close>

lemma count_bits_correct:
  "\<exists>k. (\<forall>a. count_bits s a = a + k) \<and> unat s < 2 ^ k \<and> (0 < k \<longrightarrow> 2 ^ (k - 1) \<le> unat s)"
proof (induction "unat s" arbitrary: s rule: less_induct)
  case less
  show ?case
  proof (cases "s = 0")
    case True
    then show ?thesis by (intro exI [of _ 0]) (simp add: count_bits.simps)
  next
    case False
    have s0: "0 < unat s" using False by (simp add: unat_gt_0)
    then have "unat (drop_bit 1 s) < unat s" by (simp add: unat_drop_bit_div)
    then obtain k where k: "\<And>a. count_bits (drop_bit 1 s) a = a + k" "unat (drop_bit 1 s) < 2 ^ k"
        "0 < k \<longrightarrow> 2 ^ (k - 1) \<le> unat (drop_bit 1 s)"
      using less [of "drop_bit 1 s"] by blast
    have "unat s < 2 ^ (k + 1)" using k(2) unfolding unat_drop_bit_div by simp
    moreover have "2 ^ k \<le> unat s"
    proof (cases k)
      case 0
      then show ?thesis using s0 by simp
    next
      case (Suc k')
      then show ?thesis using k(3) unfolding unat_drop_bit_div by simp
    qed
    moreover have "count_bits s a = a + (k + 1)" for a
      using False k(1) [of "a + 1"] by (simp add: count_bits.simps [of s a])
    ultimately show ?thesis by (intro exI [of _ "k + 1"]) simp
  qed
qed

definition signed_of :: "bool \<Rightarrow> digit list \<Rightarrow> int" where
  "signed_of neg ds = (if neg then - int (dval ds) else int (dval ds))"

definition top_digit :: "bool \<Rightarrow> int \<Rightarrow> nat \<Rightarrow> int" where
  "top_digit neg v i =
     (if neg then 2 ^ 30 - 1 - take_bit 30 (drop_bit (30 * i) v) else take_bit 30 (drop_bit (30 * i) v))"

definition carry_ok :: "bool \<Rightarrow> digit list \<Rightarrow> nat \<Rightarrow> digit \<Rightarrow> bool" where
  "carry_ok neg ds i c \<longleftrightarrow> unat c = (if neg then low_zero ds i else 0)"

lemma register_or:
  fixes a :: twodigits and t :: digit
  assumes a: "uint a = drop_bit (8 * j) (take_bit (30 * i) v)"
    and t: "uint t = take_bit 30 (drop_bit (30 * i) v)" and ab: "8 * j + ab = 30 * i" "ab < 8"
  shows "uint (a OR push_bit ab (ucast t)) = drop_bit (8 * j) (take_bit (30 * (i + 1)) v)"
proof (rule bit_eqI)
  fix k
  have ta: "bit a k \<longleftrightarrow> 8 * j + k < 30 * i \<and> bit v (8 * j + k)"
    unfolding bit_uint_eq [of a] a by (auto simp: bit_drop_bit_eq bit_take_bit_iff)
  have tt: "bit t (k - ab) \<longleftrightarrow> k - ab < 30 \<and> bit v (30 * i + (k - ab))"
    unfolding bit_uint_eq [of t] t by (auto simp: bit_drop_bit_eq bit_take_bit_iff)
  have "bit (uint (a OR push_bit ab (ucast t))) k \<longleftrightarrow>
      k < 64 \<and> (bit a k \<or> ab \<le> k \<and> bit t (k - ab))"
    by (auto simp: bit_uint_iff bit_or_iff bit_push_bit_iff bit_ucast_iff dest: bit_imp_le_length)
  also have "\<dots> \<longleftrightarrow> 8 * j + k < 30 * (i + 1) \<and> bit v (8 * j + k)"
  proof (cases "ab \<le> k")
    case True
    then have "30 * i + (k - ab) = 8 * j + k" using ab by simp
    then show ?thesis unfolding ta tt using True ab by auto
  next
    case False
    then show ?thesis unfolding ta using ab by auto
  qed
  finally show "bit (uint (a OR push_bit ab (ucast t))) k
      = bit (drop_bit (8 * j) (take_bit (30 * (i + 1)) v)) k"
    by (auto simp: bit_drop_bit_eq bit_take_bit_iff)
qed

lemma as_bytes_step_inv:
  assumes inv: "ab_inv little b0 v (30 * i) (30 * i) s" and a8: "ab_accumbits s < 8"
    and c: "carry_ok neg ds i (ab_carry s)" and i: "i < length ds" and ok: "list_all digit_ok ds"
    and v: "v = signed_of neg ds"
  shows "\<exists>K \<le> 30 * (i + 1). (i + 1 \<noteq> length ds \<longrightarrow> K = 30 * (i + 1)) \<and>
    (i + 1 = length ds \<longrightarrow> (\<exists>k. K = 30 * i + k \<and> top_digit neg v i < 2 ^ k \<and>
        (0 < k \<longrightarrow> 2 ^ (k - 1) \<le> top_digit neg v i))) \<and>
    (if K div 8 \<le> length b0
     then \<exists>s'. as_bytes_step (length b0) (if little then 1 else -1) neg (length ds) i (ds ! i) s = Inr s' \<and>
               ab_inv little b0 v (30 * (i + 1)) K s' \<and> ab_j s' = K div 8 \<and>
               carry_ok neg ds (i + 1) (ab_carry s')
     else as_bytes_step (length b0) (if little then 1 else -1) neg (length ds) i (ds ! i) s = Inl OverflowError)"
proof -
  define t0 where "t0 = (ds ! i XOR PyLong_MASK) + ab_carry s"
  define t where "t = (if neg then t0 AND PyLong_MASK else ds ! i)"
  define c' where "c' = (if neg then drop_bit 30 t0 else ab_carry s)"
  define top where "top = (if neg then t XOR PyLong_MASK else t)"
  define A where "A = ab_accum s OR push_bit (ab_accumbits s) (ucast t)"
  obtain k where k: "\<And>a. count_bits top a = a + k" "unat top < 2 ^ k" "0 < k \<longrightarrow> 2 ^ (k - 1) \<le> unat top"
    using count_bits_correct [of top] by blast
  have t: "uint t = take_bit 30 (drop_bit (30 * i) v)"
    using twos_digit(1) [OF i ok] digit_of_value [OF i ok] c
    by (auto simp: t_def t0_def v signed_of_def carry_ok_def)
  have c': "carry_ok neg ds (i + 1) c'"
    using twos_digit(2) [OF i ok] c by (auto simp: c'_def t0_def carry_ok_def)
  have tl: "unat t < 2 ^ 30" 
  proof -
    have "uint t < 2 ^ 30" using t by (simp add: take_bit_eq_mod)
    then have "int (unat t) < int (2 ^ 30)" by (simp only: of_nat_unat of_nat_power of_nat_numeral)
    then show ?thesis by (simp only: of_nat_less_iff)
  qed
  have top: "int (unat top) = top_digit neg v i"
  proof (cases neg)
    case True
    have "unat (t XOR PyLong_MASK) = 2 ^ 30 - 1 - unat t" using unat_xor_MASK(1) [of t] tl by (simp add: digit_ok_def)
    then have "int (unat top) = 2 ^ 30 - 1 - int (unat t)" using tl True by (simp only: top_def if_True) simp
    then show ?thesis using t True by (simp add: top_digit_def)
  next
    case False
    then show ?thesis using t by (simp add: top_def top_digit_def)
  qed
  have ab: "8 * ab_j s + ab_accumbits s = 30 * i" "ab_j s \<le> length b0"
      "uint (ab_accum s) = drop_bit (8 * ab_j s) (take_bit (30 * i) v)"
    using inv by (simp_all add: ab_inv_def)
  have A: "uint A = drop_bit (8 * ab_j s) (take_bit (30 * (i + 1)) v)"
    unfolding A_def by (rule register_or [OF ab(3) t ab(1) a8])
  define K where "K = (if i + 1 = length ds then 30 * i + k else 30 * (i + 1))"
  have "unat top < 2 ^ 30" using unat_xor_MASK(1) [of t] tl by (auto simp: top_def digit_ok_def)
  moreover have "(2 :: nat) ^ 30 \<le> 2 ^ (k - 1)" if "30 < k"
    using that by (intro power_increasing) simp_all
  ultimately have k30: "k \<le> 30" using k(3) by (cases "30 < k") auto
  let ?s = "s\<lparr>ab_carry := c', ab_accum := A,
              ab_accumbits := (if i + 1 = length ds then ab_accumbits s + k else ab_accumbits s + 30)\<rparr>"
  have st: "as_bytes_step (length b0) (if little then 1 else -1) neg (length ds) i (ds ! i) s
      = store_bytes (length b0) (if little then 1 else -1) ?s"
    by (simp add: as_bytes_step_def Let_def t0_def t_def c'_def top_def A_def PyLong_SHIFT_def k(1) [symmetric])
  have "ab_inv little b0 v (30 * (i + 1)) K ?s"
    using inv A unfolding ab_inv_def K_def by simp
  note sb = store_bytes_inv [OF this]
  have K: "K \<le> 30 * (i + 1)" using k30 by (simp add: K_def)
  have "int (unat top) < int (2 ^ k)" "0 < k \<longrightarrow> int (2 ^ (k - 1)) \<le> int (unat top)"
    using k(2,3) by (simp_all only: of_nat_less_iff of_nat_le_iff)
  then have tb: "top_digit neg v i < 2 ^ k" "0 < k \<longrightarrow> 2 ^ (k - 1) \<le> top_digit neg v i"
    unfolding top of_nat_power of_nat_numeral by simp_all
  have "i + 1 \<noteq> length ds \<longrightarrow> K = 30 * (i + 1)" "i + 1 = length ds \<longrightarrow> K = 30 * i + k"
    by (simp_all add: K_def)
  moreover have "if K div 8 \<le> length b0
     then \<exists>s'. store_bytes (length b0) (if little then 1 else -1) ?s = Inr s' \<and>
               ab_inv little b0 v (30 * (i + 1)) K s' \<and> ab_j s' = K div 8 \<and>
               carry_ok neg ds (i + 1) (ab_carry s')
     else store_bytes (length b0) (if little then 1 else -1) ?s = Inl OverflowError"
    using sb [OF K] c' by (auto split: if_splits)
  ultimately show ?thesis unfolding st using K tb by blast
qed


text \<open>\<open>bits_of v B\<close>: without the sign, the two's complement of \<open>v\<close> has \<open>B\<close> bits.\<close>

definition bits_of :: "int \<Rightarrow> nat \<Rightarrow> bool" where
  "bits_of v B \<longleftrightarrow> - (2 ^ B) \<le> v \<and> v < 2 ^ B \<and>
     (0 < B \<longrightarrow> v < - (2 ^ (B - 1)) \<or> 2 ^ (B - 1) \<le> v)"

lemma bits_of_top:
  assumes ok: "list_all digit_ok ds" and len: "length ds = i + 1" and last: "last ds \<noteq> 0"
    and v: "v = signed_of neg ds"
    and k: "top_digit neg v i < 2 ^ k" "0 < k \<longrightarrow> 2 ^ (k - 1) \<le> top_digit neg v i"
  shows "bits_of v (30 * i + k)"
proof -
  let ?P = "2 ^ (30 * i) :: int"
  define q where "q = v div ?P"
  have P: "0 < ?P" by simp
  have vq: "?P * q \<le> v" "v < ?P * (q + 1)"
  proof -
    have "v = ?P * q + v mod ?P" by (simp add: q_def)
    moreover have "?P * (q + 1) = ?P * q + ?P" by (simp add: distrib_left)
    ultimately show "?P * q \<le> v" "v < ?P * (q + 1)"
      using pos_mod_bound [OF P, of v] pos_mod_sign [OF P, of v] by linarith+
  qed
  have "2 ^ (30 * i) \<le> dval ds" "dval ds < 2 ^ (30 + 30 * i)"
    using dval_lower_normalized [of ds] dval_bound [OF ok] len last by simp_all
  then have "int (2 ^ (30 * i)) \<le> int (dval ds)" "int (dval ds) < int (2 ^ (30 + 30 * i))"
    by (simp_all only: of_nat_less_iff of_nat_le_iff)
  then have m: "?P \<le> int (dval ds)" "int (dval ds) < ?P * 2 ^ 30"
    by (simp_all add: power_add mult.commute)
  have pw: "(2 :: int) ^ (30 * i + k) = ?P * 2 ^ k"
    "0 < k \<Longrightarrow> (2 :: int) ^ (30 * i + k - 1) = ?P * 2 ^ (k - 1)" by (simp_all add: power_add flip: Nat.add_diff_assoc)
  show ?thesis
  proof (cases neg)
    case True
    have v': "v = - int (dval ds)" using v True by (simp add: signed_of_def)
    have "?P * (- (2 ^ 30)) < ?P * (q + 1)" using m(2) vq(2) v' by simp
    then have qlo: "- (2 ^ 30) \<le> q" using P by (simp only: mult_less_cancel_left_pos)
    have "?P * q < 0" using m(1) vq(1) v' P by linarith
    then have qhi: "q < 0" using P by (simp add: mult_less_0_iff)
    have "take_bit 30 (drop_bit (30 * i) v) = (q + 2 ^ 30) mod 2 ^ 30"
      by (simp add: take_bit_eq_mod drop_bit_eq_div q_def)
    also have "\<dots> = q + 2 ^ 30" using qlo qhi by (intro mod_pos_pos_trivial) simp_all
    finally have t: "top_digit neg v i = - 1 - q" using True by (simp add: top_digit_def)
    have "- (2 ^ k) \<le> q" using k(1) t by simp
    then have "?P * (- (2 ^ k)) \<le> ?P * q" using P by (simp only: mult_le_cancel_left_pos)
    then have lo: "- (2 ^ (30 * i + k)) \<le> v" using vq(1) pw(1) by simp
    have hi: "v < 2 ^ (30 * i + k)" using m(1) P v' by (smt (verit) zero_less_power)
    have "v < - (2 ^ (30 * i + k - 1))" if "0 < 30 * i + k"
    proof (cases "0 < k")
      case True
      then have "q + 1 \<le> - (2 ^ (k - 1))" using k(2) t by simp
      then have "?P * (q + 1) \<le> ?P * (- (2 ^ (k - 1)))" using P by (simp only: mult_le_cancel_left_pos)
      then show ?thesis using vq(2) pw(2) [OF True] by simp
    next
      case False
      then have "(2 :: int) ^ (30 * i + k - 1) < ?P" using that by simp
      then show ?thesis using m(1) v' by linarith
    qed
    then show ?thesis using lo hi by (simp add: bits_of_def)
  next
    case False
    have v': "v = int (dval ds)" using v False by (simp add: signed_of_def)
    have "?P * q < ?P * 2 ^ 30" using m(2) vq(1) v' by linarith
    then have qhi: "q < 2 ^ 30" using P by (simp only: mult_less_cancel_left_pos)
    have "?P * 1 < ?P * (q + 1)" using m(1) vq(2) unfolding v' by linarith
    then have qlo: "0 < q" using P by (simp only: mult_less_cancel_left_pos)
    have "take_bit 30 (drop_bit (30 * i) v) = q mod 2 ^ 30"
      by (simp add: take_bit_eq_mod drop_bit_eq_div q_def)
    also have "\<dots> = q" using qlo qhi by (intro mod_pos_pos_trivial) simp_all
    finally have t: "top_digit neg v i = q" using False by (simp add: top_digit_def)
    have k0: "0 < k" using k(1) t qlo by (cases k) simp_all
    have "q + 1 \<le> 2 ^ k" using k(1) t by simp
    then have "?P * (q + 1) \<le> ?P * 2 ^ k" using P by (simp only: mult_le_cancel_left_pos)
    then have hi: "v < 2 ^ (30 * i + k)"
      unfolding pw(1) by (rule order.strict_trans2 [OF vq(2)])
    have "?P * 2 ^ (k - 1) \<le> ?P * q" using k(2) k0 t P by (simp only: mult_le_cancel_left_pos)
    then have "2 ^ (30 * i + k - 1) \<le> v"
      unfolding pw(2) [OF k0] by (rule order_trans [OF _ vq(1)])
    moreover have "- (2 ^ (30 * i + k)) \<le> v" using v' by (smt (verit) of_nat_0_le_iff zero_less_power)
    ultimately show ?thesis using hi by (simp add: bits_of_def)
  qed
qed

lemma nat_bits: "\<exists>k. t < 2 ^ k \<and> (0 < k \<longrightarrow> 2 ^ (k - 1) \<le> t)" for t :: nat
proof (induction t rule: less_induct)
  case (less t)
  show ?case
  proof (cases "t = 0")
    case True
    then show ?thesis by (intro exI [of _ 0]) simp
  next
    case False
    obtain k where k: "t div 2 < 2 ^ k" "0 < k \<longrightarrow> 2 ^ (k - 1) \<le> t div 2"
      using less [of "t div 2"] False by auto
    have "2 ^ k \<le> t" using k(2) False by (cases k) auto
    then show ?thesis using k(1) by (intro exI [of _ "k + 1"]) auto
  qed
qed

lemma bits_of_exists:
  assumes "list_all digit_ok ds" and "ds \<noteq> []" and "last ds \<noteq> 0" and "v = signed_of neg ds"
  shows "\<exists>k\<le>30. bits_of v (30 * (length ds - 1) + k)"
proof -
  define t where "t = top_digit neg v (length ds - 1)"
  have "0 \<le> x mod 2 ^ 30 \<and> x mod 2 ^ 30 < 2 ^ 30" for x :: int by simp
  then have t: "0 \<le> t" "t < 2 ^ 30"
    unfolding t_def top_digit_def take_bit_eq_mod by (smt (verit))+
  obtain k where k: "nat t < 2 ^ k" "0 < k \<longrightarrow> 2 ^ (k - 1) \<le> nat t" using nat_bits by blast
  have "t < 2 ^ k" using k(1) t(1) by (simp add: nat_less_iff)
  moreover have tk: "0 < k \<longrightarrow> 2 ^ (k - 1) \<le> t" using k(2) t(1) by (simp add: le_nat_iff)
  ultimately have "bits_of v (30 * (length ds - 1) + k)"
    using bits_of_top [OF assms(1) _ assms(3,4), of "length ds - 1" k] assms(2) by (simp add: t_def)
  moreover have "k \<le> 30"
  proof (rule ccontr)
    assume "\<not> k \<le> 30"
    then have "(2 :: int) ^ 30 \<le> 2 ^ (k - 1)" by (intro power_increasing) simp_all
    then show False using tk t(2) \<open>\<not> k \<le> 30\<close> by simp
  qed
  ultimately show ?thesis by blast
qed

lemma as_bytes_loop_inv:
  assumes ok: "list_all digit_ok ds" and last: "last ds \<noteq> 0" and v: "v = signed_of neg ds"
    and "i < length ds" and "ab_inv little b0 v (30 * i) (30 * i) s" and "ab_accumbits s < 8"
    and "carry_ok neg ds i (ab_carry s)"
  shows "\<exists>B \<le> 30 * length ds. bits_of v B \<and>
    (if B div 8 \<le> length b0
     then \<exists>s'. as_bytes_loop (length b0) (if little then 1 else -1) neg (length ds) i (drop i ds) s = Inr s' \<and>
               ab_inv little b0 v (30 * length ds) B s' \<and> ab_j s' = B div 8 \<and> ab_carry s' = 0
     else as_bytes_loop (length b0) (if little then 1 else -1) neg (length ds) i (drop i ds) s = Inl OverflowError)"
  using assms(4-)
proof (induction "length ds - i" arbitrary: i s)
  case 0
  then show ?case by simp
next
  case (Suc m)
  let ?n = "length b0" and ?d = "if little then 1 else -1 :: int"
  have dr: "drop i ds = ds ! i # drop (i + 1) ds" using Suc.prems(1) by (simp add: Cons_nth_drop_Suc)
  obtain K where K: "K \<le> 30 * (i + 1)" "i + 1 \<noteq> length ds \<Longrightarrow> K = 30 * (i + 1)"
    "i + 1 = length ds \<Longrightarrow> (\<exists>k. K = 30 * i + k \<and> top_digit neg v i < 2 ^ k \<and>
        (0 < k \<longrightarrow> 2 ^ (k - 1) \<le> top_digit neg v i))"
    "if K div 8 \<le> ?n
     then \<exists>s'. as_bytes_step ?n ?d neg (length ds) i (ds ! i) s = Inr s' \<and>
               ab_inv little b0 v (30 * (i + 1)) K s' \<and> ab_j s' = K div 8 \<and>
               carry_ok neg ds (i + 1) (ab_carry s')
     else as_bytes_step ?n ?d neg (length ds) i (ds ! i) s = Inl OverflowError"
    using as_bytes_step_inv [OF Suc.prems(2,3,4,1) ok v] by blast
  show ?case
  proof (cases "i + 1 = length ds")
    case True
    have lz: "low_zero ds (length ds) = 0"
    proof -
      have "0 < dval ds" using dval_lower_normalized [of ds] last Suc.prems(1)
        by (metis (no_types) gr_implies_not0 gr_zeroI le_zero_eq power_not_zero zero_neq_numeral)
      then show ?thesis by (simp add: low_zero_def)
    qed
    obtain k where "K = 30 * i + k" "top_digit neg v i < 2 ^ k" "0 < k \<longrightarrow> 2 ^ (k - 1) \<le> top_digit neg v i"
      using K(3) [OF True] by blast
    then have "bits_of v K" using bits_of_top [OF ok True [symmetric] last v] by blast
    then show ?thesis
      unfolding dr using K(1,4) True lz
      by (intro exI [of _ K]) (auto simp: carry_ok_def unat_eq_zero split: if_splits)
  next
    case False
    have Ki: "K = 30 * (i + 1)" using K(2) False by simp
    show ?thesis
    proof (cases "K div 8 \<le> ?n")
      case True
      obtain s' where s': "as_bytes_step ?n ?d neg (length ds) i (ds ! i) s = Inr s'"
          "ab_inv little b0 v (30 * (i + 1)) (30 * (i + 1)) s'" "ab_j s' = K div 8"
          "carry_ok neg ds (i + 1) (ab_carry s')"
        using K(4) True Ki by auto
      have a8: "ab_accumbits s' < 8" using s'(2,3) unfolding ab_inv_def Ki by linarith
      have h: "m = length ds - (i + 1)" "i + 1 < length ds" using Suc.hyps(2) Suc.prems(1) False by simp_all
      show ?thesis
        unfolding dr as_bytes_loop.simps s'(1) rbind_simps by (rule Suc.hyps(1) [OF h s'(2) a8 s'(4)])
    next
      case far: False
      have "ds \<noteq> []" using Suc.prems(1) by auto
      then obtain k where k: "k \<le> 30" "bits_of v (30 * (length ds - 1) + k)"
        using bits_of_exists [OF ok _ last v] by blast
      have "K \<le> 30 * (length ds - 1) + k" using Ki Suc.prems(1) False by simp
      then have "K div 8 \<le> (30 * (length ds - 1) + k) div 8" by (rule div_le_mono)
      then have "\<not> (30 * (length ds - 1) + k) div 8 \<le> ?n" using far by simp
      moreover have "30 * (length ds - 1) + k \<le> 30 * length ds" using k(1) Suc.prems(1) by linarith
      moreover have "as_bytes_step ?n ?d neg (length ds) i (ds ! i) s = Inl OverflowError"
        using K(4) far by simp
      ultimately show ?thesis unfolding dr using k(2)
        by (intro exI [of _ "30 * (length ds - 1) + k"]) simp
    qed
  qed
qed


section \<open>The last byte and the fill\<close>

lemma fill_bytes_written:
  assumes "ab_j s \<le> length b0" and "ab_p s = cursor little (length b0) (int (ab_j s))"
    and "ab_bytes s = written little b0 v (ab_j s)"
    and "\<And>i. ab_j s \<le> i \<Longrightarrow> i < length b0 \<Longrightarrow> int_byte v i = signbyte"
  shows "fill_bytes (length b0) (if little then 1 else -1) signbyte s = Inr (written little b0 v (length b0))"
  using assms
proof (induction "length b0 - ab_j s" arbitrary: s)
  case 0
  then show ?case by (simp add: fill_bytes.simps [of _ _ _ s])
next
  case (Suc m)
  let ?n = "length b0" and ?d = "if little then 1 else -1 :: int"
  have lt: "ab_j s < ?n" using Suc.hyps(2) by simp
  let ?s' = "s\<lparr>ab_bytes := written little b0 v (ab_j s + 1), ab_j := ab_j s + 1, ab_p := ab_p s + ?d\<rparr>"
  have sb: "signbyte = int_byte v (ab_j s)" using Suc.prems(4) lt by simp
  have put: "byte_put (ab_bytes s) (ab_p s) signbyte = Inr (written little b0 v (ab_j s + 1))"
    unfolding Suc.prems(2,3) sb by (rule byte_put_written [OF lt])
  have st: "fill_bytes ?n ?d signbyte s = fill_bytes ?n ?d signbyte ?s'"
    using lt put by (subst fill_bytes.simps) simp
  have p: "ab_p s + ?d = cursor little ?n (int (ab_j s + 1))"
    unfolding Suc.prems(2) cursor_step by (simp only: of_nat_add of_nat_1)
  show ?case unfolding st
    by (rule Suc.hyps(1)) (use Suc.hyps(2) Suc.prems(4) lt p in simp_all)
qed

text \<open>Beyond its bits an integer has only its sign.\<close>

lemma bits_of_div:
  assumes "bits_of v B" and "B \<le> m"
  shows "v div 2 ^ m = (if v < 0 then -1 else 0)"
proof -
  have le: "(2 :: int) ^ B \<le> 2 ^ m" using assms(2) by (intro power_increasing) simp_all
  show ?thesis
  proof (cases "v < 0")
    case True
    have "v div 2 ^ m = -1"
      by (rule int_div_pos_eq [of _ _ _ "v + 2 ^ m"])
        (use True assms(1) le in \<open>unfold bits_of_def, linarith\<close>)+
    then show ?thesis using True by simp
  next
    case False
    have "v < 2 ^ m" using assms(1) le unfolding bits_of_def by linarith
    then show ?thesis using False by (simp add: div_pos_pos_trivial)
  qed
qed

lemma int_byte_sign:
  assumes "bits_of v B" and "B \<le> 8 * i"
  shows "int_byte v i = (if v < 0 then 0xff else 0)"
  using bits_of_div [OF assms] by (simp add: int_byte_def)

text \<open>The straggler: the sign fills the byte above the \<open>r\<close> bits that are left.\<close>

lemma straggler:
  fixes a :: twodigits
  assumes a: "uint a = drop_bit (8 * j) (take_bit W v)" and B: "bits_of v (8 * j + r)" "8 * j + r \<le> W"
    and r: "r < 8"
  shows "ucast ((if v < 0 then a OR push_bit r (NOT 0) else a) AND 0xff) = int_byte v j"
proof (rule bit_word_eqI)
  fix k
  assume "k < LENGTH(8)"
  then have k: "k < 8" by simp
  have m: "(0xff :: twodigits) = mask 8" by (simp add: mask_eq_exp_minus_1)
  have ba: "bit a k \<longleftrightarrow> 8 * j + k < W \<and> bit v (8 * j + k)"
    unfolding bit_uint_eq [of a] a by (auto simp: bit_drop_bit_eq bit_take_bit_iff)
  have hi: "bit v (8 * j + k) \<longleftrightarrow> v < 0" if "r \<le> k"
  proof -
    have "v div 2 ^ (8 * j + k) = (if v < 0 then -1 else 0)"
      by (rule bits_of_div [OF B(1)]) (use that in simp)
    then show ?thesis by (simp add: bit_iff_odd)
  qed
  show "bit (ucast ((if v < 0 then a OR push_bit r (NOT 0) else a) AND 0xff) :: py_byte) k
      \<longleftrightarrow> bit (int_byte v j) k"
    unfolding int_byte_drop_bit m using k hi B(2)
    by (cases "v < 0"; cases "r \<le> k") (simp_all add: bit_ucast_iff bit_and_iff bit_mask_iff
      bit_word_of_int_iff bit_drop_bit_eq ba bit_or_iff bit_push_bit_iff bit_not_iff)
qed

text \<open>The integers that fit into \<open>n\<close> bytes, as the routine decides it.\<close>

definition fits_bytes :: "nat \<Rightarrow> bool \<Rightarrow> int \<Rightarrow> bool" where
  "fits_bytes n is_signed x \<longleftrightarrow>
     (if is_signed then
        if n = 0 then x = 0 \<or> x = -1 else - (2 ^ (8 * n - 1)) \<le> x \<and> x < 2 ^ (8 * n - 1)
      else 0 \<le> x \<and> x < 2 ^ (8 * n))"

lemma bits_of_le:
  assumes "bits_of v B"
  shows "B \<le> m \<longleftrightarrow> - (2 ^ m) \<le> v \<and> v < 2 ^ m"
proof
  assume "B \<le> m"
  then have "(2 :: int) ^ B \<le> 2 ^ m" by (intro power_increasing) simp_all
  then show "- (2 ^ m) \<le> v \<and> v < 2 ^ m" using assms unfolding bits_of_def by linarith
next
  assume h: "- (2 ^ m) \<le> v \<and> v < 2 ^ m"
  show "B \<le> m"
  proof (rule ccontr)
    assume "\<not> B \<le> m"
    then have "(2 :: int) ^ m \<le> 2 ^ (B - 1)" "0 < B" by (auto intro: power_increasing)
    moreover have "v < - (2 ^ (B - 1)) \<or> 2 ^ (B - 1) \<le> v"
      using assms \<open>0 < B\<close> unfolding bits_of_def by blast
    ultimately show False using h by linarith
  qed
qed


section \<open>The theorem on \<open>_PyLong_AsByteArray\<close>\<close>

lemma written_all: "written little b0 v (length b0) = bytes_lsb little (map (int_byte v) [0..<length b0])"
  by (simp add: written_def)

lemma byte_at_written:
  assumes "j \<le> length b0" and "0 < j"
  shows "byte_at (written little b0 v j) (cursor little (length b0) (int j) - (if little then 1 else -1))
    = Inr (int_byte v (j - 1))"
proof -
  have c: "cursor little (length b0) (int j) - (if little then 1 else -1)
      = cursor little (length (written little b0 v j)) (int (j - 1))"
    using assms by (simp add: cursor_def)
  show ?thesis unfolding c
    by (subst byte_at_cursor) (use assms in \<open>simp_all add: written_def nth_append\<close>)
qed

text \<open>A full array has no room for the sign bit: the highest bit that was written is the opposite of it.\<close>

lemma full_sign_bit:
  assumes "bits_of v (8 * j)" and "0 < j"
  shows "0x80 \<le> int_byte v (j - 1) \<longleftrightarrow> 0 \<le> v"
proof -
  define q where "q = v div 2 ^ (8 * (j - 1))"
  let ?P = "2 ^ (8 * (j - 1)) :: int"
  have P: "0 < ?P" by simp
  have e: "8 * j = 8 * (j - 1) + 8" "8 * j - 1 = 8 * (j - 1) + 7" using assms(2) by simp_all
  have b: "- (?P * 256) \<le> v" "v < ?P * 256" "v < - (?P * 128) \<or> ?P * 128 \<le> v"
    using assms(1) assms(2) unfolding bits_of_def e(2) unfolding e(1) power_add by simp_all
  have vq: "v = ?P * q + v mod ?P" "0 \<le> v mod ?P" "v mod ?P < ?P" by (simp_all add: q_def)
  have "?P * (- 256) < ?P * (q + 1)" using b(1) vq P unfolding distrib_left by linarith
  then have q1: "- 256 \<le> q" using P by (simp only: mult_less_cancel_left_pos) 
  have "?P * q < ?P * 256" using b(2) vq by linarith
  then have q2: "q < 256" using P by (simp only: mult_less_cancel_left_pos)
  show ?thesis
  proof (cases "0 \<le> v")
    case True
    then have "?P * 128 \<le> v" using b(3) P by linarith
    then have "?P * 128 < ?P * (q + 1)" using vq unfolding distrib_left by linarith
    then have "128 \<le> q" using P by (simp only: mult_less_cancel_left_pos)
    then show ?thesis using True q2
      unfolding int_byte_def q_def [symmetric] by (simp add: word_le_def uint_word_of_int)
  next
    case False
    then have "v < - (?P * 128)" using b(3) P by linarith
    then have "?P * q < ?P * (- 128)" using vq by linarith
    then have "q < - 128" using P by (simp only: mult_less_cancel_left_pos)
    then have "q mod 256 = q + 256" using q1
      by (intro int_mod_pos_eq [of _ _ "-1"]) simp_all
    then show ?thesis using False \<open>q < - 128\<close> 
      unfolding int_byte_def q_def [symmetric] by (simp add: word_le_def uint_word_of_int)
  qed
qed

lemma fits_bytes_bits:
  assumes "bits_of x B" and "x < 0 \<Longrightarrow> is_signed"
  shows "fits_bytes n is_signed x \<longleftrightarrow>
    (if is_signed then B < 8 * n \<or> n = 0 \<and> B = 0 else B \<le> 8 * n)"
proof (cases is_signed)
  case True
  show ?thesis
  proof (cases "n = 0")
    case n0: True
    have "B = 0 \<longleftrightarrow> - (2 ^ 0) \<le> x \<and> x < 2 ^ 0" using bits_of_le [OF assms(1), of 0] by simp
    also have "\<dots> \<longleftrightarrow> x = 0 \<or> x = -1" by auto
    finally show ?thesis using True n0 by (simp add: fits_bytes_def)
  next
    case False
    have "B < 8 * n \<longleftrightarrow> B \<le> 8 * n - 1" using False by auto
    then show ?thesis using True False bits_of_le [OF assms(1), of "8 * n - 1"]
      by (simp add: fits_bytes_def)
  qed
next
  case False
  then have x0: "0 \<le> x" using assms(2) by (meson not_less)
  moreover have "- (2 ^ (8 * n)) \<le> (0 :: int)" by simp
  ultimately have "- (2 ^ (8 * n)) \<le> x" by (rule order_trans [rotated])
  then show ?thesis using False x0 bits_of_le [OF assms(1), of "8 * n"] by (simp add: fits_bytes_def)
qed

lemma as_bytes_finish_correct:
  assumes inv: "ab_inv little b0 x W B s" and js: "ab_j s = B div 8" and W: "B \<le> W"
    and B: "bits_of x B" and neg: "neg \<longleftrightarrow> x < 0"
  shows "as_bytes_finish (length b0) (if little then 1 else -1) neg is_signed s =
      (if (if is_signed then B < 8 * length b0 \<or> length b0 = 0 \<and> B = 0 else B \<le> 8 * length b0)
       then Inr (written little b0 x (length b0)) else Inl OverflowError)"
proof -
  let ?n = "length b0" and ?d = "if little then 1 else -1 :: int"
  define r where "r = ab_accumbits s"
  have i: "ab_j s \<le> ?n" "8 * ab_j s + r = B" "ab_p s = cursor little ?n (int (ab_j s))"
      "ab_bytes s = written little b0 x (ab_j s)"
      "uint (ab_accum s) = drop_bit (8 * ab_j s) (take_bit W x)"
    using inv by (simp_all add: ab_inv_def r_def)
  have r8: "r < 8" using i(2) js by presburger
  have sgn: "int_byte x k = (if neg then 0xff else 0)" if "B \<le> 8 * k" for k
    using int_byte_sign [OF B that] neg by simp
  consider (part) "0 < r" "ab_j s < ?n" | (none) "0 < r" "ab_j s = ?n"
    | (full) "r = 0" "ab_j s = ?n" "0 < ?n" "is_signed" | (whole) "r = 0" "\<not> (ab_j s = ?n \<and> 0 < ?n \<and> is_signed)"
    using i(1) by fastforce
  then show ?thesis
  proof cases
    case part
    define s1 where "s1 = (if neg then s\<lparr>ab_accum := ab_accum s OR push_bit r (NOT 0)\<rparr> else s)"
    have s1: "ab_bytes s1 = ab_bytes s" "ab_p s1 = ab_p s" "ab_j s1 = ab_j s"
      "ab_accum s1 = (if x < 0 then ab_accum s OR push_bit r (NOT 0) else ab_accum s)"
      using neg by (simp_all add: s1_def)
    have lb: "ucast (ab_accum s1 AND 0xff) = int_byte x (ab_j s)"
      unfolding s1(4) by (rule straggler [OF i(5) _ _ r8]) (use B W i(2) in simp_all)
    let ?s2 = "s1\<lparr>ab_bytes := written little b0 x (ab_j s + 1), ab_j := ab_j s + 1, ab_p := ab_p s + ?d\<rparr>"
    have st: "store_byte ?d s1 = Inr ?s2"
    proof -
      have "byte_put (ab_bytes s1) (ab_p s1) (ucast (ab_accum s1 AND 0xff)) = Inr (written little b0 x (ab_j s + 1))"
        unfolding lb s1(1,2) i(3,4) by (rule byte_put_written [OF part(2)])
      then show ?thesis unfolding store_byte_def rbind_def s1(2,3) by simp
    qed
    have p: "ab_p s + ?d = cursor little ?n (int (ab_j s + 1))"
      unfolding i(3) cursor_step by (simp only: of_nat_add of_nat_1)
    have "fill_bytes ?n ?d (if neg then 0xff else 0) ?s2 = Inr (written little b0 x ?n)"
      by (rule fill_bytes_written) (use part p sgn i(2) r8 in simp_all)
    then have "as_bytes_finish ?n ?d neg is_signed s = Inr (written little b0 x ?n)"
      using part st unfolding as_bytes_finish_def Let_def r_def [symmetric] s1_def [symmetric]
      by (simp only: if_True if_False not_le rbind_simps) simp
    moreover have "B < 8 * ?n" using part i(2) r8 by linarith
    ultimately show ?thesis by simp
  next
    case none
    then have "8 * ?n < B" using i(2) by linarith
    then show ?thesis using none by (simp add: as_bytes_finish_def r_def [symmetric])
  next
    case full
    have B8: "B = 8 * ?n" using full i(2) by simp
    have at: "byte_at (ab_bytes s) (ab_p s - ?d) = Inr (int_byte x (?n - 1))"
      unfolding i(3,4) full(2) using byte_at_written [of ?n b0 little x] full(3) by simp
    have "0x80 \<le> int_byte x (?n - 1) \<longleftrightarrow> \<not> neg"
      using full_sign_bit [of x ?n] B full(3) neg unfolding B8 by auto
    then have "as_bytes_finish ?n ?d neg is_signed s = Inl OverflowError"
      using full at unfolding as_bytes_finish_def Let_def r_def [symmetric]
      by (simp only: rbind_simps) simp
    then show ?thesis using full B8 by simp
  next
    case whole
    have B8: "B = 8 * ab_j s" using whole i(2) by simp
    have "fill_bytes ?n ?d (if neg then 0xff else 0) s = Inr (written little b0 x ?n)"
      by (rule fill_bytes_written) (use i sgn B8 in simp_all)
    then have "as_bytes_finish ?n ?d neg is_signed s = Inr (written little b0 x ?n)"
      using whole unfolding as_bytes_finish_def Let_def r_def [symmetric] by auto
    moreover have "if is_signed then B < 8 * ?n \<or> ?n = 0 \<and> B = 0 else B \<le> 8 * ?n"
      using whole i(1) B8 by auto
    ultimately show ?thesis by simp
  qed
qed

lemma long_val_neg_iff:
  assumes "wf_long v"
  shows "ob_size v < 0 \<longleftrightarrow> long_val v < 0"
  using long_val_sign [OF assms] by (auto simp: sgn_if split: if_splits)

lemma PyLong_AsByteArray_correct:
  assumes wf: "wf_long v"
  shows "PyLong_AsByteArray v b0 little is_signed =
    (if fits_bytes (length b0) is_signed (long_val v)
     then Inr (bytes_lsb little (map (int_byte (long_val v)) [0..<length b0]))
     else Inl OverflowError)"
proof (cases "ob_size v < 0 \<and> \<not> is_signed")
  case True
  then have "long_val v < 0" using long_val_neg_iff [OF wf] by simp
  then show ?thesis using True by (simp add: PyLong_AsByteArray_def Let_def fits_bytes_def)
next
  case False
  define n where "n = length b0"
  define neg where "neg = (ob_size v < 0)"
  define x where "x = long_val v"
  define ds where "ds = digits v"
  let ?d = "if little then 1 else -1 :: int"
  have ds: "list_all digit_ok ds" "length ds = nd v" "ds \<noteq> [] \<Longrightarrow> last ds \<noteq> 0"
    using wf_long_digits [OF wf] by (cases "nd v = 0"; auto simp: ds_def)+
  have x: "x = signed_of neg ds" by (simp add: x_def signed_of_def neg_def ds_def long_val_def)
  have xneg: "neg \<longleftrightarrow> x < 0" using long_val_neg_iff [OF wf] by (simp add: neg_def x_def)
  have sg: "neg \<Longrightarrow> is_signed" using False by (simp add: neg_def)
  let ?s0 = "\<lparr>ab_bytes = b0, ab_p = (if little then 0 else int n - 1), ab_j = 0, ab_accum = 0,
               ab_accumbits = 0, ab_carry = (if neg then 1 else 0)\<rparr>"
  have inv0: "ab_inv little b0 x 0 0 ?s0"
    by (simp add: ab_inv_def cursor_def written_def n_def)
  have "\<exists>B \<le> 30 * length ds. bits_of x B \<and>
    (if B div 8 \<le> n
     then \<exists>s. as_bytes_loop n ?d neg (length ds) 0 ds ?s0 = Inr s \<and>
              ab_inv little b0 x (30 * length ds) B s \<and> ab_j s = B div 8 \<and> ab_carry s = 0
     else as_bytes_loop n ?d neg (length ds) 0 ds ?s0 = Inl OverflowError)"
  proof (cases "ds = []")
    case True
    then have "x = 0" "\<not> neg" using x xneg by (auto simp: signed_of_def)
    then show ?thesis using True inv0 by (intro exI [of _ 0]) (simp add: bits_of_def)
  next
    case False
    have c0: "carry_ok neg ds 0 (ab_carry ?s0)" by (simp add: carry_ok_def low_zero_def)
    have inv: "ab_inv little b0 x (30 * 0) (30 * 0) ?s0" using inv0 by simp
    have pre: "0 < length ds" "ab_accumbits ?s0 < 8" using False by simp_all
    show ?thesis
      using as_bytes_loop_inv [OF ds(1) ds(3) [OF False] x pre(1) inv pre(2) c0]
      unfolding drop_0 n_def .
  qed
  then obtain B where B: "B \<le> 30 * length ds" "bits_of x B"
    "if B div 8 \<le> n
     then \<exists>s. as_bytes_loop n ?d neg (length ds) 0 ds ?s0 = Inr s \<and>
              ab_inv little b0 x (30 * length ds) B s \<and> ab_j s = B div 8 \<and> ab_carry s = 0
     else as_bytes_loop n ?d neg (length ds) 0 ds ?s0 = Inl OverflowError"
    by blast
  have fits: "fits_bytes n is_signed x \<longleftrightarrow> (if is_signed then B < 8 * n \<or> n = 0 \<and> B = 0 else B \<le> 8 * n)"
    using fits_bytes_bits [OF B(2)] sg xneg by auto
  have msd: "nd v = 0 \<or> ob_digit v ! (nd v - 1) \<noteq> 0" using wf by (auto simp: wf_long_def)
  have g1: "(ob_size v < 0 \<and> \<not> is_signed) \<longleftrightarrow> False" using False by simp
  show ?thesis
  proof (cases "B div 8 \<le> n")
    case False
    then have "as_bytes_loop n ?d neg (length ds) 0 ds ?s0 = Inl OverflowError" using B(3) by simp
    moreover have "\<not> fits_bytes n is_signed x" using False fits by auto
    ultimately show ?thesis
      unfolding PyLong_AsByteArray_def Let_def n_def [symmetric] x_def [symmetric] g1
      using msd by (simp only: if_False neg_def [symmetric] ds_def [symmetric] ds(2) [symmetric]
        c_assert_simps(1) rbind_simps simp_thms)
  next
    case True
    obtain s where s: "as_bytes_loop n ?d neg (length ds) 0 ds ?s0 = Inr s"
      "ab_inv little b0 x (30 * length ds) B s" "ab_j s = B div 8" "ab_carry s = 0"
      using B(3) True by auto
    have "8 * ab_j s + ab_accumbits s = B" using s(2) by (simp add: ab_inv_def)
    then have j: "ab_accumbits s < 8 \<longleftrightarrow> True" using s(3) by presburger
    have run: "PyLong_AsByteArray v b0 little is_signed = as_bytes_finish n ?d neg is_signed s"
      using msd s(1,4) j unfolding PyLong_AsByteArray_def Let_def n_def [symmetric] g1
      by (simp add: neg_def [symmetric] ds_def [symmetric] ds(2) [symmetric] del: as_bytes_loop.simps cong: if_cong)
    show ?thesis unfolding run
      using as_bytes_finish_correct [OF s(2,3) B(1,2) xneg, of is_signed] fits
      by (simp add: written_all n_def x_def)
  qed
qed


section \<open>Users of the routines\<close>

text \<open>\<open>_PyBytes_FromSize\<close>: a fresh bytes object, whose contents are not initialised.\<close>

definition PyBytesObject_SIZE :: int where "PyBytesObject_SIZE = 33"

definition PyBytes_FromSize :: "int \<Rightarrow> py_byte list pyres" where
  "PyBytes_FromSize sz =
     (if sz = 0 then Inr []
      else if sz > PY_SSIZE_T_MAX - PyBytesObject_SIZE then Inl OverflowError
      else Inr (replicate (nat sz) 0xCD))"

definition int_to_bytes :: "pylong \<Rightarrow> int \<Rightarrow> string \<Rightarrow> bool \<Rightarrow> py_byte list pyres" where
  "int_to_bytes self len byteorder is_signed =
     rbind (if byteorder = ''little'' then Inr True
            else if byteorder = ''big'' then Inr False
            else Inl ValueError) (\<lambda>little_endian.
       if len < 0 then Inl ValueError
       else
         rbind (PyBytes_FromSize len) (\<lambda>bytes.
           PyLong_AsByteArray self bytes little_endian is_signed))"

text \<open>\<open>int.from_bytes\<close> of a bytes object, called on \<open>int\<close> itself and not on a subclass.\<close>

definition int_from_bytes :: "py_byte list \<Rightarrow> string \<Rightarrow> bool \<Rightarrow> pylong pyres" where
  "int_from_bytes bytes byteorder is_signed =
     rbind (if byteorder = ''little'' then Inr True
            else if byteorder = ''big'' then Inr False
            else Inl ValueError) (\<lambda>little_endian.
       PyLong_FromByteArray bytes little_endian is_signed)"

text \<open>
  The array handed to \<open>_PyLong_AsByteArray\<close> is a variable of type \<open>long long\<close>, which the
  platform stores in 8 bytes, least significant first.
\<close>

definition SIZEOF_LONG_LONG :: nat where "SIZEOF_LONG_LONG = 8"

definition load_ullong :: "py_byte list \<Rightarrow> 64 word" where
  "load_ullong bytes = fold (\<lambda>b x. push_bit 8 x OR ucast b) (rev bytes) 0"

definition load_llong :: "py_byte list \<Rightarrow> int" where
  "load_llong bytes = sint (load_ullong bytes)"

definition PyLong_AsLongLong :: "pylong \<Rightarrow> int pyres" where
  "PyLong_AsLongLong v =
     (if ob_size v = -1 then Inr (- sint (ob_digit v ! 0))
      else if ob_size v = 0 then Inr 0
      else if ob_size v = 1 then Inr (uint (ob_digit v ! 0))
      else
        rbind (PyLong_AsByteArray v (replicate SIZEOF_LONG_LONG 0xCD) True True) (\<lambda>bytes.
          Inr (load_llong bytes)))"

definition PyLong_AsUnsignedLongLong :: "pylong \<Rightarrow> 64 word pyres" where
  "PyLong_AsUnsignedLongLong v =
     (if ob_size v = 0 then Inr 0
      else if ob_size v = 1 then Inr (ucast (ob_digit v ! 0))
      else
        rbind (PyLong_AsByteArray v (replicate SIZEOF_LONG_LONG 0xCD) True False) (\<lambda>bytes.
          Inr (load_ullong bytes)))"

section \<open>The two directions\<close>

lemma bval_int_bytes: "int (bval (map (int_byte x) [0..<n])) = x mod 2 ^ (8 * n)"
proof (induction n)
  case (Suc n)
  have "int (unat (int_byte x n)) = x div 2 ^ (8 * n) mod 2 ^ 8"
    by (simp add: int_byte_def uint_word_of_int)
  then have "int (bval (map (int_byte x) [0..<Suc n]))
      = x mod 2 ^ (8 * n) + 2 ^ (8 * n) * (x div 2 ^ (8 * n) mod 2 ^ 8)"
    using Suc by (simp add: bval_append)
  also have "\<dots> = x mod (2 ^ (8 * n) * 2 ^ 8)" by (simp add: zmod_zmult2_eq)
  also have "(2 :: int) ^ (8 * n) * 2 ^ 8 = 2 ^ (8 * Suc n)" by (simp only: power_add [symmetric]) simp
  finally show ?case .
qed simp

lemma bval_inj: "length xs = length ys \<Longrightarrow> bval xs = bval ys \<Longrightarrow> xs = ys"
proof (induction xs ys rule: list_induct2)
  case (Cons x xs y ys)
  have "(unat x + 2 ^ 8 * bval xs) mod 2 ^ 8 = (unat y + 2 ^ 8 * bval ys) mod 2 ^ 8"
    using Cons.prems by (simp only: bval.simps)
  then have "unat x = unat y" using unat_byte_less [of x] unat_byte_less [of y] by simp
  then show ?case using Cons by (simp add: unsigned_word_eqI)
qed simp

lemma last_int_bytes: "0 < n \<Longrightarrow> last (map (int_byte x) [0..<n]) = int_byte x (n - 1)"
  by (simp add: last_map)

lemma bytes_int_lsb:
  "bytes_int little is_signed (bytes_lsb little bs) = bytes_int True is_signed bs"
  by (simp add: bytes_int_def bytes_lsb_def Let_def)

lemma bytes_int_inverse:
  assumes fits: "fits_bytes n is_signed x" and n: "0 < n \<or> x = 0"
  shows "bytes_int True is_signed (map (int_byte x) [0..<n]) = x"
proof (cases "n = 0")
  case True
  then show ?thesis using n by (simp add: bytes_int_def)
next
  case False
  obtain m where m: "8 * n = m + 8" "8 * (n - 1) = m" using False by (cases n) auto
  have M: "(2 :: int) ^ (8 * n) = 256 * 2 ^ m" "0 < (2 :: int) ^ m" unfolding m by (simp_all add: power_add)
  have M7: "(2 :: int) ^ (8 * n - 1) = 128 * 2 ^ m" unfolding m by (simp add: power_add numeral_eq_Suc)
  have v: "int (bval (map (int_byte x) [0..<n])) = x mod (256 * 2 ^ m)"
    using bval_int_bytes [of x n] M by simp
  have top: "128 \<le> unat (int_byte x (n - 1)) \<longleftrightarrow> 128 \<le> x div 2 ^ m mod 256"
  proof -
    have "int (unat (int_byte x (n - 1))) = x div 2 ^ m mod 256"
      using m(2) by (simp add: int_byte_def uint_word_of_int)
    then show ?thesis by linarith
  qed
  show ?thesis
  proof (cases is_signed)
    case True
    have b: "- (128 * 2 ^ m) \<le> x" "x < 128 * 2 ^ m" using fits True False M7 by (simp_all add: fits_bytes_def)
    have q: "x div 2 ^ m < 128" "- 128 \<le> x div 2 ^ m"
    proof -
      let ?q = "x div 2 ^ m"
      have d: "x = 2 ^ m * ?q + x mod 2 ^ m" "0 \<le> x mod 2 ^ m" "x mod 2 ^ m < 2 ^ m" by simp_all
      have "2 ^ m * ?q < 2 ^ m * 128" using b(2) d by linarith
      then show "?q < 128" using M(2) by (simp only: mult_less_cancel_left_pos)
      have "2 ^ m * (- 128) < 2 ^ m * (?q + 1)" using b(1) d unfolding distrib_left by linarith
      then show "- 128 \<le> ?q" using M(2) by (simp only: mult_less_cancel_left_pos)
    qed
    have "length (map (int_byte x) [0..<n]) = n" "map (int_byte x) [0..<n] \<noteq> []" using False by simp_all
    then have run: "bytes_int True is_signed (map (int_byte x) [0..<n])
        = (if 128 \<le> x div 2 ^ m mod 256 then x mod (256 * 2 ^ m) - 256 * 2 ^ m else x mod (256 * 2 ^ m))"
      unfolding bytes_int_def Let_def using True v top last_int_bytes [of n x] False M(1) by simp
    show ?thesis
    proof (cases "0 \<le> x")
      case True
      then have "x mod (256 * 2 ^ m) = x" using b M(2) by (intro mod_pos_pos_trivial) simp_all
      moreover have "x div 2 ^ m mod 256 = x div 2 ^ m"
        using True q(1) M(2) by (intro mod_pos_pos_trivial) (simp_all add: pos_imp_zdiv_nonneg_iff)
      ultimately show ?thesis unfolding run using q(1) by simp
    next
      case neg: False
      have "x mod (256 * 2 ^ m) = x + 256 * 2 ^ m"
        by (rule int_mod_pos_eq [of _ _ "-1"]) (use neg b M(2) in linarith)+
      moreover have "x div 2 ^ m < 0" using neg M(2) by (simp add: neg_imp_zdiv_neg_iff pos_imp_zdiv_neg_iff)
      then have "x div 2 ^ m mod 256 = x div 2 ^ m + 256"
        using q(2) by (intro int_mod_pos_eq [of _ _ "-1"]) simp_all
      ultimately show ?thesis unfolding run using q(2) by simp
    qed
  next
    case False
    then have "0 \<le> x" "x < 256 * 2 ^ m" using fits M by (simp_all add: fits_bytes_def)
    then show ?thesis using False v by (simp add: bytes_int_def)
  qed
qed

text \<open>Every array is the bytes of the integer it denotes.\<close>

lemma int_bytes_inverse:
  "map (int_byte (bytes_int True is_signed bs)) [0..<length bs] = bs"
proof (rule bval_inj)
  let ?n = "length bs"
  have lt: "int (bval bs) < 2 ^ (8 * ?n)"
    using bval_bound [of bs] by (metis of_nat_less_iff of_nat_numeral of_nat_power)
  have "int (bval (map (int_byte (bytes_int True is_signed bs)) [0..<?n]))
      = bytes_int True is_signed bs mod 2 ^ (8 * ?n)" by (rule bval_int_bytes)
  also have "\<dots> = int (bval bs) mod 2 ^ (8 * ?n)"
    by (simp add: bytes_int_def)
  also have "\<dots> = int (bval bs)" using lt by (intro mod_pos_pos_trivial) simp_all
  finally show "bval (map (int_byte (bytes_int True is_signed bs)) [0..<?n]) = bval bs" by simp
qed simp

lemma bytes_int_fits:
  "fits_bytes (length bs) is_signed (bytes_int True is_signed bs)"
proof (cases "bs = []")
  case True
  then show ?thesis by (simp add: bytes_int_def fits_bytes_def)
next
  case False
  define t where "t = unat (last bs)"
  define m where "m = 8 * (length bs - 1)"
  have len: "8 * length bs = m + 8" "length (butlast bs) = length bs - 1" "bs = butlast bs @ [last bs]"
    using False by (cases bs; simp add: m_def)+
  have v: "bval bs = bval (butlast bs) + 2 ^ m * unat (last bs)"
    using bval_append [of "butlast bs" "[last bs]"] len(2,3) by (simp add: m_def)
  have lo: "bval (butlast bs) < 2 ^ m" using bval_bound [of "butlast bs"] len(2) by (simp add: m_def)
  have lt: "bval bs < 2 ^ (8 * length bs)" by (rule bval_bound)
  have P: "(2 :: int) ^ (8 * length bs) = 256 * 2 ^ m" "(2 :: int) ^ (8 * length bs - 1) = 128 * 2 ^ m"
    unfolding len(1) by (simp_all add: power_add numeral_eq_Suc)
  have "int (bval bs) < int (2 ^ (8 * length bs))" using lt by (simp only: of_nat_less_iff)
  then have hi: "int (bval bs) < 256 * 2 ^ m" using P(1) by simp
  have iv: "int (bval bs) = int (bval (butlast bs)) + 2 ^ m * int t"
    unfolding v t_def by (simp only: of_nat_add of_nat_mult of_nat_power of_nat_numeral)
  have lo': "int (bval (butlast bs)) < 2 ^ m" using lo by (metis of_nat_less_iff of_nat_numeral of_nat_power)
  show ?thesis
  proof (cases is_signed)
    case True
    show ?thesis
    proof (cases "128 \<le> t")
      case neg: True
      then have "2 ^ m * 128 \<le> (2 :: int) ^ m * int t" by (intro mult_left_mono) simp_all
      then have "128 * 2 ^ m \<le> int (bval bs)" unfolding iv by linarith
      moreover have "(0 :: int) < 2 ^ m" by simp
      ultimately have "- (128 * 2 ^ m) \<le> int (bval bs) - 256 * 2 ^ m \<and> int (bval bs) - 256 * 2 ^ m < 128 * 2 ^ m"
        using hi by linarith
      then show ?thesis using True neg False P
        by (simp add: bytes_int_def fits_bytes_def flip: t_def)
    next
      case pos: False
      then have "2 ^ m * (int t + 1) \<le> (2 :: int) ^ m * 128" by (intro mult_left_mono) simp_all
      then have "int (bval bs) < 128 * 2 ^ m" using iv lo' unfolding distrib_left by linarith
      moreover have "0 \<le> int (bval bs)" "(0 :: int) < 2 ^ m" by simp_all
      ultimately have "- (128 * 2 ^ m) \<le> int (bval bs) \<and> int (bval bs) < 128 * 2 ^ m" by linarith
      then show ?thesis using True pos False P by (simp add: bytes_int_def fits_bytes_def flip: t_def)
    qed
  next
    case False
    then show ?thesis using hi P by (simp add: bytes_int_def fits_bytes_def flip: t_def)
  qed
qed


lemma load_ullong_value: "length bs \<le> 8 \<Longrightarrow> unat (load_ullong bs) = bval bs"
proof (induction bs)
  case (Cons b bs)
  have l: "load_ullong (b # bs) = push_bit 8 (load_ullong bs) OR ucast b"
    by (simp add: load_ullong_def)
  have "bval bs < 2 ^ (8 * length bs)" by (rule bval_bound)
  also have "\<dots> \<le> 2 ^ 56" using Cons.prems by (intro power_increasing) simp_all
  finally have p: "unat (push_bit 8 (load_ullong bs)) = bval bs * 2 ^ 8"
    using Cons by (subst unat_push_bit_small) simp_all
  show ?case unfolding l
    using unat_or_disjoint [OF p, of "ucast b"] unat_byte_less [of b] p by (simp add: unat_ucast_up)
qed (simp add: load_ullong_def)

lemma load_llong_value:
  assumes "length bs = 8"
  shows "load_llong bs = bytes_int True True bs"
proof -
  have "int (unat (load_ullong bs)) = int (bval bs)" using load_ullong_value [of bs] assms by simp
  then have "uint (load_ullong bs) = int (bval bs)" by (simp only: of_nat_unat)
  then have "load_ullong bs = word_of_int (int (bval bs))" by (metis word_of_int_uint)
  also have "\<dots> = word_of_int (bytes_int True True bs)"
    using assms by (simp add: bytes_int_def word_of_int_2p_len)
  finally have w: "load_ullong bs = word_of_int (bytes_int True True bs)" .
  have "fits_bytes 8 True (bytes_int True True bs)" using bytes_int_fits [of bs True] assms by simp
  then have "- (2 ^ 63) \<le> bytes_int True True bs" "bytes_int True True bs < 2 ^ 63"
    by (simp_all add: fits_bytes_def)
  then show ?thesis unfolding load_llong_def w by (rule sint_word_of_int_64)
qed

section \<open>The conversions to \<open>long long\<close>\<close>

lemma AsByteArray_value:
  assumes "wf_long v" and "PyLong_AsByteArray v buf little is_signed = Inr bs"
    and "0 < length buf \<or> long_val v = 0"
  shows "length bs = length buf" and "bytes_int little is_signed bs = long_val v"
  using assms PyLong_AsByteArray_correct [OF assms(1), of buf little is_signed]
    bytes_int_inverse [of "length buf" is_signed "long_val v"]
  by (auto simp: bytes_int_lsb split: if_splits)

lemma PyLong_AsLongLong_correct:
  assumes wf: "wf_long v"
  shows "PyLong_AsLongLong v =
    (if - (2 ^ 63) \<le> long_val v \<and> long_val v < 2 ^ 63 then Inr (long_val v) else Inl OverflowError)"
proof -
  consider (small) "ob_size v = 1 \<or> ob_size v = -1" | (zero) "ob_size v = 0"
    | (big) "ob_size v \<noteq> 1" "ob_size v \<noteq> -1" "ob_size v \<noteq> 0" by blast
  then show ?thesis
  proof cases
    case small
    note o = one_digit_cases [OF wf small]
    have "PyLong_AsLongLong v = Inr (long_val v)"
      using o(1,2,4) small by (auto simp: PyLong_AsLongLong_def)
    moreover have "- (2 ^ 63) \<le> long_val v \<and> long_val v < 2 ^ 63" using o(3) by (auto simp: abs_less_iff)
    ultimately show ?thesis by simp
  next
    case zero
    then show ?thesis using long_val_0_iff [OF wf] by (simp add: PyLong_AsLongLong_def)
  next
    case big
    let ?buf = "replicate SIZEOF_LONG_LONG 0xCD"
    have run: "PyLong_AsLongLong v = rbind (PyLong_AsByteArray v ?buf True True) (\<lambda>bytes. Inr (load_llong bytes))"
      using big by (simp add: PyLong_AsLongLong_def)
    show ?thesis
    proof (cases "fits_bytes 8 True (long_val v)")
      case True
      then obtain bs where bs: "PyLong_AsByteArray v ?buf True True = Inr bs"
        using PyLong_AsByteArray_correct [OF wf, of ?buf True True] by (simp add: SIZEOF_LONG_LONG_def)
      have "load_llong bs = long_val v"
        using AsByteArray_value [OF wf bs] load_llong_value [of bs] by (simp add: SIZEOF_LONG_LONG_def)
      then show ?thesis using True unfolding run bs by (simp add: fits_bytes_def)
    next
      case False
      then show ?thesis unfolding run
        using PyLong_AsByteArray_correct [OF wf, of ?buf True True]
        by (auto simp: SIZEOF_LONG_LONG_def fits_bytes_def)
    qed
  qed
qed

lemma PyLong_AsUnsignedLongLong_correct:
  assumes wf: "wf_long v"
  shows "PyLong_AsUnsignedLongLong v =
    (if 0 \<le> long_val v \<and> long_val v < 2 ^ 64 then Inr (word_of_int (long_val v)) else Inl OverflowError)"
proof -
  consider (small) "ob_size v = 1" | (zero) "ob_size v = 0"
    | (big) "ob_size v \<noteq> 1" "ob_size v \<noteq> 0" by blast
  then show ?thesis
  proof cases
    case small
    then have pos: "0 < long_val v" using long_val_sign [OF wf] by simp
    note o = one_digit_cases [OF wf disjI1 [OF small]]
    have "(ucast (ob_digit v ! 0) :: 64 word) = word_of_int (long_val v)"
      using o(2) pos by (simp add: ucast_eq)
    then show ?thesis using small o(3) pos by (simp add: PyLong_AsUnsignedLongLong_def)
  next
    case zero
    then show ?thesis using long_val_0_iff [OF wf] by (simp add: PyLong_AsUnsignedLongLong_def)
  next
    case big
    let ?buf = "replicate SIZEOF_LONG_LONG 0xCD"
    have run: "PyLong_AsUnsignedLongLong v
        = rbind (PyLong_AsByteArray v ?buf True False) (\<lambda>bytes. Inr (load_ullong bytes))"
      using big by (simp add: PyLong_AsUnsignedLongLong_def)
    show ?thesis
    proof (cases "fits_bytes 8 False (long_val v)")
      case True
      then obtain bs where bs: "PyLong_AsByteArray v ?buf True False = Inr bs"
        using PyLong_AsByteArray_correct [OF wf, of ?buf True False] by (simp add: SIZEOF_LONG_LONG_def)
      have val: "length bs = 8" "int (bval bs) = long_val v"
        using AsByteArray_value [OF wf bs] by (simp_all add: SIZEOF_LONG_LONG_def bytes_int_def)
      have "int (unat (load_ullong bs)) = long_val v" using load_ullong_value [of bs] val by simp
      then have "uint (load_ullong bs) = long_val v" by (simp only: of_nat_unat)
      then have "load_ullong bs = word_of_int (long_val v)" by (metis word_of_int_uint)
      then show ?thesis using True unfolding run bs by (simp add: fits_bytes_def)
    next
      case False
      then show ?thesis unfolding run
        using PyLong_AsByteArray_correct [OF wf, of ?buf True False]
        by (auto simp: SIZEOF_LONG_LONG_def fits_bytes_def)
    qed
  qed
qed


section \<open>Round trips and the properties\<close>

text \<open>The integers that have a representation in \<open>n\<close> bytes.\<close>

definition representable :: "nat \<Rightarrow> bool \<Rightarrow> int \<Rightarrow> bool" where
  "representable n is_signed x \<longleftrightarrow>
     (if is_signed then - (2 ^ (8 * n)) \<le> 2 * x \<and> 2 * x < 2 ^ (8 * n) else 0 \<le> x \<and> x < 2 ^ (8 * n))"

lemma fits_representable:
  assumes "0 < n"
  shows "fits_bytes n is_signed x \<longleftrightarrow> representable n is_signed x"
proof -
  have "(2 :: int) ^ (8 * n) = 2 * 2 ^ (8 * n - 1)" using assms by (simp flip: power_Suc)
  then show ?thesis using assms by (auto simp: fits_bytes_def representable_def)
qed

lemma PyBytes_FromSize_length:
  assumes "0 \<le> len" and "len \<le> (PY_SSIZE_T_MAX - 30) div 8"
  shows "PyBytes_FromSize len = Inr (replicate (nat len) 0xCD)"
proof -
  have "\<not> len > PY_SSIZE_T_MAX - PyBytesObject_SIZE"
    using assms by (simp add: PyBytesObject_SIZE_def PY_SSIZE_T_MAX_def)
  then show ?thesis by (simp add: PyBytes_FromSize_def)
qed

lemma AsByteArray_representable:
  assumes "wf_long v" and "buf \<noteq> []"
  shows "if representable (length buf) is_signed (long_val v)
    then \<exists>bs. PyLong_AsByteArray v buf little is_signed = Inr bs \<and> length bs = length buf \<and>
              bytes_int little is_signed bs = long_val v
    else PyLong_AsByteArray v buf little is_signed = Inl OverflowError"
proof -
  note c = PyLong_AsByteArray_correct [OF assms(1), of buf little is_signed]
  have n: "0 < length buf" using assms(2) by simp
  note f = fits_representable [OF n, of is_signed "long_val v"]
  show ?thesis
  proof (cases "representable (length buf) is_signed (long_val v)")
    case True
    then obtain bs where "PyLong_AsByteArray v buf little is_signed = Inr bs" using c f by simp
    then show ?thesis using True AsByteArray_value [OF assms(1) _ disjI1 [OF n]] by auto
  next
    case False
    then show ?thesis using c f by simp
  qed
qed

definition minus_one :: pylong where
  "minus_one = \<lparr>ob_refcnt = 1, ob_size = -1, ob_digit = [1]\<rparr>"

lemma minus_one: "wf_long minus_one" "long_val minus_one = -1"
  by (simp_all add: wf_long_def digits_def nd_def digit_ok_def MAX_LONG_DIGITS_val long_val_def minus_one_def)

text \<open>
  C12: \<open>_PyLong_AsByteArray\<close> is exact, for every array: it writes the two's complement of the
  integer, in the byte order asked for, when the integer has a representation of that size, and
  raises \<open>OverflowError\<close> when it has none, with one exception: -1 is accepted into an array of no
  bytes when it is converted with its sign. It never touches a byte outside of the array and never
  fails an assertion.
\<close>

theorem AsByteArray_exact:
  assumes "wf_long v"
  shows "if representable (length buf) is_signed (long_val v)
    then \<exists>bs. PyLong_AsByteArray v buf little is_signed = Inr bs \<and> length bs = length buf \<and>
              bytes_int little is_signed bs = long_val v
    else PyLong_AsByteArray v buf little is_signed =
      (if buf = [] \<and> is_signed \<and> long_val v = -1 then Inr [] else Inl OverflowError)"
proof (cases "buf = []")
  case True
  have "representable 0 is_signed (long_val v) \<longleftrightarrow> long_val v = 0" by (auto simp: representable_def)
  then show ?thesis
    using True PyLong_AsByteArray_correct [OF assms, of buf little is_signed]
    by (auto simp: fits_bytes_def bytes_lsb_def bytes_int_def Let_def)
next
  case False
  then show ?thesis
    using AsByteArray_representable [OF assms False, of is_signed little] by (auto split: if_splits)
qed

lemma AsByteArray_exact_witness:
  "(\<exists>bs. PyLong_AsByteArray two_digits (replicate 5 0) False True = Inr bs \<and> length bs = 5 \<and>
      bytes_int False True bs = - 3221225479) \<and>
   PyLong_AsByteArray two_digits (replicate 4 0) False True = Inl OverflowError \<and>
   PyLong_AsByteArray minus_one [] False True = Inr []"
  using AsByteArray_exact [OF samples_wf(1), of "replicate 5 0" True False]
    AsByteArray_exact [OF samples_wf(1), of "replicate 4 0" True False]
    AsByteArray_exact [OF minus_one(1), of "[]" True False]
  by (simp add: samples_val minus_one(2) representable_def)

text \<open>
  C13: The byte array round trip: \<open>_PyLong_FromByteArray\<close> makes a well-formed integer object out of
  any array that is not too long, and \<open>_PyLong_AsByteArray\<close> with the same flags gives the same
  bytes back.
\<close>

theorem byte_array_round_trip:
  assumes "int (length bytes) \<le> (PY_SSIZE_T_MAX - 30) div 8" and "length buf = length bytes"
  shows "\<exists>v. PyLong_FromByteArray bytes little is_signed = Inr v \<and> wf_long v \<and>
    long_val v = bytes_int little is_signed bytes \<and>
    PyLong_AsByteArray v buf little is_signed = Inr bytes"
proof -
  define bs where "bs = bytes_lsb little bytes"
  have bytes: "bytes = bytes_lsb little bs" and len: "length bs = length buf"
    using assms(2) by (simp_all add: bs_def)
  obtain v where v: "PyLong_FromByteArray bytes little is_signed = Inr v" "wf_long v"
      "long_val v = bytes_int little is_signed bytes"
    using PyLong_FromByteArray_correct [OF assms(1)] by blast
  have x: "long_val v = bytes_int True is_signed bs" unfolding v(3) bytes bytes_int_lsb ..
  have "PyLong_AsByteArray v buf little is_signed = Inr bytes"
    unfolding PyLong_AsByteArray_correct [OF v(2)] x len [symmetric]
    by (simp add: bytes_int_fits int_bytes_inverse bytes)
  then show ?thesis using v by blast
qed


lemma byte_array_round_trip_witness:
  "\<exists>v. PyLong_FromByteArray [0xff, 0x7f, 0x80] True True = Inr v \<and> long_val v = - 8355841 \<and>
    PyLong_AsByteArray v [0, 0, 0] True True = Inr [0xff, 0x7f, 0x80]"
  using byte_array_round_trip [of "[0xff, 0x7f, 0x80]" "[0, 0, 0]" True True]
  by (auto simp: bytes_int_def PY_SSIZE_T_MAX_def)

text \<open>
  The methods: for an integer that is representable in a positive number of bytes,
  \<open>int.from_bytes\<close> of what \<open>int.to_bytes\<close> returns is the integer again, in both byte orders and with
  and without the sign; any other byte order is a \<open>ValueError\<close> of both.
\<close>

theorem to_bytes_from_bytes:
  assumes "wf_long v" and "0 < len" and "len \<le> (PY_SSIZE_T_MAX - 30) div 8"
    and "representable (nat len) is_signed (long_val v)"
  shows "if byteorder \<in> {''little'', ''big''}
    then \<exists>bs w. int_to_bytes v len byteorder is_signed = Inr bs \<and> length bs = nat len \<and>
           int_from_bytes bs byteorder is_signed = Inr w \<and> wf_long w \<and> long_val w = long_val v
    else int_to_bytes v len byteorder is_signed = Inl ValueError \<and>
         (\<forall>bs. int_from_bytes bs byteorder is_signed = Inl ValueError)"
proof (cases "byteorder \<in> {''little'', ''big''}")
  case True
  define little where "little = (byteorder = ''little'')"
  let ?buf = "replicate (nat len) 0xCD :: py_byte list"
  have buf: "PyBytes_FromSize len = Inr ?buf" using PyBytes_FromSize_length assms(2,3) by simp
  have "?buf \<noteq> []" using assms(2) by simp
  from AsByteArray_representable [OF assms(1) this, of is_signed little] assms(4)
  obtain bs where bs: "PyLong_AsByteArray v ?buf little is_signed = Inr bs" "length bs = nat len"
      "bytes_int little is_signed bs = long_val v" by auto
  have small: "int (length bs) \<le> (PY_SSIZE_T_MAX - 30) div 8" using bs(2) assms(2,3) by simp
  obtain w where w: "PyLong_FromByteArray bs little is_signed = Inr w" "wf_long w"
      "long_val w = long_val v"
    using PyLong_FromByteArray_correct [OF small, of little is_signed] bs(3) by auto
  have o: "byteorder = (if little then ''little'' else ''big'')" using True by (auto simp: little_def)
  have "int_to_bytes v len byteorder is_signed = Inr bs" "int_from_bytes bs byteorder is_signed = Inr w"
    using buf bs(1) w(1) assms(2) unfolding o by (cases little; simp add: int_to_bytes_def int_from_bytes_def)+
  then show ?thesis using True bs(2) w by auto
next
  case False
  then show ?thesis by (simp add: int_to_bytes_def int_from_bytes_def)
qed

lemma to_bytes_from_bytes_witness:
  "\<exists>bs w. int_to_bytes two_digits 6 ''big'' True = Inr bs \<and> length bs = 6 \<and>
     int_from_bytes bs ''big'' True = Inr w \<and> wf_long w \<and> long_val w = - 3221225479"
  using to_bytes_from_bytes [OF samples_wf(1), of 6 True "''big''"]
  by (simp add: samples_val representable_def PY_SSIZE_T_MAX_def)

text \<open>
  C14: The two conversions to a 64-bit C integer agree: \<open>PyLong_AsLongLong\<close>, which goes through a byte
  array, and \<open>PyLong_AsLong\<close>, which accumulates the digits, return the same value or both raise
  \<open>OverflowError\<close>, and so do the unsigned ones.
\<close>

theorem AsLongLong_agrees:
  assumes "wf_long v"
  shows "PyLong_AsLongLong v = PyLong_AsLong v \<and> PyLong_AsUnsignedLongLong v = PyLong_AsUnsignedLong v"
proof -
  have "LONG_MIN \<le> x \<and> x \<le> LONG_MAX \<longleftrightarrow> - (2 ^ 63) \<le> x \<and> x < 2 ^ 63" for x
    by (auto simp: LONG_MIN_def LONG_MAX_def)
  then show ?thesis
    by (simp add: PyLong_AsLongLong_correct [OF assms] PyLong_AsLong_correct [OF assms]
        PyLong_AsUnsignedLongLong_correct [OF assms] PyLong_AsUnsignedLong_correct [OF assms])
qed

lemma AsLongLong_agrees_witness:
  "PyLong_AsLongLong two_digits = PyLong_AsLong two_digits"
  using AsLongLong_agrees [OF samples_wf(1)] by simp

text \<open>
  The one integer that is accepted although it has no representation: -1 in an array of no bytes.
  No digit sets a bit that has to be stored, and the check for room for the sign bit is made for
  an array that is not empty only.
\<close>

theorem minus_one_in_no_bytes:
  assumes "wf_long v" and "long_val v = -1"
  shows "int_to_bytes v 0 ''little'' True = Inr [] \<and>
    (\<exists>w. int_from_bytes [] ''little'' True = Inr w \<and> long_val w = 0)"
proof -
  have "PyLong_AsByteArray v [] True True = Inr []"
    using PyLong_AsByteArray_correct [OF assms(1), of "[]" True True] assms(2)
    by (simp add: fits_bytes_def bytes_lsb_def)
  moreover have "\<exists>w. PyLong_FromByteArray [] True True = Inr w \<and> long_val w = 0"
    using PyLong_FromByteArray_correct [of "[]" True True] by (auto simp: bytes_int_def PY_SSIZE_T_MAX_def)
  ultimately show ?thesis by (simp add: int_to_bytes_def int_from_bytes_def PyBytes_FromSize_def)
qed

end
