(* ===== verification/PyState.thy ===== *)
theory PyState
  imports PyPrelude
begin

text \<open>
  Operations on a mutable object. Such an operation takes the state and returns the new state
  with its result, also when it raises: what an operation leaves behind when user code inside it
  raises is part of its behaviour. \<open>wp m Q E s\<close> says that \<open>m\<close>, run on \<open>s\<close>, ends in a state with \<open>Q\<close>
  of its value, or raises in a state with \<open>E\<close> of its exception; the rules of the collection
  \<open>wp\<close> compute it along the program text.
\<close>

section \<open>Stateful operations\<close>

type_synonym ('s, 'a) py = "'s \<Rightarrow> 's \<times> 'a pyres"

definition sret :: "'a \<Rightarrow> ('s, 'a) py" where
  "sret x = (\<lambda>s. (s, Inr x))"

definition sraise :: "pyerr \<Rightarrow> ('s, 'a) py" where
  "sraise e = (\<lambda>s. (s, Inl e))"

definition sbind :: "('s, 'a) py \<Rightarrow> ('a \<Rightarrow> ('s, 'b) py) \<Rightarrow> ('s, 'b) py" where
  "sbind m f = (\<lambda>s. case m s of (s', Inl e) \<Rightarrow> (s', Inl e) | (s', Inr x) \<Rightarrow> f x s')"

definition sget :: "('s \<Rightarrow> 'a) \<Rightarrow> ('s, 'a) py" where
  "sget f = (\<lambda>s. (s, Inr (f s)))"

definition smodify :: "('s \<Rightarrow> 's) \<Rightarrow> ('s, unit) py" where
  "smodify f = (\<lambda>s. (f s, Inr ()))"

text \<open>A computation without effect on the state, and one on the first component of the state.\<close>

definition slift :: "'a pyres \<Rightarrow> ('s, 'a) py" where
  "slift r = (\<lambda>s. (s, r))"

definition on_fst :: "('s, 'a) py \<Rightarrow> ('s \<times> 'w, 'a) py" where
  "on_fst m = (\<lambda>(s, w). let (s', r) = m s in ((s', w), r))"

definition sassert :: "bool \<Rightarrow> ('s, unit) py" where
  "sassert b = slift (c_assert b)"

lemma sbind_cong [fundef_cong]:
  assumes "m s = m' s'" and "s = s'"
    and "\<And>x t. m' s' = (t, Inr x) \<Longrightarrow> f x t = f' x t"
  shows "sbind m f s = sbind m' f' s'"
  using assms by (auto simp: sbind_def split: prod.splits sum.splits)

section \<open>Weakest preconditions\<close>

definition wp :: "('s, 'a) py \<Rightarrow> ('a \<Rightarrow> 's \<Rightarrow> bool) \<Rightarrow> (pyerr \<Rightarrow> 's \<Rightarrow> bool) \<Rightarrow> 's \<Rightarrow> bool" where
  "wp m Q E s = (case m s of (t, Inl e) \<Rightarrow> E e t | (t, Inr x) \<Rightarrow> Q x t)"

named_theorems wp_rules \<open>weakest preconditions of operations\<close>

lemma wp_sret [simp, wp_rules]: "wp (sret x) Q E = Q x"
  by (rule ext) (simp add: wp_def sret_def)

lemma wp_sraise [simp, wp_rules]: "wp (sraise e) Q E = E e"
  by (rule ext) (simp add: wp_def sraise_def)

lemma wp_sget [simp, wp_rules]: "wp (sget f) Q E = (\<lambda>s. Q (f s) s)"
  by (rule ext) (simp add: wp_def sget_def)

lemma wp_smodify [simp, wp_rules]: "wp (smodify f) Q E = (\<lambda>s. Q () (f s))"
  by (rule ext) (simp add: wp_def smodify_def)

lemma wp_slift_Inr [simp, wp_rules]: "wp (slift (Inr x)) Q E = Q x"
  by (rule ext) (simp add: wp_def slift_def)

lemma wp_slift_Inl [simp, wp_rules]: "wp (slift (Inl e)) Q E = E e"
  by (rule ext) (simp add: wp_def slift_def)

lemma wp_sassert [simp, wp_rules]: "wp (sassert b) Q E = (if b then Q () else E AssertionFailed)"
  by (rule ext) (simp add: wp_def sassert_def slift_def c_assert_def)

lemma wp_sbind [simp, wp_rules]:
  "wp (sbind m f) Q E = wp m (\<lambda>x. wp (f x) Q E) E"
  by (rule ext) (auto simp: wp_def sbind_def split: prod.splits sum.splits)

lemma wp_on_fst [simp, wp_rules]:
  "wp (on_fst m) Q E (s, w) = wp m (\<lambda>x t. Q x (t, w)) (\<lambda>e t. E e (t, w)) s"
  by (auto simp: wp_def on_fst_def Let_def split: prod.splits sum.splits)

lemma wp_on_fst': "wp (on_fst m) Q E s = wp m (\<lambda>x l. Q x (l, snd s)) (\<lambda>e l. E e (l, snd s)) (fst s)"
  by (cases s) simp

lemma wp_if [simp, wp_rules]:
  "wp (if b then m else n) Q E = (if b then wp m Q E else wp n Q E)"
  by simp

lemma wp_mono:
  assumes "wp m Q E s" and "\<And>x t. Q x t \<Longrightarrow> Q' x t" and "\<And>e t. E e t \<Longrightarrow> E' e t"
  shows "wp m Q' E' s"
  using assms by (auto simp: wp_def split: prod.splits sum.splits)

lemma wp_conj:
  assumes "wp m Q E s" and "wp m Q' E' s"
  shows "wp m (\<lambda>x t. Q x t \<and> Q' x t) (\<lambda>e t. E e t \<and> E' e t) s"
  using assms by (auto simp: wp_def split: prod.splits sum.splits)

lemma wp_result:
  assumes "wp m Q E s"
  shows "(\<exists>x t. m s = (t, Inr x) \<and> Q x t) \<or> (\<exists>e t. m s = (t, Inl e) \<and> E e t)"
  using assms by (cases "m s"; cases "snd (m s)") (auto simp: wp_def)

lemma wp_case: "wp m Q E s = (case m s of (t, Inr x) \<Rightarrow> Q x t | (t, Inl e) \<Rightarrow> E e t)"
  by (auto simp: wp_def split: prod.splits sum.splits)

text \<open>An operation that cannot raise.\<close>

lemma wp_total:
  assumes "wp m Q (\<lambda>e t. False) s"
  shows "\<exists>x t. m s = (t, Inr x) \<and> Q x t"
  using wp_result [OF assms] by blast

section \<open>Running over a range\<close>

text \<open>\<open>for (i = lo; i < lo + n; i++) body(i)\<close>.\<close>

fun sfor :: "nat \<Rightarrow> nat \<Rightarrow> (nat \<Rightarrow> ('s, unit) py) \<Rightarrow> ('s, unit) py" where
  "sfor lo 0 body = sret ()"
| "sfor lo (Suc n) body = sbind (body lo) (\<lambda>_. sfor (Suc lo) n body)"

lemma wp_sfor:
  assumes "I lo s"
    and "\<And>i t. lo \<le> i \<Longrightarrow> i < lo + n \<Longrightarrow> I i t \<Longrightarrow> wp (body i) (\<lambda>_. I (Suc i)) E t"
  shows "wp (sfor lo n body) (\<lambda>_. I (lo + n)) E s"
  using assms
proof (induction n arbitrary: lo s)
  case (Suc n)
  have "wp (body lo) (\<lambda>_. I (Suc lo)) E s" using Suc.prems by simp
  then show ?case
    by (simp, elim wp_mono) (use Suc.IH [of "Suc lo"] Suc.prems(2) in auto)
qed simp

end
