(* ===== verification/PyList.thy ===== *)
theory PyList
  imports PyState
begin

text \<open>
  List objects (\<open>Objects/listobject.c\<close>): a size, an array of slots that may be longer than the
  size, and the number of slots allocated. A slot holds an object or nothing (\<open>NULL\<close> or memory
  that was never written). \<open>wf_list\<close> is the invariant of the representation and \<open>elems\<close> the
  sequence it stands for; each operation is shown to implement the operation on sequences, and
  to leave the list as it was when it fails. The allocator returns memory for every request
  that passes the size checks of the source.
\<close>

section \<open>The object\<close>

record 'a pylist =
  list_size :: int
  ob_item :: "'a option list option"
  allocated :: int

definition slots :: "'a pylist \<Rightarrow> 'a option list" where
  "slots l = (case ob_item l of None \<Rightarrow> [] | Some xs \<Rightarrow> xs)"

definition elems :: "'a pylist \<Rightarrow> 'a list" where
  "elems l = map the (take (nat (list_size l)) (slots l))"

definition LIST_MAX :: int where
  "LIST_MAX = PY_SSIZE_T_MAX div 8"

definition wf_list :: "'a pylist \<Rightarrow> bool" where
  "wf_list l \<longleftrightarrow>
     0 \<le> list_size l \<and> list_size l \<le> allocated l \<and> allocated l \<le> LIST_MAX \<and>
     int (length (slots l)) = allocated l \<and>
     list_all (\<lambda>x. x \<noteq> None) (take (nat (list_size l)) (slots l))"

text \<open>\<open>PyList_GET_ITEM\<close>, \<open>PyList_SET_ITEM\<close> and \<open>ob_item[i]\<close>: a read of a slot that holds nothing
  and a write outside the array are violations.\<close>

definition slot_get :: "int \<Rightarrow> ('a pylist, 'a) py" where
  "slot_get i = (\<lambda>l.
     if 0 \<le> i \<and> nat i < length (slots l) then
       (case slots l ! nat i of Some x \<Rightarrow> (l, Inr x) | None \<Rightarrow> (l, Inl AssertionFailed))
     else (l, Inl AssertionFailed))"

definition slot_set :: "int \<Rightarrow> 'a \<Rightarrow> ('a pylist, unit) py" where
  "slot_set i x = (\<lambda>l.
     if 0 \<le> i \<and> nat i < length (slots l) then (l\<lparr>ob_item := Some ((slots l)[nat i := Some x])\<rparr>, Inr ())
     else (l, Inl AssertionFailed))"

text \<open>\<open>memmove\<close> of \<open>n\<close> slots inside the array, and the reallocation of the array.\<close>

definition slots_move :: "int \<Rightarrow> int \<Rightarrow> int \<Rightarrow> ('a pylist, unit) py" where
  "slots_move dst src n = (\<lambda>l.
     if n = 0 then (l, Inr ())
     else if 0 \<le> dst \<and> 0 \<le> src \<and> 0 \<le> n \<and> dst + n \<le> int (length (slots l)) \<and> src + n \<le> int (length (slots l))
     then (l\<lparr>ob_item := Some (array_write (slots l) (nat dst) (take (nat n) (drop (nat src) (slots l))))\<rparr>, Inr ())
     else (l, Inl AssertionFailed))"

definition realloc :: "'a option list \<Rightarrow> nat \<Rightarrow> 'a option list" where
  "realloc xs n = take n xs @ replicate (n - length xs) None"

section \<open>Resizing\<close>

definition list_new_allocated :: "int \<Rightarrow> int \<Rightarrow> size_t" where
  "list_new_allocated sz newsize =
     (let new_allocated = (word_of_int newsize + word_of_int (newsize div 8) + 6) AND NOT 3;
          new_allocated =
            (if newsize - sz > sint (new_allocated - word_of_int newsize)
             then (word_of_int newsize + 3) AND NOT 3 else new_allocated)
      in if newsize = 0 then 0 else new_allocated)"

definition list_resize :: "int \<Rightarrow> ('a pylist, unit) py" where
  "list_resize newsize = (\<lambda>self.
     if allocated self \<ge> newsize \<and> newsize \<ge> allocated self div 2 then
       (if ob_item self \<noteq> None \<or> newsize = 0 then (self\<lparr>list_size := newsize\<rparr>, Inr ())
        else (self, Inl AssertionFailed))
     else
       let new_allocated = list_new_allocated (list_size self) newsize
       in if new_allocated \<le> word_of_int PY_SSIZE_T_MAX div 8 then
            (self\<lparr>ob_item := Some (realloc (slots self) (unat new_allocated)),
                  list_size := newsize, allocated := uint new_allocated\<rparr>, Inr ())
          else (self, Inl MemoryError))"

definition list_preallocate_exact :: "int \<Rightarrow> ('a pylist, unit) py" where
  "list_preallocate_exact sz =
     sbind (sget ob_item) (\<lambda>items.
     sbind (sassert (items = None \<and> sz > 0)) (\<lambda>_.
       let sz = (word_of_int (sz + 1) AND NOT 1 :: size_t)
       in if sz > word_of_int PY_SSIZE_T_MAX div 8 then sraise MemoryError
          else smodify (\<lambda>l. l\<lparr>ob_item := Some (replicate (unat sz) None), allocated := uint sz\<rparr>)))"

text \<open>\<open>PyList_New\<close> zeroes its slots; \<open>list_new_prealloc\<close> leaves the sz at 0.\<close>

definition PyList_New :: "int \<Rightarrow> 'a pylist pyres" where
  "PyList_New sz =
     (if sz < 0 then Inl RuntimeError
      else if sz > LIST_MAX then Inl MemoryError
      else Inr \<lparr>list_size = sz, ob_item = (if sz = 0 then None else Some (replicate (nat sz) None)),
                allocated = sz\<rparr>)"

definition list_new_prealloc :: "int \<Rightarrow> 'a pylist pyres" where
  "list_new_prealloc sz =
     rbind (c_assert (sz > 0)) (\<lambda>_.
     rbind (PyList_New 0) (\<lambda>op.
       if sz > LIST_MAX then Inl MemoryError
       else Inr (op\<lparr>ob_item := Some (replicate (nat sz) None), allocated := sz\<rparr>)))"

section \<open>Items\<close>

definition valid_index :: "int \<Rightarrow> int \<Rightarrow> bool" where
  "valid_index i limit = ((word_of_int i :: size_t) < word_of_int limit)"

definition list_item :: "int \<Rightarrow> ('a pylist, 'a) py" where
  "list_item i = sbind (sget list_size) (\<lambda>n. if \<not> valid_index i n then sraise IndexError else slot_get i)"

definition PyList_SetItem :: "int \<Rightarrow> 'a \<Rightarrow> ('a pylist, unit) py" where
  "PyList_SetItem i x =
     sbind (sget list_size) (\<lambda>n. if \<not> valid_index i n then sraise IndexError else slot_set i x)"

fun ins1_shift :: "nat \<Rightarrow> int \<Rightarrow> ('a pylist, unit) py" where
  "ins1_shift 0 pos = sret ()"
| "ins1_shift (Suc i) pos =
     (if int i \<ge> pos then
        sbind (slot_get (int i)) (\<lambda>x. sbind (slot_set (int i + 1) x) (\<lambda>_. ins1_shift i pos))
      else sret ())"

definition ins1 :: "int \<Rightarrow> 'a \<Rightarrow> ('a pylist, unit) py" where
  "ins1 pos v =
     sbind (sget list_size) (\<lambda>n.
     sbind (sassert (n + 1 < PY_SSIZE_T_MAX)) (\<lambda>_.
     sbind (list_resize (n + 1)) (\<lambda>_.
       let pos = (if pos < 0 then (if pos + n < 0 then 0 else pos + n) else pos);
           pos = (if pos > n then n else pos)
       in sbind (ins1_shift (nat n) pos) (\<lambda>_. slot_set pos v))))"

definition app1 :: "'a \<Rightarrow> ('a pylist, unit) py" where
  "app1 v =
     sbind (sget list_size) (\<lambda>n.
     sbind (sassert (n + 1 < PY_SSIZE_T_MAX)) (\<lambda>_.
     sbind (list_resize (n + 1)) (\<lambda>_. slot_set n v)))"

definition list_clear :: "('a pylist, unit) py" where
  "list_clear = (\<lambda>a. if ob_item a = None then (a, Inr ())
     else (a\<lparr>list_size := 0, ob_item := None, allocated := 0\<rparr>, Inr ()))"

section \<open>The invariant and the memory\<close>

lemma LIST_MAX_eq [simp]: "LIST_MAX = 1152921504606846975"
  by (simp add: LIST_MAX_def PY_SSIZE_T_MAX_def)

lemma slots_simps [simp]:
  "slots \<lparr>list_size = n, ob_item = None, allocated = m\<rparr> = []"
  "slots \<lparr>list_size = n, ob_item = Some xs, allocated = m\<rparr> = xs"
  "slots (l\<lparr>list_size := n\<rparr>) = slots l"
  "slots (l\<lparr>allocated := m\<rparr>) = slots l"
  "slots (l\<lparr>ob_item := Some xs\<rparr>) = xs"
  "slots (l\<lparr>ob_item := None\<rparr>) = []"
  by (simp_all add: slots_def)

lemma wf_listD:
  assumes "wf_list l"
  shows "0 \<le> list_size l" and "list_size l \<le> allocated l" and "allocated l \<le> LIST_MAX"
    and "length (slots l) = nat (allocated l)"
    and "i < nat (list_size l) \<Longrightarrow> slots l ! i = Some (elems l ! i)"
    and "length (elems l) = nat (list_size l)" and "int (length (elems l)) = list_size l"
    and "int (length (slots l)) = allocated l" and "0 \<le> allocated l"
proof -
  show "0 \<le> list_size l" "list_size l \<le> allocated l" "allocated l \<le> LIST_MAX"
    and len: "length (slots l) = nat (allocated l)" using assms by (auto simp: wf_list_def)
  then show al: "0 \<le> allocated l" by linarith
  then show "int (length (slots l)) = allocated l" using len by simp
  have le: "nat (list_size l) \<le> length (slots l)"
    using len \<open>list_size l \<le> allocated l\<close> by simp
  then show "length (elems l) = nat (list_size l)" by (simp add: elems_def min_absorb2)
  then show "int (length (elems l)) = list_size l" using \<open>0 \<le> list_size l\<close> by simp
  assume i: "i < nat (list_size l)"
  have "list_all (\<lambda>x. x \<noteq> None) (take (nat (list_size l)) (slots l))" using assms by (simp add: wf_list_def)
  then have "take (nat (list_size l)) (slots l) ! i \<noteq> None"
    using i le by (simp add: list_all_length min_absorb2)
  then show "slots l ! i = Some (elems l ! i)" using i le by (simp add: elems_def min_absorb2)
qed

text \<open>A list whose slots are its elements followed by spare room.\<close>

lemma wf_listI:
  assumes "slots l = map Some xs @ ys" and "list_size l = int (length xs)"
    and "allocated l = int (length (slots l))" and "int (length (slots l)) \<le> LIST_MAX"
  shows "wf_list l" and "elems l = xs"
  using assms by (simp_all add: wf_list_def elems_def list_all_iff o_def)

lemma wf_list_slots:
  assumes "wf_list l"
  shows "slots l = map Some (elems l) @ drop (length (elems l)) (slots l)"
proof -
  note w = wf_listD [OF assms]
  have "take (length (elems l)) (slots l) = map Some (elems l)"
    using w by (intro nth_equalityI) (auto simp: min_absorb2)
  then show ?thesis by (metis append_take_drop_id)
qed

section \<open>Resizing keeps the elements\<close>

lemma uint_and_not_mask: "uint (w AND NOT (mask n)) = uint (w :: size_t) - uint w mod 2 ^ n"
proof -
  have d: "(w AND NOT (mask n)) AND (w AND mask n) = 0"
    by (rule bit_eqI) (auto simp: bit_and_iff bit_not_iff)
  have "uint (w AND NOT (mask n)) + uint (w AND mask n) = uint ((w AND NOT (mask n)) OR (w AND mask n))"
    using d by (simp add: unsigned_or_eq unsigned_and_eq disjunctive_add_eq_or flip: unsigned_and_eq)
  also have "(w AND NOT (mask n)) OR (w AND mask n) = w"
    by (rule bit_eqI) (auto simp: bit_and_iff bit_or_iff bit_not_iff)
  also have "uint (w AND mask n) = uint w mod 2 ^ n"
    by (simp add: unsigned_take_bit_eq flip: take_bit_eq_mask) (simp add: take_bit_eq_mod)
  finally show ?thesis by simp
qed

lemma uint_and_not_3: "uint (w AND - 4) = uint (w :: size_t) - uint w mod 4"
  using uint_and_not_mask [of w 2] by (simp add: mask_eq_exp_minus_1)

lemma uint_and_not_1: "uint (w AND - 2) = uint (w :: size_t) - uint w mod 2"
  using uint_and_not_mask [of w 1] by (simp add: mask_eq_exp_minus_1)

lemma uint_of_int_small: "0 \<le> i \<Longrightarrow> i < 2 ^ 64 \<Longrightarrow> uint (word_of_int i :: size_t) = i"
  by (simp add: unsigned_of_int take_bit_int_eq_self)

lemma list_new_allocated_bounds:
  assumes "0 < newsize" and "newsize \<le> PY_SSIZE_T_MAX"
  shows "newsize \<le> uint (list_new_allocated sz newsize)"
    and "uint (list_new_allocated sz newsize) \<le> newsize + newsize div 8 + 6"
proof -
  have b: "newsize < 2 ^ 63" using assms by (simp add: PY_SSIZE_T_MAX_def)
  let ?w = "word_of_int newsize + word_of_int (newsize div 8) + 6 :: size_t"
  let ?v = "word_of_int newsize + 3 :: size_t"
  have w: "uint ?w = newsize + newsize div 8 + 6"
    using uint_of_int_small [of "newsize + newsize div 8 + 6"] assms(1) b by simp
  have v: "uint ?v = newsize + 3"
    using uint_of_int_small [of "newsize + 3"] assms(1) b by simp
  show "newsize \<le> uint (list_new_allocated sz newsize)"
    "uint (list_new_allocated sz newsize) \<le> newsize + newsize div 8 + 6"
    using assms(1) by (auto simp: list_new_allocated_def Let_def uint_and_not_3 w v)
qed

lemma list_new_allocated_0 [simp]: "list_new_allocated sz 0 = 0"
  by (simp add: list_new_allocated_def)

text \<open>A request that fits into the memory of the list is never refused.\<close>

lemma wp_list_resize_shrink:
  assumes wf: "wf_list l" and n: "0 \<le> newsize" "newsize \<le> list_size l"
    and Q: "wp (list_resize newsize) Q (\<lambda>e l'. LIST_MAX < newsize + newsize div 8 + 6) l"
  shows "wp (list_resize newsize) Q E l"
proof (cases "allocated l \<ge> newsize \<and> newsize \<ge> allocated l div 2")
  case True
  then have "ob_item l \<noteq> None \<or> newsize = 0"
    using wf n(1) by (cases "ob_item l") (auto simp: wf_list_def slots_def)
  then show ?thesis using True Q by (auto simp: wp_def list_resize_def)
next
  case False
  moreover have "newsize \<le> allocated l" "allocated l \<le> LIST_MAX" using wf n(2) by (auto simp: wf_list_def)
  ultimately have "\<not> LIST_MAX < newsize + newsize div 8 + 6" by simp
  then show ?thesis using wp_mono [OF Q, of Q E] by blast
qed

lemma take_realloc: "k \<le> n \<Longrightarrow> k \<le> length xs \<Longrightarrow> take k (realloc xs n) = take k xs"
  by (simp add: realloc_def min_absorb1)

lemma length_realloc [simp]: "length (realloc xs n) = n"
  by (simp add: realloc_def)

text \<open>
  After a resize the slots up to the old and the new size are the old ones, and there is room
  for the new size; the bound of the allocation failure is that of the source.
\<close>

definition resized :: "'a pylist \<Rightarrow> int \<Rightarrow> 'a pylist \<Rightarrow> bool" where
  "resized l newsize l' \<longleftrightarrow>
     list_size l' = newsize \<and> newsize \<le> allocated l' \<and> allocated l' \<le> LIST_MAX \<and>
     int (length (slots l')) = allocated l' \<and>
     take (nat (min (list_size l) newsize)) (slots l') = take (nat (min (list_size l) newsize)) (slots l)"

lemma wp_list_resize:
  assumes wf: "wf_list l" and n: "0 \<le> newsize" "newsize \<le> PY_SSIZE_T_MAX"
  shows "wp (list_resize newsize) (\<lambda>_. resized l newsize)
    (\<lambda>e l'. e = MemoryError \<and> l' = l \<and> LIST_MAX < newsize + newsize div 8 + 6) l"
proof (cases "allocated l \<ge> newsize \<and> newsize \<ge> allocated l div 2")
  case True
  note w = wf_listD [OF wf]
  have "ob_item l \<noteq> None \<or> newsize = 0"
    using True w(4) n(1) by (cases "ob_item l") (auto simp: slots_def)
  then show ?thesis
    using True w(1-4) by (auto simp: wp_def list_resize_def resized_def)
next
  case False
  note w = wf_listD [OF wf]
  let ?n = "list_new_allocated (list_size l) newsize"
  have k: "newsize \<le> uint ?n" "uint ?n \<le> newsize + newsize div 8 + 6"
    using list_new_allocated_bounds [OF _ n(2), of "list_size l"] n(1) by (cases "newsize = 0"; force)+
  have m: "uint (word_of_int PY_SSIZE_T_MAX div 8 :: size_t) = LIST_MAX"
    by (simp add: PY_SSIZE_T_MAX_def uint_div)
  have u: "int (unat ?n) = uint ?n" by simp
  show ?thesis
  proof (cases "?n \<le> word_of_int PY_SSIZE_T_MAX div 8")
    case T: True
    then have le: "uint ?n \<le> LIST_MAX" by (simp only: word_le_def m)
    have "nat newsize \<le> unat ?n" using k(1) by (simp only: nat_le_iff u)
    then have "nat (min (list_size l) newsize) \<le> unat ?n" by linarith
    moreover have "nat (min (list_size l) newsize) \<le> length (slots l)"
      using w(1,2,4) by simp
    ultimately show ?thesis
      using le k(1) unfolding wp_def list_resize_def if_not_P [OF False] Let_def if_P [OF T]
      by (simp add: resized_def take_realloc)
  next
    case F: False
    then have "LIST_MAX < uint ?n" by (simp only: word_le_def m not_le)
    then show ?thesis
      using k(2) unfolding wp_def list_resize_def if_not_P [OF False] Let_def if_not_P [OF F] by simp
  qed
qed

section \<open>Reading and writing items\<close>

lemma wp_slot_get [simp, wp_rules]:
  "wp (slot_get i) Q E = (\<lambda>l.
     if 0 \<le> i \<and> nat i < length (slots l) \<and> slots l ! nat i \<noteq> None then Q (the (slots l ! nat i)) l
     else E AssertionFailed l)"
  by (rule ext) (auto simp: wp_def slot_get_def split: option.splits)

lemma wp_slot_set [simp, wp_rules]:
  "wp (slot_set i x) Q E = (\<lambda>l.
     if 0 \<le> i \<and> nat i < length (slots l) then Q () (l\<lparr>ob_item := Some ((slots l)[nat i := Some x])\<rparr>)
     else E AssertionFailed l)"
  by (rule ext) (simp add: wp_def slot_set_def)

lemma wp_slots_move:
  "wp (slots_move dst src n) Q E l =
    (if n = 0 then Q () l
     else if 0 \<le> dst \<and> 0 \<le> src \<and> 0 \<le> n \<and> dst + n \<le> int (length (slots l)) \<and> src + n \<le> int (length (slots l))
     then Q () (l\<lparr>ob_item := Some (array_write (slots l) (nat dst) (take (nat n) (drop (nat src) (slots l))))\<rparr>)
     else E AssertionFailed l)"
  by (simp add: wp_def slots_move_def)

lemma wf_list_get:
  assumes "wf_list l" and "0 \<le> i" and "i < list_size l"
  shows "nat i < length (slots l)" and "slots l ! nat i = Some (elems l ! nat i)"
  using wf_listD(1-4) [OF assms(1)] wf_listD(5) [OF assms(1), of "nat i"] assms(2,3) by auto

lemma wf_list_set:
  assumes "wf_list l" and "0 \<le> i" and "i < list_size l"
  shows "wf_list (l\<lparr>ob_item := Some ((slots l)[nat i := Some x])\<rparr>)"
    and "elems (l\<lparr>ob_item := Some ((slots l)[nat i := Some x])\<rparr>) = (elems l)[nat i := x]"
proof -
  note w = wf_listD(1-4,6,7) [OF assms(1)]
  have "nat i < length (map Some (elems l))" using w(5) assms(2,3) by simp
  from list_update_append1 [OF this, of "drop (length (elems l)) (slots l)" "Some x"]
  have "(slots l)[nat i := Some x] = map Some ((elems l)[nat i := x]) @ drop (length (elems l)) (slots l)"
    using wf_list_slots [OF assms(1)] by (simp only: map_update)
  then have sl: "slots (l\<lparr>ob_item := Some ((slots l)[nat i := Some x])\<rparr>) =
      map Some ((elems l)[nat i := x]) @ drop (length (elems l)) (slots l)" by simp
  have "list_size (l\<lparr>ob_item := Some ((slots l)[nat i := Some x])\<rparr>) = int (length ((elems l)[nat i := x]))"
    "allocated (l\<lparr>ob_item := Some ((slots l)[nat i := Some x])\<rparr>) =
      int (length (slots (l\<lparr>ob_item := Some ((slots l)[nat i := Some x])\<rparr>)))"
    "int (length (slots (l\<lparr>ob_item := Some ((slots l)[nat i := Some x])\<rparr>))) \<le> LIST_MAX"
    using w(3,6) wf_listD(8) [OF assms(1)] by simp_all
  from wf_listI [OF sl this] show "wf_list (l\<lparr>ob_item := Some ((slots l)[nat i := Some x])\<rparr>)"
    "elems (l\<lparr>ob_item := Some ((slots l)[nat i := Some x])\<rparr>) = (elems l)[nat i := x]" .
qed

lemma valid_index_iff:
  assumes "- (2 ^ 63) \<le> i" and "i < 2 ^ 63" and "0 \<le> n" and "n \<le> PY_SSIZE_T_MAX"
  shows "valid_index i n \<longleftrightarrow> 0 \<le> i \<and> i < n"
proof -
  have n: "uint (word_of_int n :: size_t) = n"
    using assms(3,4) by (intro uint_of_int_small) (simp_all add: PY_SSIZE_T_MAX_def)
  show ?thesis
  proof (cases "0 \<le> i")
    case True
    then have "uint (word_of_int i :: size_t) = i" using assms(2) by (intro uint_of_int_small) simp_all
    then show ?thesis using True by (simp add: valid_index_def word_less_def n)
  next
    case False
    have "uint (word_of_int i :: size_t) = i mod 2 ^ 64" by (simp add: unsigned_of_int take_bit_eq_mod)
    also have "\<dots> = i + 2 ^ 64"
      using False assms(1) mod_pos_pos_trivial [of "i + 2 ^ 64" "2 ^ 64"] by simp
    finally have "2 ^ 63 \<le> uint (word_of_int i :: size_t)" using assms(1) by simp
    then have "\<not> valid_index i n"
      using assms(4) by (simp add: valid_index_def word_less_def n PY_SSIZE_T_MAX_def)
    then show ?thesis using False by simp
  qed
qed

lemma wf_list_max: "wf_list l \<Longrightarrow> list_size l \<le> PY_SSIZE_T_MAX div 8"
  using wf_listD(2,3) [of l] by (simp add: PY_SSIZE_T_MAX_def)

lemma wp_list_item:
  assumes "wf_list l" and "- (2 ^ 63) \<le> i" and "i < 2 ^ 63"
  shows "wp (list_item i) (\<lambda>x l'. l' = l \<and> 0 \<le> i \<and> i < list_size l \<and> x = elems l ! nat i)
    (\<lambda>e l'. e = IndexError \<and> l' = l \<and> \<not> (0 \<le> i \<and> i < list_size l)) l"
proof -
  have "list_size l \<le> PY_SSIZE_T_MAX" using wf_list_max [OF assms(1)] by (simp add: PY_SSIZE_T_MAX_def)
  note v = valid_index_iff [OF assms(2,3) wf_listD(1) [OF assms(1)] this]
  show ?thesis
    using wf_list_get [OF assms(1)] by (auto simp: list_item_def v)
qed

lemma wp_PyList_SetItem:
  assumes "wf_list l" and "- (2 ^ 63) \<le> i" and "i < 2 ^ 63"
  shows "wp (PyList_SetItem i x)
    (\<lambda>_ l'. 0 \<le> i \<and> i < list_size l \<and> wf_list l' \<and> elems l' = (elems l)[nat i := x])
    (\<lambda>e l'. e = IndexError \<and> l' = l \<and> \<not> (0 \<le> i \<and> i < list_size l)) l"
proof -
  have "list_size l \<le> PY_SSIZE_T_MAX" using wf_list_max [OF assms(1)] by (simp add: PY_SSIZE_T_MAX_def)
  note v = valid_index_iff [OF assms(2,3) wf_listD(1) [OF assms(1)] this]
  show ?thesis
    using wf_list_get [OF assms(1)] wf_list_set [OF assms(1)] by (auto simp: PyList_SetItem_def v)
qed

section \<open>Insertion\<close>

lemma resized_grow:
  assumes "wf_list l" and "resized l (list_size l + k) l'" and "0 \<le> k"
  shows "\<exists>ys. slots l' = map Some (elems l) @ ys \<and> k \<le> int (length ys) \<and>
    allocated l' = int (length (elems l) + length ys) \<and> allocated l' \<le> LIST_MAX"
proof -
  note w = wf_listD(1-4,6,7) [OF assms(1)]
  have t: "take (length (elems l)) (slots l') = take (length (elems l)) (slots l)"
    and a: "int (length (slots l')) = allocated l'" "list_size l + k \<le> allocated l'" "allocated l' \<le> LIST_MAX"
    using assms(2,3) w(5) by (simp_all add: resized_def min_absorb1)
  have "take (length (elems l)) (slots l) = map Some (elems l)"
    using wf_list_slots [OF assms(1)] by (metis append_eq_conv_conj length_map)
  then have "slots l' = map Some (elems l) @ drop (length (elems l)) (slots l')"
    using t by (metis append_take_drop_id)
  moreover have "length (elems l) \<le> length (slots l')" using a(1,2) w(6) assms(3) by linarith
  ultimately show ?thesis
    using a w(6) by (intro exI [of _ "drop (length (elems l)) (slots l')"]) (simp add: of_nat_diff)
qed

lemma wp_app1:
  assumes wf: "wf_list l"
  shows "wp (app1 v) (\<lambda>_ l'. wf_list l' \<and> elems l' = elems l @ [v])
    (\<lambda>e l'. e = MemoryError \<and> l' = l \<and> LIST_MAX < list_size l + 1 + (list_size l + 1) div 8 + 6) l"
proof -
  note w = wf_listD(1-4,6,7) [OF wf]
  have b: "0 \<le> list_size l + 1" "list_size l + 1 < PY_SSIZE_T_MAX"
    using w(1-3) by (simp_all add: PY_SSIZE_T_MAX_def)
  let ?E = "\<lambda>e l'. e = MemoryError \<and> l' = l \<and> LIST_MAX < list_size l + 1 + (list_size l + 1) div 8 + 6"
  have step: "wp (slot_set (list_size l) v) (\<lambda>_ l'. wf_list l' \<and> elems l' = elems l @ [v]) ?E l'"
    if r: "resized l (list_size l + 1) l'" for l'
  proof -
    obtain ys where ys: "slots l' = map Some (elems l) @ ys" "1 \<le> int (length ys)"
      "allocated l' = int (length (elems l) + length ys)" "allocated l' \<le> LIST_MAX"
      using resized_grow [OF wf r] by auto
    then obtain y ys' where ys': "ys = y # ys'" by (cases ys) auto
    have n: "nat (list_size l) = length (elems l)" using w(5) by simp
    have "list_size l' = list_size l + 1" using r by (simp add: resized_def)
    then show ?thesis
      using ys ys' w(1,6) n wf_listI [of "l'\<lparr>ob_item := Some (map Some (elems l) @ Some v # ys')\<rparr>" "elems l @ [v]" ys']
      by (simp add: list_update_append)
  qed
  show ?thesis
    unfolding app1_def wp_sbind wp_sget wp_sassert if_P [OF b(2)]
    by (rule wp_mono [OF wp_list_resize [OF wf b(1) less_imp_le [OF b(2)]] step])
qed

lemma wp_ins1_shift:
  assumes "slots l = map Some (take i xs) @ c # map Some (drop i xs) @ ys"
    and "0 \<le> p" and "p \<le> int i" and "i \<le> length xs"
  shows "wp (ins1_shift i p)
    (\<lambda>_ l'. list_size l' = list_size l \<and> allocated l' = allocated l \<and>
      (\<exists>c'. slots l' = map Some (take (nat p) xs) @ c' # map Some (drop (nat p) xs) @ ys))
    (\<lambda>_ _. False) l"
  using assms
proof (induction i arbitrary: l c)
  case 0
  then show ?case by auto
next
  case (Suc i)
  show ?case
  proof (cases "int i \<ge> p")
    case False
    then have "nat p = Suc i" using Suc.prems(2,3) by simp
    then show ?thesis using False Suc.prems(1) by auto
  next
    case True
    let ?l = "l\<lparr>ob_item := Some ((slots l)[Suc i := Some (xs ! i)])\<rparr>"
    have i: "i < length xs" using Suc.prems(4) by simp
    have tk: "map Some (take (Suc i) xs) = map Some (take i xs) @ [Some (xs ! i)]"
      using i by (simp add: take_Suc_conv_app_nth)
    have len: "length (map Some (take i xs)) = i" using i by simp
    have g: "slots l ! i = Some (xs ! i)"
      using Suc.prems(1) len unfolding tk by (simp add: nth_append)
    have "slots ?l = map Some (take i xs) @ Some (xs ! i) # map Some (drop i xs) @ ys"
      using Suc.prems(1) len i unfolding tk by (simp add: list_update_append Cons_nth_drop_Suc [symmetric])
    note IH = Suc.IH [OF this Suc.prems(2) True less_imp_le [OF i]]
    have "Suc i < length (slots l)" using Suc.prems(1) i by simp
    then show ?thesis using IH g True by (simp add: nat_add_distrib)
  qed
qed

text \<open>The position \<open>list.insert\<close> computes from its argument.\<close>

definition clamp_index :: "int \<Rightarrow> int \<Rightarrow> int" where
  "clamp_index n i = (if i < 0 then max 0 (i + n) else min i n)"

lemma wp_ins1:
  assumes wf: "wf_list l"
  shows "wp (ins1 pos v)
    (\<lambda>_ l'. wf_list l' \<and> (let p = nat (clamp_index (list_size l) pos)
       in elems l' = take p (elems l) @ v # drop p (elems l)))
    (\<lambda>e l'. e = MemoryError \<and> l' = l \<and> LIST_MAX < list_size l + 1 + (list_size l + 1) div 8 + 6) l"
proof -
  note w = wf_listD(1-4,6,7) [OF wf]
  have b: "0 \<le> list_size l + 1" "list_size l + 1 < PY_SSIZE_T_MAX"
    using w(1-3) by (simp_all add: PY_SSIZE_T_MAX_def)
  let ?E = "\<lambda>e l'. e = MemoryError \<and> l' = l \<and> LIST_MAX < list_size l + 1 + (list_size l + 1) div 8 + 6"
  let ?p = "clamp_index (list_size l) pos"
  let ?xs = "elems l"
  have p: "0 \<le> ?p" "?p \<le> list_size l" using w(1) by (auto simp: clamp_index_def)
  have clamp: "(let pos = if pos < 0 then if pos + list_size l < 0 then 0 else pos + list_size l else pos;
      pos = if pos > list_size l then list_size l else pos in f pos) = f ?p" for f :: "int \<Rightarrow> ('a pylist, unit) py"
    using w(1) by (auto simp: clamp_index_def Let_def min_def max_def)
  have n: "nat (list_size l) = length ?xs" using w(5) by simp
  have step: "wp (ins1_shift (nat (list_size l)) ?p)
      (\<lambda>_. wp (slot_set ?p v) (\<lambda>_ l'. wf_list l' \<and>
        (let p = nat ?p in elems l' = take p ?xs @ v # drop p ?xs)) ?E) ?E l'"
    if r: "resized l (list_size l + 1) l'" for l'
  proof -
    obtain ys where ys: "slots l' = map Some (elems l) @ ys" "1 \<le> int (length ys)"
      "allocated l' = int (length (elems l) + length ys)" "allocated l' \<le> LIST_MAX"
      using resized_grow [OF wf r] by auto
    then obtain y ys' where ys': "ys = y # ys'" by (cases ys) auto
    have "slots l' = map Some (take (nat (list_size l)) ?xs) @ y # map Some (drop (nat (list_size l)) ?xs) @ ys'"
      using ys ys' n by simp
    note sh = wp_ins1_shift [OF this p(1)]
    show ?thesis
    proof (rule wp_mono [OF sh], goal_cases)
      case (3 _ l'')
      then obtain c where c: "slots l'' = map Some (take (nat ?p) ?xs) @ c # map Some (drop (nat ?p) ?xs) @ ys'"
        "list_size l'' = list_size l + 1" "allocated l'' = allocated l'"
        using r by (auto simp: resized_def)
      have "nat ?p \<le> length ?xs" using p n by linarith
      then have "slots (l''\<lparr>ob_item := Some ((slots l'')[nat ?p := Some v])\<rparr>) =
          map Some (take (nat ?p) ?xs @ v # drop (nat ?p) ?xs) @ ys'"
        using c(1) by (simp add: list_update_append min_absorb2)
      note wfI = wf_listI [OF this]
      have "nat ?p < length (slots l'')" using c(1) \<open>nat ?p \<le> length ?xs\<close> by simp
      then show ?case using wfI c ys ys' w(6) p(1) \<open>nat ?p \<le> length ?xs\<close> by simp
    qed (use p n in simp_all)
  qed
  show ?thesis
    unfolding ins1_def clamp wp_sbind wp_sget wp_sassert if_P [OF b(2)]
    by (rule wp_mono [OF wp_list_resize [OF wf b(1) less_imp_le [OF b(2)]] step])
qed

section \<open>Slices, concatenation, repetition\<close>

text \<open>The copy loops read \<open>n\<close> items from slot \<open>i\<close> on.\<close>

fun read_items :: "'a pylist \<Rightarrow> int \<Rightarrow> nat \<Rightarrow> 'a list pyres" where
  "read_items l i 0 = Inr []"
| "read_items l i (Suc n) =
     rbind (snd (slot_get i l)) (\<lambda>x. rbind (read_items l (i + 1) n) (\<lambda>xs. Inr (x # xs)))"

text \<open>A list just filled with all of its items, in the memory of \<open>list_new_prealloc\<close>.\<close>

definition filled :: "'a pylist \<Rightarrow> 'a list \<Rightarrow> 'a pylist" where
  "filled np xs = np\<lparr>ob_item := Some (array_write (slots np) 0 (map Some xs)), list_size := int (length xs)\<rparr>"

definition list_slice :: "'a pylist \<Rightarrow> int \<Rightarrow> int \<Rightarrow> 'a pylist pyres" where
  "list_slice a ilow ihigh =
     (let len = ihigh - ilow
      in if len \<le> 0 then PyList_New 0
         else rbind (list_new_prealloc len) (\<lambda>np.
              rbind (read_items a ilow (nat len)) (\<lambda>xs. Inr (filled np xs))))"

definition PyList_GetSlice :: "'a pylist \<Rightarrow> int \<Rightarrow> int \<Rightarrow> 'a pylist pyres" where
  "PyList_GetSlice a ilow ihigh =
     (let ilow = (if ilow < 0 then 0 else if ilow > list_size a then list_size a else ilow);
          ihigh = (if ihigh < ilow then ilow else if ihigh > list_size a then list_size a else ihigh)
      in list_slice a ilow ihigh)"

definition list_concat :: "'a pylist \<Rightarrow> 'a pylist \<Rightarrow> 'a pylist pyres" where
  "list_concat a b =
     rbind (c_assert (list_size a + list_size b < PY_SSIZE_T_MAX)) (\<lambda>_.
       let sz = list_size a + list_size b
       in if sz = 0 then PyList_New 0
          else rbind (list_new_prealloc sz) (\<lambda>np.
               rbind (read_items a 0 (nat (list_size a))) (\<lambda>xs.
               rbind (read_items b 0 (nat (list_size b))) (\<lambda>ys. Inr (filled np (xs @ ys))))))"

definition list_repeat :: "'a pylist \<Rightarrow> int \<Rightarrow> 'a pylist pyres" where
  "list_repeat a n =
     (let n = (if n < 0 then 0 else n)
      in if n > 0 \<and> list_size a > PY_SSIZE_T_MAX div n then Inl MemoryError
         else let sz = list_size a * n
         in if sz = 0 then PyList_New 0
            else rbind (list_new_prealloc sz) (\<lambda>np.
              if list_size a = 1 then
                rbind (snd (slot_get 0 a)) (\<lambda>elem. Inr (filled np (replicate (nat n) elem)))
              else
                rbind (read_items a 0 (nat (list_size a))) (\<lambda>xs.
                  Inr (filled np (concat (replicate (nat n) xs))))))"

lemma read_items_correct:
  assumes "wf_list l" and "0 \<le> i" and "i + int n \<le> list_size l"
  shows "read_items l i n = Inr (take n (drop (nat i) (elems l)))"
  using assms(2,3)
proof (induction n arbitrary: i)
  case (Suc n)
  have IH: "read_items l (i + 1) n = Inr (take n (drop (nat (i + 1)) (elems l)))"
    using Suc by simp
  have "i < list_size l" using Suc.prems by simp
  note g = wf_list_get [OF assms(1) Suc.prems(1) this]
  have i: "nat i < length (elems l)" using \<open>i < list_size l\<close> wf_listD(6) [OF assms(1)] Suc.prems(1) by simp
  have "snd (slot_get i l) = Inr (elems l ! nat i)" using g Suc.prems(1) by (simp add: slot_get_def)
  then show ?case
    using IH Suc.prems(1) i by (simp add: nat_add_distrib Cons_nth_drop_Suc [symmetric])
qed simp

lemma read_all:
  "wf_list l \<Longrightarrow> read_items l 0 (nat (list_size l)) = Inr (elems l)"
  using read_items_correct [of l 0 "nat (list_size l)"] wf_listD(1,6) [of l] by simp

lemma new_empty: "PyList_New 0 = Inr \<lparr>list_size = 0, ob_item = None, allocated = 0\<rparr>"
  by (simp add: PyList_New_def)

lemma wf_empty [simp]:
  "wf_list \<lparr>list_size = 0, ob_item = None, allocated = 0\<rparr>"
  "elems \<lparr>list_size = 0, ob_item = None, allocated = 0\<rparr> = []"
  by (simp_all add: wf_list_def elems_def)

text \<open>Filling a new list with as many items as it has room for.\<close>

lemma new_filled:
  assumes "0 < int (length xs)"
  shows "rbind (list_new_prealloc (int (length xs))) (\<lambda>np. Inr (filled np xs)) =
    (if int (length xs) > LIST_MAX then Inl MemoryError
     else Inr \<lparr>list_size = int (length xs), ob_item = Some (map Some xs), allocated = int (length xs)\<rparr>)"
  using assms by (simp add: list_new_prealloc_def new_empty filled_def array_write_at_0)

lemma wf_filled:
  assumes "int (length xs) \<le> LIST_MAX"
  shows "wf_list \<lparr>list_size = int (length xs), ob_item = Some (map Some xs), allocated = int (length xs)\<rparr>"
    and "elems \<lparr>list_size = int (length xs), ob_item = Some (map Some xs), allocated = int (length xs)\<rparr> = xs"
  using assms wf_listI [of "\<lparr>list_size = int (length xs), ob_item = Some (map Some xs), allocated = int (length xs)\<rparr>" xs "[]"]
  by simp_all

text \<open>What an operation that builds a new list promises.\<close>

definition new_list :: "'a list \<Rightarrow> 'a pylist pyres \<Rightarrow> bool" where
  "new_list xs r \<longleftrightarrow>
     (if int (length xs) > LIST_MAX then r = Inl MemoryError else \<exists>l. r = Inr l \<and> wf_list l \<and> elems l = xs)"

lemma new_list_empty [simp]: "new_list [] (PyList_New 0)"
  by (simp add: new_list_def new_empty)

lemma new_list_filled:
  "xs \<noteq> [] \<Longrightarrow> n = int (length xs) \<Longrightarrow> new_list xs (rbind (list_new_prealloc n) (\<lambda>np. Inr (filled np xs)))"
  using new_filled [of xs] wf_filled [of xs] by (auto simp: new_list_def)

lemma list_slice_correct:
  assumes "wf_list a" and "0 \<le> ilow" and "ihigh \<le> list_size a"
  shows "new_list (take (nat (ihigh - ilow)) (drop (nat ilow) (elems a))) (list_slice a ilow ihigh)"
proof (cases "ihigh - ilow \<le> 0")
  case True
  then show ?thesis by (simp add: list_slice_def)
next
  case False
  let ?xs = "take (nat (ihigh - ilow)) (drop (nat ilow) (elems a))"
  have "length ?xs = nat (ihigh - ilow)"
    using False assms(2,3) wf_listD(6,7) [OF assms(1)] by auto
  then have xs: "?xs \<noteq> []" "ihigh - ilow = int (length ?xs)" using False by auto
  have "read_items a ilow (nat (ihigh - ilow)) = Inr ?xs"
    using False assms by (intro read_items_correct) simp_all
  then show ?thesis
    using new_list_filled [OF xs] False by (simp add: list_slice_def Let_def)
qed

lemma PyList_GetSlice_correct:
  assumes "wf_list a"
  shows "new_list (take (nat (ihigh - max 0 ilow)) (drop (nat ilow) (elems a))) (PyList_GetSlice a ilow ihigh)"
proof -
  define lo where "lo = (if ilow < 0 then 0 else if ilow > list_size a then list_size a else ilow)"
  define hi where "hi = (if ihigh < lo then lo else if ihigh > list_size a then list_size a else ihigh)"
  note w = wf_listD(1,6) [OF assms]
  have "take (nat (hi - lo)) (drop (nat lo) (elems a)) =
      take (nat (ihigh - max 0 ilow)) (drop (nat ilow) (elems a))"
    using w by (auto simp: hi_def lo_def intro!: take_equalityI)
  moreover have "0 \<le> lo" "hi \<le> list_size a" using w by (auto simp: hi_def lo_def)
  ultimately show ?thesis
    using list_slice_correct [OF assms, of lo hi]
    unfolding PyList_GetSlice_def Let_def lo_def [symmetric] hi_def [symmetric] by simp
qed

lemma list_concat_correct:
  assumes "wf_list a" and "wf_list b"
  shows "new_list (elems a @ elems b) (list_concat a b)"
proof -
  note wa = wf_listD(1-3,6,7) [OF assms(1)] and wb = wf_listD(1-3,6,7) [OF assms(2)]
  have lt: "list_size a + list_size b < PY_SSIZE_T_MAX" using wa wb by (simp add: PY_SSIZE_T_MAX_def)
  have len: "list_size a + list_size b = int (length (elems a @ elems b))" using wa(5) wb(5) by simp
  show ?thesis
  proof (cases "list_size a + list_size b = 0")
    case True
    then have "length (elems a @ elems b) = 0" using len by linarith
    then have "elems a @ elems b = []" by (simp only: length_0_conv)
    then show ?thesis using True by (simp add: list_concat_def PY_SSIZE_T_MAX_def)
  next
    case False
    then have "elems a @ elems b \<noteq> []" using len by fastforce
    from new_list_filled [OF this len] show ?thesis
      using False lt by (simp add: list_concat_def read_all [OF assms(1)] read_all [OF assms(2)])
  qed
qed

lemma length_concat_replicate: "length (concat (replicate n xs)) = n * length xs"
  by (induction n) simp_all

lemma concat_replicate_single: "concat (replicate n [x]) = replicate n x"
  by (induction n) simp_all

lemma list_repeat_correct:
  assumes "wf_list a"
  shows "new_list (concat (replicate (nat n) (elems a))) (list_repeat a n)"
proof -
  note w = wf_listD(1-3,6,7) [OF assms]
  define k where "k = (if n < 0 then 0 else n)"
  have k: "0 \<le> k" "nat n = nat k" by (simp_all add: k_def)
  let ?xs = "concat (replicate (nat k) (elems a))"
  have len: "int (length ?xs) = list_size a * k"
    using w(5) k(1) by (simp add: length_concat_replicate mult.commute)
  consider (big) "k > 0" "list_size a > PY_SSIZE_T_MAX div k"
    | (zero) "\<not> (k > 0 \<and> list_size a > PY_SSIZE_T_MAX div k)" "list_size a * k = 0"
    | (fits) "\<not> (k > 0 \<and> list_size a > PY_SSIZE_T_MAX div k)" "list_size a * k \<noteq> 0"
    by blast
  then show ?thesis
  proof cases
    case big
    have "PY_SSIZE_T_MAX < list_size a * k"
    proof (rule ccontr)
      assume "\<not> PY_SSIZE_T_MAX < list_size a * k"
      then have "list_size a * k div k \<le> PY_SSIZE_T_MAX div k" using big(1) by (intro zdiv_mono1) simp_all
      then show False using big by simp
    qed
    then have "LIST_MAX < int (length ?xs)" using len by (simp add: PY_SSIZE_T_MAX_def)
    then show ?thesis
      using big by (simp add: list_repeat_def new_list_def k(2) flip: k_def)
  next
    case zero
    then have "length ?xs = 0" using len by linarith
    then have nil: "?xs = []" by (simp only: length_0_conv)
    show ?thesis
      unfolding list_repeat_def k(2) k_def [symmetric] Let_def if_not_P [OF zero(1)] if_P [OF zero(2)] nil
      by (rule new_list_empty)
  next
    case fits
    have ne: "?xs \<noteq> []" using fits(2) len by fastforce
    note new = new_list_filled [OF ne len [symmetric]]
    show ?thesis
    proof (cases "list_size a = 1")
      case True
      then obtain x where x: "elems a = [x]" using w(4) by (auto simp: length_Suc_conv)
      have "snd (slot_get 0 a) = Inr x"
        using wf_list_get [OF assms, of 0] True x by (simp add: slot_get_def)
      then show ?thesis
        using new True x unfolding list_repeat_def k(2) k_def [symmetric] Let_def if_not_P [OF fits(1)] if_not_P [OF fits(2)]
        by (simp add: concat_replicate_single)
    next
      case False
      then show ?thesis
        using new unfolding list_repeat_def k(2) k_def [symmetric] Let_def if_not_P [OF fits(1)] if_not_P [OF fits(2)]
        by (simp add: read_all [OF assms])
    qed
  qed
qed

text \<open>The list that holds given items and no spare room.\<close>

definition list_of :: "'a list \<Rightarrow> 'a pylist" where
  "list_of xs = \<lparr>list_size = int (length xs), ob_item = Some (map Some xs), allocated = int (length xs)\<rparr>"

lemma list_of [simp]:
  assumes "int (length xs) \<le> LIST_MAX"
  shows "wf_list (list_of xs)" and "elems (list_of xs) = xs"
  using wf_filled [OF assms] by (simp_all add: list_of_def)

section \<open>Slice assignment\<close>

definition stry :: "('s, 'a) py \<Rightarrow> (pyerr \<Rightarrow> ('s, 'a) py) \<Rightarrow> ('s, 'a) py" where
  "stry m h = (\<lambda>s. case m s of (s', Inl e) \<Rightarrow> h e s' | (s', Inr x) \<Rightarrow> (s', Inr x))"

lemma wp_stry [simp, wp_rules]: "wp (stry m h) Q E = wp m Q (\<lambda>e. wp (h e) Q E)"
  by (rule ext) (auto simp: wp_def stry_def split: prod.splits sum.splits)

text \<open>\<open>memcpy\<close> of raw slots out of and into the array.\<close>

definition slots_read :: "int \<Rightarrow> int \<Rightarrow> ('a pylist, 'a option list) py" where
  "slots_read i n = (\<lambda>l.
     if 0 \<le> i \<and> 0 \<le> n \<and> i + n \<le> int (length (slots l)) then (l, Inr (take (nat n) (drop (nat i) (slots l))))
     else (l, Inl AssertionFailed))"

definition slots_write :: "int \<Rightarrow> 'a option list \<Rightarrow> ('a pylist, unit) py" where
  "slots_write i xs = (\<lambda>l.
     if 0 \<le> i \<and> i + int (length xs) \<le> int (length (slots l))
     then (l\<lparr>ob_item := Some (array_write (slots l) (nat i) xs)\<rparr>, Inr ())
     else (l, Inl AssertionFailed))"

fun write_items :: "int \<Rightarrow> 'a list \<Rightarrow> ('a pylist, unit) py" where
  "write_items i [] = sret ()"
| "write_items i (x # xs) = sbind (slot_set i x) (\<lambda>_. write_items (i + 1) xs)"

text \<open>The replacement is \<open>None\<close> for a deletion, and otherwise the items of the sequence.\<close>

definition list_ass_slice :: "int \<Rightarrow> int \<Rightarrow> 'a list option \<Rightarrow> ('a pylist, unit) py" where
  "list_ass_slice ilow ihigh v =
     (let vitem = (case v of None \<Rightarrow> [] | Some xs \<Rightarrow> xs);
          n = int (length vitem)
      in sbind (sget list_size) (\<lambda>sz.
         let ilow = (if ilow < 0 then 0 else if ilow > sz then sz else ilow);
             ihigh = (if ihigh < ilow then ilow else if ihigh > sz then sz else ihigh);
             norig = ihigh - ilow
         in sbind (sassert (norig \<ge> 0)) (\<lambda>_.
            let d = n - norig
            in if sz + d = 0 then list_clear
               else
                 sbind (if norig \<noteq> 0 then slots_read ilow norig else sret []) (\<lambda>recycle.
                 sbind
                   (if d < 0 then
                      let tail = sz - ihigh
                      in sbind (slots_move (ihigh + d) ihigh tail) (\<lambda>_.
                         stry (list_resize (sz + d)) (\<lambda>e.
                           sbind (slots_move ihigh (ihigh + d) tail) (\<lambda>_.
                           sbind (slots_write ilow recycle) (\<lambda>_. sraise e))))
                    else if d > 0 then
                      sbind (list_resize (sz + d)) (\<lambda>_. slots_move (ihigh + d) ihigh (sz - ihigh))
                    else sret ())
                   (\<lambda>_. write_items ilow vitem)))))"

text \<open>Assigning a slice of a list to a slice of itself copies it first.\<close>

definition list_ass_slice_self :: "int \<Rightarrow> int \<Rightarrow> ('a pylist, unit) py" where
  "list_ass_slice_self ilow ihigh = (\<lambda>a.
     case list_slice a 0 (list_size a) of
       Inl e \<Rightarrow> (a, Inl e)
     | Inr v \<Rightarrow> list_ass_slice ilow ihigh (Some (elems v)) a)"

lemma wp_write_items:
  assumes "slots l = P @ Q @ R" and "length Q = length vs" and "i = int (length P)"
  shows "wp (write_items i vs)
    (\<lambda>_ l'. slots l' = P @ map Some vs @ R \<and> list_size l' = list_size l \<and> allocated l' = allocated l)
    (\<lambda>_ _. False) l"
  using assms
proof (induction vs arbitrary: i l P Q)
  case (Cons v vs)
  then obtain q Q' where q: "Q = q # Q'" "length Q' = length vs" by (auto simp: length_Suc_conv)
  let ?l = "l\<lparr>ob_item := Some ((slots l)[length P := Some v])\<rparr>"
  have "slots ?l = (P @ [Some v]) @ Q' @ R" using Cons.prems(1) q by (simp add: list_update_append)
  from Cons.IH [OF this q(2), of "i + 1"] show ?case using Cons.prems(1,3) q by simp
qed simp

lemma write_items_finish:
  assumes "slots l = map Some A @ Q @ map Some C @ R" and "length Q = length vs"
    and "list_size l = int (length A + length vs + length C)"
    and "allocated l = int (length (slots l))" and "int (length (slots l)) \<le> LIST_MAX" and "i = int (length A)"
  shows "wp (write_items i vs) (\<lambda>_ l'. wf_list l' \<and> elems l' = A @ vs @ C) E l"
proof -
  have "wp (write_items i vs)
    (\<lambda>_ l'. slots l' = map Some A @ map Some vs @ map Some C @ R \<and> list_size l' = list_size l \<and> allocated l' = allocated l)
    (\<lambda>_ _. False) l"
    by (rule wp_write_items [OF assms(1,2)]) (simp add: assms(6))
  then show ?thesis
  proof (rule wp_mono, goal_cases)
    case (1 _ l')
    then show ?case
      using wf_listI [of l' "A @ vs @ C" R] assms(2-5) unfolding assms(1) by simp
  qed simp
qed

lemma resized_slots:
  assumes "wf_list l" and "resized l m l'" and "0 \<le> m"
  shows "\<exists>ys. slots l' = map Some (take (nat m) (elems l)) @ ys \<and> list_size l' = m \<and> m \<le> allocated l' \<and>
    allocated l' = int (length (slots l')) \<and> int (length (slots l')) \<le> LIST_MAX"
proof -
  note w = wf_listD(1,6,7) [OF assms(1)]
  let ?k = "nat (min (list_size l) m)"
  have k: "?k = min (length (elems l)) (nat m)" using w assms(3) by linarith
  have "take ?k (slots l') = take ?k (slots l)" using assms(2) by (simp add: resized_def)
  also have "\<dots> = map Some (take (nat m) (elems l))"
    unfolding k by (subst wf_list_slots [OF assms(1)]) (simp add: take_map flip: take_take)
  finally have "slots l' = map Some (take (nat m) (elems l)) @ drop ?k (slots l')"
    by (metis append_take_drop_id)
  then show ?thesis using assms(2) unfolding resized_def by metis
qed

text \<open>
  Shrinking: the tail is moved down and the size is cut. The reallocation is never refused, so
  the recovery code of the source is not reached.
\<close>

lemma ass_slice_shrink:
  assumes wf: "wf_list l" and el: "elems l = A @ B @ C" and vs: "length vs < length B"
  shows "wp (slots_move (int (length A + length vs)) (int (length A + length B)) (int (length C)))
    (\<lambda>_. wp (list_resize (int (length A + length vs + length C)))
      (\<lambda>_. wp (write_items (int (length A)) vs) (\<lambda>_ l'. wf_list l' \<and> elems l' = A @ vs @ C) E)
      E') E l"
proof -
  note w = wf_listD(1-4,6-9) [OF wf]
  obtain S where S: "slots l = map Some (A @ B @ C) @ S" using wf_list_slots [OF wf] el by metis
  have sz: "list_size l = int (length A + length B + length C)" using w(6) el by simp
  let ?n = "length vs"
  let ?xs = "A @ take ?n B @ C @ drop (?n + length C) (B @ C)"
  define l1 where "l1 = (if C = [] then l else l\<lparr>ob_item := Some (map Some ?xs @ S)\<rparr>)"
  have mv: "wp (slots_move (int (length A + length vs)) (int (length A + length B)) (int (length C))) Q E l = Q () l1" for Q
  proof (cases "C = []")
    case True
    then show ?thesis by (simp add: wp_slots_move l1_def)
  next
    case False
    have "array_write (map Some (A @ B @ C) @ S) (length A + ?n) (map Some C) = map Some ?xs @ S"
      using vs by (simp add: array_write_def take_map drop_map)
    then show ?thesis
      using False vs by (simp add: wp_slots_move l1_def S nat_add_distrib)
  qed
  have l1: "slots l1 = map Some ?xs @ S" "list_size l1 = list_size l" "allocated l1 = allocated l"
    using S by (simp_all add: l1_def flip: map_append)
  have lxs: "length ?xs = length A + length B + length C" using vs by simp
  have wf1: "wf_list l1" "elems l1 = ?xs"
    using wf_listI [OF l1(1)] l1 lxs w(3) sz w(7) S by simp_all
  let ?m = "int (length A + length vs + length C)"
  have m: "0 \<le> ?m" "?m \<le> PY_SSIZE_T_MAX"
    using sz vs w(2,3) by (simp_all add: PY_SSIZE_T_MAX_def)
  have step: "wp (write_items (int (length A)) vs) (\<lambda>_ l'. wf_list l' \<and> elems l' = A @ vs @ C) E l2"
    if 1: "resized l1 ?m l2" for l2
  proof -
    have "take (nat ?m) ?xs = A @ take ?n B @ C" using vs by simp
    then obtain ys where ys: "slots l2 = map Some A @ map Some (take ?n B) @ map Some C @ ys" "list_size l2 = ?m"
      "allocated l2 = int (length (slots l2))" "int (length (slots l2)) \<le> LIST_MAX"
      using resized_slots [OF wf1(1) 1 m(1)] wf1(2) by auto
    show ?thesis
      by (rule write_items_finish [OF ys(1) _ _ ys(3,4)]) (use vs ys(2) in simp_all)
  qed
  have m': "?m \<le> list_size l1" using l1(2) sz vs by simp
  show ?thesis
    unfolding mv
    by (rule wp_list_resize_shrink [OF wf1(1) m(1) m'], rule wp_mono [OF wp_list_resize [OF wf1(1) m]])
      (use step in simp_all)
qed

text \<open>Growing: the array is resized and the tail moved up.\<close>

lemma ass_slice_grow:
  assumes wf: "wf_list l" and el: "elems l = A @ B @ C" and vs: "length B < length vs"
    and max: "int (length vs) \<le> LIST_MAX" and E: "\<And>t. t = l \<Longrightarrow> E MemoryError t"
  shows "wp (list_resize (int (length A + length vs + length C)))
    (\<lambda>_. wp (slots_move (int (length A + length vs)) (int (length A + length B)) (int (length C)))
      (\<lambda>_. wp (write_items (int (length A)) vs) (\<lambda>_ l'. wf_list l' \<and> elems l' = A @ vs @ C) E) E) E l"
proof -
  note w = wf_listD(1-4,6-9) [OF wf]
  have sz: "list_size l = int (length A + length B + length C)" using w(6) el by simp
  let ?m = "int (length A + length vs + length C)"
  have m: "0 \<le> ?m" "?m \<le> PY_SSIZE_T_MAX"
    using sz max w(2,3) by (simp_all add: PY_SSIZE_T_MAX_def)
  show ?thesis
  proof (rule wp_mono [OF wp_list_resize [OF wf m]], goal_cases)
    case (1 _ l1)
    then obtain ys where ys: "slots l1 = map Some (A @ B @ C) @ ys" "list_size l1 = ?m" "?m \<le> allocated l1"
      "allocated l1 = int (length (slots l1))" "int (length (slots l1)) \<le> LIST_MAX"
      using resized_slots [OF wf 1 m(1)] el vs by auto
    then have len: "length vs \<le> length B + length ys" by simp
    let ?Q = "take (length vs) (map Some (B @ C) @ ys)"
    let ?R = "drop (length A + length vs + length C) (slots l1)"
    define l2 where "l2 = (if C = [] then l1 else l1\<lparr>ob_item := Some (map Some A @ ?Q @ map Some C @ ?R)\<rparr>)"
    have mv: "wp (slots_move (int (length A + length vs)) (int (length A + length B)) (int (length C))) Q E l1 = Q () l2" for Q
    proof (cases "C = []")
      case False
      have "array_write (slots l1) (length A + length vs) (map Some C) = map Some A @ ?Q @ map Some C @ ?R"
        using vs unfolding ys(1) by (simp add: array_write_def)
      moreover have "take (length C) (drop (length A + length B) (slots l1)) = map Some C"
        unfolding ys(1) by simp
      moreover have "length A + length vs + length C \<le> length (slots l1)" using len ys(1) by simp
      ultimately show ?thesis
        using False vs by (simp add: wp_slots_move nat_add_distrib l2_def)
    qed (simp add: wp_slots_move l2_def)
    have sl: "slots l2 = map Some A @ ?Q @ map Some C @ ?R"
    proof (cases "C = []")
      case True
      have "?Q @ ?R = map Some B @ ys"
        using True vs unfolding ys(1) by simp
      then show ?thesis using True ys(1) by (simp add: l2_def)
    qed (simp add: l2_def)
    have lQ: "length ?Q = length vs" using len by simp
    have "length (slots l2) = length (slots l1)"
      using ys(1) len unfolding sl length_append lQ by simp
    moreover have "list_size l2 = list_size l1" "allocated l2 = allocated l1" by (simp_all add: l2_def)
    ultimately show ?case
      unfolding mv by (intro write_items_finish [OF sl lQ]) (use ys in simp_all)
  next
    case (2 e t)
    then show ?case using E by simp
  qed
qed

text \<open>The bounds a slice operation clamps to.\<close>

definition slice_lo :: "int \<Rightarrow> int \<Rightarrow> int" where
  "slice_lo n i = (if i < 0 then 0 else if i > n then n else i)"

definition slice_hi :: "int \<Rightarrow> int \<Rightarrow> int \<Rightarrow> int" where
  "slice_hi n i j = (if j < slice_lo n i then slice_lo n i else if j > n then n else j)"

definition spliced :: "'a list \<Rightarrow> int \<Rightarrow> int \<Rightarrow> 'a list \<Rightarrow> 'a list" where
  "spliced xs i j vs =
     take (nat (slice_lo (int (length xs)) i)) xs @ vs @ drop (nat (slice_hi (int (length xs)) i j)) xs"

lemma wp_list_clear:
  "wf_list l \<Longrightarrow> wp list_clear (\<lambda>_ l'. wf_list l' \<and> elems l' = []) E l"
  using wf_listD(2,4,6) [of l]
  by (auto simp: wp_def list_clear_def wf_list_def elems_def slots_def split: option.splits)

theorem wp_list_ass_slice:
  assumes wf: "wf_list l" and max: "int (length (case v of None \<Rightarrow> [] | Some xs \<Rightarrow> xs)) \<le> LIST_MAX"
  shows "wp (list_ass_slice i j v)
    (\<lambda>_ l'. wf_list l' \<and> elems l' = spliced (elems l) i j (case v of None \<Rightarrow> [] | Some xs \<Rightarrow> xs))
    (\<lambda>e l'. e = MemoryError \<and> l' = l \<and> v \<noteq> None) l"
proof -
  let ?E = "\<lambda>e l'. e = MemoryError \<and> l' = l \<and> v \<noteq> None"
  note w = wf_listD(1-4,6-9) [OF wf]
  define vs where "vs = (case v of None \<Rightarrow> [] | Some xs \<Rightarrow> xs)"
  define lo where "lo = slice_lo (list_size l) i"
  define hi where "hi = slice_hi (list_size l) i j"
  have b: "0 \<le> lo" "lo \<le> hi" "hi \<le> list_size l"
    using w(1) by (auto simp: lo_def hi_def slice_lo_def slice_hi_def)
  define A where "A = take (nat lo) (elems l)"
  define B where "B = drop (nat lo) (take (nat hi) (elems l))"
  define C where "C = drop (nat hi) (elems l)"
  have el: "elems l = A @ B @ C"
    using b by (simp add: A_def B_def C_def min_def flip: append_assoc take_add drop_take) (metis append_take_drop_id nat_mono append_assoc take_add le_add_diff_inverse drop_take)
  have len: "int (length A) = lo" "int (length B) = hi - lo" "int (length C) = list_size l - hi"
    using b w(5,6) by (auto simp: A_def B_def C_def)
  have sp: "spliced (elems l) i j vs = A @ vs @ C"
    unfolding spliced_def w(6) lo_def [symmetric] hi_def [symmetric] A_def C_def ..
  obtain S where S: "slots l = map Some (A @ B @ C) @ S" using wf_list_slots [OF wf] el by metis
  let ?d = "int (length vs) - (hi - lo)"
  have idx: "lo = int (length A)" "hi = int (length A + length B)" "hi + ?d = int (length A + length vs)"
    "list_size l + ?d = int (length A + length vs + length C)" "list_size l - hi = int (length C)"
    using len by simp_all
  have norig: "hi - lo \<ge> 0" using b(2) by simp
  note unf = list_ass_slice_def Let_def vs_def [symmetric] wp_sbind wp_sget slice_lo_def [symmetric]
    slice_hi_def [symmetric] lo_def [symmetric] hi_def [symmetric] wp_sassert if_P [OF norig]
  show ?thesis
  proof (cases "list_size l + ?d = 0")
    case True
    then have "length (A @ vs @ C) = 0" using idx(4) by (simp only: length_append)
    then have "A @ vs @ C = []" by (simp only: length_0_conv)
    then have "wp list_clear (\<lambda>_ l'. wf_list l' \<and> elems l' = spliced (elems l) i j vs) ?E l"
      using wp_list_clear [OF wf] sp by simp
    then show ?thesis unfolding unf if_P [OF True] .
  next
    case False
    have rd: "wp (if hi - lo \<noteq> 0 then slots_read lo (hi - lo) else sret []) Q ?E l = Q (map Some B) l" for Q
    proof -
      have "take (length B) (drop (length A) (slots l)) = map Some B" unfolding S by simp
      moreover have "nat (hi - lo) = length B" "nat lo = length A" using len by simp_all
      moreover have "lo + (hi - lo) \<le> int (length (slots l))" using b w(2,7) by simp
      ultimately have "slots_read lo (hi - lo) l = (l, Inr (map Some B))"
        using b by (simp add: slots_read_def)
      moreover have "hi - lo = 0 \<Longrightarrow> B = []" using len(2) by simp
      ultimately show ?thesis by (simp add: wp_def sret_def)
    qed
    have "wp (list_ass_slice i j v) Q ?E l =
      wp (if ?d < 0 then
            sbind (slots_move (hi + ?d) hi (list_size l - hi)) (\<lambda>_.
              stry (list_resize (list_size l + ?d)) (\<lambda>e.
                sbind (slots_move hi (hi + ?d) (list_size l - hi)) (\<lambda>_.
                sbind (slots_write lo (map Some B)) (\<lambda>_. sraise e))))
          else if ?d > 0 then
            sbind (list_resize (list_size l + ?d)) (\<lambda>_. slots_move (hi + ?d) hi (list_size l - hi))
          else sret ()) (\<lambda>_. wp (write_items lo vs) Q ?E) ?E l" for Q
      unfolding unf if_not_P [OF False] rd ..
    note step = this
    have mx: "int (length vs) \<le> LIST_MAX" using max by (simp add: vs_def)
    consider "?d < 0" | "?d > 0" | "?d = 0" by linarith
    then have "wp (list_ass_slice i j v) (\<lambda>_ l'. wf_list l' \<and> elems l' = A @ vs @ C) ?E l"
    proof cases
      case 1
      then have "length vs < length B" using len by simp
      from ass_slice_shrink [OF wf el this] show ?thesis
        unfolding step if_P [OF 1] wp_sbind wp_stry wp_sraise unfolding idx(3-5) unfolding idx(1,2) by simp
    next
      case 2
      then have d: "\<not> ?d < 0" and "length B < length vs" using len by simp_all
      then have "v \<noteq> None" by (cases v) (simp_all add: vs_def)
      with ass_slice_grow [OF wf el \<open>length B < length vs\<close> mx, of ?E] show ?thesis
        unfolding step if_not_P [OF d] if_P [OF 2] wp_sbind unfolding idx(3-5) unfolding idx(1,2) by simp
    next
      case 3
      then have "length vs = length B" using len by simp
      then show ?thesis
        unfolding step using 3 len w(3,6,7) el S
        by simp (rule write_items_finish [of l A "map Some B" C S], simp_all)
    qed
    then show ?thesis using sp by (simp add: vs_def)
  qed
qed

declare split_paired_All [simp del] split_paired_Ex [simp del]

section \<open>Memory safety under user code\<close>

text \<open>
  A comparison may do anything the interpreter allows: change the list, its size included, and
  raise. It keeps the list object well formed.
\<close>

definition cmp_safe :: "('a \<Rightarrow> 'a \<Rightarrow> ('a pylist \<times> 'w, bool) py) \<Rightarrow> bool" where
  "cmp_safe lt \<longleftrightarrow>
     (\<forall>a b s. wf_list (fst s) \<longrightarrow>
        wp (lt a b) (\<lambda>_ t. wf_list (fst t)) (\<lambda>e t. e \<noteq> AssertionFailed \<and> wf_list (fst t)) s)"

definition safe :: "('a pylist \<times> 'w, 'r) py \<Rightarrow> bool" where
  "safe m \<longleftrightarrow>
     (\<forall>s. wf_list (fst s) \<longrightarrow> wp m (\<lambda>_ t. wf_list (fst t)) (\<lambda>e t. e \<noteq> AssertionFailed \<and> wf_list (fst t)) s)"

lemma safeD:
  "safe m \<Longrightarrow> wf_list (fst s) \<Longrightarrow>
   wp m (\<lambda>_ t. wf_list (fst t)) (\<lambda>e t. e \<noteq> AssertionFailed \<and> wf_list (fst t)) s"
  by (simp add: safe_def)

lemma safe_sret [simp]: "safe (sret x)"
  by (simp add: safe_def)

lemma safe_sraise [simp]: "e \<noteq> AssertionFailed \<Longrightarrow> safe (sraise e)"
  by (simp add: safe_def)

lemma safe_sbind:
  assumes "safe m" and "\<And>x. safe (f x)"
  shows "safe (sbind m f)"
  unfolding safe_def wp_sbind
proof (intro allI impI)
  fix s :: "'a pylist \<times> 'b"
  assume "wf_list (fst s)"
  from safeD [OF assms(1) this]
  show "wp m (\<lambda>x. wp (f x) (\<lambda>_ t. wf_list (fst t)) (\<lambda>e t. e \<noteq> AssertionFailed \<and> wf_list (fst t)))
    (\<lambda>e t. e \<noteq> AssertionFailed \<and> wf_list (fst t)) s"
    by (rule wp_mono) (use safeD [OF assms(2)] in simp_all)
qed

text \<open>A comparison, then the rest: only well-formedness is known of the list after it.\<close>

lemma wp_cmp_safe:
  assumes "cmp_safe lt" and "wf_list (fst s)"
    and "\<And>r t. wf_list (fst t) \<Longrightarrow> Q r t" and "\<And>e t. e \<noteq> AssertionFailed \<Longrightarrow> wf_list (fst t) \<Longrightarrow> E e t"
  shows "wp (lt a b) Q E s"
proof (rule wp_mono)
  show "wp (lt a b) (\<lambda>_ t. wf_list (fst t)) (\<lambda>e t. e \<noteq> AssertionFailed \<and> wf_list (fst t)) s"
    using assms(1,2) unfolding cmp_safe_def by blast
qed (use assms(3,4) in simp_all)

abbreviation (input) SafeQ :: "'r \<Rightarrow> 'a pylist \<times> 'w \<Rightarrow> bool" where
  "SafeQ \<equiv> \<lambda>_ t. wf_list (fst t)"

abbreviation (input) SafeE :: "pyerr \<Rightarrow> 'a pylist \<times> 'w \<Rightarrow> bool" where
  "SafeE \<equiv> \<lambda>e t. e \<noteq> AssertionFailed \<and> wf_list (fst t)"

text \<open>An operation on the list alone that keeps it well formed.\<close>

lemma safe_on_fst:
  assumes "\<And>l. wf_list l \<Longrightarrow> wp m (\<lambda>_ l'. wf_list l') (\<lambda>e l'. e \<noteq> AssertionFailed \<and> wf_list l') l"
  shows "safe (on_fst m)"
  using assms by (simp add: safe_def wp_on_fst')

lemma safe_sget [simp]: "safe (on_fst (sget f))"
  by (rule safe_on_fst) simp

lemma safe_app1: "safe (on_fst (app1 x))"
  by (rule safe_on_fst, rule wp_mono [OF wp_app1]) simp_all

end
