(* ===== verification/PyOrder.thy ===== *)
theory PyOrder
  imports PyState PyLongArith
begin

text \<open>
  The comparison protocol (\<open>do_richcompare\<close>, \<open>PyObject_RichCompareBool\<close> of \<open>Objects/object.c\<close>):
  which of the operands' types is asked, in which order, and what happens when none answers. A
  comparison may run user code, so it is an operation on the interpreter's state and may raise.
  The locale \<open>comparison\<close> is the contract the algorithms of the library (heap queues,
  bisection, the list sort) need of their \<open><\<close>: it does not raise or change the state, and is a
  strict weak order. The comparison of integer objects meets it.
\<close>

section \<open>Dispatch\<close>

fun Py_SwappedOp :: "cmpop \<Rightarrow> cmpop" where
  "Py_SwappedOp Py_LT = Py_GT"
| "Py_SwappedOp Py_LE = Py_GE"
| "Py_SwappedOp Py_EQ = Py_EQ"
| "Py_SwappedOp Py_NE = Py_NE"
| "Py_SwappedOp Py_GT = Py_LT"
| "Py_SwappedOp Py_GE = Py_LE"

text \<open>A slot \<open>tp_richcompare\<close>: \<open>None\<close> is the answer \<open>NotImplemented\<close>.\<close>

type_synonym ('o, 's, 'r) richcmp = "'o \<Rightarrow> 'o \<Rightarrow> cmpop \<Rightarrow> ('s, 'r option) py"

record ('o, 's, 'r) cmptypes =
  type_of :: "'o \<Rightarrow> nat"
  is_subtype :: "nat \<Rightarrow> nat \<Rightarrow> bool"
  tp_richcompare :: "nat \<Rightarrow> ('o, 's, 'r) richcmp option"
  py_bool :: "bool \<Rightarrow> 'r"
  bool_check :: "'r \<Rightarrow> bool"
  is_true :: "'r \<Rightarrow> ('s, bool) py"

definition ask :: "('o, 's, 'r) richcmp option \<Rightarrow> 'o \<Rightarrow> 'o \<Rightarrow> cmpop \<Rightarrow> ('s, 'r) py \<Rightarrow> ('s, 'r) py" where
  "ask f v w op next =
     (case f of None \<Rightarrow> next
      | Some f \<Rightarrow> sbind (f v w op) (\<lambda>res. case res of Some r \<Rightarrow> sret r | None \<Rightarrow> next))"

definition do_richcompare :: "('o, 's, 'r) cmptypes \<Rightarrow> 'o \<Rightarrow> 'o \<Rightarrow> cmpop \<Rightarrow> ('s, 'r) py" where
  "do_richcompare T v w op =
     (let fv = tp_richcompare T (type_of T v);
          fw = tp_richcompare T (type_of T w);
          default =
            (case op of
               Py_EQ \<Rightarrow> sret (py_bool T (v = w))
             | Py_NE \<Rightarrow> sret (py_bool T (v \<noteq> w))
             | _ \<Rightarrow> sraise TypeError);
          checked_reverse_op =
            (type_of T v \<noteq> type_of T w \<and> is_subtype T (type_of T w) (type_of T v) \<and> fw \<noteq> None)
      in if checked_reverse_op then
           ask fw w v (Py_SwappedOp op) (ask fv v w op default)
         else ask fv v w op (ask fw w v (Py_SwappedOp op) default))"

definition PyObject_RichCompareBool :: "('o, 's, 'r) cmptypes \<Rightarrow> 'o \<Rightarrow> 'o \<Rightarrow> cmpop \<Rightarrow> ('s, bool) py" where
  "PyObject_RichCompareBool T v w op =
     (if v = w \<and> op = Py_EQ then sret True
      else if v = w \<and> op = Py_NE then sret False
      else sbind (do_richcompare T v w op) (\<lambda>res.
        if bool_check T res then sret (res = py_bool T True) else is_true T res))"

text \<open>
  The types the library can build by itself: integer objects, whose slot answers for two
  integers, and one kind of object with no slot at all.
\<close>

datatype pyobj = PyLongObj pylong | PyBaseObj nat

fun long_slot :: "(pyobj, 's, bool) richcmp" where
  "long_slot (PyLongObj a) (PyLongObj b) op = sret (Some (long_richcompare (a = b) a b op))"
| "long_slot v w op = sret None"

fun obj_type :: "pyobj \<Rightarrow> nat" where
  "obj_type (PyLongObj _) = 1"
| "obj_type (PyBaseObj _) = 0"

definition builtin_types :: "(pyobj, 's, bool) cmptypes" where
  "builtin_types = \<lparr>type_of = obj_type, is_subtype = (\<lambda>s t. t = 0),
     tp_richcompare = (\<lambda>t. if t = 1 then Some long_slot else None),
     py_bool = (\<lambda>b. b), bool_check = (\<lambda>_. True), is_true = sret\<rparr>"

section \<open>Facts about the dispatch\<close>

lemma Py_SwappedOp_rel: "cmp_rel (Py_SwappedOp op) y x = cmp_rel op x y"
  by (cases op) auto

lemma Py_SwappedOp_involution [simp]: "Py_SwappedOp (Py_SwappedOp op) = op"
  by (cases op) simp_all

lemma wp_ask [simp]:
  "wp (ask None v w op m) Q E = wp m Q E"
  "wp (ask (Some f) v w op m) Q E =
    wp (f v w op) (\<lambda>res. case res of Some r \<Rightarrow> Q r | None \<Rightarrow> wp m Q E) E"
proof -
  have c: "wp (case res of None \<Rightarrow> m | Some r \<Rightarrow> sret r) Q E = (case res of None \<Rightarrow> wp m Q E | Some r \<Rightarrow> Q r)" for res
    by (cases res) simp_all
  show "wp (ask None v w op m) Q E = wp m Q E" "wp (ask (Some f) v w op m) Q E =
    wp (f v w op) (\<lambda>res. case res of Some r \<Rightarrow> Q r | None \<Rightarrow> wp m Q E) E"
    by (simp_all add: ask_def c)
qed

lemma RichCompareBool_long:
  assumes "wf_long a" and "wf_long b"
  shows "PyObject_RichCompareBool builtin_types (PyLongObj a) (PyLongObj b) op =
    sret (cmp_rel op (long_val a) (long_val b))"
proof -
  note r = long_richcompare_rel [OF assms, of "a = b"]
  show ?thesis
    by (rule ext)
      (auto simp: PyObject_RichCompareBool_def do_richcompare_def builtin_types_def ask_def sbind_def sret_def Let_def r)
qed

section \<open>The contract of an ordering comparison\<close>

locale comparison =
  fixes lt :: "'a \<Rightarrow> 'a \<Rightarrow> ('s, bool) py"
    and less :: "'a \<Rightarrow> 'a \<Rightarrow> bool"
    and ok :: "'a \<Rightarrow> bool"
  assumes lt_result: "ok a \<Longrightarrow> ok b \<Longrightarrow> lt a b = sret (less a b)"
    and less_asym: "less a b \<Longrightarrow> \<not> less b a"
    and less_neg_trans: "\<not> less a b \<Longrightarrow> \<not> less b c \<Longrightarrow> \<not> less a c"
begin

lemma less_irrefl [simp]: "\<not> less a a"
  using less_asym by blast

lemma less_trans: "less a b \<Longrightarrow> less b c \<Longrightarrow> less a c"
  using less_asym less_neg_trans by blast

lemma less_le_trans: "less a b \<Longrightarrow> \<not> less c b \<Longrightarrow> less a c"
  using less_neg_trans less_asym by blast

lemma le_less_trans: "\<not> less b a \<Longrightarrow> less b c \<Longrightarrow> less a c"
  using less_neg_trans less_asym by blast

lemma wp_lt: "ok a \<Longrightarrow> ok b \<Longrightarrow> wp (lt a b) Q E = Q (less a b)"
  by (simp add: lt_result)

end

text \<open>\<open>PyObject_RichCompareBool(v, w, Py_LT)\<close> on integer objects.\<close>

definition obj_lt :: "pyobj \<Rightarrow> pyobj \<Rightarrow> ('s, bool) py" where
  "obj_lt v w = PyObject_RichCompareBool builtin_types v w Py_LT"

fun is_long :: "pyobj \<Rightarrow> bool" where
  "is_long (PyLongObj a) = wf_long a"
| "is_long (PyBaseObj _) = False"

fun obj_val :: "pyobj \<Rightarrow> int" where
  "obj_val (PyLongObj a) = long_val a"
| "obj_val (PyBaseObj _) = 0"

interpretation int_cmp: comparison obj_lt "\<lambda>v w. obj_val v < obj_val w" is_long
proof (unfold_locales, goal_cases)
  case (1 a b)
  then show ?case
    by (cases a; cases b) (simp_all add: obj_lt_def RichCompareBool_long)
qed simp_all

text \<open>The shared integer objects, as samples.\<close>

definition int_obj :: "int \<Rightarrow> pyobj" where
  "int_obj i = PyLongObj (get_small_int i)"

lemma int_obj [simp]: "is_long (int_obj i)" "obj_val (int_obj i) = i" if "-5 \<le> i" and "i < 257"
  using get_small_int_correct that
  by (simp_all add: int_obj_def IS_SMALL_INT_def NSMALLNEGINTS_def NSMALLPOSINTS_def)

section \<open>Properties\<close>

text \<open>
  A comparison of two objects whose types answer \<open>NotImplemented\<close> in both directions, or
  have no slot, is decided by identity for \<open>==\<close> and \<open>!=\<close> and raises \<open>TypeError\<close> for an ordering,
  leaving the state as it is, whichever of the two types is asked first.
\<close>

theorem richcompare_default:
  assumes "\<And>f. tp_richcompare T (type_of T v) = Some f \<Longrightarrow> f v w op = sret None"
    and "\<And>f. tp_richcompare T (type_of T w) = Some f \<Longrightarrow> f w v (Py_SwappedOp op) = sret None"
  shows "do_richcompare T v w op s =
    (s, if op = Py_EQ then Inr (py_bool T (v = w))
        else if op = Py_NE then Inr (py_bool T (v \<noteq> w)) else Inl TypeError)"
  using assms
  by (cases "tp_richcompare T (type_of T v)"; cases "tp_richcompare T (type_of T w)"; cases op)
    (auto simp: do_richcompare_def ask_def sbind_def sret_def sraise_def Let_def)

lemma richcompare_default_witness:
  "do_richcompare builtin_types (PyLongObj one_digit) (PyBaseObj 7) Py_LT () = ((), Inl TypeError)"
  by (subst richcompare_default) (auto simp: builtin_types_def)

end
