(* ===== verification/PyHeapq.thy ===== *)
theory PyHeapq
  imports PyList PyOrder "HOL-Library.Multiset"
begin

text \<open>
  Heap queues (\<open>Modules/_heapqmodule.c\<close>). The operations run on a list object and compare through
  the comparison protocol, so each comparison may raise or change the list; the code re-reads
  the list after it and raises \<open>RuntimeError\<close> when its size changed. The first part of the theory is
  the code; the second shows that no comparison whatever makes it read or write outside the
  list; the third, for a comparison that is a strict weak order, that the operations keep the
  heap property and implement a priority queue. Positions are natural numbers.
\<close>

section \<open>Definitions\<close>

type_synonym ('a, 'w) heapst = "'a pylist \<times> 'w"
type_synonym ('a, 'w) hcmp = "'a \<Rightarrow> 'a \<Rightarrow> (('a, 'w) heapst, bool) py"

definition heap_size :: "(('a, 'w) heapst, nat) py" where
  "heap_size = on_fst (sget (\<lambda>l. nat (list_size l)))"

definition heap_get :: "nat \<Rightarrow> (('a, 'w) heapst, 'a) py" where
  "heap_get i = on_fst (slot_get (int i))"

definition heap_set :: "nat \<Rightarrow> 'a \<Rightarrow> (('a, 'w) heapst, unit) py" where
  "heap_set i x = on_fst (slot_set (int i) x)"

subsection \<open>Sifting\<close>

function siftdown_loop :: "('a, 'w) hcmp \<Rightarrow> nat \<Rightarrow> nat \<Rightarrow> nat \<Rightarrow> 'a \<Rightarrow> (('a, 'w) heapst, unit) py" where
  "siftdown_loop lt sz startpos pos newitem =
     (if pos > startpos then
        let parentpos = (pos - 1) div 2
        in sbind (heap_get parentpos) (\<lambda>parent.
           sbind (lt newitem parent) (\<lambda>cmp.
           sbind heap_size (\<lambda>sz'.
             if sz \<noteq> sz' then sraise RuntimeError
             else if \<not> cmp then sret ()
             else
               sbind (heap_get parentpos) (\<lambda>parent.
               sbind (heap_get pos) (\<lambda>newitem.
               sbind (heap_set parentpos newitem) (\<lambda>_.
               sbind (heap_set pos parent) (\<lambda>_.
                 siftdown_loop lt sz startpos parentpos newitem)))))))
      else sret ())"
  by pat_completeness auto
termination by (relation "measure (\<lambda>(lt, sz, startpos, pos, newitem). pos)") auto

definition siftdown :: "('a, 'w) hcmp \<Rightarrow> nat \<Rightarrow> nat \<Rightarrow> (('a, 'w) heapst, unit) py" where
  "siftdown lt startpos pos =
     sbind heap_size (\<lambda>sz.
       if pos \<ge> sz then sraise IndexError
       else sbind (heap_get pos) (\<lambda>newitem. siftdown_loop lt sz startpos pos newitem))"

text \<open>
  The choice between the children of a position that has one: what is added to the position of
  the left one (\<open>cmp ^ 1\<close>), 0 when there is no right one.
\<close>

definition siftup_step :: "('a, 'w) hcmp \<Rightarrow> nat \<Rightarrow> nat \<Rightarrow> (('a, 'w) heapst, nat) py" where
  "siftup_step lt endpos pos =
     (let childpos = 2 * pos + 1
      in if childpos + 1 < endpos then
           sbind (heap_get childpos) (\<lambda>a.
           sbind (heap_get (childpos + 1)) (\<lambda>b.
           sbind (lt a b) (\<lambda>cmp.
           sbind heap_size (\<lambda>sz.
             if endpos \<noteq> sz then sraise RuntimeError
             else sret (if cmp then 0 else 1)))))
         else sret 0)"

function siftup_loop :: "('a, 'w) hcmp \<Rightarrow> nat \<Rightarrow> nat \<Rightarrow> (('a, 'w) heapst, nat) py" where
  "siftup_loop lt endpos pos =
     (if pos < endpos div 2 then
        sbind (siftup_step lt endpos pos) (\<lambda>incr.
          let childpos = 2 * pos + 1 + incr
          in sbind (heap_get childpos) (\<lambda>tmp1.
             sbind (heap_get pos) (\<lambda>tmp2.
             sbind (heap_set childpos tmp2) (\<lambda>_.
             sbind (heap_set pos tmp1) (\<lambda>_.
               siftup_loop lt endpos childpos)))))
      else sret pos)"
  by pat_completeness auto
termination by (relation "measure (\<lambda>(lt, endpos, pos). endpos - pos)") auto

definition siftup :: "('a, 'w) hcmp \<Rightarrow> nat \<Rightarrow> (('a, 'w) heapst, unit) py" where
  "siftup lt pos =
     sbind heap_size (\<lambda>endpos.
       if pos \<ge> endpos then sraise IndexError
       else sbind (siftup_loop lt endpos pos) (\<lambda>leaf. siftdown lt pos leaf))"

subsection \<open>The operations\<close>

definition heappush :: "('a, 'w) hcmp \<Rightarrow> 'a \<Rightarrow> (('a, 'w) heapst, unit) py" where
  "heappush lt item =
     sbind (on_fst (app1 item)) (\<lambda>_.
     sbind heap_size (\<lambda>sz. siftdown lt 0 (sz - 1)))"

definition heappop_internal :: "(nat \<Rightarrow> (('a, 'w) heapst, unit) py) \<Rightarrow> (('a, 'w) heapst, 'a) py" where
  "heappop_internal siftup_func =
     sbind heap_size (\<lambda>n.
       if n = 0 then sraise IndexError
       else
         sbind (heap_get (n - 1)) (\<lambda>lastelt.
         sbind (on_fst (list_ass_slice (int n - 1) (int n) None)) (\<lambda>_.
           if n - 1 = 0 then sret lastelt
           else
             sbind (heap_get 0) (\<lambda>returnitem.
             sbind (heap_set 0 lastelt) (\<lambda>_.
             sbind (siftup_func 0) (\<lambda>_. sret returnitem))))))"

definition heappop :: "('a, 'w) hcmp \<Rightarrow> (('a, 'w) heapst, 'a) py" where
  "heappop lt = heappop_internal (siftup lt)"

definition heapreplace_internal :: "'a \<Rightarrow> (nat \<Rightarrow> (('a, 'w) heapst, unit) py) \<Rightarrow> (('a, 'w) heapst, 'a) py" where
  "heapreplace_internal item siftup_func =
     sbind heap_size (\<lambda>n.
       if n = 0 then sraise IndexError
       else
         sbind (heap_get 0) (\<lambda>returnitem.
         sbind (heap_set 0 item) (\<lambda>_.
         sbind (siftup_func 0) (\<lambda>_. sret returnitem))))"

definition heapreplace :: "('a, 'w) hcmp \<Rightarrow> 'a \<Rightarrow> (('a, 'w) heapst, 'a) py" where
  "heapreplace lt item = heapreplace_internal item (siftup lt)"

definition heappushpop :: "('a, 'w) hcmp \<Rightarrow> 'a \<Rightarrow> (('a, 'w) heapst, 'a) py" where
  "heappushpop lt item =
     sbind heap_size (\<lambda>n.
       if n = 0 then sret item
       else
         sbind (heap_get 0) (\<lambda>top.
         sbind (lt top item) (\<lambda>cmp.
           if \<not> cmp then sret item
           else
             sbind heap_size (\<lambda>n.
               if n = 0 then sraise IndexError
               else
                 sbind (heap_get 0) (\<lambda>returnitem.
                 sbind (heap_set 0 item) (\<lambda>_.
                 sbind (siftup lt 0) (\<lambda>_. sret returnitem)))))))"

function keep_top_bit_loop :: "nat \<Rightarrow> nat \<Rightarrow> nat" where
  "keep_top_bit_loop n i = (if n > 1 then keep_top_bit_loop (n div 2) (i + 1) else push_bit i n)"
  by pat_completeness auto
termination by (relation "measure fst") auto

definition keep_top_bit :: "nat \<Rightarrow> nat" where
  "keep_top_bit n = keep_top_bit_loop n 0"

text \<open>The inner loop: a node, then its parent when the node was a left child, and so on.\<close>

function heapify_walk :: "(nat \<Rightarrow> ('s, unit) py) \<Rightarrow> nat \<Rightarrow> ('s, unit) py" where
  "heapify_walk siftup_func j =
     sbind (siftup_func j) (\<lambda>_. if odd j then heapify_walk siftup_func (j div 2) else sret ())"
  by pat_completeness auto
termination by (relation "measure snd") (auto elim: oddE)

text \<open>\<open>for (i = lo + k - 1; i >= lo; i--)\<close>.\<close>

fun heapify_rows :: "(nat \<Rightarrow> ('s, unit) py) \<Rightarrow> nat \<Rightarrow> nat \<Rightarrow> ('s, unit) py" where
  "heapify_rows body lo 0 = sret ()"
| "heapify_rows body lo (Suc k) = sbind (body (lo + k)) (\<lambda>_. heapify_rows body lo k)"

definition cache_friendly_heapify :: "(nat \<Rightarrow> (('a, 'w) heapst, unit) py) \<Rightarrow> (('a, 'w) heapst, unit) py" where
  "cache_friendly_heapify siftup_func =
     sbind heap_size (\<lambda>n.
       let m = n div 2;
           leftmost = keep_top_bit (m + 1) - 1;
           mhalf = m div 2
       in sbind (heapify_rows (heapify_walk siftup_func) mhalf (leftmost - mhalf)) (\<lambda>_.
          heapify_rows (heapify_walk siftup_func) leftmost (m - leftmost)))"

definition heapify_internal :: "(nat \<Rightarrow> (('a, 'w) heapst, unit) py) \<Rightarrow> (('a, 'w) heapst, unit) py" where
  "heapify_internal siftup_func =
     sbind heap_size (\<lambda>n.
       if n > 2500 then cache_friendly_heapify siftup_func
       else heapify_rows siftup_func 0 (n div 2))"

definition heapify :: "('a, 'w) hcmp \<Rightarrow> (('a, 'w) heapst, unit) py" where
  "heapify lt = heapify_internal (siftup lt)"

subsection \<open>The variants for a max-heap\<close>

function siftdown_max_loop :: "('a, 'w) hcmp \<Rightarrow> nat \<Rightarrow> nat \<Rightarrow> nat \<Rightarrow> 'a \<Rightarrow> (('a, 'w) heapst, unit) py" where
  "siftdown_max_loop lt sz startpos pos newitem =
     (if pos > startpos then
        let parentpos = (pos - 1) div 2
        in sbind (heap_get parentpos) (\<lambda>parent.
           sbind (lt parent newitem) (\<lambda>cmp.
           sbind heap_size (\<lambda>sz'.
             if sz \<noteq> sz' then sraise RuntimeError
             else if \<not> cmp then sret ()
             else
               sbind (heap_get parentpos) (\<lambda>parent.
               sbind (heap_get pos) (\<lambda>newitem.
               sbind (heap_set parentpos newitem) (\<lambda>_.
               sbind (heap_set pos parent) (\<lambda>_.
                 siftdown_max_loop lt sz startpos parentpos newitem)))))))
      else sret ())"
  by pat_completeness auto
termination by (relation "measure (\<lambda>(lt, sz, startpos, pos, newitem). pos)") auto

definition siftdown_max :: "('a, 'w) hcmp \<Rightarrow> nat \<Rightarrow> nat \<Rightarrow> (('a, 'w) heapst, unit) py" where
  "siftdown_max lt startpos pos =
     sbind heap_size (\<lambda>sz.
       if pos \<ge> sz then sraise IndexError
       else sbind (heap_get pos) (\<lambda>newitem. siftdown_max_loop lt sz startpos pos newitem))"

definition siftup_max_step :: "('a, 'w) hcmp \<Rightarrow> nat \<Rightarrow> nat \<Rightarrow> (('a, 'w) heapst, nat) py" where
  "siftup_max_step lt endpos pos =
     (let childpos = 2 * pos + 1
      in if childpos + 1 < endpos then
           sbind (heap_get (childpos + 1)) (\<lambda>a.
           sbind (heap_get childpos) (\<lambda>b.
           sbind (lt a b) (\<lambda>cmp.
           sbind heap_size (\<lambda>sz.
             if endpos \<noteq> sz then sraise RuntimeError
             else sret (if cmp then 0 else 1)))))
         else sret 0)"

function siftup_max_loop :: "('a, 'w) hcmp \<Rightarrow> nat \<Rightarrow> nat \<Rightarrow> (('a, 'w) heapst, nat) py" where
  "siftup_max_loop lt endpos pos =
     (if pos < endpos div 2 then
        sbind (siftup_max_step lt endpos pos) (\<lambda>incr.
          let childpos = 2 * pos + 1 + incr
          in sbind (heap_get childpos) (\<lambda>tmp1.
             sbind (heap_get pos) (\<lambda>tmp2.
             sbind (heap_set childpos tmp2) (\<lambda>_.
             sbind (heap_set pos tmp1) (\<lambda>_.
               siftup_max_loop lt endpos childpos)))))
      else sret pos)"
  by pat_completeness auto
termination by (relation "measure (\<lambda>(lt, endpos, pos). endpos - pos)") auto

definition siftup_max :: "('a, 'w) hcmp \<Rightarrow> nat \<Rightarrow> (('a, 'w) heapst, unit) py" where
  "siftup_max lt pos =
     sbind heap_size (\<lambda>endpos.
       if pos \<ge> endpos then sraise IndexError
       else sbind (siftup_max_loop lt endpos pos) (\<lambda>leaf. siftdown_max lt pos leaf))"

definition heappop_max :: "('a, 'w) hcmp \<Rightarrow> (('a, 'w) heapst, 'a) py" where
  "heappop_max lt = heappop_internal (siftup_max lt)"

definition heapreplace_max :: "('a, 'w) hcmp \<Rightarrow> 'a \<Rightarrow> (('a, 'w) heapst, 'a) py" where
  "heapreplace_max lt item = heapreplace_internal item (siftup_max lt)"

definition heapify_max :: "('a, 'w) hcmp \<Rightarrow> (('a, 'w) heapst, unit) py" where
  "heapify_max lt = heapify_internal (siftup_max lt)"

declare siftdown_loop.simps [simp del] siftup_loop.simps [simp del]
  siftdown_max_loop.simps [simp del] siftup_max_loop.simps [simp del]
  heapify_walk.simps [simp del] keep_top_bit_loop.simps [simp del]

section \<open>Reading and writing the list\<close>

abbreviation items :: "('a, 'w) heapst \<Rightarrow> 'a list" where
  "items s \<equiv> elems (fst s)"

definition with_item :: "nat \<Rightarrow> 'a \<Rightarrow> ('a, 'w) heapst \<Rightarrow> ('a, 'w) heapst" where
  "with_item i x s = ((fst s)\<lparr>ob_item := Some ((slots (fst s))[i := Some x])\<rparr>, snd s)"

lemma with_item [simp]:
  assumes "wf_list (fst s)" and "i < length (items s)"
  shows "wf_list (fst (with_item i x s))" and "items (with_item i x s) = (items s)[i := x]"
proof -
  have "int i < list_size (fst s)" using assms(2) wf_listD(7) [OF assms(1)] by linarith
  from wf_list_set [OF assms(1) _ this] show "wf_list (fst (with_item i x s))"
    "items (with_item i x s) = (items s)[i := x]" by (simp_all add: with_item_def)
qed

lemma snd_with_item [simp]: "snd (with_item i x s) = snd s"
  by (simp add: with_item_def)

lemma wp_heap_size: "wf_list (fst s) \<Longrightarrow> wp heap_size Q E s = Q (length (items s)) s"
  by (simp add: heap_size_def wp_on_fst' wf_listD(6))

lemma wp_heap_get:
  assumes "wf_list (fst s)" and "i < length (items s)"
  shows "wp (heap_get i) Q E s = Q (items s ! i) s"
proof -
  have "int i < list_size (fst s)" using assms(2) wf_listD(7) [OF assms(1)] by linarith
  from wf_list_get [OF assms(1) _ this] show ?thesis by (simp add: heap_get_def wp_on_fst')
qed

lemma wp_heap_set:
  assumes "wf_list (fst s)" and "i < length (items s)"
  shows "wp (heap_set i x) Q E s = Q () (with_item i x s)"
proof -
  have "int i < list_size (fst s)" using assms(2) wf_listD(7) [OF assms(1)] by linarith
  from wf_list_get [OF assms(1) _ this] show ?thesis
    by (simp add: heap_set_def wp_on_fst' with_item_def)
qed

lemmas wp_heap = wp_heap_size wp_heap_get wp_heap_set

declare split_paired_All [simp del] split_paired_Ex [simp del]

section \<open>Memory safety under any comparison\<close>

lemma siftdown_loop_safe:
  assumes lt: "cmp_safe lt" and "wf_list (fst s)" and "pos < length (items s)"
  shows "wp (siftdown_loop lt (length (items s)) startpos pos newitem) SafeQ SafeE s"
  using assms(2-)
proof (induction pos arbitrary: s newitem rule: less_induct)
  case (less pos)
  let ?p = "(pos - 1) div 2"
  show ?case
  proof (cases "pos > startpos")
    case True
    then have p: "?p < pos" by auto
    have IH: "wp (siftdown_loop lt n startpos ?p ni) SafeQ SafeE t"
      if "wf_list (fst t)" and "n = length (items t)" and "pos < n" for n t ni
      using less.IH [OF p that(1)] that p by simp
    show ?thesis
      using less.prems True p
      by (subst siftdown_loop.simps)
        (simp add: Let_def wp_heap, rule wp_cmp_safe [OF lt], simp_all add: wp_heap IH [simplified])
  qed (use less.prems in \<open>simp add: siftdown_loop.simps [of lt _ startpos pos newitem]\<close>)
qed

lemma siftdown_safe: "cmp_safe lt \<Longrightarrow> safe (siftdown lt startpos pos)"
  by (simp add: safe_def siftdown_def wp_heap siftdown_loop_safe)

lemma siftup_step_safe:
  assumes "cmp_safe lt" and "wf_list (fst s)" and "endpos = length (items s)" and "pos < endpos div 2"
  shows "wp (siftup_step lt endpos pos)
    (\<lambda>i t. wf_list (fst t) \<and> length (items t) = endpos \<and> 2 * pos + 1 + i < endpos) SafeE s"
proof -
  have "2 * pos + 1 < endpos" using assms(4) by linarith
  then show ?thesis
    using assms(2-)
    by (auto simp: siftup_step_def Let_def wp_heap intro!: wp_cmp_safe [OF assms(1)])
qed

lemma siftup_loop_safe:
  fixes s :: "('a, 'w) heapst"
  assumes lt: "cmp_safe lt" and "wf_list (fst s)"
  shows "wp (siftup_loop lt (length (items s)) pos) SafeQ SafeE s"
  using assms(2)
proof (induction "length (items s) - pos" arbitrary: s pos rule: less_induct)
  case (less s pos)
  let ?n = "length (items s)"
  show ?case
  proof (cases "pos < ?n div 2")
    case True
    have IH: "wp (siftup_loop lt ?n q) SafeQ SafeE t"
      if "wf_list (fst t)" and "length (items t) = ?n" and "pos < q" for t q
    proof -
      have "length (items t) - q < ?n - pos" using that True by linarith
      from less.hyps [OF this that(1)] show ?thesis using that(2) by simp
    qed
    show ?thesis
    proof (subst siftup_loop.simps, simp add: True Let_def,
        rule wp_mono [OF siftup_step_safe [OF lt less.prems refl True]])
      fix i and t :: "('a, 'w) heapst"
      assume t: "wf_list (fst t) \<and> length (items t) = ?n \<and> 2 * pos + 1 + i < ?n"
      then show "wp (heap_get (Suc (2 * pos + i)))
        (\<lambda>tmp1. wp (heap_get pos)
          (\<lambda>tmp2. wp (heap_set (Suc (2 * pos + i)) tmp2)
            (\<lambda>_. wp (heap_set pos tmp1) (\<lambda>_. wp (siftup_loop lt ?n (Suc (2 * pos + i))) SafeQ SafeE) SafeE) SafeE) SafeE)
        SafeE t"
        using True by (simp add: wp_heap IH)
    qed simp
  qed (use less.prems in \<open>simp add: siftup_loop.simps [of lt _ pos]\<close>)
qed

lemma siftup_safe:
  assumes "cmp_safe lt"
  shows "safe (siftup lt pos)"
  unfolding safe_def
proof (intro allI impI)
  fix s :: "('a, 'b) heapst"
  assume s: "wf_list (fst s)"
  have "wp (siftup_loop lt (length (items s)) pos) (\<lambda>leaf. wp (siftdown lt pos leaf) SafeQ SafeE) SafeE s"
    by (rule wp_mono [OF siftup_loop_safe [OF assms s]]) (use safeD [OF siftdown_safe [OF assms]] in simp_all)
  then show "wp (siftup lt pos) SafeQ SafeE s"
    using s by (simp add: siftup_def wp_heap)
qed

lemma app1_safe: "safe (on_fst (app1 x))"
  by (auto simp: safe_def wp_on_fst' intro!: wp_mono [OF wp_app1])

lemma pop_slice_safe: "safe (on_fst (list_ass_slice i j None))"
  by (auto simp: safe_def wp_on_fst' intro!: wp_mono [OF wp_list_ass_slice])

lemma heap_size_safe: "safe heap_size"
  by (simp add: safe_def wp_heap)

lemma heappush_safe: "cmp_safe lt \<Longrightarrow> safe (heappush lt item)"
  unfolding heappush_def by (intro safe_sbind app1_safe siftdown_safe heap_size_safe)

lemma spliced_last: "xs \<noteq> [] \<Longrightarrow> spliced xs (int (length xs) - 1) (int (length xs)) [] = butlast xs"
  by (cases xs rule: rev_cases) (simp_all add: spliced_def slice_lo_def slice_hi_def nat_add_distrib)

text \<open>Removing the last item.\<close>

lemma wp_pop_last:
  assumes "wf_list (fst s)" and "items s \<noteq> []" and n: "n = length (items s)"
    and "\<And>t. wf_list (fst t) \<Longrightarrow> items t = butlast (items s) \<Longrightarrow> snd t = snd s \<Longrightarrow> Q () t"
  shows "wp (on_fst (list_ass_slice (int n - 1) (int n) None)) Q E s"
  unfolding wp_on_fst'
  by (rule wp_mono [OF wp_list_ass_slice [OF assms(1)]])
    (use assms(2,4) spliced_last [OF assms(2)] in \<open>auto simp: n\<close>)

lemma heapreplace_internal_safe:
  fixes su :: "nat \<Rightarrow> (('a, 'w) heapst, unit) py"
  assumes "\<And>i. safe (su i)"
  shows "safe (heapreplace_internal item su)"
  unfolding safe_def
proof (intro allI impI)
  fix s :: "('a, 'w) heapst"
  assume s: "wf_list (fst s)"
  have su: "wp (su 0) SafeQ SafeE (with_item 0 item s)" if "items s \<noteq> []"
    using s that by (intro safeD [OF assms]) simp
  show "wp (heapreplace_internal item su) SafeQ SafeE s"
    using s su by (simp add: heapreplace_internal_def wp_heap)
qed

lemma heappop_internal_safe:
  fixes su :: "nat \<Rightarrow> (('a, 'w) heapst, unit) py"
  assumes "\<And>i. safe (su i)"
  shows "safe (heappop_internal su)"
  unfolding safe_def
proof (intro allI impI)
  fix s :: "('a, 'w) heapst"
  assume s: "wf_list (fst s)"
  show "wp (heappop_internal su) SafeQ SafeE s"
  proof (cases "items s = []")
    case True
    then show ?thesis using s by (simp add: heappop_internal_def wp_heap)
  next
    case False
    have "wp (if length (items s) - 1 = 0 then sret (items s ! (length (items s) - 1))
        else sbind (heap_get 0) (\<lambda>r. sbind (heap_set 0 (items s ! (length (items s) - 1)))
          (\<lambda>_. sbind (su 0) (\<lambda>_. sret r)))) SafeQ SafeE t"
      if t: "wf_list (fst t)" "items t = butlast (items s)" for t
    proof (cases "length (items s) - 1 = 0")
      case True
      then show ?thesis using t by simp
    next
      case F: False
      then have ne: "0 < length (items t)" using t(2) by simp
      have "wp (su 0) SafeQ SafeE (with_item 0 (items s ! (length (items s) - 1)) t)"
        by (rule safeD [OF assms with_item(1) [OF t(1) ne]])
      then show ?thesis using F t(1) ne by (simp add: wp_heap)
    qed
    note rest = this
    have main: "wp (on_fst (list_ass_slice (int (length (items s)) - 1) (int (length (items s))) None))
      (\<lambda>_. wp (if length (items s) - 1 = 0 then sret (items s ! (length (items s) - 1))
        else sbind (heap_get 0) (\<lambda>r. sbind (heap_set 0 (items s ! (length (items s) - 1)))
          (\<lambda>_. sbind (su 0) (\<lambda>_. sret r)))) SafeQ SafeE) SafeE s"
      by (rule wp_pop_last [OF s False refl]) (use rest s in simp_all)
    have n: "length (items s) \<noteq> 0" "length (items s) - 1 < length (items s)" using False by simp_all
    show ?thesis
      unfolding heappop_internal_def wp_sbind wp_heap_size [OF s] if_not_P [OF n(1)] wp_heap_get [OF s n(2)] by (rule main)
  qed
qed

lemma heappushpop_safe:
  fixes lt :: "('a, 'w) hcmp"
  assumes "cmp_safe lt"
  shows "safe (heappushpop lt item)"
  unfolding safe_def
proof (intro allI impI)
  fix s :: "('a, 'w) heapst"
  assume s: "wf_list (fst s)"
  have su: "wp (siftup lt 0) SafeQ SafeE (with_item 0 item t)" if "wf_list (fst t)" "items t \<noteq> []" for t :: "('a, 'w) heapst"
    using that by (intro safeD [OF siftup_safe [OF assms]]) simp
  show "wp (heappushpop lt item) SafeQ SafeE s"
    using s
    by (simp add: heappushpop_def wp_heap, intro impI, intro wp_cmp_safe [OF assms]) (auto simp: wp_heap su)
qed

lemma heapify_rows_safe: "(\<And>i. safe (body i)) \<Longrightarrow> safe (heapify_rows body lo k)"
  by (induction k) (auto intro: safe_sbind)

lemma heapify_walk_safe:
  assumes "\<And>i. safe (su i)"
  shows "safe (heapify_walk su j)"
proof (induction j rule: less_induct)
  case (less j)
  then show ?case
    by (subst heapify_walk.simps) (auto intro!: safe_sbind assms elim: oddE)
qed

lemma heapify_internal_safe:
  assumes "\<And>i. safe (su i)"
  shows "safe (heapify_internal su)"
proof -
  have r: "safe (heapify_rows su lo k)" "safe (heapify_rows (heapify_walk su) lo k)" for lo k
    by (intro heapify_rows_safe heapify_walk_safe assms)+
  have "safe (cache_friendly_heapify su)"
    unfolding cache_friendly_heapify_def Let_def by (intro safe_sbind heap_size_safe r)
  then have "safe (if n > 2500 then cache_friendly_heapify su else heapify_rows su 0 (n div 2))" for n :: nat
    using r by simp
  then show ?thesis unfolding heapify_internal_def by (intro safe_sbind heap_size_safe)
qed

section \<open>The max-heap variants are the others with the comparison turned round\<close>

definition flip_cmp :: "('a, 'w) hcmp \<Rightarrow> ('a, 'w) hcmp" where
  "flip_cmp lt = (\<lambda>a b. lt b a)"

lemma siftdown_max_loop_flip':
  "siftdown_max_loop lt sz startpos pos newitem = siftdown_loop (flip_cmp lt) sz startpos pos newitem"
proof (induction pos arbitrary: newitem rule: less_induct)
  case (less pos)
  show ?case
  proof (cases "pos > startpos")
    case True
    then have "(pos - 1) div 2 < pos" by auto
    note IH = less.IH [OF this]
    show ?thesis
      by (subst siftdown_max_loop.simps, subst siftdown_loop.simps) (simp only: Let_def IH flip_cmp_def)
  next
    case False
    then show ?thesis
      by (simp add: siftdown_max_loop.simps [of lt sz startpos pos] siftdown_loop.simps [of "flip_cmp lt" sz startpos pos])
  qed
qed

lemma siftdown_max_loop_flip: "siftdown_max_loop lt sz startpos pos = siftdown_loop (flip_cmp lt) sz startpos pos"
  by (rule ext) (rule siftdown_max_loop_flip')

lemma cmp_safe_flip: "cmp_safe lt \<Longrightarrow> cmp_safe (flip_cmp lt)"
  by (simp add: cmp_safe_def flip_cmp_def)

lemma siftdown_max_flip: "siftdown_max lt = siftdown (flip_cmp lt)"
  unfolding siftdown_max_def [abs_def] siftdown_def [abs_def] siftdown_max_loop_flip ..

lemma heap_get_commute:
  "sbind (heap_get i) (\<lambda>a. sbind (heap_get j) (\<lambda>b. f a b)) = sbind (heap_get j) (\<lambda>b. sbind (heap_get i) (\<lambda>a. f a b))"
  by (rule ext)
    (auto simp: sbind_def heap_get_def on_fst_def slot_get_def Let_def split: prod.splits option.splits)

lemma siftup_max_step_flip: "siftup_max_step lt endpos pos = siftup_step (flip_cmp lt) endpos pos"
  unfolding siftup_max_step_def siftup_step_def flip_cmp_def Let_def
  by (subst heap_get_commute) simp

lemma siftup_max_loop_flip: "siftup_max_loop lt endpos pos = siftup_loop (flip_cmp lt) endpos pos"
proof (induction "endpos - pos" arbitrary: pos rule: less_induct)
  case less
  show ?case
  proof (cases "pos < endpos div 2")
    case True
    then have "endpos - (2 * pos + 1 + incr) < endpos - pos" for incr by linarith
    note IH = less [OF this]
    show ?thesis
      by (subst siftup_max_loop.simps, subst siftup_loop.simps) (simp only: Let_def IH siftup_max_step_flip)
  next
    case False
    then show ?thesis
      by (simp add: siftup_max_loop.simps [of lt endpos pos] siftup_loop.simps [of "flip_cmp lt" endpos pos])
  qed
qed

lemma siftup_max_flip: "siftup_max lt = siftup (flip_cmp lt)"
  unfolding siftup_max_def [abs_def] siftup_def [abs_def] siftup_max_loop_flip siftdown_max_flip ..

lemma max_variants:
  "heappop_max lt = heappop (flip_cmp lt)"
  "heapreplace_max lt item = heapreplace (flip_cmp lt) item"
  "heapify_max lt = heapify (flip_cmp lt)"
  by (simp_all add: heappop_max_def heappop_def heapreplace_max_def heapreplace_def heapify_max_def
      heapify_def siftup_max_flip)

section \<open>Sifting restores the heap property\<close>

subsection \<open>Subtrees of the implicit tree\<close>

definition parent :: "nat \<Rightarrow> nat" where
  "parent i = (i - 1) div 2"

function in_sub :: "nat \<Rightarrow> nat \<Rightarrow> bool" where
  "in_sub r i \<longleftrightarrow> (if i \<le> r then i = r else in_sub r (parent i))"
  by pat_completeness auto
termination by (relation "measure snd") (auto simp: parent_def)

declare in_sub.simps [simp del]

lemma parent_less: "0 < i \<Longrightarrow> parent i < i"
  by (auto simp: parent_def)

lemma parent_child [simp]: "parent (2 * p + 1) = p" "parent (2 * p + 2) = p" "parent (Suc (2 * p)) = p"
  by (simp_all add: parent_def)

lemma child_cases: "0 < c \<Longrightarrow> parent c = p \<Longrightarrow> c = 2 * p + 1 \<or> c = 2 * p + 2"
  by (auto simp: parent_def)

lemma in_sub_refl [simp]: "in_sub r r"
  by (subst in_sub.simps) simp

lemma in_sub_le: "in_sub r i \<Longrightarrow> r \<le> i"
  by (subst (asm) in_sub.simps) (auto split: if_splits)

lemma in_sub_parent: "in_sub r i \<Longrightarrow> i \<noteq> r \<Longrightarrow> in_sub r (parent i) \<and> r < i"
  by (subst (asm) in_sub.simps) (auto split: if_splits)

lemma in_sub_child: "in_sub r (parent c) \<Longrightarrow> 0 < c \<Longrightarrow> in_sub r c"
  using in_sub_le [of r "parent c"] parent_less [of c] by (subst in_sub.simps) auto

lemma in_sub_0 [simp]: "in_sub 0 i"
proof (induction i rule: less_induct)
  case (less i)
  then show ?case by (cases "i = 0") (auto intro: in_sub_child parent_less)
qed

lemma in_sub_trans: "in_sub r p \<Longrightarrow> in_sub p i \<Longrightarrow> in_sub r i"
proof (induction i rule: less_induct)
  case (less i)
  show ?case
  proof (cases "i = p")
    case False
    then have p: "in_sub p (parent i)" "p < i" using in_sub_parent [OF less.prems(2)] by auto
    then have lt: "parent i < i" "0 < i" using parent_less [of i] by linarith+
    from less.IH [OF lt(1) less.prems(1) p(1)] lt(2) show ?thesis by (rule in_sub_child)
  next
    case True
    then show ?thesis using less.prems(1) by simp
  qed
qed

text \<open>Two subtrees that share a node are nested.\<close>

lemma in_sub_linear: "in_sub r i \<Longrightarrow> in_sub x i \<Longrightarrow> in_sub r x \<or> in_sub x r"
proof (induction i rule: less_induct)
  case (less i)
  show ?case
  proof (cases "i = r \<or> i = x")
    case False
    then have p: "in_sub r (parent i)" "in_sub x (parent i)" "r < i"
      using in_sub_parent [OF less.prems(1)] in_sub_parent [OF less.prems(2)] by simp_all
    then have "parent i < i" by (intro parent_less) simp
    from less.IH [OF this p(1,2)] show ?thesis .
  next
    case True
    then show ?thesis using less.prems by blast
  qed
qed

text \<open>A proper descendant lies under one of the children.\<close>

lemma in_sub_under_child:
  "in_sub r i \<Longrightarrow> i \<noteq> r \<Longrightarrow> \<exists>c. 0 < c \<and> parent c = r \<and> in_sub c i"
proof (induction i rule: less_induct)
  case (less i)
  have p: "in_sub r (parent i)" "r < i" using in_sub_parent [OF less.prems] by auto
  show ?case
  proof (cases "parent i = r")
    case True
    then show ?thesis using p(2) by (intro exI [of _ i]) auto
  next
    case False
    then obtain c where "0 < c" "parent c = r" "in_sub c (parent i)"
      using less.IH [OF parent_less p(1)] p(2) by auto
    then show ?thesis using p(2) by (intro exI [of _ c]) (auto intro: in_sub_child)
  qed
qed

subsection \<open>The invariants of the two loops\<close>

definition edge_ok :: "('a \<Rightarrow> 'a \<Rightarrow> bool) \<Rightarrow> 'a list \<Rightarrow> nat \<Rightarrow> bool" where
  "edge_ok ls xs i \<longleftrightarrow> \<not> ls (xs ! i) (xs ! parent i)"

text \<open>Everything below \<open>r\<close> is in order.\<close>

definition subheap :: "('a \<Rightarrow> 'a \<Rightarrow> bool) \<Rightarrow> nat \<Rightarrow> 'a list \<Rightarrow> bool" where
  "subheap ls r xs \<longleftrightarrow> (\<forall>i < length xs. in_sub r i \<longrightarrow> i \<noteq> r \<longrightarrow> edge_ok ls xs i)"

text \<open>
  Everything below \<open>r\<close> is in order except at \<open>p\<close>, and what is below \<open>p\<close> is no smaller than what
  is above it.
\<close>

definition hole :: "('a \<Rightarrow> 'a \<Rightarrow> bool) \<Rightarrow> nat \<Rightarrow> nat \<Rightarrow> 'a list \<Rightarrow> bool" where
  "hole ls r p xs \<longleftrightarrow>
     (\<forall>i < length xs. in_sub r i \<longrightarrow> i \<noteq> r \<longrightarrow> i \<noteq> p \<longrightarrow> parent i \<noteq> p \<longrightarrow> edge_ok ls xs i) \<and>
     (p \<noteq> r \<longrightarrow> (\<forall>c < length xs. 0 < c \<longrightarrow> parent c = p \<longrightarrow> \<not> ls (xs ! c) (xs ! parent p)))"

definition kids_ok :: "('a \<Rightarrow> 'a \<Rightarrow> bool) \<Rightarrow> nat \<Rightarrow> 'a list \<Rightarrow> bool" where
  "kids_ok ls p xs \<longleftrightarrow> (\<forall>c < length xs. 0 < c \<longrightarrow> parent c = p \<longrightarrow> edge_ok ls xs c)"

definition swapped :: "nat \<Rightarrow> nat \<Rightarrow> 'a list \<Rightarrow> 'a list" where
  "swapped i j xs = xs[i := xs ! j, j := xs ! i]"

lemma swapped_nth:
  "i < length xs \<Longrightarrow> j < length xs \<Longrightarrow> swapped i j xs ! k = (if k = j then xs ! i else if k = i then xs ! j else xs ! k)"
  by (auto simp: swapped_def nth_list_update)

lemma length_swapped [simp]: "length (swapped i j xs) = length xs"
  by (simp add: swapped_def)

text \<open>What sifting below \<open>r\<close> may do to the list.\<close>

definition sifted :: "nat \<Rightarrow> 'a list \<Rightarrow> 'a list \<Rightarrow> bool" where
  "sifted r xs ys \<longleftrightarrow> mset ys = mset xs \<and> length ys = length xs \<and> (\<forall>i. \<not> in_sub r i \<longrightarrow> ys ! i = xs ! i)"

lemma sifted_refl [simp]: "sifted r xs xs"
  by (simp add: sifted_def)

lemma sifted_trans: "sifted r xs ys \<Longrightarrow> sifted r ys zs \<Longrightarrow> sifted r xs zs"
  by (simp add: sifted_def)

lemma sifted_swapped:
  assumes "i < length xs" and "j < length xs" and "in_sub r i" and "in_sub r j"
  shows "sifted r xs (swapped i j xs)"
proof -
  have "mset (swapped i j xs) = mset xs"
    using mset_swap [OF assms(1,2)] unfolding swapped_def
    by (cases "i = j") (simp_all add: list_update_swap)
  then show ?thesis using assms by (auto simp: sifted_def swapped_nth)
qed

lemma sifted_set: "sifted r xs ys \<Longrightarrow> set ys = set xs"
  unfolding sifted_def by (metis set_mset_mset)

context comparison
begin

lemma siftdown_step:
  assumes h: "hole less r p xs" "kids_ok less p xs" and p: "in_sub r p" "p \<noteq> r" "p < length xs"
    and lt: "less (xs ! p) (xs ! parent p)"
  shows "hole less r (parent p) (swapped (parent p) p xs) \<and> kids_ok less (parent p) (swapped (parent p) p xs)"
proof -
  let ?q = "parent p" and ?ys = "swapped (parent p) p xs"
  have q: "in_sub r ?q" "r < p" using in_sub_parent [OF p(1,2)] by auto
  then have lq: "?q < p" "?q < length xs" "0 < p" using parent_less [of p] p(3) by auto
  have y: "?ys ! k = (if k = p then xs ! ?q else if k = ?q then xs ! p else xs ! k)" for k
    using swapped_nth [OF lq(2) p(3)] .
  have edge: "edge_ok less xs i" if "i < length xs" "in_sub r i" "i \<noteq> r" "i \<noteq> p" "parent i \<noteq> p" for i
    using h(1) that by (simp add: hole_def)
  have above: "\<not> less (xs ! c) (xs ! ?q)" if "c < length xs" "0 < c" "parent c = p" for c
    using h(1) p(2) that by (simp add: hole_def)
  have sib: "\<not> less (xs ! c) (xs ! ?q)" if "c < length xs" "0 < c" "parent c = ?q" "c \<noteq> p" for c
    using edge [of c] that q(1) in_sub_child [of r c] lq parent_less [of c] in_sub_le [OF q(1)]
    by (auto simp: edge_ok_def)
  have "edge_ok less ?ys i" if i: "i < length xs" "in_sub r i" "i \<noteq> r" "i \<noteq> ?q" "parent i \<noteq> ?q" for i
  proof (cases "parent i = p")
    case True
    have "0 < i" using i(2,3) in_sub_parent [of r i] by auto
    moreover from this have "i \<noteq> p" using True parent_less [of i] by auto
    ultimately show ?thesis using True above [of i] i(1,4) lq by (auto simp: edge_ok_def y)
  next
    case False
    then have "i \<noteq> p" using i(5) by auto
    then show ?thesis using edge [of i] i False by (simp add: edge_ok_def y)
  qed
  moreover have "\<not> less (?ys ! c) (?ys ! parent ?q)" if c: "c < length xs" "0 < c" "parent c = ?q" and "?q \<noteq> r" for c
  proof -
    have qq: "in_sub r (parent ?q)" "r < ?q" using in_sub_parent [OF q(1) \<open>?q \<noteq> r\<close>] by auto
    then have lqq: "parent ?q < ?q" using parent_less [of ?q] by simp
    have eq: "\<not> less (xs ! ?q) (xs ! parent ?q)"
      using edge [of ?q] q(1) \<open>?q \<noteq> r\<close> lq lqq by (auto simp: edge_ok_def)
    show ?thesis
    proof (cases "c = p")
      case True
      then show ?thesis using eq lq lqq by (simp add: y)
    next
      case False
      then have "c \<noteq> ?q" using c(3) parent_less [OF c(2)] by auto
      then show ?thesis
        using less_neg_trans [OF sib [OF c False] eq] lq lqq False by (simp add: y)
    qed
  qed
  moreover have "edge_ok less ?ys c" if c: "c < length xs" "0 < c" "parent c = ?q" for c
  proof (cases "c = p")
    case True
    then show ?thesis using less_asym [OF lt] lq by (simp add: edge_ok_def y)
  next
    case False
    then have "c \<noteq> ?q" using c(3) parent_less [OF c(2)] by auto
    then show ?thesis
      using less_neg_trans [OF sib [OF c False] less_asym [OF lt]] lq False c(3) by (simp add: edge_ok_def y)
  qed
  ultimately show ?thesis by (simp add: hole_def kids_ok_def)
qed

lemma siftdown_stop:
  assumes "hole less r p xs" "kids_ok less p xs" and "p = r \<or> edge_ok less xs p"
  shows "subheap less r xs"
  unfolding subheap_def
proof (intro allI impI)
  fix i
  assume i: "i < length xs" "in_sub r i" "i \<noteq> r"
  then have "0 < i" using in_sub_parent [of r i] by auto
  then show "edge_ok less xs i"
    using assms i by (cases "i = p"; cases "parent i = p") (auto simp: hole_def kids_ok_def)
qed

lemma siftup_step:
  assumes h: "hole less r p xs" and p: "in_sub r p" "p < length xs"
    and c: "c < length xs" "0 < c" "parent c = p"
    and min: "\<And>d. d < length xs \<Longrightarrow> 0 < d \<Longrightarrow> parent d = p \<Longrightarrow> \<not> less (xs ! d) (xs ! c)"
  shows "hole less r c (swapped c p xs)"
proof -
  let ?ys = "swapped c p xs"
  have pc: "p < c" using parent_less [OF c(2)] c(3) by simp
  have y: "?ys ! k = (if k = p then xs ! c else if k = c then xs ! p else xs ! k)" for k
    using swapped_nth [OF c(1) p(2)] .
  have edge: "edge_ok less xs i" if "i < length xs" "in_sub r i" "i \<noteq> r" "i \<noteq> p" "parent i \<noteq> p" for i
    using h(1) that by (simp add: hole_def)
  have sub_c: "in_sub r c" using in_sub_child [of r c] p(1) c by simp
  have "edge_ok less ?ys i" if i: "i < length xs" "in_sub r i" "i \<noteq> r" "i \<noteq> c" "parent i \<noteq> c" for i
  proof -
    have i0: "0 < i" "parent i < i" using i(2,3) in_sub_parent [of r i] parent_less [of i] by auto
    consider "i = p" | "i \<noteq> p" "parent i = p" | "i \<noteq> p" "parent i \<noteq> p" by blast
    then show ?thesis
    proof cases
      case 1
      then have "\<not> less (xs ! c) (xs ! parent p)" using h i(3) c by (simp add: hole_def)
      then show ?thesis using 1 i0 i(5) by (simp add: edge_ok_def y)
    next
      case 2
      then show ?thesis using min [OF i(1) i0(1)] i(4) by (simp add: edge_ok_def y)
    next
      case 3
      then show ?thesis using edge [OF i(1,2,3)] i(4,5) by (simp add: edge_ok_def y)
    qed
  qed
  moreover have "\<not> less (?ys ! d) (?ys ! parent c)" if d: "d < length xs" "0 < d" "parent d = c" for d
  proof -
    have "c < d" using parent_less [OF d(2)] d(3) by simp
    moreover have "in_sub r d" using in_sub_child [of r d] sub_c d by simp
    moreover have "r \<le> p" using in_sub_le [OF p(1)] .
    ultimately have "edge_ok less xs d" using edge [of d] d pc by auto
    then show ?thesis using d(3) c(3) \<open>c < d\<close> pc by (simp add: edge_ok_def y)
  qed
  ultimately show ?thesis by (simp add: hole_def)
qed

lemma siftup_start:
  assumes "\<And>c. c < length xs \<Longrightarrow> 0 < c \<Longrightarrow> parent c = r \<Longrightarrow> subheap less c xs"
  shows "hole less r r xs"
proof -
  have "edge_ok less xs i" if i: "i < length xs" "in_sub r i" "i \<noteq> r" "parent i \<noteq> r" for i
  proof -
    obtain c where c: "0 < c" "parent c = r" "in_sub c i"
      using in_sub_under_child [OF i(2,3)] by blast
    have "c \<noteq> i" using c i(4) by auto
    then show ?thesis
      using assms [of c] c i(1) in_sub_le [OF c(3)] by (auto simp: subheap_def)
  qed
  then show ?thesis by (simp add: hole_def)
qed

end

definition is_heap :: "('a \<Rightarrow> 'a \<Rightarrow> bool) \<Rightarrow> 'a list \<Rightarrow> bool" where
  "is_heap ls xs \<longleftrightarrow> (\<forall>i < length xs. 0 < i \<longrightarrow> edge_ok ls xs i)"

lemma subheap_0: "subheap ls 0 xs = is_heap ls xs"
  by (simp add: subheap_def is_heap_def)

lemma is_heap_butlast: "is_heap ls xs \<Longrightarrow> is_heap ls (butlast xs)"
  unfolding is_heap_def
proof (intro allI impI)
  fix i
  assume h: "\<forall>i < length xs. 0 < i \<longrightarrow> edge_ok ls xs i" and i: "i < length (butlast xs)" "0 < i"
  then have "parent i < length (butlast xs)" using parent_less [of i] by simp
  then show "edge_ok ls (butlast xs) i" using h i by (simp add: edge_ok_def nth_butlast)
qed

text \<open>Replacing the root of a heap leaves the subtrees of its children in order.\<close>

lemma subheap_new_root:
  assumes "is_heap ls xs" and "0 < c"
  shows "subheap ls c (xs[0 := x])"
  unfolding subheap_def
proof (intro allI impI)
  fix i
  assume i: "i < length (xs[0 := x])" "in_sub c i" "i \<noteq> c"
  then have "in_sub c (parent i)" "c < i" using in_sub_parent by blast+
  then have "0 < parent i" "0 < i" using in_sub_le [of c "parent i"] assms(2) by auto
  then show "edge_ok ls (xs[0 := x]) i" using assms(1) i(1) by (simp add: is_heap_def edge_ok_def)
qed

section \<open>The operations under a strict weak order\<close>

text \<open>The comparison contract for the state a heap lives in.\<close>

locale heap_cmp = comparison lt less ok
  for lt :: "('a, 'w) hcmp" and less and ok
begin

lemma siftdown_loop_correct:
  assumes wf: "wf_list (fst s)" and xs: "items s = xs" and p: "in_sub r p" "p < length xs"
    and inv: "hole less r p xs" "kids_ok less p xs" and ok: "\<forall>x \<in> set xs. ok x"
  shows "wp (siftdown_loop lt (length xs) r p (xs ! p))
    (\<lambda>_ t. wf_list (fst t) \<and> snd t = snd s \<and> sifted r xs (items t) \<and> subheap less r (items t)) (\<lambda>_ _. False) s"
  using assms
proof (induction p arbitrary: s xs rule: less_induct)
  case (less p)
  show ?case
  proof (cases "p > r")
    case False
    then have "p = r" using in_sub_le [OF less.prems(3)] by simp
    then show ?thesis
      using less.prems siftdown_stop [OF less.prems(5,6)]
      by (simp add: siftdown_loop.simps [of lt _ r])
  next
    case True
    let ?q = "parent p" and ?ys = "swapped (parent p) p xs"
    have q: "in_sub r ?q" "?q < p" "?q < length xs"
      using in_sub_parent [OF less.prems(3)] True parent_less [of p] less.prems(4) by auto
    have qq: "(p - 1) div 2 = ?q" by (simp add: parent_def)
    have okp: "ok (xs ! p)" "ok (xs ! ?q)" using less.prems(4,7) q(3) by simp_all
    note unf = siftdown_loop.simps [of lt _ r p] if_P [OF True] Let_def qq wp_sbind
    show ?thesis
    proof (cases "less (xs ! p) (xs ! ?q)")
      case F: False
      have "subheap less r xs"
        by (rule siftdown_stop [OF less.prems(5,6)]) (simp add: edge_ok_def F)
      then show ?thesis
        using F less.prems q okp unfolding unf by (simp add: wp_heap wp_lt)
    next
      case T: True
      have step: "hole less r ?q ?ys \<and> kids_ok less ?q ?ys"
        using siftdown_step [OF less.prems(5,6,3) _ less.prems(4) T] True by simp
      define t where "t = with_item p (xs ! ?q) (with_item ?q (xs ! p) s)"
      have t: "wf_list (fst t)" "items t = ?ys" "snd t = snd s"
        using less.prems(1,2,4) q(3) by (simp_all add: t_def swapped_def)
      have sw: "sifted r xs ?ys" using sifted_swapped [OF q(3) less.prems(4) q(1) less.prems(3)] .
      have oky: "\<forall>x \<in> set ?ys. ok x" using sifted_set [OF sw] less.prems(7) by simp
      have "?ys ! ?q = xs ! p" "length ?ys = length xs"
        using swapped_nth [OF q(3) less.prems(4), of ?q] q(2) by simp_all
      then have "wp (siftdown_loop lt (length xs) r ?q (xs ! p))
        (\<lambda>_ u. wf_list (fst u) \<and> snd u = snd t \<and> sifted r ?ys (items u) \<and> subheap less r (items u)) (\<lambda>_ _. False) t"
        using less.IH [OF q(2) t(1,2) q(1) _ conjunct1 [OF step] conjunct2 [OF step] oky] q(3) by simp
      then have "wp (siftdown_loop lt (length xs) r ?q (xs ! p))
        (\<lambda>_ u. wf_list (fst u) \<and> snd u = snd s \<and> sifted r xs (items u) \<and> subheap less r (items u)) (\<lambda>_ _. False) t"
        by (rule wp_mono) (use t(3) sifted_trans [OF sw] in auto)
      then show ?thesis
        using T less.prems q okp unfolding unf t_def by (simp add: wp_heap wp_lt)
    qed
  qed
qed

lemma siftup_step_correct:
  assumes wf: "wf_list (fst s)" and xs: "items s = xs" and p: "p < length xs div 2"
    and ok: "\<forall>x \<in> set xs. ok x"
  shows "\<exists>i. (\<forall>Q E. wp (siftup_step lt (length xs) p) Q E s = Q i s) \<and> 2 * p + 1 + i < length xs \<and> i \<le> 1 \<and>
    (\<forall>d < length xs. 0 < d \<longrightarrow> parent d = p \<longrightarrow> \<not> less (xs ! d) (xs ! (2 * p + 1 + i)))"
proof -
  let ?c = "2 * p + 1"
  have c: "?c < length xs" using p by linarith
  show ?thesis
  proof (cases "?c + 1 < length xs")
    case False
    have "wp (siftup_step lt (length xs) p) Q E s = Q 0 s" for Q E
      using False by (simp add: siftup_step_def Let_def)
    moreover have "\<not> less (xs ! d) (xs ! (?c + 0))" if d: "d < length xs" "0 < d" "parent d = p" for d
      using child_cases [OF d(2,3)] d(1) False by auto
    ultimately show ?thesis using c by (intro exI [of _ 0]) simp
  next
    case True
    let ?i = "if less (xs ! ?c) (xs ! (?c + 1)) then 0 else (1 :: nat)"
    have "wp (siftup_step lt (length xs) p) Q E s = Q ?i s" for Q E
      using True c wf xs ok by (simp add: siftup_step_def Let_def wp_heap wp_lt)
    moreover have "\<not> less (xs ! d) (xs ! (?c + ?i))" if d: "d < length xs" "0 < d" "parent d = p" for d
      using child_cases [OF d(2,3)] less_asym by (auto split: if_splits)
    moreover have "?c + ?i < length xs" "?i \<le> 1" using True by auto
    ultimately show ?thesis by (intro exI [of _ ?i]) blast
  qed
qed

lemma siftup_loop_correct:
  assumes wf: "wf_list (fst s)" and xs: "items s = xs" and p: "in_sub r p" "p < length xs"
    and inv: "hole less r p xs" and ok: "\<forall>x \<in> set xs. ok x"
  shows "wp (siftup_loop lt (length xs) p)
    (\<lambda>q t. wf_list (fst t) \<and> snd t = snd s \<and> sifted r xs (items t) \<and> in_sub r q \<and> q < length xs \<and>
      hole less r q (items t) \<and> kids_ok less q (items t)) (\<lambda>_ _. False) s"
  using assms
proof (induction "length xs - p" arbitrary: p s xs rule: less_induct)
  case less
  show ?case
  proof (cases "p < length xs div 2")
    case False
    have "\<not> c < length xs" if "0 < c" "parent c = p" for c
      using child_cases [OF that] False by linarith
    then have "kids_ok less p xs" unfolding kids_ok_def by blast
    then show ?thesis
      using False less.prems by (simp add: siftup_loop.simps [of lt _ p])
  next
    case True
    obtain i where i: "\<And>Q E. wp (siftup_step lt (length xs) p) Q E s = Q i s" "2 * p + 1 + i < length xs" "i \<le> 1"
      "\<And>d. d < length xs \<Longrightarrow> 0 < d \<Longrightarrow> parent d = p \<Longrightarrow> \<not> less (xs ! d) (xs ! (2 * p + 1 + i))"
      using siftup_step_correct [OF less.prems(1,2) True less.prems(6)] by blast
    let ?c = "2 * p + 1 + i"
    have c: "0 < ?c" "parent ?c = p" using i(3) by (auto simp: parent_def)
    have pc: "p < ?c" by simp
    let ?ys = "swapped ?c p xs"
    note h = siftup_step [OF less.prems(5,3,4) i(2) c i(4)]
    have sc: "in_sub r ?c" using in_sub_child [of r ?c] c less.prems(3) by simp
    note sw = sifted_swapped [OF i(2) less.prems(4) sc less.prems(3)]
    define t where "t = with_item p (xs ! ?c) (with_item ?c (xs ! p) s)"
    have t: "wf_list (fst t)" "items t = ?ys" "snd t = snd s"
      using less.prems(1,2,4) i(2) by (simp_all add: t_def swapped_def)
    have oky: "\<forall>x \<in> set ?ys. ok x" using sifted_set [OF sw] less.prems(6) by simp
    have "length ?ys - ?c < length xs - p" "?c < length ?ys" using i(2) by simp_all
    from less.hyps [OF this(1) t(1,2) sc this(2) h oky]
    have "wp (siftup_loop lt (length xs) ?c)
      (\<lambda>q u. wf_list (fst u) \<and> snd u = snd s \<and> sifted r xs (items u) \<and> in_sub r q \<and> q < length xs \<and>
        hole less r q (items u) \<and> kids_ok less q (items u)) (\<lambda>_ _. False) t"
      unfolding length_swapped by (rule wp_mono) (use t(3) sifted_trans [OF sw] in auto)
    then show ?thesis
      using i(2) less.prems(1,2,4) True unfolding t_def
      by (simp add: siftup_loop.simps [of lt _ p] Let_def i(1) wp_heap)
  qed
qed

lemma siftup_correct:
  assumes wf: "wf_list (fst s)" and p: "r < length (items s)" and ok: "\<forall>x \<in> set (items s). ok x"
    and kids: "\<And>c. c < length (items s) \<Longrightarrow> 0 < c \<Longrightarrow> parent c = r \<Longrightarrow> subheap less c (items s)"
  shows "wp (siftup lt r)
    (\<lambda>_ t. wf_list (fst t) \<and> snd t = snd s \<and> sifted r (items s) (items t) \<and> subheap less r (items t))
    (\<lambda>_ _. False) s"
proof -
  let ?Q = "\<lambda>_ t. wf_list (fst t) \<and> snd t = snd s \<and> sifted r (items s) (items t) \<and> subheap less r (items t)"
  have "wp (siftup_loop lt (length (items s)) r) (\<lambda>leaf. wp (siftdown lt r leaf) ?Q (\<lambda>_ _. False)) (\<lambda>_ _. False) s"
  proof (rule wp_mono [OF siftup_loop_correct [OF wf refl in_sub_refl p siftup_start [OF kids] ok]], goal_cases)
    case (4 q t)
    then have t: "wf_list (fst t)" "snd t = snd s" "sifted r (items s) (items t)" "in_sub r q"
      "q < length (items t)" "hole less r q (items t)" "kids_ok less q (items t)"
      by (auto simp: sifted_def)
    have okt: "\<forall>x \<in> set (items t). ok x" using sifted_set [OF t(3)] ok by simp
    have "wp (siftdown_loop lt (length (items t)) r q (items t ! q)) ?Q (\<lambda>_ _. False) t"
      by (rule wp_mono [OF siftdown_loop_correct [OF t(1) refl t(4,5,6,7) okt]])
        (use t(2) sifted_trans [OF t(3)] in auto)
    then show ?case using t(1,5) by (simp add: siftdown_def wp_heap)
  qed auto
  then show ?thesis using wf p by (simp add: siftup_def wp_heap)
qed

lemma heap_min:
  assumes "is_heap less xs" and "x \<in> set xs"
  shows "\<not> less x (xs ! 0)"
proof -
  have "\<not> less (xs ! i) (xs ! 0)" if "i < length xs" for i
    using that
  proof (induction i rule: less_induct)
    case (less i)
    show ?case
    proof (cases "i = 0")
      case False
      then have p: "parent i < i" using parent_less by simp
      then have "\<not> less (xs ! i) (xs ! parent i)" using assms(1) less.prems False by (simp add: is_heap_def edge_ok_def)
      from less_neg_trans [OF this less.IH [OF p]] show ?thesis using p less.prems by simp
    qed simp
  qed
  then show ?thesis using assms(2) by (auto simp: in_set_conv_nth)
qed

lemma heappush_correct:
  assumes wf: "wf_list (fst s)" and ok: "\<forall>x \<in> set (items s). ok x" "ok item" and heap: "is_heap less (items s)"
  shows "wp (heappush lt item)
    (\<lambda>_ t. wf_list (fst t) \<and> snd t = snd s \<and> is_heap less (items t) \<and>
      mset (items t) = add_mset item (mset (items s)))
    (\<lambda>e t. e = MemoryError \<and> t = s) s"
proof -
  let ?Q = "\<lambda>_ t. wf_list (fst t) \<and> snd t = snd s \<and> is_heap less (items t) \<and>
      mset (items t) = add_mset item (mset (items s))"
  let ?E = "\<lambda>e t. e = MemoryError \<and> t = s"
  let ?n = "length (items s)"
  have step: "wp (siftdown lt 0 ?n) ?Q ?E t" if t: "wf_list (fst t)" "items t = items s @ [item]" "snd t = snd s" for t
  proof -
    have none: "\<not> c < Suc ?n" if "0 < c" "parent c = ?n" for c
      using parent_less [OF that(1)] that(2) by simp
    have "edge_ok less (items s @ [item]) i" if "i < Suc ?n" "0 < i" "i \<noteq> ?n" for i
      using heap that parent_less [OF that(2)] by (auto simp: is_heap_def edge_ok_def nth_append)
    then have inv: "hole less 0 ?n (items t)" "kids_ok less ?n (items t)"
      using none by (auto simp: hole_def kids_ok_def t(2))
    have okt: "\<forall>x \<in> set (items t). ok x" using ok t(2) by simp
    have lt: "?n < length (items t)" using t(2) by simp
    have "wp (siftdown_loop lt (length (items t)) 0 ?n (items t ! ?n)) ?Q (\<lambda>_ _. False) t"
      by (rule wp_mono [OF siftdown_loop_correct [OF t(1) refl in_sub_0 lt inv okt]])
        (use t in \<open>auto simp: subheap_0 sifted_def\<close>)
    from wp_mono [OF this, where Q' = ?Q and E' = ?E] show ?thesis
      using t(1) lt by (simp add: siftdown_def wp_heap)
  qed
  have "wp (on_fst (app1 item)) (\<lambda>_. wp (sbind heap_size (\<lambda>sz. siftdown lt 0 (sz - 1))) ?Q ?E) ?E s"
    unfolding wp_on_fst'
  proof (rule wp_mono [OF wp_app1 [OF wf]], goal_cases)
    case (1 _ l)
    then have "wf_list (fst (l, snd s))" "items (l, snd s) = items s @ [item]" "snd (l, snd s) = snd s" by simp_all
    from step [OF this] show ?case using 1 by (simp add: wp_heap)
  qed simp
  then show ?thesis by (simp add: heappush_def)
qed

text \<open>Putting \<open>item\<close> at the root of a heap and sifting it.\<close>

lemma sift_new_root:
  assumes wf: "wf_list (fst s)" and ok: "\<forall>x \<in> set (items s). ok x" "ok item"
    and heap: "is_heap less (items s)" and ne: "items s \<noteq> []"
  shows "wp (siftup lt 0)
    (\<lambda>_ t. wf_list (fst t) \<and> snd t = snd s \<and> is_heap less (items t) \<and>
      add_mset (items s ! 0) (mset (items t)) = add_mset item (mset (items s)))
    (\<lambda>_ _. False) (with_item 0 item s)"
proof -
  let ?u = "with_item 0 item s"
  have u: "wf_list (fst ?u)" "items ?u = (items s)[0 := item]" using wf ne by simp_all
  have l: "0 < length (items ?u)" using u(2) ne by simp
  have oku: "\<forall>x \<in> set (items ?u). ok x" using ok set_update_subset_insert [of "items s" 0 item] u(2) by auto
  have kids: "subheap less c (items ?u)" if "c < length (items ?u)" "0 < c" "parent c = 0" for c
    unfolding u(2) by (rule subheap_new_root [OF heap that(2)])
  obtain h r where hr: "items s = h # r" using ne by (cases "items s") auto
  show ?thesis
    by (rule wp_mono [OF siftup_correct [OF u(1) l oku kids]])
      (use u(2) hr in \<open>auto simp: subheap_0 sifted_def\<close>)
qed

lemma heapreplace_correct:
  assumes wf: "wf_list (fst s)" and ok: "\<forall>x \<in> set (items s). ok x" "ok item" and heap: "is_heap less (items s)"
  shows "wp (heapreplace lt item)
    (\<lambda>r t. items s \<noteq> [] \<and> r = items s ! 0 \<and> wf_list (fst t) \<and> snd t = snd s \<and> is_heap less (items t) \<and>
      add_mset r (mset (items t)) = add_mset item (mset (items s)))
    (\<lambda>e t. e = IndexError \<and> t = s \<and> items s = []) s"
proof (cases "items s = []")
  case True
  then show ?thesis using wf by (simp add: heapreplace_def heapreplace_internal_def wp_heap)
next
  case False
  show ?thesis
    using wf False wp_mono [OF sift_new_root [OF wf ok heap False]]
    by (simp add: heapreplace_def heapreplace_internal_def wp_heap)
qed

lemma heappop_correct:
  assumes wf: "wf_list (fst s)" and ok: "\<forall>x \<in> set (items s). ok x" and heap: "is_heap less (items s)"
  shows "wp (heappop lt)
    (\<lambda>r t. items s \<noteq> [] \<and> r = items s ! 0 \<and> wf_list (fst t) \<and> snd t = snd s \<and> is_heap less (items t) \<and>
      add_mset r (mset (items t)) = mset (items s))
    (\<lambda>e t. t = s \<and> e = IndexError \<and> items s = []) s"
proof (cases "items s = []")
  case True
  then show ?thesis using wf by (simp add: heappop_def heappop_internal_def wp_heap)
next
  case False
  let ?n = "length (items s)"
  let ?last = "items s ! (?n - 1)"
  let ?Q = "\<lambda>r t. items s \<noteq> [] \<and> r = items s ! 0 \<and> wf_list (fst t) \<and> snd t = snd s \<and> is_heap less (items t) \<and>
      add_mset r (mset (items t)) = mset (items s)"
  let ?E = "\<lambda>e t. t = s \<and> e = IndexError \<and> items s = []"
  have split: "items s = butlast (items s) @ [?last]" using append_butlast_last_id [OF False] last_conv_nth [OF False] by simp
  have rest: "wp (if ?n - 1 = 0 then sret ?last
      else sbind (heap_get 0) (\<lambda>r. sbind (heap_set 0 ?last) (\<lambda>_. sbind (siftup lt 0) (\<lambda>_. sret r)))) ?Q ?E t"
    if t: "wf_list (fst t)" "items t = butlast (items s)" "snd t = snd s" for t
  proof (cases "?n - 1 = 0")
    case True
    then obtain x where "items s = [x]" using False by (cases "items s") auto
    then show ?thesis using t by (simp add: is_heap_def)
  next
    case F: False
    then have ne: "items t \<noteq> []" using t(2) by (cases "items s" rule: rev_cases) auto
    have okt: "\<forall>x \<in> set (items t). ok x" "ok ?last"
      using ok False t(2) by (auto dest: in_set_butlastD)
    have hd: "items t ! 0 = items s ! 0" using nth_butlast [of 0 "items s"] F t(2) by simp
    have "add_mset ?last (mset (items t)) = mset (items s)"
      unfolding t(2) by (subst (2) split) simp
    then have "wp (siftup lt 0) (\<lambda>_. ?Q (items s ! 0)) ?E (with_item 0 ?last t)"
      using wp_mono [OF sift_new_root [OF t(1) okt is_heap_butlast [OF heap, folded t(2)] ne]] hd t(3) False
      by simp
    then show ?thesis using F ne t(1) hd by (simp add: wp_heap)
  qed
  have main: "wp (on_fst (list_ass_slice (int ?n - 1) (int ?n) None))
      (\<lambda>_. wp (if ?n - 1 = 0 then sret ?last
      else sbind (heap_get 0) (\<lambda>r. sbind (heap_set 0 ?last) (\<lambda>_. sbind (siftup lt 0) (\<lambda>_. sret r)))) ?Q ?E) ?E s"
    by (rule wp_pop_last [OF wf False refl]) (use rest in simp_all)
  have n: "?n \<noteq> 0" "?n - 1 < ?n" using False by simp_all
  show ?thesis
    unfolding heappop_def heappop_internal_def wp_sbind wp_heap_size [OF wf] if_not_P [OF n(1)] wp_heap_get [OF wf n(2)]
    by (rule main)
qed

lemma heappushpop_correct:
  assumes wf: "wf_list (fst s)" and ok: "\<forall>x \<in> set (items s). ok x" "ok item" and heap: "is_heap less (items s)"
  shows "wp (heappushpop lt item)
    (\<lambda>r t. wf_list (fst t) \<and> snd t = snd s \<and> is_heap less (items t) \<and>
      add_mset r (mset (items t)) = add_mset item (mset (items s)) \<and>
      (\<forall>x \<in> insert item (set (items s)). \<not> less x r))
    (\<lambda>_ _. False) s"
proof (cases "items s = []")
  case True
  then show ?thesis using wf heap by (simp add: heappushpop_def wp_heap)
next
  case False
  have top: "ok (items s ! 0)" using ok(1) False by simp
  have min: "\<not> less x (items s ! 0)" if "x \<in> set (items s)" for x using heap_min [OF heap that] .
  show ?thesis
  proof (cases "less (items s ! 0) item")
    case True
    then have "\<not> less item (items s ! 0)" by (rule less_asym)
    then show ?thesis
      using wf False True top ok(2) min wp_mono [OF sift_new_root [OF wf ok heap False]]
      by (simp add: heappushpop_def wp_heap wp_lt)
  next
    case F: False
    then have "\<not> less x item" if "x \<in> set (items s)" for x
      using less_neg_trans [OF min [OF that]] by blast
    then show ?thesis
      using wf False F top ok(2) heap by (simp add: heappushpop_def wp_heap wp_lt)
  qed
qed

end

section \<open>Heapify\<close>

text \<open>
  A set of nodes closed under children (below \<open>n\<close>), each of which is the root of a heap: what
  both traversals build, one node at a time, until the root is in it.
\<close>

definition closed_set :: "nat set \<Rightarrow> nat \<Rightarrow> bool" where
  "closed_set D n \<longleftrightarrow> (\<forall>c < n. 0 < c \<longrightarrow> parent c \<in> D \<longrightarrow> c \<in> D)"

lemma closed_setD:
  assumes "closed_set D n" and "x \<in> D"
  shows "in_sub x i \<Longrightarrow> i < n \<Longrightarrow> i \<in> D"
proof (induction i rule: less_induct)
  case (less i)
  show ?case
  proof (cases "i = x")
    case False
    then have p: "in_sub x (parent i)" "x < i" using in_sub_parent [OF less.prems(1)] by auto
    then have lt: "parent i < i" using parent_less [of i] by simp
    then have "parent i \<in> D" using less.IH [OF lt p(1)] less.prems(2) by simp
    then show ?thesis using assms(1) less.prems(2) p(2) by (auto simp: closed_set_def)
  qed (use assms(2) in simp)
qed

lemma subheap_sub:
  assumes "subheap ls r xs" and "in_sub r x"
  shows "subheap ls x xs"
  unfolding subheap_def
proof (intro allI impI)
  fix i
  assume i: "i < length xs" "in_sub x i" "i \<noteq> x"
  have "r \<le> x" "x < i" using in_sub_le [OF assms(2)] in_sub_parent [OF i(2,3)] by auto
  then show "edge_ok ls xs i" using assms(1) i(1) in_sub_trans [OF assms(2) i(2)] by (simp add: subheap_def)
qed

lemma subheap_sifted:
  assumes "subheap ls x xs" and "sifted r xs ys" and "\<not> in_sub r x" and "\<not> in_sub x r"
  shows "subheap ls x ys"
  unfolding subheap_def
proof (intro allI impI)
  fix i
  assume i: "i < length ys" "in_sub x i" "i \<noteq> x"
  have out: "\<not> in_sub r k" if "in_sub x k" for k using in_sub_linear [OF _ that] assms(3,4) by blast
  have "ys ! i = xs ! i" "ys ! parent i = xs ! parent i"
    using assms(2) out [OF i(2)] out [OF conjunct1 [OF in_sub_parent [OF i(2,3)]]] by (simp_all add: sifted_def)
  then show "edge_ok ls ys i" using assms(1,2) i by (simp add: subheap_def edge_ok_def sifted_def)
qed

definition heap_inv :: "('a \<Rightarrow> 'a \<Rightarrow> bool) \<Rightarrow> ('a, 'w) heapst \<Rightarrow> nat set \<Rightarrow> ('a, 'w) heapst \<Rightarrow> bool" where
  "heap_inv ls s0 D s \<longleftrightarrow>
     wf_list (fst s) \<and> snd s = snd s0 \<and> mset (items s) = mset (items s0) \<and>
     closed_set D (length (items s0)) \<and> (\<forall>x \<in> D. subheap ls x (items s))"

text \<open>The frontier \<open>[lo, hi)\<close> of a row and what lies above it.\<close>

definition above :: "nat \<Rightarrow> nat \<Rightarrow> nat set" where
  "above lo hi = {x. \<exists>t. lo div 2 ^ t \<le> x \<and> x < hi div 2 ^ t}"

text \<open>\<open>2\<^sup>t\<close> divides \<open>i + 1\<close> when the lowest \<open>t\<close> bits of \<open>i\<close> are ones.\<close>

lemma ones_Suc_div: "2 ^ t dvd Suc i \<Longrightarrow> Suc i div 2 ^ t = Suc (i div 2 ^ t)"
  by (simp add: div_Suc dvd_eq_mod_eq_0)

lemma not_ones_Suc_div: "\<not> 2 ^ t dvd Suc i \<Longrightarrow> Suc i div 2 ^ t = i div 2 ^ t"
  by (simp add: div_Suc dvd_eq_mod_eq_0)

lemma ones_le: "2 ^ t dvd Suc i \<Longrightarrow> u \<le> t \<Longrightarrow> 2 ^ u dvd Suc i"
  by (erule dvd_trans [rotated]) (rule le_imp_power_dvd)

lemma ones_Suc:
  assumes "2 ^ t dvd Suc i"
  shows "2 ^ Suc t dvd Suc i \<longleftrightarrow> odd (i div 2 ^ t)"
proof -
  have "Suc i = 2 ^ t * Suc (i div 2 ^ t)"
    using assms ones_Suc_div [OF assms] by (metis dvd_mult_div_cancel)
  then have "2 ^ Suc t dvd Suc i \<longleftrightarrow> 2 ^ t * 2 dvd 2 ^ t * Suc (i div 2 ^ t)"
    by (simp only: power_Suc2)
  also have "\<dots> \<longleftrightarrow> 2 dvd Suc (i div 2 ^ t)" by (subst nat_mult_dvd_cancel_disj) simp
  finally show ?thesis by simp
qed

text \<open>Processing one more node of the frontier adds the node and its finished ancestors.\<close>

lemma above_step:
  assumes "i < hi" and "2 ^ t dvd Suc i" and "even (i div 2 ^ t)"
  shows "above i hi = above (Suc i) hi \<union> {i div 2 ^ u | u. u \<le> t}"
proof (intro equalityI subsetI)
  fix x
  assume "x \<in> above i hi"
  then obtain u where u: "i div 2 ^ u \<le> x" "x < hi div 2 ^ u" by (auto simp: above_def)
  show "x \<in> above (Suc i) hi \<union> {i div 2 ^ u | u. u \<le> t}"
  proof (cases "Suc i div 2 ^ u \<le> x")
    case True
    then show ?thesis using u(2) by (auto simp: above_def)
  next
    case False
    then have ones: "2 ^ u dvd Suc i" using not_ones_Suc_div [of u i] u(1) by linarith
    then have "x = i div 2 ^ u" using False u(1) ones_Suc_div [OF ones] by simp
    moreover have "u \<le> t"
    proof (rule ccontr)
      assume "\<not> u \<le> t"
      then have "2 ^ Suc t dvd Suc i" by (intro ones_le [OF ones]) simp
      then show False using ones_Suc [OF assms(2)] assms(3) by simp
    qed
    ultimately show ?thesis by blast
  qed
next
  fix x
  assume "x \<in> above (Suc i) hi \<union> {i div 2 ^ u | u. u \<le> t}"
  then show "x \<in> above i hi"
  proof
    assume "x \<in> above (Suc i) hi"
    then obtain u where u: "Suc i div 2 ^ u \<le> x" "x < hi div 2 ^ u" by (auto simp: above_def)
    have "i div 2 ^ u \<le> Suc i div 2 ^ u" by (rule div_le_mono) simp
    then have "i div 2 ^ u \<le> x" using u(1) by (rule le_trans)
    then show ?thesis using u(2) unfolding above_def by blast
  next
    assume "x \<in> {i div 2 ^ u | u. u \<le> t}"
    then obtain u where u: "x = i div 2 ^ u" "u \<le> t" by auto
    have "Suc (i div 2 ^ u) = Suc i div 2 ^ u" using ones_Suc_div [OF ones_le [OF assms(2) u(2)]] ..
    also have "\<dots> \<le> hi div 2 ^ u" using assms(1) by (intro div_le_mono) simp
    finally show ?thesis using u(1) unfolding above_def by auto
  qed
qed

lemma above_empty [simp]: "above hi hi = {}"
  by (auto simp: above_def)

lemma keep_top_bit_loop:
  "1 \<le> n \<Longrightarrow> \<exists>k. 2 ^ k \<le> n \<and> n < 2 ^ (k + 1) \<and> keep_top_bit_loop n i = 2 ^ (k + i)"
proof (induction n i rule: keep_top_bit_loop.induct)
  case (1 n i)
  show ?case
  proof (cases "n > 1")
    case True
    then have "1 \<le> n div 2" by linarith
    then obtain k where k: "2 ^ k \<le> n div 2" "n div 2 < 2 ^ (k + 1)" "keep_top_bit_loop (n div 2) (i + 1) = 2 ^ (k + (i + 1))"
      using 1(1) [OF True] by blast
    then have "2 ^ (k + 1) \<le> n" "n < 2 ^ (k + 1 + 1)" by simp_all
    then show ?thesis
      using k(3) True by (intro exI [of _ "k + 1"]) (simp add: keep_top_bit_loop.simps [of n i] ac_simps)
  next
    case False
    then have "n = 1" using 1 by simp
    then show ?thesis by (intro exI [of _ 0]) (simp add: keep_top_bit_loop.simps push_bit_eq_mult)
  qed
qed

text \<open>
  A frontier \<open>[lo, hi)\<close> inside one row, with \<open>B\<close> already finished: the children of its nodes are
  in \<open>B\<close>, the nodes the walks reach are not, and a right sibling just past the end is.
\<close>

definition frontier :: "nat set \<Rightarrow> nat \<Rightarrow> nat \<Rightarrow> nat \<Rightarrow> bool" where
  "frontier B lo hi n \<longleftrightarrow>
     hi \<le> n \<and> hi div 2 \<le> lo \<and>
     (\<forall>i c. lo \<le> i \<longrightarrow> i < hi \<longrightarrow> c < n \<longrightarrow> 0 < c \<longrightarrow> parent c = i \<longrightarrow> c \<in> B) \<and>
     (\<forall>i t. lo \<le> i \<longrightarrow> i < hi \<longrightarrow> 2 ^ t dvd Suc i \<longrightarrow> i div 2 ^ t \<notin> B) \<and>
     (\<forall>u. hi div 2 ^ u < n \<longrightarrow> 0 < hi div 2 ^ u \<longrightarrow> even (hi div 2 ^ u) \<longrightarrow> hi div 2 ^ u \<in> B)"

definition walk_set :: "nat set \<Rightarrow> nat \<Rightarrow> nat \<Rightarrow> nat \<Rightarrow> nat set" where
  "walk_set B hi i t = B \<union> above (Suc i) hi \<union> {i div 2 ^ u | u. u < t}"

lemma walk_set_Suc: "insert (i div 2 ^ t) (walk_set B hi i t) = walk_set B hi i (Suc t)"
  by (auto simp: walk_set_def less_Suc_eq)

lemma walk_set_0 [simp]: "walk_set B hi i 0 = B \<union> above (Suc i) hi"
  by (simp add: walk_set_def)

lemma walk_set_done:
  assumes "i < hi" and "2 ^ t dvd Suc i" and "even (i div 2 ^ t)"
  shows "walk_set B hi i (Suc t) = B \<union> above i hi"
  unfolding walk_set_def above_step [OF assms] by (auto simp: less_Suc_eq_le)

lemma walk_new:
  assumes f: "frontier B lo hi n" and i: "lo \<le> i" "i < hi" and t: "2 ^ t dvd Suc i"
  shows "i div 2 ^ t \<notin> walk_set B hi i t"
proof -
  have "i div 2 ^ t \<notin> B" using f i t by (simp add: frontier_def)
  moreover have "i div 2 ^ t \<noteq> i div 2 ^ u" if "u < t" for u
  proof
    assume eq: "i div 2 ^ t = i div 2 ^ u"
    have "Suc (i div 2 ^ t) * 2 ^ (t - u) = Suc (i div 2 ^ u)"
    proof -
      have "Suc (i div 2 ^ t) * 2 ^ t = Suc i" "Suc (i div 2 ^ u) * 2 ^ u = Suc i"
        using ones_Suc_div [OF t] ones_Suc_div [OF ones_le [OF t, of u]] that
          t ones_le [OF t, of u] by (metis dvd_div_mult_self less_imp_le)+
      moreover have "(2 :: nat) ^ t = 2 ^ (t - u) * 2 ^ u" using that by (simp flip: power_add)
      ultimately have "Suc (i div 2 ^ t) * 2 ^ (t - u) * 2 ^ u = Suc (i div 2 ^ u) * 2 ^ u"
        by (metis mult.assoc)
      then show ?thesis by (simp only: mult_cancel2) simp
    qed
    then have "Suc (i div 2 ^ u) * 2 ^ (t - u) = Suc (i div 2 ^ u) * 1" unfolding eq by simp
    then have "(2 :: nat) ^ (t - u) = 1" by (metis mult_cancel1 nat.distinct(1))
    then show False using that by simp
  qed
  moreover have "i div 2 ^ t \<notin> above (Suc i) hi"
  proof
    assume "i div 2 ^ t \<in> above (Suc i) hi"
    then obtain u where u: "Suc i div 2 ^ u \<le> i div 2 ^ t" "i div 2 ^ t < hi div 2 ^ u" by (auto simp: above_def)
    show False
    proof (cases "u \<le> t")
      case True
      have "i div 2 ^ t \<le> i div 2 ^ u" using True by (simp add: div_le_mono2)
      then show False using u(1) ones_Suc_div [OF ones_le [OF t True]] by simp
    next
      case False
      then have "(2 :: nat) ^ u = 2 * 2 ^ (u - 1 - t) * 2 ^ t"
        by (simp flip: power_add power_Suc)
      then have "hi div 2 ^ u = hi div 2 div 2 ^ (u - 1 - t) div 2 ^ t" by (simp add: div_mult2_eq)
      also have "\<dots> \<le> hi div 2 div 2 ^ t" by (intro div_le_mono) simp
      also have "\<dots> \<le> i div 2 ^ t" using f i(1) by (intro div_le_mono) (simp add: frontier_def)
      finally show False using u(2) by simp
    qed
  qed
  ultimately show ?thesis by (auto simp: walk_set_def)
qed

lemma walk_children:
  assumes f: "frontier B lo hi n" and i: "lo \<le> i" "i < hi" and t: "2 ^ t dvd Suc i"
    and c: "c < n" "0 < c" "parent c = i div 2 ^ t"
  shows "c \<in> walk_set B hi i t"
proof (cases t)
  case 0
  then show ?thesis using f i c by (simp add: frontier_def)
next
  case (Suc v)
  then have v: "2 ^ v dvd Suc i" using t by (intro ones_le [OF t]) simp
  have odd: "odd (i div 2 ^ v)" using ones_Suc [OF v] t Suc by simp
  have half: "i div 2 ^ t = i div 2 ^ v div 2"
    unfolding Suc power_Suc2 by (rule div_mult2_eq)
  from child_cases [OF c(2,3)] consider "c = i div 2 ^ v" | "c = Suc (i div 2 ^ v)"
    using odd unfolding half by (auto elim!: oddE)
  then show ?thesis
  proof cases
    case 1
    then show ?thesis using Suc by (auto simp: walk_set_def)
  next
    case 2
    then have c': "c = Suc i div 2 ^ v" using ones_Suc_div [OF v] by simp
    then have "c \<le> hi div 2 ^ v" using i(2) by (simp add: div_le_mono)
    then consider "c < hi div 2 ^ v" | "c = hi div 2 ^ v" by linarith
    then show ?thesis
    proof cases
      case 1
      then show ?thesis using c' by (auto simp: walk_set_def above_def)
    next
      case 2
      moreover have "even c" using \<open>c = Suc (i div 2 ^ v)\<close> odd by simp
      ultimately show ?thesis using f c(1,2) by (auto simp: frontier_def walk_set_def)
    qed
  qed
qed

context heap_cmp
begin

lemma sift_inv:
  assumes inv: "heap_inv less s0 D s" and ok: "\<forall>x \<in> set (items s0). ok x"
    and r: "r < length (items s0)" "r \<notin> D"
    and kids: "\<And>c. c < length (items s0) \<Longrightarrow> 0 < c \<Longrightarrow> parent c = r \<Longrightarrow> c \<in> D"
  shows "wp (siftup lt r) (\<lambda>_. heap_inv less s0 (insert r D)) (\<lambda>_ _. False) s"
proof -
  have s: "wf_list (fst s)" "snd s = snd s0" "mset (items s) = mset (items s0)"
    "closed_set D (length (items s0))" "\<forall>x \<in> D. subheap less x (items s)"
    using inv by (simp_all add: heap_inv_def)
  have len: "length (items s) = length (items s0)" using s(3) mset_eq_length by blast
  have oks: "\<forall>x \<in> set (items s). ok x" using ok s(3) by (metis set_mset_mset)
  have kids': "subheap less c (items s)" if "c < length (items s)" "0 < c" "parent c = r" for c
    using kids s(5) that len by simp
  have r': "r < length (items s)" using r(1) len by simp
  show ?thesis
  proof (rule wp_mono [OF siftup_correct [OF s(1) r' oks kids']], goal_cases)
    case (4 _ t)
    then have t: "wf_list (fst t)" "snd t = snd s" "sifted r (items s) (items t)" "subheap less r (items t)" by simp_all
    have "subheap less x (items t)" if x: "x \<in> D" for x
    proof (cases "in_sub r x")
      case True
      then show ?thesis by (rule subheap_sub [OF t(4)])
    next
      case False
      have "\<not> in_sub x r" using closed_setD [OF s(4) x, of r] r by blast
      then show ?thesis using subheap_sifted [OF _ t(3) False] s(5) x by blast
    qed
    moreover have "closed_set (insert r D) (length (items s0))"
      using s(4) kids by (auto simp: closed_set_def)
    ultimately show ?case using t s by (simp add: heap_inv_def sifted_def)
  qed simp_all
qed

lemma walk_inv:
  assumes f: "frontier B lo hi (length (items s0))" and ok: "\<forall>x \<in> set (items s0). ok x"
    and i: "lo \<le> i" "i < hi" and t: "2 ^ t dvd Suc i"
    and inv: "heap_inv less s0 (walk_set B hi i t) s"
  shows "wp (heapify_walk (siftup lt) (i div 2 ^ t)) (\<lambda>_. heap_inv less s0 (B \<union> above i hi)) (\<lambda>_ _. False) s"
  using t inv
proof (induction "i div 2 ^ t" arbitrary: t s rule: less_induct)
  case less
  let ?j = "i div 2 ^ t"
  have "?j \<le> i" by simp
  also have "i < length (items s0)" using i(2) f by (simp add: frontier_def)
  finally have j: "?j < length (items s0)" .
  show ?case
  proof (subst heapify_walk.simps, simp only: wp_sbind,
      rule wp_mono [OF sift_inv [OF less.prems(2) ok j walk_new [OF f i less.prems(1)] walk_children [OF f i less.prems(1)]]],
      goal_cases)
    case (4 _ u)
    then have u: "heap_inv less s0 (walk_set B hi i (Suc t)) u" by (simp add: walk_set_Suc)
    show ?case
    proof (cases "odd ?j")
      case True
      then have d: "2 ^ Suc t dvd Suc i" using ones_Suc [OF less.prems(1)] by simp
      have half: "?j div 2 = i div 2 ^ Suc t"
        unfolding power_Suc2 by (rule div_mult2_eq [symmetric])
      have "i div 2 ^ Suc t < ?j" using True unfolding half [symmetric] by (auto elim!: oddE)
      from less.hyps [OF this d u] show ?thesis using True by (simp only: half if_True not_False_eq_True)
    next
      case False
      then show ?thesis using u walk_set_done [OF i(2) less.prems(1)] by simp
    qed
  qed simp_all
qed

lemma rows_inv:
  assumes f: "frontier B lo hi (length (items s0))" and ok: "\<forall>x \<in> set (items s0). ok x" and k: "lo + k \<le> hi"
    and inv: "heap_inv less s0 (B \<union> above (lo + k) hi) s"
  shows "wp (heapify_rows (heapify_walk (siftup lt)) lo k) (\<lambda>_. heap_inv less s0 (B \<union> above lo hi)) (\<lambda>_ _. False) s"
  using k inv
proof (induction k arbitrary: s)
  case (Suc k)
  have "wp (heapify_walk (siftup lt) (lo + k)) (\<lambda>_. heap_inv less s0 (B \<union> above (lo + k) hi)) (\<lambda>_ _. False) s"
    using walk_inv [OF f ok, of "lo + k" 0] Suc.prems by simp
  then show ?case
    by (simp, elim wp_mono) (use Suc.IH Suc.prems(1) in simp_all)
qed simp

lemma plain_rows_inv:
  assumes ok: "\<forall>x \<in> set (items s0). ok x" and k: "k \<le> length (items s0)"
    and inv: "heap_inv less s0 {k..} s"
  shows "wp (heapify_rows (siftup lt) 0 k) (\<lambda>_. heap_inv less s0 {0..}) (\<lambda>_ _. False) s"
  using k inv
proof (induction k arbitrary: s)
  case (Suc k)
  have "insert k {Suc k..} = {k..}" by auto
  moreover have "c \<in> {Suc k..}" if "0 < c" "parent c = k" for c using parent_less [OF that(1)] that(2) by simp
  ultimately have "wp (siftup lt k) (\<lambda>_. heap_inv less s0 {k..}) (\<lambda>_ _. False) s"
    using sift_inv [OF Suc.prems(2) ok, of k] Suc.prems(1) by simp
  then show ?case
    by (simp, elim wp_mono) (use Suc in simp_all)
qed simp

lemma heapify_start:
  assumes "wf_list (fst s)"
  shows "heap_inv less s {length (items s) div 2..} s"
proof -
  have "subheap less x (items s)" if x: "length (items s) div 2 \<le> x" for x
    unfolding subheap_def
  proof (intro allI impI)
    fix i
    assume i: "i < length (items s)" "in_sub x i" "i \<noteq> x"
    obtain c where c: "0 < c" "parent c = x" "in_sub c i" using in_sub_under_child [OF i(2,3)] by blast
    have "c \<le> i" using in_sub_le [OF c(3)] .
    then have False using child_cases [OF c(1,2)] x i(1) by (elim disjE) linarith+
    then show "edge_ok less (items s) i" by simp
  qed
  moreover have "closed_set {length (items s) div 2..} (length (items s))"
    using parent_less by (auto simp: closed_set_def intro: le_trans less_imp_le)
  ultimately show ?thesis using assms by (simp add: heap_inv_def)
qed

lemma cache_friendly_correct:
  assumes wf: "wf_list (fst s)" and ok: "\<forall>x \<in> set (items s). ok x" and n: "2 \<le> length (items s)"
  shows "wp (cache_friendly_heapify (siftup lt))
    (\<lambda>_ t. wf_list (fst t) \<and> snd t = snd s \<and> mset (items t) = mset (items s) \<and> is_heap less (items t))
    (\<lambda>_ _. False) s"
proof -
  let ?n = "length (items s)" and ?m = "length (items s) div 2"
  obtain k where k: "2 ^ k \<le> ?m + 1" "?m + 1 < 2 ^ (k + 1)" "keep_top_bit (?m + 1) = 2 ^ k"
    using keep_top_bit_loop [of "?m + 1" 0] unfolding keep_top_bit_def by auto
  define lm where "lm = 2 ^ k - (1 :: nat)"
  define mh where "mh = ?m div 2"
  have k0: "0 < k" using k(2) n by (cases k) auto
  then obtain k' where k': "k = Suc k'" by (cases k) auto
  have two: "2 ^ k = 2 * (2 :: nat) ^ k'" by (simp add: k')
  have lm: "lm \<le> ?m" "?m \<le> 2 * lm" "mh \<le> lm" "lm div 2 \<le> mh"
    using k(1,2) two by (auto simp: lm_def mh_def)
  have lm_div: "lm div 2 ^ u = 2 ^ (k - u) - 1" for u
  proof (cases "u \<le> k")
    case True
    then have eq: "(2 :: nat) ^ u * 2 ^ (k - u) = 2 ^ k" by (simp flip: power_add)
    show ?thesis
    proof (rule div_nat_eqI)
      show "2 ^ u * (2 ^ (k - u) - 1) \<le> lm" unfolding lm_def diff_mult_distrib2 eq by (simp add: diff_le_mono2)
      show "lm < 2 ^ u * Suc (2 ^ (k - u) - 1)" using eq by (simp add: lm_def)
    qed
  next
    case False
    have "lm < 2 ^ k" by (simp add: lm_def)
    also have "\<dots> \<le> 2 ^ u" using False by (intro power_increasing) simp_all
    finally show ?thesis using False by simp
  qed
  have lm_odd: "odd (lm div 2 ^ u)" if "0 < lm div 2 ^ u" for u
    using that unfolding lm_div by (cases "k - u") auto
  let ?B1 = "{?m..}"
  have f1: "frontier ?B1 mh lm ?n"
    unfolding frontier_def
  proof (intro conjI allI impI)
    fix i c assume i: "mh \<le> i" "i < lm" "c < ?n" "0 < c" "parent c = i"
    show "c \<in> ?B1" using child_cases [OF i(4,5)] i(1) by (auto simp: mh_def)
  next
    fix i t :: nat assume i: "mh \<le> i" "i < lm" "2 ^ t dvd Suc i"
    have "i div 2 ^ t < ?m" using div_le_dividend [of i "2 ^ t"] i(2) lm(1) by linarith
    then show "i div 2 ^ t \<notin> ?B1" by simp
  next
    fix u assume "lm div 2 ^ u < ?n" "0 < lm div 2 ^ u" "even (lm div 2 ^ u)"
    then show "lm div 2 ^ u \<in> ?B1" using lm_odd by blast
  qed (use lm in simp_all)
  let ?B2 = "?B1 \<union> above mh lm"
  have f2: "frontier ?B2 lm ?m ?n"
    unfolding frontier_def
  proof (intro conjI allI impI)
    fix i c assume i: "lm \<le> i" "i < ?m" "c < ?n" "0 < c" "parent c = i"
    show "c \<in> ?B2" using child_cases [OF i(4,5)] i(1) lm(2) by auto
  next
    fix i t :: nat assume i: "lm \<le> i" "i < ?m" "2 ^ t dvd Suc i"
    have "i div 2 ^ t < ?m" using div_le_dividend [of i "2 ^ t"] i(2) by linarith
    then have "i div 2 ^ t \<notin> ?B1" by simp
    moreover have "i div 2 ^ t \<notin> above mh lm"
    proof
      assume "i div 2 ^ t \<in> above mh lm"
      then obtain u where u: "mh div 2 ^ u \<le> i div 2 ^ t" "i div 2 ^ t < lm div 2 ^ u" by (auto simp: above_def)
      have mh: "mh div 2 ^ u = ?m div 2 ^ Suc u" unfolding mh_def power_Suc by (rule div_mult2_eq [symmetric])
      have "u < t"
      proof (rule ccontr)
        assume "\<not> u < t"
        then have "lm div 2 ^ u \<le> lm div 2 ^ t" by (intro div_le_mono2) simp_all
        also have "\<dots> \<le> i div 2 ^ t" using i(1) by (rule div_le_mono)
        finally show False using u(2) by simp
      qed
      have d: "2 ^ Suc u dvd Suc i" using \<open>u < t\<close> by (intro ones_le [OF i(3)]) simp
      have "i div 2 ^ t \<le> i div 2 ^ Suc u" using \<open>u < t\<close> by (intro div_le_mono2 power_increasing) simp_all
      moreover have "Suc (i div 2 ^ Suc u) = Suc i div 2 ^ Suc u" using ones_Suc_div [OF d] by simp
      moreover have "Suc i div 2 ^ Suc u \<le> ?m div 2 ^ Suc u" using i(2) by (intro div_le_mono) simp
      ultimately show False using u(1) mh by simp
    qed
    ultimately show "i div 2 ^ t \<notin> ?B2" by simp
  next
    fix u assume u: "?m div 2 ^ u < ?n" "0 < ?m div 2 ^ u" "even (?m div 2 ^ u)"
    show "?m div 2 ^ u \<in> ?B2"
    proof (cases u)
      case (Suc v)
      have mh: "mh div 2 ^ v = ?m div 2 ^ u" unfolding Suc mh_def power_Suc by (rule div_mult2_eq [symmetric])
      have "mh div 2 ^ v \<le> lm div 2 ^ v" using lm(3) by (rule div_le_mono)
      moreover have "mh div 2 ^ v \<noteq> lm div 2 ^ v" using lm_odd [of v] u mh by auto
      ultimately have "?m div 2 ^ u \<in> above mh lm"
        unfolding above_def mh [symmetric] by auto
      then show ?thesis by simp
    qed simp
  qed (use lm in \<open>simp_all add: mh_def\<close>)
  have root: "0 \<in> ?B2 \<union> above lm ?m"
  proof (cases "2 ^ k \<le> ?m")
    case True
    then have "lm div 2 ^ k = 0 \<and> 0 < ?m div 2 ^ k" by (simp add: lm_def div_greater_zero_iff)
    then have "0 \<in> above lm ?m" unfolding above_def by (intro CollectI exI [of _ k]) simp
    then show ?thesis by simp
  next
    case False
    then have "?m = lm" using lm(1) by (simp add: lm_def)
    then have "mh = 2 ^ k' - 1" using two by (simp add: mh_def lm_def)
    then have "mh div 2 ^ k' = 0" by simp
    moreover have "0 < lm div 2 ^ k'" unfolding lm_div by (simp add: k')
    ultimately have "0 \<in> above mh lm" unfolding above_def by (intro CollectI exI [of _ k']) simp
    then show ?thesis by simp
  qed
  have r1: "wp (heapify_rows (heapify_walk (siftup lt)) mh (lm - mh)) (\<lambda>_. heap_inv less s ?B2) (\<lambda>_ _. False) s"
    using rows_inv [OF f1 ok, of "lm - mh" s] heapify_start [OF wf] lm(3) by simp
  have r2: "wp (heapify_rows (heapify_walk (siftup lt)) lm (?m - lm)) (\<lambda>_. heap_inv less s (?B2 \<union> above lm ?m)) (\<lambda>_ _. False) t"
    if "heap_inv less s ?B2 t" for t
    using rows_inv [OF f2 ok, of "?m - lm" t] that lm(1) by simp
  have fin: "wf_list (fst t) \<and> snd t = snd s \<and> mset (items t) = mset (items s) \<and> is_heap less (items t)"
    if "heap_inv less s (?B2 \<union> above lm ?m) t" for t
    using that root subheap_0 [of less "items t"] by (auto simp: heap_inv_def)
  have "wp (heapify_rows (heapify_walk (siftup lt)) mh (lm - mh)) (\<lambda>_.
      wp (heapify_rows (heapify_walk (siftup lt)) lm (?m - lm))
        (\<lambda>_ t. wf_list (fst t) \<and> snd t = snd s \<and> mset (items t) = mset (items s) \<and> is_heap less (items t))
        (\<lambda>_ _. False)) (\<lambda>_ _. False) s"
    by (rule wp_mono [OF r1]) (use wp_mono [OF r2] fin in auto)
  then show ?thesis
    unfolding cache_friendly_heapify_def wp_sbind wp_heap_size [OF wf] Let_def k(3) lm_def mh_def .
qed

theorem heapify_correct:
  assumes wf: "wf_list (fst s)" and ok: "\<forall>x \<in> set (items s). ok x"
  shows "wp (heapify lt)
    (\<lambda>_ t. wf_list (fst t) \<and> snd t = snd s \<and> mset (items t) = mset (items s) \<and> is_heap less (items t))
    (\<lambda>_ _. False) s"
proof (cases "length (items s) > 2500")
  case True
  then show ?thesis
    using cache_friendly_correct [OF wf ok] unfolding heapify_def heapify_internal_def wp_sbind wp_heap_size [OF wf]
    by simp
next
  case False
  have "wp (heapify_rows (siftup lt) 0 (length (items s) div 2)) (\<lambda>_. heap_inv less s {0..}) (\<lambda>_ _. False) s"
    by (rule plain_rows_inv [OF ok _ heapify_start [OF wf]]) simp
  then have "wp (heapify_rows (siftup lt) 0 (length (items s) div 2))
    (\<lambda>_ t. wf_list (fst t) \<and> snd t = snd s \<and> mset (items t) = mset (items s) \<and> is_heap less (items t))
    (\<lambda>_ _. False) s"
    by (rule wp_mono) (auto simp: heap_inv_def simp flip: subheap_0)
  then show ?thesis
    using False unfolding heapify_def heapify_internal_def wp_sbind wp_heap_size [OF wf] by simp
qed

end

section \<open>The priority queue interface\<close>

text \<open>
  What a priority queue promises in terms of the multiset of its contents; \<open>ok\<close> restricts the
  items, \<open>le\<close> is the order \<open>pop\<close> follows. The client empties a queue.
\<close>

fun drain :: "('s, 'a) py \<Rightarrow> nat \<Rightarrow> ('s, 'a list) py" where
  "drain pop 0 = sret []"
| "drain pop (Suc n) = sbind pop (\<lambda>x. sbind (drain pop n) (\<lambda>xs. sret (x # xs)))"

locale priority_queue =
  fixes push :: "'a \<Rightarrow> ('s, unit) py"
    and pop :: "('s, 'a) py"
    and contents :: "'s \<Rightarrow> 'a multiset"
    and invar :: "'s \<Rightarrow> bool"
    and le :: "'a \<Rightarrow> 'a \<Rightarrow> bool"
    and ok :: "'a \<Rightarrow> bool"
  assumes push_law: "invar s \<Longrightarrow> ok x \<Longrightarrow>
      wp (push x) (\<lambda>_ t. invar t \<and> contents t = add_mset x (contents s)) (\<lambda>e t. e = MemoryError \<and> t = s) s"
    and pop_law: "invar s \<Longrightarrow>
      wp pop (\<lambda>x t. invar t \<and> add_mset x (contents t) = contents s \<and> (\<forall>y \<in># contents s. le x y))
        (\<lambda>e t. e = IndexError \<and> t = s \<and> contents s = {#}) s"
begin

lemma pop_total: "invar s \<Longrightarrow> contents s \<noteq> {#} \<Longrightarrow>
    wp pop (\<lambda>x t. invar t \<and> add_mset x (contents t) = contents s \<and> (\<forall>y \<in># contents s. le x y)) E s"
  using wp_mono [OF pop_law] by simp

lemma drain_sorted:
  "invar s \<Longrightarrow> n = size (contents s) \<Longrightarrow>
   wp (drain pop n) (\<lambda>xs t. invar t \<and> contents t = {#} \<and> mset xs = contents s \<and> sorted_wrt le xs) (\<lambda>_ _. False) s"
proof (induction n arbitrary: s)
  case (Suc n)
  then have "contents s \<noteq> {#}" by auto
  note p = pop_total [OF Suc.prems(1) this]
  show ?case
  proof (simp, rule wp_mono [OF p], goal_cases)
    case (1 x t)
    then have t: "invar t" "add_mset x (contents t) = contents s" "\<forall>y \<in># contents s. le x y" by simp_all
    then have n: "n = size (contents t)" using Suc.prems(2) by (metis size_add_mset Suc_inject)
    have le: "\<forall>y \<in># contents t. le x y" using t(3) unfolding t(2) [symmetric] by simp
    show ?case
      unfolding wp_sbind wp_sret
    proof (rule wp_mono [OF Suc.IH [OF t(1) n]], goal_cases)
      case (1 xs u)
      then have "set xs = set_mset (contents t)" by (metis set_mset_mset)
      then show ?case using 1 le t(2) by simp
    qed
  qed simp
qed simp

text \<open>An item pushed into an empty queue is the one popped next.\<close>

lemma push_pop:
  assumes "invar s" and "ok x" and "contents s = {#}"
  shows "wp (sbind (push x) (\<lambda>_. pop)) (\<lambda>y t. y = x \<and> contents t = {#}) (\<lambda>e t. e = MemoryError \<and> t = s) s"
  unfolding wp_sbind
proof (rule wp_mono [OF push_law [OF assms(1,2)]], goal_cases)
  case (1 _ t)
  then have t: "invar t" "contents t = {#x#}" using assms(3) by simp_all
  show ?case by (rule wp_mono [OF pop_total [OF t(1)]]) (use t(2) in \<open>auto simp: add_mset_eq_single\<close>)
qed simp

end

text \<open>A list with the heap property is a priority queue.\<close>

definition heap_ok :: "('a \<Rightarrow> 'a \<Rightarrow> bool) \<Rightarrow> ('a \<Rightarrow> bool) \<Rightarrow> ('a, 'w) heapst \<Rightarrow> bool" where
  "heap_ok ls ok s \<longleftrightarrow> wf_list (fst s) \<and> (\<forall>x \<in> set (items s). ok x) \<and> is_heap ls (items s)"

context heap_cmp
begin

sublocale queue: priority_queue "heappush lt" "heappop lt" "\<lambda>s. mset (items s)" "heap_ok less ok"
  "\<lambda>x y. \<not> less y x" ok
proof (unfold_locales, goal_cases)
  case (1 s x)
  then have s: "wf_list (fst s)" "\<forall>x \<in> set (items s). ok x" "ok x" "is_heap less (items s)"
    by (simp_all add: heap_ok_def)
  show ?case
  proof (rule wp_mono [OF heappush_correct [OF s]], goal_cases)
    case (1 _ t)
    then have "set (items t) = insert x (set (items s))" by (metis set_mset_add_mset_insert set_mset_mset)
    then show ?case using 1 s by (simp add: heap_ok_def)
  qed simp
next
  case (2 s)
  then have s: "wf_list (fst s)" "\<forall>x \<in> set (items s). ok x" "is_heap less (items s)"
    by (simp_all add: heap_ok_def)
  show ?case
  proof (rule wp_mono [OF heappop_correct [OF s]], goal_cases)
    case (1 r t)
    then have "set (items t) \<subseteq> set (items s)" by (metis set_mset_add_mset_insert set_mset_mset subset_insertI)
    then show ?case using 1 s heap_min [OF s(3)] by (auto simp: heap_ok_def)
  qed simp
qed

end

context heap_cmp
begin

lemma heappop_queue:
  "heap_ok less ok s \<Longrightarrow> wp (heappop lt)
    (\<lambda>r t. heap_ok less ok t \<and> add_mset r (mset (items t)) = mset (items s) \<and> (\<forall>y \<in> set (items s). \<not> less y r))
    (\<lambda>e t. e = IndexError \<and> t = s \<and> items s = []) s"
  by (rule wp_mono [OF queue.pop_law]) auto

lemma heapsort_correct:
  assumes "wf_list (fst s)" and "\<forall>x \<in> set (items s). ok x"
  shows "wp (sbind (heapify lt) (\<lambda>_. drain (heappop lt) (length (items s))))
    (\<lambda>xs t. mset xs = mset (items s) \<and> sorted_wrt (\<lambda>x y. \<not> less y x) xs \<and> items t = []) (\<lambda>_ _. False) s"
  unfolding wp_sbind
proof (rule wp_mono [OF heapify_correct [OF assms]], goal_cases)
  case (1 _ t)
  then have t: "wf_list (fst t)" "mset (items t) = mset (items s)" "is_heap less (items t)" by simp_all
  moreover from t(2) have "set (items t) = set (items s)" by (metis set_mset_mset)
  ultimately have ok: "heap_ok less ok t" using assms(2) by (simp add: heap_ok_def)
  have n: "length (items s) = size (mset (items t))" using t(2) by (metis size_mset)
  show ?case by (rule wp_mono [OF queue.drain_sorted [OF ok n]]) (use t(2) in auto)
qed simp

end

text \<open>Integer objects.\<close>

interpretation int_heap: heap_cmp obj_lt "\<lambda>v w. obj_val v < obj_val w" is_long
  by unfold_locales

section \<open>Properties\<close>

definition result_ok :: "('a, 'w) heapst \<times> 'r pyres \<Rightarrow> bool" where
  "result_ok r \<longleftrightarrow> wf_list (fst (fst r)) \<and> snd r \<noteq> Inl AssertionFailed"

lemma safe_result: "safe m \<Longrightarrow> wf_list (fst s) \<Longrightarrow> result_ok (m s)"
  using wp_result [OF safeD] by (fastforce simp: result_ok_def)

text \<open>Sample states: the heap 5, 12, 7 of integer objects, and a list of numbers.\<close>

abbreviation sample_heap :: "(pyobj, unit) heapst" where
  "sample_heap \<equiv> (list_of [int_obj 5, int_obj 12, int_obj 7], ())"

lemma sample_heap: "heap_ok (\<lambda>v w. obj_val v < obj_val w) is_long sample_heap"
  by (auto simp: heap_ok_def is_heap_def edge_ok_def parent_def less_Suc_eq numeral_3_eq_3)

text \<open>
  C16: Memory safety of the heap operations under any comparison. A comparison may run arbitrary
  code: it may raise, and it may change the list in any way, its size included, as long as it
  leaves a well-formed list. No operation then reads a slot outside the list or a slot that
  holds nothing, or writes outside the array, and each leaves a well-formed list, whether it
  returns or raises.
\<close>

theorem heapq_memory_safe:
  assumes "cmp_safe lt" and "wf_list (fst s)"
  shows "result_ok (heappush lt x s) \<and> result_ok (heappop lt s) \<and> result_ok (heapreplace lt x s) \<and>
    result_ok (heappushpop lt x s) \<and> result_ok (heapify lt s) \<and>
    result_ok (heappop_max lt s) \<and> result_ok (heapreplace_max lt x s) \<and> result_ok (heapify_max lt s)"
proof -
  note su = siftup_safe [OF assms(1)] and sm = siftup_safe [OF cmp_safe_flip [OF assms(1)]]
  show ?thesis
    unfolding max_variants heappop_def heapreplace_def heapify_def
    by (intro conjI safe_result [OF _ assms(2)] heappush_safe heappop_internal_safe heapreplace_internal_safe
        heappushpop_safe heapify_internal_safe su sm assms(1))
qed

text \<open>A comparison that empties the list behind the operation's back.\<close>

definition clearing_lt :: "('a, 'w) hcmp" where
  "clearing_lt a b = (\<lambda>s. ((\<lparr>list_size = 0, ob_item = None, allocated = 0\<rparr>, snd s), Inr True))"

lemma heapq_memory_safe_witness:
  "result_ok (heappop clearing_lt (list_of [3, 1, 2 :: nat], ())) \<and>
   snd (heappush clearing_lt 0 (list_of [3, 1, 2 :: nat], ())) = Inl RuntimeError"
proof -
  have "cmp_safe (clearing_lt :: (nat, unit) hcmp)"
    by (simp add: cmp_safe_def wp_def clearing_lt_def)
  from heapq_memory_safe [OF this, of "(list_of [3, 1, 2], ())"]
  have "result_ok (heappop clearing_lt (list_of [3, 1, 2 :: nat], ()))" by simp
  then show ?thesis by (code_simp)
qed

text \<open>
  C17: \<open>heapify\<close> turns any list into a heap with the same items, whether it takes the simple
  traversal or, above 2500 items, the cache-friendly one; with a comparison that is a strict
  weak order it does not fail.
\<close>

theorem heapify_makes_heap:
  assumes "heap_cmp lt ls ok" and "wf_list (fst s)" and "\<forall>x \<in> set (items s). ok x"
  shows "\<exists>t. heapify lt s = (t, Inr ()) \<and> wf_list (fst t) \<and> is_heap ls (items t) \<and>
    mset (items t) = mset (items s)"
  using wp_total [OF heap_cmp.heapify_correct [OF assms]] by fastforce

lemma heapify_makes_heap_witness:
  "\<exists>t. heapify obj_lt (list_of [int_obj 12, int_obj 7, int_obj 5], ()) = (t, Inr ()) \<and>
    is_heap (\<lambda>v w. obj_val v < obj_val w) (items t)"
  using heapify_makes_heap [OF int_heap.heap_cmp_axioms, of "(list_of [int_obj 12, int_obj 7, int_obj 5], ())"]
  by auto

text \<open>
  The cache-friendly traversal establishes the heap property by itself, for a list of any
  length of at least two: it sifts every inner node after its children and each exactly once.
\<close>

theorem cache_friendly_heapify_makes_heap:
  assumes "heap_cmp lt ls ok" and "wf_list (fst s)" and "\<forall>x \<in> set (items s). ok x" and "2 \<le> length (items s)"
  shows "\<exists>t. cache_friendly_heapify (siftup lt) s = (t, Inr ()) \<and> is_heap ls (items t) \<and>
    mset (items t) = mset (items s)"
  using wp_total [OF heap_cmp.cache_friendly_correct [OF assms]] by fastforce

lemma cache_friendly_heapify_makes_heap_witness:
  "\<exists>t. cache_friendly_heapify (siftup obj_lt) (list_of [int_obj 12, int_obj 7, int_obj 5], ()) = (t, Inr ()) \<and>
    is_heap (\<lambda>v w. obj_val v < obj_val w) (items t)"
  using cache_friendly_heapify_makes_heap [OF int_heap.heap_cmp_axioms, of "(list_of [int_obj 12, int_obj 7, int_obj 5], ())"]
  by auto

text \<open>
  C18: \<open>heappop\<close> on a heap returns an item that no other is smaller than, removes exactly that
  item and leaves a heap; on an empty list it raises \<open>IndexError\<close> and changes nothing.
\<close>

theorem heappop_returns_minimum:
  assumes "heap_cmp lt ls ok" and "heap_ok ls ok s"
  shows "case heappop lt s of
      (t, Inr r) \<Rightarrow> heap_ok ls ok t \<and> add_mset r (mset (items t)) = mset (items s) \<and>
        (\<forall>y \<in> set (items s). \<not> ls y r)
    | (t, Inl e) \<Rightarrow> e = IndexError \<and> t = s \<and> items s = []"
  using wp_result [OF heap_cmp.heappop_queue [OF assms]] by fastforce

lemma heappop_returns_minimum_witness:
  "case heappop obj_lt sample_heap of
      (t, Inr r) \<Rightarrow> mset (items t) + {#r#} = {#int_obj 5, int_obj 12, int_obj 7#}
    | (t, Inl e) \<Rightarrow> False"
  using heappop_returns_minimum [OF int_heap.heap_cmp_axioms sample_heap]
  by (auto split: prod.splits sum.splits)

text \<open>A comparison with its arguments exchanged meets the contract for the converse order.\<close>

lemma heap_cmp_flip: "heap_cmp lt ls ok \<Longrightarrow> heap_cmp (flip_cmp lt) (\<lambda>a b. ls b a) ok"
  unfolding heap_cmp_def comparison_def flip_cmp_def by blast

context heap_cmp
begin

lemma heap_ok_same_items:
  "heap_ok less ok s \<Longrightarrow> ok x \<Longrightarrow> wf_list (fst t) \<Longrightarrow> is_heap less (items t) \<Longrightarrow>
   set (items t) \<subseteq> insert x (set (items s)) \<Longrightarrow> heap_ok less ok t"
  unfolding heap_ok_def by blast

lemma heappush_keeps:
  assumes "heap_ok less ok s" and "ok x"
  shows "wp (heappush lt x)
    (\<lambda>_ t. heap_ok less ok t \<and> mset (items t) = add_mset x (mset (items s)))
    (\<lambda>e t. e = MemoryError \<and> t = s) s"
  using queue.push_law [OF assms] .

lemma heapreplace_keeps:
  assumes "heap_ok less ok s" and "ok x"
  shows "wp (heapreplace lt x)
    (\<lambda>r t. heap_ok less ok t \<and> items s \<noteq> [] \<and> r = items s ! 0 \<and>
       add_mset r (mset (items t)) = add_mset x (mset (items s)))
    (\<lambda>e t. e = IndexError \<and> t = s \<and> items s = []) s"
proof -
  have s: "wf_list (fst s)" "\<forall>x \<in> set (items s). ok x" "is_heap less (items s)"
    using assms(1) by (simp_all add: heap_ok_def)
  show ?thesis
  proof (rule wp_mono [OF heapreplace_correct [OF s(1,2) assms(2) s(3)]], goal_cases)
    case (1 r t)
    then have "set (items t) \<subseteq> insert x (set (items s))"
      by (metis set_mset_add_mset_insert set_mset_mset subset_insertI)
    then show ?case using 1 heap_ok_same_items [OF assms] by blast
  qed blast
qed

lemma heappushpop_keeps:
  assumes "heap_ok less ok s" and "ok x"
  shows "wp (heappushpop lt x)
    (\<lambda>r t. heap_ok less ok t \<and> add_mset r (mset (items t)) = add_mset x (mset (items s)) \<and>
       (\<forall>y \<in> insert x (set (items s)). \<not> less y r))
    (\<lambda>_ _. False) s"
proof -
  have s: "wf_list (fst s)" "\<forall>x \<in> set (items s). ok x" "is_heap less (items s)"
    using assms(1) by (simp_all add: heap_ok_def)
  show ?thesis
  proof (rule wp_mono [OF heappushpop_correct [OF s(1,2) assms(2) s(3)]], goal_cases)
    case (1 r t)
    then have "set (items t) \<subseteq> insert x (set (items s))"
      by (metis set_mset_add_mset_insert set_mset_mset subset_insertI)
    then show ?case using 1 heap_ok_same_items [OF assms] by blast
  qed blast
qed

lemma heapify_keeps:
  assumes "wf_list (fst s)" and "\<forall>x \<in> set (items s). ok x"
  shows "wp (heapify lt) (\<lambda>_ t. heap_ok less ok t \<and> mset (items t) = mset (items s)) (\<lambda>_ _. False) s"
proof (rule wp_mono [OF heapify_correct [OF assms]], goal_cases)
  case (1 _ t)
  then have "set (items t) = set (items s)" by (metis set_mset_mset)
  then show ?case using 1 assms(2) by (simp add: heap_ok_def)
qed

end

text \<open>
  C19: Every operation keeps its heap and accounts for every item. On a min-heap, \<open>heappush\<close> adds
  the item (or fails for lack of memory and leaves the list), \<open>heappop\<close> removes a least item and
  \<open>heapreplace\<close> swaps the root for the item (or raise \<open>IndexError\<close> for the empty list, and leave
  it), \<open>heappushpop\<close> returns a least one of the heap and the item; \<open>_heappop_max\<close> and
  \<open>_heapreplace_max\<close> do the same on a max-heap. \<open>heapify\<close> and \<open>_heapify_max\<close> make one or the
  other of any list of the same items.
\<close>

theorem heap_operations_keep_heap:
  assumes "heap_cmp lt ls ok" and "ok x" and "heap_ok ls ok s" and "heap_ok (\<lambda>a b. ls b a) ok m"
    and "wf_list (fst u)" and "\<forall>y \<in> set (items u). ok y"
  shows "(case heappush lt x s of
      (t, Inr _) \<Rightarrow> heap_ok ls ok t \<and> mset (items t) = add_mset x (mset (items s))
    | (t, Inl e) \<Rightarrow> e = MemoryError \<and> t = s) \<and>
    (case heappop lt s of
      (t, Inr r) \<Rightarrow> heap_ok ls ok t \<and> add_mset r (mset (items t)) = mset (items s) \<and>
        (\<forall>y \<in> set (items s). \<not> ls y r)
    | (t, Inl e) \<Rightarrow> e = IndexError \<and> t = s \<and> items s = []) \<and>
    (case heapreplace lt x s of
      (t, Inr r) \<Rightarrow> heap_ok ls ok t \<and> items s \<noteq> [] \<and> r = items s ! 0 \<and>
        add_mset r (mset (items t)) = add_mset x (mset (items s))
    | (t, Inl e) \<Rightarrow> e = IndexError \<and> t = s \<and> items s = []) \<and>
    (\<exists>t r. heappushpop lt x s = (t, Inr r) \<and> heap_ok ls ok t \<and>
      add_mset r (mset (items t)) = add_mset x (mset (items s)) \<and>
      (\<forall>y \<in> insert x (set (items s)). \<not> ls y r)) \<and>
    (\<exists>t. heapify lt u = (t, Inr ()) \<and> heap_ok ls ok t \<and> mset (items t) = mset (items u)) \<and>
    (case heappop_max lt m of
      (t, Inr r) \<Rightarrow> heap_ok (\<lambda>a b. ls b a) ok t \<and> add_mset r (mset (items t)) = mset (items m) \<and>
        (\<forall>y \<in> set (items m). \<not> ls r y)
    | (t, Inl e) \<Rightarrow> e = IndexError \<and> t = m \<and> items m = []) \<and>
    (case heapreplace_max lt x m of
      (t, Inr r) \<Rightarrow> heap_ok (\<lambda>a b. ls b a) ok t \<and> items m \<noteq> [] \<and> r = items m ! 0 \<and>
        add_mset r (mset (items t)) = add_mset x (mset (items m))
    | (t, Inl e) \<Rightarrow> e = IndexError \<and> t = m \<and> items m = []) \<and>
    (\<exists>t. heapify_max lt u = (t, Inr ()) \<and> heap_ok (\<lambda>a b. ls b a) ok t \<and> mset (items t) = mset (items u))"
  (is "?push \<and> ?pop \<and> ?replace \<and> ?pushpop \<and> ?heapify \<and> ?pop_max \<and> ?replace_max \<and> ?heapify_max")
proof -
  note c = assms(1) and d = heap_cmp_flip [OF assms(1)]
  have ?push
    using heap_cmp.heappush_keeps [OF c assms(3,2)] by (simp add: wp_case)
  moreover have ?pop and ?pop_max
    using heap_cmp.heappop_queue [OF c assms(3)] heap_cmp.heappop_queue [OF d assms(4)]
    by (simp_all add: wp_case max_variants)
  moreover have ?replace and ?replace_max
    using heap_cmp.heapreplace_keeps [OF c assms(3,2)] heap_cmp.heapreplace_keeps [OF d assms(4,2)]
    by (simp_all add: wp_case max_variants)
  moreover have ?pushpop
    using wp_total [OF heap_cmp.heappushpop_keeps [OF c assms(3,2)]] by blast
  moreover have ?heapify and ?heapify_max
    using wp_total [OF heap_cmp.heapify_keeps [OF c assms(5,6)]]
      wp_total [OF heap_cmp.heapify_keeps [OF d assms(5,6)]] by (auto simp: max_variants)
  ultimately show ?thesis by blast
qed

text \<open>The max-heap 12, 5, 7, and a list of the same items in no order.\<close>

abbreviation sample_max_heap :: "(pyobj, unit) heapst" where
  "sample_max_heap \<equiv> (list_of [int_obj 12, int_obj 5, int_obj 7], ())"

lemma sample_max_heap: "heap_ok (\<lambda>v w. obj_val w < obj_val v) is_long sample_max_heap"
  by (auto simp: heap_ok_def is_heap_def edge_ok_def parent_def less_Suc_eq numeral_3_eq_3)

lemma heap_operations_keep_heap_witness:
  "(\<exists>t r. heappushpop obj_lt (int_obj 9) sample_heap = (t, Inr r) \<and>
      heap_ok (\<lambda>v w. obj_val v < obj_val w) is_long t) \<and>
   (\<exists>t. heapify_max obj_lt sample_heap = (t, Inr ()) \<and> heap_ok (\<lambda>v w. obj_val w < obj_val v) is_long t)"
  using heap_operations_keep_heap [OF int_heap.heap_cmp_axioms _ sample_heap sample_max_heap, of "int_obj 9" sample_heap]
  by auto

text \<open>
  C20: A heap is a priority queue: \<open>heapify\<close> followed by one \<open>heappop\<close> for each item yields the
  items of the list in order, and leaves the list empty. This is the heap sort of the
  documentation, and a refinement of the abstract queue that is a multiset.
\<close>

theorem heapsort_sorts:
  assumes "heap_cmp lt ls ok" and "wf_list (fst s)" and "\<forall>x \<in> set (items s). ok x"
  shows "\<exists>t xs. sbind (heapify lt) (\<lambda>_. drain (heappop lt) (length (items s))) s = (t, Inr xs) \<and>
    mset xs = mset (items s) \<and> sorted_wrt (\<lambda>x y. \<not> ls y x) xs \<and> items t = []"
  using wp_total [OF heap_cmp.heapsort_correct [OF assms]] by blast

lemma heapsort_sorts_witness:
  "\<exists>t xs. sbind (heapify obj_lt) (\<lambda>_. drain (heappop obj_lt) 3) (list_of [int_obj 12, int_obj 7, int_obj 5], ()) = (t, Inr xs) \<and>
    mset xs = {#int_obj 12, int_obj 7, int_obj 5#} \<and> sorted_wrt (\<lambda>x y. obj_val x \<le> obj_val y) xs"
  using heapsort_sorts [OF int_heap.heap_cmp_axioms, of "(list_of [int_obj 12, int_obj 7, int_obj 5], ())"]
  by (auto simp: not_less numeral_3_eq_3)

text \<open>
  The max-heap operations are the min-heap ones with the arguments of the comparison
  exchanged, on every state and for every comparison: also in what they leave behind when the
  comparison raises or changes the list.
\<close>

theorem max_heap_operations_mirror:
  "heappop_max lt = heappop (flip_cmp lt) \<and> heapreplace_max lt x = heapreplace (flip_cmp lt) x \<and>
   heapify_max lt = heapify (flip_cmp lt)"
  by (simp add: max_variants)

end
