(* ===== verification/PyBisect.thy ===== *)
theory PyBisect
  imports PyList PyOrder "HOL-Library.Multiset"
begin

text \<open>
  Bisection (\<open>Modules/_bisectmodule.c\<close>): the two binary searches over any sequence, with an
  optional key function, and the two insertions. Reading an item, the key function and the
  comparison may all run code of the user, so they are parameters that act on the state. The
  first properties hold for all of them; exactness holds for a sorted list object, a key
  without effects and a comparison that is a strict weak order.
\<close>

section \<open>Definitions\<close>

text \<open>The midpoint is computed with unsigned arithmetic and assigned to a \<open>Py_ssize_t\<close>.\<close>

definition bisect_mid :: "int \<Rightarrow> int \<Rightarrow> int" where
  "bisect_mid lo hi = sint ((word_of_int lo + word_of_int hi :: size_t) div 2)"

lemma bisect_mid_eq:
  assumes "0 \<le> lo" and "lo < hi" and "hi \<le> PY_SSIZE_T_MAX"
  shows "bisect_mid lo hi = (lo + hi) div 2"
proof -
  have b: "lo + hi < 2 ^ 64" using assms by (simp add: PY_SSIZE_T_MAX_def)
  have "uint (word_of_int lo + word_of_int hi :: size_t) = lo + hi"
    using assms(1,2) b by (simp add: unsigned_of_int take_bit_int_eq_self flip: of_int_add)
  then have "uint ((word_of_int lo + word_of_int hi :: size_t) div 2) = (lo + hi) div 2"
    by (simp add: uint_div)
  moreover have "(lo + hi) div 2 < 2 ^ 63" using b by simp
  ultimately show ?thesis
    using assms(1,2) by (simp add: bisect_mid_def sint_uint signed_take_bit_int_eq_self_iff)
qed

lemma bisect_mid_bounds:
  assumes "0 \<le> lo" and "lo < hi" and "hi \<le> PY_SSIZE_T_MAX"
  shows "lo \<le> bisect_mid lo hi" and "bisect_mid lo hi < hi"
  using assms(2) by (auto simp: bisect_mid_eq [OF assms])

text \<open>
  The loops. The two bounds in the condition hold for all \<open>Py_ssize_t\<close> that reach them, after the
  check of \<open>lo\<close>; with them the loops are total functions of the integers.
\<close>

function bisect_right_loop ::
    "('a \<Rightarrow> 'k \<Rightarrow> ('s, bool) py) \<Rightarrow> (int \<Rightarrow> ('s, 'i) py) \<Rightarrow> ('i \<Rightarrow> ('s, 'k) py) \<Rightarrow> 'a \<Rightarrow> int \<Rightarrow> int \<Rightarrow> ('s, int) py" where
  "bisect_right_loop lt getitem key item lo hi =
     (if lo < hi \<and> 0 \<le> lo \<and> hi \<le> PY_SSIZE_T_MAX then
        let mid = bisect_mid lo hi
        in sbind (getitem mid) (\<lambda>litem.
           sbind (key litem) (\<lambda>litem.
           sbind (lt item litem) (\<lambda>res.
             if res then bisect_right_loop lt getitem key item lo mid
             else bisect_right_loop lt getitem key item (mid + 1) hi)))
      else sret lo)"
  by pat_completeness auto
termination
  by (relation "measure (\<lambda>(lt, getitem, key, item, lo, hi). nat (hi - lo))")
    (use bisect_mid_bounds in \<open>fastforce simp: zless_nat_eq_int_zless\<close>)+

function bisect_left_loop ::
    "('k \<Rightarrow> 'a \<Rightarrow> ('s, bool) py) \<Rightarrow> (int \<Rightarrow> ('s, 'i) py) \<Rightarrow> ('i \<Rightarrow> ('s, 'k) py) \<Rightarrow> 'a \<Rightarrow> int \<Rightarrow> int \<Rightarrow> ('s, int) py" where
  "bisect_left_loop lt getitem key item lo hi =
     (if lo < hi \<and> 0 \<le> lo \<and> hi \<le> PY_SSIZE_T_MAX then
        let mid = bisect_mid lo hi
        in sbind (getitem mid) (\<lambda>litem.
           sbind (key litem) (\<lambda>litem.
           sbind (lt litem item) (\<lambda>res.
             if res then bisect_left_loop lt getitem key item (mid + 1) hi
             else bisect_left_loop lt getitem key item lo mid)))
      else sret lo)"
  by pat_completeness auto
termination
  by (relation "measure (\<lambda>(lt, getitem, key, item, lo, hi). nat (hi - lo))")
    (use bisect_mid_bounds in \<open>fastforce simp: zless_nat_eq_int_zless\<close>)+

declare bisect_right_loop.simps [simp del] bisect_left_loop.simps [simp del]

text \<open>\<open>hi\<close> is \<open>-1\<close> when it was not given.\<close>

definition internal_bisect_right ::
    "('a \<Rightarrow> 'k \<Rightarrow> ('s, bool) py) \<Rightarrow> ('s, int) py \<Rightarrow> (int \<Rightarrow> ('s, 'i) py) \<Rightarrow> ('i \<Rightarrow> ('s, 'k) py) \<Rightarrow> 'a \<Rightarrow> int \<Rightarrow> int \<Rightarrow> ('s, int) py" where
  "internal_bisect_right lt sz getitem key item lo hi =
     (if lo < 0 then sraise ValueError
      else sbind (if hi = -1 then sz else sret hi) (\<lambda>hi. bisect_right_loop lt getitem key item lo hi))"

definition internal_bisect_left ::
    "('k \<Rightarrow> 'a \<Rightarrow> ('s, bool) py) \<Rightarrow> ('s, int) py \<Rightarrow> (int \<Rightarrow> ('s, 'i) py) \<Rightarrow> ('i \<Rightarrow> ('s, 'k) py) \<Rightarrow> 'a \<Rightarrow> int \<Rightarrow> int \<Rightarrow> ('s, int) py" where
  "internal_bisect_left lt sz getitem key item lo hi =
     (if lo < 0 then sraise ValueError
      else sbind (if hi = -1 then sz else sret hi) (\<lambda>hi. bisect_left_loop lt getitem key item lo hi))"

text \<open>The sequence operations of a list object.\<close>

definition seq_size :: "('a pylist \<times> 'w, int) py" where
  "seq_size = on_fst (sget list_size)"

definition seq_item :: "int \<Rightarrow> ('a pylist \<times> 'w, 'a) py" where
  "seq_item i = on_fst (list_item i)"

definition bisect_right ::
    "('k \<Rightarrow> 'k \<Rightarrow> ('a pylist \<times> 'w, bool) py) \<Rightarrow> ('a \<Rightarrow> ('a pylist \<times> 'w, 'k) py) \<Rightarrow> 'k \<Rightarrow> int \<Rightarrow> int \<Rightarrow> ('a pylist \<times> 'w, int) py" where
  "bisect_right lt key x lo hi = internal_bisect_right lt seq_size seq_item key x lo hi"

definition bisect_left ::
    "('k \<Rightarrow> 'k \<Rightarrow> ('a pylist \<times> 'w, bool) py) \<Rightarrow> ('a \<Rightarrow> ('a pylist \<times> 'w, 'k) py) \<Rightarrow> 'k \<Rightarrow> int \<Rightarrow> int \<Rightarrow> ('a pylist \<times> 'w, int) py" where
  "bisect_left lt key x lo hi = internal_bisect_left lt seq_size seq_item key x lo hi"

definition insort_right ::
    "('k \<Rightarrow> 'k \<Rightarrow> ('a pylist \<times> 'w, bool) py) \<Rightarrow> ('a \<Rightarrow> ('a pylist \<times> 'w, 'k) py) \<Rightarrow> 'a \<Rightarrow> int \<Rightarrow> int \<Rightarrow> ('a pylist \<times> 'w, unit) py" where
  "insort_right lt key x lo hi =
     sbind (key x) (\<lambda>key_x.
     sbind (internal_bisect_right lt seq_size seq_item key key_x lo hi) (\<lambda>index.
       on_fst (ins1 index x)))"

definition insort_left ::
    "('k \<Rightarrow> 'k \<Rightarrow> ('a pylist \<times> 'w, bool) py) \<Rightarrow> ('a \<Rightarrow> ('a pylist \<times> 'w, 'k) py) \<Rightarrow> 'a \<Rightarrow> int \<Rightarrow> int \<Rightarrow> ('a pylist \<times> 'w, unit) py" where
  "insort_left lt key x lo hi =
     sbind (key x) (\<lambda>key_x.
     sbind (internal_bisect_left lt seq_size seq_item key key_x lo hi) (\<lambda>index.
       on_fst (ins1 index x)))"

section \<open>The result is between the bounds, whatever the comparison answers\<close>

lemma wp_True: "wp m (\<lambda>_ _. True) (\<lambda>_ _. True) s"
  by (simp add: wp_def split: prod.splits sum.splits)

lemma bisect_right_loop_bounds:
  "0 \<le> lo \<Longrightarrow> wp (bisect_right_loop lt getitem key item lo hi) (\<lambda>i _. lo \<le> i \<and> i \<le> max lo hi) (\<lambda>_ _. True) s"
proof (induction "nat (hi - lo)" arbitrary: lo hi s rule: less_induct)
  case less
  show ?case
  proof (cases "lo < hi \<and> 0 \<le> lo \<and> hi \<le> PY_SSIZE_T_MAX")
    case True
    let ?mid = "bisect_mid lo hi"
    have m: "lo \<le> ?mid" "?mid < hi" using bisect_mid_bounds True by blast+
    have l: "wp (bisect_right_loop lt getitem key item lo ?mid) (\<lambda>i _. lo \<le> i \<and> i \<le> max lo hi) (\<lambda>_ _. True) t" for t
      by (rule wp_mono [OF less.hyps]) (use m less.prems in auto)
    have r: "wp (bisect_right_loop lt getitem key item (?mid + 1) hi) (\<lambda>i _. lo \<le> i \<and> i \<le> max lo hi) (\<lambda>_ _. True) t" for t
      by (rule wp_mono [OF less.hyps]) (use m less.prems in auto)
    show ?thesis
      unfolding bisect_right_loop.simps [of lt getitem key item lo hi] if_P [OF True] Let_def wp_sbind wp_if
      by (rule wp_mono [OF wp_True], rule wp_mono [OF wp_True], rule wp_mono [OF wp_True]) (use l r in simp_all)
  next
    case False
    show ?thesis
      unfolding bisect_right_loop.simps [of lt getitem key item lo hi] if_not_P [OF False] by simp
  qed
qed

lemma bisect_left_loop_bounds:
  "0 \<le> lo \<Longrightarrow> wp (bisect_left_loop lt getitem key item lo hi) (\<lambda>i _. lo \<le> i \<and> i \<le> max lo hi) (\<lambda>_ _. True) s"
proof (induction "nat (hi - lo)" arbitrary: lo hi s rule: less_induct)
  case less
  show ?case
  proof (cases "lo < hi \<and> 0 \<le> lo \<and> hi \<le> PY_SSIZE_T_MAX")
    case True
    let ?mid = "bisect_mid lo hi"
    have m: "lo \<le> ?mid" "?mid < hi" using bisect_mid_bounds True by blast+
    have l: "wp (bisect_left_loop lt getitem key item lo ?mid) (\<lambda>i _. lo \<le> i \<and> i \<le> max lo hi) (\<lambda>_ _. True) t" for t
      by (rule wp_mono [OF less.hyps]) (use m less.prems in auto)
    have r: "wp (bisect_left_loop lt getitem key item (?mid + 1) hi) (\<lambda>i _. lo \<le> i \<and> i \<le> max lo hi) (\<lambda>_ _. True) t" for t
      by (rule wp_mono [OF less.hyps]) (use m less.prems in auto)
    show ?thesis
      unfolding bisect_left_loop.simps [of lt getitem key item lo hi] if_P [OF True] Let_def wp_sbind wp_if
      by (rule wp_mono [OF wp_True], rule wp_mono [OF wp_True], rule wp_mono [OF wp_True]) (use l r in simp_all)
  next
    case False
    show ?thesis
      unfolding bisect_left_loop.simps [of lt getitem key item lo hi] if_not_P [OF False] by simp
  qed
qed

lemma wp_sbind_any:
  assumes "\<And>x t. wp (f x) Q (\<lambda>_ _. True) t"
  shows "wp (sbind m f) Q (\<lambda>_ _. True) s"
  unfolding wp_sbind by (rule wp_mono [OF wp_True]) (simp_all add: assms)

lemma bisect_bounds:
  shows "wp (internal_bisect_right lt sz getitem key item lo hi) (\<lambda>i _. 0 \<le> lo \<and> lo \<le> i) (\<lambda>_ _. True) s"
    and "wp (internal_bisect_left lt' sz getitem key item lo hi) (\<lambda>i _. 0 \<le> lo \<and> lo \<le> i) (\<lambda>_ _. True) s"
proof -
  have r: "wp (bisect_right_loop lt getitem key item lo n) (\<lambda>i _. lo \<le> i) (\<lambda>_ _. True) t" if "0 \<le> lo" for n t
    by (rule wp_mono [OF bisect_right_loop_bounds [OF that]]) (use that in auto)
  have l: "wp (bisect_left_loop lt' getitem key item lo n) (\<lambda>i _. lo \<le> i) (\<lambda>_ _. True) t" if "0 \<le> lo" for n t
    by (rule wp_mono [OF bisect_left_loop_bounds [OF that]]) (use that in auto)
  show "wp (internal_bisect_right lt sz getitem key item lo hi) (\<lambda>i _. 0 \<le> lo \<and> lo \<le> i) (\<lambda>_ _. True) s"
    by (cases "lo < 0") (auto simp: internal_bisect_right_def simp del: wp_sbind intro!: wp_sbind_any r)
  show "wp (internal_bisect_left lt' sz getitem key item lo hi) (\<lambda>i _. 0 \<le> lo \<and> lo \<le> i) (\<lambda>_ _. True) s"
    by (cases "lo < 0") (auto simp: internal_bisect_left_def simp del: wp_sbind intro!: wp_sbind_any l)
qed

section \<open>Exactness on a sorted list\<close>

lemma wp_seq_size: "wp seq_size Q E s = Q (list_size (fst s)) s"
  by (cases s) (simp add: seq_size_def)

lemma wp_seq_item:
  assumes "wf_list (fst s)" and "0 \<le> i" and "i < list_size (fst s)"
  shows "wp (seq_item i) Q E s = Q (elems (fst s) ! nat i) s"
proof -
  have b: "list_size (fst s) \<le> PY_SSIZE_T_MAX" using wf_list_max [OF assms(1)] by (simp add: PY_SSIZE_T_MAX_def)
  then have "valid_index i (list_size (fst s))"
    using assms wf_listD(1) [OF assms(1)] by (subst valid_index_iff) (auto simp: PY_SSIZE_T_MAX_def)
  then show ?thesis
    using wf_list_get [OF assms] assms(2) by (cases s) (simp add: seq_item_def list_item_def)
qed

text \<open>A key function without effects whose keys the comparison orders.\<close>

locale bisect_cmp = comparison lt less ok
  for lt :: "'k \<Rightarrow> 'k \<Rightarrow> ('a pylist \<times> 'w, bool) py" and less and ok +
  fixes key :: "'a \<Rightarrow> ('a pylist \<times> 'w, 'k) py" and kf :: "'a \<Rightarrow> 'k"
  assumes key_result: "key a = sret (kf a)"
begin

abbreviation keys :: "'a pylist \<times> 'w \<Rightarrow> 'k list" where
  "keys s \<equiv> map kf (elems (fst s))"

definition keys_sorted :: "'k list \<Rightarrow> bool" where
  "keys_sorted ks \<longleftrightarrow> sorted_wrt (\<lambda>a b. \<not> less b a) ks"

lemma keys_sorted_nth: "keys_sorted ks \<Longrightarrow> i \<le> j \<Longrightarrow> j < length ks \<Longrightarrow> \<not> less (ks ! j) (ks ! i)"
  by (cases "i = j") (auto simp: keys_sorted_def sorted_wrt_iff_nth_less)

lemma right_loop_exact:
  assumes wf: "wf_list (fst s)" and ok: "ok x" "\<forall>k \<in> set (keys s). ok k" and srt: "keys_sorted (keys s)"
    and b: "0 \<le> lo" "lo \<le> hi" "hi \<le> list_size (fst s)"
  shows "wp (bisect_right_loop lt seq_item key x lo hi)
    (\<lambda>i t. t = s \<and> lo \<le> i \<and> i \<le> hi \<and> (\<forall>k. nat lo \<le> k \<and> k < nat i \<longrightarrow> \<not> less x (keys s ! k)) \<and>
      (\<forall>k. nat i \<le> k \<and> k < nat hi \<longrightarrow> less x (keys s ! k))) (\<lambda>_ _. False) s"
  using b
proof (induction "nat (hi - lo)" arbitrary: lo hi rule: less_induct)
  case less
  note sz = wf_listD(7) [OF wf]
  have max: "hi \<le> PY_SSIZE_T_MAX"
    using less.prems(3) wf_list_max [OF wf] by (simp add: PY_SSIZE_T_MAX_def)
  show ?case
  proof (cases "lo < hi \<and> 0 \<le> lo \<and> hi \<le> PY_SSIZE_T_MAX")
    case False
    then have "hi = lo" using less.prems max by simp
    then show ?thesis by (auto simp: bisect_right_loop.simps [of _ _ _ _ lo])
  next
    case True
    let ?m = "bisect_mid lo hi"
    have m: "lo \<le> ?m" "?m < hi" "0 \<le> ?m" "?m < list_size (fst s)"
      using bisect_mid_bounds [of lo hi] True less.prems by auto
    have lm: "nat ?m < length (elems (fst s))" using m sz by simp
    let ?k = "kf (elems (fst s) ! nat ?m)"
    have km: "keys s ! nat ?m = ?k" using lm by simp
    have okm: "ok ?k" using ok(2) lm by simp
    show ?thesis
    proof (cases "less x ?k")
      case T: True
      have above: "less x (keys s ! k)" if "nat ?m \<le> k" "k < nat hi" for k
      proof -
        have "k < length (keys s)" using that(2) less.prems sz by simp
        from less_le_trans [OF T [folded km] keys_sorted_nth [OF srt that(1) this]] show ?thesis .
      qed
      have "wp (bisect_right_loop lt seq_item key x lo ?m)
        (\<lambda>i t. t = s \<and> lo \<le> i \<and> i \<le> hi \<and> (\<forall>k. nat lo \<le> k \<and> k < nat i \<longrightarrow> \<not> less x (keys s ! k)) \<and>
          (\<forall>k. nat i \<le> k \<and> k < nat hi \<longrightarrow> less x (keys s ! k))) (\<lambda>_ _. False) s"
        by (rule wp_mono [OF less.hyps]) (use m less.prems above in \<open>auto, metis not_less\<close>)
      then show ?thesis
        unfolding bisect_right_loop.simps [of lt seq_item key x lo hi] if_P [OF True]
        using m T ok(1) okm by (simp add: Let_def wp_seq_item [OF wf] key_result wp_lt)
    next
      case F: False
      have below: "\<not> less x (keys s ! k)" if "k < nat (?m + 1)" for k
      proof -
        have "k \<le> nat ?m" using that m(3) by simp
        from less_neg_trans [OF F [folded km] keys_sorted_nth [OF srt this]] show ?thesis using lm by simp
      qed
      have "wp (bisect_right_loop lt seq_item key x (?m + 1) hi)
        (\<lambda>i t. t = s \<and> lo \<le> i \<and> i \<le> hi \<and> (\<forall>k. nat lo \<le> k \<and> k < nat i \<longrightarrow> \<not> less x (keys s ! k)) \<and>
          (\<forall>k. nat i \<le> k \<and> k < nat hi \<longrightarrow> less x (keys s ! k))) (\<lambda>_ _. False) s"
        by (rule wp_mono [OF less.hyps]) (use m less.prems below in \<open>auto, metis not_less\<close>)
      then show ?thesis
        unfolding bisect_right_loop.simps [of lt seq_item key x lo hi] if_P [OF True]
        using m F ok(1) okm by (simp add: Let_def wp_seq_item [OF wf] key_result wp_lt)
    qed
  qed
qed

lemma left_loop_exact:
  assumes wf: "wf_list (fst s)" and ok: "ok x" "\<forall>k \<in> set (keys s). ok k" and srt: "keys_sorted (keys s)"
    and b: "0 \<le> lo" "lo \<le> hi" "hi \<le> list_size (fst s)"
  shows "wp (bisect_left_loop lt seq_item key x lo hi)
    (\<lambda>i t. t = s \<and> lo \<le> i \<and> i \<le> hi \<and> (\<forall>k. nat lo \<le> k \<and> k < nat i \<longrightarrow> less (keys s ! k) x) \<and>
      (\<forall>k. nat i \<le> k \<and> k < nat hi \<longrightarrow> \<not> less (keys s ! k) x)) (\<lambda>_ _. False) s"
  using b
proof (induction "nat (hi - lo)" arbitrary: lo hi rule: less_induct)
  case less
  note sz = wf_listD(7) [OF wf]
  have max: "hi \<le> PY_SSIZE_T_MAX"
    using less.prems(3) wf_list_max [OF wf] by (simp add: PY_SSIZE_T_MAX_def)
  show ?case
  proof (cases "lo < hi \<and> 0 \<le> lo \<and> hi \<le> PY_SSIZE_T_MAX")
    case False
    then have "hi = lo" using less.prems max by simp
    then show ?thesis by (auto simp: bisect_left_loop.simps [of _ _ _ _ lo])
  next
    case True
    let ?m = "bisect_mid lo hi"
    have m: "lo \<le> ?m" "?m < hi" "0 \<le> ?m" "?m < list_size (fst s)"
      using bisect_mid_bounds [of lo hi] True less.prems by auto
    have lm: "nat ?m < length (elems (fst s))" using m sz by simp
    let ?k = "kf (elems (fst s) ! nat ?m)"
    have km: "keys s ! nat ?m = ?k" using lm by simp
    have okm: "ok ?k" using ok(2) lm by simp
    show ?thesis
    proof (cases "less ?k x")
      case T: True
      have below: "less (keys s ! k) x" if "k < nat (?m + 1)" for k
      proof -
        have "k \<le> nat ?m" using that m(3) by simp
        from le_less_trans [OF keys_sorted_nth [OF srt this] T [folded km]] show ?thesis using lm by simp
      qed
      have "wp (bisect_left_loop lt seq_item key x (?m + 1) hi)
        (\<lambda>i t. t = s \<and> lo \<le> i \<and> i \<le> hi \<and> (\<forall>k. nat lo \<le> k \<and> k < nat i \<longrightarrow> less (keys s ! k) x) \<and>
          (\<forall>k. nat i \<le> k \<and> k < nat hi \<longrightarrow> \<not> less (keys s ! k) x)) (\<lambda>_ _. False) s"
        by (rule wp_mono [OF less.hyps]) (use m less.prems below in \<open>auto, metis not_less\<close>)
      then show ?thesis
        unfolding bisect_left_loop.simps [of lt seq_item key x lo hi] if_P [OF True]
        using m T ok(1) okm by (simp add: Let_def wp_seq_item [OF wf] key_result wp_lt)
    next
      case F: False
      have above: "\<not> less (keys s ! k) x" if "nat ?m \<le> k" "k < nat hi" for k
      proof -
        have "k < length (keys s)" using that(2) less.prems sz by simp
        from less_neg_trans [OF keys_sorted_nth [OF srt that(1) this] F [folded km]] show ?thesis .
      qed
      have "wp (bisect_left_loop lt seq_item key x lo ?m)
        (\<lambda>i t. t = s \<and> lo \<le> i \<and> i \<le> hi \<and> (\<forall>k. nat lo \<le> k \<and> k < nat i \<longrightarrow> less (keys s ! k) x) \<and>
          (\<forall>k. nat i \<le> k \<and> k < nat hi \<longrightarrow> \<not> less (keys s ! k) x)) (\<lambda>_ _. False) s"
        by (rule wp_mono [OF less.hyps]) (use m less.prems above in \<open>auto, metis not_less\<close>)
      then show ?thesis
        unfolding bisect_left_loop.simps [of lt seq_item key x lo hi] if_P [OF True]
        using m F ok(1) okm by (simp add: Let_def wp_seq_item [OF wf] key_result wp_lt)
    qed
  qed
qed

text \<open>On the whole list the result is the number of keys that belong before \<open>x\<close>.\<close>

lemma split_filter:
  assumes "\<And>k. k < i \<Longrightarrow> P (ks ! k)" and "\<And>k. i \<le> k \<Longrightarrow> k < length ks \<Longrightarrow> \<not> P (ks ! k)" and "i \<le> length ks"
  shows "length (filter P ks) = i" and "takeWhile P ks = take i ks"
proof -
  have a: "filter P (take i ks) = take i ks" using assms(1,3) by (intro filter_True) (auto simp: in_set_conv_nth)
  have b: "filter P (drop i ks) = []" using assms(2) by (auto simp: filter_empty_conv in_set_conv_nth)
  have "filter P ks = filter P (take i ks) @ filter P (drop i ks)" by (metis append_take_drop_id filter_append)
  then show "length (filter P ks) = i" using assms(3) by (simp add: a b min_absorb2)
  show "takeWhile P ks = take i ks"
  proof (cases "i = length ks")
    case True
    then show ?thesis using assms(1) by (auto simp: takeWhile_eq_all_conv in_set_conv_nth)
  next
    case False
    then show ?thesis using assms by (intro takeWhile_eq_take_P_nth) auto
  qed
qed

lemma bisect_right_exact:
  assumes wf: "wf_list (fst s)" and ok: "ok x" "\<forall>k \<in> set (keys s). ok k" and srt: "keys_sorted (keys s)"
  shows "wp (bisect_right lt key x 0 (-1))
    (\<lambda>i t. t = s \<and> i = int (length (filter (\<lambda>k. \<not> less x k) (keys s)))) (\<lambda>_ _. False) s"
proof -
  have "wp (bisect_right_loop lt seq_item key x 0 (list_size (fst s)))
    (\<lambda>i t. t = s \<and> i = int (length (filter (\<lambda>k. \<not> less x k) (keys s)))) (\<lambda>_ _. False) s"
  proof (rule wp_mono [OF right_loop_exact [OF wf ok srt]], goal_cases)
    case (4 i t)
    then show ?case
      using split_filter(1) [of "nat i" "\<lambda>k. \<not> less x k" "keys s"] wf_listD(6) [OF wf] by (auto simp: nat_mono)
  qed (use wf_listD(1) [OF wf] in simp_all)
  then show ?thesis by (simp add: bisect_right_def internal_bisect_right_def wp_seq_size)
qed

lemma bisect_left_exact:
  assumes wf: "wf_list (fst s)" and ok: "ok x" "\<forall>k \<in> set (keys s). ok k" and srt: "keys_sorted (keys s)"
  shows "wp (bisect_left lt key x 0 (-1))
    (\<lambda>i t. t = s \<and> i = int (length (filter (\<lambda>k. less k x) (keys s)))) (\<lambda>_ _. False) s"
proof -
  have "wp (bisect_left_loop lt seq_item key x 0 (list_size (fst s)))
    (\<lambda>i t. t = s \<and> i = int (length (filter (\<lambda>k. less k x) (keys s)))) (\<lambda>_ _. False) s"
  proof (rule wp_mono [OF left_loop_exact [OF wf ok srt]], goal_cases)
    case (4 i t)
    then show ?case
      using split_filter(1) [of "nat i" "\<lambda>k. less k x" "keys s"] wf_listD(6) [OF wf] by (auto simp: nat_mono)
  qed (use wf_listD(1) [OF wf] in simp_all)
  then show ?thesis by (simp add: bisect_left_def internal_bisect_left_def wp_seq_size)
qed

text \<open>Inserting where the search points keeps the list sorted; equal keys stay before or after.\<close>

lemma insert_sorted:
  assumes wf: "wf_list (fst s)" and srt: "keys_sorted (keys s)"
    and i: "0 \<le> i" "i \<le> list_size (fst s)"
    and P: "\<And>k. k < nat i \<Longrightarrow> P (elems (fst s) ! k)"
      "\<And>k. nat i \<le> k \<Longrightarrow> k < nat (list_size (fst s)) \<Longrightarrow> \<not> P (elems (fst s) ! k)"
    and ord: "\<And>y. P y \<Longrightarrow> \<not> less (kf x) (kf y)" "\<And>y. \<not> P y \<Longrightarrow> \<not> less (kf y) (kf x)"
  shows "wp (on_fst (ins1 i x))
    (\<lambda>_ t. wf_list (fst t) \<and> snd t = snd s \<and> keys_sorted (keys t) \<and>
      elems (fst t) = takeWhile P (elems (fst s)) @ x # dropWhile P (elems (fst s)))
    (\<lambda>e t. e = MemoryError \<and> t = s) s"
proof -
  note sz = wf_listD(1,6,7) [OF wf]
  let ?xs = "elems (fst s)"
  have tw: "takeWhile P ?xs = take (nat i) ?xs" by (rule split_filter(2)) (use i P sz in auto)
  then have dw: "dropWhile P ?xs = drop (nat i) ?xs"
    by (metis append_take_drop_id append_eq_append_conv takeWhile_dropWhile_id)
  have clamp: "clamp_index (list_size (fst s)) i = i" using i by (simp add: clamp_index_def)
  have "\<not> less (kf x) (kf a)" if "a \<in> set (take (nat i) ?xs)" for a
    using that P(1) ord(1) i(2) sz by (auto simp: in_set_conv_nth)
  moreover have "\<not> less (kf a) (kf x)" if "a \<in> set (drop (nat i) ?xs)" for a
    using that P(2) ord(2) sz by (auto simp: in_set_conv_nth)
  moreover have "keys_sorted (map kf (take (nat i) ?xs @ drop (nat i) ?xs))" using srt by simp
  ultimately have "keys_sorted (map kf (take (nat i) ?xs @ x # drop (nat i) ?xs))"
    unfolding keys_sorted_def map_append list.map sorted_wrt_append sorted_wrt.simps by auto
  then show ?thesis
    unfolding wp_on_fst' tw dw by (intro wp_mono [OF wp_ins1 [OF wf]]) (auto simp: clamp Let_def)
qed

lemma insort_right_correct:
  assumes wf: "wf_list (fst s)" and ok: "ok (kf x)" "\<forall>k \<in> set (keys s). ok k" and srt: "keys_sorted (keys s)"
  shows "wp (insort_right lt key x 0 (-1))
    (\<lambda>_ t. wf_list (fst t) \<and> snd t = snd s \<and> keys_sorted (keys t) \<and>
      elems (fst t) = takeWhile (\<lambda>y. \<not> less (kf x) (kf y)) (elems (fst s)) @ x #
        dropWhile (\<lambda>y. \<not> less (kf x) (kf y)) (elems (fst s)))
    (\<lambda>e t. e = MemoryError \<and> t = s) s" (is "wp _ ?Q ?E s")
proof -
  note sz = wf_listD(1,6,7) [OF wf]
  have "wp (bisect_right_loop lt seq_item key (kf x) 0 (list_size (fst s))) (\<lambda>i. wp (on_fst (ins1 i x)) ?Q ?E) ?E s"
  proof (rule wp_mono [OF right_loop_exact [OF wf ok srt]], goal_cases)
    case (4 i t)
    then have i: "0 \<le> i" "i \<le> list_size (fst s)" by simp_all
    have "wp (on_fst (ins1 i x)) ?Q ?E s"
      by (rule insert_sorted [OF wf srt i]) (use 4 sz(2) i in \<open>simp_all add: less_asym\<close>)
    then show ?case using 4 by simp
  qed (use sz(1) in simp_all)
  then show ?thesis by (simp add: insort_right_def internal_bisect_right_def wp_seq_size key_result)
qed

lemma insort_left_correct:
  assumes wf: "wf_list (fst s)" and ok: "ok (kf x)" "\<forall>k \<in> set (keys s). ok k" and srt: "keys_sorted (keys s)"
  shows "wp (insort_left lt key x 0 (-1))
    (\<lambda>_ t. wf_list (fst t) \<and> snd t = snd s \<and> keys_sorted (keys t) \<and>
      elems (fst t) = takeWhile (\<lambda>y. less (kf y) (kf x)) (elems (fst s)) @ x #
        dropWhile (\<lambda>y. less (kf y) (kf x)) (elems (fst s)))
    (\<lambda>e t. e = MemoryError \<and> t = s) s" (is "wp _ ?Q ?E s")
proof -
  note sz = wf_listD(1,6,7) [OF wf]
  have "wp (bisect_left_loop lt seq_item key (kf x) 0 (list_size (fst s))) (\<lambda>i. wp (on_fst (ins1 i x)) ?Q ?E) ?E s"
  proof (rule wp_mono [OF left_loop_exact [OF wf ok srt]], goal_cases)
    case (4 i t)
    then have i: "0 \<le> i" "i \<le> list_size (fst s)" by simp_all
    have "wp (on_fst (ins1 i x)) ?Q ?E s"
      by (rule insert_sorted [OF wf srt i]) (use 4 sz(2) i in \<open>simp_all add: less_asym\<close>)
    then show ?case using 4 by simp
  qed (use sz(1) in simp_all)
  then show ?thesis by (simp add: insort_left_def internal_bisect_left_def wp_seq_size key_result)
qed

end

section \<open>Properties\<close>

text \<open>Integer objects are their own keys.\<close>

interpretation int_bisect: bisect_cmp obj_lt "\<lambda>v w. obj_val v < obj_val w" is_long sret "\<lambda>v. v"
  by unfold_locales simp

text \<open>
  The searches never leave their range: for any comparison, key function and sequence,
  whatever they answer and whatever effects they have, an index that is returned is at least
  \<open>lo\<close>, hence not negative, and a negative \<open>lo\<close> is a \<open>ValueError\<close> before anything is read. The
  midpoint, computed with unsigned arithmetic, lies inside the range and does not overflow.
\<close>

theorem bisect_stays_in_range:
  fixes s :: 's
  shows "(case internal_bisect_right lt sz getitem key item lo hi s of
      (t, Inr i) \<Rightarrow> 0 \<le> lo \<and> lo \<le> i
    | (t, Inl e) \<Rightarrow> lo < 0 \<longrightarrow> e = ValueError \<and> t = s) \<and>
   (case internal_bisect_left lt' sz getitem key item lo hi s of
      (t, Inr i) \<Rightarrow> 0 \<le> lo \<and> lo \<le> i
    | (t, Inl e) \<Rightarrow> lo < 0 \<longrightarrow> e = ValueError \<and> t = s) \<and>
   (0 \<le> lo \<longrightarrow> lo < hi \<longrightarrow> hi \<le> PY_SSIZE_T_MAX \<longrightarrow>
      bisect_mid lo hi = (lo + hi) div 2 \<and> lo \<le> bisect_mid lo hi \<and> bisect_mid lo hi < hi)"
proof -
  have "case internal_bisect_right lt sz getitem key item lo hi s of
      (t, Inr i) \<Rightarrow> 0 \<le> lo \<and> lo \<le> i | (t, Inl e) \<Rightarrow> lo < 0 \<longrightarrow> e = ValueError \<and> t = s"
  proof (cases "lo < 0")
    case True
    then show ?thesis by (simp add: internal_bisect_right_def sraise_def)
  next
    case False
    then show ?thesis
      using wp_result [OF bisect_bounds(1) [where s = s and lo = lo and hi = hi and lt = lt and sz = sz and getitem = getitem and key = key and item = item]] by fastforce
  qed
  moreover have "case internal_bisect_left lt' sz getitem key item lo hi s of
      (t, Inr i) \<Rightarrow> 0 \<le> lo \<and> lo \<le> i | (t, Inl e) \<Rightarrow> lo < 0 \<longrightarrow> e = ValueError \<and> t = s"
  proof (cases "lo < 0")
    case True
    then show ?thesis by (simp add: internal_bisect_left_def sraise_def)
  next
    case False
    then show ?thesis
      using wp_result [OF bisect_bounds(2) [where s = s and lo = lo and hi = hi and lt' = lt' and sz = sz and getitem = getitem and key = key and item = item]] by fastforce
  qed
  ultimately show ?thesis using bisect_mid_eq [of lo hi] bisect_mid_bounds [of lo hi] by blast
qed

lemma bisect_stays_in_range_witness:
  "bisect_mid 9223372036854775805 9223372036854775807 = 9223372036854775806"
proof -
  have "0 \<le> (9223372036854775805 :: int)" "(9223372036854775805 :: int) < 9223372036854775807"
    "9223372036854775807 \<le> PY_SSIZE_T_MAX" by (simp_all add: PY_SSIZE_T_MAX_def)
  with bisect_stays_in_range [THEN conjunct2, THEN conjunct2] show ?thesis by fastforce
qed

text \<open>
  C21: On a list sorted by its keys, \<open>bisect_right\<close> and \<open>bisect_left\<close> with default bounds return
  the number of items whose key is not above, respectively below, the one searched, and change
  nothing: \<open>a[:i]\<close> and \<open>a[i:]\<close> are as the documentation says.
\<close>

theorem bisect_counts:
  assumes "bisect_cmp lt ls ok key kf" and "wf_list (fst s)" and "ok x" and "\<forall>y \<in> set (elems (fst s)). ok (kf y)"
    and "sorted_wrt (\<lambda>a b. \<not> ls b a) (map kf (elems (fst s)))"
  shows "bisect_right lt key x 0 (-1) s = (s, Inr (int (length (filter (\<lambda>y. \<not> ls x (kf y)) (elems (fst s)))))) \<and>
    bisect_left lt key x 0 (-1) s = (s, Inr (int (length (filter (\<lambda>y. ls (kf y) x) (elems (fst s))))))"
proof -
  have ok: "\<forall>k \<in> set (map kf (elems (fst s))). ok k" using assms(4) by simp
  have srt: "bisect_cmp.keys_sorted ls (map kf (elems (fst s)))"
    using assms(5) by (simp add: bisect_cmp.keys_sorted_def [OF assms(1)])
  show ?thesis
    using wp_total [OF bisect_cmp.bisect_right_exact [OF assms(1,2,3) ok srt]]
      wp_total [OF bisect_cmp.bisect_left_exact [OF assms(1,2,3) ok srt]]
    by (auto simp: filter_map o_def)
qed

lemma bisect_counts_witness:
  "bisect_right obj_lt sret (int_obj 7) 0 (-1) (list_of [int_obj 3, int_obj 7, int_obj 7, int_obj 9], ()) =
     ((list_of [int_obj 3, int_obj 7, int_obj 7, int_obj 9], ()), Inr 3)"
  using bisect_counts [OF int_bisect.bisect_cmp_axioms, of "(list_of [int_obj 3, int_obj 7, int_obj 7, int_obj 9], ())" "int_obj 7"]
  by (simp)

text \<open>
  The insertions keep a sorted list sorted, add exactly the new item, and place it after,
  respectively before, the items with an equal key; without memory the list stays as it is.
\<close>

theorem insort_keeps_sorted:
  assumes "bisect_cmp lt ls ok key kf" and "wf_list (fst s)" and "ok (kf x)" and "\<forall>y \<in> set (elems (fst s)). ok (kf y)"
    and "sorted_wrt (\<lambda>a b. \<not> ls b a) (map kf (elems (fst s)))"
  shows "(case insort_right lt key x 0 (-1) s of
      (t, Inr u) \<Rightarrow> wf_list (fst t) \<and> sorted_wrt (\<lambda>a b. \<not> ls b a) (map kf (elems (fst t))) \<and>
        elems (fst t) = takeWhile (\<lambda>y. \<not> ls (kf x) (kf y)) (elems (fst s)) @ x #
          dropWhile (\<lambda>y. \<not> ls (kf x) (kf y)) (elems (fst s))
    | (t, Inl e) \<Rightarrow> e = MemoryError \<and> t = s) \<and>
    (case insort_left lt key x 0 (-1) s of
      (t, Inr u) \<Rightarrow> wf_list (fst t) \<and> sorted_wrt (\<lambda>a b. \<not> ls b a) (map kf (elems (fst t))) \<and>
        elems (fst t) = takeWhile (\<lambda>y. ls (kf y) (kf x)) (elems (fst s)) @ x #
          dropWhile (\<lambda>y. ls (kf y) (kf x)) (elems (fst s))
    | (t, Inl e) \<Rightarrow> e = MemoryError \<and> t = s)"
proof -
  note srt_def = bisect_cmp.keys_sorted_def [OF assms(1)]
  have ok: "\<forall>k \<in> set (map kf (elems (fst s))). ok k" using assms(4) by simp
  have srt: "bisect_cmp.keys_sorted ls (map kf (elems (fst s)))" using assms(5) by (simp add: srt_def)
  show ?thesis
    using wp_result [OF bisect_cmp.insort_right_correct [OF assms(1,2,3) ok srt]]
      wp_result [OF bisect_cmp.insort_left_correct [OF assms(1,2,3) ok srt]]
    by (auto simp: srt_def)
qed

lemma insort_keeps_sorted_witness:
  "case insort_left obj_lt sret (int_obj 7) 0 (-1) (list_of [int_obj 3, int_obj 7, int_obj 9], ()) of
      (t, Inr u) \<Rightarrow> map obj_val (elems (fst t)) = [3, 7, 7, 9]
    | (t, Inl e) \<Rightarrow> e = MemoryError"
  using insort_keeps_sorted [OF int_bisect.bisect_cmp_axioms, of "(list_of [int_obj 3, int_obj 7, int_obj 9], ())" "int_obj 7"]
  by (auto split: prod.splits sum.splits)

end
