(* ===== verification/PyListOps.thy ===== *)
theory PyListOps
  imports PyList PyOrder
begin

text \<open>
  The methods of list objects (\<open>Objects/listobject.c\<close>): removal by index, item assignment,
  reversal, repetition in place, extension by a sequence or an iterator, and the methods that
  search the list by comparing items (\<open>in\<close>, \<open>index\<close>, \<open>count\<close>, \<open>remove\<close>) or compare two lists.
  The searches read the size of the list again before every item, since a comparison may change
  it. The guard \<open>i < LIST_MAX\<close> in their loops holds for every index below the size of a list; it
  makes them total.
\<close>

section \<open>Definitions\<close>

definition list_pop :: "int \<Rightarrow> ('a pylist, 'a) py" where
  "list_pop index =
     sbind (sget list_size) (\<lambda>n.
       if n = 0 then sraise IndexError
       else
         let index = (if index < 0 then index + n else index)
         in if \<not> valid_index index n then sraise IndexError
            else sbind (slot_get index) (\<lambda>v.
              if index = n - 1 then sbind (list_resize (n - 1)) (\<lambda>_. sret v)
              else sbind (list_ass_slice index (index + 1) None) (\<lambda>_. sret v)))"

text \<open>\<open>None\<close> deletes the item.\<close>

definition list_ass_item :: "int \<Rightarrow> 'a option \<Rightarrow> ('a pylist, unit) py" where
  "list_ass_item i v =
     sbind (sget list_size) (\<lambda>n.
       if \<not> valid_index i n then sraise IndexError
       else case v of
         None \<Rightarrow> list_ass_slice i (i + 1) None
       | Some x \<Rightarrow> slot_set i x)"

text \<open>\<open>reverse_slice\<close> on an array, with an inclusive upper end in the loop.\<close>

function reverse_loop :: "nat \<Rightarrow> nat \<Rightarrow> 'b list \<Rightarrow> 'b list pyres" where
  "reverse_loop lo hi xs =
     (if lo < hi then
        rbind (c_assert (hi < length xs)) (\<lambda>_.
          reverse_loop (lo + 1) (hi - 1) (xs[lo := xs ! hi, hi := xs ! lo]))
      else Inr xs)"
  by pat_completeness auto
termination by (relation "measure (\<lambda>(lo, hi, xs). hi - lo)") auto

definition reverse_slice :: "nat \<Rightarrow> nat \<Rightarrow> 'b list \<Rightarrow> 'b list pyres" where
  "reverse_slice lo hi xs = reverse_loop lo (hi - 1) xs"

definition list_reverse :: "('a pylist, unit) py" where
  "list_reverse = (\<lambda>l.
     if list_size l > 1 then
       (case reverse_slice 0 (nat (list_size l)) (slots l) of
          Inl e \<Rightarrow> (l, Inl e)
        | Inr xs \<Rightarrow> (l\<lparr>ob_item := Some xs\<rparr>, Inr ()))
     else (l, Inr ()))"

text \<open>The loops of \<open>list_inplace_repeat\<close>: \<open>k\<close> copies of the first \<open>n\<close> items from slot \<open>p\<close> on.\<close>

fun copy_items :: "int \<Rightarrow> int \<Rightarrow> nat \<Rightarrow> ('a pylist, unit) py" where
  "copy_items src p 0 = sret ()"
| "copy_items src p (Suc n) =
     sbind (slot_get src) (\<lambda>x. sbind (slot_set p x) (\<lambda>_. copy_items (src + 1) (p + 1) n))"

fun repeat_items :: "int \<Rightarrow> nat \<Rightarrow> nat \<Rightarrow> ('a pylist, unit) py" where
  "repeat_items p n 0 = sret ()"
| "repeat_items p n (Suc k) = sbind (copy_items 0 p n) (\<lambda>_. repeat_items (p + int n) n k)"

definition list_inplace_repeat :: "int \<Rightarrow> ('a pylist, unit) py" where
  "list_inplace_repeat n =
     sbind (sget list_size) (\<lambda>sz.
       if sz = 0 \<or> n = 1 then sret ()
       else if n < 1 then list_clear
       else if sz > PY_SSIZE_T_MAX div n then sraise MemoryError
       else sbind (list_resize (sz * n)) (\<lambda>_. repeat_items sz (nat sz) (nat (n - 1))))"

text \<open>
  \<open>list_extend\<close> with a list or a tuple, \<open>None\<close> being the list itself: its items are read after the
  resize.
\<close>

definition list_extend_seq :: "'a list option \<Rightarrow> ('a pylist, unit) py" where
  "list_extend_seq src =
     sbind (sget list_size) (\<lambda>m.
     let n = (case src of None \<Rightarrow> m | Some xs \<Rightarrow> int (length xs))
     in if n = 0 then sret ()
        else
          sbind (sassert (m < PY_SSIZE_T_MAX - n)) (\<lambda>_.
          sbind (sget ob_item) (\<lambda>items.
          sbind (if items = None then
                   sbind (list_preallocate_exact n) (\<lambda>_. smodify (list_size_update (\<lambda>_. n)))
                 else list_resize (m + n)) (\<lambda>_.
            case src of
              None \<Rightarrow> copy_items 0 m (nat n)
            | Some xs \<Rightarrow> write_items m xs))))"

text \<open>
  \<open>list_extend\<close> with an iterator. A step of the iterator is an operation on the interpreter's
  state, the list included, that yields an item or raises; \<open>steps\<close> are the answers it gives
  before it is exhausted. \<open>hint\<close> is \<open>PyObject_LengthHint\<close>, which may run user code as well.
\<close>

definition extend_item :: "'a \<Rightarrow> ('a pylist, unit) py" where
  "extend_item item =
     sbind (sget list_size) (\<lambda>n.
     sbind (sget allocated) (\<lambda>a.
       if n < a then sbind (slot_set n item) (\<lambda>_. smodify (list_size_update (\<lambda>_. n + 1)))
       else app1 item))"

fun extend_items :: "('a pylist \<times> 'w, 'a) py list \<Rightarrow> ('a pylist \<times> 'w, unit) py" where
  "extend_items [] = sret ()"
| "extend_items (next # steps) =
     sbind next (\<lambda>item. sbind (on_fst (extend_item item)) (\<lambda>_. extend_items steps))"

definition extend_room :: "int \<Rightarrow> ('a pylist, unit) py" where
  "extend_room n =
     sbind (sget list_size) (\<lambda>m.
     sbind (sget ob_item) (\<lambda>items.
       if m > PY_SSIZE_T_MAX - n then sret ()
       else if items = None then (if n \<noteq> 0 then list_preallocate_exact n else sret ())
       else sbind (list_resize (m + n)) (\<lambda>_. smodify (list_size_update (\<lambda>_. m)))))"

definition extend_cut :: "('a pylist, unit) py" where
  "extend_cut =
     sbind (sget list_size) (\<lambda>n.
     sbind (sget allocated) (\<lambda>a. if n < a then list_resize n else sret ()))"

definition list_extend_iter ::
    "('a pylist \<times> 'w, int) py \<Rightarrow> ('a pylist \<times> 'w, 'a) py list \<Rightarrow> ('a pylist \<times> 'w, unit) py" where
  "list_extend_iter hint steps =
     sbind hint (\<lambda>n.
     sbind (on_fst (extend_room n)) (\<lambda>_.
     sbind (extend_items steps) (\<lambda>_.
       on_fst extend_cut)))"

subsection \<open>Searches\<close>

text \<open>\<open>eq\<close> is \<open>PyObject_RichCompareBool(item, value, Py_EQ)\<close>.\<close>

type_synonym ('a, 'w) eqcmp = "'a \<Rightarrow> 'a \<Rightarrow> ('a pylist \<times> 'w, bool) py"

function list_contains_loop :: "('a, 'w) eqcmp \<Rightarrow> 'a \<Rightarrow> int \<Rightarrow> ('a pylist \<times> 'w, bool) py" where
  "list_contains_loop eq el i =
     sbind (on_fst (sget list_size)) (\<lambda>n.
       if i < n \<and> i < LIST_MAX then
         sbind (on_fst (slot_get i)) (\<lambda>item.
         sbind (eq item el) (\<lambda>cmp.
           if cmp then sret True else list_contains_loop eq el (i + 1)))
       else sret False)"
  by pat_completeness auto
termination by (relation "measure (\<lambda>(eq, el, i). nat (LIST_MAX - i))") auto

definition list_contains :: "('a, 'w) eqcmp \<Rightarrow> 'a \<Rightarrow> ('a pylist \<times> 'w, bool) py" where
  "list_contains eq el = list_contains_loop eq el 0"

function list_index_loop :: "('a, 'w) eqcmp \<Rightarrow> 'a \<Rightarrow> int \<Rightarrow> int \<Rightarrow> ('a pylist \<times> 'w, int) py" where
  "list_index_loop eq value i stop =
     sbind (on_fst (sget list_size)) (\<lambda>n.
       if i < stop \<and> i < n \<and> i < LIST_MAX then
         sbind (on_fst (slot_get i)) (\<lambda>obj.
         sbind (eq obj value) (\<lambda>cmp.
           if cmp then sret i else list_index_loop eq value (i + 1) stop))
       else sraise ValueError)"
  by pat_completeness auto
termination by (relation "measure (\<lambda>(eq, el, i, stop). nat (LIST_MAX - i))") auto

definition list_index :: "('a, 'w) eqcmp \<Rightarrow> 'a \<Rightarrow> int \<Rightarrow> int \<Rightarrow> ('a pylist \<times> 'w, int) py" where
  "list_index eq value start stop =
     sbind (on_fst (sget list_size)) (\<lambda>n.
       let start = (if start < 0 then (if start + n < 0 then 0 else start + n) else start);
           stop = (if stop < 0 then (if stop + n < 0 then 0 else stop + n) else stop)
       in list_index_loop eq value start stop)"

text \<open>\<open>count\<close> tests identity before it compares.\<close>

function list_count_loop :: "('a, 'w) eqcmp \<Rightarrow> 'a \<Rightarrow> int \<Rightarrow> int \<Rightarrow> ('a pylist \<times> 'w, int) py" where
  "list_count_loop eq value i count =
     sbind (on_fst (sget list_size)) (\<lambda>n.
       if i < n \<and> i < LIST_MAX then
         sbind (on_fst (slot_get i)) (\<lambda>obj.
           if obj = value then list_count_loop eq value (i + 1) (count + 1)
           else
             sbind (eq obj value) (\<lambda>cmp.
               list_count_loop eq value (i + 1) (if cmp then count + 1 else count)))
       else sret count)"
  by pat_completeness auto
termination by (relation "measure (\<lambda>(eq, el, i, count). nat (LIST_MAX - i))") auto

definition list_count :: "('a, 'w) eqcmp \<Rightarrow> 'a \<Rightarrow> ('a pylist \<times> 'w, int) py" where
  "list_count eq value = list_count_loop eq value 0 0"

function list_remove_loop :: "('a, 'w) eqcmp \<Rightarrow> 'a \<Rightarrow> int \<Rightarrow> ('a pylist \<times> 'w, unit) py" where
  "list_remove_loop eq value i =
     sbind (on_fst (sget list_size)) (\<lambda>n.
       if i < n \<and> i < LIST_MAX then
         sbind (on_fst (slot_get i)) (\<lambda>obj.
         sbind (eq obj value) (\<lambda>cmp.
           if cmp then on_fst (list_ass_slice i (i + 1) None)
           else list_remove_loop eq value (i + 1)))
       else sraise ValueError)"
  by pat_completeness auto
termination by (relation "measure (\<lambda>(eq, el, i). nat (LIST_MAX - i))") auto

definition list_remove :: "('a, 'w) eqcmp \<Rightarrow> 'a \<Rightarrow> ('a pylist \<times> 'w, unit) py" where
  "list_remove eq value = list_remove_loop eq value 0"

subsection \<open>Comparison of two lists\<close>

text \<open>The state holds both lists. The result is the position of the first difference.\<close>

definition on_snd :: "('s, 'a) py \<Rightarrow> ('r \<times> 's \<times> 'w, 'a) py" where
  "on_snd m = (\<lambda>(r, s, w). let (s', x) = m s in ((r, s', w), x))"

function richcompare_loop ::
    "('a \<Rightarrow> 'a \<Rightarrow> ('a pylist \<times> 'a pylist \<times> 'w, bool) py) \<Rightarrow> int \<Rightarrow> ('a pylist \<times> 'a pylist \<times> 'w, int) py" where
  "richcompare_loop eq i =
     sbind (on_fst (sget list_size)) (\<lambda>n.
     sbind (on_snd (sget list_size)) (\<lambda>m.
       if i < n \<and> i < m \<and> i < LIST_MAX then
         sbind (on_fst (slot_get i)) (\<lambda>vitem.
         sbind (on_snd (slot_get i)) (\<lambda>witem.
           if vitem = witem then richcompare_loop eq (i + 1)
           else
             sbind (eq vitem witem) (\<lambda>k.
               if \<not> k then sret i else richcompare_loop eq (i + 1))))
       else sret i))"
  by pat_completeness auto
termination by (relation "measure (\<lambda>(eq, i). nat (LIST_MAX - i))") auto

definition list_richcompare ::
    "('a \<Rightarrow> 'a \<Rightarrow> ('a pylist \<times> 'a pylist \<times> 'w, bool) py) \<Rightarrow>
     ('a \<Rightarrow> 'a \<Rightarrow> cmpop \<Rightarrow> ('a pylist \<times> 'a pylist \<times> 'w, 'r) py) \<Rightarrow> (bool \<Rightarrow> 'r) \<Rightarrow> cmpop \<Rightarrow>
     ('a pylist \<times> 'a pylist \<times> 'w, 'r) py" where
  "list_richcompare eq cmp mk_bool op =
     sbind (on_fst (sget list_size)) (\<lambda>n.
     sbind (on_snd (sget list_size)) (\<lambda>m.
       if n \<noteq> m \<and> (op = Py_EQ \<or> op = Py_NE) then sret (mk_bool (op = Py_NE))
       else
         sbind (richcompare_loop eq 0) (\<lambda>i.
         sbind (on_fst (sget list_size)) (\<lambda>n.
         sbind (on_snd (sget list_size)) (\<lambda>m.
           if i \<ge> n \<or> i \<ge> m then sret (mk_bool (py_richcompare_int n m op))
           else if op = Py_EQ then sret (mk_bool False)
           else if op = Py_NE then sret (mk_bool True)
           else
             sbind (on_fst (slot_get i)) (\<lambda>v.
             sbind (on_snd (slot_get i)) (\<lambda>w. cmp v w op)))))))"

declare reverse_loop.simps [simp del] list_contains_loop.simps [simp del] list_index_loop.simps [simp del]
  list_count_loop.simps [simp del] list_remove_loop.simps [simp del] richcompare_loop.simps [simp del]

section \<open>Removal and assignment of items\<close>

lemma wf_list_ssize: "wf_list l \<Longrightarrow> list_size l \<le> PY_SSIZE_T_MAX"
  using wf_list_max [of l] by (simp add: PY_SSIZE_T_MAX_def)

lemma spliced_one:
  assumes "i < length xs"
  shows "spliced xs (int i) (int i + 1) vs = take i xs @ vs @ drop (Suc i) xs"
  using assms by (simp add: spliced_def slice_lo_def slice_hi_def nat_add_distrib)

lemma wp_delete_item:
  assumes "wf_list l" and "0 \<le> i" and "i < list_size l"
  shows "wp (list_ass_slice i (i + 1) None)
    (\<lambda>_ l'. wf_list l' \<and> elems l' = take (nat i) (elems l) @ drop (Suc (nat i)) (elems l)) E l"
proof -
  have "nat i < length (elems l)" using assms wf_listD(6) [OF assms(1)] by simp
  from spliced_one [OF this, of "[]"] show ?thesis
    using assms(2) by (intro wp_mono [OF wp_list_ass_slice [OF assms(1), of None i "i + 1"]]) simp_all
qed

lemma wp_cut_last:
  assumes wf: "wf_list l" and "0 < list_size l"
  shows "wp (list_resize (list_size l - 1)) (\<lambda>_ l'. wf_list l' \<and> elems l' = butlast (elems l)) E l"
proof (rule wp_list_resize_shrink [OF wf])
  have m: "0 \<le> list_size l - 1" "list_size l - 1 \<le> PY_SSIZE_T_MAX"
    using assms(2) wf_list_ssize [OF wf] by simp_all
  show "wp (list_resize (list_size l - 1)) (\<lambda>_ l'. wf_list l' \<and> elems l' = butlast (elems l))
    (\<lambda>e l'. LIST_MAX < list_size l - 1 + (list_size l - 1) div 8 + 6) l"
  proof (rule wp_mono [OF wp_list_resize [OF wf m]], goal_cases)
    case (1 _ l')
    obtain ys where ys: "slots l' = map Some (take (nat (list_size l - 1)) (elems l)) @ ys"
      "list_size l' = list_size l - 1" "allocated l' = int (length (slots l'))" "int (length (slots l')) \<le> LIST_MAX"
      using resized_slots [OF wf 1 m(1)] by auto
    have "take (nat (list_size l - 1)) (elems l) = butlast (elems l)"
      using wf_listD(6) [OF wf] assms(2) by (simp add: butlast_conv_take nat_diff_distrib')
    then show ?case
      using wf_listI [of l' "butlast (elems l)" ys] ys wf_listD(6) [OF wf] assms(2) by simp
  qed simp
qed (use assms(2) in simp_all)

text \<open>An index of Python: negative ones count from the end.\<close>

definition norm_index :: "int \<Rightarrow> int \<Rightarrow> int" where
  "norm_index n i = (if i < 0 then i + n else i)"

lemma wp_list_pop:
  assumes wf: "wf_list l" and i: "- (2 ^ 63) \<le> i" "i < 2 ^ 63"
  shows "wp (list_pop i)
    (\<lambda>v l'. let k = norm_index (list_size l) i in 0 \<le> k \<and> k < list_size l \<and> wf_list l' \<and>
       v = elems l ! nat k \<and> elems l' = take (nat k) (elems l) @ drop (Suc (nat k)) (elems l))
    (\<lambda>e l'. e = IndexError \<and> l' = l \<and>
       \<not> (0 \<le> norm_index (list_size l) i \<and> norm_index (list_size l) i < list_size l)) l"
proof (cases "list_size l = 0")
  case True
  then show ?thesis by (simp add: list_pop_def norm_index_def)
next
  case False
  let ?k = "norm_index (list_size l) i"
  have n: "0 < list_size l" "list_size l \<le> PY_SSIZE_T_MAX"
    using False wf_listD(1) [OF wf] wf_list_ssize [OF wf] by simp_all
  have "- (2 ^ 63) \<le> ?k" "?k < 2 ^ 63"
    using i n by (simp_all add: norm_index_def PY_SSIZE_T_MAX_def)
  note v = valid_index_iff [OF this less_imp_le [OF n(1)] n(2)]
  show ?thesis
  proof (cases "0 \<le> ?k \<and> ?k < list_size l")
    case True
    note g = wf_list_get [OF wf conjunct1 [OF True] conjunct2 [OF True]]
    have del: "wp (list_ass_slice ?k (?k + 1) None)
      (\<lambda>_ l'. wf_list l' \<and> elems l' = take (nat ?k) (elems l) @ drop (Suc (nat ?k)) (elems l)) E l" for E
      using wp_delete_item [OF wf] True by blast
    have last: "take (nat ?k) (elems l) @ drop (Suc (nat ?k)) (elems l) = butlast (elems l)"
      if "?k = list_size l - 1"
      using that wf_listD(6) [OF wf] n(1) by (simp add: butlast_conv_take nat_diff_distrib')
    show ?thesis
      using False v True g del wp_cut_last [OF wf n(1)] last
      by (auto simp: list_pop_def Let_def norm_index_def [symmetric])
  next
    case False
    then show ?thesis
      using v by (simp add: list_pop_def Let_def norm_index_def [symmetric])
  qed
qed

lemma wp_list_ass_item:
  assumes wf: "wf_list l" and i: "- (2 ^ 63) \<le> i" "i < 2 ^ 63"
  shows "wp (list_ass_item i v)
    (\<lambda>_ l'. 0 \<le> i \<and> i < list_size l \<and> wf_list l' \<and>
       elems l' = take (nat i) (elems l) @ (case v of None \<Rightarrow> [] | Some x \<Rightarrow> [x]) @ drop (Suc (nat i)) (elems l))
    (\<lambda>e l'. e = IndexError \<and> l' = l \<and> \<not> (0 \<le> i \<and> i < list_size l)) l"
proof -
  note vi = valid_index_iff [OF i wf_listD(1) [OF wf] wf_list_ssize [OF wf]]
  show ?thesis
  proof (cases "0 \<le> i \<and> i < list_size l")
    case True
    note g = wf_list_get [OF wf conjunct1 [OF True] conjunct2 [OF True]]
    note st = wf_list_set [OF wf conjunct1 [OF True] conjunct2 [OF True]]
    have len: "nat i < length (elems l)" using True wf_listD(6) [OF wf] by simp
    show ?thesis
    proof (cases v)
      case None
      then show ?thesis
        using True vi wp_delete_item [OF wf] by (simp add: list_ass_item_def)
    next
      case (Some x)
      then show ?thesis
        using True vi g st len by (simp add: list_ass_item_def upd_conv_take_nth_drop)
    qed
  qed (simp add: list_ass_item_def vi)
qed

section \<open>Reversal\<close>

lemma reverse_loop_correct:
  assumes "length B = Suc hi - lo" and "lo = length A" and "lo \<le> Suc hi"
  shows "reverse_loop lo hi (A @ B @ C) = Inr (A @ rev B @ C)"
  using assms
proof (induction "hi - lo" arbitrary: lo hi A B C rule: less_induct)
  case less
  show ?case
  proof (cases "lo < hi")
    case False
    then have "length B \<le> 1" using less.prems(1) by simp
    then have "rev B = B" by (cases B) auto
    then show ?thesis using False by (simp add: reverse_loop.simps)
  next
    case True
    then have "length B = Suc (Suc (hi - lo - 1))" using less.prems(1) by simp
    then obtain x B' where B: "B = x # B'" "length B' = Suc (hi - lo - 1)" by (auto simp: length_Suc_conv)
    then obtain M y where M: "B' = M @ [y]" by (cases B' rule: rev_cases) auto
    then have lm: "length M = hi - lo - 1" using B by simp
    let ?xs = "A @ B @ C"
    have hi: "hi = length (A @ x # M)" using True lm less.prems(2) by simp
    have xs: "?xs = (A @ x # M) @ y # C" using B M by simp
    have g: "?xs ! lo = x" "?xs ! hi = y"
      unfolding hi xs nth_append_length using less.prems(2) by (simp_all add: nth_append)
    have "?xs[lo := y, hi := x] = ((A @ x # M)[lo := y] @ y # C)[length (A @ x # M) := x]"
      using less.prems(2) unfolding xs hi by (simp add: list_update_append)
    also have "\<dots> = (A @ y # M @ x # C)" using less.prems(2) by (simp add: list_update_append)
    finally have up: "?xs[lo := y, hi := x] = (A @ [y]) @ M @ (x # C)" by simp
    have "reverse_loop (lo + 1) (hi - 1) ((A @ [y]) @ M @ (x # C)) = Inr ((A @ [y]) @ rev M @ x # C)"
      by (rule less.hyps) (use True lm less.prems(2) in simp_all)
    moreover have "hi < length ?xs" unfolding hi xs by simp
    ultimately show ?thesis
      using True g up B M by (simp add: reverse_loop.simps [of lo hi])
  qed
qed

lemma reverse_slice_correct:
  assumes "lo < hi" and "hi \<le> length xs"
  shows "reverse_slice lo hi xs = Inr (take lo xs @ rev (drop lo (take hi xs)) @ drop hi xs)"
proof -
  have "xs = take lo xs @ drop lo (take hi xs) @ drop hi xs"
    using assms by (metis append_assoc append_take_drop_id less_imp_le_nat min_absorb1 take_take)
  then show ?thesis
    using assms reverse_loop_correct [of "drop lo (take hi xs)" "hi - 1" lo "take lo xs" "drop hi xs"]
    by (simp add: reverse_slice_def)
qed

lemma wp_list_reverse:
  assumes wf: "wf_list l"
  shows "wp list_reverse (\<lambda>_ l'. wf_list l' \<and> elems l' = rev (elems l) \<and> allocated l' = allocated l) E l"
proof (cases "list_size l > 1")
  case False
  then have "length (elems l) \<le> 1" using wf_listD(6) [OF wf] by simp
  then have "rev (elems l) = elems l" by (cases "elems l") auto
  then show ?thesis using False wf by (simp add: list_reverse_def wp_def)
next
  case True
  note w = wf_listD [OF wf]
  let ?n = "nat (list_size l)"
  obtain S where S: "slots l = map Some (elems l) @ S" using wf_list_slots [OF wf] by metis
  have "reverse_slice 0 ?n (slots l) = Inr (rev (map Some (elems l)) @ S)"
    using reverse_slice_correct [of 0 ?n "slots l"] True w(2,4,6) S by simp
  then show ?thesis
    using True w(3,7,8) S wf_listI [of "l\<lparr>ob_item := Some (map Some (rev (elems l)) @ S)\<rparr>" "rev (elems l)" S]
    by (simp add: wp_def list_reverse_def rev_map)
qed

section \<open>Repetition in place and extension\<close>

lemma wp_copy_items:
  assumes "slots l = map Some P @ Q @ R" and "length Q = n" and "p = int (length P)" and "j = nat src"
    and "0 \<le> src" and "src \<le> p" and "src < p \<or> n = 0"
  shows "wp (copy_items src p n)
    (\<lambda>_ l'. \<exists>xs. slots l' = map Some (P @ xs) @ R \<and> length xs = n \<and>
      (\<forall>k < n. xs ! k = (P @ xs) ! (j + k)) \<and>
      list_size l' = list_size l \<and> allocated l' = allocated l)
    E l"
  using assms
proof (induction n arbitrary: src p l P Q j)
  case 0
  then show ?case by simp
next
  case (Suc n)
  obtain q Q' where Q: "Q = q # Q'" "length Q' = n" using Suc.prems(2) by (auto simp: length_Suc_conv)
  have src: "nat src < length P" using Suc.prems(3,5,7) by simp
  let ?x = "P ! nat src"
  let ?l = "l\<lparr>ob_item := Some ((slots l)[length P := Some ?x])\<rparr>"
  have g: "slots l ! nat src = Some ?x" using Suc.prems(1) src by (simp add: nth_append)
  have "slots ?l = map Some (P @ [?x]) @ Q' @ R" using Suc.prems(1) Q by (simp add: list_update_append)
  from Suc.IH [OF this Q(2) _ refl, of "p + 1" "src + 1"] Suc.prems(3,5,7)
  have IH: "wp (copy_items (src + 1) (p + 1) n)
    (\<lambda>_ l'. \<exists>xs. slots l' = map Some ((P @ [?x]) @ xs) @ R \<and> length xs = n \<and>
      (\<forall>k < n. xs ! k = ((P @ [?x]) @ xs) ! (nat (src + 1) + k)) \<and>
      list_size l' = list_size ?l \<and> allocated l' = allocated ?l) E ?l" by simp
  have "wp (copy_items (src + 1) (p + 1) n)
    (\<lambda>_ l'. \<exists>xs. slots l' = map Some (P @ xs) @ R \<and> length xs = Suc n \<and>
      (\<forall>k < Suc n. xs ! k = (P @ xs) ! (j + k)) \<and>
      list_size l' = list_size l \<and> allocated l' = allocated l) E ?l"
  proof (rule wp_mono [OF IH], goal_cases)
    case (1 _ l')
    then obtain xs where xs: "slots l' = map Some ((P @ [?x]) @ xs) @ R" "length xs = n"
      "\<And>k. k < n \<Longrightarrow> xs ! k = ((P @ [?x]) @ xs) ! (nat (src + 1) + k)"
      "list_size l' = list_size l" "allocated l' = allocated l" by auto
    have "(?x # xs) ! k = (P @ ?x # xs) ! (j + k)" if "k < Suc n" for k
    proof (cases k)
      case 0
      then show ?thesis using src Suc.prems(4) by (simp add: nth_append)
    next
      case (Suc m)
      have "nat (src + 1) + m = j + k" using Suc Suc.prems(4,5) by simp
      then show ?thesis using xs(3) [of m] Suc that by simp
    qed
    then show ?case using xs by (intro exI [of _ "?x # xs"]) simp
  qed simp
  then show ?case using Suc.prems(1,3,5) Q src g by simp
qed

lemma self_copy:
  assumes "length xs = n" and "n \<le> length P" and "\<forall>k < n. xs ! k = (P @ xs) ! k"
  shows "xs = take n P"
  by (rule nth_equalityI) (use assms in \<open>simp_all add: nth_append\<close>)

lemma wp_repeat_items:
  assumes "slots l = map Some (X @ P) @ Q @ R" and "length Q = k * length X" and "p = int (length (X @ P))"
    and "X \<noteq> []"
  shows "wp (repeat_items p (length X) k)
    (\<lambda>_ l'. slots l' = map Some (X @ P @ concat (replicate k X)) @ R \<and>
      list_size l' = list_size l \<and> allocated l' = allocated l) E l"
  using assms
proof (induction k arbitrary: p l P Q)
  case (Suc k)
  let ?Q = "take (length X) Q" and ?Q' = "drop (length X) Q"
  have lQ: "length ?Q = length X" "length ?Q' = k * length X" using Suc.prems(2) by simp_all
  have sl: "slots l = map Some (X @ P) @ ?Q @ ?Q' @ R" using Suc.prems(1) by simp
  have pos: "0 < length X" using Suc.prems(4) by simp
  have "wp (copy_items 0 p (length X)) (\<lambda>_ l'. slots l' = map Some (X @ P @ X) @ ?Q' @ R \<and>
      list_size l' = list_size l \<and> allocated l' = allocated l) E l"
  proof (rule wp_mono [OF wp_copy_items [OF sl lQ(1) Suc.prems(3) refl]], goal_cases)
    case (4 _ l')
    then obtain xs where xs: "slots l' = map Some ((X @ P) @ xs) @ ?Q' @ R" "length xs = length X"
      "\<forall>k < length X. xs ! k = ((X @ P) @ xs) ! k" "list_size l' = list_size l" "allocated l' = allocated l"
      by auto
    have "xs = take (length X) (X @ P)" by (rule self_copy [OF xs(2) _ xs(3)]) simp
    then have "xs = X" by simp
    then show ?case using xs by simp
  qed (use Suc.prems(3) pos in \<open>simp_all del: length_greater_0_conv\<close>)
  then show ?case
    unfolding repeat_items.simps wp_sbind
  proof (rule wp_mono, goal_cases)
    case (1 _ l')
    have "wp (repeat_items (p + int (length X)) (length X) k)
      (\<lambda>_ l''. slots l'' = map Some (X @ (P @ X) @ concat (replicate k X)) @ R \<and>
        list_size l'' = list_size l' \<and> allocated l'' = allocated l') E l'"
      by (rule Suc.IH [of l' "P @ X" ?Q']) (use 1 lQ(2) Suc.prems(3,4) in simp_all)
    then show ?case by (rule wp_mono) (use 1 in simp_all)
  qed
qed simp

lemma wp_list_inplace_repeat:
  assumes wf: "wf_list l"
  shows "wp (list_inplace_repeat n)
    (\<lambda>_ l'. wf_list l' \<and> elems l' = concat (replicate (nat n) (elems l)))
    (\<lambda>e l'. e = MemoryError \<and> l' = l) l"
proof -
  note w = wf_listD [OF wf]
  consider (noop) "list_size l = 0 \<or> n = 1" | (zero) "\<not> (list_size l = 0 \<or> n = 1)" "n < 1"
    | (big) "\<not> (list_size l = 0 \<or> n = 1)" "\<not> n < 1" "list_size l > PY_SSIZE_T_MAX div n"
    | (rep) "\<not> (list_size l = 0 \<or> n = 1)" "\<not> n < 1" "\<not> list_size l > PY_SSIZE_T_MAX div n"
    by blast
  then show ?thesis
  proof cases
    case noop
    then have "concat (replicate (nat n) (elems l)) = elems l" using w(6) by auto
    then show ?thesis using noop wf by (auto simp: list_inplace_repeat_def)
  next
    case zero
    then show ?thesis using wp_list_clear [OF wf] by (simp add: list_inplace_repeat_def)
  next
    case big
    then show ?thesis by (simp add: list_inplace_repeat_def)
  next
    case rep
    let ?X = "elems l"
    have n: "1 < n" using rep(1,2) by simp
    have "list_size l * n \<le> PY_SSIZE_T_MAX div n * n" using rep(3) n by (simp add: mult_right_mono)
    also have "\<dots> \<le> PY_SSIZE_T_MAX" using div_mult_mod_eq [of PY_SSIZE_T_MAX n] pos_mod_sign [of n PY_SSIZE_T_MAX] n by linarith
    finally have m: "0 \<le> list_size l * n" "list_size l * n \<le> PY_SSIZE_T_MAX" using w(1) n by simp_all
    have X: "?X \<noteq> []" using rep(1) w(6,7) by auto
    have len: "nat (list_size l) = length ?X" using w(6) by simp
    have step: "wp (repeat_items (list_size l) (length ?X) (nat (n - 1)))
      (\<lambda>_ l'. wf_list l' \<and> elems l' = concat (replicate (nat n) ?X)) E l1"
      if r: "resized l (list_size l * n) l1" for l1 E
    proof -
      have e: "list_size l * n = list_size l + list_size l * (n - 1)" by (simp add: algebra_simps)
      have "0 \<le> list_size l * (n - 1)" using w(1) n by simp
      from resized_grow [OF wf r [unfolded e] this]
      obtain ys where ys: "slots l1 = map Some ?X @ ys" "list_size l * (n - 1) \<le> int (length ys)"
        "allocated l1 = int (length ?X + length ys)" "allocated l1 \<le> LIST_MAX" by auto
      let ?k = "nat (n - 1)"
      have sz: "int (?k * length ?X) = list_size l * (n - 1)"
        using w(7) n by (simp add: mult.commute)
      then have k: "?k * length ?X \<le> length ys" using ys(2) by linarith
      let ?Q = "take (?k * length ?X) ys" and ?R = "drop (?k * length ?X) ys"
      have "slots l1 = map Some (?X @ []) @ ?Q @ ?R" using ys(1) by simp
      note rp = wp_repeat_items [OF this, of ?k "list_size l" E]
      have c: "?X @ concat (replicate ?k ?X) = concat (replicate (nat n) ?X)"
        using n by (simp add: nat_diff_distrib' flip: replicate_Suc concat.simps(2))
      have lc: "int (length (concat (replicate (nat n) ?X))) = list_size l * n"
        using w(7) n by (simp add: length_concat_replicate mult.commute)
      show ?thesis
      proof (rule wp_mono [OF rp], goal_cases)
        case (4 _ l')
        then have l': "slots l' = map Some (concat (replicate (nat n) ?X)) @ ?R" using c by simp
        have "length (slots l') = length (slots l1)"
          using k unfolding l' ys(1) by (simp add: length_concat_replicate c [symmetric])
        then show ?case
          using wf_listI [OF l'] 4 r lc ys by (simp add: resized_def)
      qed (use k X w(7) in simp_all)
    qed
    show ?thesis
      unfolding list_inplace_repeat_def wp_sbind wp_sget wp_if if_not_P [OF rep(1)] if_not_P [OF rep(2)]
        if_not_P [OF rep(3)] len
      by (rule wp_mono [OF wp_list_resize [OF wf m] step]) simp_all
  qed
qed

lemma wp_list_preallocate_exact:
  assumes wf: "wf_list l" and None: "ob_item l = None" and n: "0 < n" "n \<le> PY_SSIZE_T_MAX"
  shows "wp (list_preallocate_exact n)
    (\<lambda>_ l'. \<exists>k. slots l' = replicate k None \<and> n \<le> int k \<and> list_size l' = 0 \<and> allocated l' = int k \<and> int k \<le> LIST_MAX)
    (\<lambda>e l'. e = MemoryError \<and> l' = l \<and> LIST_MAX \<le> n) l"
proof -
  have sz: "list_size l = 0"
    using wf_listD(1,2,8) [OF wf] None by (simp add: slots_def)
  define k where "k = (word_of_int (n + 1) AND NOT 1 :: size_t)"
  have "uint (word_of_int (n + 1) :: size_t) = n + 1"
    using n by (intro uint_of_int_small) (simp_all add: PY_SSIZE_T_MAX_def)
  then have u: "uint k = n + 1 - (n + 1) mod 2" by (simp add: k_def uint_and_not_1)
  have lim: "uint (word_of_int PY_SSIZE_T_MAX div 8 :: size_t) = LIST_MAX"
    by (simp add: PY_SSIZE_T_MAX_def uint_div)
  have b: "n \<le> uint k" "uint k \<le> n + 1"
    using u pos_mod_bound [of 2 "n + 1"] pos_mod_sign [of 2 "n + 1"] by linarith+
  have un: "int (unat k) = uint k" by simp
  show ?thesis
  proof (cases "k > word_of_int PY_SSIZE_T_MAX div 8")
    case True
    then have "LIST_MAX < uint k" by (simp only: word_less_def lim)
    then have "LIST_MAX \<le> n" using b(2) by linarith
    then show ?thesis
      unfolding list_preallocate_exact_def Let_def k_def [symmetric] if_P [OF True]
      using None n(1) by simp
  next
    case False
    then have "uint k \<le> LIST_MAX" by (simp only: word_less_def lim not_less)
    then have le: "unat k \<le> 1152921504606846975" using un unfolding LIST_MAX_eq by linarith
    show ?thesis
      unfolding list_preallocate_exact_def Let_def k_def [symmetric] if_not_P [OF False] wp_sbind wp_sget wp_smodify
      using None n(1) sz b(1) un le by (auto intro!: exI [of _ "unat k"])
  qed
qed

lemma wp_list_extend_seq:
  assumes wf: "wf_list l" and max: "int (length (case src of None \<Rightarrow> elems l | Some xs \<Rightarrow> xs)) \<le> LIST_MAX"
  shows "wp (list_extend_seq src)
    (\<lambda>_ l'. wf_list l' \<and> elems l' = elems l @ (case src of None \<Rightarrow> elems l | Some xs \<Rightarrow> xs))
    (\<lambda>e l'. e = MemoryError \<and> l' = l) l"
proof -
  note w = wf_listD [OF wf]
  define vs where "vs = (case src of None \<Rightarrow> elems l | Some xs \<Rightarrow> xs)"
  let ?m = "list_size l" and ?n = "int (length vs)"
  let ?E = "\<lambda>e l'. e = MemoryError \<and> l' = l"
  let ?fill = "case src of None \<Rightarrow> copy_items 0 ?m (length vs) | Some xs \<Rightarrow> write_items ?m xs"
  have n: "(case src of None \<Rightarrow> ?m | Some xs \<Rightarrow> int (length xs)) = ?n"
    using w(7) by (cases src) (simp_all add: vs_def)
  have mx: "?n \<le> LIST_MAX" using max by (simp add: vs_def)
  have fill: "wp ?fill (\<lambda>_ l'. wf_list l' \<and> elems l' = elems l @ vs) ?E l1"
    if sl: "slots l1 = map Some (elems l) @ ys" "?n \<le> int (length ys)" "list_size l1 = ?m + ?n"
      "allocated l1 = int (length (slots l1))" "int (length (slots l1)) \<le> LIST_MAX" and ne: "vs \<noteq> []" for l1 ys
  proof -
    let ?Q = "take (length vs) ys" and ?R = "drop (length vs) ys"
    have s: "slots l1 = map Some (elems l) @ ?Q @ ?R" "length ?Q = length vs" using sl by simp_all
    show ?thesis
    proof (cases src)
      case (Some xs)
      have "slots l1 = map Some (elems l) @ ?Q @ map Some [] @ ?R" using s(1) by simp
      then have "wp (write_items ?m vs) (\<lambda>_ l'. wf_list l' \<and> elems l' = elems l @ vs @ []) ?E l1"
        by (rule write_items_finish) (use s(2) sl(3-5) w(7) in simp_all)
      then show ?thesis using Some unfolding vs_def by simp
    next
      case None
      then have vs: "vs = elems l" by (simp add: vs_def)
      have pos: "0 < ?m" using ne vs w(6) by (cases "?m > 0") auto
      have "wp (copy_items 0 ?m (length vs)) (\<lambda>_ l'. wf_list l' \<and> elems l' = elems l @ vs) ?E l1"
      proof (rule wp_mono [OF wp_copy_items [OF s _ refl]], goal_cases)
        case (5 _ l')
        then obtain xs where xs: "slots l' = map Some (elems l @ xs) @ ?R" "length xs = length vs"
          "\<forall>k < length vs. xs ! k = (elems l @ xs) ! k" "list_size l' = list_size l1" "allocated l' = allocated l1"
          by auto
        have "xs = take (length vs) (elems l)" by (rule self_copy [OF xs(2) _ xs(3)]) (simp add: vs)
        then have "xs = vs" by (simp add: vs)
        moreover have "length (slots l') = length (slots l1)" using xs(1,2) sl(1,2) by simp
        ultimately show ?case
          using wf_listI [OF xs(1)] xs(4,5) sl(3-5) w(7) by simp
      qed (use w(1,7) pos in simp_all)
      then show ?thesis using None by simp
    qed
  qed
  show ?thesis
  proof (cases "?n = 0")
    case True
    then have "vs = []" by simp
    then show ?thesis
      using wf n True by (simp add: list_extend_seq_def Let_def vs_def [symmetric])
  next
    case False
    then have ne: "vs \<noteq> []" by auto
    have as: "?m < PY_SSIZE_T_MAX - ?n" using w(2,3) mx by (simp add: PY_SSIZE_T_MAX_def)
    note unf = list_extend_seq_def Let_def wp_sbind wp_sget wp_sassert n if_not_P [OF False] if_P [OF as] nat_int
      vs_def [symmetric]
    show ?thesis
    proof (cases "ob_item l")
      case None
      then have el: "elems l = []" "?m = 0" "slots l = []" "allocated l = 0"
        using w(1,2,8) by (auto simp: slots_def elems_def)
      have pos: "0 < ?n" "?n \<le> PY_SSIZE_T_MAX" using ne mx by (simp_all add: PY_SSIZE_T_MAX_def)
      have "wp (list_preallocate_exact ?n)
          (\<lambda>_ l'. wp ?fill (\<lambda>_ l'. wf_list l' \<and> elems l' = elems l @ vs) ?E (l'\<lparr>list_size := ?n\<rparr>)) ?E l"
      proof (rule wp_mono [OF wp_list_preallocate_exact [OF wf None pos]], goal_cases)
        case (1 _ l1)
        then obtain k where k: "slots l1 = replicate k None" "?n \<le> int k" "allocated l1 = int k" "int k \<le> LIST_MAX"
          by auto
        show ?case
          by (rule fill [of "l1\<lparr>list_size := ?n\<rparr>" "replicate k None"]) (use k el ne in simp_all)
      qed simp
      then show ?thesis
        unfolding unf using None by simp
    next
      case (Some items)
      have m: "0 \<le> ?m + ?n" "?m + ?n \<le> PY_SSIZE_T_MAX" using as w(1) by simp_all
      have "wp (list_resize (?m + ?n)) (\<lambda>_. wp ?fill (\<lambda>_ l'. wf_list l' \<and> elems l' = elems l @ vs) ?E) ?E l"
      proof (rule wp_mono [OF wp_list_resize [OF wf m]], goal_cases)
        case (1 _ l1)
        obtain ys where "slots l1 = map Some (elems l) @ ys" "?n \<le> int (length ys)"
          using resized_grow [OF wf 1] by auto
        then show ?case by (rule fill) (use 1 ne in \<open>simp_all add: resized_def\<close>)
      qed simp
      then show ?thesis
        unfolding unf using Some by simp
    qed
  qed
qed

text \<open>Extension by an iterator: what an iterator without effects yields, and safety for any iterator.\<close>

declare split_paired_All [simp del] split_paired_Ex [simp del]

lemma wp_put_next:
  assumes wf: "wf_list l" and "list_size l < allocated l"
  shows "wp (slot_set (list_size l) x)
    (\<lambda>_ l'. wf_list (l'\<lparr>list_size := list_size l + 1\<rparr>) \<and> elems (l'\<lparr>list_size := list_size l + 1\<rparr>) = elems l @ [x]) E l"
proof -
  note w = wf_listD [OF wf]
  obtain S where S: "slots l = map Some (elems l) @ S" using wf_list_slots [OF wf] by metis
  moreover have "length S \<noteq> 0" using assms(2) w(7,8) S by auto
  ultimately obtain s S' where S': "slots l = map Some (elems l) @ s # S'" by (cases S) auto
  have n: "nat (list_size l) = length (elems l)" using w(6) by simp
  let ?l = "l\<lparr>ob_item := Some (map Some (elems l @ [x]) @ S'), list_size := list_size l + 1\<rparr>"
  have "wf_list ?l" "elems ?l = elems l @ [x]"
    using wf_listI [of ?l "elems l @ [x]" S'] w(3,7,8) S' by simp_all
  then show ?thesis using w(1) n S' by (simp add: list_update_append)
qed

lemma wp_extend_item:
  assumes wf: "wf_list l"
  shows "wp (extend_item x) (\<lambda>_ l'. wf_list l' \<and> elems l' = elems l @ [x]) (\<lambda>e l'. e = MemoryError \<and> l' = l) l"
proof (cases "list_size l < allocated l")
  case True
  then show ?thesis
    using wp_put_next [OF wf True] by (simp only: extend_item_def wp_sbind wp_sget wp_if wp_smodify if_True)
next
  case False
  then show ?thesis
    using wp_mono [OF wp_app1 [OF wf, of x]]
    by (simp add: extend_item_def)
qed

lemma wp_extend_room:
  assumes wf: "wf_list l" and n: "0 \<le> n" "n \<le> PY_SSIZE_T_MAX"
  shows "wp (extend_room n) (\<lambda>_ l'. wf_list l' \<and> elems l' = elems l) (\<lambda>e l'. e = MemoryError \<and> l' = l) l"
proof -
  note w = wf_listD [OF wf]
  consider (over) "list_size l > PY_SSIZE_T_MAX - n"
    | (empty) "\<not> list_size l > PY_SSIZE_T_MAX - n" "ob_item l = None"
    | (full) "\<not> list_size l > PY_SSIZE_T_MAX - n" "ob_item l \<noteq> None" by blast
  then show ?thesis
  proof cases
    case over
    then show ?thesis using wf by (simp add: extend_room_def)
  next
    case empty
    have el: "elems l = []" using w(1,2,8) empty(2) by (auto simp: slots_def elems_def)
    show ?thesis
    proof (cases "n = 0")
      case False
      then have pos: "0 < n" using n(1) by simp
      show ?thesis
        unfolding extend_room_def wp_sbind wp_sget wp_if if_not_P [OF empty(1)] if_P [OF empty(2)] if_P [OF False]
      proof (rule wp_mono [OF wp_list_preallocate_exact [OF wf empty(2) pos n(2)]], goal_cases)
        case (1 _ l')
        then obtain k where "slots l' = map Some [] @ replicate k None" "list_size l' = 0" "allocated l' = int k"
          "int k \<le> LIST_MAX" by auto
        then show ?case using wf_listI [of l' "[]" "replicate k None"] el by simp
      qed simp
    qed (use empty wf in \<open>simp add: extend_room_def\<close>)
  next
    case full
    have m: "0 \<le> list_size l + n" "list_size l + n \<le> PY_SSIZE_T_MAX" using full(1) w(1) n(1) by simp_all
    show ?thesis
      unfolding extend_room_def wp_sbind wp_sget wp_if wp_smodify if_not_P [OF full(1)] if_not_P [OF full(2)]
    proof (rule wp_mono [OF wp_list_resize [OF wf m]], goal_cases)
      case (1 _ l')
      obtain ys where "slots l' = map Some (elems l) @ ys" using resized_grow [OF wf 1 n(1)] by auto
      then show ?case
        using wf_listI [of "l'\<lparr>list_size := list_size l\<rparr>" "elems l" ys] 1 w(7) by (simp add: resized_def)
    qed simp
  qed
qed

lemma wp_extend_cut:
  assumes wf: "wf_list l"
  shows "wp extend_cut (\<lambda>_ l'. wf_list l' \<and> elems l' = elems l) E l"
proof -
  note w = wf_listD [OF wf]
  have "wp (list_resize (list_size l)) (\<lambda>_ l'. wf_list l' \<and> elems l' = elems l) E l"
  proof (rule wp_list_resize_shrink [OF wf w(1) order_refl], rule wp_mono [OF wp_list_resize [OF wf w(1) wf_list_ssize [OF wf]]], goal_cases)
    case (1 _ l')
    then show ?case
      using resized_slots [OF wf 1 w(1)] w(6,7) wf_listI [of l' "elems l"] by auto
  qed simp
  then show ?thesis using wf by (simp add: extend_cut_def)
qed

lemma wp_extend_items:
  assumes "wf_list (fst s)"
  shows "wp (extend_items (map sret xs)) (\<lambda>_ t. wf_list (fst t) \<and> elems (fst t) = elems (fst s) @ xs \<and> snd t = snd s)
    (\<lambda>e t. e = MemoryError \<and> wf_list (fst t) \<and> snd t = snd s \<and> (\<exists>k < length xs. elems (fst t) = elems (fst s) @ take k xs)) s"
  using assms
proof (induction xs arbitrary: s)
  case (Cons x xs)
  show ?case
    unfolding list.map extend_items.simps wp_sbind wp_sret wp_on_fst'
  proof (rule wp_mono [OF wp_extend_item [OF Cons.prems]], goal_cases)
    case (1 _ l)
    have "wp (extend_items (map sret xs)) (\<lambda>_ t. wf_list (fst t) \<and> elems (fst t) = elems l @ xs \<and> snd t = snd s)
      (\<lambda>e t. e = MemoryError \<and> wf_list (fst t) \<and> snd t = snd s \<and> (\<exists>k < length xs. elems (fst t) = elems l @ take k xs))
      (l, snd s)"
      using Cons.IH [of "(l, snd s)"] 1 by simp
    then show ?case
    proof (rule wp_mono, goal_cases)
      case (2 e t)
      then obtain k where "k < length xs" "elems (fst t) = elems l @ take k xs" by auto
      then have "Suc k < length (x # xs)" "elems (fst t) = elems (fst s) @ take (Suc k) (x # xs)"
        using 1 by simp_all
      then show ?case using 2 by blast
    qed (use 1 in simp)
  next
    case (2 e t)
    then show ?case using Cons.prems by (auto intro: exI [of _ 0])
  qed
qed simp

lemma wp_list_extend_iter:
  assumes wf: "wf_list (fst s)" and hint: "0 \<le> n" "n \<le> PY_SSIZE_T_MAX"
  shows "wp (list_extend_iter (sret n) (map sret xs))
    (\<lambda>_ t. wf_list (fst t) \<and> elems (fst t) = elems (fst s) @ xs \<and> snd t = snd s)
    (\<lambda>e t. e = MemoryError \<and> wf_list (fst t) \<and> snd t = snd s \<and> (\<exists>k \<le> length xs. elems (fst t) = elems (fst s) @ take k xs)) s"
  unfolding list_extend_iter_def wp_sbind wp_sret wp_on_fst'
proof (rule wp_mono [OF wp_extend_room [OF wf hint]], goal_cases)
  case (1 _ l)
  then have "wf_list (fst (l, snd s))" by simp
  from wp_extend_items [OF this, of xs] show ?case
  proof (rule wp_mono, goal_cases)
    case (1 _ t)
    then show ?case
      by (intro wp_mono [OF wp_extend_cut [where E = "\<lambda>_ _. False"]])
        (use \<open>wf_list l \<and> elems l = elems (fst s)\<close> in auto)
  next
    case (2 e t)
    then show ?case using 1 by (auto intro: less_imp_le)
  qed
next
  case (2 e t)
  then show ?case using wf by (auto intro: exI [of _ 0])
qed

lemma safe_list_extend_iter:
  assumes "\<And>s. wf_list (fst s) \<Longrightarrow>
      wp hint (\<lambda>n t. 0 \<le> n \<and> n \<le> PY_SSIZE_T_MAX \<and> wf_list (fst t)) (\<lambda>e t. e \<noteq> AssertionFailed \<and> wf_list (fst t)) s"
    and "\<And>next. next \<in> set steps \<Longrightarrow> safe next"
  shows "safe (list_extend_iter hint steps)"
proof -
  have items: "safe (extend_items steps)"
    using assms(2)
  proof (induction steps)
    case (Cons a steps)
    have "safe (on_fst (extend_item x))" for x
      by (rule safe_on_fst, rule wp_mono [OF wp_extend_item]) simp_all
    then show ?case using Cons by (auto intro!: safe_sbind)
  qed simp
  have cut: "safe (on_fst extend_cut)"
    by (rule safe_on_fst, rule wp_mono [OF wp_extend_cut [where E = "\<lambda>_ _. False"]]) simp_all
  have rest: "safe (sbind (extend_items steps) (\<lambda>_. on_fst extend_cut))"
    by (intro safe_sbind items cut)
  show ?thesis
    unfolding safe_def list_extend_iter_def wp_sbind [of hint]
  proof (intro allI impI, rule wp_mono [OF assms(1)], assumption, goal_cases)
    case (1 _ n t)
    then show ?case
      unfolding wp_sbind [of "on_fst (extend_room n)"] wp_on_fst'
      by (intro wp_mono [OF wp_extend_room]) (use safeD [OF rest] in auto)
  qed simp
qed

section \<open>Searches under any comparison\<close>

lemma safe_slot_get_then:
  assumes "\<And>item. i < LIST_MAX \<Longrightarrow> safe (f item)" and "0 \<le> i"
  shows "safe (sbind (on_fst (sget list_size)) (\<lambda>n.
    if i < n \<and> c then sbind (on_fst (slot_get i)) f else if b then sret x else sraise ValueError))"
  unfolding safe_def
proof (intro allI impI)
  fix s :: "'a pylist \<times> 'b"
  assume wf: "wf_list (fst s)"
  show "wp (sbind (on_fst (sget list_size)) (\<lambda>n.
      if i < n \<and> c then sbind (on_fst (slot_get i)) f else if b then sret x else sraise ValueError)) SafeQ SafeE s"
    using wf wf_list_get [OF wf assms(2)] safeD [OF assms(1) wf] assms(2) wf_listD(2,3) [OF wf]
    by (simp add: wp_on_fst')
qed

lemmas safe_search = safe_slot_get_then [where b = True, simplified if_True]
  and safe_search_raise = safe_slot_get_then [where b = False, simplified if_False]

lemma cmp_safe_safe: "cmp_safe eq \<Longrightarrow> safe (eq a b)"
  by (simp add: cmp_safe_def safe_def)

lemma safe_list_contains_loop:
  assumes "cmp_safe eq" and "0 \<le> i"
  shows "safe (list_contains_loop eq el i)"
  using assms(2)
proof (induction "nat (LIST_MAX - i)" arbitrary: i rule: less_induct)
  case less
  show ?case
    by (subst list_contains_loop.simps, rule safe_search)
      (use less in \<open>auto intro!: safe_sbind cmp_safe_safe [OF assms(1)]\<close>)
qed

lemma safe_list_index_loop:
  assumes "cmp_safe eq" and "0 \<le> i"
  shows "safe (list_index_loop eq value i stop)"
  using assms(2)
proof (induction "nat (LIST_MAX - i)" arbitrary: i rule: less_induct)
  case less
  have c: "(i < stop \<and> i < n \<and> i < LIST_MAX) = (i < n \<and> (i < stop \<and> i < LIST_MAX))" for n by blast
  show ?case
    by (subst list_index_loop.simps, subst c, rule safe_search_raise)
      (use less in \<open>auto intro!: safe_sbind cmp_safe_safe [OF assms(1)]\<close>)
qed

lemma safe_list_count_loop:
  assumes "cmp_safe eq" and "0 \<le> i"
  shows "safe (list_count_loop eq value i count)"
  using assms(2)
proof (induction "nat (LIST_MAX - i)" arbitrary: i count rule: less_induct)
  case less
  show ?case
    by (subst list_count_loop.simps, rule safe_search)
      (use less in \<open>auto intro!: safe_sbind cmp_safe_safe [OF assms(1)]\<close>)
qed

lemma safe_list_remove_loop:
  assumes "cmp_safe eq" and "0 \<le> i"
  shows "safe (list_remove_loop eq value i)"
  using assms(2)
proof (induction "nat (LIST_MAX - i)" arbitrary: i rule: less_induct)
  case less
  have del: "safe (on_fst (list_ass_slice i (i + 1) None))"
    by (rule safe_on_fst, rule wp_mono [OF wp_list_ass_slice]) simp_all
  show ?case
    by (subst list_remove_loop.simps, rule safe_search_raise)
      (use less del in \<open>auto intro!: safe_sbind cmp_safe_safe [OF assms(1)]\<close>)
qed

section \<open>Searches with an equality\<close>

locale item_eq =
  fixes eq :: "('a, 'w) eqcmp" and eqv :: "'a \<Rightarrow> 'a \<Rightarrow> bool" and ok :: "'a \<Rightarrow> bool"
  assumes eq_result: "ok a \<Longrightarrow> ok b \<Longrightarrow> eq a b = sret (eqv a b)"
    and eqv_refl: "ok a \<Longrightarrow> eqv a a"
begin

lemma item_step:
  assumes "wf_list (fst s)" and "\<forall>x \<in> set (elems (fst s)). ok x" and "0 \<le> i" and "i < list_size (fst s)"
  shows "nat i < length (elems (fst s))" and "ok (elems (fst s) ! nat i)"
    and "wp (on_fst (slot_get i)) Q E s = Q (elems (fst s) ! nat i) s"
proof -
  show n: "nat i < length (elems (fst s))" using assms wf_listD(6) [OF assms(1)] by simp
  then show "ok (elems (fst s) ! nat i)" using assms(2) by simp
  show "wp (on_fst (slot_get i)) Q E s = Q (elems (fst s) ! nat i) s"
    using wf_list_get [OF assms(1,3,4)] assms(3) by (simp add: wp_on_fst')
qed

lemma drop_item:
  "0 \<le> i \<Longrightarrow> nat i < length xs \<Longrightarrow> drop (nat i) xs = xs ! nat i # drop (nat (i + 1)) xs"
  by (simp add: Cons_nth_drop_Suc nat_add_distrib)

lemma wp_contains_loop:
  assumes "wf_list (fst s)" and "\<forall>x \<in> set (elems (fst s)). ok x" and "ok el" and "0 \<le> i"
  shows "wp (list_contains_loop eq el i)
    (\<lambda>r t. t = s \<and> r = (\<exists>x \<in> set (drop (nat i) (elems (fst s))). eqv x el)) E s"
  using assms(4)
proof (induction "nat (LIST_MAX - i)" arbitrary: i rule: less_induct)
  case less
  note w = wf_listD(2,3,6) [OF assms(1)]
  show ?case
  proof (cases "i < list_size (fst s)")
    case True
    then have lt: "i < LIST_MAX" using w(1,2) by linarith
    note st = item_step [OF assms(1,2) less.prems True]
    have "nat (LIST_MAX - (i + 1)) < nat (LIST_MAX - i)" using lt by simp
    from less.hyps [OF this] less.prems
    have IH: "wp (list_contains_loop eq el (i + 1))
      (\<lambda>r t. t = s \<and> r = (\<exists>x \<in> set (drop (nat (i + 1)) (elems (fst s))). eqv x el)) E s" by simp
    show ?thesis
      using True IH lt
      by (subst list_contains_loop.simps)
        (simp add: wp_on_fst' [of "sget list_size"] st(3) eq_result [OF st(2) assms(3)] drop_item [OF less.prems st(1)])
  next
    case False
    then have "drop (nat i) (elems (fst s)) = []" using w(3) less.prems by simp
    then show ?thesis
      using False by (subst list_contains_loop.simps) (simp add: wp_on_fst' [of "sget list_size"])
  qed
qed

lemma wp_index_loop:
  assumes "wf_list (fst s)" and "\<forall>x \<in> set (elems (fst s)). ok x" and "ok v" and "0 \<le> i"
  shows "wp (list_index_loop eq v i stop)
    (\<lambda>k t. t = s \<and> i \<le> k \<and> k < stop \<and> k < list_size (fst s) \<and> eqv (elems (fst s) ! nat k) v \<and>
       (\<forall>j. i \<le> j \<and> j < k \<longrightarrow> \<not> eqv (elems (fst s) ! nat j) v))
    (\<lambda>e t. e = ValueError \<and> t = s \<and>
       (\<forall>j. i \<le> j \<and> j < stop \<and> j < list_size (fst s) \<longrightarrow> \<not> eqv (elems (fst s) ! nat j) v)) s"
  using assms(4)
proof (induction "nat (LIST_MAX - i)" arbitrary: i rule: less_induct)
  case less
  note w = wf_listD(2,3,6) [OF assms(1)]
  show ?case
  proof (cases "i < stop \<and> i < list_size (fst s)")
    case True
    then have lt: "i < LIST_MAX" using w(1,2) by linarith
    note st = item_step [OF assms(1,2) less.prems conjunct2 [OF True]]
    have "nat (LIST_MAX - (i + 1)) < nat (LIST_MAX - i)" using lt by simp
    from less.hyps [OF this] less.prems
    have IH: "wp (list_index_loop eq v (i + 1) stop)
      (\<lambda>k t. t = s \<and> i + 1 \<le> k \<and> k < stop \<and> k < list_size (fst s) \<and> eqv (elems (fst s) ! nat k) v \<and>
        (\<forall>j. i + 1 \<le> j \<and> j < k \<longrightarrow> \<not> eqv (elems (fst s) ! nat j) v))
      (\<lambda>e t. e = ValueError \<and> t = s \<and>
        (\<forall>j. i + 1 \<le> j \<and> j < stop \<and> j < list_size (fst s) \<longrightarrow> \<not> eqv (elems (fst s) ! nat j) v)) s" by simp
    have sp: "i \<le> j \<longleftrightarrow> j = i \<or> i + 1 \<le> j" for j by linarith
    show ?thesis
    proof (cases "eqv (elems (fst s) ! nat i) v")
      case True': True
      then show ?thesis
        using True lt by (subst list_index_loop.simps)
          (auto simp: wp_on_fst' [of "sget list_size"] st(3) eq_result [OF st(2) assms(3)])
    next
      case False
      have "wp (list_index_loop eq v i stop) Q E s = wp (list_index_loop eq v (i + 1) stop) Q E s" for Q E
        using True lt False by (subst list_index_loop.simps)
          (simp add: wp_on_fst' [of "sget list_size"] st(3) eq_result [OF st(2) assms(3)])
      then show ?thesis
        by (simp only:) (rule wp_mono [OF IH]; use False sp in auto)
    qed
  next
    case False
    then show ?thesis
      by (subst list_index_loop.simps) (auto simp: wp_on_fst' [of "sget list_size"])
  qed
qed

lemma wp_count_loop:
  assumes "wf_list (fst s)" and "\<forall>x \<in> set (elems (fst s)). ok x" and "ok v" and "0 \<le> i"
  shows "wp (list_count_loop eq v i c)
    (\<lambda>r t. t = s \<and> r = c + int (length (filter (\<lambda>x. eqv x v) (drop (nat i) (elems (fst s)))))) E s"
  using assms(4)
proof (induction "nat (LIST_MAX - i)" arbitrary: i c rule: less_induct)
  case less
  note w = wf_listD(2,3,6) [OF assms(1)]
  show ?case
  proof (cases "i < list_size (fst s)")
    case True
    then have lt: "i < LIST_MAX" using w(1,2) by linarith
    note st = item_step [OF assms(1,2) less.prems True]
    have "nat (LIST_MAX - (i + 1)) < nat (LIST_MAX - i)" using lt by simp
    from less.hyps [OF this] less.prems
    have IH: "wp (list_count_loop eq v (i + 1) c')
      (\<lambda>r t. t = s \<and> r = c' + int (length (filter (\<lambda>x. eqv x v) (drop (nat (i + 1)) (elems (fst s)))))) E s" for c'
      by simp
    show ?thesis
      using True IH [of c] IH [of "c + 1"] lt eqv_refl [OF assms(3)]
      by (subst list_count_loop.simps)
        (auto simp: wp_on_fst' [of "sget list_size"] st(3) eq_result [OF st(2) assms(3)] drop_item [OF less.prems st(1)]
          algebra_simps)
  next
    case False
    then have "drop (nat i) (elems (fst s)) = []" using w(3) less.prems by simp
    then show ?thesis
      using False by (subst list_count_loop.simps) (simp add: wp_on_fst' [of "sget list_size"])
  qed
qed

text \<open>Deleting the first item equal to a value.\<close>

lemma wp_remove_loop:
  assumes "wf_list (fst s)" and "\<forall>x \<in> set (elems (fst s)). ok x" and "ok v" and "0 \<le> i"
    and "elems (fst s) = A @ B" and "nat i = length A"
  shows "wp (list_remove_loop eq v i)
    (\<lambda>_ t. wf_list (fst t) \<and> snd t = snd s \<and>
       (\<exists>C x D. B = C @ x # D \<and> eqv x v \<and> (\<forall>y \<in> set C. \<not> eqv y v) \<and> elems (fst t) = A @ C @ D))
    (\<lambda>e t. e = ValueError \<and> t = s \<and> (\<forall>y \<in> set B. \<not> eqv y v)) s"
  using assms(4-)
proof (induction "nat (LIST_MAX - i)" arbitrary: i A B rule: less_induct)
  case less
  note w = wf_listD(2,3,6,7) [OF assms(1)]
  show ?case
  proof (cases "i < list_size (fst s)")
    case True
    then have lt: "i < LIST_MAX" using w(1,2) by linarith
    note st = item_step [OF assms(1,2) less.prems(1) True]
    have "B \<noteq> []" using st(1) less.prems(2,3) by auto
    then obtain x D where B: "B = x # D" by (cases B) auto
    have x: "elems (fst s) ! nat i = x" using B less.prems(2,3) by simp
    have "nat (LIST_MAX - (i + 1)) < nat (LIST_MAX - i)" using lt by simp
    note IH = less.hyps [OF this, of "A @ [x]" D]
    show ?thesis
    proof (cases "eqv x v")
      case True': True
      have "wp (list_ass_slice i (i + 1) None)
        (\<lambda>_ l'. wf_list l' \<and> elems l' = A @ D) E (fst s)" for E
        using wp_delete_item [OF assms(1) less.prems(1) True, of E] less.prems(2,3) B by simp
      then have "wp (list_ass_slice i (i + 1) None)
        (\<lambda>_ l. wf_list l \<and>
          (\<exists>C y D'. B = C @ y # D' \<and> eqv y v \<and> (\<forall>z \<in> set C. \<not> eqv z v) \<and> elems l = A @ C @ D')) E (fst s)" for E
      proof (rule wp_mono, goal_cases)
        case (1 _ l)
        then show ?case using B True' by (intro conjI exI [of _ "[]"] exI [of _ x] exI [of _ D]) simp_all
      qed
      then show ?thesis
        using True lt True' by (subst list_remove_loop.simps)
          (simp add: wp_on_fst' [of "sget list_size"] wp_on_fst' [of "list_ass_slice i (i + 1) None"] st(3) [unfolded x]
            eq_result [OF st(2) [unfolded x] assms(3)])
    next
      case False
      have "wp (list_remove_loop eq v i) Q E s = wp (list_remove_loop eq v (i + 1)) Q E s" for Q E
        using True lt False by (subst list_remove_loop.simps)
          (simp add: wp_on_fst' [of "sget list_size"] st(3) [unfolded x] eq_result [OF st(2) [unfolded x] assms(3)])
      moreover have "wp (list_remove_loop eq v (i + 1))
        (\<lambda>_ t. wf_list (fst t) \<and> snd t = snd s \<and>
          (\<exists>C y D'. D = C @ y # D' \<and> eqv y v \<and> (\<forall>z \<in> set C. \<not> eqv z v) \<and> elems (fst t) = (A @ [x]) @ C @ D'))
        (\<lambda>e t. e = ValueError \<and> t = s \<and> (\<forall>y \<in> set D. \<not> eqv y v)) s"
        by (rule IH) (use less.prems B in \<open>simp_all add: nat_add_distrib\<close>)
      ultimately show ?thesis
      proof (simp only:, elim wp_mono, goal_cases)
        case (1 _ t)
        then obtain C y D' where "D = C @ y # D'" "eqv y v" "\<forall>z \<in> set C. \<not> eqv z v" "elems (fst t) = (A @ [x]) @ C @ D'"
          by blast
        then show ?case
          using 1 False B by (intro conjI exI [of _ "x # C"] exI [of _ y] exI [of _ D']) simp_all
      qed (use False B in simp)
    qed
  next
    case False
    have "length A + length B = nat (list_size (fst s))" using w(3) less.prems(2) by simp
    moreover have "nat (list_size (fst s)) \<le> nat i" using False by simp
    ultimately have "length B = 0" using less.prems(3) by linarith
    then have "B = []" by simp
    then show ?thesis
      using False by (subst list_remove_loop.simps) (simp add: wp_on_fst' [of "sget list_size"])
  qed
qed

end

text \<open>Equality of integer objects.\<close>

definition obj_eq :: "pyobj \<Rightarrow> pyobj \<Rightarrow> ('s, bool) py" where
  "obj_eq v w = PyObject_RichCompareBool builtin_types v w Py_EQ"

lemma obj_eq_result: "is_long a \<Longrightarrow> is_long b \<Longrightarrow> obj_eq a b = sret (obj_val a = obj_val b)"
  by (cases a; cases b) (simp_all add: obj_eq_def RichCompareBool_long)

interpretation int_eq: item_eq obj_eq "\<lambda>v w. obj_val v = obj_val w" is_long
  by unfold_locales (simp_all add: obj_eq_result)

section \<open>Comparison of lists\<close>

lemma wp_on_snd: "wp (on_snd m) Q E s =
    wp m (\<lambda>x l. Q x (fst s, l, snd (snd s))) (\<lambda>e l. E e (fst s, l, snd (snd s))) (fst (snd s))"
  by (cases s) (auto simp: wp_def on_snd_def Let_def split: prod.splits sum.splits)

text \<open>
  Two lists under an item comparison without effects: \<open>lt\<close> is a strict total order up to
  \<open>eqv\<close>, which is what the six operators on the items agree on.
\<close>

fun lex_rel :: "(cmpop \<Rightarrow> 'a \<Rightarrow> 'a \<Rightarrow> bool) \<Rightarrow> cmpop \<Rightarrow> 'a list \<Rightarrow> 'a list \<Rightarrow> bool" where
  "lex_rel rel op [] ys = cmp_rel op 0 (int (length ys))"
| "lex_rel rel op (x # xs) [] = cmp_rel op 1 0"
| "lex_rel rel op (x # xs) (y # ys) =
     (if rel Py_EQ x y then lex_rel rel op xs ys else rel op x y)"

locale list_order =
  fixes eq :: "'a \<Rightarrow> 'a \<Rightarrow> ('a pylist \<times> 'a pylist \<times> 'w, bool) py"
    and cmp :: "'a \<Rightarrow> 'a \<Rightarrow> cmpop \<Rightarrow> ('a pylist \<times> 'a pylist \<times> 'w, bool) py"
    and rel :: "cmpop \<Rightarrow> 'a \<Rightarrow> 'a \<Rightarrow> bool" and ok :: "'a \<Rightarrow> bool"
  assumes eq_result: "ok a \<Longrightarrow> ok b \<Longrightarrow> eq a b = sret (rel Py_EQ a b)"
    and cmp_result: "ok a \<Longrightarrow> ok b \<Longrightarrow> cmp a b op = sret (rel op a b)"
    and rel_refl: "ok a \<Longrightarrow> rel Py_EQ a a"
    and rel_NE: "rel Py_NE a b = (\<not> rel Py_EQ a b)"
begin

lemma lex_rel_drop:
  assumes "i \<le> length xs" and "i \<le> length ys" and "\<forall>j < i. rel Py_EQ (xs ! j) (ys ! j)"
  shows "lex_rel rel op xs ys = lex_rel rel op (drop i xs) (drop i ys)"
  using assms
proof (induction i arbitrary: xs ys)
  case (Suc i)
  then obtain x xs' y ys' where c: "xs = x # xs'" "ys = y # ys'" by (cases xs; cases ys) auto
  have "rel Py_EQ x y" using Suc.prems(3) c by force
  moreover have "\<forall>j < i. rel Py_EQ (xs' ! j) (ys' ! j)" using Suc.prems(3) c by force
  ultimately show ?case using Suc.IH [of xs' ys'] Suc.prems(1,2) c by simp
qed simp

lemma wp_richcompare_loop:
  assumes wf: "wf_list (fst s)" "wf_list (fst (snd s))"
    and ok: "\<forall>x \<in> set (elems (fst s)). ok x" "\<forall>x \<in> set (elems (fst (snd s))). ok x"
    and i: "0 \<le> i" "i \<le> list_size (fst s)" "i \<le> list_size (fst (snd s))"
    and eqs: "\<forall>j < nat i. rel Py_EQ (elems (fst s) ! j) (elems (fst (snd s)) ! j)"
  shows "wp (richcompare_loop eq i)
    (\<lambda>k t. t = s \<and> 0 \<le> k \<and> k \<le> list_size (fst s) \<and> k \<le> list_size (fst (snd s)) \<and>
       (\<forall>j < nat k. rel Py_EQ (elems (fst s) ! j) (elems (fst (snd s)) ! j)) \<and>
       (k < list_size (fst s) \<and> k < list_size (fst (snd s)) \<longrightarrow>
          \<not> rel Py_EQ (elems (fst s) ! nat k) (elems (fst (snd s)) ! nat k))) E s"
  using i eqs
proof (induction "nat (LIST_MAX - i)" arbitrary: i rule: less_induct)
  case less
  note w1 = wf_listD(2,3,6) [OF wf(1)] and w2 = wf_listD(2,3,6) [OF wf(2)]
  show ?case
  proof (cases "i < list_size (fst s) \<and> i < list_size (fst (snd s))")
    case False
    then show ?thesis
      using less.prems by (subst richcompare_loop.simps) (auto simp: wp_on_fst' wp_on_snd)
  next
    case True
    then have lt: "i < LIST_MAX" using w1(1,2) by linarith
    let ?v = "elems (fst s) ! nat i" and ?w = "elems (fst (snd s)) ! nat i"
    note g1 = wf_list_get [OF wf(1) less.prems(1) conjunct1 [OF True]]
    note g2 = wf_list_get [OF wf(2) less.prems(1) conjunct2 [OF True]]
    have "nat i < length (elems (fst s))" "nat i < length (elems (fst (snd s)))"
      using True less.prems(1) w1(3) w2(3) by simp_all
    then have okv: "ok ?v" "ok ?w" using ok by simp_all
    have step: "wp (richcompare_loop eq i) Q E s =
      (if rel Py_EQ ?v ?w then wp (richcompare_loop eq (i + 1)) Q E s else Q i s)" for Q E
      using True lt g1 g2 less.prems(1) rel_refl [OF okv(1)] rel_refl [OF okv(2)]
      by (subst richcompare_loop.simps) (simp add: wp_on_fst' wp_on_snd eq_result [OF okv])
    show ?thesis
    proof (cases "rel Py_EQ ?v ?w")
      case False
      then show ?thesis unfolding step if_not_P [OF False] using less.prems by simp
    next
      case eqv: True
      have "nat (LIST_MAX - (i + 1)) < nat (LIST_MAX - i)" using lt by simp
      note IH = less.hyps [OF this]
      have "\<forall>j < nat (i + 1). rel Py_EQ (elems (fst s) ! j) (elems (fst (snd s)) ! j)"
        using less.prems(1,4) eqv by (auto simp: nat_add_distrib less_Suc_eq)
      then show ?thesis
        unfolding step if_P [OF eqv] by (intro IH) (use True less.prems(1) in simp_all)
    qed
  qed
qed

lemma lex_rel_lengths:
  assumes "length xs \<noteq> length ys"
  shows "\<not> lex_rel rel Py_EQ xs ys" and "lex_rel rel Py_NE xs ys"
proof -
  have "\<not> lex_rel rel Py_EQ xs ys \<and> lex_rel rel Py_NE xs ys"
    using assms
  proof (induction xs arbitrary: ys)
    case (Cons x xs)
    then show ?case by (cases ys) (auto simp: rel_NE)
  qed simp
  then show "\<not> lex_rel rel Py_EQ xs ys" "lex_rel rel Py_NE xs ys" by simp_all
qed

lemma wp_list_richcompare:
  assumes wf: "wf_list (fst s)" "wf_list (fst (snd s))"
    and ok: "\<forall>x \<in> set (elems (fst s)). ok x" "\<forall>x \<in> set (elems (fst (snd s))). ok x"
  shows "wp (list_richcompare eq cmp (\<lambda>b. b) op)
    (\<lambda>r t. t = s \<and> r = lex_rel rel op (elems (fst s)) (elems (fst (snd s)))) E s"
proof -
  let ?xs = "elems (fst s)" and ?ys = "elems (fst (snd s))"
  note w1 = wf_listD(1,7) [OF wf(1)] and w2 = wf_listD(1,7) [OF wf(2)]
  note unf = list_richcompare_def wp_sbind wp_on_fst' wp_on_snd wp_sget fst_conv snd_conv prod.collapse
  show ?thesis
  proof (cases "list_size (fst s) \<noteq> list_size (fst (snd s)) \<and> (op = Py_EQ \<or> op = Py_NE)")
    case True
    then have "length ?xs \<noteq> length ?ys" using w1(2) w2(2) by metis
    then show ?thesis
      unfolding unf wp_if if_P [OF True] using True lex_rel_lengths by auto
  next
    case False
    have fin: "wp (if i \<ge> list_size (fst s) \<or> i \<ge> list_size (fst (snd s))
        then sret (py_richcompare_int (list_size (fst s)) (list_size (fst (snd s))) op)
        else if op = Py_EQ then sret False else if op = Py_NE then sret True
        else sbind (on_fst (slot_get i)) (\<lambda>v. sbind (on_snd (slot_get i)) (\<lambda>w. cmp v w op)))
      (\<lambda>r t. t = s \<and> r = lex_rel rel op ?xs ?ys) E s"
      if i: "0 \<le> i" "i \<le> list_size (fst s)" "i \<le> list_size (fst (snd s))"
        and eqs: "\<forall>j < nat i. rel Py_EQ (?xs ! j) (?ys ! j)"
        and ne: "i < list_size (fst s) \<and> i < list_size (fst (snd s)) \<longrightarrow> \<not> rel Py_EQ (?xs ! nat i) (?ys ! nat i)"
      for i
    proof -
      have k: "nat i \<le> length ?xs" "nat i \<le> length ?ys" using i w1(2) w2(2) by linarith+
      note d = lex_rel_drop [OF k eqs, of op]
      show ?thesis
      proof (cases "i \<ge> list_size (fst s) \<or> i \<ge> list_size (fst (snd s))")
        case True
        have len: "list_size (fst s) = int (length ?xs)" "list_size (fst (snd s)) = int (length ?ys)"
          using w1(2) w2(2) by simp_all
        have "length (drop (nat i) ?xs) = 0 \<or> length (drop (nat i) ?ys) = 0"
          using True len by auto
        then have "lex_rel rel op (drop (nat i) ?xs) (drop (nat i) ?ys) =
            py_richcompare_int (list_size (fst s)) (list_size (fst (snd s))) op"
        proof
          assume "length (drop (nat i) ?xs) = 0"
          moreover from this have "nat i = length ?xs" using k by simp
          ultimately show ?thesis
            using k(2) len by (cases op) (auto simp: of_nat_diff)
        next
          assume "length (drop (nat i) ?ys) = 0"
          moreover from this have "nat i = length ?ys" using k by simp
          moreover have "drop (length ?ys) ?xs = [] \<longleftrightarrow> length ?xs \<le> length ?ys" by simp
          ultimately show ?thesis
            using k(1) len by (cases "drop (length ?ys) ?xs"; cases op) auto
        qed
        then show ?thesis using True d by simp
      next
        case lt: False
        then have l1: "i < list_size (fst s)" and l2: "i < list_size (fst (snd s))" by simp_all
        have n: "nat i < length ?xs" "nat i < length ?ys" using l1 l2 w1(2) w2(2) i(1) by linarith+
        have "lex_rel rel op ?xs ?ys = rel op (?xs ! nat i) (?ys ! nat i)"
          unfolding d using n ne l1 l2 by (simp add: Cons_nth_drop_Suc [symmetric])
        moreover have "ok (?xs ! nat i)" "ok (?ys ! nat i)" using ok n by simp_all
        moreover have "\<not> rel Py_EQ (?xs ! nat i) (?ys ! nat i)" using ne l1 l2 by simp
        ultimately show ?thesis
          using lt i(1) wf_list_get [OF wf(1) i(1) l1] wf_list_get [OF wf(2) i(1) l2] rel_NE
          by (simp add: wp_on_fst' wp_on_snd cmp_result)
      qed
    qed
    show ?thesis
      unfolding unf wp_if [of "list_size (fst s) \<noteq> list_size (fst (snd s)) \<and> (op = Py_EQ \<or> op = Py_NE)"] if_not_P [OF False]
    proof (rule wp_mono [OF wp_richcompare_loop [OF wf ok order_refl w1(1) w2(1), where E = "\<lambda>_ _. False"]], goal_cases)
      case (2 k t)
      then show ?case by (elim conjE, hypsubst, intro fin)
    qed simp_all
  qed
qed

end

interpretation int_lists: list_order obj_eq "do_richcompare builtin_types"
    "\<lambda>op v w. cmp_rel op (obj_val v) (obj_val w)" is_long
proof (unfold_locales, goal_cases)
  case (2 a b op)
  then obtain x y where "a = PyLongObj x" "b = PyLongObj y" "wf_long x" "wf_long y"
    by (cases a; cases b) auto
  then show ?case
    by (intro ext)
      (simp add: do_richcompare_def builtin_types_def ask_def sbind_def sret_def Let_def long_richcompare_rel)
qed (simp_all add: obj_eq_result)

section \<open>Properties\<close>

definition list_ok :: "'a pylist \<times> 'r pyres \<Rightarrow> bool" where
  "list_ok r \<longleftrightarrow> wf_list (fst r) \<and> snd r \<noteq> Inl AssertionFailed"

lemma list_okI:
  assumes "wp m (\<lambda>_ l'. wf_list l') (\<lambda>e l'. e \<noteq> AssertionFailed \<and> wf_list l') l"
  shows "list_ok (m l)"
  using assms by (auto simp: wp_def list_ok_def split: prod.splits sum.splits)

lemma list_ok_wp:
  assumes "wp m Q E l" and "\<And>x l'. Q x l' \<Longrightarrow> wf_list l'" and "\<And>e l'. E e l' \<Longrightarrow> e \<noteq> AssertionFailed \<and> wf_list l'"
  shows "list_ok (m l)"
  by (rule list_okI, rule wp_mono [OF assms(1)]) (use assms(2,3) in simp_all)

text \<open>
  C22: Every operation that changes a list keeps the invariant of its representation (sizes in
  range, no empty slot below the size) for any index, item, bound and count, when it raises as
  well, and never writes outside the array or reads an empty slot.
\<close>

theorem list_operations_keep_invariant:
  assumes wf: "wf_list l" and i: "- (2 ^ 63) \<le> i" "i < 2 ^ 63"
    and v: "case v of None \<Rightarrow> True | Some xs \<Rightarrow> int (length xs) \<le> LIST_MAX"
  shows "list_ok (app1 x l) \<and> list_ok (ins1 i x l) \<and> list_ok (PyList_SetItem i x l) \<and>
    list_ok (list_ass_item i y l) \<and> list_ok (list_pop i l) \<and> list_ok (list_ass_slice i j v l) \<and>
    list_ok (list_reverse l) \<and> list_ok (list_clear l) \<and> list_ok (list_inplace_repeat n l) \<and>
    list_ok (list_extend_seq v l)"
proof -
  have "int (length (elems l)) \<le> LIST_MAX" using wf_listD(2,3,7) [OF wf] by simp
  then have e: "int (length (case v of None \<Rightarrow> elems l | Some xs \<Rightarrow> xs)) \<le> LIST_MAX"
    and a: "int (length (case v of None \<Rightarrow> [] | Some xs \<Rightarrow> xs)) \<le> LIST_MAX"
    using v by (cases v; simp)+
  have "list_ok (app1 x l)" by (rule list_ok_wp [OF wp_app1 [OF wf]]) (use wf in auto)
  moreover have "list_ok (ins1 i x l)" by (rule list_ok_wp [OF wp_ins1 [OF wf]]) (use wf in auto)
  moreover have "list_ok (PyList_SetItem i x l)"
    by (rule list_ok_wp [OF wp_PyList_SetItem [OF wf i]]) (use wf in auto)
  moreover have "list_ok (list_ass_item i y l)"
    by (rule list_ok_wp [OF wp_list_ass_item [OF wf i]]) (use wf in auto)
  moreover have "list_ok (list_pop i l)"
    by (rule list_ok_wp [OF wp_list_pop [OF wf i]]) (use wf in \<open>auto simp: Let_def\<close>)
  moreover have "list_ok (list_ass_slice i j v l)"
    by (rule list_ok_wp [OF wp_list_ass_slice [OF wf a]]) (use wf in auto)
  moreover have "list_ok (list_reverse l)" by (rule list_ok_wp [OF wp_list_reverse [OF wf, where E = "\<lambda>_ _. False"]]) auto
  moreover have "list_ok (list_clear l)" by (rule list_ok_wp [OF wp_list_clear [OF wf, where E = "\<lambda>_ _. False"]]) auto
  moreover have "list_ok (list_inplace_repeat n l)"
    by (rule list_ok_wp [OF wp_list_inplace_repeat [OF wf]]) (use wf in auto)
  moreover have "list_ok (list_extend_seq v l)"
    by (rule list_ok_wp [OF wp_list_extend_seq [OF wf e]]) (use wf in auto)
  ultimately show ?thesis by blast
qed

lemma list_operations_keep_invariant_witness:
  "list_ok (list_ass_slice (- 1) 5 (Some [7 :: nat]) (list_of [1, 2, 3])) \<and>
   list_ok (list_pop (- 1) (list_of [1, 2, 3 :: nat]))"
  using list_operations_keep_invariant [of "list_of [1, 2, 3 :: nat]" "- 1" "Some [7]" 0 None 5 0] by simp

text \<open>
  C23: Assignment to a slice replaces the items between the clamped bounds by the given ones,
  which may be more, fewer or none; when the list cannot grow that far it raises
  \<open>MemoryError\<close> and is unchanged, and a deletion never fails.
\<close>

theorem list_ass_slice_splices:
  assumes "wf_list l" and "int (length (case v of None \<Rightarrow> [] | Some xs \<Rightarrow> xs)) \<le> LIST_MAX"
  shows "case list_ass_slice i j v l of
      (l', Inr _) \<Rightarrow> wf_list l' \<and> elems l' = spliced (elems l) i j (case v of None \<Rightarrow> [] | Some xs \<Rightarrow> xs)
    | (l', Inl e) \<Rightarrow> e = MemoryError \<and> l' = l \<and> v \<noteq> None"
  using wp_list_ass_slice [OF assms, of i j] unfolding wp_def
  by (auto split: prod.splits sum.splits)

lemma list_ass_slice_splices_witness:
  "case list_ass_slice 1 2 (Some [8, 9]) (list_of [1, 2, 3 :: nat]) of
      (l', Inr _) \<Rightarrow> elems l' = [1, 8, 9, 3] | (l', Inl e) \<Rightarrow> e = MemoryError"
  using list_ass_slice_splices [of "list_of [1, 2, 3 :: nat]" "Some [8, 9]" 1 2]
  by (simp add: spliced_def slice_lo_def slice_hi_def split: prod.splits sum.splits)

text \<open>
  Popping the index at which an item was inserted returns that item and leaves the items
  the list had before, for any position given to \<open>insert\<close>, clamped as the code clamps it.
\<close>

theorem list_insert_pop:
  assumes wf: "wf_list l" and ins: "ins1 i x l = (l', Inr ())"
  shows "\<exists>l''. list_pop (clamp_index (list_size l) i) l' = (l'', Inr x) \<and> wf_list l'' \<and> elems l'' = elems l"
proof -
  let ?p = "clamp_index (list_size l) i"
  note w = wf_listD [OF wf]
  have p: "0 \<le> ?p" "?p \<le> list_size l" "?p < 2 ^ 63"
    using w(1-3) by (auto simp: clamp_index_def)
  have l': "wf_list l'" "elems l' = take (nat ?p) (elems l) @ x # drop (nat ?p) (elems l)"
    using wp_ins1 [OF wf, of i x] ins by (simp_all add: wp_def Let_def)
  have k: "nat ?p \<le> length (elems l)" using p w(6) by simp
  have sz: "list_size l' = list_size l + 1" using wf_listD(7) [OF l'(1)] w(7) k l'(2) by simp
  then have n: "norm_index (list_size l') ?p = ?p" "?p < list_size l'" using p by (simp_all add: norm_index_def)
  have b: "- (2 ^ 63) \<le> ?p" using p(1) by simp
  have it: "elems l' ! nat ?p = x" "take (nat ?p) (elems l') @ drop (Suc (nat ?p)) (elems l') = elems l"
    using k unfolding l'(2) by (simp_all add: nth_append)
  show ?thesis
    using wp_list_pop [OF l'(1) b p(3)] p(1) n it
    by (auto simp: wp_def Let_def split: prod.splits sum.splits)
qed

lemma list_insert_pop_witness:
  "\<exists>l''. list_pop 1 (fst (ins1 1 (9 :: nat) (list_of [4, 5]))) = (l'', Inr 9) \<and> wf_list l'' \<and> elems l'' = [4, 5]"
proof -
  have wf: "wf_list (list_of [4, 5 :: nat])" and sz: "list_size (list_of [4, 5 :: nat]) = 2"
    by (simp, simp add: list_of_def)
  have "snd (ins1 1 (9 :: nat) (list_of [4, 5])) = Inr ()"
    using wp_result [OF wp_ins1 [OF wf, of 1 9]] by (auto simp: sz)
  then have "ins1 1 (9 :: nat) (list_of [4, 5]) = (fst (ins1 1 9 (list_of [4, 5])), Inr ())"
    by (metis prod.collapse)
  from list_insert_pop [OF wf this] show ?thesis by (simp add: clamp_index_def sz)
qed

text \<open>
  C24: A slice, a concatenation and a repetition are new well-formed lists of exactly the items
  they stand for, and fail with \<open>MemoryError\<close> exactly when those are too many for a list;
  negative counts and bounds outside the list are the ones of an empty sequence.
\<close>

theorem new_lists_correct:
  assumes "wf_list a" and "wf_list b"
  shows "new_list (take (nat (ihigh - max 0 ilow)) (drop (nat ilow) (elems a))) (PyList_GetSlice a ilow ihigh) \<and>
    new_list (elems a @ elems b) (list_concat a b) \<and>
    new_list (concat (replicate (nat n) (elems a))) (list_repeat a n)"
  using PyList_GetSlice_correct [OF assms(1)] list_concat_correct [OF assms] list_repeat_correct [OF assms(1)] by blast

lemma new_lists_correct_witness:
  "new_list [2, 3 :: nat] (PyList_GetSlice (list_of [1, 2, 3]) 1 9) \<and>
   new_list [1, 2, 3, 4 :: nat] (list_concat (list_of [1, 2, 3]) (list_of [4]))"
  using new_lists_correct [of "list_of [1, 2, 3 :: nat]" "list_of [4]" 9 1 0] by simp

text \<open>
  Extension appends the items of the sequence, the list's own included, and of an iterator
  without effects; repetition in place repeats the items. A failure is a \<open>MemoryError\<close> that
  leaves the old items in place, followed by some of what an iterator had yielded.
\<close>

theorem list_extension_exact:
  assumes wf: "wf_list (fst s)" and xs: "int (length (case src of None \<Rightarrow> elems (fst s) | Some xs \<Rightarrow> xs)) \<le> LIST_MAX"
    and hint: "0 \<le> hint" "hint \<le> PY_SSIZE_T_MAX"
  shows "(case list_extend_seq src (fst s) of
       (l', Inr _) \<Rightarrow> wf_list l' \<and> elems l' = elems (fst s) @ (case src of None \<Rightarrow> elems (fst s) | Some xs \<Rightarrow> xs)
     | (l', Inl e) \<Rightarrow> e = MemoryError \<and> l' = fst s) \<and>
    (case list_inplace_repeat n (fst s) of
       (l', Inr _) \<Rightarrow> wf_list l' \<and> elems l' = concat (replicate (nat n) (elems (fst s)))
     | (l', Inl e) \<Rightarrow> e = MemoryError \<and> l' = fst s) \<and>
    (case list_extend_iter (sret hint) (map sret ys) s of
       (t, Inr _) \<Rightarrow> wf_list (fst t) \<and> elems (fst t) = elems (fst s) @ ys
     | (t, Inl e) \<Rightarrow> e = MemoryError \<and> wf_list (fst t) \<and> (\<exists>k \<le> length ys. elems (fst t) = elems (fst s) @ take k ys))"
  using wp_list_extend_seq [OF wf xs] wp_list_inplace_repeat [OF wf, of n] wp_list_extend_iter [OF wf hint, of ys]
  unfolding wp_def by (auto split: prod.splits sum.splits)

lemma list_extension_exact_witness:
  "case list_extend_seq None (list_of [1, 2 :: nat]) of
       (l', Inr _) \<Rightarrow> wf_list l' \<and> elems l' = [1, 2, 1, 2]
     | (l', Inl e) \<Rightarrow> e = MemoryError \<and> l' = list_of [1, 2]"
  using list_extension_exact [of "(list_of [1, 2 :: nat], ())" None 8 0 "[]"]
  by (simp add: PY_SSIZE_T_MAX_def case_prod_unfold split: sum.splits)

text \<open>
  Searching, counting, removing and extending stay inside the list whatever the comparison
  or the iterator does, including raising and changing the list between two items; the list is
  well formed afterwards.
\<close>

theorem list_searches_memory_safe:
  assumes "cmp_safe eq" and "\<And>next. next \<in> set steps \<Longrightarrow> safe next" and "0 \<le> n" and "n \<le> PY_SSIZE_T_MAX"
  shows "safe (list_contains eq x) \<and> safe (list_index eq x start stop) \<and> safe (list_count eq x) \<and>
    safe (list_remove eq x) \<and> safe (list_extend_iter (sret n) steps)"
proof -
  have "safe (list_index eq x start stop)"
    unfolding list_index_def Let_def
  proof (rule safe_sbind)
    fix m
    show "safe (list_index_loop eq x (if start < 0 then if start + m < 0 then 0 else start + m else start)
      (if stop < 0 then if stop + m < 0 then 0 else stop + m else stop))"
      by (rule safe_list_index_loop [OF assms(1)]) auto
  qed simp
  moreover have "safe (list_extend_iter (sret n) steps)"
    by (rule safe_list_extend_iter) (use assms(2-) in auto)
  ultimately show ?thesis
    using safe_list_contains_loop [OF assms(1), of 0 x] safe_list_count_loop [OF assms(1), of 0 x 0]
      safe_list_remove_loop [OF assms(1), of 0 x]
    by (simp add: list_contains_def list_count_def list_remove_def)
qed

text \<open>A comparison that empties the list and answers no.\<close>

definition clearing_eq :: "('a, unit) eqcmp" where
  "clearing_eq a b = sbind (on_fst list_clear) (\<lambda>_. sret False)"

lemma safe_clear_then: "safe (sbind (on_fst list_clear) (\<lambda>_. sret r))"
proof (rule safe_sbind)
  show "safe (on_fst list_clear)"
  proof (rule safe_on_fst)
    fix l
    assume "wf_list l"
    from wp_list_clear [OF this, where E = "\<lambda>_ _. False"]
    show "wp list_clear (\<lambda>_ l'. wf_list l') (\<lambda>e l'. e \<noteq> AssertionFailed \<and> wf_list l') l"
      by (rule wp_mono) simp_all
  qed
qed simp

lemma list_searches_memory_safe_witness:
  "safe (list_remove clearing_eq (3 :: nat)) \<and>
   safe (list_extend_iter (sret 8) [sret (1 :: nat), sbind (on_fst list_clear) (\<lambda>_. sret 2)] :: (nat pylist \<times> unit, unit) py)"
proof -
  let ?steps = "[sret (1 :: nat), sbind (on_fst list_clear) (\<lambda>_. sret 2)] :: (nat pylist \<times> unit, nat) py list"
  have c: "cmp_safe (clearing_eq :: (nat, unit) eqcmp)"
    using safe_clear_then [of False] unfolding cmp_safe_def safe_def clearing_eq_def by blast
  have st: "safe next" if "next \<in> set ?steps" for "next"
    using that safe_clear_then by auto
  have "(0 :: int) \<le> 8" "8 \<le> PY_SSIZE_T_MAX" by (simp_all add: PY_SSIZE_T_MAX_def)
  from list_searches_memory_safe [OF c st this, of ?steps 3 0 0] show ?thesis by simp
qed

text \<open>A bound of \<open>list.index\<close>: a negative one counts from the end, and stops at the beginning.\<close>

definition search_bound :: "int \<Rightarrow> int \<Rightarrow> int" where
  "search_bound n i = (if i < 0 then max 0 (i + n) else i)"

lemma list_index_bounds:
  "wf_list (fst s) \<Longrightarrow> list_index eq v start stop s =
     list_index_loop eq v (search_bound (list_size (fst s)) start) (search_bound (list_size (fst s)) stop) s"
  by (auto simp: list_index_def search_bound_def sbind_def on_fst_def sget_def case_prod_unfold Let_def max_def)

text \<open>
  C25: On items whose comparison with \<open>==\<close> has no effects, does not raise and is reflexive,
  \<open>in\<close> and \<open>count\<close> say whether and how many items are equal to the value, \<open>index\<close> finds the
  first one inside its bounds, for any bounds, the negative ones counted from the end and cut off
  at the beginning, and \<open>remove\<close> takes the first one out; they report that there is none by
  \<open>False\<close>, \<open>0\<close> or a \<open>ValueError\<close> that leaves the list as it is.
\<close>

theorem list_searches_exact:
  assumes "item_eq eq eqv ok" and "wf_list (fst s)" and "\<forall>x \<in> set (elems (fst s)). ok x" and "ok v"
  shows "list_contains eq v s = (s, Inr (\<exists>x \<in> set (elems (fst s)). eqv x v)) \<and>
    list_count eq v s = (s, Inr (int (length (filter (\<lambda>x. eqv x v) (elems (fst s)))))) \<and>
    (let lo = search_bound (int (length (elems (fst s)))) start;
         hi = min (search_bound (int (length (elems (fst s)))) stop) (int (length (elems (fst s))))
     in case list_index eq v start stop s of
       (t, Inr k) \<Rightarrow> t = s \<and> lo \<le> k \<and> k < hi \<and> eqv (elems (fst s) ! nat k) v \<and>
         (\<forall>j. lo \<le> j \<and> j < k \<longrightarrow> \<not> eqv (elems (fst s) ! nat j) v)
     | (t, Inl e) \<Rightarrow> e = ValueError \<and> t = s \<and>
         (\<forall>j. lo \<le> j \<and> j < hi \<longrightarrow> \<not> eqv (elems (fst s) ! nat j) v)) \<and>
    (case list_remove eq v s of
       (t, Inr _) \<Rightarrow> wf_list (fst t) \<and> snd t = snd s \<and>
         (\<exists>C x D. elems (fst s) = C @ x # D \<and> eqv x v \<and> (\<forall>y \<in> set C. \<not> eqv y v) \<and>
            elems (fst t) = C @ D)
     | (t, Inl e) \<Rightarrow> e = ValueError \<and> t = s \<and> (\<forall>y \<in> set (elems (fst s)). \<not> eqv y v))"
  (is "?contains \<and> ?count \<and> ?index \<and> ?remove")
proof -
  note c = assms(1) and w = assms(2-4)
  have ?contains
    using wp_total [OF item_eq.wp_contains_loop [OF c w order_refl]] by (auto simp: list_contains_def)
  moreover have ?count
    using wp_total [OF item_eq.wp_count_loop [OF c w order_refl, of 0]] by (auto simp: list_count_def)
  moreover have ?index
  proof -
    have "0 \<le> search_bound (list_size (fst s)) start" by (simp add: search_bound_def)
    from item_eq.wp_index_loop [OF c w this, of "search_bound (list_size (fst s)) stop"] show ?thesis
      unfolding list_index_bounds [OF w(1)] wp_case wf_listD(7) [OF w(1), symmetric] Let_def
      by (simp only: min_less_iff_conj conj_assoc)
  qed
  moreover have ?remove
    using item_eq.wp_remove_loop [OF c w order_refl, of "[]" "elems (fst s)"]
    by (simp add: wp_case list_remove_def)
  ultimately show ?thesis by blast
qed

lemma list_searches_exact_witness:
  "case list_index obj_eq (int_obj 7) (- 9) (- 1) (list_of [int_obj 5, int_obj 7, int_obj 7], ()) of
     (t, Inr k) \<Rightarrow> k = 1 | (t, Inl e) \<Rightarrow> False"
proof -
  let ?s = "(list_of [int_obj 5, int_obj 7, int_obj 7], ())"
  have "case list_index obj_eq (int_obj 7) (- 9) (- 1) ?s of
     (t, Inr k) \<Rightarrow> 0 \<le> k \<and> k < 2 \<and> obj_val ([int_obj 5, int_obj 7, int_obj 7] ! nat k) = 7
   | (t, Inl e) \<Rightarrow> \<forall>j. 0 \<le> j \<and> j < 2 \<longrightarrow> obj_val ([int_obj 5, int_obj 7, int_obj 7] ! nat j) \<noteq> 7"
    using list_searches_exact [OF int_eq.item_eq_axioms, of ?s "int_obj 7" "- 9" "- 1"]
    by (simp add: search_bound_def Let_def split: prod.splits sum.splits)
  moreover have "k = 1" if "0 \<le> k" "k < 2" "obj_val ([int_obj 5, int_obj 7, int_obj 7] ! nat k) = 7" for k :: int
  proof -
    have "k = 0 \<or> k = 1" using that(1,2) by linarith
    then show ?thesis using that(3) by auto
  qed
  moreover have "\<exists>j :: int. 0 \<le> j \<and> j < 2 \<and> obj_val ([int_obj 5, int_obj 7, int_obj 7] ! nat j) = 7"
    by (intro exI [of _ 1]) simp
  ultimately show ?thesis by (simp only: split: prod.splits sum.splits) blast
qed

text \<open>
  C26: The comparison of two lists whose items compare without effects, without raising and with
  a reflexive \<open>==\<close> that \<open>!=\<close> is the negation of, is the lexicographic one, for each of the six
  operators: the first items that differ decide it, by the operator itself, and the lengths when
  there are none. Both lists are unchanged. Integer objects are such items.
\<close>

theorem list_richcompare_is_lexicographic:
  assumes "list_order eq cmp rel ok" and "wf_list (fst s)" and "wf_list (fst (snd s))"
    and "\<forall>x \<in> set (elems (fst s)). ok x" and "\<forall>x \<in> set (elems (fst (snd s))). ok x"
  shows "list_richcompare eq cmp (\<lambda>b. b) op s =
    (s, Inr (lex_rel rel op (elems (fst s)) (elems (fst (snd s)))))"
  using wp_total [OF list_order.wp_list_richcompare [OF assms, of op]] by auto

lemma list_richcompare_is_lexicographic_witness:
  "list_richcompare obj_eq (do_richcompare builtin_types) (\<lambda>b. b) Py_LT
     (list_of [int_obj 1, int_obj 2], list_of [int_obj 1, int_obj 3, int_obj 0], ()) =
   ((list_of [int_obj 1, int_obj 2], list_of [int_obj 1, int_obj 3, int_obj 0], ()), Inr True)"
  using list_richcompare_is_lexicographic [OF int_lists.list_order_axioms,
      of "(list_of [int_obj 1, int_obj 2], list_of [int_obj 1, int_obj 3, int_obj 0], ())" Py_LT]
  by simp

end
