(* ===== verification/PySort.thy ===== *)
theory PySort
  imports PyListOps "HOL-Library.Multiset"
begin

text \<open>
  The list sort (\<open>Objects/listobject.c\<close>), an adaptive stable merge sort: definitions, and the parts
  that only search: the binary search, galloping, counting runs, binary insertion.

  The source moves the keys and the values of a slice in sync (\<open>sortslice\<close>); here an array holds
  entries, and the comparison \<open>lt\<close> compares the keys of two entries. The array being sorted is
  detached from the list object, so a comparison changes the rest of the interpreter's state
  \<open>'s\<close> only: the sort's own memory is a value (\<open>merge_state\<close>) that its functions return updated,
  with the exception they end with, if any. Pointers are indexes into the array or the temporary
  one. Reading or writing outside an array, or reading a temporary slot before it was written,
  is a violation.

  The theorems are proved once, under the locale \<open>sort_contract\<close>: what is known of a comparison,
  and which arrangements of the entries it justifies. Its two uses are any comparison at all
  (the arrangement is a permutation) and a strict weak order (it is the stable sort).
\<close>

section \<open>Definitions\<close>

text \<open>The outcome of a call as a value, to run the code behind \<open>fail:\<close>.\<close>

definition sattempt :: "('s, 'a) py \<Rightarrow> ('s, pyerr + 'a) py" where
  "sattempt m = (\<lambda>s. let (t, r) = m s in (t, Inr r))"

definition rd :: "'b list \<Rightarrow> int \<Rightarrow> 'b pyres" where
  "rd xs i = (if 0 \<le> i \<and> nat i < length xs then Inr (xs ! nat i) else Inl AssertionFailed)"

definition wr :: "'b list \<Rightarrow> int \<Rightarrow> 'b \<Rightarrow> 'b list pyres" where
  "wr xs i x = (if 0 \<le> i \<and> nat i < length xs then Inr (xs[nat i := x]) else Inl AssertionFailed)"

text \<open>Blocks of an array, for \<open>sortslice_memcpy\<close> and \<open>sortslice_memmove\<close>.\<close>

definition get_block :: "'b list \<Rightarrow> int \<Rightarrow> nat \<Rightarrow> 'b list pyres" where
  "get_block xs i n =
     (if 0 \<le> i \<and> nat i + n \<le> length xs then Inr (take n (drop (nat i) xs)) else Inl AssertionFailed)"

definition put_block :: "'b list \<Rightarrow> int \<Rightarrow> 'b list \<Rightarrow> 'b list pyres" where
  "put_block xs i ys =
     (if 0 \<le> i \<and> nat i + length ys \<le> length xs then Inr (array_write xs (nat i) ys) else Inl AssertionFailed)"

definition written :: "'b option list \<Rightarrow> 'b list pyres" where
  "written xs = (if None \<in> set xs then Inl AssertionFailed else Inr (map the xs))"

definition rd_tmp :: "'b option list \<Rightarrow> int \<Rightarrow> 'b pyres" where
  "rd_tmp xs i = rbind (rd xs i) (\<lambda>x. case x of Some y \<Rightarrow> Inr y | None \<Rightarrow> Inl AssertionFailed)"

definition MAX_MERGE_PENDING :: nat where "MAX_MERGE_PENDING = 85"
definition MIN_GALLOP :: int where "MIN_GALLOP = 7"
definition MERGESTATE_TEMP_SIZE :: nat where "MERGESTATE_TEMP_SIZE = 256"

text \<open>
  The struct \<open>MergeState\<close>: the entries being sorted, the temporary array (its length is
  \<open>alloced\<close>), whether values go along with the keys, and the stack of pending runs as base and
  length, with \<open>n\<close> its length.
\<close>

record 'e merge_state =
  arr :: "'e list"
  tmp :: "'e option list"
  has_values :: bool
  min_gallop :: int
  pending :: "(nat \<times> nat) list"

type_synonym ('s, 'e) sort_lt = "'e \<Rightarrow> 'e \<Rightarrow> ('s, bool) py"

subsection \<open>Binary search, binary insertion and runs\<close>

text \<open>\<open>while (l < r) { m = l + ((r - l) >> 1); if (test(m)) l = m + 1; else r = m; }\<close>\<close>

function bsearch :: "(nat \<Rightarrow> ('s, bool) py) \<Rightarrow> nat \<Rightarrow> nat \<Rightarrow> ('s, nat) py" where
  "bsearch test l r =
     (if l < r then
        let m = l + (r - l) div 2
        in sbind (test m) (\<lambda>k. if k then bsearch test (m + 1) r else bsearch test l m)
      else sret l)"
  by pat_completeness auto
termination by (relation "measure (\<lambda>(test, l, r). r - l)") auto

text \<open>The tests of the searches: \<open>a[i] < key\<close>, and that \<open>key < a[i]\<close> is not so.\<close>

definition below :: "('s, 'e) sort_lt \<Rightarrow> 'e \<Rightarrow> (int \<Rightarrow> 'e pyres) \<Rightarrow> int \<Rightarrow> ('s, bool) py" where
  "below lt key get i = sbind (slift (get i)) (\<lambda>x. lt x key)"

definition not_above :: "('s, 'e) sort_lt \<Rightarrow> 'e \<Rightarrow> (int \<Rightarrow> 'e pyres) \<Rightarrow> int \<Rightarrow> ('s, bool) py" where
  "not_above lt key get i = sbind (slift (get i)) (\<lambda>x. sbind (lt key x) (\<lambda>k. sret (\<not> k)))"

definition snot :: "('s, bool) py \<Rightarrow> ('s, bool) py" where
  "snot m = sbind m (\<lambda>k. sret (\<not> k))"

text \<open>\<open>for (p = start; p > l; --p) *p = *(p-1);\<close>, with \<open>n = start - l\<close> rounds.\<close>

fun slide :: "nat \<Rightarrow> int \<Rightarrow> 'e list \<Rightarrow> 'e list pyres" where
  "slide 0 p a = Inr a"
| "slide (Suc n) p a = rbind (rd a (p - 1)) (\<lambda>x. rbind (wr a p x) (\<lambda>a. slide n (p - 1) a))"

text \<open>The loop of \<open>binarysort\<close>: \<open>n\<close> entries from \<open>start\<close> on are inserted into \<open>[lo, start)\<close>.\<close>

fun binarysort_loop :: "('s, 'e) sort_lt \<Rightarrow> nat \<Rightarrow> nat \<Rightarrow> nat \<Rightarrow> 'e list \<Rightarrow> ('s, 'e list \<times> pyerr option) py" where
  "binarysort_loop lt lo start 0 a = sret (a, None)"
| "binarysort_loop lt lo start (Suc n) a =
     sbind (slift (rd a (int start))) (\<lambda>pivot.
     sbind (sassert (lo < start)) (\<lambda>_.
     sbind (sattempt (bsearch (\<lambda>i. not_above lt pivot (rd a) (int i)) lo start)) (\<lambda>r.
       case r of
         Inl e \<Rightarrow> sret (a, Some e)
       | Inr l \<Rightarrow>
           sbind (slift (rbind (slide (start - l) (int start) a) (\<lambda>a. wr a (int l) pivot))) (\<lambda>a.
             binarysort_loop lt lo (start + 1) n a))))"

definition binarysort :: "('s, 'e) sort_lt \<Rightarrow> nat \<Rightarrow> nat \<Rightarrow> nat \<Rightarrow> 'e list \<Rightarrow> ('s, 'e list \<times> pyerr option) py" where
  "binarysort lt lo hi start a =
     sbind (sassert (lo \<le> start \<and> start \<le> hi)) (\<lambda>_.
       let start = (if lo = start then start + 1 else start)
       in binarysort_loop lt lo start (hi - start) a)"

text \<open>\<open>count_run\<close>: the run from \<open>lo\<close> on is prolonged while the answer is the first one.\<close>

fun count_run_loop :: "('s, 'e) sort_lt \<Rightarrow> bool \<Rightarrow> 'e list \<Rightarrow> nat \<Rightarrow> nat \<Rightarrow> nat \<Rightarrow> ('s, nat) py" where
  "count_run_loop lt descending a i n 0 = sret n"
| "count_run_loop lt descending a i n (Suc k) =
     sbind (slift (rd a (int i))) (\<lambda>x.
     sbind (slift (rd a (int i - 1))) (\<lambda>y.
     sbind (lt x y) (\<lambda>b.
       if b = descending then count_run_loop lt descending a (i + 1) (n + 1) k else sret n)))"

definition count_run :: "('s, 'e) sort_lt \<Rightarrow> 'e list \<Rightarrow> nat \<Rightarrow> nat \<Rightarrow> ('s, nat \<times> bool) py" where
  "count_run lt a lo hi =
     sbind (sassert (lo < hi)) (\<lambda>_.
       if lo + 1 = hi then sret (1, False)
       else
         sbind (slift (rd a (int lo + 1))) (\<lambda>x.
         sbind (slift (rd a (int lo))) (\<lambda>y.
         sbind (lt x y) (\<lambda>descending.
         sbind (count_run_loop lt descending a (lo + 2) 2 (hi - (lo + 2))) (\<lambda>n.
           sret (n, descending))))))"

subsection \<open>Galloping\<close>

text \<open>
  \<open>while (ofs < maxofs) { if (!test(ofs)) break; lastofs = ofs; ofs = (ofs << 1) + 1; }\<close>
\<close>

function gallop_ofs :: "(nat \<Rightarrow> ('s, bool) py) \<Rightarrow> nat \<Rightarrow> nat \<Rightarrow> nat \<Rightarrow> ('s, nat \<times> nat) py" where
  "gallop_ofs test lastofs ofs maxofs =
     (if ofs < maxofs then
        sbind (test ofs) (\<lambda>k.
          if k then
            sbind (sassert (int ofs \<le> (PY_SSIZE_T_MAX - 1) div 2)) (\<lambda>_.
              gallop_ofs test ofs (2 * ofs + 1) maxofs)
          else sret (lastofs, ofs))
      else sret (lastofs, ofs))"
  by pat_completeness auto
termination by (relation "measure (\<lambda>(test, lastofs, ofs, maxofs). maxofs - ofs)") auto

text \<open>The end of both gallops: the assertion, then the binary search from \<open>lastofs + 1\<close>.\<close>

definition gallop_finish :: "(int \<Rightarrow> ('s, bool) py) \<Rightarrow> nat \<Rightarrow> int \<Rightarrow> int \<Rightarrow> ('s, nat) py" where
  "gallop_finish test n lastofs ofs =
     sbind (sassert (-1 \<le> lastofs \<and> lastofs < ofs \<and> ofs \<le> int n)) (\<lambda>_.
       bsearch (\<lambda>i. test (int i)) (nat (lastofs + 1)) (nat ofs))"

definition gallop_left ::
    "('s, 'e) sort_lt \<Rightarrow> 'e \<Rightarrow> (int \<Rightarrow> 'e pyres) \<Rightarrow> nat \<Rightarrow> nat \<Rightarrow> ('s, nat) py" where
  "gallop_left lt key a n hint =
     sbind (sassert (0 < n \<and> hint < n)) (\<lambda>_.
     sbind (below lt key a (int hint)) (\<lambda>k.
       if k then
         let maxofs = n - hint
         in sbind (gallop_ofs (\<lambda>ofs. below lt key a (int hint + int ofs)) 0 1 maxofs) (\<lambda>(lastofs, ofs).
              let ofs = (if ofs > maxofs then maxofs else ofs)
              in gallop_finish (below lt key a) n (int lastofs + int hint) (int ofs + int hint))
       else
         let maxofs = hint + 1
         in sbind (gallop_ofs (\<lambda>ofs. snot (below lt key a (int hint - int ofs))) 0 1 maxofs) (\<lambda>(lastofs, ofs).
              let ofs = (if ofs > maxofs then maxofs else ofs)
              in gallop_finish (below lt key a) n (int hint - int ofs) (int hint - int lastofs))))"

definition gallop_right ::
    "('s, 'e) sort_lt \<Rightarrow> 'e \<Rightarrow> (int \<Rightarrow> 'e pyres) \<Rightarrow> nat \<Rightarrow> nat \<Rightarrow> ('s, nat) py" where
  "gallop_right lt key a n hint =
     sbind (sassert (0 < n \<and> hint < n)) (\<lambda>_.
     sbind (not_above lt key a (int hint)) (\<lambda>k.
       if \<not> k then
         let maxofs = hint + 1
         in sbind (gallop_ofs (\<lambda>ofs. snot (not_above lt key a (int hint - int ofs))) 0 1 maxofs) (\<lambda>(lastofs, ofs).
              let ofs = (if ofs > maxofs then maxofs else ofs)
              in gallop_finish (not_above lt key a) n (int hint - int ofs) (int hint - int lastofs))
       else
         let maxofs = n - hint
         in sbind (gallop_ofs (\<lambda>ofs. not_above lt key a (int hint + int ofs)) 0 1 maxofs) (\<lambda>(lastofs, ofs).
              let ofs = (if ofs > maxofs then maxofs else ofs)
              in gallop_finish (not_above lt key a) n (int lastofs + int hint) (int ofs + int hint))))"

subsection \<open>Merging\<close>

definition merge_init :: "'e list \<Rightarrow> bool \<Rightarrow> 'e merge_state" where
  "merge_init xs has_keyfunc =
     (let alloced =
        (if has_keyfunc then min ((length xs + 1) div 2) (MERGESTATE_TEMP_SIZE div 2) else MERGESTATE_TEMP_SIZE)
      in \<lparr>arr = xs, tmp = replicate alloced None, has_values = has_keyfunc, min_gallop = MIN_GALLOP, pending = []\<rparr>)"

definition merge_getmem :: "'e merge_state \<Rightarrow> nat \<Rightarrow> 'e merge_state pyres" where
  "merge_getmem ms need =
     (if need \<le> length (tmp ms) then Inr ms
      else if int need > PY_SSIZE_T_MAX div 8 div (if has_values ms then 2 else 1) then Inl MemoryError
      else Inr (ms\<lparr>tmp := replicate need None\<rparr>))"

text \<open>The local pointers of a merge, with the state: \<open>dest\<close>, \<open>ssa\<close> and \<open>ssb\<close>.\<close>

record 'e merge_vars =
  mst :: "'e merge_state"
  dest :: int
  ssa :: int
  ssb :: int

definition put_arr :: "'e list \<Rightarrow> 'e merge_vars \<Rightarrow> 'e merge_vars" where
  "put_arr a v = v\<lparr>mst := (mst v)\<lparr>arr := a\<rparr>\<rparr>"

definition set_min_gallop :: "int \<Rightarrow> 'e merge_vars \<Rightarrow> 'e merge_vars" where
  "set_min_gallop g v = v\<lparr>mst := (mst v)\<lparr>min_gallop := g\<rparr>\<rparr>"

text \<open>
  \<open>merge_lo\<close>: \<open>ssa\<close> points into the temporary array. \<open>lo_move_a k\<close> is \<open>sortslice_memcpy(&dest, 0,
  &ssa, 0, k)\<close> with both pointers advanced, and \<open>sortslice_copy_incr(&dest, &ssa)\<close> when \<open>k\<close> is 1;
  \<open>lo_move_b\<close> the same for \<open>ssb\<close>, which points into the array.
\<close>

definition lo_move_a :: "nat \<Rightarrow> 'e merge_vars \<Rightarrow> 'e merge_vars pyres" where
  "lo_move_a k v =
     rbind (rbind (get_block (tmp (mst v)) (ssa v) k) written) (\<lambda>xs.
     rbind (put_block (arr (mst v)) (dest v) xs) (\<lambda>a.
       Inr ((put_arr a v)\<lparr>dest := dest v + int k, ssa := ssa v + int k\<rparr>)))"

definition lo_move_b :: "nat \<Rightarrow> 'e merge_vars \<Rightarrow> 'e merge_vars pyres" where
  "lo_move_b k v =
     rbind (get_block (arr (mst v)) (ssb v) k) (\<lambda>xs.
     rbind (put_block (arr (mst v)) (dest v) xs) (\<lambda>a.
       Inr ((put_arr a v)\<lparr>dest := dest v + int k, ssb := ssb v + int k\<rparr>)))"

datatype merge_exit = Succeed | Copy | Failed pyerr

datatype merge_mode = Straight int int | Gallop

type_synonym 'e merge_out = "merge_exit \<times> nat \<times> nat \<times> 'e merge_vars"

text \<open>
  The loops of \<open>merge_lo\<close>. \<open>Straight acount bcount\<close> is a round of the inner loop, \<open>Gallop\<close> a round
  of the galloping one; \<open>g\<close> is the local \<open>min_gallop\<close>. The result is the label the code jumps to
  with the variables there.
\<close>

function merge_lo_loop ::
    "('s, 'e) sort_lt \<Rightarrow> merge_mode \<Rightarrow> int \<Rightarrow> nat \<Rightarrow> nat \<Rightarrow> 'e merge_vars \<Rightarrow> ('s, 'e merge_out) py" where
  "merge_lo_loop lt (Straight acount bcount) g na nb v =
     (if \<not> (na > 1 \<and> nb > 0) then sraise AssertionFailed
      else
        sbind (slift (rd (arr (mst v)) (ssb v))) (\<lambda>b.
        sbind (slift (rd_tmp (tmp (mst v)) (ssa v))) (\<lambda>a.
        sbind (sattempt (lt b a)) (\<lambda>k.
          case k of
            Inl e \<Rightarrow> sret (Failed e, na, nb, v)
          | Inr k \<Rightarrow>
              if k then
                sbind (slift (lo_move_b 1 v)) (\<lambda>v.
                  if nb - 1 = 0 then sret (Succeed, na, nb - 1, v)
                  else if bcount + 1 \<ge> g then merge_lo_loop lt Gallop (g + 1) na (nb - 1) v
                  else merge_lo_loop lt (Straight 0 (bcount + 1)) g na (nb - 1) v)
              else
                sbind (slift (lo_move_a 1 v)) (\<lambda>v.
                  if na - 1 = 1 then sret (Copy, na - 1, nb, v)
                  else if acount + 1 \<ge> g then merge_lo_loop lt Gallop (g + 1) (na - 1) nb v
                  else merge_lo_loop lt (Straight (acount + 1) 0) g (na - 1) nb v)))))"
| "merge_lo_loop lt Gallop g na nb v =
     (if \<not> (na > 1 \<and> nb > 0) then sraise AssertionFailed
      else
        let g = (if g > 1 then g - 1 else g);
            v = set_min_gallop g v
        in
        sbind (slift (rd (arr (mst v)) (ssb v))) (\<lambda>b.
        sbind (sattempt (gallop_right lt b (\<lambda>i. rd_tmp (tmp (mst v)) (ssa v + i)) na 0)) (\<lambda>k.
          case k of
            Inl e \<Rightarrow> sret (Failed e, na, nb, v)
          | Inr acount \<Rightarrow>
              sbind (if acount \<noteq> 0 then slift (lo_move_a acount v) else sret v) (\<lambda>v.
                let na = na - acount
                in
                if acount \<noteq> 0 \<and> na = 1 then sret (Copy, na, nb, v)
                else if acount \<noteq> 0 \<and> na = 0 then sret (Succeed, na, nb, v)
                else
                  sbind (slift (lo_move_b 1 v)) (\<lambda>v.
                    if nb - 1 = 0 then sret (Succeed, na, nb - 1, v)
                    else
                      sbind (slift (rd_tmp (tmp (mst v)) (ssa v))) (\<lambda>a.
                      sbind (sattempt (gallop_left lt a (\<lambda>i. rd (arr (mst v)) (ssb v + i)) (nb - 1) 0)) (\<lambda>k.
                        case k of
                          Inl e \<Rightarrow> sret (Failed e, na, nb - 1, v)
                        | Inr bcount \<Rightarrow>
                            sbind (if bcount \<noteq> 0 then slift (lo_move_b bcount v) else sret v) (\<lambda>v.
                              let nb = nb - 1 - bcount
                              in
                              if bcount \<noteq> 0 \<and> nb = 0 then sret (Succeed, na, nb, v)
                              else
                                sbind (slift (lo_move_a 1 v)) (\<lambda>v.
                                  if na - 1 = 1 then sret (Copy, na - 1, nb, v)
                                  else if int acount \<ge> MIN_GALLOP \<or> int bcount \<ge> MIN_GALLOP then
                                    merge_lo_loop lt Gallop g (na - 1) nb v
                                  else
                                    merge_lo_loop lt (Straight 0 0) (g + 1) (na - 1) nb (set_min_gallop (g + 1) v))))))))))"
  by pat_completeness auto
termination by (relation "measure (\<lambda>(lt, mode, g, na, nb, v). na + nb)") auto

text \<open>\<open>Succeed:\<close>, \<open>Fail:\<close> and \<open>CopyB:\<close>.\<close>

definition merge_lo_exit :: "'e merge_out \<Rightarrow> ('e merge_state \<times> pyerr option) pyres" where
  "merge_lo_exit out =
     (case out of (x, na, nb, v) \<Rightarrow>
        case x of
          Copy \<Rightarrow>
            rbind (c_assert (na = 1 \<and> nb > 0)) (\<lambda>_.
            rbind (lo_move_b nb v) (\<lambda>v.
            rbind (lo_move_a 1 v) (\<lambda>v. Inr (mst v, None))))
        | Succeed \<Rightarrow> rbind (if na \<noteq> 0 then lo_move_a na v else Inr v) (\<lambda>v. Inr (mst v, None))
        | Failed e \<Rightarrow> rbind (if na \<noteq> 0 then lo_move_a na v else Inr v) (\<lambda>v. Inr (mst v, Some e)))"

text \<open>\<open>a\<close> and \<open>b\<close> are the indexes of the two runs.\<close>

definition merge_lo ::
    "('s, 'e) sort_lt \<Rightarrow> nat \<Rightarrow> nat \<Rightarrow> nat \<Rightarrow> nat \<Rightarrow> 'e merge_state \<Rightarrow> ('s, 'e merge_state \<times> pyerr option) py" where
  "merge_lo lt a na b nb ms =
     sbind (sassert (na > 0 \<and> nb > 0 \<and> a + na = b)) (\<lambda>_.
       case merge_getmem ms na of
         Inl e \<Rightarrow> sret (ms, Some e)
       | Inr ms \<Rightarrow>
           sbind (slift (rbind (get_block (arr ms) (int a) na) (\<lambda>xs. put_block (tmp ms) 0 (map Some xs)))) (\<lambda>t.
           sbind (slift (lo_move_b 1 \<lparr>mst = ms\<lparr>tmp := t\<rparr>, dest = int a, ssa = 0, ssb = int b\<rparr>)) (\<lambda>v.
           sbind
             (if nb - 1 = 0 then sret (Succeed, na, nb - 1, v)
              else if na = 1 then sret (Copy, na, nb - 1, v)
              else merge_lo_loop lt (Straight 0 0) (min_gallop ms) na (nb - 1) v) (\<lambda>out.
             slift (merge_lo_exit out)))))"

text \<open>
  \<open>merge_hi\<close>: the pointers run down, \<open>ssb\<close> points into the temporary array. \<open>hi_move_a k\<close> is
  \<open>sortslice_advance\<close> by \<open>-k\<close> of both pointers and \<open>sortslice_memmove(&dest, 1, &ssa, 1, k)\<close>, and
  \<open>sortslice_copy_decr(&dest, &ssa)\<close> when \<open>k\<close> is 1.
\<close>

definition hi_move_a :: "nat \<Rightarrow> 'e merge_vars \<Rightarrow> 'e merge_vars pyres" where
  "hi_move_a k v =
     rbind (get_block (arr (mst v)) (ssa v - int k + 1) k) (\<lambda>xs.
     rbind (put_block (arr (mst v)) (dest v - int k + 1) xs) (\<lambda>a.
       Inr ((put_arr a v)\<lparr>dest := dest v - int k, ssa := ssa v - int k\<rparr>)))"

definition hi_move_b :: "nat \<Rightarrow> 'e merge_vars \<Rightarrow> 'e merge_vars pyres" where
  "hi_move_b k v =
     rbind (rbind (get_block (tmp (mst v)) (ssb v - int k + 1) k) written) (\<lambda>xs.
     rbind (put_block (arr (mst v)) (dest v - int k + 1) xs) (\<lambda>a.
       Inr ((put_arr a v)\<lparr>dest := dest v - int k, ssb := ssb v - int k\<rparr>)))"

function merge_hi_loop ::
    "('s, 'e) sort_lt \<Rightarrow> int \<Rightarrow> merge_mode \<Rightarrow> int \<Rightarrow> nat \<Rightarrow> nat \<Rightarrow> 'e merge_vars \<Rightarrow> ('s, 'e merge_out) py" where
  "merge_hi_loop lt basea (Straight acount bcount) g na nb v =
     (if \<not> (na > 0 \<and> nb > 1) then sraise AssertionFailed
      else
        sbind (slift (rd_tmp (tmp (mst v)) (ssb v))) (\<lambda>b.
        sbind (slift (rd (arr (mst v)) (ssa v))) (\<lambda>a.
        sbind (sattempt (lt b a)) (\<lambda>k.
          case k of
            Inl e \<Rightarrow> sret (Failed e, na, nb, v)
          | Inr k \<Rightarrow>
              if k then
                sbind (slift (hi_move_a 1 v)) (\<lambda>v.
                  if na - 1 = 0 then sret (Succeed, na - 1, nb, v)
                  else if acount + 1 \<ge> g then merge_hi_loop lt basea Gallop (g + 1) (na - 1) nb v
                  else merge_hi_loop lt basea (Straight (acount + 1) 0) g (na - 1) nb v)
              else
                sbind (slift (hi_move_b 1 v)) (\<lambda>v.
                  if nb - 1 = 1 then sret (Copy, na, nb - 1, v)
                  else if bcount + 1 \<ge> g then merge_hi_loop lt basea Gallop (g + 1) na (nb - 1) v
                  else merge_hi_loop lt basea (Straight 0 (bcount + 1)) g na (nb - 1) v)))))"
| "merge_hi_loop lt basea Gallop g na nb v =
     (if \<not> (na > 0 \<and> nb > 1) then sraise AssertionFailed
      else
        let g = (if g > 1 then g - 1 else g);
            v = set_min_gallop g v
        in
        sbind (slift (rd_tmp (tmp (mst v)) (ssb v))) (\<lambda>b.
        sbind (sattempt (gallop_right lt b (\<lambda>i. rd (arr (mst v)) (basea + i)) na (na - 1))) (\<lambda>k.
          case k of
            Inl e \<Rightarrow> sret (Failed e, na, nb, v)
          | Inr k \<Rightarrow>
              let acount = na - k
              in
              sbind (if acount \<noteq> 0 then slift (hi_move_a acount v) else sret v) (\<lambda>v.
                let na = na - acount
                in
                if acount \<noteq> 0 \<and> na = 0 then sret (Succeed, na, nb, v)
                else
                  sbind (slift (hi_move_b 1 v)) (\<lambda>v.
                    if nb - 1 = 1 then sret (Copy, na, nb - 1, v)
                    else
                      sbind (slift (rd (arr (mst v)) (ssa v))) (\<lambda>a.
                      sbind (sattempt (gallop_left lt a (\<lambda>i. rd_tmp (tmp (mst v)) i) (nb - 1) (nb - 1 - 1))) (\<lambda>k.
                        case k of
                          Inl e \<Rightarrow> sret (Failed e, na, nb - 1, v)
                        | Inr k \<Rightarrow>
                            let bcount = nb - 1 - k
                            in
                            sbind (if bcount \<noteq> 0 then slift (hi_move_b bcount v) else sret v) (\<lambda>v.
                              let nb = nb - 1 - bcount
                              in
                              if bcount \<noteq> 0 \<and> nb = 1 then sret (Copy, na, nb, v)
                              else if bcount \<noteq> 0 \<and> nb = 0 then sret (Succeed, na, nb, v)
                              else
                                sbind (slift (hi_move_a 1 v)) (\<lambda>v.
                                  if na - 1 = 0 then sret (Succeed, na - 1, nb, v)
                                  else if int acount \<ge> MIN_GALLOP \<or> int bcount \<ge> MIN_GALLOP then
                                    merge_hi_loop lt basea Gallop g (na - 1) nb v
                                  else
                                    merge_hi_loop lt basea (Straight 0 0) (g + 1) (na - 1) nb
                                      (set_min_gallop (g + 1) v))))))))))"
  by pat_completeness auto
termination by (relation "measure (\<lambda>(lt, basea, mode, g, na, nb, v). na + nb)") auto

definition hi_restore :: "nat \<Rightarrow> 'e merge_vars \<Rightarrow> 'e merge_vars pyres" where
  "hi_restore nb v =
     (if nb = 0 then Inr v
      else
        rbind (rbind (get_block (tmp (mst v)) 0 nb) written) (\<lambda>xs.
        rbind (put_block (arr (mst v)) (dest v - (int nb - 1)) xs) (\<lambda>a. Inr (put_arr a v))))"

definition merge_hi_exit :: "'e merge_out \<Rightarrow> ('e merge_state \<times> pyerr option) pyres" where
  "merge_hi_exit out =
     (case out of (x, na, nb, v) \<Rightarrow>
        case x of
          Copy \<Rightarrow>
            rbind (c_assert (nb = 1 \<and> na > 0)) (\<lambda>_.
            rbind (hi_move_a na v) (\<lambda>v.
            rbind (hi_move_b 1 v) (\<lambda>v. Inr (mst v, None))))
        | Succeed \<Rightarrow> rbind (hi_restore nb v) (\<lambda>v. Inr (mst v, None))
        | Failed e \<Rightarrow> rbind (hi_restore nb v) (\<lambda>v. Inr (mst v, Some e)))"

definition merge_hi ::
    "('s, 'e) sort_lt \<Rightarrow> nat \<Rightarrow> nat \<Rightarrow> nat \<Rightarrow> nat \<Rightarrow> 'e merge_state \<Rightarrow> ('s, 'e merge_state \<times> pyerr option) py" where
  "merge_hi lt a na b nb ms =
     sbind (sassert (na > 0 \<and> nb > 0 \<and> a + na = b)) (\<lambda>_.
       case merge_getmem ms nb of
         Inl e \<Rightarrow> sret (ms, Some e)
       | Inr ms \<Rightarrow>
           sbind (slift (rbind (get_block (arr ms) (int b) nb) (\<lambda>xs. put_block (tmp ms) 0 (map Some xs)))) (\<lambda>t.
           sbind (slift (hi_move_a 1 \<lparr>mst = ms\<lparr>tmp := t\<rparr>, dest = int b + int nb - 1, ssa = int a + int na - 1,
                                      ssb = int nb - 1\<rparr>)) (\<lambda>v.
           sbind
             (if na - 1 = 0 then sret (Succeed, na - 1, nb, v)
              else if nb = 1 then sret (Copy, na - 1, nb, v)
              else merge_hi_loop lt (int a) (Straight 0 0) (min_gallop ms) (na - 1) nb v) (\<lambda>out.
             slift (merge_hi_exit out)))))"

subsection \<open>The stack of runs\<close>

abbreviation run_base :: "'e merge_state \<Rightarrow> nat \<Rightarrow> nat" where
  "run_base ms i \<equiv> fst (pending ms ! i)"

abbreviation run_len :: "'e merge_state \<Rightarrow> nat \<Rightarrow> nat" where
  "run_len ms i \<equiv> snd (pending ms ! i)"

definition merge_at :: "('s, 'e) sort_lt \<Rightarrow> nat \<Rightarrow> 'e merge_state \<Rightarrow> ('s, 'e merge_state \<times> pyerr option) py" where
  "merge_at lt i ms =
     (let n = length (pending ms);
          a = run_base ms i;
          na = run_len ms i;
          b = run_base ms (i + 1);
          nb = run_len ms (i + 1)
      in
      sbind (sassert (n \<ge> 2 \<and> (int i = int n - 2 \<or> int i = int n - 3))) (\<lambda>_.
      sbind (sassert (na > 0 \<and> nb > 0 \<and> a + na = b)) (\<lambda>_.
        let p = (pending ms)[i := (a, na + nb)];
            p = (if i + 3 = n then p[i + 1 := p ! (i + 2)] else p);
            ms = ms\<lparr>pending := take (n - 1) p\<rparr>
        in
        sbind (slift (rd (arr ms) (int b))) (\<lambda>key.
        sbind (sattempt (gallop_right lt key (\<lambda>j. rd (arr ms) (int a + j)) na 0)) (\<lambda>k.
          case k of
            Inl e \<Rightarrow> sret (ms, Some e)
          | Inr k \<Rightarrow>
              let a = a + k;
                  na = na - k
              in
              if na = 0 then sret (ms, None)
              else
                sbind (slift (rd (arr ms) (int a + int na - 1))) (\<lambda>key.
                sbind (sattempt (gallop_left lt key (\<lambda>j. rd (arr ms) (int b + j)) nb (nb - 1))) (\<lambda>nb.
                  case nb of
                    Inl e \<Rightarrow> sret (ms, Some e)
                  | Inr nb \<Rightarrow>
                      if nb = 0 then sret (ms, None)
                      else if na \<le> nb then merge_lo lt a na b nb ms
                      else merge_hi lt a na b nb ms)))))))"

text \<open>
  Each round merges two runs, so \<open>fuel\<close>, at first the number of runs, is never below their
  number.
\<close>

fun merge_collapse_loop ::
    "nat \<Rightarrow> ('s, 'e) sort_lt \<Rightarrow> 'e merge_state \<Rightarrow> ('s, 'e merge_state \<times> pyerr option) py" where
  "merge_collapse_loop 0 lt ms = sret (ms, None)"
| "merge_collapse_loop (Suc fuel) lt ms =
     (if length (pending ms) > 1 then
        let n = length (pending ms) - 2;
            continue = (\<lambda>i. sbind (merge_at lt i ms) (\<lambda>(ms, r).
              case r of Some e \<Rightarrow> sret (ms, Some e) | None \<Rightarrow> merge_collapse_loop fuel lt ms))
        in
        if (n > 0 \<and> run_len ms (n - 1) \<le> run_len ms n + run_len ms (n + 1)) \<or>
           (n > 1 \<and> run_len ms (n - 2) \<le> run_len ms (n - 1) + run_len ms n)
        then continue (if run_len ms (n - 1) < run_len ms (n + 1) then n - 1 else n)
        else if run_len ms n \<le> run_len ms (n + 1) then continue n
        else sret (ms, None)
      else sret (ms, None))"

definition merge_collapse :: "('s, 'e) sort_lt \<Rightarrow> 'e merge_state \<Rightarrow> ('s, 'e merge_state \<times> pyerr option) py" where
  "merge_collapse lt ms = merge_collapse_loop (length (pending ms)) lt ms"

fun merge_force_collapse_loop ::
    "nat \<Rightarrow> ('s, 'e) sort_lt \<Rightarrow> 'e merge_state \<Rightarrow> ('s, 'e merge_state \<times> pyerr option) py" where
  "merge_force_collapse_loop 0 lt ms = sret (ms, None)"
| "merge_force_collapse_loop (Suc fuel) lt ms =
     (if length (pending ms) > 1 then
        let n = length (pending ms) - 2;
            n = (if n > 0 \<and> run_len ms (n - 1) < run_len ms (n + 1) then n - 1 else n)
        in sbind (merge_at lt n ms) (\<lambda>(ms, r).
             case r of Some e \<Rightarrow> sret (ms, Some e) | None \<Rightarrow> merge_force_collapse_loop fuel lt ms)
      else sret (ms, None))"

definition merge_force_collapse :: "('s, 'e) sort_lt \<Rightarrow> 'e merge_state \<Rightarrow> ('s, 'e merge_state \<times> pyerr option) py" where
  "merge_force_collapse lt ms = merge_force_collapse_loop (length (pending ms)) lt ms"

function compute_minrun_loop :: "nat \<Rightarrow> nat \<Rightarrow> nat" where
  "compute_minrun_loop n r = (if n \<ge> 64 then compute_minrun_loop (n div 2) (r OR (n AND 1)) else n + r)"
  by pat_completeness auto
termination by (relation "measure fst") auto

definition merge_compute_minrun :: "nat \<Rightarrow> nat" where
  "merge_compute_minrun n = compute_minrun_loop n 0"

subsection \<open>The sort\<close>

text \<open>
  The march over the array: find a run, extend it, push it, merge. Every round takes at least
  one entry, so \<open>fuel\<close>, at first \<open>nremaining\<close>, is never below it.
\<close>

fun sort_loop ::
    "nat \<Rightarrow> ('s, 'e) sort_lt \<Rightarrow> nat \<Rightarrow> nat \<Rightarrow> nat \<Rightarrow> 'e merge_state \<Rightarrow> ('s, 'e merge_state \<times> pyerr option) py" where
  "sort_loop 0 lt minrun lo nremaining ms = sret (ms, None)"
| "sort_loop (Suc fuel) lt minrun lo nremaining ms =
     (if nremaining = 0 then sret (ms, None)
      else
        sbind (sattempt (count_run lt (arr ms) lo (lo + nremaining))) (\<lambda>r.
          case r of
            Inl e \<Rightarrow> sret (ms, Some e)
          | Inr (n, descending) \<Rightarrow>
              sbind (slift (if descending then reverse_slice lo (lo + n) (arr ms) else Inr (arr ms))) (\<lambda>a.
                let force = (if nremaining \<le> minrun then nremaining else minrun)
                in
                sbind (if n < minrun then binarysort lt lo (lo + force) (lo + n) a else sret (a, None)) (\<lambda>(a, r).
                  let ms = ms\<lparr>arr := a\<rparr>;
                      n = (if n < minrun then force else n)
                  in
                  case r of
                    Some e \<Rightarrow> sret (ms, Some e)
                  | None \<Rightarrow>
                      sbind (sassert (length (pending ms) < MAX_MERGE_PENDING)) (\<lambda>_.
                      sbind (merge_collapse lt (ms\<lparr>pending := pending ms @ [(lo, n)]\<rparr>)) (\<lambda>(ms, r).
                        case r of
                          Some e \<Rightarrow> sret (ms, Some e)
                        | None \<Rightarrow> sort_loop fuel lt minrun (lo + n) (nremaining - n) ms))))))"

text \<open>The sort of an array of entries; on an error it returns the array the error left.\<close>

definition sort_entries ::
    "('s, 'e) sort_lt \<Rightarrow> bool \<Rightarrow> bool \<Rightarrow> 'e list \<Rightarrow> ('s, 'e list \<times> pyerr option) py" where
  "sort_entries lt has_keyfunc reverse xs =
     (let ms = merge_init xs has_keyfunc;
          nremaining = length xs
      in
      if nremaining < 2 then sret (xs, None)
      else
        sbind (slift (if reverse then reverse_slice 0 nremaining xs else Inr xs)) (\<lambda>a.
        sbind (sort_loop nremaining lt (merge_compute_minrun nremaining) 0 nremaining (ms\<lparr>arr := a\<rparr>)) (\<lambda>(ms, r).
        sbind
          (case r of
             Some e \<Rightarrow> sret (ms, Some e)
           | None \<Rightarrow>
               sbind (merge_force_collapse lt ms) (\<lambda>(ms, r).
                 case r of
                   Some e \<Rightarrow> sret (ms, Some e)
                 | None \<Rightarrow>
                     sbind (sassert (length (pending ms) = 1 \<and> pending ms ! 0 = (0, length xs))) (\<lambda>_.
                       sret (ms, None)))) (\<lambda>(ms, r).
        sbind (slift (if reverse then reverse_slice 0 nremaining (arr ms) else Inr (arr ms))) (\<lambda>a.
          sret (a, r))))))"

text \<open>The keys, one call of the key function after the other.\<close>

fun sort_keys :: "('a \<Rightarrow> ('s, 'k) py) \<Rightarrow> 'a list \<Rightarrow> ('s, 'k list) py" where
  "sort_keys keyfunc [] = sret []"
| "sort_keys keyfunc (x # xs) =
     sbind (keyfunc x) (\<lambda>k. sbind (sort_keys keyfunc xs) (\<lambda>ks. sret (k # ks)))"

text \<open>
  \<open>list_sort_impl\<close>. The list is empty and marked with \<open>allocated = -1\<close> while user code runs;
  whatever that leaves in it is dropped at the end. Without a key function the entries are the
  items, with one they are pairs of a key and an item.
\<close>

definition sort_detach :: "('a pylist \<times> 'w, 'a pylist) py" where
  "sort_detach = (\<lambda>(self, w). ((\<lparr>list_size = 0, ob_item = None, allocated = -1\<rparr>, w), Inr self))"

definition sort_restore :: "'a pylist \<Rightarrow> 'a list \<Rightarrow> ('a pylist \<times> 'w, unit) py" where
  "sort_restore saved xs = (\<lambda>(self, w).
     ((if ob_item saved = None then saved
       else saved\<lparr>ob_item := Some (array_write (slots saved) 0 (map Some xs))\<rparr>, w), Inr ()))"

definition saved_items :: "'a pylist \<Rightarrow> 'a list pyres" where
  "saved_items saved = rbind (get_block (slots saved) 0 (nat (list_size saved))) written"

definition sort_finish :: "'a pylist \<Rightarrow> 'a list \<Rightarrow> pyerr option \<Rightarrow> ('a pylist \<times> 'w, unit) py" where
  "sort_finish saved xs r =
     sbind (on_fst (sget allocated)) (\<lambda>alloc.
     sbind (sort_restore saved xs) (\<lambda>_.
       case r of
         Some e \<Rightarrow> sraise e
       | None \<Rightarrow> if alloc \<noteq> -1 then sraise ValueError else sret ()))"

definition list_sort :: "('a \<Rightarrow> 'a \<Rightarrow> ('a pylist \<times> 'w, bool) py) \<Rightarrow> bool \<Rightarrow> ('a pylist \<times> 'w, unit) py" where
  "list_sort lt reverse =
     sbind sort_detach (\<lambda>saved.
     sbind (slift (saved_items saved)) (\<lambda>xs.
     sbind (sort_entries lt False reverse xs) (\<lambda>(xs, r). sort_finish saved xs r)))"

definition list_sort_key ::
    "('k \<Rightarrow> 'k \<Rightarrow> ('a pylist \<times> 'w, bool) py) \<Rightarrow> ('a \<Rightarrow> ('a pylist \<times> 'w, 'k) py) \<Rightarrow> bool \<Rightarrow> ('a pylist \<times> 'w, unit) py" where
  "list_sort_key lt keyfunc reverse =
     sbind sort_detach (\<lambda>saved.
     sbind (slift (saved_items saved)) (\<lambda>xs.
     sbind (sattempt (sort_keys keyfunc xs)) (\<lambda>keys.
       case keys of
         Inl e \<Rightarrow> sbind (sort_restore saved xs) (\<lambda>_. sraise e)
       | Inr ks \<Rightarrow>
           sbind (sort_entries (\<lambda>x y. lt (fst x) (fst y)) True reverse (zip ks xs)) (\<lambda>(es, r).
             sort_finish saved (map snd es) r))))"

declare bsearch.simps [simp del] gallop_ofs.simps [simp del] merge_lo_loop.simps [simp del]
  merge_hi_loop.simps [simp del] compute_minrun_loop.simps [simp del]

section \<open>Arrays\<close>

lemma wp_sattempt [simp, wp_rules]:
  "wp (sattempt m) Q E = wp m (\<lambda>x. Q (Inr x)) (\<lambda>e. Q (Inl e))"
  by (rule ext) (auto simp: wp_def sattempt_def split: prod.splits sum.splits)

lemma wp_slift: "wp (slift r) Q E s = (case r of Inl e \<Rightarrow> E e s | Inr x \<Rightarrow> Q x s)"
  by (cases r) simp_all

lemma rd_append [simp]: "i = int (length xs) \<Longrightarrow> rd (xs @ y # ys) i = Inr y"
  by (simp add: rd_def)

lemma rd_nth: "i < length xs \<Longrightarrow> rd xs (int i) = Inr (xs ! i)"
  by (simp add: rd_def)

lemma wr_append [simp]: "i = int (length xs) \<Longrightarrow> wr (xs @ y # ys) i z = Inr (xs @ z # ys)"
  by (simp add: wr_def)

lemma rd_tmp_append [simp]: "i = int (length xs) \<Longrightarrow> rd_tmp (xs @ Some y # ys) i = Inr y"
  by (simp add: rd_tmp_def)

lemma get_block_append: "i = int (length xs) \<Longrightarrow> n = length ys \<Longrightarrow> get_block (xs @ ys @ zs) i n = Inr ys"
  by (simp add: get_block_def)

lemma put_block_append:
  "i = int (length xs) \<Longrightarrow> length ys = length ys' \<Longrightarrow> put_block (xs @ ys @ zs) i ys' = Inr (xs @ ys' @ zs)"
  by (simp add: put_block_def array_write_def)

lemma written_Some [simp]: "written (map Some xs) = Inr xs"
  by (simp add: written_def o_def)

lemma last_take_nth: "k \<le> length xs \<Longrightarrow> k \<noteq> 0 \<Longrightarrow> last (take k xs) = xs ! (k - 1)"
  by (cases k) (simp_all add: take_Suc_conv_app_nth)

section \<open>The contract of a comparison in a sort\<close>

text \<open>
  \<open>V\<close> are the entries, \<open>W\<close> holds of the state in which user code runs, and \<open>X\<close> are the exceptions
  a comparison may raise. \<open>R x y b\<close> says that \<open>b\<close> is a possible answer to \<open>x < y\<close>.
  \<open>C xs ys\<close> says that the answers justify the arrangement \<open>ys\<close> of the entries \<open>xs\<close>, and
  \<open>J xs oL as bs oR\<close> that they justify merging the runs \<open>as\<close> and \<open>bs\<close> of \<open>xs\<close> further when \<open>oL\<close> has
  been put before and \<open>oR\<close> after them: each law is one move of a merge.
\<close>

locale sort_contract =
  fixes lt :: "('s, 'e) sort_lt" and V :: "'e \<Rightarrow> bool" and W :: "'s \<Rightarrow> bool" and X :: "pyerr \<Rightarrow> bool"
    and R :: "'e \<Rightarrow> 'e \<Rightarrow> bool \<Rightarrow> bool" and C :: "'e list \<Rightarrow> 'e list \<Rightarrow> bool"
    and J :: "'e list \<Rightarrow> 'e list \<Rightarrow> 'e list \<Rightarrow> 'e list \<Rightarrow> 'e list \<Rightarrow> bool"
  assumes lt_answer: "V x \<Longrightarrow> V y \<Longrightarrow> W s \<Longrightarrow> wp (lt x y) (\<lambda>b t. W t \<and> R x y b) (\<lambda>e t. W t \<and> X e) s"
    and C_one: "C [x] [x]"
    and C_mset: "C xs ys \<Longrightarrow> mset ys = mset xs"
    and J_start: "C xs as \<Longrightarrow> C ys bs \<Longrightarrow> J (xs @ ys) [] as bs []"
    and J_mset: "J xs oL as bs oR \<Longrightarrow> mset (oL @ as @ bs @ oR) = mset xs"
    and J_done_a: "J xs oL as [] oR \<Longrightarrow> C xs (oL @ as @ oR)"
    and J_done_b: "J xs oL [] bs oR \<Longrightarrow> C xs (oL @ bs @ oR)"
    and a_first: "J xs oL (as @ as') (b # bs) oR \<Longrightarrow> as = [] \<or> R b (last as) False \<Longrightarrow> J xs (oL @ as) as' (b # bs) oR"
    and b_first: "J xs oL (a # as) (bs @ bs') oR \<Longrightarrow> bs = [] \<or> R (last bs) a True \<Longrightarrow> J xs (oL @ bs) (a # as) bs' oR"
    and a_last: "J xs oL (as @ as') (bs @ [b]) oR \<Longrightarrow> as' = [] \<or> R b (hd as') True \<Longrightarrow> J xs oL as (bs @ [b]) (as' @ oR)"
    and b_last: "J xs oL (as @ [a]) (bs @ bs') oR \<Longrightarrow> bs' = [] \<or> R (hd bs') a False \<Longrightarrow> J xs oL (as @ [a]) bs (bs' @ oR)"
begin

lemma C_length: "C xs ys \<Longrightarrow> length ys = length xs"
  using C_mset mset_eq_length by blast

text \<open>Inserting one entry into a run.\<close>

lemma C_insert:
  assumes C: "C xs (as @ bs)" and l: "as = [] \<or> R p (last as) False" and r: "bs = [] \<or> R p (hd bs) True"
  shows "C (xs @ [p]) (as @ p # bs)"
proof -
  have J: "J (xs @ [p]) as bs [p] []"
    using a_first [OF J_start [OF C C_one [of p]] l] by simp
  show ?thesis
  proof (cases bs)
    case Nil
    then show ?thesis using J_done_b J by fastforce
  next
    case (Cons b bs')
    have "J (xs @ [p]) (as @ [p]) bs [] []"
      using b_first [of "xs @ [p]" as b bs' "[p]" "[]" "[]"] J r Cons by simp
    then show ?thesis using J_done_a by fastforce
  qed
qed

abbreviation (input) SX :: "pyerr \<Rightarrow> 's \<Rightarrow> bool" where
  "SX \<equiv> \<lambda>e t. W t \<and> X e"

lemma wp_bsearch:
  assumes "\<And>i t. l \<le> i \<Longrightarrow> i < r \<Longrightarrow> W t \<Longrightarrow> wp (test i) (\<lambda>b u. W u \<and> Q i b) SX t"
    and "l \<le> r" and "W s"
  shows "wp (bsearch test l r)
    (\<lambda>k t. W t \<and> l \<le> k \<and> k \<le> r \<and> (k = l \<or> Q (k - 1) True) \<and> (k = r \<or> Q k False)) SX s"
  using assms
proof (induction "r - l" arbitrary: l r s rule: less_induct)
  case less
  show ?case
  proof (cases "l < r")
    case False
    then show ?thesis using less.prems(2,3) by (subst bsearch.simps) simp
  next
    case True
    define m where "m = l + (r - l) div 2"
    have m: "l \<le> m" "m < r" using True by (auto simp: m_def)
    have step: "wp (if k then bsearch test (m + 1) r else bsearch test l m)
      (\<lambda>k t. W t \<and> l \<le> k \<and> k \<le> r \<and> (k = l \<or> Q (k - 1) True) \<and> (k = r \<or> Q k False)) SX t"
      if "W t" and Q: "Q m k" for k t
    proof (cases k)
      case k: True
      have "wp (bsearch test (m + 1) r)
        (\<lambda>k t. W t \<and> m + 1 \<le> k \<and> k \<le> r \<and> (k = m + 1 \<or> Q (k - 1) True) \<and> (k = r \<or> Q k False)) SX t"
        by (rule less.hyps) (use m that(1) less.prems(1) in auto)
      then show ?thesis
        unfolding if_P [OF k] by (rule wp_mono) (use m Q k in auto)
    next
      case k: False
      have "wp (bsearch test l m)
        (\<lambda>k t. W t \<and> l \<le> k \<and> k \<le> m \<and> (k = l \<or> Q (k - 1) True) \<and> (k = m \<or> Q k False)) SX t"
        by (rule less.hyps) (use m that(1) less.prems(1) in auto)
      then show ?thesis
        unfolding if_not_P [OF k] by (rule wp_mono) (use m Q k in auto)
    qed
    show ?thesis
      unfolding bsearch.simps [of test l r] if_P [OF True] Let_def m_def [symmetric] wp_sbind
      by (rule wp_mono [OF less.prems(1) [OF m less.prems(3)]]) (use step in auto)
  qed
qed

lemma wp_below:
  assumes "get i = Inr x" and "V x" and "V key" and "W s"
  shows "wp (below lt key get i) (\<lambda>b t. W t \<and> R x key b) SX s"
  using lt_answer [OF assms(2-4)] assms(1) by (simp add: below_def)

lemma wp_not_above:
  assumes "get i = Inr x" and "V x" and "V key" and "W s"
  shows "wp (not_above lt key get i) (\<lambda>b t. W t \<and> R key x (\<not> b)) SX s"
  using lt_answer [OF assms(3,2,4)] assms(1) by (simp add: not_above_def)

lemma wp_snot: "wp (snot m) (\<lambda>b t. P (\<not> b) t) E s = wp m P E s"
  by (simp add: snot_def)

subsection \<open>Galloping\<close>

text \<open>\<open>Q i b\<close>: \<open>b\<close> is a possible answer of the test at \<open>i\<close>.\<close>

lemma wp_gallop_ofs:
  assumes "\<And>i t. i < maxofs \<Longrightarrow> W t \<Longrightarrow> wp (test i) (\<lambda>b u. W u \<and> Q i b) SX t"
    and "lastofs < ofs" and "Q lastofs True" and "lastofs < maxofs" and "int maxofs \<le> LIST_MAX" and "W s"
  shows "wp (gallop_ofs test lastofs ofs maxofs)
    (\<lambda>(l, r) t. W t \<and> l < r \<and> l < maxofs \<and> Q l True \<and> (maxofs \<le> r \<or> Q r False)) SX s"
  using assms(2-4,6)
proof (induction "maxofs - ofs" arbitrary: lastofs ofs s rule: less_induct)
  case less
  show ?case
  proof (cases "ofs < maxofs")
    case False
    then show ?thesis using less.prems by (simp add: gallop_ofs.simps [of test lastofs ofs])
  next
    case True
    have small: "int ofs \<le> (PY_SSIZE_T_MAX - 1) div 2" using True assms(5) by (simp add: PY_SSIZE_T_MAX_def)
    have IH: "wp (gallop_ofs test ofs (2 * ofs + 1) maxofs)
      (\<lambda>(l, r) t. W t \<and> l < r \<and> l < maxofs \<and> Q l True \<and> (maxofs \<le> r \<or> Q r False)) SX t"
      if "W t" and "Q ofs True" for t
      by (rule less.hyps) (use True that in auto)
    show ?thesis
      unfolding gallop_ofs.simps [of test lastofs ofs] if_P [OF True] wp_sbind
      by (rule wp_mono [OF assms(1) [OF True less.prems(4)]])
        (use True IH less.prems small in auto)
  qed
qed

lemma wp_gallop_finish:
  assumes "\<And>i t. i < n \<Longrightarrow> W t \<Longrightarrow> wp (test (int i)) (\<lambda>b u. W u \<and> Q i b) SX t"
    and "-1 \<le> l" and "l < r" and "r \<le> int n" and "W s"
    and "l = -1 \<or> Q (nat l) True" and "r = int n \<or> Q (nat r) False"
  shows "wp (gallop_finish test n l r)
    (\<lambda>k t. W t \<and> k \<le> n \<and> (k = 0 \<or> Q (k - 1) True) \<and> (k = n \<or> Q k False)) SX s"
proof -
  have "wp (bsearch (\<lambda>i. test (int i)) (nat (l + 1)) (nat r))
    (\<lambda>k t. W t \<and> nat (l + 1) \<le> k \<and> k \<le> nat r \<and> (k = nat (l + 1) \<or> Q (k - 1) True) \<and> (k = nat r \<or> Q k False)) SX s"
    by (rule wp_bsearch) (use assms in auto)
  then have "wp (bsearch (\<lambda>i. test (int i)) (nat (l + 1)) (nat r))
    (\<lambda>k t. W t \<and> k \<le> n \<and> (k = 0 \<or> Q (k - 1) True) \<and> (k = n \<or> Q k False)) SX s"
  proof (rule wp_mono, goal_cases)
    case (1 k t)
    have "k = 0 \<or> Q (k - 1) True"
    proof (cases "k = nat (l + 1)")
      case True
      then have "k = 0 \<or> k - 1 = nat l \<and> l \<noteq> -1" using assms(2) by auto
      then show ?thesis using assms(6) by auto
    qed (use 1 in simp)
    moreover have "k = n \<or> Q k False"
      using 1 assms(4,7) by auto
    moreover have "nat r \<le> n" using assms(4) by simp
    ultimately show ?case using 1 by (meson order_trans)
  qed simp
  then show ?thesis using assms(2-4) by (simp add: gallop_finish_def)
qed

definition gallop_post :: "(nat \<Rightarrow> bool \<Rightarrow> bool) \<Rightarrow> nat \<Rightarrow> nat \<Rightarrow> 's \<Rightarrow> bool" where
  "gallop_post Q n k t \<longleftrightarrow> W t \<and> k \<le> n \<and> (k = 0 \<or> Q (k - 1) True) \<and> (k = n \<or> Q k False)"

lemma wp_gallop_up:
  assumes test: "\<And>i t. i < n \<Longrightarrow> W t \<Longrightarrow> wp (test (int i)) (\<lambda>b u. W u \<and> Q i b) SX t"
    and n: "hint < n" "int n \<le> LIST_MAX" and W: "W s" and ans: "Q hint True"
  shows "wp (let maxofs = n - hint
      in sbind (gallop_ofs (\<lambda>ofs. test (int hint + int ofs)) 0 1 maxofs) (\<lambda>(lastofs, ofs).
           let ofs = (if ofs > maxofs then maxofs else ofs)
           in gallop_finish test n (int lastofs + int hint) (int ofs + int hint))) (gallop_post Q n) SX s"
proof -
  have g: "wp (gallop_ofs (\<lambda>ofs. test (int hint + int ofs)) 0 1 (n - hint))
    (\<lambda>(l, r) t. W t \<and> l < r \<and> l < n - hint \<and> Q (hint + l) True \<and> (n - hint \<le> r \<or> Q (hint + r) False)) SX s"
  proof (rule wp_gallop_ofs)
    fix i u
    assume "i < n - hint" "W u"
    then show "wp (test (int hint + int i)) (\<lambda>b u. W u \<and> Q (hint + i) b) SX u"
      using test [of "hint + i" u] by simp
  qed (use n W ans in auto)
  show ?thesis
    unfolding Let_def wp_sbind
  proof (rule wp_mono [OF g])
    fix x t
    assume x: "(case x of (l, r) \<Rightarrow> \<lambda>t. W t \<and> l < r \<and> l < n - hint \<and> Q (hint + l) True \<and>
      (n - hint \<le> r \<or> Q (hint + r) False)) t"
    obtain l r where lr: "x = (l, r)" by (cases x)
    let ?r = "if r > n - hint then n - hint else r"
    have "wp (gallop_finish test n (int l + int hint) (int ?r + int hint)) (gallop_post Q n) SX t"
      unfolding gallop_post_def
      by (rule wp_gallop_finish [where test = test and Q = Q and n = n, OF test]) (use x lr n(1) in \<open>auto simp: nat_add_distrib add.commute\<close>)
    then show "wp (case x of (lastofs, ofs) \<Rightarrow> gallop_finish test n (int lastofs + int hint)
        (int (if ofs > n - hint then n - hint else ofs) + int hint)) (gallop_post Q n) SX t"
      unfolding lr by simp
  qed simp
qed

lemma wp_gallop_down:
  assumes test: "\<And>i t. i < n \<Longrightarrow> W t \<Longrightarrow> wp (test (int i)) (\<lambda>b u. W u \<and> Q i b) SX t"
    and n: "hint < n" "int n \<le> LIST_MAX" and W: "W s" and ans: "Q hint False"
  shows "wp (let maxofs = hint + 1
      in sbind (gallop_ofs (\<lambda>ofs. snot (test (int hint - int ofs))) 0 1 maxofs) (\<lambda>(lastofs, ofs).
           let ofs = (if ofs > maxofs then maxofs else ofs)
           in gallop_finish test n (int hint - int ofs) (int hint - int lastofs))) (gallop_post Q n) SX s"
proof -
  have g: "wp (gallop_ofs (\<lambda>ofs. snot (test (int hint - int ofs))) 0 1 (hint + 1))
    (\<lambda>(l, r) t. W t \<and> l < r \<and> l < hint + 1 \<and> Q (hint - l) (\<not> True) \<and> (hint + 1 \<le> r \<or> Q (hint - r) (\<not> False))) SX s"
  proof (rule wp_gallop_ofs)
    fix i u
    assume i: "i < hint + 1" "W u"
    have "wp (test (int hint - int i)) (\<lambda>b u. W u \<and> Q (hint - i) b) SX u"
      using test [of "hint - i" u] i n(1) by (simp add: of_nat_diff)
    then show "wp (snot (test (int hint - int i))) (\<lambda>b u. W u \<and> Q (hint - i) (\<not> b)) SX u"
      by (simp add: snot_def)
  qed (use n W ans in auto)
  show ?thesis
    unfolding Let_def wp_sbind
  proof (rule wp_mono [OF g])
    fix x t
    assume x: "(case x of (l, r) \<Rightarrow> \<lambda>t. W t \<and> l < r \<and> l < hint + 1 \<and> Q (hint - l) (\<not> True) \<and>
      (hint + 1 \<le> r \<or> Q (hint - r) (\<not> False))) t"
    obtain l r where lr: "x = (l, r)" by (cases x)
    let ?r = "if r > hint + 1 then hint + 1 else r"
    have q: "nat (int hint - int l) = hint - l" "nat (int hint - int r) = hint - r" by simp_all
    have "wp (gallop_finish test n (int hint - int ?r) (int hint - int l)) (gallop_post Q n) SX t"
      unfolding gallop_post_def
      by (rule wp_gallop_finish [where test = test and Q = Q and n = n, OF test]) (use x lr n(1) q in \<open>auto split: if_splits\<close>)
    then show "wp (case x of (lastofs, ofs) \<Rightarrow> gallop_finish test n
        (int hint - int (if ofs > hint + 1 then hint + 1 else ofs)) (int hint - int lastofs)) (gallop_post Q n) SX t"
      unfolding lr by simp
  qed simp
qed

lemma wp_gallop_left:
  assumes get: "\<And>i. i < n \<Longrightarrow> get (int i) = Inr (as ! i)" and V: "\<And>i. i < n \<Longrightarrow> V (as ! i)" "V key"
    and n: "hint < n" "int n \<le> LIST_MAX" and W: "W s"
  shows "wp (gallop_left lt key get n hint) (gallop_post (\<lambda>i b. R (as ! i) key b) n) SX s"
proof -
  have test: "wp (below lt key get (int i)) (\<lambda>b u. W u \<and> R (as ! i) key b) SX t" if "i < n" "W t" for i t
    by (rule wp_below) (use that get V in simp_all)
  note up = wp_gallop_up [of n "below lt key get" "\<lambda>i b. R (as ! i) key b", OF test n]
  note down = wp_gallop_down [of n "below lt key get" "\<lambda>i b. R (as ! i) key b", OF test n]
  have as: "0 < n \<and> hint < n" using n by auto
  show ?thesis
    unfolding gallop_left_def wp_sbind [of "sassert _"] wp_sassert if_P [OF as] wp_sbind [of "below lt key get (int hint)"]
    by (rule wp_mono [OF test [OF n(1) W]]) (use up down in \<open>auto split: if_splits simp del: wp_sbind\<close>)
qed

lemma wp_gallop_right:
  assumes get: "\<And>i. i < n \<Longrightarrow> get (int i) = Inr (as ! i)" and V: "\<And>i. i < n \<Longrightarrow> V (as ! i)" "V key"
    and n: "hint < n" "int n \<le> LIST_MAX" and W: "W s"
  shows "wp (gallop_right lt key get n hint) (gallop_post (\<lambda>i b. R key (as ! i) (\<not> b)) n) SX s"
proof -
  have test: "wp (not_above lt key get (int i)) (\<lambda>b u. W u \<and> R key (as ! i) (\<not> b)) SX t" if "i < n" "W t" for i t
    by (rule wp_not_above) (use that get V in simp_all)
  note up = wp_gallop_up [of n "not_above lt key get" "\<lambda>i b. R key (as ! i) (\<not> b)", OF test n]
  note down = wp_gallop_down [of n "not_above lt key get" "\<lambda>i b. R key (as ! i) (\<not> b)", OF test n]
  have as: "0 < n \<and> hint < n" using n by auto
  show ?thesis
    unfolding gallop_right_def wp_sbind [of "sassert _"] wp_sassert if_P [OF as] wp_sbind [of "not_above lt key get (int hint)"]
    by (rule wp_mono [OF test [OF n(1) W]]) (use up down in \<open>auto split: if_splits simp del: wp_sbind\<close>)
qed

subsection \<open>Runs\<close>

text \<open>\<open>d\<close> answers every comparison of an entry with the one before it.\<close>

definition run_answers :: "bool \<Rightarrow> 'e list \<Rightarrow> bool" where
  "run_answers d xs \<longleftrightarrow> (\<forall>i. Suc i < length xs \<longrightarrow> R (xs ! Suc i) (xs ! i) d)"

lemma run_answers_snoc:
  assumes "xs \<noteq> []"
  shows "run_answers d (xs @ [x]) \<longleftrightarrow> run_answers d xs \<and> R x (last xs) d"
proof -
  obtain m where m: "length xs = Suc m" using assms by (cases "length xs") auto
  have "run_answers d (xs @ [x]) \<longleftrightarrow> (\<forall>i < Suc m. R ((xs @ [x]) ! Suc i) ((xs @ [x]) ! i) d)"
    by (simp add: run_answers_def m)
  also have "\<dots> \<longleftrightarrow> R x (last xs) d \<and> (\<forall>i < m. R (xs ! Suc i) (xs ! i) d)"
    using m assms by (simp add: All_less_Suc nth_append last_conv_nth)
  finally show ?thesis by (auto simp: run_answers_def m)
qed

lemma C_run:
  assumes "run_answers d xs" and "xs \<noteq> []"
  shows "C xs (if d then rev xs else xs)"
  using assms
proof (induction xs rule: rev_induct)
  case (snoc x xs)
  show ?case
  proof (cases "xs = []")
    case True
    then show ?thesis using C_one by simp
  next
    case False
    then have "R x (last xs) d" "run_answers d xs" using snoc.prems run_answers_snoc by blast+
    then show ?thesis
      using C_insert [of xs "[]" "rev xs" x] C_insert [of xs xs "[]" x] snoc.IH False
      by (cases d) (simp_all add: hd_rev)
  qed
qed simp

lemma wp_count_run_loop:
  assumes "run_answers d (take n (drop lo a))" and "0 < n" and "lo + n + k \<le> length a" and "list_all V a" and "W s"
  shows "wp (count_run_loop lt d a (lo + n) n k)
    (\<lambda>m t. W t \<and> n \<le> m \<and> m \<le> n + k \<and> run_answers d (take m (drop lo a))) SX s"
  using assms(1-3,5)
proof (induction k arbitrary: n s)
  case (Suc k)
  have i: "lo + n < length a" "lo + n - 1 < length a" using Suc.prems(2,3) by simp_all
  then have V: "V (a ! (lo + n))" "V (a ! (lo + n - 1))" using assms(4) by (simp_all add: list_all_length)
  have e: "int (lo + n) - 1 = int (lo + n - 1)" using Suc.prems(2) by simp
  have g: "rd a (int (lo + n)) = Inr (a ! (lo + n))" "rd a (int (lo + n) - 1) = Inr (a ! (lo + n - 1))"
    unfolding e using i by (simp_all only: rd_nth)
  let ?xs = "take n (drop lo a)"
  have ne: "?xs \<noteq> []" using Suc.prems(2) i by simp
  have sn: "take (Suc n) (drop lo a) = ?xs @ [a ! (lo + n)]"
    using i by (simp add: take_Suc_conv_app_nth)
  have la: "last ?xs = a ! (lo + n - 1)"
    using ne Suc.prems(2) i by (simp add: last_conv_nth min_absorb2)
  have IH: "wp (count_run_loop lt d a (lo + n + 1) (n + 1) k)
    (\<lambda>m t. W t \<and> n \<le> m \<and> m \<le> n + Suc k \<and> run_answers d (take m (drop lo a))) SX t"
    if "W t" and "R (a ! (lo + n)) (a ! (lo + n - 1)) d" for t
  proof (rule wp_mono)
    show "wp (count_run_loop lt d a (lo + n + 1) (n + 1) k)
      (\<lambda>m t. W t \<and> n + 1 \<le> m \<and> m \<le> n + 1 + k \<and> run_answers d (take m (drop lo a))) SX t"
      using Suc.IH [of "n + 1" t] Suc.prems that sn ne la run_answers_snoc [OF ne] by simp
  qed auto
  show ?case
    unfolding count_run_loop.simps wp_sbind g wp_slift_Inr
    by (rule wp_mono [OF lt_answer [OF V Suc.prems(4)]]) (use IH Suc.prems in auto)
qed simp

lemma wp_count_run:
  assumes "lo < hi" and "hi \<le> length a" and "list_all V a" and "W s"
  shows "wp (count_run lt a lo hi)
    (\<lambda>(n, d) t. W t \<and> 0 < n \<and> lo + n \<le> hi \<and> run_answers d (take n (drop lo a))) SX s"
proof (cases "lo + 1 = hi")
  case True
  then show ?thesis using assms by (simp add: count_run_def run_answers_def)
next
  case False
  then have i: "lo < length a" "lo + 1 < length a" "lo + 2 \<le> hi" using assms(1,2) by simp_all
  then have V: "V (a ! (lo + 1))" "V (a ! lo)" using assms(3) by (simp_all add: list_all_length)
  have g: "rd a (int lo + 1) = Inr (a ! (lo + 1))" "rd a (int lo) = Inr (a ! lo)"
    using rd_nth [of "lo + 1" a] rd_nth [of lo a] i by (simp_all add: add.commute)
  have t2: "take 2 (drop lo a) = [a ! lo, a ! (lo + 1)]"
    using i by (simp add: numeral_2_eq_2 Cons_nth_drop_Suc [symmetric])
  have loop: "wp (count_run_loop lt d a (lo + 2) 2 (hi - (lo + 2)))
    (\<lambda>n t. W t \<and> 0 < n \<and> lo + n \<le> hi \<and> run_answers d (take n (drop lo a))) SX t"
    if "W t" and "R (a ! (lo + 1)) (a ! lo) d" for t d
  proof (rule wp_mono)
    show "wp (count_run_loop lt d a (lo + 2) 2 (hi - (lo + 2)))
      (\<lambda>m t. W t \<and> 2 \<le> m \<and> m \<le> 2 + (hi - (lo + 2)) \<and> run_answers d (take m (drop lo a))) SX t"
      by (rule wp_count_run_loop) (use that i assms(2,3) t2 in \<open>auto simp: run_answers_def less_Suc_eq\<close>)
  qed (use i in auto)
  show ?thesis
    unfolding count_run_def wp_sbind wp_sassert if_P [OF assms(1)] wp_if if_not_P [OF False] g wp_slift_Inr wp_sret
    by (rule wp_mono [OF lt_answer [OF V assms(4)]]) (use loop in auto)
qed

subsection \<open>Binary insertion\<close>

lemma slide_correct:
  "\<exists>x. slide (length B) (int (length A + length B)) (A @ B @ c # D) = Inr (A @ x # B @ D)"
proof (induction B arbitrary: c D rule: rev_induct)
  case (snoc b B)
  let ?p = "int (length A + length (B @ [b]))"
  have p: "?p - 1 = int (length A + length B)" by simp
  have r: "rd (A @ (B @ [b]) @ c # D) (?p - 1) = Inr b"
    using rd_append [of "?p - 1" "A @ B" b "c # D"] by simp
  have w: "wr (A @ (B @ [b]) @ c # D) ?p b = Inr (A @ B @ b # b # D)"
    using wr_append [of ?p "A @ B @ [b]" c D b] by simp
  obtain x where x: "slide (length B) (int (length A + length B)) (A @ B @ b # b # D) = Inr (A @ x # B @ b # D)"
    using snoc.IH by blast
  have l: "length (B @ [b]) = Suc (length B)" by simp
  have "slide (length (B @ [b])) ?p (A @ (B @ [b]) @ c # D) = Inr (A @ x # B @ b # D)"
    unfolding arg_cong [OF l, of "\<lambda>n. slide n ?p (A @ (B @ [b]) @ c # D)"] slide.simps r w rbind_simps
    unfolding p by (rule x)
  then show ?case by auto
qed simp

lemma wp_binarysort_loop:
  assumes "a = P @ xs @ ys @ S" and "lo = length P" and "start = lo + length xs" and "xs \<noteq> []"
    and "list_all V a" and "W s" and "C og xs"
  shows "wp (binarysort_loop lt lo start (length ys) a)
    (\<lambda>(a', r) t. W t \<and> (\<exists>zs. a' = P @ zs @ S \<and>
       (case r of None \<Rightarrow> C (og @ ys) zs | Some e \<Rightarrow> X e \<and> mset zs = mset (og @ ys)))) (\<lambda>_ _. False) s"
  using assms
proof (induction ys arbitrary: a xs start s og)
  case Nil
  then show ?case by auto
next
  case (Cons y ys)
  have V: "V y" "\<And>i. i < length xs \<Longrightarrow> V (xs ! i)"
    using Cons.prems(5) unfolding Cons.prems(1) list_all_iff by simp_all
  have lt: "lo < start" using Cons.prems(3,4) by simp
  have piv: "rd a (int start) = Inr y"
    using rd_append [of "int start" "P @ xs" y "ys @ S"] Cons.prems(1-3) by simp
  have b: "wp (bsearch (\<lambda>i. not_above lt y (rd a) (int i)) lo start)
    (\<lambda>l t. W t \<and> lo \<le> l \<and> l \<le> start \<and> (l = lo \<or> R y (xs ! (l - 1 - lo)) (\<not> True)) \<and>
       (l = start \<or> R y (xs ! (l - lo)) (\<not> False))) SX s"
  proof (rule wp_bsearch [where Q = "\<lambda>i b. R y (xs ! (i - lo)) (\<not> b)"])
    fix i t
    assume i: "lo \<le> i" "i < start" "W t"
    then have k: "i - lo < length xs" using Cons.prems(3) by simp
    have "a ! i = xs ! (i - lo)" using i k Cons.prems(1,2) by (simp add: nth_append)
    then have "rd a (int i) = Inr (xs ! (i - lo))"
      using rd_nth [of i a] i k Cons.prems(1,2) by simp
    then show "wp (not_above lt y (rd a) (int i)) (\<lambda>b u. W u \<and> R y (xs ! (i - lo)) (\<not> b)) SX t"
      by (rule wp_not_above) (use V k i in simp_all)
  qed (use lt Cons.prems(6) in simp_all)
  have step: "wp (slift (rbind (slide (start - l) (int start) a) (\<lambda>a. wr a (int l) y)))
      (\<lambda>a. wp (binarysort_loop lt lo (start + 1) (length ys) a)
        (\<lambda>(a', r) t. W t \<and> (\<exists>zs. a' = P @ zs @ S \<and>
          (case r of None \<Rightarrow> C (og @ y # ys) zs | Some e \<Rightarrow> X e \<and> mset zs = mset (og @ y # ys)))) (\<lambda>_ _. False)) (\<lambda>_ _. False) t"
    if l: "lo \<le> l" "l \<le> start" "l = lo \<or> R y (xs ! (l - 1 - lo)) False" "l = start \<or> R y (xs ! (l - lo)) True"
      and W: "W t" for l t
  proof -
    let ?k = "l - lo"
    let ?as = "take ?k xs" and ?bs = "drop ?k xs"
    have k: "?k \<le> length xs" using l Cons.prems(3) by simp
    have a: "a = (P @ ?as) @ ?bs @ y # (ys @ S)" using Cons.prems(1) by simp
    obtain x where x: "slide (start - l) (int start) a = Inr ((P @ ?as) @ x # ?bs @ (ys @ S))"
    proof -
      have e: "start - l = length ?bs" "int start = int (length (P @ ?as) + length ?bs)"
        using l k Cons.prems(2,3) by simp_all
      obtain x where "slide (length ?bs) (int (length (P @ ?as) + length ?bs)) ((P @ ?as) @ ?bs @ y # (ys @ S)) =
          Inr ((P @ ?as) @ x # ?bs @ (ys @ S))"
        using slide_correct [where A = "P @ ?as" and B = ?bs and c = y and D = "ys @ S"] by (elim exE)
      then show thesis
        unfolding a [symmetric] e(2) [symmetric] unfolding e(1) [symmetric] by (rule that)
    qed
    have w: "wr ((P @ ?as) @ x # ?bs @ (ys @ S)) (int l) y = Inr (P @ (?as @ y # ?bs) @ ys @ S)"
      using wr_append [of "int l" "P @ ?as" x "?bs @ ys @ S" y] l k Cons.prems(2) by simp
    have "?as = [] \<or> R y (last ?as) False"
    proof (cases "?k = 0")
      case False
      then have "last ?as = xs ! (?k - 1)" using k by (intro last_take_nth) simp_all
      then show ?thesis using l False by simp
    qed simp
    moreover have "?bs = [] \<or> R y (hd ?bs) True"
      using l k Cons.prems(3) by (cases "?k < length xs") (auto simp: hd_drop_conv_nth)
    ultimately have C: "C (og @ [y]) (?as @ y # ?bs)" using C_insert [of og ?as ?bs y] Cons.prems(7) by simp
    have V': "list_all V (P @ (?as @ y # ?bs) @ ys @ S)"
      using Cons.prems(5) unfolding Cons.prems(1) list_all_iff by (auto dest: in_set_takeD in_set_dropD)
    have "wp (binarysort_loop lt lo (start + 1) (length ys) (P @ (?as @ y # ?bs) @ ys @ S))
      (\<lambda>(a', r) t. W t \<and> (\<exists>zs. a' = P @ zs @ S \<and>
        (case r of None \<Rightarrow> C ((og @ [y]) @ ys) zs | Some e \<Rightarrow> X e \<and> mset zs = mset ((og @ [y]) @ ys)))) (\<lambda>_ _. False) t"
      by (rule Cons.IH [OF refl]) (use Cons.prems(2,3) k C V' W in simp_all)
    then show ?thesis unfolding append_assoc append_Cons append_Nil using x w by simp
  qed
  have m: "mset (xs @ y # ys) = mset (og @ y # ys)" using C_mset [OF Cons.prems(7)] by simp
  have ex: "\<exists>zs. a = P @ zs @ S \<and> X e \<and> mset zs = mset (og @ y # ys)" if "X e" for e
    using that m Cons.prems(1) by (intro exI [of _ "xs @ y # ys"]) simp
  show ?case
    unfolding list.size binarysort_loop.simps Nat.add_0_right add_Suc_right piv wp_sbind wp_slift_Inr wp_sassert if_P [OF lt] wp_sattempt
    by (rule wp_mono [OF b]) (use step ex in \<open>auto simp del: rbind_eq_Inr\<close>)
qed

end

end
