(* ===== verification/PySortMerge.thy ===== *)
theory PySortMerge
  imports PySort
begin

text \<open>
  Merging two adjacent runs of the list sort: \<open>merge_lo\<close>, \<open>merge_hi\<close>, \<open>merge_at\<close>. Under any contract
  of a comparison the runs become one whose arrangement the answers justify; when a comparison
  raises, no entry of the two runs is lost or duplicated. The temporary array is written before
  it is read, and the pointers stay inside the arrays.
\<close>

lemma slift_Inr [simp]: "slift (Inr x) = sret x"
  by (simp add: slift_def sret_def)

lemma sbind_sret [simp]: "sbind (sret x) f = f x"
  by (rule ext) (simp add: sbind_def sret_def)

context sort_contract begin

section \<open>Merging upwards\<close>

text \<open>
  The state of \<open>merge_lo\<close>: \<open>P @ oL\<close> is final, as many slots are free as entries of \<open>as\<close> wait in
  the temporary array, then come \<open>bs\<close>.
\<close>

definition lo_at :: "'e list \<Rightarrow> 'e list \<Rightarrow> (nat \<times> nat) list \<Rightarrow> 'e merge_vars \<Rightarrow> 'e list \<Rightarrow> 'e list \<Rightarrow> 'e list \<Rightarrow> bool" where
  "lo_at P S pend v oL as bs \<longleftrightarrow>
     (\<exists>gap t t'. arr (mst v) = P @ oL @ gap @ bs @ S \<and> length gap = length as \<and>
        tmp (mst v) = t @ map Some as @ t' \<and> ssa v = int (length t) \<and>
        dest v = int (length P + length oL) \<and> ssb v = int (length P + length oL + length as) \<and>
        pending (mst v) = pend)"

lemma lo_at_move_a:
  assumes "lo_at P S pend v oL (as @ as') bs" and "k = length as"
  shows "\<exists>v'. lo_move_a k v = Inr v' \<and> lo_at P S pend v' (oL @ as) as' bs"
proof -
  obtain gap t t' where v: "arr (mst v) = P @ oL @ gap @ bs @ S" "length gap = length (as @ as')"
    "tmp (mst v) = t @ map Some (as @ as') @ t'" "ssa v = int (length t)" "dest v = int (length P + length oL)"
    "ssb v = int (length P + length oL + length (as @ as'))" "pending (mst v) = pend"
    using assms(1) unfolding lo_at_def by blast
  let ?g = "take (length as) gap" and ?g' = "drop (length as) gap"
  have g: "get_block (tmp (mst v)) (ssa v) k = Inr (map Some as)"
    using get_block_append [of "ssa v" t k "map Some as" "map Some as' @ t'"] v(3,4) assms(2) by simp
  have "put_block ((P @ oL) @ ?g @ ?g' @ bs @ S) (dest v) as = Inr ((P @ oL) @ as @ ?g' @ bs @ S)"
    by (rule put_block_append) (use v(2,5) in simp_all)
  moreover have "arr (mst v) = (P @ oL) @ ?g @ ?g' @ bs @ S" using v(1) by (simp flip: append_assoc)
  ultimately have p: "put_block (arr (mst v)) (dest v) as = Inr (P @ (oL @ as) @ ?g' @ bs @ S)" by simp
  show ?thesis
    unfolding lo_move_a_def g p rbind_simps written_Some
    by (rule exI, rule conjI, rule refl, unfold lo_at_def, rule exI [of _ ?g'], rule exI [of _ "t @ map Some as"],
        rule exI [of _ t']) (simp add: put_arr_def v assms(2))
qed

lemma lo_at_move_b:
  assumes "lo_at P S pend v oL as (bs @ bs')" and "k = length bs"
  shows "\<exists>v'. lo_move_b k v = Inr v' \<and> lo_at P S pend v' (oL @ bs) as bs'"
proof -
  obtain gap t t' where v: "arr (mst v) = P @ oL @ gap @ (bs @ bs') @ S" "length gap = length as"
    "tmp (mst v) = t @ map Some as @ t'" "ssa v = int (length t)" "dest v = int (length P + length oL)"
    "ssb v = int (length P + length oL + length as)" "pending (mst v) = pend"
    using assms(1) unfolding lo_at_def by blast
  let ?g = "take k (gap @ bs)" and ?g' = "drop k (gap @ bs)"
  have g: "get_block (arr (mst v)) (ssb v) k = Inr bs"
    using get_block_append [of "ssb v" "P @ oL @ gap" k bs "bs' @ S"] v(1,2,6) assms(2) by simp
  have "put_block ((P @ oL) @ ?g @ ?g' @ bs' @ S) (dest v) bs = Inr ((P @ oL) @ bs @ ?g' @ bs' @ S)"
    by (rule put_block_append) (use v(5) assms(2) in simp_all)
  moreover have "arr (mst v) = (P @ oL) @ ?g @ ?g' @ bs' @ S"
    using v(1) append_take_drop_id [of k "gap @ bs"] by (metis append_assoc)
  ultimately have p: "put_block (arr (mst v)) (dest v) bs = Inr (P @ (oL @ bs) @ ?g' @ bs' @ S)" by simp
  show ?thesis
    unfolding lo_move_b_def g p rbind_simps
    by (rule exI, rule conjI, rule refl, unfold lo_at_def, rule exI [of _ ?g'], rule exI [of _ t], rule exI [of _ t'])
      (simp add: put_arr_def v assms(2))
qed

lemma lo_at_set_min_gallop: "lo_at P S pend (set_min_gallop g v) oL as bs = lo_at P S pend v oL as bs"
  by (simp add: lo_at_def set_min_gallop_def)

lemma lo_at_read_b:
  assumes "lo_at P S pend v oL as bs" and "i < length bs"
  shows "rd (arr (mst v)) (ssb v + int i) = Inr (bs ! i)"
proof -
  obtain gap where v: "arr (mst v) = (P @ oL @ gap) @ bs @ S" "length gap = length as"
    "ssb v = int (length P + length oL + length as)"
    using assms(1) unfolding lo_at_def by auto
  show ?thesis using assms(2) v by (simp add: rd_def nat_add_distrib nth_append)
qed

lemma lo_at_read_a:
  assumes "lo_at P S pend v oL as bs" and "i < length as"
  shows "rd_tmp (tmp (mst v)) (ssa v + int i) = Inr (as ! i)"
proof -
  obtain t t' where v: "tmp (mst v) = t @ map Some as @ t'" "ssa v = int (length t)"
    using assms(1) unfolding lo_at_def by auto
  show ?thesis using assms(2) v by (simp add: rd_tmp_def rd_def nat_add_distrib nth_append)
qed

text \<open>
  With the justification of the moves so far, and the comparison that puts the last entry of \<open>as\<close>
  at the end. \<open>og\<close> are the entries the two runs stand for, \<open>oR\<close> what is in place behind.
\<close>

definition lo_ready ::
    "'e list \<Rightarrow> 'e list \<Rightarrow> 'e list \<Rightarrow> (nat \<times> nat) list \<Rightarrow> 'e list \<Rightarrow> 'e merge_vars \<Rightarrow> 'e list \<Rightarrow> 'e list \<Rightarrow> 'e list \<Rightarrow> bool" where
  "lo_ready P S oR pend og v oL as bs \<longleftrightarrow>
     lo_at P (oR @ S) pend v oL as bs \<and> J og oL as bs oR \<and>
     (as \<noteq> [] \<and> bs \<noteq> [] \<longrightarrow> R (last bs) (last as) True)"

lemma lo_ready_move_a:
  assumes "lo_ready P S oR pend og v oL (as @ as') (b # bs)" and "as = [] \<or> R b (last as) False" and "k = length as"
  shows "\<exists>v'. (if k \<noteq> 0 then slift (lo_move_a k v) else sret v) = (sret v' :: ('s, 'e merge_vars) py) \<and>
    lo_ready P S oR pend og v' (oL @ as) as' (b # bs)"
proof (cases "as = []")
  case True
  then show ?thesis using assms by auto
next
  case False
  have at: "lo_at P (oR @ S) pend v oL (as @ as') (b # bs)" and J: "J og oL (as @ as') (b # bs) oR"
    and l: "R (last (b # bs)) (last (as @ as')) True"
    using assms(1) False unfolding lo_ready_def by auto
  obtain v' where "lo_move_a k v = Inr v'" "lo_at P (oR @ S) pend v' (oL @ as) as' (b # bs)"
    using lo_at_move_a [OF at assms(3)] by blast
  moreover have "J og (oL @ as) as' (b # bs) oR" by (rule a_first [OF J assms(2)])
  ultimately show ?thesis using False l assms(3) unfolding lo_ready_def by auto
qed

lemma lo_ready_move_b:
  assumes "lo_ready P S oR pend og v oL (a # as) (bs @ bs')" and "bs = [] \<or> R (last bs) a True" and "k = length bs"
  shows "\<exists>v'. (if k \<noteq> 0 then slift (lo_move_b k v) else sret v) = (sret v' :: ('s, 'e merge_vars) py) \<and>
    lo_ready P S oR pend og v' (oL @ bs) (a # as) bs'"
proof (cases "bs = []")
  case True
  then show ?thesis using assms by auto
next
  case False
  have at: "lo_at P (oR @ S) pend v oL (a # as) (bs @ bs')" and J: "J og oL (a # as) (bs @ bs') oR"
    and l: "R (last (bs @ bs')) (last (a # as)) True"
    using assms(1) False unfolding lo_ready_def by auto
  obtain v' where "lo_move_b k v = Inr v'" "lo_at P (oR @ S) pend v' (oL @ bs) (a # as) bs'"
    using lo_at_move_b [OF at assms(3)] by blast
  moreover have "J og (oL @ bs) (a # as) bs' oR" by (rule b_first [OF J assms(2)])
  ultimately show ?thesis using False l assms(3) unfolding lo_ready_def by auto
qed

text \<open>One entry at a time.\<close>

lemma lo_ready_a:
  assumes "lo_ready P S oR pend og v oL (a # as) (b # bs)" and "R b a False"
  obtains v' where "lo_move_a 1 v = Inr v'" and "lo_ready P S oR pend og v' (oL @ [a]) as (b # bs)"
proof -
  have at: "lo_at P (oR @ S) pend v oL ([a] @ as) (b # bs)" and J: "J og oL ([a] @ as) (b # bs) oR"
    and l: "R (last (b # bs)) (last (a # as)) True"
    using assms(1) unfolding lo_ready_def by auto
  obtain v' where "lo_move_a 1 v = Inr v'" "lo_at P (oR @ S) pend v' (oL @ [a]) as (b # bs)"
    using lo_at_move_a [OF at, of 1] by auto
  moreover have "J og (oL @ [a]) as (b # bs) oR" by (rule a_first [OF J]) (use assms(2) in simp)
  ultimately show ?thesis using that l unfolding lo_ready_def by (auto split: if_splits)
qed

lemma lo_ready_b:
  assumes "lo_ready P S oR pend og v oL (a # as) (b # bs)" and "R b a True"
  obtains v' where "lo_move_b 1 v = Inr v'" and "lo_ready P S oR pend og v' (oL @ [b]) (a # as) bs"
proof -
  have at: "lo_at P (oR @ S) pend v oL (a # as) ([b] @ bs)" and J: "J og oL (a # as) ([b] @ bs) oR"
    and l: "R (last (b # bs)) (last (a # as)) True"
    using assms(1) unfolding lo_ready_def by auto
  obtain v' where "lo_move_b 1 v = Inr v'" "lo_at P (oR @ S) pend v' (oL @ [b]) (a # as) bs"
    using lo_at_move_b [OF at, of 1] by auto
  moreover have "J og (oL @ [b]) (a # as) bs oR" by (rule b_first [OF J]) (use assms(2) in simp)
  ultimately show ?thesis using that l unfolding lo_ready_def by (auto split: if_splits)
qed

lemma lo_ready_V:
  assumes "lo_ready P S oR pend og v oL as bs" and "list_all V og"
  shows "\<And>i. i < length as \<Longrightarrow> V (as ! i)" and "\<And>i. i < length bs \<Longrightarrow> V (bs ! i)"
    and "length as \<le> length og" and "length bs \<le> length og"
proof -
  have m: "mset (oL @ as @ bs @ oR) = mset og" using assms(1) J_mset unfolding lo_ready_def by blast
  then have "set (oL @ as @ bs @ oR) = set og" by (metis set_mset_mset)
  then show "\<And>i. i < length as \<Longrightarrow> V (as ! i)" "\<And>i. i < length bs \<Longrightarrow> V (bs ! i)"
    using assms(2) by (auto simp: list_all_iff)
  have "length (oL @ as @ bs @ oR) = length og" using m mset_eq_length by blast
  then show "length as \<le> length og" "length bs \<le> length og" by simp_all
qed

lemma lo_ready_set_min_gallop:
  "lo_ready P S oR pend og (set_min_gallop g v) oL as bs = lo_ready P S oR pend og v oL as bs"
  by (simp add: lo_ready_def lo_at_set_min_gallop)

definition lo_out ::
    "'e list \<Rightarrow> 'e list \<Rightarrow> 'e list \<Rightarrow> (nat \<times> nat) list \<Rightarrow> 'e list \<Rightarrow> 'e merge_out \<Rightarrow> bool" where
  "lo_out P S oR pend og out \<longleftrightarrow>
     (case out of (x, na, nb, v) \<Rightarrow> \<exists>oL as bs. lo_ready P S oR pend og v oL as bs \<and> na = length as \<and> nb = length bs \<and>
        (case x of Succeed \<Rightarrow> as = [] \<or> bs = [] | Copy \<Rightarrow> length as = 1 \<and> bs \<noteq> [] | Failed e \<Rightarrow> X e))"

lemma lo_outI:
  assumes "lo_ready P S oR pend og v oL as bs" and "na = length as" and "nb = length bs"
    and "case x of Succeed \<Rightarrow> as = [] \<or> bs = [] | Copy \<Rightarrow> length as = 1 \<and> bs \<noteq> [] | Failed e \<Rightarrow> X e"
  shows "lo_out P S oR pend og (x, na, nb, v)"
  unfolding lo_out_def prod.case by (rule exI [of _ oL], rule exI [of _ as], rule exI [of _ bs]) (use assms in simp)

text \<open>What a round of the loop needs of the rounds after it.\<close>

definition lo_cont ::
    "'e list \<Rightarrow> 'e list \<Rightarrow> 'e list \<Rightarrow> (nat \<times> nat) list \<Rightarrow> 'e list \<Rightarrow> nat \<Rightarrow> bool" where
  "lo_cont P S oR pend og sz \<longleftrightarrow>
     (\<forall>mode g v oL as bs t. lo_ready P S oR pend og v oL as bs \<longrightarrow> 1 < length as \<longrightarrow> bs \<noteq> [] \<longrightarrow> W t \<longrightarrow>
        length as + length bs < sz \<longrightarrow>
        wp (merge_lo_loop lt mode g (length as) (length bs) v) (\<lambda>out t. W t \<and> lo_out P S oR pend og out) (\<lambda>_ _. False) t)"

lemma lo_contD:
  assumes "lo_cont P S oR pend og sz" and "lo_ready P S oR pend og v oL as bs" and "1 < length as" and "bs \<noteq> []"
    and "W t" and "length as + length bs < sz" and "na = length as" and "nb = length bs"
  shows "wp (merge_lo_loop lt mode g na nb v) (\<lambda>out t. W t \<and> lo_out P S oR pend og out) (\<lambda>_ _. False) t"
  using assms unfolding lo_cont_def by blast

lemma lo_straight_b:
  assumes r: "lo_ready P S oR pend og v oL (a # as) (b # bs)" and as: "as \<noteq> []" and R: "R b a True" and W: "W t"
    and IH: "lo_cont P S oR pend og (Suc (Suc (length as + length bs)))"
  shows "wp (sbind (slift (lo_move_b 1 v)) (\<lambda>v.
      if Suc (length bs) - 1 = 0 then sret (Succeed, Suc (length as), Suc (length bs) - 1, v)
      else if bc + 1 \<ge> g then merge_lo_loop lt Gallop (g + 1) (Suc (length as)) (Suc (length bs) - 1) v
      else merge_lo_loop lt (Straight 0 (bc + 1)) g (Suc (length as)) (Suc (length bs) - 1) v))
    (\<lambda>out t. W t \<and> lo_out P S oR pend og out) (\<lambda>_ _. False) t"
proof -
  obtain v' where v': "lo_move_b 1 v = Inr v'" "lo_ready P S oR pend og v' (oL @ [b]) (a # as) bs"
    using lo_ready_b [OF r R] .
  show ?thesis
  proof (cases "bs = []")
    case True
    then have "lo_out P S oR pend og (Succeed, Suc (length as), 0, v')" by (intro lo_outI [OF v'(2)]) simp_all
    then show ?thesis using True v'(1) W by simp
  next
    case False
    have "1 < length (a # as)" "length (a # as) + length bs < Suc (Suc (length as + length bs))" using as by simp_all
    note c = lo_contD [OF IH v'(2) this(1) False W this(2), of "Suc (length as)" "length bs"]
    show ?thesis using False v'(1) c by simp
  qed
qed

lemma lo_straight_a:
  assumes r: "lo_ready P S oR pend og v oL (a # as) (b # bs)" and as: "as \<noteq> []" and R: "R b a False" and W: "W t"
    and IH: "lo_cont P S oR pend og (Suc (Suc (length as + length bs)))"
  shows "wp (sbind (slift (lo_move_a 1 v)) (\<lambda>v.
      if Suc (length as) - 1 = 1 then sret (Copy, Suc (length as) - 1, Suc (length bs), v)
      else if ac + 1 \<ge> g then merge_lo_loop lt Gallop (g + 1) (Suc (length as) - 1) (Suc (length bs)) v
      else merge_lo_loop lt (Straight (ac + 1) 0) g (Suc (length as) - 1) (Suc (length bs)) v))
    (\<lambda>out t. W t \<and> lo_out P S oR pend og out) (\<lambda>_ _. False) t"
proof -
  obtain v' where v': "lo_move_a 1 v = Inr v'" "lo_ready P S oR pend og v' (oL @ [a]) as (b # bs)"
    using lo_ready_a [OF r R] .
  show ?thesis
  proof (cases "length as = 1")
    case True
    then have "lo_out P S oR pend og (Copy, length as, Suc (length bs), v')" by (intro lo_outI [OF v'(2)]) simp_all
    then show ?thesis using True v'(1) W by simp
  next
    case False
    then have l: "1 < length as" using as by (cases as) auto
    have "length as + length (b # bs) < Suc (Suc (length as + length bs))" by simp
    note c = lo_contD [OF IH v'(2) l _ W this, of "length as" "Suc (length bs)"]
    show ?thesis using l v'(1) c by simp
  qed
qed

lemma wp_lo_straight:
  assumes og: "list_all V og" "int (length og) \<le> LIST_MAX"
    and r: "lo_ready P S oR pend og v oL (a # as) (b # bs)" and as: "as \<noteq> []" and W: "W t"
    and IH: "lo_cont P S oR pend og (Suc (Suc (length as + length bs)))"
  shows "wp (merge_lo_loop lt (Straight ac bc) g (Suc (length as)) (Suc (length bs)) v)
    (\<lambda>out t. W t \<and> lo_out P S oR pend og out) (\<lambda>_ _. False) t"
proof -
  note V = lo_ready_V [OF r og(1)]
  have at: "lo_at P (oR @ S) pend v oL (a # as) (b # bs)" using r by (simp add: lo_ready_def)
  have rd: "rd (arr (mst v)) (ssb v) = Inr b" "rd_tmp (tmp (mst v)) (ssa v) = Inr a"
    using lo_at_read_b [OF at, of 0] lo_at_read_a [OF at, of 0] by simp_all
  have Vab: "V b" "V a" using V(1) [of 0] V(2) [of 0] by simp_all
  have guard: "\<not> \<not> (Suc (length as) > 1 \<and> Suc (length bs) > 0)" using as by simp
  have fail: "lo_out P S oR pend og (Failed e, Suc (length as), Suc (length bs), v)" if "X e" for e
    by (rule lo_outI [OF r]) (use that in simp_all)
  note b = lo_straight_b [OF r as _ _ IH, where bc = bc and g = g]
  note a = lo_straight_a [OF r as _ _ IH, where ac = ac and g = g]
  show ?thesis
    apply (subst merge_lo_loop.simps(1), subst if_not_P [OF guard])
    apply (subst wp_sbind, unfold rd wp_slift_Inr, subst wp_sbind, unfold wp_slift_Inr)
    apply (subst wp_sbind, unfold wp_sattempt)
    apply (rule wp_mono [OF lt_answer [OF Vab W]])
     apply (unfold sum.case)
     subgoal for k u using a [of u] b [of u] by (cases k) (simp_all del: wp_sbind)
    subgoal for e u by (unfold wp_sret, erule conjE, rule conjI, assumption, erule fail)
    done
qed

text \<open>A galloping round, from its end to its start.\<close>

lemma lo_gallop_end:
  assumes r: "lo_ready P S oR pend og v oL (a # as) (b # bs)" and as: "as \<noteq> []" and R: "R b a False" and W: "W t"
    and IH: "lo_cont P S oR pend og sz" and sz: "length as + Suc (length bs) < sz"
    and na: "na = Suc (length as)" and nb: "nb = Suc (length bs)"
  shows "wp (sbind (slift (lo_move_a 1 v)) (\<lambda>v.
      if na - 1 = 1 then sret (Copy, na - 1, nb, v)
      else if c then merge_lo_loop lt Gallop g (na - 1) nb v
      else merge_lo_loop lt (Straight 0 0) (g + 1) (na - 1) nb (set_min_gallop (g + 1) v)))
    (\<lambda>out t. W t \<and> lo_out P S oR pend og out) (\<lambda>_ _. False) t"
proof -
  obtain v' where v': "lo_move_a 1 v = Inr v'" "lo_ready P S oR pend og v' (oL @ [a]) as (b # bs)"
    using lo_ready_a [OF r R] .
  show ?thesis
  proof (cases "length as = 1")
    case True
    then have "lo_out P S oR pend og (Copy, length as, Suc (length bs), v')" by (intro lo_outI [OF v'(2)]) simp_all
    then show ?thesis using True v'(1) W na nb by simp
  next
    case False
    then have l: "1 < length as" using as by (cases as) auto
    have e: "length as + length (b # bs) < sz" "na - 1 = length as" "nb = length (b # bs)" using na nb sz by simp_all
    have r': "lo_ready P S oR pend og (set_min_gallop (g + 1) v') (oL @ [a]) as (b # bs)"
      using v'(2) by (simp only: lo_ready_set_min_gallop)
    note c = lo_contD [OF IH v'(2) l _ W e(1) e(2,3)] lo_contD [OF IH r' l _ W e(1) e(2,3)]
    show ?thesis using l v'(1) e(2) c by simp
  qed
qed

lemma lo_gallop_left:
  assumes og: "list_all V og" "int (length og) \<le> LIST_MAX"
    and r: "lo_ready P S oR pend og v oL (a # as) bs" and as: "as \<noteq> []" and bs: "bs \<noteq> []" and W: "W t"
    and IH: "lo_cont P S oR pend og sz" and sz: "length as + length bs < sz"
    and na: "na = Suc (length as)" and nb: "nb = length bs"
  shows "wp (sbind (sattempt (gallop_left lt a (\<lambda>i. rd (arr (mst v)) (ssb v + i)) nb 0)) (\<lambda>k.
      case k of
        Inl e \<Rightarrow> sret (Failed e, na, nb, v)
      | Inr bcount \<Rightarrow>
          sbind (if bcount \<noteq> 0 then slift (lo_move_b bcount v) else sret v) (\<lambda>v.
            let nb = nb - bcount
            in
            if bcount \<noteq> 0 \<and> nb = 0 then sret (Succeed, na, nb, v)
            else
              sbind (slift (lo_move_a 1 v)) (\<lambda>v.
                if na - 1 = 1 then sret (Copy, na - 1, nb, v)
                else if c bcount then merge_lo_loop lt Gallop g (na - 1) nb v
                else merge_lo_loop lt (Straight 0 0) (g + 1) (na - 1) nb (set_min_gallop (g + 1) v)))))
    (\<lambda>out t. W t \<and> lo_out P S oR pend og out) (\<lambda>_ _. False) t"
proof -
  note V = lo_ready_V [OF r og(1)]
  have at: "lo_at P (oR @ S) pend v oL (a # as) bs" using r by (simp add: lo_ready_def)
  have g: "wp (gallop_left lt a (\<lambda>i. rd (arr (mst v)) (ssb v + i)) (length bs) 0)
    (gallop_post (\<lambda>i b. R (bs ! i) a b) (length bs)) SX t"
  proof (rule wp_gallop_left)
    show "V a" using V(1) [of 0] by simp
  qed (use V lo_at_read_b [OF at] bs W og(2) in auto)
  have ok: "wp (sbind (if k \<noteq> 0 then slift (lo_move_b k v) else sret v) (\<lambda>v.
            let nb = nb - k
            in
            if k \<noteq> 0 \<and> nb = 0 then sret (Succeed, na, nb, v)
            else
              sbind (slift (lo_move_a 1 v)) (\<lambda>v.
                if na - 1 = 1 then sret (Copy, na - 1, nb, v)
                else if c k then merge_lo_loop lt Gallop g (na - 1) nb v
                else merge_lo_loop lt (Straight 0 0) (g + 1) (na - 1) nb (set_min_gallop (g + 1) v))))
      (\<lambda>out t. W t \<and> lo_out P S oR pend og out) (\<lambda>_ _. False) u"
    if "gallop_post (\<lambda>i b. R (bs ! i) a b) (length bs) k u" for k u
  proof -
    let ?bs = "take k bs" and ?bs' = "drop k bs"
    have k: "k \<le> length bs" "k = 0 \<or> R (bs ! (k - 1)) a True" "k = length bs \<or> R (bs ! k) a False" and W: "W u"
      using that by (simp_all add: gallop_post_def)
    have r1: "lo_ready P S oR pend og v oL (a # as) (?bs @ ?bs')" using r by simp
    have l: "?bs = [] \<or> R (last ?bs) a True" using k(1,2) last_take_nth [of k bs] by (cases "k = 0") simp_all
    obtain v' where v': "(if k \<noteq> 0 then slift (lo_move_b k v) else sret v) = (sret v' :: ('s, 'e merge_vars) py)"
      "lo_ready P S oR pend og v' (oL @ ?bs) (a # as) ?bs'"
      using lo_ready_move_b [OF r1 l, of k] k(1) by auto
    show ?thesis
      unfolding v'(1) sbind_sret Let_def
    proof (cases "k \<noteq> 0 \<and> nb - k = 0")
      case True
      then have "lo_out P S oR pend og (Succeed, na, nb - k, v')"
        by (intro lo_outI [OF v'(2)]) (use na nb in simp_all)
      then show "wp (if k \<noteq> 0 \<and> nb - k = 0 then sret (Succeed, na, nb - k, v')
            else
              sbind (slift (lo_move_a 1 v')) (\<lambda>v.
                if na - 1 = 1 then sret (Copy, na - 1, nb - k, v)
                else if c k then merge_lo_loop lt Gallop g (na - 1) (nb - k) v
                else merge_lo_loop lt (Straight 0 0) (g + 1) (na - 1) (nb - k) (set_min_gallop (g + 1) v)))
      (\<lambda>out t. W t \<and> lo_out P S oR pend og out) (\<lambda>_ _. False) u"
        unfolding if_P [OF True] using W by simp
    next
      case False
      then have "k < length bs" using k(1) bs nb by (cases "k = 0") auto
      then obtain b2 bs2 where b2: "?bs' = b2 # bs2" and Rb: "R b2 a False"
        using k(3) by (metis Cons_nth_drop_Suc less_irrefl)
      have len: "nb - k = Suc (length bs2)" using b2 nb by (metis length_Cons length_drop)
      have sz': "length as + Suc (length bs2) < sz" using sz len nb by linarith
      show "wp (if k \<noteq> 0 \<and> nb - k = 0 then sret (Succeed, na, nb - k, v')
            else
              sbind (slift (lo_move_a 1 v')) (\<lambda>v.
                if na - 1 = 1 then sret (Copy, na - 1, nb - k, v)
                else if c k then merge_lo_loop lt Gallop g (na - 1) (nb - k) v
                else merge_lo_loop lt (Straight 0 0) (g + 1) (na - 1) (nb - k) (set_min_gallop (g + 1) v)))
      (\<lambda>out t. W t \<and> lo_out P S oR pend og out) (\<lambda>_ _. False) u"
        unfolding if_not_P [OF False] by (rule lo_gallop_end [OF v'(2) [unfolded b2] as Rb W IH sz' na len])
    qed
  qed
  have fail: "lo_out P S oR pend og (Failed e, na, nb, v)" if "X e" for e
    by (rule lo_outI [OF r]) (use that na nb in simp_all)
  show ?thesis
    unfolding nb
    apply (subst wp_sbind, subst wp_sattempt, rule wp_mono [OF g])
     apply (unfold sum.case)
     subgoal for k u using ok [of k u] unfolding nb .
    subgoal for e u using fail [of e] unfolding nb by simp
    done
qed

lemma lo_gallop_b:
  assumes og: "list_all V og" "int (length og) \<le> LIST_MAX"
    and r: "lo_ready P S oR pend og v oL (a # as) (b # bs)" and as: "as \<noteq> []" and R: "R b a True" and W: "W t"
    and IH: "lo_cont P S oR pend og sz" and sz: "length as + length bs < sz"
    and na: "na = Suc (length as)" and nb: "nb = Suc (length bs)"
  shows "wp (sbind (slift (lo_move_b 1 v)) (\<lambda>v.
      if nb - 1 = 0 then sret (Succeed, na, nb - 1, v)
      else
        sbind (slift (rd_tmp (tmp (mst v)) (ssa v))) (\<lambda>a.
        sbind (sattempt (gallop_left lt a (\<lambda>i. rd (arr (mst v)) (ssb v + i)) (nb - 1) 0)) (\<lambda>k.
          case k of
            Inl e \<Rightarrow> sret (Failed e, na, nb - 1, v)
          | Inr bcount \<Rightarrow>
              sbind (if bcount \<noteq> 0 then slift (lo_move_b bcount v) else sret v) (\<lambda>v.
                let nb = nb - 1 - bcount
                in
                if bcount \<noteq> 0 \<and> nb = 0 then sret (Succeed, na, nb, v)
                else
                  sbind (slift (lo_move_a 1 v)) (\<lambda>v.
                    if na - 1 = 1 then sret (Copy, na - 1, nb, v)
                    else if c bcount then merge_lo_loop lt Gallop g (na - 1) nb v
                    else merge_lo_loop lt (Straight 0 0) (g + 1) (na - 1) nb (set_min_gallop (g + 1) v)))))))
    (\<lambda>out t. W t \<and> lo_out P S oR pend og out) (\<lambda>_ _. False) t"
proof -
  obtain v' where v': "lo_move_b 1 v = Inr v'" "lo_ready P S oR pend og v' (oL @ [b]) (a # as) bs"
    using lo_ready_b [OF r R] .
  have at: "lo_at P (oR @ S) pend v' (oL @ [b]) (a # as) bs" using v'(2) by (simp add: lo_ready_def)
  have rda: "rd_tmp (tmp (mst v')) (ssa v') = Inr a" using lo_at_read_a [OF at, of 0] by simp
  have nb1: "nb - 1 = length bs" using nb by simp
  show ?thesis
    unfolding v'(1) slift_Inr sbind_sret rda
  proof (cases "bs = []")
    case True
    then have z: "nb - 1 = 0" using nb1 by simp
    have "lo_out P S oR pend og (Succeed, na, nb - 1, v')"
      by (intro lo_outI [OF v'(2)]) (use na nb1 True in simp_all)
    then show "wp (if nb - 1 = 0 then sret (Succeed, na, nb - 1, v')
      else sbind (sattempt (gallop_left lt a (\<lambda>i. rd (arr (mst v')) (ssb v' + i)) (nb - 1) 0)) (\<lambda>k.
          case k of
            Inl e \<Rightarrow> sret (Failed e, na, nb - 1, v')
          | Inr bcount \<Rightarrow>
              sbind (if bcount \<noteq> 0 then slift (lo_move_b bcount v') else sret v') (\<lambda>v.
                let nb = nb - 1 - bcount
                in
                if bcount \<noteq> 0 \<and> nb = 0 then sret (Succeed, na, nb, v)
                else
                  sbind (slift (lo_move_a 1 v)) (\<lambda>v.
                    if na - 1 = 1 then sret (Copy, na - 1, nb, v)
                    else if c bcount then merge_lo_loop lt Gallop g (na - 1) nb v
                    else merge_lo_loop lt (Straight 0 0) (g + 1) (na - 1) nb (set_min_gallop (g + 1) v)))))
      (\<lambda>out t. W t \<and> lo_out P S oR pend og out) (\<lambda>_ _. False) t"
      unfolding if_P [OF z] using W by simp
  next
    case False
    then have z: "nb - 1 \<noteq> 0" using nb1 by simp
    show "wp (if nb - 1 = 0 then sret (Succeed, na, nb - 1, v')
      else sbind (sattempt (gallop_left lt a (\<lambda>i. rd (arr (mst v')) (ssb v' + i)) (nb - 1) 0)) (\<lambda>k.
          case k of
            Inl e \<Rightarrow> sret (Failed e, na, nb - 1, v')
          | Inr bcount \<Rightarrow>
              sbind (if bcount \<noteq> 0 then slift (lo_move_b bcount v') else sret v') (\<lambda>v.
                let nb = nb - 1 - bcount
                in
                if bcount \<noteq> 0 \<and> nb = 0 then sret (Succeed, na, nb, v)
                else
                  sbind (slift (lo_move_a 1 v)) (\<lambda>v.
                    if na - 1 = 1 then sret (Copy, na - 1, nb, v)
                    else if c bcount then merge_lo_loop lt Gallop g (na - 1) nb v
                    else merge_lo_loop lt (Straight 0 0) (g + 1) (na - 1) nb (set_min_gallop (g + 1) v)))))
      (\<lambda>out t. W t \<and> lo_out P S oR pend og out) (\<lambda>_ _. False) t"
      unfolding if_not_P [OF z] by (rule lo_gallop_left [OF og v'(2) as False W IH sz na nb1])
  qed
qed

lemma wp_lo_gallop:
  assumes og: "list_all V og" "int (length og) \<le> LIST_MAX"
    and r: "lo_ready P S oR pend og v oL as (b # bs)" and as: "1 < length as" and W: "W t"
    and IH: "lo_cont P S oR pend og (length as + Suc (length bs))"
  shows "wp (merge_lo_loop lt Gallop g (length as) (Suc (length bs)) v)
    (\<lambda>out t. W t \<and> lo_out P S oR pend og out) (\<lambda>_ _. False) t"
proof -
  define g' where "g' = (if g > 1 then g - 1 else g)"
  define w where "w = set_min_gallop g' v"
  have r: "lo_ready P S oR pend og w oL as (b # bs)" using r by (simp add: w_def lo_ready_set_min_gallop)
  note V = lo_ready_V [OF r og(1)]
  have at: "lo_at P (oR @ S) pend w oL as (b # bs)" using r by (simp add: lo_ready_def)
  have rdb: "rd (arr (mst w)) (ssb w) = Inr b" using lo_at_read_b [OF at, of 0] by simp
  have guard: "\<not> \<not> (length as > 1 \<and> Suc (length bs) > 0)" using as by simp
  have g: "wp (gallop_right lt b (\<lambda>i. rd_tmp (tmp (mst w)) (ssa w + i)) (length as) 0)
    (gallop_post (\<lambda>i k. R b (as ! i) (\<not> k)) (length as)) SX t"
  proof (rule wp_gallop_right)
    show "V b" using V(2) [of 0] by simp
  qed (use V lo_at_read_a [OF at] as W og(2) in auto)
  have fail: "lo_out P S oR pend og (Failed e, length as, Suc (length bs), w)" if "X e" for e
    by (rule lo_outI [OF r]) (use that in simp_all)
  show ?thesis
    apply (subst merge_lo_loop.simps(2), subst if_not_P [OF guard])
    apply (unfold Let_def [of "if g > 1 then g - 1 else g"], fold g'_def, unfold Let_def [of "set_min_gallop g' v"], fold w_def)
    apply (unfold rdb slift_Inr sbind_sret)
    apply (subst wp_sbind, subst wp_sattempt, rule wp_mono [OF g])
     apply (unfold sum.case)
     subgoal premises p for k u
     proof -
       let ?as = "take k as" and ?as' = "drop k as"
       have k: "k \<le> length as" "k = 0 \<or> R b (as ! (k - 1)) False" "k = length as \<or> R b (as ! k) True" and W: "W u"
         using p by (simp_all add: gallop_post_def)
       have r1: "lo_ready P S oR pend og w oL (?as @ ?as') (b # bs)" using r by simp
       have l: "?as = [] \<or> R b (last ?as) False" using k(1,2) last_take_nth [of k as] by (cases "k = 0") simp_all
       obtain v' where v': "(if k \<noteq> 0 then slift (lo_move_a k w) else sret w) = (sret v' :: ('s, 'e merge_vars) py)"
         "lo_ready P S oR pend og v' (oL @ ?as) ?as' (b # bs)"
         using lo_ready_move_a [OF r1 l, of k] k(1) by auto
       consider (one) "k \<noteq> 0 \<and> length as - k = 1" | (none) "\<not> (k \<noteq> 0 \<and> length as - k = 1)" "k \<noteq> 0 \<and> length as - k = 0"
         | (more) "\<not> (k \<noteq> 0 \<and> length as - k = 1)" "\<not> (k \<noteq> 0 \<and> length as - k = 0)" by blast
       then show ?thesis
       proof cases
         case one
         then have "lo_out P S oR pend og (Copy, length as - k, Suc (length bs), v')"
           by (intro lo_outI [OF v'(2)]) simp_all
         then show ?thesis unfolding v'(1) sbind_sret Let_def if_P [OF one] using W by simp
       next
         case none
         then have "lo_out P S oR pend og (Succeed, length as - k, Suc (length bs), v')"
           by (intro lo_outI [OF v'(2)]) simp_all
         then show ?thesis unfolding v'(1) sbind_sret Let_def if_not_P [OF none(1)] if_P [OF none(2)] using W by simp
       next
         case more
         then have two: "1 < length as - k" using as by (cases "k = 0") auto
         then have "k < length as" by simp
         then obtain a as2 where a: "?as' = a # as2" and Ra: "R b a True"
           using k(3) by (metis Cons_nth_drop_Suc less_irrefl)
         have len: "length as - k = Suc (length as2)" using a by (metis length_Cons length_drop)
         have as2: "as2 \<noteq> []" using two len by auto
         have sz: "length as2 + length bs < length as + Suc (length bs)" using len by simp
         show ?thesis
           unfolding v'(1) sbind_sret Let_def [of "length as - k"] if_not_P [OF more(1)] if_not_P [OF more(2)]
           by (rule lo_gallop_b [OF og v'(2) [unfolded a] as2 Ra W IH sz len refl])
       qed
     qed
    subgoal for e u using fail [of e] by simp
    done
qed

lemma wp_merge_lo_loop:
  assumes og: "list_all V og" "int (length og) \<le> LIST_MAX"
    and "lo_ready P S oR pend og v oL as bs" and "1 < length as" and "bs \<noteq> []" and "W s"
  shows "wp (merge_lo_loop lt mode g (length as) (length bs) v)
    (\<lambda>out t. W t \<and> lo_out P S oR pend og out) (\<lambda>_ _. False) s"
  using assms(3-)
proof (induction "length as + length bs" arbitrary: mode g v oL as bs s rule: less_induct)
  case less
  have IH: "lo_cont P S oR pend og (length as + length bs)"
    unfolding lo_cont_def using less.hyps by blast
  obtain b bs' where b: "bs = b # bs'" using less.prems(3) by (cases bs) auto
  obtain a as' where a: "as = a # as'" using less.prems(2) by (cases as) auto
  have as': "as' \<noteq> []" using less.prems(2) a by auto
  have IH': "lo_cont P S oR pend og (Suc (Suc (length as' + length bs')))" using IH a b by simp
  show ?case
  proof (cases mode)
    case (Straight ac bc)
    then show ?thesis
      using wp_lo_straight [OF og less.prems(1) [unfolded a b] as' less.prems(4) IH', of ac bc g] a b by simp
  next
    case Gallop
    then show ?thesis
      using wp_lo_gallop [OF og less.prems(1) [unfolded b] less.prems(2,4), of g] IH b by simp
  qed
qed

text \<open>What a merge of two runs promises: one run, or the same entries in some order.\<close>

definition merged :: "'e list \<Rightarrow> 'e list \<Rightarrow> (nat \<times> nat) list \<Rightarrow> 'e list \<Rightarrow> 'e merge_state \<Rightarrow> pyerr option \<Rightarrow> bool" where
  "merged P S pend og ms r \<longleftrightarrow>
     (\<exists>zs. arr ms = P @ zs @ S \<and> pending ms = pend \<and>
        (case r of None \<Rightarrow> C og zs | Some e \<Rightarrow> X e \<and> mset zs = mset og))"

lemma mergedI:
  "arr ms = P @ zs @ S \<Longrightarrow> pending ms = pend \<Longrightarrow>
   (case r of None \<Rightarrow> C og zs | Some e \<Rightarrow> X e \<and> mset zs = mset og) \<Longrightarrow> merged P S pend og ms r"
  unfolding merged_def by blast

lemma lo_at_done:
  assumes "lo_at P S pend v oL [] bs"
  shows "arr (mst v) = P @ oL @ bs @ S" and "pending (mst v) = pend"
  using assms by (auto simp: lo_at_def)

text \<open>The copy of the rest of the temporary array at \<open>Succeed:\<close> and \<open>Fail:\<close>.\<close>

lemma lo_restore:
  assumes "lo_at P S pend v oL as bs"
  shows "\<exists>v'. (if length as \<noteq> 0 then lo_move_a (length as) v else Inr v) = Inr v' \<and>
    arr (mst v') = P @ oL @ as @ bs @ S \<and> pending (mst v') = pend"
proof (cases "as = []")
  case True
  then show ?thesis using lo_at_done [of P S pend v oL bs] assms by simp
next
  case False
  have "lo_at P S pend v oL (as @ []) bs" using assms by simp
  from lo_at_move_a [OF this refl] lo_at_done [of P S pend _ "oL @ as" bs] False show ?thesis by auto
qed

lemma merge_lo_exit_correct:
  assumes "lo_out P S oR pend og out"
  shows "\<exists>ms r. merge_lo_exit out = Inr (ms, r) \<and> merged P S pend og ms r"
proof -
  obtain x na nb v where out: "out = (x, na, nb, v)" by (cases out)
  obtain oL as bs where r: "lo_ready P S oR pend og v oL as bs" "na = length as" "nb = length bs"
    and x: "case x of Succeed \<Rightarrow> as = [] \<or> bs = [] | Copy \<Rightarrow> length as = 1 \<and> bs \<noteq> [] | Failed e \<Rightarrow> X e"
    using assms unfolding lo_out_def out by auto
  have at: "lo_at P (oR @ S) pend v oL as bs" and J: "J og oL as bs oR"
    and l: "as \<noteq> [] \<and> bs \<noteq> [] \<longrightarrow> R (last bs) (last as) True"
    using r(1) by (simp_all add: lo_ready_def)
  obtain v' where v': "(if na \<noteq> 0 then lo_move_a na v else Inr v) = Inr v'"
    "arr (mst v') = P @ oL @ as @ bs @ oR @ S" "pending (mst v') = pend"
    using lo_restore [OF at] r(2) by auto
  show ?thesis
  proof (cases x)
    case Succeed
    then have "C og (oL @ as @ bs @ oR)"
      using x J J_done_a [of og oL as oR] J_done_b [of og oL bs oR] by auto
    then have "merged P S pend og (mst v') None" by (intro mergedI [where zs = "oL @ as @ bs @ oR"]) (use v' in simp_all)
    then show ?thesis using v'(1) Succeed by (simp add: out merge_lo_exit_def)
  next
    case (Failed e)
    then have "merged P S pend og (mst v') (Some e)"
      using x J_mset [OF J] by (intro mergedI [where zs = "oL @ as @ bs @ oR"]) (use v' in simp_all)
    then show ?thesis using v'(1) Failed by (simp add: out merge_lo_exit_def)
  next
    case Copy
    then obtain a where a: "as = [a]" and bs: "bs \<noteq> []" using x by (auto simp: length_Suc_conv)
    have "lo_at P (oR @ S) pend v oL as (bs @ [])" using at by simp
    then obtain w where w: "lo_move_b nb v = Inr w" "lo_at P (oR @ S) pend w (oL @ bs) ([a] @ []) []"
      using lo_at_move_b r(3) a by fastforce
    obtain z where z: "lo_move_a 1 w = Inr z" "lo_at P (oR @ S) pend z ((oL @ bs) @ [a]) [] []"
      using lo_at_move_a [OF w(2), of 1] by auto
    have "J og (oL @ bs) [a] [] oR"
      by (rule b_first) (use J a l bs in simp_all)
    then have "C og (oL @ bs @ [a] @ oR)" using J_done_a by fastforce
    then have "merged P S pend og (mst z) None"
      by (intro mergedI [where zs = "oL @ bs @ [a] @ oR"]) (use lo_at_done [OF z(2)] in simp_all)
    then show ?thesis using Copy w(1) z(1) a bs r(2,3) by (simp add: out merge_lo_exit_def)
  qed
qed

lemma merge_getmem_correct:
  assumes "2 * int need \<le> LIST_MAX"
  shows "\<exists>ms'. merge_getmem ms need = Inr ms' \<and> arr ms' = arr ms \<and> pending ms' = pending ms \<and>
    need \<le> length (tmp ms')"
  using assms by (simp add: merge_getmem_def PY_SSIZE_T_MAX_def)

lemma put_block_start: "length xs \<le> length ys \<Longrightarrow> put_block ys 0 xs = Inr (xs @ drop (length xs) ys)"
  by (simp add: put_block_def array_write_def)

lemma wp_merge_lo:
  assumes og: "list_all V og" "int (length og) \<le> LIST_MAX"
    and arr: "arr ms = P @ oL @ as @ bs @ oR @ S" and J: "J og oL as bs oR"
    and ne: "as \<noteq> []" "bs \<noteq> []" and le: "length as \<le> length bs"
    and first: "R (hd bs) (hd as) True" and last: "R (last bs) (last as) True"
    and a: "a = length P + length oL" and W: "W s"
  shows "wp (merge_lo lt a (length as) (a + length as) (length bs) ms)
    (\<lambda>(ms', r) t. W t \<and> merged P S (pending ms) og ms' r) (\<lambda>_ _. False) s"
proof -
  have m: "mset (oL @ as @ bs @ oR) = mset og" using J_mset [OF J] .
  then have "length (oL @ as @ bs @ oR) = length og" using mset_eq_length by blast
  then have need: "2 * int (length as) \<le> LIST_MAX" using le og(2) by simp
  obtain ms1 where ms1: "merge_getmem ms (length as) = Inr ms1" "arr ms1 = arr ms" "pending ms1 = pending ms"
    "length as \<le> length (tmp ms1)" using merge_getmem_correct [OF need] by blast
  define T where "T = map Some as @ drop (length as) (tmp ms1)"
  have t: "rbind (get_block (arr ms1) (int a) (length as)) (\<lambda>xs. put_block (tmp ms1) 0 (map Some xs)) = Inr T"
    using get_block_append [of "int a" "P @ oL" "length as" as "bs @ oR @ S"] ms1(2,4) arr a
    by (simp add: T_def put_block_start)
  define v where "v = \<lparr>mst = ms1\<lparr>tmp := T\<rparr>, dest = int a, ssa = 0, ssb = int (a + length as)\<rparr>"
  obtain x as' where as: "as = x # as'" using ne(1) by (cases as) auto
  obtain y bs' where bs: "bs = y # bs'" using ne(2) by (cases bs) auto
  have "lo_at P (oR @ S) (pending ms) v oL as bs"
    unfolding lo_at_def
    by (rule exI [of _ as], rule exI [of _ "[]"], rule exI [of _ "drop (length as) (tmp ms1)"])
      (simp add: v_def T_def ms1 arr a)
  then have "lo_ready P S oR (pending ms) og v oL as bs" using J last by (simp add: lo_ready_def)
  moreover have "R y x True" using first as bs by simp
  ultimately obtain v' where v': "lo_move_b 1 v = Inr v'" "lo_ready P S oR (pending ms) og v' (oL @ [y]) as bs'"
    using lo_ready_b as bs by metis
  have exit: "wp (slift (merge_lo_exit out)) (\<lambda>(ms', r) t. W t \<and> merged P S (pending ms) og ms' r) (\<lambda>_ _. False) t"
    if "W t \<and> lo_out P S oR (pending ms) og out" for out t
    using merge_lo_exit_correct [of P S oR "pending ms" og out] that by auto
  have out: "wp (if length bs - 1 = 0 then sret (Succeed, length as, length bs - 1, v')
      else if length as = 1 then sret (Copy, length as, length bs - 1, v')
      else merge_lo_loop lt (Straight 0 0) (min_gallop ms1) (length as) (length bs - 1) v')
    (\<lambda>out t. W t \<and> lo_out P S oR (pending ms) og out) (\<lambda>_ _. False) s"
  proof -
    have nb: "length bs - 1 = length bs'" using bs by simp
    consider (e) "bs' = []" | (c) "bs' \<noteq> []" "length as = 1" | (l) "bs' \<noteq> []" "1 < length as"
      using ne(1) by (cases "length as = 1"; cases as) auto
    then show ?thesis
    proof cases
      case e
      have "lo_out P S oR (pending ms) og (Succeed, length as, length bs - 1, v')"
        by (rule lo_outI [OF v'(2) refl nb]) (simp add: e)
      then show ?thesis unfolding nb using e W by simp
    next
      case c
      have "lo_out P S oR (pending ms) og (Copy, length as, length bs - 1, v')"
        by (rule lo_outI [OF v'(2) refl nb]) (simp add: c)
      then show ?thesis unfolding nb using c W by simp
    next
      case l
      then show ?thesis unfolding nb using wp_merge_lo_loop [OF og v'(2) l(2,1) W] by simp
    qed
  qed
  have as0: "length as > 0 \<and> length bs > 0 \<and> a + length as = a + length as" using ne by simp
  show ?thesis
    unfolding merge_lo_def wp_sbind [of "sassert _"] wp_sassert if_P [OF as0] ms1(1) sum.case t slift_Inr sbind_sret v_def [symmetric] v'(1)
      wp_sbind [of "if _ then _ else _"]
    by (rule wp_mono [OF out]) (use exit in auto)
qed

end

end
