(* ===== verification/PySortHi.thy ===== *)
theory PySortHi
  imports PySortMerge
begin

text \<open>
  Merging two adjacent runs of the list sort from the right end: \<open>merge_hi\<close>, the mirror image of
  \<open>merge_lo\<close>. The second run waits in the temporary array, and the pointers run down.
\<close>

lemma rd_tmp_block: "i < length xs \<Longrightarrow> rd_tmp (map Some xs @ ys) (int i) = Inr (xs ! i)"
  by (simp add: rd_tmp_def rd_def nth_append)

context sort_contract begin

section \<open>Merging downwards\<close>

text \<open>
  The state of \<open>merge_hi\<close>: \<open>Q\<close> and what is behind the gap are final, the gap is as long as the
  entries \<open>bs\<close> that wait in the temporary array.
\<close>

definition hi_at :: "'e list \<Rightarrow> 'e list \<Rightarrow> (nat \<times> nat) list \<Rightarrow> 'e merge_vars \<Rightarrow> 'e list \<Rightarrow> 'e list \<Rightarrow> 'e list \<Rightarrow> bool" where
  "hi_at Q S pend v as bs oR \<longleftrightarrow>
     (\<exists>gap t. arr (mst v) = Q @ as @ gap @ oR @ S \<and> length gap = length bs \<and>
        tmp (mst v) = map Some bs @ t \<and> ssb v = int (length bs) - 1 \<and>
        ssa v = int (length Q + length as) - 1 \<and> dest v = int (length Q + length as + length bs) - 1 \<and>
        pending (mst v) = pend)"

lemma hi_at_move_a:
  assumes "hi_at Q S pend v (as @ as') bs oR" and "k = length as'"
  shows "\<exists>v'. hi_move_a k v = Inr v' \<and> hi_at Q S pend v' as bs (as' @ oR)"
proof -
  obtain gap t where v: "arr (mst v) = Q @ (as @ as') @ gap @ oR @ S" "length gap = length bs"
    "tmp (mst v) = map Some bs @ t" "ssb v = int (length bs) - 1" "ssa v = int (length Q + length (as @ as')) - 1"
    "dest v = int (length Q + length (as @ as') + length bs) - 1" "pending (mst v) = pend"
    using assms(1) unfolding hi_at_def by blast
  let ?g = "take (length bs) (as' @ gap)" and ?g' = "drop (length bs) (as' @ gap)"
  have g: "get_block (arr (mst v)) (ssa v - int k + 1) k = Inr as'"
    using get_block_append [of "ssa v - int k + 1" "Q @ as" k as' "gap @ oR @ S"] v(1,5) assms(2) by simp
  have "put_block ((Q @ as @ ?g) @ ?g' @ oR @ S) (dest v - int k + 1) as' = Inr ((Q @ as @ ?g) @ as' @ oR @ S)"
    by (rule put_block_append) (use v(2,6) assms(2) in simp_all)
  moreover have "arr (mst v) = (Q @ as @ ?g) @ ?g' @ oR @ S"
    using v(1) append_take_drop_id [of "length bs" "as' @ gap"] by (metis append_assoc)
  ultimately have p: "put_block (arr (mst v)) (dest v - int k + 1) as' = Inr (Q @ as @ ?g @ (as' @ oR) @ S)" by simp
  show ?thesis
    unfolding hi_move_a_def g p rbind_simps
    by (rule exI, rule conjI, rule refl, unfold hi_at_def, rule exI [of _ ?g], rule exI [of _ t])
      (simp add: put_arr_def v assms(2))
qed

lemma hi_at_move_b:
  assumes "hi_at Q S pend v as (bs @ bs') oR" and "k = length bs'"
  shows "\<exists>v'. hi_move_b k v = Inr v' \<and> hi_at Q S pend v' as bs (bs' @ oR)"
proof -
  obtain gap t where v: "arr (mst v) = Q @ as @ gap @ oR @ S" "length gap = length (bs @ bs')"
    "tmp (mst v) = map Some (bs @ bs') @ t" "ssb v = int (length (bs @ bs')) - 1" "ssa v = int (length Q + length as) - 1"
    "dest v = int (length Q + length as + length (bs @ bs')) - 1" "pending (mst v) = pend"
    using assms(1) unfolding hi_at_def by blast
  let ?g = "take (length bs) gap" and ?g' = "drop (length bs) gap"
  have g: "get_block (tmp (mst v)) (ssb v - int k + 1) k = Inr (map Some bs')"
    using get_block_append [of "ssb v - int k + 1" "map Some bs" k "map Some bs'" t] v(3,4) assms(2) by simp
  have "put_block ((Q @ as @ ?g) @ ?g' @ oR @ S) (dest v - int k + 1) bs' = Inr ((Q @ as @ ?g) @ bs' @ oR @ S)"
    by (rule put_block_append) (use v(2,6) assms(2) in simp_all)
  moreover have "arr (mst v) = (Q @ as @ ?g) @ ?g' @ oR @ S"
    using v(1) append_take_drop_id [of "length bs" gap] by (metis append_assoc)
  ultimately have p: "put_block (arr (mst v)) (dest v - int k + 1) bs' = Inr (Q @ as @ ?g @ (bs' @ oR) @ S)" by simp
  show ?thesis
    unfolding hi_move_b_def g p rbind_simps written_Some
    by (rule exI, rule conjI, rule refl, unfold hi_at_def, rule exI [of _ ?g], rule exI [of _ "map Some bs' @ t"])
      (use v(2) in \<open>simp add: put_arr_def v assms(2)\<close>)
qed

lemma hi_at_set_min_gallop: "hi_at Q S pend (set_min_gallop g v) as bs oR = hi_at Q S pend v as bs oR"
  by (simp add: hi_at_def set_min_gallop_def)

lemma hi_at_read_a:
  assumes "hi_at Q S pend v as bs oR" and "i < length as" and "k = int (length Q)"
  shows "rd (arr (mst v)) (k + int i) = Inr (as ! i)"
proof -
  obtain gap where v: "arr (mst v) = Q @ as @ gap @ oR @ S" using assms(1) unfolding hi_at_def by auto
  show ?thesis using assms(2,3) v by (simp add: rd_def nat_add_distrib nth_append)
qed

lemma hi_at_read_b:
  assumes "hi_at Q S pend v as bs oR" and "i < length bs"
  shows "rd_tmp (tmp (mst v)) (int i) = Inr (bs ! i)"
  using assms by (auto simp: hi_at_def rd_tmp_block)

lemma hi_at_last_a:
  assumes "hi_at Q S pend v (as @ [a]) bs oR"
  shows "rd (arr (mst v)) (ssa v) = Inr a"
proof -
  have "ssa v = int (length Q) + int (length as)" using assms by (auto simp: hi_at_def)
  then show ?thesis using hi_at_read_a [OF assms, of "length as" "int (length Q)"] by simp
qed

lemma hi_at_last_b:
  assumes "hi_at Q S pend v as (bs @ [b]) oR"
  shows "rd_tmp (tmp (mst v)) (ssb v) = Inr b"
proof -
  have "ssb v = int (length bs)" using assms by (auto simp: hi_at_def)
  then show ?thesis using hi_at_read_b [OF assms, of "length bs"] by simp
qed

text \<open>
  With the justification of the moves so far, and the comparison that puts the first entry of
  \<open>bs\<close> before the first one of \<open>as\<close>.
\<close>

definition hi_ready ::
    "'e list \<Rightarrow> 'e list \<Rightarrow> 'e list \<Rightarrow> (nat \<times> nat) list \<Rightarrow> 'e list \<Rightarrow> 'e merge_vars \<Rightarrow> 'e list \<Rightarrow> 'e list \<Rightarrow> 'e list \<Rightarrow> bool" where
  "hi_ready P S oL pend og v as bs oR \<longleftrightarrow>
     hi_at (P @ oL) S pend v as bs oR \<and> J og oL as bs oR \<and>
     (as \<noteq> [] \<and> bs \<noteq> [] \<longrightarrow> R (hd bs) (hd as) True)"

lemma hi_ready_move_a:
  assumes "hi_ready P S oL pend og v (as @ as') (bs @ [b]) oR" and "as' = [] \<or> R b (hd as') True" and "k = length as'"
  shows "\<exists>v'. (if k \<noteq> 0 then slift (hi_move_a k v) else sret v) = (sret v' :: ('s, 'e merge_vars) py) \<and>
    hi_ready P S oL pend og v' as (bs @ [b]) (as' @ oR)"
proof (cases "as' = []")
  case True
  then show ?thesis using assms by auto
next
  case False
  have at: "hi_at (P @ oL) S pend v (as @ as') (bs @ [b]) oR" and J: "J og oL (as @ as') (bs @ [b]) oR"
    and l: "R (hd (bs @ [b])) (hd (as @ as')) True"
    using assms(1) False unfolding hi_ready_def by auto
  obtain v' where "hi_move_a k v = Inr v'" "hi_at (P @ oL) S pend v' as (bs @ [b]) (as' @ oR)"
    using hi_at_move_a [OF at assms(3)] by blast
  moreover have "J og oL as (bs @ [b]) (as' @ oR)" by (rule a_last [OF J assms(2)])
  ultimately show ?thesis using False l assms(3) unfolding hi_ready_def by (auto simp: hd_append)
qed

lemma hi_ready_move_b:
  assumes "hi_ready P S oL pend og v (as @ [a]) (bs @ bs') oR" and "bs' = [] \<or> R (hd bs') a False" and "k = length bs'"
  shows "\<exists>v'. (if k \<noteq> 0 then slift (hi_move_b k v) else sret v) = (sret v' :: ('s, 'e merge_vars) py) \<and>
    hi_ready P S oL pend og v' (as @ [a]) bs (bs' @ oR)"
proof (cases "bs' = []")
  case True
  then show ?thesis using assms by auto
next
  case False
  have at: "hi_at (P @ oL) S pend v (as @ [a]) (bs @ bs') oR" and J: "J og oL (as @ [a]) (bs @ bs') oR"
    and l: "R (hd (bs @ bs')) (hd (as @ [a])) True"
    using assms(1) False unfolding hi_ready_def by auto
  obtain v' where "hi_move_b k v = Inr v'" "hi_at (P @ oL) S pend v' (as @ [a]) bs (bs' @ oR)"
    using hi_at_move_b [OF at assms(3)] by blast
  moreover have "J og oL (as @ [a]) bs (bs' @ oR)" by (rule b_last [OF J assms(2)])
  ultimately show ?thesis using False l assms(3) unfolding hi_ready_def by (auto simp: hd_append)
qed

text \<open>One entry at a time.\<close>

lemma hi_ready_a:
  assumes "hi_ready P S oL pend og v (as @ [a]) (bs @ [b]) oR" and "R b a True"
  obtains v' where "hi_move_a 1 v = Inr v'" and "hi_ready P S oL pend og v' as (bs @ [b]) (a # oR)"
proof -
  have at: "hi_at (P @ oL) S pend v (as @ [a]) (bs @ [b]) oR" and J: "J og oL (as @ [a]) (bs @ [b]) oR"
    and l: "R (hd (bs @ [b])) (hd (as @ [a])) True"
    using assms(1) unfolding hi_ready_def by auto
  obtain v' where "hi_move_a 1 v = Inr v'" "hi_at (P @ oL) S pend v' as (bs @ [b]) ([a] @ oR)"
    using hi_at_move_a [OF at, of 1] by auto
  moreover have "J og oL as (bs @ [b]) ([a] @ oR)" by (rule a_last [OF J]) (use assms(2) in simp)
  ultimately show ?thesis using that l unfolding hi_ready_def by (auto simp: hd_append split: if_splits)
qed

lemma hi_ready_b:
  assumes "hi_ready P S oL pend og v (as @ [a]) (bs @ [b]) oR" and "R b a False"
  obtains v' where "hi_move_b 1 v = Inr v'" and "hi_ready P S oL pend og v' (as @ [a]) bs (b # oR)"
proof -
  have at: "hi_at (P @ oL) S pend v (as @ [a]) (bs @ [b]) oR" and J: "J og oL (as @ [a]) (bs @ [b]) oR"
    and l: "R (hd (bs @ [b])) (hd (as @ [a])) True"
    using assms(1) unfolding hi_ready_def by auto
  obtain v' where "hi_move_b 1 v = Inr v'" "hi_at (P @ oL) S pend v' (as @ [a]) bs ([b] @ oR)"
    using hi_at_move_b [OF at, of 1] by auto
  moreover have "J og oL (as @ [a]) bs ([b] @ oR)" by (rule b_last [OF J]) (use assms(2) in simp)
  ultimately show ?thesis using that l unfolding hi_ready_def by (auto simp: hd_append split: if_splits)
qed

lemma hi_ready_V:
  assumes "hi_ready P S oL pend og v as bs oR" and "list_all V og"
  shows "\<And>i. i < length as \<Longrightarrow> V (as ! i)" and "\<And>i. i < length bs \<Longrightarrow> V (bs ! i)"
    and "length as \<le> length og" and "length bs \<le> length og"
proof -
  have m: "mset (oL @ as @ bs @ oR) = mset og" using assms(1) J_mset unfolding hi_ready_def by blast
  then have "set (oL @ as @ bs @ oR) = set og" by (metis set_mset_mset)
  then show "\<And>i. i < length as \<Longrightarrow> V (as ! i)" "\<And>i. i < length bs \<Longrightarrow> V (bs ! i)"
    using assms(2) by (auto simp: list_all_iff)
  have "length (oL @ as @ bs @ oR) = length og" using m mset_eq_length by blast
  then show "length as \<le> length og" "length bs \<le> length og" by simp_all
qed

lemma hi_ready_set_min_gallop:
  "hi_ready P S oL pend og (set_min_gallop g v) as bs oR = hi_ready P S oL pend og v as bs oR"
  by (simp add: hi_ready_def hi_at_set_min_gallop)

definition hi_out ::
    "'e list \<Rightarrow> 'e list \<Rightarrow> 'e list \<Rightarrow> (nat \<times> nat) list \<Rightarrow> 'e list \<Rightarrow> 'e merge_out \<Rightarrow> bool" where
  "hi_out P S oL pend og out \<longleftrightarrow>
     (case out of (x, na, nb, v) \<Rightarrow> \<exists>as bs oR. hi_ready P S oL pend og v as bs oR \<and> na = length as \<and> nb = length bs \<and>
        (case x of Succeed \<Rightarrow> as = [] \<or> bs = [] | Copy \<Rightarrow> length bs = 1 \<and> as \<noteq> [] | Failed e \<Rightarrow> X e))"

lemma hi_outI:
  assumes "hi_ready P S oL pend og v as bs oR" and "na = length as" and "nb = length bs"
    and "case x of Succeed \<Rightarrow> as = [] \<or> bs = [] | Copy \<Rightarrow> length bs = 1 \<and> as \<noteq> [] | Failed e \<Rightarrow> X e"
  shows "hi_out P S oL pend og (x, na, nb, v)"
  unfolding hi_out_def prod.case by (rule exI [of _ as], rule exI [of _ bs], rule exI [of _ oR]) (use assms in simp)

text \<open>What a round of the loop needs of the rounds after it.\<close>

definition hi_cont ::
    "'e list \<Rightarrow> 'e list \<Rightarrow> 'e list \<Rightarrow> (nat \<times> nat) list \<Rightarrow> 'e list \<Rightarrow> nat \<Rightarrow> bool" where
  "hi_cont P S oL pend og sz \<longleftrightarrow>
     (\<forall>mode g v as bs oR t. hi_ready P S oL pend og v as bs oR \<longrightarrow> as \<noteq> [] \<longrightarrow> 1 < length bs \<longrightarrow> W t \<longrightarrow>
        length as + length bs < sz \<longrightarrow>
        wp (merge_hi_loop lt (int (length (P @ oL))) mode g (length as) (length bs) v)
          (\<lambda>out t. W t \<and> hi_out P S oL pend og out) (\<lambda>_ _. False) t)"

lemma hi_contD:
  assumes "hi_cont P S oL pend og sz" and "hi_ready P S oL pend og v as bs oR" and "as \<noteq> []" and "1 < length bs"
    and "W t" and "length as + length bs < sz" and "na = length as" and "nb = length bs"
  shows "wp (merge_hi_loop lt (int (length (P @ oL))) mode g na nb v)
    (\<lambda>out t. W t \<and> hi_out P S oL pend og out) (\<lambda>_ _. False) t"
  using assms unfolding hi_cont_def by blast

lemma hi_straight_a:
  assumes r: "hi_ready P S oL pend og v (as @ [a]) (bs @ [b]) oR" and bs: "bs \<noteq> []" and R: "R b a True" and W: "W t"
    and IH: "hi_cont P S oL pend og (Suc (Suc (length as + length bs)))" and basea: "basea = int (length (P @ oL))"
  shows "wp (sbind (slift (hi_move_a 1 v)) (\<lambda>v.
      if Suc (length as) - 1 = 0 then sret (Succeed, Suc (length as) - 1, Suc (length bs), v)
      else if ac + 1 \<ge> g then merge_hi_loop lt basea Gallop (g + 1) (Suc (length as) - 1) (Suc (length bs)) v
      else merge_hi_loop lt basea (Straight (ac + 1) 0) g (Suc (length as) - 1) (Suc (length bs)) v))
    (\<lambda>out t. W t \<and> hi_out P S oL pend og out) (\<lambda>_ _. False) t"
proof -
  obtain v' where v': "hi_move_a 1 v = Inr v'" "hi_ready P S oL pend og v' as (bs @ [b]) (a # oR)"
    using hi_ready_a [OF r R] .
  show ?thesis
  proof (cases "as = []")
    case True
    then have "hi_out P S oL pend og (Succeed, 0, Suc (length bs), v')" by (intro hi_outI [OF v'(2)]) simp_all
    then show ?thesis using True v'(1) W by simp
  next
    case False
    have "1 < length (bs @ [b])" "length as + length (bs @ [b]) < Suc (Suc (length as + length bs))" using bs by simp_all
    note c = hi_contD [OF IH v'(2) False this(1) W this(2), of "length as" "Suc (length bs)"]
    show ?thesis using False v'(1) c basea by simp
  qed
qed

lemma hi_straight_b:
  assumes r: "hi_ready P S oL pend og v (as @ [a]) (bs @ [b]) oR" and bs: "bs \<noteq> []" and R: "R b a False" and W: "W t"
    and IH: "hi_cont P S oL pend og (Suc (Suc (length as + length bs)))" and basea: "basea = int (length (P @ oL))"
  shows "wp (sbind (slift (hi_move_b 1 v)) (\<lambda>v.
      if Suc (length bs) - 1 = 1 then sret (Copy, Suc (length as), Suc (length bs) - 1, v)
      else if bc + 1 \<ge> g then merge_hi_loop lt basea Gallop (g + 1) (Suc (length as)) (Suc (length bs) - 1) v
      else merge_hi_loop lt basea (Straight 0 (bc + 1)) g (Suc (length as)) (Suc (length bs) - 1) v))
    (\<lambda>out t. W t \<and> hi_out P S oL pend og out) (\<lambda>_ _. False) t"
proof -
  obtain v' where v': "hi_move_b 1 v = Inr v'" "hi_ready P S oL pend og v' (as @ [a]) bs (b # oR)"
    using hi_ready_b [OF r R] .
  show ?thesis
  proof (cases "length bs = 1")
    case True
    then have "hi_out P S oL pend og (Copy, Suc (length as), length bs, v')" by (intro hi_outI [OF v'(2)]) simp_all
    then show ?thesis using True v'(1) W by simp
  next
    case False
    then have l: "1 < length bs" using bs by (cases bs) auto
    have "as @ [a] \<noteq> []" "length (as @ [a]) + length bs < Suc (Suc (length as + length bs))" by simp_all
    note c = hi_contD [OF IH v'(2) this(1) l W this(2), of "Suc (length as)" "length bs"]
    show ?thesis using l v'(1) c basea by simp
  qed
qed

lemma wp_hi_straight:
  assumes og: "list_all V og" "int (length og) \<le> LIST_MAX"
    and r: "hi_ready P S oL pend og v (as @ [a]) (bs @ [b]) oR" and bs: "bs \<noteq> []" and W: "W t"
    and IH: "hi_cont P S oL pend og (Suc (Suc (length as + length bs)))" and basea: "basea = int (length (P @ oL))"
  shows "wp (merge_hi_loop lt basea (Straight ac bc) g (Suc (length as)) (Suc (length bs)) v)
    (\<lambda>out t. W t \<and> hi_out P S oL pend og out) (\<lambda>_ _. False) t"
proof -
  note V = hi_ready_V [OF r og(1)]
  have at: "hi_at (P @ oL) S pend v (as @ [a]) (bs @ [b]) oR" using r by (simp add: hi_ready_def)
  note rd = hi_at_last_b [OF at] hi_at_last_a [OF at]
  have Vab: "V b" "V a" using V(1) [of "length as"] V(2) [of "length bs"] by simp_all
  have guard: "\<not> \<not> (Suc (length as) > 0 \<and> Suc (length bs) > 1)" using bs by simp
  have fail: "hi_out P S oL pend og (Failed e, Suc (length as), Suc (length bs), v)" if "X e" for e
    by (rule hi_outI [OF r]) (use that in simp_all)
  note a = hi_straight_a [OF r bs _ _ IH basea, where ac = ac and g = g]
  note b = hi_straight_b [OF r bs _ _ IH basea, where bc = bc and g = g]
  show ?thesis
    apply (subst merge_hi_loop.simps(1), subst if_not_P [OF guard])
    apply (subst wp_sbind, unfold rd wp_slift_Inr, subst wp_sbind, unfold wp_slift_Inr)
    apply (subst wp_sbind, unfold wp_sattempt)
    apply (rule wp_mono [OF lt_answer [OF Vab W]])
     apply (unfold sum.case)
     subgoal for k u using a [of u] b [of u] by (cases k) (simp_all del: wp_sbind)
    subgoal for e u by (unfold wp_sret, erule conjE, rule conjI, assumption, erule fail)
    done
qed

text \<open>A galloping round, from its end to its start.\<close>

lemma hi_gallop_end:
  assumes r: "hi_ready P S oL pend og v (as @ [a]) (bs @ [b]) oR" and bs: "bs \<noteq> []" and R: "R b a True" and W: "W t"
    and IH: "hi_cont P S oL pend og sz" and sz: "length as + Suc (length bs) < sz"
    and na: "na = Suc (length as)" and nb: "nb = Suc (length bs)" and basea: "basea = int (length (P @ oL))"
  shows "wp (sbind (slift (hi_move_a 1 v)) (\<lambda>v.
      if na - 1 = 0 then sret (Succeed, na - 1, nb, v)
      else if c then merge_hi_loop lt basea Gallop g (na - 1) nb v
      else merge_hi_loop lt basea (Straight 0 0) (g + 1) (na - 1) nb (set_min_gallop (g + 1) v)))
    (\<lambda>out t. W t \<and> hi_out P S oL pend og out) (\<lambda>_ _. False) t"
proof -
  obtain v' where v': "hi_move_a 1 v = Inr v'" "hi_ready P S oL pend og v' as (bs @ [b]) (a # oR)"
    using hi_ready_a [OF r R] .
  show ?thesis
  proof (cases "as = []")
    case True
    then have "hi_out P S oL pend og (Succeed, 0, Suc (length bs), v')" by (intro hi_outI [OF v'(2)]) simp_all
    then show ?thesis using True v'(1) W na nb by simp
  next
    case False
    have e: "1 < length (bs @ [b])" "length as + length (bs @ [b]) < sz" "na - 1 = length as" "nb = length (bs @ [b])"
      using na nb sz bs by simp_all
    have r': "hi_ready P S oL pend og (set_min_gallop (g + 1) v') as (bs @ [b]) (a # oR)"
      using v'(2) by (simp only: hi_ready_set_min_gallop)
    note c = hi_contD [OF IH v'(2) False e(1) W e(2-4)] hi_contD [OF IH r' False e(1) W e(2-4)]
    show ?thesis using False v'(1) e(3) c basea by simp
  qed
qed

lemma hi_gallop_left:
  assumes og: "list_all V og" "int (length og) \<le> LIST_MAX"
    and r: "hi_ready P S oL pend og v (as @ [a]) bs oR" and bs: "1 < length bs" and W: "W t"
    and IH: "hi_cont P S oL pend og sz" and sz: "length as + length bs < sz"
    and na: "na = Suc (length as)" and nb: "nb = length bs" and basea: "basea = int (length (P @ oL))"
  shows "wp (sbind (sattempt (gallop_left lt a (\<lambda>i. rd_tmp (tmp (mst v)) i) nb (nb - 1))) (\<lambda>k.
      case k of
        Inl e \<Rightarrow> sret (Failed e, na, nb, v)
      | Inr k \<Rightarrow>
          let bcount = nb - k
          in
          sbind (if bcount \<noteq> 0 then slift (hi_move_b bcount v) else sret v) (\<lambda>v.
            let nb = nb - bcount
            in
            if bcount \<noteq> 0 \<and> nb = 1 then sret (Copy, na, nb, v)
            else if bcount \<noteq> 0 \<and> nb = 0 then sret (Succeed, na, nb, v)
            else
              sbind (slift (hi_move_a 1 v)) (\<lambda>v.
                if na - 1 = 0 then sret (Succeed, na - 1, nb, v)
                else if c bcount then merge_hi_loop lt basea Gallop g (na - 1) nb v
                else merge_hi_loop lt basea (Straight 0 0) (g + 1) (na - 1) nb (set_min_gallop (g + 1) v)))))
    (\<lambda>out t. W t \<and> hi_out P S oL pend og out) (\<lambda>_ _. False) t"
proof -
  note V = hi_ready_V [OF r og(1)]
  have at: "hi_at (P @ oL) S pend v (as @ [a]) bs oR" using r by (simp add: hi_ready_def)
  have g: "wp (gallop_left lt a (\<lambda>i. rd_tmp (tmp (mst v)) i) (length bs) (length bs - 1))
    (gallop_post (\<lambda>i b. R (bs ! i) a b) (length bs)) SX t"
  proof (rule wp_gallop_left)
    show "V a" using V(1) [of "length as"] by simp
  qed (use V hi_at_read_b [OF at] bs W og(2) in auto)
  have ok: "wp (sbind (if bc \<noteq> 0 then slift (hi_move_b bc v) else sret v) (\<lambda>v.
            let nb = nb - bc
            in
            if bc \<noteq> 0 \<and> nb = 1 then sret (Copy, na, nb, v)
            else if bc \<noteq> 0 \<and> nb = 0 then sret (Succeed, na, nb, v)
            else
              sbind (slift (hi_move_a 1 v)) (\<lambda>v.
                if na - 1 = 0 then sret (Succeed, na - 1, nb, v)
                else if c bc then merge_hi_loop lt basea Gallop g (na - 1) nb v
                else merge_hi_loop lt basea (Straight 0 0) (g + 1) (na - 1) nb (set_min_gallop (g + 1) v))))
      (\<lambda>out t. W t \<and> hi_out P S oL pend og out) (\<lambda>_ _. False) u"
    if "gallop_post (\<lambda>i b. R (bs ! i) a b) (length bs) k u" and bc: "bc = nb - k" for k u bc
  proof -
    let ?bs = "take k bs" and ?bs' = "drop k bs"
    have k: "k \<le> length bs" "k = 0 \<or> R (bs ! (k - 1)) a True" "k = length bs \<or> R (bs ! k) a False" and W: "W u"
      using that by (simp_all add: gallop_post_def)
    have r1: "hi_ready P S oL pend og v (as @ [a]) (?bs @ ?bs') oR" using r by simp
    have l: "?bs' = [] \<or> R (hd ?bs') a False" using k(1,3) by (cases "k = length bs") (simp_all add: hd_drop_conv_nth)
    have len: "bc = length ?bs'" "nb - bc = length ?bs" "nb - bc = k" using bc k(1) nb by simp_all
    obtain v' where v': "(if bc \<noteq> 0 then slift (hi_move_b bc v) else sret v) = (sret v' :: ('s, 'e merge_vars) py)"
      "hi_ready P S oL pend og v' (as @ [a]) ?bs (?bs' @ oR)"
      using hi_ready_move_b [OF r1 l len(1)] by auto
    consider (one) "bc \<noteq> 0 \<and> nb - bc = 1" | (none) "\<not> (bc \<noteq> 0 \<and> nb - bc = 1)" "bc \<noteq> 0 \<and> nb - bc = 0"
      | (more) "\<not> (bc \<noteq> 0 \<and> nb - bc = 1)" "\<not> (bc \<noteq> 0 \<and> nb - bc = 0)" by blast
    then show ?thesis
    proof cases
      case one
      then have "hi_out P S oL pend og (Copy, na, nb - bc, v')"
        by (intro hi_outI [OF v'(2)]) (use na len in simp_all)
      then show ?thesis unfolding v'(1) sbind_sret Let_def if_P [OF one] using W by simp
    next
      case none
      then have "hi_out P S oL pend og (Succeed, na, nb - bc, v')"
        by (intro hi_outI [OF v'(2)]) (use na len in simp_all)
      then show ?thesis unfolding v'(1) sbind_sret Let_def if_not_P [OF none(1)] if_P [OF none(2)] using W by simp
    next
      case more
      then have two: "1 < k" using bs bc nb by (cases "bc = 0") auto
      define b2 bs2 where "b2 = bs ! (k - 1)" and "bs2 = take (k - 1) bs"
      have b2: "?bs = bs2 @ [b2]" using two k(1) take_Suc_conv_app_nth [of "k - 1" bs] by (simp add: b2_def bs2_def)
      have Rb: "R b2 a True" using k(2) two by (simp add: b2_def)
      have bs2: "bs2 \<noteq> []" "nb - bc = Suc (length bs2)" using two k(1) len(3) bs by (auto simp: bs2_def)
      have sz': "length as + Suc (length bs2) < sz" using sz bs2(2) nb by linarith
      show ?thesis
        unfolding v'(1) sbind_sret Let_def [of "nb - bc"] if_not_P [OF more(1)] if_not_P [OF more(2)]
        by (rule hi_gallop_end [OF v'(2) [unfolded b2] bs2(1) Rb W IH sz' na bs2(2) basea])
    qed
  qed
  have fail: "hi_out P S oL pend og (Failed e, na, nb, v)" if "X e" for e
    by (rule hi_outI [OF r]) (use that na nb in simp_all)
  show ?thesis
    unfolding nb
    apply (subst wp_sbind, subst wp_sattempt, rule wp_mono [OF g])
     apply (unfold sum.case)
     subgoal for k u unfolding Let_def [of "length bs - k"] by (rule ok [unfolded nb, OF _ refl])
    subgoal for e u using fail [of e] unfolding nb by simp
    done
qed

lemma hi_gallop_b:
  assumes og: "list_all V og" "int (length og) \<le> LIST_MAX"
    and r: "hi_ready P S oL pend og v (as @ [a]) (bs @ [b]) oR" and bs: "bs \<noteq> []" and R: "R b a False" and W: "W t"
    and IH: "hi_cont P S oL pend og sz" and sz: "length as + length bs < sz"
    and na: "na = Suc (length as)" and nb: "nb = Suc (length bs)" and basea: "basea = int (length (P @ oL))"
  shows "wp (sbind (slift (hi_move_b 1 v)) (\<lambda>v.
      if nb - 1 = 1 then sret (Copy, na, nb - 1, v)
      else
        sbind (slift (rd (arr (mst v)) (ssa v))) (\<lambda>a.
        sbind (sattempt (gallop_left lt a (\<lambda>i. rd_tmp (tmp (mst v)) i) (nb - 1) (nb - 1 - 1))) (\<lambda>k.
          case k of
            Inl e \<Rightarrow> sret (Failed e, na, nb - 1, v)
          | Inr k \<Rightarrow>
              let bcount = nb - 1 - k
              in
              sbind (if bcount \<noteq> 0 then slift (hi_move_b bcount v) else sret v) (\<lambda>v.
                let nb = nb - 1 - bcount
                in
                if bcount \<noteq> 0 \<and> nb = 1 then sret (Copy, na, nb, v)
                else if bcount \<noteq> 0 \<and> nb = 0 then sret (Succeed, na, nb, v)
                else
                  sbind (slift (hi_move_a 1 v)) (\<lambda>v.
                    if na - 1 = 0 then sret (Succeed, na - 1, nb, v)
                    else if c bcount then merge_hi_loop lt basea Gallop g (na - 1) nb v
                    else merge_hi_loop lt basea (Straight 0 0) (g + 1) (na - 1) nb (set_min_gallop (g + 1) v)))))))
    (\<lambda>out t. W t \<and> hi_out P S oL pend og out) (\<lambda>_ _. False) t"
proof -
  obtain v' where v': "hi_move_b 1 v = Inr v'" "hi_ready P S oL pend og v' (as @ [a]) bs (b # oR)"
    using hi_ready_b [OF r R] .
  have at: "hi_at (P @ oL) S pend v' (as @ [a]) bs (b # oR)" using v'(2) by (simp add: hi_ready_def)
  note rda = hi_at_last_a [OF at]
  have nb1: "nb - 1 = length bs" using nb by simp
  show ?thesis
    unfolding v'(1) slift_Inr sbind_sret rda
  proof (cases "length bs = 1")
    case True
    then have z: "nb - 1 = 1" using nb1 by simp
    have "hi_out P S oL pend og (Copy, na, nb - 1, v')"
      by (intro hi_outI [OF v'(2)]) (use na nb1 True in simp_all)
    then show "wp (if nb - 1 = 1 then sret (Copy, na, nb - 1, v')
      else sbind (sattempt (gallop_left lt a (\<lambda>i. rd_tmp (tmp (mst v')) i) (nb - 1) (nb - 1 - 1))) (\<lambda>k.
          case k of
            Inl e \<Rightarrow> sret (Failed e, na, nb - 1, v')
          | Inr k \<Rightarrow>
              let bcount = nb - 1 - k
              in
              sbind (if bcount \<noteq> 0 then slift (hi_move_b bcount v') else sret v') (\<lambda>v.
                let nb = nb - 1 - bcount
                in
                if bcount \<noteq> 0 \<and> nb = 1 then sret (Copy, na, nb, v)
                else if bcount \<noteq> 0 \<and> nb = 0 then sret (Succeed, na, nb, v)
                else
                  sbind (slift (hi_move_a 1 v)) (\<lambda>v.
                    if na - 1 = 0 then sret (Succeed, na - 1, nb, v)
                    else if c bcount then merge_hi_loop lt basea Gallop g (na - 1) nb v
                    else merge_hi_loop lt basea (Straight 0 0) (g + 1) (na - 1) nb (set_min_gallop (g + 1) v)))))
      (\<lambda>out t. W t \<and> hi_out P S oL pend og out) (\<lambda>_ _. False) t"
      unfolding if_P [OF z] using W by simp
  next
    case False
    then have z: "nb - 1 \<noteq> 1" and l: "1 < length bs" using nb1 bs by (cases bs; auto)+
    show "wp (if nb - 1 = 1 then sret (Copy, na, nb - 1, v')
      else sbind (sattempt (gallop_left lt a (\<lambda>i. rd_tmp (tmp (mst v')) i) (nb - 1) (nb - 1 - 1))) (\<lambda>k.
          case k of
            Inl e \<Rightarrow> sret (Failed e, na, nb - 1, v')
          | Inr k \<Rightarrow>
              let bcount = nb - 1 - k
              in
              sbind (if bcount \<noteq> 0 then slift (hi_move_b bcount v') else sret v') (\<lambda>v.
                let nb = nb - 1 - bcount
                in
                if bcount \<noteq> 0 \<and> nb = 1 then sret (Copy, na, nb, v)
                else if bcount \<noteq> 0 \<and> nb = 0 then sret (Succeed, na, nb, v)
                else
                  sbind (slift (hi_move_a 1 v)) (\<lambda>v.
                    if na - 1 = 0 then sret (Succeed, na - 1, nb, v)
                    else if c bcount then merge_hi_loop lt basea Gallop g (na - 1) nb v
                    else merge_hi_loop lt basea (Straight 0 0) (g + 1) (na - 1) nb (set_min_gallop (g + 1) v)))))
      (\<lambda>out t. W t \<and> hi_out P S oL pend og out) (\<lambda>_ _. False) t"
      unfolding if_not_P [OF z] by (rule hi_gallop_left [OF og v'(2) l W IH sz na nb1 basea])
  qed
qed

lemma wp_hi_gallop:
  assumes og: "list_all V og" "int (length og) \<le> LIST_MAX"
    and r: "hi_ready P S oL pend og v as (bs @ [b]) oR" and as: "as \<noteq> []" and bs: "bs \<noteq> []" and W: "W t"
    and IH: "hi_cont P S oL pend og (length as + Suc (length bs))" and basea: "basea = int (length (P @ oL))"
  shows "wp (merge_hi_loop lt basea Gallop g (length as) (Suc (length bs)) v)
    (\<lambda>out t. W t \<and> hi_out P S oL pend og out) (\<lambda>_ _. False) t"
proof -
  define g' where "g' = (if g > 1 then g - 1 else g)"
  define w where "w = set_min_gallop g' v"
  have r: "hi_ready P S oL pend og w as (bs @ [b]) oR" using r by (simp add: w_def hi_ready_set_min_gallop)
  note V = hi_ready_V [OF r og(1)]
  have at: "hi_at (P @ oL) S pend w as (bs @ [b]) oR" using r by (simp add: hi_ready_def)
  note rdb = hi_at_last_b [OF at]
  have guard: "\<not> \<not> (length as > 0 \<and> Suc (length bs) > 1)" using as bs by simp
  have g: "wp (gallop_right lt b (\<lambda>i. rd (arr (mst w)) (basea + i)) (length as) (length as - 1))
    (gallop_post (\<lambda>i k. R b (as ! i) (\<not> k)) (length as)) SX t"
  proof (rule wp_gallop_right)
    show "V b" using V(2) [of "length bs"] by simp
  qed (use V hi_at_read_a [OF at _ basea] as W og(2) in auto)
  have fail: "hi_out P S oL pend og (Failed e, length as, Suc (length bs), w)" if "X e" for e
    by (rule hi_outI [OF r]) (use that in simp_all)
  show ?thesis
    apply (subst merge_hi_loop.simps(2), subst if_not_P [OF guard])
    apply (unfold Let_def [of "if g > 1 then g - 1 else g"], fold g'_def, unfold Let_def [of "set_min_gallop g' v"], fold w_def)
    apply (unfold rdb slift_Inr sbind_sret)
    apply (subst wp_sbind, subst wp_sattempt, rule wp_mono [OF g])
     apply (unfold sum.case)
     subgoal premises p for k u
     proof -
       let ?as = "take k as" and ?as' = "drop k as"
       define ac where "ac = length as - k"
       have k: "k \<le> length as" "k = 0 \<or> R b (as ! (k - 1)) False" "k = length as \<or> R b (as ! k) True" and W: "W u"
         using p by (simp_all add: gallop_post_def)
       have r1: "hi_ready P S oL pend og w (?as @ ?as') (bs @ [b]) oR" using r by simp
       have l: "?as' = [] \<or> R b (hd ?as') True" using k(1,3) by (cases "k = length as") (simp_all add: hd_drop_conv_nth)
       have len: "ac = length ?as'" "length as - ac = length ?as" "length as - ac = k" using k(1) by (simp_all add: ac_def)
       obtain v' where v': "(if ac \<noteq> 0 then slift (hi_move_a ac w) else sret w) = (sret v' :: ('s, 'e merge_vars) py)"
         "hi_ready P S oL pend og v' ?as (bs @ [b]) (?as' @ oR)"
         using hi_ready_move_a [OF r1 l len(1)] by auto
       show ?thesis
         unfolding Let_def [of "length as - k"]
         unfolding ac_def [symmetric]
         unfolding v'(1) sbind_sret Let_def [of "length as - ac"]
       proof (cases "ac \<noteq> 0 \<and> length as - ac = 0", goal_cases)
         case 1
         then have "hi_out P S oL pend og (Succeed, length as - ac, Suc (length bs), v')"
           by (intro hi_outI [OF v'(2)]) (use len in simp_all)
         then show ?case unfolding if_P [OF 1] using W by simp
       next
         case more: 2
         then have pos: "0 < k" using as len(3) by (cases "ac = 0") auto
         define a2 as2 where "a2 = as ! (k - 1)" and "as2 = take (k - 1) as"
         have a2: "?as = as2 @ [a2]" using pos k(1) take_Suc_conv_app_nth [of "k - 1" as] by (simp add: a2_def as2_def)
         have Ra: "R b a2 False" using k(2) pos by (simp add: a2_def)
         have as2: "length as - ac = Suc (length as2)" using pos k(1) len(3) by (simp add: as2_def)
         have sz: "length as2 + length bs < length as + Suc (length bs)" using as2 by linarith
         show ?case
           unfolding if_not_P [OF more]
           by (rule hi_gallop_b [OF og v'(2) [unfolded a2] bs Ra W IH sz as2 refl basea])
       qed
     qed
    subgoal for e u using fail [of e] by simp
    done
qed

lemma wp_merge_hi_loop:
  assumes og: "list_all V og" "int (length og) \<le> LIST_MAX" and basea: "basea = int (length (P @ oL))"
    and "hi_ready P S oL pend og v as bs oR" and "as \<noteq> []" and "1 < length bs" and "W s"
  shows "wp (merge_hi_loop lt basea mode g (length as) (length bs) v)
    (\<lambda>out t. W t \<and> hi_out P S oL pend og out) (\<lambda>_ _. False) s"
  using assms(4-)
proof (induction "length as + length bs" arbitrary: mode g v as bs oR s rule: less_induct)
  case less
  have IH: "hi_cont P S oL pend og (length as + length bs)"
    unfolding hi_cont_def using less.hyps basea by blast
  obtain a as' where a: "as = as' @ [a]" using less.prems(2) by (cases as rule: rev_cases) auto
  obtain b bs' where b: "bs = bs' @ [b]" using less.prems(3) by (cases bs rule: rev_cases) auto
  have bs': "bs' \<noteq> []" using less.prems(3) b by auto
  have IH': "hi_cont P S oL pend og (Suc (Suc (length as' + length bs')))" using IH a b by simp
  show ?case
  proof (cases mode)
    case (Straight ac bc)
    then show ?thesis
      using wp_hi_straight [OF og less.prems(1) [unfolded a b] bs' less.prems(4) IH' basea, of ac bc g] a b by simp
  next
    case Gallop
    then show ?thesis
      using wp_hi_gallop [OF og less.prems(1) [unfolded b] less.prems(2) bs' less.prems(4) _ basea, of g] IH b by simp
  qed
qed

section \<open>The whole of merge_hi\<close>

lemma hi_at_done:
  assumes "hi_at Q S pend v as [] oR"
  shows "arr (mst v) = Q @ as @ oR @ S" and "pending (mst v) = pend"
  using assms by (auto simp: hi_at_def)

text \<open>The copy of the rest of the temporary array at \<open>Succeed:\<close> and \<open>Fail:\<close>.\<close>

lemma hi_restore_correct:
  assumes "hi_at Q S pend v as bs oR"
  shows "\<exists>v'. hi_restore (length bs) v = Inr v' \<and> arr (mst v') = Q @ as @ bs @ oR @ S \<and> pending (mst v') = pend"
proof (cases "bs = []")
  case True
  then show ?thesis using hi_at_done [of Q S pend v as oR] assms by (simp add: hi_restore_def)
next
  case False
  obtain gap t where v: "arr (mst v) = (Q @ as) @ gap @ oR @ S" "length gap = length bs"
    "tmp (mst v) = map Some bs @ t" "dest v = int (length Q + length as + length bs) - 1" "pending (mst v) = pend"
    using assms unfolding hi_at_def by auto
  have g: "get_block (tmp (mst v)) 0 (length bs) = Inr (map Some bs)"
    using get_block_append [of 0 "[]" "length bs" "map Some bs" t] v(3) by simp
  have p: "put_block (arr (mst v)) (dest v - (int (length bs) - 1)) bs = Inr ((Q @ as) @ bs @ oR @ S)"
    unfolding v(1) by (rule put_block_append) (use v(2,4) in simp_all)
  have nz: "length bs \<noteq> 0" using False by simp
  show ?thesis
    unfolding hi_restore_def if_not_P [OF nz] g rbind_simps written_Some p by (simp add: put_arr_def v)
qed

lemma merge_hi_exit_correct:
  assumes "hi_out P S oL pend og out"
  shows "\<exists>ms r. merge_hi_exit out = Inr (ms, r) \<and> merged P S pend og ms r"
proof -
  obtain x na nb v where out: "out = (x, na, nb, v)" by (cases out)
  obtain as bs oR where r: "hi_ready P S oL pend og v as bs oR" "na = length as" "nb = length bs"
    and x: "case x of Succeed \<Rightarrow> as = [] \<or> bs = [] | Copy \<Rightarrow> length bs = 1 \<and> as \<noteq> [] | Failed e \<Rightarrow> X e"
    using assms unfolding hi_out_def out by auto
  have at: "hi_at (P @ oL) S pend v as bs oR" and J: "J og oL as bs oR"
    and l: "as \<noteq> [] \<and> bs \<noteq> [] \<longrightarrow> R (hd bs) (hd as) True"
    using r(1) by (simp_all add: hi_ready_def)
  obtain v' where v': "hi_restore nb v = Inr v'"
    "arr (mst v') = P @ (oL @ as @ bs @ oR) @ S" "pending (mst v') = pend"
    using hi_restore_correct [OF at] r(3) by auto
  show ?thesis
  proof (cases x)
    case Succeed
    then have "C og (oL @ as @ bs @ oR)"
      using x J J_done_a [of og oL as oR] J_done_b [of og oL bs oR] by auto
    then have "merged P S pend og (mst v') None" by (intro mergedI [OF v'(2,3)]) simp
    then show ?thesis using v'(1) Succeed by (simp add: out merge_hi_exit_def)
  next
    case (Failed e)
    then have "merged P S pend og (mst v') (Some e)"
      using x J_mset [OF J] by (intro mergedI [OF v'(2,3)]) simp
    then show ?thesis using v'(1) Failed by (simp add: out merge_hi_exit_def)
  next
    case Copy
    then obtain b where b: "bs = [b]" and as: "as \<noteq> []" using x by (auto simp: length_Suc_conv)
    have "hi_at (P @ oL) S pend v ([] @ as) [b] oR" using at b by simp
    then obtain w where w: "hi_move_a na v = Inr w" "hi_at (P @ oL) S pend w [] ([] @ [b]) (as @ oR)"
      using hi_at_move_a r(2) by fastforce
    obtain z where z: "hi_move_b 1 w = Inr z" "hi_at (P @ oL) S pend z [] [] ([b] @ as @ oR)"
      using hi_at_move_b [OF w(2), of 1] by auto
    have "J og oL [] ([] @ [b]) (as @ oR)"
      by (rule a_last) (use J b l as in simp_all)
    then have "C og (oL @ [b] @ as @ oR)" using J_done_b by fastforce
    then have "merged P S pend og (mst z) None"
      by (intro mergedI [where zs = "oL @ [b] @ as @ oR"]) (use hi_at_done [OF z(2)] in simp_all)
    then show ?thesis using Copy w(1) z(1) b as r(2,3) by (simp add: out merge_hi_exit_def)
  qed
qed

lemma wp_merge_hi:
  assumes og: "list_all V og" "int (length og) \<le> LIST_MAX"
    and arr: "arr ms = P @ oL @ as @ bs @ oR @ S" and J: "J og oL as bs oR"
    and ne: "as \<noteq> []" "bs \<noteq> []" and le: "length bs \<le> length as"
    and first: "R (hd bs) (hd as) True" and last: "R (last bs) (last as) True"
    and a: "a = length P + length oL" and W: "W s"
  shows "wp (merge_hi lt a (length as) (a + length as) (length bs) ms)
    (\<lambda>(ms', r) t. W t \<and> merged P S (pending ms) og ms' r) (\<lambda>_ _. False) s"
proof -
  have m: "mset (oL @ as @ bs @ oR) = mset og" using J_mset [OF J] .
  then have "length (oL @ as @ bs @ oR) = length og" using mset_eq_length by blast
  then have need: "2 * int (length bs) \<le> LIST_MAX" using le og(2) by simp
  obtain ms1 where ms1: "merge_getmem ms (length bs) = Inr ms1" "arr ms1 = arr ms" "pending ms1 = pending ms"
    "length bs \<le> length (tmp ms1)" using merge_getmem_correct [OF need] by blast
  define T where "T = map Some bs @ drop (length bs) (tmp ms1)"
  have t: "rbind (get_block (arr ms1) (int (a + length as)) (length bs)) (\<lambda>xs. put_block (tmp ms1) 0 (map Some xs)) = Inr T"
    using get_block_append [of "int (a + length as)" "P @ oL @ as" "length bs" bs "oR @ S"] ms1(2,4) arr a
    by (simp add: T_def put_block_start)
  define v where "v = \<lparr>mst = ms1\<lparr>tmp := T\<rparr>, dest = int (a + length as) + int (length bs) - 1,
    ssa = int a + int (length as) - 1, ssb = int (length bs) - 1\<rparr>"
  obtain x as' where as: "as = as' @ [x]" using ne(1) by (cases as rule: rev_cases) auto
  obtain y bs' where bs: "bs = bs' @ [y]" using ne(2) by (cases bs rule: rev_cases) auto
  have "hi_at (P @ oL) S (pending ms) v as bs oR"
    unfolding hi_at_def
    by (rule exI [of _ bs], rule exI [of _ "drop (length bs) (tmp ms1)"])
      (simp add: v_def T_def ms1 arr a)
  then have "hi_ready P S oL (pending ms) og v as bs oR" using J first by (simp add: hi_ready_def)
  moreover have "R y x True" using last as bs by simp
  ultimately obtain v' where v': "hi_move_a 1 v = Inr v'" "hi_ready P S oL (pending ms) og v' as' bs (x # oR)"
    using hi_ready_a as bs by metis
  have exit: "wp (slift (merge_hi_exit out)) (\<lambda>(ms', r) t. W t \<and> merged P S (pending ms) og ms' r) (\<lambda>_ _. False) t"
    if "W t \<and> hi_out P S oL (pending ms) og out" for out t
    using merge_hi_exit_correct [of P S oL "pending ms" og out] that by auto
  have basea: "int a = int (length (P @ oL))" using a by simp
  have out: "wp (if length as - 1 = 0 then sret (Succeed, length as - 1, length bs, v')
      else if length bs = 1 then sret (Copy, length as - 1, length bs, v')
      else merge_hi_loop lt (int a) (Straight 0 0) (min_gallop ms1) (length as - 1) (length bs) v')
    (\<lambda>out t. W t \<and> hi_out P S oL (pending ms) og out) (\<lambda>_ _. False) s"
  proof -
    have na: "length as - 1 = length as'" using as by simp
    consider (e) "as' = []" | (c) "as' \<noteq> []" "length bs = 1" | (l) "as' \<noteq> []" "1 < length bs"
      using ne(2) by (cases "length bs = 1"; cases bs) auto
    then show ?thesis
    proof cases
      case e
      have "hi_out P S oL (pending ms) og (Succeed, length as - 1, length bs, v')"
        by (rule hi_outI [OF v'(2) na refl]) (simp add: e)
      then show ?thesis unfolding na using e W by simp
    next
      case c
      have "hi_out P S oL (pending ms) og (Copy, length as - 1, length bs, v')"
        by (rule hi_outI [OF v'(2) na refl]) (simp add: c)
      then show ?thesis unfolding na using c W by simp
    next
      case l
      then show ?thesis unfolding na using wp_merge_hi_loop [OF og basea v'(2) l W] by simp
    qed
  qed
  have as0: "length as > 0 \<and> length bs > 0 \<and> a + length as = a + length as" using ne by simp
  show ?thesis
    unfolding merge_hi_def wp_sbind [of "sassert _"] wp_sassert if_P [OF as0] ms1(1) sum.case t slift_Inr sbind_sret v_def [symmetric] v'(1)
      wp_sbind [of "if _ then _ else _"]
    by (rule wp_mono [OF out]) (use exit in auto)
qed

end

end
