(* ===== verification/PySortMain.thy ===== *)
theory PySortMain
  imports PySortHi
begin

text \<open>
  The stack of runs of the list sort and the sort itself: \<open>merge_at\<close>, \<open>merge_collapse\<close>,
  \<open>merge_force_collapse\<close>, \<open>merge_compute_minrun\<close>, \<open>list_sort_impl\<close>. The stack invariant makes the
  lengths of the runs grow faster than the Fibonacci numbers, so the fixed array of 85 runs never
  overflows. Then the two contracts: any comparison at all, and a strict weak order.
\<close>

section \<open>The stack of runs\<close>

text \<open>Adjacent runs from \<open>b\<close> on.\<close>

fun stack_of :: "nat \<Rightarrow> 'e list list \<Rightarrow> (nat \<times> nat) list" where
  "stack_of b [] = []"
| "stack_of b (xs # xss) = (b, length xs) # stack_of (b + length xs) xss"

lemma stack_of_append: "stack_of b (xss @ yss) = stack_of b xss @ stack_of (b + length (concat xss)) yss"
  by (induction xss arbitrary: b) (simp_all add: add.assoc)

lemma length_stack_of [simp]: "length (stack_of b xss) = length xss"
  by (induction xss arbitrary: b) simp_all

lemma stack_of_lengths: "map snd (stack_of b xss) = map length xss"
  by (induction xss arbitrary: b) simp_all

text \<open>Merging the runs \<open>i\<close> and \<open>i + 1\<close> of the stack.\<close>

definition join_runs :: "nat \<Rightarrow> (nat \<times> nat) list \<Rightarrow> (nat \<times> nat) list" where
  "join_runs i p =
     (let n = length p; q = p[i := (fst (p ! i), snd (p ! i) + snd (p ! (i + 1)))]
      in take (n - 1) (if i + 3 = n then q[i + 1 := q ! (i + 2)] else q))"

lemma join_runs_append:
  assumes "length r \<le> 1"
  shows "join_runs (length l) (l @ (a, na) # (b, nb) # r) = l @ (a, na + nb) # r"
proof (cases r)
  case (Cons x r')
  then have "r = [x]" using assms by simp
  then show ?thesis by (simp add: join_runs_def nth_append list_update_append)
qed (simp add: join_runs_def nth_append list_update_append)

lemma join_runs_length: "i + 2 = length p \<or> i + 3 = length p \<Longrightarrow> length (join_runs i p) = length p - 1"
  by (auto simp: join_runs_def Let_def)

lemma join_runs_low: "j < i \<Longrightarrow> i + 2 = length p \<or> i + 3 = length p \<Longrightarrow> join_runs i p ! j = p ! j"
  by (auto simp: join_runs_def Let_def)

text \<open>
  Each run is longer than the two after it together (\<open>runs_decreasing\<close>); while runs are being
  merged this holds below the top four (\<open>runs_below_top\<close>).
\<close>

definition runs_decreasing :: "nat list \<Rightarrow> bool" where
  "runs_decreasing ls \<longleftrightarrow>
     (\<forall>i. i + 2 < length ls \<longrightarrow> ls ! i > ls ! (i + 1) + ls ! (i + 2)) \<and>
     (\<forall>i. i + 1 < length ls \<longrightarrow> ls ! i > ls ! (i + 1))"

definition runs_below_top :: "nat list \<Rightarrow> bool" where
  "runs_below_top ls \<longleftrightarrow> (\<forall>i. i + 4 < length ls \<longrightarrow> ls ! i > ls ! (i + 1) + ls ! (i + 2))"

lemma runs_below_top_join:
  assumes "runs_below_top (map snd p)" and "i + 2 = length p \<or> i + 3 = length p"
  shows "runs_below_top (map snd (join_runs i p))"
  unfolding runs_below_top_def
proof (intro allI impI)
  fix j
  assume "j + 4 < length (map snd (join_runs i p))"
  then have j: "j + 5 < length p" using join_runs_length [OF assms(2)] by simp
  then have "j + 2 < i" using assms(2) by auto
  then have "join_runs i p ! j = p ! j" "join_runs i p ! (j + 1) = p ! (j + 1)" "join_runs i p ! (j + 2) = p ! (j + 2)"
    using join_runs_low [OF _ assms(2)] by simp_all
  moreover have "snd (p ! j) > snd (p ! (j + 1)) + snd (p ! (j + 2))"
    using assms(1) j unfolding runs_below_top_def by (auto dest!: spec [of _ j])
  ultimately show "map snd (join_runs i p) ! j > map snd (join_runs i p) ! (j + 1) + map snd (join_runs i p) ! (j + 2)"
    using j join_runs_length [OF assms(2)] by simp
qed

lemma runs_below_top_snoc: "runs_decreasing ls \<Longrightarrow> runs_below_top (ls @ [x])"
  by (auto simp: runs_decreasing_def runs_below_top_def nth_append)

text \<open>The tests of \<open>merge_collapse\<close> establish the rest.\<close>

lemma runs_decreasing_top:
  assumes below: "runs_below_top ls" and pos: "0 \<notin> set ls" and n: "length ls = n + 2"
    and top1: "n > 0 \<longrightarrow> ls ! (n - 1) > ls ! n + ls ! (n + 1)" and top2: "n > 1 \<longrightarrow> ls ! (n - 2) > ls ! (n - 1) + ls ! n"
    and top3: "ls ! n > ls ! (n + 1)"
  shows "runs_decreasing ls"
proof -
  have two: "ls ! i > ls ! (i + 1) + ls ! (i + 2)" if "i + 2 < length ls" for i
  proof -
    consider "i + 4 < length ls" | "i + 2 = n" | "i + 1 = n" using \<open>i + 2 < length ls\<close> n by linarith
    then show ?thesis
    proof cases
      case 1
      then show ?thesis using below by (simp add: runs_below_top_def)
    next
      case 2
      then have "n - 2 = i" "n - 1 = i + 1" "n > 1" by auto
      then show ?thesis using top2 2 by simp
    next
      case 3
      then have "n - 1 = i" "n > 0" by auto
      then show ?thesis using top1 3 by (simp add: add.assoc [symmetric])
    qed
  qed
  have one: "ls ! i > ls ! (i + 1)" if i: "i + 1 < length ls" for i
  proof (cases "i = n")
    case False
    then have "i + 2 < length ls" using i n by simp
    then show ?thesis using two [of i] by simp
  qed (use top3 in simp)
  show ?thesis using one two by (simp add: runs_decreasing_def)
qed

text \<open>The least lengths of the runs: 1, 2, 4, 7, 12, \<dots>\<close>

fun least_runs :: "nat \<Rightarrow> nat \<times> nat" where
  "least_runs 0 = (1, 2)"
| "least_runs (Suc k) = (case least_runs k of (x, y) \<Rightarrow> (y, x + y + 1))"

lemma runs_decreasing_least:
  assumes "runs_decreasing ls" and "0 \<notin> set ls" and "k < length ls"
  shows "fst (least_runs k) \<le> ls ! (length ls - 1 - k) \<and>
    (k + 1 < length ls \<longrightarrow> snd (least_runs k) \<le> ls ! (length ls - 2 - k))"
  using assms(3)
proof (induction k)
  case 0
  have "ls ! (length ls - 1) \<noteq> 0" using assms(2) 0 by (metis diff_less nth_mem zero_less_one)
  moreover have "ls ! (length ls - 2) > ls ! (length ls - 2 + 1)" if "1 < length ls"
    using assms(1) that unfolding runs_decreasing_def by (auto dest!: conjunct2 spec [of _ "length ls - 2"])
  moreover have "length ls - 2 + 1 = length ls - 1" if "1 < length ls" using that by simp
  ultimately show ?case by fastforce
next
  case (Suc k)
  obtain x y where xy: "least_runs k = (x, y)" by (cases "least_runs k")
  have IH: "x \<le> ls ! (length ls - 1 - k)" "y \<le> ls ! (length ls - 2 - k)" using Suc xy by simp_all
  have e: "length ls - 1 - Suc k = length ls - 2 - k" by simp
  have "x + y + 1 \<le> ls ! (length ls - 2 - Suc k)" if l: "Suc k + 1 < length ls"
  proof -
    let ?i = "length ls - 2 - Suc k"
    have i: "?i + 2 < length ls" "?i + 1 = length ls - 2 - k" "?i + 2 = length ls - 1 - k" using l by simp_all
    have "ls ! ?i > ls ! (?i + 1) + ls ! (?i + 2)" using assms(1) i(1) unfolding runs_decreasing_def by blast
    then show ?thesis using IH unfolding i(2,3) by linarith
  qed
  then show ?case using IH(2) xy e by simp
qed

lemma sum_list_rev_nth: "sum_list ls = (\<Sum>k<length ls. ls ! (length ls - 1 - k))"
  using sum_list_sum_nth [of "rev ls"] by (simp add: rev_nth atLeast0LessThan)

lemma least_runs_sum: "(\<Sum>k<n. fst (least_runs k)) + n + 2 = snd (least_runs n)"
  by (induction n) (auto simp: case_prod_beta)

lemma runs_decreasing_sum:
  assumes "runs_decreasing ls" and "0 \<notin> set ls"
  shows "snd (least_runs (length ls)) \<le> sum_list ls + length ls + 2"
proof -
  have "(\<Sum>k<length ls. fst (least_runs k)) \<le> sum_list ls"
    unfolding sum_list_rev_nth by (rule sum_mono) (use runs_decreasing_least [OF assms] in auto)
  then show ?thesis using least_runs_sum [of "length ls"] by simp
qed

lemma least_runs_numeral: "least_runs (numeral n) = (case least_runs (pred_numeral n) of (x, y) \<Rightarrow> (y, x + y + 1))"
  unfolding numeral_eq_Suc by simp

lemma least_runs_85: "snd (least_runs 85) = 1779979416004714188"
  by (simp add: least_runs_numeral)

text \<open>The array of pending runs is long enough for every list there is.\<close>

lemma runs_decreasing_drop:
  assumes "runs_decreasing ls"
  shows "runs_decreasing (drop k ls)"
proof -
  note two = assms [unfolded runs_decreasing_def, THEN conjunct1, rule_format]
  note one = assms [unfolded runs_decreasing_def, THEN conjunct2, rule_format]
  have "drop k ls ! i > drop k ls ! (i + 1) + drop k ls ! (i + 2)" if "i + 2 < length (drop k ls)" for i
  proof -
    have "k \<le> length ls" "k + i + 2 < length ls" using that unfolding length_drop by linarith+
    then show ?thesis using two [of "k + i"] by (simp only: nth_drop add.assoc)
  qed
  moreover have "drop k ls ! i > drop k ls ! (i + 1)" if "i + 1 < length (drop k ls)" for i
  proof -
    have "k \<le> length ls" "k + i + 1 < length ls" using that unfolding length_drop by linarith+
    then show ?thesis using one [of "k + i"] by (simp only: nth_drop add.assoc)
  qed
  ultimately show ?thesis unfolding runs_decreasing_def by blast
qed

lemma pending_bound:
  assumes "runs_decreasing ls" and "0 \<notin> set ls" and "int (sum_list ls) \<le> LIST_MAX"
  shows "length ls < MAX_MERGE_PENDING"
proof (rule ccontr)
  assume "\<not> length ls < MAX_MERGE_PENDING"
  then have l: "85 \<le> length ls" by (simp add: MAX_MERGE_PENDING_def)
  let ?ls = "drop (length ls - 85) ls"
  have "snd (least_runs (length ?ls)) \<le> sum_list ?ls + length ?ls + 2"
    by (rule runs_decreasing_sum) (use assms(1,2) runs_decreasing_drop in \<open>auto dest: in_set_dropD\<close>)
  moreover have "length ?ls = 85" using l by simp
  moreover have "sum_list ?ls \<le> sum_list ls"
    by (metis append_take_drop_id le_add2 sum_list_append)
  ultimately have "1779979416004714188 \<le> int (sum_list ls) + 87" using least_runs_85 by simp
  then show False using assms(3) by simp
qed

context sort_contract begin

lemma merged_error: "arr ms = P @ zs @ S \<Longrightarrow> pending ms = pend \<Longrightarrow> mset zs = mset og \<Longrightarrow> X e \<Longrightarrow> merged P S pend og ms (Some e)"
  by (rule mergedI [where zs = zs]) simp_all

lemma merged_ok: "arr ms = P @ zs @ S \<Longrightarrow> pending ms = pend \<Longrightarrow> C og zs \<Longrightarrow> merged P S pend og ms None"
  by (rule mergedI [where zs = zs]) simp_all

text \<open>The second half of \<open>merge_at\<close>: the trimming of the second run.\<close>

lemma wp_merge_at_trimmed:
  assumes og: "list_all V og" "int (length og) \<le> LIST_MAX"
    and arr: "arr ms = P @ oL @ as @ bs @ S" and J: "J og oL as bs []"
    and ne: "as \<noteq> []" "bs \<noteq> []" and first: "R (hd bs) (hd as) True"
    and a: "a = length P + length oL" and b: "b = a + length as" and W: "W s"
  shows "wp (sbind (slift (rd (arr ms) (int a + int (length as) - 1))) (\<lambda>key.
      sbind (sattempt (gallop_left lt key (\<lambda>j. rd (arr ms) (int b + j)) (length bs) (length bs - 1))) (\<lambda>nb.
        case nb of
          Inl e \<Rightarrow> sret (ms, Some e)
        | Inr nb \<Rightarrow>
            if nb = 0 then sret (ms, None)
            else if length as \<le> nb then merge_lo lt a (length as) b nb ms
            else merge_hi lt a (length as) b nb ms)))
    (\<lambda>(ms', r) t. W t \<and> merged P S (pending ms) og ms' r) (\<lambda>_ _. False) s"
proof -
  have m: "mset (oL @ as @ bs) = mset og" using J_mset [OF J] by simp
  have "set og = set (oL @ as @ bs)" "length og = length (oL @ as @ bs)"
    using m by (metis set_mset_mset, metis mset_eq_length)
  then have V: "\<And>x. x \<in> set as \<Longrightarrow> V x" "\<And>i. i < length bs \<Longrightarrow> V (bs ! i)" and len: "int (length bs) \<le> LIST_MAX"
    using og by (auto simp: list_all_iff)
  have key: "rd (arr ms) (int a + int (length as) - 1) = Inr (last as)"
  proof -
    obtain x as' where "as = as' @ [x]" using ne(1) by (cases as rule: rev_cases) auto
    then show ?thesis
      using rd_append [of "int a + int (length as) - 1" "P @ oL @ as'" x "bs @ S"] arr a by simp
  qed
  have rdb: "rd (arr ms) (int b + int i) = Inr (bs ! i)" if "i < length bs" for i
    using rd_nth [of "b + i" "arr ms"] that arr a b by (simp add: nth_append)
  have g: "wp (gallop_left lt (last as) (\<lambda>j. rd (arr ms) (int b + j)) (length bs) (length bs - 1))
    (gallop_post (\<lambda>i k. R (bs ! i) (last as) k) (length bs)) SX s"
    by (rule wp_gallop_left) (use rdb V ne len W in auto)
  have fin: "wp (if nb = 0 then sret (ms, None)
      else if length as \<le> nb then merge_lo lt a (length as) b nb ms
      else merge_hi lt a (length as) b nb ms)
    (\<lambda>(ms', r) t. W t \<and> merged P S (pending ms) og ms' r) (\<lambda>_ _. False) t"
    if "gallop_post (\<lambda>i k. R (bs ! i) (last as) k) (length bs) nb t" for nb t
  proof -
    let ?bs = "take nb bs" and ?bs' = "drop nb bs"
    have nb: "nb \<le> length bs" "nb = 0 \<or> R (bs ! (nb - 1)) (last as) True" "nb = length bs \<or> R (bs ! nb) (last as) False"
      and W: "W t" using that by (simp_all add: gallop_post_def)
    have "?bs' = [] \<or> R (hd ?bs') (last as) False" using nb(1,3) by (cases "nb = length bs") (simp_all add: hd_drop_conv_nth)
    then have J': "J og oL as ?bs ?bs'"
      using b_last [of og oL "butlast as" "last as" ?bs ?bs' "[]"] J ne(1) by simp
    show ?thesis
    proof (cases "nb = 0")
      case True
      then have "C og (oL @ as @ bs)" using J_done_a [of og oL as bs] J' by simp
      then have "merged P S (pending ms) og ms None" by (intro merged_ok [where zs = "oL @ as @ bs"]) (use arr in simp_all)
      then show ?thesis using True W by simp
    next
      case False
      have arr': "arr ms = P @ oL @ as @ ?bs @ ?bs' @ S"
        using arr append_take_drop_id [of nb bs] by (metis append_assoc)
      have ne': "?bs \<noteq> []" "length ?bs = nb" using False nb(1) ne(2) by auto
      have first': "R (hd ?bs) (hd as) True" using first ne(2) False by (cases bs; cases nb) simp_all
      have last': "R (last ?bs) (last as) True" using nb(1,2) False by (simp add: last_take_nth)
      note lo = wp_merge_lo [OF og arr' J' ne(1) ne'(1) _ first' last' a W, unfolded ne'(2) b [symmetric]]
      note hi = wp_merge_hi [OF og arr' J' ne(1) ne'(1) _ first' last' a W, unfolded ne'(2) b [symmetric]]
      show ?thesis using False lo hi by simp
    qed
  qed
  have fail: "merged P S (pending ms) og ms (Some e)" if "X e" for e
    by (rule merged_error [where zs = "oL @ as @ bs"]) (use that arr m in simp_all)
  show ?thesis
    unfolding key slift_Inr sbind_sret
    apply (subst wp_sbind, subst wp_sattempt, rule wp_mono [OF g])
     apply (unfold sum.case)
     apply (erule fin)
    using fail by simp
qed

lemma wp_merge_at:
  assumes og: "list_all V (oA @ oB)" "int (length (oA @ oB)) \<le> LIST_MAX"
    and arr: "arr ms = P @ A @ B @ S" and C: "C oA A" "C oB B" and ne: "A \<noteq> []" "B \<noteq> []"
    and i: "i + 2 = length (pending ms) \<or> i + 3 = length (pending ms)"
    and at: "pending ms ! i = (length P, length A)" "pending ms ! (i + 1) = (length P + length A, length B)"
    and W: "W s"
  shows "wp (merge_at lt i ms)
    (\<lambda>(ms', r) t. W t \<and> merged P S (join_runs i (pending ms)) (oA @ oB) ms' r) (\<lambda>_ _. False) s"
proof -
  define ms1 where "ms1 = ms\<lparr>pending := join_runs i (pending ms)\<rparr>"
  have ms1: "arr ms1 = P @ A @ B @ S" "pending ms1 = join_runs i (pending ms)" by (simp_all add: ms1_def arr)
  have J: "J (oA @ oB) [] A B []" by (rule J_start [OF C])
  have m: "mset (A @ B) = mset (oA @ oB)" using J_mset [OF J] by simp
  have "set (oA @ oB) = set (A @ B)" "length (oA @ oB) = length (A @ B)"
    using m by (metis set_mset_mset, metis mset_eq_length)
  then have V: "\<And>i. i < length A \<Longrightarrow> V (A ! i)" "V (hd B)" and len: "int (length A) \<le> LIST_MAX"
    using og ne(2) by (auto simp: list_all_iff)
  have key: "rd (arr ms1) (int (length P + length A)) = Inr (hd B)"
    using rd_append [of "int (length P + length A)" "P @ A" "hd B" "tl B @ S"] ms1(1) ne(2) by (cases B) simp_all
  have rda: "rd (arr ms1) (int (length P) + int j) = Inr (A ! j)" if "j < length A" for j
    using rd_nth [of "length P + j" "arr ms1"] that ms1(1) by (simp add: nth_append)
  have g: "wp (gallop_right lt (hd B) (\<lambda>j. rd (arr ms1) (int (length P) + j)) (length A) 0)
    (gallop_post (\<lambda>i k. R (hd B) (A ! i) (\<not> k)) (length A)) SX s"
    by (rule wp_gallop_right) (use rda V ne len W in auto)
  have fin: "wp (if length A - k = 0 then sret (ms1, None)
      else
        sbind (slift (rd (arr ms1) (int (length P + k) + int (length A - k) - 1))) (\<lambda>key.
        sbind (sattempt (gallop_left lt key (\<lambda>j. rd (arr ms1) (int (length P + length A) + j)) (length B) (length B - 1))) (\<lambda>nb.
          case nb of
            Inl e \<Rightarrow> sret (ms1, Some e)
          | Inr nb \<Rightarrow>
              if nb = 0 then sret (ms1, None)
              else if length A - k \<le> nb then merge_lo lt (length P + k) (length A - k) (length P + length A) nb ms1
              else merge_hi lt (length P + k) (length A - k) (length P + length A) nb ms1)))
    (\<lambda>(ms', r) t. W t \<and> merged P S (pending ms1) (oA @ oB) ms' r) (\<lambda>_ _. False) t"
    if "gallop_post (\<lambda>i k. R (hd B) (A ! i) (\<not> k)) (length A) k t" for k t
  proof -
    let ?A = "take k A" and ?A' = "drop k A"
    have k: "k \<le> length A" "k = 0 \<or> R (hd B) (A ! (k - 1)) False" "k = length A \<or> R (hd B) (A ! k) True"
      and W: "W t" using that by (simp_all add: gallop_post_def)
    have "?A = [] \<or> R (hd B) (last ?A) False" using k(1,2) last_take_nth [of k A] by (cases "k = 0") simp_all
    then have J': "J (oA @ oB) ?A ?A' B []"
      using a_first [of "oA @ oB" "[]" ?A ?A' "hd B" "tl B" "[]"] J ne(2) by simp
    have arr': "arr ms1 = P @ ?A @ ?A' @ B @ S" using ms1(1) append_take_drop_id [of k A] by (metis append_assoc)
    have l: "length ?A' = length A - k" by simp
    show ?thesis
    proof (cases "length A - k = 0")
      case True
      then have "C (oA @ oB) (?A @ B)" using J_done_b [of "oA @ oB" ?A B "[]"] J' by simp
      then have "merged P S (pending ms1) (oA @ oB) ms1 None"
        by (intro merged_ok [where zs = "?A @ B"]) (use arr' True in simp_all)
      then show ?thesis using True W by simp
    next
      case False
      then have ne': "?A' \<noteq> []" and first: "R (hd B) (hd ?A') True" using k(1,3) by (auto simp: hd_drop_conv_nth)
      have a: "length P + k = length P + length ?A" using k(1) by simp
      have b: "length P + length A = length P + k + length ?A'" using k(1) by simp
      show ?thesis
        unfolding if_not_P [OF False]
        unfolding l [symmetric]
        by (rule wp_merge_at_trimmed [OF og arr' J' ne' ne(2) first a b W])
    qed
  qed
  have fail: "merged P S (pending ms1) (oA @ oB) ms1 (Some e)" if "X e" for e
    by (rule merged_error [where zs = "A @ B"]) (use that ms1(1) m in simp_all)
  have as1: "length (pending ms) \<ge> 2 \<and> (int i = int (length (pending ms)) - 2 \<or> int i = int (length (pending ms)) - 3)"
    using i by auto
  have as2: "length A > 0 \<and> length B > 0 \<and> length P + length A = length P + length A" using ne by simp
  have fold: "ms\<lparr>pending := take (length (pending ms) - 1)
      (if i + 3 = length (pending ms)
       then (pending ms)[i := (length P, length A + length B), i + 1 := (pending ms)[i := (length P, length A + length B)] ! (i + 2)]
       else (pending ms)[i := (length P, length A + length B)])\<rparr> = ms1"
    by (simp add: ms1_def join_runs_def Let_def at [unfolded Suc_eq_plus1 [symmetric]])
  show ?thesis
    unfolding merge_at_def Let_def at fst_conv snd_conv wp_sbind [of "sassert _"] wp_sassert if_P [OF as1] if_P [OF as2]
      fold key slift_Inr sbind_sret ms1(2) [symmetric]
    apply (subst wp_sbind, subst wp_sattempt, rule wp_mono [OF g])
     apply (unfold sum.case)
     apply (erule fin)
    using fail by simp
qed

subsection \<open>The invariant of the stack\<close>

text \<open>
  The stack describes adjacent runs: the entries \<open>og\<close> read so far are arranged run by run, \<open>T\<close> is
  what has not been read.
\<close>

definition stack_at :: "'e list \<Rightarrow> 'e list \<Rightarrow> 'e merge_state \<Rightarrow> bool" where
  "stack_at og T ms \<longleftrightarrow>
     (\<exists>ogs xss. concat ogs = og \<and> list_all2 C ogs xss \<and> [] \<notin> set xss \<and>
        arr ms = concat xss @ T \<and> pending ms = stack_of 0 xss)"

definition stack_error :: "'e list \<Rightarrow> 'e list \<Rightarrow> 'e merge_state \<Rightarrow> pyerr \<Rightarrow> bool" where
  "stack_error og T ms e \<longleftrightarrow> X e \<and> (\<exists>zs. arr ms = zs @ T \<and> mset zs = mset og)"

lemma concat_mset: "list_all2 C ogs xss \<Longrightarrow> mset (concat xss) = mset (concat ogs)"
  by (induction rule: list_all2_induct) (simp_all add: C_mset)

lemma stack_at_lengths:
  assumes "stack_at og T ms"
  shows "sum_list (map snd (pending ms)) = length og" and "0 \<notin> set (map snd (pending ms))"
    and "arr ms = take (length og) (arr ms) @ T" and "mset (arr ms) = mset (og @ T)"
proof -
  obtain ogs xss where x: "concat ogs = og" "list_all2 C ogs xss" "[] \<notin> set xss" "arr ms = concat xss @ T"
    "pending ms = stack_of 0 xss" using assms unfolding stack_at_def by blast
  have m: "mset (concat xss) = mset og" using concat_mset [OF x(2)] x(1) by simp
  then have l: "length (concat xss) = length og" using mset_eq_length by blast
  show "sum_list (map snd (pending ms)) = length og" using l x(5) by (simp add: stack_of_lengths length_concat)
  show "0 \<notin> set (map snd (pending ms))" using x(3,5) by (auto simp: stack_of_lengths)
  show "arr ms = take (length og) (arr ms) @ T" using l x(4) by simp
  show "mset (arr ms) = mset (og @ T)" using m x(4) by simp
qed

text \<open>One merge of the stack.\<close>

lemma split_two:
  assumes "i + 2 \<le> length xs" "length xs \<le> i + 3"
  obtains l a b r where "xs = l @ a # b # r" and "length l = i" and "length r \<le> 1"
proof
  show "xs = take i xs @ xs ! i # xs ! (i + 1) # drop (i + 2) xs"
    using assms by (simp add: id_take_nth_drop [of i xs, symmetric] Cons_nth_drop_Suc)
qed (use assms in auto)

lemma wp_stack_merge:
  assumes og: "list_all V og" "int (length og) \<le> LIST_MAX" and st: "stack_at og T ms"
    and i: "i + 2 = length (pending ms) \<or> i + 3 = length (pending ms)" and W: "W s"
  shows "wp (merge_at lt i ms)
    (\<lambda>(ms', r) t. W t \<and> (case r of
       None \<Rightarrow> stack_at og T ms' \<and> pending ms' = join_runs i (pending ms)
     | Some e \<Rightarrow> stack_error og T ms' e)) (\<lambda>_ _. False) s"
proof -
  obtain ogs xss where x: "concat ogs = og" "list_all2 C ogs xss" "[] \<notin> set xss" "arr ms = concat xss @ T"
    "pending ms = stack_of 0 xss" using st unfolding stack_at_def by blast
  have lx: "length (pending ms) = length xss" by (simp add: x(5))
  obtain l A B r where xss: "xss = l @ A # B # r" and l: "length l = i" and r: "length r \<le> 1"
    using split_two [of i xss] i lx by (metis add_leD2 le_add2 le_eq_less_or_eq nat_add_left_cancel_le numeral_2_eq_2 numeral_3_eq_3 lessI less_imp_le_nat)
  obtain ol oA oB or where ogs: "ogs = ol @ oA # oB # or" and lo: "list_all2 C ol l" "list_all2 C or r"
    and C: "C oA A" "C oB B"
    using x(2) unfolding xss by (auto simp: list_all2_append2 list_all2_Cons2)
  let ?P = "concat l" and ?S = "concat r @ T"
  have ne: "A \<noteq> []" "B \<noteq> []" using x(3) xss by auto
  have pend: "pending ms = stack_of 0 l @ (length ?P, length A) # (length ?P + length A, length B) #
      stack_of (length ?P + length A + length B) r"
    by (simp add: x(5) xss stack_of_append add.assoc)
  have at: "pending ms ! i = (length ?P, length A)" "pending ms ! (i + 1) = (length ?P + length A, length B)"
    unfolding pend using l by (simp_all add: nth_append)
  have join: "join_runs i (pending ms) = stack_of 0 l @ (length ?P, length A + length B) # stack_of (length ?P + length A + length B) r"
    unfolding pend using join_runs_append [of "stack_of (length ?P + length A + length B) r" "stack_of 0 l"] r l by simp
  have arr: "arr ms = ?P @ A @ B @ ?S" using x(4) xss by simp
  have V: "list_all V (oA @ oB)" "int (length (oA @ oB)) \<le> LIST_MAX" using og x(1) ogs by auto
  have ok: "stack_at og T ms'" if m: "merged ?P ?S (join_runs i (pending ms)) (oA @ oB) ms' None" for ms'
  proof -
    obtain zs where z: "arr ms' = ?P @ zs @ ?S" "pending ms' = join_runs i (pending ms)" "C (oA @ oB) zs"
      using m unfolding merged_def by auto
    have lz: "length zs = length A + length B" using C_length [OF z(3)] C_length [OF C(1)] C_length [OF C(2)] by simp
    show ?thesis
      unfolding stack_at_def
    proof (intro exI conjI)
      show "concat (ol @ (oA @ oB) # or) = og" using x(1) ogs by simp
      show "list_all2 C (ol @ (oA @ oB) # or) (l @ zs # r)" using lo z(3) by (simp add: list_all2_appendI)
      show "[] \<notin> set (l @ zs # r)" using x(3) xss lz ne by auto
      show "arr ms' = concat (l @ zs # r) @ T" using z(1) by simp
      show "pending ms' = stack_of 0 (l @ zs # r)" using z(2) join lz by (simp add: stack_of_append add.assoc)
    qed
  qed
  have err: "stack_error og T ms' e" if m: "merged ?P ?S (join_runs i (pending ms)) (oA @ oB) ms' (Some e)" for ms' e
  proof -
    obtain zs where z: "arr ms' = ?P @ zs @ ?S" "X e" "mset zs = mset (oA @ oB)"
      using m unfolding merged_def by auto
    have "mset (?P @ zs @ concat r) = mset og"
      using z(3) concat_mset [OF lo(1)] concat_mset [OF lo(2)] unfolding x(1) [symmetric] ogs by simp
    then show ?thesis unfolding stack_error_def using z(1,2) by (intro conjI exI [of _ "?P @ zs @ concat r"]) simp_all
  qed
  show ?thesis
    by (rule wp_mono [OF wp_merge_at [OF V arr C ne i at W]]) (use ok err in \<open>auto simp: merged_def split: option.splits\<close>)
qed

subsection \<open>merge_collapse and merge_force_collapse\<close>

lemma stack_at_pos: "stack_at og T ms \<Longrightarrow> i < length (pending ms) \<Longrightarrow> 0 < run_len ms i"
  using stack_at_lengths(2) [of og T ms] by (force simp: in_set_conv_nth)

lemma wp_merge_collapse_loop:
  assumes og: "list_all V og" "int (length og) \<le> LIST_MAX"
    and "stack_at og T ms" and "runs_below_top (map snd (pending ms))" and "length (pending ms) \<le> fuel" and "W s"
  shows "wp (merge_collapse_loop fuel lt ms)
    (\<lambda>(ms', r) t. W t \<and> (case r of
       None \<Rightarrow> stack_at og T ms' \<and> runs_decreasing (map snd (pending ms'))
     | Some e \<Rightarrow> stack_error og T ms' e)) (\<lambda>_ _. False) s"
  using assms(3-)
proof (induction fuel arbitrary: ms s)
  case 0
  then show ?case by (simp add: runs_decreasing_def)
next
  case (Suc fuel)
  show ?case
  proof (cases "length (pending ms) > 1")
    case False
    then show ?thesis using Suc.prems by (simp add: runs_decreasing_def)
  next
    case True
    define n where "n = length (pending ms) - 2"
    have n: "length (pending ms) = n + 2" using True by (simp add: n_def)
    have cont: "wp (sbind (merge_at lt i ms) (\<lambda>(ms, r). case r of Some e \<Rightarrow> sret (ms, Some e) | None \<Rightarrow> merge_collapse_loop fuel lt ms))
      (\<lambda>(ms', r) t. W t \<and> (case r of
         None \<Rightarrow> stack_at og T ms' \<and> runs_decreasing (map snd (pending ms'))
       | Some e \<Rightarrow> stack_error og T ms' e)) (\<lambda>_ _. False) s"
      if i: "i + 2 = length (pending ms) \<or> i + 3 = length (pending ms)" for i
    proof -
      have IH: "wp (merge_collapse_loop fuel lt ms')
        (\<lambda>(ms', r) t. W t \<and> (case r of
           None \<Rightarrow> stack_at og T ms' \<and> runs_decreasing (map snd (pending ms'))
         | Some e \<Rightarrow> stack_error og T ms' e)) (\<lambda>_ _. False) t"
        if "W t" "stack_at og T ms'" "pending ms' = join_runs i (pending ms)" for ms' t
        by (rule Suc.IH)
          (use that Suc.prems(2,3) runs_below_top_join [OF Suc.prems(2) i] join_runs_length [OF i] in simp_all)
      show ?thesis
        unfolding wp_sbind
        by (rule wp_mono [OF wp_stack_merge [OF og Suc.prems(1) i Suc.prems(4)]])
          (use IH in \<open>auto split: option.splits\<close>)
    qed
    have pos: "run_len ms i > 0" if "i < n + 2" for i
      using stack_at_pos [OF Suc.prems(1)] that n by simp
    let ?c = "(n > 0 \<and> run_len ms (n - 1) \<le> run_len ms n + run_len ms (n + 1)) \<or>
       (n > 1 \<and> run_len ms (n - 2) \<le> run_len ms (n - 1) + run_len ms n)"
    show ?thesis
      unfolding merge_collapse_loop.simps if_P [OF True] n_def [symmetric] Let_def
    proof (cases ?c, goal_cases)
      case c: 1
      have "n > 0" using c by auto
      then show ?case unfolding if_P [OF c] using cont [of "n - 1"] cont [of n] n by (simp del: wp_sbind)
    next
      case c: 2
      show ?case
      proof (cases "run_len ms n \<le> run_len ms (n + 1)")
        case d: True
        then show ?thesis unfolding if_not_P [OF c] if_P [OF d] using cont [of n] n by (simp del: wp_sbind)
      next
        case d: False
        have "runs_decreasing (map snd (pending ms))"
          by (rule runs_decreasing_top [where n = n])
            (use Suc.prems(2) stack_at_lengths(2) [OF Suc.prems(1)] n c d in auto)
        then show ?thesis unfolding if_not_P [OF c] if_not_P [OF d] using Suc.prems(1,4) by simp
      qed
    qed
  qed
qed

lemma wp_merge_force_collapse_loop:
  assumes og: "list_all V og" "int (length og) \<le> LIST_MAX"
    and "stack_at og T ms" and "length (pending ms) \<le> fuel" and "W s"
  shows "wp (merge_force_collapse_loop fuel lt ms)
    (\<lambda>(ms', r) t. W t \<and> (case r of
       None \<Rightarrow> stack_at og T ms' \<and> length (pending ms') \<le> 1
     | Some e \<Rightarrow> stack_error og T ms' e)) (\<lambda>_ _. False) s"
  using assms(3-)
proof (induction fuel arbitrary: ms s)
  case 0
  then show ?case by simp
next
  case (Suc fuel)
  show ?case
  proof (cases "length (pending ms) > 1")
    case False
    then show ?thesis using Suc.prems by simp
  next
    case True
    define n where "n = length (pending ms) - 2"
    define i where "i = (if n > 0 \<and> run_len ms (n - 1) < run_len ms (n + 1) then n - 1 else n)"
    have i: "i + 2 = length (pending ms) \<or> i + 3 = length (pending ms)" using True by (auto simp: i_def n_def)
    have IH: "wp (merge_force_collapse_loop fuel lt ms')
      (\<lambda>(ms', r) t. W t \<and> (case r of
         None \<Rightarrow> stack_at og T ms' \<and> length (pending ms') \<le> 1
       | Some e \<Rightarrow> stack_error og T ms' e)) (\<lambda>_ _. False) t"
      if "W t" "stack_at og T ms'" "pending ms' = join_runs i (pending ms)" for ms' t
      by (rule Suc.IH) (use that Suc.prems(2) join_runs_length [OF i] in simp_all)
    show ?thesis
      unfolding merge_force_collapse_loop.simps if_P [OF True] n_def [symmetric] Let_def
      unfolding i_def [symmetric] wp_sbind
      by (rule wp_mono [OF wp_stack_merge [OF og Suc.prems(1) i Suc.prems(3)]])
        (use IH in \<open>auto split: option.splits\<close>)
  qed
qed

end

section \<open>The least length of a run\<close>

lemma compute_minrun_loop_bounds:
  "r \<le> 1 \<Longrightarrow> 32 \<le> n \<Longrightarrow> 32 \<le> compute_minrun_loop n r \<and> compute_minrun_loop n r \<le> 64"
proof (induction n r rule: compute_minrun_loop.induct)
  case (1 n r)
  have "r OR (n AND 1) \<le> 1" using 1(2) by (cases "r = 0"; cases "even n") (auto simp: and_one_eq mod2_eq_if or_nat_def le_Suc_eq)
  then show ?case using 1 by (subst (1 2) compute_minrun_loop.simps) auto
qed

text \<open>The result is the quotient by a power of two, rounded up.\<close>

lemma compute_minrun_loop_ceiling:
  "r \<le> 1 \<Longrightarrow> \<exists>k. compute_minrun_loop n r = n div 2 ^ k + (if r = 1 \<or> \<not> 2 ^ k dvd n then 1 else 0)"
proof (induction n r rule: compute_minrun_loop.induct)
  case (1 n r)
  show ?case
  proof (cases "n \<ge> 64")
    case False
    then show ?thesis using 1(2) by (intro exI [of _ 0]) (auto simp: compute_minrun_loop.simps)
  next
    case True
    have r: "r OR (n AND 1) = (if r = 1 \<or> odd n then 1 else 0)"
      using 1(2) by (auto simp: and_one_eq mod2_eq_if or_nat_def le_Suc_eq)
    then have le: "r OR (n AND 1) \<le> 1" by simp
    obtain k where k: "compute_minrun_loop (n div 2) (r OR (n AND 1)) =
        n div 2 div 2 ^ k + (if r OR (n AND 1) = 1 \<or> \<not> 2 ^ k dvd n div 2 then 1 else 0)"
      using 1(1) [OF True le] by blast
    have "2 ^ Suc k dvd n \<longleftrightarrow> even n \<and> 2 ^ k dvd n div 2"
      by (auto elim!: evenE oddE dvdE)
    then show ?thesis
      using k r True by (intro exI [of _ "Suc k"]) (auto simp: compute_minrun_loop.simps [of n r] div_mult2_eq)
  qed
qed

lemma merge_compute_minrun_bounds:
  shows "n < 64 \<Longrightarrow> merge_compute_minrun n = n"
    and "64 \<le> n \<Longrightarrow> 32 \<le> merge_compute_minrun n \<and> merge_compute_minrun n \<le> 64"
  using compute_minrun_loop_bounds [of 0 n] by (simp_all add: merge_compute_minrun_def compute_minrun_loop.simps)

section \<open>The sort\<close>

context sort_contract begin

lemma sort_step_arr:
  assumes "stack_at og T ms" and "arr ms = P @ T" and "length P = length og" and "C (take n T) zs"
    and "0 < n" and "n \<le> length T"
  shows "stack_at (og @ take n T) (drop n T)
    (ms\<lparr>arr := P @ zs @ drop n T, pending := pending ms @ [(length og, n)]\<rparr>)"
proof -
  obtain ogs xss where x: "concat ogs = og" "list_all2 C ogs xss" "[] \<notin> set xss" "arr ms = concat xss @ T"
    "pending ms = stack_of 0 xss" using assms(1) unfolding stack_at_def by blast
  have "length (concat xss) = length og" using concat_mset [OF x(2)] x(1) mset_eq_length by blast
  then have P: "P = concat xss" using x(4) assms(2,3) by simp
  have zs: "length zs = n" using C_length [OF assms(4)] assms(6) by simp
  show ?thesis
    unfolding stack_at_def
  proof (intro exI conjI)
    show "concat (ogs @ [take n T]) = og @ take n T" using x(1) by simp
    show "list_all2 C (ogs @ [take n T]) (xss @ [zs])" using x(2) assms(4) by (simp add: list_all2_appendI)
    show "[] \<notin> set (xss @ [zs])" using x(3) zs assms(5) by auto
    show "arr (ms\<lparr>arr := P @ zs @ drop n T, pending := pending ms @ [(length og, n)]\<rparr>) = concat (xss @ [zs]) @ drop n T"
      using P by simp
    show "pending (ms\<lparr>arr := P @ zs @ drop n T, pending := pending ms @ [(length og, n)]\<rparr>) = stack_of 0 (xss @ [zs])"
      using x(5) zs P assms(3) by (simp add: stack_of_append)
  qed
qed

text \<open>A round of the march, after the run was found: reversing and extending it.\<close>

lemma extend_run:
  assumes V: "list_all V (P @ T)" and run: "run_answers d (take n T)" and n: "0 < n" "n \<le> length T"
    and force: "force = (if length T \<le> minrun then length T else minrun)" and W: "W s"
  shows "\<exists>a. (if d then reverse_slice (length P) (length P + n) (P @ T) else Inr (P @ T)) = Inr a \<and>
    wp (if n < minrun then binarysort lt (length P) (length P + force) (length P + n) a else sret (a, None))
      (\<lambda>(a, r) t. W t \<and> (case r of
         None \<Rightarrow> \<exists>zs. a = P @ zs @ drop (if n < minrun then force else n) T \<and> C (take (if n < minrun then force else n) T) zs
       | Some e \<Rightarrow> X e \<and> (\<exists>zs. a = P @ zs \<and> mset zs = mset T))) (\<lambda>_ _. False) s"
proof -
  let ?xs = "take n T"
  let ?r = "if d then rev ?xs else ?xs"
  have C: "C ?xs ?r" by (rule C_run [OF run]) (use n in auto)
  have rv: "reverse_slice (length P) (length P + n) (P @ T) = Inr (P @ rev ?xs @ drop n T)"
    using reverse_slice_correct [of "length P" "length P + n" "P @ T"] n by simp
  have a: "(if d then reverse_slice (length P) (length P + n) (P @ T) else Inr (P @ T)) = Inr (P @ ?r @ drop n T)"
    using rv by simp
  have "wp (if n < minrun then binarysort lt (length P) (length P + force) (length P + n) (P @ ?r @ drop n T)
      else sret (P @ ?r @ drop n T, None))
      (\<lambda>(a, r) t. W t \<and> (case r of
         None \<Rightarrow> \<exists>zs. a = P @ zs @ drop (if n < minrun then force else n) T \<and> C (take (if n < minrun then force else n) T) zs
       | Some e \<Rightarrow> X e \<and> (\<exists>zs. a = P @ zs \<and> mset zs = mset T))) (\<lambda>_ _. False) s"
  proof (cases "n < minrun")
    case False
    then show ?thesis using C W by auto
  next
    case True
    have f: "n \<le> force" "force \<le> length T" using n True force by (auto split: if_splits)
    define ys where "ys = take (force - n) (drop n T)"
    have ys: "drop n T = ys @ drop force T" "length ys = force - n" "?xs @ ys = take force T"
      using f append_take_drop_id [of "force - n" "drop n T"] take_add [of n "force - n" T] by (simp_all add: ys_def)
    have len: "length ?r = n" using n by simp
    have ne: "?r \<noteq> []" using n by auto
    have V': "list_all V (P @ ?r @ drop n T)"
      using V by (auto simp: list_all_iff dest: in_set_takeD in_set_dropD)
    have as: "length P \<le> length P + n \<and> length P + n \<le> length P + force" using f by simp
    have ns: "length P \<noteq> length P + n" using n by simp
    have e: "length P + force - (length P + n) = length ys" using ys(2) by simp
    have "wp (binarysort_loop lt (length P) (length P + n) (length ys) (P @ ?r @ ys @ drop force T))
      (\<lambda>(a', r) t. W t \<and> (\<exists>zs. a' = P @ zs @ drop force T \<and>
         (case r of None \<Rightarrow> C (?xs @ ys) zs | Some e \<Rightarrow> X e \<and> mset zs = mset (?xs @ ys)))) (\<lambda>_ _. False) s"
      by (rule wp_binarysort_loop [where og = ?xs, OF refl refl _ ne _ W C]) (use len V' ys(1) in simp_all)
    then have loop: "wp (binarysort_loop lt (length P) (length P + n) (length ys) (P @ ?r @ ys @ drop force T))
      (\<lambda>(a, r) t. W t \<and> (case r of
         None \<Rightarrow> \<exists>zs. a = P @ zs @ drop force T \<and> C (take force T) zs
       | Some e \<Rightarrow> X e \<and> (\<exists>zs. a = P @ zs \<and> mset zs = mset T))) (\<lambda>_ _. False) s"
    proof (rule wp_mono)
      fix x t
      assume x: "(case x of (a', r) \<Rightarrow> \<lambda>t. W t \<and> (\<exists>zs. a' = P @ zs @ drop force T \<and>
         (case r of None \<Rightarrow> C (?xs @ ys) zs | Some e \<Rightarrow> X e \<and> mset zs = mset (?xs @ ys)))) t"
      obtain a' r where ar: "x = (a', r)" by (cases x)
      obtain zs where zs: "W t" "a' = P @ zs @ drop force T"
        "case r of None \<Rightarrow> C (take force T) zs | Some e \<Rightarrow> X e \<and> mset zs = mset (take force T)"
        using x unfolding ar ys(3) by auto
      have "mset (zs @ drop force T) = mset T" if "mset zs = mset (take force T)"
        using that by (metis append_take_drop_id mset_append)
      then show "(case x of (a, r) \<Rightarrow> \<lambda>t. W t \<and> (case r of
         None \<Rightarrow> \<exists>zs. a = P @ zs @ drop force T \<and> C (take force T) zs
       | Some e \<Rightarrow> X e \<and> (\<exists>zs. a = P @ zs \<and> mset zs = mset T))) t"
        using zs unfolding ar by (cases r) auto
    qed simp
    show ?thesis
      unfolding if_P [OF True] binarysort_def wp_sbind wp_sassert if_P [OF as] if_not_P [OF ns] Let_def e ys(1)
      by (rule loop)
  qed
  then show ?thesis using a by (intro exI conjI)
qed

text \<open>The state of the march after \<open>og\<close> has been read.\<close>

definition march :: "'e list \<Rightarrow> 'e list \<Rightarrow> 'e merge_state \<Rightarrow> bool" where
  "march og T ms \<longleftrightarrow> stack_at og T ms \<and> runs_decreasing (map snd (pending ms))"

lemma wp_push_run:
  assumes all: "list_all V (og @ T)" "int (length (og @ T)) \<le> LIST_MAX"
    and st: "march og T ms" and arr: "arr ms = P @ T" and P: "length P = length og"
    and C: "C (take m T) zs" and m: "0 < m" "m \<le> length T"
    and rest: "\<And>ms' t. W t \<Longrightarrow> march (og @ take m T) (drop m T) ms' \<Longrightarrow>
      wp (f ms') (\<lambda>(ms', r) t. W t \<and> (case r of
         None \<Rightarrow> march (og @ T) [] ms' | Some e \<Rightarrow> stack_error (og @ T) [] ms' e)) (\<lambda>_ _. False) t"
    and W: "W s"
  shows "wp (sbind (sassert (length (pending ms) < MAX_MERGE_PENDING)) (\<lambda>_.
      sbind (merge_collapse lt (ms\<lparr>arr := P @ zs @ drop m T, pending := pending ms @ [(length P, m)]\<rparr>)) (\<lambda>(ms, r).
        case r of Some e \<Rightarrow> sret (ms, Some e) | None \<Rightarrow> f ms)))
    (\<lambda>(ms', r) t. W t \<and> (case r of
       None \<Rightarrow> march (og @ T) [] ms' | Some e \<Rightarrow> stack_error (og @ T) [] ms' e)) (\<lambda>_ _. False) s"
proof -
  let ?ms = "ms\<lparr>arr := P @ zs @ drop m T, pending := pending ms @ [(length P, m)]\<rparr>"
  let ?og = "og @ take m T"
  have st': "stack_at ?og (drop m T) ?ms"
    using sort_step_arr [OF _ arr P C m] st P by (simp add: march_def)
  have V: "list_all V ?og" "int (length ?og) \<le> LIST_MAX"
    using all by (auto simp: list_all_iff dest: in_set_takeD)
  have "length (map snd (pending ms)) < MAX_MERGE_PENDING"
    by (rule pending_bound)
      (use st stack_at_lengths(1,2) [of og T ms] all(2) in \<open>simp_all add: march_def\<close>)
  then have bound: "length (pending ms) < MAX_MERGE_PENDING" by simp
  have below: "runs_below_top (map snd (pending ?ms))"
    using runs_below_top_snoc [of "map snd (pending ms)" m] st by (simp add: march_def)
  have err: "stack_error (og @ T) [] ms' e" if "stack_error ?og (drop m T) ms' e" for ms' e
  proof -
    obtain z where z: "X e" "arr ms' = z @ drop m T" "mset z = mset ?og"
      using \<open>stack_error ?og (drop m T) ms' e\<close> unfolding stack_error_def by blast
    have "mset (z @ drop m T) = mset (og @ T)" using z(3) by (metis append_assoc append_take_drop_id mset_append)
    then show ?thesis using z(1,2) unfolding stack_error_def by auto
  qed
  show ?thesis
    unfolding wp_sbind wp_sassert if_P [OF bound] merge_collapse_def
    by (rule wp_mono [OF wp_merge_collapse_loop [OF V st' below order_refl W]])
      (use rest err in \<open>auto simp: march_def split: option.splits\<close>)
qed

lemma wp_sort_loop:
  assumes "list_all V (og @ T)" and "int (length (og @ T)) \<le> LIST_MAX" and "march og T ms" and "length T \<le> fuel" and "W s"
  shows "wp (sort_loop fuel lt minrun (length og) (length T) ms)
    (\<lambda>(ms', r) t. W t \<and> (case r of
       None \<Rightarrow> march (og @ T) [] ms' | Some e \<Rightarrow> stack_error (og @ T) [] ms' e)) (\<lambda>_ _. False) s"
  using assms
proof (induction fuel arbitrary: og T ms s)
  case 0
  then show ?case by simp
next
  case (Suc fuel)
  let ?Q = "\<lambda>(ms', r) t. W t \<and> (case r of
       None \<Rightarrow> march (og @ T) [] ms' | Some e \<Rightarrow> stack_error (og @ T) [] ms' e)"
  show ?case
  proof (cases "length T = 0")
    case True
    then show ?thesis using Suc.prems by simp
  next
    case False
    define P where "P = take (length og) (arr ms)"
    have st: "stack_at og T ms" using Suc.prems(3) by (simp add: march_def)
    have arr: "arr ms = P @ T" using stack_at_lengths(3) [OF st] by (simp add: P_def)
    have mP: "mset P = mset og" using stack_at_lengths(4) [OF st] arr by simp
    then have P: "length P = length og" using mset_eq_length by blast
    have V: "list_all V (P @ T)" using Suc.prems(1) mP by (metis list_all_iff mset_append set_mset_mset)
    have err: "stack_error (og @ T) [] (ms\<lparr>arr := P @ zs\<rparr>) e" if "X e" "mset zs = mset T" for zs e
      using that mP by (simp add: stack_error_def)
    have lo: "length og < length og + length T" "length og + length T \<le> length (arr ms)" using False arr P by simp_all
    show ?thesis
      unfolding sort_loop.simps if_not_P [OF False] wp_sbind wp_sattempt
    proof (rule wp_mono [OF wp_count_run [OF lo V [folded arr] Suc.prems(5)]], goal_cases)
      case (1 x t)
      obtain n d where x: "x = (n, d)" by (cases x)
      define force where "force = (if length T \<le> minrun then length T else minrun)"
      have n: "0 < n" "n \<le> length T" "run_answers d (take n T)" and W: "W t"
        using 1 P arr unfolding x by simp_all
      obtain a where a: "(if d then reverse_slice (length P) (length P + n) (P @ T) else Inr (P @ T)) = Inr a"
        and ext: "wp (if n < minrun then binarysort lt (length P) (length P + force) (length P + n) a else sret (a, None))
          (\<lambda>(a, r) t. W t \<and> (case r of
             None \<Rightarrow> \<exists>zs. a = P @ zs @ drop (if n < minrun then force else n) T \<and> C (take (if n < minrun then force else n) T) zs
           | Some e \<Rightarrow> X e \<and> (\<exists>zs. a = P @ zs \<and> mset zs = mset T))) (\<lambda>_ _. False) t"
        using extend_run [OF V n(3,1,2) force_def W] by blast
      define m where "m = (if n < minrun then force else n)"
      have m: "0 < m" "m \<le> length T" using n False by (auto simp: m_def force_def split: if_splits)
      have rest: "wp (sort_loop fuel lt minrun (length P + m) (length T - m) ms') ?Q (\<lambda>_ _. False) u"
        if "W u" "march (og @ take m T) (drop m T) ms'" for ms' u
      proof -
        have e: "(og @ take m T) @ drop m T = og @ T" by simp
        have "length (drop m T) \<le> fuel" using m Suc.prems(4) by simp
        from Suc.IH [of "og @ take m T" "drop m T", unfolded e, OF Suc.prems(1,2) that(2) this that(1)]
        show ?thesis using m P by simp
      qed
      note push = wp_push_run [OF Suc.prems(1,2,3) arr P _ m rest]
      show ?case
        unfolding x sum.case prod.case arr P [symmetric] a slift_Inr sbind_sret
        unfolding force_def [symmetric] Let_def
        unfolding m_def [symmetric] wp_sbind [of "if _ then _ else _"]
      proof (rule wp_mono [OF ext [folded m_def]], goal_cases)
        case (1 y u)
        obtain a r where y: "y = (a, r)" by (cases y)
        show ?case
        proof (cases r)
          case None
          then obtain zs where zs: "W u" "a = P @ zs @ drop m T" "C (take m T) zs" using 1 y by auto
          show ?thesis using push [OF zs(3) _ _ zs(1)] unfolding y None zs(2) prod.case option.case by simp
        next
          case (Some e)
          then show ?thesis using 1 y err by auto
        qed
      qed simp
    next
      case (2 e t)
      then show ?case using arr mP by (simp add: stack_error_def)
    qed
  qed
qed

text \<open>What the sort of an array of entries promises, \<open>reverse\<close> included.\<close>

definition sorted_entries :: "bool \<Rightarrow> 'e list \<Rightarrow> 'e list \<Rightarrow> pyerr option \<Rightarrow> bool" where
  "sorted_entries reverse xs ys r \<longleftrightarrow>
     mset ys = mset xs \<and>
     (case r of
        Some e \<Rightarrow> X e
      | None \<Rightarrow> if length xs < 2 then ys = xs else if reverse then C (rev xs) (rev ys) else C xs ys)"

lemma reverse_whole: "2 \<le> length xs \<Longrightarrow> reverse_slice 0 (length xs) xs = Inr (rev xs)"
  using reverse_slice_correct [of 0 "length xs" xs] by (cases xs) simp_all

lemma wp_sort_entries:
  assumes V: "list_all V xs" and n: "int (length xs) \<le> LIST_MAX" and W: "W s"
  shows "wp (sort_entries lt keyf reverse xs) (\<lambda>(ys, r) t. W t \<and> sorted_entries reverse xs ys r) (\<lambda>_ _. False) s"
proof (cases "length xs < 2")
  case True
  then show ?thesis using W by (simp add: sort_entries_def Let_def sorted_entries_def)
next
  case False
  then have two: "2 \<le> length xs" by simp
  define zs where "zs = (if reverse then rev xs else xs)"
  have zs: "list_all V zs" "length zs = length xs" "mset zs = mset xs" using V by (simp_all add: zs_def)
  define ms where "ms = (merge_init xs keyf)\<lparr>arr := zs\<rparr>"
  have rv: "(if reverse then reverse_slice 0 (length xs) xs else Inr xs) = Inr zs"
    using reverse_whole [OF two] by (simp add: zs_def)
  have "stack_at [] zs ms"
    unfolding stack_at_def by (rule exI [of _ "[]"], rule exI [of _ "[]"]) (simp add: ms_def merge_init_def Let_def)
  then have st: "march [] zs ms" by (simp add: march_def runs_decreasing_def ms_def merge_init_def Let_def)
  have loop: "wp (sort_loop (length xs) lt (merge_compute_minrun (length xs)) 0 (length xs) ms)
    (\<lambda>(ms', r) t. W t \<and> (case r of
       None \<Rightarrow> march zs [] ms' | Some e \<Rightarrow> stack_error zs [] ms' e)) (\<lambda>_ _. False) s"
    using wp_sort_loop [of "[]" zs ms "length xs", unfolded append_Nil list.size(3) zs(2)] zs st n W by simp
  have fin: "wp (sbind (slift (if reverse then reverse_slice 0 (length xs) (arr ms') else Inr (arr ms'))) (\<lambda>a. sret (a, r)))
      (\<lambda>(ys, r) t. W t \<and> sorted_entries reverse xs ys r) (\<lambda>_ _. False) t"
    if "mset (arr ms') = mset zs" and r: "case r of Some e \<Rightarrow> X e | None \<Rightarrow> C zs (arr ms')" and W: "W t" for ms' r t
  proof -
    have "length (arr ms') = length xs" using that(1) zs(2) mset_eq_length by metis
    then have "(if reverse then reverse_slice 0 (length xs) (arr ms') else Inr (arr ms')) =
        Inr (if reverse then rev (arr ms') else arr ms')"
      using reverse_whole [of "arr ms'"] two by simp
    then show ?thesis
      using that two zs(3) by (cases r; cases reverse) (simp_all add: sorted_entries_def zs_def)
  qed
  have err: "wp (sbind (slift (if reverse then reverse_slice 0 (length xs) (arr ms') else Inr (arr ms'))) (\<lambda>a. sret (a, Some e)))
      (\<lambda>(ys, r) t. W t \<and> sorted_entries reverse xs ys r) (\<lambda>_ _. False) t"
    if "stack_error zs [] ms' e" "W t" for ms' e t
    by (rule fin) (use that in \<open>auto simp: stack_error_def\<close>)
  have single: "pending ms' = [(0, length xs)] \<and> C zs (arr ms')" if st: "stack_at zs [] ms'" and l: "length (pending ms') \<le> 1" for ms'
  proof -
    obtain ogs xss where x: "concat ogs = zs" "list_all2 C ogs xss" "[] \<notin> set xss" "arr ms' = concat xss @ []"
      "pending ms' = stack_of 0 xss" using st unfolding stack_at_def by blast
    have "ogs \<noteq> []" using x(1) zs(2) two by auto
    then have "length xss = 1" using list_all2_lengthD [OF x(2)] x(5) l by (cases xss) auto
    then obtain ys where ys: "xss = [ys]" by (auto simp: length_Suc_conv)
    then obtain og where og: "ogs = [og]" "C og ys" using x(2) by (auto simp: list_all2_Cons2)
    show ?thesis using x ys og C_length [OF og(2)] zs(2) by simp
  qed
  have collapse: "wp (sbind (merge_force_collapse lt ms') (\<lambda>(ms, r).
        case r of
          Some e \<Rightarrow> sret (ms, Some e)
        | None \<Rightarrow> sbind (sassert (length (pending ms) = 1 \<and> pending ms ! 0 = (0, length xs))) (\<lambda>_. sret (ms, None))))
      (\<lambda>(ms', r) t. W t \<and> (case r of None \<Rightarrow> C zs (arr ms') | Some e \<Rightarrow> stack_error zs [] ms' e)) (\<lambda>_ _. False) t"
    if "W t" "march zs [] ms'" for ms' t
    unfolding wp_sbind merge_force_collapse_def
    by (rule wp_mono [OF wp_merge_force_collapse_loop [of zs "[]" ms']])
      (use zs n that in \<open>auto simp: march_def split: option.splits dest!: single\<close>)
  show ?thesis
    unfolding sort_entries_def Let_def if_not_P [OF False] rv slift_Inr sbind_sret
    unfolding ms_def [symmetric] wp_sbind [of "sort_loop _ _ _ _ _ _"]
  proof (rule wp_mono [OF loop], goal_cases)
    case (1 x t)
    obtain ms' r where x: "x = (ms', r)" by (cases x)
    show ?case
    proof (cases r)
      case (Some e)
      then show ?thesis using 1 err [of ms' e t] unfolding x by (simp del: wp_sbind)
    next
      case None
      have m: "W t" "march zs [] ms'" using 1 unfolding x None by simp_all
      show ?thesis
        unfolding x None prod.case option.case wp_sbind [of "sbind _ _"]
      proof (rule wp_mono [OF collapse [OF m]], goal_cases)
        case (1 y u)
        obtain ms2 q where y: "y = (ms2, q)" by (cases y)
        show ?case
          unfolding y prod.case
          by (rule fin) (use 1 in \<open>auto simp: y stack_error_def C_mset split: option.splits\<close>)
      qed simp
    qed
  qed simp
qed

end

end
