(* ===== verification/PySortSpec.thy ===== *)
theory PySortSpec
  imports PySortMain
begin

text \<open>
  What \<open>list.sort\<close> promises. With any comparison and any key function, raising and changing the
  list at will, the items are kept, each exactly once, and no access leaves the arrays. With a
  strict weak order the result is the stable sort, in either direction, by a key or not.
\<close>

declare split_paired_All [simp del] split_paired_Ex [simp del]

section \<open>Any comparison\<close>

definition same_items :: "'e list \<Rightarrow> 'e list \<Rightarrow> bool" where
  "same_items xs ys \<longleftrightarrow> mset ys = mset xs"

definition same_items_merge :: "'e list \<Rightarrow> 'e list \<Rightarrow> 'e list \<Rightarrow> 'e list \<Rightarrow> 'e list \<Rightarrow> bool" where
  "same_items_merge xs oL as bs oR \<longleftrightarrow> mset (oL @ as @ bs @ oR) = mset xs"

lemma any_contract:
  assumes "\<And>x y s. V x \<Longrightarrow> V y \<Longrightarrow> W s \<Longrightarrow> wp (lt x y) (\<lambda>_. W) (\<lambda>e t. W t \<and> X e) s"
  shows "sort_contract lt V W X (\<lambda>_ _ _. True) same_items same_items_merge"
  by unfold_locales (use assms in \<open>simp_all add: same_items_def same_items_merge_def ac_simps\<close>)

section \<open>A strict weak order\<close>

text \<open>The stable merge of two runs, the reference for \<open>merge_lo\<close> and \<open>merge_hi\<close>.\<close>

fun stable_merge :: "('e \<Rightarrow> 'e \<Rightarrow> bool) \<Rightarrow> 'e list \<Rightarrow> 'e list \<Rightarrow> 'e list" where
  "stable_merge ls [] bs = bs"
| "stable_merge ls as [] = as"
| "stable_merge ls (a # as) (b # bs) =
     (if ls b a then b # stable_merge ls (a # as) bs else a # stable_merge ls as (b # bs))"

definition ascending :: "('e \<Rightarrow> 'e \<Rightarrow> bool) \<Rightarrow> 'e list \<Rightarrow> bool" where
  "ascending ls xs \<longleftrightarrow> sorted_wrt (\<lambda>x y. \<not> ls y x) xs"

definition tied :: "('e \<Rightarrow> 'e \<Rightarrow> bool) \<Rightarrow> 'e \<Rightarrow> 'e \<Rightarrow> bool" where
  "tied ls x y \<longleftrightarrow> \<not> ls x y \<and> \<not> ls y x"

definition stable_sort_of :: "('e \<Rightarrow> 'e \<Rightarrow> bool) \<Rightarrow> 'e list \<Rightarrow> 'e list \<Rightarrow> bool" where
  "stable_sort_of ls xs ys \<longleftrightarrow>
     mset ys = mset xs \<and> ascending ls ys \<and> (\<forall>x. filter (tied ls x) ys = filter (tied ls x) xs)"

definition stable_merge_of :: "('e \<Rightarrow> 'e \<Rightarrow> bool) \<Rightarrow> 'e list \<Rightarrow> 'e list \<Rightarrow> 'e list \<Rightarrow> 'e list \<Rightarrow> 'e list \<Rightarrow> bool" where
  "stable_merge_of ls xs oL as bs oR \<longleftrightarrow>
     ascending ls as \<and> ascending ls bs \<and> stable_sort_of ls xs (oL @ stable_merge ls as bs @ oR)"

lemma merge_induct [case_names a b ab]:
  fixes ls :: "'e \<Rightarrow> 'e \<Rightarrow> bool"
  assumes "\<And>bs. P [] bs" and "\<And>a as. P (a # as) []"
    and "\<And>a as b bs. (ls b a \<Longrightarrow> P (a # as) bs) \<Longrightarrow> (\<not> ls b a \<Longrightarrow> P as (b # bs)) \<Longrightarrow> P (a # as) (b # bs)"
  shows "P as bs"
  using assms by (induction ls as bs rule: stable_merge.induct) blast+

lemma stable_merge_Nil2 [simp]: "stable_merge ls as [] = as"
  by (cases as) simp_all

lemma mset_stable_merge [simp]: "mset (stable_merge ls as bs) = mset as + mset bs"
  by (induction ls as bs rule: stable_merge.induct) simp_all

lemma set_stable_merge [simp]: "set (stable_merge ls as bs) = set as \<union> set bs"
  by (metis mset_stable_merge set_mset_mset set_mset_union)

lemma ascending_simps [simp]:
  "ascending ls []" "ascending ls (x # xs) \<longleftrightarrow> (\<forall>y \<in> set xs. \<not> ls y x) \<and> ascending ls xs"
  "ascending ls (xs @ ys) \<longleftrightarrow> ascending ls xs \<and> ascending ls ys \<and> (\<forall>x \<in> set xs. \<forall>y \<in> set ys. \<not> ls y x)"
  by (auto simp: ascending_def sorted_wrt_append)

context comparison begin

lemma ascending_last: "ascending less xs \<Longrightarrow> x \<in> set xs \<Longrightarrow> \<not> less (last xs) x"
  by (cases xs rule: rev_cases) auto

lemma ascending_hd: "ascending less xs \<Longrightarrow> x \<in> set xs \<Longrightarrow> \<not> less x (hd xs)"
  by (cases xs) auto

lemma not_tied_above: "less b y \<Longrightarrow> tied less x b \<Longrightarrow> \<not> tied less x y"
  unfolding tied_def using less_neg_trans by blast

lemma ascending_stable_merge: "ascending less as \<Longrightarrow> ascending less bs \<Longrightarrow> ascending less (stable_merge less as bs)"
proof (induction as bs rule: merge_induct [of _ less])
  case (ab a as b bs)
  then show ?case
  proof (cases "less b a")
    case True
    have "\<not> less y a" if "y \<in> set as" for y using that ab(3) by simp
    then have "\<not> less y b" if "y \<in> set as" for y using that True less_asym less_le_trans by blast
    then show ?thesis using ab True less_asym [OF True] by auto
  next
    case False
    have "\<not> less y b" if "y \<in> set bs" for y using that ab(4) by simp
    then have "\<not> less y a" if "y \<in> set bs" for y using that False less_neg_trans by blast
    then show ?thesis using ab False by auto
  qed
qed simp_all

lemma filter_tied_merge:
  "ascending less as \<Longrightarrow> ascending less bs \<Longrightarrow>
   filter (tied less x) (stable_merge less as bs) = filter (tied less x) as @ filter (tied less x) bs"
proof (induction as bs rule: merge_induct [of _ less])
  case (ab a as b bs)
  show ?case
  proof (cases "less b a")
    case True
    have "filter (tied less x) (a # as) = []" if "tied less x b"
    proof -
      have "\<not> less y a" if "y \<in> set (a # as)" for y using that ab(3) by auto
      then have "less b y" if "y \<in> set (a # as)" for y using that True less_le_trans by blast
      then show ?thesis using not_tied_above [OF _ \<open>tied less x b\<close>] by (auto simp: filter_empty_conv)
    qed
    then show ?thesis using ab True by (cases "tied less x b") simp_all
  next
    case False
    then show ?thesis using ab by simp
  qed
qed simp_all

lemma merge_a_first:
  assumes "ascending less (as @ as')" and "as = [] \<or> \<not> less b (last as)"
  shows "stable_merge less (as @ as') (b # bs) = as @ stable_merge less as' (b # bs)"
proof -
  have "\<not> less b x" if "x \<in> set as" for x
  proof -
    have "as \<noteq> []" "\<not> less (last as) x" using that assms(1) ascending_last [of as x] by auto
    then show ?thesis using assms(2) less_neg_trans by blast
  qed
  then show ?thesis by (induction as) simp_all
qed

lemma merge_b_first:
  assumes "ascending less (bs @ bs')" and "bs = [] \<or> less (last bs) a"
  shows "stable_merge less (a # as) (bs @ bs') = bs @ stable_merge less (a # as) bs'"
proof -
  have "less x a" if "x \<in> set bs" for x
  proof -
    have "bs \<noteq> []" "\<not> less (last bs) x" using that assms(1) ascending_last [of bs x] by auto
    then show ?thesis using assms(2) le_less_trans by blast
  qed
  then show ?thesis by (induction bs) simp_all
qed

lemma merge_a_last:
  "\<forall>x \<in> set as'. \<forall>y \<in> set bs. less y x \<Longrightarrow> stable_merge less (as @ as') bs = stable_merge less as bs @ as'"
proof (induction as bs rule: merge_induct [of _ less])
  case (a bs)
  then show ?case
  proof (induction bs)
    case (Cons b bs)
    then show ?case by (cases as') auto
  qed simp
qed simp_all

lemma merge_b_last:
  "\<forall>y \<in> set bs'. \<forall>x \<in> set as. \<not> less y x \<Longrightarrow> stable_merge less as (bs @ bs') = stable_merge less as bs @ bs'"
proof (induction as bs rule: merge_induct [of _ less])
  case (b a as)
  then show ?case
  proof (induction "a # as" arbitrary: a as)
    case (Cons a as)
    then show ?case by (cases bs'; cases as) auto
  qed
qed simp_all

lemma order_contract:
  "sort_contract lt ok W (\<lambda>_. False) (\<lambda>x y b. b = less x y) (stable_sort_of less) (stable_merge_of less)"
proof (unfold_locales, goal_cases)
  case (1 x y s)
  then show ?case by (simp add: wp_lt)
next
  case (4 xs as ys bs)
  then show ?case
    by (simp add: stable_merge_of_def stable_sort_of_def ascending_stable_merge filter_tied_merge)
next
  case (8 xs oL as as' b bs oR)
  then show ?case using merge_a_first [of as as' b bs] by (auto simp: stable_merge_of_def)
next
  case (9 xs oL a as bs bs' oR)
  then show ?case using merge_b_first [of bs bs' a as] by (auto simp: stable_merge_of_def)
next
  case (10 xs oL as as' bs b oR)
  then have asc: "ascending less (as @ as')" "ascending less (bs @ [b])" by (simp_all add: stable_merge_of_def)
  have "less y x" if "x \<in> set as'" "y \<in> set (bs @ [b])" for x y
  proof -
    have "less b (hd as')" "\<not> less x (hd as')" using 10(2) asc(1) ascending_hd [of as' x] that(1) by auto
    then have "less b x" using less_le_trans by blast
    moreover have "\<not> less b y" using asc(2) that(2) by auto
    ultimately show ?thesis using le_less_trans by blast
  qed
  then show ?case using 10(1) merge_a_last [of as' "bs @ [b]" as] by (simp add: stable_merge_of_def)
next
  case (11 xs oL as a bs bs' oR)
  then have asc: "ascending less (as @ [a])" "ascending less (bs @ bs')" by (simp_all add: stable_merge_of_def)
  have "\<not> less y x" if "y \<in> set bs'" "x \<in> set (as @ [a])" for x y
  proof -
    have "\<not> less (hd bs') a" "\<not> less y (hd bs')" using 11(2) asc(2) ascending_hd [of bs' y] that(1) by auto
    then have "\<not> less y a" using less_neg_trans by blast
    moreover have "\<not> less a x" using asc(1) that(2) by auto
    ultimately show ?thesis using less_neg_trans by blast
  qed
  then show ?case using 11(1) merge_b_last [of bs' "as @ [a]" bs] by (simp add: stable_merge_of_def)
qed (simp_all add: stable_sort_of_def stable_merge_of_def add.assoc)

end

section \<open>The list around the sort\<close>

definition detached :: "'a pylist" where
  "detached = \<lparr>list_size = 0, ob_item = None, allocated = -1\<rparr>"

definition refill :: "'a pylist \<Rightarrow> 'a list \<Rightarrow> 'a pylist" where
  "refill l ys = (if ob_item l = None then l else l\<lparr>ob_item := Some (array_write (slots l) 0 (map Some ys))\<rparr>)"

text \<open>The end of the call: the exception of the sort, or the complaint about a modified list.\<close>

definition sort_outcome :: "pyerr option \<Rightarrow> 'a pylist \<Rightarrow> unit pyres" where
  "sort_outcome r self =
     (case r of Some e \<Rightarrow> Inl e | None \<Rightarrow> if allocated self \<noteq> -1 then Inl ValueError else Inr ())"

lemma refill_correct:
  assumes "wf_list l" and "length ys = length (elems l)"
  shows "wf_list (refill l ys)" and "elems (refill l ys) = ys" and "list_size (refill l ys) = list_size l"
    and "allocated (refill l ys) = allocated l"
proof -
  note w = wf_listD [OF assms(1)]
  let ?S = "drop (length (elems l)) (slots l)"
  have S: "slots l = map Some (elems l) @ ?S" by (rule wf_list_slots [OF assms(1)])
  have r: "wf_list (refill l ys) \<and> elems (refill l ys) = ys"
  proof (cases "ob_item l")
    case None
    then have "slots l = []" by (simp add: slots_def)
    then have "elems l = []" using S by simp
    then show ?thesis using assms None by (simp add: refill_def)
  next
    case (Some xs)
    have "array_write (slots l) 0 (map Some ys) = map Some ys @ ?S" using assms(2) by (simp add: array_write_def)
    then have "slots (refill l ys) = map Some ys @ ?S" using Some by (simp add: refill_def)
    moreover have "length ys + length ?S = length (slots l)" using assms(2) S by (metis length_append length_map)
    ultimately show ?thesis
      using wf_listI [of "refill l ys" ys ?S] w assms(2) Some by (simp add: refill_def)
  qed
  then show "wf_list (refill l ys)" "elems (refill l ys) = ys" by simp_all
qed (simp_all add: refill_def)

lemma refill_same: "wf_list l \<Longrightarrow> refill l (elems l) = l"
  using wf_list_slots [of l] by (auto simp: refill_def array_write_def slots_def split: option.splits)

lemma saved_items_correct:
  assumes "wf_list l"
  shows "saved_items l = Inr (elems l)"
proof -
  note w = wf_listD [OF assms]
  have "get_block (map Some (elems l) @ drop (length (elems l)) (slots l)) 0 (nat (list_size l)) = Inr (map Some (elems l))"
    using get_block_append [of 0 "[]" "nat (list_size l)" "map Some (elems l)" "drop (length (elems l)) (slots l)"] w(6) by simp
  then show ?thesis unfolding saved_items_def wf_list_slots [OF assms, symmetric] by simp
qed

lemma sort_detach_run: "sbind sort_detach f (l, w) = f l (detached, w)"
  by (simp add: sbind_def sort_detach_def detached_def)

lemma sort_finish_run: "sort_finish saved xs r u = ((refill saved xs, snd u), sort_outcome r (fst u))"
  by (cases u)
    (auto simp: sort_finish_def sort_restore_def sort_outcome_def refill_def sbind_def on_fst_def sget_def sraise_def sret_def
      split: option.splits)

lemma sattempt_run: "sbind (sattempt m) f s = (case m s of (t, r) \<Rightarrow> f r t)"
  by (simp add: sbind_def sattempt_def split: prod.splits)

lemma sbind_run: "m s = (t, Inr x) \<Longrightarrow> sbind m f s = f x t"
  by (simp add: sbind_def)

lemma list_sort_run:
  assumes c: "sort_contract lt V W X R C J" and wf: "wf_list l" and V: "\<forall>x \<in> set (elems l). V x" and W: "W (detached, w)"
  shows "\<exists>ys r u. W u \<and> sort_contract.sorted_entries X C reverse (elems l) ys r \<and>
    list_sort lt reverse (l, w) = ((refill l ys, snd u), sort_outcome r (fst u))"
proof -
  have V': "list_all V (elems l)" and n: "int (length (elems l)) \<le> LIST_MAX"
    using V wf_listD [OF wf] by (auto simp: list_all_iff)
  obtain ys r u where "sort_entries lt False reverse (elems l) (detached, w) = (u, Inr (ys, r))" "W u"
    "sort_contract.sorted_entries X C reverse (elems l) ys r"
    using wp_total [OF sort_contract.wp_sort_entries [OF c V' n W, of False reverse]] by (auto split: prod.splits)
  then show ?thesis
    by (intro exI [of _ ys] exI [of _ r] exI [of _ u])
      (simp add: list_sort_def sort_detach_run saved_items_correct [OF wf] sort_finish_run sbind_run)
qed

text \<open>With a key function: first the keys, then the sort of the pairs.\<close>

lemma wp_sort_keys:
  assumes "\<And>x t. x \<in> set xs \<Longrightarrow> W t \<Longrightarrow> wp (keyfunc x) (\<lambda>k u. W u \<and> K x k) (\<lambda>e u. W u \<and> X e) t" and "W s"
  shows "wp (sort_keys keyfunc xs) (\<lambda>ks t. W t \<and> list_all2 K xs ks) (\<lambda>e t. W t \<and> X e) s"
  using assms
proof (induction xs arbitrary: s)
  case (Cons x xs)
  have IH: "wp (sort_keys keyfunc xs) (\<lambda>ks t. W t \<and> list_all2 K xs ks) (\<lambda>e t. W t \<and> X e) t" if "W t" for t
    by (rule Cons.IH) (use Cons.prems(1) that in auto)
  show ?case
    unfolding sort_keys.simps wp_sbind
  proof (rule wp_mono [OF Cons.prems(1) [OF _ Cons.prems(2)]], goal_cases)
    case (2 k t)
    then show ?case by (auto intro: wp_mono [OF IH])
  qed auto
qed simp

lemma list_sort_key_run:
  assumes c: "sort_contract (\<lambda>x y. lt (fst x) (fst y)) V W X R C J" and wf: "wf_list l" and W: "W (detached, w)"
    and keyfunc: "\<And>x t. x \<in> set (elems l) \<Longrightarrow> W t \<Longrightarrow> wp (keyfunc x) (\<lambda>k u. W u \<and> K x k) (\<lambda>e u. W u \<and> X e) t"
    and V: "\<And>x k. x \<in> set (elems l) \<Longrightarrow> K x k \<Longrightarrow> V (k, x)"
  shows "(\<exists>u e. W u \<and> X e \<and> list_sort_key lt keyfunc reverse (l, w) = ((l, snd u), Inl e)) \<or>
    (\<exists>ks ys r u. W u \<and> list_all2 K (elems l) ks \<and>
      sort_contract.sorted_entries X C reverse (zip ks (elems l)) ys r \<and>
      list_sort_key lt keyfunc reverse (l, w) = ((refill l (map snd ys), snd u), sort_outcome r (fst u)))"
proof -
  note run = list_sort_key_def sort_detach_run saved_items_correct [OF wf] slift_Inr sbind_sret sattempt_run
  have keys: "wp (sort_keys keyfunc (elems l)) (\<lambda>ks t. W t \<and> list_all2 K (elems l) ks) (\<lambda>e t. W t \<and> X e) (detached, w)"
    by (rule wp_sort_keys) (use keyfunc W in simp_all)
  from wp_result [OF keys] show ?thesis
  proof (elim disjE exE conjE)
    fix e u
    assume e: "sort_keys keyfunc (elems l) (detached, w) = (u, Inl e)" "W u" "X e"
    have "sbind (sort_restore l (elems l)) (\<lambda>_. sraise e) u = ((refill l (elems l), snd u), Inl e)"
      by (cases u) (simp add: sbind_def sort_restore_def sraise_def refill_def)
    then have "list_sort_key lt keyfunc reverse (l, w) = ((l, snd u), Inl e)"
      using e(1) refill_same [OF wf] unfolding run by simp
    then show ?thesis using e by blast
  next
    fix ks t
    assume ks: "sort_keys keyfunc (elems l) (detached, w) = (t, Inr ks)" "W t" "list_all2 K (elems l) ks"
    have V': "list_all V (zip ks (elems l))"
      using ks(3) V by (auto simp: list_all_iff list_all2_conv_all_nth set_zip)
    have "int (length (zip ks (elems l))) \<le> LIST_MAX"
      using wf_listD [OF wf] list_all2_lengthD [OF ks(3)] by simp
    from wp_total [OF sort_contract.wp_sort_entries [OF c V' this ks(2), of True reverse]]
    obtain ys r u where "sort_entries (\<lambda>x y. lt (fst x) (fst y)) True reverse (zip ks (elems l)) t = (u, Inr (ys, r))" "W u"
      "sort_contract.sorted_entries X C reverse (zip ks (elems l)) ys r" by (auto split: prod.splits)
    then have "list_sort_key lt keyfunc reverse (l, w) = ((refill l (map snd ys), snd u), sort_outcome r (fst u))"
      using ks(1) unfolding run by (simp add: sbind_run sort_finish_run)
    then show ?thesis using ks(3) \<open>W u\<close> \<open>sort_contract.sorted_entries X C reverse (zip ks (elems l)) ys r\<close> by blast
  qed
qed

text \<open>Integer objects.\<close>

interpretation int_sort: sort_contract obj_lt is_long "\<lambda>_. True" "\<lambda>_. False"
  "\<lambda>v w b. b = (obj_val v < obj_val w)" "stable_sort_of (\<lambda>v w. obj_val v < obj_val w)"
  "stable_merge_of (\<lambda>v w. obj_val v < obj_val w)"
  by (rule int_cmp.order_contract)

section \<open>Properties\<close>

text \<open>The stable sort in either direction.\<close>

definition sort_result :: "('e \<Rightarrow> 'e \<Rightarrow> bool) \<Rightarrow> bool \<Rightarrow> 'e list \<Rightarrow> 'e list \<Rightarrow> bool" where
  "sort_result ls reverse xs ys \<longleftrightarrow>
     mset ys = mset xs \<and> sorted_wrt (\<lambda>x y. if reverse then \<not> ls x y else \<not> ls y x) ys \<and>
     (\<forall>x. filter (tied ls x) ys = filter (tied ls x) xs)"

context comparison begin

lemma sort_resultI:
  assumes "sort_contract.sorted_entries (\<lambda>_. False) (stable_sort_of less) reverse xs ys r"
    and "sort_contract lt ok W (\<lambda>_. False) R (stable_sort_of less) J"
  shows "r = None" and "sort_result less reverse xs ys"
proof -
  note s = assms(1) [unfolded sort_contract.sorted_entries_def [OF assms(2)]]
  show r: "r = None" using s by (cases r) simp_all
  consider "length xs < 2" "ys = xs" | "reverse" "stable_sort_of less (rev xs) (rev ys)"
    | "\<not> reverse" "stable_sort_of less xs ys"
    using s r by (auto split: if_splits)
  then show "sort_result less reverse xs ys"
  proof cases
    case 1
    then show ?thesis by (cases xs) (auto simp: sort_result_def length_Suc_conv)
  next
    case 2
    then show ?thesis
      by (simp add: sort_result_def stable_sort_of_def ascending_def sorted_wrt_rev rev_filter [symmetric])
  next
    case 3
    then show ?thesis by (simp add: sort_result_def stable_sort_of_def ascending_def)
  qed
qed

end

text \<open>The whole operation, for an order and a key function without effects.\<close>

lemma list_sort_order:
  fixes l :: "'a pylist"
  assumes c: "comparison lt ls ok" and wf: "wf_list l" and ok: "\<forall>x \<in> set (elems l). ok x"
  shows "\<exists>l'. list_sort lt reverse (l, w) = ((l', w), Inr ()) \<and> wf_list l' \<and> sort_result ls reverse (elems l) (elems l')"
proof -
  note cc = comparison.order_contract [OF c, of "\<lambda>s. s = (detached, w)"]
  have "\<exists>ys r u. u = (detached :: 'a pylist, w) \<and>
    sort_contract.sorted_entries (\<lambda>_. False) (stable_sort_of ls) reverse (elems l) ys r \<and>
    list_sort lt reverse (l, w) = ((refill l ys, snd u), sort_outcome r (fst u))"
    by (rule list_sort_run [OF cc wf ok refl])
  then obtain ys r u where u: "u = (detached :: 'a pylist, w)"
    "sort_contract.sorted_entries (\<lambda>_. False) (stable_sort_of ls) reverse (elems l) ys r"
    "list_sort lt reverse (l, w) = ((refill l ys, snd u), sort_outcome r (fst u))"
    by blast
  note s = comparison.sort_resultI [OF c u(2) cc]
  have "length ys = length (elems l)" using s(2) mset_eq_length unfolding sort_result_def by blast
  from refill_correct [OF wf this] show ?thesis
    using s u(1,3) by (intro exI [of _ "refill l ys"]) (simp add: sort_outcome_def detached_def)
qed

lemma comparison_on_keys:
  assumes "comparison lt ls ok"
  shows "comparison (\<lambda>x y. lt (fst x) (fst y)) (\<lambda>x y. ls (fst x) (fst y)) (\<lambda>x. ok (fst x))"
  using assms unfolding comparison_def by blast

lemma sort_result_keys:
  assumes "sort_result (\<lambda>x y. ls (fst x) (fst y)) reverse (map (\<lambda>x. (f x, x)) xs) ys"
  shows "sort_result (\<lambda>x y. ls (f x) (f y)) reverse xs (map snd ys)"
proof -
  let ?g = "\<lambda>x. (f x, x)"
  let ?zs = "map snd ys"
  have m: "mset ys = mset (map ?g xs)" using assms by (simp add: sort_result_def)
  then have "set ys = set (map ?g xs)" by (metis set_mset_mset)
  then have ys: "ys = map ?g ?zs" by (intro map_idI [symmetric, of ys, THEN trans]) (auto simp: o_def intro!: map_idI)
  have "mset (map snd ys) = mset (map snd (map ?g xs))" using m by (simp only: mset_map)
  then have ms: "mset ?zs = mset xs" by (simp add: o_def)
  have so: "sorted_wrt (\<lambda>x y. if reverse then \<not> ls (f x) (f y) else \<not> ls (f y) (f x)) ?zs"
  proof -
    have "sorted_wrt (\<lambda>x y. if reverse then \<not> ls (fst x) (fst y) else \<not> ls (fst y) (fst x)) ys"
      using assms unfolding sort_result_def by blast
    with ys have "sorted_wrt (\<lambda>x y. if reverse then \<not> ls (fst x) (fst y) else \<not> ls (fst y) (fst x)) (map ?g ?zs)"
      by (rule subst)
    then show ?thesis by (cases reverse) (simp_all add: sorted_wrt_map del: map_map)
  qed
  have fi: "filter (tied (\<lambda>x y. ls (f x) (f y)) x) ?zs = filter (tied (\<lambda>x y. ls (f x) (f y)) x) xs" for x
  proof -
    have t: "tied (\<lambda>x y. ls (fst x) (fst y)) (?g x) \<circ> ?g = tied (\<lambda>x y. ls (f x) (f y)) x"
      by (simp add: fun_eq_iff tied_def)
    have "filter (tied (\<lambda>x y. ls (fst x) (fst y)) (?g x)) ys = filter (tied (\<lambda>x y. ls (fst x) (fst y)) (?g x)) (map ?g xs)"
      using assms unfolding sort_result_def by blast
    then have "map ?g (filter (tied (\<lambda>x y. ls (f x) (f y)) x) ?zs) = map ?g (filter (tied (\<lambda>x y. ls (f x) (f y)) x) xs)"
      by (subst (asm) ys) (simp only: filter_map t)
    then show ?thesis by (auto dest: map_injective simp: inj_on_def)
  qed
  show ?thesis using ms so fi by (simp add: sort_result_def)
qed

lemma list_sort_key_order:
  fixes l :: "'a pylist"
  assumes c: "comparison lt ls ok" and wf: "wf_list l"
    and key: "\<forall>x \<in> set (elems l). ok (f x) \<and> keyfunc x = sret (f x)"
  shows "\<exists>l'. list_sort_key lt keyfunc reverse (l, w) = ((l', w), Inr ()) \<and> wf_list l' \<and>
    sort_result (\<lambda>x y. ls (f x) (f y)) reverse (elems l) (elems l')"
proof -
  note c' = comparison_on_keys [OF c]
  note cc = comparison.order_contract [OF c', of "\<lambda>s. s = (detached, w)"]
  have "(\<exists>u e. u = (detached :: 'a pylist, w) \<and> False \<and> list_sort_key lt keyfunc reverse (l, w) = ((l, snd u), Inl e)) \<or>
    (\<exists>ks ys r u. u = (detached :: 'a pylist, w) \<and> list_all2 (\<lambda>x k. ok k \<and> k = f x) (elems l) ks \<and>
      sort_contract.sorted_entries (\<lambda>_. False) (stable_sort_of (\<lambda>x y. ls (fst x) (fst y))) reverse (zip ks (elems l)) ys r \<and>
      list_sort_key lt keyfunc reverse (l, w) = ((refill l (map snd ys), snd u), sort_outcome r (fst u)))"
    by (rule list_sort_key_run [where K = "\<lambda>x k. ok k \<and> k = f x", OF cc wf refl]) (use key in auto)
  then obtain ks ys r u where u: "u = (detached :: 'a pylist, w)" "list_all2 (\<lambda>x k. ok k \<and> k = f x) (elems l) ks"
    "sort_contract.sorted_entries (\<lambda>_. False) (stable_sort_of (\<lambda>x y. ls (fst x) (fst y))) reverse (zip ks (elems l)) ys r"
    "list_sort_key lt keyfunc reverse (l, w) = ((refill l (map snd ys), snd u), sort_outcome r (fst u))"
    by blast
  note s = comparison.sort_resultI [OF c' u(3) cc]
  have ks: "ks = map f (elems l)" using u(2) by (auto simp: list_all2_conv_all_nth intro: nth_equalityI)
  have zip: "zip ks (elems l) = map (\<lambda>x. (f x, x)) (elems l)"
    unfolding ks by (simp add: zip_map1 zip_same_conv_map)
  have res: "sort_result (\<lambda>x y. ls (f x) (f y)) reverse (elems l) (map snd ys)"
    by (rule sort_result_keys) (use s(2) zip in simp)
  have "length (map snd ys) = length (elems l)" using res mset_eq_length unfolding sort_result_def by blast
  from refill_correct [OF wf this] show ?thesis
    using s(1) res u(1,4) by (intro exI [of _ "refill l (map snd ys)"]) (simp add: sort_outcome_def detached_def)
qed

text \<open>
  User code runs while the list is detached, and may have put something else in its place; it
  does not fail with a violation of its own.
\<close>

definition sort_world :: "'a pylist \<times> 'w \<Rightarrow> bool" where
  "sort_world s \<longleftrightarrow> fst s = detached \<or> wf_list (fst s)"

definition sort_safe :: "('a pylist \<times> 'w, 'r) py \<Rightarrow> bool" where
  "sort_safe m \<longleftrightarrow>
     (\<forall>s. sort_world s \<longrightarrow> wp m (\<lambda>_. sort_world) (\<lambda>e t. sort_world t \<and> e \<noteq> AssertionFailed) s)"

abbreviation sort_kept :: "'a pylist \<Rightarrow> ('a pylist \<times> 'w) \<times> unit pyres \<Rightarrow> bool" where
  "sort_kept l out \<equiv>
     (case out of (t, r) \<Rightarrow> wf_list (fst t) \<and> mset (elems (fst t)) = mset (elems l) \<and>
        allocated (fst t) = allocated l \<and> r \<noteq> Inl AssertionFailed)"

lemma refill_kept:
  assumes "wf_list l" and "mset ys = mset (elems l)"
  shows "wf_list (refill l ys)" and "mset (elems (refill l ys)) = mset (elems l)"
  using refill_correct [OF assms(1), of ys] assms(2) by (metis mset_eq_length)+

lemma sort_outcome_kept: "case r of Some e \<Rightarrow> e \<noteq> AssertionFailed | None \<Rightarrow> P \<Longrightarrow> sort_outcome r self \<noteq> Inl AssertionFailed"
  by (auto simp: sort_outcome_def split: option.splits)

lemma any_sort_entries:
  fixes lt :: "('s, 'e) sort_lt" and xs :: "'e list"
  assumes "sort_contract lt V W X (\<lambda>_ _ _. True) same_items same_items_merge"
    and "sort_contract.sorted_entries X same_items reverse xs ys r"
  shows "mset ys = mset xs" and "case r of Some e \<Rightarrow> X e | None \<Rightarrow> True"
  using assms(2) unfolding sort_contract.sorted_entries_def [OF assms(1)] by (auto split: option.splits)

lemma list_sort_kept:
  fixes l :: "'a pylist" and w :: 'w
  assumes wf: "wf_list l" and lt: "\<And>x y. sort_safe (lt x y)"
  shows "sort_kept l (list_sort lt reverse (l, w))"
proof -
  have c: "sort_contract lt (\<lambda>_. True) sort_world (\<lambda>e. e \<noteq> AssertionFailed) (\<lambda>_ _ _. True) same_items same_items_merge"
    by (rule any_contract) (use lt in \<open>simp add: sort_safe_def\<close>)
  have W: "sort_world (detached :: 'a pylist, w)" by (simp add: sort_world_def)
  have all: "\<forall>x \<in> set (elems l). True" by simp
  obtain ys r and u :: "'a pylist \<times> 'w"
    where "sort_contract.sorted_entries (\<lambda>e. e \<noteq> AssertionFailed) same_items reverse (elems l) ys r"
    and run: "list_sort lt reverse (l, w) = ((refill l ys, snd u), sort_outcome r (fst u))"
    using list_sort_run [where reverse = reverse, OF c wf all W] by blast
  from any_sort_entries [OF c this(1)] show ?thesis
    using refill_kept [OF wf, of ys] sort_outcome_kept [where r = r and P = True and self = "fst u"] unfolding run by (simp add: refill_def)
qed

lemma list_sort_key_kept:
  fixes l :: "'a pylist" and w :: 'w and lt :: "'k \<Rightarrow> 'k \<Rightarrow> ('a pylist \<times> 'w, bool) py"
  assumes wf: "wf_list l" and lt: "\<And>x y. sort_safe (lt x y)" and key: "\<And>x. sort_safe (keyfunc x)"
  shows "sort_kept l (list_sort_key lt keyfunc reverse (l, w))"
proof -
  have c: "sort_contract (\<lambda>(x :: 'k \<times> 'a) y. lt (fst x) (fst y)) (\<lambda>_. True) sort_world (\<lambda>e. e \<noteq> AssertionFailed)
    (\<lambda>_ _ _. True) same_items same_items_merge"
    by (rule any_contract) (use lt in \<open>simp add: sort_safe_def\<close>)
  have W: "sort_world (detached :: 'a pylist, w)" by (simp add: sort_world_def)
  consider u :: "'a pylist \<times> 'w" and e where "e \<noteq> AssertionFailed" "list_sort_key lt keyfunc reverse (l, w) = ((l, snd u), Inl e)"
    | ks :: "'k list" and ys r and u :: "'a pylist \<times> 'w" where "list_all2 (\<lambda>_ _. True) (elems l) ks"
      "sort_contract.sorted_entries (\<lambda>e. e \<noteq> AssertionFailed) same_items reverse (zip ks (elems l)) ys r"
      "list_sort_key lt keyfunc reverse (l, w) = ((refill l (map snd ys), snd u), sort_outcome r (fst u))"
  proof -
    have "(\<exists>(u :: 'a pylist \<times> 'w) e. sort_world u \<and> e \<noteq> AssertionFailed \<and>
        list_sort_key lt keyfunc reverse (l, w) = ((l, snd u), Inl e)) \<or>
      (\<exists>(ks :: 'k list) ys r (u :: 'a pylist \<times> 'w). sort_world u \<and> list_all2 (\<lambda>_ _. True) (elems l) ks \<and>
        sort_contract.sorted_entries (\<lambda>e. e \<noteq> AssertionFailed) same_items reverse (zip ks (elems l)) ys r \<and>
        list_sort_key lt keyfunc reverse (l, w) = ((refill l (map snd ys), snd u), sort_outcome r (fst u)))"
      by (rule list_sort_key_run [where K = "\<lambda>_ _. True", OF c wf W]) (use key in \<open>simp_all add: sort_safe_def\<close>)
    then show ?thesis using that by blast
  qed
  then show ?thesis
  proof cases
    case 1
    then show ?thesis using wf by simp
  next
    case 2
    note a = any_sort_entries [OF c 2(2)]
    have "mset (map snd ys) = mset (map snd (zip ks (elems l)))" using a(1) by (simp only: mset_map)
    then have "mset (map snd ys) = mset (elems l)" using list_all2_lengthD [OF 2(1)] by simp
    then show ?thesis
      using refill_kept [OF wf, of "map snd ys"] sort_outcome_kept [where r = r and P = True and self = "fst u"] a(2) unfolding 2(3) by (simp add: refill_def)
  qed
qed

text \<open>
  C27: \<open>list.sort\<close> with a comparison that is a strict weak order sorts, in either direction, and
  is stable: items that are tied keep their order. It does not fail, and changes nothing but the
  order of the items.
\<close>

theorem list_sort_is_stable_sort:
  assumes "comparison lt ls ok" and "wf_list l" and "\<forall>x \<in> set (elems l). ok x"
  shows "\<exists>l'. list_sort lt reverse (l, w) = ((l', w), Inr ()) \<and> wf_list l' \<and>
    mset (elems l') = mset (elems l) \<and>
    sorted_wrt (\<lambda>x y. if reverse then \<not> ls x y else \<not> ls y x) (elems l') \<and>
    (\<forall>x. filter (tied ls x) (elems l') = filter (tied ls x) (elems l))"
  using list_sort_order [OF assms] unfolding sort_result_def .

lemma list_sort_is_stable_sort_witness:
  "\<exists>l'. list_sort obj_lt False (list_of [int_obj 3, int_obj 1, int_obj 2], ()) = ((l', ()), Inr ()) \<and>
    mset (elems l') = {#int_obj 1, int_obj 2, int_obj 3#} \<and> sorted_wrt (\<lambda>v w. obj_val v \<le> obj_val w) (elems l')"
  using list_sort_is_stable_sort [OF int_cmp.comparison_axioms, of "list_of [int_obj 3, int_obj 1, int_obj 2]" False "()"]
  by (auto simp: not_less)

text \<open>
  C28: The sort by a key agrees with the reference: where the comparison of the keys is the order
  of a number \<open>g\<close> of them, the sorted list is the one of the library's insertion sort by \<open>g (f x)\<close>,
  and with \<open>reverse\<close> the reverse of sorting the reversed list.
\<close>

theorem list_sort_key_is_sort_key:
  fixes g :: "'k \<Rightarrow> 'n :: linorder"
  assumes c: "comparison lt (\<lambda>a b. g a < g b) ok" and wf: "wf_list l"
    and key: "\<forall>x \<in> set (elems l). ok (f x) \<and> keyfunc x = sret (f x)"
  shows "\<exists>l'. list_sort_key lt keyfunc reverse (l, w) = ((l', w), Inr ()) \<and> wf_list l' \<and>
    elems l' = (if reverse then rev (sort_key (\<lambda>x. g (f x)) (rev (elems l))) else sort_key (\<lambda>x. g (f x)) (elems l))"
proof -
  obtain l' where l': "list_sort_key lt keyfunc reverse (l, w) = ((l', w), Inr ())" "wf_list l'"
    and r: "sort_result (\<lambda>x y. g (f x) < g (f y)) reverse (elems l) (elems l')"
    using list_sort_key_order [OF c wf key] by blast
  have tied: "tied (\<lambda>x y. g (f x) < g (f y)) x = (\<lambda>y. g (f x) = g (f y))" for x
    by (auto simp: tied_def fun_eq_iff)
  note r = r [unfolded sort_result_def tied]
  have "sort_key (\<lambda>x. g (f x)) (if reverse then rev (elems l) else elems l) = (if reverse then rev (elems l') else elems l')"
    by (rule properties_for_sort_key)
      (use r in \<open>auto simp: sorted_wrt_rev sorted_wrt_map rev_filter [symmetric] not_less\<close>)
  then show ?thesis using l' by (auto split: if_splits)
qed

lemma list_sort_key_is_sort_key_witness:
  "\<exists>l'. list_sort_key obj_lt (\<lambda>x. sret (fst x)) True
      (list_of [(int_obj 1, ''a''), (int_obj 2, ''b''), (int_obj 1, ''c'')], ()) = ((l', ()), Inr ()) \<and>
    elems l' = [(int_obj 2, ''b''), (int_obj 1, ''a''), (int_obj 1, ''c'')]"
  using list_sort_key_is_sort_key [OF int_cmp.comparison_axioms,
      of "list_of [(int_obj 1, ''a''), (int_obj 2, ''b''), (int_obj 1, ''c'')]" fst "\<lambda>x. sret (fst x)" True "()"]
  by (simp, blast)

text \<open>
  C29: Whatever the comparison and the key function do, raise at any point, modify the list they
  are called from, answer without any order: the sort reads and writes inside its arrays only,
  none of its assertions fails, and afterwards the list holds the same items, each as often as
  before.
\<close>

theorem list_sort_memory_safe:
  assumes "wf_list l" and "\<And>x y. sort_safe (lt x y)" and "\<And>j k. sort_safe (klt j k)" and "\<And>x. sort_safe (keyfunc x)"
  shows "sort_kept l (list_sort lt reverse (l, w)) \<and> sort_kept l (list_sort_key klt keyfunc reverse (l, w))"
  using list_sort_kept [of l lt reverse w, OF assms(1,2)] list_sort_key_kept [of l klt keyfunc reverse w, OF assms(1,3,4)]
  by blast

text \<open>A comparison that raises, and one that fills the list and then gives senseless answers.\<close>

definition raising_lt :: "'a \<Rightarrow> 'a \<Rightarrow> ('a pylist \<times> 'w, bool) py" where
  "raising_lt x y = sraise ValueError"

definition refilling_lt :: "'a \<Rightarrow> 'a \<Rightarrow> ('a pylist \<times> 'w, bool) py" where
  "refilling_lt x y = (\<lambda>(l, w). ((list_of [x, y], w), Inr True))"

lemma list_sort_memory_safe_witness:
  "sort_kept (list_of [3, 1, 2 :: nat]) (list_sort raising_lt False (list_of [3, 1, 2], ())) \<and>
   snd (list_sort raising_lt False (list_of [3, 1, 2 :: nat], ())) = Inl ValueError \<and>
   sort_kept (list_of [3, 1, 2 :: nat]) (list_sort_key refilling_lt sret False (list_of [3, 1, 2], ())) \<and>
   snd (list_sort_key refilling_lt sret False (list_of [3, 1, 2 :: nat], ())) = Inl ValueError"
proof -
  have "sort_safe (raising_lt x y :: (nat pylist \<times> unit, bool) py)" for x y :: nat
    by (simp add: sort_safe_def raising_lt_def)
  moreover have "sort_safe (refilling_lt x y :: (nat pylist \<times> unit, bool) py)" for x y :: nat
    by (simp add: sort_safe_def refilling_lt_def wp_def sort_world_def split: prod.splits)
  moreover have "sort_safe (sret x :: (nat pylist \<times> unit, nat) py)" for x :: nat
    by (simp add: sort_safe_def)
  ultimately have "sort_kept (list_of [3, 1, 2 :: nat]) (list_sort raising_lt False (list_of [3, 1, 2], ())) \<and>
      sort_kept (list_of [3, 1, 2 :: nat]) (list_sort_key refilling_lt sret False (list_of [3, 1, 2], ()))"
    by (intro list_sort_memory_safe) simp_all
  moreover have "snd (list_sort raising_lt False (list_of [3, 1, 2 :: nat], ())) = Inl ValueError" by code_simp
  moreover have "snd (list_sort_key refilling_lt sret False (list_of [3, 1, 2 :: nat], ())) = Inl ValueError" by code_simp
  ultimately show ?thesis by (elim conjE) (intro conjI)
qed

text \<open>
  C30: \<open>merge_collapse\<close> re-establishes the invariant of the stack of runs after a push, whatever
  the answers of the comparison: every run is longer than the next two together and the last two
  are in decreasing order. So the stack is shorter than its array of 85 runs. When the comparison
  raises, no entry is lost.
\<close>

theorem merge_collapse_restores_invariant:
  assumes c: "sort_contract lt V W X R C J" and og: "list_all V og" "int (length og) \<le> LIST_MAX"
    and st: "sort_contract.stack_at C og T ms" and below: "runs_decreasing (butlast (map snd (pending ms)))" and W: "W s"
  shows "wp (merge_collapse lt ms) (\<lambda>(ms', r) t. W t \<and> (case r of
       None \<Rightarrow> sort_contract.stack_at C og T ms' \<and> runs_decreasing (map snd (pending ms')) \<and>
         length (pending ms') < MAX_MERGE_PENDING
     | Some e \<Rightarrow> X e \<and> (\<exists>zs. arr ms' = zs @ T \<and> mset zs = mset og))) (\<lambda>_ _. False) s"
proof -
  have b: "runs_below_top (map snd (pending ms))"
  proof (cases "pending ms")
    case Nil
    then show ?thesis by (simp add: runs_below_top_def)
  next
    case Cons
    then have "butlast (map snd (pending ms)) @ [last (map snd (pending ms))] = map snd (pending ms)"
      by (intro append_butlast_last_id) simp
    then show ?thesis using runs_below_top_snoc [OF below, of "last (map snd (pending ms))"] by (simp only:)
  qed
  have len: "length (pending ms') < MAX_MERGE_PENDING"
    if "sort_contract.stack_at C og T ms'" "runs_decreasing (map snd (pending ms'))" for ms'
    using pending_bound [OF that(2)] sort_contract.stack_at_lengths(1,2) [OF c that(1)] og(2) by simp
  show ?thesis
    unfolding merge_collapse_def
    by (rule wp_mono [OF sort_contract.wp_merge_collapse_loop [OF c og st b order_refl W]])
      (use len in \<open>auto simp: sort_contract.stack_error_def [OF c] split: option.splits\<close>)
qed

text \<open>Three runs, the last just pushed.\<close>

definition three_runs :: "pyobj merge_state" where
  "three_runs = \<lparr>arr = [int_obj 1, int_obj 3, int_obj 2, int_obj 0], tmp = replicate 4 None, has_values = False, min_gallop = 7,
     pending = [(0, 2), (2, 1), (3, 1)]\<rparr>"

lemma merge_collapse_restores_invariant_witness:
  "wp (merge_collapse obj_lt three_runs) (\<lambda>(ms', r) t. r = None \<and> runs_decreasing (map snd (pending ms')) \<and>
     length (pending ms') < MAX_MERGE_PENDING) (\<lambda>_ _. False) ()"
proof -
  let ?C = "stable_sort_of (\<lambda>v w. obj_val v < obj_val w)"
  have "?C [int_obj 1, int_obj 3] [int_obj 1, int_obj 3]" by (simp add: stable_sort_of_def)
  then have st: "int_sort.stack_at [int_obj 1, int_obj 3, int_obj 2, int_obj 0] [] three_runs"
    unfolding int_sort.stack_at_def
    by (intro exI [of _ "[[int_obj 1, int_obj 3], [int_obj 2], [int_obj 0]]"]) (simp add: three_runs_def int_sort.C_one)
  have "runs_decreasing (butlast (map snd (pending three_runs)))"
    by (simp add: three_runs_def runs_decreasing_def)
  from merge_collapse_restores_invariant [OF int_sort.sort_contract_axioms _ _ st this]
  have "wp (merge_collapse obj_lt three_runs) (\<lambda>(ms', r) t. True \<and> (case r of
       None \<Rightarrow> int_sort.stack_at [int_obj 1, int_obj 3, int_obj 2, int_obj 0] [] ms' \<and>
         runs_decreasing (map snd (pending ms')) \<and> length (pending ms') < MAX_MERGE_PENDING
     | Some e \<Rightarrow> False \<and> (\<exists>zs. arr ms' = zs @ [] \<and> mset zs = mset [int_obj 1, int_obj 3, int_obj 2, int_obj 0]))) (\<lambda>_ _. False) ()"
    by simp
  then show ?thesis by (rule wp_mono) (auto split: option.splits)
qed

text \<open>
  \<open>merge_compute_minrun\<close> returns a short array's length itself, and otherwise a number from 32
  to 64 that is the length divided by a power of two and rounded up: the array has at most that
  power of two of such runs, and the merges are balanced.
\<close>

theorem minrun_is_rounded_quotient:
  "if n < 64 then merge_compute_minrun n = n
   else 32 \<le> merge_compute_minrun n \<and> merge_compute_minrun n \<le> 64 \<and>
     (\<exists>k. n \<le> merge_compute_minrun n * 2 ^ k \<and> (merge_compute_minrun n - 1) * 2 ^ k < n)"
proof (cases "n < 64")
  case True
  then show ?thesis using merge_compute_minrun_bounds(1) by simp
next
  case False
  obtain k where k: "merge_compute_minrun n = n div 2 ^ k + (if \<not> 2 ^ k dvd n then 1 else 0)"
    using compute_minrun_loop_ceiling [of 0 n] by (auto simp: merge_compute_minrun_def)
  have "n \<le> merge_compute_minrun n * 2 ^ k \<and> (merge_compute_minrun n - 1) * 2 ^ k < n"
  proof (cases "2 ^ k dvd n")
    case True
    then obtain q where "n = 2 ^ k * q" ..
    then show ?thesis using k False by (cases q) (simp_all add: mult.commute)
  next
    case not: False
    have "n div 2 ^ k * 2 ^ k + n mod 2 ^ k = n" by (rule div_mult_mod_eq)
    moreover have "n mod 2 ^ k < 2 ^ k" "0 < n mod 2 ^ k" using not by (simp_all add: dvd_eq_mod_eq_0)
    moreover have "(n div 2 ^ k + 1) * 2 ^ k = n div 2 ^ k * 2 ^ k + 2 ^ k" by (simp add: add_mult_distrib)
    moreover have m: "merge_compute_minrun n = n div 2 ^ k + 1" using k not by simp
    ultimately show ?thesis unfolding m add_diff_cancel_right' by linarith
  qed
  then show ?thesis using False merge_compute_minrun_bounds(2) [of n] by auto
qed

end
