(* ===== verification/PyLoop.thy ===== *)
theory PyLoop
  imports PyState
begin

text \<open>
  Operations that may not return: \<open>None\<close> is a run that goes on forever. \<open>owp d m Q E s\<close> says that
  \<open>m\<close>, run on \<open>s\<close>, ends with \<open>Q\<close> or raises with \<open>E\<close>; whether it may also run forever is the
  parameter \<open>d\<close>, so that one rule serves the theorems that an operation returns and those that
  hold only if it does.
\<close>

type_synonym ('s, 'a) pyo = "'s \<Rightarrow> ('s \<times> 'a pyres) option"

definition oret :: "'a \<Rightarrow> ('s, 'a) pyo" where
  "oret x = (\<lambda>s. Some (s, Inr x))"

definition oraise :: "pyerr \<Rightarrow> ('s, 'a) pyo" where
  "oraise e = (\<lambda>s. Some (s, Inl e))"

definition obind :: "('s, 'a) pyo \<Rightarrow> ('a \<Rightarrow> ('s, 'b) pyo) \<Rightarrow> ('s, 'b) pyo" where
  "obind m f = (\<lambda>s. case m s of
     None \<Rightarrow> None
   | Some (t, Inl e) \<Rightarrow> Some (t, Inl e)
   | Some (t, Inr x) \<Rightarrow> f x t)"

definition olift :: "'a pyres \<Rightarrow> ('s, 'a) pyo" where
  "olift r = (\<lambda>s. Some (s, r))"

definition oassert :: "bool \<Rightarrow> ('s, unit) pyo" where
  "oassert b = olift (c_assert b)"

definition oget :: "('s \<Rightarrow> 'a) \<Rightarrow> ('s, 'a) pyo" where
  "oget f = (\<lambda>s. Some (s, Inr (f s)))"

definition omodify :: "('s \<Rightarrow> 's) \<Rightarrow> ('s, unit) pyo" where
  "omodify f = (\<lambda>s. Some (f s, Inr ()))"

text \<open>A computation without effect that may run forever, and an operation that returns.\<close>

definition oloop :: "'a pyres option \<Rightarrow> ('s, 'a) pyo" where
  "oloop r = (\<lambda>s. case r of None \<Rightarrow> None | Some x \<Rightarrow> Some (s, x))"

definition oterm :: "('s, 'a) py \<Rightarrow> ('s, 'a) pyo" where
  "oterm m = (\<lambda>s. Some (m s))"

definition owp :: "bool \<Rightarrow> ('s, 'a) pyo \<Rightarrow> ('a \<Rightarrow> 's \<Rightarrow> bool) \<Rightarrow> (pyerr \<Rightarrow> 's \<Rightarrow> bool) \<Rightarrow> 's \<Rightarrow> bool" where
  "owp d m Q E s = (case m s of
     None \<Rightarrow> d
   | Some (t, Inl e) \<Rightarrow> E e t
   | Some (t, Inr x) \<Rightarrow> Q x t)"

lemma owp_oret [simp]: "owp d (oret x) Q E = Q x"
  by (rule ext) (simp add: owp_def oret_def)

lemma owp_oraise [simp]: "owp d (oraise e) Q E = E e"
  by (rule ext) (simp add: owp_def oraise_def)

lemma owp_olift_Inr [simp]: "owp d (olift (Inr x)) Q E = Q x"
  by (rule ext) (simp add: owp_def olift_def)

lemma owp_olift_Inl [simp]: "owp d (olift (Inl e)) Q E = E e"
  by (rule ext) (simp add: owp_def olift_def)

lemma owp_oassert [simp]: "owp d (oassert b) Q E = (if b then Q () else E AssertionFailed)"
  by (rule ext) (simp add: oassert_def c_assert_def)

lemma owp_oget [simp]: "owp d (oget f) Q E = (\<lambda>s. Q (f s) s)"
  by (rule ext) (simp add: owp_def oget_def)

lemma owp_omodify [simp]: "owp d (omodify f) Q E = (\<lambda>s. Q () (f s))"
  by (rule ext) (simp add: owp_def omodify_def)

lemma owp_oloop [simp]:
  "owp d (oloop r) Q E s = (case r of None \<Rightarrow> d | Some (Inl e) \<Rightarrow> E e s | Some (Inr x) \<Rightarrow> Q x s)"
  by (simp add: owp_def oloop_def split: option.splits sum.splits)

lemma owp_oterm [simp]: "owp d (oterm m) Q E = wp m Q E"
  by (rule ext) (simp add: owp_def oterm_def wp_def)

lemma owp_obind [simp]: "owp d (obind m f) Q E = owp d m (\<lambda>x. owp d (f x) Q E) E"
  by (rule ext) (auto simp: owp_def obind_def split: option.splits prod.splits sum.splits)

lemma owp_if [simp]: "owp d (if b then m else n) Q E = (if b then owp d m Q E else owp d n Q E)"
  by simp

lemma owp_mono:
  assumes "owp d m Q E s" and "\<And>x t. Q x t \<Longrightarrow> Q' x t" and "\<And>e t. E e t \<Longrightarrow> E' e t"
  shows "owp d m Q' E' s"
  using assms by (auto simp: owp_def split: option.splits prod.splits sum.splits)

lemma owp_weaken: "owp False m Q E s \<Longrightarrow> owp d m Q E s"
  by (auto simp: owp_def split: option.splits)

lemma owp_total:
  assumes "owp False m Q E s"
  shows "\<exists>t r. m s = Some (t, r) \<and> (case r of Inl e \<Rightarrow> E e t | Inr x \<Rightarrow> Q x t)"
  using assms by (auto simp: owp_def split: option.splits prod.splits sum.splits)

lemma owp_returns:
  assumes "owp False m Q (\<lambda>_ _. False) s"
  shows "\<exists>t x. m s = Some (t, Inr x) \<and> Q x t"
  using assms by (auto simp: owp_def split: option.splits prod.splits sum.splits)

text \<open>The rules by which \<open>partial_function\<close> accepts a loop written with these operations.\<close>

lemma obind_mono [partial_function_mono]:
  fixes m :: "('x \<Rightarrow> 'y option) \<Rightarrow> ('s, 'a) pyo"
  assumes "\<And>s. mono_option (\<lambda>F. m F s)" and "\<And>x s. mono_option (\<lambda>F. f x F s)"
  shows "mono_option (\<lambda>F. obind (m F) (\<lambda>x. f x F) s)"
proof (rule monotoneI)
  fix F G :: "'x \<Rightarrow> 'y option"
  assume FG: "fun_ord option_ord F G"
  have m: "option_ord (m F s) (m G s)" using assms(1) [of s] FG by (simp add: monotone_on_def)
  have f: "option_ord (f x F t) (f x G t)" for x t using assms(2) [of x t] FG by (simp add: monotone_on_def)
  show "option_ord (obind (m F) (\<lambda>x. f x F) s) (obind (m G) (\<lambda>x. f x G) s)"
  proof (cases "m F s")
    case None
    then show ?thesis by (simp add: obind_def flat_ord_def)
  next
    case (Some p)
    then have "m G s = m F s" using m by (simp add: flat_ord_def)
    then show ?thesis using Some f by (simp add: obind_def flat_ord_def split: prod.split sum.split)
  qed
qed

lemma oif_mono [partial_function_mono]:
  assumes "\<And>s. mono_option (\<lambda>F. m F s)" and "\<And>s. mono_option (\<lambda>F. n F s)"
  shows "mono_option (\<lambda>F. (if b then m F else n F) s)"
  using assms by (cases b) auto

lemma oret_mono [partial_function_mono]: "mono_option (\<lambda>F. oret x s)"
  by (rule option.const_mono)

end
