(* ===== verification/PyDict.thy ===== *)
theory PyDict
  imports PyLoop PyLongConv
begin

text \<open>
  Dictionaries (\<open>Objects/dictobject.c\<close>, \<open>Objects/dict-common.h\<close>): the compact ordered hash table. The
  table of keys has an array of indices, probed by open addressing, and an array of entries in
  the order of insertion. This theory holds the definitions.

  Modelled are combined tables and the shared empty one (\<open>Py_EMPTY_KEYS\<close>, with which a new dict
  starts); split tables, whose values live apart from the keys, are not. All lookups go through
  \<open>lookdict\<close>: its variants for string keys return the same. The comparison of keys is a parameter
  that may raise and change the dict; the hash of a key is an argument, as it is for the functions
  of the source. A key is an object's identity. The state of an operation is the dict with the rest
  of the interpreter, which holds the other dict of an operation on two. The identity of a table of keys, which \<open>lookdict\<close>
  compares to see whether the dict was resized, is a number: \<open>ma_fresh\<close> counts the tables a dict has
  had. (The source compares addresses; that a comparison leaves the dict with another table at the
  address of the freed one, which \<open>lookdict\<close> does not notice, is outside the model.) The shared empty
  table is the one with number 0; a dict that has it has \<open>ma_values\<close> set in the source.
\<close>

section \<open>Tables\<close>

definition PERTURB_SHIFT :: nat where "PERTURB_SHIFT = 5"
definition DKIX_EMPTY :: int where "DKIX_EMPTY = -1"
definition DKIX_DUMMY :: int where "DKIX_DUMMY = -2"
definition PyDict_MINSIZE :: nat where "PyDict_MINSIZE = 8"

record ('k, 'v) dkentry =
  me_hash :: size_t
  me_key :: "'k option"
  me_value :: "'v option"

record ('k, 'v) dictkeys =
  dk_id :: nat
  dk_size :: nat
  dk_usable :: int
  dk_nentries :: nat
  dk_indices :: "int list"
  dk_entries :: "('k, 'v) dkentry list"

record ('k, 'v) pydict =
  ma_used :: nat
  ma_keys :: "('k, 'v) dictkeys"
  ma_fresh :: nat

definition Py_EMPTY_KEYS :: "('k, 'v) dictkeys" where
  "Py_EMPTY_KEYS = \<lparr>dk_id = 0, dk_size = 1, dk_usable = 0, dk_nentries = 0,
     dk_indices = replicate 8 DKIX_EMPTY, dk_entries = []\<rparr>"

definition USABLE_FRACTION :: "nat \<Rightarrow> nat" where
  "USABLE_FRACTION n = (2 * n) div 3"

definition IS_POWER_OF_2 :: "int \<Rightarrow> bool" where
  "IS_POWER_OF_2 x \<longleftrightarrow> x AND (x - 1) = 0"

definition DK_MASK :: "('k, 'v) dictkeys \<Rightarrow> size_t" where
  "DK_MASK dk = of_nat (dk_size dk) - 1"

definition dictkeys_get_index :: "('k, 'v) dictkeys \<Rightarrow> size_t \<Rightarrow> int pyres" where
  "dictkeys_get_index keys i =
     (if unat i < length (dk_indices keys) then Inr (dk_indices keys ! unat i) else Inl AssertionFailed)"

text \<open>The largest index a slot can hold, by the size of the table.\<close>

definition max_index :: "nat \<Rightarrow> int" where
  "max_index s = (if s \<le> 0xff then 0x7f else if s \<le> 0xffff then 0x7fff
     else if s > 0xffffffff then PY_SSIZE_T_MAX else 0x7fffffff)"

definition dictkeys_set_index :: "('k, 'v) dictkeys \<Rightarrow> size_t \<Rightarrow> int \<Rightarrow> ('k, 'v) dictkeys pyres" where
  "dictkeys_set_index keys i ix =
     rbind (c_assert (ix \<ge> DKIX_DUMMY)) (\<lambda>_.
     rbind (c_assert (ix \<le> max_index (dk_size keys))) (\<lambda>_.
     rbind (c_assert (unat i < length (dk_indices keys))) (\<lambda>_.
       Inr (keys\<lparr>dk_indices := (dk_indices keys)[unat i := ix]\<rparr>))))"

definition get_entry :: "('k, 'v) dictkeys \<Rightarrow> int \<Rightarrow> ('k, 'v) dkentry pyres" where
  "get_entry keys ix =
     (if 0 \<le> ix \<and> nat ix < length (dk_entries keys) then Inr (dk_entries keys ! nat ix) else Inl AssertionFailed)"

definition set_entry :: "('k, 'v) dictkeys \<Rightarrow> int \<Rightarrow> ('k, 'v) dkentry \<Rightarrow> ('k, 'v) dictkeys pyres" where
  "set_entry keys ix ep =
     (if 0 \<le> ix \<and> nat ix < length (dk_entries keys) then Inr (keys\<lparr>dk_entries := (dk_entries keys)[nat ix := ep]\<rparr>)
      else Inl AssertionFailed)"

text \<open>\<open>1LL << 63\<close> is negative, which \<open>dictresize\<close> takes for a failure.\<close>

definition calculate_keysize :: "nat \<Rightarrow> int" where
  "calculate_keysize minsize =
     (let m = (of_nat minsize OR 8) - 1;
          b = Py_bit_length (m OR 7)
      in if b \<ge> 63 then - (2 ^ 63) else 2 ^ b)"

definition estimate_keysize :: "nat \<Rightarrow> int" where
  "estimate_keysize n = calculate_keysize ((n * 3 + 1) div 2)"

definition GROWTH_RATE :: "('k, 'v) pydict \<Rightarrow> nat" where
  "GROWTH_RATE d = ma_used d * 3"

definition empty_entry :: "('k, 'v) dkentry" where
  "empty_entry = \<lparr>me_hash = 0, me_key = None, me_value = None\<rparr>"

text \<open>The size of the allocation is computed in \<open>size_t\<close>; the struct itself has 40 bytes, an entry 24.\<close>

definition new_keys_object :: "nat \<Rightarrow> nat \<Rightarrow> ('k, 'v) dictkeys pyres" where
  "new_keys_object fresh sz =
     rbind (c_assert (sz \<ge> PyDict_MINSIZE)) (\<lambda>_.
     rbind (c_assert (IS_POWER_OF_2 (int sz))) (\<lambda>_.
       let usable = USABLE_FRACTION sz;
           es = (if sz \<le> 0xff then 1 else if sz \<le> 0xffff then 2 else if sz \<le> 0xffffffff then 4 else 8) :: size_t;
           bytes = 40 + es * of_nat sz + 24 * of_nat usable
       in if uint bytes > PY_SSIZE_T_MAX then Inl MemoryError
          else Inr \<lparr>dk_id = fresh, dk_size = sz, dk_usable = int usable, dk_nentries = 0,
                    dk_indices = replicate sz DKIX_EMPTY, dk_entries = replicate usable empty_entry\<rparr>))"

text \<open>\<open>_PyDict_CheckConsistency\<close>, the debug build's check; \<open>ASSERT_CONSISTENT\<close> does not look at the content.\<close>

definition CheckConsistency :: "('k, 'v) pydict \<Rightarrow> bool \<Rightarrow> bool" where
  "CheckConsistency mp check_content =
     (let keys = ma_keys mp;
          usable = USABLE_FRACTION (dk_size keys)
      in ma_used mp \<le> usable \<and> IS_POWER_OF_2 (int (dk_size keys)) \<and>
         0 \<le> dk_usable keys \<and> dk_usable keys \<le> int usable \<and> dk_nentries keys \<le> usable \<and>
         dk_usable keys + int (dk_nentries keys) \<le> int usable \<and>
         (check_content \<longrightarrow>
            list_all (\<lambda>ix. DKIX_DUMMY \<le> ix \<and> ix \<le> int usable) (take (dk_size keys) (dk_indices keys)) \<and>
            list_all (\<lambda>ep. me_key ep \<noteq> None \<longrightarrow> me_hash ep \<noteq> -1 \<and> me_value ep \<noteq> None) (take usable (dk_entries keys))))"

abbreviation ASSERT_CONSISTENT :: "('k, 'v) pydict \<Rightarrow> bool" where
  "ASSERT_CONSISTENT mp \<equiv> CheckConsistency mp False"

definition PyDict_New :: "('k, 'v) pydict" where
  "PyDict_New = \<lparr>ma_used = 0, ma_keys = Py_EMPTY_KEYS, ma_fresh = 1\<rparr>"

section \<open>Probing\<close>

definition probe_next :: "size_t \<Rightarrow> size_t \<times> size_t \<Rightarrow> size_t \<times> size_t" where
  "probe_next msk = (\<lambda>(i, perturb).
     let perturb = drop_bit PERTURB_SHIFT perturb in ((i * 5 + perturb + 1) AND msk, perturb))"

text \<open>The probe loops: from slot \<open>i\<close> on until the index there passes the test.\<close>

partial_function (option) probe ::
    "(int \<Rightarrow> bool) \<Rightarrow> ('k, 'v) dictkeys \<Rightarrow> size_t \<Rightarrow> size_t \<times> size_t \<Rightarrow> size_t pyres option" where
  "probe stop keys msk p =
     (case dictkeys_get_index keys (fst p) of
        Inl e \<Rightarrow> Some (Inl e)
      | Inr ix \<Rightarrow> if stop ix then Some (Inr (fst p)) else probe stop keys msk (probe_next msk p))"

declare probe.simps [code]

text \<open>Search index of hash table from offset of entry table.\<close>

definition lookdict_index :: "('k, 'v) dictkeys \<Rightarrow> size_t \<Rightarrow> int \<Rightarrow> int pyres option" where
  "lookdict_index k hash index =
     (let msk = DK_MASK k in
      case probe (\<lambda>ix. ix = index \<or> ix = DKIX_EMPTY) k msk (hash AND msk, hash) of
        None \<Rightarrow> None
      | Some r \<Rightarrow> Some (rbind r (\<lambda>i. rbind (dictkeys_get_index k i) (\<lambda>ix.
          Inr (if ix = index then uint i else DKIX_EMPTY)))))"

definition find_empty_slot :: "('k, 'v) dictkeys \<Rightarrow> size_t \<Rightarrow> size_t pyres option" where
  "find_empty_slot keys hash = (let msk = DK_MASK keys in probe (\<lambda>ix. \<not> ix \<ge> 0) keys msk (hash AND msk, hash))"

fun build_indices :: "('k, 'v) dictkeys \<Rightarrow> nat \<Rightarrow> ('k, 'v) dkentry list \<Rightarrow> ('k, 'v) dictkeys pyres option" where
  "build_indices keys ix [] = Some (Inr keys)"
| "build_indices keys ix (ep # eps) =
     (let msk = DK_MASK keys in
      case probe (\<lambda>ix. ix = DKIX_EMPTY) keys msk (me_hash ep AND msk, me_hash ep) of
        None \<Rightarrow> None
      | Some (Inl e) \<Rightarrow> Some (Inl e)
      | Some (Inr i) \<Rightarrow>
          (case dictkeys_set_index keys i (int ix) of
             Inl e \<Rightarrow> Some (Inl e)
           | Inr keys \<Rightarrow> build_indices keys (ix + 1) eps))"

type_synonym ('k, 'v, 'w) key_eq = "'k \<Rightarrow> 'k \<Rightarrow> (('k, 'v) pydict \<times> 'w, bool) py"

text \<open>
  \<open>lookdict\<close>. The local variables are the identity of the table, the mask, the slot and \<open>perturb\<close>.
  After a comparison the table and the entry are looked at again: when they changed the search
  starts over, which may go on forever.
\<close>

type_synonym lookpos = "nat \<times> size_t \<times> size_t \<times> size_t"

definition look_top :: "('k, 'v) pydict \<Rightarrow> size_t \<Rightarrow> lookpos" where
  "look_top mp hash =
     (let dk = ma_keys mp; msk = DK_MASK dk in (dk_id dk, msk, hash AND msk, hash))"

definition look_next :: "lookpos \<Rightarrow> lookpos" where
  "look_next = (\<lambda>(dk, msk, p). (dk, msk, probe_next msk p))"

partial_function (option) lookdict_loop ::
    "('k, 'v, 'w) key_eq \<Rightarrow> 'k \<Rightarrow> size_t \<Rightarrow> lookpos \<Rightarrow> (('k, 'v) pydict \<times> 'w, int \<times> 'v option) pyo" where
  "lookdict_loop eqf key hash pos s =
     (case dictkeys_get_index (ma_keys (fst s)) (fst (snd (snd pos))) of
        Inl e \<Rightarrow> Some (s, Inl e)
      | Inr ix \<Rightarrow>
          if ix = DKIX_EMPTY then Some (s, Inr (ix, None))
          else if ix \<ge> 0 then
            (case get_entry (ma_keys (fst s)) ix of
               Inl e \<Rightarrow> Some (s, Inl e)
             | Inr ep \<Rightarrow>
                 (case me_key ep of
                    None \<Rightarrow> Some (s, Inl AssertionFailed)
                  | Some startkey \<Rightarrow>
                      if startkey = key then Some (s, Inr (ix, me_value ep))
                      else if me_hash ep = hash then
                        (case eqf startkey key s of
                           (t, Inl e) \<Rightarrow> Some (t, Inl e)
                         | (t, Inr cmp) \<Rightarrow>
                             if dk_id (ma_keys (fst t)) = fst pos then
                               (case get_entry (ma_keys (fst t)) ix of
                                  Inl e \<Rightarrow> Some (t, Inl e)
                                | Inr ep \<Rightarrow>
                                    if me_key ep = Some startkey then
                                      if cmp then Some (t, Inr (ix, me_value ep))
                                      else lookdict_loop eqf key hash (look_next pos) t
                                    else lookdict_loop eqf key hash (look_top (fst t) hash) t)
                             else lookdict_loop eqf key hash (look_top (fst t) hash) t)
                      else lookdict_loop eqf key hash (look_next pos) s))
          else lookdict_loop eqf key hash (look_next pos) s)"

declare lookdict_loop.simps [code]

definition lookdict :: "('k, 'v, 'w) key_eq \<Rightarrow> 'k \<Rightarrow> size_t \<Rightarrow> (('k, 'v) pydict \<times> 'w, int \<times> 'v option) pyo" where
  "lookdict eqf key hash = (\<lambda>s. lookdict_loop eqf key hash (look_top (fst s) hash) s)"

section \<open>Insertion, resizing, deletion\<close>

text \<open>An operation on the dict alone.\<close>

definition on_dict :: "(('k, 'v) pydict, 'a) pyo \<Rightarrow> (('k, 'v) pydict \<times> 'w, 'a) pyo" where
  "on_dict m = (\<lambda>(mp, w). case m mp of None \<Rightarrow> None | Some (mp, r) \<Rightarrow> Some ((mp, w), r))"

fun copy_live :: "nat \<Rightarrow> ('k, 'v) dkentry list \<Rightarrow> ('k, 'v) dkentry list pyres" where
  "copy_live 0 eps = Inr []"
| "copy_live (Suc n) [] = Inl AssertionFailed"
| "copy_live (Suc n) (ep # eps) =
     (if me_value ep = None then copy_live (Suc n) eps
      else rbind (copy_live n eps) (\<lambda>xs. Inr (ep # xs)))"

definition dictresize :: "int \<Rightarrow> (('k, 'v) pydict, unit) pyo" where
  "dictresize newsize = (\<lambda>mp.
     if newsize \<le> 0 then Some (mp, Inl MemoryError)
     else if \<not> (IS_POWER_OF_2 newsize \<and> newsize \<ge> int PyDict_MINSIZE) then Some (mp, Inl AssertionFailed)
     else
       (case new_keys_object (ma_fresh mp) (nat newsize) of
          Inl e \<Rightarrow> Some (mp, Inl e)
        | Inr keys \<Rightarrow>
            if \<not> dk_usable keys \<ge> int (ma_used mp) then Some (mp, Inl AssertionFailed)
            else
              let oldkeys = ma_keys mp;
                  numentries = ma_used mp
              in
              (case (if dk_nentries oldkeys = numentries then Inr (take numentries (dk_entries oldkeys))
                     else copy_live numentries (dk_entries oldkeys)) of
                 Inl e \<Rightarrow> Some (mp, Inl e)
               | Inr newentries \<Rightarrow>
                   (case build_indices (keys\<lparr>dk_entries := array_write (dk_entries keys) 0 newentries\<rparr>) 0 newentries of
                      None \<Rightarrow> None
                    | Some (Inl e) \<Rightarrow> Some (mp, Inl e)
                    | Some (Inr keys) \<Rightarrow>
                        Some (mp\<lparr>ma_keys := keys\<lparr>dk_usable := dk_usable keys - int numentries, dk_nentries := numentries\<rparr>,
                                 ma_fresh := ma_fresh mp + 1\<rparr>, Inr ())))))"

definition insertion_resize :: "(('k, 'v) pydict, unit) pyo" where
  "insertion_resize = (\<lambda>mp. dictresize (calculate_keysize (GROWTH_RATE mp)) mp)"

text \<open>The branch \<open>ix == DKIX_EMPTY\<close> of \<open>insertdict\<close> and of \<open>PyDict_SetDefault\<close>.\<close>

definition put_new_entry :: "'k \<Rightarrow> size_t \<Rightarrow> 'v \<Rightarrow> size_t \<Rightarrow> (('k, 'v) pydict, unit) py" where
  "put_new_entry key hash v hashpos = (\<lambda>mp.
     let keys = ma_keys mp; n = dk_nentries keys in
     case rbind (dictkeys_set_index keys hashpos (int n)) (\<lambda>keys.
            set_entry keys (int n) \<lparr>me_hash = hash, me_key = Some key, me_value = Some v\<rparr>) of
       Inl e \<Rightarrow> (mp, Inl e)
     | Inr keys \<Rightarrow>
         (mp\<lparr>ma_used := ma_used mp + 1,
            ma_keys := keys\<lparr>dk_usable := dk_usable keys - 1, dk_nentries := n + 1\<rparr>\<rparr>, Inr ()))"

definition insert_new :: "'k \<Rightarrow> size_t \<Rightarrow> 'v \<Rightarrow> (('k, 'v) pydict, unit) pyo" where
  "insert_new key hash v =
     obind (oget (\<lambda>mp. dk_usable (ma_keys mp))) (\<lambda>usable.
     obind (if usable \<le> 0 then insertion_resize else oret ()) (\<lambda>_.
     obind (oget ma_keys) (\<lambda>keys.
     obind (oloop (find_empty_slot keys hash)) (\<lambda>hashpos.
     obind (oterm (put_new_entry key hash v hashpos)) (\<lambda>_.
     obind (oget (\<lambda>mp. dk_usable (ma_keys mp))) (\<lambda>usable. oassert (usable \<ge> 0)))))))"

definition set_value :: "int \<Rightarrow> 'v \<Rightarrow> (('k, 'v) pydict, unit) py" where
  "set_value ix v = (\<lambda>mp.
     case rbind (get_entry (ma_keys mp) ix) (\<lambda>ep. set_entry (ma_keys mp) ix (ep\<lparr>me_value := Some v\<rparr>)) of
       Inl e \<Rightarrow> (mp, Inl e)
     | Inr keys \<Rightarrow> (mp\<lparr>ma_keys := keys\<rparr>, Inr ()))"

definition check_consistent :: "(('k, 'v) pydict \<times> 'w, unit) pyo" where
  "check_consistent = obind (oget (\<lambda>s. ASSERT_CONSISTENT (fst s))) oassert"

definition insertdict :: "('k, 'v, 'w) key_eq \<Rightarrow> 'k \<Rightarrow> size_t \<Rightarrow> 'v \<Rightarrow> (('k, 'v) pydict \<times> 'w, unit) pyo" where
  "insertdict eqf key hash v =
     obind (lookdict eqf key hash) (\<lambda>(ix, old_value).
       if ix = DKIX_EMPTY then
         obind (oassert (old_value = None)) (\<lambda>_.
         obind (on_dict (insert_new key hash v)) (\<lambda>_. check_consistent))
       else
         obind
           (if old_value \<noteq> Some v then
              obind (oassert (old_value \<noteq> None)) (\<lambda>_. on_dict (oterm (set_value ix v)))
            else oret ()) (\<lambda>_.
           check_consistent))"

definition insert_to_emptydict :: "'k \<Rightarrow> size_t \<Rightarrow> 'v \<Rightarrow> (('k, 'v) pydict, unit) py" where
  "insert_to_emptydict key hash v = (\<lambda>mp.
     if ma_keys mp \<noteq> Py_EMPTY_KEYS then (mp, Inl AssertionFailed)
     else
       (case new_keys_object (ma_fresh mp) PyDict_MINSIZE of
          Inl e \<Rightarrow> (mp, Inl e)
        | Inr newkeys \<Rightarrow>
            put_new_entry key hash v (hash AND (of_nat PyDict_MINSIZE - 1))
              (mp\<lparr>ma_keys := newkeys, ma_fresh := ma_fresh mp + 1\<rparr>)))"

definition PyDict_SetItem :: "('k, 'v, 'w) key_eq \<Rightarrow> 'k \<Rightarrow> size_t \<Rightarrow> 'v \<Rightarrow> (('k, 'v) pydict \<times> 'w, unit) pyo" where
  "PyDict_SetItem eqf key hash v =
     obind (oget (\<lambda>s. ma_keys (fst s))) (\<lambda>keys.
       if keys = Py_EMPTY_KEYS then on_dict (oterm (insert_to_emptydict key hash v))
       else insertdict eqf key hash v)"

text \<open>
  Deletion. \<open>clear_entry\<close> is the last step of \<open>delitem_common\<close> and \<open>_PyDict_Pop_KnownHash\<close>: the slot
  becomes a dummy and the entry forgets its key and value.
\<close>

definition clear_entry :: "size_t \<Rightarrow> int \<Rightarrow> (('k, 'v) pydict, unit) py" where
  "clear_entry hashpos ix = (\<lambda>mp.
     case rbind (dictkeys_set_index (ma_keys mp) hashpos DKIX_DUMMY) (\<lambda>keys.
          rbind (get_entry keys ix) (\<lambda>ep. set_entry keys ix (ep\<lparr>me_key := None, me_value := None\<rparr>))) of
       Inl e \<Rightarrow> (mp, Inl e)
     | Inr keys \<Rightarrow> (mp\<lparr>ma_used := ma_used mp - 1, ma_keys := keys\<rparr>, Inr ()))"

definition delitem_common :: "size_t \<Rightarrow> int \<Rightarrow> (('k, 'v) pydict, unit) pyo" where
  "delitem_common hash ix =
     obind (oget ma_keys) (\<lambda>keys.
     obind (oloop (lookdict_index keys hash ix)) (\<lambda>hashpos.
     obind (oassert (hashpos \<ge> 0)) (\<lambda>_.
     obind (oterm (clear_entry (of_int hashpos) ix)) (\<lambda>_.
     obind (oget ASSERT_CONSISTENT) oassert))))"

definition PyDict_DelItem :: "('k, 'v, 'w) key_eq \<Rightarrow> 'k \<Rightarrow> size_t \<Rightarrow> (('k, 'v) pydict \<times> 'w, unit) pyo" where
  "PyDict_DelItem eqf key hash =
     obind (oassert (hash \<noteq> -1)) (\<lambda>_.
     obind (lookdict eqf key hash) (\<lambda>(ix, old_value).
       if ix = DKIX_EMPTY \<or> old_value = None then oraise KeyError
       else on_dict (delitem_common hash ix)))"

text \<open>The slot, not the hash, is what \<open>_PyDict_DelItemIf\<close> passes to \<open>delitem_common\<close>.\<close>

definition PyDict_DelItemIf ::
    "('k, 'v, 'w) key_eq \<Rightarrow> 'k \<Rightarrow> size_t \<Rightarrow> ('v \<Rightarrow> bool pyres) \<Rightarrow> (('k, 'v) pydict \<times> 'w, unit) pyo" where
  "PyDict_DelItemIf eqf key hash predicate =
     obind (lookdict eqf key hash) (\<lambda>(ix, old_value).
       case old_value of
         None \<Rightarrow> oraise KeyError
       | Some v \<Rightarrow>
           if ix = DKIX_EMPTY then oraise KeyError
           else
             obind (olift (predicate v)) (\<lambda>res.
             obind (oget (\<lambda>s. ma_keys (fst s))) (\<lambda>keys.
             obind (oloop (lookdict_index keys hash ix)) (\<lambda>hashpos.
             obind (oassert (hashpos \<ge> 0)) (\<lambda>_.
               if res then on_dict (delitem_common (of_int hashpos) ix) else oret ())))))"

definition PyDict_Pop :: "('k, 'v, 'w) key_eq \<Rightarrow> 'k \<Rightarrow> size_t \<Rightarrow> 'v option \<Rightarrow> (('k, 'v) pydict \<times> 'w, 'v) pyo" where
  "PyDict_Pop eqf key hash deflt =
     obind (oget (\<lambda>s. ma_used (fst s))) (\<lambda>used.
       let missing = (case deflt of Some v \<Rightarrow> oret v | None \<Rightarrow> oraise KeyError)
       in
       if used = 0 then missing
       else
         obind (lookdict eqf key hash) (\<lambda>(ix, old_value).
           if ix = DKIX_EMPTY then missing
           else
             case old_value of
               None \<Rightarrow> missing
             | Some v \<Rightarrow>
                 obind (on_dict (obind (oget ma_keys) (\<lambda>keys.
                   obind (oloop (lookdict_index keys hash ix)) (\<lambda>hashpos.
                   obind (oassert (hashpos \<ge> 0)) (\<lambda>_.
                     oterm (clear_entry (of_int hashpos) ix)))))) (\<lambda>_.
                 obind check_consistent (\<lambda>_. oret v))))"

text \<open>\<open>while (i >= 0 && ep0[i].me_value == NULL) i--;\<close>, with \<open>n = i + 1\<close>.\<close>

fun last_live :: "('k, 'v) dkentry list \<Rightarrow> nat \<Rightarrow> int pyres" where
  "last_live eps 0 = Inr (-1)"
| "last_live eps (Suc i) =
     (if \<not> i < length eps then Inl AssertionFailed
      else if me_value (eps ! i) = None then last_live eps i else Inr (int i))"

definition dict_popitem :: "(('k, 'v) pydict, 'k \<times> 'v) pyo" where
  "dict_popitem =
     obind (oget ma_used) (\<lambda>used.
       if used = 0 then oraise KeyError
       else
         obind (oget ma_keys) (\<lambda>keys.
         obind (olift (last_live (dk_entries keys) (dk_nentries keys))) (\<lambda>i.
         obind (oassert (i \<ge> 0)) (\<lambda>_.
         obind (olift (get_entry keys i)) (\<lambda>ep.
         obind (oloop (lookdict_index keys (me_hash ep) i)) (\<lambda>j.
         obind (oassert (j \<ge> 0)) (\<lambda>_.
         obind (olift (dictkeys_get_index keys (of_int j))) (\<lambda>ix.
         obind (oassert (ix = i)) (\<lambda>_.
         obind (oterm (clear_entry (of_int j) i)) (\<lambda>_.
         obind (omodify (\<lambda>mp. mp\<lparr>ma_keys := (ma_keys mp)\<lparr>dk_nentries := nat i\<rparr>\<rparr>)) (\<lambda>_.
         obind (obind (oget ASSERT_CONSISTENT) oassert) (\<lambda>_.
           case (me_key ep, me_value ep) of
             (Some k, Some v) \<Rightarrow> oret (k, v)
           | _ \<Rightarrow> oraise AssertionFailed))))))))))))"

definition PyDict_Clear :: "('k, 'v) pydict \<Rightarrow> ('k, 'v) pydict" where
  "PyDict_Clear mp = (if ma_keys mp = Py_EMPTY_KEYS then mp else mp\<lparr>ma_keys := Py_EMPTY_KEYS, ma_used := 0\<rparr>)"

section \<open>Reading\<close>

definition dict_subscript :: "('k, 'v, 'w) key_eq \<Rightarrow> 'k \<Rightarrow> size_t \<Rightarrow> (('k, 'v) pydict \<times> 'w, 'v) pyo" where
  "dict_subscript eqf key hash =
     obind (lookdict eqf key hash) (\<lambda>(ix, value).
       case value of
         None \<Rightarrow> oraise KeyError
       | Some v \<Rightarrow> if ix = DKIX_EMPTY then oraise KeyError else oret v)"

definition dict_contains :: "('k, 'v, 'w) key_eq \<Rightarrow> 'k \<Rightarrow> size_t \<Rightarrow> (('k, 'v) pydict \<times> 'w, bool) pyo" where
  "dict_contains eqf key hash =
     obind (lookdict eqf key hash) (\<lambda>(ix, value). oret (\<not> (ix = DKIX_EMPTY \<or> value = None)))"

definition dict_get :: "('k, 'v, 'w) key_eq \<Rightarrow> 'k \<Rightarrow> size_t \<Rightarrow> 'v \<Rightarrow> (('k, 'v) pydict \<times> 'w, 'v) pyo" where
  "dict_get eqf key hash default_value =
     obind (lookdict eqf key hash) (\<lambda>(ix, val).
       case val of
         None \<Rightarrow> oret default_value
       | Some v \<Rightarrow> oret (if ix = DKIX_EMPTY then default_value else v))"

definition PyDict_SetDefault :: "('k, 'v, 'w) key_eq \<Rightarrow> 'k \<Rightarrow> size_t \<Rightarrow> 'v \<Rightarrow> (('k, 'v) pydict \<times> 'w, 'v) pyo" where
  "PyDict_SetDefault eqf key hash defaultobj =
     obind (oget (\<lambda>s. ma_keys (fst s))) (\<lambda>keys.
       if keys = Py_EMPTY_KEYS then
         obind (on_dict (oterm (insert_to_emptydict key hash defaultobj))) (\<lambda>_. oret defaultobj)
       else
         obind (lookdict eqf key hash) (\<lambda>(ix, value).
           if ix = DKIX_EMPTY then
             obind (on_dict (insert_new key hash defaultobj)) (\<lambda>_.
             obind check_consistent (\<lambda>_. oret defaultobj))
           else
             case value of
               None \<Rightarrow> oraise AssertionFailed
             | Some v \<Rightarrow> obind check_consistent (\<lambda>_. oret v)))"

text \<open>\<open>PyDict_Next\<close> from position \<open>i\<close>: the position behind the next live entry with its key and value.\<close>

function PyDict_Next :: "('k, 'v) dictkeys \<Rightarrow> nat \<Rightarrow> (nat \<times> 'k option \<times> 'v) option pyres" where
  "PyDict_Next keys i =
     (if i < dk_nentries keys then
        if \<not> i < length (dk_entries keys) then Inl AssertionFailed
        else
          let ep = dk_entries keys ! i in
          (case me_value ep of None \<Rightarrow> PyDict_Next keys (i + 1) | Some v \<Rightarrow> Inr (Some (i + 1, me_key ep, v)))
      else Inr None)"
  by pat_completeness auto
termination by (relation "measure (\<lambda>(keys, i). dk_nentries keys - i)") auto

section \<open>Whole dicts\<close>

definition clone_combined_dict_keys :: "nat \<Rightarrow> ('k, 'v) dictkeys \<Rightarrow> ('k, 'v) dictkeys" where
  "clone_combined_dict_keys fresh keys = keys\<lparr>dk_id := fresh\<rparr>"

text \<open>
  The other dict of an operation on two is an object of its own, in the rest of the state: \<open>other\<close>
  reads it there, each time the code does, so that a comparison may change it. The entries of the
  table it had when the loop began are read through \<open>ep0\<close>, the identity of that table; when the other
  dict no longer has this table it has been freed, and to read it is an access to freed memory.
\<close>

definition read_entry :: "('k, 'v) dictkeys \<Rightarrow> nat \<Rightarrow> nat \<Rightarrow> ('k, 'v) dkentry pyres" where
  "read_entry keys ep0 i =
     (if dk_id keys = ep0 \<and> i < length (dk_entries keys) then Inr (dk_entries keys ! i) else Inl AssertionFailed)"

text \<open>The loop of \<open>dict_merge\<close> over the entries of the other dict.\<close>

function merge_entries ::
    "('k, 'v, 'w) key_eq \<Rightarrow> ('w \<Rightarrow> ('k, 'v) pydict) \<Rightarrow> nat \<Rightarrow> nat \<Rightarrow> nat \<Rightarrow> nat \<Rightarrow> (('k, 'v) pydict \<times> 'w, unit) pyo" where
  "merge_entries eqf other override ep0 n i =
     (if i < n then
        obind (oget (\<lambda>s. ma_keys (other (snd s)))) (\<lambda>okeys.
        obind (olift (read_entry okeys ep0 i)) (\<lambda>entry.
          case (me_key entry, me_value entry) of
            (_, None) \<Rightarrow> merge_entries eqf other override ep0 n (i + 1)
          | (None, Some _) \<Rightarrow> oraise AssertionFailed
          | (Some key, Some v) \<Rightarrow>
              obind
                (if override = 1 then insertdict eqf key (me_hash entry) v
                 else
                   obind (dict_contains eqf key (me_hash entry)) (\<lambda>found.
                     if \<not> found then insertdict eqf key (me_hash entry) v
                     else if override \<noteq> 0 then oraise KeyError
                     else oret ())) (\<lambda>_.
              obind (oget (\<lambda>s. dk_nentries (ma_keys (other (snd s))))) (\<lambda>nentries.
                if n \<noteq> nentries then oraise RuntimeError
                else merge_entries eqf other override ep0 n (i + 1)))))
      else oret ())"
  by pat_completeness auto
termination by (relation "measure (\<lambda>(eqf, other, override, ep0, n, i). n - i)") auto

declare merge_entries.simps [simp del]

text \<open>\<open>same\<close> is the test \<open>other == mp\<close>.\<close>

definition dict_merge ::
    "('k, 'v, 'w) key_eq \<Rightarrow> bool \<Rightarrow> ('w \<Rightarrow> ('k, 'v) pydict) \<Rightarrow> nat \<Rightarrow> (('k, 'v) pydict \<times> 'w, unit) pyo" where
  "dict_merge eqf same other override =
     obind (oassert (override \<le> 2)) (\<lambda>_.
     obind (oget id) (\<lambda>(mp, w).
       let okeys = ma_keys (other w) in
       if same \<or> ma_used (other w) = 0 then oret ()
       else if ma_used mp = 0 \<and> ma_used (other w) = dk_nentries okeys \<and>
               (dk_size okeys = PyDict_MINSIZE \<or> USABLE_FRACTION (dk_size okeys div 2) < ma_used (other w)) then
         obind (on_dict (omodify (\<lambda>mp.
           mp\<lparr>ma_keys := clone_combined_dict_keys (ma_fresh mp) okeys, ma_fresh := ma_fresh mp + 1,
             ma_used := ma_used (other w)\<rparr>))) (\<lambda>_.
         check_consistent)
       else
         let override = (if ma_used mp = 0 then 1 else override)
         in
         obind
           (if USABLE_FRACTION (dk_size (ma_keys mp)) < ma_used (other w) then
              on_dict (dictresize (estimate_keysize (ma_used mp + ma_used (other w))))
            else oret ()) (\<lambda>_.
         obind (merge_entries eqf other override (dk_id okeys) (dk_nentries okeys) 0) (\<lambda>_.
           check_consistent))))"

text \<open>
  The copy of the dict \<open>mp\<close> that is in the rest of the state, a new object: the result is the state
  with the copy in front.
\<close>

definition PyDict_Copy ::
    "('k, 'v, 'w) key_eq \<Rightarrow> ('w \<Rightarrow> ('k, 'v) pydict) \<Rightarrow> 'w \<Rightarrow> ((('k, 'v) pydict \<times> 'w) \<times> unit pyres) option" where
  "PyDict_Copy eqf src w =
     (let mp = src w in
      if ma_used mp = 0 then Some ((PyDict_New, w), Inr ())
      else if ma_used mp \<ge> (dk_nentries (ma_keys mp) * 2) div 3 then
        let new = \<lparr>ma_used = ma_used mp, ma_keys = clone_combined_dict_keys 1 (ma_keys mp), ma_fresh = 2\<rparr>
        in obind check_consistent (\<lambda>_. oret ()) (new, w)
      else dict_merge eqf False src 1 (PyDict_New, w))"

definition PyDict_NewPresized :: "nat \<Rightarrow> ('k, 'v) pydict pyres" where
  "PyDict_NewPresized minused =
     (let max_presize = 128 * 1024 in
      if minused \<le> USABLE_FRACTION PyDict_MINSIZE then Inr PyDict_New
      else
        let newsize = (if minused > USABLE_FRACTION max_presize then int max_presize else estimate_keysize minused)
        in rbind (new_keys_object 1 (nat newsize)) (\<lambda>keys. Inr \<lparr>ma_used = 0, ma_keys = keys, ma_fresh = 2\<rparr>))"

text \<open>
  \<open>dict_equal\<close>: \<open>veq\<close> compares values; the state is the second dict, with the first one, \<open>a\<close>, in the rest.
  The table of the first is looked up on every pass, so a comparison that keeps adding to it keeps
  the loop going.
\<close>

partial_function (option) dict_equal_loop ::
    "('k, 'v, 'w) key_eq \<Rightarrow> ('v \<Rightarrow> 'v \<Rightarrow> (('k, 'v) pydict \<times> 'w, bool) py) \<Rightarrow> ('w \<Rightarrow> ('k, 'v) pydict) \<Rightarrow> nat \<Rightarrow>
     (('k, 'v) pydict \<times> 'w, bool) pyo" where
  "dict_equal_loop eqf veq a i s =
     (let akeys = ma_keys (a (snd s)) in
      if \<not> i < dk_nentries akeys then Some (s, Inr True)
      else
        case get_entry akeys (int i) of
          Inl e \<Rightarrow> Some (s, Inl e)
        | Inr ep \<Rightarrow>
            (case me_value ep of
               None \<Rightarrow> dict_equal_loop eqf veq a (i + 1) s
             | Some aval \<Rightarrow>
                 (case me_key ep of
                    None \<Rightarrow> Some (s, Inl AssertionFailed)
                  | Some key \<Rightarrow>
                      (case lookdict eqf key (me_hash ep) s of
                         None \<Rightarrow> None
                       | Some (t, Inl e) \<Rightarrow> Some (t, Inl e)
                       | Some (t, Inr (ix, bval)) \<Rightarrow>
                           (case bval of
                              None \<Rightarrow> Some (t, Inr False)
                            | Some bval \<Rightarrow>
                                (case veq aval bval t of
                                   (u, Inl e) \<Rightarrow> Some (u, Inl e)
                                 | (u, Inr cmp) \<Rightarrow>
                                     if cmp then dict_equal_loop eqf veq a (i + 1) u else Some (u, Inr False)))))))"

declare dict_equal_loop.simps [code]

definition dict_equal ::
    "('k, 'v, 'w) key_eq \<Rightarrow> ('v \<Rightarrow> 'v \<Rightarrow> (('k, 'v) pydict \<times> 'w, bool) py) \<Rightarrow> ('w \<Rightarrow> ('k, 'v) pydict) \<Rightarrow>
     (('k, 'v) pydict \<times> 'w, bool) pyo" where
  "dict_equal eqf veq a =
     obind (oget id) (\<lambda>(b, w).
       if ma_used (a w) \<noteq> ma_used b then oret False
       else dict_equal_loop eqf veq a 0)"

end
