(* ===== verification/PyDictProbe.thy ===== *)
theory PyDictProbe
  imports PyDict
begin

text \<open>
  The probe sequence of a dict visits every slot, so a probe loop ends when there is a slot that
  passes its test: once \<open>perturb\<close> has been shifted out the slots follow \<open>j = (5*j + 1) mod 2**k\<close>, and
  that recurrence runs through all residues.
\<close>

section \<open>The recurrence\<close>

definition lcg :: "nat \<Rightarrow> nat" where
  "lcg x = 5 * x + 1"

lemma lcg_pow: "\<exists>c. odd c \<and> (\<forall>x. (lcg ^^ (2 ^ k)) x = x + 2 ^ k * c * (4 * x + 1))"
proof (induction k)
  case 0
  show ?case by (intro exI [of _ 1]) (simp add: lcg_def)
next
  case (Suc k)
  then obtain c where c: "odd c" "\<And>x. (lcg ^^ (2 ^ k)) x = x + 2 ^ k * c * (4 * x + 1)" by blast
  have "(lcg ^^ (2 ^ Suc k)) x = x + 2 ^ Suc k * (c * (1 + 2 * 2 ^ k * c)) * (4 * x + 1)" for x
  proof -
    have "(lcg ^^ (2 ^ Suc k)) x = (lcg ^^ (2 ^ k)) ((lcg ^^ (2 ^ k)) x)"
      by (simp add: mult_2 funpow_add)
    then show ?thesis by (simp add: c(2) algebra_simps)
  qed
  moreover have "odd (c * (1 + 2 * 2 ^ k * c))" using c(1) by simp
  ultimately show ?case by blast
qed

lemma lcg_mod: "(lcg ^^ n) x mod m = (lcg ^^ n) (x mod m) mod m"
proof (induction n arbitrary: x)
  case (Suc n)
  have "(lcg ^^ Suc n) x mod m = (lcg ^^ n) (lcg x) mod m" by (simp add: funpow_swap1)
  also have "\<dots> = (lcg ^^ n) (lcg x mod m) mod m" by (rule Suc)
  also have "lcg x mod m = lcg (x mod m) mod m" by (simp add: lcg_def) (metis mod_Suc_eq mod_mult_right_eq)
  also have "(lcg ^^ n) (lcg (x mod m) mod m) mod m = (lcg ^^ n) (lcg (x mod m)) mod m" by (rule Suc [symmetric])
  finally show ?case by (simp add: funpow_swap1)
qed simp

lemma lcg_cycle: "j < 2 ^ k \<Longrightarrow> \<exists>n < 2 ^ k. (lcg ^^ n) x mod 2 ^ k = j"
proof (induction k arbitrary: j)
  case (Suc k)
  let ?m = "2 ^ k :: nat"
  obtain n where n: "n < ?m" "(lcg ^^ n) x mod ?m = j mod ?m" using Suc.IH [of "j mod ?m"] by auto
  define y where "y = (lcg ^^ n) x"
  have two: "z mod (2 * ?m) = z mod ?m \<or> z mod (2 * ?m) = z mod ?m + ?m" for z :: nat
    using mod_mult2_eq [of z ?m 2] by (auto simp: mult.commute mod2_eq_if)
  show ?case
  proof (cases "y mod (2 * ?m) = j")
    case True
    then show ?thesis using n(1) by (intro exI [of _ n]) (simp add: y_def)
  next
    case False
    obtain c where c: "odd c" "(lcg ^^ ?m) y = y + ?m * c * (4 * y + 1)" using lcg_pow by blast
    then obtain d where d: "c * (4 * y + 1) = 2 * d + 1" by (metis oddE even_mult_iff odd_one dvd_add_times_triv_left_iff even_add even_numeral even_mult_iff)
    have "(lcg ^^ ?m) y = y + ?m * (c * (4 * y + 1))" using c(2) by (simp only: mult.assoc)
    then have "(lcg ^^ ?m) y = y + ?m + 2 * ?m * d" unfolding d by (simp add: algebra_simps)
    then have "(lcg ^^ ?m) y mod (2 * ?m) = (y + ?m) mod (2 * ?m)" by (metis mod_mult_self2)
    moreover have "(y + ?m) mod (2 * ?m) = j"
    proof -
      have j: "j = j mod ?m \<or> j = j mod ?m + ?m" using two [of j] Suc.prems by simp
      have y: "y mod ?m = j mod ?m" using n(2) by (simp add: y_def)
      have lt: "j mod ?m < ?m" by simp
      have e: "(y + ?m) mod (2 * ?m) = (y mod (2 * ?m) + ?m) mod (2 * ?m)" by (simp add: mod_add_left_eq)
      show ?thesis
      proof (cases "y mod (2 * ?m) = j mod ?m")
        case True
        then have "j mod ?m + ?m = j" using j False by simp
        then show ?thesis unfolding e True using Suc.prems by (metis mod_less power_Suc)
      next
        case q: False
        then have z: "y mod (2 * ?m) = j mod ?m + ?m" using two [of y] y by simp
        then have "j = j mod ?m" using j False by simp
        then have s: "j mod ?m + ?m + ?m = j + 2 * ?m" by simp
        have "(j + 2 * ?m) mod (2 * ?m) = j" using Suc.prems by simp
        then show ?thesis unfolding e z s .
      qed
    qed
    ultimately have "(lcg ^^ (?m + n)) x mod (2 * ?m) = j" by (simp add: funpow_add y_def)
    then show ?thesis using n(1) by (intro exI [of _ "?m + n"]) simp
  qed
qed simp

section \<open>The slots\<close>

lemma probe_next_perturb: "snd ((probe_next msk ^^ n) p) = drop_bit (PERTURB_SHIFT * n) (snd p)"
  by (induction n) (simp_all add: probe_next_def Let_def case_prod_beta drop_bit_drop_bit)

lemma probe_perturb_gone: "13 \<le> n \<Longrightarrow> snd ((probe_next msk ^^ n) p) = 0"
proof -
  assume "13 \<le> n"
  then have "64 \<le> PERTURB_SHIFT * n" by (simp add: PERTURB_SHIFT_def)
  then show ?thesis unfolding probe_next_perturb by (intro bit_word_eqI) (simp add: bit_drop_bit_eq)
qed

lemma probe_next_lcg:
  assumes "snd p = 0" and "k \<le> 64"
  shows "unat (fst (probe_next (mask k) p)) = lcg (unat (fst p)) mod 2 ^ k" and "snd (probe_next (mask k) p) = 0"
proof -
  have "unat (fst p * 5 + 1 :: size_t) mod 2 ^ k = (unat (fst p) * 5 + 1) mod 2 ^ 64 mod 2 ^ k"
    by (simp add: unat_word_ariths mod_simps)
  also have "\<dots> = lcg (unat (fst p)) mod 2 ^ k"
  proof -
    have d: "(2 :: nat) ^ k dvd 2 ^ 64" using assms(2) by (rule le_imp_power_dvd)
    show ?thesis unfolding mod_mod_cancel [OF d] by (simp add: lcg_def mult.commute)
  qed
  finally show "unat (fst (probe_next (mask k) p)) = lcg (unat (fst p)) mod 2 ^ k"
    using assms by (simp add: probe_next_def case_prod_beta unat_and_mask)
qed (use assms in \<open>simp add: probe_next_def case_prod_beta\<close>)

lemma probe_fst_bound: "n \<noteq> 0 \<Longrightarrow> unat (fst ((probe_next (mask k) ^^ n) p)) < 2 ^ k"
  by (cases n) (simp_all add: probe_next_def case_prod_beta unat_and_mask Let_def)

lemma probe_after:
  assumes "snd p = 0" and "k \<le> 64"
  shows "unat (fst ((probe_next (mask k) ^^ n) p)) mod 2 ^ k = (lcg ^^ n) (unat (fst p)) mod 2 ^ k \<and>
    snd ((probe_next (mask k) ^^ n) p) = 0"
proof (induction n)
  case (Suc n)
  let ?q = "(probe_next (mask k) ^^ n) p"
  note nxt = probe_next_lcg [of ?q k, OF _ assms(2)]
  have "lcg (unat (fst ?q)) mod 2 ^ k = lcg ((lcg ^^ n) (unat (fst p))) mod 2 ^ k"
    using Suc lcg_mod [of 1 "unat (fst ?q)" "2 ^ k"] lcg_mod [of 1 "(lcg ^^ n) (unat (fst p))" "2 ^ k"] by simp
  then show ?case using nxt Suc by simp
qed (use assms in simp)

text \<open>Every slot is visited within \<open>14 + 2**k\<close> steps, from any start.\<close>

lemma probe_visits:
  assumes "j < 2 ^ k" and "k \<le> 64"
  shows "\<exists>n < 14 + 2 ^ k. unat (fst ((probe_next (mask k) ^^ n) p)) = j"
proof -
  let ?p = "(probe_next (mask k) ^^ 13) p"
  obtain n where n: "n < 2 ^ k" "(lcg ^^ n) (lcg (unat (fst ?p))) mod 2 ^ k = j"
    using lcg_cycle [OF assms(1)] by blast
  let ?q = "(probe_next (mask k) ^^ Suc n) ?p"
  have "unat (fst ?q) mod 2 ^ k = (lcg ^^ Suc n) (unat (fst ?p)) mod 2 ^ k"
    using probe_after [of ?p k "Suc n"] probe_perturb_gone [of 13] assms(2) by simp
  also have "\<dots> = j" using n(2) by (simp add: funpow_swap1)
  finally have "unat (fst ?q) = j" using probe_fst_bound [of "Suc n" k ?p] by simp
  moreover have "?q = (probe_next (mask k) ^^ (Suc n + 13)) p" by (simp only: funpow_add comp_apply)
  ultimately show ?thesis using n(1) by (intro exI [of _ "Suc n + 13"]) simp
qed

section \<open>The probe loop\<close>

definition probe_seq :: "size_t \<Rightarrow> size_t \<Rightarrow> nat \<Rightarrow> nat" where
  "probe_seq msk hash n = unat (fst ((probe_next msk ^^ n) (hash AND msk, hash)))"

lemma probe_seq_bound: "probe_seq (mask k) hash n < 2 ^ k"
  using probe_fst_bound [of n k] by (cases "n = 0") (simp_all add: probe_seq_def unat_and_mask)

lemma probe_run:
  assumes "\<And>m. m \<le> n \<Longrightarrow> unat (fst ((probe_next msk ^^ m) p)) < length (dk_indices keys)"
    and "\<And>m. m < n \<Longrightarrow> \<not> stop (dk_indices keys ! unat (fst ((probe_next msk ^^ m) p)))"
    and "stop (dk_indices keys ! unat (fst ((probe_next msk ^^ n) p)))"
  shows "probe stop keys msk p = Some (Inr (fst ((probe_next msk ^^ n) p)))"
  using assms
proof (induction n arbitrary: p)
  case 0
  then show ?case using 0(1) [of 0] by (subst probe.simps) (simp add: dictkeys_get_index_def)
next
  case (Suc n)
  have s: "(probe_next msk ^^ m) (probe_next msk p) = (probe_next msk ^^ Suc m) p" for m
    by (simp add: funpow_swap1)
  have IH: "probe stop keys msk (probe_next msk p) = Some (Inr (fst ((probe_next msk ^^ n) (probe_next msk p))))"
  proof (rule Suc.IH)
    show "unat (fst ((probe_next msk ^^ m) (probe_next msk p))) < length (dk_indices keys)" if "m \<le> n" for m
      unfolding s by (rule Suc.prems(1)) (use that in simp)
    show "\<not> stop (dk_indices keys ! unat (fst ((probe_next msk ^^ m) (probe_next msk p))))" if "m < n" for m
      unfolding s by (rule Suc.prems(2)) (use that in simp)
    show "stop (dk_indices keys ! unat (fst ((probe_next msk ^^ n) (probe_next msk p))))"
      unfolding s by (rule Suc.prems(3))
  qed
  have g: "dictkeys_get_index keys (fst p) = Inr (dk_indices keys ! unat (fst p))"
    using Suc.prems(1) [of 0] by (simp add: dictkeys_get_index_def)
  have ns: "\<not> stop (dk_indices keys ! unat (fst p))" using Suc.prems(2) [of 0] by simp
  show ?case unfolding probe.simps [of stop keys msk p] g sum.case if_not_P [OF ns] IH s by (rule refl)
qed

text \<open>The loop stops at the first slot of the sequence that passes the test.\<close>

lemma probe_stops:
  assumes k: "k \<le> 63" and len: "2 ^ k \<le> length (dk_indices keys)" and j: "j < 2 ^ k" "stop (dk_indices keys ! j)"
  shows "\<exists>n. probe stop keys (mask k) (hash AND mask k, hash) = Some (Inr (of_nat (probe_seq (mask k) hash n))) \<and>
    probe_seq (mask k) hash n < 2 ^ k \<and> stop (dk_indices keys ! probe_seq (mask k) hash n) \<and>
    (\<forall>m < n. \<not> stop (dk_indices keys ! probe_seq (mask k) hash m))"
proof -
  let ?p = "(hash AND mask k, hash)"
  have "\<exists>n. stop (dk_indices keys ! probe_seq (mask k) hash n)"
    using probe_visits [OF j(1), of ?p] k j(2) unfolding probe_seq_def by force
  then obtain n where n: "stop (dk_indices keys ! probe_seq (mask k) hash n)"
    "\<forall>m < n. \<not> stop (dk_indices keys ! probe_seq (mask k) hash m)"
    using exists_least_iff [of "\<lambda>n. stop (dk_indices keys ! probe_seq (mask k) hash n)"] by auto
  have "probe stop keys (mask k) ?p = Some (Inr (fst ((probe_next (mask k) ^^ n) ?p)))"
  proof (rule probe_run)
    show "unat (fst ((probe_next (mask k) ^^ m) ?p)) < length (dk_indices keys)" for m
      using probe_seq_bound [of k hash m] len unfolding probe_seq_def by linarith
  qed (use n in \<open>auto simp: probe_seq_def\<close>)
  then show ?thesis using n probe_seq_bound [of k hash n] by (intro exI [of _ n]) (simp add: probe_seq_def)
qed

end
