(* ===== verification/PyDictInv.thy ===== *)
theory PyDictInv
  imports PyDictProbe
begin

text \<open>
  The invariant of a dict: the indices are the entries' numbers, each on the probe path of its
  entry's hash before any empty slot, and there is always an empty slot. Every operation on the
  table keeps it, and its effect is stated on the list of live entries.
\<close>

section \<open>Sizes\<close>

lemma Py_bit_length_bounds:
  "unat x < 2 ^ Py_bit_length x" "x \<noteq> 0 \<Longrightarrow> 2 ^ Py_bit_length x \<le> 2 * unat x"
  using bit_length_loop_correct [of 0 x] by (auto simp: Py_bit_length_def)

lemma or_less_pow: "(x :: nat) < 2 ^ n \<Longrightarrow> y < 2 ^ n \<Longrightarrow> x OR y < 2 ^ n"
  by (simp add: take_bit_nat_eq_self_iff [symmetric])

lemma or_ge: "(x :: nat) \<le> x OR y" "(y :: nat) \<le> x OR y"
proof -
  have "int x \<le> int (x OR y)" "int y \<le> int (x OR y)"
    using or_greater_eq [of "int y" "int x"] or_greater_eq [of "int x" "int y"] by (simp_all add: of_nat_or_eq or.commute)
  then show "x \<le> x OR y" "y \<le> x OR y" by simp_all
qed

lemma calculate_keysize_bounds:
  assumes n: "n < 2 ^ e" and e: "4 \<le> e" "e \<le> 60"
  shows "\<exists>b. calculate_keysize n = 2 ^ b \<and> 3 \<le> b \<and> b \<le> e \<and> n \<le> 2 ^ b"
proof -
  let ?m = "(n OR 8) - 1"
  let ?w = "((of_nat n OR 8) - 1) OR 7 :: size_t"
  have pow: "(2 :: nat) ^ 4 \<le> 2 ^ e" "(2 :: nat) ^ e \<le> 2 ^ 60" by (intro power_increasing e, simp)+
  have lt: "n OR 8 < 2 ^ e" by (rule or_less_pow) (use n pow in simp_all)
  have ge: "n \<le> n OR 8" "8 \<le> n OR 8" by (rule or_ge)+
  have "unat (of_nat n OR 8 :: size_t) = n OR 8"
    using n pow by (simp add: unsigned_or_eq unat_of_nat take_bit_nat_eq_self)
  then have "unat ((of_nat n OR 8) - 1 :: size_t) = ?m"
    using ge by (subst unat_sub) (simp_all add: word_le_nat_alt)
  then have w: "unat ?w = ?m OR 7" by (simp add: unsigned_or_eq)
  have wl: "unat ?w < 2 ^ e" unfolding w by (rule or_less_pow) (use lt pow in simp_all)
  have wg: "?m \<le> unat ?w" "7 \<le> unat ?w" unfolding w by (rule or_ge)+
  define b where "b = Py_bit_length ?w"
  have nz: "?w \<noteq> 0" using wg by auto
  have lo: "unat ?w < 2 ^ b" and hi: "2 ^ b \<le> 2 * unat ?w"
    using Py_bit_length_bounds(1) [of ?w] Py_bit_length_bounds(2) [OF nz] by (simp_all only: b_def)
  have "(2 :: nat) ^ b < 2 ^ Suc e" using hi wl by simp
  then have be: "b \<le> e" using power_less_imp_less_exp [of "2 :: nat" b "Suc e"] by simp
  have b3: "3 \<le> b"
  proof (rule ccontr)
    assume "\<not> 3 \<le> b"
    then have "b \<le> 2" by simp
    then have "(2 :: nat) ^ b \<le> 2 ^ 2" by (rule power_increasing) simp
    then show False using lo wg by simp
  qed
  have "n \<le> 2 ^ b" using lo wg(1) ge by simp
  moreover have "calculate_keysize n = 2 ^ b" using be e by (simp add: calculate_keysize_def Let_def b_def)
  ultimately show ?thesis using b3 be by blast
qed

text \<open>
  The size is the least power of two that is greater than \<open>n\<close>, except that it is 8 for 0 and for 8,
  and 16 from 1 to 7.
\<close>

lemma pow_bound_or: "n < 2 ^ m \<Longrightarrow> 4 \<le> m \<Longrightarrow> ((n OR 8) - 1) OR 7 < (2 :: nat) ^ m"
proof -
  assume n: "n < 2 ^ m" and m: "4 \<le> m"
  have "(2 :: nat) ^ 4 \<le> 2 ^ m" using m by (rule power_increasing) simp
  then have p: "(8 :: nat) < 2 ^ m" "(7 :: nat) < 2 ^ m" by simp_all
  have "n OR 8 < 2 ^ m" by (rule or_less_pow [OF n p(1)])
  then have "(n OR 8) - 1 < 2 ^ m" by simp
  then show ?thesis using p(2) by (rule or_less_pow)
qed

lemma calculate_keysize_exact:
  assumes n: "n < 2 ^ 60"
  shows "n = 0 \<or> n = 8 \<Longrightarrow> calculate_keysize n = 8" and "0 < n \<Longrightarrow> n < 8 \<Longrightarrow> calculate_keysize n = 16"
    and "8 < n \<Longrightarrow> \<exists>b. calculate_keysize n = 2 ^ b \<and> 2 ^ b \<le> 2 * n \<and> n < 2 ^ b"
proof -
  let ?m = "((n OR 8) - 1) OR 7"
  let ?w = "((of_nat n OR 8) - 1) OR 7 :: size_t"
  have lt: "n OR 8 < 2 ^ 60" by (rule or_less_pow) (use n in simp_all)
  have ge: "n \<le> n OR 8" "8 \<le> n OR 8" by (rule or_ge)+
  have "unat (of_nat n OR 8 :: size_t) = n OR 8"
    using n by (simp add: unsigned_or_eq unat_of_nat take_bit_nat_eq_self)
  then have "unat ((of_nat n OR 8) - 1 :: size_t) = (n OR 8) - 1"
    using ge by (subst unat_sub) (simp_all add: word_le_nat_alt)
  then have w: "unat ?w = ?m" by (simp add: unsigned_or_eq)
  have wl: "?m < 2 ^ 60" by (rule pow_bound_or [OF n]) simp
  define b where "b = Py_bit_length ?w"
  have m7: "7 \<le> ?m" by (rule or_ge)
  have nz: "?w \<noteq> 0" using m7 w by auto
  have lo: "?m < 2 ^ b" and hi: "2 ^ b \<le> 2 * ?m"
    using Py_bit_length_bounds(1) [of ?w] Py_bit_length_bounds(2) [OF nz] by (simp_all only: b_def w)
  have "(2 :: nat) ^ b < 2 ^ 61" using hi wl by simp
  then have b60: "b \<le> 60" using power_less_imp_less_exp [of "2 :: nat" b 61] by simp
  have c: "calculate_keysize n = 2 ^ b" using b60 by (simp add: calculate_keysize_def Let_def b_def)
  have exact: "b = e" if "?m + 1 = 2 ^ e" for e
  proof -
    have "(2 :: nat) ^ b < 2 ^ Suc e" using hi that by simp
    then have "b \<le> e" using power_less_imp_less_exp [of "2 :: nat" b "Suc e"] by simp
    moreover have "(2 :: nat) ^ e \<le> 2 ^ b" using lo that by linarith
    then have "e \<le> b" by simp
    ultimately show ?thesis by simp
  qed
  show "calculate_keysize n = 8" if "n = 0 \<or> n = 8"
  proof -
    have "?m + 1 = 2 ^ 3" using that by auto
    then show ?thesis using c exact [of 3] by simp
  qed
  show "calculate_keysize n = 16" if "0 < n" "n < 8"
  proof -
    have "n \<in> {1, 2, 3, 4, 5, 6, 7}" using that by auto
    then have "?m + 1 = 2 ^ 4" by auto
    then show ?thesis using c exact [of 4] by simp
  qed
  show "\<exists>b. calculate_keysize n = 2 ^ b \<and> 2 ^ b \<le> 2 * n \<and> n < 2 ^ b" if big: "8 < n"
  proof -
    have m1: "(n OR 8) - 1 \<le> ?m" by (rule or_ge)
    have "n < 2 ^ b"
    proof (rule ccontr)
      assume "\<not> n < 2 ^ b"
      then have e: "n OR 8 = 2 ^ b" "n = 2 ^ b" using lo m1 ge by linarith+
      have "bit (8 :: nat) 3" by (simp add: bit_iff_odd)
      then have "bit (n OR 8) 3" by (simp add: bit_or_iff)
      then have "bit (2 ^ b :: nat) 3" unfolding e(1) .
      then have "b = 3" by (simp add: bit_exp_iff)
      then show False using e(2) big by simp
    qed
    moreover have "2 ^ b \<le> 2 * n"
    proof (rule ccontr)
      assume "\<not> 2 ^ b \<le> 2 * n"
      then have l: "2 * n < 2 ^ b" by simp
      then have "(2 :: nat) ^ 4 < 2 ^ b" using big by simp
      then have b4: "4 < b" using power_less_imp_less_exp [of "2 :: nat" 4 b] by simp
      then have "2 * (2 :: nat) ^ (b - 1) = 2 ^ b" by (simp add: power_eq_if)
      moreover from this have "?m < 2 ^ (b - 1)" using l b4 by (intro pow_bound_or) simp_all
      ultimately show False using hi by simp
    qed
    ultimately show ?thesis using c by blast
  qed
qed

lemma USABLE_FRACTION_less: "1 \<le> n \<Longrightarrow> USABLE_FRACTION n < n"
  by (simp add: USABLE_FRACTION_def)

lemma IS_POWER_OF_2_pow: "IS_POWER_OF_2 (2 ^ k)"
  by (auto simp: IS_POWER_OF_2_def mask_eq_exp_minus_1 [symmetric] bit_simps intro!: bit_eqI)

lemma new_keys_object_size:
  assumes "3 \<le> k" and "k \<le> 60"
  shows "57 < k \<and> new_keys_object fresh (2 ^ k) = Inl MemoryError \<or>
    k \<le> 58 \<and> new_keys_object fresh (2 ^ k) = Inr \<lparr>dk_id = fresh, dk_size = 2 ^ k, dk_usable = int (USABLE_FRACTION (2 ^ k)),
      dk_nentries = 0, dk_indices = replicate (2 ^ k) DKIX_EMPTY, dk_entries = replicate (USABLE_FRACTION (2 ^ k)) empty_entry\<rparr>"
proof -
  have "(2 :: nat) ^ 3 \<le> 2 ^ k" using assms(1) by (rule power_increasing) simp
  then have a: "new_keys_object fresh (2 ^ k) = Inl MemoryError \<or>
    new_keys_object fresh (2 ^ k) = Inr \<lparr>dk_id = fresh, dk_size = 2 ^ k, dk_usable = int (USABLE_FRACTION (2 ^ k)),
      dk_nentries = 0, dk_indices = replicate (2 ^ k) DKIX_EMPTY, dk_entries = replicate (USABLE_FRACTION (2 ^ k)) empty_entry\<rparr>"
    by (simp add: new_keys_object_def Let_def PyDict_MINSIZE_def c_assert_def IS_POWER_OF_2_pow)
  have h: "IS_POWER_OF_2 576460752303423488" "IS_POWER_OF_2 1152921504606846976"
    using IS_POWER_OF_2_pow [of 59] IS_POWER_OF_2_pow [of 60] by simp_all
  have b: "new_keys_object fresh (2 ^ 59) = Inl MemoryError" "new_keys_object fresh (2 ^ 60) = Inl MemoryError"
    using h by (simp_all add: new_keys_object_def Let_def PyDict_MINSIZE_def c_assert_def
        USABLE_FRACTION_def PY_SSIZE_T_MAX_def)
  have c: "new_keys_object fresh (2 ^ k) \<noteq> Inl MemoryError" if k: "k \<le> 57"
  proof -
    define es :: size_t where "es = (if (2 :: nat) ^ k \<le> 0xff then 1 else if (2 :: nat) ^ k \<le> 0xffff then 2
      else if (2 :: nat) ^ k \<le> 0xffffffff then 4 else 8)"
    have es: "uint es \<le> 8" by (simp add: es_def)
    have p: "(2 :: int) ^ k \<le> 2 ^ 57" using k by (rule power_increasing) simp
    have u: "uint (of_nat n :: size_t) \<le> int n" for n
      by (simp add: unsigned_of_nat take_bit_nat_less_eq_self del: of_nat_take_bit)
    have mul: "uint (x * y) \<le> uint x * uint y" for x y :: size_t
      by (simp add: uint_word_ariths zmod_le_nonneg_dividend)
    have us: "int (USABLE_FRACTION (2 ^ k)) \<le> 2 ^ k"
      using USABLE_FRACTION_less [of "2 ^ k"] by (metis less_imp_le of_nat_le_iff of_nat_numeral of_nat_power one_le_numeral one_le_power)
    have "uint (40 + es * of_nat (2 ^ k) + 24 * of_nat (USABLE_FRACTION (2 ^ k)) :: size_t) \<le>
        40 + uint es * 2 ^ k + 24 * int (USABLE_FRACTION (2 ^ k))"
      by (intro order_trans [OF uint_add_le] add_mono order_trans [OF mul] mult_mono u order_trans [OF u])
        simp_all
    also have "\<dots> \<le> 40 + 8 * 2 ^ k + 24 * 2 ^ k"
      using us es by (intro add_mono mult_mono) simp_all
    also have "\<dots> \<le> PY_SSIZE_T_MAX" using p by (simp add: PY_SSIZE_T_MAX_def)
    finally have "\<not> PY_SSIZE_T_MAX < uint (40 + es * of_nat (2 ^ k) + 24 * of_nat (USABLE_FRACTION (2 ^ k)) :: size_t)" by simp
    then show ?thesis
      using a by (simp add: new_keys_object_def Let_def PyDict_MINSIZE_def c_assert_def IS_POWER_OF_2_pow es_def [symmetric])
  qed
  show ?thesis
  proof (cases "k \<le> 58")
    case True
    then show ?thesis using a c by fastforce
  next
    case False
    then have "k = 59 \<or> k = 60" using assms(2) by linarith
    then show ?thesis using b by auto
  qed
qed

section \<open>The indices\<close>

text \<open>
  \<open>hs j\<close> is the hash of entry \<open>j\<close> when the entry is live. The slot of a live entry is on the probe
  path of its hash, and no slot before it is empty.
\<close>

definition index_ok :: "nat \<Rightarrow> int list \<Rightarrow> (nat \<Rightarrow> size_t option) \<Rightarrow> bool" where
  "index_ok k I hs \<longleftrightarrow> length I = 2 ^ k \<and>
     (\<forall>i < 2 ^ k. I ! i = DKIX_EMPTY \<or> I ! i = DKIX_DUMMY \<or> 0 \<le> I ! i \<and> hs (nat (I ! i)) \<noteq> None) \<and>
     (\<forall>i < 2 ^ k. \<forall>i' < 2 ^ k. 0 \<le> I ! i \<longrightarrow> I ! i = I ! i' \<longrightarrow> i = i') \<and>
     (\<forall>j h. hs j = Some h \<longrightarrow> (\<exists>n. I ! probe_seq (mask k) h n = int j \<and>
        (\<forall>m < n. I ! probe_seq (mask k) h m \<noteq> DKIX_EMPTY)))"

lemma index_okD:
  assumes "index_ok k I hs"
  shows "length I = 2 ^ k"
    and "i < 2 ^ k \<Longrightarrow> I ! i = DKIX_EMPTY \<or> I ! i = DKIX_DUMMY \<or> 0 \<le> I ! i \<and> hs (nat (I ! i)) \<noteq> None"
    and "i < 2 ^ k \<Longrightarrow> i' < 2 ^ k \<Longrightarrow> 0 \<le> I ! i \<Longrightarrow> I ! i = I ! i' \<Longrightarrow> i = i'"
    and "hs j = Some h \<Longrightarrow> \<exists>n. I ! probe_seq (mask k) h n = int j \<and> (\<forall>m < n. I ! probe_seq (mask k) h m \<noteq> DKIX_EMPTY)"
  using assms unfolding index_ok_def by blast+

lemma index_ok_empty: "index_ok k (replicate (2 ^ k) DKIX_EMPTY) (\<lambda>j. None)"
  by (simp add: index_ok_def DKIX_EMPTY_def)

lemma index_ok_insert:
  assumes ok: "index_ok k I hs" and new: "hs j = None"
    and at: "I ! probe_seq (mask k) h n < 0"
    and before: "\<forall>m < n. I ! probe_seq (mask k) h m \<noteq> DKIX_EMPTY"
  shows "index_ok k (I[probe_seq (mask k) h n := int j]) (hs(j := Some h))"
proof -
  let ?p = "probe_seq (mask k) h n"
  let ?I = "I[?p := int j]"
  note okD = index_okD [OF ok]
  have p: "?p < length I" using okD(1) probe_seq_bound [of k h n] by simp
  have keep: "?I ! i \<noteq> DKIX_EMPTY" if "I ! i \<noteq> DKIX_EMPTY" for i
    using that p by (simp add: nth_list_update DKIX_EMPTY_def)
  have nj: "I ! i \<noteq> int j" if "i < 2 ^ k" for i
    using okD(2) [OF that] new by (auto simp: DKIX_EMPTY_def DKIX_DUMMY_def)
  show ?thesis
    unfolding index_ok_def
  proof (intro conjI allI impI)
    show "?I ! i = DKIX_EMPTY \<or> ?I ! i = DKIX_DUMMY \<or> 0 \<le> ?I ! i \<and> (hs(j := Some h)) (nat (?I ! i)) \<noteq> None"
      if "i < 2 ^ k" for i using okD(2) [OF that] p by (auto simp: nth_list_update)
    show "i = i'" if i: "i < 2 ^ k" "i' < 2 ^ k" "0 \<le> ?I ! i" "?I ! i = ?I ! i'" for i i'
    proof (cases "i = ?p \<or> i' = ?p")
      case True
      then show ?thesis using i nj [of i] nj [of i'] p by (metis nth_list_update_eq nth_list_update_neq)
    next
      case False
      then show ?thesis using i okD(3) [of i i'] by simp
    qed
    show "\<exists>n. ?I ! probe_seq (mask k) g n = int j' \<and> (\<forall>m < n. ?I ! probe_seq (mask k) g m \<noteq> DKIX_EMPTY)"
      if g: "(hs(j := Some h)) j' = Some g" for j' g
    proof (cases "j' = j")
      case True
      then show ?thesis using g p before keep by (intro exI [of _ n]) auto
    next
      case False
      then obtain m where m: "I ! probe_seq (mask k) g m = int j'" "\<forall>l < m. I ! probe_seq (mask k) g l \<noteq> DKIX_EMPTY"
        using g okD(4) [of j' g] by auto
      have "probe_seq (mask k) g m \<noteq> ?p" using m(1) at by auto
      then show ?thesis using m keep by (intro exI [of _ m]) auto
    qed
  qed (use okD(1) in simp)
qed

lemma index_ok_delete:
  assumes ok: "index_ok k I hs" and p: "p < 2 ^ k" and at: "I ! p = int j"
  shows "index_ok k (I[p := DKIX_DUMMY]) (hs(j := None))"
proof -
  let ?I = "I[p := DKIX_DUMMY]"
  note okD = index_okD [OF ok]
  have keep: "?I ! i \<noteq> DKIX_EMPTY" if "I ! i \<noteq> DKIX_EMPTY" for i
    using that p okD(1) by (simp add: nth_list_update DKIX_EMPTY_def DKIX_DUMMY_def)
  show ?thesis
    unfolding index_ok_def
  proof (intro conjI allI impI)
    show "?I ! i = DKIX_EMPTY \<or> ?I ! i = DKIX_DUMMY \<or> 0 \<le> ?I ! i \<and> (hs(j := None)) (nat (?I ! i)) \<noteq> None"
      if "i < 2 ^ k" for i
      using okD(2) [OF that] okD(3) [OF p that] p at okD(1) by (auto simp: nth_list_update)
    show "i = i'" if i: "i < 2 ^ k" "i' < 2 ^ k" "0 \<le> ?I ! i" "?I ! i = ?I ! i'" for i i'
    proof -
      have "\<not> 0 \<le> ?I ! p" using p okD(1) by (simp add: DKIX_DUMMY_def)
      then have "i \<noteq> p" "i' \<noteq> p" using i by auto
      then show ?thesis using i okD(3) [of i i'] by simp
    qed
    show "\<exists>n. ?I ! probe_seq (mask k) g n = int j' \<and> (\<forall>m < n. ?I ! probe_seq (mask k) g m \<noteq> DKIX_EMPTY)"
      if g: "(hs(j := None)) j' = Some g" for j' g
    proof -
      obtain m where m: "I ! probe_seq (mask k) g m = int j'" "\<forall>l < m. I ! probe_seq (mask k) g l \<noteq> DKIX_EMPTY"
        using g okD(4) [of j' g] by (auto split: if_splits)
      have "probe_seq (mask k) g m \<noteq> p" using m(1) at g by auto
      then show ?thesis using m keep by (intro exI [of _ m]) auto
    qed
  qed (use okD(1) in simp)
qed

text \<open>How many slots are not empty.\<close>

definition filled :: "int list \<Rightarrow> nat" where
  "filled I = length (filter (\<lambda>x. x \<noteq> DKIX_EMPTY) I)"

lemma filled_update:
  assumes "p < length I"
  shows "filled (I[p := x]) \<le> filled I + 1" and "I ! p \<noteq> DKIX_EMPTY \<Longrightarrow> filled (I[p := x]) \<le> filled I"
proof -
  have I: "I = take p I @ I ! p # drop (Suc p) I" using assms by (rule id_take_nth_drop)
  have u: "I[p := x] = take p I @ x # drop (Suc p) I" using assms by (rule upd_conv_take_nth_drop)
  have f: "filled I = filled (take p I) + filled [I ! p] + filled (drop (Suc p) I)"
    by (subst I) (simp add: filled_def)
  show "filled (I[p := x]) \<le> filled I + 1" unfolding u f by (simp add: filled_def)
  show "filled (I[p := x]) \<le> filled I" if "I ! p \<noteq> DKIX_EMPTY"
    unfolding u f using that by (simp add: filled_def)
qed

lemma filled_empty_slot:
  assumes "filled I < length I"
  shows "\<exists>i < length I. I ! i = DKIX_EMPTY"
proof (rule ccontr)
  assume "\<not> ?thesis"
  then have "filter (\<lambda>x. x \<noteq> DKIX_EMPTY) I = I" by (intro filter_True) (auto simp: in_set_conv_nth)
  then show False using assms by (simp add: filled_def)
qed

lemma max_index_enough:
  assumes "n < USABLE_FRACTION (2 ^ k)" and "k \<le> 58"
  shows "int n \<le> max_index (2 ^ k)"
proof -
  have n: "n < 2 ^ k" using assms(1) USABLE_FRACTION_less [of "2 ^ k"] by simp
  consider "k \<le> 7" | "8 \<le> k" "k \<le> 15" | "16 \<le> k" "k \<le> 31" | "32 \<le> k" by linarith
  then show ?thesis
  proof cases
    case 1
    then have k: "(2 :: nat) ^ k \<le> 2 ^ 7" by (intro power_increasing) simp_all
    have "n < 128" using k n by simp
    then show ?thesis using k by (simp add: max_index_def)
  next
    case 2
    have k: "(2 :: nat) ^ k \<le> 2 ^ 15" "(2 :: nat) ^ 8 \<le> 2 ^ k" by (intro power_increasing 2, simp)+
    then show ?thesis using n by (simp add: max_index_def)
  next
    case 3
    have k: "(2 :: nat) ^ k \<le> 2 ^ 31" "(2 :: nat) ^ 16 \<le> 2 ^ k" by (intro power_increasing 3, simp)+
    then show ?thesis using n by (simp add: max_index_def)
  next
    case 4
    have k: "(2 :: nat) ^ k \<le> 2 ^ 58" "(2 :: nat) ^ 32 \<le> 2 ^ k" by (intro power_increasing 4 assms(2), simp)+
    have "int n \<le> PY_SSIZE_T_MAX" using k n by (simp add: PY_SSIZE_T_MAX_def)
    then show ?thesis using k by (simp add: max_index_def)
  qed
qed

end
