(* ===== verification/PyDictTable.thy ===== *)
theory PyDictTable
  imports PyDictInv
begin

text \<open>
  The invariant of a table of keys and of a dict, and the steps of the operations on the table:
  each keeps the invariant, and its effect is stated on the entries.
\<close>

declare split_paired_All [simp del] split_paired_Ex [simp del]

section \<open>The invariant\<close>

definition hash_of :: "('k, 'v) dkentry list \<Rightarrow> nat \<Rightarrow> size_t option" where
  "hash_of E j = (if j < length E \<and> me_value (E ! j) \<noteq> None then Some (me_hash (E ! j)) else None)"

definition entry_ok :: "('k \<Rightarrow> size_t) \<Rightarrow> ('k, 'v) dkentry \<Rightarrow> bool" where
  "entry_ok hsh ep \<longleftrightarrow> (me_key ep = None \<longleftrightarrow> me_value ep = None) \<and> (\<forall>x. me_key ep = Some x \<longrightarrow> me_hash ep = hsh x)"

definition ents :: "('k, 'v) dictkeys \<Rightarrow> ('k, 'v) dkentry list" where
  "ents keys = take (dk_nentries keys) (dk_entries keys)"

definition live :: "('k, 'v) dkentry list \<Rightarrow> ('k, 'v) dkentry list" where
  "live E = filter (\<lambda>ep. me_value ep \<noteq> None) E"

definition table_ok :: "('k \<Rightarrow> size_t) \<Rightarrow> nat \<Rightarrow> ('k, 'v) dictkeys \<Rightarrow> bool" where
  "table_ok hsh k keys \<longleftrightarrow> 3 \<le> k \<and> k \<le> 58 \<and> dk_size keys = 2 ^ k \<and> length (dk_entries keys) = USABLE_FRACTION (2 ^ k) \<and>
     0 \<le> dk_usable keys \<and> dk_usable keys + int (dk_nentries keys) \<le> int (USABLE_FRACTION (2 ^ k)) \<and>
     int (filled (dk_indices keys)) + dk_usable keys \<le> int (USABLE_FRACTION (2 ^ k)) \<and>
     index_ok k (dk_indices keys) (hash_of (ents keys)) \<and> (\<forall>ep \<in> set (ents keys). entry_ok hsh ep) \<and>
     (\<forall>ep \<in> set (drop (dk_nentries keys) (dk_entries keys)). me_key ep = None \<and> me_value ep = None)"

definition wf_dict :: "('k \<Rightarrow> size_t) \<Rightarrow> ('k, 'v) pydict \<Rightarrow> bool" where
  "wf_dict hsh mp \<longleftrightarrow> 0 < ma_fresh mp \<and> ma_used mp = length (live (ents (ma_keys mp))) \<and>
     (ma_keys mp = Py_EMPTY_KEYS \<or>
      (\<exists>k. table_ok hsh k (ma_keys mp)) \<and> 0 < dk_id (ma_keys mp) \<and> dk_id (ma_keys mp) < ma_fresh mp)"

lemma table_okD:
  assumes "table_ok hsh k keys"
  shows "3 \<le> k" "k \<le> 58" "dk_size keys = 2 ^ k" "length (dk_entries keys) = USABLE_FRACTION (2 ^ k)" "0 \<le> dk_usable keys"
    "dk_usable keys + int (dk_nentries keys) \<le> int (USABLE_FRACTION (2 ^ k))"
    "int (filled (dk_indices keys)) + dk_usable keys \<le> int (USABLE_FRACTION (2 ^ k))"
    "index_ok k (dk_indices keys) (hash_of (ents keys))" "ep \<in> set (ents keys) \<Longrightarrow> entry_ok hsh ep"
    "\<forall>ep \<in> set (drop (dk_nentries keys) (dk_entries keys)). me_key ep = None \<and> me_value ep = None"
  using assms unfolding table_ok_def by blast+

lemma table_derived:
  assumes "table_ok hsh k keys"
  shows "dk_nentries keys \<le> length (dk_entries keys)" and "length (ents keys) = dk_nentries keys"
    and "length (dk_indices keys) = 2 ^ k" and "filled (dk_indices keys) < 2 ^ k"
    and "DK_MASK keys = mask k"
proof -
  note D = table_okD [OF assms]
  show n: "dk_nentries keys \<le> length (dk_entries keys)" using D(4-6) by linarith
  then show "length (ents keys) = dk_nentries keys" by (simp add: ents_def)
  show "length (dk_indices keys) = 2 ^ k" using D(8) by (rule index_okD)
  have "USABLE_FRACTION (2 ^ k) < 2 ^ k" by (rule USABLE_FRACTION_less) simp
  then show "filled (dk_indices keys) < 2 ^ k" using D(5,7) by linarith
  show "DK_MASK keys = mask k" by (simp add: DK_MASK_def D(3) mask_eq_exp_minus_1)
qed

lemma ents_nth: "j < dk_nentries keys \<Longrightarrow> ents keys ! j = dk_entries keys ! j"
  by (simp add: ents_def)

lemma live_append [simp]: "live (E @ F) = live E @ live F"
  by (simp add: live_def)

lemma live_Nil [simp]: "live [] = []"
  by (simp add: live_def)

lemma live_Cons [simp]: "live (ep # E) = (if me_value ep = None then live E else ep # live E)"
  by (simp add: live_def)

lemma set_live: "set (live E) \<subseteq> set E"
  by (auto simp: live_def)

lemma length_live_le: "length (live E) \<le> length E"
  by (simp add: live_def)

lemma ents_empty [simp]: "ents Py_EMPTY_KEYS = []"
  by (simp add: ents_def Py_EMPTY_KEYS_def)

lemma wf_dict_used_le: "wf_dict hsh mp \<Longrightarrow> ma_used mp \<le> dk_nentries (ma_keys mp)"
  unfolding wf_dict_def using length_live_le [of "ents (ma_keys mp)"]
  by (auto simp: ents_def)

lemma wf_New: "wf_dict hsh PyDict_New"
  by (simp add: wf_dict_def PyDict_New_def)

lemma hash_of_append:
  "me_value ep \<noteq> None \<Longrightarrow> hash_of (E @ [ep]) = (hash_of E)(length E := Some (me_hash ep))"
  by (rule ext) (auto simp: hash_of_def nth_append)

lemma hash_of_dead: "me_value ep = None \<Longrightarrow> hash_of (E[j := ep]) = (hash_of E)(j := None)"
  by (rule ext) (auto simp: hash_of_def nth_list_update)

lemma hash_of_SomeD: "hash_of E j = Some h \<Longrightarrow> j < length E \<and> me_value (E ! j) \<noteq> None \<and> me_hash (E ! j) = h"
  by (auto simp: hash_of_def split: if_splits)

section \<open>Probing a table\<close>

lemma probe_in_table:
  assumes "table_ok hsh k keys" and "stop DKIX_EMPTY"
  shows "\<exists>n. probe stop keys (DK_MASK keys) (h AND DK_MASK keys, h) = Some (Inr (of_nat (probe_seq (mask k) h n))) \<and>
    probe_seq (mask k) h n < 2 ^ k \<and> stop (dk_indices keys ! probe_seq (mask k) h n) \<and>
    (\<forall>m < n. \<not> stop (dk_indices keys ! probe_seq (mask k) h m))"
proof -
  note len = table_derived(3) [OF assms(1)]
  obtain i where i: "i < 2 ^ k" "dk_indices keys ! i = DKIX_EMPTY"
    using filled_empty_slot [of "dk_indices keys"] table_derived(3,4) [OF assms(1)] by metis
  have "k \<le> 63" using table_okD(2) [OF assms(1)] by simp
  then show ?thesis
    unfolding table_derived(5) [OF assms(1)]
    by (rule probe_stops [OF _ eq_refl [OF len [symmetric]] i(1)]) (use i(2) assms(2) in simp)
qed

lemma unat_slot: "k \<le> 58 \<Longrightarrow> p < 2 ^ k \<Longrightarrow> unat (of_nat p :: size_t) = p"
proof -
  assume k: "k \<le> 58" and p: "p < 2 ^ k"
  have "(2 :: nat) ^ k \<le> 2 ^ 58" using k by (rule power_increasing) simp
  then show ?thesis using p by (simp add: unat_of_nat take_bit_nat_eq_self)
qed

lemma find_empty_slot_correct:
  assumes "table_ok hsh k keys"
  shows "\<exists>n. find_empty_slot keys h = Some (Inr (of_nat (probe_seq (mask k) h n))) \<and>
    dk_indices keys ! probe_seq (mask k) h n < 0 \<and>
    (\<forall>m < n. dk_indices keys ! probe_seq (mask k) h m \<noteq> DKIX_EMPTY)"
  using probe_in_table [OF assms, of "\<lambda>ix. \<not> ix \<ge> 0" h]
  by (fastforce simp: find_empty_slot_def Let_def DKIX_EMPTY_def)

lemma lookdict_index_correct:
  assumes ok: "table_ok hsh k keys" and ix: "hash_of (ents keys) j = Some h"
  shows "\<exists>p. lookdict_index keys h (int j) = Some (Inr (int p)) \<and> p < 2 ^ k \<and> dk_indices keys ! p = int j"
proof -
  let ?I = "dk_indices keys"
  obtain n where n: "?I ! probe_seq (mask k) h n = int j" "\<forall>m < n. ?I ! probe_seq (mask k) h m \<noteq> DKIX_EMPTY"
    using index_okD(4) [OF table_okD(8) [OF ok] ix] by blast
  obtain m where m: "probe (\<lambda>ix. ix = int j \<or> ix = DKIX_EMPTY) keys (DK_MASK keys) (h AND DK_MASK keys, h) =
      Some (Inr (of_nat (probe_seq (mask k) h m)))"
    "?I ! probe_seq (mask k) h m = int j \<or> ?I ! probe_seq (mask k) h m = DKIX_EMPTY"
    "\<forall>l < m. \<not> (?I ! probe_seq (mask k) h l = int j \<or> ?I ! probe_seq (mask k) h l = DKIX_EMPTY)"
    using probe_in_table [OF ok, of "\<lambda>ix. ix = int j \<or> ix = DKIX_EMPTY" h] by blast
  have "\<not> n < m" using m(3) n(1) by blast
  then have at: "?I ! probe_seq (mask k) h m = int j"
    using m(2) n by (cases "m = n") (auto simp: not_less)
  let ?p = "probe_seq (mask k) h m"
  have p: "?p < 2 ^ k" by (rule probe_seq_bound)
  have u: "unat (of_nat ?p :: size_t) = ?p" by (rule unat_slot [OF table_okD(2) [OF ok] p])
  have "lookdict_index keys h (int j) = Some (Inr (uint (of_nat ?p :: size_t)))"
    unfolding lookdict_index_def Let_def m(1) option.case rbind_simps
    by (simp add: dictkeys_get_index_def u table_derived(3) [OF ok] p at)
  also have "uint (of_nat ?p :: size_t) = int ?p" using u by (metis uint_nat)
  finally show ?thesis using p at by blast
qed

section \<open>Steps on a table\<close>

definition new_entry :: "'k \<Rightarrow> size_t \<Rightarrow> 'v \<Rightarrow> ('k, 'v) dkentry" where
  "new_entry key hash v = \<lparr>me_hash = hash, me_key = Some key, me_value = Some v\<rparr>"

lemma put_new_entry_ok:
  assumes ok: "table_ok hsh k (ma_keys mp)" and usable: "0 < dk_usable (ma_keys mp)" and h: "h = hsh key"
    and at: "dk_indices (ma_keys mp) ! probe_seq (mask k) h n < 0"
    and before: "\<forall>m < n. dk_indices (ma_keys mp) ! probe_seq (mask k) h m \<noteq> DKIX_EMPTY"
  shows "\<exists>K. put_new_entry key h v (of_nat (probe_seq (mask k) h n)) mp =
      (mp\<lparr>ma_used := ma_used mp + 1, ma_keys := K\<rparr>, Inr ()) \<and>
    table_ok hsh k K \<and> ents K = ents (ma_keys mp) @ [new_entry key h v] \<and> dk_id K = dk_id (ma_keys mp)"
proof -
  let ?keys = "ma_keys mp"
  let ?n = "dk_nentries ?keys"
  let ?p = "probe_seq (mask k) h n"
  note D = table_okD [OF ok] and len = table_derived [OF ok]
  have p: "?p < 2 ^ k" by (rule probe_seq_bound)
  have u: "unat (of_nat ?p :: size_t) = ?p" by (rule unat_slot [OF D(2) p])
  have nlt: "?n < USABLE_FRACTION (2 ^ k)" using D(6) usable by linarith
  then have nle: "int ?n \<le> max_index (dk_size ?keys)" using max_index_enough [OF nlt D(2)] D(3) by simp
  define K where "K = ?keys\<lparr>dk_indices := (dk_indices ?keys)[?p := int ?n],
    dk_entries := (dk_entries ?keys)[?n := new_entry key h v],
    dk_usable := dk_usable ?keys - 1, dk_nentries := ?n + 1\<rparr>"
  have run: "put_new_entry key h v (of_nat ?p) mp = (mp\<lparr>ma_used := ma_used mp + 1, ma_keys := K\<rparr>, Inr ())"
    using nle nlt p len(3) D(4)
    by (simp add: put_new_entry_def Let_def dictkeys_set_index_def set_entry_def c_assert_def u K_def
        DKIX_DUMMY_def new_entry_def)
  have e: "ents K = ents ?keys @ [new_entry key h v]"
    using nlt D(4) by (simp add: K_def ents_def take_Suc_conv_app_nth)
  have "index_ok k (dk_indices K) (hash_of (ents K))"
  proof -
    have "hash_of (ents K) = (hash_of (ents ?keys))(?n := Some h)"
      unfolding e by (subst hash_of_append) (simp_all add: new_entry_def len(2))
    moreover have "hash_of (ents ?keys) ?n = None" by (simp add: hash_of_def len(2))
    ultimately show ?thesis using index_ok_insert [OF D(8) _ at before, of ?n] by (simp add: K_def)
  qed
  moreover have "filled (dk_indices K) \<le> filled (dk_indices ?keys) + 1"
    using filled_update(1) [of ?p "dk_indices ?keys"] p len(3) by (simp add: K_def)
  moreover have "entry_ok hsh ep" if "ep \<in> set (ents K)" for ep
    using that D(9) by (auto simp: e new_entry_def entry_ok_def h)
  moreover have "\<forall>ep \<in> set (drop (dk_nentries K) (dk_entries K)). me_key ep = None \<and> me_value ep = None"
    using D(10) set_drop_subset_set_drop [of ?n "Suc ?n" "dk_entries ?keys"] by (auto simp: K_def)
  ultimately have "table_ok hsh k K"
    using D usable by (simp add: table_ok_def K_def)
  then show ?thesis using run e by (intro exI [of _ K]) (simp add: K_def)
qed

lemma set_value_ok:
  assumes ok: "table_ok hsh k (ma_keys mp)" and j: "j < dk_nentries (ma_keys mp)" "me_value (dk_entries (ma_keys mp) ! j) \<noteq> None"
  shows "\<exists>K. set_value (int j) v mp = (mp\<lparr>ma_keys := K\<rparr>, Inr ()) \<and> table_ok hsh k K \<and>
    ents K = (ents (ma_keys mp))[j := (ents (ma_keys mp) ! j)\<lparr>me_value := Some v\<rparr>] \<and> dk_id K = dk_id (ma_keys mp)"
proof -
  let ?keys = "ma_keys mp"
  let ?e = "(dk_entries ?keys ! j)\<lparr>me_value := Some v\<rparr>"
  note D = table_okD [OF ok] and len = table_derived [OF ok]
  have jl: "j < length (dk_entries ?keys)" using j(1) len(1) by simp
  define K where "K = ?keys\<lparr>dk_entries := (dk_entries ?keys)[j := ?e]\<rparr>"
  have run: "set_value (int j) v mp = (mp\<lparr>ma_keys := K\<rparr>, Inr ())"
    using jl by (simp add: set_value_def get_entry_def set_entry_def K_def)
  have e: "ents K = (ents ?keys)[j := ?e]" by (simp add: K_def ents_def take_update_swap)
  have ej: "entry_ok hsh (dk_entries ?keys ! j)"
    using D(9) [OF nth_mem, of j] j(1) len(2) by (simp add: ents_nth)
  have "hash_of (ents K) = hash_of (ents ?keys)"
    unfolding e using j by (intro ext) (auto simp: hash_of_def nth_list_update ents_nth len(2))
  moreover have "entry_ok hsh ep" if "ep \<in> set (ents K)" for ep
    using that D(9) ej j(2) set_update_subset_insert [of "ents ?keys" j ?e] unfolding e by (auto simp: entry_ok_def)
  moreover have "\<forall>ep \<in> set (drop (dk_nentries K) (dk_entries K)). me_key ep = None \<and> me_value ep = None"
    using D(10) j by (simp add: K_def)
  ultimately have "table_ok hsh k K" using D by (simp add: table_ok_def K_def)
  then show ?thesis using run e j(1) by (intro exI [of _ K]) (simp add: K_def ents_nth)
qed

lemma clear_entry_ok:
  assumes ok: "table_ok hsh k (ma_keys mp)" and p: "p < 2 ^ k" and at: "dk_indices (ma_keys mp) ! p = int j"
    and j: "j < dk_nentries (ma_keys mp)"
  shows "\<exists>K. clear_entry (of_nat p) (int j) mp = (mp\<lparr>ma_used := ma_used mp - 1, ma_keys := K\<rparr>, Inr ()) \<and>
    table_ok hsh k K \<and>
    ents K = (ents (ma_keys mp))[j := (ents (ma_keys mp) ! j)\<lparr>me_key := None, me_value := None\<rparr>] \<and>
    dk_id K = dk_id (ma_keys mp) \<and> dk_nentries K = dk_nentries (ma_keys mp)"
proof -
  let ?keys = "ma_keys mp"
  let ?e = "(dk_entries ?keys ! j)\<lparr>me_key := None, me_value := None\<rparr>"
  note D = table_okD [OF ok] and len = table_derived [OF ok]
  have jl: "j < length (dk_entries ?keys)" using j(1) len(1) by simp
  have u: "unat (of_nat p :: size_t) = p" by (rule unat_slot [OF D(2) p])
  define K where "K = ?keys\<lparr>dk_indices := (dk_indices ?keys)[p := DKIX_DUMMY], dk_entries := (dk_entries ?keys)[j := ?e]\<rparr>"
  have "0 \<le> max_index (dk_size ?keys)" by (simp add: max_index_def PY_SSIZE_T_MAX_def)
  then have run: "clear_entry (of_nat p) (int j) mp = (mp\<lparr>ma_used := ma_used mp - 1, ma_keys := K\<rparr>, Inr ())"
    using jl p len(3)
    by (simp add: clear_entry_def dictkeys_set_index_def get_entry_def set_entry_def c_assert_def u K_def DKIX_DUMMY_def)
  have e: "ents K = (ents ?keys)[j := ?e]" by (simp add: K_def ents_def take_update_swap)
  have "hash_of (ents K) = (hash_of (ents ?keys))(j := None)"
    unfolding e by (rule hash_of_dead) simp
  then have "index_ok k (dk_indices K) (hash_of (ents K))"
    using index_ok_delete [OF D(8) p at] by (simp add: K_def)
  moreover have "filled (dk_indices K) \<le> filled (dk_indices ?keys)"
    using filled_update(2) [of p "dk_indices ?keys"] p len(3) at by (simp add: K_def DKIX_EMPTY_def)
  moreover have "entry_ok hsh ep" if "ep \<in> set (ents K)" for ep
    using that D(9) set_update_subset_insert [of "ents ?keys" j ?e] unfolding e by (auto simp: entry_ok_def)
  moreover have "\<forall>ep \<in> set (drop (dk_nentries K) (dk_entries K)). me_key ep = None \<and> me_value ep = None"
    using D(10) j by (simp add: K_def)
  ultimately have "table_ok hsh k K" using D by (simp add: table_ok_def K_def)
  then show ?thesis using run e j(1) by (intro exI [of _ K]) (simp add: K_def ents_nth)
qed

section \<open>Resizing\<close>

lemma copy_live_correct: "copy_live (length (live E)) (E @ R) = Inr (live E)"
proof (induction E)
  case Nil
  show ?case by simp
next
  case (Cons ep E)
  show ?case
  proof (cases "me_value ep = None")
    case True
    then show ?thesis using Cons by (cases "length (live E)") simp_all
  next
    case False
    then obtain v where "me_value ep = Some v" by blast
    then show ?thesis using Cons by simp
  qed
qed

lemma live_all: "length (live E) = length E \<Longrightarrow> live E = E"
  unfolding live_def by (metis filter_True length_filter_less less_irrefl)

lemma live_values: "ep \<in> set (live E) \<Longrightarrow> me_value ep \<noteq> None"
  by (simp add: live_def)

text \<open>The indices built for the entries, from an empty table of \<open>2 ^ k\<close> slots.\<close>

lemma build_indices_correct:
  assumes k: "3 \<le> k" "k \<le> 58"
    and size: "dk_size keys = 2 ^ k"
    and ok: "index_ok k (dk_indices keys) (hash_of E)"
    and nonneg: "\<forall>i < 2 ^ k. dk_indices keys ! i \<noteq> DKIX_DUMMY"
    and room: "length E + length eps \<le> USABLE_FRACTION (2 ^ k)"
    and filled: "filled (dk_indices keys) \<le> length E"
    and eps: "\<forall>ep \<in> set eps. me_value ep \<noteq> None"
  shows "\<exists>I. build_indices keys (length E) eps = Some (Inr (keys\<lparr>dk_indices := I\<rparr>)) \<and>
    index_ok k I (hash_of (E @ eps)) \<and> filled I \<le> length (E @ eps)"
  using size ok nonneg room filled eps
proof (induction eps arbitrary: keys E)
  case Nil
  then show ?case by (intro exI [of _ "dk_indices keys"]) simp
next
  case (Cons ep eps)
  let ?I = "dk_indices keys"
  let ?h = "me_hash ep"
  have len: "length ?I = 2 ^ k" by (rule index_okD(1) [OF Cons.prems(2)])
  have us: "USABLE_FRACTION (2 ^ k) < 2 ^ k" by (rule USABLE_FRACTION_less) simp
  then have fl: "filled ?I < length ?I" using Cons.prems(4,5) len by simp
  have msk: "DK_MASK keys = mask k" by (simp add: DK_MASK_def Cons.prems(1) mask_eq_exp_minus_1)
  obtain i where i: "i < 2 ^ k" "?I ! i = DKIX_EMPTY" using filled_empty_slot [OF fl] len by metis
  have k63: "k \<le> 63" using k(2) by simp
  obtain n where n: "probe (\<lambda>ix. ix = DKIX_EMPTY) keys (mask k) (?h AND mask k, ?h) =
      Some (Inr (of_nat (probe_seq (mask k) ?h n)))"
    "?I ! probe_seq (mask k) ?h n = DKIX_EMPTY" "\<forall>m < n. ?I ! probe_seq (mask k) ?h m \<noteq> DKIX_EMPTY"
    using probe_stops [OF k63 eq_refl [OF len [symmetric]] i(1), of "\<lambda>ix. ix = DKIX_EMPTY" ?h] i(2) by blast
  let ?p = "probe_seq (mask k) ?h n"
  have p: "?p < 2 ^ k" by (rule probe_seq_bound)
  have u: "unat (of_nat ?p :: size_t) = ?p" by (rule unat_slot [OF k(2) p])
  define K where "K = keys\<lparr>dk_indices := ?I[?p := int (length E)]\<rparr>"
  have "int (length E) \<le> max_index (2 ^ k)"
    by (rule max_index_enough [OF _ k(2)]) (use Cons.prems(4) in simp)
  then have set: "dictkeys_set_index keys (of_nat ?p) (int (length E)) = Inr K"
    using p len by (simp add: dictkeys_set_index_def c_assert_def Cons.prems(1) u K_def DKIX_DUMMY_def)
  have "\<exists>J. build_indices K (length (E @ [ep])) eps = Some (Inr (K\<lparr>dk_indices := J\<rparr>)) \<and>
    index_ok k J (hash_of ((E @ [ep]) @ eps)) \<and> filled J \<le> length ((E @ [ep]) @ eps)"
  proof (rule Cons.IH)
    show "dk_size K = 2 ^ k" by (simp add: K_def Cons.prems(1))
    have v: "me_value ep \<noteq> None" using Cons.prems(6) by simp
    have "hash_of E (length E) = None" by (simp add: hash_of_def)
    then show "index_ok k (dk_indices K) (hash_of (E @ [ep]))"
      unfolding hash_of_append [OF v] using index_ok_insert [OF Cons.prems(2) _ _ n(3)] n(2)
      by (simp add: K_def DKIX_EMPTY_def)
    show "\<forall>i < 2 ^ k. dk_indices K ! i \<noteq> DKIX_DUMMY"
    proof (intro allI impI)
      show "dk_indices K ! i \<noteq> DKIX_DUMMY" if "i < 2 ^ k" for i
        using Cons.prems(3) len that by (cases "i = ?p") (simp_all add: K_def DKIX_DUMMY_def)
    qed
    show "filled (dk_indices K) \<le> length (E @ [ep])"
      using filled_update(1) [of ?p ?I "int (length E)"] p len Cons.prems(5) by (simp add: K_def)
  qed (use Cons.prems(4,6) in auto)
  then obtain J where J: "build_indices K (length (E @ [ep])) eps = Some (Inr (K\<lparr>dk_indices := J\<rparr>))"
    "index_ok k J (hash_of (E @ ep # eps))" "filled J \<le> length (E @ ep # eps)" by auto
  have "build_indices keys (length E) (ep # eps) = build_indices K (length E + 1) eps"
    by (simp add: msk n(1) set)
  then show ?case using J by (intro exI [of _ J]) (simp add: K_def)
qed

text \<open>A table of \<open>2 ^ k\<close> slots that has room for the live entries: the new table holds exactly them.\<close>

lemma dictresize_ok:
  assumes wf: "wf_dict hsh mp" and k: "3 \<le> k" "k \<le> 60" and room: "ma_used mp \<le> USABLE_FRACTION (2 ^ k)"
  shows "57 < k \<and> dictresize (2 ^ k) mp = Some (mp, Inl MemoryError) \<or>
    (\<exists>K. dictresize (2 ^ k) mp = Some (mp\<lparr>ma_keys := K, ma_fresh := ma_fresh mp + 1\<rparr>, Inr ()) \<and>
      table_ok hsh k K \<and> ents K = live (ents (ma_keys mp)) \<and> dk_id K = ma_fresh mp \<and>
      dk_usable K = int (USABLE_FRACTION (2 ^ k)) - int (ma_used mp))"
proof -
  let ?old = "ma_keys mp"
  let ?L = "live (ents ?old)"
  have used: "ma_used mp = length ?L" using wf by (simp add: wf_dict_def)
  have "(2 :: int) ^ 3 \<le> 2 ^ k" using k(1) by (rule power_increasing) simp
  then have guard: "(2 :: int) ^ k > 0" "IS_POWER_OF_2 (2 ^ k)" "(2 :: int) ^ k \<ge> int PyDict_MINSIZE" "nat (2 ^ k) = 2 ^ k"
    using IS_POWER_OF_2_pow [of k] by (simp_all add: PyDict_MINSIZE_def nat_power_eq)
  consider "57 < k" "new_keys_object (ma_fresh mp) (2 ^ k) = (Inl MemoryError :: ('a, 'b) dictkeys pyres)"
    | "k \<le> 58" "new_keys_object (ma_fresh mp) (2 ^ k) = Inr \<lparr>dk_id = ma_fresh mp, dk_size = 2 ^ k,
      dk_usable = int (USABLE_FRACTION (2 ^ k)), dk_nentries = 0, dk_indices = replicate (2 ^ k) DKIX_EMPTY,
      dk_entries = replicate (USABLE_FRACTION (2 ^ k)) (empty_entry :: ('a, 'b) dkentry)\<rparr>"
    using new_keys_object_size [OF k] by blast
  then show ?thesis
  proof cases
    case 1
    then have "dictresize (2 ^ k) mp = Some (mp, Inl MemoryError)"
      unfolding dictresize_def guard(4) using guard by simp
    then show ?thesis using 1(1) by blast
  next
    case 2
    define N where "N = \<lparr>dk_id = ma_fresh mp, dk_size = 2 ^ k, dk_usable = int (USABLE_FRACTION (2 ^ k)), dk_nentries = 0,
      dk_indices = replicate (2 ^ k) DKIX_EMPTY, dk_entries = ?L @ replicate (USABLE_FRACTION (2 ^ k) - length ?L) empty_entry\<rparr>"
    have aw: "array_write (replicate (USABLE_FRACTION (2 ^ k)) empty_entry) 0 ?L =
        ?L @ replicate (USABLE_FRACTION (2 ^ k) - length ?L) empty_entry"
      by (simp add: array_write_at_0)
    have copy: "(if dk_nentries ?old = ma_used mp then Inr (take (ma_used mp) (dk_entries ?old))
        else copy_live (ma_used mp) (dk_entries ?old)) = (Inr ?L :: ('a, 'b) dkentry list pyres)"
    proof (cases "dk_nentries ?old = ma_used mp")
      case True
      have "length (ents ?old) \<le> dk_nentries ?old" by (simp add: ents_def)
      then have "length ?L = length (ents ?old)" using True used length_live_le [of "ents ?old"] by linarith
      then have "?L = ents ?old" by (rule live_all)
      then show ?thesis using True by (simp add: ents_def)
    next
      case False
      have "dk_entries ?old = ents ?old @ drop (dk_nentries ?old) (dk_entries ?old)" by (simp add: ents_def)
      then show ?thesis using False copy_live_correct [of "ents ?old"] used by metis
    qed
    have "\<exists>I. build_indices N (length ([] :: ('a, 'b) dkentry list)) ?L = Some (Inr (N\<lparr>dk_indices := I\<rparr>)) \<and>
        index_ok k I (hash_of ([] @ ?L)) \<and> filled I \<le> length ([] @ ?L)"
    proof (rule build_indices_correct [OF k(1) 2(1)])
      show "index_ok k (dk_indices N) (hash_of ([] :: ('a, 'b) dkentry list))"
        using index_ok_empty [of k] by (simp add: N_def hash_of_def [abs_def])
      show "\<forall>ep \<in> set ?L. me_value ep \<noteq> None" using live_values by blast
    qed (use room used in \<open>simp_all add: N_def DKIX_EMPTY_def DKIX_DUMMY_def filled_def\<close>)
    then obtain I where I: "build_indices N 0 ?L = Some (Inr (N\<lparr>dk_indices := I\<rparr>))"
      "index_ok k I (hash_of ?L)" "filled I \<le> length ?L" by auto
    define K where "K = N\<lparr>dk_indices := I, dk_usable := int (USABLE_FRACTION (2 ^ k)) - int (ma_used mp), dk_nentries := ma_used mp\<rparr>"
    have e: "ents K = ?L" by (simp add: K_def N_def ents_def used)
    have "entry_ok hsh ep" if "ep \<in> set ?L" for ep
    proof -
      have ep: "ep \<in> set (ents ?old)" using that set_live by blast
      then have "?old \<noteq> Py_EMPTY_KEYS" by auto
      then obtain k' where "table_ok hsh k' ?old" using wf unfolding wf_dict_def by blast
      then show ?thesis using ep by (rule table_okD)
    qed
    then have "table_ok hsh k K"
      using I(2,3) k(1) 2(1) room used by (simp add: table_ok_def e) (simp add: K_def N_def empty_entry_def)
    moreover have "dictresize (2 ^ k) mp = Some (mp\<lparr>ma_keys := K, ma_fresh := ma_fresh mp + 1\<rparr>, Inr ())"
      unfolding dictresize_def guard(4) using guard 2(2) room copy aw I(1)
      by (simp add: Let_def K_def N_def)
    ultimately show ?thesis using e by (intro disjI2 exI [of _ K]) (simp add: K_def N_def)
  qed
qed

end
