(* ===== verification/PyDictOps.thy ===== *)
theory PyDictOps
  imports PyDictTable
begin

text \<open>
  The operations that change a dict, each from a well-formed dict to a well-formed one, with its
  effect on the live entries; and \<open>dict_step\<close>, what every one of them promises to a search that is
  suspended while it runs.
\<close>

declare split_paired_All [simp del] split_paired_Ex [simp del]

section \<open>Well-formed dicts\<close>

definition dict_step :: "('k \<Rightarrow> size_t) \<Rightarrow> ('k, 'v) pydict \<Rightarrow> ('k, 'v) pydict \<Rightarrow> bool" where
  "dict_step hsh mp mp' \<longleftrightarrow> wf_dict hsh mp' \<and> ma_fresh mp \<le> ma_fresh mp' \<and>
     (dk_id (ma_keys mp') = dk_id (ma_keys mp) \<longrightarrow> dk_size (ma_keys mp') = dk_size (ma_keys mp)) \<and>
     (dk_id (ma_keys mp') = dk_id (ma_keys mp) \<or> dk_id (ma_keys mp') = 0 \<or> ma_fresh mp \<le> dk_id (ma_keys mp'))"

lemma wf_dict_cases:
  assumes "wf_dict hsh mp"
  obtains (empty) "ma_keys mp = Py_EMPTY_KEYS" "ma_used mp = 0"
  | (table) k where "table_ok hsh k (ma_keys mp)" "0 < dk_id (ma_keys mp)" "dk_id (ma_keys mp) < ma_fresh mp"
  using assms unfolding wf_dict_def by (cases "ma_keys mp = Py_EMPTY_KEYS") auto

lemma wf_dictD:
  assumes "wf_dict hsh mp"
  shows "0 < ma_fresh mp" and "ma_used mp = length (live (ents (ma_keys mp)))"
  using assms by (simp_all add: wf_dict_def)

lemma id_EMPTY_KEYS [simp]: "dk_id Py_EMPTY_KEYS = 0" "dk_size Py_EMPTY_KEYS = 1" "dk_usable Py_EMPTY_KEYS = 0"
    "dk_nentries Py_EMPTY_KEYS = 0"
  by (simp_all add: Py_EMPTY_KEYS_def)

lemma wf_dict_id: "wf_dict hsh mp \<Longrightarrow> dk_id (ma_keys mp) < ma_fresh mp"
  by (auto simp: wf_dict_def)

lemma wf_dict_id_0: "wf_dict hsh mp \<Longrightarrow> dk_id (ma_keys mp) = 0 \<Longrightarrow> ma_keys mp = Py_EMPTY_KEYS"
  by (auto simp: wf_dict_def)

lemma dict_step_refl: "wf_dict hsh mp \<Longrightarrow> dict_step hsh mp mp"
  by (simp add: dict_step_def)

lemma dict_step_wf: "dict_step hsh mp mp' \<Longrightarrow> wf_dict hsh mp'"
  by (simp add: dict_step_def)

lemma dict_step_trans:
  assumes wf: "wf_dict hsh a" and ab: "dict_step hsh a b" and bc: "dict_step hsh b c"
  shows "dict_step hsh a c"
proof -
  have id: "dk_id (ma_keys a) < ma_fresh a" by (rule wf_dict_id [OF wf])
  have f: "ma_fresh a \<le> ma_fresh b" "ma_fresh b \<le> ma_fresh c" using ab bc by (simp_all add: dict_step_def)
  have wfc: "wf_dict hsh c" using bc by (rule dict_step_wf)
  have "dk_size (ma_keys c) = dk_size (ma_keys a)" if e: "dk_id (ma_keys c) = dk_id (ma_keys a)"
  proof (cases "dk_id (ma_keys b) = dk_id (ma_keys a)")
    case True
    then show ?thesis using ab bc e unfolding dict_step_def by metis
  next
    case False
    then have "dk_id (ma_keys c) = 0" using bc e id f unfolding dict_step_def by linarith
    then have "ma_keys c = Py_EMPTY_KEYS" "ma_keys a = Py_EMPTY_KEYS"
      using wf_dict_id_0 [OF wf] wf_dict_id_0 [OF wfc] e by simp_all
    then show ?thesis by simp
  qed
  then show ?thesis using ab bc f unfolding dict_step_def by linarith
qed

lemma dict_step_in_place:
  assumes "wf_dict hsh mp" and "table_ok hsh k (ma_keys mp)" and "table_ok hsh k K"
    and "dk_id K = dk_id (ma_keys mp)" and "0 < dk_id (ma_keys mp)" and "u = length (live (ents K))"
  shows "dict_step hsh mp (mp\<lparr>ma_used := u, ma_keys := K\<rparr>)"
  using assms wf_dict_id [OF assms(1)] table_okD(3) [OF assms(2)] table_okD(3) [OF assms(3)]
  by (auto simp: dict_step_def wf_dict_def)

lemma dict_step_new_table:
  assumes "wf_dict hsh mp" and "table_ok hsh k K" and "dk_id K = ma_fresh mp" and "u = length (live (ents K))"
  shows "dict_step hsh mp (mp\<lparr>ma_used := u, ma_keys := K, ma_fresh := ma_fresh mp + 1\<rparr>)"
  using assms wf_dict_id [OF assms(1)] by (auto simp: dict_step_def wf_dict_def)

lemma table_id_pos: "wf_dict hsh mp \<Longrightarrow> table_ok hsh k (ma_keys mp) \<Longrightarrow> 0 < dk_id (ma_keys mp)"
proof -
  assume wf: "wf_dict hsh mp" and ok: "table_ok hsh k (ma_keys mp)"
  have "(2 :: nat) ^ 3 \<le> 2 ^ k" using table_okD(1) [OF ok] by (rule power_increasing) simp
  then have "ma_keys mp \<noteq> Py_EMPTY_KEYS" using table_okD(3) [OF ok] by auto
  then show ?thesis using wf by (simp add: wf_dict_def)
qed

lemma table_used_bound:
  assumes "wf_dict hsh mp"
  shows "ma_used mp < 2 ^ 58"
  using assms
proof (cases rule: wf_dict_cases)
  case (table k)
  note D = table_okD [OF table(1)]
  have "ma_used mp \<le> USABLE_FRACTION (2 ^ k)" using D(5,6) wf_dict_used_le [OF assms] by linarith
  also have "\<dots> < 2 ^ k" by (rule USABLE_FRACTION_less) simp
  also have "\<dots> \<le> 2 ^ 58" using D(2) by (rule power_increasing) simp
  finally show ?thesis .
qed simp

text \<open>The debug build's check does not fail, also with the check of the content.\<close>

lemma wf_dict_consistent:
  assumes wf: "wf_dict hsh mp" and h: "c \<Longrightarrow> \<forall>x. hsh x \<noteq> -1"
  shows "CheckConsistency mp c"
  using wf
proof (cases rule: wf_dict_cases)
  case empty
  then show ?thesis by (simp add: CheckConsistency_def Let_def IS_POWER_OF_2_def USABLE_FRACTION_def
      Py_EMPTY_KEYS_def DKIX_EMPTY_def DKIX_DUMMY_def)
next
  case (table k)
  let ?keys = "ma_keys mp"
  note D = table_okD [OF table(1)] and len = table_derived [OF table(1)]
  have used: "ma_used mp \<le> USABLE_FRACTION (2 ^ k)" using D(5,6) wf_dict_used_le [OF wf] by linarith
  have ix: "DKIX_DUMMY \<le> x \<and> x \<le> int (USABLE_FRACTION (2 ^ k))" if x: "x \<in> set (dk_indices ?keys)" for x
  proof -
    obtain i where i: "i < 2 ^ k" "x = dk_indices ?keys ! i" using x len(3) by (auto simp: in_set_conv_nth)
    consider "x = DKIX_EMPTY" | "x = DKIX_DUMMY" | "0 \<le> x" "hash_of (ents ?keys) (nat x) \<noteq> None"
      using index_okD(2) [OF D(8) i(1)] i(2) by blast
    then show ?thesis
    proof cases
      case 3
      then have "nat x < dk_nentries ?keys" using len(2) by (auto simp: hash_of_def split: if_splits)
      then show ?thesis using 3(1) D(5,6) by (simp add: DKIX_DUMMY_def)
    qed (simp_all add: DKIX_EMPTY_def DKIX_DUMMY_def)
  qed
  have ep: "me_hash ep \<noteq> -1 \<and> me_value ep \<noteq> None" if c and e: "ep \<in> set (dk_entries ?keys)" "me_key ep \<noteq> None" for ep
  proof -
    have "ep \<in> set (ents ?keys) \<or> ep \<in> set (drop (dk_nentries ?keys) (dk_entries ?keys))"
      using e(1) unfolding ents_def by (metis UnE append_take_drop_id set_append)
    then have "entry_ok hsh ep" using D(9) [of ep] D(10) e(2) by (metis (no_types))
    then show ?thesis using e(2) h [OF \<open>c\<close>] by (auto simp: entry_ok_def)
  qed
  have "IS_POWER_OF_2 (int (2 ^ k))" using IS_POWER_OF_2_pow by simp
  then show ?thesis
    unfolding CheckConsistency_def Let_def D(3) using used D(5,6) ix ep
    by (auto simp: list_all_iff dest: in_set_takeD)
qed

section \<open>Insertion\<close>

text \<open>A dict with so many items may find no room for a larger table.\<close>

definition huge :: "nat \<Rightarrow> bool" where
  "huge n \<longleftrightarrow> 2 ^ 52 \<le> n"

lemma calculate_keysize_room:
  assumes "n < 2 ^ 58"
  shows "\<exists>b. calculate_keysize (n * 3) = 2 ^ b \<and> 3 \<le> b \<and> b \<le> 60 \<and> n < USABLE_FRACTION (2 ^ b) \<and> (57 < b \<longrightarrow> huge n)"
proof -
  obtain b where b: "calculate_keysize (n * 3) = 2 ^ b" "3 \<le> b" "b \<le> 60" "n * 3 \<le> 2 ^ b"
    using calculate_keysize_bounds [of "n * 3" 60] assms by auto
  have hu: "huge n" if "57 < b"
  proof (rule ccontr)
    assume "\<not> huge n"
    then have "n * 3 < 2 ^ 54" by (simp add: huge_def)
    then obtain c where c: "calculate_keysize (n * 3) = 2 ^ c" "c \<le> 54" using calculate_keysize_bounds [of "n * 3" 54] by auto
    then show False using that b(1) by simp
  qed
  have "(2 :: nat) ^ 3 \<le> 2 ^ b" using b(2) by (rule power_increasing) simp
  then have "n < USABLE_FRACTION (2 ^ b)" using b(4) by (simp add: USABLE_FRACTION_def)
  then show ?thesis using b hu by (intro exI [of _ b]) simp
qed

lemma insertion_resize_ok:
  assumes wf: "wf_dict hsh mp"
  shows "owp False insertion_resize
    (\<lambda>_ t. dict_step hsh mp t \<and> live (ents (ma_keys t)) = live (ents (ma_keys mp)) \<and>
      0 < dk_usable (ma_keys t) \<and> int (ma_used mp) \<le> dk_usable (ma_keys t))
    (\<lambda>e t. e = MemoryError \<and> t = mp \<and> huge (ma_used mp)) mp"
proof -
  obtain b where b: "calculate_keysize (ma_used mp * 3) = 2 ^ b" "3 \<le> b" "b \<le> 60" "ma_used mp < USABLE_FRACTION (2 ^ b)"
    "57 < b \<Longrightarrow> huge (ma_used mp)"
    using calculate_keysize_room [OF table_used_bound [OF wf]] by blast
  have le: "ma_used mp \<le> USABLE_FRACTION (2 ^ b)" using b(4) by simp
  have "ma_used mp * 3 \<le> 2 ^ b"
    using calculate_keysize_bounds [of "ma_used mp * 3" 60] table_used_bound [OF wf] b(1) by force
  then have room: "2 * ma_used mp \<le> USABLE_FRACTION (2 ^ b)" by (simp add: USABLE_FRACTION_def)
  from dictresize_ok [OF wf b(2,3) le] show ?thesis
  proof (elim disjE exE conjE)
    assume "57 < b" "dictresize (2 ^ b) mp = Some (mp, Inl MemoryError)"
    then show ?thesis using b(5) by (simp add: owp_def insertion_resize_def GROWTH_RATE_def b(1))
  next
    fix K
    assume run: "dictresize (2 ^ b) mp = Some (mp\<lparr>ma_keys := K, ma_fresh := ma_fresh mp + 1\<rparr>, Inr ())"
      and K: "table_ok hsh b K" "ents K = live (ents (ma_keys mp))" "dk_id K = ma_fresh mp"
        "dk_usable K = int (USABLE_FRACTION (2 ^ b)) - int (ma_used mp)"
    have ll: "live (live E) = live E" for E :: "('a, 'b) dkentry list" by (simp add: live_def)
    have "dict_step hsh mp (mp\<lparr>ma_used := ma_used mp, ma_keys := K, ma_fresh := ma_fresh mp + 1\<rparr>)"
      by (rule dict_step_new_table [OF wf K(1,3)]) (simp add: K(2) ll wf_dictD(2) [OF wf])
    then have "dict_step hsh mp (mp\<lparr>ma_keys := K, ma_fresh := ma_fresh mp + 1\<rparr>)" by simp
    then show ?thesis using run K(2,4) b(4) room by (simp add: owp_def insertion_resize_def GROWTH_RATE_def b(1) ll)
  qed
qed

lemma wf_dict_usable:
  assumes "wf_dict hsh mp" and "0 < dk_usable (ma_keys mp)"
  shows "\<exists>k. table_ok hsh k (ma_keys mp)"
  using assms(1) by (cases rule: wf_dict_cases) (use assms(2) in auto)

lemma insert_new_room:
  assumes wf: "wf_dict hsh mp" and u: "0 < dk_usable (ma_keys mp)"
  shows "owp False (insert_new key (hsh key) v)
    (\<lambda>_ t. dict_step hsh mp t \<and> live (ents (ma_keys t)) = live (ents (ma_keys mp)) @ [new_entry key (hsh key) v])
    E mp"
proof -
  obtain k where ok: "table_ok hsh k (ma_keys mp)" using wf_dict_usable [OF wf u] by blast
  obtain n where n: "find_empty_slot (ma_keys mp) (hsh key) = Some (Inr (of_nat (probe_seq (mask k) (hsh key) n)))"
    "dk_indices (ma_keys mp) ! probe_seq (mask k) (hsh key) n < 0"
    "\<forall>m < n. dk_indices (ma_keys mp) ! probe_seq (mask k) (hsh key) m \<noteq> DKIX_EMPTY"
    using find_empty_slot_correct [OF ok] by blast
  obtain K where K: "put_new_entry key (hsh key) v (of_nat (probe_seq (mask k) (hsh key) n)) mp =
      (mp\<lparr>ma_used := ma_used mp + 1, ma_keys := K\<rparr>, Inr ())" "table_ok hsh k K"
    "ents K = ents (ma_keys mp) @ [new_entry key (hsh key) v]" "dk_id K = dk_id (ma_keys mp)"
    using put_new_entry_ok [OF ok u refl n(2,3)] by blast
  have lv: "live (ents K) = live (ents (ma_keys mp)) @ [new_entry key (hsh key) v]"
    by (simp add: K(3) new_entry_def)
  have "dict_step hsh mp (mp\<lparr>ma_used := ma_used mp + 1, ma_keys := K\<rparr>)"
    by (rule dict_step_in_place [OF wf ok K(2,4) table_id_pos [OF wf ok]]) (simp add: lv wf_dictD(2) [OF wf])
  then show ?thesis
    using u n(1) K(1) lv table_okD(5) [OF K(2)] by (simp add: insert_new_def wp_def)
qed

lemma insert_new_ok:
  assumes wf: "wf_dict hsh mp"
  shows "owp False (insert_new key (hsh key) v)
    (\<lambda>_ t. dict_step hsh mp t \<and> live (ents (ma_keys t)) = live (ents (ma_keys mp)) @ [new_entry key (hsh key) v])
    (\<lambda>e t. e = MemoryError \<and> t = mp \<and> huge (ma_used mp)) mp"
proof (cases "0 < dk_usable (ma_keys mp)")
  case True
  then show ?thesis by (rule insert_new_room [OF wf])
next
  case False
  let ?Q = "\<lambda>_ t. dict_step hsh mp t \<and>
    live (ents (ma_keys t)) = live (ents (ma_keys mp)) @ [new_entry key (hsh key) v]"
  let ?E = "\<lambda>e t. e = MemoryError \<and> t = mp \<and> huge (ma_used mp)"
  have run: "owp False (insert_new key (hsh key) v) ?Q ?E mp =
      owp False insertion_resize (\<lambda>_ t. 0 < dk_usable (ma_keys t) \<longrightarrow> owp False (insert_new key (hsh key) v) ?Q ?E t) ?E mp"
    if "owp False insertion_resize (\<lambda>_ t. 0 < dk_usable (ma_keys t)) (\<lambda>_ _. True) mp"
    using False that by (auto simp: insert_new_def owp_def obind_def oget_def oret_def split: option.splits sum.splits prod.splits)
  have u: "owp False insertion_resize (\<lambda>_ t. 0 < dk_usable (ma_keys t)) (\<lambda>_ _. True) mp"
    by (rule owp_mono [OF insertion_resize_ok [OF wf]]) simp_all
  show ?thesis
    unfolding run [OF u]
  proof (rule owp_mono [OF insertion_resize_ok [OF wf]], intro impI)
    fix t :: "('a, 'b) pydict"
    assume t: "dict_step hsh mp t \<and> live (ents (ma_keys t)) = live (ents (ma_keys mp)) \<and>
      0 < dk_usable (ma_keys t) \<and> int (ma_used mp) \<le> dk_usable (ma_keys t)"
    then have wft: "wf_dict hsh t" and ut: "0 < dk_usable (ma_keys t)" using dict_step_wf by blast+
    show "owp False (insert_new key (hsh key) v) ?Q ?E t"
      by (rule owp_mono [OF insert_new_room [OF wft ut, where E = ?E]]) (use t dict_step_trans [OF wf] in auto)
  qed
qed

lemma insert_to_emptydict_ok:
  assumes wf: "wf_dict hsh mp" and e: "ma_keys mp = Py_EMPTY_KEYS"
  shows "wp (insert_to_emptydict key (hsh key) v)
    (\<lambda>_ t. dict_step hsh mp t \<and> live (ents (ma_keys t)) = [new_entry key (hsh key) v])
    (\<lambda>e t. False) mp"
proof -
  define N where "N = (\<lparr>dk_id = ma_fresh mp, dk_size = 2 ^ 3, dk_usable = int (USABLE_FRACTION (2 ^ 3)), dk_nentries = 0,
      dk_indices = replicate (2 ^ 3) DKIX_EMPTY, dk_entries = replicate (USABLE_FRACTION (2 ^ 3)) empty_entry\<rparr>
        :: ('a, 'b) dictkeys)"
  have new: "new_keys_object (ma_fresh mp) PyDict_MINSIZE = Inr N"
    using new_keys_object_size [of 3 "ma_fresh mp"] unfolding N_def by (auto simp: PyDict_MINSIZE_def)
  let ?mp = "mp\<lparr>ma_keys := N, ma_fresh := ma_fresh mp + 1\<rparr>"
  have eN: "ents N = []" by (simp add: N_def ents_def)
  have ok: "table_ok hsh 3 (ma_keys ?mp)"
    using index_ok_empty [of 3]
    by (simp add: table_ok_def eN hash_of_def [abs_def])
      (simp add: N_def USABLE_FRACTION_def filled_def DKIX_EMPTY_def empty_entry_def)
  have u: "0 < dk_usable (ma_keys ?mp)" by (simp add: N_def USABLE_FRACTION_def)
  have at: "dk_indices (ma_keys ?mp) ! probe_seq (mask 3) (hsh key) 0 < 0"
    using probe_seq_bound [of 3 "hsh key" 0] by (simp add: N_def DKIX_EMPTY_def)
  obtain K where K: "put_new_entry key (hsh key) v (of_nat (probe_seq (mask 3) (hsh key) 0)) ?mp =
      (?mp\<lparr>ma_used := ma_used ?mp + 1, ma_keys := K\<rparr>, Inr ())" "table_ok hsh 3 K"
    "ents K = ents (ma_keys ?mp) @ [new_entry key (hsh key) v]" "dk_id K = dk_id (ma_keys ?mp)"
    using put_new_entry_ok [OF ok u refl at] by auto
  have lv: "live (ents K) = [new_entry key (hsh key) v]" using K(3) eN by (simp add: new_entry_def)
  have used: "ma_used mp = 0" using wf_dictD(2) [OF wf] e by simp
  have slot: "hsh key AND (of_nat PyDict_MINSIZE - 1) = of_nat (probe_seq (mask 3) (hsh key) 0)"
    by (simp add: probe_seq_def PyDict_MINSIZE_def mask_eq_exp_minus_1)
  have "dict_step hsh mp (mp\<lparr>ma_used := 1, ma_keys := K, ma_fresh := ma_fresh mp + 1\<rparr>)"
    by (rule dict_step_new_table [OF wf K(2)]) (simp_all add: K(4) N_def lv)
  moreover have "?mp\<lparr>ma_used := ma_used ?mp + 1, ma_keys := K\<rparr> =
      mp\<lparr>ma_used := 1, ma_keys := K, ma_fresh := ma_fresh mp + 1\<rparr>" using used by simp
  ultimately have *: "put_new_entry key (hsh key) v (hsh key AND (of_nat PyDict_MINSIZE - 1)) ?mp =
      (mp\<lparr>ma_used := 1, ma_keys := K, ma_fresh := ma_fresh mp + 1\<rparr>, Inr ())"
    "dict_step hsh mp (mp\<lparr>ma_used := 1, ma_keys := K, ma_fresh := ma_fresh mp + 1\<rparr>)"
    using K(1) unfolding slot by simp_all
  then show ?thesis using * lv new unfolding insert_to_emptydict_def wp_def by (simp add: e)
qed

lemma wf_dict_assert: "wf_dict hsh mp \<Longrightarrow> ASSERT_CONSISTENT mp"
  by (rule wf_dict_consistent) simp_all

section \<open>Deletion\<close>

lemma live_split:
  assumes "j < length E"
  shows "live E = live (take j E) @ live [E ! j] @ live (drop (Suc j) E)"
    and "live (E[j := ep]) = live (take j E) @ live [ep] @ live (drop (Suc j) E)"
proof -
  show "live E = live (take j E) @ live [E ! j] @ live (drop (Suc j) E)"
    by (subst id_take_nth_drop [OF assms]) simp
  show "live (E[j := ep]) = live (take j E) @ live [ep] @ live (drop (Suc j) E)"
    unfolding upd_conv_take_nth_drop [OF assms] by simp
qed

abbreviation forget :: "('k, 'v) dkentry \<Rightarrow> ('k, 'v) dkentry" where
  "forget ep \<equiv> ep\<lparr>me_key := None, me_value := None\<rparr>"

lemma clear_slot_ok:
  assumes wf: "wf_dict hsh mp" and ok: "table_ok hsh k (ma_keys mp)" and p: "p < 2 ^ k"
    and at: "dk_indices (ma_keys mp) ! p = int j" and j: "hash_of (ents (ma_keys mp)) j = Some h"
  shows "\<exists>t. clear_entry (of_nat p) (int j) mp = (t, Inr ()) \<and> dict_step hsh mp t \<and>
    ents (ma_keys t) = (ents (ma_keys mp))[j := forget (ents (ma_keys mp) ! j)] \<and>
    table_ok hsh k (ma_keys t) \<and> dk_nentries (ma_keys t) = dk_nentries (ma_keys mp) \<and> dk_id (ma_keys t) = dk_id (ma_keys mp) \<and>
    ma_fresh t = ma_fresh mp"
proof -
  let ?E = "ents (ma_keys mp)"
  note lj = hash_of_SomeD [OF j]
  have jn: "j < dk_nentries (ma_keys mp)" using lj table_derived(2) [OF ok] by simp
  obtain K where K: "clear_entry (of_nat p) (int j) mp = (mp\<lparr>ma_used := ma_used mp - 1, ma_keys := K\<rparr>, Inr ())"
    "table_ok hsh k K" "ents K = ?E[j := forget (?E ! j)]" "dk_id K = dk_id (ma_keys mp)"
    "dk_nentries K = dk_nentries (ma_keys mp)"
    using clear_entry_ok [OF ok p at jn] by blast
  have "length (live ?E) = length (live (ents K)) + 1"
    unfolding K(3) using lj live_split(1) [of j ?E] live_split(2) [of j ?E "forget (?E ! j)"] by simp
  then have "dict_step hsh mp (mp\<lparr>ma_used := ma_used mp - 1, ma_keys := K\<rparr>)"
    by (intro dict_step_in_place [OF wf ok K(2,4) table_id_pos [OF wf ok]]) (simp add: wf_dictD(2) [OF wf])
  then show ?thesis using K by (intro exI [of _ "mp\<lparr>ma_used := ma_used mp - 1, ma_keys := K\<rparr>"]) simp
qed

lemma lookdict_index_at:
  assumes ok: "table_ok hsh k keys" and p: "p < 2 ^ k" and at: "dk_indices keys ! p = int j"
  shows "lookdict_index keys (of_int (int p)) (int j) = Some (Inr (int p))"
proof -
  have u: "unat (of_nat p :: size_t) = p" by (rule unat_slot [OF table_okD(2) [OF ok] p])
  have m: "of_nat p AND DK_MASK keys = (of_nat p :: size_t)"
    unfolding table_derived(5) [OF ok] by (rule word_unat_eq_iff [THEN iffD2]) (simp add: unat_and_mask u p)
  have g: "dictkeys_get_index keys (of_nat p) = Inr (int j)"
    using p table_derived(3) [OF ok] by (simp add: dictkeys_get_index_def u at)
  have "probe (\<lambda>ix. ix = int j \<or> ix = DKIX_EMPTY) keys (DK_MASK keys) (of_nat p, of_nat p) = Some (Inr (of_nat p))"
    by (subst probe.simps) (simp add: g)
  moreover have "uint (of_nat p :: size_t) = int p" using u by (metis uint_nat)
  ultimately show ?thesis by (simp add: lookdict_index_def Let_def m g)
qed

text \<open>What a search returned: entry \<open>j\<close> is live and has the hash searched for.\<close>

lemma delitem_common_ok:
  assumes wf: "wf_dict hsh mp" and j: "hash_of (ents (ma_keys mp)) j = Some h"
  shows "owp False (delitem_common h (int j))
    (\<lambda>_ t. dict_step hsh mp t \<and> ents (ma_keys t) = (ents (ma_keys mp))[j := forget (ents (ma_keys mp) ! j)])
    (\<lambda>_ _. False) mp"
    and "\<exists>p. lookdict_index (ma_keys mp) h (int j) = Some (Inr (int p)) \<and>
      owp False (delitem_common (of_int (int p)) (int j)) Q E mp = owp False (delitem_common h (int j)) Q E mp"
    and "\<exists>p. lookdict_index (ma_keys mp) h (int j) = Some (Inr (int p)) \<and>
      wp (clear_entry (of_int (int p)) (int j))
        (\<lambda>_ t. dict_step hsh mp t \<and> ents (ma_keys t) = (ents (ma_keys mp))[j := forget (ents (ma_keys mp) ! j)])
        (\<lambda>_ _. False) mp"
proof -
  have "ma_keys mp \<noteq> Py_EMPTY_KEYS" using j by (auto simp: hash_of_def)
  then obtain k where ok: "table_ok hsh k (ma_keys mp)" using wf by (auto simp: wf_dict_def)
  obtain p where p: "lookdict_index (ma_keys mp) h (int j) = Some (Inr (int p))" "p < 2 ^ k"
    "dk_indices (ma_keys mp) ! p = int j"
    using lookdict_index_correct [OF ok j] by blast
  obtain t where t: "clear_entry (of_nat p) (int j) mp = (t, Inr ())" "dict_step hsh mp t"
    "ents (ma_keys t) = (ents (ma_keys mp))[j := forget (ents (ma_keys mp) ! j)]"
    using clear_slot_ok [OF wf ok p(2,3) j] by blast
  have at: "lookdict_index (ma_keys mp) (of_int (int p)) (int j) = Some (Inr (int p))"
    by (rule lookdict_index_at [OF ok p(2,3)])
  have c: "ASSERT_CONSISTENT t" by (rule wf_dict_assert [OF dict_step_wf [OF t(2)]])
  show "owp False (delitem_common h (int j))
    (\<lambda>_ t. dict_step hsh mp t \<and> ents (ma_keys t) = (ents (ma_keys mp))[j := forget (ents (ma_keys mp) ! j)])
    (\<lambda>_ _. False) mp"
    using t c by (simp add: delitem_common_def p(1) wp_def)
  show "\<exists>p. lookdict_index (ma_keys mp) h (int j) = Some (Inr (int p)) \<and>
      owp False (delitem_common (of_int (int p)) (int j)) Q E mp = owp False (delitem_common h (int j)) Q E mp"
    using p(1) at by (intro exI [of _ p]) (simp add: delitem_common_def)
  show "\<exists>p. lookdict_index (ma_keys mp) h (int j) = Some (Inr (int p)) \<and>
      wp (clear_entry (of_int (int p)) (int j))
        (\<lambda>_ t. dict_step hsh mp t \<and> ents (ma_keys t) = (ents (ma_keys mp))[j := forget (ents (ma_keys mp) ! j)])
        (\<lambda>_ _. False) mp"
    using p(1) t by (intro exI [of _ p]) (simp add: wp_def)
qed

lemma last_live_correct:
  assumes "n \<le> length E" and "live (take n E) \<noteq> []"
  shows "\<exists>i < n. last_live E n = Inr (int i) \<and> me_value (E ! i) \<noteq> None \<and> (\<forall>j. i < j \<longrightarrow> j < n \<longrightarrow> me_value (E ! j) = None)"
  using assms
proof (induction n)
  case (Suc n)
  show ?case
  proof (cases "me_value (E ! n) = None")
    case True
    then have "live (take n E) \<noteq> []" using Suc.prems by (simp add: take_Suc_conv_app_nth)
    then obtain i where "i < n" "last_live E n = Inr (int i)" "me_value (E ! i) \<noteq> None"
      "\<forall>j. i < j \<longrightarrow> j < n \<longrightarrow> me_value (E ! j) = None"
      using Suc.IH Suc.prems by auto
    then show ?thesis using True Suc.prems by (intro exI [of _ i]) (auto simp: less_Suc_eq)
  next
    case False
    then obtain v where "me_value (E ! n) = Some v" by blast
    then show ?thesis using Suc.prems by (intro exI [of _ n]) simp
  qed
qed simp

lemma live_none: "(\<And>j. j < length E \<Longrightarrow> me_value (E ! j) = None) \<Longrightarrow> live E = []"
  unfolding live_def by (rule filter_False) (auto simp: in_set_conv_nth)

lemma table_shrink:
  assumes ok: "table_ok hsh k K" and i: "i \<le> dk_nentries K"
    and dead: "\<And>j. i \<le> j \<Longrightarrow> j < dk_nentries K \<Longrightarrow> me_value (ents K ! j) = None"
  shows "table_ok hsh k (K\<lparr>dk_nentries := i\<rparr>)" and "ents (K\<lparr>dk_nentries := i\<rparr>) = take i (ents K)"
    and "live (ents (K\<lparr>dk_nentries := i\<rparr>)) = live (ents K)"
proof -
  let ?K = "K\<lparr>dk_nentries := i\<rparr>"
  note D = table_okD [OF ok] and len = table_derived [OF ok]
  show e: "ents ?K = take i (ents K)" using i by (simp add: ents_def min_def)
  have "live (drop i (ents K)) = []" by (rule live_none) (use dead len(2) in simp)
  then show "live (ents ?K) = live (ents K)"
    unfolding e by (metis append_Nil2 append_take_drop_id live_append)
  have "hash_of (ents ?K) = hash_of (ents K)"
    unfolding e using dead i len(2) by (intro ext) (auto simp: hash_of_def)
  moreover have "entry_ok hsh ep" if "ep \<in> set (ents ?K)" for ep
    using that D(9) [of ep] unfolding e by (auto dest: in_set_takeD)
  moreover have "me_key ep = None \<and> me_value ep = None" if ep: "ep \<in> set (drop i (dk_entries K))" for ep
  proof -
    obtain l where l: "l < length (dk_entries K) - i" "ep = dk_entries K ! (i + l)"
      using ep by (auto simp: in_set_conv_nth)
    show ?thesis
    proof (cases "i + l < dk_nentries K")
      case True
      then have "ep \<in> set (ents K)" "me_value ep = None"
        using dead [of "i + l"] len(2) unfolding l(2) by (auto simp: ents_nth [symmetric])
      then show ?thesis using D(9) [of ep] by (simp add: entry_ok_def)
    next
      case False
      then have "ep = drop (dk_nentries K) (dk_entries K) ! (i + l - dk_nentries K)" using l len(1) by simp
      moreover have "i + l - dk_nentries K < length (drop (dk_nentries K) (dk_entries K))" using False l len(1) by simp
      ultimately show ?thesis using D(10) nth_mem by metis
    qed
  qed
  ultimately show "table_ok hsh k ?K" using D i by (auto simp: table_ok_def)
qed

lemma dict_popitem_ok:
  assumes wf: "wf_dict hsh mp" and h: "ma_used mp \<noteq> 0"
  shows "owp False dict_popitem
    (\<lambda>(key, v) t. dict_step hsh mp t \<and>
      (\<exists>ep. live (ents (ma_keys mp)) = live (ents (ma_keys t)) @ [ep] \<and> me_key ep = Some key \<and> me_value ep = Some v))
    (\<lambda>_ _. False) mp"
proof -
  let ?keys = "ma_keys mp"
  let ?E = "ents ?keys"
  have "?keys \<noteq> Py_EMPTY_KEYS" using h wf_dictD(2) [OF wf] by auto
  then obtain k where ok: "table_ok hsh k ?keys" using wf by (auto simp: wf_dict_def)
  note D = table_okD [OF ok] and len = table_derived [OF ok]
  have "live (take (dk_nentries ?keys) (dk_entries ?keys)) \<noteq> []"
    using h wf_dictD(2) [OF wf] by (simp add: ents_def)
  from last_live_correct [OF len(1) this]
  obtain i where i: "i < dk_nentries ?keys" "last_live (dk_entries ?keys) (dk_nentries ?keys) = Inr (int i)"
    "me_value (?E ! i) \<noteq> None" "\<forall>j. i < j \<longrightarrow> j < dk_nentries ?keys \<longrightarrow> me_value (?E ! j) = None"
    by (metis ents_nth)
  have il: "i < length (dk_entries ?keys)" using i(1) len(1) by simp
  have hi: "hash_of ?E i = Some (me_hash (?E ! i))" using i(1,3) len(2) by (simp add: hash_of_def)
  have eq: "dk_entries ?keys ! i = ?E ! i" using i(1) by (simp add: ents_nth)
  obtain p where p: "lookdict_index ?keys (me_hash (?E ! i)) (int i) = Some (Inr (int p))" "p < 2 ^ k"
    "dk_indices ?keys ! p = int i"
    using lookdict_index_correct [OF ok hi] by blast
  have u: "unat (of_nat p :: size_t) = p" by (rule unat_slot [OF D(2) p(2)])
  have g: "dictkeys_get_index ?keys (of_nat p) = Inr (int i)"
    using p(2,3) len(3) by (simp add: dictkeys_get_index_def u)
  obtain t where t: "clear_entry (of_nat p) (int i) mp = (t, Inr ())" "dict_step hsh mp t"
    "ents (ma_keys t) = ?E[i := forget (?E ! i)]" "table_ok hsh k (ma_keys t)" "dk_nentries (ma_keys t) = dk_nentries ?keys"
    "dk_id (ma_keys t) = dk_id ?keys" "ma_fresh t = ma_fresh mp"
    using clear_slot_ok [OF wf ok p(2,3) hi] by blast
  define K where "K = (ma_keys t)\<lparr>dk_nentries := i\<rparr>"
  define t' where "t' = t\<lparr>ma_keys := K\<rparr>"
  have wft: "wf_dict hsh t" by (rule dict_step_wf [OF t(2)])
  have dead: "me_value (ents (ma_keys t) ! j) = None" if "i \<le> j" "j < dk_nentries (ma_keys t)" for j
    using that i(1,4) len(2) t(5) unfolding t(3) by (cases "j = i") (auto simp: nth_list_update)
  have ile: "i \<le> dk_nentries (ma_keys t)" using i(1) t(5) by simp
  note sh = table_shrink [OF t(4) ile dead, folded K_def]
  have "dict_step hsh t (t\<lparr>ma_used := ma_used t, ma_keys := K\<rparr>)"
    by (rule dict_step_in_place [OF wft t(4) sh(1) _ table_id_pos [OF wft t(4)]])
      (simp_all add: K_def sh(3) [unfolded K_def] wf_dictD(2) [OF wft])
  then have st: "dict_step hsh mp t'"
    using dict_step_trans [OF wf t(2)] unfolding t'_def by simp
  have c: "ASSERT_CONSISTENT t'" by (rule wf_dict_assert [OF dict_step_wf [OF st]])
  have iE: "i < length ?E" using i(1) len(2) by simp
  have "live (drop (Suc i) ?E) = []" by (rule live_none) (use i(4) len(2) in simp)
  then have lv: "live ?E = live (ents (ma_keys t')) @ [?E ! i]"
    using live_split(1) [OF iE] live_split(2) [OF iE, of "forget (?E ! i)"] i(3) sh(3) t(3)
    by (simp add: t'_def)
  have ep: "entry_ok hsh (?E ! i)" using D(9) iE by simp
  obtain v where v: "me_value (?E ! i) = Some v" using i(3) by blast
  obtain key where key: "me_key (?E ! i) = Some key" using ep v by (auto simp: entry_ok_def)
  have ge: "get_entry ?keys (int i) = Inr (?E ! i)" using il by (simp add: get_entry_def eq)
  have t'eq: "t\<lparr>ma_keys := (ma_keys t)\<lparr>dk_nentries := i\<rparr>\<rparr> = t'" by (simp add: t'_def K_def)
  show ?thesis
    unfolding dict_popitem_def using h i(2) ge p(1) g t(1) c st lv v key
    by (simp add: wp_def t'eq)
qed

lemma PyDict_Clear_ok:
  assumes "wf_dict hsh mp"
  shows "dict_step hsh mp (PyDict_Clear mp)" and "live (ents (ma_keys (PyDict_Clear mp))) = []"
proof -
  show "dict_step hsh mp (PyDict_Clear mp)"
    using assms wf_dict_id_0 [OF assms] by (auto simp: PyDict_Clear_def dict_step_def wf_dict_def)
  show "live (ents (ma_keys (PyDict_Clear mp))) = []" by (auto simp: PyDict_Clear_def)
qed

end
