(* ===== verification/PyDictLook.thy ===== *)
theory PyDictLook
  imports PyDictOps
begin

text \<open>
  Searching a dict. With any comparison, which may raise and change the dict, a search that
  returns has found a live entry of the dict as it is then, or nothing; with a comparison that is an
  equivalence and has no effect it returns, and finds the key if it is there.
\<close>

declare split_paired_All [simp del] split_paired_Ex [simp del]

lemma owp_on_dict: "owp d (on_dict m) Q E s = owp d m (\<lambda>x t. Q x (t, snd s)) (\<lambda>e t. E e (t, snd s)) (fst s)"
  by (cases s) (auto simp: owp_def on_dict_def split: option.splits prod.splits sum.splits)

section \<open>Any comparison\<close>

text \<open>What a search returns: the index and value of a live entry with the hash, or nothing.\<close>

definition look_post :: "size_t \<Rightarrow> int \<times> 'v option \<Rightarrow> ('k, 'v) pydict \<Rightarrow> bool" where
  "look_post h r mp \<longleftrightarrow> r = (DKIX_EMPTY, None) \<or>
     (\<exists>j. r = (int j, me_value (ents (ma_keys mp) ! j)) \<and> hash_of (ents (ma_keys mp)) j = Some h)"

text \<open>
  A comparison, of keys or of values, that keeps dicts well-formed; it may use all operations on them, and does to the rest
  of the state what it likes as long as it keeps \<open>I\<close>.
\<close>

definition eq_safe ::
    "('k \<Rightarrow> size_t) \<Rightarrow> ('w \<Rightarrow> bool) \<Rightarrow> ('x \<Rightarrow> 'x \<Rightarrow> (('k, 'v) pydict \<times> 'w, bool) py) \<Rightarrow> bool" where
  "eq_safe hsh I eqf \<longleftrightarrow> (\<forall>a b s. wf_dict hsh (fst s) \<and> I (snd s) \<longrightarrow>
     dict_step hsh (fst s) (fst (fst (eqf a b s))) \<and> I (snd (fst (eqf a b s))) \<and>
     snd (eqf a b s) \<noteq> Inl AssertionFailed)"

definition look_inv :: "('k, 'v) dictkeys \<Rightarrow> lookpos \<Rightarrow> bool" where
  "look_inv keys pos \<longleftrightarrow> fst pos = dk_id keys \<and> fst (snd pos) = DK_MASK keys \<and>
     fst (snd (snd pos)) = fst (snd (snd pos)) AND DK_MASK keys"

lemma look_inv_top: "look_inv (ma_keys mp) (look_top mp h)"
  by (simp add: look_inv_def look_top_def Let_def and.assoc)

lemma look_inv_next: "look_inv keys pos \<Longrightarrow> look_inv keys (look_next pos)"
  by (simp add: look_inv_def look_next_def probe_next_def Let_def case_prod_beta and.assoc)

lemma look_inv_slot:
  assumes "table_ok hsh k keys" and "look_inv keys pos"
  shows "unat (fst (snd (snd pos))) < 2 ^ k"
proof -
  have "unat (fst (snd (snd pos)) AND mask k) < 2 ^ k" by (simp add: unat_and_mask)
  then show ?thesis using assms(2) unfolding look_inv_def table_derived(5) [OF assms(1)] by metis
qed

text \<open>The index at a position, and the entry it leads to.\<close>

lemma look_slot_cases:
  assumes wf: "wf_dict hsh mp" and inv: "look_inv (ma_keys mp) pos"
  obtains (empty) "dictkeys_get_index (ma_keys mp) (fst (snd (snd pos))) = Inr DKIX_EMPTY"
  | (dummy) "dictkeys_get_index (ma_keys mp) (fst (snd (snd pos))) = Inr DKIX_DUMMY"
  | (entry) j ep key v where "dictkeys_get_index (ma_keys mp) (fst (snd (snd pos))) = Inr (int j)"
      "get_entry (ma_keys mp) (int j) = Inr ep" "ep = ents (ma_keys mp) ! j" "me_key ep = Some key" "me_value ep = Some v"
      "me_hash ep = hsh key" "hash_of (ents (ma_keys mp)) j = Some (hsh key)"
  using wf
proof (cases rule: wf_dict_cases)
  case 1: empty
  have "fst (snd (snd pos)) = 0" using inv by (simp add: look_inv_def 1 DK_MASK_def)
  then show ?thesis by (intro empty) (simp add: 1 dictkeys_get_index_def Py_EMPTY_KEYS_def)
next
  case (table k)
  let ?keys = "ma_keys mp"
  let ?i = "unat (fst (snd (snd pos)))"
  note D = table_okD [OF table(1)] and len = table_derived [OF table(1)]
  have i: "?i < 2 ^ k" by (rule look_inv_slot [OF table(1) inv])
  have g: "dictkeys_get_index ?keys (fst (snd (snd pos))) = Inr (dk_indices ?keys ! ?i)"
    using i len(3) by (simp add: dictkeys_get_index_def)
  consider "dk_indices ?keys ! ?i = DKIX_EMPTY" | "dk_indices ?keys ! ?i = DKIX_DUMMY"
    | "0 \<le> dk_indices ?keys ! ?i" "hash_of (ents ?keys) (nat (dk_indices ?keys ! ?i)) \<noteq> None"
    using index_okD(2) [OF D(8) i] by blast
  then show ?thesis
  proof cases
    case 3
    define j where "j = nat (dk_indices ?keys ! ?i)"
    obtain h where h: "hash_of (ents ?keys) j = Some h" using 3(2) unfolding j_def by blast
    note lj = hash_of_SomeD [OF h]
    have ok: "entry_ok hsh (ents ?keys ! j)" using D(9) lj nth_mem by blast
    obtain v where v: "me_value (ents ?keys ! j) = Some v" using lj by blast
    obtain key where key: "me_key (ents ?keys ! j) = Some key" using ok v by (auto simp: entry_ok_def)
    have hk: "me_hash (ents ?keys ! j) = hsh key" using ok key by (simp add: entry_ok_def)
    have jn: "j < dk_nentries ?keys" using lj len(2) by simp
    show ?thesis
    proof (rule entry [OF _ _ refl key v hk])
      show "dictkeys_get_index ?keys (fst (snd (snd pos))) = Inr (int j)" using g 3(1) by (simp add: j_def)
      show "get_entry ?keys (int j) = Inr (ents ?keys ! j)" using jn len(1) by (simp add: get_entry_def ents_nth)
      show "hash_of (ents ?keys) j = Some (hsh key)" using h lj hk by simp
    qed
  qed (use g empty dummy in auto)
qed

text \<open>An entry that has the key after the comparison is live, whatever happened to the dict.\<close>

lemma look_again:
  assumes wf: "wf_dict hsh mp" and pos: "dk_id (ma_keys mp) \<noteq> 0" and j: "j < length (dk_entries (ma_keys mp))"
  obtains ep where "get_entry (ma_keys mp) (int j) = Inr ep"
    "\<And>key. me_key ep = Some key \<Longrightarrow> ep = ents (ma_keys mp) ! j \<and> hash_of (ents (ma_keys mp)) j = Some (hsh key)"
proof -
  let ?keys = "ma_keys mp"
  obtain k where ok: "table_ok hsh k ?keys" using wf pos by (auto simp: wf_dict_def)
  note D = table_okD [OF ok] and len = table_derived [OF ok]
  show ?thesis
  proof (rule that [of "dk_entries ?keys ! j"])
    show "get_entry ?keys (int j) = Inr (dk_entries ?keys ! j)" using j by (simp add: get_entry_def)
  next
    fix key
    assume key: "me_key (dk_entries ?keys ! j) = Some key"
    have jn: "j < dk_nentries ?keys"
    proof (rule ccontr)
      assume "\<not> ?thesis"
      then have "dk_entries ?keys ! j = drop (dk_nentries ?keys) (dk_entries ?keys) ! (j - dk_nentries ?keys)"
        "j - dk_nentries ?keys < length (drop (dk_nentries ?keys) (dk_entries ?keys))" using j len(1) by simp_all
      then have "me_key (dk_entries ?keys ! j) = None" using D(10) nth_mem by metis
      then show False using key by simp
    qed
    then have e: "dk_entries ?keys ! j = ents ?keys ! j" by (simp add: ents_nth)
    have "entry_ok hsh (ents ?keys ! j)" using D(9) jn len(2) nth_mem by metis
    then show "dk_entries ?keys ! j = ents ?keys ! j \<and> hash_of (ents ?keys) j = Some (hsh key)"
      using key jn len(2) unfolding e by (auto simp: entry_ok_def hash_of_def)
  qed
qed

lemma lookdict_loop_safe:
  fixes eqf :: "('k, 'v, 'w) key_eq" and y :: "(('k, 'v) pydict \<times> 'w) \<times> (int \<times> 'v option) pyres"
  assumes run: "lookdict_loop eqf key hash pos s = Some y"
    and eq: "eq_safe hsh I eqf" and h: "hash = hsh key" and wf: "wf_dict hsh (fst s)" and rest: "I (snd s)"
    and inv: "look_inv (ma_keys (fst s)) pos"
  shows "dict_step hsh (fst s) (fst (fst y)) \<and> I (snd (fst y)) \<and> (case snd y of Inl e \<Rightarrow> e \<noteq> AssertionFailed | Inr r \<Rightarrow> look_post hash r (fst (fst y)))"
  using assms
proof (induction eqf key hash pos s y rule: lookdict_loop.raw_induct [rotated, consumes 1, case_names step])
  case (step loop eqf key hash pos s y)
  let ?keys = "ma_keys (fst s)"
  let ?good = "\<lambda>s y. dict_step hsh (fst s) (fst (fst y)) \<and> I (snd (fst y)) \<and>
    (case snd y of Inl e \<Rightarrow> e \<noteq> AssertionFailed | Inr r \<Rightarrow> look_post hash r (fst (fst y)))"
  note run = step(2) and eq = step(3) and h = step(4) and wf = step(5) and rest = step(6) and inv = step(7)
  have nxt: "?good s y" if "loop eqf key hash (look_next pos) s = Some y"
    by (rule step(1) [OF that eq h wf rest look_inv_next [OF inv]])
  from wf inv show ?case
  proof (cases rule: look_slot_cases)
    case empty
    then show ?thesis using run rest dict_step_refl [OF wf] by (auto simp: look_post_def)
  next
    case dummy
    then show ?thesis using run nxt by (simp add: DKIX_EMPTY_def DKIX_DUMMY_def)
  next
    case (entry j ep startkey v)
    have ne: "int j \<noteq> DKIX_EMPTY" by (simp add: DKIX_EMPTY_def)
    note run' = run [unfolded entry(1) sum.case if_not_P [OF ne] if_P [OF of_nat_0_le_iff] entry(2) option.case entry(4)]
    show ?thesis
    proof (cases "startkey = key")
      case True
      then have "y = (s, Inr (int j, me_value ep))" using run' by simp
      then show ?thesis using entry(3,7) True dict_step_refl [OF wf] rest h by (auto simp: look_post_def)
    next
      case ns: False
      show ?thesis
      proof (cases "me_hash ep = hash")
        case False
        then show ?thesis using run' ns nxt by simp
      next
        case he: True
        obtain t r where t: "eqf startkey key s = (t, r)" by (cases "eqf startkey key s")
        have st: "dict_step hsh (fst s) (fst t)" and It: "I (snd t)" and r: "r \<noteq> Inl AssertionFailed"
          using eq wf rest t unfolding eq_safe_def by (metis fst_conv snd_conv)+
        have wft: "wf_dict hsh (fst t)" by (rule dict_step_wf [OF st])
        have again: "?good s y" if "?good t y" using that dict_step_trans [OF wf st] by blast
        have top: "?good t y" if "loop eqf key hash (look_top (fst t) hash) t = Some y"
          by (rule step(1) [OF that eq h wft It look_inv_top])
        note run'' = run' [unfolded if_not_P [OF ns] if_P [OF he] t prod.case]
        show ?thesis
        proof (cases r)
          case (Inl e)
          then show ?thesis using run'' st It r by auto
        next
          case r: (Inr cmp)
          note run3 = run'' [unfolded r sum.case]
          show ?thesis
          proof (cases "dk_id (ma_keys (fst t)) = fst pos")
            case False
            then show ?thesis using run3 top again by simp
          next
            case id: True
            then have ids: "dk_id (ma_keys (fst t)) = dk_id ?keys" using inv by (simp add: look_inv_def)
            have sz: "dk_size (ma_keys (fst t)) = dk_size ?keys" using st ids unfolding dict_step_def by blast
            have "?keys \<noteq> Py_EMPTY_KEYS" using entry(7) by (auto simp: hash_of_def)
            then obtain k where ok: "table_ok hsh k ?keys" and id0: "0 < dk_id ?keys" using wf unfolding wf_dict_def by blast
            then obtain k' where ok': "table_ok hsh k' (ma_keys (fst t))" using wft ids unfolding wf_dict_def by (metis id_EMPTY_KEYS(1) less_irrefl)
            have lene: "length (dk_entries (ma_keys (fst t))) = length (dk_entries ?keys)"
              using sz by (simp add: table_okD(4) [OF ok] table_okD(4) [OF ok'] table_okD(3) [OF ok, symmetric] table_okD(3) [OF ok', symmetric])
            have jl: "j < length (dk_entries (ma_keys (fst t)))"
              using entry(2) unfolding lene by (simp add: get_entry_def split: if_splits)
            have invt: "look_inv (ma_keys (fst t)) pos" using inv sz ids by (simp add: look_inv_def DK_MASK_def)
            have id0': "dk_id (ma_keys (fst t)) \<noteq> 0" using id0 ids by simp
            from wft id0' jl obtain ep' where ep': "get_entry (ma_keys (fst t)) (int j) = Inr ep'"
              "\<And>key. me_key ep' = Some key \<Longrightarrow> ep' = ents (ma_keys (fst t)) ! j \<and> hash_of (ents (ma_keys (fst t))) j = Some (hsh key)"
              by (rule look_again) blast
            note run4 = run3 [unfolded if_P [OF id] ep'(1) sum.case]
            show ?thesis
            proof (cases "me_key ep' = Some startkey")
              case False
              then show ?thesis using run4 top again by simp
            next
              case same: True
              show ?thesis
              proof (cases cmp)
                case True
                then have "y = (t, Inr (int j, me_value ep'))" using run4 same by simp
                then show ?thesis using st It ep'(2) [OF same] entry(6) he by (auto simp: look_post_def)
              next
                case False
                then have "loop eqf key hash (look_next pos) t = Some y" using run4 same by simp
                then show ?thesis using again step(1) [OF _ eq h wft It look_inv_next [OF invt]] by blast
              qed
            qed
          qed
        qed
      qed
    qed
  qed
qed

lemma lookdict_safe:
  assumes "eq_safe hsh I eqf" and "wf_dict hsh (fst s)" and "I (snd s)"
  shows "owp True (lookdict eqf key (hsh key))
    (\<lambda>r t. dict_step hsh (fst s) (fst t) \<and> I (snd t) \<and> look_post (hsh key) r (fst t))
    (\<lambda>e t. e \<noteq> AssertionFailed \<and> dict_step hsh (fst s) (fst t) \<and> I (snd t)) s"
proof (cases "lookdict eqf key (hsh key) s")
  case (Some y)
  then show ?thesis
    using lookdict_loop_safe [OF Some [unfolded lookdict_def] assms(1) refl assms(2,3) look_inv_top]
    by (cases y; cases "snd y") (simp_all add: owp_def)
qed (simp add: owp_def)

section \<open>Comparisons without effect\<close>

locale dict_keys =
  fixes eq :: "'k \<Rightarrow> 'k \<Rightarrow> bool" and hsh :: "'k \<Rightarrow> size_t"
  assumes eq_refl: "eq a a"
    and eq_sym: "eq a b \<Longrightarrow> eq b a"
    and eq_trans: "eq a b \<Longrightarrow> eq b c \<Longrightarrow> eq a c"
    and eq_hash: "eq a b \<Longrightarrow> hsh a = hsh b"
    and hash_not_error: "hsh a \<noteq> -1"

definition pure_eq :: "('k \<Rightarrow> 'k \<Rightarrow> bool) \<Rightarrow> ('k, 'v, 'w) key_eq" where
  "pure_eq eq a b = sret (eq a b)"

lemma pure_eq_safe: "eq_safe hsh I (pure_eq eq)"
  by (simp add: eq_safe_def pure_eq_def sret_def dict_step_refl)

lemma look_next_pow: "look_next (a, msk, (probe_next msk ^^ m) p) = (a, msk, (probe_next msk ^^ Suc m) p)"
  by (simp add: look_next_def)

context dict_keys
begin

lemma lookdict_run:
  fixes s :: "('k, 'v) pydict \<times> 'w"
  assumes wf: "wf_dict hsh (fst s)" and ok: "table_ok hsh k (ma_keys (fst s))"
    and not_before: "\<forall>l < N. \<not> (dk_indices (ma_keys (fst s)) ! probe_seq (mask k) (hsh key) l = DKIX_EMPTY \<or>
      (\<exists>j x. dk_indices (ma_keys (fst s)) ! probe_seq (mask k) (hsh key) l = int j \<and>
        me_key (ents (ma_keys (fst s)) ! j) = Some x \<and> eq x key))"
    and m: "m \<le> N"
  shows "lookdict_loop (pure_eq eq) key (hsh key)
      (dk_id (ma_keys (fst s)), mask k, (probe_next (mask k) ^^ m) (hsh key AND mask k, hsh key)) s =
    lookdict_loop (pure_eq eq) key (hsh key)
      (dk_id (ma_keys (fst s)), mask k, (probe_next (mask k) ^^ N) (hsh key AND mask k, hsh key)) s"
  using m
proof (induction rule: inc_induct)
  case (step m)
  let ?keys = "ma_keys (fst s)"
  let ?pos = "(dk_id ?keys, mask k, (probe_next (mask k) ^^ m) (hsh key AND mask k, hsh key))"
  have inv: "look_inv ?keys ?pos"
  proof -
    have "look_inv ?keys (dk_id ?keys, mask k, (probe_next (mask k) ^^ m) (hsh key AND mask k, hsh key))" for m
    proof (induction m)
      case 0
      show ?case using look_inv_top [of "fst s" "hsh key"] table_derived(5) [OF ok] by (simp add: look_top_def Let_def)
    next
      case (Suc m)
      then show ?case using look_inv_next look_next_pow by metis
    qed
    then show ?thesis .
  qed
  have slot: "probe_seq (mask k) (hsh key) m < length (dk_indices ?keys)"
    using probe_seq_bound table_derived(3) [OF ok] by metis
  then have g: "dictkeys_get_index ?keys (fst (snd (snd ?pos))) = Inr (dk_indices ?keys ! probe_seq (mask k) (hsh key) m)"
    by (simp add: dictkeys_get_index_def probe_seq_def)
  have this: "lookdict_loop (pure_eq eq) key (hsh key) ?pos s = lookdict_loop (pure_eq eq) key (hsh key) (look_next ?pos) s"
    using wf inv
  proof (cases rule: look_slot_cases)
    case empty
    then have "dk_indices ?keys ! probe_seq (mask k) (hsh key) m = DKIX_EMPTY" using g by simp
    then show ?thesis using not_before step(2) by blast
  next
    case dummy
    then show ?thesis by (subst lookdict_loop.simps) (simp add: DKIX_EMPTY_def DKIX_DUMMY_def)
  next
    case (entry j ep x v)
    have ne: "int j \<noteq> DKIX_EMPTY" by (simp add: DKIX_EMPTY_def)
    have "\<not> eq x key" using not_before step(2) g entry(1,3,4) by auto
    then have nx: "x \<noteq> key" "\<not> eq x key" using eq_refl by auto
    show ?thesis
      by (subst lookdict_loop.simps) (simp add: entry(1) [simplified] ne entry(2) entry(4) nx pure_eq_def sret_def)
  qed
  then show ?case using step(3) look_next_pow by metis
qed simp

lemma lookdict_pure:
  fixes s :: "('k, 'v) pydict \<times> 'w"
  assumes wf: "wf_dict hsh (fst s)"
  defines "E \<equiv> ents (ma_keys (fst s))"
  shows "(\<exists>j x. lookdict (pure_eq eq) key (hsh key) s = Some (s, Inr (int j, me_value (E ! j))) \<and>
      hash_of E j = Some (hsh key) \<and> me_key (E ! j) = Some x \<and> eq x key) \<or>
    lookdict (pure_eq eq) key (hsh key) s = Some (s, Inr (DKIX_EMPTY, None)) \<and>
      (\<forall>ep \<in> set E. \<forall>x. me_key ep = Some x \<longrightarrow> \<not> eq x key)"
  using wf
proof (cases rule: wf_dict_cases)
  case empty
  then show ?thesis
    unfolding lookdict_def
    by (subst (1 2) lookdict_loop.simps)
      (simp add: E_def look_top_def DK_MASK_def dictkeys_get_index_def Py_EMPTY_KEYS_def ents_def)
next
  case (table k)
  let ?keys = "ma_keys (fst s)"
  let ?slot = "\<lambda>n. dk_indices ?keys ! probe_seq (mask k) (hsh key) n"
  let ?hit = "\<lambda>n. ?slot n = DKIX_EMPTY \<or> (\<exists>j x. ?slot n = int j \<and> me_key (E ! j) = Some x \<and> eq x key)"
  let ?pos = "\<lambda>n. (dk_id ?keys, mask k :: size_t, (probe_next (mask k) ^^ n) (hsh key AND mask k, hsh key))"
  note D = table_okD [OF table(1)] and len = table_derived [OF table(1)]
  obtain n where "?slot n = DKIX_EMPTY" using probe_in_table [OF table(1), of "\<lambda>ix. ix = DKIX_EMPTY" "hsh key"] by blast
  then have "\<exists>n. ?hit n" by blast
  then obtain N where N: "?hit N" "\<forall>l < N. \<not> ?hit l" using exists_least_iff [of ?hit] by auto
  have run: "lookdict (pure_eq eq) key (hsh key) s = lookdict_loop (pure_eq eq) key (hsh key) (?pos N) s"
    using lookdict_run [OF wf table(1), of N key 0] N(2)
    unfolding E_def lookdict_def look_top_def Let_def len(5) by simp
  have g: "dictkeys_get_index ?keys (fst (snd (snd (?pos N)))) = Inr (?slot N)"
    using probe_seq_bound [of k "hsh key" N] len(3) by (simp add: dictkeys_get_index_def probe_seq_def)
  consider "?slot N = DKIX_EMPTY" | j x where "?slot N = int j" "me_key (E ! j) = Some x" "eq x key" using N(1) by blast
  then show ?thesis
  proof cases
    case 1
    have "\<not> eq x key" if ep: "ep \<in> set E" "me_key ep = Some x" for ep x
    proof
      assume e: "eq x key"
      obtain j where j: "j < length E" "ep = E ! j" using ep(1) by (auto simp: in_set_conv_nth)
      have "entry_ok hsh ep" using D(9) ep(1) by (simp add: E_def)
      then have "hash_of E j = Some (hsh key)" using j ep(2) eq_hash [OF e] by (auto simp: hash_of_def entry_ok_def)
      then obtain n where n: "?slot n = int j" "\<forall>m < n. ?slot m \<noteq> DKIX_EMPTY"
        using index_okD(4) [OF D(8)] unfolding E_def by blast
      have "\<not> n < N" using N(2) n(1) j(2) ep(2) e by blast
      then show False using 1 n by (cases "n = N") (auto simp: DKIX_EMPTY_def)
    qed
    moreover have "lookdict (pure_eq eq) key (hsh key) s = Some (s, Inr (DKIX_EMPTY, None))"
      unfolding run by (subst lookdict_loop.simps) (simp only: g 1 sum.case if_True refl)
    ultimately show ?thesis by blast
  next
    case (2 j x)
    have s: "probe_seq (mask k) (hsh key) N < 2 ^ k" by (rule probe_seq_bound)
    have ne: "int j \<noteq> DKIX_EMPTY" by (simp add: DKIX_EMPTY_def)
    have "hash_of E j \<noteq> None"
      using index_okD(2) [OF D(8) s] 2(1) unfolding E_def by (auto simp: DKIX_EMPTY_def DKIX_DUMMY_def)
    then obtain h where h: "hash_of E j = Some h" by blast
    note lj = hash_of_SomeD [OF h]
    have "entry_ok hsh (E ! j)" using D(9) lj nth_mem unfolding E_def by blast
    then have hk: "me_hash (E ! j) = hsh key" using 2 eq_hash by (auto simp: entry_ok_def)
    have jn: "j < dk_nentries ?keys" using lj len(2) by (simp add: E_def)
    have ge: "get_entry ?keys (int j) = Inr (E ! j)" using jn len(1) by (simp add: get_entry_def ents_nth E_def)
    have "lookdict (pure_eq eq) key (hsh key) s = Some (s, Inr (int j, me_value (E ! j)))"
      unfolding run by (subst lookdict_loop.simps) (simp add: g [simplified] 2 ne ge hk pure_eq_def sret_def)
    then show ?thesis using 2 h lj hk by (intro disjI1 exI [of _ j] exI [of _ x]) simp
  qed
qed

end

end
