(* ===== verification/PyDictSafe.thy ===== *)
theory PyDictSafe
  imports PyDictLook
begin

text \<open>
  The operations after their search, as lemmas about any search that ends with a live entry or none;
  from them it follows that no operation leaves its arrays or breaks the invariant, whatever the
  comparison of keys does. \<open>I\<close> is what the comparisons keep of the rest of the state; \<open>dict_merge\<close> and
  \<open>dict_equal\<close> need of it what \<open>other_kept\<close> says of the other dict.
\<close>

declare split_paired_All [simp del] split_paired_Ex [simp del]

section \<open>After the search\<close>

definition stored :: "('k, 'v) dkentry \<Rightarrow> int \<Rightarrow> ('k, 'v) pydict \<Rightarrow> ('k, 'v) pydict \<Rightarrow> bool" where
  "stored ep ix mp mp' \<longleftrightarrow>
     (ix = DKIX_EMPTY \<longrightarrow> live (ents (ma_keys mp')) = live (ents (ma_keys mp)) @ [ep]) \<and>
     (\<forall>j. ix = int j \<longrightarrow> live (ents (ma_keys mp')) =
        live ((ents (ma_keys mp))[j := (ents (ma_keys mp) ! j)\<lparr>me_value := me_value ep\<rparr>]))"

definition removed :: "int \<Rightarrow> ('k, 'v) pydict \<Rightarrow> ('k, 'v) pydict \<Rightarrow> bool" where
  "removed ix mp mp' \<longleftrightarrow>
     (\<forall>j. ix = int j \<longrightarrow> live (ents (ma_keys mp')) = live ((ents (ma_keys mp))[j := forget (ents (ma_keys mp) ! j)]))"

lemma int_not_EMPTY [simp]: "int j \<noteq> DKIX_EMPTY"
  by (simp add: DKIX_EMPTY_def)

lemma DKIX_EMPTY_neq_int [simp]: "DKIX_EMPTY \<noteq> int j"
  by (simp add: DKIX_EMPTY_def)

lemma owp_check_consistent:
  "wf_dict hsh (fst s) \<Longrightarrow> owp d check_consistent Q E s = Q () s"
  using wf_dict_assert [of hsh "fst s"] by (simp add: check_consistent_def)

lemma insert_new_at:
  fixes t :: "('k, 'v) pydict \<times> 'w"
  assumes wf: "wf_dict hsh (fst t)"
  shows "owp False (obind (on_dict (insert_new key (hsh key) v)) (\<lambda>_. check_consistent))
    (\<lambda>_ u. dict_step hsh (fst t) (fst u) \<and> snd u = snd t \<and> stored (new_entry key (hsh key) v) DKIX_EMPTY (fst t) (fst u))
    (\<lambda>e u. e = MemoryError \<and> u = t \<and> huge (ma_used (fst t))) t"
  by (simp add: owp_on_dict, rule owp_mono [OF insert_new_ok [OF wf]])
    (auto simp: owp_check_consistent [OF dict_step_wf] stored_def)

lemma set_value_at:
  fixes t :: "('k, 'v) pydict \<times> 'w"
  assumes wf: "wf_dict hsh (fst t)" and j: "hash_of (ents (ma_keys (fst t))) j = Some h"
  shows "wp (set_value (int j) v)
    (\<lambda>_ u. dict_step hsh (fst t) u \<and> stored (new_entry key h v) (int j) (fst t) u) (\<lambda>_ _. False) (fst t)"
proof -
  let ?E = "ents (ma_keys (fst t))"
  have "ma_keys (fst t) \<noteq> Py_EMPTY_KEYS" using j by (auto simp: hash_of_def)
  then obtain k where ok: "table_ok hsh k (ma_keys (fst t))" using wf by (auto simp: wf_dict_def)
  note lj = hash_of_SomeD [OF j]
  have jn: "j < dk_nentries (ma_keys (fst t))" using lj table_derived(2) [OF ok] by simp
  obtain K where K: "set_value (int j) v (fst t) = ((fst t)\<lparr>ma_keys := K\<rparr>, Inr ())" "table_ok hsh k K"
    "ents K = ?E[j := (?E ! j)\<lparr>me_value := Some v\<rparr>]" "dk_id K = dk_id (ma_keys (fst t))"
    using set_value_ok [OF ok jn] lj ents_nth [OF jn] by auto
  have "length (live (ents K)) = length (live ?E)"
    unfolding K(3) using lj live_split(1) [of j ?E] live_split(2) [of j ?E "(?E ! j)\<lparr>me_value := Some v\<rparr>"] by simp
  then have "dict_step hsh (fst t) ((fst t)\<lparr>ma_used := ma_used (fst t), ma_keys := K\<rparr>)"
    by (intro dict_step_in_place [OF wf ok K(2,4) table_id_pos [OF wf ok]]) (simp add: wf_dictD(2) [OF wf])
  then show ?thesis using K(1,3) by (simp add: wp_def stored_def new_entry_def)
qed

lemma store_at:
  fixes t :: "('k, 'v) pydict \<times> 'w"
  assumes wf: "wf_dict hsh (fst t)" and j: "hash_of (ents (ma_keys (fst t))) j = Some h"
    and old: "old = me_value (ents (ma_keys (fst t)) ! j)"
  shows "owp False
    (obind (if old \<noteq> Some v then obind (oassert (old \<noteq> None)) (\<lambda>_. on_dict (oterm (set_value (int j) v))) else oret ())
      (\<lambda>_. check_consistent))
    (\<lambda>_ u. dict_step hsh (fst t) (fst u) \<and> snd u = snd t \<and> stored (new_entry key h v) (int j) (fst t) (fst u))
    (\<lambda>e u. False) t"
proof (cases "old = Some v")
  case True
  let ?e = "ents (ma_keys (fst t)) ! j"
  have "?e\<lparr>me_value := Some v\<rparr> = ?e" using True old by simp
  then have "stored (new_entry key h v) (int j) (fst t) (fst t)"
    by (simp add: stored_def new_entry_def)
  then show ?thesis using True owp_check_consistent [OF wf] dict_step_refl [OF wf] by simp
next
  case False
  have nn: "old \<noteq> None" using hash_of_SomeD [OF j] old by simp
  show ?thesis
    using False nn
    by (simp add: owp_on_dict, intro wp_mono [OF set_value_at [OF wf j]])
      (auto simp: owp_check_consistent [OF dict_step_wf])
qed

definition insert_cont :: "'k \<Rightarrow> size_t \<Rightarrow> 'v \<Rightarrow> int \<times> 'v option \<Rightarrow> (('k, 'v) pydict \<times> 'w, unit) pyo" where
  "insert_cont key hash v = (\<lambda>(ix, old_value).
       if ix = DKIX_EMPTY then
         obind (oassert (old_value = None)) (\<lambda>_.
         obind (on_dict (insert_new key hash v)) (\<lambda>_. check_consistent))
       else
         obind
           (if old_value \<noteq> Some v then
              obind (oassert (old_value \<noteq> None)) (\<lambda>_. on_dict (oterm (set_value ix v)))
            else oret ()) (\<lambda>_.
           check_consistent))"

lemma insertdict_via: "insertdict eqf key hash v = obind (lookdict eqf key hash) (insert_cont key hash v)"
  by (simp add: insertdict_def insert_cont_def)

lemma insert_cont_ok:
  fixes t :: "('k, 'v) pydict \<times> 'w"
  assumes wf: "wf_dict hsh (fst t)" and r: "look_post (hsh key) r (fst t)"
  shows "owp False (insert_cont key (hsh key) v r)
    (\<lambda>_ u. dict_step hsh (fst t) (fst u) \<and> snd u = snd t \<and> stored (new_entry key (hsh key) v) (fst r) (fst t) (fst u))
    (\<lambda>e u. e = MemoryError \<and> u = t \<and> huge (ma_used (fst t))) t"
  using r unfolding look_post_def
proof (elim disjE exE conjE)
  assume "r = (DKIX_EMPTY, None)"
  then show ?thesis unfolding insert_cont_def using insert_new_at [OF wf, of key v] by simp
next
  fix j
  assume j: "r = (int j, me_value (ents (ma_keys (fst t)) ! j))" "hash_of (ents (ma_keys (fst t))) j = Some (hsh key)"
  show ?thesis
    unfolding insert_cont_def j(1) prod.case fst_conv if_not_P [OF int_not_EMPTY]
    by (rule owp_mono [OF store_at [OF wf j(2) refl]]) simp_all
qed

text \<open>Deletion: what the three operations that remove a key do after the search.\<close>

lemma delete_at:
  fixes t :: "('k, 'v) pydict \<times> 'w"
  assumes wf: "wf_dict hsh (fst t)" and j: "hash_of (ents (ma_keys (fst t))) j = Some h"
  shows "owp False (on_dict (delitem_common h (int j)))
    (\<lambda>_ u. dict_step hsh (fst t) (fst u) \<and> snd u = snd t \<and> removed (int j) (fst t) (fst u)) (\<lambda>e u. False) t"
  by (simp only: owp_on_dict, rule owp_mono [OF delitem_common_ok(1) [OF wf j]]) (simp_all add: removed_def)

section \<open>The operations, from what the search found\<close>

text \<open>
  \<open>searched d eqf key hsh P E s\<close>: the search ends with \<open>P\<close> and a live entry with the key's hash, or raises
  with \<open>E\<close>. The lemmas below carry \<open>P\<close> through the rest of an operation.
\<close>

definition searched :: "bool \<Rightarrow> ('k, 'v, 'w) key_eq \<Rightarrow> 'k \<Rightarrow> ('k \<Rightarrow> size_t) \<Rightarrow>
    (int \<times> 'v option \<Rightarrow> ('k, 'v) pydict \<times> 'w \<Rightarrow> bool) \<Rightarrow> (pyerr \<Rightarrow> ('k, 'v) pydict \<times> 'w \<Rightarrow> bool) \<Rightarrow>
    ('k, 'v) pydict \<times> 'w \<Rightarrow> bool" where
  "searched d eqf key hsh P E s \<longleftrightarrow> owp d (lookdict eqf key (hsh key))
     (\<lambda>r t. P r t \<and> wf_dict hsh (fst t) \<and> look_post (hsh key) r (fst t)) E s"

lemma searchedI:
  assumes "searched d eqf key hsh P E s"
    and "\<And>t. P (DKIX_EMPTY, None) t \<Longrightarrow> wf_dict hsh (fst t) \<Longrightarrow> owp d (cont (DKIX_EMPTY, None)) Q E' t"
    and "\<And>t j v. P (int j, Some v) t \<Longrightarrow> wf_dict hsh (fst t) \<Longrightarrow> hash_of (ents (ma_keys (fst t))) j = Some (hsh key) \<Longrightarrow>
      me_value (ents (ma_keys (fst t)) ! j) = Some v \<Longrightarrow> owp d (cont (int j, Some v)) Q E' t"
    and "\<And>e t. E e t \<Longrightarrow> E' e t"
  shows "owp d (obind (lookdict eqf key (hsh key)) cont) Q E' s"
  unfolding owp_obind
proof (rule owp_mono [OF assms(1) [unfolded searched_def]])
  fix r t
  assume r: "P r t \<and> wf_dict hsh (fst t) \<and> look_post (hsh key) r (fst t)"
  then have "look_post (hsh key) r (fst t)" by blast
  then show "owp d (cont r) Q E' t"
    unfolding look_post_def
  proof (elim disjE exE conjE)
    assume "r = (DKIX_EMPTY, None)"
    then show ?thesis using r assms(2) by blast
  next
    fix j
    assume j: "r = (int j, me_value (ents (ma_keys (fst t)) ! j))" "hash_of (ents (ma_keys (fst t))) j = Some (hsh key)"
    obtain v where v: "me_value (ents (ma_keys (fst t)) ! j) = Some v" using hash_of_SomeD [OF j(2)] by blast
    show ?thesis using assms(3) [OF _ _ j(2) v] r j(1) v by simp
  qed
qed (rule assms(4))

lemma insertdict_gen:
  fixes s :: "('k, 'v) pydict \<times> 'w"
  assumes look: "searched d eqf key hsh P E s"
  shows "owp d (insertdict eqf key (hsh key) v)
    (\<lambda>_ u. \<exists>ix old t. P (ix, old) t \<and> dict_step hsh (fst t) (fst u) \<and> snd u = snd t \<and>
      stored (new_entry key (hsh key) v) ix (fst t) (fst u))
    (\<lambda>e u. E e u \<or> e = MemoryError \<and> (\<exists>r. P r u) \<and> wf_dict hsh (fst u) \<and> huge (ma_used (fst u))) s"
  unfolding insertdict_via owp_obind
proof (rule owp_mono [OF look [unfolded searched_def]])
  fix r and t :: "('k, 'v) pydict \<times> 'w"
  assume t: "P r t \<and> wf_dict hsh (fst t) \<and> look_post (hsh key) r (fst t)"
  then have wf: "wf_dict hsh (fst t)" and r: "look_post (hsh key) r (fst t)" by simp_all
  obtain ix old where p: "r = (ix, old)" by (cases r)
  show "owp d (insert_cont key (hsh key) v r)
    (\<lambda>_ u. \<exists>ix old t. P (ix, old) t \<and> dict_step hsh (fst t) (fst u) \<and> snd u = snd t \<and>
      stored (new_entry key (hsh key) v) ix (fst t) (fst u))
    (\<lambda>e u. E e u \<or> e = MemoryError \<and> (\<exists>r. P r u) \<and> wf_dict hsh (fst u) \<and> huge (ma_used (fst u))) t"
    by (rule owp_mono [OF owp_weaken [OF insert_cont_ok [OF wf r]]]) (use t p in fastforce)+
qed simp

lemma SetItem_gen:
  fixes s :: "('k, 'v) pydict \<times> 'w"
  assumes wf: "wf_dict hsh (fst s)" and look: "searched d eqf key hsh P E s"
  shows "owp d (PyDict_SetItem eqf key (hsh key) v)
    (\<lambda>_ u. ma_keys (fst s) = Py_EMPTY_KEYS \<and> dict_step hsh (fst s) (fst u) \<and> snd u = snd s \<and>
        live (ents (ma_keys (fst u))) = [new_entry key (hsh key) v] \<or>
      (\<exists>ix old t. P (ix, old) t \<and> dict_step hsh (fst t) (fst u) \<and> snd u = snd t \<and>
        stored (new_entry key (hsh key) v) ix (fst t) (fst u)))
    (\<lambda>e u. E e u \<or> e = MemoryError \<and> (\<exists>r. P r u) \<and> wf_dict hsh (fst u) \<and> huge (ma_used (fst u))) s"
proof (cases "ma_keys (fst s) = Py_EMPTY_KEYS")
  case True
  show ?thesis
    unfolding PyDict_SetItem_def owp_obind owp_oget if_P [OF True] owp_on_dict owp_oterm
    by (rule wp_mono [OF insert_to_emptydict_ok [OF wf True]]) (use True in \<open>auto simp: prod_eq_iff\<close>)
next
  case False
  show ?thesis
    unfolding PyDict_SetItem_def owp_obind owp_oget if_not_P [OF False]
    by (rule owp_mono [OF insertdict_gen [OF look]]) auto
qed

lemma DelItem_gen:
  fixes s :: "('k, 'v) pydict \<times> 'w"
  assumes look: "searched d eqf key hsh P E s" and h: "hsh key \<noteq> -1"
  shows "owp d (PyDict_DelItem eqf key (hsh key))
    (\<lambda>_ u. \<exists>j v t. P (int j, Some v) t \<and> dict_step hsh (fst t) (fst u) \<and> snd u = snd t \<and> removed (int j) (fst t) (fst u))
    (\<lambda>e u. E e u \<or> e = KeyError \<and> P (DKIX_EMPTY, None) u \<and> wf_dict hsh (fst u)) s"
proof -
  have a: "owp d (PyDict_DelItem eqf key (hsh key)) Q E' s = owp d (obind (lookdict eqf key (hsh key)) (\<lambda>(ix, old_value).
       if ix = DKIX_EMPTY \<or> old_value = None then oraise KeyError
       else on_dict (delitem_common (hsh key) ix))) Q E' s" for Q E'
    using h by (simp add: PyDict_DelItem_def)
  show ?thesis
    unfolding a
  proof (rule searchedI [OF look], goal_cases)
    case (2 t j v)
    show ?case
      by simp (rule owp_mono [OF owp_weaken [OF delete_at [OF 2(2,3)]]], use 2 in blast, simp)
  qed simp_all
qed

lemma DelItemIf_gen:
  fixes s :: "('k, 'v) pydict \<times> 'w"
  assumes look: "searched d eqf key hsh P E s"
  shows "owp d (PyDict_DelItemIf eqf key (hsh key) predicate)
    (\<lambda>_ u. \<exists>j v t. P (int j, Some v) t \<and> (predicate v = Inr False \<and> u = t \<and> wf_dict hsh (fst u) \<or>
      predicate v = Inr True \<and> dict_step hsh (fst t) (fst u) \<and> snd u = snd t \<and> removed (int j) (fst t) (fst u)))
    (\<lambda>e u. E e u \<or> e = KeyError \<and> P (DKIX_EMPTY, None) u \<and> wf_dict hsh (fst u) \<or>
      (\<exists>j v. P (int j, Some v) u \<and> predicate v = Inl e \<and> wf_dict hsh (fst u))) s"
  unfolding PyDict_DelItemIf_def
proof (rule searchedI [OF look], goal_cases)
  case (2 t j v)
  let ?Q = "\<lambda>(_ :: unit) u. dict_step hsh (fst t) (fst u) \<and> snd u = snd t \<and> removed (int j) (fst t) (fst u)"
  obtain p where p: "lookdict_index (ma_keys (fst t)) (hsh key) (int j) = Some (Inr (int p))"
    "owp False (on_dict (delitem_common (of_int (int p)) (int j))) ?Q (\<lambda>e u. False) t =
      owp False (on_dict (delitem_common (hsh key) (int j))) ?Q (\<lambda>e u. False) t"
    using delitem_common_ok(2) [OF 2(2,3)] unfolding owp_on_dict by blast
  have del: "owp False (on_dict (delitem_common (of_int (int p)) (int j))) ?Q (\<lambda>e u. False) t"
    unfolding p(2) by (rule delete_at [OF 2(2,3)])
  show ?case
  proof (cases "predicate v")
    case (Inr b)
    show ?thesis
    proof (cases b)
      case True
      then show ?thesis
        using p(1) Inr by simp (rule owp_mono [OF owp_weaken [OF del [simplified]]], use 2 in auto)
    qed (use 2 p(1) Inr in auto)
  qed (use 2 in auto)
qed simp_all

lemma Pop_gen:
  fixes s :: "('k, 'v) pydict \<times> 'w"
  assumes look: "searched d eqf key hsh P E s" and wf: "wf_dict hsh (fst s)"
  shows "owp d (PyDict_Pop eqf key (hsh key) deflt)
    (\<lambda>x u. deflt = Some x \<and> (ma_used (fst s) = 0 \<and> u = s \<or> P (DKIX_EMPTY, None) u \<and> wf_dict hsh (fst u)) \<or>
      (\<exists>j t. P (int j, Some x) t \<and> dict_step hsh (fst t) (fst u) \<and> snd u = snd t \<and> removed (int j) (fst t) (fst u)))
    (\<lambda>e u. E e u \<or> e = KeyError \<and> deflt = None \<and>
      (ma_used (fst s) = 0 \<and> u = s \<or> P (DKIX_EMPTY, None) u \<and> wf_dict hsh (fst u))) s"
proof (cases "ma_used (fst s) = 0")
  case True
  then show ?thesis by (cases deflt) (simp_all add: PyDict_Pop_def)
next
  case False
  show ?thesis
    unfolding PyDict_Pop_def owp_obind [of _ "oget _"] owp_oget Let_def if_not_P [OF False]
  proof (rule searchedI [OF look], goal_cases)
    case (1 t)
    then show ?case by (cases deflt) simp_all
  next
    case (2 t j v)
    let ?Q = "\<lambda>(_ :: unit) u. dict_step hsh (fst t) u \<and> removed (int j) (fst t) u"
    obtain p where p: "lookdict_index (ma_keys (fst t)) (hsh key) (int j) = Some (Inr (int p))"
      "wp (clear_entry (of_int (int p)) (int j))
        (\<lambda>_ u. dict_step hsh (fst t) u \<and> ents (ma_keys u) = (ents (ma_keys (fst t)))[j := forget (ents (ma_keys (fst t)) ! j)])
        (\<lambda>_ _. False) (fst t)"
      using delitem_common_ok(3) [OF 2(2,3)] by blast
    have cons: "owp d check_consistent (\<lambda>_. Q v) E' (u, snd t)"
      if u: "dict_step hsh (fst t) u \<and> ents (ma_keys u) = (ents (ma_keys (fst t)))[j := forget (ents (ma_keys (fst t)) ! j)]"
        and Q: "\<And>u. \<exists>j t. P (int j, Some v) t \<and> dict_step hsh (fst t) (fst u) \<and> snd u = snd t \<and>
          removed (int j) (fst t) (fst u) \<Longrightarrow> Q v u"
      for u Q E'
    proof -
      have "wf_dict hsh (fst (u, snd t))" using u dict_step_wf by auto
      then have "owp d check_consistent (\<lambda>_. Q v) E' (u, snd t) = Q v (u, snd t)" by (rule owp_check_consistent)
      moreover have "Q v (u, snd t)"
        by (rule Q, intro exI [of _ j] exI [of _ t]) (use u 2(1) in \<open>simp add: removed_def\<close>)
      ultimately show ?thesis by simp
    qed
    show ?case
    proof (simp add: owp_on_dict p(1) del: of_int_of_nat_eq, rule wp_mono [OF p(2)], goal_cases)
      case (1 x u)
      then show ?case by (rule cons) blast
    qed simp
  qed simp
qed

lemma SetDefault_gen:
  fixes s :: "('k, 'v) pydict \<times> 'w"
  assumes wf: "wf_dict hsh (fst s)" and look: "searched d eqf key hsh P E s"
  shows "owp d (PyDict_SetDefault eqf key (hsh key) v)
    (\<lambda>x u. ma_keys (fst s) = Py_EMPTY_KEYS \<and> x = v \<and> dict_step hsh (fst s) (fst u) \<and> snd u = snd s \<and>
        live (ents (ma_keys (fst u))) = [new_entry key (hsh key) v] \<or>
      (\<exists>t. P (DKIX_EMPTY, None) t \<and> x = v \<and> dict_step hsh (fst t) (fst u) \<and> snd u = snd t \<and>
        stored (new_entry key (hsh key) v) DKIX_EMPTY (fst t) (fst u)) \<or>
      (\<exists>j. P (int j, Some x) u \<and> wf_dict hsh (fst u)))
    (\<lambda>e u. E e u \<or> e = MemoryError \<and> P (DKIX_EMPTY, None) u \<and> wf_dict hsh (fst u) \<and> huge (ma_used (fst u))) s"
proof (cases "ma_keys (fst s) = Py_EMPTY_KEYS")
  case True
  show ?thesis
    unfolding PyDict_SetDefault_def owp_obind owp_oget if_P [OF True] owp_on_dict owp_oterm owp_oret
    by (rule wp_mono [OF insert_to_emptydict_ok [OF wf True]]) (use True in \<open>auto simp: prod_eq_iff\<close>)
next
  case False
  show ?thesis
    unfolding PyDict_SetDefault_def owp_obind [of _ "oget _"] owp_oget if_not_P [OF False]
  proof (rule searchedI [OF look], goal_cases)
    case (1 t)
    have c: "owp d (obind (on_dict (insert_new key (hsh key) v)) (\<lambda>_. check_consistent)) (\<lambda>_. Q v) E' t \<Longrightarrow>
      owp d (obind (on_dict (insert_new key (hsh key) v)) (\<lambda>_. obind check_consistent (\<lambda>_. oret v))) Q E' t" for Q E'
      by simp
    show ?case
      unfolding prod.case if_P [OF refl]
      by (rule c, rule owp_mono [OF owp_weaken [OF insert_new_at [OF 1(2)]]]) (use 1 in auto)
  next
    case (2 t j v)
    then show ?case by (auto simp: owp_check_consistent)
  qed simp
qed

lemma lookups_gen:
  fixes s :: "('k, 'v) pydict \<times> 'w"
  assumes look: "searched d eqf key hsh P E s"
  shows "owp d (dict_subscript eqf key (hsh key))
      (\<lambda>x t. wf_dict hsh (fst t) \<and> (\<exists>j. P (int j, Some x) t))
      (\<lambda>e t. E e t \<or> e = KeyError \<and> wf_dict hsh (fst t) \<and> P (DKIX_EMPTY, None) t) s"
    and "owp d (dict_contains eqf key (hsh key))
      (\<lambda>b t. wf_dict hsh (fst t) \<and> (if b then \<exists>j v. P (int j, Some v) t else P (DKIX_EMPTY, None) t)) E s"
    and "owp d (dict_get eqf key (hsh key) v0)
      (\<lambda>x t. wf_dict hsh (fst t) \<and> ((\<exists>j. P (int j, Some x) t) \<or> x = v0 \<and> P (DKIX_EMPTY, None) t)) E s"
  unfolding dict_subscript_def dict_contains_def dict_get_def
  by (rule searchedI [OF look]; auto)+

section \<open>Memory safety\<close>

text \<open>
  \<open>m\<close> does not fail an assertion, leaves a dict that a suspended search can go on with, and keeps
  \<open>I\<close> of the rest of the state.
\<close>

definition safe_from :: "('k \<Rightarrow> size_t) \<Rightarrow> ('w \<Rightarrow> bool) \<Rightarrow> (('k, 'v) pydict \<times> 'w, 'a) pyo \<Rightarrow> ('k, 'v) pydict \<times> 'w \<Rightarrow> bool" where
  "safe_from hsh I m s \<longleftrightarrow> owp True m (\<lambda>_ t. dict_step hsh (fst s) (fst t) \<and> I (snd t))
     (\<lambda>e t. e \<noteq> AssertionFailed \<and> dict_step hsh (fst s) (fst t) \<and> I (snd t)) s"

lemma searched_safe:
  assumes "eq_safe hsh I eqf" and "wf_dict hsh (fst s)" and "I (snd s)"
  shows "searched True eqf key hsh (\<lambda>_ t. dict_step hsh (fst s) (fst t) \<and> I (snd t))
    (\<lambda>e t. e \<noteq> AssertionFailed \<and> dict_step hsh (fst s) (fst t) \<and> I (snd t)) s"
  unfolding searched_def by (rule owp_mono [OF lookdict_safe [OF assms]]) (auto dest: dict_step_wf)

lemma safe_obind:
  fixes s :: "('a, 'b) pydict \<times> 'c"
  assumes wf: "wf_dict hsh (fst s)" and m: "safe_from hsh I m s"
    and f: "\<And>x t. wf_dict hsh (fst t) \<Longrightarrow> I (snd t) \<Longrightarrow> safe_from hsh I (f x) t"
  shows "safe_from hsh I (obind m f) s"
  unfolding safe_from_def owp_obind
proof (rule owp_mono [OF m [unfolded safe_from_def]])
  fix x and t :: "('a, 'b) pydict \<times> 'c"
  assume "dict_step hsh (fst s) (fst t) \<and> I (snd t)"
  then have st: "dict_step hsh (fst s) (fst t)" and It: "I (snd t)" by simp_all
  show "owp True (f x) (\<lambda>_ u. dict_step hsh (fst s) (fst u) \<and> I (snd u))
      (\<lambda>e u. e \<noteq> AssertionFailed \<and> dict_step hsh (fst s) (fst u) \<and> I (snd u)) t"
    by (rule owp_mono [OF f [OF dict_step_wf [OF st] It, unfolded safe_from_def]]) (use dict_step_trans [OF wf st] in blast)+
qed

lemma safe_operations:
  assumes eq: "eq_safe hsh I eqf" and wf: "wf_dict hsh (fst s)" and rest: "I (snd s)"
  shows "safe_from hsh I (insertdict eqf key (hsh key) v) s"
    and "safe_from hsh I (PyDict_SetItem eqf key (hsh key) v) s"
    and "hsh key \<noteq> -1 \<Longrightarrow> safe_from hsh I (PyDict_DelItem eqf key (hsh key)) s"
    and "(\<And>x. predicate x \<noteq> Inl AssertionFailed) \<Longrightarrow> safe_from hsh I (PyDict_DelItemIf eqf key (hsh key) predicate) s"
    and "safe_from hsh I (PyDict_Pop eqf key (hsh key) deflt) s"
    and "safe_from hsh I (PyDict_SetDefault eqf key (hsh key) v) s"
    and "safe_from hsh I (dict_subscript eqf key (hsh key)) s"
    and "safe_from hsh I (dict_contains eqf key (hsh key)) s"
    and "safe_from hsh I (dict_get eqf key (hsh key) v) s"
    and "safe_from hsh I (on_dict dict_popitem) s"
proof -
  note look = searched_safe [OF eq wf rest, of key]
  note tr = dict_step_trans [OF wf] dict_step_refl [OF wf]
  have ne: "MemoryError \<noteq> AssertionFailed" "KeyError \<noteq> AssertionFailed" by simp_all
  show "safe_from hsh I (insertdict eqf key (hsh key) v) s"
    unfolding safe_from_def by (rule owp_mono [OF insertdict_gen [OF look]]; auto intro: tr(1) simp: tr(2) rest)
  show "safe_from hsh I (PyDict_SetItem eqf key (hsh key) v) s"
    unfolding safe_from_def by (rule owp_mono [OF SetItem_gen [OF wf look]]; auto intro: tr(1) simp: tr(2) rest)
  show "safe_from hsh I (PyDict_DelItem eqf key (hsh key)) s" if "hsh key \<noteq> -1"
    unfolding safe_from_def by (rule owp_mono [OF DelItem_gen [OF look that]]; auto intro: tr(1) simp: tr(2) rest)
  show "safe_from hsh I (PyDict_DelItemIf eqf key (hsh key) predicate) s" if "\<And>x. predicate x \<noteq> Inl AssertionFailed"
    unfolding safe_from_def
  proof (rule owp_mono [OF DelItemIf_gen [OF look]], goal_cases)
    case (1 x u)
    then show ?case by (auto intro: tr(1) simp: tr(2) rest)
  next
    case (2 e u)
    then show ?case using ne that by (elim exE conjE disjE) auto
  qed
  show "safe_from hsh I (PyDict_Pop eqf key (hsh key) deflt) s"
    unfolding safe_from_def by (rule owp_mono [OF Pop_gen [OF look wf]]; use tr(2) rest in \<open>auto intro: tr(1)\<close>)
  show "safe_from hsh I (PyDict_SetDefault eqf key (hsh key) v) s"
    unfolding safe_from_def by (rule owp_mono [OF SetDefault_gen [OF wf look]]; use tr(2) rest in \<open>auto intro: tr(1)\<close>)
  show "safe_from hsh I (dict_subscript eqf key (hsh key)) s"
    unfolding safe_from_def by (rule owp_mono [OF lookups_gen(1) [OF look]]; use ne in blast)
  show "safe_from hsh I (dict_contains eqf key (hsh key)) s"
    unfolding safe_from_def by (rule owp_mono [OF lookups_gen(2) [OF look]]; simp split: if_splits)
  show "safe_from hsh I (dict_get eqf key (hsh key) v) s"
    unfolding safe_from_def by (rule owp_mono [OF lookups_gen(3) [OF look]]; blast)
  show "safe_from hsh I (on_dict dict_popitem) s"
  proof (cases "ma_used (fst s) = 0")
    case True
    then show ?thesis using dict_step_refl [OF wf] rest by (simp add: safe_from_def owp_on_dict dict_popitem_def)
  next
    case False
    show ?thesis
      unfolding safe_from_def owp_on_dict
      by (rule owp_mono [OF owp_weaken [OF dict_popitem_ok [OF wf False]]]) (use rest in auto)
  qed
qed

section \<open>Merging\<close>

lemma estimate_keysize_room:
  assumes "n < 2 ^ 59"
  shows "\<exists>b. estimate_keysize n = 2 ^ b \<and> 3 \<le> b \<and> b \<le> 60 \<and> n \<le> USABLE_FRACTION (2 ^ b) \<and> (57 < b \<longrightarrow> huge n)"
proof -
  have "(n * 3 + 1) div 2 < 2 ^ 60" by (rule less_mult_imp_div_less) (use assms in simp)
  then obtain b where b: "calculate_keysize ((n * 3 + 1) div 2) = 2 ^ b" "3 \<le> b" "b \<le> 60" "(n * 3 + 1) div 2 \<le> 2 ^ b"
    using calculate_keysize_bounds [of "(n * 3 + 1) div 2" 60] by auto
  have hu: "huge n" if "57 < b"
  proof (rule ccontr)
    assume "\<not> huge n"
    then have "(n * 3 + 1) div 2 < 2 ^ 54" by (intro less_mult_imp_div_less) (simp add: huge_def)
    then obtain c where "calculate_keysize ((n * 3 + 1) div 2) = 2 ^ c" "c \<le> 54"
      using calculate_keysize_bounds [of "(n * 3 + 1) div 2" 54] by auto
    then show False using that b(1) by simp
  qed
  have "n \<le> USABLE_FRACTION (2 ^ b)" using b(4) by (simp add: USABLE_FRACTION_def)
  then show ?thesis using b hu unfolding estimate_keysize_def by (intro exI [of _ b]) simp
qed

lemma live_live [simp]: "live (live E) = live E"
  by (simp add: live_def)

lemma dictresize_estimate:
  assumes wf: "wf_dict hsh mp" and n: "ma_used mp \<le> n" "n < 2 ^ 59"
  shows "owp False (dictresize (estimate_keysize n))
    (\<lambda>_ t. dict_step hsh mp t \<and> live (ents (ma_keys t)) = live (ents (ma_keys mp)))
    (\<lambda>e t. e = MemoryError \<and> t = mp \<and> huge n) mp"
proof -
  obtain b where b: "estimate_keysize n = 2 ^ b" "3 \<le> b" "b \<le> 60" "n \<le> USABLE_FRACTION (2 ^ b)" "57 < b \<Longrightarrow> huge n"
    using estimate_keysize_room [OF n(2)] by blast
  have le: "ma_used mp \<le> USABLE_FRACTION (2 ^ b)" using b(4) n(1) by simp
  from dictresize_ok [OF wf b(2,3) le] show ?thesis
  proof (elim disjE exE conjE)
    fix K
    assume run: "dictresize (2 ^ b) mp = Some (mp\<lparr>ma_keys := K, ma_fresh := ma_fresh mp + 1\<rparr>, Inr ())"
      and K: "table_ok hsh b K" "ents K = live (ents (ma_keys mp))" "dk_id K = ma_fresh mp"
    have "dict_step hsh mp (mp\<lparr>ma_used := ma_used mp, ma_keys := K, ma_fresh := ma_fresh mp + 1\<rparr>)"
      by (rule dict_step_new_table [OF wf K(1,3)]) (simp add: K(2) wf_dictD(2) [OF wf])
    then show ?thesis using run K(2) by (simp add: owp_def b(1))
  qed (simp add: owp_def b(1) b(5))
qed

lemma clone_ok:
  assumes wf: "wf_dict hsh mp" and other: "wf_dict hsh other" and ne: "ma_keys other \<noteq> Py_EMPTY_KEYS"
  shows "dict_step hsh mp (mp\<lparr>ma_keys := clone_combined_dict_keys (ma_fresh mp) (ma_keys other),
    ma_fresh := ma_fresh mp + 1, ma_used := ma_used other\<rparr>)"
    and "ents (clone_combined_dict_keys f (ma_keys other)) = ents (ma_keys other)"
proof -
  let ?K = "clone_combined_dict_keys (ma_fresh mp) (ma_keys other)"
  show e: "ents (clone_combined_dict_keys f (ma_keys other)) = ents (ma_keys other)" for f
    by (simp add: ents_def clone_combined_dict_keys_def)
  obtain k where "table_ok hsh k (ma_keys other)" using other ne by (auto simp: wf_dict_def)
  then have "table_ok hsh k ?K" by (simp add: table_ok_def e) (simp add: clone_combined_dict_keys_def)
  then have "dict_step hsh mp (mp\<lparr>ma_used := ma_used other, ma_keys := ?K, ma_fresh := ma_fresh mp + 1\<rparr>)"
    by (rule dict_step_new_table [OF wf])
      (simp_all add: e [unfolded clone_combined_dict_keys_def] wf_dictD(2) [OF other] clone_combined_dict_keys_def)
  then show "dict_step hsh mp (mp\<lparr>ma_keys := ?K, ma_fresh := ma_fresh mp + 1, ma_used := ma_used other\<rparr>)"
    by (cases mp) simp
qed

text \<open>
  What a merge relies on while comparisons run: the other dict stays well-formed, and when a comparison
  gives it another table the number of entries, by which the loop notices changes, is another one too.
\<close>

definition other_kept :: "('k \<Rightarrow> size_t) \<Rightarrow> ('w \<Rightarrow> ('k, 'v) pydict) \<Rightarrow> nat \<Rightarrow> nat \<Rightarrow> 'w \<Rightarrow> bool" where
  "other_kept hsh other ep0 n w \<longleftrightarrow> wf_dict hsh (other w) \<and>
     (dk_nentries (ma_keys (other w)) = n \<longrightarrow> dk_id (ma_keys (other w)) = ep0)"

lemma wf_dict_entries: "wf_dict hsh mp \<Longrightarrow> ep \<in> set (ents (ma_keys mp)) \<Longrightarrow> entry_ok hsh ep"
  by (auto simp: wf_dict_def dest: table_okD(9))

lemma wf_dict_entry:
  assumes wf: "wf_dict hsh mp" and i: "i < dk_nentries (ma_keys mp)"
  shows "i < length (ents (ma_keys mp))" and "i < length (dk_entries (ma_keys mp))"
    and "dk_entries (ma_keys mp) ! i = ents (ma_keys mp) ! i" and "entry_ok hsh (ents (ma_keys mp) ! i)"
proof -
  have le: "dk_nentries (ma_keys mp) \<le> length (dk_entries (ma_keys mp))"
    using wf by (cases rule: wf_dict_cases) (auto dest: table_derived(1))
  then show l: "i < length (ents (ma_keys mp))" "i < length (dk_entries (ma_keys mp))"
    "dk_entries (ma_keys mp) ! i = ents (ma_keys mp) ! i"
    using i by (simp_all add: ents_def)
  show "entry_ok hsh (ents (ma_keys mp) ! i)" using wf_dict_entries [OF wf nth_mem [OF l(1)]] .
qed

text \<open>The part of the loop body that stores one item.\<close>

definition merge_item ::
    "('k, 'v, 'w) key_eq \<Rightarrow> nat \<Rightarrow> 'k \<Rightarrow> size_t \<Rightarrow> 'v \<Rightarrow> (('k, 'v) pydict \<times> 'w, unit) pyo" where
  "merge_item eqf override key hash v =
     (if override = 1 then insertdict eqf key hash v
      else
        obind (dict_contains eqf key hash) (\<lambda>found.
          if \<not> found then insertdict eqf key hash v
          else if override \<noteq> 0 then oraise KeyError
          else oret ()))"

lemma owp_merge_done: "\<not> i < n \<Longrightarrow> owp d (merge_entries eqf other override ep0 n i) Q E s = Q () s"
  by (subst merge_entries.simps) simp

lemma owp_merge_step:
  fixes s :: "('k, 'v) pydict \<times> 'w" and other :: "'w \<Rightarrow> ('k, 'v) pydict"
  assumes i: "i < n" and wf: "wf_dict hsh (other (snd s))"
    and tab: "dk_id (ma_keys (other (snd s))) = ep0" "dk_nentries (ma_keys (other (snd s))) = n"
  shows "owp d (merge_entries eqf other override ep0 n i) Q E s =
    (let ep = ents (ma_keys (other (snd s))) ! i in
     case me_value ep of
       None \<Rightarrow> owp d (merge_entries eqf other override ep0 n (i + 1)) Q E s
     | Some v \<Rightarrow> \<exists>key. me_key ep = Some key \<and> me_hash ep = hsh key \<and>
         owp d (merge_item eqf override key (hsh key) v) (\<lambda>_ t.
           if n \<noteq> dk_nentries (ma_keys (other (snd t))) then E RuntimeError t
           else owp d (merge_entries eqf other override ep0 n (i + 1)) Q E t) E s)"
proof -
  define ep where "ep = ents (ma_keys (other (snd s))) ! i"
  note e = wf_dict_entry [OF wf, of i, unfolded tab(2), OF i]
  have r: "read_entry (ma_keys (other (snd s))) ep0 i = Inr ep"
    using e(2,3) tab(1) by (simp add: read_entry_def ep_def)
  show ?thesis
  proof (cases "me_value ep")
    case None
    show ?thesis
      using i by (subst merge_entries.simps) (cases "me_key ep"; simp add: r None flip: ep_def)
  next
    case (Some v)
    then obtain key where key: "me_key ep = Some key" "me_hash ep = hsh key"
      using e(4) by (auto simp: entry_ok_def ep_def)
    show ?thesis
      using i by (subst merge_entries.simps) (simp add: r Some key merge_item_def cong: if_cong flip: ep_def)
  qed
qed

lemma merge_item_safe:
  fixes s :: "('k, 'v) pydict \<times> 'w"
  assumes eq: "eq_safe hsh I eqf" and wf: "wf_dict hsh (fst s)" and rest: "I (snd s)"
  shows "safe_from hsh I (merge_item eqf override key (hsh key) v) s"
proof (cases "override = 1")
  case True
  then show ?thesis by (simp add: merge_item_def safe_operations(1) [OF eq wf rest])
next
  case False
  show ?thesis
    unfolding merge_item_def if_not_P [OF False]
  proof (rule safe_obind [OF wf safe_operations(8) [OF eq wf rest]])
    fix found and t :: "('k, 'v) pydict \<times> 'w"
    assume wft: "wf_dict hsh (fst t)" and It: "I (snd t)"
    then have "safe_from hsh I (oret ()) t" "safe_from hsh I (oraise KeyError :: (('k, 'v) pydict \<times> 'w, unit) pyo) t"
      by (simp_all add: safe_from_def dict_step_refl)
    then show "safe_from hsh I (if \<not> found then insertdict eqf key (hsh key) v
        else if override \<noteq> 0 then oraise KeyError else oret ()) t"
      using safe_operations(1) [OF eq wft It] by simp
  qed
qed

lemma merge_entries_safe:
  fixes s :: "('k, 'v) pydict \<times> 'w" and other :: "'w \<Rightarrow> ('k, 'v) pydict"
  assumes eq: "eq_safe hsh I eqf" and kept: "\<And>w. I w \<Longrightarrow> other_kept hsh other ep0 n w"
    and "wf_dict hsh (fst s)" and "I (snd s)" and "dk_nentries (ma_keys (other (snd s))) = n"
  shows "safe_from hsh I (merge_entries eqf other override ep0 n i) s"
  using assms(3-)
proof (induction "n - i" arbitrary: i s)
  case 0
  then show ?case by (simp add: safe_from_def owp_merge_done dict_step_refl)
next
  case (Suc m)
  note wf = Suc.prems(1) and rest = Suc.prems(2) and tab = Suc.prems(3)
  have i: "i < n" "m = n - (i + 1)" using Suc.hyps(2) by simp_all
  have k: "wf_dict hsh (other (snd s))" "dk_id (ma_keys (other (snd s))) = ep0"
    using kept [OF rest] tab by (simp_all add: other_kept_def)
  note st = owp_merge_step [where s = s and other = other, OF i(1) k tab, of True eqf override]
  show ?case
  proof (cases "me_value (ents (ma_keys (other (snd s))) ! i)")
    case None
    then show ?thesis
      using Suc.hyps(1) [OF i(2) wf rest tab] by (simp add: safe_from_def st)
  next
    case (Some v)
    have "entry_ok hsh (ents (ma_keys (other (snd s))) ! i)"
      by (rule wf_dict_entry(4) [OF k(1)]) (simp add: tab i(1))
    then obtain key where key: "me_key (ents (ma_keys (other (snd s))) ! i) = Some key"
        "me_hash (ents (ma_keys (other (snd s))) ! i) = hsh key"
      using Some by (auto simp: entry_ok_def)
    let ?check = "obind (oget (\<lambda>s. dk_nentries (ma_keys (other (snd s))))) (\<lambda>nentries.
      if n \<noteq> nentries then oraise RuntimeError else merge_entries eqf other override ep0 n (i + 1))"
    have "safe_from hsh I (obind (merge_item eqf override key (hsh key) v) (\<lambda>_. ?check)) s"
    proof (rule safe_obind [OF wf merge_item_safe [OF eq wf rest]])
      fix t :: "('k, 'v) pydict \<times> 'w"
      assume t: "wf_dict hsh (fst t)" "I (snd t)"
      show "safe_from hsh I ?check t"
        using Suc.hyps(1) [OF i(2) t] dict_step_refl [OF t(1)] t(2) by (auto simp: safe_from_def)
    qed
    then show ?thesis
      by (simp only: safe_from_def st Some key Let_def option.case owp_obind owp_oget option.inject simp_thms)
        (elim owp_mono; simp split: if_splits)
  qed
qed

lemma safe_check:
  assumes "wf_dict hsh (fst t)" and "I (snd t)"
  shows "safe_from hsh I check_consistent t"
  using dict_step_refl [OF assms(1)] assms(2) by (simp add: safe_from_def owp_check_consistent [OF assms(1)])

text \<open>The three ways \<open>dict_merge\<close> goes.\<close>

definition can_clone :: "('k, 'v) pydict \<Rightarrow> ('k, 'v) pydict \<Rightarrow> bool" where
  "can_clone mp other \<longleftrightarrow> ma_used mp = 0 \<and> ma_used other = dk_nentries (ma_keys other) \<and>
     (dk_size (ma_keys other) = PyDict_MINSIZE \<or> USABLE_FRACTION (dk_size (ma_keys other) div 2) < ma_used other)"

definition grow_for :: "('k, 'v) pydict \<Rightarrow> ('k, 'v) pydict \<Rightarrow> (('k, 'v) pydict, unit) pyo" where
  "grow_for mp other = (if USABLE_FRACTION (dk_size (ma_keys mp)) < ma_used other
     then dictresize (estimate_keysize (ma_used mp + ma_used other)) else oret ())"

definition merge_all :: "('k, 'v, 'w) key_eq \<Rightarrow> ('w \<Rightarrow> ('k, 'v) pydict) \<Rightarrow> nat \<Rightarrow> ('k, 'v) pydict \<Rightarrow>
    (('k, 'v) pydict \<times> 'w, unit) pyo" where
  "merge_all eqf other override oth =
     merge_entries eqf other override (dk_id (ma_keys oth)) (dk_nentries (ma_keys oth)) 0"

lemma owp_dict_merge:
  fixes s :: "('k, 'v) pydict \<times> 'w" and other :: "'w \<Rightarrow> ('k, 'v) pydict"
  assumes ov: "override \<le> 2"
  defines "mp \<equiv> fst s" and "oth \<equiv> other (snd s)"
  shows "owp d (dict_merge eqf same other override) Q E s =
    (if same \<or> ma_used oth = 0 then Q () s
     else if can_clone mp oth then
       owp d check_consistent Q E (mp\<lparr>ma_keys := clone_combined_dict_keys (ma_fresh mp) (ma_keys oth),
         ma_fresh := ma_fresh mp + 1, ma_used := ma_used oth\<rparr>, snd s)
     else
       owp d (grow_for mp oth) (\<lambda>_ t.
         owp d (merge_all eqf other (if ma_used mp = 0 then 1 else override) oth)
           (\<lambda>_. owp d check_consistent Q E) E (t, snd s)) (\<lambda>e t. E e (t, snd s)) mp)"
proof -
  obtain m w where s: "s = (m, w)" by (cases s)
  then have "mp = m" "oth = other w" by (simp_all add: mp_def oth_def)
  then show ?thesis
    using ov unfolding s dict_merge_def merge_all_def
    by (simp add: grow_for_def owp_on_dict can_clone_def Let_def cong: if_cong)
qed

lemma grow_for_ok:
  assumes wf: "wf_dict hsh mp" and other: "wf_dict hsh other"
  shows "owp False (grow_for mp other)
    (\<lambda>_ t. dict_step hsh mp t \<and> live (ents (ma_keys t)) = live (ents (ma_keys mp)))
    (\<lambda>e t. e = MemoryError \<and> t = mp \<and> huge (ma_used mp + ma_used other)) mp"
proof (cases "USABLE_FRACTION (dk_size (ma_keys mp)) < ma_used other")
  case True
  have used: "ma_used mp \<le> ma_used mp + ma_used other" "ma_used mp + ma_used other < 2 ^ 59"
    using table_used_bound [OF wf] table_used_bound [OF other] by simp_all
  show ?thesis using True dictresize_estimate [OF wf used] by (simp add: grow_for_def)
qed (use dict_step_refl [OF wf] in \<open>simp add: grow_for_def\<close>)

lemma used_not_empty: "wf_dict hsh mp \<Longrightarrow> ma_used mp \<noteq> 0 \<Longrightarrow> ma_keys mp \<noteq> Py_EMPTY_KEYS"
  using wf_dictD(2) by fastforce

lemma dict_merge_safe:
  fixes s :: "('k, 'v) pydict \<times> 'w" and other :: "'w \<Rightarrow> ('k, 'v) pydict"
  defines "okeys \<equiv> ma_keys (other (snd s))"
  assumes eq: "eq_safe hsh I eqf" and wf: "wf_dict hsh (fst s)" and rest: "I (snd s)" and ov: "override \<le> 2"
    and kept: "\<And>w. I w \<Longrightarrow> other_kept hsh other (dk_id okeys) (dk_nentries okeys) w"
  shows "safe_from hsh I (dict_merge eqf same other override) s"
proof -
  have other: "wf_dict hsh (other (snd s))" using kept [OF rest] by (simp add: other_kept_def)
  consider (none) "same \<or> ma_used (other (snd s)) = 0"
    | (clone) "\<not> (same \<or> ma_used (other (snd s)) = 0)" "can_clone (fst s) (other (snd s))"
    | (loop) "\<not> (same \<or> ma_used (other (snd s)) = 0)" "\<not> can_clone (fst s) (other (snd s))" by argo
  then show ?thesis
  proof cases
    case none
    then show ?thesis unfolding safe_from_def owp_dict_merge [OF ov] using dict_step_refl [OF wf] rest by simp
  next
    case clone
    note cl = clone_ok(1) [OF wf other used_not_empty [OF other]]
    show ?thesis
      unfolding safe_from_def owp_dict_merge [OF ov] if_not_P [OF clone(1)] if_P [OF clone(2)]
      by (subst owp_check_consistent) (use clone dict_step_wf [OF cl] cl rest in simp_all)
  next
    case loop
    let ?rest = "\<lambda>_ :: unit. obind (merge_all eqf other (if ma_used (fst s) = 0 then 1 else override) (other (snd s)))
      (\<lambda>_. check_consistent)"
    have "safe_from hsh I (on_dict (grow_for (fst s) (other (snd s)))) s"
      unfolding safe_from_def owp_on_dict
      by (rule owp_mono [OF owp_weaken [OF grow_for_ok [OF wf other]]]) (use dict_step_refl [OF wf] rest in auto)
    note g = this [unfolded safe_from_def owp_on_dict]
    show ?thesis
      unfolding safe_from_def owp_dict_merge [OF ov] if_not_P [OF loop(1)] if_not_P [OF loop(2)]
    proof (rule owp_mono [OF owp_weaken [OF grow_for_ok [OF wf other]]], goal_cases)
      case (1 x t)
      then have st: "dict_step hsh (fst s) t" by simp
      have wft: "wf_dict hsh (fst (t, snd s))" using dict_step_wf [OF st] by simp
      have "safe_from hsh I (?rest ()) (t, snd s)"
        unfolding merge_all_def
        by (intro safe_obind [OF wft] merge_entries_safe [OF eq kept [unfolded okeys_def]] safe_check)
          (use wft rest in simp_all)
      then have m: "owp True (?rest ()) (\<lambda>_ u. dict_step hsh t (fst u) \<and> I (snd u))
          (\<lambda>e u. e \<noteq> AssertionFailed \<and> dict_step hsh t (fst u) \<and> I (snd u)) (t, snd s)"
        unfolding safe_from_def by simp
      have "owp True (?rest ()) (\<lambda>_ u. dict_step hsh (fst s) (fst u) \<and> I (snd u))
          (\<lambda>e u. e \<noteq> AssertionFailed \<and> dict_step hsh (fst s) (fst u) \<and> I (snd u)) (t, snd s)"
        by (rule owp_mono [OF m]; elim conjE; simp add: dict_step_trans [OF wf st])
      then show ?case by simp
    qed (use dict_step_refl [OF wf] rest in simp)
  qed
qed

text \<open>The comparison of two dicts, with the first one anywhere in the rest of the state.\<close>

lemma dict_equal_loop_safe:
  fixes eqf :: "('k, 'v, 'w) key_eq" and y :: "(('k, 'v) pydict \<times> 'w) \<times> bool pyres"
  assumes run: "dict_equal_loop eqf veqf a i s = Some y"
    and eq: "eq_safe hsh I eqf" and veq: "eq_safe hsh I veqf" and kept: "\<forall>w. I w \<longrightarrow> wf_dict hsh (a w)"
    and wf: "wf_dict hsh (fst s)" and rest: "I (snd s)"
  shows "dict_step hsh (fst s) (fst (fst y)) \<and> I (snd (fst y)) \<and> snd y \<noteq> Inl AssertionFailed"
  using assms
proof (induction eqf veqf a i s y rule: dict_equal_loop.raw_induct [rotated, consumes 1, case_names step])
  case (step loop eqf veqf a i s y)
  let ?good = "\<lambda>s y. dict_step hsh (fst s) (fst (fst y)) \<and> I (snd (fst y)) \<and> snd y \<noteq> Inl AssertionFailed"
  let ?keys = "ma_keys (a (snd s))"
  note run = step(2) [unfolded Let_def] and eq = step(3) and veq = step(4) and kept = step(5)
    and wf = step(6) and rest = step(7)
  note next_pass = step(1) [OF _ eq veq kept]
  have wfa: "wf_dict hsh (a (snd s))" using kept rest by blast
  show ?case
  proof (cases "i < dk_nentries ?keys")
    case False
    then have "y = (s, Inr True)" using run by simp
    then show ?thesis using rest dict_step_refl [OF wf] by simp
  next
    case True
    note e = wf_dict_entry [OF wfa True]
    have g: "get_entry ?keys (int i) = Inr (ents ?keys ! i)" using e(2,3) by (simp add: get_entry_def)
    have nn: "\<not> \<not> i < dk_nentries ?keys" using True by simp
    note run' = run [unfolded if_not_P [OF nn] g sum.case]
    show ?thesis
    proof (cases "me_value (ents ?keys ! i)")
      case None
      then have "loop eqf veqf a (i + 1) s = Some y" using run' by simp
      then show ?thesis by (rule next_pass [OF _ wf rest])
    next
      case (Some aval)
      then obtain key where key: "me_key (ents ?keys ! i) = Some key" "me_hash (ents ?keys ! i) = hsh key"
        using e(4) by (auto simp: entry_ok_def)
      note run2 = run' [unfolded Some key option.case]
      have look: "owp True (lookdict eqf key (hsh key)) (\<lambda>r t. ?good s (t, Inr True))
          (\<lambda>e t. ?good s (t, Inl e :: bool pyres)) s"
        by (rule owp_mono [OF lookdict_safe [OF eq wf rest]]) simp_all
      obtain t r where t: "lookdict eqf key (hsh key) s = Some (t, r)"
        using run2 by (cases "lookdict eqf key (hsh key) s") auto
      show ?thesis
      proof (cases r)
        case (Inl er)
        then show ?thesis using run2 look by (auto simp: t owp_def)
      next
        case (Inr p)
        obtain ix bval where p: "p = (ix, bval)" by (cases p)
        have st: "dict_step hsh (fst s) (fst t)" and It: "I (snd t)" using look by (simp_all add: t owp_def Inr)
        note wft = dict_step_wf [OF st]
        note run3 = run2 [unfolded t Inr p option.case prod.case sum.case]
        show ?thesis
        proof (cases bval)
          case None
          then show ?thesis using run3 st It by auto
        next
          case (Some b)
          obtain u c where u: "veqf aval b t = (u, c)" by (cases "veqf aval b t")
          have stu: "dict_step hsh (fst t) (fst u)" and Iu: "I (snd u)" and c: "c \<noteq> Inl AssertionFailed"
            using veq wft It u unfolding eq_safe_def by (metis fst_conv snd_conv)+
          note su = dict_step_trans [OF wf st stu] and wfu = dict_step_wf [OF stu]
          note run4 = run3 [unfolded Some option.case u prod.case]
          show ?thesis
          proof (cases "c = Inr True")
            case True
            then have "loop eqf veqf a (i + 1) u = Some y" using run4 by simp
            from next_pass [OF this wfu Iu] show ?thesis using dict_step_trans [OF wf su] by blast
          next
            case False
            then show ?thesis using run4 su Iu c by (auto split: sum.splits if_splits)
          qed
        qed
      qed
    qed
  qed
qed

lemma dict_equal_safe:
  assumes eq: "eq_safe hsh I eqf" and veq: "eq_safe hsh I veqf" and kept: "\<And>w. I w \<Longrightarrow> wf_dict hsh (a w)"
    and wf: "wf_dict hsh (fst s)" and rest: "I (snd s)"
  shows "safe_from hsh I (dict_equal eqf veqf a) s"
proof -
  obtain b w where s: "s = (b, w)" by (cases s)
  show ?thesis
  proof (cases "ma_used (a w) = ma_used b")
    case False
    then show ?thesis using rest dict_step_refl [OF wf] by (simp add: safe_from_def dict_equal_def s)
  next
    case True
    show ?thesis
    proof (cases "dict_equal_loop eqf veqf a 0 s")
      case None
      then show ?thesis using True by (simp add: safe_from_def dict_equal_def s owp_def obind_def oget_def)
    next
      case (Some y)
      from kept dict_equal_loop_safe [OF this eq veq _ wf rest] show ?thesis
        using True Some unfolding s
        by (cases y; cases "snd y") (simp_all add: safe_from_def dict_equal_def owp_def obind_def oget_def)
    qed
  qed
qed

end
