(* ===== verification/PyDictSpec.thy ===== *)
theory PyDictSpec
  imports PyDictSafe
begin

text \<open>
  What dicts promise. With a comparison of keys that is an equivalence and has no effect every
  operation returns, and does on the list of items what the same operation does on an association
  list that keeps the order of insertion. The last section has the keys that are integer objects.
\<close>

declare split_paired_All [simp del] split_paired_Ex [simp del]

section \<open>The abstract dict\<close>

definition al_get :: "('k \<Rightarrow> 'k \<Rightarrow> bool) \<Rightarrow> 'k \<Rightarrow> ('k \<times> 'v) list \<Rightarrow> 'v option" where
  "al_get eq key ps = map_option snd (find (\<lambda>p. eq (fst p) key) ps)"

text \<open>An item that is there keeps its place and its key.\<close>

definition al_set :: "('k \<Rightarrow> 'k \<Rightarrow> bool) \<Rightarrow> 'k \<Rightarrow> 'v \<Rightarrow> ('k \<times> 'v) list \<Rightarrow> ('k \<times> 'v) list" where
  "al_set eq key v ps = (if list_ex (\<lambda>p. eq (fst p) key) ps
     then List.map (\<lambda>p. if eq (fst p) key then (fst p, v) else p) ps else ps @ [(key, v)])"

definition al_del :: "('k \<Rightarrow> 'k \<Rightarrow> bool) \<Rightarrow> 'k \<Rightarrow> ('k \<times> 'v) list \<Rightarrow> ('k \<times> 'v) list" where
  "al_del eq key ps = filter (\<lambda>p. \<not> eq (fst p) key) ps"

definition distinct_keys :: "('k \<Rightarrow> 'k \<Rightarrow> bool) \<Rightarrow> ('k \<times> 'v) list \<Rightarrow> bool" where
  "distinct_keys eq ps \<longleftrightarrow> sorted_wrt (\<lambda>p q. \<not> eq (fst p) (fst q)) ps"

definition item :: "('k, 'v) dkentry \<Rightarrow> 'k \<times> 'v" where
  "item ep = (the (me_key ep), the (me_value ep))"

definition items :: "('k, 'v) pydict \<Rightarrow> ('k \<times> 'v) list" where
  "items mp = List.map item (live (ents (ma_keys mp)))"

definition dict_ok :: "('k \<Rightarrow> 'k \<Rightarrow> bool) \<Rightarrow> ('k \<Rightarrow> size_t) \<Rightarrow> ('k, 'v) pydict \<Rightarrow> bool" where
  "dict_ok eq hsh mp \<longleftrightarrow> wf_dict hsh mp \<and> distinct_keys eq (items mp)"

lemma dict_ok_New: "dict_ok eq hsh (PyDict_New :: ('k, 'v) pydict)"
  and items_New: "items (PyDict_New :: ('k, 'v) pydict) = []"
proof -
  show "items (PyDict_New :: ('k, 'v) pydict) = []" by (simp add: items_def PyDict_New_def)
  then have "distinct_keys eq (items (PyDict_New :: ('k, 'v) pydict))" by (simp only: distinct_keys_def sorted_wrt.simps)
  then show "dict_ok eq hsh (PyDict_New :: ('k, 'v) pydict)" by (simp add: dict_ok_def wf_New)
qed

lemma al_absent:
  assumes "\<forall>p \<in> set ps. \<not> eq (fst p) key"
  shows "al_get eq key ps = None" "al_set eq key v ps = ps @ [(key, v)]" "al_del eq key ps = ps"
proof -
  have "\<not> list_ex (\<lambda>p. eq (fst p) key) ps" using assms by (auto simp: list_ex_iff)
  then show "al_set eq key v ps = ps @ [(key, v)]" by (simp add: al_set_def)
  show "al_get eq key ps = None" using assms by (auto simp: al_get_def find_None_iff)
  show "al_del eq key ps = ps" using assms by (simp add: al_del_def)
qed

lemma al_present:
  assumes "\<forall>p \<in> set A. \<not> eq (fst p) key" "\<forall>p \<in> set B. \<not> eq (fst p) key" "eq x key"
  shows "al_get eq key (A @ (x, w) # B) = Some w" "al_set eq key v (A @ (x, w) # B) = A @ (x, v) # B"
    "al_del eq key (A @ (x, w) # B) = A @ B"
proof -
  have A: "List.map (\<lambda>p. if eq (fst p) key then (fst p, v) else p) A = A"
    and B: "List.map (\<lambda>p. if eq (fst p) key then (fst p, v) else p) B = B"
    by (rule map_idI, use assms(1,2) in simp)+
  show "al_set eq key v (A @ (x, w) # B) = A @ (x, v) # B" using assms(3) by (simp add: al_set_def A B)
  have "find (\<lambda>p. eq (fst p) key) (A @ (x, w) # B) = Some (x, w)"
    using assms(1,3) by (induction A) simp_all
  then show "al_get eq key (A @ (x, w) # B) = Some w" by (simp add: al_get_def)
  have "filter (\<lambda>p. \<not> eq (fst p) key) A = A" "filter (\<lambda>p. \<not> eq (fst p) key) B = B"
    using assms(1,2) by (simp_all add: filter_id_conv)
  then show "al_del eq key (A @ (x, w) # B) = A @ B" using assms(3) by (simp add: al_del_def)
qed

lemma distinct_keys_middle:
  assumes "distinct_keys eq (A @ (x, w) # B)"
  shows "distinct_keys eq (A @ (x, v) # B)" and "distinct_keys eq (A @ B)"
  using assms by (auto simp: distinct_keys_def sorted_wrt_append)

text \<open>What the search found, in terms of the items.\<close>

definition hit :: "('k \<Rightarrow> 'k \<Rightarrow> bool) \<Rightarrow> 'k \<Rightarrow> ('k, 'v) pydict \<times> 'w \<Rightarrow> int \<times> 'v option \<Rightarrow> ('k, 'v) pydict \<times> 'w \<Rightarrow> bool" where
  "hit eq key s r t \<longleftrightarrow> t = s \<and> (fst r = DKIX_EMPTY \<or> (\<exists>j. fst r = int j)) \<and>
     (fst r = DKIX_EMPTY \<longrightarrow> snd r = None \<and> (\<forall>p \<in> set (items (fst s)). \<not> eq (fst p) key)) \<and>
     (\<forall>j. fst r = int j \<longrightarrow> (\<exists>x w h. snd r = Some w \<and> hash_of (ents (ma_keys (fst s))) j = Some h \<and>
        me_key (ents (ma_keys (fst s)) ! j) = Some x \<and> eq x key \<and> me_value (ents (ma_keys (fst s)) ! j) = Some w))"

text \<open>An operation that does \<open>f\<close> to the items.\<close>

definition does :: "('k \<Rightarrow> 'k \<Rightarrow> bool) \<Rightarrow> ('k \<Rightarrow> size_t) \<Rightarrow> (('k \<times> 'v) list \<Rightarrow> ('k \<times> 'v) list) \<Rightarrow>
    ('k, 'v) pydict \<times> 'w \<Rightarrow> ('k, 'v) pydict \<times> 'w \<Rightarrow> bool" where
  "does eq hsh f s t \<longleftrightarrow> dict_ok eq hsh (fst t) \<and> items (fst t) = f (items (fst s)) \<and> snd t = snd s"

context dict_keys
begin

lemma items_split:
  assumes ok: "dict_ok eq hsh mp" and j: "hash_of (ents (ma_keys mp)) j = Some h"
    and x: "me_key (ents (ma_keys mp) ! j) = Some x" "eq x key" and v: "me_value (ents (ma_keys mp) ! j) = Some w"
  obtains A B where "items mp = A @ (x, w) # B" "\<forall>p \<in> set A. \<not> eq (fst p) key" "\<forall>p \<in> set B. \<not> eq (fst p) key"
    "\<And>mp' v. stored (new_entry key (hsh key) v) (int j) mp mp' \<Longrightarrow> items mp' = A @ (x, v) # B"
    "\<And>mp'. removed (int j) mp mp' \<Longrightarrow> items mp' = A @ B"
proof -
  let ?E = "ents (ma_keys mp)"
  define A where "A = List.map item (live (take j ?E))"
  define B where "B = List.map item (live (drop (Suc j) ?E))"
  have jl: "j < length ?E" using hash_of_SomeD [OF j] by blast
  have i: "items mp = A @ (x, w) # B"
    unfolding items_def live_split(1) [OF jl] using x v by (simp add: A_def B_def item_def)
  have d: "sorted_wrt (\<lambda>p q. \<not> eq (fst p) (fst q)) (A @ (x, w) # B)"
    using ok unfolding dict_ok_def distinct_keys_def i by blast
  have A: "\<forall>p \<in> set A. \<not> eq (fst p) key"
  proof (intro ballI notI)
    fix p assume p: "p \<in> set A" "eq (fst p) key"
    have "eq (fst p) x" by (rule eq_trans [OF p(2) eq_sym [OF x(2)]])
    then show False using d p(1) by (auto simp: sorted_wrt_append)
  qed
  have B: "\<forall>p \<in> set B. \<not> eq (fst p) key"
  proof (intro ballI notI)
    fix p assume p: "p \<in> set B" "eq (fst p) key"
    have "eq x (fst p)" by (rule eq_trans [OF x(2) eq_sym [OF p(2)]])
    then show False using d p(1) by (auto simp: sorted_wrt_append)
  qed
  show ?thesis
  proof (rule that [OF i A B])
    show "items mp' = A @ (x, v) # B" if s: "stored (new_entry key (hsh key) v) (int j) mp mp'" for mp' v
    proof -
      have "live (ents (ma_keys mp')) = live (?E[j := (?E ! j)\<lparr>me_value := Some v\<rparr>])"
        using s by (simp add: stored_def new_entry_def)
      then show ?thesis unfolding items_def live_split(2) [OF jl] using x by (simp add: A_def B_def item_def)
    qed
    show "items mp' = A @ B" if s: "removed (int j) mp mp'" for mp'
    proof -
      have "live (ents (ma_keys mp')) = live (?E[j := forget (?E ! j)])" using s by (simp add: removed_def)
      then show ?thesis unfolding items_def live_split(2) [OF jl] by (simp add: A_def B_def)
    qed
  qed
qed

lemma searched_exact:
  fixes s :: "('k, 'v) pydict \<times> 'w"
  assumes ok: "dict_ok eq hsh (fst s)"
  shows "searched False (pure_eq eq) key hsh (hit eq key s) (\<lambda>_ _. False) s"
proof -
  have wf: "wf_dict hsh (fst s)" using ok by (simp add: dict_ok_def)
  let ?E = "ents (ma_keys (fst s))"
  from lookdict_pure [OF wf, of key] show ?thesis
  proof (elim disjE exE conjE)
    fix j x
    assume j: "lookdict (pure_eq eq) key (hsh key) s = Some (s, Inr (int j, me_value (?E ! j)))"
      "hash_of ?E j = Some (hsh key)" "me_key (?E ! j) = Some x" "eq x key"
    obtain w where w: "me_value (?E ! j) = Some w" using hash_of_SomeD [OF j(2)] by blast
    have "hit eq key s (int j, me_value (?E ! j)) s" using j w by (simp add: hit_def)
    moreover have "look_post (hsh key) (int j, me_value (?E ! j)) (fst s)" using j by (auto simp: look_post_def)
    ultimately show ?thesis using wf unfolding searched_def owp_def j(1) by simp
  next
    assume e: "lookdict (pure_eq eq) key (hsh key) s = Some (s, Inr (DKIX_EMPTY, None))"
      "\<forall>ep \<in> set ?E. \<forall>x. me_key ep = Some x \<longrightarrow> \<not> eq x key"
    have "\<not> eq (fst p) key" if p: "p \<in> set (items (fst s))" for p
    proof -
      obtain ep where ep: "ep \<in> set ?E" "me_value ep \<noteq> None" "p = item ep" using p by (auto simp: items_def live_def)
      have "entry_ok hsh ep" by (rule wf_dict_entries [OF wf ep(1)])
      then obtain y where "me_key ep = Some y" using ep(2) by (auto simp: entry_ok_def)
      then show ?thesis using e(2) ep(1,3) by (auto simp: item_def)
    qed
    then have "hit eq key s (DKIX_EMPTY, None) s" by (simp add: hit_def)
    moreover have "look_post (hsh key) (DKIX_EMPTY, None) (fst s)" by (simp add: look_post_def)
    ultimately show ?thesis using wf unfolding searched_def owp_def e(1) by simp
  qed
qed

lemma does_set:
  assumes ok: "dict_ok eq hsh (fst s)" and h: "hit eq key s r s"
    and st: "dict_step hsh (fst s) (fst t)" "snd t = snd s" "stored (new_entry key (hsh key) v) (fst r) (fst s) (fst t)"
  shows "does eq hsh (al_set eq key v) s t"
proof -
  have "fst r = DKIX_EMPTY \<or> (\<exists>j. fst r = int j)" using h unfolding hit_def by blast
  then show ?thesis
proof (elim disjE exE)
  assume e: "fst r = DKIX_EMPTY"
  then have ab: "\<forall>p \<in> set (items (fst s)). \<not> eq (fst p) key" using h by (simp add: hit_def)
  have i: "items (fst t) = items (fst s) @ [(key, v)]"
    using st(3) e by (simp add: stored_def items_def new_entry_def item_def)
  have "distinct_keys eq (items (fst t))"
    using ok ab unfolding i dict_ok_def distinct_keys_def by (auto simp: sorted_wrt_append)
  then show ?thesis
    using dict_step_wf [OF st(1)] st(2) i al_absent(2) [where eq = eq and key = key, OF ab] by (simp add: does_def dict_ok_def)
next
  fix j
  assume j: "fst r = int j"
  then obtain x w g where f: "hash_of (ents (ma_keys (fst s))) j = Some g" "me_key (ents (ma_keys (fst s)) ! j) = Some x"
    "eq x key" "me_value (ents (ma_keys (fst s)) ! j) = Some w" using h unfolding hit_def by blast
  from ok f obtain A B where A: "items (fst s) = A @ (x, w) # B" "\<forall>p \<in> set A. \<not> eq (fst p) key"
    "\<forall>p \<in> set B. \<not> eq (fst p) key"
    "\<And>mp' v. stored (new_entry key (hsh key) v) (int j) (fst s) mp' \<Longrightarrow> items mp' = A @ (x, v) # B"
    by (rule items_split) blast
  have i: "items (fst t) = A @ (x, v) # B" by (rule A(4)) (use st(3) j in simp)
  have "distinct_keys eq (items (fst t))"
    unfolding i by (rule distinct_keys_middle(1) [of _ A x w]) (use ok in \<open>simp add: dict_ok_def A(1)\<close>)
  then show ?thesis
    using dict_step_wf [OF st(1)] st(2) i al_present(2) [where eq = eq and key = key, OF A(2,3) f(3)] by (simp add: does_def dict_ok_def A(1))
qed
qed

lemma does_del:
  assumes ok: "dict_ok eq hsh (fst s)" and h: "hit eq key s (int j, Some w) s"
    and st: "dict_step hsh (fst s) (fst t)" "snd t = snd s" "removed (int j) (fst s) (fst t)"
  shows "does eq hsh (al_del eq key) s t" and "al_get eq key (items (fst s)) = Some w"
proof -
  obtain x g where f: "hash_of (ents (ma_keys (fst s))) j = Some g" "me_key (ents (ma_keys (fst s)) ! j) = Some x"
    "eq x key" "me_value (ents (ma_keys (fst s)) ! j) = Some w" using h unfolding hit_def by auto
  from ok f obtain A B where A: "items (fst s) = A @ (x, w) # B" "\<forall>p \<in> set A. \<not> eq (fst p) key"
    "\<forall>p \<in> set B. \<not> eq (fst p) key"
    "\<And>mp'. removed (int j) (fst s) mp' \<Longrightarrow> items mp' = A @ B"
    by (rule items_split) blast
  have i: "items (fst t) = A @ B" by (rule A(4)) (rule st(3))
  have "distinct_keys eq (items (fst t))"
    unfolding i by (rule distinct_keys_middle(2) [of _ A x w]) (use ok in \<open>simp add: dict_ok_def A(1)\<close>)
  then show "does eq hsh (al_del eq key) s t"
    using dict_step_wf [OF st(1)] st(2) i al_present(3) [where eq = eq and key = key, OF A(2,3) f(3)] by (simp add: does_def dict_ok_def A(1))
  show "al_get eq key (items (fst s)) = Some w" unfolding A(1) by (rule al_present(1) [where eq = eq and key = key, OF A(2,3) f(3)])
qed

lemma hit_get:
  assumes ok: "dict_ok eq hsh (fst s)" and h: "hit eq key s r t" and r: "r = (DKIX_EMPTY, None) \<or> r = (int j, Some w)"
  shows "al_get eq key (items (fst s)) = snd r" and "t = s"
proof -
  show "t = s" using h by (simp add: hit_def)
  show "al_get eq key (items (fst s)) = snd r"
    using r
  proof
    assume e: "r = (DKIX_EMPTY, None)"
    then show ?thesis using h al_absent(1) [of "items (fst s)"] by (simp add: hit_def)
  next
    assume j: "r = (int j, Some w)"
    then obtain x g where f: "hash_of (ents (ma_keys (fst s))) j = Some g" "me_key (ents (ma_keys (fst s)) ! j) = Some x"
      "eq x key" "me_value (ents (ma_keys (fst s)) ! j) = Some w" using h unfolding hit_def by auto
    from ok f obtain A B where A: "items (fst s) = A @ (x, w) # B" "\<forall>p \<in> set A. \<not> eq (fst p) key"
      "\<forall>p \<in> set B. \<not> eq (fst p) key" by (rule items_split) blast
    show ?thesis unfolding A(1) j using al_present(1) [where eq = eq and key = key, OF A(2,3) f(3)] by simp
  qed
qed

lemma dict_ok_wf: "dict_ok eq hsh mp \<Longrightarrow> wf_dict hsh mp"
  by (simp add: dict_ok_def)

lemma used_items: "dict_ok eq hsh mp \<Longrightarrow> ma_used mp = length (items mp)"
  using wf_dictD(2) [OF dict_ok_wf, of mp] by (simp add: items_def)

lemma hit_same: "hit eq key s r t \<Longrightarrow> t = s"
  by (simp add: hit_def)

lemma does_first:
  assumes "ma_keys (fst s) = Py_EMPTY_KEYS" "dict_step hsh (fst s) (fst t)" "snd t = snd s"
    "live (ents (ma_keys (fst t))) = [new_entry key (hsh key) v]"
  shows "does eq hsh (al_set eq key v) s t" and "al_get eq key (items (fst s)) = None"
proof -
  have "items (fst s) = []" "items (fst t) = [(key, v)]"
    using assms by (simp_all add: items_def item_def new_entry_def)
  then show "does eq hsh (al_set eq key v) s t" "al_get eq key (items (fst s)) = None"
    using assms(2,3) dict_step_wf by (auto simp: does_def dict_ok_def al_set_def al_get_def distinct_keys_def)
qed

lemma insertdict_exact:
  assumes ok: "dict_ok eq hsh (fst s)"
  shows "owp False (insertdict (pure_eq eq) key (hsh key) v) (\<lambda>_ t. does eq hsh (al_set eq key v) s t)
    (\<lambda>e t. e = MemoryError \<and> t = s \<and> huge (length (items (fst s)))) s"
proof (rule owp_mono [OF insertdict_gen [OF searched_exact [OF ok]]], goal_cases)
  case (1 x u)
  then obtain ix old t where t: "hit eq key s (ix, old) t" "dict_step hsh (fst t) (fst u)" "snd u = snd t"
    "stored (new_entry key (hsh key) v) ix (fst t) (fst u)" by blast
  have ts: "t = s" using t(1) by (rule hit_same)
  show ?case by (rule does_set [OF ok]) (use t ts in auto)
qed (use hit_same used_items [OF ok] in fastforce)

lemma SetItem_exact:
  assumes ok: "dict_ok eq hsh (fst s)"
  shows "owp False (PyDict_SetItem (pure_eq eq) key (hsh key) v) (\<lambda>_ t. does eq hsh (al_set eq key v) s t)
    (\<lambda>e t. e = MemoryError \<and> t = s \<and> huge (length (items (fst s)))) s"
proof (rule owp_mono [OF SetItem_gen [OF dict_ok_wf [OF ok] searched_exact [OF ok]]], goal_cases)
  case (1 x u)
  then show ?case
  proof (elim disjE exE conjE)
    fix ix old t
    assume t: "hit eq key s (ix, old) t" "dict_step hsh (fst t) (fst u)" "snd u = snd t"
      "stored (new_entry key (hsh key) v) ix (fst t) (fst u)"
    have ts: "t = s" using t(1) by (rule hit_same)
    show ?case by (rule does_set [OF ok]) (use t ts in auto)
  qed (rule does_first(1))
qed (use hit_same used_items [OF ok] in fastforce)

lemma DelItem_exact:
  assumes ok: "dict_ok eq hsh (fst s)"
  shows "owp False (PyDict_DelItem (pure_eq eq) key (hsh key))
    (\<lambda>_ t. does eq hsh (al_del eq key) s t \<and> al_get eq key (items (fst s)) \<noteq> None)
    (\<lambda>e t. e = KeyError \<and> t = s \<and> al_get eq key (items (fst s)) = None) s"
proof (rule owp_mono [OF DelItem_gen [OF searched_exact [OF ok] hash_not_error]], goal_cases)
  case (1 x u)
  then obtain j v t where t: "hit eq key s (int j, Some v) t" "dict_step hsh (fst t) (fst u)" "snd u = snd t"
    "removed (int j) (fst t) (fst u)" by blast
  have ts: "t = s" using t(1) by (rule hit_same)
  show ?case using does_del [OF ok, of key j v u] t unfolding ts by simp
next
  case (2 e u)
  then have h: "hit eq key s (DKIX_EMPTY, None) u" and e: "e = KeyError" by simp_all
  show ?case using hit_get [OF ok h disjI1 [OF refl]] e by simp
qed

lemma DelItemIf_exact:
  assumes ok: "dict_ok eq hsh (fst s)"
  shows "owp False (PyDict_DelItemIf (pure_eq eq) key (hsh key) predicate)
    (\<lambda>_ t. \<exists>v. al_get eq key (items (fst s)) = Some v \<and>
      (predicate v = Inr True \<and> does eq hsh (al_del eq key) s t \<or> predicate v = Inr False \<and> t = s))
    (\<lambda>e t. t = s \<and> (case al_get eq key (items (fst s)) of None \<Rightarrow> e = KeyError | Some v \<Rightarrow> predicate v = Inl e)) s"
proof (rule owp_mono [OF DelItemIf_gen [OF searched_exact [OF ok]]], goal_cases)
  case (1 x u)
  then obtain j v t where t: "hit eq key s (int j, Some v) t"
    "predicate v = Inr False \<and> u = t \<or>
      predicate v = Inr True \<and> dict_step hsh (fst t) (fst u) \<and> snd u = snd t \<and> removed (int j) (fst t) (fst u)" by blast
  have ts: "t = s" using t(1) by (rule hit_same)
  have g: "al_get eq key (items (fst s)) = Some v" using hit_get [OF ok t(1) disjI2 [OF refl]] by simp
  show ?case using does_del(1) [OF ok, of key j v u] t g unfolding ts by blast
next
  case (2 e u)
  then show ?case
  proof (elim disjE exE conjE)
    assume h: "hit eq key s (DKIX_EMPTY, None) u" "e = KeyError"
    show ?case using hit_get [OF ok h(1) disjI1 [OF refl]] h(2) by simp
  next
    fix j v
    assume h: "hit eq key s (int j, Some v) u" "predicate v = Inl e"
    show ?case using hit_get [OF ok h(1) disjI2 [OF refl]] h(2) by simp
  qed simp
qed

lemma Pop_exact:
  assumes ok: "dict_ok eq hsh (fst s)"
  shows "owp False (PyDict_Pop (pure_eq eq) key (hsh key) deflt)
    (\<lambda>x t. al_get eq key (items (fst s)) = Some x \<and> does eq hsh (al_del eq key) s t \<or>
      al_get eq key (items (fst s)) = None \<and> deflt = Some x \<and> t = s)
    (\<lambda>e t. e = KeyError \<and> t = s \<and> al_get eq key (items (fst s)) = None \<and> deflt = None) s"
proof -
  have z: "al_get eq key (items (fst s)) = None" if "ma_used (fst s) = 0"
    using that wf_dictD(2) [OF dict_ok_wf [OF ok]] by (simp add: items_def al_get_def)
  have miss: "u = s \<and> al_get eq key (items (fst s)) = None" if "hit eq key s (DKIX_EMPTY, None) u" for u
    using hit_get [OF ok that disjI1 [OF refl]] by simp
  show ?thesis
  proof (rule owp_mono [OF Pop_gen [OF searched_exact [OF ok] dict_ok_wf [OF ok]]], goal_cases)
    case (1 x u)
    then show ?case
    proof (elim disjE exE conjE)
      fix j t
      assume t: "hit eq key s (int j, Some x) t" "dict_step hsh (fst t) (fst u)" "snd u = snd t"
        "removed (int j) (fst t) (fst u)"
      have ts: "t = s" using t(1) by (rule hit_same)
      show ?case using does_del [OF ok, of key j x u] t unfolding ts by simp
    qed (use z miss in simp_all)
  next
    case (2 e u)
    then show ?case using z miss by blast
  qed
qed

lemma SetDefault_exact:
  assumes ok: "dict_ok eq hsh (fst s)"
  shows "owp False (PyDict_SetDefault (pure_eq eq) key (hsh key) v)
    (\<lambda>x t. al_get eq key (items (fst s)) = Some x \<and> t = s \<or>
      al_get eq key (items (fst s)) = None \<and> x = v \<and> does eq hsh (al_set eq key v) s t)
    (\<lambda>e t. e = MemoryError \<and> t = s \<and> huge (length (items (fst s)))) s"
proof (rule owp_mono [OF SetDefault_gen [OF dict_ok_wf [OF ok] searched_exact [OF ok]]], goal_cases)
  case (1 x u)
  then show ?case
  proof (elim disjE exE conjE)
    assume "ma_keys (fst s) = Py_EMPTY_KEYS" "x = v" "dict_step hsh (fst s) (fst u)" "snd u = snd s"
      "live (ents (ma_keys (fst u))) = [new_entry key (hsh key) v]"
    then show ?case using does_first [of s u key v] by simp
  next
    fix t
    assume t: "hit eq key s (DKIX_EMPTY, None) t" "x = v" "dict_step hsh (fst t) (fst u)" "snd u = snd t"
      "stored (new_entry key (hsh key) v) DKIX_EMPTY (fst t) (fst u)"
    have ts: "t = s" using t(1) by (rule hit_same)
    have "does eq hsh (al_set eq key v) s u" by (rule does_set [OF ok]) (use t ts in auto)
    then show ?case using hit_get [OF ok t(1) disjI1 [OF refl]] t(2) by simp
  next
    fix j
    assume h: "hit eq key s (int j, Some x) u"
    show ?case using hit_get [OF ok h disjI2 [OF refl]] by simp
  qed
qed (use hit_same used_items [OF ok] in fastforce)

lemma lookups_exact:
  assumes ok: "dict_ok eq hsh (fst s)"
  shows "owp False (dict_subscript (pure_eq eq) key (hsh key)) (\<lambda>x t. t = s \<and> al_get eq key (items (fst s)) = Some x)
      (\<lambda>e t. t = s \<and> e = KeyError \<and> al_get eq key (items (fst s)) = None) s"
    and "owp False (dict_contains (pure_eq eq) key (hsh key))
      (\<lambda>b t. t = s \<and> b = (al_get eq key (items (fst s)) \<noteq> None)) (\<lambda>_ _. False) s"
    and "owp False (dict_get (pure_eq eq) key (hsh key) deflt)
      (\<lambda>x t. t = s \<and> x = (case al_get eq key (items (fst s)) of None \<Rightarrow> deflt | Some v \<Rightarrow> v)) (\<lambda>_ _. False) s"
proof -
  note look = searched_exact [OF ok, of key]
  have miss: "u = s \<and> al_get eq key (items (fst s)) = None" if "hit eq key s (DKIX_EMPTY, None) u" for u
    using hit_get [OF ok that disjI1 [OF refl]] by simp
  have found: "u = s \<and> al_get eq key (items (fst s)) = Some x" if "hit eq key s (int j, Some x) u" for u j x
    using hit_get [OF ok that disjI2 [OF refl]] by simp
  show "owp False (dict_subscript (pure_eq eq) key (hsh key)) (\<lambda>x t. t = s \<and> al_get eq key (items (fst s)) = Some x)
      (\<lambda>e t. t = s \<and> e = KeyError \<and> al_get eq key (items (fst s)) = None) s"
    by (rule owp_mono [OF lookups_gen(1) [OF look]]) (use miss found in blast)+
  show "owp False (dict_contains (pure_eq eq) key (hsh key))
      (\<lambda>b t. t = s \<and> b = (al_get eq key (items (fst s)) \<noteq> None)) (\<lambda>_ _. False) s"
    by (rule owp_mono [OF lookups_gen(2) [OF look]]) (use miss found in \<open>fastforce split: if_splits\<close>)+
  show "owp False (dict_get (pure_eq eq) key (hsh key) deflt)
      (\<lambda>x t. t = s \<and> x = (case al_get eq key (items (fst s)) of None \<Rightarrow> deflt | Some v \<Rightarrow> v)) (\<lambda>_ _. False) s"
    by (rule owp_mono [OF lookups_gen(3) [OF look]]) (use miss found in fastforce)+
qed

lemma popitem_exact:
  fixes s :: "('k, 'v) pydict \<times> 'w"
  assumes ok: "dict_ok eq hsh (fst s)"
  shows "owp False (on_dict dict_popitem)
    (\<lambda>p t. items (fst s) = items (fst t) @ [p] \<and> dict_ok eq hsh (fst t) \<and> snd t = snd s)
    (\<lambda>e t. e = KeyError \<and> t = s \<and> items (fst s) = []) s"
proof (cases "ma_used (fst s) = 0")
  case True
  then show ?thesis using wf_dictD(2) [OF dict_ok_wf [OF ok]] by (simp add: owp_on_dict dict_popitem_def items_def)
next
  case False
  show ?thesis
    unfolding owp_on_dict
  proof (rule owp_mono [OF dict_popitem_ok [OF dict_ok_wf [OF ok] False]], goal_cases)
    case (1 p t)
    obtain k v where p: "p = (k, v)" by (cases p)
    have i: "items (fst s) = items t @ [p]" using 1 by (auto simp: p items_def item_def)
    have "distinct_keys eq (items t)"
      using ok unfolding dict_ok_def i distinct_keys_def by (simp add: sorted_wrt_append)
    then show ?case using i 1 dict_step_wf unfolding p dict_ok_def by auto
  qed simp
qed

lemma Clear_exact:
  "dict_ok eq hsh mp \<Longrightarrow> dict_ok eq hsh (PyDict_Clear mp) \<and> items (PyDict_Clear mp) = []"
  using PyDict_Clear_ok [of hsh mp] dict_step_wf
  by (auto simp: dict_ok_def items_def distinct_keys_def)

end

end
