(* ===== verification/PyDictWhole.thy ===== *)
theory PyDictWhole
  imports PyDictSpec
begin

text \<open>
  Operations on whole dicts: merging, copying, comparing, iterating, preallocating. Each is
  specified on the list of items.
\<close>

declare split_paired_All [simp del] split_paired_Ex [simp del]

section \<open>Merging\<close>

text \<open>\<open>None\<close> is the \<open>KeyError\<close> of \<open>override = 2\<close>.\<close>

fun al_merge :: "('k \<Rightarrow> 'k \<Rightarrow> bool) \<Rightarrow> nat \<Rightarrow> ('k \<times> 'v) list \<Rightarrow> ('k \<times> 'v) list \<Rightarrow> ('k \<times> 'v) list option" where
  "al_merge eq override [] ps = Some ps"
| "al_merge eq override (q # qs) ps =
     (if override = 1 \<or> al_get eq (fst q) ps = None then al_merge eq override qs (al_set eq (fst q) (snd q) ps)
      else if override = 0 then al_merge eq override qs ps else None)"

lemma al_get_None: "al_get eq key ps = None \<longleftrightarrow> (\<forall>p \<in> set ps. \<not> eq (fst p) key)"
  by (auto simp: al_get_def find_None_iff)

text \<open>Merging with keys that are not there appends, in every mode.\<close>

lemma al_merge_fresh: "distinct_keys eq (ps @ qs) \<Longrightarrow> al_merge eq override qs ps = Some (ps @ qs)"
proof (induction qs arbitrary: ps)
  case (Cons q qs)
  have new: "\<forall>p \<in> set ps. \<not> eq (fst p) (fst q)"
    using Cons.prems by (simp add: distinct_keys_def sorted_wrt_append)
  have "al_set eq (fst q) (snd q) ps = ps @ [q]" using al_absent(2) [where eq = eq, OF new, of "snd q"] by simp
  moreover have "al_get eq (fst q) ps = None" using new by (simp add: al_get_None)
  moreover have "al_merge eq override qs (ps @ [q]) = Some ((ps @ [q]) @ qs)"
    by (rule Cons.IH) (use Cons.prems in simp)
  ultimately show ?case by simp
qed simp

lemma length_al_set: "length (al_set eq k v ps) \<le> length ps + 1"
  by (simp add: al_set_def)

lemma huge_mono: "huge m \<Longrightarrow> m \<le> n \<Longrightarrow> huge n"
  by (simp add: huge_def)

text \<open>A comparison of values without effect.\<close>

definition pure_veq :: "('v \<Rightarrow> 'v \<Rightarrow> bool) \<Rightarrow> 'v \<Rightarrow> 'v \<Rightarrow> ('s, bool) py" where
  "pure_veq veq a b = sret (veq a b)"

text \<open>Every item of the one has an equal value under its key in the other.\<close>

definition al_sub :: "('k \<Rightarrow> 'k \<Rightarrow> bool) \<Rightarrow> ('v \<Rightarrow> 'v \<Rightarrow> bool) \<Rightarrow> ('k \<times> 'v) list \<Rightarrow> ('k \<times> 'v) list \<Rightarrow> bool" where
  "al_sub eq veq ps qs \<longleftrightarrow>
     list_all (\<lambda>p. case al_get eq (fst p) qs of None \<Rightarrow> False | Some b \<Rightarrow> veq (snd p) b) ps"

context dict_keys
begin

lemma dict_ok_entries: "dict_ok eq hsh mp \<Longrightarrow> ep \<in> set (ents (ma_keys mp)) \<Longrightarrow> entry_ok hsh ep"
  using wf_dict_entries dict_ok_wf by blast

lemma merge_item_exact:
  fixes s :: "('k, 'v) pydict \<times> 'w"
  assumes ok: "dict_ok eq hsh (fst s)"
  shows "owp False (merge_item (pure_eq eq) override key (hsh key) v)
    (\<lambda>_ t. dict_ok eq hsh (fst t) \<and> snd t = snd s \<and> length (items (fst t)) \<le> length (items (fst s)) + 1 \<and>
      (\<forall>qs. al_merge eq override ((key, v) # qs) (items (fst s)) = al_merge eq override qs (items (fst t))))
    (\<lambda>e t. t = s \<and> (e = MemoryError \<and> huge (length (items (fst s))) \<or>
      e = KeyError \<and> (\<forall>qs. al_merge eq override ((key, v) # qs) (items (fst s)) = None))) s"
proof -
  let ?ps = "items (fst s)"
  let ?Q = "\<lambda>(_ :: unit) t. dict_ok eq hsh (fst t) \<and> snd t = snd s \<and> length (items (fst t)) \<le> length ?ps + 1 \<and>
      (\<forall>qs. al_merge eq override ((key, v) # qs) ?ps = al_merge eq override qs (items (fst t)))"
  let ?E = "\<lambda>e t. t = s \<and> (e = MemoryError \<and> huge (length ?ps) \<or>
      e = KeyError \<and> (\<forall>qs. al_merge eq override ((key, v) # qs) ?ps = None))"
  have store: "owp False (insertdict (pure_eq eq) key (hsh key) v) ?Q ?E s"
    if new: "override = 1 \<or> al_get eq key ?ps = None"
    by (rule owp_mono [OF insertdict_exact [OF ok]])
      (use new length_al_set [of eq key v ?ps] in \<open>auto simp: does_def\<close>)
  show ?thesis
  proof (cases "override = 1")
    case True
    then show ?thesis using store by (simp add: merge_item_def)
  next
    case False
    have hit: "owp False (if override \<noteq> 0 then oraise KeyError else oret ()) ?Q ?E s"
      if g: "al_get eq key ?ps \<noteq> None"
      using g ok False by (cases "al_get eq key ?ps") auto
    show ?thesis
      unfolding merge_item_def if_not_P [OF False] owp_obind
    proof (rule owp_mono [OF lookups_exact(2) [OF ok]], goal_cases)
      case (1 found t)
      then show ?case using store hit by (cases found) simp_all
    qed simp
  qed
qed

lemma merge_entries_exact:
  fixes s :: "('k, 'v) pydict \<times> 'w" and other :: "'w \<Rightarrow> ('k, 'v) pydict" and i :: nat
  assumes "dict_ok eq hsh (fst s)" and "wf_dict hsh (other (snd s))"
    and "dk_id (ma_keys (other (snd s))) = ep0" and "dk_nentries (ma_keys (other (snd s))) = n"
  defines "new \<equiv> List.map item (live (drop i (ents (ma_keys (other (snd s))))))"
  shows "owp False (merge_entries (pure_eq eq) other override ep0 n i)
    (\<lambda>_ t. dict_ok eq hsh (fst t) \<and> snd t = snd s \<and> al_merge eq override new (items (fst s)) = Some (items (fst t)))
    (\<lambda>e t. dict_ok eq hsh (fst t) \<and> snd t = snd s \<and>
      (e = MemoryError \<and> huge (length (items (fst s)) + length new) \<or>
       e = KeyError \<and> al_merge eq override new (items (fst s)) = None)) s"
  using assms(1-4) unfolding new_def
proof (induction "n - i" arbitrary: i s)
  case 0
  let ?E = "ents (ma_keys (other (snd s)))"
  have "drop i ?E = []" using 0 by (simp add: ents_def)
  then show ?case using 0 by (simp add: owp_merge_done)
next
  case (Suc m)
  note ok = Suc.prems(1) and wfo = Suc.prems(2) and tab = Suc.prems(3,4)
  have i: "i < n" "m = n - (i + 1)" using Suc.hyps(2) by simp_all
  define E where "E = ents (ma_keys (other (snd s)))"
  note st = owp_merge_step [where s = s and other = other, OF i(1) wfo tab, of False "pure_eq eq" override, folded E_def]
  have l: "i < length E" unfolding E_def by (rule wf_dict_entry(1) [OF wfo]) (simp add: tab i(1))
  have d: "drop i E = E ! i # drop (i + 1) E" using l by (simp add: Cons_nth_drop_Suc)
  show ?case
  proof (cases "me_value (E ! i)")
    case None
    have "live (drop i E) = live (drop (i + 1) E)" unfolding d by (simp add: None)
    then show ?thesis
      using Suc.hyps(1) [OF i(2) ok wfo tab] by (simp add: st None E_def [symmetric])
  next
    case (Some v)
    have "entry_ok hsh (E ! i)" unfolding E_def by (rule wf_dict_entry(4) [OF wfo]) (simp add: tab i(1))
    then obtain key where key: "me_key (E ! i) = Some key" "me_hash (E ! i) = hsh key"
      using Some by (auto simp: entry_ok_def)
    let ?qs = "List.map item (live (drop (i + 1) E))"
    have it: "List.map item (live (drop i E)) = (key, v) # ?qs" unfolding d by (simp add: Some key item_def)
    show ?thesis
      unfolding E_def [symmetric] it st Let_def Some option.case key option.inject
    proof (intro exI conjI, rule refl, rule refl, rule owp_mono [OF merge_item_exact [OF ok]], goal_cases)
      case (1 x t)
      then have t: "dict_ok eq hsh (fst t)" "snd t = snd s" "length (items (fst t)) \<le> length (items (fst s)) + 1"
        "al_merge eq override ((key, v) # ?qs) (items (fst s)) = al_merge eq override ?qs (items (fst t))" by simp_all
      have p: "wf_dict hsh (other (snd t))" "dk_id (ma_keys (other (snd t))) = ep0"
        "dk_nentries (ma_keys (other (snd t))) = n" using wfo tab t(2) by simp_all
      have e: "ents (ma_keys (other (snd t))) = E" using t(2) by (simp add: E_def)
      have same: "\<not> n \<noteq> dk_nentries (ma_keys (other (snd t)))" using p(3) by simp
      show ?case
        unfolding if_not_P [OF same] t(4)
        by (rule owp_mono [OF Suc.hyps(1) [OF i(2) t(1) p, unfolded e]])
          (use t(2,3) huge_mono [of "length (items (fst t)) + length ?qs"] in auto)
    next
      case (2 e t)
      then show ?case using ok huge_mono [of "length (items (fst s))"] by auto
    qed
  qed
qed

lemma dict_merge_exact:
  fixes s :: "('k, 'v) pydict \<times> 'w" and other :: "'w \<Rightarrow> ('k, 'v) pydict"
  assumes ok: "dict_ok eq hsh (fst s)" and other: "dict_ok eq hsh (other (snd s))" and ov: "override \<le> 2"
  defines "oth \<equiv> other (snd s)"
  shows "owp False (dict_merge (pure_eq eq) False other override)
    (\<lambda>_ t. dict_ok eq hsh (fst t) \<and> snd t = snd s \<and>
      al_merge eq override (items oth) (items (fst s)) = Some (items (fst t)))
    (\<lambda>e t. dict_ok eq hsh (fst t) \<and> snd t = snd s \<and>
      (e = MemoryError \<and> huge (length (items (fst s)) + length (items oth)) \<or>
       e = KeyError \<and> al_merge eq override (items oth) (items (fst s)) = None)) s"
proof -
  note wf = dict_ok_wf [OF ok] and oko = other [folded oth_def] and wfo = dict_ok_wf [OF other, folded oth_def]
  consider (none) "False \<or> ma_used oth = 0"
    | (clone) "\<not> (False \<or> ma_used oth = 0)" "can_clone (fst s) oth"
    | (loop) "\<not> (False \<or> ma_used oth = 0)" "\<not> can_clone (fst s) oth" by argo
  then show ?thesis
  proof cases
    case none
    then have "items oth = []" using used_items [OF oko] by simp
    then show ?thesis
      unfolding owp_dict_merge [OF ov] oth_def [symmetric] if_P [OF none] using ok by simp
  next
    case clone
    note cl = clone_ok [OF wf wfo used_not_empty [OF wfo]]
    let ?K = "clone_combined_dict_keys (ma_fresh (fst s)) (ma_keys oth)"
    let ?t = "((fst s)\<lparr>ma_keys := ?K, ma_fresh := ma_fresh (fst s) + 1, ma_used := ma_used oth\<rparr>, snd s)"
    have wft: "wf_dict hsh (fst ?t)" using dict_step_wf [OF cl(1)] clone(1) by simp
    have it: "items (fst ?t) = items oth" using cl(2) clone(1) by (simp add: items_def)
    moreover have "items (fst s) = []" using clone(2) used_items [OF ok] by (simp add: can_clone_def)
    moreover have "al_merge eq override (items oth) [] = Some ([] @ items oth)"
      by (rule al_merge_fresh) (use oko in \<open>simp add: dict_ok_def\<close>)
    moreover have "dict_ok eq hsh (fst ?t)" using wft it oko unfolding dict_ok_def by metis
    ultimately show ?thesis
      unfolding owp_dict_merge [OF ov] oth_def [symmetric] if_not_P [OF clone(1)] if_P [OF clone(2)]
        owp_check_consistent [OF wft] by simp
  next
    case loop
    let ?ov = "if ma_used (fst s) = 0 then 1 else override"
    have mode: "al_merge eq ?ov (items oth) (items (fst s)) = al_merge eq override (items oth) (items (fst s))"
    proof (cases "ma_used (fst s) = 0")
      case True
      then have n: "items (fst s) = []" using used_items [OF ok] by simp
      have "distinct_keys eq ([] @ items oth)" using oko by (simp add: dict_ok_def)
      then show ?thesis unfolding n using al_merge_fresh by metis
    qed simp
    show ?thesis
      unfolding owp_dict_merge [OF ov] oth_def [symmetric] if_not_P [OF loop(1)] if_not_P [OF loop(2)]
    proof (rule owp_mono [OF grow_for_ok [OF wf wfo]], goal_cases)
      case (1 x t)
      let ?u = "(t, snd s)"
      have its: "items (fst ?u) = items (fst s)" using 1 by (simp add: items_def)
      have okt: "dict_ok eq hsh (fst ?u)" using 1 ok its dict_step_wf by (auto simp: dict_ok_def)
      have p: "wf_dict hsh (other (snd ?u))" "dk_id (ma_keys (other (snd ?u))) = dk_id (ma_keys oth)"
        "dk_nentries (ma_keys (other (snd ?u))) = dk_nentries (ma_keys oth)" using wfo by (simp_all add: oth_def)
      have it: "List.map item (live (drop 0 (ents (ma_keys (other (snd ?u)))))) = items oth"
        by (simp add: items_def oth_def)
      show ?case
        unfolding merge_all_def
      proof (rule owp_mono [OF merge_entries_exact [where other = other, OF okt p, of ?ov 0, unfolded it]], goal_cases)
        case (1 y u)
        have "wf_dict hsh (fst u)" using 1 dict_ok_wf by blast
        from owp_check_consistent [OF this] show ?case using 1 mode its by simp
      next
        case (2 er u)
        then show ?case using mode its by auto
      qed
    next
      case (2 er t)
      then show ?case using ok used_items [OF ok] used_items [OF oko] by simp
    qed
  qed
qed

lemma PyDict_Copy_exact:
  fixes w :: 'w and src :: "'w \<Rightarrow> ('k, 'v) pydict"
  assumes ok: "dict_ok eq hsh (src w)"
  shows "\<exists>t r. PyDict_Copy (pure_eq eq) src w = Some (t, r) \<and> dict_ok eq hsh (fst t) \<and> snd t = w \<and>
    (r = Inr () \<and> items (fst t) = items (src w) \<or> r = Inl MemoryError \<and> huge (length (items (src w))))"
proof -
  define mp where "mp = src w"
  note ok = ok [folded mp_def] and wf = dict_ok_wf [OF ok, folded mp_def]
  consider "ma_used mp = 0" | "ma_used mp \<noteq> 0" "ma_used mp \<ge> (dk_nentries (ma_keys mp) * 2) div 3"
    | "ma_used mp \<noteq> 0" "\<not> ma_used mp \<ge> (dk_nentries (ma_keys mp) * 2) div 3" by blast
  then show ?thesis
  proof cases
    case 1
    then have "items mp = []" using used_items [OF ok] by simp
    then show ?thesis using 1 by (simp add: PyDict_Copy_def items_New dict_ok_New flip: mp_def)
  next
    case 2
    obtain k where k: "table_ok hsh k (ma_keys mp)"
      using wf used_not_empty [OF wf 2(1)] by (auto simp: wf_dict_def)
    let ?new = "\<lparr>ma_used = ma_used mp, ma_keys = clone_combined_dict_keys 1 (ma_keys mp), ma_fresh = 2\<rparr>"
    have e: "ents (ma_keys ?new) = ents (ma_keys mp)" by (simp add: ents_def clone_combined_dict_keys_def)
    have "table_ok hsh k (ma_keys ?new)"
      using k by (simp add: table_ok_def e [simplified]) (simp add: clone_combined_dict_keys_def)
    then have new: "wf_dict hsh ?new"
      using wf_dictD(2) [OF wf] by (auto simp: wf_dict_def e [simplified]) (simp_all add: clone_combined_dict_keys_def)
    have it: "items ?new = items mp" by (simp add: items_def e [simplified])
    have "check_consistent (?new, w) = Some ((?new, w), Inr ())"
      using wf_dict_assert [OF new]
      by (simp add: check_consistent_def obind_def oget_def oassert_def olift_def c_assert_def)
    then have "PyDict_Copy (pure_eq eq) src w = Some ((?new, w), Inr ())"
      using 2 by (simp add: PyDict_Copy_def Let_def obind_def oret_def flip: mp_def)
    then show ?thesis using new ok it by (simp add: dict_ok_def flip: mp_def)
  next
    case 3
    let ?s = "(PyDict_New :: ('k, 'v) pydict, w)"
    have okn: "dict_ok eq hsh (fst ?s)" using dict_ok_New by simp
    have oks: "dict_ok eq hsh (src (snd ?s))" using ok by (simp add: mp_def)
    have m: "al_merge eq 1 (items mp) [] = Some ([] @ items mp)"
      by (rule al_merge_fresh) (use ok in \<open>simp add: dict_ok_def\<close>)
    have le: "(1 :: nat) \<le> 2" and sm: "src (snd ?s) = mp" by (simp_all add: mp_def)
    have "PyDict_Copy (pure_eq eq) src w = dict_merge (pure_eq eq) False src 1 ?s"
      using 3 by (simp add: PyDict_Copy_def Let_def flip: mp_def)
    moreover obtain t r where "dict_merge (pure_eq eq) False src 1 ?s = Some (t, r)"
      "case r of Inl e \<Rightarrow> dict_ok eq hsh (fst t) \<and> snd t = snd ?s \<and>
          (e = MemoryError \<and> huge (length (items (fst ?s)) + length (items mp)) \<or>
           e = KeyError \<and> al_merge eq 1 (items mp) (items (fst ?s)) = None)
        | Inr x \<Rightarrow> dict_ok eq hsh (fst t) \<and> snd t = snd ?s \<and> al_merge eq 1 (items mp) (items (fst ?s)) = Some (items (fst t))"
      using owp_total [OF dict_merge_exact [where other = src, OF okn oks le]] unfolding sm by blast
    ultimately show ?thesis using m by (cases r) (simp_all add: items_New flip: mp_def)
  qed
qed

section \<open>Comparing\<close>

text \<open>One pass of the loop.\<close>

lemma owp_equal_done: "\<not> i < dk_nentries (ma_keys (a (snd s))) \<Longrightarrow> owp d (dict_equal_loop eqf veqf a i) Q E s = Q True s"
  by (subst owp_def, subst dict_equal_loop.simps) simp

lemma dict_equal_loop_exact:
  fixes s :: "('k, 'v) pydict \<times> 'w" and a :: "'w \<Rightarrow> ('k, 'v) pydict"
  assumes ok: "dict_ok eq hsh (fst s)" and wfa: "wf_dict hsh (a (snd s))"
  shows "owp False (dict_equal_loop (pure_eq eq) (pure_veq veq) a i)
    (\<lambda>b t. t = s \<and> b = al_sub eq veq (List.map item (live (drop i (ents (ma_keys (a (snd s))))))) (items (fst s)))
    (\<lambda>_ _. False) s"
proof (induction "dk_nentries (ma_keys (a (snd s))) - i" arbitrary: i)
  case 0
  then have "drop i (ents (ma_keys (a (snd s)))) = []" by (simp add: ents_def)
  then show ?case using 0 by (simp add: owp_equal_done al_sub_def)
next
  case (Suc m)
  define keys where "keys = ma_keys (a (snd s))"
  define E where "E = ents keys"
  have i: "i < dk_nentries keys" "m = dk_nentries (ma_keys (a (snd s))) - (i + 1)"
    using Suc.hyps(2) by (simp_all add: keys_def)
  note IH = Suc.hyps(1) [OF i(2), folded keys_def E_def]
  note e = wf_dict_entry [OF wfa i(1) [unfolded keys_def], folded keys_def, folded E_def]
  have d: "drop i E = E ! i # drop (i + 1) E" using e(1) by (simp add: Cons_nth_drop_Suc)
  have g: "get_entry keys (int i) = Inr (E ! i)" using e(2,3) by (simp add: get_entry_def)
  show ?case
  proof (cases "me_value (E ! i)")
    case None
    have l: "live (drop i E) = live (drop (i + 1) E)" unfolding d by (simp add: None)
    have run: "dict_equal_loop (pure_eq eq) (pure_veq veq) a i s = dict_equal_loop (pure_eq eq) (pure_veq veq) a (i + 1) s"
      using i(1) g None by (subst dict_equal_loop.simps) (simp flip: keys_def)
    show ?thesis using IH unfolding owp_def run keys_def [symmetric] E_def [symmetric] l .
  next
    case (Some v)
    then obtain key where key: "me_key (E ! i) = Some key" "me_hash (E ! i) = hsh key"
      using e(4) by (auto simp: entry_ok_def)
    have it: "List.map item (live (drop i E)) = (key, v) # List.map item (live (drop (i + 1) E))"
      unfolding d by (simp add: Some key item_def)
    have sub: "al_sub eq veq (List.map item (live (drop i E))) (items (fst s)) =
        ((case al_get eq key (items (fst s)) of None \<Rightarrow> False | Some b \<Rightarrow> veq v b) \<and>
         al_sub eq veq (List.map item (live (drop (i + 1) E))) (items (fst s)))"
      unfolding it by (simp add: al_sub_def split: option.split)
    let ?cont = "\<lambda>(ix :: int, bval). case bval of None \<Rightarrow> oret False
      | Some b \<Rightarrow> obind (oterm (pure_veq veq v b)) (\<lambda>cmp.
          if cmp then dict_equal_loop (pure_eq eq) (pure_veq veq) a (i + 1) else oret False)"
    have run: "dict_equal_loop (pure_eq eq) (pure_veq veq) a i s = obind (lookdict (pure_eq eq) key (hsh key)) ?cont s"
      using i(1) g Some key
      by (subst dict_equal_loop.simps)
        (auto simp: obind_def oret_def oterm_def simp flip: keys_def split: option.splits prod.splits sum.splits)
    have "owp False (obind (lookdict (pure_eq eq) key (hsh key)) ?cont)
      (\<lambda>b t. t = s \<and> b = al_sub eq veq (List.map item (live (drop i E))) (items (fst s))) (\<lambda>_ _. False) s"
      unfolding sub
    proof (rule searchedI [OF searched_exact [OF ok]], goal_cases)
      case (1 t)
      then have "t = s \<and> al_get eq key (items (fst s)) = None" using hit_get [OF ok 1(1) disjI1 [OF refl]] by simp
      then show ?case by simp
    next
      case (2 t j b)
      then have g: "t = s" "al_get eq key (items (fst s)) = Some b"
        using hit_get [OF ok 2(1) disjI2 [OF refl]] by simp_all
      show ?case using IH g by (simp add: pure_veq_def)
    qed simp
    then show ?thesis unfolding owp_def run keys_def [symmetric] E_def [symmetric] .
  qed
qed

lemma dict_equal_exact:
  fixes s :: "('k, 'v) pydict \<times> 'w" and a :: "'w \<Rightarrow> ('k, 'v) pydict"
  assumes ok: "dict_ok eq hsh (fst s)" and oka: "dict_ok eq hsh (a (snd s))"
  shows "owp False (dict_equal (pure_eq eq) (pure_veq veq) a)
    (\<lambda>b t. t = s \<and> b = (length (items (a (snd s))) = length (items (fst s)) \<and>
      al_sub eq veq (items (a (snd s))) (items (fst s))))
    (\<lambda>_ _. False) s"
proof -
  obtain b w where s: "s = (b, w)" by (cases s)
  note u = used_items [OF ok] used_items [OF oka]
  show ?thesis
  proof (cases "ma_used (a w) = ma_used b")
    case False
    then show ?thesis using u by (simp add: dict_equal_def s)
  next
    case True
    have e: "owp False (dict_equal (pure_eq eq) (pure_veq veq) a) Q E s =
        owp False (dict_equal_loop (pure_eq eq) (pure_veq veq) a 0) Q E s" for Q E
      using True by (simp add: dict_equal_def s)
    show ?thesis
      unfolding e by (rule owp_mono [OF dict_equal_loop_exact [where a = a, OF ok dict_ok_wf [OF oka]]])
        (use True u s in \<open>simp_all add: items_def\<close>)
  qed
qed

end

section \<open>Iterating\<close>

declare PyDict_Next.simps [simp del]

text \<open>\<open>PyDict_Next\<close> finds the first live entry at or behind the position.\<close>

lemma PyDict_Next_correct:
  assumes "dk_nentries keys \<le> length (dk_entries keys)"
  shows "(live (drop i (ents keys)) = [] \<and> PyDict_Next keys i = Inr None) \<or>
    (\<exists>j v. i \<le> j \<and> j < dk_nentries keys \<and> me_value (ents keys ! j) = Some v \<and>
      PyDict_Next keys i = Inr (Some (j + 1, me_key (ents keys ! j), v)) \<and>
      live (drop i (ents keys)) = (ents keys ! j) # live (drop (j + 1) (ents keys)))"
proof (induction "dk_nentries keys - i" arbitrary: i)
  case 0
  then show ?case by (subst (1) PyDict_Next.simps) (simp add: ents_def)
next
  case (Suc n)
  have i: "i < dk_nentries keys" using Suc(2) by simp
  have il: "i < length (dk_entries keys)" using i assms by simp
  have d: "drop i (ents keys) = ents keys ! i # drop (i + 1) (ents keys)"
    using i il by (simp add: Cons_nth_drop_Suc [symmetric] ents_def)
  show ?case
  proof (cases "me_value (ents keys ! i)")
    case None
    have e: "PyDict_Next keys i = PyDict_Next keys (i + 1)"
      using i il None by (subst PyDict_Next.simps) (simp add: ents_nth)
    have l: "live (drop i (ents keys)) = live (drop (i + 1) (ents keys))" unfolding d by (simp add: None)
    have n: "n = dk_nentries keys - (i + 1)" using Suc(2) by simp
    have le: "i \<le> j" if "i + 1 \<le> j" for j using that by simp
    show ?thesis unfolding e l using Suc(1) [OF n] le by blast
  next
    case (Some v)
    have "PyDict_Next keys i = Inr (Some (i + 1, me_key (ents keys ! i), v))"
      using i il Some by (subst PyDict_Next.simps) (simp add: ents_nth)
    moreover have "live (drop i (ents keys)) = ents keys ! i # live (drop (i + 1) (ents keys))" unfolding d by (simp add: Some)
    ultimately show ?thesis using i Some by (intro disjI2 exI [of _ i] exI [of _ v]) simp
  qed
qed

text \<open>The items a loop over \<open>PyDict_Next\<close> sees from position \<open>i\<close>, with fuel.\<close>

fun iterate :: "nat \<Rightarrow> ('k, 'v) dictkeys \<Rightarrow> nat \<Rightarrow> ('k option \<times> 'v) list pyres" where
  "iterate 0 keys i = Inl AssertionFailed"
| "iterate (Suc n) keys i = rbind (PyDict_Next keys i) (\<lambda>r.
     case r of None \<Rightarrow> Inr [] | Some (i, key, v) \<Rightarrow> rbind (iterate n keys i) (\<lambda>xs. Inr ((key, v) # xs)))"

lemma iterate_correct:
  assumes "dk_nentries keys \<le> length (dk_entries keys)" and "dk_nentries keys - i < n"
  shows "iterate n keys i = Inr (List.map (\<lambda>ep. (me_key ep, the (me_value ep))) (live (drop i (ents keys))))"
  using assms(2)
proof (induction n arbitrary: i)
  case (Suc n)
  from PyDict_Next_correct [OF assms(1), of i] show ?case
  proof (elim disjE exE conjE)
    fix j v
    assume j: "i \<le> j" "j < dk_nentries keys" "me_value (ents keys ! j) = Some v"
      "PyDict_Next keys i = Inr (Some (j + 1, me_key (ents keys ! j), v))"
      "live (drop i (ents keys)) = (ents keys ! j) # live (drop (j + 1) (ents keys))"
    have "iterate n keys (j + 1) = Inr (List.map (\<lambda>ep. (me_key ep, the (me_value ep))) (live (drop (j + 1) (ents keys))))"
      by (rule Suc.IH) (use j(1,2) Suc.prems in simp)
    then show ?thesis using j(3-5) by simp
  qed simp
qed simp

lemma iterate_items:
  assumes wf: "wf_dict hsh mp"
  shows "iterate (dk_nentries (ma_keys mp) + 1) (ma_keys mp) 0 = Inr (List.map (\<lambda>p. (Some (fst p), snd p)) (items mp))"
proof -
  have le: "dk_nentries (ma_keys mp) \<le> length (dk_entries (ma_keys mp))"
    using wf by (cases rule: wf_dict_cases) (auto dest: table_derived(1))
  have "(me_key ep, the (me_value ep)) = (Some (fst (item ep)), snd (item ep))" if ep: "ep \<in> set (live (ents (ma_keys mp)))" for ep
    using wf_dict_entries [OF wf, of ep] ep by (auto simp: live_def entry_ok_def item_def)
  then have m: "List.map (\<lambda>ep. (me_key ep, the (me_value ep))) (live (ents (ma_keys mp))) =
      List.map (\<lambda>p. (Some (fst p), snd p)) (items mp)"
    by (simp add: items_def)
  have "iterate (dk_nentries (ma_keys mp) + 1) (ma_keys mp) 0 =
      Inr (List.map (\<lambda>ep. (me_key ep, the (me_value ep))) (live (drop 0 (ents (ma_keys mp)))))"
    by (rule iterate_correct [OF le]) simp
  then show ?thesis by (simp only: drop_0 m)
qed

section \<open>Preallocating\<close>

lemma PyDict_NewPresized_correct:
  shows "\<exists>mp :: ('k, 'v) pydict. PyDict_NewPresized minused = Inr mp \<and> dict_ok eq hsh mp \<and> items mp = [] \<and>
    (minused \<le> USABLE_FRACTION (2 ^ 17) \<longrightarrow> minused \<le> 5 \<or> int minused \<le> dk_usable (ma_keys mp))"
proof (cases "minused \<le> USABLE_FRACTION PyDict_MINSIZE")
  case True
  then show ?thesis
    by (intro exI [of _ PyDict_New])
      (simp add: PyDict_NewPresized_def Let_def USABLE_FRACTION_def PyDict_MINSIZE_def dict_ok_New items_New)
next
  case False
  define sz where "sz = (if minused > USABLE_FRACTION (2 ^ 17) then int (2 ^ 17) else estimate_keysize minused)"
  have "\<exists>b. sz = 2 ^ b \<and> 3 \<le> b \<and> b \<le> 57 \<and> (minused \<le> USABLE_FRACTION (2 ^ 17) \<longrightarrow> minused \<le> USABLE_FRACTION (2 ^ b))"
  proof (cases "minused > USABLE_FRACTION (2 ^ 17)")
    case True
    then show ?thesis by (intro exI [of _ 17]) (simp add: sz_def)
  next
    case False
    then have small: "minused < 2 ^ 52" "minused < 2 ^ 59" by (simp_all add: USABLE_FRACTION_def)
    obtain b where "estimate_keysize minused = 2 ^ b" "3 \<le> b" "minused \<le> USABLE_FRACTION (2 ^ b)" "57 < b \<longrightarrow> huge minused"
      using estimate_keysize_room [OF small(2)] by blast
    then show ?thesis using False small(1) by (intro exI [of _ b]) (auto simp: sz_def huge_def)
  qed
  then obtain b where b: "sz = 2 ^ b" "3 \<le> b" "b \<le> 57"
    "minused \<le> USABLE_FRACTION (2 ^ 17) \<Longrightarrow> minused \<le> USABLE_FRACTION (2 ^ b)" by blast
  define K where "K = (\<lparr>dk_id = 1, dk_size = 2 ^ b, dk_usable = int (USABLE_FRACTION (2 ^ b)), dk_nentries = 0,
      dk_indices = replicate (2 ^ b) DKIX_EMPTY, dk_entries = replicate (USABLE_FRACTION (2 ^ b)) empty_entry\<rparr>
        :: ('k, 'v) dictkeys)"
  have new: "new_keys_object 1 (2 ^ b) = Inr K"
    using new_keys_object_size [of b 1] b(2,3) unfolding K_def by auto
  have eK: "ents K = []" by (simp add: K_def ents_def)
  have "table_ok hsh b K"
    using index_ok_empty [of b] b(2,3)
    by (simp add: table_ok_def eK hash_of_def [abs_def]) (simp add: K_def filled_def DKIX_EMPTY_def empty_entry_def)
  then have wf: "wf_dict hsh \<lparr>ma_used = 0, ma_keys = K, ma_fresh = 2\<rparr>"
    by (auto simp: wf_dict_def eK) (simp_all add: K_def)
  have it: "items \<lparr>ma_used = 0, ma_keys = K, ma_fresh = 2\<rparr> = []" by (simp add: items_def eK)
  have s: "(if minused > USABLE_FRACTION (128 * 1024) then int (128 * 1024) else estimate_keysize minused) = 2 ^ b"
    using b(1) unfolding sz_def by (simp split: if_splits)
  have n: "nat (2 ^ b) = 2 ^ b" by (simp add: nat_power_eq)
  have "PyDict_NewPresized minused = Inr \<lparr>ma_used = 0, ma_keys = K, ma_fresh = 2\<rparr>"
    unfolding PyDict_NewPresized_def Let_def if_not_P [OF False] s n new rbind_simps by (rule refl)
  then show ?thesis using wf it b(4) by (auto simp: dict_ok_def distinct_keys_def K_def)
qed

end
