(* ===== verification/PyDictKeys.thy ===== *)
theory PyDictKeys
  imports PyDictWhole PyListOps
begin

text \<open>
  Integer objects as keys, and the properties of dicts with instances on them.
\<close>

declare split_paired_All [simp del] split_paired_Ex [simp del]

section \<open>Integer keys\<close>

text \<open>A key that is an integer object: compared with \<open>==\<close> and hashed by \<open>long_hash\<close>.\<close>

typedef pyint = "{v :: pyobj. is_long v}"
  by (rule exI [of _ "PyLongObj PyLong_Zero"]) (simp add: PyLong_Zero_correct)

setup_lifting type_definition_pyint

lift_definition pyint_val :: "pyint \<Rightarrow> int" is obj_val .

lift_definition pyint_eq :: "pyint \<Rightarrow> pyint \<Rightarrow> ('s, bool) py" is obj_eq .

definition pyint_hash :: "pyint \<Rightarrow> size_t" where
  "pyint_hash a = (case Rep_pyint a of PyLongObj v \<Rightarrow> word_of_int (long_hash v) | _ \<Rightarrow> 0)"

definition same_val :: "pyint \<Rightarrow> pyint \<Rightarrow> bool" where
  "same_val a b \<longleftrightarrow> pyint_val a = pyint_val b"

lemma pyint_eq_pure: "pyint_eq a b = pure_eq same_val a b"
  unfolding pure_eq_def same_val_def by transfer (rule obj_eq_result)

lemma pyint_cases:
  obtains v where "Rep_pyint a = PyLongObj v" "wf_long v" "pyint_val a = long_val v"
proof -
  have "is_long (Rep_pyint a)" using Rep_pyint by simp
  then obtain v where "Rep_pyint a = PyLongObj v" "wf_long v" by (cases "Rep_pyint a") auto
  then show ?thesis by (intro that) (simp_all add: pyint_val.rep_eq)
qed

lemma pyint_hash_val:
  "pyint_hash a = word_of_int (let h = sgn (pyint_val a) * (\<bar>pyint_val a\<bar> mod (2 ^ 61 - 1)) in if h = -1 then -2 else h)"
  by (rule pyint_cases [of a]) (simp add: pyint_hash_def long_hash_correct Let_def)

interpretation int_keys: dict_keys same_val pyint_hash
proof
  fix a b
  show "same_val a b \<Longrightarrow> pyint_hash a = pyint_hash b" by (simp add: same_val_def pyint_hash_val)
  let ?h = "let h = sgn (pyint_val a) * (\<bar>pyint_val a\<bar> mod (2 ^ 61 - 1)) in if h = -1 then -2 else h"
  have "\<bar>?h\<bar> < 2 ^ 61"
    using pos_mod_bound [of "2 ^ 61 - 1" "\<bar>pyint_val a\<bar>"] pos_mod_sign [of "2 ^ 61 - 1" "\<bar>pyint_val a\<bar>"]
    by (auto simp: Let_def sgn_if)
  moreover have "?h \<noteq> -1" by (simp add: Let_def)
  ultimately have "sint (word_of_int ?h :: size_t) \<noteq> -1" by (subst sint_word_of_int_64) (simp_all only: abs_less_iff, simp_all)
  then show "pyint_hash a \<noteq> -1" unfolding pyint_hash_val by auto
qed (simp_all add: same_val_def)

text \<open>A small integer as a key.\<close>

definition int_key :: "int \<Rightarrow> pyint" where
  "int_key i = Abs_pyint (int_obj i)"

lemma int_key_val [simp]: "-5 \<le> i \<Longrightarrow> i < 257 \<Longrightarrow> pyint_val (int_key i) = i"
  by (simp add: int_key_def pyint_val.rep_eq Abs_pyint_inverse)

section \<open>Properties\<close>




text \<open>A comparison that clears both dicts and answers no, and one that clears the first and fails.\<close>

definition clearing_both :: "('k, 'v, ('k, 'v) pydict) key_eq" where
  "clearing_both a b = (\<lambda>(mp, w). ((PyDict_Clear mp, PyDict_Clear w), Inr False))"




text \<open>
  Two runs of \<open>dict_merge\<close> with keys of equal hashes, so that the first key of the other dict is compared
  with the key that is there. When the comparison clears both dicts the loop notices it, as
  \<open>test_merge_and_mutate\<close> of \<open>Lib/test/test_dict.py\<close> expects. When it gives the other dict a new table with
  as many entries, the loop goes on with the entries of the old one, which has been freed.
\<close>

definition sample_keys :: "nat \<Rightarrow> nat list \<Rightarrow> (nat, bool) dictkeys" where
  "sample_keys table_id ks = \<lparr>dk_id = table_id, dk_size = 8, dk_usable = 5 - int (length ks), dk_nentries = length ks,
     dk_indices = map int [0..<length ks] @ replicate (8 - length ks) DKIX_EMPTY,
     dk_entries = map (\<lambda>k. \<lparr>me_hash = 0, me_key = Some k, me_value = Some True\<rparr>) ks @ replicate (5 - length ks) empty_entry\<rparr>"

definition sample_dict :: "nat \<Rightarrow> nat list \<Rightarrow> (nat, bool) pydict" where
  "sample_dict table_id ks = \<lparr>ma_used = length ks, ma_keys = sample_keys table_id ks, ma_fresh = table_id + 1\<rparr>"

definition replacing_eq :: "(nat, bool, (nat, bool) pydict) key_eq" where
  "replacing_eq a b = (\<lambda>(mp, w). ((mp, sample_dict (ma_fresh w) [3, 4]), Inr True))"

lemma merge_notices_change:
  "case dict_merge clearing_both False (\<lambda>w. w) 1 (sample_dict 1 [0], sample_dict 1 [1]) of
     None \<Rightarrow> False | Some (t, r) \<Rightarrow> r = Inl RuntimeError"
  by code_simp

lemma merge_reads_freed_table:
  "case dict_merge replacing_eq False (\<lambda>w. w) 1 (sample_dict 1 [0], sample_dict 1 [1, 2]) of
     None \<Rightarrow> False | Some (t, r) \<Rightarrow> r = Inl AssertionFailed"
  by code_simp

text \<open>
  C33: A search returns: the probe sequence visits every slot of the table, from any start, and a
  well-formed table always has an empty slot, so with a comparison without effect the loop of
  \<open>lookdict\<close> ends, at a live entry with an equal key and the same hash if there is one, and
  otherwise with nothing.
\<close>

theorem lookdict_terminates:
  fixes s :: "('k, 'v) pydict \<times> 'w"
  assumes keys: "dict_keys eq hsh" and wf: "wf_dict hsh (fst s)"
  shows "(\<forall>k \<le> 64. \<forall>j < 2 ^ k. \<exists>n < 14 + 2 ^ k. unat (fst ((probe_next (mask k) ^^ n) p)) = j) \<and>
    ((\<exists>j x. lookdict (pure_eq eq) key (hsh key) s = Some (s, Inr (int j, me_value (ents (ma_keys (fst s)) ! j))) \<and>
        hash_of (ents (ma_keys (fst s))) j = Some (hsh key) \<and> me_key (ents (ma_keys (fst s)) ! j) = Some x \<and> eq x key) \<or>
      lookdict (pure_eq eq) key (hsh key) s = Some (s, Inr (DKIX_EMPTY, None)) \<and>
        (\<forall>ep \<in> set (ents (ma_keys (fst s))). \<forall>x. me_key ep = Some x \<longrightarrow> \<not> eq x key))"
  using dict_keys.lookdict_pure [OF keys wf] probe_visits by blast

lemma lookdict_terminates_witness:
  "lookdict (pure_eq same_val) (int_key 7) (pyint_hash (int_key 7)) (PyDict_New :: (pyint, bool) pydict, ()) =
    Some ((PyDict_New, ()), Inr (DKIX_EMPTY, None))"
proof -
  let ?s = "(PyDict_New :: (pyint, bool) pydict, ())"
  have wf: "wf_dict pyint_hash (fst ?s)" using wf_New by simp
  have "ents (ma_keys (fst ?s)) = []" by (simp add: PyDict_New_def)
  then show ?thesis
    using lookdict_terminates [OF int_keys.dict_keys_axioms wf, of "(0, 0)" "int_key 7"] by (auto simp: hash_of_def)
qed

text \<open>
  C34: Operations on whole dicts: merging is setting the items of the other dict one by one
  (\<open>override = 1\<close>), keeping what is there (0), or failing on the first key that is there (2), also
  when it clones the other's table instead; a copy has the same items; two dicts are equal when
  they have as many items and each item of the one is in the other; and a loop over \<open>PyDict_Next\<close>
  sees the items in order.
\<close>

theorem dict_whole_operations:
  fixes s :: "('k, 'v) pydict \<times> 'w" and other :: "'w \<Rightarrow> ('k, 'v) pydict"
  assumes keys: "dict_keys eq hsh" and ok: "dict_ok eq hsh (fst s)" and oko: "dict_ok eq hsh (other (snd s))"
    and ov: "override \<le> 2"
  shows "owp False (dict_merge (pure_eq eq) False other override)
      (\<lambda>_ t. dict_ok eq hsh (fst t) \<and> snd t = snd s \<and>
        al_merge eq override (items (other (snd s))) (items (fst s)) = Some (items (fst t)))
      (\<lambda>e t. dict_ok eq hsh (fst t) \<and> snd t = snd s \<and>
        (e = MemoryError \<and> huge (length (items (fst s)) + length (items (other (snd s)))) \<or>
         e = KeyError \<and> al_merge eq override (items (other (snd s))) (items (fst s)) = None)) s \<and>
    owp False (dict_merge (pure_eq eq) True other override) (\<lambda>_ t. t = s) (\<lambda>_ _. False) s \<and>
    (\<exists>t r. PyDict_Copy (pure_eq eq) other (snd s) = Some (t, r) \<and> dict_ok eq hsh (fst t) \<and> snd t = snd s \<and>
      (r = Inr () \<and> items (fst t) = items (other (snd s)) \<or> r = Inl MemoryError \<and> huge (length (items (other (snd s)))))) \<and>
    owp False (dict_equal (pure_eq eq) (pure_veq veq) other)
      (\<lambda>b t. t = s \<and> b = (length (items (other (snd s))) = length (items (fst s)) \<and>
        al_sub eq veq (items (other (snd s))) (items (fst s))))
      (\<lambda>_ _. False) s \<and>
    iterate (dk_nentries (ma_keys (fst s)) + 1) (ma_keys (fst s)) 0 =
      Inr (List.map (\<lambda>p. (Some (fst p), snd p)) (items (fst s)))"
proof -
  have "owp False (dict_merge (pure_eq eq) True other override) (\<lambda>_ t. t = s) (\<lambda>_ _. False) s"
    by (simp add: owp_dict_merge [OF ov])
  then show ?thesis
    using dict_keys.dict_merge_exact [where other = other, OF keys ok oko ov]
      dict_keys.PyDict_Copy_exact [where src = other, OF keys oko]
      dict_keys.dict_equal_exact [where a = other, OF keys ok oko]
      iterate_items [OF dict_keys.dict_ok_wf [OF keys ok]] by blast
qed

lemma dict_whole_operations_witness:
  "\<exists>t. dict_merge (pure_eq same_val) False (\<lambda>_. PyDict_New) 1 (PyDict_New :: (pyint, bool) pydict, ()) = Some (t, Inr ()) \<and>
    items (fst t) = []"
proof -
  let ?s = "(PyDict_New :: (pyint, bool) pydict, ())"
  have ok: "dict_ok same_val pyint_hash (fst ?s)" using dict_ok_New by simp
  have oko: "dict_ok same_val pyint_hash ((\<lambda>_. PyDict_New :: (pyint, bool) pydict) (snd ?s))" by (simp add: dict_ok_New)
  have "owp False (dict_merge (pure_eq same_val) False (\<lambda>_. PyDict_New) 1) (\<lambda>_ t. items (fst t) = []) (\<lambda>_ _. False) ?s"
    by (rule owp_mono [OF conjunct1 [OF dict_whole_operations [where other = "\<lambda>_. PyDict_New", OF int_keys.dict_keys_axioms ok oko, of 1]]])
      (simp_all add: items_New huge_def)
  from owp_returns [OF this] show ?thesis by auto
qed



end
