(* ===== verification/PyGc.thy ===== *)
theory PyGc
  imports PyLoop "HOL-Library.Word"
begin

unbundle bit_operations_syntax

text \<open>
  The cycle collector (\<open>Modules/gcmodule.c\<close>, \<open>Include/internal/pycore_gc.h\<close>): this theory holds
  its definitions, down to the two words of a \<open>PyGC_Head\<close>. A head is an address; the heads of the
  tracked objects and of the lists are linked in circles through \<open>gc_next\<close> and \<open>gc_prev\<close> (the
  fields \<open>_gc_next\<close>, \<open>_gc_prev\<close>), whose low bits are flags, and during a collection \<open>gc_prev\<close> holds
  a reference count.

  What the collector reads of the program is the record \<open>gc_world\<close>: which addresses are heads, the
  reference count of an object, the objects that its \<open>tp_traverse\<close> visits, in order, whether an
  object has a head, has been freed, has a \<open>tp_del\<close>, is a tuple or a dict and of what, and the
  heads of the generations. An access to an address that is not a head
  is \<open>AssertionFailed\<close>, as is a failed \<open>assert\<close>: the model is the build with assertions.
\<close>

section \<open>Heads\<close>

type_synonym addr = "64 word"

record gc_head =
  gc_next :: addr
  gc_prev :: addr

type_synonym gc_store = "addr \<Rightarrow> gc_head"

text \<open>
  The contents of an exact tuple, and of an exact dict: the entries of a combined table (key and
  value), or the keys and values of a split one.
\<close>

datatype dict_contents =
    CombinedTable "(addr \<times> addr option) list"
  | SplitTable "addr list" "addr option list"

record gc_world =
  gc_heap :: "addr \<Rightarrow> bool"
  ob_refcnt :: "addr \<Rightarrow> int"
  tp_traverse :: "addr \<Rightarrow> addr list"
  object_is_gc :: "addr \<Rightarrow> bool"
  object_freed :: "addr \<Rightarrow> bool"
  tp_del :: "addr \<Rightarrow> bool"
  tuple_exact :: "addr \<Rightarrow> addr option list option"
  dict_exact :: "addr \<Rightarrow> dict_contents option"
  gen_head :: "nat \<Rightarrow> addr"

definition PREV_MASK_FINALIZED :: addr where "PREV_MASK_FINALIZED = 1"
definition PREV_MASK_COLLECTING :: addr where "PREV_MASK_COLLECTING = 2"
definition PREV_SHIFT :: nat where "PREV_SHIFT = 2"
definition PREV_MASK :: addr where "PREV_MASK = push_bit PREV_SHIFT (- 1)"
definition NEXT_MASK_UNREACHABLE :: addr where "NEXT_MASK_UNREACHABLE = 1"

definition AS_GC :: "addr \<Rightarrow> addr" where "AS_GC op = op - 16"
definition FROM_GC :: "addr \<Rightarrow> addr" where "FROM_GC g = g + 16"

definition gc_read :: "gc_world \<Rightarrow> addr \<Rightarrow> (gc_head \<Rightarrow> 'a) \<Rightarrow> (gc_store, 'a) pyo" where
  "gc_read W g f = obind (oassert (gc_heap W g)) (\<lambda>_. oget (\<lambda>s. f (s g)))"

definition gc_write :: "gc_world \<Rightarrow> addr \<Rightarrow> (gc_head \<Rightarrow> gc_head) \<Rightarrow> (gc_store, unit) pyo" where
  "gc_write W g f = obind (oassert (gc_heap W g)) (\<lambda>_. omodify (\<lambda>s. s(g := f (s g))))"

definition write_next :: "gc_world \<Rightarrow> addr \<Rightarrow> addr \<Rightarrow> (gc_store, unit) pyo" where
  "write_next W g x = gc_write W g (\<lambda>h. h\<lparr>gc_next := x\<rparr>)"

definition write_prev :: "gc_world \<Rightarrow> addr \<Rightarrow> addr \<Rightarrow> (gc_store, unit) pyo" where
  "write_prev W g x = gc_write W g (\<lambda>h. h\<lparr>gc_prev := x\<rparr>)"

definition GC_NEXT :: "gc_world \<Rightarrow> addr \<Rightarrow> (gc_store, addr) pyo" where
  "GC_NEXT W g = gc_read W g gc_next"

definition GC_PREV :: "gc_world \<Rightarrow> addr \<Rightarrow> (gc_store, addr) pyo" where
  "GC_PREV W g = gc_read W g (\<lambda>h. gc_prev h AND PREV_MASK)"

definition SET_NEXT :: "gc_world \<Rightarrow> addr \<Rightarrow> addr \<Rightarrow> (gc_store, unit) pyo" where
  "SET_NEXT W g p = write_next W g p"

definition SET_PREV :: "gc_world \<Rightarrow> addr \<Rightarrow> addr \<Rightarrow> (gc_store, unit) pyo" where
  "SET_PREV W g p =
     obind (oassert (p AND NOT PREV_MASK = 0)) (\<lambda>_.
       gc_write W g (\<lambda>h. h\<lparr>gc_prev := (gc_prev h AND NOT PREV_MASK) OR p\<rparr>))"

definition gc_is_collecting :: "gc_world \<Rightarrow> addr \<Rightarrow> (gc_store, bool) pyo" where
  "gc_is_collecting W g = gc_read W g (\<lambda>h. gc_prev h AND PREV_MASK_COLLECTING \<noteq> 0)"

definition gc_clear_collecting :: "gc_world \<Rightarrow> addr \<Rightarrow> (gc_store, unit) pyo" where
  "gc_clear_collecting W g = gc_write W g (\<lambda>h. h\<lparr>gc_prev := gc_prev h AND NOT PREV_MASK_COLLECTING\<rparr>)"

definition gc_get_refs :: "gc_world \<Rightarrow> addr \<Rightarrow> (gc_store, int) pyo" where
  "gc_get_refs W g = gc_read W g (\<lambda>h. sint (drop_bit PREV_SHIFT (gc_prev h)))"

definition gc_set_refs :: "gc_world \<Rightarrow> addr \<Rightarrow> int \<Rightarrow> (gc_store, unit) pyo" where
  "gc_set_refs W g refs = gc_write W g (\<lambda>h. h\<lparr>gc_prev :=
     (gc_prev h AND NOT PREV_MASK) OR push_bit PREV_SHIFT (word_of_int refs)\<rparr>)"

definition gc_reset_refs :: "gc_world \<Rightarrow> addr \<Rightarrow> int \<Rightarrow> (gc_store, unit) pyo" where
  "gc_reset_refs W g refs = gc_write W g (\<lambda>h. h\<lparr>gc_prev :=
     ((gc_prev h AND PREV_MASK_FINALIZED) OR PREV_MASK_COLLECTING)
       OR push_bit PREV_SHIFT (word_of_int refs)\<rparr>)"

definition gc_decref :: "gc_world \<Rightarrow> addr \<Rightarrow> (gc_store, unit) pyo" where
  "gc_decref W g =
     obind (gc_get_refs W g) (\<lambda>refs.
     obind (oassert (refs > 0)) (\<lambda>_.
       gc_write W g (\<lambda>h. h\<lparr>gc_prev := gc_prev h - push_bit PREV_SHIFT 1\<rparr>)))"

section \<open>Lists\<close>

definition gc_list_init :: "gc_world \<Rightarrow> addr \<Rightarrow> (gc_store, unit) pyo" where
  "gc_list_init W ls = obind (write_prev W ls ls) (\<lambda>_. write_next W ls ls)"

definition gc_list_is_empty :: "gc_world \<Rightarrow> addr \<Rightarrow> (gc_store, bool) pyo" where
  "gc_list_is_empty W ls = gc_read W ls (\<lambda>h. gc_next h = ls)"

definition gc_list_append :: "gc_world \<Rightarrow> addr \<Rightarrow> addr \<Rightarrow> (gc_store, unit) pyo" where
  "gc_list_append W node ls =
     obind (gc_read W ls gc_prev) (\<lambda>last.
     obind (SET_PREV W node last) (\<lambda>_.
     obind (SET_NEXT W last node) (\<lambda>_.
     obind (SET_NEXT W node ls) (\<lambda>_.
       write_prev W ls node))))"

definition gc_list_remove :: "gc_world \<Rightarrow> addr \<Rightarrow> (gc_store, unit) pyo" where
  "gc_list_remove W node =
     obind (GC_PREV W node) (\<lambda>prev.
     obind (GC_NEXT W node) (\<lambda>nxt.
     obind (SET_NEXT W prev nxt) (\<lambda>_.
     obind (SET_PREV W nxt prev) (\<lambda>_.
       write_next W node 0))))"

definition gc_list_move :: "gc_world \<Rightarrow> addr \<Rightarrow> addr \<Rightarrow> (gc_store, unit) pyo" where
  "gc_list_move W node ls =
     obind (GC_PREV W node) (\<lambda>from_prev.
     obind (GC_NEXT W node) (\<lambda>from_next.
     obind (SET_NEXT W from_prev from_next) (\<lambda>_.
     obind (SET_PREV W from_next from_prev) (\<lambda>_.
     obind (gc_read W ls gc_prev) (\<lambda>to_prev.
     obind (SET_PREV W node to_prev) (\<lambda>_.
     obind (SET_NEXT W to_prev node) (\<lambda>_.
     obind (write_prev W ls node) (\<lambda>_.
       SET_NEXT W node ls))))))))"

definition gc_list_merge :: "gc_world \<Rightarrow> addr \<Rightarrow> addr \<Rightarrow> (gc_store, unit) pyo" where
  "gc_list_merge W frm to =
     obind (oassert (frm \<noteq> to)) (\<lambda>_.
     obind (gc_list_is_empty W frm) (\<lambda>e.
     obind (if e then oret () else
       obind (GC_PREV W to) (\<lambda>to_tail.
       obind (GC_NEXT W frm) (\<lambda>from_head.
       obind (GC_PREV W frm) (\<lambda>from_tail.
       obind (oassert (from_head \<noteq> frm)) (\<lambda>_.
       obind (oassert (from_tail \<noteq> frm)) (\<lambda>_.
       obind (SET_NEXT W to_tail from_head) (\<lambda>_.
       obind (SET_PREV W from_head to_tail) (\<lambda>_.
       obind (SET_NEXT W from_tail to) (\<lambda>_.
         SET_PREV W to from_tail))))))))) (\<lambda>_.
       gc_list_init W frm)))"

text \<open>The loop \<open>for (; gc != ls; gc = GC_NEXT(gc))\<close>, of which \<open>gc_for\<close> starts at \<open>GC_NEXT(ls)\<close>.\<close>

partial_function (option) gc_for_from ::
    "gc_world \<Rightarrow> (addr \<Rightarrow> (gc_store, unit) pyo) \<Rightarrow> addr \<Rightarrow> addr \<Rightarrow> gc_store \<Rightarrow> (gc_store \<times> unit pyres) option" where
  "gc_for_from W body ls gc s =
     (if gc = ls then oret ()
      else obind (body gc) (\<lambda>_. obind (GC_NEXT W gc) (\<lambda>nxt. gc_for_from W body ls nxt))) s"

definition gc_for :: "gc_world \<Rightarrow> (addr \<Rightarrow> (gc_store, unit) pyo) \<Rightarrow> addr \<Rightarrow> (gc_store, unit) pyo" where
  "gc_for W body ls = obind (GC_NEXT W ls) (\<lambda>gc. gc_for_from W body ls gc)"

partial_function (option) gc_list_size_from ::
    "gc_world \<Rightarrow> addr \<Rightarrow> addr \<Rightarrow> int \<Rightarrow> gc_store \<Rightarrow> (gc_store \<times> int pyres) option" where
  "gc_list_size_from W ls gc n s =
     (if gc = ls then oret n
      else obind (GC_NEXT W gc) (\<lambda>nxt. gc_list_size_from W ls nxt (n + 1))) s"

definition gc_list_size :: "gc_world \<Rightarrow> addr \<Rightarrow> (gc_store, int) pyo" where
  "gc_list_size W ls = obind (GC_NEXT W ls) (\<lambda>gc. gc_list_size_from W ls gc 0)"

definition gc_list_clear_collecting :: "gc_world \<Rightarrow> addr \<Rightarrow> (gc_store, unit) pyo" where
  "gc_list_clear_collecting W = gc_for W (gc_clear_collecting W)"

text \<open>The consistency check of a list.\<close>

datatype flagstates =
    collecting_clear_unreachable_clear
  | collecting_clear_unreachable_set
  | collecting_set_unreachable_clear
  | collecting_set_unreachable_set

definition flag_prev_value :: "flagstates \<Rightarrow> addr" where
  "flag_prev_value flags =
     (if flags = collecting_set_unreachable_clear \<or> flags = collecting_set_unreachable_set
      then PREV_MASK_COLLECTING else 0)"

definition flag_next_value :: "flagstates \<Rightarrow> addr" where
  "flag_next_value flags =
     (if flags = collecting_clear_unreachable_set \<or> flags = collecting_set_unreachable_set
      then NEXT_MASK_UNREACHABLE else 0)"

partial_function (option) validate_from ::
    "gc_world \<Rightarrow> flagstates \<Rightarrow> addr \<Rightarrow> addr \<Rightarrow> addr \<Rightarrow> gc_store \<Rightarrow> (gc_store \<times> unit pyres) option" where
  "validate_from W flags head prev gc s =
     (if gc = head then obind (GC_PREV W head) (\<lambda>p. oassert (prev = p))
      else
        obind (GC_PREV W gc) (\<lambda>trueprev.
        obind (gc_read W gc (\<lambda>h. gc_next h AND NOT NEXT_MASK_UNREACHABLE)) (\<lambda>truenext.
        obind (oassert (truenext \<noteq> 0)) (\<lambda>_.
        obind (oassert (trueprev = prev)) (\<lambda>_.
        obind (gc_read W gc (\<lambda>h. gc_prev h AND PREV_MASK_COLLECTING)) (\<lambda>c.
        obind (oassert (c = flag_prev_value flags)) (\<lambda>_.
        obind (gc_read W gc (\<lambda>h. gc_next h AND NEXT_MASK_UNREACHABLE)) (\<lambda>u.
        obind (oassert (u = flag_next_value flags)) (\<lambda>_.
          validate_from W flags head gc truenext))))))))) s"

definition validate_list :: "gc_world \<Rightarrow> addr \<Rightarrow> flagstates \<Rightarrow> (gc_store, unit) pyo" where
  "validate_list W head flags =
     obind (gc_read W head (\<lambda>h. gc_prev h AND PREV_MASK_COLLECTING)) (\<lambda>c.
     obind (oassert (c = 0)) (\<lambda>_.
     obind (gc_read W head (\<lambda>h. gc_next h AND NEXT_MASK_UNREACHABLE)) (\<lambda>u.
     obind (oassert (u = 0)) (\<lambda>_.
     obind (GC_NEXT W head) (\<lambda>gc. validate_from W flags head head gc)))))"

text \<open>Tracking: an object enters the youngest generation, whose head is \<open>generation0\<close>.\<close>

definition PyObject_GC_TRACK :: "gc_world \<Rightarrow> addr \<Rightarrow> addr \<Rightarrow> (gc_store, unit) pyo" where
  "PyObject_GC_TRACK W generation0 op =
     (let gc = AS_GC op in
      obind (gc_read W gc gc_next) (\<lambda>nx.
      obind (oassert (nx = 0)) (\<lambda>_.
      obind (gc_read W gc (\<lambda>h. gc_prev h AND PREV_MASK_COLLECTING)) (\<lambda>c.
      obind (oassert (c = 0)) (\<lambda>_.
      obind (gc_read W generation0 gc_prev) (\<lambda>last.
      obind (SET_NEXT W last gc) (\<lambda>_.
      obind (SET_PREV W gc last) (\<lambda>_.
      obind (SET_NEXT W gc generation0) (\<lambda>_.
        write_prev W generation0 gc)))))))))"

definition PyObject_GC_UNTRACK :: "gc_world \<Rightarrow> addr \<Rightarrow> (gc_store, unit) pyo" where
  "PyObject_GC_UNTRACK W op =
     (let gc = AS_GC op in
      obind (gc_read W gc gc_next) (\<lambda>nx.
      obind (oassert (nx \<noteq> 0)) (\<lambda>_.
      obind (GC_PREV W gc) (\<lambda>prev.
      obind (GC_NEXT W gc) (\<lambda>nxt.
      obind (SET_NEXT W prev nxt) (\<lambda>_.
      obind (SET_PREV W nxt prev) (\<lambda>_.
      obind (write_next W gc 0) (\<lambda>_.
        gc_write W gc (\<lambda>h. h\<lparr>gc_prev := gc_prev h AND PREV_MASK_FINALIZED\<rparr>)))))))))"

section \<open>The references of a generation\<close>

text \<open>\<open>traverse(op, visit, arg)\<close>: the visitors used here return 0, so every object is visited.\<close>

primrec visit_all :: "('a \<Rightarrow> ('s, unit) pyo) \<Rightarrow> 'a list \<Rightarrow> ('s, unit) pyo" where
  "visit_all visit [] = oret ()"
| "visit_all visit (op # ops) = obind (visit op) (\<lambda>_. visit_all visit ops)"

definition traverse :: "gc_world \<Rightarrow> addr \<Rightarrow> (addr \<Rightarrow> (gc_store, unit) pyo) \<Rightarrow> (gc_store, unit) pyo" where
  "traverse W op visit = visit_all visit (tp_traverse W op)"

definition update_refs :: "gc_world \<Rightarrow> addr \<Rightarrow> (gc_store, unit) pyo" where
  "update_refs W = gc_for W (\<lambda>gc.
     obind (gc_reset_refs W gc (ob_refcnt W (FROM_GC gc))) (\<lambda>_.
     obind (gc_get_refs W gc) (\<lambda>refs. oassert (refs \<noteq> 0))))"

definition visit_decref :: "gc_world \<Rightarrow> addr \<Rightarrow> (gc_store, unit) pyo" where
  "visit_decref W op =
     obind (oassert (\<not> object_freed W op)) (\<lambda>_.
     if object_is_gc W op then
       obind (gc_is_collecting W (AS_GC op)) (\<lambda>c.
         if c then gc_decref W (AS_GC op) else oret ())
     else oret ())"

definition subtract_refs :: "gc_world \<Rightarrow> addr \<Rightarrow> (gc_store, unit) pyo" where
  "subtract_refs W = gc_for W (\<lambda>gc. traverse W (FROM_GC gc) (visit_decref W))"

definition visit_reachable :: "gc_world \<Rightarrow> addr \<Rightarrow> addr \<Rightarrow> (gc_store, unit) pyo" where
  "visit_reachable W reachable op =
     (if \<not> object_is_gc W op then oret () else
      let gc = AS_GC op in
      obind (gc_get_refs W gc) (\<lambda>gc_refs.
      obind (gc_is_collecting W gc) (\<lambda>c.
      if \<not> c then oret () else
      obind (gc_read W gc gc_next) (\<lambda>nx.
      obind (oassert (nx \<noteq> 0)) (\<lambda>_.
      if nx AND NEXT_MASK_UNREACHABLE \<noteq> 0 then
        obind (GC_PREV W gc) (\<lambda>prev.
        let nxt = nx AND NOT NEXT_MASK_UNREACHABLE in
        obind (gc_read W prev gc_next) (\<lambda>pn.
        obind (oassert (pn AND NEXT_MASK_UNREACHABLE \<noteq> 0)) (\<lambda>_.
        obind (gc_read W nxt gc_next) (\<lambda>nn.
        obind (oassert (nn AND NEXT_MASK_UNREACHABLE \<noteq> 0)) (\<lambda>_.
        obind (write_next W prev nx) (\<lambda>_.
        obind (SET_PREV W nxt prev) (\<lambda>_.
        obind (gc_list_append W gc reachable) (\<lambda>_.
          gc_set_refs W gc 1))))))))
      else if gc_refs = 0 then gc_set_refs W gc 1
      else oassert (gc_refs > 0))))))"

text \<open>One pass of the loop of \<open>move_unreachable\<close> at \<open>gc\<close> returns the new \<open>prev\<close>.\<close>

definition move_step :: "gc_world \<Rightarrow> addr \<Rightarrow> addr \<Rightarrow> addr \<Rightarrow> addr \<Rightarrow> (gc_store, addr) pyo" where
  "move_step W young unreachable prev gc =
     obind (gc_get_refs W gc) (\<lambda>refs.
     if refs \<noteq> 0 then
       obind (oassert (refs > 0)) (\<lambda>_.
       obind (traverse W (FROM_GC gc) (visit_reachable W young)) (\<lambda>_.
       obind (SET_PREV W gc prev) (\<lambda>_.
       obind (gc_clear_collecting W gc) (\<lambda>_. oret gc))))
     else
       obind (gc_read W gc gc_next) (\<lambda>nx.
       obind (write_next W prev nx) (\<lambda>_.
       obind (GC_PREV W unreachable) (\<lambda>last.
       obind (write_next W last (NEXT_MASK_UNREACHABLE OR gc)) (\<lambda>_.
       obind (SET_PREV W gc last) (\<lambda>_.
       obind (write_next W gc (NEXT_MASK_UNREACHABLE OR unreachable)) (\<lambda>_.
       obind (write_prev W unreachable gc) (\<lambda>_. oret prev))))))))"

partial_function (option) move_loop ::
    "gc_world \<Rightarrow> addr \<Rightarrow> addr \<Rightarrow> addr \<Rightarrow> addr \<Rightarrow> gc_store \<Rightarrow> (gc_store \<times> addr pyres) option" where
  "move_loop W young unreachable prev gc s =
     (if gc = young then oret prev
      else obind (move_step W young unreachable prev gc) (\<lambda>prev'.
        obind (gc_read W prev' gc_next) (\<lambda>gc'. move_loop W young unreachable prev' gc'))) s"

definition move_unreachable :: "gc_world \<Rightarrow> addr \<Rightarrow> addr \<Rightarrow> (gc_store, unit) pyo" where
  "move_unreachable W young unreachable =
     obind (GC_NEXT W young) (\<lambda>gc.
     obind (move_loop W young unreachable young gc) (\<lambda>prev.
     obind (write_prev W young prev) (\<lambda>_.
     obind (gc_read W unreachable gc_next) (\<lambda>nx.
       write_next W unreachable (nx AND NOT NEXT_MASK_UNREACHABLE)))))"

definition deduce_unreachable :: "gc_world \<Rightarrow> addr \<Rightarrow> addr \<Rightarrow> (gc_store, unit) pyo" where
  "deduce_unreachable W base unreachable =
     obind (validate_list W base collecting_clear_unreachable_clear) (\<lambda>_.
     obind (update_refs W base) (\<lambda>_.
     obind (subtract_refs W base) (\<lambda>_.
     obind (gc_list_init W unreachable) (\<lambda>_.
     obind (move_unreachable W base unreachable) (\<lambda>_.
     obind (validate_list W base collecting_clear_unreachable_clear) (\<lambda>_.
       validate_list W unreachable collecting_set_unreachable_set))))))"

section \<open>Legacy finalizers and resurrection\<close>

definition has_legacy_finalizer :: "gc_world \<Rightarrow> addr \<Rightarrow> bool" where
  "has_legacy_finalizer W op = tp_del W op"

partial_function (option) move_legacy_from ::
    "gc_world \<Rightarrow> addr \<Rightarrow> addr \<Rightarrow> addr \<Rightarrow> gc_store \<Rightarrow> (gc_store \<times> unit pyres) option" where
  "move_legacy_from W unreachable finalizers gc s =
     (if gc = unreachable then oret ()
      else
        obind (gc_read W gc gc_next) (\<lambda>nx.
        obind (oassert (nx AND NEXT_MASK_UNREACHABLE \<noteq> 0)) (\<lambda>_.
        obind (write_next W gc (nx AND NOT NEXT_MASK_UNREACHABLE)) (\<lambda>_.
        obind (gc_read W gc gc_next) (\<lambda>nxt.
        obind (if has_legacy_finalizer W (FROM_GC gc)
               then obind (gc_clear_collecting W gc) (\<lambda>_. gc_list_move W gc finalizers)
               else oret ()) (\<lambda>_.
          move_legacy_from W unreachable finalizers nxt)))))) s"

definition move_legacy_finalizers :: "gc_world \<Rightarrow> addr \<Rightarrow> addr \<Rightarrow> (gc_store, unit) pyo" where
  "move_legacy_finalizers W unreachable finalizers =
     obind (gc_read W unreachable gc_next) (\<lambda>nx.
     obind (oassert (nx AND NEXT_MASK_UNREACHABLE = 0)) (\<lambda>_.
     obind (GC_NEXT W unreachable) (\<lambda>gc. move_legacy_from W unreachable finalizers gc)))"

partial_function (option) clear_mask_from ::
    "gc_world \<Rightarrow> addr \<Rightarrow> addr \<Rightarrow> gc_store \<Rightarrow> (gc_store \<times> unit pyres) option" where
  "clear_mask_from W unreachable gc s =
     (if gc = unreachable then oret ()
      else
        obind (gc_read W gc gc_next) (\<lambda>nx.
        obind (oassert (nx AND NEXT_MASK_UNREACHABLE \<noteq> 0)) (\<lambda>_.
        obind (write_next W gc (nx AND NOT NEXT_MASK_UNREACHABLE)) (\<lambda>_.
        obind (gc_read W gc gc_next) (\<lambda>nxt. clear_mask_from W unreachable nxt))))) s"

definition clear_unreachable_mask :: "gc_world \<Rightarrow> addr \<Rightarrow> (gc_store, unit) pyo" where
  "clear_unreachable_mask W unreachable =
     obind (oassert (unreachable AND NEXT_MASK_UNREACHABLE = 0)) (\<lambda>_.
     obind (gc_read W unreachable gc_next) (\<lambda>nx.
     obind (oassert (nx AND NEXT_MASK_UNREACHABLE = 0)) (\<lambda>_.
     obind (GC_NEXT W unreachable) (\<lambda>gc.
     obind (clear_mask_from W unreachable gc) (\<lambda>_.
       validate_list W unreachable collecting_set_unreachable_clear)))))"

definition visit_move :: "gc_world \<Rightarrow> addr \<Rightarrow> addr \<Rightarrow> (gc_store, unit) pyo" where
  "visit_move W tolist op =
     (if object_is_gc W op then
        obind (gc_is_collecting W (AS_GC op)) (\<lambda>c.
          if c then obind (gc_list_move W (AS_GC op) tolist) (\<lambda>_. gc_clear_collecting W (AS_GC op))
          else oret ())
      else oret ())"

definition move_legacy_finalizer_reachable :: "gc_world \<Rightarrow> addr \<Rightarrow> (gc_store, unit) pyo" where
  "move_legacy_finalizer_reachable W finalizers =
     gc_for W (\<lambda>gc. traverse W (FROM_GC gc) (visit_move W finalizers)) finalizers"

definition handle_resurrected_objects :: "gc_world \<Rightarrow> addr \<Rightarrow> addr \<Rightarrow> addr \<Rightarrow> (gc_store, unit) pyo" where
  "handle_resurrected_objects W unreachable still_unreachable old_generation =
     obind (gc_list_clear_collecting W unreachable) (\<lambda>_.
     obind (deduce_unreachable W unreachable still_unreachable) (\<lambda>_.
     obind (clear_unreachable_mask W still_unreachable) (\<lambda>_.
       gc_list_merge W unreachable old_generation)))"

section \<open>Untracking\<close>

text \<open>
  \<open>_PyObject_GC_IS_TRACKED\<close>, \<open>_PyObject_GC_MAY_BE_TRACKED\<close>, and the untracking of tuples and dicts
  that cannot be part of a cycle. \<open>any_tracked\<close> looks for the first of some objects that may be
  tracked.
\<close>

definition GC_IS_TRACKED :: "gc_world \<Rightarrow> addr \<Rightarrow> (gc_store, bool) pyo" where
  "GC_IS_TRACKED W op = gc_read W (AS_GC op) (\<lambda>h. gc_next h \<noteq> 0)"

definition GC_MAY_BE_TRACKED :: "gc_world \<Rightarrow> addr \<Rightarrow> (gc_store, bool) pyo" where
  "GC_MAY_BE_TRACKED W obj =
     (if \<not> object_is_gc W obj then oret False
      else if tuple_exact W obj = None then oret True
      else GC_IS_TRACKED W obj)"

primrec any_tracked :: "gc_world \<Rightarrow> addr list \<Rightarrow> (gc_store, bool) pyo" where
  "any_tracked W [] = oret False"
| "any_tracked W (x # xs) = obind (GC_MAY_BE_TRACKED W x) (\<lambda>b. if b then oret True else any_tracked W xs)"

primrec tuple_blocked :: "gc_world \<Rightarrow> addr option list \<Rightarrow> (gc_store, bool) pyo" where
  "tuple_blocked W [] = oret False"
| "tuple_blocked W (x # xs) =
     (case x of
        None \<Rightarrow> oret True
      | Some elt \<Rightarrow> obind (GC_MAY_BE_TRACKED W elt) (\<lambda>b. if b then oret True else tuple_blocked W xs))"

definition PyTuple_MaybeUntrack :: "gc_world \<Rightarrow> addr \<Rightarrow> (gc_store, unit) pyo" where
  "PyTuple_MaybeUntrack W op =
     (case tuple_exact W op of
        None \<Rightarrow> oret ()
      | Some items \<Rightarrow>
          obind (GC_IS_TRACKED W op) (\<lambda>tr.
          if \<not> tr then oret () else
          obind (tuple_blocked W items) (\<lambda>b.
          if b then oret () else PyObject_GC_UNTRACK W op)))"

primrec split_blocked :: "gc_world \<Rightarrow> (addr \<times> addr option) list \<Rightarrow> (gc_store, bool) pyo" where
  "split_blocked W [] = oret False"
| "split_blocked W (kv # kvs) =
     (case snd kv of
        None \<Rightarrow> split_blocked W kvs
      | Some v \<Rightarrow> obind (GC_MAY_BE_TRACKED W v) (\<lambda>b.
          if b then obind (GC_MAY_BE_TRACKED W (fst kv)) (\<lambda>k. obind (oassert (\<not> k)) (\<lambda>_. oret True))
          else split_blocked W kvs))"

primrec combined_blocked :: "gc_world \<Rightarrow> (addr \<times> addr option) list \<Rightarrow> (gc_store, bool) pyo" where
  "combined_blocked W [] = oret False"
| "combined_blocked W (kv # kvs) =
     (case snd kv of
        None \<Rightarrow> combined_blocked W kvs
      | Some v \<Rightarrow> obind (any_tracked W [v, fst kv]) (\<lambda>b. if b then oret True else combined_blocked W kvs))"

definition PyDict_MaybeUntrack :: "gc_world \<Rightarrow> addr \<Rightarrow> (gc_store, unit) pyo" where
  "PyDict_MaybeUntrack W op =
     (case dict_exact W op of
        None \<Rightarrow> oret ()
      | Some c \<Rightarrow>
          obind (GC_IS_TRACKED W op) (\<lambda>tr.
          if \<not> tr then oret () else
          obind (case c of SplitTable keys vals \<Rightarrow> split_blocked W (zip keys vals)
                         | CombinedTable entries \<Rightarrow> combined_blocked W entries) (\<lambda>b.
          if b then oret () else PyObject_GC_UNTRACK W op)))"

partial_function (option) untrack_from ::
    "gc_world \<Rightarrow> (addr \<Rightarrow> (gc_store, unit) pyo) \<Rightarrow> addr \<Rightarrow> addr \<Rightarrow> gc_store \<Rightarrow> (gc_store \<times> unit pyres) option" where
  "untrack_from W maybe_untrack head gc s =
     (if gc = head then oret ()
      else obind (GC_NEXT W gc) (\<lambda>nxt. obind (maybe_untrack (FROM_GC gc)) (\<lambda>_. untrack_from W maybe_untrack head nxt))) s"

definition untrack_tuples :: "gc_world \<Rightarrow> addr \<Rightarrow> (gc_store, unit) pyo" where
  "untrack_tuples W head = obind (GC_NEXT W head) (\<lambda>gc. untrack_from W (PyTuple_MaybeUntrack W) head gc)"

definition untrack_dicts :: "gc_world \<Rightarrow> addr \<Rightarrow> (gc_store, unit) pyo" where
  "untrack_dicts W head = obind (GC_NEXT W head) (\<lambda>gc. untrack_from W (PyDict_MaybeUntrack W) head gc)"

section \<open>A collection\<close>

text \<open>The counters of the generations, the debug flag that matters here, and \<open>gc.garbage\<close>.\<close>

record gc_state =
  gen_count :: "nat \<Rightarrow> int"
  gen_threshold :: "nat \<Rightarrow> int"
  long_lived_total :: int
  long_lived_pending :: int
  debug_saveall :: bool
  garbage :: "addr list"

definition NUM_GENERATIONS :: nat where "NUM_GENERATIONS = 3"

definition on_heads :: "(gc_store, 'a) pyo \<Rightarrow> (gc_store \<times> gc_state, 'a) pyo" where
  "on_heads m = (\<lambda>(s, G). case m s of None \<Rightarrow> None | Some (t, r) \<Rightarrow> Some ((t, G), r))"

definition on_state :: "(gc_state \<Rightarrow> gc_state) \<Rightarrow> (gc_store \<times> gc_state, unit) pyo" where
  "on_state f = omodify (\<lambda>(s, G). (s, f G))"

text \<open>
  \<open>gc_collect_generations\<close>: the oldest generation whose count exceeds its threshold, if any; a
  full collection only when enough objects wait for it.
\<close>

definition generation_due :: "gc_state \<Rightarrow> nat \<Rightarrow> bool" where
  "generation_due G i \<longleftrightarrow> gen_count G i > gen_threshold G i
     \<and> \<not> (i = NUM_GENERATIONS - 1 \<and> long_lived_pending G < long_lived_total G div 4)"

definition generation_to_collect :: "gc_state \<Rightarrow> nat option" where
  "generation_to_collect G = find (generation_due G) (rev [0..<NUM_GENERATIONS])"

text \<open>The objects that stay reachable join the next older generation, if there is one.\<close>

definition keep_survivors :: "gc_world \<Rightarrow> nat \<Rightarrow> (gc_store \<times> gc_state, unit) pyo" where
  "keep_survivors W generation =
     (let young = gen_head W generation;
          old = (if generation < NUM_GENERATIONS - 1 then gen_head W (generation + 1) else young) in
      if young \<noteq> old then
          obind (if generation = NUM_GENERATIONS - 2 then
              obind (on_heads (gc_list_size W young)) (\<lambda>n.
                on_state (\<lambda>G. G\<lparr>long_lived_pending := long_lived_pending G + n\<rparr>))
            else oret ()) (\<lambda>_.
            on_heads (gc_list_merge W young old))
        else
          obind (on_heads (untrack_dicts W young)) (\<lambda>_.
          obind (on_heads (gc_list_size W young)) (\<lambda>n.
            on_state (\<lambda>G. G\<lparr>long_lived_pending := 0, long_lived_total := n\<rparr>))))"

text \<open>
  The first half of \<open>gc_collect_main\<close>, up to the point where the program's own code is first run:
  the younger generations join the one collected, its unreachable objects are found, the survivors
  are untracked or join the next generation, and the objects that legacy finalizers keep are set
  aside. Afterwards \<open>unreachable\<close> holds the objects to be finalized and cleared.
\<close>

definition collect_unreachable ::
    "gc_world \<Rightarrow> nat \<Rightarrow> addr \<Rightarrow> addr \<Rightarrow> (gc_store \<times> gc_state, unit) pyo" where
  "collect_unreachable W generation unreachable finalizers =
     (let young = gen_head W generation;
          old = (if generation < NUM_GENERATIONS - 1 then gen_head W (generation + 1) else young) in
      obind (on_state (\<lambda>G. G\<lparr>gen_count := \<lambda>i.
         if i \<le> generation then 0
         else if i = generation + 1 \<and> i < NUM_GENERATIONS then gen_count G i + 1 else gen_count G i\<rparr>)) (\<lambda>_.
      obind (on_heads (visit_all (\<lambda>i. gc_list_merge W (gen_head W i) (gen_head W generation)) [0..<generation])) (\<lambda>_.
      obind (on_heads (validate_list W old collecting_clear_unreachable_clear)) (\<lambda>_.
      obind (on_heads (deduce_unreachable W young unreachable)) (\<lambda>_.
      obind (on_heads (untrack_tuples W young)) (\<lambda>_.
      obind (keep_survivors W generation) (\<lambda>_.
      obind (on_heads (gc_list_init W finalizers)) (\<lambda>_.
      obind (on_heads (move_legacy_finalizers W unreachable finalizers)) (\<lambda>_.
      obind (on_heads (move_legacy_finalizer_reachable W finalizers)) (\<lambda>_.
      obind (on_heads (validate_list W finalizers collecting_clear_unreachable_clear)) (\<lambda>_.
        on_heads (validate_list W unreachable collecting_set_unreachable_clear))))))))))))"

text \<open>
  Uncollectable objects go to \<open>gc.garbage\<close> and back to the old generation; \<open>can_append\<close> says
  whether the list \<open>gc.garbage\<close> can grow.
\<close>

partial_function (option) garbage_from ::
    "gc_world \<Rightarrow> (addr list \<Rightarrow> bool) \<Rightarrow> addr \<Rightarrow> addr \<Rightarrow> gc_store \<times> gc_state
       \<Rightarrow> ((gc_store \<times> gc_state) \<times> unit pyres) option" where
  "garbage_from W can_append finalizers gc s =
     (if gc = finalizers then oret ()
      else
        obind (oget (\<lambda>s. snd s)) (\<lambda>G.
        if (debug_saveall G \<or> has_legacy_finalizer W (FROM_GC gc)) \<and> \<not> can_append (garbage G) then oret ()
        else
          obind (if debug_saveall G \<or> has_legacy_finalizer W (FROM_GC gc)
                 then on_state (\<lambda>G. G\<lparr>garbage := garbage G @ [FROM_GC gc]\<rparr>) else oret ()) (\<lambda>_.
          obind (on_heads (GC_NEXT W gc)) (\<lambda>nxt. garbage_from W can_append finalizers nxt)))) s"

definition handle_legacy_finalizers ::
    "gc_world \<Rightarrow> (addr list \<Rightarrow> bool) \<Rightarrow> addr \<Rightarrow> addr \<Rightarrow> (gc_store \<times> gc_state, unit) pyo" where
  "handle_legacy_finalizers W can_append finalizers old =
     obind (on_heads (GC_NEXT W finalizers)) (\<lambda>gc.
     obind (garbage_from W can_append finalizers gc) (\<lambda>_.
       on_heads (gc_list_merge W finalizers old)))"

end
