(* ===== verification/PyGcBits.thy ===== *)
theory PyGcBits
  imports PyGc
begin

unbundle bit_operations_syntax

text \<open>
  The two words of a head, read as a link with flags: what each access of the collector does to
  the next pointer and its flag, the previous pointer or the count, and the flags of \<open>gc_prev\<close>.
\<close>

section \<open>Bits of aligned pointers\<close>

definition aligned :: "addr \<Rightarrow> bool" where
  "aligned p \<longleftrightarrow> p AND 3 = 0"

lemma bit_3: "bit (3 :: addr) n \<longleftrightarrow> n < 2"
proof -
  have e: "(3 :: addr) = mask 2" by (simp add: mask_eq_exp_minus_1)
  show ?thesis unfolding e by (auto simp only: bit_mask_iff possible_bit_word) (auto simp: possible_bit_word)
qed

lemma aligned_bit: "aligned p \<Longrightarrow> n < 2 \<Longrightarrow> \<not> bit p n"
proof -
  assume "aligned p" "n < 2"
  then have "\<not> bit (p AND 3) n" by (simp add: aligned_def)
  moreover have "bit (3 :: addr) n" unfolding bit_3 by (rule \<open>n < 2\<close>)
  ultimately show ?thesis unfolding bit_and_iff by blast
qed

lemma aligned_ge: "aligned p \<Longrightarrow> bit p n \<Longrightarrow> 2 \<le> n"
  using aligned_bit [of p n] by linarith

lemma bit_masks:
  "bit PREV_MASK n \<longleftrightarrow> 2 \<le> n \<and> n < 64"
  "bit PREV_MASK_COLLECTING n \<longleftrightarrow> n = 1"
  "bit PREV_MASK_FINALIZED n \<longleftrightarrow> n = 0"
  "bit NEXT_MASK_UNREACHABLE n \<longleftrightarrow> n = 0"
proof -
  have two: "(2 :: addr) = push_bit 1 1" by simp
  show "bit PREV_MASK n \<longleftrightarrow> 2 \<le> n \<and> n < 64"
    by (simp only: PREV_MASK_def PREV_SHIFT_def bit_push_bit_iff bit_minus_1_iff possible_bit_word) auto
  show "bit PREV_MASK_COLLECTING n \<longleftrightarrow> n = 1"
    unfolding PREV_MASK_COLLECTING_def two bit_push_bit_iff bit_1_iff possible_bit_word by auto
  show "bit PREV_MASK_FINALIZED n \<longleftrightarrow> n = 0" by (simp add: PREV_MASK_FINALIZED_def bit_1_iff)
  show "bit NEXT_MASK_UNREACHABLE n \<longleftrightarrow> n = 0" by (simp add: NEXT_MASK_UNREACHABLE_def bit_1_iff)
qed

lemma and_bit_mask:
  fixes v m :: addr
  assumes "\<And>i. bit m i \<longleftrightarrow> i = k"
  shows "v AND m = 0 \<longleftrightarrow> \<not> bit v k"
proof
  assume z: "v AND m = 0"
  have "bit (v AND m) k \<longleftrightarrow> bit v k" by (simp add: bit_and_iff assms)
  then show "\<not> bit v k" using z by simp
next
  assume "\<not> bit v k"
  then show "v AND m = 0" by (intro bit_eqI) (auto simp: bit_and_iff assms)
qed

lemmas and_collecting = and_bit_mask [of PREV_MASK_COLLECTING 1, OF bit_masks(2)]
lemmas and_finalized = and_bit_mask [of PREV_MASK_FINALIZED 0, OF bit_masks(3)]
lemmas and_unreachable = and_bit_mask [of NEXT_MASK_UNREACHABLE 0, OF bit_masks(4)]

lemma and_collecting_cases: "v AND PREV_MASK_COLLECTING = (if bit v 1 then PREV_MASK_COLLECTING else 0)"
  by (rule bit_eqI) (auto simp: bit_and_iff bit_masks)

lemma and_unreachable_cases: "v AND NEXT_MASK_UNREACHABLE = (if bit v 0 then NEXT_MASK_UNREACHABLE else 0)"
  by (rule bit_eqI) (auto simp: bit_and_iff bit_masks intro: gr0I)

lemma masks_nonzero [simp]: "PREV_MASK_COLLECTING \<noteq> 0" "NEXT_MASK_UNREACHABLE \<noteq> 0"
  by (simp_all add: PREV_MASK_COLLECTING_def NEXT_MASK_UNREACHABLE_def)

lemma aligned_and_not_mask: "aligned p \<Longrightarrow> p AND NOT PREV_MASK = 0"
  by (rule bit_eqI) (auto simp: bit_and_iff bit_not_iff bit_masks dest: aligned_ge)

lemma aligned_or_mask: "aligned p \<Longrightarrow> ((v AND NOT PREV_MASK) OR p) AND PREV_MASK = p"
  by (rule bit_eqI) (auto simp: bit_and_iff bit_or_iff bit_not_iff bit_masks dest: aligned_ge)

lemma aligned_mask: "aligned p \<Longrightarrow> p AND PREV_MASK = p"
  by (rule bit_eqI) (auto simp: bit_and_iff bit_masks dest: aligned_ge bit_imp_le_length)

lemma aligned_and_not_1: "aligned p \<Longrightarrow> p AND NOT NEXT_MASK_UNREACHABLE = p"
  by (rule bit_eqI) (auto simp: bit_and_iff bit_not_iff bit_masks dest: aligned_ge bit_imp_le_length)

lemma aligned_or_1: "aligned p \<Longrightarrow> (NEXT_MASK_UNREACHABLE OR p) AND NOT NEXT_MASK_UNREACHABLE = p"
  by (rule bit_eqI) (auto simp: bit_and_iff bit_or_iff bit_not_iff bit_masks dest: aligned_ge bit_imp_le_length)

lemma bit_or_1: "bit (NEXT_MASK_UNREACHABLE OR p) 0"
  by (simp add: bit_or_iff bit_masks)

lemma or_1_inject:
  assumes "aligned p" and "aligned q" and "NEXT_MASK_UNREACHABLE OR p = NEXT_MASK_UNREACHABLE OR q"
  shows "p = q"
  by (metis aligned_or_1 assms)

section \<open>Counts\<close>

definition refs_of :: "addr \<Rightarrow> int" where
  "refs_of v = uint (drop_bit PREV_SHIFT v)"

lemma refs_of_nonneg [simp]: "0 \<le> refs_of v"
  by (simp add: refs_of_def)

lemma refs_of_div: "refs_of v = uint v div 4"
  by (simp add: refs_of_def PREV_SHIFT_def drop_bit_eq_div uint_div)

lemma sint_refs: "sint (drop_bit PREV_SHIFT (v :: addr)) = refs_of v"
proof -
  have "uint v < 2 ^ 64" using uint_lt2p [of v] by simp
  then have "refs_of v < 2 ^ 62" by (simp add: refs_of_div)
  moreover have "- (2 ^ 63) \<le> refs_of v" by (rule order_trans [OF _ refs_of_nonneg]) simp
  ultimately have "signed_take_bit 63 (refs_of v) = refs_of v"
    by (intro signed_take_bit_int_eq_self) simp_all
  then show ?thesis by (simp add: sint_uint refs_of_def)
qed

lemma uint_push_refs:
  assumes "0 \<le> r" and "r < 2 ^ 61"
  shows "uint (push_bit PREV_SHIFT (word_of_int r) :: addr) = 4 * r"
proof -
  have "push_bit PREV_SHIFT (word_of_int r) = (word_of_int (4 * r) :: addr)"
    by (simp add: PREV_SHIFT_def push_bit_eq_mult)
  moreover have "uint (word_of_int (4 * r) :: addr) = 4 * r"
    unfolding uint_word_of_int using assms by (intro mod_pos_pos_trivial) simp_all
  ultimately show ?thesis by simp
qed

lemma bit_push_refs: "bit (push_bit PREV_SHIFT w :: addr) n \<longleftrightarrow> 2 \<le> n \<and> n < 64 \<and> bit w (n - 2)"
  by (auto simp: PREV_SHIFT_def bit_push_bit_iff not_le)

lemma refs_of_or:
  assumes "\<And>n. bit u n \<Longrightarrow> n < 2" and "0 \<le> r" and "r < 2 ^ 61"
  shows "refs_of (u OR push_bit PREV_SHIFT (word_of_int r)) = r"
proof -
  have "drop_bit PREV_SHIFT (u OR push_bit PREV_SHIFT (word_of_int r)) = drop_bit PREV_SHIFT (push_bit PREV_SHIFT (word_of_int r) :: addr)"
    using assms(1) by (intro bit_eqI) (fastforce simp: bit_drop_bit_eq bit_or_iff PREV_SHIFT_def)
  then have "refs_of (u OR push_bit PREV_SHIFT (word_of_int r)) = refs_of (push_bit PREV_SHIFT (word_of_int r))"
    by (simp add: refs_of_def)
  then show ?thesis using uint_push_refs [OF assms(2,3)] by (simp add: refs_of_div)
qed

lemma uint_minus_4:
  assumes "refs_of v > 0"
  shows "uint (v - push_bit PREV_SHIFT 1) = uint v - 4"
proof -
  have "4 \<le> uint v" using assms by (simp add: refs_of_div)
  moreover have "push_bit PREV_SHIFT 1 = (4 :: addr)" by (simp add: PREV_SHIFT_def push_bit_eq_mult)
  ultimately show ?thesis using uint_sub_lem [of "4 :: addr" v] by simp
qed

lemma refs_of_minus: "refs_of v > 0 \<Longrightarrow> refs_of (v - push_bit PREV_SHIFT 1) = refs_of v - 1"
  using uint_minus_4 [of v] by (simp add: refs_of_div)

lemma bit_minus_4:
  assumes "refs_of v > 0" and "n < 2"
  shows "bit (v - push_bit PREV_SHIFT 1) n \<longleftrightarrow> bit v n"
proof -
  have n: "n = 0 \<or> n = 1" using assms(2) by auto
  have "bit w n \<longleftrightarrow> odd (uint w div 2 ^ n)" for w :: addr
    by (metis bit_iff_odd bit_uint_iff bit_imp_le_length uint_lt2p)
  moreover have "(uint v - 4) div 2 ^ n = uint v div 2 ^ n - 4 div 2 ^ n"
    using n by auto
  moreover have "even ((4 :: int) div 2 ^ n)" using n by auto
  ultimately show ?thesis using uint_minus_4 [OF assms(1)] by simp
qed

section \<open>Views of a head\<close>

definition nx :: "gc_store \<Rightarrow> addr \<Rightarrow> addr" where "nx s g = gc_next (s g)"
definition prv :: "gc_store \<Rightarrow> addr \<Rightarrow> addr" where "prv s g = gc_prev (s g) AND PREV_MASK"
definition coll :: "gc_store \<Rightarrow> addr \<Rightarrow> bool" where "coll s g = bit (gc_prev (s g)) 1"
definition fin :: "gc_store \<Rightarrow> addr \<Rightarrow> bool" where "fin s g = bit (gc_prev (s g)) 0"
definition rfs :: "gc_store \<Rightarrow> addr \<Rightarrow> int" where "rfs s g = refs_of (gc_prev (s g))"

abbreviation flagged :: "addr \<Rightarrow> addr" where "flagged p \<equiv> NEXT_MASK_UNREACHABLE OR p"

definition set_nx :: "addr \<Rightarrow> addr \<Rightarrow> gc_store \<Rightarrow> gc_store" where
  "set_nx g x s = s(g := (s g)\<lparr>gc_next := x\<rparr>)"

definition set_raw :: "addr \<Rightarrow> addr \<Rightarrow> gc_store \<Rightarrow> gc_store" where
  "set_raw g x s = s(g := (s g)\<lparr>gc_prev := x\<rparr>)"

definition set_prv :: "addr \<Rightarrow> addr \<Rightarrow> gc_store \<Rightarrow> gc_store" where
  "set_prv g p s = s(g := (s g)\<lparr>gc_prev := (gc_prev (s g) AND NOT PREV_MASK) OR p\<rparr>)"

definition clr_coll :: "addr \<Rightarrow> gc_store \<Rightarrow> gc_store" where
  "clr_coll g s = s(g := (s g)\<lparr>gc_prev := gc_prev (s g) AND NOT PREV_MASK_COLLECTING\<rparr>)"

definition set_rfs :: "addr \<Rightarrow> int \<Rightarrow> gc_store \<Rightarrow> gc_store" where
  "set_rfs g r s = s(g := (s g)\<lparr>gc_prev := (gc_prev (s g) AND NOT PREV_MASK) OR push_bit PREV_SHIFT (word_of_int r)\<rparr>)"

definition reset_rfs :: "addr \<Rightarrow> int \<Rightarrow> gc_store \<Rightarrow> gc_store" where
  "reset_rfs g r s = s(g := (s g)\<lparr>gc_prev :=
     ((gc_prev (s g) AND PREV_MASK_FINALIZED) OR PREV_MASK_COLLECTING) OR push_bit PREV_SHIFT (word_of_int r)\<rparr>)"

definition dec_rfs :: "addr \<Rightarrow> gc_store \<Rightarrow> gc_store" where
  "dec_rfs g s = s(g := (s g)\<lparr>gc_prev := gc_prev (s g) - push_bit PREV_SHIFT 1\<rparr>)"

lemmas view_defs = nx_def prv_def coll_def fin_def rfs_def
lemmas set_defs = set_nx_def set_raw_def set_prv_def clr_coll_def set_rfs_def reset_rfs_def dec_rfs_def

lemma nx_sets [simp]:
  "nx (set_nx g x s) y = (if y = g then x else nx s y)"
  "nx (set_raw g x s) y = nx s y" "nx (set_prv g x s) y = nx s y" "nx (clr_coll g s) y = nx s y"
  "nx (set_rfs g r s) y = nx s y" "nx (reset_rfs g r s) y = nx s y" "nx (dec_rfs g s) y = nx s y"
  by (simp_all add: view_defs set_defs)

lemma set_nx_views [simp]:
  "prv (set_nx g x s) y = prv s y" "coll (set_nx g x s) y = coll s y"
  "fin (set_nx g x s) y = fin s y" "rfs (set_nx g x s) y = rfs s y"
  by (simp_all add: view_defs set_defs)

lemma set_raw_views [simp]:
  "aligned x \<Longrightarrow> prv (set_raw g x s) y = (if y = g then x else prv s y)"
  "aligned x \<Longrightarrow> coll (set_raw g x s) y \<longleftrightarrow> y \<noteq> g \<and> coll s y"
  "aligned x \<Longrightarrow> fin (set_raw g x s) y \<longleftrightarrow> y \<noteq> g \<and> fin s y"
  "y \<noteq> g \<Longrightarrow> rfs (set_raw g x s) y = rfs s y"
  by (simp_all add: view_defs set_defs aligned_mask aligned_bit)

lemma set_prv_views [simp]:
  "aligned x \<Longrightarrow> prv (set_prv g x s) y = (if y = g then x else prv s y)"
  "aligned x \<Longrightarrow> coll (set_prv g x s) y = coll s y"
  "aligned x \<Longrightarrow> fin (set_prv g x s) y = fin s y"
  "y \<noteq> g \<Longrightarrow> rfs (set_prv g x s) y = rfs s y"
  by (simp_all add: view_defs set_defs aligned_or_mask bit_or_iff bit_and_iff bit_not_iff bit_masks aligned_bit)

lemma clr_coll_views [simp]:
  "prv (clr_coll g s) y = prv s y"
  "coll (clr_coll g s) y \<longleftrightarrow> y \<noteq> g \<and> coll s y"
  "fin (clr_coll g s) y = fin s y"
  "rfs (clr_coll g s) y = rfs s y"
proof -
  show "prv (clr_coll g s) y = prv s y"
    unfolding view_defs set_defs by (rule bit_eqI) (auto simp: bit_and_iff bit_not_iff bit_masks)
  show "coll (clr_coll g s) y \<longleftrightarrow> y \<noteq> g \<and> coll s y" "fin (clr_coll g s) y = fin s y"
    by (auto simp: view_defs set_defs bit_and_iff bit_not_iff bit_masks)
  have "drop_bit PREV_SHIFT (v AND NOT PREV_MASK_COLLECTING) = drop_bit PREV_SHIFT v" for v :: addr
    by (rule bit_eqI) (auto simp: bit_and_iff bit_not_iff bit_masks bit_drop_bit_eq PREV_SHIFT_def dest: bit_imp_le_length)
  then show "rfs (clr_coll g s) y = rfs s y" by (simp add: view_defs set_defs refs_of_def)
qed

lemma set_rfs_views [simp]:
  "0 \<le> r \<Longrightarrow> r < 2 ^ 61 \<Longrightarrow> rfs (set_rfs g r s) y = (if y = g then r else rfs s y)"
  "y \<noteq> g \<Longrightarrow> prv (set_rfs g r s) y = prv s y"
  "coll (set_rfs g r s) y = coll s y"
  "fin (set_rfs g r s) y = fin s y"
proof -
  have low: "bit (v AND NOT PREV_MASK) n \<Longrightarrow> n < 2" for v n
    by (auto simp: bit_and_iff bit_not_iff bit_masks dest: bit_imp_le_length)
  show "0 \<le> r \<Longrightarrow> r < 2 ^ 61 \<Longrightarrow> rfs (set_rfs g r s) y = (if y = g then r else rfs s y)"
    using refs_of_or [OF low] by (simp add: view_defs set_defs)
qed (simp_all add: view_defs set_defs bit_and_iff bit_or_iff bit_not_iff bit_masks bit_push_refs)

lemma reset_rfs_views [simp]:
  "0 \<le> r \<Longrightarrow> r < 2 ^ 61 \<Longrightarrow> rfs (reset_rfs g r s) y = (if y = g then r else rfs s y)"
  "y \<noteq> g \<Longrightarrow> prv (reset_rfs g r s) y = prv s y"
  "coll (reset_rfs g r s) y \<longleftrightarrow> y = g \<or> coll s y"
  "fin (reset_rfs g r s) y = fin s y"
proof -
  have low: "bit ((v AND PREV_MASK_FINALIZED) OR PREV_MASK_COLLECTING) n \<Longrightarrow> n < 2" for v n
    by (auto simp: bit_and_iff bit_or_iff bit_masks)
  show "0 \<le> r \<Longrightarrow> r < 2 ^ 61 \<Longrightarrow> rfs (reset_rfs g r s) y = (if y = g then r else rfs s y)"
    using refs_of_or [OF low] by (simp add: view_defs set_defs)
qed (simp_all add: view_defs set_defs bit_and_iff bit_or_iff bit_not_iff bit_masks bit_push_refs)

lemma dec_rfs_views [simp]:
  "rfs s g > 0 \<Longrightarrow> rfs (dec_rfs g s) y = (if y = g then rfs s g - 1 else rfs s y)"
  "y \<noteq> g \<Longrightarrow> prv (dec_rfs g s) y = prv s y"
  "rfs s g > 0 \<Longrightarrow> coll (dec_rfs g s) y = coll s y"
  "rfs s g > 0 \<Longrightarrow> fin (dec_rfs g s) y = fin s y"
  by (simp_all add: view_defs set_defs refs_of_minus bit_minus_4 del: push_bit_of_1)

lemma rfs_nonneg [simp]: "0 \<le> rfs s g"
  by (simp add: rfs_def)

text \<open>A head of a list keeps no flags in \<open>gc_prev\<close>, so that its word is the pointer.\<close>

definition clean :: "gc_store \<Rightarrow> addr \<Rightarrow> bool" where
  "clean s g \<longleftrightarrow> \<not> coll s g \<and> \<not> fin s g"

lemma clean_raw: "clean s g \<Longrightarrow> gc_prev (s g) = prv s g"
proof -
  assume c: "clean s g"
  have "2 \<le> n" if "bit (gc_prev (s g)) n" for n
  proof (rule ccontr)
    assume "\<not> 2 \<le> n"
    then have "n = 0 \<or> n = 1" by auto
    then show False using that c by (auto simp: clean_def view_defs)
  qed
  then show ?thesis unfolding prv_def by (intro bit_eqI) (auto simp: bit_and_iff bit_masks)
qed

section \<open>Rules of the accesses\<close>

definition heads_ok :: "gc_world \<Rightarrow> bool" where
  "heads_ok W \<longleftrightarrow> (\<forall>g. gc_heap W g \<longrightarrow> aligned g \<and> g \<noteq> 0)"

lemma heads_okD: "heads_ok W \<Longrightarrow> gc_heap W g \<Longrightarrow> aligned g" "heads_ok W \<Longrightarrow> gc_heap W g \<Longrightarrow> g \<noteq> 0"
  by (auto simp: heads_ok_def)

lemma owp_gc_read [simp]: "owp d (gc_read W g f) Q E s = (if gc_heap W g then Q (f (s g)) s else E AssertionFailed s)"
  by (simp add: gc_read_def)

lemma owp_gc_write [simp]:
  "owp d (gc_write W g f) Q E s = (if gc_heap W g then Q () (s(g := f (s g))) else E AssertionFailed s)"
  by (simp add: gc_write_def)

lemma owp_GC_NEXT [simp]: "owp d (GC_NEXT W g) Q E s = (if gc_heap W g then Q (nx s g) s else E AssertionFailed s)"
  by (simp add: GC_NEXT_def nx_def)

lemma owp_GC_PREV [simp]: "owp d (GC_PREV W g) Q E s = (if gc_heap W g then Q (prv s g) s else E AssertionFailed s)"
  by (simp add: GC_PREV_def prv_def)

lemma owp_write_next [simp]:
  "owp d (write_next W g x) Q E s = (if gc_heap W g then Q () (set_nx g x s) else E AssertionFailed s)"
  by (simp add: write_next_def set_nx_def)

lemma owp_write_prev [simp]:
  "owp d (write_prev W g x) Q E s = (if gc_heap W g then Q () (set_raw g x s) else E AssertionFailed s)"
  by (simp add: write_prev_def set_raw_def)

lemma owp_SET_NEXT [simp]:
  "owp d (SET_NEXT W g x) Q E s = (if gc_heap W g then Q () (set_nx g x s) else E AssertionFailed s)"
  by (simp add: SET_NEXT_def)

lemma owp_SET_PREV [simp]:
  "aligned x \<Longrightarrow> owp d (SET_PREV W g x) Q E s = (if gc_heap W g then Q () (set_prv g x s) else E AssertionFailed s)"
  by (simp add: SET_PREV_def set_prv_def aligned_and_not_mask)

lemma owp_gc_is_collecting [simp]:
  "owp d (gc_is_collecting W g) Q E s = (if gc_heap W g then Q (coll s g) s else E AssertionFailed s)"
  by (simp add: gc_is_collecting_def coll_def and_collecting)

lemma owp_gc_clear_collecting [simp]:
  "owp d (gc_clear_collecting W g) Q E s = (if gc_heap W g then Q () (clr_coll g s) else E AssertionFailed s)"
  by (simp add: gc_clear_collecting_def clr_coll_def)

lemma owp_gc_get_refs [simp]:
  "owp d (gc_get_refs W g) Q E s = (if gc_heap W g then Q (rfs s g) s else E AssertionFailed s)"
  by (simp add: gc_get_refs_def sint_refs rfs_def)

lemma owp_gc_set_refs [simp]:
  "owp d (gc_set_refs W g r) Q E s = (if gc_heap W g then Q () (set_rfs g r s) else E AssertionFailed s)"
  by (simp add: gc_set_refs_def set_rfs_def)

lemma owp_gc_reset_refs [simp]:
  "owp d (gc_reset_refs W g r) Q E s = (if gc_heap W g then Q () (reset_rfs g r s) else E AssertionFailed s)"
  by (simp add: gc_reset_refs_def reset_rfs_def)

lemma owp_gc_decref [simp]:
  "owp d (gc_decref W g) Q E s =
     (if gc_heap W g \<and> rfs s g > 0 then Q () (dec_rfs g s) else E AssertionFailed s)"
  by (simp add: gc_decref_def dec_rfs_def)

lemma owp_read_next [simp]:
  "owp d (gc_read W g gc_next) Q E s = (if gc_heap W g then Q (nx s g) s else E AssertionFailed s)"
  by (simp add: nx_def)

lemma owp_read_prev:
  "clean s g \<Longrightarrow> owp d (gc_read W g gc_prev) Q E s = (if gc_heap W g then Q (prv s g) s else E AssertionFailed s)"
  by (simp add: clean_raw)

end
