(* ===== verification/PyGcLists.thy ===== *)
theory PyGcLists
  imports PyGcBits
begin

unbundle bit_operations_syntax

text \<open>
  The circular lists of heads: \<open>gc_list W s ls xs\<close> says that the list of head \<open>ls\<close> has the elements
  \<open>xs\<close>, in order, linked both ways. Each list operation has its effect on the elements and leaves
  the flags and every other head alone.
\<close>

section \<open>Linked segments\<close>

definition dlink :: "gc_store \<Rightarrow> addr \<Rightarrow> addr \<Rightarrow> bool" where
  "dlink s a b \<longleftrightarrow> nx s a = b \<and> prv s b = a"

definition seg :: "gc_store \<Rightarrow> addr list \<Rightarrow> bool" where
  "seg s xs \<longleftrightarrow> successively (dlink s) xs"

lemma seg_simps [simp]:
  "seg s []" "seg s [a]" "seg s (a # b # xs) \<longleftrightarrow> dlink s a b \<and> seg s (b # xs)"
  by (simp_all add: seg_def)

lemma last_notin_butlast: "distinct xs \<Longrightarrow> xs \<noteq> [] \<Longrightarrow> last xs \<notin> set (butlast xs)"
  by (induction xs rule: rev_induct) auto

lemma seg_append:
  "seg s (xs @ ys) \<longleftrightarrow> seg s xs \<and> seg s ys \<and> (xs \<noteq> [] \<longrightarrow> ys \<noteq> [] \<longrightarrow> dlink s (last xs) (hd ys))"
  by (auto simp: seg_def successively_append_iff)

lemma seg_cong:
  assumes "seg s xs" and "\<And>x. x \<in> set (butlast xs) \<Longrightarrow> nx t x = nx s x"
    and "\<And>y. y \<in> set (tl xs) \<Longrightarrow> prv t y = prv s y"
  shows "seg t xs"
  using assms
proof (induction xs rule: induct_list012)
  case (3 a b xs)
  have "seg t (b # xs)"
  proof (rule "3.IH"(2))
    show "seg s (b # xs)" using "3.prems"(1) by simp
    show "nx t x = nx s x" if "x \<in> set (butlast (b # xs))" for x using "3.prems"(2) that by simp
    show "prv t y = prv s y" if "y \<in> set (tl (b # xs))" for y using "3.prems"(3) that by simp
  qed
  then show ?case using "3.prems" by (simp add: dlink_def)
qed simp_all

definition gc_list :: "gc_world \<Rightarrow> gc_store \<Rightarrow> addr \<Rightarrow> addr list \<Rightarrow> bool" where
  "gc_list W s ls xs \<longleftrightarrow>
     seg s (ls # xs) \<and> dlink s (last (ls # xs)) ls \<and> distinct (ls # xs)
     \<and> (\<forall>g \<in> set (ls # xs). gc_heap W g) \<and> clean s ls"

lemma gc_listD:
  assumes "gc_list W s ls xs"
  shows "seg s (ls # xs)" "dlink s (last (ls # xs)) ls" "distinct (ls # xs)"
    "g \<in> set (ls # xs) \<Longrightarrow> gc_heap W g" "clean s ls"
  using assms by (auto simp: gc_list_def)

lemma gc_list_heap: "gc_list W s ls xs \<Longrightarrow> gc_heap W ls" "gc_list W s ls xs \<Longrightarrow> g \<in> set xs \<Longrightarrow> gc_heap W g"
  by (simp_all add: gc_list_def)

lemma gc_list_last_heap: "gc_list W s ls xs \<Longrightarrow> gc_heap W (last (ls # xs))"
  by (rule gc_listD(4), assumption, rule last_in_set) simp

lemma gc_list_nx_last: "gc_list W s ls xs \<Longrightarrow> nx s (last (ls # xs)) = ls"
  and gc_list_prv: "gc_list W s ls xs \<Longrightarrow> prv s ls = last (ls # xs)"
  by (simp_all add: gc_list_def dlink_def)

lemma gc_list_hd: "gc_list W s ls xs \<Longrightarrow> nx s ls = hd (xs @ [ls])"
  by (cases xs) (auto simp: gc_list_def dlink_def)

lemma gc_list_mid:
  assumes "gc_list W s ls (xs @ x # ys)"
  shows "prv s x = last (ls # xs)" "nx s x = hd (ys @ [ls])"
proof -
  have s: "seg s ((ls # xs) @ x # ys)" and e: "dlink s (last (ls # xs @ x # ys)) ls"
    using assms by (simp_all add: gc_list_def)
  show "prv s x = last (ls # xs)" using s by (subst (asm) seg_append) (simp add: dlink_def)
  have "seg s (x # ys)" using s by (subst (asm) seg_append) simp
  then show "nx s x = hd (ys @ [ls])" using e by (cases ys) (auto simp: dlink_def)
qed

lemma gc_list_cong:
  assumes "gc_list W s ls xs" and "\<And>g. g \<in> set (ls # xs) \<Longrightarrow> nx t g = nx s g"
    and "\<And>g. g \<in> set (ls # xs) \<Longrightarrow> prv t g = prv s g" and "clean t ls"
  shows "gc_list W t ls xs"
proof -
  have "seg t (ls # xs)"
    using gc_listD(1) [OF assms(1)]
    by (rule seg_cong) (use assms(2,3) in \<open>auto dest: in_set_butlastD simp del: butlast.simps\<close>)
  moreover have "dlink t (last (ls # xs)) ls"
    using gc_listD(2) [OF assms(1)] assms(2,3) last_in_set [of "ls # xs"] by (simp add: dlink_def)
  ultimately show ?thesis using assms(1,4) by (simp add: gc_list_def)
qed

lemma gc_list_frame:
  "gc_list W s ls xs \<Longrightarrow> (\<And>g. g \<in> set (ls # xs) \<Longrightarrow> t g = s g) \<Longrightarrow> gc_list W t ls xs"
  by (rule gc_list_cong) (auto simp: view_defs gc_list_def clean_def)

lemma set_other [simp]:
  "y \<noteq> g \<Longrightarrow> set_nx g x s y = s y" "y \<noteq> g \<Longrightarrow> set_raw g x s y = s y"
  "y \<noteq> g \<Longrightarrow> set_prv g x s y = s y" "y \<noteq> g \<Longrightarrow> clr_coll g s y = s y"
  "y \<noteq> g \<Longrightarrow> set_rfs g r s y = s y" "y \<noteq> g \<Longrightarrow> reset_rfs g r s y = s y"
  "y \<noteq> g \<Longrightarrow> dec_rfs g s y = s y"
  by (simp_all add: set_defs)

lemma clean_sets [simp]:
  "clean (set_nx g x s) y = clean s y"
  "aligned x \<Longrightarrow> clean (set_prv g x s) y = clean s y"
  "clean (set_rfs g r s) y = clean s y"
  "aligned x \<Longrightarrow> clean (set_raw g x s) y \<longleftrightarrow> y = g \<or> clean s y"
  by (auto simp: clean_def)

section \<open>Linking and unlinking\<close>

lemma gc_list_linked:
  assumes l: "gc_list W s ls xs" and n: "gc_heap W node" "node \<notin> set (ls # xs)"
    and t: "nx t (last (ls # xs)) = node" "prv t node = last (ls # xs)" "nx t node = ls" "prv t ls = node" "clean t ls"
    and f: "\<And>y. y \<in> set (ls # xs) \<Longrightarrow> y \<noteq> last (ls # xs) \<Longrightarrow> nx t y = nx s y" "\<And>y. y \<in> set xs \<Longrightarrow> prv t y = prv s y"
  shows "gc_list W t ls (xs @ [node])"
proof -
  have d: "distinct (ls # xs)" using l by (rule gc_listD)
  have "seg t (ls # xs)"
  proof (rule seg_cong [OF gc_listD(1) [OF l]])
    fix x assume x: "x \<in> set (butlast (ls # xs))"
    have "last (ls # xs) \<notin> set (butlast (ls # xs))"
      using d by (intro last_notin_butlast) auto
    then show "nx t x = nx s x" using x by (intro f) (auto dest: in_set_butlastD simp del: butlast.simps)
  qed (use f(2) in simp)
  then have "seg t ((ls # xs) @ [node])" using t by (subst seg_append) (simp add: dlink_def)
  then show ?thesis using t n gc_listD(4) [OF l] d by (auto simp: gc_list_def dlink_def)
qed

lemma gc_list_unlinked:
  assumes l: "gc_list W s ls (xs @ node # ys)"
    and t: "nx t (last (ls # xs)) = hd (ys @ [ls])" "prv t (hd (ys @ [ls])) = last (ls # xs)" "clean t ls"
    and f: "\<And>y. y \<in> set (ls # xs @ ys) \<Longrightarrow> y \<noteq> last (ls # xs) \<Longrightarrow> nx t y = nx s y"
      "\<And>y. y \<in> set (ls # xs @ ys) \<Longrightarrow> y \<noteq> hd (ys @ [ls]) \<Longrightarrow> prv t y = prv s y"
  shows "gc_list W t ls (xs @ ys)"
proof -
  have d: "distinct ((ls # xs) @ node # ys)" and h: "\<forall>g \<in> set (ls # xs @ node # ys). gc_heap W g"
    using l by (simp_all add: gc_list_def)
  have s: "seg s ((ls # xs) @ [node] @ ys)" using l by (simp add: gc_list_def)
  have s1: "seg s (ls # xs)" and s2: "seg s ys" using s by (auto simp only: seg_append)
  have nl: "last (ls # xs) \<notin> set (butlast (ls # xs))"
    using d by (intro last_notin_butlast) auto
  have nh: "hd (ys @ [ls]) \<notin> set xs" using d by (cases ys) auto
  have t1: "seg t (ls # xs)"
  proof (rule seg_cong [OF s1])
    fix x assume x: "x \<in> set (butlast (ls # xs))"
    then show "nx t x = nx s x" using nl by (intro f) (auto dest: in_set_butlastD simp del: butlast.simps)
  next
    fix y assume "y \<in> set (tl (ls # xs))"
    then show "prv t y = prv s y" using nh by (intro f) auto
  qed
  have lnot: "last (ls # xs) \<notin> set ys"
    using d last_in_set [of "ls # xs"] by (metis distinct_append disjoint_iff list.distinct(1) list.set_intros(2))
  have t2: "seg t ys"
  proof (rule seg_cong [OF s2])
    fix x assume x: "x \<in> set (butlast ys)"
    then have "x \<in> set ys" by (rule in_set_butlastD)
    then show "nx t x = nx s x" using lnot by (intro f) auto
  next
    fix y assume "y \<in> set (tl ys)"
    then show "prv t y = prv s y" using d by (intro f) (cases ys; auto)+
  qed
  have "seg t ((ls # xs) @ ys)" using t1 t2 t by (subst seg_append) (cases ys; simp add: dlink_def)
  moreover have "dlink t (last (ls # xs @ ys)) ls"
  proof (cases "ys = []")
    case True
    then show ?thesis using t by (simp add: dlink_def)
  next
    case False
    then have "dlink s (last ys) ls" using l by (simp add: gc_list_def)
    moreover have "last ys \<noteq> last (ls # xs)" using lnot False last_in_set by metis
    moreover have "ls \<noteq> hd (ys @ [ls])" using False d by (cases ys) auto
    ultimately show ?thesis using False f(1) [of "last ys"] f(2) [of ls] by (simp add: dlink_def)
  qed
  ultimately show ?thesis using d h t(3) by (auto simp: gc_list_def)
qed

section \<open>Following the next pointers, and lists with flags\<close>

primrec nchain :: "gc_store \<Rightarrow> addr list \<Rightarrow> addr \<Rightarrow> bool" where
  "nchain s [] e \<longleftrightarrow> True"
| "nchain s (x # xs) e \<longleftrightarrow> nx s x = hd (xs @ [e]) \<and> nchain s xs e"

lemma nchain_append: "nchain s (xs @ ys) e \<longleftrightarrow> nchain s xs (hd (ys @ [e])) \<and> nchain s ys e"
  by (induction xs) (auto simp: hd_append)

lemma nchain_cong: "nchain s xs e \<Longrightarrow> (\<And>x. x \<in> set xs \<Longrightarrow> nx t x = nx s x) \<Longrightarrow> nchain t xs e"
  by (induction xs) auto

lemma seg_nchain: "seg s xs \<Longrightarrow> xs \<noteq> [] \<Longrightarrow> nx s (last xs) = e \<Longrightarrow> nchain s xs e"
  by (induction xs rule: induct_list012) (auto simp: dlink_def)

lemma gc_list_nchain: "gc_list W s ls xs \<Longrightarrow> nchain s (ls # xs) ls"
  by (rule seg_nchain [OF gc_listD(1)]) (auto simp: gc_list_nx_last simp del: last.simps)

text \<open>The store without the flags of the next pointers.\<close>

definition unflag :: "gc_store \<Rightarrow> gc_store" where
  "unflag s = (\<lambda>g. (s g)\<lparr>gc_next := gc_next (s g) AND NOT NEXT_MASK_UNREACHABLE\<rparr>)"

lemma unflag_views [simp]:
  "nx (unflag s) g = nx s g AND NOT NEXT_MASK_UNREACHABLE"
  "prv (unflag s) g = prv s g" "coll (unflag s) g = coll s g" "fin (unflag s) g = fin s g"
  "rfs (unflag s) g = rfs s g" "clean (unflag s) g = clean s g"
  by (simp_all add: unflag_def view_defs clean_def)

lemma gc_list_in_heap:
  assumes "gc_list W s ls xs" and "g \<in> set (ls # xs)"
  shows "gc_heap W (nx s g)"
proof -
  obtain p q where s: "ls # xs = p @ g # q" using assms(2) by (meson split_list)
  then have "nx s g = hd (q @ [ls])" using gc_list_nchain [OF assms(1)] by (simp add: nchain_append)
  moreover have "hd (q @ [ls]) \<in> set (q @ [ls])" by (rule hd_in_set) simp
  moreover have "set q \<subseteq> set (ls # xs)" unfolding s by auto
  ultimately show ?thesis using gc_listD(4) [OF assms(1), of "nx s g"] by auto
qed

lemma gc_list_aligned:
  "heads_ok W \<Longrightarrow> gc_list W s ls xs \<Longrightarrow> g \<in> set (ls # xs) \<Longrightarrow> aligned (nx s g)"
  by (rule heads_okD [OF _ gc_list_in_heap])

lemma gc_list_unflag:
  assumes "heads_ok W" and "gc_list W s ls xs"
  shows "gc_list W (unflag s) ls xs"
  using gc_list_aligned [OF assms] gc_listD(5) [OF assms(2)]
  by (intro gc_list_cong [OF assms(2)]) (simp_all add: aligned_and_not_1)

lemma no_flag_id: "\<not> bit v 0 \<Longrightarrow> v AND NOT NEXT_MASK_UNREACHABLE = (v :: addr)"
  by (intro bit_eqI) (auto simp: bit_and_iff bit_not_iff bit_masks intro!: gr0I)

lemma gc_list_of_unflag:
  assumes "gc_list W (unflag s) ls xs" and "\<And>g. g \<in> set (ls # xs) \<Longrightarrow> \<not> bit (nx s g) 0"
  shows "gc_list W s ls xs"
  using assms(2) gc_listD(5) [OF assms(1)] by (intro gc_list_cong [OF assms(1)]) (simp_all add: no_flag_id)

lemma gc_list_no_flag:
  "heads_ok W \<Longrightarrow> gc_list W s ls xs \<Longrightarrow> g \<in> set (ls # xs) \<Longrightarrow> \<not> bit (nx s g) 0"
  using gc_list_aligned [of W s ls xs g] aligned_bit [of "nx s g" 0] by auto

section \<open>The operations\<close>

lemma owp_gc_list_init:
  assumes "heads_ok W" and "gc_heap W ls"
    and "\<And>t. gc_list W t ls [] \<Longrightarrow> (\<And>y. y \<noteq> ls \<Longrightarrow> t y = s y) \<Longrightarrow> Q () t"
  shows "owp d (gc_list_init W ls) Q E s"
proof -
  have a: "aligned ls" using assms by (auto dest: heads_okD)
  have "gc_list W (set_nx ls ls (set_raw ls ls s)) ls []" using assms(2) a by (simp add: gc_list_def dlink_def)
  then show ?thesis using assms(2,3) by (simp add: gc_list_init_def)
qed

lemma owp_gc_list_is_empty [simp]:
  "owp d (gc_list_is_empty W ls) Q E s = (if gc_heap W ls then Q (nx s ls = ls) s else E AssertionFailed s)"
  by (simp add: gc_list_is_empty_def nx_def)

lemma gc_list_empty_iff: "gc_list W s ls xs \<Longrightarrow> nx s ls = ls \<longleftrightarrow> xs = []"
  using gc_list_hd [of W s ls xs] gc_listD(3) [of W s ls xs] by (cases xs) auto

lemma owp_gc_list_append:
  assumes ok: "heads_ok W" and l: "gc_list W s ls xs" and n: "gc_heap W node" "node \<notin> set (ls # xs)"
    and Q: "\<And>t. \<lbrakk>gc_list W t ls (xs @ [node]); \<And>y. coll t y = coll s y; \<And>y. fin t y = fin s y;
        \<And>y. y \<notin> {ls, last (ls # xs), node} \<Longrightarrow> t y = s y; \<And>y. y \<notin> {ls, node} \<Longrightarrow> prv t y = prv s y;
        \<And>y. y \<notin> {ls, node} \<Longrightarrow> rfs t y = rfs s y; \<And>y. y \<notin> {last (ls # xs), node} \<Longrightarrow> nx t y = nx s y\<rbrakk> \<Longrightarrow> Q () t"
  shows "owp d (gc_list_append W node ls) Q E s"
proof -
  let ?l = "last (ls # xs)"
  have hl: "gc_heap W ?l" by (rule gc_list_last_heap [OF l])
  have h: "gc_heap W ls" by (rule gc_list_heap [OF l])
  have c: "clean s ls" using l by (rule gc_listD)
  have p: "prv s ls = ?l" using l by (rule gc_list_prv)
  have al: "aligned ?l" "aligned ls" "aligned node" using ok hl h n by (auto intro: heads_okD)
  have nl: "node \<noteq> ?l" "node \<noteq> ls" using n last_in_set [of "ls # xs"] by auto
  let ?t = "set_raw ls node (set_nx node ls (set_nx ?l node (set_prv node ?l s)))"
  have "gc_list W ?t ls (xs @ [node])"
    using gc_listD(3) [OF l] nl n al c by (intro gc_list_linked [OF l n]) (auto simp: al)
  moreover have cc: "coll ?t y = coll s y" "fin ?t y = fin s y" for y using c al by (auto simp: clean_def)
  ultimately have "Q () ?t" by (rule Q) (use al in auto)
  then show ?thesis
    unfolding gc_list_append_def using h hl n(1) al c p nl by (simp add: clean_raw del: last.simps)
qed

lemma owp_gc_list_remove:
  assumes ok: "heads_ok W" and l: "gc_list W s ls (xs @ node # ys)"
    and Q: "\<And>t. \<lbrakk>gc_list W t ls (xs @ ys); nx t node = 0; \<And>y. coll t y = coll s y; \<And>y. fin t y = fin s y;
        \<And>y. y \<notin> {last (ls # xs), node, hd (ys @ [ls])} \<Longrightarrow> t y = s y\<rbrakk> \<Longrightarrow> Q () t"
  shows "owp d (gc_list_remove W node) Q E s"
proof -
  let ?p = "last (ls # xs)" and ?n = "hd (ys @ [ls])"
  have p: "prv s node = ?p" and n: "nx s node = ?n" by (rule gc_list_mid [OF l])+
  have din: "?p \<in> set (ls # xs)" "?n \<in> set (ls # ys)" by (simp, cases ys, simp_all)
  have h: "gc_heap W ?p" "gc_heap W ?n" "gc_heap W node"
    using gc_listD(4) [OF l] din by (auto simp del: last.simps)
  have al: "aligned ?p" "aligned ?n" using ok h by (auto intro: heads_okD)
  have c: "clean s ls" using l by (rule gc_listD)
  have d: "distinct (ls # xs @ node # ys)" using l by (rule gc_listD)
  have np: "node \<noteq> ?p" using d din by auto
  have nn: "node \<notin> set (ls # xs @ ys)" using d by auto
  let ?t = "set_nx node 0 (set_prv ?n ?p (set_nx ?p ?n s))"
  have "gc_list W ?t ls (xs @ ys)"
    by (rule gc_list_unlinked [OF l]) (use np al nn c in \<open>auto simp del: last.simps\<close>)
  then have "Q () ?t" by (rule Q) (use al in \<open>auto simp del: last.simps\<close>)
  then show ?thesis unfolding gc_list_remove_def using h al by (simp add: p n del: last.simps)
qed

lemma owp_gc_list_move_flagged:
  assumes ok: "heads_ok W" and l: "gc_list W (unflag s) ls1 (xs @ node # ys)" and nf: "\<not> bit (nx s node) 0"
    and l2: "gc_list W s ls zs"
    and dis: "set (ls1 # xs @ node # ys) \<inter> set (ls # zs) = {}"
    and Q: "\<And>t. \<lbrakk>gc_list W (unflag t) ls1 (xs @ ys); gc_list W t ls (zs @ [node]);
        \<And>y. y \<in> set (ls1 # xs @ ys) \<Longrightarrow> bit (nx t y) 0 \<longleftrightarrow> y \<noteq> last (ls1 # xs) \<and> bit (nx s y) 0;
        \<And>y. coll t y = coll s y; \<And>y. fin t y = fin s y;
        \<And>y. y \<notin> set (ls1 # xs @ node # ys) \<union> set (ls # zs) \<Longrightarrow> t y = s y\<rbrakk> \<Longrightarrow> Q () t"
  shows "owp d (gc_list_move W node ls) Q E s"
proof -
  let ?p = "last (ls1 # xs)" and ?n = "hd (ys @ [ls1])" and ?l = "last (ls # zs)"
  have p: "prv s node = ?p" and n: "nx s node = ?n"
    using gc_list_mid [OF l] nf by (simp_all add: no_flag_id del: last.simps)
  have din: "?p \<in> set (ls1 # xs)" "?n \<in> set (ls1 # ys)" "?l \<in> set (ls # zs)" by (simp, cases ys, simp_all)
  have h: "gc_heap W ?p" "gc_heap W ?n" "gc_heap W node" "gc_heap W ls"
    using gc_listD(4) [OF l] gc_listD(4) [OF l2] din by (auto simp del: last.simps)
  have h2: "gc_heap W ?l" by (rule gc_list_last_heap [OF l2])
  have al: "aligned ?p" "aligned ?n" "aligned node" "aligned ls" "aligned ?l" using ok h h2 by (auto intro: heads_okD)
  have c: "clean s ls1" "clean s ls" using gc_listD(5) [OF l] gc_listD(5) [OF l2] by simp_all
  have d: "distinct (ls1 # xs @ node # ys)" "distinct (ls # zs)" by (rule gc_listD [OF l], rule gc_listD [OF l2])
  have np: "node \<noteq> ?p" "node \<noteq> ?n" using d din by auto
  have nn: "node \<notin> set (ls1 # xs @ ys)" "node \<notin> set (ls # zs)" using d(1) dis by auto
  have dz: "y \<in> set (ls # zs) \<Longrightarrow> y \<notin> set (ls1 # xs @ node # ys)" for y using dis by auto
  have lsz: "ls \<in> set (ls # zs)" by simp
  have nz: "node \<noteq> ?l" "node \<noteq> ls" "?l \<noteq> ?p" "?l \<noteq> ?n" "ls \<noteq> ?p" "ls \<noteq> ?n"
    using dz [OF din(3)] dz [OF lsz] din(1,2) by auto
  let ?s = "set_prv ?n ?p (set_nx ?p ?n s)"
  let ?t = "set_nx node ls (set_raw ls node (set_nx ?l node (set_prv node ?l ?s)))"
  have a: "gc_list W (unflag ?t) ls1 (xs @ ys)"
  proof (rule gc_list_unlinked [OF l])
    show "nx (unflag ?t) ?p = ?n" "prv (unflag ?t) ?n = ?p" using nz np al by (auto simp: aligned_and_not_1 simp del: last.simps)
    show "clean (unflag ?t) ls1" using al c by (auto simp del: last.simps)
    fix y assume y: "y \<in> set (ls1 # xs @ ys)"
    then have "y \<notin> set (ls # zs)" "y \<noteq> node" using dis nn by auto
    then have ne: "y \<noteq> ls" "y \<noteq> ?l" "y \<noteq> node" using din(3) by auto
    show "nx (unflag ?t) y = nx (unflag s) y" if "y \<noteq> ?p" using ne that by (simp del: last.simps)
    show "prv (unflag ?t) y = prv (unflag s) y" if "y \<noteq> ?n" using ne that al by (simp del: last.simps)
  qed
  have b: "gc_list W ?t ls (zs @ [node])"
  proof (rule gc_list_linked [OF l2 h(3) nn(2)])
    show "nx ?t ?l = node" "prv ?t node = ?l" "nx ?t node = ls" "prv ?t ls = node" "clean ?t ls"
      using al nz by (simp_all del: last.simps)
    fix y
    have ne: "y \<noteq> node \<and> y \<noteq> ?p \<and> y \<noteq> ?n" if y: "y \<in> set (ls # zs)" using dz [OF y] din(1,2) by auto
    show "nx ?t y = nx s y" if "y \<in> set (ls # zs)" "y \<noteq> ?l" using ne that by (simp del: last.simps)
    show "prv ?t y = prv s y" if y: "y \<in> set zs"
    proof -
      have "y \<in> set (ls # zs)" "y \<noteq> ls" using y d by auto
      then show ?thesis using ne al by (simp del: last.simps)
    qed
  qed
  have fb: "bit (nx ?t y) 0 \<longleftrightarrow> y \<noteq> ?p \<and> bit (nx s y) 0" if "y \<in> set (ls1 # xs @ ys)" for y
  proof -
    have "y \<notin> set (ls # zs)" "y \<noteq> node" using that dis nn by auto
    then have ne: "y \<noteq> ls" "y \<noteq> ?l" "y \<noteq> node" using din(3) by auto
    then show ?thesis using aligned_bit [OF al(2), of 0] by (simp del: last.simps)
  qed
  have "coll ?t y = coll s y" "fin ?t y = fin s y" for y using c al by (auto simp: clean_def simp del: last.simps)
  moreover have "?t y = s y" if "y \<notin> set (ls1 # xs @ node # ys) \<union> set (ls # zs)" for y
  proof -
    have "y \<noteq> ?p" "y \<noteq> ?n" "y \<noteq> node" "y \<noteq> ls" "y \<noteq> ?l" using that din by auto
    then show ?thesis by (simp del: last.simps)
  qed
  ultimately have "Q () ?t" using a b fb by (intro Q)
  moreover have "clean ?s ls" "prv ?s ls = ?l" using c al nz gc_list_prv [OF l2] by (simp_all del: last.simps)
  ultimately show ?thesis unfolding gc_list_move_def using h h2 al by (simp add: p n clean_raw del: last.simps)
qed

lemma owp_gc_list_move:
  assumes ok: "heads_ok W" and l: "gc_list W s ls1 (xs @ node # ys)" and l2: "gc_list W s ls zs"
    and dis: "set (ls1 # xs @ node # ys) \<inter> set (ls # zs) = {}"
    and Q: "\<And>t. \<lbrakk>gc_list W t ls1 (xs @ ys); gc_list W t ls (zs @ [node]); \<And>y. coll t y = coll s y; \<And>y. fin t y = fin s y;
        \<And>y. y \<notin> set (ls1 # xs @ node # ys) \<union> set (ls # zs) \<Longrightarrow> t y = s y\<rbrakk> \<Longrightarrow> Q () t"
  shows "owp d (gc_list_move W node ls) Q E s"
proof (rule owp_gc_list_move_flagged [OF ok gc_list_unflag [OF ok l] _ l2 dis])
  show "\<not> bit (nx s node) 0" by (rule gc_list_no_flag [OF ok l]) simp
  fix t
  assume t: "gc_list W (unflag t) ls1 (xs @ ys)" "gc_list W t ls (zs @ [node])"
    "\<And>y. y \<in> set (ls1 # xs @ ys) \<Longrightarrow> bit (nx t y) 0 \<longleftrightarrow> y \<noteq> last (ls1 # xs) \<and> bit (nx s y) 0"
    "\<And>y. coll t y = coll s y" "\<And>y. fin t y = fin s y"
    "\<And>y. y \<notin> set (ls1 # xs @ node # ys) \<union> set (ls # zs) \<Longrightarrow> t y = s y"
  have "gc_list W t ls1 (xs @ ys)"
    by (rule gc_list_of_unflag [OF t(1)]) (use t(3) gc_list_no_flag [OF ok l] in auto)
  then show "Q () t" using t(2,4-) by (intro Q)
qed

lemma owp_gc_list_merge:
  assumes ok: "heads_ok W" and ll: "gc_list W s frm xs" and l2: "gc_list W s to ys"
    and dis: "set (frm # xs) \<inter> set (to # ys) = {}"
    and Q: "\<And>t. \<lbrakk>gc_list W t frm []; gc_list W t to (ys @ xs); \<And>y. coll t y = coll s y; \<And>y. fin t y = fin s y;
        \<And>y. y \<notin> set (frm # xs) \<union> set (to # ys) \<Longrightarrow> t y = s y\<rbrakk> \<Longrightarrow> Q () t"
  shows "owp d (gc_list_merge W frm to) Q E s"
proof -
  have ne: "frm \<noteq> to" using dis by auto
  have h: "gc_heap W frm" "gc_heap W to" by (rule gc_list_heap [OF ll], rule gc_list_heap [OF l2])
  have c: "clean s frm" "clean s to" by (rule gc_listD [OF ll], rule gc_listD [OF l2])
  show ?thesis
  proof (cases xs)
    case Nil
    have "owp d (gc_list_init W frm) Q E s"
    proof (rule owp_gc_list_init [OF ok h(1)])
      fix t assume t: "gc_list W t frm []" and e: "\<And>y. y \<noteq> frm \<Longrightarrow> t y = s y"
      have "coll t y = coll s y" "fin t y = fin s y" for y
        using c(1) gc_listD(5) [OF t] e [of y] by (cases "y = frm"; simp add: clean_def coll_def fin_def)+
      moreover have "gc_list W t to ys"
      proof (rule gc_list_frame [OF l2])
        show "t g = s g" if "g \<in> set (to # ys)" for g using dis that by (intro e) auto
      qed
      ultimately show "Q () t" using t e Nil by (intro Q) simp_all
    qed
    then show ?thesis using gc_list_empty_iff [OF ll] h ne Nil by (simp add: gc_list_merge_def)
  next
    case (Cons x xs')
    define l where "l = last (to # ys)"
    define e where "e = last xs"
    have e: "e = last (frm # xs)" "xs \<noteq> []" using Cons by (simp_all add: e_def)
    have px: "prv s frm = e" "nx s frm = x" "prv s to = l"
      using gc_list_prv [OF ll] gc_list_hd [OF ll] gc_list_prv [OF l2] Cons by (simp_all add: e_def l_def)
    have in1: "x \<in> set xs" "e \<in> set xs" "l \<in> set (to # ys)" using Cons by (simp_all add: e_def l_def)
    have hh: "gc_heap W x" "gc_heap W e" "gc_heap W l"
      using gc_listD(4) [OF ll] gc_listD(4) [OF l2] in1 by auto
    have al: "aligned x" "aligned e" "aligned l" "aligned to" "aligned frm" using ok hh h by (auto intro: heads_okD)
    have d: "distinct (frm # xs)" "distinct (to # ys)" by (rule gc_listD [OF ll], rule gc_listD [OF l2])
    have dis': "set xs \<inter> set (to # ys) = {}" using dis by auto
    have nq: "x \<noteq> to" "x \<noteq> frm" "e \<noteq> frm" "e \<noteq> l" "e \<noteq> to" "x \<noteq> l" "l \<noteq> frm"
      using d in1 dis by (auto)
    let ?t = "set_prv to e (set_nx e to (set_prv x l (set_nx l x s)))"
    have sx: "seg s xs" using gc_listD(1) [OF ll] Cons by simp
    have "seg ?t (to # ys)"
    proof (rule seg_cong [OF gc_listD(1) [OF l2]])
      fix y assume y: "y \<in> set (butlast (to # ys))"
      have "l \<notin> set (butlast (to # ys))"
        unfolding l_def by (rule last_notin_butlast [OF d(2)]) simp
      then have "y \<noteq> l" using y by metis
      moreover have "y \<noteq> e" using in_set_butlastD [OF y] in1(2) dis' by (auto)
      ultimately show "nx ?t y = nx s y" by (simp)
    next
      fix y assume "y \<in> set (tl (to # ys))"
      then have "y \<in> set ys" by simp
      then have "y \<noteq> to \<and> y \<noteq> x" using d(2) in1(1) dis' by auto
      then show "prv ?t y = prv s y" using al by (simp)
    qed
    moreover have "seg ?t xs"
    proof (rule seg_cong [OF sx])
      fix y assume y: "y \<in> set (butlast xs)"
      have "e \<notin> set (butlast xs)" unfolding e_def using d(1) e(2) by (intro last_notin_butlast) auto
      then have "y \<noteq> e" using y by metis
      moreover have "y \<noteq> l" using in_set_butlastD [OF y] in1(3) dis' by (auto)
      ultimately show "nx ?t y = nx s y" by (simp)
    next
      fix y assume y: "y \<in> set (tl xs)"
      then have "y \<noteq> x" "y \<in> set xs" using d(1) Cons by auto
      moreover have "y \<noteq> to" using calculation dis' by auto
      ultimately show "prv ?t y = prv s y" using al by (simp)
    qed
    moreover have "dlink ?t l (hd xs)" "dlink ?t e to" using nq al Cons by (simp_all add: dlink_def)
    ultimately have g1: "seg ?t ((to # ys) @ xs)" and g2: "dlink ?t e to"
      unfolding seg_append l_def [symmetric] by blast+
    have "last (to # ys @ xs) = e" "distinct (to # ys @ xs)" using e(2) d dis' by (auto simp: e_def)
    moreover have "\<forall>g \<in> set (to # ys @ xs). gc_heap W g" using gc_listD(4) [OF ll] gc_listD(4) [OF l2] by auto
    ultimately have g: "gc_list W ?t to (ys @ xs)" using g1 g2 c al by (simp add: gc_list_def)
    have cf: "coll ?t y = coll s y" "fin ?t y = fin s y" for y using al by (simp_all)
    have "owp d (gc_list_init W frm) Q E ?t"
    proof (rule owp_gc_list_init [OF ok h(1)])
      fix t assume t: "gc_list W t frm []" and eq: "\<And>y. y \<noteq> frm \<Longrightarrow> t y = ?t y"
      have "coll t y = coll s y" "fin t y = fin s y" for y
        using c(1) gc_listD(5) [OF t] eq [of y] cf [of y] by (cases "y = frm"; simp add: clean_def coll_def fin_def)+
      moreover have "gc_list W t to (ys @ xs)"
        using d(1) dis by (intro gc_list_frame [OF g] eq) auto
      moreover have "t y = s y" if "y \<notin> set (frm # xs) \<union> set (to # ys)" for y
      proof -
        have "y \<noteq> frm \<and> y \<noteq> x \<and> y \<noteq> e \<and> y \<noteq> to \<and> y \<noteq> l" using that in1 by auto
        then show ?thesis using eq [of y] by (simp)
      qed
      ultimately show "Q () t" using t by (intro Q)
    qed
    then show ?thesis
      unfolding gc_list_merge_def using h hh ne px nq al gc_list_empty_iff [OF ll] e(2) by (simp)
  qed
qed

end
