(* ===== verification/PyGcRefs.thy ===== *)
theory PyGcRefs
  imports PyGcLists
begin

unbundle bit_operations_syntax

text \<open>
  Walks over a list: the loop rule, the consistency check, and the two passes that give every
  object of a generation the number of its references from outside the generation
  (\<open>update_refs\<close>, \<open>subtract_refs\<close>).
\<close>

section \<open>Loops over a list\<close>

declare gc_for_from.simps [simp del]

lemma owp_gc_for_from:
  assumes step: "\<And>p x q t. zs = p @ x # q \<Longrightarrow> I p t \<Longrightarrow>
      owp d (body x) (\<lambda>_ u. I (p @ [x]) u \<and> (\<forall>y. nx u y = nx t y)) E t"
    and "nchain s xs ls" and "ls \<notin> set xs" and "\<forall>x \<in> set xs. gc_heap W x"
    and "zs = p @ xs" and "I p s"
  shows "owp d (gc_for_from W body ls (hd (xs @ [ls]))) (\<lambda>_ t. I zs t \<and> (\<forall>y. nx t y = nx s y)) E s"
  using assms(2-)
proof (induction xs arbitrary: p s)
  case Nil
  have "owp d (gc_for_from W body ls ls) Q E s = Q () s" for Q
    unfolding owp_def by (subst gc_for_from.simps) (simp add: oret_def)
  then show ?case using Nil by simp
next
  case (Cons x xs)
  have "owp d (gc_for_from W body ls x) Q E s =
      owp d (body x) (\<lambda>_. owp d (GC_NEXT W x) (\<lambda>nxt. owp d (gc_for_from W body ls nxt) Q E) E) E s" for Q
  proof -
    have "gc_for_from W body ls x s = obind (body x) (\<lambda>_. obind (GC_NEXT W x) (gc_for_from W body ls)) s"
      using Cons.prems(2) by (subst gc_for_from.simps) auto
    then have "owp d (gc_for_from W body ls x) Q E s =
      owp d (obind (body x) (\<lambda>_. obind (GC_NEXT W x) (gc_for_from W body ls))) Q E s" by (simp only: owp_def)
    then show ?thesis by simp
  qed
  moreover have "owp d (body x) (\<lambda>_. owp d (GC_NEXT W x) (\<lambda>nxt. owp d (gc_for_from W body ls nxt)
      (\<lambda>_ t. I zs t \<and> (\<forall>y. nx t y = nx s y)) E) E) E s"
  proof (rule owp_mono [OF step [of p x xs s]])
    fix v u assume u: "I (p @ [x]) u \<and> (\<forall>y. nx u y = nx s y)"
    have "nchain s xs ls" and nxx: "nx s x = hd (xs @ [ls])" using Cons.prems(1) by simp_all
    from this(1) have "nchain u xs ls" by (rule nchain_cong) (use u in blast)
    then have "owp d (gc_for_from W body ls (hd (xs @ [ls]))) (\<lambda>_ t. I zs t \<and> (\<forall>y. nx t y = nx u y)) E u"
      using Cons.prems u by (intro Cons.IH [of u "p @ [x]"]) auto
    moreover have "nx u x = hd (xs @ [ls])" using nxx u by metis
    ultimately show "owp d (GC_NEXT W x) (\<lambda>nxt. owp d (gc_for_from W body ls nxt)
        (\<lambda>_ t. I zs t \<and> (\<forall>y. nx t y = nx s y)) E) E u"
      using Cons.prems(3) u by simp
  qed (use Cons.prems in auto)
  ultimately show ?case by simp
qed

lemma owp_gc_for:
  assumes l: "gc_list W s ls zs" and "I [] s"
    and step: "\<And>p x q t. zs = p @ x # q \<Longrightarrow> I p t \<Longrightarrow>
      owp d (body x) (\<lambda>_ u. I (p @ [x]) u \<and> (\<forall>y. nx u y = nx t y)) E t"
    and Q: "\<And>t. I zs t \<Longrightarrow> (\<And>y. nx t y = nx s y) \<Longrightarrow> Q () t"
  shows "owp d (gc_for W body ls) Q E s"
proof -
  have "nchain s zs ls" "ls \<notin> set zs" "\<forall>x \<in> set zs. gc_heap W x" "gc_heap W ls"
    using gc_list_nchain [OF l] gc_listD(3) [OF l] gc_listD(4) [OF l] by auto
  then have "owp d (gc_for_from W body ls (hd (zs @ [ls]))) (\<lambda>_ t. I zs t \<and> (\<forall>y. nx t y = nx s y)) E s"
    using step assms(2) by (intro owp_gc_for_from [where p = "[]"]) auto
  then have "owp d (gc_for_from W body ls (hd (zs @ [ls]))) Q E s"
    by (rule owp_mono) (auto intro: Q)
  then show ?thesis using \<open>gc_heap W ls\<close> by (simp add: gc_for_def gc_list_hd [OF l])
qed

lemma owp_visit_all:
  assumes step: "\<And>p x q t. zs = p @ x # q \<Longrightarrow> I p t \<Longrightarrow> owp d (visit x) (\<lambda>_ u. I (p @ [x]) u) E t"
    and "zs = p @ xs" and "I p s"
  shows "owp d (visit_all visit xs) (\<lambda>_ t. I zs t) E s"
  using assms(2-)
proof (induction xs arbitrary: p s)
  case (Cons x xs)
  have "owp d (visit x) (\<lambda>_. owp d (visit_all visit xs) (\<lambda>_ t. I zs t) E) E s"
  proof (rule owp_mono [OF step [of p x xs s]])
    show "owp d (visit_all visit xs) (\<lambda>_ t. I zs t) E u" if "I (p @ [x]) u" for u
      by (rule Cons.IH [OF _ that]) (use Cons.prems in simp)
  qed (use Cons.prems in auto)
  then show ?case by simp
qed simp

lemma owp_traverse:
  assumes "I [] s"
    and "\<And>p x q t. tp_traverse W op = p @ x # q \<Longrightarrow> I p t \<Longrightarrow> owp d (visit x) (\<lambda>_ u. I (p @ [x]) u) E t"
    and "\<And>t. I (tp_traverse W op) t \<Longrightarrow> Q () t"
  shows "owp d (traverse W op visit) Q E s"
  unfolding traverse_def
  by (rule owp_mono [OF owp_visit_all [where zs = "tp_traverse W op" and I = I and p = "[]"]])
    (use assms in auto)

section \<open>The consistency check\<close>

declare validate_from.simps [simp del]

lemma owp_validate_from:
  assumes ok: "heads_ok W" and l: "gc_list W (unflag s) head (xs @ ys)"
    and fl: "\<And>x. x \<in> set ys \<Longrightarrow> coll s x = (flag_prev_value flags \<noteq> 0) \<and> bit (nx s x) 0 = (flag_next_value flags \<noteq> 0)"
    and Q: "Q () s"
  shows "owp d (validate_from W flags head (last (head # xs)) (hd (ys @ [head]))) Q E s"
  using l fl
proof (induction ys arbitrary: xs)
  case Nil
  have "validate_from W flags head (last (head # xs)) head s
      = obind (GC_PREV W head) (\<lambda>p. oassert (last (head # xs) = p)) s"
    by (subst validate_from.simps) simp
  then have "owp d (validate_from W flags head (last (head # xs)) head) Q E s
      = owp d (obind (GC_PREV W head) (\<lambda>p. oassert (last (head # xs) = p))) Q E s" by (simp only: owp_def)
  moreover have "prv s head = last (head # xs)" using gc_list_prv [OF Nil(1)] by simp
  ultimately show ?case using Q gc_list_heap(1) [OF Nil(1)] by (simp del: last.simps)
next
  case (Cons y ys)
  have d: "distinct (head # xs @ y # ys)" using Cons.prems(1) by (rule gc_listD)
  have y: "y \<noteq> head" "gc_heap W y" using d gc_listD(4) [OF Cons.prems(1), of y] by auto
  have n: "nx s y AND NOT NEXT_MASK_UNREACHABLE = hd (ys @ [head])"
    using gc_list_mid(2) [OF Cons.prems(1)] by simp
  have h: "gc_heap W (hd (ys @ [head]))" using gc_listD(4) [OF Cons.prems(1)] by (cases ys) auto
  have p: "prv s y = last (head # xs)" using gc_list_mid(1) [OF Cons.prems(1)] by simp
  have nz: "hd (ys @ [head]) \<noteq> 0" using heads_okD(2) [OF ok h] .
  have f: "nx s y AND NEXT_MASK_UNREACHABLE = flag_next_value flags"
    "gc_prev (s y) AND PREV_MASK_COLLECTING = flag_prev_value flags"
    using Cons.prems(2) [of y]
    by (auto simp: and_collecting_cases and_unreachable_cases coll_def flag_prev_value_def flag_next_value_def)
  have IH: "owp d (validate_from W flags head y (hd (ys @ [head]))) Q E s"
    using Cons.IH [of "xs @ [y]"] Cons.prems by simp
  let ?m = "obind (GC_PREV W y) (\<lambda>trueprev.
        obind (gc_read W y (\<lambda>h. gc_next h AND NOT NEXT_MASK_UNREACHABLE)) (\<lambda>truenext.
        obind (oassert (truenext \<noteq> 0)) (\<lambda>_.
        obind (oassert (trueprev = last (head # xs))) (\<lambda>_.
        obind (gc_read W y (\<lambda>h. gc_prev h AND PREV_MASK_COLLECTING)) (\<lambda>c.
        obind (oassert (c = flag_prev_value flags)) (\<lambda>_.
        obind (gc_read W y (\<lambda>h. gc_next h AND NEXT_MASK_UNREACHABLE)) (\<lambda>u.
        obind (oassert (u = flag_next_value flags)) (\<lambda>_.
          validate_from W flags head y truenext))))))))"
  have "validate_from W flags head (last (head # xs)) y s = ?m s"
    using y by (subst validate_from.simps) simp
  then have "owp d (validate_from W flags head (last (head # xs)) y) Q E s = owp d ?m Q E s" by (simp only: owp_def)
  moreover have "owp d ?m Q E s" using y n p nz f IH by (simp add: nx_def del: last.simps)
  ultimately show ?case by (simp del: last.simps)
qed

lemma owp_validate_list:
  assumes ok: "heads_ok W" and l: "gc_list W (unflag s) ls xs" and h: "\<not> bit (nx s ls) 0"
    and fl: "\<And>x. x \<in> set xs \<Longrightarrow> coll s x = (flag_prev_value flags \<noteq> 0) \<and> bit (nx s x) 0 = (flag_next_value flags \<noteq> 0)"
    and Q: "Q () s"
  shows "owp d (validate_list W ls flags) Q E s"
proof -
  have hp: "gc_heap W ls" using l by (rule gc_list_heap)
  have "clean s ls" using gc_listD(5) [OF l] by simp
  then have c: "\<not> bit (gc_prev (s ls)) 1" by (simp add: clean_def coll_def)
  have hn: "nx s ls = nx s ls AND NOT NEXT_MASK_UNREACHABLE"
    using h by (simp add: no_flag_id)
  then have "nx s ls = hd (xs @ [ls])" using gc_list_hd [OF l] by simp
  moreover have "owp d (validate_from W flags ls ls (hd (xs @ [ls]))) Q E s"
    using owp_validate_from [OF ok, of s ls "[]" xs] l fl Q by simp
  ultimately show ?thesis
    using hp c h by (simp add: validate_list_def and_collecting and_unreachable nx_def)
qed

lemma owp_validate_plain:
  assumes ok: "heads_ok W" and l: "gc_list W s ls xs"
    and "\<And>x. x \<in> set xs \<Longrightarrow> coll s x = (flags = collecting_set_unreachable_clear)"
    and "flags = collecting_set_unreachable_clear \<or> flags = collecting_clear_unreachable_clear"
    and "Q () s"
  shows "owp d (validate_list W ls flags) Q E s"
proof (rule owp_validate_list [OF ok gc_list_unflag [OF ok l] gc_list_no_flag [OF ok l]])
  fix x assume "x \<in> set xs"
  then show "coll s x = (flag_prev_value flags \<noteq> 0) \<and> bit (nx s x) 0 = (flag_next_value flags \<noteq> 0)"
    using assms(3) [of x] assms(4) gc_list_no_flag [OF ok l, of x]
    by (auto simp: flag_prev_value_def flag_next_value_def)
qed (use assms in auto)

section \<open>The graph of references\<close>

lemma FROM_AS [simp]: "AS_GC (FROM_GC g) = g" "FROM_GC (AS_GC op) = op"
  by (simp_all add: AS_GC_def FROM_GC_def)

text \<open>The heads that the object of head \<open>g\<close> refers to, once for each reference.\<close>

definition kids_of :: "gc_world \<Rightarrow> addr list \<Rightarrow> addr list" where
  "kids_of W ops = map AS_GC (filter (object_is_gc W) ops)"

definition kids :: "gc_world \<Rightarrow> addr \<Rightarrow> addr list" where
  "kids W g = kids_of W (tp_traverse W (FROM_GC g))"

lemma kids_of_append: "kids_of W (xs @ ys) = kids_of W xs @ kids_of W ys"
  by (simp add: kids_of_def)

lemma kids_of_single: "kids_of W [op] = (if object_is_gc W op then [AS_GC op] else [])"
  by (simp add: kids_of_def)

definition internal_refs :: "gc_world \<Rightarrow> addr list \<Rightarrow> addr \<Rightarrow> nat" where
  "internal_refs W xs g = count_list (concat (map (kids W) xs)) g"

text \<open>
  What the collector relies on in the objects of a list: the heads they refer to exist, no object
  it visits has been freed, and a reference count is positive, fits, and counts at least the
  references found by \<open>tp_traverse\<close> in the list.
\<close>

definition graph_ok :: "gc_world \<Rightarrow> addr list \<Rightarrow> bool" where
  "graph_ok W xs \<longleftrightarrow>
     heads_ok W
     \<and> (\<forall>x \<in> set xs. \<forall>op \<in> set (tp_traverse W (FROM_GC x)).
          \<not> object_freed W op \<and> (object_is_gc W op \<longrightarrow> gc_heap W (AS_GC op)))
     \<and> (\<forall>x \<in> set xs. 0 < ob_refcnt W (FROM_GC x) \<and> ob_refcnt W (FROM_GC x) < 2 ^ 61
          \<and> int (internal_refs W xs x) \<le> ob_refcnt W (FROM_GC x))"

lemma graph_okD:
  assumes "graph_ok W xs"
  shows "heads_ok W"
    "x \<in> set xs \<Longrightarrow> op \<in> set (tp_traverse W (FROM_GC x)) \<Longrightarrow> \<not> object_freed W op"
    "x \<in> set xs \<Longrightarrow> op \<in> set (tp_traverse W (FROM_GC x)) \<Longrightarrow> object_is_gc W op \<Longrightarrow> gc_heap W (AS_GC op)"
    "x \<in> set xs \<Longrightarrow> 0 < ob_refcnt W (FROM_GC x)"
    "x \<in> set xs \<Longrightarrow> ob_refcnt W (FROM_GC x) < 2 ^ 61"
    "x \<in> set xs \<Longrightarrow> int (internal_refs W xs x) \<le> ob_refcnt W (FROM_GC x)"
  using assms by (auto simp: graph_ok_def)

text \<open>After the two passes the count of an object is the number of its references from outside.\<close>

definition external_refs :: "gc_world \<Rightarrow> addr list \<Rightarrow> addr \<Rightarrow> int" where
  "external_refs W xs g = ob_refcnt W (FROM_GC g) - int (internal_refs W xs g)"

lemma owp_update_refs:
  assumes g: "graph_ok W xs" and l: "gc_list W s ls xs"
    and Q: "\<And>t. \<lbrakk>\<And>y. nx t y = nx s y; \<And>y. fin t y = fin s y; \<And>y. y \<notin> set xs \<Longrightarrow> t y = s y;
      \<And>y. y \<in> set xs \<Longrightarrow> coll t y \<and> rfs t y = ob_refcnt W (FROM_GC y)\<rbrakk> \<Longrightarrow> Q () t"
  shows "owp d (update_refs W ls) Q E s"
proof -
  let ?I = "\<lambda>p t. (\<forall>y. fin t y = fin s y) \<and> (\<forall>y. y \<notin> set p \<longrightarrow> t y = s y) \<and>
      (\<forall>y \<in> set p. coll t y \<and> rfs t y = ob_refcnt W (FROM_GC y))"
  show ?thesis
    unfolding update_refs_def
  proof (rule owp_gc_for [OF l, where I = ?I])
    fix p x q t assume x: "xs = p @ x # q" and I: "?I p t"
    have "x \<in> set xs" using x by simp
    note r = graph_okD(4,5) [OF g this] gc_list_heap(2) [OF l this]
    have u: "rfs (reset_rfs x (ob_refcnt W (FROM_GC x)) t) y =
        (if y = x then ob_refcnt W (FROM_GC x) else rfs t y)" for y using r by simp
    show "owp d (obind (gc_reset_refs W x (ob_refcnt W (FROM_GC x)))
        (\<lambda>_. obind (gc_get_refs W x) (\<lambda>refs. oassert (refs \<noteq> 0))))
        (\<lambda>_ u. ?I (p @ [x]) u \<and> (\<forall>y. nx u y = nx t y)) E t"
      using r(1,3) I by (auto simp: u)
  qed (use Q in auto)
qed

lemma visit_decref_step:
  assumes op: "object_is_gc W op \<Longrightarrow> gc_heap W (AS_GC op)" "\<not> object_freed W op"
    and cl: "\<And>y. gc_heap W y \<Longrightarrow> coll s y \<longleftrightarrow> y \<in> N"
    and pos: "object_is_gc W op \<Longrightarrow> AS_GC op \<in> N \<Longrightarrow> rfs s (AS_GC op) > 0"
    and Q: "\<And>t. \<lbrakk>\<And>y. nx t y = nx s y; \<And>y. fin t y = fin s y; \<And>y. coll t y = coll s y; \<And>y. y \<notin> N \<Longrightarrow> t y = s y;
      \<And>y. y \<in> N \<Longrightarrow> rfs t y = rfs s y - int (count_list (kids_of W [op]) y)\<rbrakk> \<Longrightarrow> Q () t"
  shows "owp d (visit_decref W op) Q E s"
proof (cases "object_is_gc W op \<and> AS_GC op \<in> N")
  case True
  then have "y \<noteq> AS_GC op" if "y \<notin> N" for y using that by auto
  then have "Q () (dec_rfs (AS_GC op) s)" using pos True by (intro Q) (simp_all add: kids_of_single)
  then show ?thesis using True op pos cl by (simp add: visit_decref_def)
next
  case False
  then have "Q () s" by (intro Q) (auto simp: kids_of_single)
  then show ?thesis using False op cl by (simp add: visit_decref_def)
qed

lemma owp_subtract_refs:
  assumes g: "graph_ok W xs" and l: "nchain s (ls # xs) ls" "ls \<notin> set xs" "gc_heap W ls" "\<forall>x \<in> set xs. gc_heap W x"
    and cl: "\<And>y. gc_heap W y \<Longrightarrow> coll s y \<longleftrightarrow> y \<in> set xs"
    and r: "\<And>y. y \<in> set xs \<Longrightarrow> rfs s y = ob_refcnt W (FROM_GC y)"
    and Q: "\<And>t. \<lbrakk>\<And>y. nx t y = nx s y; \<And>y. fin t y = fin s y; \<And>y. coll t y = coll s y; \<And>y. y \<notin> set xs \<Longrightarrow> t y = s y;
      \<And>y. y \<in> set xs \<Longrightarrow> rfs t y = external_refs W xs y\<rbrakk> \<Longrightarrow> Q () t"
  shows "owp d (subtract_refs W ls) Q E s"
proof -
  let ?J = "\<lambda>ks t. (\<forall>y. nx t y = nx s y) \<and> (\<forall>y. fin t y = fin s y) \<and> (\<forall>y. coll t y = coll s y) \<and>
      (\<forall>y. y \<notin> set xs \<longrightarrow> t y = s y) \<and>
      (\<forall>y \<in> set xs. rfs t y = ob_refcnt W (FROM_GC y) - int (count_list ks y))"
  let ?I = "\<lambda>p t. ?J (concat (map (kids W) p)) t"
  have "owp d (gc_for_from W (\<lambda>gc. traverse W (FROM_GC gc) (visit_decref W)) ls (hd (xs @ [ls])))
      (\<lambda>_ t. ?I xs t \<and> (\<forall>y. nx t y = nx s y)) E s"
  proof (rule owp_gc_for_from [where p = "[]" and I = ?I])
    fix p x q t assume x: "xs = p @ x # q" and I: "?I p t"
    have xin: "x \<in> set xs" using x by simp
    show "owp d (traverse W (FROM_GC x) (visit_decref W)) (\<lambda>_ u. ?I (p @ [x]) u \<and> (\<forall>y. nx u y = nx t y)) E t"
    proof (rule owp_traverse [where I = "\<lambda>ops u. ?J (concat (map (kids W) p) @ kids_of W ops) u"])
      fix ops op more u
      assume ops: "tp_traverse W (FROM_GC x) = ops @ op # more" and J: "?J (concat (map (kids W) p) @ kids_of W ops) u"
      have opin: "op \<in> set (tp_traverse W (FROM_GC x))" using ops by simp
      have all: "concat (map (kids W) xs) =
          (concat (map (kids W) p) @ kids_of W ops) @ kids_of W [op] @ kids_of W more @ concat (map (kids W) q)"
        using kids_of_append [of W "[op]" more] by (simp add: x kids_def ops kids_of_append)
      show "owp d (visit_decref W op) (\<lambda>_ u. ?J (concat (map (kids W) p) @ kids_of W (ops @ [op])) u) E u"
      proof (rule visit_decref_step [where N = "set xs"])
        show "object_is_gc W op \<Longrightarrow> gc_heap W (AS_GC op)" by (rule graph_okD(3) [OF g xin opin])
        show "\<not> object_freed W op" by (rule graph_okD(2) [OF g xin opin])
        show "gc_heap W y \<Longrightarrow> coll u y \<longleftrightarrow> y \<in> set xs" for y using J cl by simp
      next
        assume k: "object_is_gc W op" "AS_GC op \<in> set xs"
        have "int (internal_refs W xs (AS_GC op)) \<le> ob_refcnt W (FROM_GC (AS_GC op))"
          by (rule graph_okD(6) [OF g k(2)])
        then have "int (count_list (concat (map (kids W) p) @ kids_of W ops) (AS_GC op)) + 1 \<le> ob_refcnt W op"
          unfolding internal_refs_def all using k(1) by (simp add: kids_of_single)
        moreover have "rfs u (AS_GC op) = ob_refcnt W op - int (count_list (concat (map (kids W) p) @ kids_of W ops) (AS_GC op))"
          using J k(2) by (simp only: FROM_AS)
        ultimately show "rfs u (AS_GC op) > 0" by linarith
      next
        fix v assume v: "\<And>y. nx v y = nx u y" "\<And>y. fin v y = fin u y" "\<And>y. coll v y = coll u y"
          "\<And>y. y \<notin> set xs \<Longrightarrow> v y = u y" "\<And>y. y \<in> set xs \<Longrightarrow> rfs v y = rfs u y - int (count_list (kids_of W [op]) y)"
        show "?J (concat (map (kids W) p) @ kids_of W (ops @ [op])) v"
          using J v by (simp add: kids_of_append)
      qed
    qed (use I in \<open>auto simp: kids_def kids_of_def\<close>)
  qed (use l r in auto)
  then have "owp d (gc_for_from W (\<lambda>gc. traverse W (FROM_GC gc) (visit_decref W)) ls (hd (xs @ [ls]))) Q E s"
    by (rule owp_mono) (auto intro!: Q simp: external_refs_def internal_refs_def)
  then show ?thesis using l by (simp add: subtract_refs_def gc_for_def)
qed

end
