(* ===== verification/PyGcMove.thy ===== *)
theory PyGcMove
  imports PyGcRefs
begin

unbundle bit_operations_syntax

text \<open>
  \<open>move_unreachable\<close>: while it runs, the list \<open>young\<close> consists of the scanned objects \<open>xs\<close>, linked
  both ways, and the objects \<open>ys\<close> yet to be scanned, linked forwards only, with counts in \<open>gc_prev\<close>;
  the objects parked as possibly unreachable, \<open>us\<close>, are linked both ways with flagged next
  pointers. A scan may bring parked objects plinked to the end of \<open>ys\<close>. This theory proves that each
  access keeps that shape, that the loop ends, and that it parks exactly the objects to which no
  chain of references leads from an object that is referenced from outside.
\<close>

section \<open>Reachability\<close>

inductive gc_reach :: "gc_world \<Rightarrow> addr list \<Rightarrow> addr \<Rightarrow> bool" for W zs where
  gc_root: "y \<in> set zs \<Longrightarrow> external_refs W zs y > 0 \<Longrightarrow> gc_reach W zs y"
| gc_ref: "gc_reach W zs x \<Longrightarrow> y \<in> set (kids W x) \<Longrightarrow> y \<in> set zs \<Longrightarrow> gc_reach W zs y"

lemma gc_reach_in: "gc_reach W zs y \<Longrightarrow> y \<in> set zs"
  by (induction rule: gc_reach.induct)

lemma gc_reach_least:
  assumes "gc_reach W zs y" and "\<And>y. y \<in> set zs \<Longrightarrow> external_refs W zs y > 0 \<Longrightarrow> P y"
    and "\<And>x y. P x \<Longrightarrow> y \<in> set (kids W x) \<Longrightarrow> y \<in> set zs \<Longrightarrow> P y"
  shows "P y"
  using assms(1) by (induction rule: gc_reach.induct) (use assms(2,3) in auto)

section \<open>The shape\<close>

definition plinked :: "gc_store \<Rightarrow> addr list \<Rightarrow> bool" where
  "plinked s xs \<longleftrightarrow> successively (\<lambda>a b. prv s b = a) xs"

lemma plinked_cong: "plinked s xs \<Longrightarrow> (\<And>x. x \<in> set (tl xs) \<Longrightarrow> prv t x = prv s x) \<Longrightarrow> plinked t xs"
  unfolding plinked_def by (induction xs rule: induct_list012) auto

lemma plinked_snoc: "plinked s (xs @ [x]) \<longleftrightarrow> plinked s xs \<and> (xs \<noteq> [] \<longrightarrow> prv s x = last xs)"
  by (auto simp: plinked_def successively_append_iff)

lemma plinked_seg: "plinked s xs \<Longrightarrow> nchain s xs e \<Longrightarrow> seg s xs"
  unfolding plinked_def by (induction xs rule: induct_list012) (auto simp: dlink_def)

definition move_shape ::
    "gc_world \<Rightarrow> gc_store \<Rightarrow> addr set \<Rightarrow> addr \<Rightarrow> addr \<Rightarrow> addr list \<Rightarrow> addr list \<Rightarrow> addr list \<Rightarrow> gc_store \<Rightarrow> bool" where
  "move_shape W s0 N young unr xs ys us s \<longleftrightarrow>
     distinct (young # unr # xs @ ys @ us) \<and> set (xs @ ys @ us) = N
     \<and> (\<forall>g \<in> set (young # unr # xs @ ys @ us). gc_heap W g)
     \<and> nchain s (young # xs @ ys) young \<and> plinked s (young # xs)
     \<and> (ys \<noteq> [] \<longrightarrow> prv s young = last ys) \<and> clean s young
     \<and> gc_list W (unflag s) unr us \<and> (\<forall>u \<in> set us. bit (nx s u) 0) \<and> (us \<noteq> [] \<longrightarrow> bit (nx s unr) 0)
     \<and> (\<forall>y. gc_heap W y \<longrightarrow> (coll s y \<longleftrightarrow> y \<in> set ys \<union> set us))
     \<and> (\<forall>y. y \<notin> N \<longrightarrow> y \<noteq> young \<longrightarrow> y \<noteq> unr \<longrightarrow> s y = s0 y) \<and> (\<forall>y \<in> N. fin s y = fin s0 y)"

lemma move_shapeI:
  assumes "distinct (young # unr # xs @ ys @ us)" "set (xs @ ys @ us) = N"
    "\<And>g. g \<in> set (young # unr # xs @ ys @ us) \<Longrightarrow> gc_heap W g"
    "nchain s (young # xs @ ys) young" "plinked s (young # xs)" "ys \<noteq> [] \<Longrightarrow> prv s young = last ys" "clean s young"
    "gc_list W (unflag s) unr us" "\<And>u. u \<in> set us \<Longrightarrow> bit (nx s u) 0" "us \<noteq> [] \<Longrightarrow> bit (nx s unr) 0"
    "\<And>y. gc_heap W y \<Longrightarrow> coll s y \<longleftrightarrow> y \<in> set ys \<union> set us"
    "\<And>y. y \<notin> N \<Longrightarrow> y \<noteq> young \<Longrightarrow> y \<noteq> unr \<Longrightarrow> s y = s0 y" "\<And>y. y \<in> N \<Longrightarrow> fin s y = fin s0 y"
  shows "move_shape W s0 N young unr xs ys us s"
  unfolding move_shape_def using assms by (intro conjI ballI allI impI) auto

lemma move_shapeD:
  assumes "move_shape W s0 N young unr xs ys us s"
  shows "distinct (young # unr # xs @ ys @ us)" "set (xs @ ys @ us) = N"
    "g \<in> set (young # unr # xs @ ys @ us) \<Longrightarrow> gc_heap W g"
    "nchain s (young # xs @ ys) young" "plinked s (young # xs)" "ys \<noteq> [] \<Longrightarrow> prv s young = last ys" "clean s young"
    "gc_list W (unflag s) unr us" "u \<in> set us \<Longrightarrow> bit (nx s u) 0" "us \<noteq> [] \<Longrightarrow> bit (nx s unr) 0"
    "gc_heap W y \<Longrightarrow> coll s y \<longleftrightarrow> y \<in> set ys \<union> set us"
    "y \<notin> N \<Longrightarrow> y \<noteq> young \<Longrightarrow> y \<noteq> unr \<Longrightarrow> s y = s0 y" "y \<in> N \<Longrightarrow> fin s y = fin s0 y"
  using assms unfolding move_shape_def by blast+

section \<open>Marking, reviving, parking, scanning\<close>

lemma shape_mark:
  assumes sh: "move_shape W s0 N young unr xs ys us s" and y: "y \<in> set ys"
  shows "move_shape W s0 N young unr xs ys us (set_rfs y r s)"
proof -
  note D = move_shapeD [OF sh]
  have ne: "y \<noteq> young" "y \<noteq> unr" "y \<notin> set xs" "y \<notin> set us" "y \<in> N" using D(1,2) y by auto
  show ?thesis
  proof (rule move_shapeI [OF D(1-3)])
    show "nchain (set_rfs y r s) (young # xs @ ys) young" using D(4) by (rule nchain_cong) simp
    show "plinked (set_rfs y r s) (young # xs)"
    proof (rule plinked_cong [OF D(5)])
      show "prv (set_rfs y r s) x = prv s x" if "x \<in> set (tl (young # xs))" for x
        using that ne by (intro set_rfs_views) auto
    qed
    show "gc_list W (unflag (set_rfs y r s)) unr us"
    proof (rule gc_list_cong [OF D(8)])
      show "prv (unflag (set_rfs y r s)) g = prv (unflag s) g" if "g \<in> set (unr # us)" for g
        using that ne by (subst (1 2) unflag_views, intro set_rfs_views) auto
      show "clean (unflag (set_rfs y r s)) unr" using gc_listD(5) [OF D(8)] by simp
    qed simp
    show "ys \<noteq> [] \<Longrightarrow> prv (set_rfs y r s) young = last ys" using D(6) ne by simp
    show "set_rfs y r s x = s0 x" if "x \<notin> N" "x \<noteq> young" "x \<noteq> unr" for x
    proof -
      have "x \<noteq> y" using that ne by auto
      then show ?thesis using D(12) [OF that] by simp
    qed
  qed (use D ne in auto)
qed

lemma shape_scan:
  assumes ok: "heads_ok W" and sh: "move_shape W s0 N young unr xs (g # ys) us s"
  shows "move_shape W s0 N young unr (xs @ [g]) ys us (clr_coll g (set_prv g (last (young # xs)) s))"
proof -
  note D = move_shapeD [OF sh]
  define p where "p = last (young # xs)"
  have "p \<in> set (young # xs)" by (simp add: p_def)
  then have al: "aligned p" using heads_okD(1) [OF ok D(3)] by auto
  have ne: "g \<noteq> young" "g \<noteq> unr" "g \<notin> set xs" "g \<notin> set ys" "g \<notin> set us" "g \<in> N" using D(1,2) by auto
  let ?t = "clr_coll g (set_prv g p s)"
  have "move_shape W s0 N young unr (xs @ [g]) ys us ?t"
  proof (rule move_shapeI)
    show "nchain ?t (young # (xs @ [g]) @ ys) young" by (rule nchain_cong [of s]) (use D(4) in simp_all)
    have "plinked ?t (young # xs)"
    proof (rule plinked_cong [OF D(5)])
      show "prv ?t x = prv s x" if "x \<in> set (tl (young # xs))" for x using that ne al by auto
    qed
    then have "plinked ?t ((young # xs) @ [g])" by (subst plinked_snoc) (use al in \<open>simp add: p_def\<close>)
    then show "plinked ?t (young # xs @ [g])" by simp
    show "ys \<noteq> [] \<Longrightarrow> prv ?t young = last ys" using D(6) al ne by simp
    show "clean ?t young" using D(7) al by (simp add: clean_def)
    show "gc_list W (unflag ?t) unr us"
    proof (rule gc_list_cong [OF D(8)])
      show "prv (unflag ?t) x = prv (unflag s) x" if "x \<in> set (unr # us)" for x using that ne al by auto
      show "clean (unflag ?t) unr" using gc_listD(5) [OF D(8)] al by (simp add: clean_def)
    qed simp
    show "coll ?t y \<longleftrightarrow> y \<in> set ys \<union> set us" if "gc_heap W y" for y using D(11) [OF that] al ne by auto
    show "?t x = s0 x" if "x \<notin> N" "x \<noteq> young" "x \<noteq> unr" for x
    proof -
      have "x \<noteq> g" using that ne by auto
      then show ?thesis using D(12) [OF that] by simp
    qed
  qed (use D al in auto)
  then show ?thesis by (simp add: p_def)
qed

lemma shape_park:
  assumes ok: "heads_ok W" and sh: "move_shape W s0 N young unr xs (g # ys) us s"
  shows "move_shape W s0 N young unr xs ys (us @ [g])
     (set_raw unr g (set_nx g (flagged unr) (set_prv g (prv s unr) (set_nx (prv s unr) (flagged g)
       (set_nx (last (young # xs)) (nx s g) s)))))"
proof -
  note D = move_shapeD [OF sh]
  define p where "p = last (young # xs)"
  define l where "l = last (unr # us)"
  have pin: "p \<in> set (young # xs)" "l \<in> set (unr # us)" by (simp_all add: p_def l_def)
  have pl: "prv s unr = l" using gc_list_prv [OF D(8)] by (simp add: l_def)
  have al: "aligned p" "aligned l" "aligned g" "aligned unr" using heads_okD(1) [OF ok D(3)] pin by auto
  have ne: "g \<noteq> young" "g \<noteq> unr" "g \<notin> set xs" "g \<notin> set ys" "g \<notin> set us" "g \<in> N" "young \<noteq> unr" using D(1,2) by auto
  have dis: "x \<in> set (young # xs @ ys) \<Longrightarrow> x \<notin> set (unr # us)" for x using D(1) by auto
  have pn: "p \<noteq> l" "p \<noteq> g" "p \<noteq> unr" "l \<noteq> g" "p \<notin> set us" using pin ne dis by auto
  have ng: "nx s g = hd (ys @ [young])" using D(4) by (simp add: nchain_append)
  let ?t = "set_raw unr g (set_nx g (flagged unr) (set_prv g l (set_nx l (flagged g) (set_nx p (nx s g) s))))"
  have nxt: "nx ?t x = (if x = g then flagged unr else if x = l then flagged g else if x = p then nx s g else nx s x)" for x
    by simp
  have prt: "prv ?t x = (if x = unr then g else if x = g then l else prv s x)" for x using al by simp
  have "move_shape W s0 N young unr xs ys (us @ [g]) ?t"
  proof (rule move_shapeI)
    have dxs: "distinct (young # xs)" using D(1) by auto
    have ch: "nchain s (young # xs) (hd (g # ys @ [young]))" "nchain s ys young"
      using D(4) nchain_append [of s "young # xs" "g # ys" young] by (simp_all add: nchain_append)
    obtain b where b: "young # xs = b @ [p]" unfolding p_def by (metis append_butlast_last_id list.distinct(1))
    have "nchain ?t (b @ [p]) (hd (ys @ [young]))"
    proof (subst nchain_append, intro conjI)
      have "nchain s b p" using ch(1) unfolding b by (simp add: nchain_append)
      moreover have "x \<notin> {g, l, p}" if "x \<in> set b" for x
      proof -
        have "x \<in> set (young # xs)" using that b by simp
        moreover have "x \<noteq> p" using that dxs b by auto
        ultimately show ?thesis using ne dis [of x] pin(2) by auto
      qed
      ultimately show "nchain ?t b (hd ([p] @ [hd (ys @ [young])]))"
        by (auto elim!: nchain_cong simp: nxt)
      show "nchain ?t [p] (hd (ys @ [young]))" using pn by (simp add: nxt ng)
    qed
    moreover have "nchain ?t ys young"
    proof (rule nchain_cong [OF ch(2)])
      fix x assume x: "x \<in> set ys"
      then have "x \<noteq> g" "x \<noteq> l" "x \<noteq> p" using ne dis [of x] pin D(1) by auto
      then show "nx ?t x = nx s x" unfolding nxt by simp
    qed
    ultimately have "nchain ?t ((young # xs) @ ys) young" unfolding b by (simp only: nchain_append)
    then show "nchain ?t (young # xs @ ys) young" by simp
    show "plinked ?t (young # xs)"
    proof (rule plinked_cong [OF D(5)])
      show "prv ?t x = prv s x" if "x \<in> set (tl (young # xs))" for x using that ne D(1) unfolding prt by auto
    qed
    show "prv ?t young = last ys" if "ys \<noteq> []" using D(6) that ne unfolding prt by simp
    show "clean ?t young" using D(7) al by simp
    show "gc_list W (unflag ?t) unr (us @ [g])"
    proof (rule gc_list_linked [OF D(8)])
      show "gc_heap W g" using D(3) by simp
      show "g \<notin> set (unr # us)" using ne by simp
      show "nx (unflag ?t) (last (unr # us)) = g" using al pn unfolding l_def [symmetric] unflag_views nxt by (simp add: aligned_or_1)
      show "nx (unflag ?t) g = unr" using al unfolding unflag_views nxt by (simp add: aligned_or_1)
      show "prv (unflag ?t) g = last (unr # us)" "prv (unflag ?t) unr = g"
        unfolding l_def [symmetric] unflag_views prt using ne by simp_all
      show "clean (unflag ?t) unr" using al by simp
      fix y
      show "nx (unflag ?t) y = nx (unflag s) y" if "y \<in> set (unr # us)" "y \<noteq> last (unr # us)"
        using that ne dis [of p] pin unfolding l_def [symmetric] unflag_views nxt by auto
      show "prv (unflag ?t) y = prv (unflag s) y" if "y \<in> set us"
        using that ne D(1) unfolding unflag_views prt by auto
    qed
    show "bit (nx ?t u) 0" if "u \<in> set (us @ [g])" for u
      using that D(9) [of u] pn unfolding nxt by (auto simp: bit_or_1)
    show "bit (nx ?t unr) 0"
      using D(10) ne pn pin(2) unfolding nxt l_def by (auto simp: bit_or_1)
    show "coll ?t y \<longleftrightarrow> y \<in> set ys \<union> set (us @ [g])" if "gc_heap W y" for y
      using D(11) [OF that] D(1) al ne that by auto
    show "?t x = s0 x" if x: "x \<notin> N" "x \<noteq> young" "x \<noteq> unr" for x
    proof -
      have "x \<noteq> g \<and> x \<noteq> p \<and> x \<noteq> l" using x ne pin D(2) by auto
      then show ?thesis using D(12) [OF x] x by simp
    qed
    show "fin ?t y = fin s0 y" if "y \<in> N" for y using D(13) [OF that] that D(1,2) al by auto
  qed (use D in auto)
  then show ?thesis by (simp add: p_def pl del: last.simps)
qed

lemma shape_revive:
  assumes ok: "heads_ok W" and sh: "move_shape W s0 N young unr xs ys (a @ k # b) s" and ys: "ys \<noteq> []"
  shows "move_shape W s0 N young unr xs (ys @ [k]) (a @ b)
     (set_rfs k 1 (set_raw young k (set_nx k young (set_nx (last ys) k (set_prv k (last ys)
       (set_prv (hd (b @ [unr])) (last (unr # a)) (set_nx (last (unr # a)) (nx s k) s)))))))"
proof -
  note D = move_shapeD [OF sh]
  define p where "p = last (unr # a)"
  define n where "n = hd (b @ [unr])"
  define l where "l = last ys"
  have pin: "p \<in> set (unr # a)" "n \<in> set (unr # b)" "l \<in> set ys" using ys by (simp_all add: p_def l_def, cases b, simp_all add: n_def)
  have al: "aligned p" "aligned n" "aligned l" "aligned k" "aligned young" "aligned unr"
    using heads_okD(1) [OF ok D(3)] pin by auto
  have ne: "k \<noteq> young" "k \<noteq> unr" "k \<notin> set xs" "k \<notin> set ys" "k \<notin> set a" "k \<notin> set b" "k \<in> N" "young \<noteq> unr"
    using D(1,2) by auto
  have dis: "x \<in> set (young # xs @ ys) \<Longrightarrow> x \<notin> set (unr # a @ k # b)" for x using D(1) by auto
  have pn: "p \<noteq> l" "p \<noteq> k" "p \<noteq> young" "n \<noteq> l" "n \<noteq> k" "n \<noteq> young" "l \<noteq> k" "l \<noteq> young" "l \<noteq> unr"
    using pin ne dis [of l] D(1) by auto
  let ?t = "set_rfs k 1 (set_raw young k (set_nx k young (set_nx l k (set_prv k l (set_prv n p (set_nx p (nx s k) s))))))"
  have nxt: "nx ?t x = (if x = k then young else if x = l then k else if x = p then nx s k else nx s x)" for x by simp
  have prt: "prv ?t x = (if x = young then k else if x = n then p else prv s x)" if "x \<noteq> k" for x using al that by simp
  have nk: "nx s k AND NOT NEXT_MASK_UNREACHABLE = hd (b @ [unr])" using gc_list_mid(2) [OF D(8)] by simp
  have "move_shape W s0 N young unr xs (ys @ [k]) (a @ b) ?t"
  proof (rule move_shapeI)
    obtain c where c: "ys = c @ [l]" unfolding l_def using ys by (metis append_butlast_last_id)
    have "nchain s ((young # xs @ c) @ [l]) young" using D(4) c by simp
    then have ch: "nchain s (young # xs @ c) l" unfolding nchain_append by simp
    have "x \<noteq> k \<and> x \<noteq> l \<and> x \<noteq> p" if "x \<in> set (young # xs @ c)" for x
      using that D(1) c ne pin dis [of x] by auto
    then have "nchain ?t (young # xs @ c) l" by (intro nchain_cong [OF ch]) (simp only: nxt, simp)
    moreover have "nchain ?t [l, k] young" using pn by (simp add: nxt)
    ultimately have "nchain ?t ((young # xs @ c) @ [l, k]) young" unfolding nchain_append by simp
    then show "nchain ?t (young # xs @ ys @ [k]) young" by (simp add: c)
    show "plinked ?t (young # xs)"
    proof (rule plinked_cong [OF D(5)])
      fix x assume "x \<in> set (tl (young # xs))"
      then have "x \<noteq> k \<and> x \<noteq> young \<and> x \<noteq> n" using ne pin dis [of x] D(1) by auto
      then show "prv ?t x = prv s x" using prt [of x] by simp
    qed
    show "prv ?t young = last (ys @ [k])" using ne prt [of young] by simp
    show "clean ?t young" using al by simp
    show "gc_list W (unflag ?t) unr (a @ b)"
    proof (rule gc_list_unlinked [OF D(8)])
      show "nx (unflag ?t) (last (unr # a)) = hd (b @ [unr])"
        unfolding p_def [symmetric] unflag_views nxt using pn nk by simp
      show "prv (unflag ?t) (hd (b @ [unr])) = last (unr # a)"
        unfolding p_def [symmetric] n_def [symmetric] unflag_views using pn prt [of n] by simp
      show "clean (unflag ?t) unr" using gc_listD(5) [OF D(8)] al by simp
      fix y assume y: "y \<in> set (unr # a @ b)"
      have yk: "y \<noteq> k" "y \<noteq> l" "y \<noteq> young" using y ne pin(3) dis D(1) by auto
      show "nx (unflag ?t) y = nx (unflag s) y" if "y \<noteq> last (unr # a)"
        using that yk unfolding p_def [symmetric] unflag_views nxt by simp
      show "prv (unflag ?t) y = prv (unflag s) y" if "y \<noteq> hd (b @ [unr])"
        using that yk prt [OF yk(1)] unfolding n_def [symmetric] unflag_views by simp
    qed
    have kb: "bit (nx s k) 0" using D(9) [of k] by simp
    show "bit (nx ?t u) 0" if u: "u \<in> set (a @ b)" for u
    proof -
      have "u \<noteq> k" "u \<noteq> l" "bit (nx s u) 0" using u ne pin(3) dis [of l] D(9) [of u] by auto
      then show ?thesis unfolding nxt using kb by simp
    qed
    show "bit (nx ?t unr) 0" if "a @ b \<noteq> []" using D(10) kb ne pn unfolding nxt by auto
    show "coll ?t y \<longleftrightarrow> y \<in> set (ys @ [k]) \<union> set (a @ b)" if h: "gc_heap W y" for y
      using D(11) [OF h] D(1) al ne by auto
    show "?t x = s0 x" if x: "x \<notin> N" "x \<noteq> young" "x \<noteq> unr" for x
    proof -
      have "x \<noteq> k \<and> x \<noteq> p \<and> x \<noteq> l \<and> x \<noteq> n" using x ne pin D(2) by auto
      then show ?thesis using D(12) [OF x] x by simp
    qed
    show "fin ?t y = fin s0 y" if "y \<in> N" for y using D(13) [OF that] that D(1,2) al by auto
  qed (use D in auto)
  then show ?thesis by (simp add: p_def n_def l_def del: last.simps)
qed

end
