(* ===== verification/PyGcDeduce.thy ===== *)
theory PyGcDeduce
  imports PyGcMove
begin

unbundle bit_operations_syntax

text \<open>
  \<open>move_unreachable\<close> and \<open>deduce_unreachable\<close>: the loop ends, no assertion fails, the objects that
  stay in the list are those reachable from outside and the ones that leave it are the others.
\<close>

section \<open>A visit\<close>

lemma shape_nx:
  assumes "heads_ok W" and sh: "move_shape W s0 N young unr xs ys us s" and "y \<in> set ys"
  shows "nx s y \<noteq> 0" "\<not> bit (nx s y) 0"
proof -
  note D = move_shapeD [OF sh]
  obtain a b where ys: "ys = a @ y # b" using assms(3) by (meson split_list)
  have "nchain s ((young # xs @ a) @ y # b) young" using D(4) ys by simp
  then have n: "nx s y = hd (b @ [young])" unfolding nchain_append by simp
  have "hd (b @ [young]) \<in> set (young # xs @ ys)" using ys by (cases b) auto
  then have "gc_heap W (nx s y)" using D(3) n by auto
  then show "nx s y \<noteq> 0" "\<not> bit (nx s y) 0"
    using heads_okD [OF assms(1)] aligned_bit [of "nx s y" 0] by auto
qed

lemma owp_visit_reachable:
  assumes ok: "heads_ok W" and sh: "move_shape W s0 N young unr xs ys us s" and ys: "ys \<noteq> []"
    and op: "object_is_gc W op \<Longrightarrow> gc_heap W (AS_GC op)"
    and Q: "\<And>t ws us'. \<lbrakk>move_shape W s0 N young unr xs (ys @ ws) us' t;
        \<And>y. y \<in> set ys \<Longrightarrow> rfs s y > 0 \<Longrightarrow> rfs t y > 0;
        \<And>y. y \<in> set (ys @ ws) \<Longrightarrow> rfs t y > 0 \<Longrightarrow> y \<in> set ys \<and> rfs s y > 0 \<or> y \<in> set (kids_of W [op]);
        \<And>y. y \<in> set (kids_of W [op]) \<Longrightarrow> y \<in> N \<Longrightarrow> y \<in> set xs \<or> y \<in> set (ys @ ws) \<and> rfs t y > 0\<rbrakk> \<Longrightarrow> Q () t"
  shows "owp d (visit_reachable W young op) Q E s"
proof (cases "object_is_gc W op")
  case False
  have "Q () s" by (rule Q [where ws = "[]" and us' = us]) (use sh False in \<open>auto simp: kids_of_single\<close>)
  then show ?thesis using False by (simp add: visit_reachable_def)
next
  case gc: True
  note D = move_shapeD [OF sh]
  define k where "k = AS_GC op"
  have h: "gc_heap W k" using op gc by (simp add: k_def)
  have kd: "set (kids_of W [op]) = {k}" using gc by (simp add: kids_of_single k_def)
  consider (other) "k \<notin> set ys \<union> set us" | (parked) "k \<in> set us" | (zero) "k \<in> set ys" "rfs s k = 0" | (pos) "k \<in> set ys" "rfs s k > 0"
    using rfs_nonneg [of s k] by (auto simp: order_le_less)
  then show ?thesis
  proof cases
    case other
    then have "\<not> coll s k" using D(11) [OF h] by simp
    moreover have "k \<in> set xs" if "k \<in> N" using that D(2) other by auto
    then have "Q () s" by (intro Q [where ws = "[]" and us' = us]) (use sh kd in auto)
    ultimately show ?thesis using gc h by (simp add: visit_reachable_def Let_def flip: k_def nx_def)
  next
    case pos
    then have "coll s k" using D(11) [OF h] by simp
    moreover have "Q () s" by (rule Q [where ws = "[]" and us' = us]) (use sh kd pos in auto)
    ultimately show ?thesis
      using gc h pos shape_nx [OF ok sh pos(1)] by (simp add: visit_reachable_def and_unreachable flip: k_def nx_def)
  next
    case zero
    have "Q () (set_rfs k 1 s)"
    proof (rule Q [where ws = "[]" and us' = us])
      show "move_shape W s0 N young unr xs (ys @ []) us (set_rfs k 1 s)" using shape_mark [OF sh zero(1)] by simp
      have r: "rfs (set_rfs k 1 s) y = (if y = k then 1 else rfs s y)" for y by simp
      show "rfs (set_rfs k 1 s) y > 0" if "rfs s y > 0" for y using that unfolding r by simp
      show "y \<in> set ys \<and> rfs s y > 0 \<or> y \<in> set (kids_of W [op])"
        if "y \<in> set (ys @ [])" "rfs (set_rfs k 1 s) y > 0" for y
        using that unfolding r kd by (cases "y = k") simp_all
      show "y \<in> set xs \<or> y \<in> set (ys @ []) \<and> rfs (set_rfs k 1 s) y > 0" if "y \<in> set (kids_of W [op])" for y
        using that zero unfolding r kd by simp
    qed
    moreover have "coll s k" using D(11) [OF h] zero by simp
    ultimately show ?thesis
      using gc h zero shape_nx [OF ok sh zero(1)] by (simp add: visit_reachable_def and_unreachable flip: k_def nx_def)
  next
    case parked
    then obtain a b where us: "us = a @ k # b" by (meson split_list)
    define p where "p = last (unr # a)"
    define n where "n = hd (b @ [unr])"
    define l where "l = last ys"
    have pin: "p \<in> set (unr # a)" "n \<in> set (unr # b)" "l \<in> set ys" using ys by (simp_all add: p_def l_def, cases b, simp_all add: n_def)
    have hh: "gc_heap W p" "gc_heap W n" "gc_heap W l" "gc_heap W young" using D(3) pin us by auto
    have al: "aligned p" "aligned n" "aligned l" "aligned k" using heads_okD(1) [OF ok] hh h by auto
    have pk: "prv s k = p" "nx s k AND NOT NEXT_MASK_UNREACHABLE = n"
      using gc_list_mid [OF D(8) [unfolded us]] by (simp_all add: p_def n_def)
    have kb: "bit (nx s k) 0" using D(9) parked .
    then have nz: "nx s k \<noteq> 0" by auto
    have fl: "bit (nx s p) 0" "bit (nx s n) 0"
      using pin D(9) [of p] D(9) [of n] D(10) us by auto
    have c: "coll s k" using D(11) [OF h] parked by simp
    have ne: "young \<noteq> n" "k \<noteq> young" using pin us D(1) by auto
    have yl: "prv s young = l" using D(6) [OF ys] by (simp add: l_def)
    let ?t = "set_rfs k 1 (set_raw young k (set_nx k young (set_nx l k (set_prv k l (set_prv n p (set_nx p (nx s k) s))))))"
    have dk: "k \<notin> set ys" "young \<notin> set ys" "n \<notin> set ys" using us D(1) pin by auto
    have rt: "rfs ?t y = (if y = k then 1 else rfs s y)" if "y \<in> set (ys @ [k])" for y
    proof (cases "y = k")
      case False
      then have "y \<noteq> young \<and> y \<noteq> n" using that dk by auto
      then show ?thesis using False by simp
    qed simp
    have "Q () ?t"
    proof (rule Q [where ws = "[k]" and us' = "a @ b"])
      show "move_shape W s0 N young unr xs (ys @ [k]) (a @ b) ?t"
        using shape_revive [OF ok sh [unfolded us] ys] by (simp add: p_def n_def l_def del: last.simps)
      show "rfs ?t y > 0" if "y \<in> set ys" "rfs s y > 0" for y using rt [of y] that by simp
      show "y \<in> set ys \<and> rfs s y > 0 \<or> y \<in> set (kids_of W [op])" if "y \<in> set (ys @ [k])" "rfs ?t y > 0" for y
        using rt [OF that(1)] that kd by (cases "y = k") auto
      show "y \<in> set xs \<or> y \<in> set (ys @ [k]) \<and> rfs ?t y > 0" if "y \<in> set (kids_of W [op])" "y \<in> N" for y
        using that kd rt [of y] by auto
    qed
    then show ?thesis
      unfolding visit_reachable_def k_def [symmetric]
      using gc h hh al c kb nz fl pk D(7) yl ne by (simp add: and_unreachable gc_list_append_def clean_raw Let_def flip: nx_def)
  qed
qed

section \<open>The loop\<close>

definition move_sem :: "gc_world \<Rightarrow> addr list \<Rightarrow> addr list \<Rightarrow> addr list \<Rightarrow> gc_store \<Rightarrow> bool" where
  "move_sem W zs xs ys s \<longleftrightarrow>
     (\<forall>x \<in> set xs. gc_reach W zs x)
     \<and> (\<forall>x \<in> set xs. \<forall>y \<in> set (kids W x). y \<in> set zs \<longrightarrow> y \<in> set xs \<or> y \<in> set ys \<and> rfs s y > 0)
     \<and> (\<forall>y \<in> set ys. rfs s y > 0 \<longrightarrow> gc_reach W zs y)
     \<and> (\<forall>y \<in> set zs. external_refs W zs y > 0 \<longrightarrow> y \<in> set xs \<or> y \<in> set ys \<and> rfs s y > 0)"

lemma owp_scan:
  assumes g: "graph_ok W zs" and sh: "move_shape W s0 (set zs) young unr xs (g # ys) us s"
    and sem: "move_sem W zs xs (g # ys) s" and pos: "rfs s g > 0"
    and Q: "\<And>t ws us'. move_shape W s0 (set zs) young unr (xs @ [g]) (ys @ ws) us' t \<Longrightarrow>
      move_sem W zs (xs @ [g]) (ys @ ws) t \<Longrightarrow> Q g t"
  shows "owp d (move_step W young unr (last (young # xs)) g) Q E s"
proof -
  have ok: "heads_ok W" using g by (rule graph_okD)
  have D0: "g \<in> set zs" "gc_heap W g" using move_shapeD(2,3) [OF sh] by auto
  have rg: "gc_reach W zs g" using sem pos unfolding move_sem_def by simp
  let ?I = "\<lambda>ops t. \<exists>ws us'. move_shape W s0 (set zs) young unr xs (g # ys @ ws) us' t \<and> move_sem W zs xs (g # ys @ ws) t
      \<and> rfs t g > 0 \<and> (\<forall>y \<in> set (kids_of W ops). y \<in> set zs \<longrightarrow> y \<in> set xs \<or> y \<in> set (g # ys @ ws) \<and> rfs t y > 0)"
  have "owp d (traverse W (FROM_GC g) (visit_reachable W young))
     (\<lambda>_. owp d (SET_PREV W g (last (young # xs))) (\<lambda>_. owp d (gc_clear_collecting W g) (\<lambda>_. Q g) E) E) E s"
  proof (rule owp_traverse [where I = ?I])
    show "?I [] s" by (rule exI [of _ "[]"], rule exI [of _ us]) (use sh sem pos in \<open>simp add: kids_of_def\<close>)
  next
    fix p op q t assume ops: "tp_traverse W (FROM_GC g) = p @ op # q" and I: "?I p t"
    then obtain ws us' where I1: "move_shape W s0 (set zs) young unr xs (g # ys @ ws) us' t"
      and I2: "move_sem W zs xs (g # ys @ ws) t" and I3: "rfs t g > 0"
      and I4: "\<forall>y \<in> set (kids_of W p). y \<in> set zs \<longrightarrow> y \<in> set xs \<or> y \<in> set (g # ys @ ws) \<and> rfs t y > 0" by blast
    have opin: "op \<in> set (tp_traverse W (FROM_GC g))" using ops by simp
    have kg: "y \<in> set (kids W g)" if "y \<in> set (kids_of W [op])" for y
      using that by (simp add: kids_def ops kids_of_def split: if_splits)
    show "owp d (visit_reachable W young op) (\<lambda>_ u. ?I (p @ [op]) u) E t"
    proof (rule owp_visit_reachable [OF ok I1])
      show "object_is_gc W op \<Longrightarrow> gc_heap W (AS_GC op)" by (rule graph_okD(3) [OF g D0(1) opin])
      fix u vs us2
      assume u1: "move_shape W s0 (set zs) young unr xs ((g # ys @ ws) @ vs) us2 u"
        and u2: "\<And>y. y \<in> set (g # ys @ ws) \<Longrightarrow> rfs t y > 0 \<Longrightarrow> rfs u y > 0"
        and u3: "\<And>y. y \<in> set ((g # ys @ ws) @ vs) \<Longrightarrow> rfs u y > 0 \<Longrightarrow>
           y \<in> set (g # ys @ ws) \<and> rfs t y > 0 \<or> y \<in> set (kids_of W [op])"
        and u4: "\<And>y. y \<in> set (kids_of W [op]) \<Longrightarrow> y \<in> set zs \<Longrightarrow> y \<in> set xs \<or> y \<in> set ((g # ys @ ws) @ vs) \<and> rfs u y > 0"
      have N: "set xs \<union> set ((g # ys @ ws) @ vs) \<union> set us2 = set zs" using move_shapeD(2) [OF u1] by auto
      have keep: "y \<in> set ((g # ys @ ws) @ vs) \<and> rfs u y > 0" if "y \<in> set (g # ys @ ws) \<and> rfs t y > 0" for y
        using that u2 by auto
      have "move_sem W zs xs ((g # ys @ ws) @ vs) u"
        unfolding move_sem_def
      proof (intro conjI ballI impI)
        show "gc_reach W zs x" if "x \<in> set xs" for x using I2 that unfolding move_sem_def by blast
        show "y \<in> set xs \<or> y \<in> set ((g # ys @ ws) @ vs) \<and> rfs u y > 0"
          if "x \<in> set xs" "y \<in> set (kids W x)" "y \<in> set zs" for x y
          using I2 that keep unfolding move_sem_def by blast
        show "y \<in> set xs \<or> y \<in> set ((g # ys @ ws) @ vs) \<and> rfs u y > 0"
          if "y \<in> set zs" "external_refs W zs y > 0" for y
          using I2 that keep unfolding move_sem_def by blast
        fix y assume y: "y \<in> set ((g # ys @ ws) @ vs)" "rfs u y > 0"
        have "y \<in> set zs" using y N by blast
        then show "gc_reach W zs y"
          using u3 [OF y] I2 gc_ref [OF rg kg, of y] unfolding move_sem_def by blast
      qed
      moreover have "\<forall>y \<in> set (kids_of W (p @ [op])). y \<in> set zs \<longrightarrow> y \<in> set xs \<or> y \<in> set ((g # ys @ ws) @ vs) \<and> rfs u y > 0"
        using I4 u4 keep unfolding kids_of_append by (metis Un_iff set_append)
      ultimately show "?I (p @ [op]) u"
        using u1 u2 [of g] I3 by (intro exI [of _ "ws @ vs"] exI [of _ us2]) simp
    qed simp
  next
    fix t assume "?I (tp_traverse W (FROM_GC g)) t"
    then obtain ws us' where I1: "move_shape W s0 (set zs) young unr xs (g # ys @ ws) us' t"
      and I2: "move_sem W zs xs (g # ys @ ws) t"
      and I4: "\<forall>y \<in> set (kids W g). y \<in> set zs \<longrightarrow> y \<in> set xs \<or> y \<in> set (g # ys @ ws) \<and> rfs t y > 0"
      unfolding kids_def by blast
    let ?t = "clr_coll g (set_prv g (last (young # xs)) t)"
    have "last (young # xs) \<in> set (young # xs)" by simp
    then have al: "aligned (last (young # xs))" using heads_okD(1) [OF ok move_shapeD(3) [OF I1]] by auto
    have gy: "g \<notin> set (ys @ ws)" using move_shapeD(1) [OF I1] by auto
    have r: "rfs ?t y = rfs t y" if "y \<in> set (ys @ ws)" for y
    proof -
      have "y \<noteq> g" using that gy by auto
      then show ?thesis by (simp del: last.simps)
    qed
    have up: "y \<in> set (xs @ [g]) \<or> y \<in> set (ys @ ws) \<and> rfs ?t y > 0"
      if "y \<in> set xs \<or> y \<in> set (g # ys @ ws) \<and> rfs t y > 0" for y
      using that r [of y] by auto
    have "move_sem W zs (xs @ [g]) (ys @ ws) ?t"
      unfolding move_sem_def
    proof (intro conjI ballI impI)
      show "gc_reach W zs x" if "x \<in> set (xs @ [g])" for x using I2 rg that unfolding move_sem_def by auto
      show "y \<in> set (xs @ [g]) \<or> y \<in> set (ys @ ws) \<and> rfs ?t y > 0"
        if "x \<in> set (xs @ [g])" "y \<in> set (kids W x)" "y \<in> set zs" for x y
      proof (rule up)
        show "y \<in> set xs \<or> y \<in> set (g # ys @ ws) \<and> rfs t y > 0"
          using that I2 I4 unfolding move_sem_def by (cases "x = g") auto
      qed
      show "y \<in> set (xs @ [g]) \<or> y \<in> set (ys @ ws) \<and> rfs ?t y > 0"
        if "y \<in> set zs" "external_refs W zs y > 0" for y
        using I2 that unfolding move_sem_def by (intro up) blast
      show "gc_reach W zs y" if "y \<in> set (ys @ ws)" "rfs ?t y > 0" for y
        using I2 that r [of y] unfolding move_sem_def by auto
    qed
    then have "Q g ?t" using shape_scan [OF ok I1] by (intro Q)
    then show "owp d (SET_PREV W g (last (young # xs))) (\<lambda>_. owp d (gc_clear_collecting W g) (\<lambda>_. Q g) E) E t"
      using al D0(2) by (simp del: last.simps)
  qed
  then show ?thesis using pos D0(2) by (simp add: move_step_def)
qed

lemma owp_park:
  assumes ok: "heads_ok W" and sh: "move_shape W s0 (set zs) young unr xs (g # ys) us s"
    and sem: "move_sem W zs xs (g # ys) s" and z: "rfs s g = 0"
    and Q: "\<And>t. move_shape W s0 (set zs) young unr xs ys (us @ [g]) t \<Longrightarrow> move_sem W zs xs ys t \<Longrightarrow>
      Q (last (young # xs)) t"
  shows "owp d (move_step W young unr (last (young # xs)) g) Q E s"
proof -
  note D = move_shapeD [OF sh]
  define p where "p = last (young # xs)"
  define l where "l = prv s unr"
  have l: "l = last (unr # us)" using gc_list_prv [OF D(8)] by (simp add: l_def)
  have pin: "p \<in> set (young # xs)" "l \<in> set (unr # us)" unfolding l by (simp_all add: p_def)
  have h: "gc_heap W p" "gc_heap W l" "gc_heap W g" "gc_heap W unr" using D(3) pin by auto
  have al: "aligned l" by (rule heads_okD(1) [OF ok h(2)])
  have pu: "p \<noteq> unr" using pin D(1) by auto
  let ?t = "set_raw unr g (set_nx g (flagged unr) (set_prv g l (set_nx l (flagged g) (set_nx p (nx s g) s))))"
  have r: "rfs ?t y = rfs s y" if "y \<in> set ys" for y
  proof -
    have "y \<noteq> g \<and> y \<noteq> unr" using that D(1) by auto
    then show ?thesis by simp
  qed
  have up: "y \<in> set xs \<or> y \<in> set ys \<and> rfs ?t y > 0" if "y \<in> set xs \<or> y \<in> set (g # ys) \<and> rfs s y > 0" for y
    using that z r [of y] by auto
  have "move_sem W zs xs ys ?t"
    unfolding move_sem_def
  proof (intro conjI ballI impI)
    show "gc_reach W zs x" if "x \<in> set xs" for x using sem that unfolding move_sem_def by blast
    show "y \<in> set xs \<or> y \<in> set ys \<and> rfs ?t y > 0" if "x \<in> set xs" "y \<in> set (kids W x)" "y \<in> set zs" for x y
      using sem that unfolding move_sem_def by (intro up) blast
    show "y \<in> set xs \<or> y \<in> set ys \<and> rfs ?t y > 0" if "y \<in> set zs" "external_refs W zs y > 0" for y
      using sem that unfolding move_sem_def by (intro up) blast
    show "gc_reach W zs y" if "y \<in> set ys" "rfs ?t y > 0" for y
      using sem that r [of y] unfolding move_sem_def by auto
  qed
  moreover have "move_shape W s0 (set zs) young unr xs ys (us @ [g]) ?t"
    using shape_park [OF ok sh] by (simp only: p_def l_def)
  ultimately have "Q p ?t" unfolding p_def by (intro Q)
  moreover have "prv (set_nx p (nx s g) s) unr = l" by (simp add: l_def)
  ultimately show ?thesis
    unfolding move_step_def p_def [symmetric] using h al z pu by (simp add: l_def nx_def)
qed

declare move_loop.simps [simp del]

lemma owp_move_loop:
  assumes g: "graph_ok W zs"
    and "move_shape W s0 (set zs) young unr xs ys us s" and "move_sem W zs xs ys s"
    and "\<And>xs us t. move_shape W s0 (set zs) young unr xs [] us t \<Longrightarrow> move_sem W zs xs [] t \<Longrightarrow> Q (last (young # xs)) t"
  shows "owp False (move_loop W young unr (last (young # xs)) (hd (ys @ [young]))) Q E s"
  using assms(2-)
proof (induction "(card (set zs - set xs), length ys)" arbitrary: xs ys us s rule: wf_induct_rule [OF wf_lex_prod [OF wf_less_than wf_less_than]])
  case (1 xs ys us s)
  have ok: "heads_ok W" using g by (rule graph_okD)
  note D = move_shapeD [OF 1(2)]
  show ?case
  proof (cases ys)
    case Nil
    have "move_loop W young unr (last (young # xs)) young s = oret (last (young # xs)) s"
      by (subst move_loop.simps) simp
    then have "owp False (move_loop W young unr (last (young # xs)) young) Q E s = Q (last (young # xs)) s"
      by (simp add: owp_def oret_def)
    then show ?thesis using 1(2-) Nil by simp
  next
    case (Cons g' ys')
    have gy: "g' \<noteq> young" using D(1) Cons by auto
    let ?rest = "\<lambda>p'. obind (gc_read W p' gc_next) (\<lambda>gc'. move_loop W young unr p' gc')"
    have "move_loop W young unr (last (young # xs)) g' s
        = obind (move_step W young unr (last (young # xs)) g') ?rest s"
      using gy by (subst move_loop.simps) simp
    then have e: "owp False (move_loop W young unr (last (young # xs)) g') Q E s
        = owp False (obind (move_step W young unr (last (young # xs)) g') ?rest) Q E s" by (simp only: owp_def)
    have rest: "owp False (?rest (last (young # xs2))) Q E t"
      if sh: "move_shape W s0 (set zs) young unr xs2 ys2 us2 t" and sem: "move_sem W zs xs2 ys2 t"
        and less: "((card (set zs - set xs2), length ys2), card (set zs - set xs), length ys) \<in> less_than <*lex*> less_than"
      for xs2 ys2 us2 t
    proof -
      note D2 = move_shapeD [OF sh]
      have "last (young # xs2) \<in> set (young # xs2)" by simp
      then have h: "gc_heap W (last (young # xs2))" using D2(3) by auto
      have "nchain t ((young # xs2) @ ys2) young" using D2(4) by simp
      then have c: "nchain t (young # xs2) (hd (ys2 @ [young]))" unfolding nchain_append by blast
      obtain b where "young # xs2 = b @ [last (young # xs2)]" by (metis append_butlast_last_id list.distinct(1))
      then have "nchain t (b @ [last (young # xs2)]) (hd (ys2 @ [young]))" using c by metis
      then have "nx t (last (young # xs2)) = hd (ys2 @ [young])" unfolding nchain_append by simp
      moreover have "owp False (move_loop W young unr (last (young # xs2)) (hd (ys2 @ [young]))) Q E t"
        by (rule 1(1) [OF less sh sem 1(4)])
      ultimately show ?thesis using h by (simp flip: nx_def del: last.simps)
    qed
    have sub: "set xs \<subseteq> set zs" "g' \<in> set zs" "g' \<notin> set xs" using D(1,2) Cons by auto
    have "owp False (move_step W young unr (last (young # xs)) g') (\<lambda>p'. owp False (?rest p') Q E) E s"
    proof (cases "rfs s g' > 0")
      case True
      show ?thesis
      proof (rule owp_scan [OF g 1(2,3) [unfolded Cons] True])
        fix t ws us'
        assume sh: "move_shape W s0 (set zs) young unr (xs @ [g']) (ys' @ ws) us' t" and sem: "move_sem W zs (xs @ [g']) (ys' @ ws) t"
        have "set zs - set (xs @ [g']) \<subset> set zs - set xs" using sub by auto
        then have "card (set zs - set (xs @ [g'])) < card (set zs - set xs)" by (rule psubset_card_mono [rotated]) simp
        then have "owp False (?rest (last (young # xs @ [g']))) Q E t" by (intro rest [OF sh sem]) simp
        then show "owp False (?rest g') Q E t" by simp
      qed
    next
      case False
      then have z: "rfs s g' = 0" using rfs_nonneg [of s g'] by linarith
      show ?thesis
      proof (rule owp_park [OF ok 1(2,3) [unfolded Cons] z])
        fix t assume "move_shape W s0 (set zs) young unr xs ys' (us @ [g']) t" "move_sem W zs xs ys' t"
        then show "owp False (?rest (last (young # xs))) Q E t" by (rule rest) (simp add: Cons)
      qed
    qed
    then show ?thesis using e Cons by simp
  qed
qed

end
