(* ===== verification/PyGcSpec.thy ===== *)
theory PyGcSpec
  imports PyGcDeduce
begin

unbundle bit_operations_syntax

text \<open>
  The phases of a collection: what \<open>deduce_unreachable\<close> returns, the objects that legacy
  finalizers keep, and the objects that a finalizer has brought back.
\<close>

section \<open>Finding the unreachable objects\<close>

text \<open>The list of unreachable objects while their next pointers are flagged.\<close>

definition unreachable_list :: "gc_world \<Rightarrow> gc_store \<Rightarrow> addr \<Rightarrow> addr list \<Rightarrow> bool" where
  "unreachable_list W s unr us \<longleftrightarrow> gc_list W (unflag s) unr us \<and> \<not> bit (nx s unr) 0
     \<and> (\<forall>u \<in> set us. bit (nx s u) 0 \<and> coll s u)"

text \<open>
  The outcome of \<open>deduce_unreachable\<close> on the list \<open>base\<close> of the objects \<open>zs\<close>: \<open>xs\<close> stay, \<open>us\<close> leave.
\<close>

definition deduced ::
    "gc_world \<Rightarrow> gc_store \<Rightarrow> addr \<Rightarrow> addr \<Rightarrow> addr list \<Rightarrow> addr list \<Rightarrow> addr list \<Rightarrow> gc_store \<Rightarrow> bool" where
  "deduced W s base unr zs xs us t \<longleftrightarrow>
     gc_list W t base xs \<and> unreachable_list W t unr us
     \<and> (\<forall>y. gc_heap W y \<longrightarrow> (coll t y \<longleftrightarrow> y \<in> set us))
     \<and> distinct (base # unr # xs @ us)
     \<and> set xs = {y \<in> set zs. gc_reach W zs y} \<and> set us = {y \<in> set zs. \<not> gc_reach W zs y}
     \<and> (\<forall>y. y \<notin> set (base # unr # zs) \<longrightarrow> t y = s y) \<and> (\<forall>y \<in> set zs. fin t y = fin s y)"

lemma owp_move_unreachable:
  assumes g: "graph_ok W zs" and sh: "move_shape W s0 (set zs) young unr [] zs [] s"
    and r: "\<And>y. y \<in> set zs \<Longrightarrow> rfs s y = external_refs W zs y"
    and Q: "\<And>xs us t. deduced W s0 young unr zs xs us t \<Longrightarrow> Q () t"
  shows "owp False (move_unreachable W young unr) Q E s"
proof -
  have ok: "heads_ok W" using g by (rule graph_okD)
  note D = move_shapeD [OF sh]
  have h: "gc_heap W young" "gc_heap W unr" using D(3) by auto
  have sem: "move_sem W zs [] zs s"
    unfolding move_sem_def using r by (auto intro: gc_root)
  have n: "nx s young = hd (zs @ [young])" using D(4) by simp
  let ?rest = "\<lambda>prev. obind (write_prev W young prev) (\<lambda>_. obind (gc_read W unr gc_next)
      (\<lambda>x. write_next W unr (x AND NOT NEXT_MASK_UNREACHABLE)))"
  have "owp False (move_loop W young unr (last (young # [])) (hd (zs @ [young]))) (\<lambda>p. owp False (?rest p) Q E) E s"
  proof (rule owp_move_loop [OF g sh sem])
    fix xs us t assume sh': "move_shape W s0 (set zs) young unr xs [] us t" and se: "move_sem W zs xs [] t"
    note D = move_shapeD [OF sh']
    define p where "p = last (young # xs)"
    have "p \<in> set (young # xs)" by (simp add: p_def)
    then have hp: "gc_heap W p" using D(3) by auto
    have al: "aligned p" using hp by (rule heads_okD(1) [OF ok])
    have yu: "young \<noteq> unr" using D(1) by simp
    let ?u = "nx t unr AND NOT NEXT_MASK_UNREACHABLE"
    let ?t = "set_nx unr ?u (set_raw young p t)"
    have nf: "\<not> bit ?u 0" by (simp add: bit_and_iff bit_not_iff bit_masks)
    have sg: "seg t (young # xs)" by (rule plinked_seg [OF D(5), of young]) (use D(4) in simp)
    have sg': "seg ?t (young # xs)"
    proof (rule seg_cong [OF sg])
      show "nx ?t x = nx t x" if "x \<in> set (butlast (young # xs))" for x
      proof -
        have "x \<noteq> unr" using in_set_butlastD [OF that] D(1) by auto
        then show ?thesis by simp
      qed
      show "prv ?t x = prv t x" if "x \<in> set (tl (young # xs))" for x using that D(1) al by auto
    qed
    obtain b where b: "young # xs = b @ [p]" unfolding p_def by (metis append_butlast_last_id list.distinct(1))
    have "nchain t (b @ [p]) young" using D(4) b by simp
    then have np: "nx t p = young" unfolding nchain_append by simp
    have pu: "p \<noteq> unr" using \<open>p \<in> set (young # xs)\<close> D(1) by auto
    have "gc_list W ?t young xs"
      unfolding gc_list_def p_def [symmetric]
      using sg' D(1,3,7) al np pu by (auto simp: dlink_def)
    moreover have "unreachable_list W ?t unr us"
      unfolding unreachable_list_def
    proof (intro conjI ballI)
      show "gc_list W (unflag ?t) unr us"
      proof (rule gc_list_cong [OF D(8)])
        show "nx (unflag ?t) x = nx (unflag t) x" for x using nf by (simp add: no_flag_id)
        show "prv (unflag ?t) x = prv (unflag t) x" if "x \<in> set (unr # us)" for x using that D(1) al by auto
        show "clean (unflag ?t) unr" using gc_listD(5) [OF D(8)] al by simp
      qed
      show "\<not> bit (nx ?t unr) 0" using nf by simp
      show "bit (nx ?t u) 0" "coll ?t u" if "u \<in> set us" for u
      proof -
        have "u \<noteq> unr \<and> u \<noteq> young" "gc_heap W u" using that D(1,3) by auto
        then show "bit (nx ?t u) 0" "coll ?t u" using that D(9) D(11) [of u] al by simp_all
      qed
    qed
    moreover have "set xs = {y \<in> set zs. gc_reach W zs y}"
    proof
      show "set xs \<subseteq> {y \<in> set zs. gc_reach W zs y}" using se unfolding move_sem_def by (auto dest: gc_reach_in)
      show "{y \<in> set zs. gc_reach W zs y} \<subseteq> set xs"
      proof clarify
        fix y assume "gc_reach W zs y"
        then show "y \<in> set xs"
          by (rule gc_reach_least [where P = "\<lambda>y. y \<in> set xs"]) (use se in \<open>auto simp: move_sem_def\<close>)
      qed
    qed
    moreover have "set us = {y \<in> set zs. \<not> gc_reach W zs y}"
    proof -
      have "set us = set zs - set xs" using D(1,2) by auto
      then show ?thesis using calculation(3) by auto
    qed
    moreover have "coll ?t y \<longleftrightarrow> y \<in> set us" if "gc_heap W y" for y
      using D(1) D(7) D(11) [OF that] al by (auto simp: clean_def)
    moreover have "?t y = s0 y" if "y \<notin> set (young # unr # zs)" for y using that D(12) [of y] by simp
    moreover have "fin ?t y = fin s0 y" if "y \<in> set zs" for y using D(13) [OF that] that D(1,2) al by auto
    ultimately have "deduced W s0 young unr zs xs us ?t" using D(1) unfolding deduced_def by (intro conjI) auto
    then have "Q () ?t" by (rule Q)
    moreover have "gc_next (set_raw young p t unr) = nx t unr" using nx_sets(2) [of young p t unr] by (simp add: nx_def)
    ultimately show "owp False (?rest (last (young # xs))) Q E t"
      unfolding p_def [symmetric] using h by simp
  qed
  then show ?thesis using h n by (simp add: move_unreachable_def)
qed

lemma owp_deduce_unreachable:
  assumes g: "graph_ok W zs" and l: "gc_list W s base zs" and c: "\<And>y. gc_heap W y \<Longrightarrow> \<not> coll s y"
    and u: "gc_heap W unr" "unr \<notin> set (base # zs)"
    and Q: "\<And>xs us t. deduced W s base unr zs xs us t \<Longrightarrow> Q () t"
  shows "owp False (deduce_unreachable W base unr) Q E s"
proof -
  have ok: "heads_ok W" using g by (rule graph_okD)
  have h: "gc_heap W base" using l by (rule gc_list_heap)
  have hz: "\<forall>y \<in> set zs. gc_heap W y" using gc_listD(4) [OF l] by simp
  have d: "distinct (base # zs)" using l by (rule gc_listD)
  have ch: "nchain s (base # zs) base" using l by (rule gc_list_nchain)
  let ?val = "\<lambda>_. obind (validate_list W base collecting_clear_unreachable_clear) (\<lambda>_. validate_list W unr collecting_set_unreachable_set)"
  have last: "owp False (?val ()) Q E t" if t: "deduced W s base unr zs xs us t" for xs us t
  proof -
    have b: "gc_list W t base xs" and uu: "unreachable_list W t unr us"
      and co: "\<forall>y. gc_heap W y \<longrightarrow> (coll t y \<longleftrightarrow> y \<in> set us)" and dd: "distinct (base # unr # xs @ us)"
      using t unfolding deduced_def by blast+
    have "owp False (validate_list W unr collecting_set_unreachable_set) Q E t"
      using uu Q [OF t]
      by (intro owp_validate_list [OF ok]) (auto simp: unreachable_list_def flag_prev_value_def flag_next_value_def)
    moreover have "coll t x \<longleftrightarrow> False" if "x \<in> set xs" for x
      using co gc_list_heap(2) [OF b that] that dd by auto
    ultimately show ?thesis unfolding owp_obind by (intro owp_validate_plain [OF ok b]) auto
  qed
  have mv: "owp False (obind (gc_list_init W unr) (\<lambda>_. obind (move_unreachable W base unr) ?val)) Q E s2"
    if n: "\<And>y. nx s2 y = nx s y" and f: "\<And>y. fin s2 y = fin s y" and cl: "\<And>y. gc_heap W y \<Longrightarrow> coll s2 y \<longleftrightarrow> y \<in> set zs"
      and fr: "\<And>y. y \<notin> set zs \<Longrightarrow> s2 y = s y" and r: "\<And>y. y \<in> set zs \<Longrightarrow> rfs s2 y = external_refs W zs y" for s2
    unfolding owp_obind [of _ "gc_list_init W unr"]
  proof (rule owp_gc_list_init [OF ok u(1)])
    fix s3 assume e: "gc_list W s3 unr []" and s3: "\<And>y. y \<noteq> unr \<Longrightarrow> s3 y = s2 y"
    have sb: "s3 base = s base" using s3 [of base] fr [of base] u(2) d by auto
    have v: "nx s3 y = nx s y" "fin s3 y = fin s y" "rfs s3 y = rfs s2 y" "coll s3 y = coll s2 y" if "y \<noteq> unr" for y
      using s3 [OF that] n [of y] f [of y] by (simp_all add: view_defs)
    have "move_shape W s (set zs) base unr [] zs [] s3"
    proof (rule move_shapeI)
      show "distinct (base # unr # [] @ zs @ [])" using d u(2) by auto
      show "gc_heap W y" if "y \<in> set (base # unr # [] @ zs @ [])" for y using that h u hz by auto
      show "nchain s3 (base # [] @ zs) base"
        unfolding append_Nil by (rule nchain_cong [OF ch], rule v(1)) (use u(2) in auto)
      show "plinked s3 [base]" by (simp add: plinked_def)
      show "prv s3 base = last zs" if "zs \<noteq> []" using gc_list_prv [OF l] that sb by (simp add: prv_def)
      show "clean s3 base" using gc_listD(5) [OF l] sb by (simp add: clean_def view_defs)
      show "gc_list W (unflag s3) unr []" by (rule gc_list_unflag [OF ok e])
      show "coll s3 y \<longleftrightarrow> y \<in> set zs \<union> set []" if "gc_heap W y" for y
      proof (cases "y = unr")
        case True
        then show ?thesis using gc_listD(5) [OF e] u(2) by (simp add: clean_def)
      next
        case False
        then show ?thesis using v(4) cl [OF that] by simp
      qed
      show "s3 y = s y" if "y \<notin> set zs" "y \<noteq> base" "y \<noteq> unr" for y using s3 fr that by simp
      show "fin s3 y = fin s y" if "y \<in> set zs" for y using v(2) [of y] that u(2) by auto
    qed simp_all
    then show "owp False (obind (move_unreachable W base unr) ?val) Q E s3"
      unfolding owp_obind [of _ "move_unreachable W base unr"]
    proof (rule owp_move_unreachable [OF g])
      show "rfs s3 y = external_refs W zs y" if "y \<in> set zs" for y using v(3) [of y] r [OF that] that u(2) by auto
    qed (rule last)
  qed
  have "owp False (update_refs W base) (\<lambda>_. owp False (obind (subtract_refs W base) (\<lambda>_. obind (gc_list_init W unr)
      (\<lambda>_. obind (move_unreachable W base unr) ?val))) Q E) E s"
  proof (rule owp_update_refs [OF g l])
    fix s1 assume n: "\<And>y. nx s1 y = nx s y" and f: "\<And>y. fin s1 y = fin s y" and fr: "\<And>y. y \<notin> set zs \<Longrightarrow> s1 y = s y"
      and r: "\<And>y. y \<in> set zs \<Longrightarrow> coll s1 y \<and> rfs s1 y = ob_refcnt W (FROM_GC y)"
    have cl: "coll s1 y \<longleftrightarrow> y \<in> set zs" if "gc_heap W y" for y
      using r [of y] fr [of y] c [OF that] by (cases "y \<in> set zs") (simp_all add: coll_def)
    show "owp False (obind (subtract_refs W base) (\<lambda>_. obind (gc_list_init W unr) (\<lambda>_. obind (move_unreachable W base unr) ?val))) Q E s1"
      unfolding owp_obind [of _ "subtract_refs W base"]
    proof (rule owp_subtract_refs [OF g])
      show "nchain s1 (base # zs) base" by (rule nchain_cong [OF ch]) (rule n)
      show "base \<notin> set zs" using d by simp
      show "gc_heap W base" by (rule h)
      show "\<forall>x \<in> set zs. gc_heap W x" by (rule hz)
      show "coll s1 y \<longleftrightarrow> y \<in> set zs" if "gc_heap W y" for y by (rule cl [OF that])
      show "rfs s1 y = ob_refcnt W (FROM_GC y)" if "y \<in> set zs" for y using r [OF that] by blast
      fix s2 assume t: "\<And>y. nx s2 y = nx s1 y" "\<And>y. fin s2 y = fin s1 y" "\<And>y. coll s2 y = coll s1 y"
        "\<And>y. y \<notin> set zs \<Longrightarrow> s2 y = s1 y" "\<And>y. y \<in> set zs \<Longrightarrow> rfs s2 y = external_refs W zs y"
      show "owp False (obind (gc_list_init W unr) (\<lambda>_. obind (move_unreachable W base unr) ?val)) Q E s2"
      proof (rule mv)
        show "nx s2 y = nx s y" "fin s2 y = fin s y" for y using t n f by simp_all
        show "coll s2 y \<longleftrightarrow> y \<in> set zs" if "gc_heap W y" for y using t(3) cl [OF that] by simp
        show "s2 y = s y" if "y \<notin> set zs" for y using t(4) fr that by simp
      qed (rule t(5))
    qed
  qed
  then show ?thesis
    unfolding deduce_unreachable_def owp_obind [of _ "validate_list W base collecting_clear_unreachable_clear"]
      owp_obind [of _ "update_refs W base"]
    by (intro owp_validate_plain [OF ok l]) (use c hz in auto)
qed

end
