(* ===== verification/PyGcFinal.thy ===== *)
theory PyGcFinal
  imports PyGcSpec
begin

unbundle bit_operations_syntax

text \<open>
  What becomes of the unreachable objects: those with a legacy finalizer, and those that they
  refer to, are taken out; after the finalizers have run, the objects that are still unreachable
  are found again and the others join the old generation.
\<close>

section \<open>Legacy finalizers\<close>

text \<open>The unreachable list while the flags of the objects before \<open>rest\<close> have been cleared.\<close>

definition half_flagged :: "gc_world \<Rightarrow> gc_store \<Rightarrow> addr \<Rightarrow> addr list \<Rightarrow> addr list \<Rightarrow> bool" where
  "half_flagged W s unr ks rest \<longleftrightarrow> gc_list W (unflag s) unr (ks @ rest)
     \<and> (\<forall>u \<in> set (unr # ks). \<not> bit (nx s u) 0) \<and> (\<forall>u \<in> set rest. bit (nx s u) 0)
     \<and> (\<forall>u \<in> set (ks @ rest). coll s u)"

lemma half_flagged_start: "unreachable_list W s unr us \<Longrightarrow> half_flagged W s unr [] us"
  by (simp add: unreachable_list_def half_flagged_def)

lemma half_flagged_end: "half_flagged W s unr ks [] \<Longrightarrow> gc_list W s unr ks"
  by (rule gc_list_of_unflag) (simp add: half_flagged_def, unfold half_flagged_def, blast)

lemma half_flagged_next:
  assumes "half_flagged W s unr ks (u # rest)"
  shows "nx s u AND NOT NEXT_MASK_UNREACHABLE = hd (rest @ [unr])" "bit (nx s u) 0" "gc_heap W u" "u \<noteq> unr"
proof -
  have l: "gc_list W (unflag s) unr (ks @ u # rest)" using assms by (simp add: half_flagged_def)
  show "nx s u AND NOT NEXT_MASK_UNREACHABLE = hd (rest @ [unr])" using gc_list_mid(2) [OF l] by simp
  show "bit (nx s u) 0" using assms by (simp add: half_flagged_def)
  show "gc_heap W u" by (rule gc_list_heap(2) [OF l]) simp
  show "u \<noteq> unr" using gc_listD(3) [OF l] by auto
qed

lemma half_flagged_head:
  assumes "half_flagged W s unr ks rest"
  shows "gc_heap W unr" "nx s unr = hd ((ks @ rest) @ [unr])"
proof -
  have l: "gc_list W (unflag s) unr (ks @ rest)" using assms by (simp add: half_flagged_def)
  show "gc_heap W unr" using l by (rule gc_list_heap)
  have "\<not> bit (nx s unr) 0" using assms by (simp add: half_flagged_def)
  then show "nx s unr = hd ((ks @ rest) @ [unr])" using gc_list_hd [OF l] by (simp add: no_flag_id)
qed

text \<open>Clearing the flag of the first object of \<open>rest\<close>.\<close>

lemma half_flagged_clear:
  assumes ok: "heads_ok W" and hf: "half_flagged W s unr ks (u # rest)"
  shows "half_flagged W (set_nx u (hd (rest @ [unr])) s) unr (ks @ [u]) rest"
proof -
  let ?t = "set_nx u (hd (rest @ [unr])) s"
  have l: "gc_list W (unflag s) unr (ks @ u # rest)" using hf by (simp add: half_flagged_def)
  have d: "distinct (unr # ks @ u # rest)" using l by (rule gc_listD)
  have "hd (rest @ [unr]) \<in> set (unr # ks @ u # rest)" by (cases rest) auto
  then have al: "aligned (hd (rest @ [unr]))" by (rule heads_okD(1) [OF ok gc_listD(4) [OF l]])
  have "gc_list W (unflag ?t) unr (ks @ u # rest)"
  proof (rule gc_list_cong [OF l])
    show "nx (unflag ?t) g = nx (unflag s) g" for g
      using half_flagged_next(1) [OF hf] al by (auto simp: aligned_and_not_1)
    show "clean (unflag ?t) unr" using gc_listD(5) [OF l] by simp
  qed simp
  moreover have "\<not> bit (hd (rest @ [unr])) 0" using aligned_bit [OF al, of 0] by simp
  ultimately show ?thesis using hf d unfolding half_flagged_def by auto
qed

declare clear_mask_from.simps [simp del] move_legacy_from.simps [simp del]

lemma owp_clear_mask_from:
  assumes ok: "heads_ok W" and "half_flagged W s unr ks rest"
    and "\<And>t. \<lbrakk>half_flagged W t unr (ks @ rest) []; \<And>y. prv t y = prv s y; \<And>y. coll t y = coll s y;
        \<And>y. fin t y = fin s y; \<And>y. y \<notin> set rest \<Longrightarrow> t y = s y\<rbrakk> \<Longrightarrow> Q () t"
  shows "owp d (clear_mask_from W unr (hd (rest @ [unr]))) Q E s"
  using assms(2-)
proof (induction rest arbitrary: ks s)
  case Nil
  have "clear_mask_from W unr unr s = oret () s" by (subst clear_mask_from.simps) simp
  then have "owp d (clear_mask_from W unr unr) Q E s = Q () s" by (simp add: owp_def oret_def)
  then show ?case using Nil by simp
next
  case (Cons u rest)
  note N = half_flagged_next [OF Cons.prems(1)]
  let ?m = "obind (gc_read W u gc_next) (\<lambda>x. obind (oassert (x AND NEXT_MASK_UNREACHABLE \<noteq> 0)) (\<lambda>_.
        obind (write_next W u (x AND NOT NEXT_MASK_UNREACHABLE)) (\<lambda>_.
        obind (gc_read W u gc_next) (\<lambda>nxt. clear_mask_from W unr nxt))))"
  have "clear_mask_from W unr u s = ?m s" using N(4) by (subst clear_mask_from.simps) simp
  then have e: "owp d (clear_mask_from W unr u) Q E s = owp d ?m Q E s" by (simp only: owp_def)
  let ?t = "set_nx u (hd (rest @ [unr])) s"
  have "owp d (clear_mask_from W unr (hd (rest @ [unr]))) Q E ?t"
  proof (rule Cons.IH [OF half_flagged_clear [OF ok Cons.prems(1)]])
    fix t assume "half_flagged W t unr ((ks @ [u]) @ rest) []" "\<And>y. prv t y = prv ?t y" "\<And>y. coll t y = coll ?t y"
      "\<And>y. fin t y = fin ?t y" "\<And>y. y \<notin> set rest \<Longrightarrow> t y = ?t y"
    then show "Q () t" by (intro Cons.prems(2)) simp_all
  qed
  then have "owp d ?m Q E s" using N by (simp add: and_unreachable flip: nx_def)
  then show ?case using e by simp
qed

lemma owp_clear_unreachable_mask:
  assumes ok: "heads_ok W" and l: "unreachable_list W s unr us"
    and Q: "\<And>t. \<lbrakk>gc_list W t unr us; \<And>y. coll t y = coll s y; \<And>y. fin t y = fin s y;
        \<And>y. y \<notin> set us \<Longrightarrow> t y = s y\<rbrakk> \<Longrightarrow> Q () t"
  shows "owp d (clear_unreachable_mask W unr) Q E s"
proof -
  note hf = half_flagged_start [OF l]
  note H = half_flagged_head [OF hf]
  have al: "aligned unr" by (rule heads_okD(1) [OF ok H(1)])
  have nf: "\<not> bit (nx s unr) 0" using l by (simp add: unreachable_list_def)
  have "owp d (clear_mask_from W unr (hd (us @ [unr])))
      (\<lambda>_. owp d (validate_list W unr collecting_set_unreachable_clear) Q E) E s"
  proof (rule owp_clear_mask_from [OF ok hf])
    fix t assume t: "half_flagged W t unr ([] @ us) []" "\<And>y. coll t y = coll s y"
      "\<And>y. fin t y = fin s y" "\<And>y. y \<notin> set us \<Longrightarrow> t y = s y"
    have g: "gc_list W t unr us" using half_flagged_end [OF t(1)] by simp
    have "Q () t" by (rule Q [OF g t(2,3,4)])
    then show "owp d (validate_list W unr collecting_set_unreachable_clear) Q E t"
      using t(1) by (intro owp_validate_plain [OF ok g]) (auto simp: half_flagged_def)
  qed
  then show ?thesis
    using H al nf by (simp add: clear_unreachable_mask_def and_unreachable aligned_bit flip: nx_def)
qed

lemma half_flagged_frame:
  assumes "half_flagged W s unr ks rest" and "\<And>y. y \<in> set (unr # ks @ rest) \<Longrightarrow> t y = s y"
  shows "half_flagged W t unr ks rest"
proof -
  have "gc_list W (unflag t) unr (ks @ rest)"
    by (rule gc_list_frame [of _ "unflag s"]) (use assms in \<open>auto simp: half_flagged_def unflag_def\<close>)
  moreover have "nx t y = nx s y \<and> coll t y = coll s y" if "y \<in> set (unr # ks @ rest)" for y
    using assms(2) [OF that] by (simp add: view_defs)
  ultimately show ?thesis using assms(1) by (auto simp: half_flagged_def)
qed

lemma owp_move_legacy_step:
  assumes ok: "heads_ok W" and hf: "half_flagged W s unr (ks @ [u]) rest" and fl: "gc_list W s fn fs"
    and dis: "set (unr # ks @ u # rest) \<inter> set (fn # fs) = {}"
    and Q: "\<And>t. \<lbrakk>half_flagged W t unr ks rest; gc_list W t fn (fs @ [u]); \<And>y. coll t y \<longleftrightarrow> y \<noteq> u \<and> coll s y;
        \<And>y. fin t y = fin s y; \<And>y. y \<notin> set (unr # ks @ u # rest) \<union> set (fn # fs) \<Longrightarrow> t y = s y\<rbrakk> \<Longrightarrow> Q () t"
  shows "owp d (obind (gc_clear_collecting W u) (\<lambda>_. gc_list_move W u fn)) Q E s"
proof -
  have l: "gc_list W (unflag s) unr (ks @ u # rest)" and nf: "\<not> bit (nx s u) 0"
    using hf by (auto simp: half_flagged_def)
  have hu: "gc_heap W u" by (rule gc_list_heap(2) [OF l]) simp
  have d: "distinct (unr # ks @ u # rest)" using l by (rule gc_listD)
  let ?s = "clr_coll u s"
  have cu: "\<not> coll s fn" "\<not> coll s unr" using gc_listD(5) [OF fl] gc_listD(5) [OF l] by (simp_all add: clean_def)
  have l': "gc_list W (unflag ?s) unr (ks @ u # rest)"
    using gc_listD(5) [OF l] by (intro gc_list_cong [OF l]) (simp_all add: clean_def)
  have fl': "gc_list W ?s fn fs"
    using gc_listD(5) [OF fl] by (intro gc_list_cong [OF fl]) (simp_all add: clean_def)
  have "owp d (gc_list_move W u fn) Q E ?s"
  proof (rule owp_gc_list_move_flagged [OF ok l' _ fl' dis])
    show "\<not> bit (nx ?s u) 0" using nf by simp
    fix t
    assume t1: "gc_list W (unflag t) unr (ks @ rest)" and t2: "gc_list W t fn (fs @ [u])"
      and t3: "\<And>y. y \<in> set (unr # ks @ rest) \<Longrightarrow> bit (nx t y) 0 \<longleftrightarrow> y \<noteq> last (unr # ks) \<and> bit (nx ?s y) 0"
      and t4: "\<And>y. coll t y = coll ?s y" "\<And>y. fin t y = fin ?s y"
      and t5: "\<And>y. y \<notin> set (unr # ks @ u # rest) \<union> set (fn # fs) \<Longrightarrow> t y = ?s y"
    have "last (unr # ks) \<in> set (unr # ks)" by simp
    then have lr: "last (unr # ks) \<notin> set rest" using d by auto
    have "\<not> bit (nx t y) 0" if "y \<in> set (unr # ks)" for y
    proof -
      have "\<not> bit (nx s y) 0" using that hf by (auto simp: half_flagged_def)
      then show ?thesis using t3 [of y] that by auto
    qed
    moreover have "bit (nx t y) 0" if "y \<in> set rest" for y
    proof -
      have "bit (nx s y) 0" "y \<noteq> last (unr # ks)" using that hf lr by (auto simp: half_flagged_def)
      then show ?thesis using t3 [of y] that by (simp del: last.simps)
    qed
    moreover have "coll t y" if "y \<in> set (ks @ rest)" for y
      using that hf d t4(1) [of y] by (auto simp: half_flagged_def)
    ultimately have "half_flagged W t unr ks rest" using t1 unfolding half_flagged_def by blast
    moreover have "t y = s y" if "y \<notin> set (unr # ks @ u # rest) \<union> set (fn # fs)" for y
    proof -
      have "y \<noteq> u" using that by auto
      then show ?thesis using t5 [OF that] by simp
    qed
    ultimately show "Q () t" using t2 t4 by (intro Q) simp_all
  qed
  then show ?thesis using hu by simp
qed

lemma owp_move_legacy_from:
  assumes ok: "heads_ok W" and "half_flagged W s unr ks rest" and "gc_list W s fn fs"
    and "set (unr # ks @ rest) \<inter> set (fn # fs) = {}" and "\<And>y. y \<in> set fs \<Longrightarrow> \<not> coll s y"
    and "\<And>t. \<lbrakk>gc_list W t unr (ks @ [u \<leftarrow> rest. \<not> tp_del W (FROM_GC u)]); gc_list W t fn (fs @ [u \<leftarrow> rest. tp_del W (FROM_GC u)]);
        \<And>y. coll t y \<longleftrightarrow> coll s y \<and> \<not> (y \<in> set rest \<and> tp_del W (FROM_GC y));
        \<And>y. fin t y = fin s y; \<And>y. y \<notin> set (unr # ks @ rest) \<union> set (fn # fs) \<Longrightarrow> t y = s y\<rbrakk> \<Longrightarrow> Q () t"
  shows "owp d (move_legacy_from W unr fn (hd (rest @ [unr]))) Q E s"
  using assms(2-)
proof (induction rest arbitrary: ks fs s)
  case Nil
  have "move_legacy_from W unr fn unr s = oret () s" by (subst move_legacy_from.simps) simp
  then have "owp d (move_legacy_from W unr fn unr) Q E s = Q () s" by (simp add: owp_def oret_def)
  moreover have "Q () s" using half_flagged_end [OF Nil(1)] Nil(2) by (intro Nil(5)) simp_all
  ultimately show ?case by simp
next
  case (Cons u rest)
  note N = half_flagged_next [OF Cons.prems(1)]
  let ?m = "obind (gc_read W u gc_next) (\<lambda>x. obind (oassert (x AND NEXT_MASK_UNREACHABLE \<noteq> 0)) (\<lambda>_.
        obind (write_next W u (x AND NOT NEXT_MASK_UNREACHABLE)) (\<lambda>_.
        obind (gc_read W u gc_next) (\<lambda>nxt.
        obind (if has_legacy_finalizer W (FROM_GC u)
               then obind (gc_clear_collecting W u) (\<lambda>_. gc_list_move W u fn) else oret ()) (\<lambda>_.
          move_legacy_from W unr fn nxt)))))"
  have "move_legacy_from W unr fn u s = ?m s" using N(4) by (subst move_legacy_from.simps) simp
  then have e: "owp d (move_legacy_from W unr fn u) Q E s = owp d ?m Q E s" by (simp only: owp_def)
  let ?t = "set_nx u (hd (rest @ [unr])) s"
  have hf: "half_flagged W ?t unr (ks @ [u]) rest" by (rule half_flagged_clear [OF ok Cons.prems(1)])
  have dis: "set (unr # ks @ u # rest) \<inter> set (fn # fs) = {}" using Cons.prems(3) by simp
  have fl: "gc_list W ?t fn fs"
  proof (rule gc_list_frame [OF Cons.prems(2)])
    show "?t g = s g" if "g \<in> set (fn # fs)" for g using that dis by (intro set_other) auto
  qed
  have ndis: "u \<notin> set rest"
  proof -
    have "distinct (unr # ks @ u # rest)" using Cons.prems(1) by (auto simp: half_flagged_def dest: gc_listD)
    then show ?thesis by simp
  qed
  have "owp d (if has_legacy_finalizer W (FROM_GC u)
      then obind (gc_clear_collecting W u) (\<lambda>_. gc_list_move W u fn) else oret ())
     (\<lambda>_. owp d (move_legacy_from W unr fn (hd (rest @ [unr]))) Q E) E ?t"
  proof (cases "tp_del W (FROM_GC u)")
    case True
    have "owp d (obind (gc_clear_collecting W u) (\<lambda>_. gc_list_move W u fn))
       (\<lambda>_. owp d (move_legacy_from W unr fn (hd (rest @ [unr]))) Q E) E ?t"
    proof (rule owp_move_legacy_step [OF ok hf fl dis])
      fix v assume v: "half_flagged W v unr ks rest" "gc_list W v fn (fs @ [u])" "\<And>y. coll v y \<longleftrightarrow> y \<noteq> u \<and> coll ?t y"
        "\<And>y. fin v y = fin ?t y" "\<And>y. y \<notin> set (unr # ks @ u # rest) \<union> set (fn # fs) \<Longrightarrow> v y = ?t y"
      have "distinct (unr # ks @ u # rest)" using Cons.prems(1) by (auto simp: half_flagged_def dest: gc_listD)
      then have dd: "set (unr # ks @ rest) \<inter> set (fn # fs @ [u]) = {}" using dis by auto
      show "owp d (move_legacy_from W unr fn (hd (rest @ [unr]))) Q E v"
      proof (rule Cons.IH [OF v(1,2) dd])
        show "\<not> coll v y" if "y \<in> set (fs @ [u])" for y using that v(3) [of y] Cons.prems(4) [of y] by auto
        fix t
        assume t: "gc_list W t unr (ks @ [u \<leftarrow> rest. \<not> tp_del W (FROM_GC u)])"
          "gc_list W t fn ((fs @ [u]) @ [u \<leftarrow> rest. tp_del W (FROM_GC u)])"
          "\<And>y. coll t y \<longleftrightarrow> coll v y \<and> \<not> (y \<in> set rest \<and> tp_del W (FROM_GC y))"
          "\<And>y. fin t y = fin v y" "\<And>y. y \<notin> set (unr # ks @ rest) \<union> set (fn # fs @ [u]) \<Longrightarrow> t y = v y"
        show "Q () t"
        proof (rule Cons.prems(5))
          show "gc_list W t unr (ks @ [u \<leftarrow> u # rest. \<not> tp_del W (FROM_GC u)])" using t(1) True by simp
          show "gc_list W t fn (fs @ [u \<leftarrow> u # rest. tp_del W (FROM_GC u)])" using t(2) True by simp
          show "coll t y \<longleftrightarrow> coll s y \<and> \<not> (y \<in> set (u # rest) \<and> tp_del W (FROM_GC y))" for y
            using t(3) [of y] v(3) [of y] True by auto
          show "fin t y = fin s y" for y using t(4) v(4) by simp
          show "t y = s y" if "y \<notin> set (unr # ks @ u # rest) \<union> set (fn # fs)" for y
            using that t(5) [of y] v(5) [of y] by auto
        qed
      qed
    qed
    then show ?thesis using True by (simp add: has_legacy_finalizer_def)
  next
    case False
    have "owp d (move_legacy_from W unr fn (hd (rest @ [unr]))) Q E ?t"
    proof (rule Cons.IH [OF hf fl])
      show "set (unr # (ks @ [u]) @ rest) \<inter> set (fn # fs) = {}" using dis by auto
      show "\<not> coll ?t y" if "y \<in> set fs" for y using Cons.prems(4) [OF that] by simp
      fix t
      assume t: "gc_list W t unr ((ks @ [u]) @ [u \<leftarrow> rest. \<not> tp_del W (FROM_GC u)])"
        "gc_list W t fn (fs @ [u \<leftarrow> rest. tp_del W (FROM_GC u)])"
        "\<And>y. coll t y \<longleftrightarrow> coll ?t y \<and> \<not> (y \<in> set rest \<and> tp_del W (FROM_GC y))"
        "\<And>y. fin t y = fin ?t y" "\<And>y. y \<notin> set (unr # (ks @ [u]) @ rest) \<union> set (fn # fs) \<Longrightarrow> t y = ?t y"
      show "Q () t"
      proof (rule Cons.prems(5))
        show "gc_list W t unr (ks @ [u \<leftarrow> u # rest. \<not> tp_del W (FROM_GC u)])" using t(1) False by simp
        show "gc_list W t fn (fs @ [u \<leftarrow> u # rest. tp_del W (FROM_GC u)])" using t(2) False by simp
        show "coll t y \<longleftrightarrow> coll s y \<and> \<not> (y \<in> set (u # rest) \<and> tp_del W (FROM_GC y))" for y
          using t(3) [of y] False by auto
        show "fin t y = fin s y" for y using t(4) by simp
        show "t y = s y" if "y \<notin> set (unr # ks @ u # rest) \<union> set (fn # fs)" for y
          using that t(5) [of y] by auto
      qed
    qed
    then show ?thesis using False by (simp add: has_legacy_finalizer_def)
  qed
  then have "owp d ?m Q E s"
    using N by (cases "has_legacy_finalizer W (FROM_GC u)") (simp_all add: and_unreachable flip: nx_def)
  then show ?case using e by simp
qed

lemma owp_move_legacy_finalizers:
  assumes ok: "heads_ok W" and ul: "unreachable_list W s unr us" and fl: "gc_list W s fn []"
    and dis: "fn \<notin> set (unr # us)"
    and Q: "\<And>t. \<lbrakk>gc_list W t unr [u \<leftarrow> us. \<not> tp_del W (FROM_GC u)]; gc_list W t fn [u \<leftarrow> us. tp_del W (FROM_GC u)];
        \<And>y. coll t y \<longleftrightarrow> coll s y \<and> \<not> (y \<in> set us \<and> tp_del W (FROM_GC y));
        \<And>y. fin t y = fin s y; \<And>y. y \<notin> set (unr # us) \<union> {fn} \<Longrightarrow> t y = s y\<rbrakk> \<Longrightarrow> Q () t"
  shows "owp d (move_legacy_finalizers W unr fn) Q E s"
proof -
  note hf = half_flagged_start [OF ul]
  note H = half_flagged_head [OF hf]
  have nf: "\<not> bit (nx s unr) 0" using ul by (simp add: unreachable_list_def)
  have "owp d (move_legacy_from W unr fn (hd (us @ [unr]))) Q E s"
    by (rule owp_move_legacy_from [OF ok hf fl]) (use dis Q in auto)
  then show ?thesis using H nf by (simp add: move_legacy_finalizers_def and_unreachable flip: nx_def)
qed

end
