(* ===== verification/PyGcResult.thy ===== *)
theory PyGcResult
  imports PyGcFinal "HOL-Library.Multiset"
begin

unbundle bit_operations_syntax

text \<open>
  The rest of a collection: the objects that legacy finalizers refer to, the objects brought back
  by finalizers, and what the outcome means: the references to an object that is to be deleted
  all come from objects that are to be deleted.
\<close>

section \<open>Objects reachable from legacy finalizers\<close>

inductive legacy_reach :: "gc_world \<Rightarrow> addr set \<Rightarrow> addr \<Rightarrow> bool" for W U where
  legacy_root: "y \<in> U \<Longrightarrow> tp_del W (FROM_GC y) \<Longrightarrow> legacy_reach W U y"
| legacy_ref: "legacy_reach W U x \<Longrightarrow> y \<in> set (kids W x) \<Longrightarrow> y \<in> U \<Longrightarrow> legacy_reach W U y"

lemma legacy_reach_in: "legacy_reach W U y \<Longrightarrow> y \<in> U"
  by (induction rule: legacy_reach.induct)

text \<open>The unreachable objects \<open>us\<close>, still collecting, and the finalizers \<open>fs\<close>.\<close>

definition two_lists :: "gc_world \<Rightarrow> addr \<Rightarrow> addr \<Rightarrow> addr list \<Rightarrow> addr list \<Rightarrow> gc_store \<Rightarrow> bool" where
  "two_lists W unr fn us fs s \<longleftrightarrow> gc_list W s unr us \<and> gc_list W s fn fs
     \<and> set (unr # us) \<inter> set (fn # fs) = {} \<and> (\<forall>y. gc_heap W y \<longrightarrow> (coll s y \<longleftrightarrow> y \<in> set us))"

lemma owp_visit_move:
  assumes ok: "heads_ok W" and tl: "two_lists W unr fn us fs s" and op: "object_is_gc W op \<Longrightarrow> gc_heap W (AS_GC op)"
    and Q: "\<And>t us' vs. \<lbrakk>two_lists W unr fn us' (fs @ vs) t; set us = set us' \<union> set vs; set vs \<subseteq> set (kids_of W [op]);
        set (kids_of W [op]) \<inter> set us' = {}; length us = length us' + length vs; \<And>y. fin t y = fin s y;
        \<And>y. y \<notin> set (unr # us) \<union> set (fn # fs) \<Longrightarrow> t y = s y\<rbrakk> \<Longrightarrow> Q () t"
  shows "owp d (visit_move W fn op) Q E s"
proof (cases "object_is_gc W op \<and> AS_GC op \<in> set us")
  case False
  have l: "gc_list W s unr us" "gc_list W s fn fs" "\<And>y. gc_heap W y \<Longrightarrow> coll s y \<longleftrightarrow> y \<in> set us"
    using tl by (simp_all add: two_lists_def)
  have "Q () s" by (rule Q [of us "[]"]) (use tl False in \<open>auto simp: kids_of_single\<close>)
  then show ?thesis using False op l(3) by (simp add: visit_move_def)
next
  case True
  define k where "k = AS_GC op"
  have gc: "object_is_gc W op" and k: "k \<in> set us" and h: "gc_heap W k" using True op by (auto simp: k_def)
  have kd: "set (kids_of W [op]) = {k}" using gc by (simp add: kids_of_single k_def)
  obtain a b where us: "us = a @ k # b" using k by (meson split_list)
  have l: "gc_list W s unr (a @ k # b)" "gc_list W s fn fs" and dis: "set (unr # a @ k # b) \<inter> set (fn # fs) = {}"
    and cl: "\<And>y. gc_heap W y \<Longrightarrow> coll s y \<longleftrightarrow> y \<in> set us"
    using tl us by (simp_all add: two_lists_def)
  have d: "distinct (unr # a @ k # b)" using l(1) by (rule gc_listD)
  have "owp d (gc_list_move W k fn) (\<lambda>_. owp d (gc_clear_collecting W k) Q E) E s" for d
  proof (rule owp_gc_list_move [OF ok l(1,2) dis])
    fix t assume t: "gc_list W t unr (a @ b)" "gc_list W t fn (fs @ [k])" "\<And>y. coll t y = coll s y"
      "\<And>y. fin t y = fin s y" "\<And>y. y \<notin> set (unr # a @ k # b) \<union> set (fn # fs) \<Longrightarrow> t y = s y"
    have "two_lists W unr fn (a @ b) (fs @ [k]) (clr_coll k t)"
      unfolding two_lists_def
    proof (intro conjI allI impI)
      show "gc_list W (clr_coll k t) unr (a @ b)"
        by (rule gc_list_cong [OF t(1)]) (use gc_listD(5) [OF t(1)] in \<open>simp_all add: clean_def\<close>)
      show "gc_list W (clr_coll k t) fn (fs @ [k])"
        by (rule gc_list_cong [OF t(2)]) (use gc_listD(5) [OF t(2)] in \<open>simp_all add: clean_def\<close>)
      show "set (unr # a @ b) \<inter> set (fn # fs @ [k]) = {}" using d dis by auto
      show "coll (clr_coll k t) y \<longleftrightarrow> y \<in> set (a @ b)" if "gc_heap W y" for y
        using d us t(3) [of y] cl [OF that] by auto
    qed
    moreover have "set (kids_of W [op]) \<inter> set (a @ b) = {}" using kd d by auto
    moreover have "clr_coll k t y = s y" if "y \<notin> set (unr # us) \<union> set (fn # fs)" for y
    proof -
      have "y \<noteq> k" using that us by auto
      then show ?thesis using t(5) [of y] that us by simp
    qed
    ultimately have "Q () (clr_coll k t)" using us kd t(4) by (intro Q [of "a @ b" "[k]"]) auto
    then show "owp d (gc_clear_collecting W k) Q E t" using h by simp
  qed
  then show ?thesis using gc h k cl [OF h] unfolding visit_move_def k_def [symmetric] by simp
qed

lemma owp_move_legacy_reachable_from:
  assumes ok: "heads_ok W"
    and kh: "\<And>x op. x \<in> U \<Longrightarrow> op \<in> set (tp_traverse W (FROM_GC x)) \<Longrightarrow> object_is_gc W op \<Longrightarrow> gc_heap W (AS_GC op)"
    and "two_lists W unr fn us (ds @ ts) s" and "set us \<union> set (ds @ ts) = U"
    and "\<And>y. y \<in> set (ds @ ts) \<Longrightarrow> legacy_reach W U y"
    and "\<And>x y. x \<in> set ds \<Longrightarrow> y \<in> set (kids W x) \<Longrightarrow> y \<notin> set us"
    and "\<And>us' fs' t. \<lbrakk>two_lists W unr fn us' fs' t; set us' \<union> set fs' = U; set (ds @ ts) \<subseteq> set fs';
        \<And>y. y \<in> set fs' \<Longrightarrow> legacy_reach W U y; \<And>x y. x \<in> set fs' \<Longrightarrow> y \<in> set (kids W x) \<Longrightarrow> y \<notin> set us';
        \<And>y. fin t y = fin s y; \<And>y. y \<notin> U \<Longrightarrow> y \<noteq> unr \<Longrightarrow> y \<noteq> fn \<Longrightarrow> t y = s y\<rbrakk> \<Longrightarrow> Q () t"
  shows "owp False (gc_for_from W (\<lambda>gc. traverse W (FROM_GC gc) (visit_move W fn)) fn (hd (ts @ [fn]))) Q E s"
  using assms(3-)
proof (induction "length us + length ts" arbitrary: us ds ts s rule: less_induct)
  case less
  note P = less.prems
  let ?body = "\<lambda>gc. traverse W (FROM_GC gc) (visit_move W fn)"
  show ?case
  proof (cases ts)
    case Nil
    have "gc_for_from W ?body fn fn s = oret () s" by (subst gc_for_from.simps) simp
    then have "owp False (gc_for_from W ?body fn fn) Q E s = Q () s" by (simp add: owp_def oret_def)
    moreover have "Q () s" by (rule P(5) [of us "ds @ ts"]) (use P Nil in auto)
    ultimately show ?thesis by (simp add: Nil)
  next
    case (Cons x ts')
    have l: "gc_list W s fn (ds @ x # ts')" using P(1) Cons by (simp add: two_lists_def)
    have xf: "x \<noteq> fn" "gc_heap W x" using gc_listD(3) [OF l] gc_list_heap(2) [OF l] by auto
    have xU: "x \<in> U" "legacy_reach W U x" using P(2,3) Cons by auto
    let ?m = "obind (?body x) (\<lambda>_. obind (GC_NEXT W x) (gc_for_from W ?body fn))"
    have "gc_for_from W ?body fn x s = ?m s" using xf by (subst gc_for_from.simps) auto
    then have e: "owp False (gc_for_from W ?body fn x) Q E s = owp False ?m Q E s" by (simp only: owp_def)
    let ?I = "\<lambda>ops t. \<exists>us' vs. two_lists W unr fn us' (ds @ x # ts' @ vs) t \<and> set us = set us' \<union> set vs
        \<and> set vs \<subseteq> set (kids_of W ops) \<and> set (kids_of W ops) \<inter> set us' = {}
        \<and> length us = length us' + length vs \<and> (\<forall>y. fin t y = fin s y)
        \<and> (\<forall>y. y \<notin> U \<longrightarrow> y \<noteq> unr \<longrightarrow> y \<noteq> fn \<longrightarrow> t y = s y)"
    have "owp False (?body x) (\<lambda>_. owp False (GC_NEXT W x) (\<lambda>nxt. owp False (gc_for_from W ?body fn nxt) Q E) E) E s"
    proof (rule owp_traverse [where I = ?I])
      show "?I [] s" by (rule exI [of _ us], rule exI [of _ "[]"]) (use P(1) Cons in \<open>simp add: kids_of_def\<close>)
    next
      fix p op q t assume ops: "tp_traverse W (FROM_GC x) = p @ op # q" and I: "?I p t"
      then obtain us' vs where I1: "two_lists W unr fn us' (ds @ x # ts' @ vs) t" "set us = set us' \<union> set vs"
        "set vs \<subseteq> set (kids_of W p)" "set (kids_of W p) \<inter> set us' = {}" "length us = length us' + length vs"
        and I2: "\<And>y. fin t y = fin s y" "\<And>y. y \<notin> U \<Longrightarrow> y \<noteq> unr \<Longrightarrow> y \<noteq> fn \<Longrightarrow> t y = s y" by blast
      have sub: "set us' \<union> set (ds @ x # ts' @ vs) = U" using P(2) Cons I1(2) by auto
      show "owp False (visit_move W fn op) (\<lambda>_ u. ?I (p @ [op]) u) E t"
      proof (rule owp_visit_move [OF ok I1(1)])
        show "object_is_gc W op \<Longrightarrow> gc_heap W (AS_GC op)" using kh [OF xU(1)] ops by simp
        fix u us2 ws
        assume u: "two_lists W unr fn us2 ((ds @ x # ts' @ vs) @ ws) u" "set us' = set us2 \<union> set ws"
          "set ws \<subseteq> set (kids_of W [op])" "set (kids_of W [op]) \<inter> set us2 = {}" "length us' = length us2 + length ws"
          "\<And>y. fin u y = fin t y" "\<And>y. y \<notin> set (unr # us') \<union> set (fn # ds @ x # ts' @ vs) \<Longrightarrow> u y = t y"
        have "u y = s y" if "y \<notin> U" "y \<noteq> unr" "y \<noteq> fn" for y
          using u(7) [of y] I2(2) [OF that] that sub by auto
        then show "?I (p @ [op]) u"
          using u(1-6) I1 I2(1) by (intro exI [of _ us2] exI [of _ "vs @ ws"]) (auto simp: kids_of_append)
      qed
    next
      fix t assume "?I (tp_traverse W (FROM_GC x)) t"
      then obtain us' vs where I1: "two_lists W unr fn us' (ds @ x # ts' @ vs) t" "set us = set us' \<union> set vs"
        "set vs \<subseteq> set (kids W x)" "set (kids W x) \<inter> set us' = {}" "length us = length us' + length vs"
        and I2: "\<And>y. fin t y = fin s y" "\<And>y. y \<notin> U \<Longrightarrow> y \<noteq> unr \<Longrightarrow> y \<noteq> fn \<Longrightarrow> t y = s y" unfolding kids_def by blast
      have "gc_list W t fn (ds @ x # ts' @ vs)" using I1(1) by (simp add: two_lists_def)
      then have n: "nx t x = hd ((ts' @ vs) @ [fn])" using gc_list_mid(2) [of W t fn ds x "ts' @ vs"] by simp
      have "owp False (gc_for_from W ?body fn (hd ((ts' @ vs) @ [fn]))) Q E t"
      proof (rule less.hyps)
        show "length us' + length (ts' @ vs) < length us + length ts" using I1(5) Cons by simp
        show "two_lists W unr fn us' ((ds @ [x]) @ ts' @ vs) t" using I1(1) by simp
        show "set us' \<union> set ((ds @ [x]) @ ts' @ vs) = U" using P(2) Cons I1(2) by auto
        show "legacy_reach W U y" if "y \<in> set ((ds @ [x]) @ ts' @ vs)" for y
        proof (cases "y \<in> set vs")
          case True
          then have "y \<in> U" using I1(2) P(2) by auto
          then show ?thesis using True I1(3) by (intro legacy_ref [OF xU(2)]) auto
        next
          case False
          then show ?thesis using that by (intro P(3)) (auto simp: Cons)
        qed
        show "y \<notin> set us'" if "z \<in> set (ds @ [x])" "y \<in> set (kids W z)" for z y
          using that P(4) [of z y] I1(2,4) by auto
        fix us2 fs2 u
        assume u: "two_lists W unr fn us2 fs2 u" "set us2 \<union> set fs2 = U" "set ((ds @ [x]) @ ts' @ vs) \<subseteq> set fs2"
          "\<And>y. y \<in> set fs2 \<Longrightarrow> legacy_reach W U y" "\<And>x y. x \<in> set fs2 \<Longrightarrow> y \<in> set (kids W x) \<Longrightarrow> y \<notin> set us2"
          "\<And>y. fin u y = fin t y" "\<And>y. y \<notin> U \<Longrightarrow> y \<noteq> unr \<Longrightarrow> y \<noteq> fn \<Longrightarrow> u y = t y"
        show "Q () u"
        proof (rule P(5) [OF u(1,2) _ u(4,5)])
          show "set (ds @ ts) \<subseteq> set fs2" using u(3) Cons by auto
        qed (use u(6,7) I2 in auto)
      qed
      then show "owp False (GC_NEXT W x) (\<lambda>nxt. owp False (gc_for_from W ?body fn nxt) Q E) E t" using xf n by simp
    qed
    then show ?thesis using e Cons by simp
  qed
qed

lemma owp_move_legacy_finalizer_reachable:
  assumes g: "graph_ok W zs" and tl: "two_lists W unr fn us fs s" and sub: "set us \<union> set fs \<subseteq> set zs"
    and fs: "set fs = {y \<in> set us \<union> set fs. tp_del W (FROM_GC y)}"
    and Q: "\<And>us' fs' t. \<lbrakk>two_lists W unr fn us' fs' t;
        set fs' = {y. legacy_reach W (set us \<union> set fs) y}; set us' = (set us \<union> set fs) - set fs';
        \<And>x y. x \<in> set fs' \<Longrightarrow> y \<in> set (kids W x) \<Longrightarrow> y \<notin> set us';
        \<And>y. fin t y = fin s y; \<And>y. y \<notin> set us \<union> set fs \<Longrightarrow> y \<noteq> unr \<Longrightarrow> y \<noteq> fn \<Longrightarrow> t y = s y\<rbrakk> \<Longrightarrow> Q () t"
  shows "owp False (move_legacy_finalizer_reachable W fn) Q E s"
proof -
  let ?U = "set us \<union> set fs"
  have l: "gc_list W s fn fs" using tl by (simp add: two_lists_def)
  have "owp False (gc_for_from W (\<lambda>gc. traverse W (FROM_GC gc) (visit_move W fn)) fn (hd (fs @ [fn]))) Q E s"
  proof (rule owp_move_legacy_reachable_from [where U = ?U and ds = "[]"])
    show "heads_ok W" by (rule graph_okD [OF g])
    show "gc_heap W (AS_GC op)" if "x \<in> ?U" "op \<in> set (tp_traverse W (FROM_GC x))" "object_is_gc W op" for x op
      using that sub by (intro graph_okD(3) [OF g, of x]) auto
    show "two_lists W unr fn us ([] @ fs) s" using tl by simp
    show "legacy_reach W ?U y" if "y \<in> set ([] @ fs)" for y using that fs by (intro legacy_root) auto
    fix us' fs' t
    assume t: "two_lists W unr fn us' fs' t" "set us' \<union> set fs' = ?U" "set ([] @ fs) \<subseteq> set fs'"
      "\<And>y. y \<in> set fs' \<Longrightarrow> legacy_reach W ?U y" "\<And>x y. x \<in> set fs' \<Longrightarrow> y \<in> set (kids W x) \<Longrightarrow> y \<notin> set us'"
      "\<And>y. fin t y = fin s y" "\<And>y. y \<notin> ?U \<Longrightarrow> y \<noteq> unr \<Longrightarrow> y \<noteq> fn \<Longrightarrow> t y = s y"
    have "y \<in> set fs'" if "legacy_reach W ?U y" for y
      using that
    proof (induction rule: legacy_reach.induct)
      case (legacy_root y)
      then show ?case using fs t(3) by auto
    next
      case (legacy_ref x y)
      then show ?case using t(2) t(5) [of x y] by auto
    qed
    then have e: "set fs' = {y. legacy_reach W ?U y}" using t(4) by blast
    have "set us' \<inter> set fs' = {}" using t(1) by (auto simp: two_lists_def)
    then have "set us' = ?U - set fs'" using t(2) by blast
    then show "Q () t" by (rule Q [OF t(1) e _ t(5,6,7)])
  qed (use fs in auto)
  then show ?thesis using gc_list_heap(1) [OF l] gc_list_hd [OF l]
    by (simp add: move_legacy_finalizer_reachable_def gc_for_def)
qed

section \<open>Resurrection\<close>

lemma owp_gc_list_clear_collecting:
  assumes ok: "heads_ok W" and l: "gc_list W s ls xs"
    and Q: "\<And>t. \<lbrakk>gc_list W t ls xs; \<And>y. coll t y \<longleftrightarrow> coll s y \<and> y \<notin> set xs; \<And>y. fin t y = fin s y;
        \<And>y. y \<notin> set xs \<Longrightarrow> t y = s y\<rbrakk> \<Longrightarrow> Q () t"
  shows "owp d (gc_list_clear_collecting W ls) Q E s"
proof -
  let ?I = "\<lambda>p t. (\<forall>y. prv t y = prv s y) \<and> (\<forall>y. coll t y \<longleftrightarrow> coll s y \<and> y \<notin> set p) \<and> (\<forall>y. fin t y = fin s y)
      \<and> (\<forall>y. y \<notin> set p \<longrightarrow> t y = s y)"
  show ?thesis
    unfolding gc_list_clear_collecting_def
  proof (rule owp_gc_for [OF l, where I = ?I])
    fix p x q t assume x: "xs = p @ x # q" and I: "?I p t"
    have "gc_heap W x" by (rule gc_list_heap(2) [OF l]) (simp add: x)
    then show "owp d (gc_clear_collecting W x) (\<lambda>_ u. ?I (p @ [x]) u \<and> (\<forall>y. nx u y = nx t y)) E t"
      using I by auto
  next
    fix t assume I: "?I xs t" and n: "\<And>y. nx t y = nx s y"
    have "gc_list W t ls xs" using gc_listD(5) [OF l] I n by (intro gc_list_cong [OF l]) (simp_all add: clean_def)
    then show "Q () t" using I by (intro Q) auto
  qed simp
qed

lemma owp_gc_list_size:
  assumes l: "gc_list W s ls xs"
  shows "owp d (gc_list_size W ls) Q E s = Q (int (length xs)) s"
proof -
  note gc_list_size_from.simps [simp del]
  have "owp d (gc_list_size_from W ls (hd (ys @ [ls])) n) Q E s = Q (n + int (length ys)) s"
    if "nchain s ys ls" "ls \<notin> set ys" "\<forall>y \<in> set ys. gc_heap W y" for ys n
    using that
  proof (induction ys arbitrary: n)
    case Nil
    have "gc_list_size_from W ls ls n s = oret n s" by (subst gc_list_size_from.simps) simp
    then show ?case by (simp add: owp_def oret_def)
  next
    case (Cons y ys)
    have "gc_list_size_from W ls y n s = obind (GC_NEXT W y) (\<lambda>nxt. gc_list_size_from W ls nxt (n + 1)) s"
      using Cons.prems(2) by (subst gc_list_size_from.simps) auto
    then have "owp d (gc_list_size_from W ls y n) Q E s
        = owp d (obind (GC_NEXT W y) (\<lambda>nxt. gc_list_size_from W ls nxt (n + 1))) Q E s" by (simp only: owp_def)
    then show ?case using Cons by (simp add: algebra_simps)
  qed
  moreover have "nchain s xs ls" "ls \<notin> set xs" "\<forall>y \<in> set xs. gc_heap W y" "gc_heap W ls"
    using gc_list_nchain [OF l] gc_listD(3) [OF l] gc_listD(4) [OF l] by auto
  ultimately show ?thesis using gc_list_hd [OF l] by (simp add: gc_list_size_def)
qed

lemma owp_handle_resurrected_objects:
  assumes g: "graph_ok W us" and l: "gc_list W s unr us" and o: "gc_list W s old os"
    and dis: "set (unr # us) \<inter> set (old # os) = {}"
    and c: "\<And>y. gc_heap W y \<Longrightarrow> coll s y \<Longrightarrow> y \<in> set us"
    and st: "gc_heap W still" "still \<notin> set (unr # us) \<union> set (old # os)"
    and Q: "\<And>t xs vs. \<lbrakk>gc_list W t unr []; gc_list W t old (os @ xs); gc_list W t still vs; distinct (xs @ vs);
        set xs = {y \<in> set us. gc_reach W us y}; set vs = {y \<in> set us. \<not> gc_reach W us y};
        \<And>y. gc_heap W y \<Longrightarrow> coll t y \<longleftrightarrow> y \<in> set vs; \<And>y. y \<in> set us \<Longrightarrow> fin t y = fin s y;
        \<And>y. y \<notin> set (unr # us) \<union> set (old # os) \<union> {still} \<Longrightarrow> t y = s y\<rbrakk> \<Longrightarrow> Q () t"
  shows "owp False (handle_resurrected_objects W unr still old) Q E s"
proof -
  have ok: "heads_ok W" using g by (rule graph_okD)
  have "owp False (gc_list_clear_collecting W unr) (\<lambda>_. owp False (deduce_unreachable W unr still)
      (\<lambda>_. owp False (clear_unreachable_mask W still) (\<lambda>_. owp False (gc_list_merge W unr old) Q E) E) E) E s"
  proof (rule owp_gc_list_clear_collecting [OF ok l])
    fix s1 assume s1: "gc_list W s1 unr us" "\<And>y. coll s1 y \<longleftrightarrow> coll s y \<and> y \<notin> set us" "\<And>y. fin s1 y = fin s y"
      "\<And>y. y \<notin> set us \<Longrightarrow> s1 y = s y"
    show "owp False (deduce_unreachable W unr still) (\<lambda>_. owp False (clear_unreachable_mask W still)
        (\<lambda>_. owp False (gc_list_merge W unr old) Q E) E) E s1"
    proof (rule owp_deduce_unreachable [OF g s1(1)])
      show "\<not> coll s1 y" if "gc_heap W y" for y using s1(2) c [OF that] by blast
      show "gc_heap W still" by (rule st)
      show "still \<notin> set (unr # us)" using st by simp
      fix xs vs s2 assume de: "deduced W s1 unr still us xs vs s2"
      have d1: "gc_list W s2 unr xs" "unreachable_list W s2 still vs" "\<And>y. gc_heap W y \<Longrightarrow> coll s2 y \<longleftrightarrow> y \<in> set vs"
        "distinct (unr # still # xs @ vs)" "set xs = {y \<in> set us. gc_reach W us y}" "set vs = {y \<in> set us. \<not> gc_reach W us y}"
        "\<And>y. y \<notin> set (unr # still # us) \<Longrightarrow> s2 y = s1 y" "\<And>y. y \<in> set us \<Longrightarrow> fin s2 y = fin s1 y"
        using de unfolding deduced_def by blast+
      have sub: "set xs \<subseteq> set us" "set vs \<subseteq> set us" using d1(5,6) by auto
      have "old \<notin> set (unr # still # us)" "set os \<inter> set (unr # still # us) = {}" using dis st(2) by auto
      then have eo: "s2 y = s y" if "y \<in> set (old # os)" for y using that d1(7) [of y] s1(4) [of y] by auto
      have o2: "gc_list W s2 old os" by (rule gc_list_frame [OF o]) (rule eo)
      show "owp False (clear_unreachable_mask W still) (\<lambda>_. owp False (gc_list_merge W unr old) Q E) E s2"
      proof (rule owp_clear_unreachable_mask [OF ok d1(2)])
        fix s3 assume s3: "gc_list W s3 still vs" "\<And>y. coll s3 y = coll s2 y" "\<And>y. fin s3 y = fin s2 y"
          "\<And>y. y \<notin> set vs \<Longrightarrow> s3 y = s2 y"
        have ov: "set (old # os) \<inter> set vs = {}" and uv: "set (unr # xs) \<inter> set vs = {}" using dis sub d1(4) by auto
        have o3: "gc_list W s3 old os" by (rule gc_list_frame [OF o2]) (use ov s3(4) in blast)
        have u3: "gc_list W s3 unr xs" by (rule gc_list_frame [OF d1(1)]) (use uv s3(4) in blast)
        show "owp False (gc_list_merge W unr old) Q E s3"
        proof (rule owp_gc_list_merge [OF ok u3 o3])
          show "set (unr # xs) \<inter> set (old # os) = {}" using dis sub by auto
          fix t assume t: "gc_list W t unr []" "gc_list W t old (os @ xs)" "\<And>y. coll t y = coll s3 y"
            "\<And>y. fin t y = fin s3 y" "\<And>y. y \<notin> set (unr # xs) \<union> set (old # os) \<Longrightarrow> t y = s3 y"
          have "set (still # vs) \<inter> (set (unr # xs) \<union> set (old # os)) = {}" using st(2) sub d1(4) dis by auto
          then have "gc_list W t still vs" by (intro gc_list_frame [OF s3(1)] t(5)) blast
          moreover have "t y = s y" if "y \<notin> set (unr # us) \<union> set (old # os) \<union> {still}" for y
          proof -
            have "y \<notin> set (unr # xs) \<union> set (old # os)" "y \<notin> set vs" "y \<notin> set (unr # still # us)" "y \<notin> set us"
              using that sub by auto
            then show ?thesis using t(5) s3(4) d1(7) s1(4) by metis
          qed
          moreover have "coll t y \<longleftrightarrow> y \<in> set vs" if "gc_heap W y" for y using t(3) s3(2) d1(3) [OF that] by simp
          moreover have "fin t y = fin s y" if "y \<in> set us" for y using t(4) s3(3) d1(8) [OF that] s1(3) by simp
          moreover have "distinct (xs @ vs)" using d1(4) by simp
          ultimately show "Q () t" using t(1,2) d1(5,6) by (intro Q)
        qed
      qed
    qed
  qed
  then show ?thesis by (simp add: handle_resurrected_objects_def)
qed

section \<open>What may be deleted\<close>

lemma internal_refs_sum: "internal_refs W xs y = sum_list (map (\<lambda>x. count_list (kids W x) y) xs)"
  unfolding internal_refs_def
  by (induction xs) simp_all

lemma internal_refs_mset: "mset xs = mset ys \<Longrightarrow> internal_refs W xs y = internal_refs W ys y"
proof -
  assume "mset xs = mset ys"
  then have "mset (map (\<lambda>x. count_list (kids W x) y) xs) = mset (map (\<lambda>x. count_list (kids W x) y) ys)" by simp
  then show ?thesis unfolding internal_refs_sum by (simp only: flip: sum_mset_sum_list)
qed

lemma internal_refs_append: "internal_refs W (xs @ ys) y = internal_refs W xs y + internal_refs W ys y"
  by (simp add: internal_refs_def)

lemma internal_refs_zero: "(\<And>x. x \<in> set xs \<Longrightarrow> y \<notin> set (kids W x)) \<Longrightarrow> internal_refs W xs y = 0"
  unfolding internal_refs_def by (subst count_list_0_iff) auto

text \<open>
  An unreachable object to which no object outside \<open>us\<close> refers has no reference except from \<open>us\<close>.
\<close>

lemma closed_refs:
  assumes g: "graph_ok W zs" and d: "distinct zs" "distinct us" and sub: "set us \<subseteq> set zs"
    and nr: "\<And>y. y \<in> set us \<Longrightarrow> \<not> gc_reach W zs y"
    and cl: "\<And>x y. x \<in> set zs - set us \<Longrightarrow> y \<in> set (kids W x) \<Longrightarrow> y \<notin> set us" and y: "y \<in> set us"
  shows "ob_refcnt W (FROM_GC y) = int (internal_refs W us y)"
proof -
  have yz: "y \<in> set zs" using sub y by blast
  have "\<not> external_refs W zs y > 0" using nr [OF y] gc_root [OF yz] by blast
  then have e: "ob_refcnt W (FROM_GC y) = int (internal_refs W zs y)"
    using graph_okD(6) [OF g yz] by (simp add: external_refs_def)
  let ?xs = "filter (\<lambda>x. x \<notin> set us) zs"
  have dd: "distinct (?xs @ us)" "set zs = set (?xs @ us)" using d sub by auto
  have "mset zs = mset (?xs @ us)" using set_eq_iff_mset_eq_distinct [OF d(1) dd(1)] dd(2) by blast
  then have "internal_refs W zs y = internal_refs W ?xs y + internal_refs W us y"
    unfolding internal_refs_append [symmetric] by (rule internal_refs_mset)
  moreover have "internal_refs W ?xs y = 0" by (rule internal_refs_zero) (use cl y in auto)
  ultimately show ?thesis using e by simp
qed

end
