(* ===== verification/PyGcTrack.thy ===== *)
theory PyGcTrack
  imports PyGcResult "HOL-Library.Sublist"
begin

unbundle bit_operations_syntax

text \<open>
  Tracking and untracking: an object enters a list and leaves it, and the tuples and dicts that a
  collection untracks refer only to objects that are not tracked either.
\<close>

section \<open>Tracking an object\<close>

definition untrack_node :: "addr \<Rightarrow> gc_store \<Rightarrow> gc_store" where
  "untrack_node g s = s(g := (s g)\<lparr>gc_prev := gc_prev (s g) AND PREV_MASK_FINALIZED\<rparr>)"

lemma untrack_node_views [simp]:
  "nx (untrack_node g s) y = nx s y" "y \<noteq> g \<Longrightarrow> prv (untrack_node g s) y = prv s y"
  "coll (untrack_node g s) y \<longleftrightarrow> y \<noteq> g \<and> coll s y" "fin (untrack_node g s) y = fin s y"
  "y \<noteq> g \<Longrightarrow> untrack_node g s y = s y"
  by (auto simp: untrack_node_def view_defs bit_and_iff bit_masks)

lemma owp_PyObject_GC_TRACK:
  assumes ok: "heads_ok W" and l: "gc_list W s g0 xs" and n: "gc_heap W (AS_GC op)" "AS_GC op \<notin> set (g0 # xs)"
    and u: "nx s (AS_GC op) = 0" "\<not> coll s (AS_GC op)"
    and Q: "\<And>t. \<lbrakk>gc_list W t g0 (xs @ [AS_GC op]); \<And>y. coll t y = coll s y; \<And>y. fin t y = fin s y;
        \<And>y. y \<notin> set (g0 # xs) \<Longrightarrow> y \<noteq> AS_GC op \<Longrightarrow> t y = s y\<rbrakk> \<Longrightarrow> Q () t"
  shows "owp d (PyObject_GC_TRACK W g0 op) Q E s"
proof -
  define k where "k = AS_GC op"
  define p where "p = last (g0 # xs)"
  have pin: "p \<in> set (g0 # xs)" by (simp add: p_def)
  have h: "gc_heap W p" "gc_heap W g0" "gc_heap W k"
    using gc_list_last_heap [OF l] gc_list_heap(1) [OF l] n by (simp_all add: p_def k_def)
  have al: "aligned p" "aligned k" "aligned g0" using heads_okD(1) [OF ok] h by blast+
  have c: "clean s g0" using l by (rule gc_listD)
  have pr: "prv s g0 = p" using gc_list_prv [OF l] by (simp add: p_def)
  have ne: "k \<noteq> p" "k \<noteq> g0" using n pin by (auto simp: k_def)
  let ?t = "set_raw g0 k (set_nx k g0 (set_prv k p (set_nx p k s)))"
  have "gc_list W ?t g0 (xs @ [k])"
    using ne al c gc_listD(3) [OF l] n(2)
    by (intro gc_list_linked [OF l h(3)]) (auto simp: k_def p_def [symmetric] simp del: last.simps)
  moreover have "coll ?t y = coll s y" "fin ?t y = fin s y" for y using c al by (auto simp: clean_def)
  moreover have "?t y = s y" if "y \<notin> set (g0 # xs)" "y \<noteq> k" for y
  proof -
    have "y \<noteq> g0" "y \<noteq> p" using that pin by auto
    then show ?thesis using that by simp
  qed
  ultimately have "Q () ?t" by (intro Q) (simp_all add: k_def)
  moreover have "\<not> bit (gc_prev (s k)) 1" using u by (simp add: coll_def k_def)
  ultimately show ?thesis
    unfolding PyObject_GC_TRACK_def Let_def k_def [symmetric]
    using h al c pr ne u by (simp add: clean_raw and_collecting k_def flip: nx_def)
qed

lemma owp_PyObject_GC_UNTRACK:
  assumes ok: "heads_ok W" and l: "gc_list W s ls (xs @ AS_GC op # ys)"
    and Q: "\<And>t. \<lbrakk>gc_list W t ls (xs @ ys); nx t (AS_GC op) = 0; \<And>y. coll t y \<longleftrightarrow> y \<noteq> AS_GC op \<and> coll s y;
        \<And>y. fin t y = fin s y; \<And>y. y \<notin> set (ls # xs @ AS_GC op # ys) \<Longrightarrow> t y = s y\<rbrakk> \<Longrightarrow> Q () t"
  shows "owp d (PyObject_GC_UNTRACK W op) Q E s"
proof -
  define k where "k = AS_GC op"
  have lk: "gc_list W s ls (xs @ k # ys)" using l by (simp add: k_def)
  have h: "gc_heap W k" by (rule gc_list_heap(2) [OF lk]) simp
  have hn: "gc_heap W (nx s k)" by (rule gc_list_in_heap [OF lk]) simp
  have nz: "nx s k \<noteq> 0" using heads_okD(2) [OF ok hn] .
  have kn: "k \<notin> set (ls # xs @ ys)" using gc_listD(3) [OF lk] by auto
  have "owp d (gc_list_remove W k) (\<lambda>_ t. Q () (untrack_node k t)) E s"
  proof (rule owp_gc_list_remove [OF ok lk])
    fix t assume t: "gc_list W t ls (xs @ ys)" "nx t k = 0" "\<And>y. coll t y = coll s y" "\<And>y. fin t y = fin s y"
      "\<And>y. y \<notin> {last (ls # xs), k, hd (ys @ [ls])} \<Longrightarrow> t y = s y"
    show "Q () (untrack_node k t)"
    proof (rule Q)
      have "prv (untrack_node k t) g = prv t g" if "g \<in> set (ls # xs @ ys)" for g
      proof -
        have "g \<noteq> k" using that kn by metis
        then show ?thesis by simp
      qed
      then show "gc_list W (untrack_node k t) ls (xs @ ys)"
        using gc_listD(5) [OF t(1)] kn by (intro gc_list_cong [OF t(1)]) (auto simp: clean_def)
      show "untrack_node k t y = s y" if "y \<notin> set (ls # xs @ AS_GC op # ys)" for y
      proof -
        have y: "y \<notin> set (ls # xs @ k # ys)" using that by (simp add: k_def)
        have "last (ls # xs) \<in> set (ls # xs)" "hd (ys @ [ls]) \<in> set (ls # ys)" by (simp_all, cases ys, simp_all)
        then have "y \<noteq> last (ls # xs)" "y \<noteq> hd (ys @ [ls])" "y \<noteq> k" using y by auto
        then show ?thesis using t(5) [of y] by (simp del: last.simps)
      qed
    qed (use t in \<open>simp_all add: k_def\<close>)
  qed
  then have "owp d (obind (gc_list_remove W k) (\<lambda>_. gc_write W k (\<lambda>h. h\<lparr>gc_prev := gc_prev h AND PREV_MASK_FINALIZED\<rparr>))) Q E s"
    unfolding owp_obind by (rule owp_mono) (use h in \<open>simp_all add: untrack_node_def\<close>)
  then show ?thesis
    unfolding PyObject_GC_UNTRACK_def gc_list_remove_def Let_def k_def [symmetric] using h nz by (simp flip: nx_def)
qed

section \<open>Untracking containers\<close>

definition may_be_tracked :: "gc_world \<Rightarrow> gc_store \<Rightarrow> addr \<Rightarrow> bool" where
  "may_be_tracked W s obj \<longleftrightarrow> object_is_gc W obj \<and> (tuple_exact W obj = None \<or> nx s (AS_GC obj) \<noteq> 0)"

lemma owp_GC_MAY_BE_TRACKED:
  assumes "object_is_gc W obj \<Longrightarrow> gc_heap W (AS_GC obj)"
  shows "owp d (GC_MAY_BE_TRACKED W obj) Q E s = Q (may_be_tracked W s obj) s"
  using assms by (cases "tuple_exact W obj") (simp_all add: GC_MAY_BE_TRACKED_def GC_IS_TRACKED_def may_be_tracked_def nx_def)

text \<open>
  What \<open>tuple_exact\<close> and \<open>dict_exact\<close> say of an object agrees with its \<open>tp_traverse\<close>; the keys of a
  split table are strings.
\<close>

definition contents_ok :: "gc_world \<Rightarrow> addr list \<Rightarrow> bool" where
  "contents_ok W xs \<longleftrightarrow> (\<forall>x \<in> set xs.
     (\<forall>items. tuple_exact W (FROM_GC x) = Some items \<longrightarrow>
        set (kids W x) = AS_GC ` {e. Some e \<in> set items \<and> object_is_gc W e})
     \<and> (\<forall>es. dict_exact W (FROM_GC x) = Some (CombinedTable es) \<longrightarrow>
        set (kids W x) = AS_GC ` {e. object_is_gc W e \<and> (\<exists>k v. (k, Some v) \<in> set es \<and> (e = k \<or> e = v))})
     \<and> (\<forall>ks vs. dict_exact W (FROM_GC x) = Some (SplitTable ks vs) \<longrightarrow> (\<forall>k \<in> set ks. \<not> object_is_gc W k)
        \<and> set (kids W x) = AS_GC ` {e. object_is_gc W e \<and> (\<exists>k. (k, Some e) \<in> set (zip ks vs))}))"

lemma kid_heap:
  assumes "graph_ok W zs" and "x \<in> set zs" and "AS_GC e \<in> set (kids W x)"
  shows "gc_heap W (AS_GC e)"
proof -
  obtain op where "op \<in> set (tp_traverse W (FROM_GC x))" "object_is_gc W op" "AS_GC e = AS_GC op"
    using assms(3) by (auto simp: kids_def kids_of_def)
  then show ?thesis using graph_okD(3) [OF assms(1,2)] by simp
qed

lemma owp_tuple_blocked:
  assumes "\<And>e. Some e \<in> set items \<Longrightarrow> object_is_gc W e \<Longrightarrow> gc_heap W (AS_GC e)"
  shows "owp d (tuple_blocked W items) Q E s = Q (\<not> (\<forall>x \<in> set items. \<exists>e. x = Some e \<and> \<not> may_be_tracked W s e)) s"
  using assms
proof (induction items)
  case (Cons x items)
  have h: "object_is_gc W e \<Longrightarrow> gc_heap W (AS_GC e)" if "x = Some e" for e using that Cons.prems [of e] by simp
  show ?case using Cons by (cases x) (auto simp: owp_GC_MAY_BE_TRACKED [OF h])
qed simp

lemma owp_combined_blocked:
  assumes "\<And>k v e. (k, Some v) \<in> set es \<Longrightarrow> e = k \<or> e = v \<Longrightarrow> object_is_gc W e \<Longrightarrow> gc_heap W (AS_GC e)"
  shows "owp d (combined_blocked W es) Q E s
     = Q (\<exists>k v. (k, Some v) \<in> set es \<and> (may_be_tracked W s k \<or> may_be_tracked W s v)) s"
  using assms
proof (induction es)
  case (Cons kv es)
  obtain k vo where kv: "kv = (k, vo)" by (cases kv)
  have IH: "owp d (combined_blocked W es) Q E s
     = Q (\<exists>k v. (k, Some v) \<in> set es \<and> (may_be_tracked W s k \<or> may_be_tracked W s v)) s"
  proof (rule Cons.IH)
    show "gc_heap W (AS_GC e)" if "(k, Some v) \<in> set es" "e = k \<or> e = v" "object_is_gc W e" for k v e
      using that by (intro Cons.prems [of k v e]) auto
  qed
  have h: "object_is_gc W e \<Longrightarrow> gc_heap W (AS_GC e)" if "vo = Some v" "e = k \<or> e = v" for e v
    using that Cons.prems [of k v e] kv by auto
  show ?case
  proof (cases vo)
    case None
    then show ?thesis using IH kv by simp
  next
    case (Some v)
    have e: "(\<exists>k' v'. (k', Some v') \<in> set (kv # es) \<and> (may_be_tracked W s k' \<or> may_be_tracked W s v'))
        \<longleftrightarrow> may_be_tracked W s v \<or> may_be_tracked W s k
          \<or> (\<exists>k v. (k, Some v) \<in> set es \<and> (may_be_tracked W s k \<or> may_be_tracked W s v))"
      using kv Some by auto
    show ?thesis
      unfolding e
      using IH kv Some owp_GC_MAY_BE_TRACKED [of W v, OF h [OF Some]] owp_GC_MAY_BE_TRACKED [of W k, OF h [OF Some]]
      by (cases "may_be_tracked W s v"; cases "may_be_tracked W s k") simp_all
  qed
qed simp

lemma owp_split_blocked:
  assumes "\<And>k v. (k, Some v) \<in> set es \<Longrightarrow> object_is_gc W v \<Longrightarrow> gc_heap W (AS_GC v)"
    and "\<And>k v. (k, v) \<in> set es \<Longrightarrow> \<not> object_is_gc W k"
  shows "owp d (split_blocked W es) Q E s = Q (\<exists>k v. (k, Some v) \<in> set es \<and> may_be_tracked W s v) s"
  using assms
proof (induction es)
  case (Cons kv es)
  obtain k vo where kv: "kv = (k, vo)" by (cases kv)
  have IH: "owp d (split_blocked W es) Q E s = Q (\<exists>k v. (k, Some v) \<in> set es \<and> may_be_tracked W s v) s"
  proof (rule Cons.IH)
    show "gc_heap W (AS_GC v)" if "(k, Some v) \<in> set es" "object_is_gc W v" for k v
      using that by (intro Cons.prems(1) [of k v]) auto
    show "\<not> object_is_gc W k" if "(k, v) \<in> set es" for k v
      using that by (intro Cons.prems(2) [of k v]) auto
  qed
  have nk: "\<not> object_is_gc W k" using Cons.prems(2) [of k vo] kv by simp
  have ek: "owp d (GC_MAY_BE_TRACKED W k) Q E s = Q False s" for Q using nk by (simp add: GC_MAY_BE_TRACKED_def)
  have h: "object_is_gc W v \<Longrightarrow> gc_heap W (AS_GC v)" if "vo = Some v" for v
    using that Cons.prems(1) [of k v] kv by auto
  show ?case
  proof (cases vo)
    case None
    then show ?thesis using IH kv by simp
  next
    case (Some v)
    have e: "(\<exists>k' v'. (k', Some v') \<in> set (kv # es) \<and> may_be_tracked W s v')
        \<longleftrightarrow> may_be_tracked W s v \<or> (\<exists>k v. (k, Some v) \<in> set es \<and> may_be_tracked W s v)"
      using kv Some by auto
    show ?thesis
      unfolding e using IH kv Some owp_GC_MAY_BE_TRACKED [of W v, OF h [OF Some]]
      by (cases "may_be_tracked W s v") (simp_all add: ek)
  qed
qed simp

text \<open>One object is left alone, or untracked when all it refers to is untracked.\<close>

definition untracks :: "gc_world \<Rightarrow> addr \<Rightarrow> addr list \<Rightarrow> addr \<Rightarrow> addr list \<Rightarrow> gc_store \<Rightarrow> gc_store \<Rightarrow> bool" where
  "untracks W ls xs u ys s t \<longleftrightarrow> gc_list W t ls (xs @ ys) \<and> nx t u = 0 \<and> (\<forall>y. coll t y \<longleftrightarrow> y \<noteq> u \<and> coll s y)
     \<and> (\<forall>y. fin t y = fin s y) \<and> (\<forall>y. y \<notin> set (ls # xs @ u # ys) \<longrightarrow> t y = s y)
     \<and> (\<forall>k \<in> set (kids W u). nx t k = 0)"

lemma owp_untrack_free:
  assumes ok: "heads_ok W" and l: "gc_list W s ls (xs @ u # ys)"
    and free: "\<And>k. k \<in> set (kids W u) \<Longrightarrow> nx s k = 0"
  shows "owp d (PyObject_GC_UNTRACK W (FROM_GC u)) (\<lambda>_. untracks W ls xs u ys s) E s"
proof (rule owp_PyObject_GC_UNTRACK [OF ok])
  show "gc_list W s ls (xs @ AS_GC (FROM_GC u) # ys)" using l by simp
  fix t assume t: "gc_list W t ls (xs @ ys)" "nx t (AS_GC (FROM_GC u)) = 0"
    "\<And>y. coll t y \<longleftrightarrow> y \<noteq> AS_GC (FROM_GC u) \<and> coll s y" "\<And>y. fin t y = fin s y"
    "\<And>y. y \<notin> set (ls # xs @ AS_GC (FROM_GC u) # ys) \<Longrightarrow> t y = s y"
  have "nx t k = 0" if "k \<in> set (kids W u)" for k
  proof -
    have z: "nx s k = 0" using free [OF that] .
    have "k \<notin> set (ls # xs @ u # ys)"
    proof
      assume "k \<in> set (ls # xs @ u # ys)"
      then show False using heads_okD(2) [OF ok gc_list_in_heap [OF l]] z by auto
    qed
    then show ?thesis using t(5) [of k] z by (simp add: nx_def)
  qed
  then show "untracks W ls xs u ys s t" using t by (simp add: untracks_def)
qed

lemma owp_PyTuple_MaybeUntrack:
  assumes g: "graph_ok W zs" and c: "contents_ok W zs" and u: "u \<in> set zs" and l: "gc_list W s ls (xs @ u # ys)"
  shows "owp d (PyTuple_MaybeUntrack W (FROM_GC u)) (\<lambda>_ t. t = s \<or> untracks W ls xs u ys s t) E s"
proof (cases "tuple_exact W (FROM_GC u)")
  case None
  then show ?thesis by (simp add: PyTuple_MaybeUntrack_def)
next
  case (Some items)
  have ok: "heads_ok W" using g by (rule graph_okD)
  have kd: "set (kids W u) = AS_GC ` {e. Some e \<in> set items \<and> object_is_gc W e}"
    using c u Some by (simp add: contents_ok_def)
  have h: "gc_heap W (AS_GC e)" if "Some e \<in> set items" "object_is_gc W e" for e
    using that by (intro kid_heap [OF g u]) (simp add: kd)
  have hu: "gc_heap W u" by (rule gc_list_heap(2) [OF l]) simp
  have "owp d (if \<not> (\<forall>x \<in> set items. \<exists>e. x = Some e \<and> \<not> may_be_tracked W s e) then oret ()
      else PyObject_GC_UNTRACK W (FROM_GC u)) (\<lambda>_ t. t = s \<or> untracks W ls xs u ys s t) E s"
  proof (cases "\<forall>x \<in> set items. \<exists>e. x = Some e \<and> \<not> may_be_tracked W s e")
    case True
    have "nx s k = 0" if k: "k \<in> set (kids W u)" for k
    proof -
      obtain e where "Some e \<in> set items" "object_is_gc W e" "k = AS_GC e" using k kd by auto
      then show ?thesis using True by (auto simp: may_be_tracked_def)
    qed
    then have "owp d (PyObject_GC_UNTRACK W (FROM_GC u)) (\<lambda>_. untracks W ls xs u ys s) E s"
      by (rule owp_untrack_free [OF ok l])
    then have "owp d (PyObject_GC_UNTRACK W (FROM_GC u)) (\<lambda>_ t. t = s \<or> untracks W ls xs u ys s t) E s"
      by (rule owp_mono) blast+
    then show ?thesis using True by simp
  qed simp
  then show ?thesis
    using hu by (simp add: PyTuple_MaybeUntrack_def GC_IS_TRACKED_def Some owp_tuple_blocked [OF h] del: owp_if)
qed

lemma owp_PyDict_MaybeUntrack:
  assumes g: "graph_ok W zs" and c: "contents_ok W zs" and u: "u \<in> set zs" and l: "gc_list W s ls (xs @ u # ys)"
  shows "owp d (PyDict_MaybeUntrack W (FROM_GC u)) (\<lambda>_ t. t = s \<or> untracks W ls xs u ys s t) E s"
proof (cases "dict_exact W (FROM_GC u)")
  case None
  then show ?thesis by (simp add: PyDict_MaybeUntrack_def)
next
  case d: (Some cn)
  have ok: "heads_ok W" using g by (rule graph_okD)
  have hu: "gc_heap W u" by (rule gc_list_heap(2) [OF l]) simp
  have un: "owp d (if b then oret () else PyObject_GC_UNTRACK W (FROM_GC u)) (\<lambda>_ t. t = s \<or> untracks W ls xs u ys s t) E s"
    if "\<not> b \<Longrightarrow> \<forall>k \<in> set (kids W u). nx s k = 0" for b
  proof (cases b)
    case False
    have "owp d (PyObject_GC_UNTRACK W (FROM_GC u)) (\<lambda>_. untracks W ls xs u ys s) E s"
      by (rule owp_untrack_free [OF ok l]) (use that False in blast)
    then have "owp d (PyObject_GC_UNTRACK W (FROM_GC u)) (\<lambda>_ t. t = s \<or> untracks W ls xs u ys s t) E s"
      by (rule owp_mono) blast+
    then show ?thesis using False by simp
  qed simp
  show ?thesis
  proof (cases cn)
    case (CombinedTable es)
    have kd: "set (kids W u) = AS_GC ` {e. object_is_gc W e \<and> (\<exists>k v. (k, Some v) \<in> set es \<and> (e = k \<or> e = v))}"
      using c u d CombinedTable by (simp add: contents_ok_def)
    have h: "gc_heap W (AS_GC e)" if "(k, Some v) \<in> set es" "e = k \<or> e = v" "object_is_gc W e" for k v e
      using that by (intro kid_heap [OF g u]) (auto simp: kd)
    have "owp d (if \<exists>k v. (k, Some v) \<in> set es \<and> (may_be_tracked W s k \<or> may_be_tracked W s v) then oret ()
        else PyObject_GC_UNTRACK W (FROM_GC u)) (\<lambda>_ t. t = s \<or> untracks W ls xs u ys s t) E s"
      by (rule un) (use kd in \<open>auto simp: may_be_tracked_def\<close>)
    then show ?thesis
      using hu by (simp add: PyDict_MaybeUntrack_def GC_IS_TRACKED_def d CombinedTable owp_combined_blocked [OF h] del: owp_if)
  next
    case (SplitTable ks vs)
    have kd: "set (kids W u) = AS_GC ` {e. object_is_gc W e \<and> (\<exists>k. (k, Some e) \<in> set (zip ks vs))}"
      and ks: "\<forall>k \<in> set ks. \<not> object_is_gc W k"
      using c u d SplitTable by (simp_all add: contents_ok_def)
    have h: "gc_heap W (AS_GC v)" if "(k, Some v) \<in> set (zip ks vs)" "object_is_gc W v" for k v
      using that by (intro kid_heap [OF g u]) (auto simp: kd)
    have nk: "\<not> object_is_gc W k" if "(k, v) \<in> set (zip ks vs)" for k v using that ks by (auto dest: set_zip_leftD)
    have "owp d (if \<exists>k v. (k, Some v) \<in> set (zip ks vs) \<and> may_be_tracked W s v then oret ()
        else PyObject_GC_UNTRACK W (FROM_GC u)) (\<lambda>_ t. t = s \<or> untracks W ls xs u ys s t) E s"
      by (rule un) (use kd in \<open>auto simp: may_be_tracked_def\<close>)
    then show ?thesis
      using hu by (simp add: PyDict_MaybeUntrack_def GC_IS_TRACKED_def d SplitTable owp_split_blocked [OF h nk] del: owp_if)
  qed
qed

declare untrack_from.simps [simp del]

text \<open>
  The outcome of untracking: \<open>ys\<close> are left of the list, and the others refer to untracked objects.
\<close>

definition untracked :: "gc_world \<Rightarrow> addr \<Rightarrow> addr list \<Rightarrow> gc_store \<Rightarrow> addr list \<Rightarrow> gc_store \<Rightarrow> bool" where
  "untracked W ls xs s ys t \<longleftrightarrow> gc_list W t ls ys \<and> subseq ys xs
     \<and> (\<forall>y \<in> set xs - set ys. nx t y = 0 \<and> (\<forall>k \<in> set (kids W y). nx t k = 0))
     \<and> (\<forall>y. coll t y \<longleftrightarrow> coll s y \<and> y \<notin> set xs - set ys) \<and> (\<forall>y. fin t y = fin s y)
     \<and> (\<forall>y. y \<notin> set (ls # xs) \<longrightarrow> t y = s y)"

lemma owp_untrack_from:
  assumes ok: "heads_ok W"
    and step: "\<And>us u vs s. gc_list W s ls (us @ u # vs) \<Longrightarrow> u \<in> set zs \<Longrightarrow>
        owp d (mu (FROM_GC u)) (\<lambda>_ t. t = s \<or> untracks W ls us u vs s t) E s"
    and "gc_list W s ls (ks @ rest)" and "set rest \<subseteq> set zs"
  shows "owp d (untrack_from W mu ls (hd (rest @ [ls]))) (\<lambda>_ t. \<exists>ys. untracked W ls (ks @ rest) s (ks @ ys) t \<and> set ys \<subseteq> set rest) E s"
  using assms(3-)
proof (induction rest arbitrary: ks s)
  case Nil
  have "untrack_from W mu ls ls s = oret () s" by (subst untrack_from.simps) simp
  then have "owp d (untrack_from W mu ls ls) Q E s = Q () s" for Q by (simp add: owp_def oret_def)
  then show ?case using Nil by (auto simp: untracked_def)
next
  case (Cons u rest)
  have u: "u \<noteq> ls" "gc_heap W u" using gc_listD(3) [OF Cons.prems(1)] gc_list_heap(2) [OF Cons.prems(1), of u] by auto
  have d: "distinct (ls # ks @ u # rest)" using Cons.prems(1) by (rule gc_listD)
  have n: "nx s u = hd (rest @ [ls])" using gc_list_mid(2) [OF Cons.prems(1)] .
  let ?Q = "\<lambda>_ t. \<exists>ys. untracked W ls (ks @ u # rest) s (ks @ ys) t \<and> set ys \<subseteq> set (u # rest)"
  let ?m = "obind (GC_NEXT W u) (\<lambda>nxt. obind (mu (FROM_GC u)) (\<lambda>_. untrack_from W mu ls nxt))"
  have "untrack_from W mu ls u s = ?m s" using u by (subst untrack_from.simps) simp
  then have e: "owp d (untrack_from W mu ls u) ?Q E s = owp d ?m ?Q E s" by (simp only: owp_def)
  have "owp d (mu (FROM_GC u)) (\<lambda>_. owp d (untrack_from W mu ls (hd (rest @ [ls]))) ?Q E) E s"
  proof (rule owp_mono [OF step [OF Cons.prems(1)]])
    show "u \<in> set zs" using Cons.prems(2) by simp
    fix x t assume "t = s \<or> untracks W ls ks u rest s t"
    then show "owp d (untrack_from W mu ls (hd (rest @ [ls]))) ?Q E t"
    proof
      assume t: "t = s"
      have "owp d (untrack_from W mu ls (hd (rest @ [ls])))
          (\<lambda>_ t. \<exists>ys. untracked W ls ((ks @ [u]) @ rest) s ((ks @ [u]) @ ys) t \<and> set ys \<subseteq> set rest) E s"
        using Cons.prems by (intro Cons.IH) auto
      then show ?thesis unfolding t
      proof (rule owp_mono)
        fix x t assume "\<exists>ys. untracked W ls ((ks @ [u]) @ rest) s ((ks @ [u]) @ ys) t \<and> set ys \<subseteq> set rest"
        then obtain ys where "untracked W ls (ks @ u # rest) s (ks @ u # ys) t" "set ys \<subseteq> set rest" by auto
        then show "?Q x t" by (intro exI [of _ "u # ys"]) auto
      qed
    next
      assume t: "untracks W ls ks u rest s t"
      have lt: "gc_list W t ls (ks @ rest)" using t by (simp add: untracks_def)
      have "owp d (untrack_from W mu ls (hd (rest @ [ls])))
          (\<lambda>_ v. \<exists>ys. untracked W ls (ks @ rest) t (ks @ ys) v \<and> set ys \<subseteq> set rest) E t"
        using Cons.prems(2) by (intro Cons.IH [OF lt]) simp
      then show ?thesis
      proof (rule owp_mono)
        fix x v assume "\<exists>ys. untracked W ls (ks @ rest) t (ks @ ys) v \<and> set ys \<subseteq> set rest"
        then obtain ys where v: "untracked W ls (ks @ rest) t (ks @ ys) v" "set ys \<subseteq> set rest" by blast
        note v1 = v(1) [unfolded untracked_def] and t1 = t [unfolded untracks_def]
        have uo: "u \<notin> set (ls # ks @ rest)" using d by auto
        have keep: "nx v k = 0" if "nx t k = 0" for k
        proof -
          have "k \<notin> set (ls # ks @ rest)"
          proof
            assume "k \<in> set (ls # ks @ rest)"
            then show False using heads_okD(2) [OF ok gc_list_in_heap [OF lt]] that by auto
          qed
          then have "v k = t k" using v1 by blast
          then show ?thesis using that by (simp add: nx_def)
        qed
        have "untracked W ls (ks @ u # rest) s (ks @ ys) v"
          unfolding untracked_def
        proof (intro conjI ballI allI impI)
          show "gc_list W v ls (ks @ ys)" using v1 by blast
          have "subseq (ks @ ys) (ks @ rest)" using v1 by blast
          moreover have "subseq (ks @ rest) (ks @ u # rest)" by (intro list_emb_append_mono) auto
          ultimately show "subseq (ks @ ys) (ks @ u # rest)" by (rule subseq_order.trans)
          fix y assume y: "y \<in> set (ks @ u # rest) - set (ks @ ys)"
          show "nx v y = 0" using y v1 t1 keep by (cases "y = u") auto
          show "nx v k = 0" if "k \<in> set (kids W y)" for k using y v1 t1 keep that by (cases "y = u") auto
        next
          fix y
          show "coll v y \<longleftrightarrow> coll s y \<and> y \<notin> set (ks @ u # rest) - set (ks @ ys)"
            using v1 t1 uo v(2) by (cases "y = u") auto
          show "fin v y = fin s y" using v1 t1 by simp
          show "v y = s y" if "y \<notin> set (ls # ks @ u # rest)" using v1 t1 that by auto
        qed
        then show "?Q x v" using v(2) by auto
      qed
    qed
  qed
  then have "owp d ?m ?Q E s" using u n by simp
  then show ?case using e by simp
qed

lemma owp_untrack:
  assumes g: "graph_ok W zs" and c: "contents_ok W zs" and l: "gc_list W s ls xs" and sub: "set xs \<subseteq> set zs"
    and Q: "\<And>ys t. untracked W ls xs s ys t \<Longrightarrow> Q () t"
  shows "owp d (untrack_tuples W ls) Q E s" "owp d (untrack_dicts W ls) Q E s"
proof -
  have ok: "heads_ok W" using g by (rule graph_okD)
  have a: "owp d (untrack_from W (PyTuple_MaybeUntrack W) ls (hd (xs @ [ls])))
      (\<lambda>_ t. \<exists>ys. untracked W ls ([] @ xs) s ([] @ ys) t \<and> set ys \<subseteq> set xs) E s"
    by (rule owp_untrack_from [OF ok owp_PyTuple_MaybeUntrack [OF g c]]) (use l sub in auto)
  have b: "owp d (untrack_from W (PyDict_MaybeUntrack W) ls (hd (xs @ [ls])))
      (\<lambda>_ t. \<exists>ys. untracked W ls ([] @ xs) s ([] @ ys) t \<and> set ys \<subseteq> set xs) E s"
    by (rule owp_untrack_from [OF ok owp_PyDict_MaybeUntrack [OF g c]]) (use l sub in auto)
  show "owp d (untrack_tuples W ls) Q E s"
    using owp_mono [OF a, of Q E] Q gc_list_heap(1) [OF l] gc_list_hd [OF l] by (auto simp: untrack_tuples_def)
  show "owp d (untrack_dicts W ls) Q E s"
    using owp_mono [OF b, of Q E] Q gc_list_heap(1) [OF l] gc_list_hd [OF l] by (auto simp: untrack_dicts_def)
qed

end
