(* ===== verification/PyGcCollect.thy ===== *)
theory PyGcCollect
  imports PyGcTrack
begin

unbundle bit_operations_syntax

text \<open>
  The first half of a collection: the generations, what becomes of each object of the ones that
  are collected, and the uncollectable objects.
\<close>

lemma owp_on_heads [simp]:
  "owp d (on_heads m) Q E (s, G) = owp d m (\<lambda>x t. Q x (t, G)) (\<lambda>e t. E e (t, G)) s"
  by (simp add: owp_def on_heads_def split: option.split prod.split sum.split)

lemma owp_on_state [simp]: "owp d (on_state f) Q E (s, G) = Q () (s, f G)"
  by (simp add: on_state_def)

section \<open>Generations\<close>

definition gens_ok :: "gc_world \<Rightarrow> gc_store \<Rightarrow> (nat \<Rightarrow> addr list) \<Rightarrow> bool" where
  "gens_ok W s Z \<longleftrightarrow>
     (\<forall>i < NUM_GENERATIONS. gc_list W s (gen_head W i) (Z i))
     \<and> (\<forall>i < NUM_GENERATIONS. \<forall>j < NUM_GENERATIONS. i \<noteq> j \<longrightarrow>
          set (gen_head W i # Z i) \<inter> set (gen_head W j # Z j) = {})"

definition gens_nodes :: "gc_world \<Rightarrow> (nat \<Rightarrow> addr list) \<Rightarrow> addr set" where
  "gens_nodes W Z = (\<Union>i \<in> {..<NUM_GENERATIONS}. set (gen_head W i # Z i))"

lemma gens_okD:
  assumes "gens_ok W s Z"
  shows "i < NUM_GENERATIONS \<Longrightarrow> gc_list W s (gen_head W i) (Z i)"
    "i < NUM_GENERATIONS \<Longrightarrow> j < NUM_GENERATIONS \<Longrightarrow> i \<noteq> j \<Longrightarrow> set (gen_head W i # Z i) \<inter> set (gen_head W j # Z j) = {}"
  using assms by (auto simp: gens_ok_def)

lemma gens_nodesI: "i < NUM_GENERATIONS \<Longrightarrow> y \<in> set (gen_head W i # Z i) \<Longrightarrow> y \<in> gens_nodes W Z"
  unfolding gens_nodes_def by blast

lemma gens_nodes_head: "i < NUM_GENERATIONS \<Longrightarrow> gen_head W i \<in> gens_nodes W Z"
  by (erule gens_nodesI) (rule list.set_intros(1))

lemma gens_nodes_update:
  assumes "set xs \<subseteq> set (Z g)"
  shows "gens_nodes W (Z(g := xs)) \<subseteq> gens_nodes W Z"
proof
  fix y assume "y \<in> gens_nodes W (Z(g := xs))"
  then obtain k where k: "k < NUM_GENERATIONS" "y \<in> set (gen_head W k # (Z(g := xs)) k)"
    unfolding gens_nodes_def by blast
  show "y \<in> gens_nodes W Z"
    by (rule gens_nodesI [OF k(1)]) (use k(2) assms in \<open>auto split: if_splits\<close>)
qed

text \<open>One list of the generations changes, within what the generations had.\<close>

lemma gens_ok_update:
  assumes g: "gens_ok W s Z" and i: "i < NUM_GENERATIONS"
    and l: "gc_list W t (gen_head W i) xs" and sub: "set xs \<subseteq> set (Z i) \<union> new"
    and new: "new \<inter> gens_nodes W Z = {}"
    and f: "\<And>j y. j < NUM_GENERATIONS \<Longrightarrow> j \<noteq> i \<Longrightarrow> y \<in> set (gen_head W j # Z j) \<Longrightarrow> t y = s y"
  shows "gens_ok W t (Z(i := xs))"
  unfolding gens_ok_def
proof (intro conjI allI impI)
  fix j assume j: "j < NUM_GENERATIONS"
  show "gc_list W t (gen_head W j) ((Z(i := xs)) j)"
  proof (cases "j = i")
    case False
    then show ?thesis using gc_list_frame [OF gens_okD(1) [OF g j]] f [OF j False] by simp
  qed (use l in simp)
next
  fix j k assume jk: "j < NUM_GENERATIONS" "k < NUM_GENERATIONS" "j \<noteq> k"
  have d: "set (gen_head W j # Z j) \<inter> set (gen_head W k # Z k) = {}" by (rule gens_okD(2) [OF g jk])
  have "new \<inter> set (gen_head W j # Z j) = {}" "new \<inter> set (gen_head W k # Z k) = {}"
    using new gens_nodesI [OF jk(1)] gens_nodesI [OF jk(2)] by blast+
  then show "set (gen_head W j # (Z(i := xs)) j) \<inter> set (gen_head W k # (Z(i := xs)) k) = {}"
    using d sub jk(3) by (cases "j = i"; cases "k = i") auto
qed

lemma owp_gens_merge:
  assumes ok: "heads_ok W" and g: "gens_ok W s Z" and ij: "i < NUM_GENERATIONS" "j < NUM_GENERATIONS" "i \<noteq> j"
    and Q: "\<And>t. \<lbrakk>gens_ok W t (Z(i := [], j := Z j @ Z i)); \<And>y. coll t y = coll s y; \<And>y. fin t y = fin s y;
       \<And>y. y \<notin> gens_nodes W Z \<Longrightarrow> t y = s y\<rbrakk> \<Longrightarrow> Q () t"
  shows "owp d (gc_list_merge W (gen_head W i) (gen_head W j)) Q E s"
proof (rule owp_gc_list_merge [OF ok gens_okD(1) [OF g ij(1)] gens_okD(1) [OF g ij(2)] gens_okD(2) [OF g ij]])
  fix t assume t: "gc_list W t (gen_head W i) []" "gc_list W t (gen_head W j) (Z j @ Z i)" "\<And>y. coll t y = coll s y"
    "\<And>y. fin t y = fin s y" "\<And>y. y \<notin> set (gen_head W i # Z i) \<union> set (gen_head W j # Z j) \<Longrightarrow> t y = s y"
  have "gens_ok W t (Z(i := [], j := Z j @ Z i))"
    unfolding gens_ok_def
  proof (intro conjI allI impI)
    fix k assume k: "k < NUM_GENERATIONS"
    have "gc_list W t (gen_head W k) (Z k)" if "k \<noteq> i" "k \<noteq> j"
    proof (rule gc_list_frame [OF gens_okD(1) [OF g k]])
      fix y assume "y \<in> set (gen_head W k # Z k)"
      then show "t y = s y" using gens_okD(2) [OF g k ij(1) that(1)] gens_okD(2) [OF g k ij(2) that(2)] by (intro t(5)) blast
    qed
    then show "gc_list W t (gen_head W k) ((Z(i := [], j := Z j @ Z i)) k)" using t(1,2) by auto
  next
    fix k m assume km: "k < NUM_GENERATIONS" "m < NUM_GENERATIONS" "k \<noteq> m"
    let ?Z = "Z(i := [], j := Z j @ Z i)"
    note D = gens_okD(2) [OF g]
    have aux: "set (gen_head W j # ?Z j) \<inter> set (gen_head W k # ?Z k) = {}" if "k < NUM_GENERATIONS" "k \<noteq> j" for k
    proof (cases "k = i")
      case True
      then show ?thesis using D [OF ij] gc_listD(3) [OF gens_okD(1) [OF g ij(1)]] ij(3) by auto
    next
      case False
      then show ?thesis using D [OF that(1) ij(2)] D [OF that(1) ij(1)] that by auto
    qed
    show "set (gen_head W k # ?Z k) \<inter> set (gen_head W m # ?Z m) = {}"
    proof (cases "k = j \<or> m = j")
      case True
      then show ?thesis using aux [of k] aux [of m] km by blast
    next
      case False
      then show ?thesis using D [OF km] by auto
    qed
  qed
  moreover have "t y = s y" if "y \<notin> gens_nodes W Z" for y
    using that gens_nodesI [OF ij(1), of y W Z] gens_nodesI [OF ij(2), of y W Z] by (intro t(5)) blast
  ultimately show "Q () t" using t(3,4) by (intro Q)
qed

text \<open>The generations up to \<open>g\<close>, merged into it.\<close>

definition merged :: "nat \<Rightarrow> nat list \<Rightarrow> (nat \<Rightarrow> addr list) \<Rightarrow> nat \<Rightarrow> addr list" where
  "merged g p Z = (\<lambda>i. if i \<in> set p then [] else if i = g then Z g @ concat (map Z p) else Z i)"

lemma owp_merge_younger:
  assumes ok: "heads_ok W" and g: "gens_ok W s Z" and gl: "g < NUM_GENERATIONS"
    and Q: "\<And>t. \<lbrakk>gens_ok W t (merged g [0..<g] Z); \<And>y. coll t y = coll s y; \<And>y. fin t y = fin s y;
       \<And>y. y \<notin> gens_nodes W Z \<Longrightarrow> t y = s y\<rbrakk> \<Longrightarrow> Q () t"
  shows "owp d (visit_all (\<lambda>i. gc_list_merge W (gen_head W i) (gen_head W g)) [0..<g]) Q E s"
proof -
  let ?I = "\<lambda>p t. gens_ok W t (merged g p Z) \<and> gens_nodes W (merged g p Z) \<subseteq> gens_nodes W Z \<and> (\<forall>y. coll t y = coll s y)
      \<and> (\<forall>y. fin t y = fin s y) \<and> (\<forall>y. y \<notin> gens_nodes W Z \<longrightarrow> t y = s y)"
  have "owp d (visit_all (\<lambda>i. gc_list_merge W (gen_head W i) (gen_head W g)) [0..<g]) (\<lambda>_. ?I [0..<g]) E s"
  proof (rule owp_visit_all [where p = "[]"])
    fix p i q t assume p: "[0..<g] = p @ i # q" and I: "?I p t"
    have ig: "i < g" "i \<notin> set p"
    proof -
      have "i \<in> set [0..<g]" unfolding p by simp
      then show "i < g" by simp
      have "distinct (p @ i # q)" unfolding p [symmetric] by simp
      then show "i \<notin> set p" by simp
    qed
    have gp: "g \<notin> set p"
    proof
      assume "g \<in> set p"
      then have "g \<in> set [0..<g]" unfolding p by simp
      then show False by simp
    qed
    have e: "(merged g p Z)(i := [], g := merged g p Z g @ merged g p Z i) = merged g (p @ [i]) Z"
      using ig gp by (auto simp: merged_def fun_eq_iff)
    show "owp d (gc_list_merge W (gen_head W i) (gen_head W g)) (\<lambda>_. ?I (p @ [i])) E t"
    proof (rule owp_gens_merge [OF ok, where Z = "merged g p Z"])
      show "gens_ok W t (merged g p Z)" using I by blast
      fix u assume u: "gens_ok W u ((merged g p Z)(i := [], g := merged g p Z g @ merged g p Z i))"
        "\<And>y. coll u y = coll t y" "\<And>y. fin u y = fin t y" "\<And>y. y \<notin> gens_nodes W (merged g p Z) \<Longrightarrow> u y = t y"
      have "gens_nodes W (merged g (p @ [i]) Z) \<subseteq> gens_nodes W (merged g p Z)"
      proof
        fix y assume "y \<in> gens_nodes W (merged g (p @ [i]) Z)"
        then obtain k where k: "k < NUM_GENERATIONS" "y \<in> set (gen_head W k # merged g (p @ [i]) Z k)"
          by (auto simp: gens_nodes_def)
        show "y \<in> gens_nodes W (merged g p Z)"
        proof (cases "k = g \<and> y \<in> set (merged g p Z i)")
          case True
          then show ?thesis using ig gl by (intro gens_nodesI [of i]) auto
        next
          case False
          then show ?thesis using k unfolding e [symmetric] by (intro gens_nodesI [OF k(1)]) (auto split: if_splits)
        qed
      qed
      moreover have "u y = s y" if "y \<notin> gens_nodes W Z" for y
      proof -
        have "y \<notin> gens_nodes W (merged g p Z)" using that I by blast
        then show ?thesis using u(4) I that by simp
      qed
      ultimately show "?I (p @ [i]) u" using u(1-3) I unfolding e by auto
    qed (use ig gl in auto)
  next
    have "merged g [] Z = Z" by (auto simp: merged_def fun_eq_iff)
    then show "?I [] s" using g by simp
  qed simp
  then show ?thesis by (rule owp_mono) (auto intro: Q)
qed

section \<open>The objects of a collection\<close>

lemma subseq_set: "subseq xs ys \<Longrightarrow> set xs \<subseteq> set ys"
  by (auto dest: list_emb_set)

lemma untracked_trans:
  assumes ok: "heads_ok W" and a: "untracked W ls xs s ys t" and b: "untracked W ls ys t zs v" and lx: "gc_list W s ls xs"
  shows "untracked W ls xs s zs v"
proof -
  note a1 = a [unfolded untracked_def] and b1 = b [unfolded untracked_def]
  have l: "gc_list W t ls ys" using a1 by blast
  have sub: "set zs \<subseteq> set ys" "set ys \<subseteq> set xs" using a1 b1 by (blast dest: subseq_set)+
  have keep: "nx v k = 0" if "nx t k = 0" for k
  proof -
    have "k \<notin> set (ls # ys)"
    proof
      assume "k \<in> set (ls # ys)"
      then show False using heads_okD(2) [OF ok gc_list_in_heap [OF l]] that by auto
    qed
    then have "v k = t k" using b1 by blast
    then show ?thesis using that by (simp add: nx_def)
  qed
  show ?thesis
    unfolding untracked_def
  proof (intro conjI ballI allI impI)
    show "gc_list W v ls zs" using b1 by blast
    show "subseq zs xs" using a1 b1 by (blast intro: subseq_order.trans)
    fix y assume y: "y \<in> set xs - set zs"
    show "nx v y = 0" using y a1 b1 keep by (cases "y \<in> set ys") auto
    show "nx v k = 0" if "k \<in> set (kids W y)" for k using y a1 b1 keep that by (cases "y \<in> set ys") auto
  next
    fix y
    show "coll v y \<longleftrightarrow> coll s y \<and> y \<notin> set xs - set zs" using a1 b1 sub by auto
    show "fin v y = fin s y" using a1 b1 by simp
    show "v y = s y" if "y \<notin> set (ls # xs)" using that a1 b1 sub by auto
  qed
qed

lemma unreachable_list_frame:
  assumes "unreachable_list W s unr us" and "\<And>y. y \<in> set (unr # us) \<Longrightarrow> t y = s y"
  shows "unreachable_list W t unr us"
proof -
  have "gc_list W (unflag t) unr us"
    by (rule gc_list_frame [of _ "unflag s"]) (use assms in \<open>auto simp: unreachable_list_def unflag_def\<close>)
  moreover have "nx t y = nx s y \<and> coll t y = coll s y" if "y \<in> set (unr # us)" for y
    using assms(2) [OF that] by (simp add: view_defs)
  ultimately show ?thesis using assms(1) by (auto simp: unreachable_list_def)
qed

text \<open>The two sets into which the unreachable objects are divided.\<close>

definition unreachable_set :: "gc_world \<Rightarrow> addr list \<Rightarrow> addr set" where
  "unreachable_set W zs = {y \<in> set zs. \<not> gc_reach W zs y}"

definition uncollectable_set :: "gc_world \<Rightarrow> addr list \<Rightarrow> addr set" where
  "uncollectable_set W zs = {y. legacy_reach W (unreachable_set W zs) y}"

definition set_aside ::
    "gc_world \<Rightarrow> gc_store \<Rightarrow> addr \<Rightarrow> addr \<Rightarrow> addr list \<Rightarrow> addr list \<Rightarrow> addr list \<Rightarrow> gc_store \<Rightarrow> bool" where
  "set_aside W s unr fn zs us fs t \<longleftrightarrow> two_lists W unr fn us fs t
     \<and> set fs = uncollectable_set W zs \<and> set us = unreachable_set W zs - uncollectable_set W zs
     \<and> (\<forall>u \<in> set us. ob_refcnt W (FROM_GC u) = int (internal_refs W us u))
     \<and> (\<forall>y. y \<noteq> fn \<longrightarrow> fin t y = fin s y) \<and> (\<forall>y. y \<notin> unreachable_set W zs \<longrightarrow> y \<noteq> unr \<longrightarrow> y \<noteq> fn \<longrightarrow> t y = s y)"

lemma owp_set_aside:
  assumes g: "graph_ok W zs" and d: "distinct zs" and ul: "unreachable_list W s unr us0" and fh: "gc_heap W fn"
    and us0: "set us0 = unreachable_set W zs" and dis: "fn \<notin> set (unr # us0)"
    and cl: "\<And>y. gc_heap W y \<Longrightarrow> coll s y \<longleftrightarrow> y \<in> set us0"
    and Q: "\<And>us fs t. set_aside W s unr fn zs us fs t \<Longrightarrow> Q () t"
  shows "owp False (obind (gc_list_init W fn) (\<lambda>_. obind (move_legacy_finalizers W unr fn) (\<lambda>_.
      obind (move_legacy_finalizer_reachable W fn) (\<lambda>_.
      obind (validate_list W fn collecting_clear_unreachable_clear) (\<lambda>_.
        validate_list W unr collecting_set_unreachable_clear))))) Q E s"
proof -
  have ok: "heads_ok W" using g by (rule graph_okD)
  have ur: "gc_list W (unflag s) unr us0" using ul by (simp add: unreachable_list_def)
  have nu: "\<not> coll s unr" using gc_listD(5) [OF ur] by (simp add: clean_def)
  let ?last = "\<lambda>_. owp False (obind (validate_list W fn collecting_clear_unreachable_clear) (\<lambda>_.
        validate_list W unr collecting_set_unreachable_clear)) Q E"
  have "owp False (gc_list_init W fn) (\<lambda>_. owp False (move_legacy_finalizers W unr fn) (\<lambda>_.
      owp False (move_legacy_finalizer_reachable W fn) ?last E) E) E s"
  proof (rule owp_gc_list_init [OF ok fh])
    fix s1 assume f1: "gc_list W s1 fn []" and e1: "\<And>y. y \<noteq> fn \<Longrightarrow> s1 y = s y"
    have ul1: "unreachable_list W s1 unr us0" by (rule unreachable_list_frame [OF ul], rule e1) (use dis in auto)
    have c1: "coll s1 y \<longleftrightarrow> y \<in> set us0" if "gc_heap W y" for y
      using cl [OF that] e1 [of y] gc_listD(5) [OF f1] dis by (cases "y = fn") (auto simp: clean_def coll_def)
    have n1: "fin s1 y = fin s y" if "y \<noteq> fn" for y using e1 [OF that] by (simp add: fin_def)
    show "owp False (move_legacy_finalizers W unr fn) (\<lambda>_. owp False (move_legacy_finalizer_reachable W fn) ?last E) E s1"
    proof (rule owp_move_legacy_finalizers [OF ok ul1 f1 dis])
      let ?us = "[u \<leftarrow> us0. \<not> tp_del W (FROM_GC u)]" and ?fs = "[u \<leftarrow> us0. tp_del W (FROM_GC u)]"
      fix s2 assume s2: "gc_list W s2 unr ?us" "gc_list W s2 fn ?fs"
        "\<And>y. coll s2 y \<longleftrightarrow> coll s1 y \<and> \<not> (y \<in> set us0 \<and> tp_del W (FROM_GC y))"
        "\<And>y. fin s2 y = fin s1 y" "\<And>y. y \<notin> set (unr # us0) \<union> {fn} \<Longrightarrow> s2 y = s1 y"
      have du: "unr \<notin> set us0" using gc_listD(3) [OF ur] by simp
      have c2: "coll s2 y \<longleftrightarrow> y \<in> set ?us" if "gc_heap W y" for y using s2(3) [of y] c1 [OF that] by auto
      have tl: "two_lists W unr fn ?us ?fs s2"
        using s2(1,2) dis du c2 by (auto simp: two_lists_def)
      have un: "set ?us \<union> set ?fs = unreachable_set W zs" using us0 by auto
      show "owp False (move_legacy_finalizer_reachable W fn) ?last E s2"
      proof (rule owp_move_legacy_finalizer_reachable [OF g tl])
        show "set ?us \<union> set ?fs \<subseteq> set zs" unfolding un by (auto simp: unreachable_set_def)
        show "set ?fs = {y \<in> set ?us \<union> set ?fs. tp_del W (FROM_GC y)}" by auto
        fix us fs t
        assume t: "two_lists W unr fn us fs t" "set fs = {y. legacy_reach W (set ?us \<union> set ?fs) y}"
          "set us = set ?us \<union> set ?fs - set fs" "\<And>x y. x \<in> set fs \<Longrightarrow> y \<in> set (kids W x) \<Longrightarrow> y \<notin> set us"
          "\<And>y. fin t y = fin s2 y" "\<And>y. y \<notin> set ?us \<union> set ?fs \<Longrightarrow> y \<noteq> unr \<Longrightarrow> y \<noteq> fn \<Longrightarrow> t y = s2 y"
        have fs: "set fs = uncollectable_set W zs" using t(2) unfolding un uncollectable_set_def .
        have us: "set us = unreachable_set W zs - uncollectable_set W zs" using t(3) unfolding un fs .
        have l: "gc_list W t unr us" "gc_list W t fn fs" using t(1) by (simp_all add: two_lists_def)
        have ct: "coll t y \<longleftrightarrow> y \<in> set us" if "gc_heap W y" for y using t(1) that by (simp add: two_lists_def)
        have refs: "ob_refcnt W (FROM_GC u) = int (internal_refs W us u)" if u: "u \<in> set us" for u
        proof (rule closed_refs [OF g d _ _ _ _ u])
          show "distinct us" using gc_listD(3) [OF l(1)] by simp
          show "set us \<subseteq> set zs" using us by (auto simp: unreachable_set_def)
          show "\<not> gc_reach W zs y" if "y \<in> set us" for y using that us by (auto simp: unreachable_set_def)
          fix x y assume x: "x \<in> set zs - set us" and y: "y \<in> set (kids W x)"
          show "y \<notin> set us"
          proof (cases "x \<in> set fs")
            case True
            then show ?thesis using y by (rule t(4))
          next
            case False
            then have "gc_reach W zs x" using x us fs by (auto simp: unreachable_set_def)
            then have "y \<in> set zs \<Longrightarrow> gc_reach W zs y" using y by (rule gc_ref)
            then show ?thesis using us by (auto simp: unreachable_set_def)
          qed
        qed
        have "set_aside W s unr fn zs us fs t"
          unfolding set_aside_def
        proof (intro conjI ballI allI impI)
          show "fin t y = fin s y" if "y \<noteq> fn" for y using t(5) s2(4) n1 [OF that] by simp
          show "t y = s y" if "y \<notin> unreachable_set W zs" "y \<noteq> unr" "y \<noteq> fn" for y
            using t(6) [of y] s2(5) [of y] e1 [of y] that us0 unfolding un by simp
        qed (use t(1) fs us refs in auto)
        then have "Q () t" by (rule Q)
        have "owp False (validate_list W unr collecting_set_unreachable_clear) Q E t"
          by (rule owp_validate_plain [OF ok l(1)]) (use ct gc_listD(4) [OF l(1)] \<open>Q () t\<close> in auto)
        moreover have "\<not> coll t x" if "x \<in> set fs" for x
          using that ct gc_list_heap(2) [OF l(2)] t(3) by auto
        ultimately show "?last () t" unfolding owp_obind by (intro owp_validate_plain [OF ok l(2)]) auto
      qed
    qed
  qed
  then show ?thesis by (simp only: owp_obind)
qed

section \<open>The first half of a collection\<close>

text \<open>The generations afterwards: the survivors \<open>ys\<close> join the next generation, if there is one.\<close>

definition after_collection :: "nat \<Rightarrow> addr list \<Rightarrow> (nat \<Rightarrow> addr list) \<Rightarrow> nat \<Rightarrow> addr list" where
  "after_collection g ys Z = (\<lambda>i.
     if i < g then [] else if i = g then (if g + 1 < NUM_GENERATIONS then [] else ys)
     else if i = g + 1 then Z i @ ys else Z i)"

lemma gens_nx:
  assumes ok: "heads_ok W" and g: "gens_ok W s Z" and y: "y \<in> gens_nodes W Z"
  shows "nx s y \<noteq> 0"
proof -
  obtain i where i: "i < NUM_GENERATIONS" "y \<in> set (gen_head W i # Z i)" using y unfolding gens_nodes_def by blast
  show ?thesis by (rule heads_okD(2) [OF ok gc_list_in_heap [OF gens_okD(1) [OF g i(1)] i(2)]])
qed

lemma gens_heads_differ:
  assumes "gens_ok W s Z" and "i < NUM_GENERATIONS" and "j < NUM_GENERATIONS" and "i \<noteq> j"
  shows "gen_head W i \<noteq> gen_head W j"
  using gens_okD(2) [OF assms] by auto

definition survivors_kept ::
    "gc_world \<Rightarrow> addr set \<Rightarrow> addr list \<Rightarrow> gc_store \<Rightarrow> (nat \<Rightarrow> addr list) \<Rightarrow> addr list \<Rightarrow> gc_store \<Rightarrow> bool" where
  "survivors_kept W nodes xs s Z ys t \<longleftrightarrow> gens_ok W t Z \<and> subseq ys xs
     \<and> (\<forall>y \<in> set xs - set ys. nx t y = 0 \<and> (\<forall>k \<in> set (kids W y). nx t k = 0))
     \<and> (\<forall>y. coll t y = coll s y) \<and> (\<forall>y. fin t y = fin s y) \<and> (\<forall>y. y \<notin> nodes \<longrightarrow> t y = s y)"

lemma owp_survivors:
  assumes g: "graph_ok W zs" and c: "contents_ok W zs" and gens: "gens_ok W s Z" and gl: "g < NUM_GENERATIONS"
    and Zg: "Z g = xs" "set xs \<subseteq> set zs" and low: "\<And>i. i < g \<Longrightarrow> Z i = []" and nc: "\<And>x. x \<in> set xs \<Longrightarrow> \<not> coll s x"
    and Q: "\<And>ys t G. survivors_kept W (gens_nodes W Z) xs s (after_collection g ys Z) ys t \<Longrightarrow> Q () (t, G)"
  shows "owp d (obind (on_heads (untrack_tuples W (gen_head W g))) (\<lambda>_. keep_survivors W g)) Q E (s, G)"
proof -
  have ok: "heads_ok W" using g by (rule graph_okD)
  have l: "gc_list W s (gen_head W g) xs" using gens_okD(1) [OF gens gl] Zg by simp
  have gn: "y \<in> gens_nodes W Z" if "y \<in> set (gen_head W g # xs)" for y using that Zg gens_nodesI [OF gl, of y W Z] by simp
  have upd: "gens_ok W t (Z(g := ys))" "gens_nodes W (Z(g := ys)) \<subseteq> gens_nodes W Z" if u: "untracked W (gen_head W g) xs s ys t" for ys t
  proof -
    note u1 = u [unfolded untracked_def]
    have sub: "set ys \<subseteq> set xs" using u1 by (blast dest: subseq_set)
    show "gens_ok W t (Z(g := ys))"
    proof (rule gens_ok_update [OF gens gl, where new = "{}"])
      show "gc_list W t (gen_head W g) ys" using u1 by blast
      show "set ys \<subseteq> set (Z g) \<union> {}" using sub Zg by simp
      fix j y assume "j < NUM_GENERATIONS" "j \<noteq> g" "y \<in> set (gen_head W j # Z j)"
      then have "y \<notin> set (gen_head W g # xs)" using gens_okD(2) [OF gens, of j g] gl Zg by auto
      then show "t y = s y" using u1 by blast
    qed simp
    show "gens_nodes W (Z(g := ys)) \<subseteq> gens_nodes W Z"
      by (rule gens_nodes_update) (use sub Zg in simp)
  qed
  have mid: "survivors_kept W (gens_nodes W Z) xs s (Z(g := ys)) ys t" if u: "untracked W (gen_head W g) xs s ys t" for ys t
  proof -
    note u1 = u [unfolded untracked_def]
    show ?thesis unfolding survivors_kept_def
    proof (intro conjI allI impI)
      show "gens_ok W t (Z(g := ys))" by (rule upd [OF u])
      show "coll t y = coll s y" for y using u1 nc [of y] by auto
      show "t y = s y" if "y \<notin> gens_nodes W Z" for y using u1 that gn by blast
    qed (use u1 in blast)+
  qed
  have "owp d (untrack_tuples W (gen_head W g)) (\<lambda>_ t. owp d (keep_survivors W g) Q E (t, G)) (\<lambda>e t. E e (t, G)) s"
  proof (rule owp_untrack(1) [OF g c l Zg(2)])
    fix ys t assume u: "untracked W (gen_head W g) xs s ys t"
    note u1 = u [unfolded untracked_def]
    have lt: "gc_list W t (gen_head W g) ys" using u1 by blast
    show "owp d (keep_survivors W g) Q E (t, G)"
    proof (cases "g < NUM_GENERATIONS - 1")
      case True
      then have g1: "g + 1 < NUM_GENERATIONS" by simp
      have ne: "gen_head W g \<noteq> gen_head W (g + 1)" by (rule gens_heads_differ [OF gens gl g1]) simp
      have m: "owp d (gc_list_merge W (gen_head W g) (gen_head W (g + 1))) (\<lambda>_ v. Q () (v, G')) (\<lambda>e v. E e (v, G')) t" for G'
      proof (rule owp_gens_merge [OF ok upd(1) [OF u] gl g1])
        fix v assume v: "gens_ok W v ((Z(g := ys))(g := [], g + 1 := (Z(g := ys)) (g + 1) @ (Z(g := ys)) g))"
          "\<And>y. coll v y = coll t y" "\<And>y. fin v y = fin t y" "\<And>y. y \<notin> gens_nodes W (Z(g := ys)) \<Longrightarrow> v y = t y"
        have e: "(Z(g := ys))(g := [], g + 1 := (Z(g := ys)) (g + 1) @ (Z(g := ys)) g) = after_collection g ys Z"
          using low g1 by (auto simp: after_collection_def fun_eq_iff)
        have keep: "nx v y = 0" if "nx t y = 0" for y
        proof -
          have "y \<notin> gens_nodes W (Z(g := ys))" using gens_nx [OF ok upd(1) [OF u]] that by blast
          then show ?thesis using v(4) that by (simp add: nx_def)
        qed
        note mm = mid [OF u, unfolded survivors_kept_def]
        have "survivors_kept W (gens_nodes W Z) xs s (after_collection g ys Z) ys v"
          unfolding survivors_kept_def
        proof (intro conjI ballI allI impI)
          show "gens_ok W v (after_collection g ys Z)" using v(1) unfolding e .
          show "subseq ys xs" using mm by blast
          show "nx v y = 0" if "y \<in> set xs - set ys" for y using mm that by (intro keep) blast
          show "nx v k = 0" if "y \<in> set xs - set ys" "k \<in> set (kids W y)" for y k using mm that by (intro keep) blast
          show "coll v y = coll s y" "fin v y = fin s y" for y using mm v(2,3) by simp_all
          show "v y = s y" if "y \<notin> gens_nodes W Z" for y using mm v(4) [of y] that upd(2) [OF u] by auto
        qed
        then show "Q () (v, G')" by (rule Q)
      qed simp
      show ?thesis
        using True ne m owp_gc_list_size [OF lt]
        by (cases "g = NUM_GENERATIONS - 2") (simp_all add: keep_survivors_def Let_def)
    next
      case False
      then have ge: "g = NUM_GENERATIONS - 1" using gl by simp
      have sub: "set ys \<subseteq> set zs" using u1 Zg(2) by (blast dest: subseq_set)
      have "owp d (untrack_dicts W (gen_head W g))
          (\<lambda>_ v. owp d (obind (on_heads (gc_list_size W (gen_head W g))) (\<lambda>n.
            on_state (\<lambda>G. G\<lparr>long_lived_pending := 0, long_lived_total := n\<rparr>))) Q E (v, G)) (\<lambda>e v. E e (v, G)) t"
      proof (rule owp_untrack(2) [OF g c lt sub])
        fix ys' v assume u': "untracked W (gen_head W g) ys t ys' v"
        have uu: "untracked W (gen_head W g) xs s ys' v" by (rule untracked_trans [OF ok u u' l])
        have lv: "gc_list W v (gen_head W g) ys'" using u' unfolding untracked_def by blast
        have gens': "gens_ok W v (after_collection g ys' Z)"
        proof -
          have "gens_ok W v (Z(g := ys'))" by (rule upd(1) [OF uu])
          moreover have "after_collection g ys' Z i = (Z(g := ys')) i" if "i < NUM_GENERATIONS" for i
            using that low [of i] ge by (auto simp: after_collection_def)
          ultimately show ?thesis unfolding gens_ok_def by simp
        qed
        have "survivors_kept W (gens_nodes W Z) xs s (after_collection g ys' Z) ys' v"
          using mid [OF uu] gens' unfolding survivors_kept_def by blast
        then show "owp d (obind (on_heads (gc_list_size W (gen_head W g))) (\<lambda>n.
            on_state (\<lambda>G. G\<lparr>long_lived_pending := 0, long_lived_total := n\<rparr>))) Q E (v, G)"
          by (simp add: owp_gc_list_size [OF lv] Q)
      qed
      then show ?thesis using False by (simp add: keep_survivors_def Let_def)
    qed
  qed
  then show ?thesis by simp
qed

text \<open>
  What the collector relies on at its start, of the generations \<open>Z\<close> and the two list heads that it
  has on its stack.
\<close>

definition collect_pre ::
    "gc_world \<Rightarrow> nat \<Rightarrow> (nat \<Rightarrow> addr list) \<Rightarrow> addr list \<Rightarrow> addr \<Rightarrow> addr \<Rightarrow> gc_store \<Rightarrow> bool" where
  "collect_pre W g Z zs unr fn s \<longleftrightarrow> g < NUM_GENERATIONS \<and> zs = Z g @ concat (map Z [0..<g])
     \<and> graph_ok W zs \<and> contents_ok W zs \<and> gens_ok W s Z \<and> (\<forall>y. gc_heap W y \<longrightarrow> \<not> coll s y)
     \<and> gc_heap W unr \<and> gc_heap W fn \<and> unr \<noteq> fn \<and> unr \<notin> gens_nodes W Z \<and> fn \<notin> gens_nodes W Z
     \<and> (\<forall>x \<in> set zs. fn \<notin> set (kids W x))"

text \<open>
  The outcome: \<open>us\<close> are to be finalized and cleared, \<open>fs\<close> are kept by legacy finalizers, \<open>ys\<close> are
  the survivors that are still tracked.
\<close>

definition collected ::
    "gc_world \<Rightarrow> nat \<Rightarrow> (nat \<Rightarrow> addr list) \<Rightarrow> addr list \<Rightarrow> addr \<Rightarrow> addr \<Rightarrow> gc_store
       \<Rightarrow> addr list \<Rightarrow> addr list \<Rightarrow> addr list \<Rightarrow> gc_store \<Rightarrow> bool" where
  "collected W g Z zs unr fn s ys us fs t \<longleftrightarrow>
     gens_ok W t (after_collection g ys Z) \<and> two_lists W unr fn us fs t
     \<and> set fs = uncollectable_set W zs \<and> set us = unreachable_set W zs - uncollectable_set W zs
     \<and> (\<forall>u \<in> set us. ob_refcnt W (FROM_GC u) = int (internal_refs W us u))
     \<and> set ys \<subseteq> {y. gc_reach W zs y}
     \<and> (\<forall>y. gc_reach W zs y \<and> y \<notin> set ys \<longrightarrow> nx t y = 0 \<and> (\<forall>k \<in> set (kids W y). nx t k = 0))
     \<and> (\<forall>y \<in> set zs. fin t y = fin s y)
     \<and> (\<forall>y. y \<notin> gens_nodes W Z \<longrightarrow> y \<noteq> unr \<longrightarrow> y \<noteq> fn \<longrightarrow> t y = s y)"

lemma merged_g: "merged g [0..<g] Z g = Z g @ concat (map Z [0..<g])"
  by (simp add: merged_def)

lemma merged_distinct:
  assumes "gens_ok W t (merged g [0..<g] Z)" and "g < NUM_GENERATIONS"
  shows "distinct (Z g @ concat (map Z [0..<g]))" "set (Z g @ concat (map Z [0..<g])) \<subseteq> gens_nodes W (merged g [0..<g] Z)"
  using gc_listD(3) [OF gens_okD(1) [OF assms]] gens_nodesI [OF assms(2), of _ W "merged g [0..<g] Z"]
  unfolding merged_g by auto

lemma gens_nodes_merged:
  assumes "g < NUM_GENERATIONS"
  shows "gens_nodes W (merged g [0..<g] Z) \<subseteq> gens_nodes W Z"
proof
  fix y assume "y \<in> gens_nodes W (merged g [0..<g] Z)"
  then obtain k where k: "k < NUM_GENERATIONS" "y \<in> set (gen_head W k # merged g [0..<g] Z k)"
    unfolding gens_nodes_def by blast
  show "y \<in> gens_nodes W Z"
  proof (cases "k = g \<and> y \<in> set (concat (map Z [0..<g]))")
    case True
    then obtain i where "i < g" "y \<in> set (Z i)" by auto
    then show ?thesis using assms by (intro gens_nodesI [of i]) auto
  next
    case False
    then show ?thesis using k by (intro gens_nodesI [OF k(1)]) (auto simp: merged_def split: if_splits)
  qed
qed

text \<open>The generations after the unreachable objects have left generation \<open>g\<close>.\<close>

lemma deduced_gens:
  assumes ok: "heads_ok W" and gens: "gens_ok W s Z" and gl: "g < NUM_GENERATIONS" and out: "unr \<notin> gens_nodes W Z"
    and de: "deduced W s (gen_head W g) unr (Z g) xs us t"
  shows "gens_ok W t (Z(g := xs))" "gens_nodes W (Z(g := xs)) \<subseteq> gens_nodes W Z"
    "set us \<inter> gens_nodes W (Z(g := xs)) = {}" "\<And>x. x \<in> set xs \<Longrightarrow> \<not> coll t x"
proof -
  have d: "gc_list W t (gen_head W g) xs" "\<And>y. gc_heap W y \<Longrightarrow> coll t y \<longleftrightarrow> y \<in> set us"
    "distinct (gen_head W g # unr # xs @ us)" "set xs \<subseteq> set (Z g)" "set us \<subseteq> set (Z g)"
    "\<And>y. y \<notin> set (gen_head W g # unr # Z g) \<Longrightarrow> t y = s y"
    using de unfolding deduced_def by blast+
  show "gens_ok W t (Z(g := xs))"
  proof (rule gens_ok_update [OF gens gl d(1), where new = "{}"])
    fix j y assume j: "j < NUM_GENERATIONS" "j \<noteq> g" and y: "y \<in> set (gen_head W j # Z j)"
    have "y \<notin> set (gen_head W g # Z g)" using gens_okD(2) [OF gens j(1) gl j(2)] y by auto
    moreover have "y \<noteq> unr" using gens_nodesI [of j y W Z, OF j(1) y] out by blast
    ultimately show "t y = s y" by (intro d(6)) simp
  qed (use d(4) in simp_all)
  show "gens_nodes W (Z(g := xs)) \<subseteq> gens_nodes W Z" by (rule gens_nodes_update) (rule d(4))
  show "\<not> coll t x" if "x \<in> set xs" for x using d(2) [of x] gc_list_heap(2) [OF d(1) that] d(3) that by auto
  show "set us \<inter> gens_nodes W (Z(g := xs)) = {}"
  proof (rule ccontr)
    assume "set us \<inter> gens_nodes W (Z(g := xs)) \<noteq> {}"
    then obtain y k where y: "y \<in> set us" and k: "k < NUM_GENERATIONS" "y \<in> set (gen_head W k # (Z(g := xs)) k)"
      unfolding gens_nodes_def by blast
    show False
    proof (cases "k = g")
      case True
      then show ?thesis using k(2) y d(3) by auto
    next
      case False
      then show ?thesis using gens_okD(2) [OF gens k(1) gl False] k(2) y d(5) by auto
    qed
  qed
qed

lemma after_collection_nodes:
  assumes "set ys \<subseteq> set (Z g)" and "g < NUM_GENERATIONS"
  shows "gens_nodes W (after_collection g ys Z) \<subseteq> gens_nodes W Z"
proof
  fix y assume "y \<in> gens_nodes W (after_collection g ys Z)"
  then obtain k where k: "k < NUM_GENERATIONS" "y \<in> set (gen_head W k # after_collection g ys Z k)"
    unfolding gens_nodes_def by blast
  show "y \<in> gens_nodes W Z"
  proof (cases "y \<in> set ys")
    case True
    then show ?thesis using assms by (intro gens_nodesI [of g]) auto
  next
    case False
    then show ?thesis
      using k by (intro gens_nodesI [OF k(1)]) (auto simp: after_collection_def split: if_splits)
  qed
qed

lemma unreachable_list_nx:
  assumes ok: "heads_ok W" and ul: "unreachable_list W s unr us" and "nx s k = 0"
  shows "k \<notin> set us" "k \<noteq> unr"
proof -
  have "bit (nx s u) 0" if "u \<in> set us" for u using ul that by (simp add: unreachable_list_def)
  moreover have "\<not> bit (nx s k) 0" using assms(3) by simp
  ultimately show "k \<notin> set us" by blast
  have l: "gc_list W (unflag s) unr us" using ul by (simp add: unreachable_list_def)
  have "nx (unflag s) unr \<noteq> 0" by (rule heads_okD(2) [OF ok gc_list_in_heap [OF l]]) simp
  then show "k \<noteq> unr" using assms(3) by auto
qed

text \<open>Setting objects aside leaves the generations and the untracked objects alone.\<close>

lemma set_aside_keeps:
  assumes ok: "heads_ok W" and sa: "set_aside W s unr fn zs us fs t" and ul: "unreachable_list W s unr us0"
    and us0: "set us0 = unreachable_set W zs"
    and gens: "gens_ok W s Z" and out: "unr \<notin> gens_nodes W Z" "fn \<notin> gens_nodes W Z"
    and dis: "set us0 \<inter> gens_nodes W Z = {}"
  shows "gens_ok W t Z" "\<And>k. nx s k = 0 \<Longrightarrow> k \<noteq> fn \<Longrightarrow> nx t k = 0"
proof -
  have f: "t y = s y" if "y \<notin> set us0" "y \<noteq> unr" "y \<noteq> fn" for y
    using sa that us0 unfolding set_aside_def by blast
  show "nx t k = 0" if "nx s k = 0" "k \<noteq> fn" for k
    using f [of k] unreachable_list_nx [OF ok ul that(1)] that by (simp add: nx_def)
  show "gens_ok W t Z"
    unfolding gens_ok_def
  proof (intro conjI allI impI)
    fix i assume i: "i < NUM_GENERATIONS"
    show "gc_list W t (gen_head W i) (Z i)"
    proof (rule gc_list_frame [OF gens_okD(1) [OF gens i]])
      fix y assume "y \<in> set (gen_head W i # Z i)"
      then have "y \<in> gens_nodes W Z" by (rule gens_nodesI [OF i])
      then show "t y = s y" using out dis by (intro f) auto
    qed
  qed (rule gens_okD(2) [OF gens])
qed

lemma finish_collected:
  assumes pre: "collect_pre W g Z zs unr fn s" and Z1: "Z1 = merged g [0..<g] Z"
    and s1: "gens_ok W s1 Z1" "\<And>y. fin s1 y = fin s y" "\<And>y. y \<notin> gens_nodes W Z \<Longrightarrow> s1 y = s y"
    and de: "deduced W s1 (gen_head W g) unr zs xs us0 s2"
    and sv: "survivors_kept W (gens_nodes W (Z1(g := xs))) xs s2 (after_collection g ys (Z1(g := xs))) ys s3"
    and ul: "unreachable_list W s3 unr us0" and sa: "set_aside W s3 unr fn zs us fs t"
  shows "collected W g Z zs unr fn s ys us fs t"
proof -
  have gl: "g < NUM_GENERATIONS" and zs: "zs = Z g @ concat (map Z [0..<g])" and ok: "heads_ok W"
    and out: "unr \<notin> gens_nodes W Z" "fn \<notin> gens_nodes W Z" and fk: "\<And>x. x \<in> set zs \<Longrightarrow> fn \<notin> set (kids W x)"
    using pre graph_okD(1) unfolding collect_pre_def by blast+
  have Z1g: "Z1 g = zs" by (simp add: Z1 merged_g zs)
  have nodes1: "gens_nodes W Z1 \<subseteq> gens_nodes W Z" unfolding Z1 by (rule gens_nodes_merged [OF gl])
  have out1: "unr \<notin> gens_nodes W Z1" "fn \<notin> gens_nodes W Z1" using out nodes1 by auto
  have zn: "set zs \<subseteq> gens_nodes W Z1" "gen_head W g \<in> gens_nodes W Z1"
    using gens_nodesI [OF gl, of _ W Z1] gens_nodes_head [OF gl] by (auto simp: Z1g)
  note G = deduced_gens [OF ok s1(1) gl out1(1) de [folded Z1g]]
  have aft: "after_collection g ys (Z1(g := xs)) = after_collection g ys Z"
    by (auto simp: after_collection_def Z1 merged_def fun_eq_iff)
  note sv1 = sv [unfolded survivors_kept_def aft]
  have yx: "set ys \<subseteq> set xs" using sv1 by (blast dest: subseq_set)
  have xs: "set xs = {y \<in> set zs. gc_reach W zs y}" and us0: "set us0 = unreachable_set W zs"
    using de unfolding deduced_def unreachable_set_def by blast+
  have nodes2: "gens_nodes W (after_collection g ys Z) \<subseteq> gens_nodes W (Z1(g := xs))"
    unfolding aft [symmetric] using yx gl by (intro after_collection_nodes) simp_all
  have out2: "unr \<notin> gens_nodes W (after_collection g ys Z)" "fn \<notin> gens_nodes W (after_collection g ys Z)"
    "set us0 \<inter> gens_nodes W (after_collection g ys Z) = {}"
    using out1 G(2,3) nodes2 by auto
  have g3: "gens_ok W s3 (after_collection g ys Z)" using sv1 by blast
  note K = set_aside_keeps [OF ok sa ul us0 g3 out2]
  have "nx t y = 0 \<and> (\<forall>k \<in> set (kids W y). nx t k = 0)" if "gc_reach W zs y" "y \<notin> set ys" for y
  proof -
    have yz: "y \<in> set zs" using that(1) by (rule gc_reach_in)
    then have yxx: "y \<in> set xs - set ys" using that xs by simp
    have "y \<noteq> fn" using yz zn(1) out1(2) by auto
    moreover have "k \<noteq> fn" if "k \<in> set (kids W y)" for k using fk [OF yz] that by auto
    ultimately show ?thesis using sv1 yxx K(2) by blast
  qed
  moreover have "fin t y = fin s y" if "y \<in> set zs" for y
  proof -
    have "y \<noteq> fn" using that zn(1) out1(2) by auto
    then show ?thesis using sa sv1 de that s1(2) unfolding set_aside_def deduced_def by simp
  qed
  moreover have "t y = s y" if y: "y \<notin> gens_nodes W Z" "y \<noteq> unr" "y \<noteq> fn" for y
  proof -
    have n: "y \<notin> gens_nodes W Z1" "y \<notin> gens_nodes W (Z1(g := xs))" using y(1) nodes1 G(2) by auto
    have m: "y \<notin> set zs" "y \<noteq> gen_head W g" using n(1) zn by auto
    have "y \<notin> unreachable_set W zs" using m(1) by (simp add: unreachable_set_def)
    then have "t y = s3 y" using sa y unfolding set_aside_def by blast
    also have "\<dots> = s2 y" using sv1 n(2) by blast
    also have "\<dots> = s1 y" using de m y(2) unfolding deduced_def by simp
    finally show ?thesis using s1(3) [OF y(1)] by simp
  qed
  moreover have "set ys \<subseteq> {y. gc_reach W zs y}" using yx xs by blast
  ultimately show ?thesis using sa K(1) unfolding collected_def set_aside_def by blast
qed

lemma owp_set_aside_state:
  assumes "owp False (obind (gc_list_init W fn) (\<lambda>_. obind (move_legacy_finalizers W unr fn) (\<lambda>_.
      obind (move_legacy_finalizer_reachable W fn) (\<lambda>_.
      obind (validate_list W fn collecting_clear_unreachable_clear) (\<lambda>_.
        validate_list W unr collecting_set_unreachable_clear))))) (\<lambda>x v. Q x (v, G)) (\<lambda>e v. E e (v, G)) s"
  shows "owp False (obind (on_heads (gc_list_init W fn)) (\<lambda>_. obind (on_heads (move_legacy_finalizers W unr fn)) (\<lambda>_.
      obind (on_heads (move_legacy_finalizer_reachable W fn)) (\<lambda>_.
      obind (on_heads (validate_list W fn collecting_clear_unreachable_clear)) (\<lambda>_.
        on_heads (validate_list W unr collecting_set_unreachable_clear)))))) Q E (s, G)"
  using assms by simp

lemma owp_collect_unreachable:
  assumes pre: "collect_pre W g Z zs unr fn s"
    and Q: "\<And>ys us fs t G'. collected W g Z zs unr fn s ys us fs t \<Longrightarrow> Q () (t, G')"
  shows "owp False (collect_unreachable W g unr fn) Q E (s, G)"
proof -
  have gl: "g < NUM_GENERATIONS" and zs: "zs = Z g @ concat (map Z [0..<g])" and gr: "graph_ok W zs"
    and co: "contents_ok W zs" and gens: "gens_ok W s Z" and nc: "\<And>y. gc_heap W y \<Longrightarrow> \<not> coll s y"
    and hp: "gc_heap W unr" "gc_heap W fn" "unr \<noteq> fn" and out: "unr \<notin> gens_nodes W Z" "fn \<notin> gens_nodes W Z"
    using pre unfolding collect_pre_def by blast+
  have ok: "heads_ok W" using gr by (rule graph_okD)
  define young where "young = gen_head W g"
  define old where "old = (if g < NUM_GENERATIONS - 1 then gen_head W (g + 1) else gen_head W g)"
  define Z1 where "Z1 = merged g [0..<g] Z"
  have Z1g: "Z1 g = zs" by (simp add: Z1_def merged_g zs)
  have nodes1: "gens_nodes W Z1 \<subseteq> gens_nodes W Z" unfolding Z1_def by (rule gens_nodes_merged [OF gl])
  have out1: "unr \<notin> gens_nodes W Z1" "fn \<notin> gens_nodes W Z1" using out nodes1 by auto
  let ?rest4 = "\<lambda>_. obind (on_heads (gc_list_init W fn)) (\<lambda>_. obind (on_heads (move_legacy_finalizers W unr fn)) (\<lambda>_.
      obind (on_heads (move_legacy_finalizer_reachable W fn)) (\<lambda>_.
      obind (on_heads (validate_list W fn collecting_clear_unreachable_clear)) (\<lambda>_.
        on_heads (validate_list W unr collecting_set_unreachable_clear)))))"
  let ?keep = "obind (on_heads (untrack_tuples W (gen_head W g))) (\<lambda>_. keep_survivors W g)"
  let ?rest2 = "\<lambda>_. obind (on_heads (deduce_unreachable W young unr)) (\<lambda>_. obind ?keep ?rest4)"
  have step2: "owp False (?rest2 ()) Q E (s1, G1)"
    if s1: "gens_ok W s1 Z1" "\<And>y. coll s1 y = coll s y" "\<And>y. fin s1 y = fin s y" "\<And>y. y \<notin> gens_nodes W Z \<Longrightarrow> s1 y = s y" for s1 G1
  proof -
    have dz: "distinct zs" "set zs \<subseteq> gens_nodes W Z1"
      using merged_distinct [OF s1(1) [unfolded Z1_def] gl] by (simp_all add: zs Z1_def)
    have l1: "gc_list W s1 young zs" using gens_okD(1) [OF s1(1) gl] by (simp add: young_def Z1g)
    have "owp False (deduce_unreachable W young unr) (\<lambda>_ s2. owp False (obind ?keep ?rest4) Q E (s2, G1)) (\<lambda>e v. E e (v, G1)) s1"
    proof (rule owp_deduce_unreachable [OF gr l1])
      show "\<not> coll s1 y" if "gc_heap W y" for y using s1(2) nc [OF that] by simp
      show "unr \<notin> set (young # zs)" using out1(1) gens_nodes_head [OF gl, of W Z1] dz(2) by (auto simp: young_def)
      fix xs us0 s2 assume de: "deduced W s1 young unr zs xs us0 s2"
      note G = deduced_gens [OF ok s1(1) gl out1(1) de [unfolded young_def, folded Z1g]]
      have ul: "unreachable_list W s2 unr us0" and c2: "\<And>y. gc_heap W y \<Longrightarrow> coll s2 y \<longleftrightarrow> y \<in> set us0"
        and us0: "set us0 = unreachable_set W zs" and xz: "set xs \<subseteq> set zs" "set us0 \<subseteq> set zs"
        using de unfolding deduced_def unreachable_set_def by blast+
      have "owp False ?keep (\<lambda>x. owp False (?rest4 ()) Q E) E (s2, G1)"
      proof (rule owp_survivors [OF gr co G(1) gl])
        show "(Z1(g := xs)) g = xs" by simp
        show "(Z1(g := xs)) i = []" if "i < g" for i using that by (simp add: Z1_def merged_def)
        show "\<not> coll s2 x" if "x \<in> set xs" for x by (rule G(4) [OF that])
        fix ys s3 G3 assume sv: "survivors_kept W (gens_nodes W (Z1(g := xs))) xs s2 (after_collection g ys (Z1(g := xs))) ys s3"
        have frame3: "s3 y = s2 y" if "y \<notin> gens_nodes W (Z1(g := xs))" for y using sv that unfolding survivors_kept_def by blast
        have ul3: "unreachable_list W s3 unr us0"
          by (rule unreachable_list_frame [OF ul], rule frame3) (use out1 G(2,3) in auto)
        have fu: "fn \<notin> set (unr # us0)" using hp(3) xz(2) dz(2) out1(2) by auto
        have c3: "coll s3 y \<longleftrightarrow> y \<in> set us0" if "gc_heap W y" for y using sv c2 [OF that] unfolding survivors_kept_def by simp
        show "owp False (?rest4 ()) Q E (s3, G3)"
        proof (rule owp_set_aside_state, rule owp_set_aside [OF gr dz(1) ul3 hp(2) us0 fu c3])
          fix us fs t assume sa: "set_aside W s3 unr fn zs us fs t"
          show "Q () (t, G3)"
            by (rule Q, rule finish_collected [OF pre Z1_def s1(1,3,4) de [unfolded young_def] sv ul3 sa])
        qed
      qed (use xz in simp)
      then show "owp False (obind ?keep ?rest4) Q E (s2, G1)" by (simp only: owp_obind)
    qed (rule hp)
    then show ?thesis by simp
  qed
  have step1: "owp False (obind (on_heads (validate_list W old collecting_clear_unreachable_clear)) ?rest2) Q E (s1, G1)"
    if s1: "gens_ok W s1 Z1" "\<And>y. coll s1 y = coll s y" "\<And>y. fin s1 y = fin s y" "\<And>y. y \<notin> gens_nodes W Z \<Longrightarrow> s1 y = s y" for s1 G1
  proof -
    have "\<exists>j < NUM_GENERATIONS. old = gen_head W j"
      unfolding old_def using gl by (intro exI [of _ "if g < NUM_GENERATIONS - 1 then g + 1 else g"]) auto
    then obtain j where j: "j < NUM_GENERATIONS" "old = gen_head W j" by blast
    have lo: "gc_list W s1 old (Z1 j)" using gens_okD(1) [OF s1(1) j(1)] j(2) by simp
    have "owp False (validate_list W old collecting_clear_unreachable_clear)
       (\<lambda>_ v. owp False (?rest2 ()) Q E (v, G1)) (\<lambda>e v. E e (v, G1)) s1"
      by (rule owp_validate_plain [OF ok lo]) (use s1 nc gc_list_heap(2) [OF lo] step2 [OF s1] in auto)
    then show ?thesis by simp
  qed
  have "owp False (visit_all (\<lambda>i. gc_list_merge W (gen_head W i) (gen_head W g)) [0..<g])
      (\<lambda>_ v. owp False (obind (on_heads (validate_list W old collecting_clear_unreachable_clear)) ?rest2) Q E (v, G'))
      (\<lambda>e v. E e (v, G')) s" for G'
    by (rule owp_merge_younger [OF ok gens gl]) (use step1 in \<open>auto simp: Z1_def\<close>)
  then show ?thesis
    by (cases "g < NUM_GENERATIONS - 1") (simp_all add: collect_unreachable_def Let_def young_def old_def)
qed

section \<open>Uncollectable objects\<close>

declare garbage_from.simps [simp del]

definition garbage_of :: "gc_world \<Rightarrow> gc_state \<Rightarrow> addr list \<Rightarrow> addr list" where
  "garbage_of W G fs = map FROM_GC (filter (\<lambda>g. debug_saveall G \<or> has_legacy_finalizer W (FROM_GC g)) fs)"

lemma owp_garbage_from:
  assumes "nchain s fs fn" and "fn \<notin> set fs" and "\<forall>y \<in> set fs. gc_heap W y"
    and "\<And>xs. can_append xs"
  shows "owp d (garbage_from W can_append fn (hd (fs @ [fn]))) Q E (s, G)
     = Q () (s, G\<lparr>garbage := garbage G @ garbage_of W G fs\<rparr>)"
  using assms(1-3)
proof (induction fs arbitrary: G)
  case Nil
  have "garbage_from W can_append fn fn (s, G) = oret () (s, G)" by (subst garbage_from.simps) simp
  then show ?case by (simp add: owp_def oret_def garbage_of_def)
next
  case (Cons g fs)
  let ?b = "debug_saveall G \<or> has_legacy_finalizer W (FROM_GC g)"
  let ?m = "\<lambda>G. obind (if ?b then on_state (\<lambda>G. G\<lparr>garbage := garbage G @ [FROM_GC g]\<rparr>) else oret ()) (\<lambda>_.
      obind (on_heads (GC_NEXT W g)) (garbage_from W can_append fn))"
  have "garbage_from W can_append fn g (s, G) = ?m G (s, G)"
    using Cons.prems(2) assms(4) by (subst garbage_from.simps) (auto simp: obind_def oget_def)
  then have e: "owp d (garbage_from W can_append fn g) Q E (s, G) = owp d (?m G) Q E (s, G)" by (simp only: owp_def)
  have IH: "owp d (garbage_from W can_append fn (hd (fs @ [fn]))) Q E (s, G')
     = Q () (s, G'\<lparr>garbage := garbage G' @ garbage_of W G' fs\<rparr>)" for G'
    by (rule Cons.IH) (use Cons.prems in auto)
  have n: "nx s g = hd (fs @ [fn])" "gc_heap W g" using Cons.prems by auto
  show ?case
  proof (cases ?b)
    case True
    then show ?thesis using e n IH by (auto simp: garbage_of_def)
  next
    case False
    then show ?thesis using e n IH by (auto simp: garbage_of_def)
  qed
qed

lemma owp_handle_legacy_finalizers:
  assumes ok: "heads_ok W" and l: "gc_list W s fn fs" and o: "gc_list W s old os"
    and dis: "set (fn # fs) \<inter> set (old # os) = {}" and ca: "\<And>xs. can_append xs"
    and Q: "\<And>t. \<lbrakk>gc_list W t fn []; gc_list W t old (os @ fs); \<And>y. coll t y = coll s y; \<And>y. fin t y = fin s y;
        \<And>y. y \<notin> set (fn # fs) \<union> set (old # os) \<Longrightarrow> t y = s y\<rbrakk>
      \<Longrightarrow> Q () (t, G\<lparr>garbage := garbage G @ garbage_of W G fs\<rparr>)"
  shows "owp d (handle_legacy_finalizers W can_append fn old) Q E (s, G)"
proof -
  have c: "nchain s fs fn" "fn \<notin> set fs" "\<forall>y \<in> set fs. gc_heap W y" "gc_heap W fn"
    using gc_list_nchain [OF l] gc_listD(3) [OF l] gc_listD(4) [OF l] by auto
  have "owp d (gc_list_merge W fn old) (\<lambda>x t. Q x (t, G\<lparr>garbage := garbage G @ garbage_of W G fs\<rparr>))
      (\<lambda>e t. E e (t, G\<lparr>garbage := garbage G @ garbage_of W G fs\<rparr>)) s"
    by (rule owp_gc_list_merge [OF ok l o dis]) (rule Q)
  then show ?thesis
    using c owp_garbage_from [OF c(1-3) ca] gc_list_hd [OF l] by (simp add: handle_legacy_finalizers_def)
qed

end
