(* ===== verification/PyGcClaims.thy ===== *)
theory PyGcClaims
  imports PyGcCollect
begin

unbundle bit_operations_syntax

text \<open>
  What the collector promises, with a small program on which it is run: the object at \<open>gc_a\<close> is
  referenced from outside, the objects at \<open>gc_b\<close> and \<open>gc_c\<close> refer to each other only.
\<close>

section \<open>A small program\<close>

definition gc_young :: addr where "gc_young = 1024"
definition gc_middle :: addr where "gc_middle = 1088"
definition gc_oldest :: addr where "gc_oldest = 1152"
definition gc_unr :: addr where "gc_unr = 2048"
definition gc_fin :: addr where "gc_fin = 2112"
definition gc_a :: addr where "gc_a = 4096"
definition gc_b :: addr where "gc_b = 4160"
definition gc_c :: addr where "gc_c = 4224"

lemmas gc_addresses = gc_young_def gc_middle_def gc_oldest_def gc_unr_def gc_fin_def gc_a_def gc_b_def gc_c_def

definition small_world :: gc_world where
  "small_world = \<lparr>
     gc_heap = (\<lambda>g. g \<in> {gc_young, gc_middle, gc_oldest, gc_unr, gc_fin, gc_a, gc_b, gc_c}),
     ob_refcnt = (\<lambda>op. if op = FROM_GC gc_a then 2 else 1),
     tp_traverse = (\<lambda>op. if op = FROM_GC gc_a then [FROM_GC gc_a] else
        if op = FROM_GC gc_b then [FROM_GC gc_c] else if op = FROM_GC gc_c then [FROM_GC gc_b] else []),
     object_is_gc = (\<lambda>op. op \<in> {FROM_GC gc_a, FROM_GC gc_b, FROM_GC gc_c}),
     object_freed = (\<lambda>op. False),
     tp_del = (\<lambda>op. False),
     tuple_exact = (\<lambda>op. None),
     dict_exact = (\<lambda>op. None),
     gen_head = (\<lambda>i. if i = 0 then gc_young else if i = 1 then gc_middle else gc_oldest)\<rparr>"

definition ring :: "addr list \<Rightarrow> (addr \<times> gc_head) list" where
  "ring xs = zip xs (map2 (\<lambda>n p. \<lparr>gc_next = n, gc_prev = p\<rparr>) (rotate1 xs) (last xs # butlast xs))"

definition small_store :: gc_store where
  "small_store = (\<lambda>g. case map_of (ring [gc_young, gc_b, gc_a, gc_c] @ ring [gc_middle] @ ring [gc_oldest]) g of
     Some h \<Rightarrow> h | None \<Rightarrow> \<lparr>gc_next = 0, gc_prev = 0\<rparr>)"

lemma small_heads: "heads_ok small_world"
  by (simp add: heads_ok_def small_world_def gc_addresses aligned_def)

lemma small_kids:
  "kids small_world gc_a = [gc_a]" "kids small_world gc_b = [gc_c]" "kids small_world gc_c = [gc_b]"
  by (simp_all add: kids_def kids_of_def small_world_def) (simp_all add: gc_addresses FROM_GC_def)

lemma small_graph: "graph_ok small_world [gc_b, gc_a, gc_c]"
proof -
  have r: "internal_refs small_world [gc_b, gc_a, gc_c] g = (if g \<in> {gc_a, gc_b, gc_c} then 1 else 0)" for g
    by (simp add: internal_refs_def small_kids) (simp add: gc_addresses)
  show ?thesis
    using small_heads unfolding graph_ok_def r by (simp add: small_world_def)
qed

lemma small_views:
  "nx small_store gc_young = gc_b" "nx small_store gc_b = gc_a" "nx small_store gc_a = gc_c" "nx small_store gc_c = gc_young"
  "prv small_store gc_young = gc_c" "prv small_store gc_b = gc_young" "prv small_store gc_a = gc_b" "prv small_store gc_c = gc_a"
  "nx small_store gc_middle = gc_middle" "prv small_store gc_middle = gc_middle"
  "nx small_store gc_oldest = gc_oldest" "prv small_store gc_oldest = gc_oldest"
  "\<not> coll small_store g" "\<not> fin small_store g"
  by (simp_all add: view_defs small_store_def ring_def gc_addresses aligned_mask aligned_def)

lemma small_lists:
  "gc_list small_world small_store gc_young [gc_b, gc_a, gc_c]"
  "gc_list small_world small_store gc_middle []" "gc_list small_world small_store gc_oldest []"
  by (simp_all add: gc_list_def dlink_def clean_def small_views)
    (simp_all add: small_world_def gc_addresses)

lemma small_pre: "collect_pre small_world 0 (\<lambda>i. if i = 0 then [gc_b, gc_a, gc_c] else []) [gc_b, gc_a, gc_c] gc_unr gc_fin small_store"
proof -
  let ?Z = "\<lambda>i. if i = (0 :: nat) then [gc_b, gc_a, gc_c] else []"
  have three: "(\<forall>i < NUM_GENERATIONS. P i) \<longleftrightarrow> P 0 \<and> P 1 \<and> P 2" for P
  proof -
    have "i < NUM_GENERATIONS \<longleftrightarrow> i = 0 \<or> i = 1 \<or> i = 2" for i by (auto simp: NUM_GENERATIONS_def)
    then show ?thesis by metis
  qed
  have g: "gen_head small_world 0 = gc_young" "gen_head small_world (Suc 0) = gc_middle" "gen_head small_world 2 = gc_oldest"
    by (simp_all add: small_world_def)
  have "gens_ok small_world small_store ?Z"
    unfolding gens_ok_def three using small_lists by (simp add: g) (simp add: gc_addresses)
  moreover have n: "gens_nodes small_world ?Z = {gc_young, gc_middle, gc_oldest, gc_a, gc_b, gc_c}"
  proof -
    have "{..<NUM_GENERATIONS} = {0, Suc 0, 2}" by (auto simp: NUM_GENERATIONS_def)
    then have "gens_nodes small_world ?Z = set (gc_young # [gc_b, gc_a, gc_c]) \<union> {gc_middle} \<union> {gc_oldest}"
      by (simp add: gens_nodes_def g) blast
    then show ?thesis by auto
  qed
  moreover have "contents_ok small_world [gc_b, gc_a, gc_c]" by (simp add: contents_ok_def small_world_def)
  moreover have "gc_unr \<notin> gens_nodes small_world ?Z" "gc_fin \<notin> gens_nodes small_world ?Z" "gc_unr \<noteq> gc_fin"
    unfolding n by (simp_all add: gc_addresses)
  moreover have "gc_heap small_world gc_unr" "gc_heap small_world gc_fin" by (simp_all add: small_world_def)
  moreover have "\<forall>x \<in> set [gc_b, gc_a, gc_c]. gc_fin \<notin> set (kids small_world x)"
    by (simp add: small_kids) (simp add: gc_addresses)
  moreover have "[gc_b, gc_a, gc_c] = ?Z 0 @ concat (map ?Z [0..<0])" "0 < NUM_GENERATIONS"
    by (simp_all add: NUM_GENERATIONS_def)
  ultimately show ?thesis using small_graph small_views(13) unfolding collect_pre_def by blast
qed

section \<open>The properties\<close>

text \<open>
  C36: \<open>deduce_unreachable\<close> returns, no assertion fails, and it divides the objects of a list: those
  to which a chain of references leads from an object that is referenced from outside the list
  stay, in a well-formed list without flags, and the others are in the unreachable list, marked
  as collecting and with flagged next pointers. No other head changes, and no object loses its
  mark that its finalizer has run.
\<close>

theorem deduce_unreachable_exact:
  assumes "graph_ok W zs" and "gc_list W s base zs" and "\<And>y. gc_heap W y \<Longrightarrow> \<not> coll s y"
    and "gc_heap W unr" and "unr \<notin> set (base # zs)"
  shows "\<exists>t xs us. deduce_unreachable W base unr s = Some (t, Inr ())
     \<and> gc_list W t base xs \<and> unreachable_list W t unr us
     \<and> (\<forall>y. gc_heap W y \<longrightarrow> (coll t y \<longleftrightarrow> y \<in> set us)) \<and> distinct (base # unr # xs @ us)
     \<and> set xs = {y \<in> set zs. gc_reach W zs y} \<and> set us = {y \<in> set zs. \<not> gc_reach W zs y}
     \<and> (\<forall>y. y \<notin> set (base # unr # zs) \<longrightarrow> t y = s y) \<and> (\<forall>y \<in> set zs. fin t y = fin s y)"
proof -
  have "owp False (deduce_unreachable W base unr) (\<lambda>_ t. \<exists>xs us. deduced W s base unr zs xs us t) (\<lambda>_ _. False) s"
    by (rule owp_deduce_unreachable [OF assms(1,2) _ assms(4,5)]) (rule assms(3), assumption, intro exI)
  from owp_returns [OF this] show ?thesis unfolding deduced_def by auto
qed

theorem deduce_unreachable_exact_witness:
  "\<exists>t xs us. deduce_unreachable small_world gc_young gc_unr small_store = Some (t, Inr ())
     \<and> gc_list small_world t gc_young xs \<and> unreachable_list small_world t gc_unr us \<and> gc_a \<in> set xs"
proof -
  have u: "gc_heap small_world gc_unr" "gc_unr \<notin> set [gc_young, gc_b, gc_a, gc_c]"
    by (simp add: small_world_def) (simp add: gc_addresses)
  have "external_refs small_world [gc_b, gc_a, gc_c] gc_a = 1"
    by (simp add: external_refs_def internal_refs_def small_kids) (simp add: small_world_def gc_addresses)
  then have "gc_reach small_world [gc_b, gc_a, gc_c] gc_a" by (intro gc_root) simp_all
  moreover obtain t xs us where t: "deduce_unreachable small_world gc_young gc_unr small_store = Some (t, Inr ())"
    "gc_list small_world t gc_young xs" "unreachable_list small_world t gc_unr us"
    "set xs = {y \<in> set [gc_b, gc_a, gc_c]. gc_reach small_world [gc_b, gc_a, gc_c] y}"
    using deduce_unreachable_exact [OF small_graph small_lists(1) small_views(13) u(1) u(2)] by blast
  ultimately have "gc_a \<in> set xs" by simp
  then show ?thesis using t(1-3) by blast
qed

text \<open>
  C37: a collection of generation \<open>g\<close>, up to the point where code of the program is first run: it
  returns and no assertion fails; the younger generations are merged into \<open>g\<close>; the objects to be
  finalized and cleared are exactly those that cannot be reached from outside and that no
  unreachable object with a \<open>tp_del\<close> refers to; every reference to them comes from one of them; the
  uncollectable ones are in the other list; the survivors are in the next generation, except the
  tuples and dicts that were untracked, which refer to untracked objects only.
\<close>

theorem collection_divides_generation:
  assumes "collect_pre W g Z zs unr fn s"
  shows "\<exists>t G' ys us fs. collect_unreachable W g unr fn (s, G) = Some ((t, G'), Inr ())
     \<and> collected W g Z zs unr fn s ys us fs t"
proof -
  have "owp False (collect_unreachable W g unr fn)
      (\<lambda>_ tG. \<exists>ys us fs. collected W g Z zs unr fn s ys us fs (fst tG)) (\<lambda>_ _. False) (s, G)"
    by (rule owp_collect_unreachable [OF assms]) auto
  from owp_returns [OF this] show ?thesis by auto
qed

theorem collection_divides_generation_witness:
  "\<exists>t G' ys us fs. collect_unreachable small_world 0 gc_unr gc_fin (small_store, \<lparr>gen_count = \<lambda>i. 0, gen_threshold = \<lambda>i. 10,
       long_lived_total = 0, long_lived_pending = 0, debug_saveall = False, garbage = []\<rparr>) = Some ((t, G'), Inr ())
     \<and> collected small_world 0 (\<lambda>i. if i = 0 then [gc_b, gc_a, gc_c] else []) [gc_b, gc_a, gc_c] gc_unr gc_fin small_store
         ys us fs t"
  by (rule collection_divides_generation [OF small_pre])

text \<open>
  C38: garbage is found: objects of the collected generations whose every reference comes from
  among themselves, and none of which has a \<open>tp_del\<close>, are all in the list of the objects to be
  cleared after one collection, whatever cycles they form.
\<close>

lemma internal_refs_split: "internal_refs W zs y = internal_refs W (filter P zs) y + internal_refs W (filter (\<lambda>x. \<not> P x) zs) y"
  by (induction zs) (simp_all add: internal_refs_def)

lemma isolated_unreachable:
  assumes g: "graph_ok W zs" and C: "C \<subseteq> set zs"
    and r: "\<And>y. y \<in> C \<Longrightarrow> ob_refcnt W (FROM_GC y) = int (internal_refs W (filter (\<lambda>x. x \<in> C) zs) y)"
  shows "y \<in> C \<Longrightarrow> \<not> gc_reach W zs y" "x \<in> set zs \<Longrightarrow> x \<notin> C \<Longrightarrow> y \<in> C \<Longrightarrow> y \<notin> set (kids W x)"
proof -
  have z: "internal_refs W (filter (\<lambda>x. x \<notin> C) zs) y = 0" if "y \<in> C" for y
    using graph_okD(6) [OF g, of y] r [OF that] internal_refs_split [of W zs y "\<lambda>x. x \<in> C"] that C by auto
  show out: "y \<notin> set (kids W x)" if x: "x \<in> set zs" "x \<notin> C" "y \<in> C" for x y
  proof
    assume "y \<in> set (kids W x)"
    then have "y \<in> set (concat (map (kids W) (filter (\<lambda>x. x \<notin> C) zs)))" using x by auto
    then have "internal_refs W (filter (\<lambda>x. x \<notin> C) zs) y \<noteq> 0" by (simp add: internal_refs_def count_list_0_iff)
    then show False using z [OF x(3)] by simp
  qed
  have "y \<notin> C" if "gc_reach W zs y" for y
    using that
  proof (induction rule: gc_reach.induct)
    case (gc_root y)
    then show ?case using r [of y] z [of y] internal_refs_split [of W zs y "\<lambda>x. x \<in> C"] by (auto simp: external_refs_def)
  next
    case (gc_ref x y)
    then show ?case using out [of x y] gc_reach_in by blast
  qed
  then show "y \<in> C \<Longrightarrow> \<not> gc_reach W zs y" by blast
qed

theorem garbage_is_collected:
  assumes pre: "collect_pre W g Z zs unr fn s" and C: "C \<subseteq> set zs"
    and "\<And>y. y \<in> C \<Longrightarrow> ob_refcnt W (FROM_GC y) = int (internal_refs W (filter (\<lambda>x. x \<in> C) zs) y)"
    and nd: "\<And>y. y \<in> C \<Longrightarrow> \<not> tp_del W (FROM_GC y)"
  shows "\<exists>t G' us. collect_unreachable W g unr fn (s, G) = Some ((t, G'), Inr ()) \<and> gc_list W t unr us \<and> C \<subseteq> set us"
proof -
  have gr: "graph_ok W zs" using pre unfolding collect_pre_def by blast
  note iso = isolated_unreachable [OF gr C assms(3)]
  have U: "C \<subseteq> unreachable_set W zs" using C iso(1) by (auto simp: unreachable_set_def)
  have "y \<notin> C" if "legacy_reach W (unreachable_set W zs) y" for y
    using that
  proof (induction rule: legacy_reach.induct)
    case (legacy_root y)
    then show ?case using nd by blast
  next
    case (legacy_ref x y)
    have "x \<in> set zs" using legacy_reach_in [OF legacy_ref(1)] by (simp add: unreachable_set_def)
    then show ?case using iso(2) [of x y] legacy_ref by blast
  qed
  then have L: "C \<inter> uncollectable_set W zs = {}" by (auto simp: uncollectable_set_def)
  have "owp False (collect_unreachable W g unr fn)
      (\<lambda>_ tG. \<exists>us. gc_list W (fst tG) unr us \<and> C \<subseteq> set us) (\<lambda>_ _. False) (s, G)"
  proof (rule owp_collect_unreachable [OF pre])
    fix ys us fs t G' assume c: "collected W g Z zs unr fn s ys us fs t"
    have "gc_list W t unr us" "set us = unreachable_set W zs - uncollectable_set W zs"
      using c unfolding collected_def two_lists_def by blast+
    then show "\<exists>us. gc_list W (fst (t, G')) unr us \<and> C \<subseteq> set us" using U L by auto
  qed
  from owp_returns [OF this] show ?thesis by auto
qed

theorem garbage_is_collected_witness:
  "\<exists>t G' us. collect_unreachable small_world 0 gc_unr gc_fin (small_store, \<lparr>gen_count = \<lambda>i. 0, gen_threshold = \<lambda>i. 10,
       long_lived_total = 0, long_lived_pending = 0, debug_saveall = False, garbage = []\<rparr>) = Some ((t, G'), Inr ())
     \<and> gc_list small_world t gc_unr us \<and> {gc_b, gc_c} \<subseteq> set us"
proof (rule garbage_is_collected [OF small_pre])
  show "ob_refcnt small_world (FROM_GC y) = int (internal_refs small_world (filter (\<lambda>x. x \<in> {gc_b, gc_c}) [gc_b, gc_a, gc_c]) y)"
    if "y \<in> {gc_b, gc_c}" for y
  proof -
    have "filter (\<lambda>x. x \<in> {gc_b, gc_c}) [gc_b, gc_a, gc_c] = [gc_b, gc_c]" by (simp add: gc_addresses)
    moreover have "ob_refcnt small_world (FROM_GC y) = 1"
      using that by (auto simp: small_world_def gc_addresses FROM_GC_def)
    ultimately show ?thesis using that by (auto simp: internal_refs_def small_kids) (simp_all add: gc_addresses)
  qed
  show "\<not> tp_del small_world (FROM_GC y)" for y by (simp add: small_world_def)
qed simp

text \<open>
  C39: after the finalizers have run, \<open>handle_resurrected_objects\<close> keeps in its second list exactly
  the objects that are unreachable still, with the flags of their next pointers cleared, and the
  objects that were brought back are at the end of the old generation.
\<close>

theorem resurrected_objects_survive:
  assumes "graph_ok W us" and "gc_list W s unr us" and "gc_list W s old os"
    and "set (unr # us) \<inter> set (old # os) = {}"
    and "\<And>y. gc_heap W y \<Longrightarrow> coll s y \<Longrightarrow> y \<in> set us"
    and "gc_heap W still" and "still \<notin> set (unr # us) \<union> set (old # os)"
  shows "\<exists>t xs vs. handle_resurrected_objects W unr still old s = Some (t, Inr ())
     \<and> gc_list W t unr [] \<and> gc_list W t old (os @ xs) \<and> gc_list W t still vs \<and> distinct (xs @ vs)
     \<and> set xs = {y \<in> set us. gc_reach W us y} \<and> set vs = {y \<in> set us. \<not> gc_reach W us y}
     \<and> (\<forall>y. gc_heap W y \<longrightarrow> (coll t y \<longleftrightarrow> y \<in> set vs))"
proof -
  have "owp False (handle_resurrected_objects W unr still old)
     (\<lambda>_ t. \<exists>xs vs. gc_list W t unr [] \<and> gc_list W t old (os @ xs) \<and> gc_list W t still vs \<and> distinct (xs @ vs)
       \<and> set xs = {y \<in> set us. gc_reach W us y} \<and> set vs = {y \<in> set us. \<not> gc_reach W us y}
       \<and> (\<forall>y. gc_heap W y \<longrightarrow> (coll t y \<longleftrightarrow> y \<in> set vs))) (\<lambda>_ _. False) s"
  proof (rule owp_handle_resurrected_objects [OF assms(1-4) _ assms(6,7)])
    show "y \<in> set us" if "gc_heap W y" "coll s y" for y by (rule assms(5) [OF that])
  qed (intro exI conjI allI impI)
  from owp_returns [OF this] show ?thesis by auto
qed

theorem resurrected_objects_survive_witness:
  "\<exists>t xs vs. handle_resurrected_objects small_world gc_young gc_unr gc_oldest small_store = Some (t, Inr ())
     \<and> gc_list small_world t gc_oldest xs \<and> gc_list small_world t gc_unr vs \<and> gc_a \<in> set xs"
proof -
  have "external_refs small_world [gc_b, gc_a, gc_c] gc_a = 1"
    by (simp add: external_refs_def internal_refs_def small_kids) (simp add: small_world_def gc_addresses)
  then have r: "gc_reach small_world [gc_b, gc_a, gc_c] gc_a" by (intro gc_root) simp_all
  have d: "set (gc_young # [gc_b, gc_a, gc_c]) \<inter> set (gc_oldest # []) = {}"
    "gc_unr \<notin> set (gc_young # [gc_b, gc_a, gc_c]) \<union> set (gc_oldest # [])"
    by (simp_all add: gc_addresses)
  have h: "gc_heap small_world gc_unr" by (simp add: small_world_def)
  have c: "y \<in> set [gc_b, gc_a, gc_c]" if "gc_heap small_world y" "coll small_store y" for y
    using that small_views(13) by blast
  obtain t xs vs where t: "handle_resurrected_objects small_world gc_young gc_unr gc_oldest small_store = Some (t, Inr ())"
    "gc_list small_world t gc_oldest ([] @ xs)" "gc_list small_world t gc_unr vs"
    "set xs = {y \<in> set [gc_b, gc_a, gc_c]. gc_reach small_world [gc_b, gc_a, gc_c] y}"
    using resurrected_objects_survive [OF small_graph small_lists(1,3) d(1) c h d(2)] by blast
  have "gc_a \<in> set xs" using t(4) r by simp
  then show ?thesis using t(1-3) by (intro exI [of _ t] exI [of _ xs] exI [of _ vs]) simp
qed

text \<open>
  C40: the lists of heads are lists: appending, removing, moving, merging, tracking and untracking
  have their effect on the sequence of elements, the size is the length, and no step goes to an
  address that is not a head.
\<close>

theorem gc_lists_refine_lists:
  assumes ok: "heads_ok W" and l: "gc_list W s ls (xs @ g # ys)" and l2: "gc_list W s ls2 zs"
    and dis: "set (ls # xs @ g # ys) \<inter> set (ls2 # zs) = {}"
    and n: "gc_heap W n" "n \<notin> set (ls # xs @ g # ys)"
  shows "(\<exists>t. gc_list_append W n ls s = Some (t, Inr ()) \<and> gc_list W t ls (xs @ g # ys @ [n]))
     \<and> (\<exists>t. gc_list_remove W g s = Some (t, Inr ()) \<and> gc_list W t ls (xs @ ys))
     \<and> (\<exists>t. gc_list_move W g ls2 s = Some (t, Inr ()) \<and> gc_list W t ls (xs @ ys) \<and> gc_list W t ls2 (zs @ [g]))
     \<and> (\<exists>t. gc_list_merge W ls ls2 s = Some (t, Inr ()) \<and> gc_list W t ls [] \<and> gc_list W t ls2 (zs @ xs @ g # ys))
     \<and> gc_list_size W ls s = Some (s, Inr (int (length (xs @ g # ys))))
     \<and> (nx s n = 0 \<and> \<not> coll s n \<longrightarrow>
          (\<exists>t. PyObject_GC_TRACK W ls (FROM_GC n) s = Some (t, Inr ()) \<and> gc_list W t ls (xs @ g # ys @ [n])))
     \<and> (\<exists>t. PyObject_GC_UNTRACK W (FROM_GC g) s = Some (t, Inr ()) \<and> gc_list W t ls (xs @ ys) \<and> nx t g = 0)"
proof -
  have r: "\<exists>t. m s = Some (t, Inr ()) \<and> P t" if "owp False m (\<lambda>_ t. P t) (\<lambda>_ _. False) s" for m :: "(gc_store, unit) pyo" and P
    using owp_returns [OF that] by auto
  have a: "\<exists>t. gc_list_append W n ls s = Some (t, Inr ()) \<and> gc_list W t ls (xs @ g # ys @ [n])"
    by (rule r, rule owp_gc_list_append [OF ok l n]) simp
  have b: "\<exists>t. gc_list_remove W g s = Some (t, Inr ()) \<and> gc_list W t ls (xs @ ys)"
    by (rule r, rule owp_gc_list_remove [OF ok l])
  have c: "\<exists>t. gc_list_move W g ls2 s = Some (t, Inr ()) \<and> gc_list W t ls (xs @ ys) \<and> gc_list W t ls2 (zs @ [g])"
    by (rule r, rule owp_gc_list_move [OF ok l l2 dis]) blast
  have e: "\<exists>t. gc_list_merge W ls ls2 s = Some (t, Inr ()) \<and> gc_list W t ls [] \<and> gc_list W t ls2 (zs @ xs @ g # ys)"
    by (rule r, rule owp_gc_list_merge [OF ok l l2 dis]) blast
  have "owp False (gc_list_size W ls) (\<lambda>n t. n = int (length (xs @ g # ys)) \<and> t = s) (\<lambda>_ _. False) s"
    by (simp add: owp_gc_list_size [OF l])
  from owp_returns [OF this] have f: "gc_list_size W ls s = Some (s, Inr (int (length (xs @ g # ys))))" by auto
  have h: "\<exists>t. PyObject_GC_UNTRACK W (FROM_GC g) s = Some (t, Inr ()) \<and> gc_list W t ls (xs @ ys) \<and> nx t g = 0"
    by (rule r, rule owp_PyObject_GC_UNTRACK [OF ok]) (use l in auto)
  have k: "\<exists>t. PyObject_GC_TRACK W ls (FROM_GC n) s = Some (t, Inr ()) \<and> gc_list W t ls (xs @ g # ys @ [n])"
    if u: "nx s n = 0 \<and> \<not> coll s n"
  proof -
    have v: "nx s (AS_GC (FROM_GC n)) = 0" "\<not> coll s (AS_GC (FROM_GC n))" using u by simp_all
    have w: "gc_heap W (AS_GC (FROM_GC n))" "AS_GC (FROM_GC n) \<notin> set (ls # xs @ g # ys)" using n by simp_all
    show ?thesis by (rule r, rule owp_PyObject_GC_TRACK [OF ok l w v]) simp
  qed
  show ?thesis by (intro conjI a b c e f h) (rule impI, erule k)
qed

theorem gc_lists_refine_lists_witness:
  "\<exists>t. gc_list_move small_world gc_a gc_middle small_store = Some (t, Inr ())
     \<and> gc_list small_world t gc_young [gc_b, gc_c] \<and> gc_list small_world t gc_middle [gc_a]"
proof -
  have l: "gc_list small_world small_store gc_young ([gc_b] @ gc_a # [gc_c])" using small_lists(1) by simp
  have d: "set (gc_young # [gc_b] @ gc_a # [gc_c]) \<inter> set (gc_middle # []) = {}" "gc_unr \<notin> set (gc_young # [gc_b] @ gc_a # [gc_c])"
    by (simp_all add: gc_addresses)
  have h: "gc_heap small_world gc_unr" by (simp add: small_world_def)
  show ?thesis using gc_lists_refine_lists [OF small_heads l small_lists(2) d(1) h d(2)] by simp
qed

end
