(* ===== verification/Spec2Isabelle.thy ===== *)
theory Spec2Isabelle
  imports PyLongKaratsuba PyLongConv PyLongDiv PyLongShift PyLongBits PyLongToBytes PyHeapq PyBisect PyListOps PySortSpec PyDictKeys PyGcClaims
begin

text \<open>
  A verification library for the core of the CPython 3.10 interpreter: the integer objects
  (\<open>Objects/longobject.c\<close>), the list objects with their sort (\<open>Objects/listobject.c\<close>), the
  comparison protocol (\<open>Objects/object.c\<close>), the heap queue and bisection modules written on top of
  them (\<open>Modules/_heapqmodule.c\<close>, \<open>Modules/_bisectmodule.c\<close>), the dictionaries
  (\<open>Objects/dictobject.c\<close>, \<open>Objects/dict-common.h\<close>) and the cycle collector (\<open>Modules/gcmodule.c\<close>,
  \<open>Include/internal/pycore_gc.h\<close>).

  \<^bold>\<open>How the code is modelled.\<close> A C struct is a record with the fields of the source, a C integer is
  a word of its width where its wrap-around can matter (digits and their double-width products are
  \<open>32 word\<close> and \<open>64 word\<close> values) and an \<open>int\<close> with the range checks written out where the source checks
  it. A pure function that can raise returns \<open>pyerr + 'a\<close>. An operation on a mutable object is a
  state transformer that also returns the state when it raises (\<open>PyState\<close>); user code that runs
  inside it, a comparison or a key function, is a parameter that may change the state in any
  way its hypotheses allow. An \<open>assert\<close>, and a read or write outside an array or of a slot
  that was not written, is the error \<open>AssertionFailed\<close>: proving that it does not occur is part of
  every correctness theorem. What may run forever (a probe of a dict, a walk over a linked list) is
  a \<open>partial_function\<close> in the option type (\<open>PyLoop\<close>), where \<open>None\<close> is a run without end; the theorems say
  \<open>Some\<close>, that the operation returns. Other loops are recursive functions with termination proofs; where the
  source's loop is bounded by a quantity that shrinks by a protocol rather than by its own test
  (\<open>merge_collapse\<close>, the march of the sort), the model recurses on that quantity and the theorem
  says that it does not run out.

  \<^bold>\<open>Theories.\<close>
  \<^item> \<open>PyPrelude\<close>: errors, the result type, sequencing, generic lemmas. \<open>PyState\<close>: stateful operations
    and their weakest preconditions.
  \<^item> \<open>PyLongRep\<close>: \<open>struct _longobject\<close>, its value, \<open>long_normalize\<close>, small integers and conversion from
    C. \<open>PyLongArith\<close>: \<open>x_add\<close>, \<open>x_sub\<close>, \<open>long_add\<close>, \<open>long_sub\<close>, comparison, negation; the locales
    \<open>int_unop\<close> and \<open>int_binop\<close> state what an operation on integer objects promises, and every
    operation interprets one of them. \<open>PyLongMul\<close> and \<open>PyLongKaratsuba\<close>: \<open>x_mul\<close>, \<open>k_mul\<close>,
    \<open>k_lopsided_mul\<close>, equivalent to each other and exact. \<open>PyLongDiv\<close>: \<open>inplace_divrem1\<close>, \<open>x_divrem\<close>
    (Knuth's algorithm D), \<open>l_divmod\<close>. \<open>PyLongShift\<close>, \<open>PyLongBits\<close>: shifts and bitwise operations in
    two's complement. \<open>PyLongConv\<close>: conversion to C integers, bit length, hash. \<open>PyLongBytes\<close>,
    \<open>PyLongToBytes\<close>: integers from and to byte arrays, \<open>int.to_bytes\<close>, \<open>long long\<close>.
  \<^item> \<open>PyList\<close>: \<open>PyListObject\<close>, its representation invariant \<open>wf_list\<close>, resizing, insertion, slices and slice
    assignment. \<open>PyListOps\<close>: deletion, reversal, repetition, extension, searches, comparison.
  \<^item> \<open>PyOrder\<close>: \<open>do_richcompare\<close>, and the locale \<open>comparison\<close>: a \<open><\<close> that is a strict weak order.
  \<^item> \<open>PyHeapq\<close>, \<open>PyBisect\<close>: the two modules, each safe under any comparison and correct under the
    locale \<open>comparison\<close>; \<open>priority_queue\<close> is the abstract queue a heap refines.
  \<^item> \<open>PySort\<close>, \<open>PySortMerge\<close>, \<open>PySortHi\<close>, \<open>PySortMain\<close>, \<open>PySortSpec\<close>: the list sort. \<open>PySort\<close> has all
    definitions, the locale \<open>sort_contract\<close> and the searches; the next two prove \<open>merge_lo\<close> and
    \<open>merge_hi\<close>; \<open>PySortMain\<close> has the stack of runs and the march; \<open>PySortSpec\<close> uses the contract twice,
    for any comparison and for a strict weak order.
  \<^item> \<open>PyLoop\<close>: operations that may not return, and their weakest preconditions.
  \<^item> \<open>PyDict\<close>: all definitions of the dictionaries. \<open>PyDictProbe\<close>: the probe sequence visits every slot.
    \<open>PyDictInv\<close>: the invariant of a table. \<open>PyDictTable\<close>: insertion into a table, rebuilding it.
    \<open>PyDictOps\<close>, \<open>PyDictWhole\<close>: each operation, and whole-dict operations, under the invariant.
    \<open>PyDictLook\<close>: the search, under the locale \<open>dict_keys\<close>, a key comparison that is an equivalence
    compatible with the hash. \<open>PyDictSafe\<close>: safety under any key comparison; the other dict of a merge or
    a comparison is in the rest of the state, where the comparison may change it too. \<open>PyDictSpec\<close>: an association
    list in insertion order, which the dict refines. \<open>PyDictKeys\<close>: integer objects as keys.
  \<^item> \<open>PyGc\<close>: all definitions of the collector, on the two words of each \<open>PyGC_Head\<close>. \<open>PyGcBits\<close>: the words
    read as link, flags and count. \<open>PyGcLists\<close>: \<open>gc_list\<close>, the elements of a circular list, and what
    the list operations do to it. \<open>PyGcRefs\<close>: the loop rule, \<open>validate_list\<close>, \<open>update_refs\<close>,
    \<open>subtract_refs\<close>. \<open>PyGcMove\<close>, \<open>PyGcDeduce\<close>, \<open>PyGcSpec\<close>: \<open>move_unreachable\<close>, its invariant and what
    \<open>deduce_unreachable\<close> returns. \<open>PyGcFinal\<close>, \<open>PyGcResult\<close>: legacy finalizers, resurrection, and why what
    is cleared is garbage. \<open>PyGcTrack\<close>: tracking and untracking. \<open>PyGcCollect\<close>: the generations and the
    first half of \<open>gc_collect_main\<close>. \<open>PyGcClaims\<close>: the theorems on a collection, and a small program.

  \<^bold>\<open>Bounds.\<close> \<open>LIST_MAX\<close> is the largest number of pointers an allocation can hold; \<open>wf_list\<close> bounds
  \<open>allocated\<close> by it, so no index or size computation of a list overflows. Integer objects are bounded by
  \<open>MAX_LONG_DIGITS\<close>, and the operations raise the same error as the source beyond it. The stack of
  pending runs has 85 slots; \<open>pending_bound\<close> shows from the Fibonacci growth of the runs that no
  list within \<open>LIST_MAX\<close> fills it. A dict holds at most \<open>huge\<close> items, far above what memory can hold, so
  that the sizes of its tables do not wrap. A reference count is below \<open>2 ^ 61\<close>, so that it fits beside
  the two flags of \<open>gc_prev\<close>.

  \<^bold>\<open>Not modelled.\<close> Reference counts and deallocation, failures of the allocator other than for a size
  out of range, signals and the recursion limit, the free lists; the parsing and printing of
  integers; the choice of a specialised comparison before a sort. Of the dictionaries: tables with
  the values apart (split tables), lookups specialised to string keys, version tags, and a table
  that is freed and whose address is used again during a lookup or a merge. Of the lists: the failure
  of \<open>PySequence_Fast\<close> and of the recycle buffer in a slice assignment, and that the keys and the
  temporary array of a small sort share \<open>ms.temparray\<close>. Identity of two objects that are
  compared is equality of their values in the model. Of the byte arrays: what a failed
  \<open>_PyLong_AsByteArray\<close> leaves in its buffer. Of the collector: the content of the heads of its
  local lists before \<open>gc_list_init\<close> (taken to have the collecting bit clear), and the phases that
  run code of the program (weak reference callbacks, finalizers, \<open>tp_clear\<close>); \<open>tp_traverse\<close> and the
  reference counts are parameters, and the hypothesis \<open>graph_ok\<close> says what the collector relies on in
  them. The rest of the interpreter
  (compiler, evaluation loop, the other object types, the extension modules) is listed in the
  manifest with the reason.
\<close>

end
